(* ===== verification/Prelude.thy ===== *)
theory Prelude
  imports Complex_Main "HOL-Library.Signed_Division" "HOL-Library.Word" "HOL-Library.Multiset"
begin

text \<open>
  Shared vocabulary of the development: Go's fixed-width integers written as
  integers with the wrap-around spelled out, slices with their range checks,
  loops over a list that may stop with a panic, and the list facts that several
  components use.

  A Go value of type \<open>int32\<close> is an \<open>int\<close> and every arithmetic
  operation of the code on such values passes its result through \<open>i32\<close>;
  \<open>int64\<close> and \<open>int\<close> pass through \<open>i64\<close> where a
  product or sum of unchecked inputs could leave the range.
\<close>

named_theorems go_int
named_theorems go_step

subsection \<open>Fixed-width integers\<close>

definition i32 :: "int \<Rightarrow> int" where
  "i32 x = (x + 2147483648) mod 4294967296 - 2147483648"

definition i64 :: "int \<Rightarrow> int" where
  "i64 x = (x + 9223372036854775808) mod 18446744073709551616 - 9223372036854775808"

definition in32 :: "int \<Rightarrow> bool" where
  "in32 x \<longleftrightarrow> - 2147483648 \<le> x \<and> x < 2147483648"

definition in64 :: "int \<Rightarrow> bool" where
  "in64 x \<longleftrightarrow> - 9223372036854775808 \<le> x \<and> x < 9223372036854775808"

lemma i32_id [simp]: "in32 x \<Longrightarrow> i32 x = x"
  by (simp add: i32_def in32_def)

lemma i64_id [simp]: "in64 x \<Longrightarrow> i64 x = x"
  by (simp add: i64_def in64_def)

lemma in32_i32 [simp]: "in32 (i32 x)"
  by (simp add: i32_def in32_def)

lemma in64_i64 [simp]: "in64 (i64 x)"
  by (simp add: i64_def in64_def)

lemma in32_I [go_int]: "- 2147483648 \<le> x \<Longrightarrow> x < 2147483648 \<Longrightarrow> in32 x"
  by (simp add: in32_def)

text \<open>The written-out wrap-around is two's complement reading of a 32-bit word.\<close>

lemma i32_sint: "i32 x = sint (word_of_int x :: 32 word)"
  by (simp add: i32_def sint_sbintrunc' signed_take_bit_eq_take_bit_shift
      take_bit_eq_mod)

lemma i64_sint: "i64 x = sint (word_of_int x :: 64 word)"
  by (simp add: i64_def sint_sbintrunc' signed_take_bit_eq_take_bit_shift
      take_bit_eq_mod)

subsection \<open>Loops that may panic\<close>

text \<open>
  A loop over a list of indices whose body may panic (a slice expression out of
  range, a nil dereference). \<open>None\<close> is the panic.
\<close>

fun fold_opt :: "('a \<Rightarrow> 's \<Rightarrow> 's option) \<Rightarrow> 'a list \<Rightarrow> 's \<Rightarrow> 's option" where
  "fold_opt f [] s = Some s"
| "fold_opt f (x # xs) s = (case f x s of None \<Rightarrow> None | Some t \<Rightarrow> fold_opt f xs t)"

lemma fold_opt_append:
  "fold_opt f (xs @ ys) s = Option.bind (fold_opt f xs s) (fold_opt f ys)"
  by (induction xs arbitrary: s) (auto split: option.splits)

text \<open>Total correctness of such a loop: the body keeps an invariant over the processed prefix.\<close>

lemma fold_opt_invariant:
  assumes "P [] s"
    and "\<And>ys x zs t. xs = ys @ x # zs \<Longrightarrow> P ys t \<Longrightarrow> \<exists>u. f x t = Some u \<and> P (ys @ [x]) u"
  shows "\<exists>t. fold_opt f xs s = Some t \<and> P xs t"
  using assms
proof (induction xs rule: rev_induct)
  case Nil
  then show ?case by simp
next
  case (snoc x xs)
  have "\<exists>t. fold_opt f xs s = Some t \<and> P xs t"
  proof (rule snoc.IH)
    show "P [] s" by (rule snoc.prems(1))
    show "\<exists>u. f y t = Some u \<and> P (ys @ [y]) u" if "xs = ys @ y # zs" "P ys t" for ys y zs t
      using snoc.prems(2)[of ys y "zs @ [x]" t] that by simp
  qed
  then obtain t where t: "fold_opt f xs s = Some t" "P xs t" by blast
  then obtain u where "f x t = Some u" "P (xs @ [x]) u"
    using snoc.prems(2)[of xs x "[]" t] by auto
  with t show ?case by (auto simp: fold_opt_append)
qed

text \<open>The integers \<open>a, a + 1, \<dots>, b - 1\<close>, the index range of a \<open>for\<close> loop.\<close>

definition range_int :: "int \<Rightarrow> int \<Rightarrow> int list" where
  "range_int a b = [a..b - 1]"

lemma set_range_int [simp]: "set (range_int a b) = {a..<b}"
  by (auto simp: range_int_def)

lemma distinct_range_int [simp]: "distinct (range_int a b)"
  by (simp add: range_int_def)

subsection \<open>Slices\<close>

text \<open>\<open>xs[a:b]\<close>: panics (\<open>None\<close>) unless \<open>0 \<le> a \<le> b \<le> len(xs)\<close>.\<close>

definition slice :: "'a list \<Rightarrow> int \<Rightarrow> int \<Rightarrow> 'a list option" where
  "slice xs a b = (if 0 \<le> a \<and> a \<le> b \<and> b \<le> int (length xs)
     then Some (take (nat (b - a)) (drop (nat a) xs)) else None)"

text \<open>Writing a row back over the positions it was sliced from.\<close>

definition splice :: "'a list \<Rightarrow> nat \<Rightarrow> 'a list \<Rightarrow> 'a list" where
  "splice xs k row = take k xs @ row @ drop (k + length row) xs"

lemma length_splice [simp]: "k + length row \<le> length xs \<Longrightarrow> length (splice xs k row) = length xs"
  by (simp add: splice_def)

lemma nth_splice:
  "k + length row \<le> length xs \<Longrightarrow> i < length xs \<Longrightarrow>
   splice xs k row ! i = (if k \<le> i \<and> i < k + length row then row ! (i - k) else xs ! i)"
  by (auto simp: splice_def nth_append)

lemma slice_Some:
  "0 \<le> a \<Longrightarrow> a \<le> b \<Longrightarrow> b \<le> int (length xs) \<Longrightarrow>
   slice xs a b = Some (take (nat (b - a)) (drop (nat a) xs))"
  by (simp add: slice_def)

subsection \<open>Searching and updating lists\<close>

text \<open>The index of the first element satisfying a predicate, as \<open>for i, t := range\<close> finds it.\<close>

fun find_index :: "('a \<Rightarrow> bool) \<Rightarrow> 'a list \<Rightarrow> nat option" where
  "find_index P [] = None"
| "find_index P (x # xs) = (if P x then Some 0 else map_option Suc (find_index P xs))"

lemma find_index_Some:
  "find_index P xs = Some i \<Longrightarrow> i < length xs \<and> P (xs ! i) \<and> (\<forall>j<i. \<not> P (xs ! j))"
  by (induction xs arbitrary: i) (auto split: if_splits simp: less_Suc_eq_0_disj nth_Cons')

lemma find_index_None: "find_index P xs = None \<longleftrightarrow> (\<forall>x\<in>set xs. \<not> P x)"
  by (induction xs) auto

lemma find_index_lt [dest]: "find_index P xs = Some i \<Longrightarrow> i < length xs"
  by (drule find_index_Some) simp

text \<open>\<open>append(xs[:i], xs[i+1:]...)\<close>.\<close>

definition remove_at :: "nat \<Rightarrow> 'a list \<Rightarrow> 'a list" where
  "remove_at i xs = take i xs @ drop (Suc i) xs"

text \<open>The grow, shift, store idiom that inserts at an index.\<close>

definition insert_at :: "nat \<Rightarrow> 'a \<Rightarrow> 'a list \<Rightarrow> 'a list" where
  "insert_at i x xs = take i xs @ x # drop i xs"

lemma length_remove_at [simp]: "i < length xs \<Longrightarrow> length (remove_at i xs) = length xs - 1"
  by (simp add: remove_at_def)

lemma length_insert_at [simp]: "i \<le> length xs \<Longrightarrow> length (insert_at i x xs) = Suc (length xs)"
  by (simp add: insert_at_def)

lemma mset_insert_at [simp]: "mset (insert_at i x xs) = add_mset x (mset xs)"
  by (simp add: insert_at_def) (metis append_take_drop_id mset_append)

lemma mset_remove_at: "i < length xs \<Longrightarrow> add_mset (xs ! i) (mset (remove_at i xs)) = mset xs"
proof -
  assume i: "i < length xs"
  have "mset xs = mset (take i xs @ xs ! i # drop (Suc i) xs)"
    using i by (simp add: id_take_nth_drop[symmetric])
  then show ?thesis by (simp add: remove_at_def)
qed

lemma set_remove_at_subset: "set (remove_at i xs) \<subseteq> set xs"
  by (auto simp: remove_at_def dest: in_set_takeD in_set_dropD)

lemma distinct_remove_at: "distinct xs \<Longrightarrow> distinct (remove_at i xs)"
  unfolding remove_at_def
  using set_take_disj_set_drop_if_distinct[of xs i "Suc i"] by auto

lemma map_remove_at: "map f (remove_at i xs) = remove_at i (map f xs)"
  by (simp add: remove_at_def take_map drop_map)

lemma map_insert_at: "map f (insert_at i x xs) = insert_at i (f x) (map f xs)"
  by (simp add: insert_at_def take_map drop_map)

lemma nth_insert_at [simp]: "i \<le> length xs \<Longrightarrow> insert_at i x xs ! i = x"
  by (simp add: insert_at_def nth_append)

text \<open>The newest \<open>n\<close> elements of a log, \<open>xs[len(xs)-n:]\<close>.\<close>

definition last_n :: "nat \<Rightarrow> 'a list \<Rightarrow> 'a list" where
  "last_n n xs = drop (length xs - n) xs"

lemma length_last_n [simp]: "length (last_n n xs) = min n (length xs)"
  by (auto simp: last_n_def)

lemma last_n_all [simp]: "length xs \<le> n \<Longrightarrow> last_n n xs = xs"
  by (simp add: last_n_def)

lemma last_n_snoc: "0 < n \<Longrightarrow> last_n n (last_n n xs @ [x]) = last_n n (xs @ [x])"
  by (cases "length xs \<le> n") (auto simp: last_n_def Suc_diff_le)

lemma set_last_n: "set (last_n n xs) \<subseteq> set xs"
  by (auto simp: last_n_def dest: in_set_dropD)

subsection \<open>Sums over the keys of a map\<close>

lemma sum_list_cong_notin:
  fixes f :: "'a \<Rightarrow> int"
  shows "k \<notin> set xs \<Longrightarrow> sum_list (map (f(k := v)) xs) = sum_list (map f xs)"
  by (rule arg_cong[where f = sum_list]) auto

lemma sum_list_upd_distinct:
  fixes f :: "'a \<Rightarrow> int"
  assumes "distinct xs" "k \<in> set xs"
  shows "sum_list (map (f(k := v)) xs) = sum_list (map f xs) - f k + v"
  using assms
proof (induction xs)
  case Nil
  then show ?case by simp
next
  case (Cons x xs)
  show ?case
  proof (cases "x = k")
    case True
    with Cons.prems have "sum_list (map (f(k := v)) xs) = sum_list (map f xs)"
      by (intro sum_list_cong_notin) simp
    with True show ?thesis by (simp del: fun_upd_apply) simp
  next
    case False
    with Cons show ?thesis by simp
  qed
qed

end
