(* ===== verification/Geometry.thy ===== *)
theory Geometry
  imports Prelude
begin

text \<open>
  Integer geometry of the frame path: \<open>internal/frame/geom.go\<close> (points,
  sizes, rectangles, viewports), the floor division of
  \<open>internal/frame/math.go\<close>, and the tile coordinates of
  \<open>internal/frame/tile.go\<close>. All coordinates are \<open>int32\<close>; the
  layout-space types of \<open>geom.go\<close> (\<open>PointF\<close>, \<open>RectF\<close>)
  are floating point and are not modelled.
\<close>

record point =
  pX :: int
  pY :: int

record gsize =
  sW :: int
  sH :: int

record rect =
  rX0 :: int
  rY0 :: int
  rX1 :: int
  rY1 :: int

abbreviation Pt :: "int \<Rightarrow> int \<Rightarrow> point" where
  "Pt x y \<equiv> \<lparr>pX = x, pY = y\<rparr>"

abbreviation Sz :: "int \<Rightarrow> int \<Rightarrow> gsize" where
  "Sz w h \<equiv> \<lparr>sW = w, sH = h\<rparr>"

subsection \<open>Points and sizes\<close>

definition point_translate :: "point \<Rightarrow> int \<Rightarrow> int \<Rightarrow> point" where
  "point_translate p dx dy = \<lparr>pX = i32 (pX p + dx), pY = i32 (pY p + dy)\<rparr>"

definition point_sub :: "point \<Rightarrow> point \<Rightarrow> point" where
  "point_sub p q = \<lparr>pX = i32 (pX p - pX q), pY = i32 (pY p - pY q)\<rparr>"

definition point_add :: "point \<Rightarrow> point \<Rightarrow> point" where
  "point_add p q = \<lparr>pX = i32 (pX p + pX q), pY = i32 (pY p + pY q)\<rparr>"

definition size_area :: "gsize \<Rightarrow> int" where
  "size_area s = i64 (sW s * sH s)"

definition size_empty :: "gsize \<Rightarrow> bool" where
  "size_empty s \<longleftrightarrow> sW s \<le> 0 \<or> sH s \<le> 0"

subsection \<open>Rectangles\<close>

definition rect4 :: "int \<Rightarrow> int \<Rightarrow> int \<Rightarrow> int \<Rightarrow> rect" where
  "rect4 x0 y0 x1 y1 = \<lparr>rX0 = x0, rY0 = y0, rX1 = x1, rY1 = y1\<rparr>"

definition zero_rect :: rect where
  "zero_rect = rect4 0 0 0 0"

definition rect_at :: "point \<Rightarrow> gsize \<Rightarrow> rect" where
  "rect_at p s = \<lparr>rX0 = pX p, rY0 = pY p, rX1 = i32 (pX p + sW s), rY1 = i32 (pY p + sH s)\<rparr>"

definition rect_W :: "rect \<Rightarrow> int" where
  "rect_W r = i32 (rX1 r - rX0 r)"

definition rect_H :: "rect \<Rightarrow> int" where
  "rect_H r = i32 (rY1 r - rY0 r)"

definition rect_size :: "rect \<Rightarrow> gsize" where
  "rect_size r = \<lparr>sW = rect_W r, sH = rect_H r\<rparr>"

definition rect_origin :: "rect \<Rightarrow> point" where
  "rect_origin r = \<lparr>pX = rX0 r, pY = rY0 r\<rparr>"

definition rect_empty :: "rect \<Rightarrow> bool" where
  "rect_empty r \<longleftrightarrow> rX1 r \<le> rX0 r \<or> rY1 r \<le> rY0 r"

definition rect_is_normal :: "rect \<Rightarrow> bool" where
  "rect_is_normal r \<longleftrightarrow> rX1 r \<ge> rX0 r \<and> rY1 r \<ge> rY0 r"

definition rect_canon :: "rect \<Rightarrow> rect" where
  "rect_canon r =
     (let out = r;
          out = (if rX1 out < rX0 out then out\<lparr>rX0 := rX1 out, rX1 := rX0 out\<rparr> else out);
          out = (if rY1 out < rY0 out then out\<lparr>rY0 := rY1 out, rY1 := rY0 out\<rparr> else out)
      in out)"

definition rect_contains :: "rect \<Rightarrow> point \<Rightarrow> bool" where
  "rect_contains r p \<longleftrightarrow> pX p \<ge> rX0 r \<and> pX p < rX1 r \<and> pY p \<ge> rY0 r \<and> pY p < rY1 r"

definition rect_intersects :: "rect \<Rightarrow> rect \<Rightarrow> bool" where
  "rect_intersects r q \<longleftrightarrow>
     (if rect_empty r \<or> rect_empty q then False
      else rX0 r < rX1 q \<and> rX0 q < rX1 r \<and> rY0 r < rY1 q \<and> rY0 q < rY1 r)"

definition max32 :: "int \<Rightarrow> int \<Rightarrow> int" where
  "max32 a b = (if a > b then a else b)"

definition min32 :: "int \<Rightarrow> int \<Rightarrow> int" where
  "min32 a b = (if a < b then a else b)"

definition rect_intersection :: "rect \<Rightarrow> rect \<Rightarrow> rect" where
  "rect_intersection r q =
     (let out = \<lparr>rX0 = max32 (rX0 r) (rX0 q), rY0 = max32 (rY0 r) (rY0 q),
                 rX1 = min32 (rX1 r) (rX1 q), rY1 = min32 (rY1 r) (rY1 q)\<rparr>
      in if rect_empty out then zero_rect else out)"

definition rect_union :: "rect \<Rightarrow> rect \<Rightarrow> rect" where
  "rect_union r q =
     (if rect_empty r then q
      else if rect_empty q then r
      else \<lparr>rX0 = min32 (rX0 r) (rX0 q), rY0 = min32 (rY0 r) (rY0 q),
            rX1 = max32 (rX1 r) (rX1 q), rY1 = max32 (rY1 r) (rY1 q)\<rparr>)"

definition rect_translate :: "rect \<Rightarrow> int \<Rightarrow> int \<Rightarrow> rect" where
  "rect_translate r dx dy = \<lparr>rX0 = i32 (rX0 r + dx), rY0 = i32 (rY0 r + dy),
     rX1 = i32 (rX1 r + dx), rY1 = i32 (rY1 r + dy)\<rparr>"

subsection \<open>Viewports\<close>

record viewport =
  vOffset :: point
  vSize :: gsize

definition viewport_rect :: "viewport \<Rightarrow> rect" where
  "viewport_rect v = rect_at (vOffset v) (vSize v)"

definition viewport_contains :: "viewport \<Rightarrow> point \<Rightarrow> bool" where
  "viewport_contains v p = rect_contains (viewport_rect v) p"

subsection \<open>Floor division and tile coordinates\<close>

text \<open>Go's \<open>/\<close> and \<open>%\<close> truncate, so they are \<open>sdiv\<close> and \<open>smod\<close>.\<close>

definition floorDiv :: "int \<Rightarrow> int \<Rightarrow> int" where
  "floorDiv a b =
     (if b \<le> 0 then 0
      else let q = i32 (a sdiv b)
           in if a smod b \<noteq> 0 \<and> a < 0 then i32 (q - 1) else q)"

record tile_coord =
  tcCol :: int
  tcRow :: int

abbreviation TC :: "int \<Rightarrow> int \<Rightarrow> tile_coord" where
  "TC c r \<equiv> \<lparr>tcCol = c, tcRow = r\<rparr>"

definition TileSize :: int where
  "TileSize = 256"

definition tile_size_bytes :: int where
  "tile_size_bytes = i64 (i64 (TileSize * TileSize) * 4)"

definition coord_for :: "point \<Rightarrow> int \<Rightarrow> tile_coord" where
  "coord_for p ts =
     (if ts \<le> 0 then \<lparr>tcCol = 0, tcRow = 0\<rparr>
      else \<lparr>tcCol = floorDiv (pX p) ts, tcRow = floorDiv (pY p) ts\<rparr>)"

definition coord_rect :: "tile_coord \<Rightarrow> int \<Rightarrow> rect" where
  "coord_rect c ts =
     (let x0 = i32 (tcCol c * ts); y0 = i32 (tcRow c * ts)
      in rect4 x0 y0 (i32 (x0 + ts)) (i32 (y0 + ts)))"

subsection \<open>Laws of the rectangle algebra\<close>

lemma rect4_sel [simp]:
  "rX0 (rect4 a b c d) = a" "rY0 (rect4 a b c d) = b"
  "rX1 (rect4 a b c d) = c" "rY1 (rect4 a b c d) = d"
  by (simp_all add: rect4_def)

lemma zero_rect_empty [simp]: "rect_empty zero_rect"
  by (simp add: rect_empty_def zero_rect_def)

lemma not_contains_empty [simp]: "rect_empty r \<Longrightarrow> \<not> rect_contains r p"
  by (auto simp: rect_empty_def rect_contains_def)

lemma max32_max [simp]: "max32 = max"
  by (intro ext) (simp add: max32_def max_def)

lemma min32_min [simp]: "min32 = min"
  by (intro ext) (simp add: min32_def min_def)

lemma contains_intersection [simp]:
  "rect_contains (rect_intersection r q) p \<longleftrightarrow> rect_contains r p \<and> rect_contains q p"
proof -
  have "rect_contains \<lparr>rX0 = max (rX0 r) (rX0 q), rY0 = max (rY0 r) (rY0 q),
          rX1 = min (rX1 r) (rX1 q), rY1 = min (rY1 r) (rY1 q)\<rparr> p
        \<longleftrightarrow> rect_contains r p \<and> rect_contains q p"
    by (simp add: rect_contains_def) blast
  then show ?thesis
    by (simp add: rect_intersection_def Let_def del: max_def min_def)
      (use not_contains_empty zero_rect_empty in blast)
qed

lemma empty_iff_no_point: "rect_empty r \<longleftrightarrow> (\<forall>p. \<not> rect_contains r p)"
proof
  assume none: "\<forall>p. \<not> rect_contains r p"
  then have "\<not> rect_contains r (Pt (rX0 r) (rY0 r))" by blast
  then show "rect_empty r" by (auto simp: rect_contains_def rect_empty_def)
qed auto

lemma intersects_iff_common_point:
  "rect_intersects r q \<longleftrightarrow> (\<exists>p. rect_contains r p \<and> rect_contains q p)"
proof
  assume i: "rect_intersects r q"
  then have "rect_contains r (Pt (max (rX0 r) (rX0 q)) (max (rY0 r) (rY0 q)))"
    and "rect_contains q (Pt (max (rX0 r) (rX0 q)) (max (rY0 r) (rY0 q)))"
    by (auto simp: rect_intersects_def rect_contains_def rect_empty_def split: if_splits)
  then show "\<exists>p. rect_contains r p \<and> rect_contains q p" by blast
next
  assume "\<exists>p. rect_contains r p \<and> rect_contains q p"
  then obtain p where "rect_contains r p" "rect_contains q p" by blast
  then show "rect_intersects r q"
    by (auto simp: rect_intersects_def rect_contains_def rect_empty_def)
qed

lemma intersects_iff_intersection:
  "rect_intersects r q \<longleftrightarrow> \<not> rect_empty (rect_intersection r q)"
  by (simp add: intersects_iff_common_point empty_iff_no_point)

lemma intersects_commute: "rect_intersects r q = rect_intersects q r"
  by (auto simp: intersects_iff_common_point)

lemma union_least:
  "rect_contains r p \<or> rect_contains q p \<Longrightarrow> rect_contains (rect_union r q) p"
  by (cases "rect_empty r \<or> rect_empty q")
    (auto simp: rect_union_def not_contains_empty, auto simp: rect_contains_def)

lemma canon_normal [simp]: "rect_is_normal (rect_canon r)"
  by (auto simp: rect_canon_def rect_is_normal_def Let_def)

lemma canon_id: "rect_is_normal r \<Longrightarrow> rect_canon r = r"
  by (auto simp: rect_canon_def rect_is_normal_def Let_def)

lemma in32_max: "in32 a \<Longrightarrow> in32 b \<Longrightarrow> in32 (max a b)"
  by (simp add: max_def)

lemma in32_min: "in32 a \<Longrightarrow> in32 b \<Longrightarrow> in32 (min a b)"
  by (simp add: min_def)

lemma intersection_in32:
  assumes "in32 (rX0 r)" "in32 (rY0 r)" "in32 (rX1 r)" "in32 (rY1 r)"
    "in32 (rX0 q)" "in32 (rY0 q)" "in32 (rX1 q)" "in32 (rY1 q)"
  shows "in32 (rX0 (rect_intersection r q)) \<and> in32 (rY0 (rect_intersection r q))
       \<and> in32 (rX1 (rect_intersection r q)) \<and> in32 (rY1 (rect_intersection r q))"
  using assms by (simp add: rect_intersection_def zero_rect_def Let_def in32_max in32_min)
    (simp add: in32_def)

lemma intersection_inside:
  assumes "\<not> rect_empty (rect_intersection r q)"
  shows "rX0 r \<le> rX0 (rect_intersection r q)" "rX1 (rect_intersection r q) \<le> rX1 r"
    "rY0 r \<le> rY0 (rect_intersection r q)" "rY1 (rect_intersection r q) \<le> rY1 r"
    "rX0 q \<le> rX0 (rect_intersection r q)" "rX1 (rect_intersection r q) \<le> rX1 q"
    "rY0 q \<le> rY0 (rect_intersection r q)" "rY1 (rect_intersection r q) \<le> rY1 q"
proof -
  have "rect_intersection r q = \<lparr>rX0 = max (rX0 r) (rX0 q), rY0 = max (rY0 r) (rY0 q),
      rX1 = min (rX1 r) (rX1 q), rY1 = min (rY1 r) (rY1 q)\<rparr>"
    using assms by (simp add: rect_intersection_def Let_def split: if_splits)
  then show "rX0 r \<le> rX0 (rect_intersection r q)" "rX1 (rect_intersection r q) \<le> rX1 r"
    "rY0 r \<le> rY0 (rect_intersection r q)" "rY1 (rect_intersection r q) \<le> rY1 r"
    "rX0 q \<le> rX0 (rect_intersection r q)" "rX1 (rect_intersection r q) \<le> rX1 q"
    "rY0 q \<le> rY0 (rect_intersection r q)" "rY1 (rect_intersection r q) \<le> rY1 q"
    by simp_all
qed

lemma not_empty_edges: "\<not> rect_empty r \<longleftrightarrow> rX0 r < rX1 r \<and> rY0 r < rY1 r"
  by (auto simp: rect_empty_def)

text \<open>The four edges of a rectangle are \<open>int32\<close> values.\<close>

definition rect32 :: "rect \<Rightarrow> bool" where
  "rect32 r \<longleftrightarrow> in32 (rX0 r) \<and> in32 (rY0 r) \<and> in32 (rX1 r) \<and> in32 (rY1 r)"

lemma rect32_intersection [intro]: "rect32 r \<Longrightarrow> rect32 q \<Longrightarrow> rect32 (rect_intersection r q)"
  using intersection_in32[of r q] by (simp add: rect32_def)

subsection \<open>Floor division\<close>

text \<open>The explicit correction of the truncated quotient is the mathematical floor.\<close>

lemma floorDiv_eq_div:
  assumes "in32 a" "0 < b"
  shows "floorDiv a b = a div b"
proof -
  define q r where "q = a sdiv b" and "r = a smod b"
  have eq: "a = b * q + r"
    by (simp add: q_def r_def mult_sdiv_smod_eq)
  have r: "(0 \<le> a \<longrightarrow> 0 \<le> r \<and> r < b) \<and> (a < 0 \<longrightarrow> - b < r \<and> r \<le> 0)"
    using assms(2) by (auto simp: r_def signed_modulo_int_def sgn_if)
  have "\<bar>a\<bar> div b \<le> \<bar>a\<bar>" "0 \<le> \<bar>a\<bar> div b"
    using assms(2) zdiv_mono2[of "\<bar>a\<bar>" 1 b] by (auto simp: pos_imp_zdiv_nonneg_iff)
  then have qb: "- \<bar>a\<bar> \<le> q \<and> q \<le> \<bar>a\<bar> \<and> (a < 0 \<longrightarrow> q \<le> 0)"
    using assms(2) by (auto simp: q_def signed_divide_int_def sgn_if)
  show ?thesis
  proof (cases "r \<noteq> 0 \<and> a < 0")
    case True
    have "q - 1 = a div b"
      by (rule int_div_pos_eq[symmetric, where r = "r + b"]) (use True eq r in \<open>auto simp: algebra_simps\<close>)
    moreover have "b * q \<le> q"
      using mult_right_mono_neg[of 1 b q] assms(2) qb True by simp
    then have "in32 q" "in32 (q - 1)"
      using assms(1) qb True eq r unfolding in32_def by linarith+
    ultimately show ?thesis
      using True assms(2) by (simp add: floorDiv_def q_def r_def)
  next
    case False
    have "q = a div b"
      by (rule int_div_pos_eq[symmetric, where r = r]) (use False eq r assms(2) in auto)
    moreover have "in32 q"
      using assms(1) qb by (auto simp: in32_def)
    ultimately show ?thesis
      using False assms(2) by (auto simp: floorDiv_def q_def r_def)
  qed
qed

subsection \<open>Tiles partition the plane\<close>

text \<open>A tile whose edges do not leave \<open>int32\<close>.\<close>

definition coord_fits :: "tile_coord \<Rightarrow> int \<Rightarrow> bool" where
  "coord_fits c ts \<longleftrightarrow> in32 (tcCol c * ts) \<and> in32 (tcRow c * ts)
     \<and> in32 (tcCol c * ts + ts) \<and> in32 (tcRow c * ts + ts)"

lemma coord_rect_fits:
  "coord_fits c ts \<Longrightarrow> coord_rect c ts =
     rect4 (tcCol c * ts) (tcRow c * ts) (tcCol c * ts + ts) (tcRow c * ts + ts)"
  by (simp add: coord_rect_def coord_fits_def Let_def)

lemma div_eq_iff_strip:
  fixes x q t :: int
  assumes "0 < t"
  shows "x div t = q \<longleftrightarrow> q * t \<le> x \<and> x < q * t + t"
proof
  assume "x div t = q"
  then have "x = q * t + x mod t" by auto
  then show "q * t \<le> x \<and> x < q * t + t"
    using assms by (metis add_strict_left_mono le_add_same_cancel1 pos_mod_bound pos_mod_sign)
next
  assume "q * t \<le> x \<and> x < q * t + t"
  then show "x div t = q"
    using assms by (intro int_div_pos_eq[where r = "x - q * t"]) (auto simp: algebra_simps)
qed

lemma contains_coord_rect_iff:
  assumes "0 < ts" "in32 (pX p)" "in32 (pY p)" "coord_fits c ts"
  shows "rect_contains (coord_rect c ts) p \<longleftrightarrow> c = coord_for p ts"
proof -
  have "rect_contains (coord_rect c ts) p \<longleftrightarrow> pX p div ts = tcCol c \<and> pY p div ts = tcRow c"
    using assms by (auto simp: coord_rect_fits rect_contains_def div_eq_iff_strip)
  also have "\<dots> \<longleftrightarrow> c = coord_for p ts"
    using assms by (cases c) (auto simp: coord_for_def floorDiv_eq_div)
  finally show ?thesis .
qed

lemma coord_for_fits:
  assumes "0 < ts" "in32 (pX p - ts)" "in32 (pY p - ts)" "in32 (pX p + ts)" "in32 (pY p + ts)"
  shows "coord_fits (coord_for p ts) ts"
proof -
  have "in32 (pX p)" "in32 (pY p)"
    using assms by (auto simp: in32_def)
  then have "tcCol (coord_for p ts) = pX p div ts" "tcRow (coord_for p ts) = pY p div ts"
    using assms(1) by (simp_all add: coord_for_def floorDiv_eq_div)
  moreover have "pX p div ts * ts \<le> pX p \<and> pX p < pX p div ts * ts + ts"
    "pY p div ts * ts \<le> pY p \<and> pY p < pY p div ts * ts + ts"
    using div_eq_iff_strip[OF assms(1)] by blast+
  ultimately show ?thesis
    using assms by (auto simp: coord_fits_def in32_def)
qed

text \<open>
  Every content-space point lies in exactly one tile, the one \<open>CoordFor\<close>
  names, for negative coordinates as for positive ones: floor division and the
  exclusive far edges leave no pixel uncovered and none counted twice. The bounds say
  that the tile around the point does not leave \<open>int32\<close>.
\<close>

theorem tile_lookup_unique:
  assumes "0 < ts" "in32 (pX p - ts)" "in32 (pY p - ts)" "in32 (pX p + ts)" "in32 (pY p + ts)"
  shows "rect_contains (coord_rect (coord_for p ts) ts) p
     \<and> (\<forall>c. coord_fits c ts \<and> rect_contains (coord_rect c ts) p \<longrightarrow> c = coord_for p ts)"
proof -
  have "in32 (pX p)" "in32 (pY p)"
    using assms by (auto simp: in32_def)
  with assms contains_coord_rect_iff[of ts p] coord_for_fits[OF assms] show ?thesis
    by blast
qed

theorem tile_lookup_unique_witness:
  "rect_contains (coord_rect (coord_for (Pt (- 1) 300) 256) 256) (Pt (- 1) 300)
   \<and> coord_for (Pt (- 1) 300) 256 = TC (- 1) 1"
  using tile_lookup_unique[of 256 "Pt (- 1) 300"]
  by (simp add: in32_def coord_for_def floorDiv_eq_div)

end
