(* ===== verification/Bitmaps.thy ===== *)
theory Bitmaps
  imports Geometry
begin

unbundle bit_operations_syntax

text \<open>
  Pixels of the frame path, \<open>internal/frame/bitmap.go\<close>: premultiplied
  packed colours, source-over blending, and the bitmap with its clipped fill and
  blit. A bitmap's bytes are a list of 8-bit words; every slice expression of the
  code is a \<open>slice\<close> that is \<open>None\<close> when Go would panic, so that
  the theorems of this file state, beside the pixels written, that no index is out
  of range.
\<close>

type_synonym byte = "8 word"
type_synonym color = "32 word"

subsection \<open>Colours\<close>

definition color_A :: "color \<Rightarrow> byte" where
  "color_A c = ucast (c AND 0xFF)"

definition color_R :: "color \<Rightarrow> byte" where
  "color_R c = ucast (drop_bit 24 c)"

definition color_G :: "color \<Rightarrow> byte" where
  "color_G c = ucast (drop_bit 16 c AND 0xFF)"

definition color_B :: "color \<Rightarrow> byte" where
  "color_B c = ucast (drop_bit 8 c AND 0xFF)"

definition pack_color :: "32 word \<Rightarrow> 32 word \<Rightarrow> 32 word \<Rightarrow> 32 word \<Rightarrow> color" where
  "pack_color r g b a = push_bit 24 r OR push_bit 16 g OR push_bit 8 b OR a"

definition RGBA :: "byte \<Rightarrow> byte \<Rightarrow> byte \<Rightarrow> byte \<Rightarrow> color" where
  "RGBA r g b a =
     (if a = 255 then pack_color (ucast r) (ucast g) (ucast b) 255
      else let ra = ucast r * ucast a div 255;
               ga = ucast g * ucast a div 255;
               ba = ucast b * ucast a div 255
           in pack_color ra ga ba (ucast a))"

definition RGB :: "byte \<Rightarrow> byte \<Rightarrow> byte \<Rightarrow> color" where
  "RGB r g b = RGBA r g b 255"

definition color_opaque :: "color \<Rightarrow> bool" where
  "color_opaque c \<longleftrightarrow> color_A c = 255"

definition TransparentBlack :: color where
  "TransparentBlack = 0"

definition blend_channel :: "byte \<Rightarrow> byte \<Rightarrow> 32 word \<Rightarrow> 32 word \<Rightarrow> 32 word" where
  "blend_channel s d sw iv = (ucast s * sw + ucast d * iv + 127) div 255"

definition blend_over :: "color \<Rightarrow> color \<Rightarrow> color" where
  "blend_over dst src =
     (let sa = (ucast (color_A src) :: 32 word)
      in if sa = 255 then src
         else if sa = 0 then dst
         else let iv = 255 - sa;
                  r = blend_channel (color_R src) (color_R dst) 255 iv;
                  g = blend_channel (color_G src) (color_G dst) 255 iv;
                  b = blend_channel (color_B src) (color_B dst) 255 iv;
                  a = blend_channel (color_A src) (color_A dst) 255 iv
              in pack_color r g b a)"

definition blend_over_coverage :: "color \<Rightarrow> color \<Rightarrow> byte \<Rightarrow> color" where
  "blend_over_coverage dst c cov =
     (if cov = 255 then c
      else if cov = 0 then dst
      else let ca = (ucast cov :: 32 word);
               iv = 255 - ca;
               r = blend_channel (color_R c) (color_R dst) ca iv;
               g = blend_channel (color_G c) (color_G dst) ca iv;
               b = blend_channel (color_B c) (color_B dst) ca iv;
               a = blend_channel (color_A c) (color_A dst) ca iv
           in pack_color r g b a)"

subsection \<open>Bitmaps\<close>

record bitmap =
  bRGBA :: "byte list"
  bW :: int
  bH :: int
  bStride :: int

definition new_bitmap :: "int \<Rightarrow> int \<Rightarrow> bitmap" where
  "new_bitmap w h =
     (if w \<le> 0 \<or> h \<le> 0 then \<lparr>bRGBA = [], bW = 0, bH = 0, bStride = 0\<rparr>
      else let stride = w * 4
           in \<lparr>bRGBA = replicate (nat (stride * h)) 0, bW = w, bH = h, bStride = stride\<rparr>)"

definition bitmap_empty :: "bitmap option \<Rightarrow> bool" where
  "bitmap_empty b = (case b of None \<Rightarrow> True
     | Some b \<Rightarrow> length (bRGBA b) = 0 \<or> bW b \<le> 0 \<or> bH b \<le> 0)"

definition bitmap_bounds :: "bitmap \<Rightarrow> rect" where
  "bitmap_bounds b = rect4 0 0 (i32 (bW b)) (i32 (bH b))"

definition bitmap_size :: "bitmap \<Rightarrow> gsize" where
  "bitmap_size b = \<lparr>sW = i32 (bW b), sH = i32 (bH b)\<rparr>"

definition bitmap_bytes :: "bitmap \<Rightarrow> int" where
  "bitmap_bytes b = int (length (bRGBA b))"

definition bitmap_reset :: "bitmap \<Rightarrow> bitmap" where
  "bitmap_reset b = b\<lparr>bRGBA := replicate (length (bRGBA b)) 0\<rparr>"

fun color_of_bytes :: "byte list \<Rightarrow> color" where
  "color_of_bytes [p0, p1, p2, p3] = pack_color (ucast p0) (ucast p1) (ucast p2) (ucast p3)"
| "color_of_bytes _ = 0"

definition bytes_of_color :: "color \<Rightarrow> byte list" where
  "bytes_of_color c = [ucast (drop_bit 24 c), ucast (drop_bit 16 c), ucast (drop_bit 8 c), ucast c]"

definition bitmap_pix :: "bitmap \<Rightarrow> int \<Rightarrow> int \<Rightarrow> byte list option" where
  "bitmap_pix b x y = (let k = y * bStride b + x * 4 in slice (bRGBA b) k (k + 4))"

definition bitmap_at :: "bitmap \<Rightarrow> int \<Rightarrow> int \<Rightarrow> color option" where
  "bitmap_at b x y =
     (if x < 0 \<or> y < 0 \<or> x \<ge> bW b \<or> y \<ge> bH b then Some TransparentBlack
      else map_option color_of_bytes (bitmap_pix b x y))"

definition bitmap_set :: "bitmap \<Rightarrow> int \<Rightarrow> int \<Rightarrow> color \<Rightarrow> bitmap option" where
  "bitmap_set b x y c =
     (if x < 0 \<or> y < 0 \<or> x \<ge> bW b \<or> y \<ge> bH b then Some b
      else case bitmap_pix b x y of
             None \<Rightarrow> None
           | Some _ \<Rightarrow> Some (b\<lparr>bRGBA := splice (bRGBA b) (nat (y * bStride b + x * 4)) (bytes_of_color c)\<rparr>))"

subsection \<open>FillRect\<close>

text \<open>
  The copy loop that doubles the written prefix of a row:
  \<open>for n := 4; n < len(row); n *= 2 { copy(row[n:], row[:n]) }\<close>. The cursor
  is positive, which is what makes the loop end.
\<close>

function double_fill :: "nat \<Rightarrow> 'a list \<Rightarrow> 'a list" where
  "double_fill n row =
     (if 0 < n \<and> n < length row
      then double_fill (n * 2) (splice row n (take (min n (length row - n)) row))
      else row)"
  by pat_completeness auto
termination
  by (relation "measure (\<lambda>(n, row). length row - n)") auto

declare double_fill.simps [simp del]

definition fill_opaque_row :: "byte list \<Rightarrow> byte list \<Rightarrow> byte list option" where
  "fill_opaque_row line row =
     (case slice row 0 4 of
        None \<Rightarrow> None
      | Some _ \<Rightarrow> Some (double_fill 4 (splice row 0 (take 4 line))))"

fun blend_row :: "color \<Rightarrow> byte list \<Rightarrow> byte list" where
  "blend_row c (p0 # p1 # p2 # p3 # ps) =
     bytes_of_color (blend_over (color_of_bytes [p0, p1, p2, p3]) c) @ blend_row c ps"
| "blend_row c ps = ps"

definition fill_row :: "color \<Rightarrow> rect \<Rightarrow> int \<Rightarrow> bitmap \<Rightarrow> bitmap option" where
  "fill_row c cl y b =
     (let k = y * bStride b + rX0 cl * 4
      in if color_opaque c
         then (case slice (bRGBA b) k (y * bStride b + rX1 cl * 4) of
                 None \<Rightarrow> None
               | Some row \<Rightarrow>
                  (case fill_opaque_row [color_R c, color_G c, color_B c, color_A c] row of
                     None \<Rightarrow> None
                   | Some row' \<Rightarrow> Some (b\<lparr>bRGBA := splice (bRGBA b) (nat k) row'\<rparr>)))
         else (case slice (bRGBA b) k (k + i32 (rX1 cl - rX0 cl) * 4) of
                 None \<Rightarrow> None
               | Some row \<Rightarrow> Some (b\<lparr>bRGBA := splice (bRGBA b) (nat k) (blend_row c row)\<rparr>)))"

text \<open>\<open>writes\<close> is the optional counter of touched pixels, \<open>None\<close> for a nil pointer.\<close>

definition count_writes :: "rect \<Rightarrow> int option \<Rightarrow> int option" where
  "count_writes cl writes = map_option (\<lambda>n. i64 (n + rect_W cl * rect_H cl)) writes"

definition fill_rect :: "rect \<Rightarrow> color \<Rightarrow> bitmap \<times> int option \<Rightarrow> (bitmap \<times> int option) option" where
  "fill_rect r c bw =
     (let (b, writes) = bw; cl = rect_intersection r (bitmap_bounds b)
      in if rect_empty cl then Some (b, writes)
         else (case fold_opt (fill_row c cl) (range_int (rY0 cl) (rY1 cl)) b of
                 None \<Rightarrow> None
               | Some b' \<Rightarrow> Some (b', count_writes cl writes)))"

subsection \<open>BlitOver\<close>

fun blit_row :: "byte list \<Rightarrow> byte list \<Rightarrow> byte list" where
  "blit_row (s0 # s1 # s2 # s3 # ss) (d0 # d1 # d2 # d3 # ds) =
     (if s3 = 0 then [d0, d1, d2, d3]
      else if s3 = 255 then [s0, s1, s2, s3]
      else bytes_of_color (blend_over (color_of_bytes [d0, d1, d2, d3]) (color_of_bytes [s0, s1, s2, s3])))
     @ blit_row ss ds"
| "blit_row _ ds = ds"

definition blit_line :: "bitmap \<Rightarrow> point \<Rightarrow> rect \<Rightarrow> rect \<Rightarrow> int \<Rightarrow> bitmap \<Rightarrow> bitmap option" where
  "blit_line src dstOrigin srcRect dr y b =
     (let sy = rY0 srcRect + (y - pY dstOrigin);
          sx = rX0 srcRect + (rX0 dr - pX dstOrigin);
          k = y * bStride b + rX0 dr * 4
      in case slice (bRGBA b) k (y * bStride b + rX1 dr * 4) of
           None \<Rightarrow> None
         | Some drow \<Rightarrow>
             (case slice (bRGBA src) (sy * bStride src + sx * 4)
                     (sy * bStride src + sx * 4 + int (length drow)) of
                None \<Rightarrow> None
              | Some srow \<Rightarrow> Some (b\<lparr>bRGBA := splice (bRGBA b) (nat k) (blit_row srow drow)\<rparr>)))"

definition blit_dest :: "bitmap \<Rightarrow> bitmap \<Rightarrow> point \<Rightarrow> rect \<Rightarrow> rect \<Rightarrow> rect" where
  "blit_dest b src dstOrigin srcRect clip =
     (let dr = rect_at dstOrigin (rect_size srcRect);
          reachable = rect_at (point_translate dstOrigin (i32 (- rX0 srcRect)) (i32 (- rY0 srcRect)))
                        \<lparr>sW = i32 (bW src), sH = i32 (bH src)\<rparr>
      in rect_intersection (rect_intersection (rect_intersection dr clip) (bitmap_bounds b)) reachable)"

definition blit_over :: "bitmap option \<Rightarrow> point \<Rightarrow> rect \<Rightarrow> rect \<Rightarrow> bitmap \<times> int option
    \<Rightarrow> (bitmap \<times> int option) option" where
  "blit_over src dstOrigin srcRect clip bw =
     (let (b, writes) = bw in
      case src of
        None \<Rightarrow> Some (b, writes)
      | Some s \<Rightarrow>
         (if bitmap_empty src then Some (b, writes)
          else let dr = blit_dest b s dstOrigin srcRect clip
               in if rect_empty dr then Some (b, writes)
                  else (case fold_opt (blit_line s dstOrigin srcRect dr) (range_int (rY0 dr) (rY1 dr)) b of
                          None \<Rightarrow> None
                        | Some b' \<Rightarrow> Some (b', count_writes dr writes))))"

subsection \<open>Packing and source-over\<close>

lemma mask_FF: "(0xFF :: 32 word) = mask 8"
  by (simp add: mask_eq_decr_exp)

lemma pack_channels [simp]:
  fixes r g b a :: byte
  shows "color_R (pack_color (ucast r) (ucast g) (ucast b) (ucast a)) = r"
    and "color_G (pack_color (ucast r) (ucast g) (ucast b) (ucast a)) = g"
    and "color_B (pack_color (ucast r) (ucast g) (ucast b) (ucast a)) = b"
    and "color_A (pack_color (ucast r) (ucast g) (ucast b) (ucast a)) = a"
  by (rule bit_word_eqI; auto simp: bit_simps pack_color_def color_R_def color_G_def color_B_def color_A_def mask_FF
      dest: bit_imp_le_length)+

lemma byte_lanes:
  assumes "n < LENGTH(32)"
  obtains "n < 8" | m where "n = 8 + m" "m < 8" | m where "n = 16 + m" "m < 8" | m where "n = 24 + m" "m < 8"
proof -
  have "n < 32" using assms by simp
  then show thesis
    using that(1) that(2)[of "n - 8"] that(3)[of "n - 16"] that(4)[of "n - 24"]
    by (cases "n < 8"; cases "n < 16"; cases "n < 24"; simp)
qed

lemma pack_of_channels [simp]:
  "pack_color (ucast (color_R c)) (ucast (color_G c)) (ucast (color_B c)) (ucast (color_A c)) = c"
proof (rule bit_word_eqI)
  fix n assume "n < LENGTH(32)"
  then consider "n < 8" | m where "n = 8 + m" "m < 8" | m where "n = 16 + m" "m < 8" | m where "n = 24 + m" "m < 8"
    by (rule byte_lanes)
  then show "bit (pack_color (ucast (color_R c)) (ucast (color_G c)) (ucast (color_B c)) (ucast (color_A c))) n = bit c n"
    by cases (simp_all add: bit_simps pack_color_def color_R_def color_G_def color_B_def color_A_def mask_FF)
qed

lemma bytes_of_color_channels: "bytes_of_color c = [color_R c, color_G c, color_B c, color_A c]"
  by (auto simp: bytes_of_color_def color_R_def color_G_def color_B_def color_A_def mask_FF
      intro!: bit_word_eqI) (auto simp: bit_simps)

lemma color_of_bytes_bytes [simp]: "color_of_bytes (bytes_of_color c) = c"
  by (simp add: bytes_of_color_channels)

lemma bytes_of_color_of_bytes [simp]: "length ps = 4 \<Longrightarrow> bytes_of_color (color_of_bytes ps) = ps"
  by (auto simp: bytes_of_color_channels length_Suc_conv numeral_eq_Suc)

lemma length_bytes_of_color [simp]: "length (bytes_of_color c) = 4"
  by (simp add: bytes_of_color_def)

lemma color_eq_channels:
  "c = d \<longleftrightarrow> color_R c = color_R d \<and> color_G c = color_G d \<and> color_B c = color_B d \<and> color_A c = color_A d"
  by (metis pack_of_channels)

text \<open>A colour is premultiplied when no channel exceeds its alpha.\<close>

definition premultiplied :: "color \<Rightarrow> bool" where
  "premultiplied c \<longleftrightarrow> color_R c \<le> color_A c \<and> color_G c \<le> color_A c \<and> color_B c \<le> color_A c"

lemma unat_ucast_byte [simp]: "unat (ucast (x :: byte) :: 32 word) = unat x"
  by (simp add: unsigned_ucast_eq take_bit_nat_eq_self order.strict_trans2[OF unsigned_less])

lemma byte_le_255: "unat (x :: byte) \<le> 255"
  using unsigned_less[of x, where ?'a = nat] by simp

text \<open>The rounded channel, with no wrap-around in the 32-bit intermediate.\<close>

definition mix :: "nat \<Rightarrow> nat \<Rightarrow> nat \<Rightarrow> nat" where
  "mix s d a = (s * 255 + d * (255 - a) + 127) div 255"

lemma unat_blend_channel:
  "unat (blend_channel s d 255 (255 - ucast (a :: byte))) = mix (unat s) (unat d) (unat a)"
proof -
  have a: "unat (255 - ucast a :: 32 word) = 255 - unat a"
    by (subst unat_sub) (auto simp: word_le_nat_alt byte_le_255)
  have s: "unat s * 255 \<le> 65025" using byte_le_255[of s] by simp
  have d: "unat d * (255 - unat a) \<le> 65025"
    using mult_le_mono[OF byte_le_255[of d], of "255 - unat a" 255] by simp
  have 1: "unat (ucast s * 255 :: 32 word) = unat s * 255"
    using s by (subst unat_mult_lem[THEN iffD1]) auto
  have 2: "unat (ucast d * (255 - ucast a) :: 32 word) = unat d * (255 - unat a)"
    using d by (subst unat_mult_lem[THEN iffD1]) (auto simp: a)
  have 3: "unat (ucast s * 255 + ucast d * (255 - ucast a) :: 32 word) = unat s * 255 + unat d * (255 - unat a)"
    using s d 1 2 by (subst unat_add_lem[THEN iffD1]) auto
  have 4: "unat (ucast s * 255 + ucast d * (255 - ucast a) + 127 :: 32 word)
      = unat s * 255 + unat d * (255 - unat a) + 127"
    using s d 3 by (subst unat_add_lem[THEN iffD1]) auto
  show ?thesis
    by (simp add: blend_channel_def unat_div 4 mix_def)
qed

lemma mix_le_255: "s \<le> a \<Longrightarrow> a \<le> 255 \<Longrightarrow> d \<le> 255 \<Longrightarrow> mix s d a \<le> 255"
proof -
  assume "s \<le> a" "a \<le> 255" "d \<le> 255"
  then have "d * (255 - a) \<le> 255 * (255 - a)" "s * 255 \<le> a * 255" by auto
  with \<open>a \<le> 255\<close> have "s * 255 + d * (255 - a) + 127 \<le> 255 * 255 + 127"
    by (simp add: diff_mult_distrib2)
  then have "mix s d a \<le> (255 * 255 + 127) div 255"
    unfolding mix_def by (rule div_le_mono)
  then show ?thesis by simp
qed

lemma mix_mono: "s \<le> s' \<Longrightarrow> d \<le> d' \<Longrightarrow> mix s d a \<le> mix s' d' a"
  unfolding mix_def by (intro div_le_mono add_mono mult_le_mono) auto

lemma mix_ge_src: "s \<le> mix s d a"
proof -
  have "s = s * 255 div 255" by simp
  also have "\<dots> \<le> mix s d a" unfolding mix_def by (intro div_le_mono) simp
  finally show ?thesis .
qed

lemma blend_channel_byte:
  assumes "s \<le> a"
  shows "blend_channel s d 255 (255 - ucast a) = ucast (word_of_nat (mix (unat s) (unat d) (unat a)) :: byte)"
proof (rule unsigned_word_eqI)
  have "mix (unat s) (unat d) (unat a) \<le> 255"
    using assms by (intro mix_le_255) (auto simp: word_le_nat_alt byte_le_255)
  then show "unat (blend_channel s d 255 (255 - ucast a)) =
      unat (ucast (word_of_nat (mix (unat s) (unat d) (unat a)) :: byte) :: 32 word)"
    by (simp add: unat_blend_channel unat_of_nat)
qed
lemma mix_opaque [simp]: "mix s d 255 = s"
  by (simp add: mix_def)

lemma mix_clear [simp]: "mix 0 d 0 = d"
  by (simp add: mix_def)

lemma blend_over_opaque [simp]: "color_A s = 255 \<Longrightarrow> blend_over d s = s"
  by (simp add: blend_over_def)

lemma blend_over_clear [simp]: "color_A s = 0 \<Longrightarrow> blend_over d s = d"
  by (simp add: blend_over_def)

lemma blend_over_partial:
  assumes "premultiplied s" "color_A s \<noteq> 255" "color_A s \<noteq> 0"
  shows "blend_over d s = pack_color
     (ucast (word_of_nat (mix (unat (color_R s)) (unat (color_R d)) (unat (color_A s))) :: byte))
     (ucast (word_of_nat (mix (unat (color_G s)) (unat (color_G d)) (unat (color_A s))) :: byte))
     (ucast (word_of_nat (mix (unat (color_B s)) (unat (color_B d)) (unat (color_A s))) :: byte))
     (ucast (word_of_nat (mix (unat (color_A s)) (unat (color_A d)) (unat (color_A s))) :: byte))"
proof -
  have "(ucast (color_A s) :: 32 word) \<noteq> 255" "(ucast (color_A s) :: 32 word) \<noteq> 0"
    using assms(2,3) by (auto simp: word_unat_eq_iff)
  then show ?thesis
    using assms(1) by (simp add: blend_over_def Let_def blend_channel_byte premultiplied_def)
qed

lemma unat_mix_byte:
  fixes s d a :: byte
  shows "s \<le> a \<Longrightarrow> unat (word_of_nat (mix (unat s) (unat d) (unat a)) :: byte) = mix (unat s) (unat d) (unat a)"
  using mix_le_255[of "unat s" "unat a" "unat d"]
  by (simp add: unat_of_nat word_le_nat_alt byte_le_255)

lemma blend_over_channels:
  assumes "premultiplied s"
  shows "unat (color_R (blend_over d s)) = mix (unat (color_R s)) (unat (color_R d)) (unat (color_A s))"
    and "unat (color_G (blend_over d s)) = mix (unat (color_G s)) (unat (color_G d)) (unat (color_A s))"
    and "unat (color_B (blend_over d s)) = mix (unat (color_B s)) (unat (color_B d)) (unat (color_A s))"
    and "unat (color_A (blend_over d s)) = mix (unat (color_A s)) (unat (color_A d)) (unat (color_A s))"
proof -
  consider "color_A s = 255" | "color_A s = 0" | "color_A s \<noteq> 255" "color_A s \<noteq> 0" by blast
  note lanes = this
  have le: "color_R s \<le> color_A s" "color_G s \<le> color_A s" "color_B s \<le> color_A s"
    using assms by (auto simp: premultiplied_def)
  show "unat (color_R (blend_over d s)) = mix (unat (color_R s)) (unat (color_R d)) (unat (color_A s))"
    using lanes le assms by cases (auto simp: blend_over_partial unat_mix_byte)
  show "unat (color_G (blend_over d s)) = mix (unat (color_G s)) (unat (color_G d)) (unat (color_A s))"
    using lanes le assms by cases (auto simp: blend_over_partial unat_mix_byte)
  show "unat (color_B (blend_over d s)) = mix (unat (color_B s)) (unat (color_B d)) (unat (color_A s))"
    using lanes le assms by cases (auto simp: blend_over_partial unat_mix_byte)
  show "unat (color_A (blend_over d s)) = mix (unat (color_A s)) (unat (color_A d)) (unat (color_A s))"
    using lanes le assms by cases (auto simp: blend_over_partial unat_mix_byte)
qed

lemma mix_ge_dst: "a \<le> 255 \<Longrightarrow> d \<le> 255 \<Longrightarrow> d \<le> mix a d a"
proof -
  assume "a \<le> 255" "d \<le> 255"
  have "a * d \<le> a * 255"
    using \<open>d \<le> 255\<close> by (rule mult_le_mono2)
  moreover have "d * (255 - a) = d * 255 - a * d"
    by (simp add: diff_mult_distrib2 mult.commute)
  ultimately have "d * 255 \<le> a * 255 + d * (255 - a)"
    by linarith
  then have "d * 255 div 255 \<le> mix a d a"
    unfolding mix_def by (intro div_le_mono) simp
  then show ?thesis by simp
qed

text \<open>
  Compositing a premultiplied colour over a premultiplied colour gives a
  premultiplied colour whose every channel is the rounded source-over mix of the two
  (no channel of the packed word overflows into its neighbour), and coverage never
  decreases.
\<close>

theorem blend_over_premultiplied:
  assumes "premultiplied src" "premultiplied dst"
  shows "premultiplied (blend_over dst src)
     \<and> unat (color_R (blend_over dst src)) = mix (unat (color_R src)) (unat (color_R dst)) (unat (color_A src))
     \<and> unat (color_G (blend_over dst src)) = mix (unat (color_G src)) (unat (color_G dst)) (unat (color_A src))
     \<and> unat (color_B (blend_over dst src)) = mix (unat (color_B src)) (unat (color_B dst)) (unat (color_A src))
     \<and> color_A src \<le> color_A (blend_over dst src) \<and> color_A dst \<le> color_A (blend_over dst src)"
  using assms mix_ge_src mix_ge_dst[OF byte_le_255 byte_le_255] mix_mono
  by (auto simp: premultiplied_def word_le_nat_alt blend_over_channels)

lemmas color_eval = RGBA_def pack_color_def color_A_def color_R_def color_G_def color_B_def
  premultiplied_def blend_over_def blend_channel_def Let_def

theorem blend_over_premultiplied_witness:
  "premultiplied (blend_over (RGBA 200 100 50 255) (RGBA 10 20 30 128))
   \<and> color_R (blend_over (RGBA 200 100 50 255) (RGBA 10 20 30 128)) = 105"
proof -
  have h: "premultiplied (RGBA 10 20 30 128)" "premultiplied (RGBA 200 100 50 255)"
    by (simp_all add: color_eval)
  show ?thesis
    using blend_over_premultiplied[OF h] by (simp add: color_eval)
qed

subsection \<open>Rows of pixels\<close>

definition pixel :: "byte list \<Rightarrow> nat \<Rightarrow> color" where
  "pixel row j = color_of_bytes (take 4 (drop (4 * j) row))"

lemma length_double_fill [simp]: "length (double_fill n row) = length row"
proof (induction n row rule: double_fill.induct)
  case (1 n row)
  show ?case
  proof (cases "0 < n \<and> n < length row")
    case True
    with 1 show ?thesis by (subst double_fill.simps) (simp add: min_def)
  next
    case False
    then show ?thesis by (subst double_fill.simps) auto
  qed
qed

text \<open>Doubling the prefix repeats it: the row becomes periodic with the prefix's length.\<close>

lemma nth_double_fill:
  "0 < n \<Longrightarrow> i < length row \<Longrightarrow> double_fill n row ! i = row ! (if n \<le> length row then i mod n else i)"
proof (induction n row rule: double_fill.induct)
  case (1 n row)
  show ?case
  proof (cases "n < length row")
    case False
    with 1 show ?thesis by (subst double_fill.simps) auto
  next
    case True
    let ?row = "splice row n (take (min n (length row - n)) row)"
    have nth: "?row ! j = row ! (j mod n)" if "j < length row" "j < 2 * n" for j
      using that True \<open>0 < n\<close> by (auto simp: nth_splice mod_if)
    have "double_fill n row ! i = double_fill (n * 2) ?row ! i"
      using True \<open>0 < n\<close> by (subst double_fill.simps) simp
    also have "\<dots> = ?row ! (if n * 2 \<le> length row then i mod (n * 2) else i)"
      using 1 True by simp
    also have "\<dots> = row ! (i mod n)"
    proof (cases "n * 2 \<le> length row")
      case True
      have "i mod (n * 2) < 2 * n" using \<open>0 < n\<close> mod_less_divisor[of "n * 2" i] by linarith
      then have "?row ! (i mod (n * 2)) = row ! (i mod (n * 2) mod n)"
        using True by (intro nth) linarith+
      also have "i mod (n * 2) mod n = i mod n" by (rule mod_mod_cancel) simp
      finally show ?thesis using True by simp
    next
      case False
      then show ?thesis using nth[of i] \<open>i < length row\<close> by simp
    qed
    finally show ?thesis using True by simp
  qed
qed

lemma fill_opaque_row:
  assumes "length line = 4" "4 dvd length row" "row \<noteq> []"
  shows "\<exists>r. fill_opaque_row line row = Some r \<and> length r = length row
    \<and> (\<forall>j. 4 * j + 4 \<le> length row \<longrightarrow> pixel r j = color_of_bytes line)"
proof -
  obtain k where k: "length row = 4 * k" using assms(2) by blast
  with assms(3) have len: "4 \<le> length row"
    by (cases k) auto
  let ?r = "double_fill 4 (splice row 0 (take 4 line))"
  have "take 4 (drop (4 * j) ?r) = line" if "4 * j + 4 \<le> length row" for j
  proof (rule nth_equalityI)
    show "length (take 4 (drop (4 * j) ?r)) = length line"
      using that len assms(1) by simp
    fix i assume "i < length (take 4 (drop (4 * j) ?r))"
    then have "i < 4" by simp
    with that len assms(1) show "take 4 (drop (4 * j) ?r) ! i = line ! i"
      by (simp add: nth_double_fill nth_splice mod_add_left_eq)
  qed
  then show ?thesis
    using len assms(1) by (simp add: fill_opaque_row_def slice_def pixel_def)
qed

lemma length_blend_row [simp]: "length (blend_row c ps) = length ps"
  by (induction c ps rule: blend_row.induct) auto

lemma pixel_Cons4 [simp]:
  "pixel (a # b # c # d # ps) 0 = color_of_bytes [a, b, c, d]"
  "pixel (a # b # c # d # ps) (Suc j) = pixel ps j"
proof -
  show "pixel (a # b # c # d # ps) 0 = color_of_bytes [a, b, c, d]"
    by (simp add: pixel_def)
  have "4 * Suc j = Suc (Suc (Suc (Suc (4 * j))))" by simp
  then show "pixel (a # b # c # d # ps) (Suc j) = pixel ps j"
    unfolding pixel_def by (simp only: drop_Suc_Cons)
qed

lemma pixel_append4 [simp]:
  "pixel (bytes_of_color c @ ps) 0 = c"
  "pixel (bytes_of_color c @ ps) (Suc j) = pixel ps j"
  by (simp_all add: pixel_def)

lemma pixel_blend_row:
  "4 * j + 4 \<le> length ps \<Longrightarrow> pixel (blend_row c ps) j = blend_over (pixel ps j) c"
proof (induction c ps arbitrary: j rule: blend_row.induct)
  case (1 c p0 p1 p2 p3 ps)
  then show ?case by (cases j) auto
qed auto

lemma length_blit_row [simp]: "length (blit_row ss ds) = length ds"
  by (induction ss ds rule: blit_row.induct) auto

lemma color_A_of_bytes [simp]: "color_A (color_of_bytes [a, b, c, d]) = d"
  by simp

lemma pixel_blit_row:
  "length ss = length ds \<Longrightarrow> 4 * j + 4 \<le> length ds \<Longrightarrow>
   pixel (blit_row ss ds) j = blend_over (pixel ds j) (pixel ss j)"
proof (induction ss ds arbitrary: j rule: blit_row.induct)
  case (1 s0 s1 s2 s3 ss d0 d1 d2 d3 ds)
  then show ?case by (cases j) (auto simp del: color_of_bytes.simps)
qed auto

subsection \<open>Well-formed bitmaps\<close>

definition wf_bitmap :: "bitmap \<Rightarrow> bool" where
  "wf_bitmap b \<longleftrightarrow> 0 \<le> bW b \<and> 0 \<le> bH b \<and> in32 (bW b) \<and> in32 (bH b)
     \<and> 4 * bW b \<le> bStride b \<and> bStride b * bH b \<le> int (length (bRGBA b))"

definition px :: "bitmap \<Rightarrow> int \<Rightarrow> int \<Rightarrow> color" where
  "px b x y = color_of_bytes (take 4 (drop (nat (y * bStride b + x * 4)) (bRGBA b)))"

definition in_bitmap :: "bitmap \<Rightarrow> int \<Rightarrow> int \<Rightarrow> bool" where
  "in_bitmap b x y \<longleftrightarrow> 0 \<le> x \<and> x < bW b \<and> 0 \<le> y \<and> y < bH b"

definition same_frame :: "bitmap \<Rightarrow> bitmap \<Rightarrow> bool" where
  "same_frame b b' \<longleftrightarrow> bW b' = bW b \<and> bH b' = bH b \<and> bStride b' = bStride b
     \<and> length (bRGBA b') = length (bRGBA b)"

lemma same_frame_refl [simp]: "same_frame b b"
  by (simp add: same_frame_def)

lemma same_frame_trans: "same_frame b c \<Longrightarrow> same_frame c d \<Longrightarrow> same_frame b d"
  by (simp add: same_frame_def)

lemma wf_bitmap_same_frame: "wf_bitmap b \<Longrightarrow> same_frame b b' \<Longrightarrow> wf_bitmap b'"
  by (simp add: wf_bitmap_def same_frame_def)

lemma in_bitmap_same_frame: "same_frame b b' \<Longrightarrow> in_bitmap b' = in_bitmap b"
  by (intro ext) (simp add: in_bitmap_def same_frame_def)

lemma bounds_same_frame: "same_frame b b' \<Longrightarrow> bitmap_bounds b' = bitmap_bounds b"
  by (simp add: bitmap_bounds_def same_frame_def)

lemma contains_bitmap_bounds:
  "wf_bitmap b \<Longrightarrow> rect_contains (bitmap_bounds b) (Pt x y) \<longleftrightarrow> in_bitmap b x y"
  by (auto simp: rect_contains_def bitmap_bounds_def in_bitmap_def wf_bitmap_def)

lemma row_end:
  assumes "wf_bitmap b" "0 \<le> y" "y < bH b" "0 \<le> x" "x \<le> bW b"
  shows "0 \<le> y * bStride b + x * 4" "y * bStride b + x * 4 \<le> y * bStride b + bStride b"
    "y * bStride b + bStride b \<le> int (length (bRGBA b))"
proof -
  have s: "0 \<le> bStride b" "4 * bW b \<le> bStride b"
    using assms(1) by (auto simp: wf_bitmap_def)
  show "0 \<le> y * bStride b + x * 4" using s assms by simp
  show "y * bStride b + x * 4 \<le> y * bStride b + bStride b" using s assms by simp
  have "(y + 1) * bStride b \<le> bH b * bStride b"
    using s assms by (intro mult_right_mono) auto
  then show "y * bStride b + bStride b \<le> int (length (bRGBA b))"
    using assms(1) by (simp add: wf_bitmap_def algebra_simps)
qed

lemma rows_apart:
  assumes "wf_bitmap b" "y < y'"
  shows "y * bStride b + bStride b \<le> y' * bStride b"
proof -
  have "(y + 1) * bStride b \<le> y' * bStride b"
    using assms by (intro mult_right_mono) (auto simp: wf_bitmap_def)
  then show ?thesis by (simp add: algebra_simps)
qed

lemma take4_splice:
  assumes "k + length row \<le> length xs"
  shows "k \<le> a \<Longrightarrow> a + 4 \<le> k + length row \<Longrightarrow> take 4 (drop a (splice xs k row)) = take 4 (drop (a - k) row)"
    and "a + 4 \<le> k \<or> k + length row \<le> a \<Longrightarrow> take 4 (drop a (splice xs k row)) = take 4 (drop a xs)"
  using assms by (auto intro!: nth_equalityI simp: nth_splice)

text \<open>The one address computation of the file: what rewriting part of a row does to every pixel.\<close>

lemma px_splice:
  assumes wf: "wf_bitmap b" and y: "0 \<le> y" "y < bH b" and x: "0 \<le> x0" "x0 \<le> x1" "x1 \<le> bW b"
    and len: "length row = nat (4 * (x1 - x0))"
    and b': "b' = b\<lparr>bRGBA := splice (bRGBA b) (nat (y * bStride b + x0 * 4)) row\<rparr>"
  shows "same_frame b b'"
    and "in_bitmap b u v \<Longrightarrow> px b' u v = (if v = y \<and> x0 \<le> u \<and> u < x1 then pixel row (nat (u - x0)) else px b u v)"
proof -
  let ?k = "y * bStride b + x0 * 4"
  have k: "0 \<le> ?k" using row_end(1)[OF wf y, of x0] x by simp
  have "?k + 4 * (x1 - x0) \<le> y * bStride b + bStride b"
    using row_end(2)[OF wf y, of x1] x by (simp add: algebra_simps)
  then have fits: "nat ?k + length row \<le> length (bRGBA b)"
    using row_end(3)[OF wf y, of x1] x k len by simp
  then show "same_frame b b'"
    by (simp add: b' same_frame_def)
  assume uv: "in_bitmap b u v"
  let ?a = "v * bStride b + u * 4"
  have a: "0 \<le> ?a" "?a + 4 \<le> v * bStride b + bStride b"
    using uv row_end(1)[OF wf, of v u] row_end(2)[OF wf, of v "u + 1"] by (auto simp: in_bitmap_def)
  show "px b' u v = (if v = y \<and> x0 \<le> u \<and> u < x1 then pixel row (nat (u - x0)) else px b u v)"
  proof (cases "v = y \<and> x0 \<le> u \<and> u < x1")
    case True
    then have "nat ?k \<le> nat ?a" "nat ?a + 4 \<le> nat ?k + length row" "nat ?a - nat ?k = 4 * nat (u - x0)"
      using k a len by auto
    with True show ?thesis
      by (simp add: px_def b' take4_splice(1)[OF fits] pixel_def)
  next
    case False
    have "?a + 4 \<le> ?k \<or> ?k + 4 * (x1 - x0) \<le> ?a"
    proof (cases "v = y")
      case True
      with False show ?thesis by auto
    next
      case ne: False
      show ?thesis
      proof (cases "v < y")
        case True
        then have "v * bStride b + bStride b \<le> y * bStride b" by (rule rows_apart[OF wf])
        with a x show ?thesis by linarith
      next
        case False
        with ne have "y * bStride b + bStride b \<le> v * bStride b" by (intro rows_apart[OF wf]) simp
        moreover have "?k + 4 * (x1 - x0) \<le> y * bStride b + bStride b"
          using row_end(2)[OF wf y, of x1] x by (simp add: algebra_simps)
        ultimately show ?thesis using uv by (auto simp: in_bitmap_def)
      qed
    qed
    then have "nat ?a + 4 \<le> nat ?k \<or> nat ?k + length row \<le> nat ?a"
      using k a len x by auto
    with False show ?thesis
      by (auto simp: px_def b' take4_splice(2)[OF fits])
  qed
qed

subsection \<open>FillRect and BlitOver write what they should\<close>

lemma clip_in_bitmap:
  assumes "wf_bitmap b" "\<not> rect_empty (rect_intersection r (bitmap_bounds b))"
    and "cl = rect_intersection r (bitmap_bounds b)"
  shows "0 \<le> rX0 cl" "rX0 cl < rX1 cl" "rX1 cl \<le> bW b" "0 \<le> rY0 cl" "rY0 cl < rY1 cl" "rY1 cl \<le> bH b"
  using intersection_inside[OF assms(2)] assms(1,2)
  unfolding assms(3) by (auto simp: rect_empty_def bitmap_bounds_def wf_bitmap_def)

definition repaints :: "(int \<Rightarrow> int \<Rightarrow> bool) \<Rightarrow> (int \<Rightarrow> int \<Rightarrow> color \<Rightarrow> color) \<Rightarrow> bitmap \<Rightarrow> bitmap \<Rightarrow> bool" where
  "repaints D f b b' \<longleftrightarrow> same_frame b b'
     \<and> (\<forall>u v. in_bitmap b u v \<longrightarrow> px b' u v = (if D u v then f u v (px b u v) else px b u v))"

lemma row_slice:
  assumes wf: "wf_bitmap b" and y: "0 \<le> y" "y < bH b" and x: "0 \<le> x0" "x0 \<le> x1" "x1 \<le> bW b"
  shows "\<exists>row. slice (bRGBA b) (y * bStride b + x0 * 4) (y * bStride b + x1 * 4) = Some row
    \<and> length row = nat (4 * (x1 - x0))
    \<and> (\<forall>u. x0 \<le> u \<and> u < x1 \<longrightarrow> pixel row (nat (u - x0)) = px b u y)"
proof -
  let ?k = "y * bStride b + x0 * 4" and ?e = "y * bStride b + x1 * 4"
  let ?row = "take (nat (?e - ?k)) (drop (nat ?k) (bRGBA b))"
  have k: "0 \<le> ?k" "?e \<le> int (length (bRGBA b))"
    using row_end(1)[OF wf y, of x0] row_end(2,3)[OF wf y, of x1] x by auto
  have "slice (bRGBA b) ?k ?e = Some ?row"
    using k x by (intro slice_Some) auto
  moreover have "length ?row = nat (4 * (x1 - x0))"
    using k x by (simp add: nat_diff_distrib)
  moreover have "pixel ?row (nat (u - x0)) = px b u y" if u: "x0 \<le> u" "u < x1" for u
  proof -
    have "nat ?k + 4 * nat (u - x0) = nat (y * bStride b + u * 4)"
      "4 \<le> nat (?e - ?k) - 4 * nat (u - x0)"
      using k u by auto
    then show ?thesis
      by (simp add: pixel_def px_def drop_take min_def add.commute)
  qed
  ultimately show ?thesis by blast
qed

lemma row_repaints:
  assumes wf: "wf_bitmap b" and y: "0 \<le> y" "y < bH b" and x: "0 \<le> x0" "x0 \<le> x1" "x1 \<le> bW b"
    and len: "length row = nat (4 * (x1 - x0))"
    and row: "\<And>u. x0 \<le> u \<Longrightarrow> u < x1 \<Longrightarrow> pixel row (nat (u - x0)) = f u y (px b u y)"
  shows "repaints (\<lambda>u v. v = y \<and> x0 \<le> u \<and> u < x1) f b
     (b\<lparr>bRGBA := splice (bRGBA b) (nat (y * bStride b + x0 * 4)) row\<rparr>)"
  using px_splice[OF wf y x len refl] row by (auto simp: repaints_def)

lemma fill_row_repaints:
  assumes wf: "wf_bitmap b" and y: "0 \<le> y" "y < bH b"
    and x: "0 \<le> rX0 cl" "rX0 cl < rX1 cl" "rX1 cl \<le> bW b"
  shows "\<exists>b'. fill_row c cl y b = Some b'
    \<and> repaints (\<lambda>u v. v = y \<and> rX0 cl \<le> u \<and> u < rX1 cl) (\<lambda>u v d. blend_over d c) b b'"
proof -
  obtain row where row: "slice (bRGBA b) (y * bStride b + rX0 cl * 4) (y * bStride b + rX1 cl * 4) = Some row"
    "length row = nat (4 * (rX1 cl - rX0 cl))"
    "\<And>u. rX0 cl \<le> u \<Longrightarrow> u < rX1 cl \<Longrightarrow> pixel row (nat (u - rX0 cl)) = px b u y"
    using row_slice[OF wf y x(1) less_imp_le[OF x(2)] x(3)] by blast
  show ?thesis
  proof (cases "color_opaque c")
    case True
    have "length row = 4 * nat (rX1 cl - rX0 cl)" using row(2) x by simp
    then have "4 dvd length row" by simp
    moreover have "row \<noteq> []" using row(2) x by auto
    ultimately obtain r where r: "fill_opaque_row (bytes_of_color c) row = Some r" "length r = length row"
      "\<And>j. 4 * j + 4 \<le> length row \<Longrightarrow> pixel r j = c"
      using fill_opaque_row[of "bytes_of_color c" row] by auto
    have "repaints (\<lambda>u v. v = y \<and> rX0 cl \<le> u \<and> u < rX1 cl) (\<lambda>u v d. blend_over d c) b
       (b\<lparr>bRGBA := splice (bRGBA b) (nat (y * bStride b + rX0 cl * 4)) r\<rparr>)"
    proof (rule row_repaints[OF wf y x(1) less_imp_le[OF x(2)] x(3)])
      show "length r = nat (4 * (rX1 cl - rX0 cl))" using r(2) row(2) by simp
      show "pixel r (nat (u - rX0 cl)) = blend_over (px b u y) c" if "rX0 cl \<le> u" "u < rX1 cl" for u
        using r(3)[of "nat (u - rX0 cl)"] row(2) that True by (simp add: color_opaque_def)
    qed
    with True row(1) r(1) show ?thesis
      by (simp add: fill_row_def Let_def bytes_of_color_channels)
  next
    case False
    have w: "i32 (rX1 cl - rX0 cl) = rX1 cl - rX0 cl"
      using wf x by (intro i32_id) (auto simp: wf_bitmap_def in32_def)
    have "repaints (\<lambda>u v. v = y \<and> rX0 cl \<le> u \<and> u < rX1 cl) (\<lambda>u v d. blend_over d c) b
       (b\<lparr>bRGBA := splice (bRGBA b) (nat (y * bStride b + rX0 cl * 4)) (blend_row c row)\<rparr>)"
    proof (rule row_repaints[OF wf y x(1) less_imp_le[OF x(2)] x(3)])
      show "length (blend_row c row) = nat (4 * (rX1 cl - rX0 cl))" using row(2) by simp
      show "pixel (blend_row c row) (nat (u - rX0 cl)) = blend_over (px b u y) c" if "rX0 cl \<le> u" "u < rX1 cl" for u
        using pixel_blend_row[of "nat (u - rX0 cl)" row c] row(2,3) that by simp
    qed
    moreover have "y * bStride b + rX0 cl * 4 + (rX1 cl - rX0 cl) * 4 = y * bStride b + rX1 cl * 4" by simp
    ultimately show ?thesis using False row(1)
      by (simp add: fill_row_def Let_def w)
  qed
qed

text \<open>Rows are rewritten one after the other; each sees the pixels it has before the loop.\<close>

lemma rows_loop:
  assumes wf: "wf_bitmap b"
    and step: "\<And>y c. y0 \<le> y \<Longrightarrow> y < y1 \<Longrightarrow> wf_bitmap c \<Longrightarrow> same_frame b c \<Longrightarrow>
      \<exists>c'. g y c = Some c' \<and> repaints (\<lambda>u v. v = y \<and> x0 \<le> u \<and> u < x1) f c c'"
  shows "\<exists>b'. fold_opt g (range_int y0 y1) b = Some b'
    \<and> repaints (\<lambda>u v. x0 \<le> u \<and> u < x1 \<and> y0 \<le> v \<and> v < y1) f b b'"
proof -
  have "\<exists>b'. fold_opt g (range_int y0 y1) b = Some b'
      \<and> repaints (\<lambda>u v. v \<in> set (range_int y0 y1) \<and> x0 \<le> u \<and> u < x1) f b b'"
  proof (rule fold_opt_invariant[where P = "\<lambda>ys t. repaints (\<lambda>u v. v \<in> set ys \<and> x0 \<le> u \<and> u < x1) f b t"])
    show "repaints (\<lambda>u v. v \<in> set [] \<and> x0 \<le> u \<and> u < x1) f b b" by (simp add: repaints_def)
    fix y ys zs t
    assume split: "range_int y0 y1 = ys @ y # zs"
      and P: "repaints (\<lambda>u v. v \<in> set ys \<and> x0 \<le> u \<and> u < x1) f b t"
    have "y \<in> set (range_int y0 y1)" using split by simp
    moreover have "y \<notin> set ys"
      using distinct_range_int[of y0 y1] unfolding split by simp
    moreover have "same_frame b t" using P by (simp add: repaints_def)
    ultimately obtain c' where c': "g y t = Some c'" "repaints (\<lambda>u v. v = y \<and> x0 \<le> u \<and> u < x1) f t c'"
      using step[of y t] wf wf_bitmap_same_frame[of b t] by auto
    have "repaints (\<lambda>u v. v \<in> set (ys @ [y]) \<and> x0 \<le> u \<and> u < x1) f b c'"
      using P c'(2) \<open>y \<notin> set ys\<close> \<open>same_frame b t\<close>
      by (auto simp: repaints_def in_bitmap_same_frame intro: same_frame_trans)
    with c'(1) show "\<exists>u. g y t = Some u \<and> repaints (\<lambda>u v. v \<in> set (ys @ [y]) \<and> x0 \<le> u \<and> u < x1) f b u"
      by blast
  qed
  then show ?thesis by (auto simp: repaints_def)
qed

lemma fill_rect_pixels:
  assumes "wf_bitmap b"
  shows "\<exists>b'. fill_rect r c (b, w) =
        Some (b', if rect_empty (rect_intersection r (bitmap_bounds b)) then w
                  else count_writes (rect_intersection r (bitmap_bounds b)) w)
     \<and> same_frame b b'
     \<and> (\<forall>u v. in_bitmap b u v \<longrightarrow>
          px b' u v = (if rect_contains r (Pt u v) then blend_over (px b u v) c else px b u v))"
proof -
  define cl where "cl = rect_intersection r (bitmap_bounds b)"
  have in_cl: "rect_contains r (Pt u v) \<longleftrightarrow> rect_contains cl (Pt u v)" if "in_bitmap b u v" for u v
    using that assms by (simp add: cl_def contains_bitmap_bounds)
  show ?thesis
  proof (cases "rect_empty cl")
    case True
    then show ?thesis
      using in_cl by (simp add: fill_rect_def Let_def cl_def[symmetric])
  next
    case False
    note cl = clip_in_bitmap[OF assms False[unfolded cl_def] cl_def]
    have "\<exists>b'. fold_opt (fill_row c cl) (range_int (rY0 cl) (rY1 cl)) b = Some b'
      \<and> repaints (\<lambda>u v. rX0 cl \<le> u \<and> u < rX1 cl \<and> rY0 cl \<le> v \<and> v < rY1 cl) (\<lambda>u v d. blend_over d c) b b'"
      using cl by (intro rows_loop[OF assms] fill_row_repaints) (auto simp: same_frame_def)
    then obtain b' where "fold_opt (fill_row c cl) (range_int (rY0 cl) (rY1 cl)) b = Some b'"
      "repaints (\<lambda>u v. rX0 cl \<le> u \<and> u < rX1 cl \<and> rY0 cl \<le> v \<and> v < rY1 cl) (\<lambda>u v d. blend_over d c) b b'"
      by blast
    then show ?thesis
      using False in_cl
      by (simp add: fill_rect_def Let_def cl_def[symmetric] repaints_def rect_contains_def)
  qed
qed

text \<open>
  \<open>FillRect\<close> never indexes outside the buffer, and afterwards exactly the
  pixels of the rectangle clipped to the bitmap hold the colour composited over what they
  held (the opaque prefix-doubling path included); every other pixel is unchanged and the
  write counter grows by the clipped area.
\<close>

theorem fill_rect_paints:
  assumes "wf_bitmap b"
  shows "\<exists>b'. fill_rect r c (b, w) =
        Some (b', if rect_empty (rect_intersection r (bitmap_bounds b)) then w
                  else count_writes (rect_intersection r (bitmap_bounds b)) w)
     \<and> same_frame b b'
     \<and> (\<forall>u v. in_bitmap b u v \<longrightarrow>
          px b' u v = (if rect_contains r (Pt u v) then blend_over (px b u v) c else px b u v))"
  by (rule fill_rect_pixels[OF assms])

lemma rect_corners:
  "\<not> rect_empty r \<Longrightarrow> rect_contains r (Pt (rX0 r) (rY0 r)) \<and> rect_contains r (Pt (rX1 r - 1) (rY1 r - 1))"
  by (auto simp: rect_empty_def rect_contains_def)

text \<open>No coordinate of the blit leaves \<open>int32\<close>.\<close>

definition blit_in_range :: "bitmap \<Rightarrow> point \<Rightarrow> rect \<Rightarrow> bool" where
  "blit_in_range s q sr \<longleftrightarrow>
     in32 (rX1 sr - rX0 sr) \<and> in32 (rY1 sr - rY0 sr)
   \<and> in32 (pX q + (rX1 sr - rX0 sr)) \<and> in32 (pY q + (rY1 sr - rY0 sr))
   \<and> in32 (- rX0 sr) \<and> in32 (- rY0 sr) \<and> in32 (pX q - rX0 sr) \<and> in32 (pY q - rY0 sr)
   \<and> in32 (pX q - rX0 sr + bW s) \<and> in32 (pY q - rY0 sr + bH s)"

text \<open>The pixels a blit composites: those whose source pixel exists and is asked for.\<close>

definition blit_domain :: "bitmap \<Rightarrow> point \<Rightarrow> rect \<Rightarrow> rect \<Rightarrow> int \<Rightarrow> int \<Rightarrow> bool" where
  "blit_domain s q sr clip u v \<longleftrightarrow>
     rect_contains sr (Pt (u - pX q + rX0 sr) (v - pY q + rY0 sr))
   \<and> rect_contains clip (Pt u v)
   \<and> in_bitmap s (u - pX q + rX0 sr) (v - pY q + rY0 sr)"

lemma contains_blit_dest:
  assumes "wf_bitmap b" "wf_bitmap s" "blit_in_range s q sr"
  shows "rect_contains (blit_dest b s q sr clip) (Pt u v) \<longleftrightarrow> in_bitmap b u v \<and> blit_domain s q sr clip u v"
proof -
  have s: "in32 (bW s)" "in32 (bH s)" using assms(2) by (auto simp: wf_bitmap_def)
  have "rect_contains (rect_at q (rect_size sr)) (Pt u v)
      \<longleftrightarrow> rect_contains sr (Pt (u - pX q + rX0 sr) (v - pY q + rY0 sr))"
    using assms(3) by (auto simp: rect_contains_def rect_at_def rect_size_def rect_W_def rect_H_def blit_in_range_def)
  moreover have "rect_contains (rect_at (point_translate q (i32 (- rX0 sr)) (i32 (- rY0 sr)))
          \<lparr>sW = i32 (bW s), sH = i32 (bH s)\<rparr>) (Pt u v)
      \<longleftrightarrow> in_bitmap s (u - pX q + rX0 sr) (v - pY q + rY0 sr)"
    using assms(3) s by (auto simp: rect_contains_def rect_at_def point_translate_def blit_in_range_def in_bitmap_def)
  ultimately show ?thesis
    using contains_bitmap_bounds[OF assms(1)] by (auto simp: blit_dest_def Let_def blit_domain_def)
qed

lemma blit_line_repaints:
  assumes wf: "wf_bitmap b" "wf_bitmap s" and y: "0 \<le> y" "y < bH b"
    and x: "0 \<le> rX0 dr" "rX0 dr \<le> rX1 dr" "rX1 dr \<le> bW b"
    and sy: "0 \<le> y - pY q + rY0 sr" "y - pY q + rY0 sr < bH s"
    and sx: "0 \<le> rX0 dr - pX q + rX0 sr" "rX1 dr - pX q + rX0 sr \<le> bW s"
  shows "\<exists>b'. blit_line s q sr dr y b = Some b'
    \<and> repaints (\<lambda>u v. v = y \<and> rX0 dr \<le> u \<and> u < rX1 dr)
        (\<lambda>u v d. blend_over d (px s (u - pX q + rX0 sr) (v - pY q + rY0 sr))) b b'"
proof -
  obtain drow where drow: "slice (bRGBA b) (y * bStride b + rX0 dr * 4) (y * bStride b + rX1 dr * 4) = Some drow"
    "length drow = nat (4 * (rX1 dr - rX0 dr))"
    "\<And>u. rX0 dr \<le> u \<Longrightarrow> u < rX1 dr \<Longrightarrow> pixel drow (nat (u - rX0 dr)) = px b u y"
    using row_slice[OF wf(1) y x] by blast
  let ?sy = "y - pY q + rY0 sr" and ?sx = "rX0 dr - pX q + rX0 sr" and ?sx1 = "rX1 dr - pX q + rX0 sr"
  obtain srow where srow: "slice (bRGBA s) (?sy * bStride s + ?sx * 4) (?sy * bStride s + ?sx1 * 4) = Some srow"
    "length srow = nat (4 * (?sx1 - ?sx))"
    "\<And>u. ?sx \<le> u \<Longrightarrow> u < ?sx1 \<Longrightarrow> pixel srow (nat (u - ?sx)) = px s u ?sy"
    using row_slice[OF wf(2) sy, of ?sx ?sx1] sx x by auto
  have len: "length srow = length drow" using drow(2) srow(2) by simp
  have ends: "?sy * bStride s + ?sx1 * 4 = ?sy * bStride s + ?sx * 4 + int (length drow)"
    using drow(2) x by simp
  have idx: "rY0 sr + (y - pY q) = ?sy" "rX0 sr + (rX0 dr - pX q) = ?sx" by simp_all
  have "repaints (\<lambda>u v. v = y \<and> rX0 dr \<le> u \<and> u < rX1 dr)
        (\<lambda>u v d. blend_over d (px s (u - pX q + rX0 sr) (v - pY q + rY0 sr))) b
     (b\<lparr>bRGBA := splice (bRGBA b) (nat (y * bStride b + rX0 dr * 4)) (blit_row srow drow)\<rparr>)"
  proof (rule row_repaints[OF wf(1) y x])
    show "length (blit_row srow drow) = nat (4 * (rX1 dr - rX0 dr))" using drow(2) by simp
    fix u assume u: "rX0 dr \<le> u" "u < rX1 dr"
    then have "pixel (blit_row srow drow) (nat (u - rX0 dr))
        = blend_over (pixel drow (nat (u - rX0 dr))) (pixel srow (nat (u - rX0 dr)))"
      using len drow(2) by (intro pixel_blit_row) auto
    moreover have "pixel srow (nat (u - rX0 dr)) = px s (u - pX q + rX0 sr) ?sy"
      using srow(3)[of "u - pX q + rX0 sr"] u by simp
    ultimately show "pixel (blit_row srow drow) (nat (u - rX0 dr))
        = blend_over (px b u y) (px s (u - pX q + rX0 sr) ?sy)"
      using drow(3) u by simp
  qed
  with drow(1) srow(1) show ?thesis
    unfolding blit_line_def Let_def idx ends by simp
qed

lemma blit_over_pixels:
  assumes "wf_bitmap b" "wf_bitmap s" "\<not> bitmap_empty (Some s)" "blit_in_range s q sr"
  shows "\<exists>b'. blit_over (Some s) q sr clip (b, w) =
        Some (b', if rect_empty (blit_dest b s q sr clip) then w
                  else count_writes (blit_dest b s q sr clip) w)
     \<and> same_frame b b'
     \<and> (\<forall>u v. in_bitmap b u v \<longrightarrow>
          px b' u v = (if blit_domain s q sr clip u v
             then blend_over (px b u v) (px s (u - pX q + rX0 sr) (v - pY q + rY0 sr)) else px b u v))"
proof -
  define dr where "dr = blit_dest b s q sr clip"
  note dom = contains_blit_dest[OF assms(1,2,4), of clip, folded dr_def]
  show ?thesis
  proof (cases "rect_empty dr")
    case True
    then have "\<not> (in_bitmap b u v \<and> blit_domain s q sr clip u v)" for u v
      using dom[of u v] by simp
    with True assms(3) show ?thesis
      by (auto simp: blit_over_def Let_def dr_def[symmetric])
  next
    case False
    have c: "rX0 dr < rX1 dr" "rY0 dr < rY1 dr"
      "in_bitmap b (rX0 dr) (rY0 dr)" "in_bitmap b (rX1 dr - 1) (rY1 dr - 1)"
      "in_bitmap s (rX0 dr - pX q + rX0 sr) (rY0 dr - pY q + rY0 sr)"
      "in_bitmap s (rX1 dr - 1 - pX q + rX0 sr) (rY1 dr - 1 - pY q + rY0 sr)"
      using False rect_corners[OF False] dom by (auto simp: not_empty_edges blit_domain_def)
    have "\<exists>b'. fold_opt (blit_line s q sr dr) (range_int (rY0 dr) (rY1 dr)) b = Some b'
      \<and> repaints (\<lambda>u v. rX0 dr \<le> u \<and> u < rX1 dr \<and> rY0 dr \<le> v \<and> v < rY1 dr)
          (\<lambda>u v d. blend_over d (px s (u - pX q + rX0 sr) (v - pY q + rY0 sr))) b b'"
      using c assms(2) by (intro rows_loop[OF assms(1)] blit_line_repaints) (auto simp: in_bitmap_def same_frame_def)
    then obtain b' where b': "fold_opt (blit_line s q sr dr) (range_int (rY0 dr) (rY1 dr)) b = Some b'"
      "repaints (\<lambda>u v. rX0 dr \<le> u \<and> u < rX1 dr \<and> rY0 dr \<le> v \<and> v < rY1 dr)
          (\<lambda>u v d. blend_over d (px s (u - pX q + rX0 sr) (v - pY q + rY0 sr))) b b'"
      by blast
    have "rX0 dr \<le> u \<and> u < rX1 dr \<and> rY0 dr \<le> v \<and> v < rY1 dr \<longleftrightarrow> blit_domain s q sr clip u v"
      if "in_bitmap b u v" for u v
      using dom[of u v] that by (simp add: rect_contains_def)
    with b' False assms(3) show ?thesis
      by (simp add: blit_over_def Let_def dr_def[symmetric] repaints_def)
  qed
qed

text \<open>
  \<open>BlitOver\<close> never indexes outside either buffer, whatever the source
  rectangle and the clip, and afterwards exactly the pixels inside the clip whose source
  pixel lies in the requested rectangle and in the source bitmap hold the source pixel
  composited over what they held.
\<close>

theorem blit_over_paints:
  assumes "wf_bitmap b" "wf_bitmap s" "\<not> bitmap_empty (Some s)" "blit_in_range s q sr"
  shows "\<exists>b'. blit_over (Some s) q sr clip (b, w) =
        Some (b', if rect_empty (blit_dest b s q sr clip) then w
                  else count_writes (blit_dest b s q sr clip) w)
     \<and> same_frame b b'
     \<and> (\<forall>u v. in_bitmap b u v \<longrightarrow>
          px b' u v = (if blit_domain s q sr clip u v
             then blend_over (px b u v) (px s (u - pX q + rX0 sr) (v - pY q + rY0 sr)) else px b u v))"
  by (rule blit_over_pixels[OF assms])

definition demo_bitmap :: bitmap where
  "demo_bitmap = \<lparr>bRGBA = replicate 32 0, bW = 2, bH = 2, bStride = 16\<rparr>"

lemmas raster_eval = rect_intersection_def rect_empty_def bitmap_bounds_def zero_rect_def in32_def
  demo_bitmap_def wf_bitmap_def bitmap_empty_def blit_in_range_def

lemma replicate_4 [simp]: "replicate 4 x = [x, x, x, x]"
  by (simp add: numeral_eq_Suc)

theorem fill_rect_paints_witness:
  "\<exists>b'. fill_rect (rect4 1 (- 5) 9 1) (RGBA 1 2 3 255) (demo_bitmap, Some 0) = Some (b', Some 1)
     \<and> px b' 1 0 = RGBA 1 2 3 255 \<and> px b' 0 0 = 0 \<and> px b' 1 1 = 0"
proof -
  have wf: "wf_bitmap demo_bitmap" by (simp add: raster_eval)
  have in_b: "in_bitmap demo_bitmap 1 0" "in_bitmap demo_bitmap 0 0" "in_bitmap demo_bitmap 1 1"
    by (simp_all add: in_bitmap_def demo_bitmap_def)
  have px: "px demo_bitmap 1 0 = 0" "px demo_bitmap 0 0 = 0" "px demo_bitmap 1 1 = 0"
    by (simp_all add: px_def demo_bitmap_def pack_color_def)
  have blend: "blend_over 0 (RGBA 1 2 3 255) = RGBA 1 2 3 255"
    by (simp add: color_eval)
  have clip: "rect_intersection (rect4 1 (- 5) 9 1) (bitmap_bounds demo_bitmap) = rect4 1 0 2 1"
    by (simp add: raster_eval Let_def rect4_def)
  have one: "count_writes (rect4 1 0 2 1) (Some 0) = Some 1" "\<not> rect_empty (rect4 1 0 2 1)"
    by (simp_all add: count_writes_def rect_W_def rect_H_def in64_def raster_eval)
  show ?thesis
    using fill_rect_paints[OF wf, of "rect4 1 (- 5) 9 1" "RGBA 1 2 3 255" "Some 0"] in_b px blend
    by (auto simp: rect_contains_def clip one)
qed

theorem blit_over_paints_witness:
  "\<exists>b'. blit_over (Some (demo_bitmap\<lparr>bRGBA := replicate 32 255\<rparr>)) (Pt 1 1) (rect4 0 0 2 2) (rect4 0 0 9 9)
       (demo_bitmap, None) = Some (b', None)
     \<and> px b' 1 1 = 0xFFFFFFFF \<and> px b' 0 0 = 0"
proof -
  let ?s = "demo_bitmap\<lparr>bRGBA := replicate 32 255\<rparr>"
  have h: "wf_bitmap demo_bitmap" "wf_bitmap ?s" "\<not> bitmap_empty (Some ?s)"
    "blit_in_range ?s (Pt 1 1) (rect4 0 0 2 2)"
    by (simp_all add: raster_eval)
  have in_b: "in_bitmap demo_bitmap 1 1" "in_bitmap demo_bitmap 0 0"
    by (simp_all add: in_bitmap_def demo_bitmap_def)
  have px: "px demo_bitmap 1 1 = 0" "px demo_bitmap 0 0 = 0" "px ?s 0 0 = 0xFFFFFFFF"
    by (simp_all add: px_def demo_bitmap_def pack_color_def)
  have blend: "blend_over 0 0xFFFFFFFF = (0xFFFFFFFF :: color)"
    by (simp add: color_eval)
  have dom: "blit_domain ?s (Pt 1 1) (rect4 0 0 2 2) (rect4 0 0 9 9) 1 1"
    "\<not> blit_domain ?s (Pt 1 1) (rect4 0 0 2 2) (rect4 0 0 9 9) 0 0"
    by (simp_all add: blit_domain_def rect_contains_def in_bitmap_def demo_bitmap_def)
  have "count_writes x None = None" for x by (simp add: count_writes_def)
  then show ?thesis
    using blit_over_paints[OF h, of "rect4 0 0 9 9" None] in_b px blend dom by auto
qed

end
