(* ===== verification/Buffer_Pool.thy ===== *)
theory Buffer_Pool
  imports Bitmaps
begin

text \<open>
  \<open>internal/frame/pool.go\<close>: the pool of fixed-size pixel buffers that tiles and
  backing stores are drawn from. What the pool and its clients pass around is the pointer
  \<open>*Bitmap\<close>: a \<open>buf\<close> is such a pointer, the address of the buffer with
  its unchanging header (width, height, stride, length). Two pointers are equal exactly
  when they are the same buffer.
\<close>

record buf =
  bufId :: nat
  bufW :: int
  bufH :: int
  bufStride :: int
  bufLen :: int

definition new_buf :: "nat \<Rightarrow> int \<Rightarrow> int \<Rightarrow> buf" where
  "new_buf a w h =
     (if w \<le> 0 \<or> h \<le> 0 then \<lparr>bufId = a, bufW = 0, bufH = 0, bufStride = 0, bufLen = 0\<rparr>
      else \<lparr>bufId = a, bufW = w, bufH = h, bufStride = w * 4, bufLen = w * 4 * h\<rparr>)"

definition buf_empty :: "buf \<Rightarrow> bool" where
  "buf_empty b \<longleftrightarrow> bufLen b = 0 \<or> bufW b \<le> 0 \<or> bufH b \<le> 0"

text \<open>The header of a buffer is the header \<open>NewBitmap\<close> gives its bitmap.\<close>

lemma new_buf_header:
  "bufW (new_buf a w h) = bW (new_bitmap w h)" "bufH (new_buf a w h) = bH (new_bitmap w h)"
  "bufStride (new_buf a w h) = bStride (new_bitmap w h)"
  "bufLen (new_buf a w h) = bitmap_bytes (new_bitmap w h)"
  by (simp_all add: new_buf_def new_bitmap_def bitmap_bytes_def Let_def)

subsection \<open>The pool\<close>

text \<open>
  \<open>plNext\<close> is the address the next allocation gets; the rest are the fields of
  \<open>BitmapPool\<close>. The idle buffers are a stack whose top is the end of the list.
\<close>

record pool =
  plSize :: gsize
  plMaxIdle :: int
  plIdle :: "buf list"
  plCreated :: int
  plAcquired :: int
  plReleased :: int
  plNext :: nat

definition new_bitmap_pool :: "gsize \<Rightarrow> int \<Rightarrow> pool" where
  "new_bitmap_pool sz maxIdle =
     \<lparr>plSize = sz, plMaxIdle = maxIdle, plIdle = [], plCreated = 0, plAcquired = 0,
      plReleased = 0, plNext = 0\<rparr>"

definition pool_cap :: "pool \<Rightarrow> int" where
  "pool_cap p = (if plMaxIdle p \<le> 0 then 1073741824 else plMaxIdle p)"

definition pool_alloc :: "pool \<Rightarrow> buf" where
  "pool_alloc p = new_buf (plNext p) (sW (plSize p)) (sH (plSize p))"

fun pool_prealloc :: "nat \<Rightarrow> pool \<Rightarrow> pool" where
  "pool_prealloc 0 p = p"
| "pool_prealloc (Suc n) p =
     (if int (length (plIdle p)) < pool_cap p
      then pool_prealloc n (p\<lparr>plIdle := plIdle p @ [pool_alloc p], plCreated := plCreated p + 1,
                              plNext := Suc (plNext p)\<rparr>)
      else p)"

definition pool_acquire :: "pool \<Rightarrow> buf \<times> pool" where
  "pool_acquire p =
     (let p = p\<lparr>plAcquired := plAcquired p + 1\<rparr>
      in if plIdle p \<noteq> []
         then (last (plIdle p), p\<lparr>plIdle := butlast (plIdle p)\<rparr>)
         else (pool_alloc p, p\<lparr>plCreated := plCreated p + 1, plNext := Suc (plNext p)\<rparr>))"

definition pool_release :: "buf option \<Rightarrow> pool \<Rightarrow> pool" where
  "pool_release bo p =
     (case bo of
        None \<Rightarrow> p
      | Some b \<Rightarrow>
         (if buf_empty b then p
          else if bufW b \<noteq> sW (plSize p) \<or> bufH b \<noteq> sH (plSize p) \<or> bufStride b \<noteq> bufW b * 4 then p
          else let p = p\<lparr>plReleased := plReleased p + 1\<rparr>
               in if int (length (plIdle p)) \<ge> pool_cap p then p
                  else p\<lparr>plIdle := plIdle p @ [b]\<rparr>))"

record pool_stats =
  psCreated :: int
  psAcquired :: int
  psReleased :: int
  psIdle :: int

definition pool_stats_of :: "pool \<Rightarrow> pool_stats" where
  "pool_stats_of p = \<lparr>psCreated = plCreated p, psAcquired = plAcquired p,
     psReleased = plReleased p, psIdle = int (length (plIdle p))\<rparr>"

subsection \<open>The contract a client of a pool rests on\<close>

text \<open>
  \<open>idl p\<close> are the addresses the pool may hand out again, \<open>seen p\<close> every
  address it ever handed out or holds. A client that gives back only what it holds is
  never handed a buffer it still holds.
\<close>

locale buffer_source =
  fixes pok :: "'p \<Rightarrow> bool"
    and idl :: "'p \<Rightarrow> 'a multiset"
    and seen :: "'p \<Rightarrow> 'a set"
    and addr :: "'b \<Rightarrow> 'a"
    and take_buf :: "'p \<Rightarrow> 'b \<times> 'p"
    and give_buf :: "'b \<Rightarrow> 'p \<Rightarrow> 'p"
  assumes take_ok: "pok p \<Longrightarrow> pok (snd (take_buf p))"
    and take_from: "pok p \<Longrightarrow>
        idl p = add_mset (addr (fst (take_buf p))) (idl (snd (take_buf p))) \<and> seen (snd (take_buf p)) = seen p
      \<or> addr (fst (take_buf p)) \<notin> seen p \<and> idl (snd (take_buf p)) = idl p
          \<and> seen (snd (take_buf p)) = insert (addr (fst (take_buf p))) (seen p)"
    and idl_seen: "pok p \<Longrightarrow> set_mset (idl p) \<subseteq> seen p"
    and give_ok: "pok p \<Longrightarrow> addr b \<in> seen p \<Longrightarrow> pok (give_buf b p)"
    and give_to: "pok p \<Longrightarrow> addr b \<in> seen p \<Longrightarrow>
        (idl (give_buf b p) = idl p \<or> idl (give_buf b p) = add_mset (addr b) (idl p)) \<and> seen (give_buf b p) = seen p"
begin

text \<open>No buffer is idle twice, held twice, or both, and everything held came from the pool.\<close>

definition exclusive :: "'p \<Rightarrow> 'a multiset \<Rightarrow> bool" where
  "exclusive p held \<longleftrightarrow> pok p \<and> set_mset held \<subseteq> seen p \<and> (\<forall>b. count (held + idl p) b \<le> 1)"

lemma exclusive_take:
  assumes "exclusive p held"
  shows "exclusive (snd (take_buf p)) (add_mset (addr (fst (take_buf p))) held)"
    and "addr (fst (take_buf p)) \<notin># held"
proof -
  let ?b = "addr (fst (take_buf p))" and ?q = "snd (take_buf p)"
  have p: "pok p" "set_mset held \<subseteq> seen p" and one: "\<And>x. count held x + count (idl p) x \<le> 1"
    using assms by (auto simp: exclusive_def)
  have "exclusive ?q (add_mset ?b held) \<and> ?b \<notin># held"
    using take_from[OF p(1)]
  proof
    assume from_idle: "idl p = add_mset ?b (idl ?q) \<and> seen ?q = seen p"
    then have cnt: "count (idl p) x = count (idl ?q) x + (if x = ?b then 1 else 0)" for x
      by simp
    have "count held ?b = 0" using one[of ?b] cnt[of ?b] by simp
    moreover have "count (add_mset ?b held + idl ?q) x \<le> 1" for x
      using one[of x] cnt[of x] by (simp split: if_splits)
    moreover have "?b \<in> seen p" using from_idle idl_seen[OF p(1)] by auto
    ultimately show ?thesis
      using take_ok[OF p(1)] p(2) from_idle by (auto simp: exclusive_def count_eq_zero_iff)
  next
    assume fresh: "?b \<notin> seen p \<and> idl ?q = idl p \<and> seen ?q = insert ?b (seen p)"
    then have b: "?b \<notin># held" "?b \<notin># idl p" using p(2) idl_seen[OF p(1)] by auto
    then have "count (add_mset ?b held + idl ?q) x \<le> 1" for x
      using one[of x] fresh by (auto simp: not_in_iff)
    with b show ?thesis
      using take_ok[OF p(1)] p(2) fresh by (auto simp: exclusive_def)
  qed
  then show "exclusive ?q (add_mset ?b held)" "?b \<notin># held" by auto
qed

lemma exclusive_give:
  assumes "exclusive p (add_mset (addr b) held)"
  shows "exclusive (give_buf b p) held"
proof -
  have p: "pok p" "addr b \<in> seen p" "set_mset held \<subseteq> seen p"
    using assms unfolding exclusive_def by auto
  have one: "count (add_mset (addr b) held) x + count (idl p) x \<le> 1" for x
    using assms unfolding exclusive_def count_union[symmetric] by blast
  have "count held x + count (idl (give_buf b p)) x \<le> 1" for x
    using give_to[OF p(1,2)] one[of x] by (auto split: if_splits)
  then show ?thesis
    using give_ok[OF p(1,2)] give_to[OF p(1,2)] p(3) by (simp add: exclusive_def)
qed

lemma exclusive_mono: "exclusive p (a + b) \<Longrightarrow> exclusive p a"
proof -
  assume e: "exclusive p (a + b)"
  have "count (a + idl p) x \<le> 1" for x
    using e unfolding exclusive_def by (auto elim!: allE[of _ x])
  with e show ?thesis by (auto simp: exclusive_def)
qed

end

subsection \<open>The pool honours it\<close>

definition pool_ok :: "pool \<Rightarrow> bool" where
  "pool_ok p \<longleftrightarrow> (\<forall>b\<in>set (plIdle p). bufId b < plNext p) \<and> int (length (plIdle p)) \<le> pool_cap p"

lemma bufId_alloc [simp]: "bufId (pool_alloc p) = plNext p"
  by (simp add: pool_alloc_def new_buf_def)

lemma pool_cap_pos [simp]: "0 < pool_cap p"
  by (simp add: pool_cap_def)

lemma pool_cap_simps [simp]:
  "pool_cap (p\<lparr>plIdle := l\<rparr>) = pool_cap p" "pool_cap (p\<lparr>plCreated := n\<rparr>) = pool_cap p"
  "pool_cap (p\<lparr>plAcquired := n\<rparr>) = pool_cap p" "pool_cap (p\<lparr>plReleased := n\<rparr>) = pool_cap p"
  "pool_cap (p\<lparr>plNext := k\<rparr>) = pool_cap p"
  by (simp_all add: pool_cap_def)

lemma mset_butlast: "xs \<noteq> [] \<Longrightarrow> mset xs = add_mset (last xs) (mset (butlast xs))"
  by (cases xs rule: rev_cases) auto

lemma pool_acquire_from:
  "plIdle p \<noteq> [] \<Longrightarrow> pool_acquire p =
     (last (plIdle p), p\<lparr>plAcquired := plAcquired p + 1, plIdle := butlast (plIdle p)\<rparr>)"
  "plIdle p = [] \<Longrightarrow> pool_acquire p =
     (pool_alloc p, p\<lparr>plAcquired := plAcquired p + 1, plCreated := plCreated p + 1, plNext := Suc (plNext p)\<rparr>)"
  by (simp_all add: pool_acquire_def Let_def pool_alloc_def)

lemma pool_release_cases:
  "pool_release (Some b) p = p
   \<or> pool_release (Some b) p = p\<lparr>plReleased := plReleased p + 1\<rparr>
   \<or> int (length (plIdle p)) < pool_cap p \<and> bufW b = sW (plSize p) \<and> bufH b = sH (plSize p)
     \<and> bufStride b = bufW b * 4 \<and> \<not> buf_empty b
     \<and> pool_release (Some b) p = p\<lparr>plReleased := plReleased p + 1, plIdle := plIdle p @ [b]\<rparr>"
  by (auto simp: pool_release_def Let_def)

lemma pool_acquire_ok: "pool_ok p \<Longrightarrow> pool_ok (snd (pool_acquire p))"
proof (cases "plIdle p = []")
  case True
  then show ?thesis by (simp add: pool_acquire_from pool_ok_def less_imp_le)
next
  case False
  moreover assume "pool_ok p"
  ultimately show ?thesis
    by (auto simp: pool_acquire_from pool_ok_def dest: in_set_butlastD)
qed

lemma pool_release_ok: "pool_ok p \<Longrightarrow> bufId b < plNext p \<Longrightarrow> pool_ok (pool_release (Some b) p)"
  using pool_release_cases[of b p] by (auto simp: pool_ok_def)

interpretation bp: buffer_source pool_ok "\<lambda>p. image_mset bufId (mset (plIdle p))"
  "\<lambda>p. {..<plNext p}" "bufId :: buf \<Rightarrow> nat" pool_acquire "\<lambda>b. pool_release (Some b)"
proof unfold_locales
  fix p and b :: buf assume p: "pool_ok p"
  show "pool_ok (snd (pool_acquire p))" using p by (rule pool_acquire_ok)
  show "image_mset bufId (mset (plIdle p))
        = add_mset (bufId (fst (pool_acquire p))) (image_mset bufId (mset (plIdle (snd (pool_acquire p)))))
        \<and> {..<plNext (snd (pool_acquire p))} = {..<plNext p}
      \<or> bufId (fst (pool_acquire p)) \<notin> {..<plNext p}
        \<and> image_mset bufId (mset (plIdle (snd (pool_acquire p)))) = image_mset bufId (mset (plIdle p))
        \<and> {..<plNext (snd (pool_acquire p))} = insert (bufId (fst (pool_acquire p))) {..<plNext p}"
    by (cases "plIdle p = []") (auto simp: pool_acquire_from mset_butlast)
  show "set_mset (image_mset bufId (mset (plIdle p))) \<subseteq> {..<plNext p}" using p by (auto simp: pool_ok_def)
  assume b: "bufId b \<in> {..<plNext p}"
  show "pool_ok (pool_release (Some b) p)"
    using pool_release_ok[OF p] b by simp
  show "(image_mset bufId (mset (plIdle (pool_release (Some b) p))) = image_mset bufId (mset (plIdle p))
       \<or> image_mset bufId (mset (plIdle (pool_release (Some b) p)))
           = add_mset (bufId b) (image_mset bufId (mset (plIdle p))))
     \<and> {..<plNext (pool_release (Some b) p)} = {..<plNext p}"
    using pool_release_cases[of b p] by auto
qed

end
