(* ===== verification/Linked_List.thy ===== *)
theory Linked_List
  imports Prelude
begin

text \<open>
  The pointer structure behind the tile grid's recency order
  (\<open>internal/frame/grid.go\<close> threads its least-recently-used list through the
  tiles themselves). This theory holds what does not depend on the grid: doubly linked
  pointers over keys, the list they denote, and the effect of unlinking and of linking
  at the front on that list. \<open>Tile_Grid\<close> reads its tiles as such a structure.

  The locale \<open>recency\<close> is the contract the caches of the program rest on: an
  order of distinct keys, most recent first, and a use that moves a key to the front.
\<close>

subsection \<open>First, last, successor and predecessor in a list\<close>

fun hd_opt :: "'a list \<Rightarrow> 'a option" where
  "hd_opt [] = None"
| "hd_opt (x # xs) = Some x"

fun last_opt :: "'a list \<Rightarrow> 'a option" where
  "last_opt [] = None"
| "last_opt [x] = Some x"
| "last_opt (x # y # ys) = last_opt (y # ys)"

fun succ_of :: "'a list \<Rightarrow> 'a \<Rightarrow> 'a option" where
  "succ_of (x # y # zs) k = (if k = x then Some y else succ_of (y # zs) k)"
| "succ_of _ k = None"

fun pred_of :: "'a list \<Rightarrow> 'a \<Rightarrow> 'a option" where
  "pred_of (x # y # zs) k = (if k = y then Some x else pred_of (y # zs) k)"
| "pred_of _ k = None"

lemma hd_opt_append [simp]: "hd_opt (xs @ ys) = (if xs = [] then hd_opt ys else hd_opt xs)"
  by (cases xs) auto

lemma last_opt_append [simp]: "last_opt (xs @ ys) = (if ys = [] then last_opt xs else last_opt ys)"
proof (induction xs rule: last_opt.induct)
  case (2 x)
  then show ?case by (cases ys) auto
qed auto

lemma last_opt_Cons [simp]: "last_opt (x # xs) = (if xs = [] then Some x else last_opt xs)"
  by (cases xs) auto

lemma hd_opt_None [simp]: "hd_opt xs = None \<longleftrightarrow> xs = []"
  by (cases xs) auto

lemma last_opt_None [simp]: "last_opt xs = None \<longleftrightarrow> xs = []"
  by (induction xs rule: last_opt.induct) auto

lemma hd_opt_Some [dest]: "hd_opt xs = Some k \<Longrightarrow> k \<in> set xs"
  by (cases xs) auto

lemma last_opt_Some [dest]: "last_opt xs = Some k \<Longrightarrow> k \<in> set xs"
  by (induction xs rule: last_opt.induct) auto

lemma last_opt_snoc: "last_opt xs = Some k \<longleftrightarrow> (\<exists>ys. xs = ys @ [k])"
  by (cases xs rule: rev_cases) auto

lemma succ_of_notin [simp]: "k \<notin> set xs \<Longrightarrow> succ_of xs k = None"
  by (induction xs k rule: succ_of.induct) auto

lemma pred_of_notin [simp]: "k \<notin> set xs \<Longrightarrow> pred_of xs k = None"
  by (induction xs k rule: pred_of.induct) auto

lemma pred_of_hd: "distinct (x # xs) \<Longrightarrow> pred_of (x # xs) x = None"
  by (cases xs) auto

lemma succ_of_Cons:
  "x \<notin> set xs \<Longrightarrow> succ_of (x # xs) k = (if k = x then hd_opt xs else succ_of xs k)"
  by (cases xs) auto

lemma pred_of_Cons:
  "distinct xs \<Longrightarrow> x \<notin> set xs \<Longrightarrow>
   pred_of (x # xs) k = (if hd_opt xs = Some k then Some x else pred_of xs k)"
  by (cases xs) auto

lemma succ_of_append:
  "distinct (xs @ ys) \<Longrightarrow> succ_of (xs @ ys) k =
     (if k \<in> set xs then (if last_opt xs = Some k then hd_opt ys else succ_of xs k) else succ_of ys k)"
proof (induction xs)
  case (Cons x xs)
  then show ?case
    by (cases xs) (auto simp: succ_of_Cons)
qed simp

lemma pred_of_append:
  "distinct (xs @ ys) \<Longrightarrow> pred_of (xs @ ys) k =
     (if k \<in> set ys then (if hd_opt ys = Some k then last_opt xs else pred_of ys k) else pred_of xs k)"
proof (induction xs)
  case Nil
  then show ?case by (cases ys) (auto simp: pred_of_hd)
next
  case (Cons x xs)
  have "pred_of ((x # xs) @ ys) k = (if hd_opt (xs @ ys) = Some k then Some x else pred_of (xs @ ys) k)"
    using Cons.prems pred_of_Cons[of "xs @ ys" x] by simp
  moreover have "pred_of (x # xs) k = (if hd_opt xs = Some k then Some x else pred_of xs k)"
    using Cons.prems pred_of_Cons[of xs x] by simp
  moreover have "hd_opt xs = Some k \<Longrightarrow> k \<in> set xs" "hd_opt ys = Some k \<Longrightarrow> k \<in> set ys"
    by auto
  ultimately show ?case
    using Cons by (cases "xs = []") auto
qed

lemma pred_of_mem: "distinct xs \<Longrightarrow> pred_of xs k = Some p \<Longrightarrow> p \<in> set xs \<and> p \<noteq> k"
  by (induction xs k rule: pred_of.induct) (auto split: if_splits)

lemma succ_of_mem: "distinct xs \<Longrightarrow> succ_of xs k = Some n \<Longrightarrow> n \<in> set xs \<and> n \<noteq> k"
  by (induction xs k rule: succ_of.induct) (auto split: if_splits)

subsection \<open>Doubly linked pointers\<close>

record 'k links =
  lkHead :: "'k option"
  lkTail :: "'k option"
  lkPrev :: "'k \<Rightarrow> 'k option"
  lkNext :: "'k \<Rightarrow> 'k option"

text \<open>The pointers denote exactly the list, and a key outside it has none.\<close>

definition dll :: "'k links \<Rightarrow> 'k list \<Rightarrow> bool" where
  "dll L xs \<longleftrightarrow> distinct xs \<and> lkHead L = hd_opt xs \<and> lkTail L = last_opt xs
     \<and> lkNext L = succ_of xs \<and> lkPrev L = pred_of xs"

definition set_opt :: "'k option \<Rightarrow> 'b \<Rightarrow> ('k \<Rightarrow> 'b) \<Rightarrow> ('k \<Rightarrow> 'b)" where
  "set_opt k v f = (case k of None \<Rightarrow> f | Some k \<Rightarrow> f(k := v))"

definition dll_unlink :: "'k \<Rightarrow> 'k links \<Rightarrow> 'k links" where
  "dll_unlink k L =
     (let p = lkPrev L k; n = lkNext L k in
      \<lparr>lkHead = (if p = None \<and> lkHead L = Some k then n else lkHead L),
       lkTail = (if n = None \<and> lkTail L = Some k then p else lkTail L),
       lkPrev = (set_opt n p (lkPrev L))(k := None),
       lkNext = (set_opt p n (lkNext L))(k := None)\<rparr>)"

definition dll_push :: "'k \<Rightarrow> 'k links \<Rightarrow> 'k links" where
  "dll_push k L =
     \<lparr>lkHead = Some k,
      lkTail = (if lkTail L = None then Some k else lkTail L),
      lkPrev = set_opt (lkHead L) (Some k) ((lkPrev L)(k := None)),
      lkNext = (lkNext L)(k := lkHead L)\<rparr>"

lemma dll_D:
  "dll L xs \<Longrightarrow> distinct xs" "dll L xs \<Longrightarrow> lkHead L = hd_opt xs" "dll L xs \<Longrightarrow> lkTail L = last_opt xs"
  "dll L xs \<Longrightarrow> lkNext L k = succ_of xs k" "dll L xs \<Longrightarrow> lkPrev L k = pred_of xs k"
  by (simp_all add: dll_def)

text \<open>The list a pointer structure denotes is determined by it.\<close>

lemma succ_of_inject:
  "distinct xs \<Longrightarrow> distinct ys \<Longrightarrow> hd_opt xs = hd_opt ys \<Longrightarrow> succ_of xs = succ_of ys \<Longrightarrow> xs = ys"
proof (induction xs arbitrary: ys)
  case Nil
  then show ?case by (metis hd_opt.simps(1) hd_opt_None)
next
  case (Cons x xs)
  then obtain zs where ys: "ys = x # zs" by (cases ys) auto
  have s: "succ_of (x # xs) k = succ_of (x # zs) k" for k
    using Cons.prems(4) ys by simp
  have "hd_opt xs = hd_opt zs"
    using s[of x] Cons.prems(1,2) ys by (simp add: succ_of_Cons)
  moreover have "succ_of xs k = succ_of zs k" for k
    using s[of k] Cons.prems(1,2) ys by (cases "k = x") (simp_all add: succ_of_Cons)
  ultimately show ?case
    using Cons.IH[of zs] Cons.prems(1,2) ys by auto
qed

lemma dll_unique: "dll L xs \<Longrightarrow> dll L ys \<Longrightarrow> xs = ys"
  by (rule succ_of_inject) (auto simp: dll_def)

lemma dll_unlink_notin:
  "dll L xs \<Longrightarrow> k \<notin> set xs \<Longrightarrow> dll_unlink k L = L"
  by (auto simp: dll_def dll_unlink_def set_opt_def Let_def fun_upd_idem)

lemma dll_unlink_in:
  assumes "dll L (ys @ k # zs)"
  shows "dll (dll_unlink k L) (ys @ zs)"
proof -
  have d: "distinct (ys @ k # zs)" using assms by (rule dll_D)
  then have d': "distinct (ys @ zs)" by simp
  note L = dll_D[OF assms]
  have p: "lkPrev L k = last_opt ys" and n: "lkNext L k = hd_opt zs"
    using d by (simp_all add: L pred_of_append succ_of_append succ_of_Cons)
  have "lkNext (dll_unlink k L) j = succ_of (ys @ zs) j" for j
    using d L(4)[of j] d' unfolding dll_unlink_def Let_def p n
    by (cases "last_opt ys") (auto simp: set_opt_def succ_of_append succ_of_Cons)
  moreover have "lkPrev (dll_unlink k L) j = pred_of (ys @ zs) j" for j
    using d L(5)[of j] d' unfolding dll_unlink_def Let_def p n
    by (cases "hd_opt zs") (auto simp: set_opt_def pred_of_append pred_of_Cons)
  moreover have "lkHead (dll_unlink k L) = hd_opt (ys @ zs)"
    using d L(2) unfolding dll_unlink_def Let_def p n by auto
  moreover have "lkTail (dll_unlink k L) = last_opt (ys @ zs)"
    using d L(3) unfolding dll_unlink_def Let_def p n by auto
  ultimately show ?thesis
    using d' by (auto simp: dll_def)
qed

lemma remove1_split: "k \<notin> set ys \<Longrightarrow> remove1 k (ys @ k # zs) = ys @ zs"
  by (simp add: remove1_append)

lemma dll_unlink:
  assumes "dll L xs"
  shows "dll (dll_unlink k L) (remove1 k xs)"
proof (cases "k \<in> set xs")
  case True
  then obtain ys zs where xs: "xs = ys @ k # zs" "k \<notin> set ys" by (meson split_list_first)
  with dll_unlink_in[of L ys k zs] assms show ?thesis by (simp add: remove1_split)
next
  case False
  with assms show ?thesis by (simp add: dll_unlink_notin remove1_idem)
qed

lemma dll_push:
  assumes "dll L xs" "k \<notin> set xs"
  shows "dll (dll_push k L) (k # xs)"
proof -
  note L = dll_D[OF assms(1)]
  have "lkNext (dll_push k L) j = succ_of (k # xs) j" for j
    using assms(2) L(1) by (simp add: dll_push_def L succ_of_Cons)
  moreover have "lkPrev (dll_push k L) j = pred_of (k # xs) j" for j
    using assms(2) L(1) by (cases xs) (auto simp: dll_push_def L set_opt_def pred_of_Cons)
  moreover have "lkTail (dll_push k L) = last_opt (k # xs)"
    using L(3) by (cases xs) (auto simp: dll_push_def)
  ultimately show ?thesis
    using assms(2) L(1) by (auto simp: dll_def dll_push_def)
qed

subsection \<open>The recency contract\<close>

text \<open>
  \<open>ord s\<close> is the order of a cache's keys, most recently used first, and
  \<open>use\<close> is the operation that records a use.
\<close>

locale recency =
  fixes ok :: "'s \<Rightarrow> bool"
    and ord :: "'s \<Rightarrow> 'k list"
    and use :: "'k \<Rightarrow> 's \<Rightarrow> 's"
  assumes ord_distinct: "ok s \<Longrightarrow> distinct (ord s)"
    and use_ok: "ok s \<Longrightarrow> k \<in> set (ord s) \<Longrightarrow> ok (use k s)"
    and ord_use: "ok s \<Longrightarrow> k \<in> set (ord s) \<Longrightarrow> ord (use k s) = k # remove1 k (ord s)"
begin

lemma uses_ok: "ok s \<Longrightarrow> set ks \<subseteq> set (ord s) \<Longrightarrow> ok (fold use ks s) \<and> set (ord (fold use ks s)) = set (ord s)"
proof (induction ks arbitrary: s)
  case (Cons k ks)
  have "set (ord (use k s)) = set (ord s)"
    using Cons.prems ord_use[of s k] ord_distinct[of s] by auto
  with Cons.IH[of "use k s"] Cons.prems use_ok[of s k] show ?case by simp
qed simp

text \<open>
  After any sequence of uses, the keys used lie in front of the keys not used, and the
  untouched keys keep their relative order: the least recently used key is never one of
  the used ones while an unused one remains.
\<close>

lemma uses_in_front:
  assumes "ok s" "set ks \<subseteq> set (ord s)"
  shows "\<exists>front. ord (fold use ks s) = front @ filter (\<lambda>k. k \<notin> set ks) (ord s) \<and> set front = set ks"
  using assms
proof (induction ks rule: rev_induct)
  case Nil
  then show ?case by simp
next
  case (snoc k ks)
  let ?s = "fold use ks s" and ?rest = "\<lambda>ks. filter (\<lambda>k. k \<notin> set ks) (ord s)"
  obtain front where front: "ord ?s = front @ ?rest ks" "set front = set ks"
    using snoc by auto
  have s: "ok ?s" "set (ord ?s) = set (ord s)"
    using uses_ok[of s ks] snoc.prems by auto
  then have "ord (use k ?s) = k # remove1 k (ord ?s)"
    using snoc.prems by (intro ord_use) auto
  also have "remove1 k (ord ?s) = remove1 k front @ ?rest (ks @ [k])"
  proof (cases "k \<in> set ks")
    case True
    then have "k \<in> set front" "?rest (ks @ [k]) = ?rest ks"
      using front(2) by (auto intro: filter_cong)
    then show ?thesis by (simp add: front(1) remove1_append)
  next
    case False
    then have "k \<notin> set front" using front(2) by simp
    moreover have "remove1 k (?rest ks) = filter (\<lambda>x. x \<noteq> k) (?rest ks)"
      using ord_distinct[OF snoc.prems(1)] by (intro distinct_remove1_removeAll[THEN trans])
        (auto simp: removeAll_filter_not_eq intro: filter_cong)
    ultimately show ?thesis
      by (simp add: front(1) remove1_append remove1_idem conj_commute)
  qed
  finally have "ord (fold use (ks @ [k]) s) = (k # remove1 k front) @ ?rest (ks @ [k])" by simp
  moreover have "set (k # remove1 k front) = set (ks @ [k])"
    using front ord_distinct[OF s(1)] by auto
  ultimately show ?case by blast
qed

text \<open>Hence the victim at the back of the order is unused whenever some key is.\<close>

lemma victim_unused:
  assumes "ok s" "set ks \<subseteq> set (ord s)" "\<not> set (ord s) \<subseteq> set ks"
    and "last_opt (ord (fold use ks s)) = Some v"
  shows "v \<notin> set ks \<and> last_opt (filter (\<lambda>k. k \<notin> set ks) (ord s)) = Some v"
proof -
  obtain front where "ord (fold use ks s) = front @ filter (\<lambda>k. k \<notin> set ks) (ord s)"
    using uses_in_front[OF assms(1,2)] by blast
  moreover have "filter (\<lambda>k. k \<notin> set ks) (ord s) \<noteq> []"
    using assms(3) by (auto simp: filter_empty_conv)
  ultimately have "last_opt (filter (\<lambda>k. k \<notin> set ks) (ord s)) = Some v"
    using assms(4) by simp
  then show ?thesis by (auto dest: last_opt_Some)
qed

end

end
