(* ===== verification/Tile_Grid.thy ===== *)
theory Tile_Grid
  imports Buffer_Pool Linked_List
begin

text \<open>
  \<open>internal/frame/tile.go\<close> and \<open>internal/frame/grid.go\<close>: the tile grid
  of one layer, with its pixel buffers, its byte budget and its recency list.

  A \<open>*Tile\<close> is named by its coordinate: the grid holds one record per coordinate
  and never drops it. \<open>gTiles\<close> is the Go map and \<open>gKeys\<close> its keys in
  some order (the code ranges over the map; no property depends on the order). The
  list \<open>free\<close> of prebuilt zero records is its length.

  An operation that may dereference a pointer or loop returns an option: \<open>None\<close>
  is a nil dereference or a loop that does not end.
\<close>

subsection \<open>Tiles\<close>

datatype tile_state = TileEmpty | TileValid | TileStale | TileFailed

definition MaxTileAttempts :: int where
  "MaxTileAttempts = 2"

record tile =
  tCoord :: tile_coord
  tBounds :: rect
  tVersion :: nat
  tLastUsed :: nat
  tPixels :: "buf option"
  tBytes :: int
  tState :: tile_state
  tAttempts :: int
  tPrev :: "tile_coord option"
  tNext :: "tile_coord option"
  tPainting :: "buf option"

definition zero_tile :: tile where
  "zero_tile = \<lparr>tCoord = TC 0 0, tBounds = zero_rect, tVersion = 0, tLastUsed = 0, tPixels = None,
     tBytes = 0, tState = TileEmpty, tAttempts = 0, tPrev = None, tNext = None, tPainting = None\<rparr>"

definition valid_at :: "tile option \<Rightarrow> nat \<Rightarrow> bool" where
  "valid_at t v = (case t of None \<Rightarrow> False
     | Some t \<Rightarrow> tState t = TileValid \<and> tVersion t \<ge> v \<and> tPixels t \<noteq> None)"

definition tile_blittable :: "tile option \<Rightarrow> bool" where
  "tile_blittable t = (case t of None \<Rightarrow> False
     | Some t \<Rightarrow> tPixels t \<noteq> None \<and> tState t \<noteq> TileFailed)"

subsection \<open>The grid\<close>

record grid =
  gTileSize :: int
  gExtent :: rect
  gTiles :: "tile_coord \<Rightarrow> tile option"
  gKeys :: "tile_coord list"
  gHead :: "tile_coord option"
  gTail :: "tile_coord option"
  gFree :: nat
  gUsed :: int
  gBudget :: int
  gClock :: nat
  gPool :: pool
  gEvictions :: int
  gRasterized :: int
  gReused :: int
  gDroppedLate :: int
  gPainting :: int
  gCounts :: "tile_state \<Rightarrow> int"

definition tile_bytes :: "int \<Rightarrow> int" where
  "tile_bytes ts = i64 (i64 (ts * ts) * 4)"

definition coord_count :: "grid \<Rightarrow> int" where
  "coord_count g =
     (if gTileSize g \<le> 0 \<or> rect_empty (gExtent g) then 0
      else let cols = i32 (i32 (rect_W (gExtent g) + gTileSize g) - 1) sdiv gTileSize g;
               rows = i32 (i32 (rect_H (gExtent g) + gTileSize g) - 1) sdiv gTileSize g
           in cols * rows)"

definition record_cap :: "grid \<Rightarrow> int" where
  "record_cap g =
     (let n = coord_count g;
          limit = (gBudget g sdiv tile_bytes (gTileSize g)) * 4;
          n = (if n > limit then limit else n)
      in if n < 0 then 0 else n)"

definition prebuild :: "int \<Rightarrow> grid \<Rightarrow> grid" where
  "prebuild n g = (if n \<le> 0 then g else g\<lparr>gFree := gFree g + nat n\<rparr>)"

definition new_grid :: "rect \<Rightarrow> int \<Rightarrow> int \<Rightarrow> pool \<Rightarrow> grid" where
  "new_grid ext ts budget pl =
     (let ts = (if ts \<le> 0 then TileSize else ts);
          one = tile_bytes ts;
          budget = (if budget < one then one else budget);
          g = \<lparr>gTileSize = ts, gExtent = rect_canon ext, gTiles = (\<lambda>_. None), gKeys = [],
               gHead = None, gTail = None, gFree = 0, gUsed = 0, gBudget = budget, gClock = 0,
               gPool = pl, gEvictions = 0, gRasterized = 0, gReused = 0, gDroppedLate = 0,
               gPainting = 0, gCounts = (\<lambda>_. 0)\<rparr>
      in prebuild (record_cap g) g)"

definition inside :: "grid \<Rightarrow> tile_coord \<Rightarrow> bool" where
  "inside g c = rect_intersects (coord_rect c (gTileSize g)) (gExtent g)"

definition coord_range :: "grid \<Rightarrow> rect \<Rightarrow> (tile_coord \<times> tile_coord) option" where
  "coord_range g r =
     (if rect_empty r then None
      else Some (coord_for (Pt (rX0 r) (rY0 r)) (gTileSize g),
                 coord_for (Pt (i32 (rX1 r - 1)) (i32 (rY1 r - 1))) (gTileSize g)))"

text \<open>The nested loop over rows and columns that five operations share.\<close>

definition coords_in :: "tile_coord \<Rightarrow> tile_coord \<Rightarrow> tile_coord list" where
  "coords_in lo hi =
     concat (map (\<lambda>row. map (\<lambda>col. TC col row) (range_int (tcCol lo) (tcCol hi + 1)))
                 (range_int (tcRow lo) (tcRow hi + 1)))"

definition coords_covering :: "grid \<Rightarrow> rect \<Rightarrow> tile_coord list" where
  "coords_covering g r = (case coord_range g r of None \<Rightarrow> [] | Some (lo, hi) \<Rightarrow> coords_in lo hi)"

subsection \<open>Records and states\<close>

text \<open>A write through the tile pointer, and the read of its fields.\<close>

definition upd_tile :: "tile_coord \<Rightarrow> (tile \<Rightarrow> tile) \<Rightarrow> grid \<Rightarrow> grid" where
  "upd_tile c f g = (case gTiles g c of None \<Rightarrow> g | Some t \<Rightarrow> g\<lparr>gTiles := (gTiles g)(c \<mapsto> f t)\<rparr>)"

definition tile_at :: "grid \<Rightarrow> tile_coord \<Rightarrow> tile" where
  "tile_at g c = (case gTiles g c of None \<Rightarrow> zero_tile | Some t \<Rightarrow> t)"

definition new_record :: "tile_coord \<Rightarrow> grid \<Rightarrow> tile \<times> grid" where
  "new_record c g =
     (let g' = (if gFree g > 0 then g\<lparr>gFree := gFree g - 1\<rparr> else g)
      in (zero_tile\<lparr>tCoord := c, tBounds := coord_rect c (gTileSize g), tState := TileEmpty\<rparr>, g'))"

text \<open>\<open>ensure\<close> returns whether the coordinate has a tile; the tile is then in the map.\<close>

definition ensure :: "tile_coord \<Rightarrow> grid \<Rightarrow> bool \<times> grid" where
  "ensure c g =
     (case gTiles g c of
        Some t \<Rightarrow> (True, g)
      | None \<Rightarrow>
         (if \<not> inside g c then (False, g)
          else let (t, g) = new_record c g
               in (True, g\<lparr>gTiles := (gTiles g)(c \<mapsto> t), gKeys := gKeys g @ [c],
                           gCounts := (gCounts g)(TileEmpty := gCounts g TileEmpty + 1)\<rparr>)))"

definition set_state :: "tile_coord \<Rightarrow> tile_state \<Rightarrow> grid \<Rightarrow> grid" where
  "set_state c s g =
     (let old = tState (tile_at g c);
          g = g\<lparr>gCounts := (gCounts g)(old := gCounts g old - 1)\<rparr>;
          g = upd_tile c (\<lambda>t. t\<lparr>tState := s\<rparr>) g
      in g\<lparr>gCounts := (gCounts g)(s := gCounts g s + 1)\<rparr>)"

subsection \<open>The recency list\<close>

definition unlink :: "tile_coord \<Rightarrow> grid \<Rightarrow> grid" where
  "unlink c g =
     (let g = (case tPrev (tile_at g c) of
                 Some p \<Rightarrow> upd_tile p (\<lambda>q. q\<lparr>tNext := tNext (tile_at g c)\<rparr>) g
               | None \<Rightarrow> (if gHead g = Some c then g\<lparr>gHead := tNext (tile_at g c)\<rparr> else g));
          g = (case tNext (tile_at g c) of
                 Some n \<Rightarrow> upd_tile n (\<lambda>q. q\<lparr>tPrev := tPrev (tile_at g c)\<rparr>) g
               | None \<Rightarrow> (if gTail g = Some c then g\<lparr>gTail := tPrev (tile_at g c)\<rparr> else g))
      in upd_tile c (\<lambda>t. t\<lparr>tPrev := None, tNext := None\<rparr>) g)"

definition link_front :: "tile_coord \<Rightarrow> grid \<Rightarrow> grid" where
  "link_front c g =
     (let t = tile_at g c;
          g = (if tPrev t \<noteq> None \<or> tNext t \<noteq> None \<or> gHead g = Some c then unlink c g else g);
          g = upd_tile c (\<lambda>t. t\<lparr>tPrev := None, tNext := gHead g\<rparr>) g;
          g = (case gHead g of Some h \<Rightarrow> upd_tile h (\<lambda>q. q\<lparr>tPrev := Some c\<rparr>) g | None \<Rightarrow> g);
          g = g\<lparr>gHead := Some c\<rparr>
      in if gTail g = None then g\<lparr>gTail := Some c\<rparr> else g)"

definition touch :: "tile_coord \<Rightarrow> grid \<Rightarrow> grid" where
  "touch c g =
     (case gTiles g c of
        None \<Rightarrow> g
      | Some t \<Rightarrow>
         (if tPixels t = None then g
          else link_front c ((upd_tile c (\<lambda>t. t\<lparr>tLastUsed := gClock g\<rparr>) g)\<lparr>gReused := gReused g + 1\<rparr>)))"

subsection \<open>Visible and prefetched coordinates\<close>

definition visible_coords :: "grid \<Rightarrow> viewport \<Rightarrow> tile_coord list" where
  "visible_coords g vp = coords_covering g (rect_intersection (viewport_rect vp) (gExtent g))"

definition prefetch_band :: "grid \<Rightarrow> viewport \<Rightarrow> point \<Rightarrow> int \<Rightarrow> rect" where
  "prefetch_band g vp dir rows =
     (let r = viewport_rect vp; d = i32 (i32 rows * gTileSize g)
      in if pY dir > 0 then rect4 (rX0 r) (rY1 r) (rX1 r) (i32 (rY1 r + d))
         else if pY dir < 0 then rect4 (rX0 r) (i32 (rY0 r - d)) (rX1 r) (rY0 r)
         else if pX dir > 0 then rect4 (rX1 r) (rY0 r) (i32 (rX1 r + d)) (rY1 r)
         else rect4 (i32 (rX0 r - d)) (rY0 r) (rX0 r) (rY1 r))"

definition prefetch_coords :: "grid \<Rightarrow> viewport \<Rightarrow> point \<Rightarrow> int \<Rightarrow> tile_coord list" where
  "prefetch_coords g vp dir rows =
     (if rows \<le> 0 \<or> (pX dir = 0 \<and> pY dir = 0) then []
      else coords_covering g (rect_intersection (prefetch_band g vp dir rows) (gExtent g)))"

subsection \<open>Invalidation and versions\<close>

definition invalidate_tile :: "tile_coord \<Rightarrow> int \<times> grid \<Rightarrow> int \<times> grid" where
  "invalidate_tile c ng =
     (case ng of (n, g) \<Rightarrow>
       (case gTiles g c of
          None \<Rightarrow> (n, g)
        | Some t \<Rightarrow>
           (if tState t = TileValid \<or> tState t = TileFailed
            then (n + 1, upd_tile c (\<lambda>t. t\<lparr>tAttempts := 0\<rparr>) (set_state c TileStale g))
            else (n, g))))"

definition invalidate :: "rect \<Rightarrow> grid \<Rightarrow> int \<times> grid" where
  "invalidate rc g = fold invalidate_tile (coords_covering g (rect_intersection rc (gExtent g))) (0, g)"

definition advance_tile :: "nat \<Rightarrow> rect \<Rightarrow> tile_coord \<Rightarrow> int \<times> grid \<Rightarrow> int \<times> grid" where
  "advance_tile version dirty c sg =
     (case sg of (staled, g) \<Rightarrow>
      (let t = tile_at g c in
       if tVersion t \<ge> version then (staled, g)
       else if rect_intersects (coord_rect c (gTileSize g)) dirty
       then (if tPixels t \<noteq> None \<and> tState t \<noteq> TileStale
             then (staled + 1, upd_tile c (\<lambda>t. t\<lparr>tAttempts := 0\<rparr>) (set_state c TileStale g))
             else if tState t = TileFailed
             then (staled, upd_tile c (\<lambda>t. t\<lparr>tAttempts := 0\<rparr>) (set_state c TileEmpty g))
             else (staled, g))
       else (let g = upd_tile c (\<lambda>t. t\<lparr>tVersion := version, tAttempts := 0\<rparr>) g
             in if tPixels t \<noteq> None then (staled, set_state c TileValid g)
                else if tState t = TileFailed then (staled, set_state c TileEmpty g)
                else (staled, g))))"

definition advance :: "nat \<Rightarrow> rect \<Rightarrow> grid \<Rightarrow> int \<times> grid" where
  "advance version dirty g = fold (advance_tile version dirty) (gKeys g) (0, g)"

definition needs :: "grid \<Rightarrow> tile_coord \<Rightarrow> nat \<Rightarrow> bool" where
  "needs g c v = (if \<not> inside g c then False else gTiles g c = None \<or> \<not> valid_at (gTiles g c) v)"

subsection \<open>Buffers and the budget\<close>

definition drop_pixels :: "tile_coord \<Rightarrow> grid \<Rightarrow> grid" where
  "drop_pixels c g =
     (let t = tile_at g c in
      case tPixels t of
        None \<Rightarrow> g
      | Some pixels \<Rightarrow>
         (let g = g\<lparr>gUsed := gUsed g - tBytes t\<rparr>;
              g = upd_tile c (\<lambda>t. t\<lparr>tBytes := 0, tPixels := None, tVersion := 0\<rparr>) g;
              g = unlink c g;
              g = set_state c TileEmpty g
          in g\<lparr>gPool := pool_release (Some pixels) (gPool g)\<rparr>))"

definition evict_one :: "tile_coord \<Rightarrow> tile_coord \<Rightarrow> grid \<Rightarrow> grid" where
  "evict_one keep v g =
     (if tCoord (tile_at g v) \<noteq> keep \<and> tPixels (tile_at g v) \<noteq> None
      then (let g = drop_pixels v g in g\<lparr>gEvictions := gEvictions g + 1\<rparr>) else g)"

partial_function (option) evict_loop ::
  "int \<Rightarrow> int \<Rightarrow> tile_coord \<Rightarrow> tile_coord option \<Rightarrow> grid \<Rightarrow> grid option" where
  "evict_loop budget need keep v g =
     (case v of
        None \<Rightarrow> Some g
      | Some v \<Rightarrow>
         (case gTiles g v of
            None \<Rightarrow> None
          | Some t \<Rightarrow>
             (let prev = tPrev t; g = evict_one keep v g
              in if gUsed g + need \<le> budget then Some g else evict_loop budget need keep prev g)))"

definition evict_for :: "int \<Rightarrow> tile_coord \<Rightarrow> grid \<Rightarrow> grid option" where
  "evict_for need keep g =
     (if gUsed g + need \<le> gBudget g then Some g else evict_loop (gBudget g) need keep (gTail g) g)"

text \<open>The second half of \<open>Acquire\<close>, once the bytes are there: put a buffer on order.\<close>

definition order :: "int \<Rightarrow> tile_coord \<Rightarrow> grid \<Rightarrow> grid" where
  "order need c g =
     (let (b, pl) = pool_acquire (gPool g);
          g = upd_tile c (\<lambda>t. t\<lparr>tPainting := Some b\<rparr>) (g\<lparr>gPool := pl\<rparr>);
          g = g\<lparr>gUsed := gUsed g + need, gPainting := gPainting g + need\<rparr>;
          g = (if tState (tile_at g c) \<noteq> TileStale then set_state c TileStale g else g)
      in upd_tile c (\<lambda>t. t\<lparr>tAttempts := tAttempts t + 1\<rparr>) g)"

definition acquire :: "tile_coord \<Rightarrow> grid \<Rightarrow> (buf option \<times> grid) option" where
  "acquire c g =
     (case ensure c g of (found, g) \<Rightarrow>
       if \<not> found then Some (None, g)
       else if tPainting (tile_at g c) \<noteq> None then Some (tPainting (tile_at g c), g)
       else let need = tile_bytes (gTileSize g) in
         (case evict_for need c g of
            None \<Rightarrow> None
          | Some g \<Rightarrow> (let g = order need c g in Some (tPainting (tile_at g c), g))))"

definition install :: "tile_coord \<Rightarrow> nat \<Rightarrow> buf \<Rightarrow> grid \<Rightarrow> grid" where
  "install c version pixels g =
     (let g = upd_tile c (\<lambda>t. t\<lparr>tPainting := None\<rparr>) g;
          g = g\<lparr>gPainting := gPainting g - bufLen pixels\<rparr>;
          g = (case tPixels (tile_at g c) of
                 None \<Rightarrow> g
               | Some old \<Rightarrow>
                  (let g = g\<lparr>gUsed := gUsed g - tBytes (tile_at g c)\<rparr>;
                       g = upd_tile c (\<lambda>t. t\<lparr>tPixels := None, tBytes := 0\<rparr>) g
                   in g\<lparr>gPool := pool_release (Some old) (gPool g)\<rparr>));
          g = upd_tile c (\<lambda>t. t\<lparr>tPixels := Some pixels, tBytes := bufLen pixels, tVersion := version\<rparr>) g;
          g = g\<lparr>gRasterized := gRasterized g + 1\<rparr>;
          g = set_state c TileValid g;
          g = upd_tile c (\<lambda>t. t\<lparr>tAttempts := 0, tLastUsed := gClock g\<rparr>) g
      in link_front c g)"

definition mark_valid :: "tile_coord \<Rightarrow> nat \<Rightarrow> buf option \<Rightarrow> grid \<Rightarrow> bool \<times> grid" where
  "mark_valid c version pixels g =
     (case (gTiles g c, pixels) of
        (Some t, Some b) \<Rightarrow>
          (if tPainting t \<noteq> Some b then (False, g\<lparr>gDroppedLate := gDroppedLate g + 1\<rparr>)
           else (True, install c version b g))
      | _ \<Rightarrow> (False, g\<lparr>gDroppedLate := gDroppedLate g + 1\<rparr>))"

definition mark_failed :: "tile_coord \<Rightarrow> grid \<Rightarrow> grid" where
  "mark_failed c g =
     (case gTiles g c of
        None \<Rightarrow> g
      | Some t \<Rightarrow>
         (let g = (if tPixels t \<noteq> None then drop_pixels c g else g)
          in set_state c TileFailed g))"

definition grid_failed :: "grid \<Rightarrow> tile_coord \<Rightarrow> bool" where
  "grid_failed g c = (case gTiles g c of None \<Rightarrow> False | Some t \<Rightarrow> tState t = TileFailed)"

definition grid_release :: "tile_coord \<Rightarrow> buf option \<Rightarrow> grid \<Rightarrow> bool \<times> grid" where
  "grid_release c pixels g =
     (case pixels of
        None \<Rightarrow> (False, g)
      | Some b \<Rightarrow>
         (let t = gTiles g c in
          if t \<noteq> None \<and> tPainting (the t) = Some b
          then (let g = upd_tile c (\<lambda>t. t\<lparr>tPainting := None\<rparr>) g;
                    need = bufLen b;
                    g = g\<lparr>gPainting := gPainting g - need, gUsed := gUsed g - need\<rparr>
                in (True, g\<lparr>gPool := pool_release (Some b) (gPool g)\<rparr>))
          else if t \<noteq> None \<and> tPixels (the t) = Some b then (False, g)
          else (True, g\<lparr>gPool := pool_release (Some b) (gPool g)\<rparr>)))"

definition in_flight :: "grid \<Rightarrow> tile_coord \<Rightarrow> bool" where
  "in_flight g c = (case gTiles g c of None \<Rightarrow> False | Some t \<Rightarrow> tPainting t \<noteq> None)"

definition in_flight_in :: "grid \<Rightarrow> rect \<Rightarrow> nat" where
  "in_flight_in g r =
     length (filter (in_flight g) (coords_covering g (rect_intersection r (gExtent g))))"

definition attempts :: "grid \<Rightarrow> tile_coord \<Rightarrow> int" where
  "attempts g c = (case gTiles g c of None \<Rightarrow> 0 | Some t \<Rightarrow> tAttempts t)"

definition grid_pixels :: "grid \<Rightarrow> tile_coord \<Rightarrow> buf option" where
  "grid_pixels g c = (case gTiles g c of None \<Rightarrow> None | Some t \<Rightarrow> tPixels t)"

definition grid_blittable :: "grid \<Rightarrow> tile_coord \<Rightarrow> bool" where
  "grid_blittable g c = tile_blittable (gTiles g c)"

definition tick :: "grid \<Rightarrow> grid" where
  "tick g = g\<lparr>gClock := gClock g + 1\<rparr>"

partial_function (option) shrink_loop :: "int \<Rightarrow> grid \<Rightarrow> grid option" where
  "shrink_loop budget g =
     (if gUsed g > budget
      then (case gTail g of
              None \<Rightarrow> Some g
            | Some v \<Rightarrow> (let g = drop_pixels v g in shrink_loop budget (g\<lparr>gEvictions := gEvictions g + 1\<rparr>)))
      else Some g)"

definition set_budget :: "int \<Rightarrow> grid \<Rightarrow> grid option" where
  "set_budget budget g =
     (let one = tile_bytes (gTileSize g);
          budget = (if budget < one then one else budget)
      in shrink_loop budget (g\<lparr>gBudget := budget\<rparr>))"

record grid_stats =
  gsTiles :: nat
  gsValid :: int
  gsStale :: int
  gsEmpty :: int
  gsFailed :: int
  gsBytes :: int
  gsBudget :: int
  gsPaintingBytes :: int
  gsEvictions :: int
  gsRasterized :: int
  gsReused :: int
  gsDroppedLate :: int

definition grid_stats_of :: "grid \<Rightarrow> grid_stats" where
  "grid_stats_of g = \<lparr>gsTiles = length (gKeys g), gsValid = gCounts g TileValid,
     gsStale = gCounts g TileStale, gsEmpty = gCounts g TileEmpty, gsFailed = gCounts g TileFailed,
     gsBytes = gUsed g, gsBudget = gBudget g, gsPaintingBytes = gPainting g,
     gsEvictions = gEvictions g, gsRasterized = gRasterized g, gsReused = gReused g,
     gsDroppedLate = gDroppedLate g\<rparr>"

declare evict_loop.simps [code] shrink_loop.simps [code]

end
