(* ===== verification/Grid_Lru.thy ===== *)
theory Grid_Lru
  imports Tile_Grid
begin

text \<open>
  The recency list of the tile grid: the pointers the grid threads through its tiles are
  the doubly linked pointers of \<open>Linked_List\<close>, \<open>unlink\<close> and
  \<open>linkFront\<close> act on them as the abstract operations, and everything about a
  tile except its two pointers (\<open>core\<close>) is untouched by both.
\<close>

subsection \<open>What each primitive leaves alone\<close>

lemma upd_tile_fields [simp]:
  "gTileSize (upd_tile c f g) = gTileSize g" "gExtent (upd_tile c f g) = gExtent g"
  "gKeys (upd_tile c f g) = gKeys g" "gHead (upd_tile c f g) = gHead g" "gTail (upd_tile c f g) = gTail g"
  "gUsed (upd_tile c f g) = gUsed g" "gBudget (upd_tile c f g) = gBudget g" "gClock (upd_tile c f g) = gClock g"
  "gPool (upd_tile c f g) = gPool g" "gPainting (upd_tile c f g) = gPainting g"
  "gCounts (upd_tile c f g) = gCounts g" "gFree (upd_tile c f g) = gFree g"
  "gEvictions (upd_tile c f g) = gEvictions g" "gRasterized (upd_tile c f g) = gRasterized g"
  "gReused (upd_tile c f g) = gReused g" "gDroppedLate (upd_tile c f g) = gDroppedLate g"
  by (auto simp: upd_tile_def split: option.split)

lemma gTiles_upd_tile [simp]: "gTiles (upd_tile c f g) = (gTiles g)(c := map_option f (gTiles g c))"
  by (auto simp: upd_tile_def split: option.split)

lemma tile_at_Some: "gTiles g c = Some t \<Longrightarrow> tile_at g c = t"
  by (simp add: tile_at_def)

lemma set_state_fields [simp]:
  "gTileSize (set_state c s g) = gTileSize g" "gExtent (set_state c s g) = gExtent g"
  "gKeys (set_state c s g) = gKeys g" "gHead (set_state c s g) = gHead g" "gTail (set_state c s g) = gTail g"
  "gUsed (set_state c s g) = gUsed g" "gBudget (set_state c s g) = gBudget g" "gClock (set_state c s g) = gClock g"
  "gPool (set_state c s g) = gPool g" "gPainting (set_state c s g) = gPainting g" "gFree (set_state c s g) = gFree g"
  "gEvictions (set_state c s g) = gEvictions g" "gRasterized (set_state c s g) = gRasterized g"
  "gReused (set_state c s g) = gReused g" "gDroppedLate (set_state c s g) = gDroppedLate g"
  by (simp_all add: set_state_def Let_def)

lemma gTiles_set_state [simp]:
  "gTiles (set_state c s g) = (gTiles g)(c := map_option (\<lambda>t. t\<lparr>tState := s\<rparr>) (gTiles g c))"
  by (simp add: set_state_def Let_def)

definition count_move :: "tile_state \<Rightarrow> tile_state \<Rightarrow> (tile_state \<Rightarrow> int) \<Rightarrow> tile_state \<Rightarrow> int" where
  "count_move a b n = (\<lambda>s. n s - (if s = a then 1 else 0) + (if s = b then 1 else 0))"

lemma gCounts_set_state [simp]:
  "gCounts (set_state c s g) = count_move (tState (tile_at g c)) s (gCounts g)"
  by (auto simp: set_state_def Let_def count_move_def)

lemma unlink_fields [simp]:
  "gTileSize (unlink c g) = gTileSize g" "gExtent (unlink c g) = gExtent g" "gKeys (unlink c g) = gKeys g"
  "gUsed (unlink c g) = gUsed g" "gBudget (unlink c g) = gBudget g" "gClock (unlink c g) = gClock g"
  "gPool (unlink c g) = gPool g" "gPainting (unlink c g) = gPainting g" "gCounts (unlink c g) = gCounts g"
  "gFree (unlink c g) = gFree g" "gEvictions (unlink c g) = gEvictions g"
  "gRasterized (unlink c g) = gRasterized g" "gReused (unlink c g) = gReused g"
  "gDroppedLate (unlink c g) = gDroppedLate g"
  by (simp_all add: unlink_def Let_def split: option.split)

lemma link_front_fields [simp]:
  "gTileSize (link_front c g) = gTileSize g" "gExtent (link_front c g) = gExtent g"
  "gKeys (link_front c g) = gKeys g"
  "gUsed (link_front c g) = gUsed g" "gBudget (link_front c g) = gBudget g" "gClock (link_front c g) = gClock g"
  "gPool (link_front c g) = gPool g" "gPainting (link_front c g) = gPainting g"
  "gCounts (link_front c g) = gCounts g"
  "gFree (link_front c g) = gFree g" "gEvictions (link_front c g) = gEvictions g"
  "gRasterized (link_front c g) = gRasterized g" "gReused (link_front c g) = gReused g"
  "gDroppedLate (link_front c g) = gDroppedLate g"
  by (simp_all add: link_front_def Let_def split: option.split)

subsection \<open>Everything but the pointers\<close>

definition clear_links :: "tile \<Rightarrow> tile" where
  "clear_links t = t\<lparr>tPrev := None, tNext := None\<rparr>"

definition core :: "grid \<Rightarrow> tile_coord \<Rightarrow> tile option" where
  "core g c = map_option clear_links (gTiles g c)"

lemma clear_links_fields [simp]:
  "tCoord (clear_links t) = tCoord t" "tBounds (clear_links t) = tBounds t" "tVersion (clear_links t) = tVersion t"
  "tLastUsed (clear_links t) = tLastUsed t" "tPixels (clear_links t) = tPixels t" "tBytes (clear_links t) = tBytes t"
  "tState (clear_links t) = tState t" "tAttempts (clear_links t) = tAttempts t" "tPainting (clear_links t) = tPainting t"
  by (simp_all add: clear_links_def)

lemma clear_links_upd [simp]:
  "clear_links (t\<lparr>tPrev := a\<rparr>) = clear_links t" "clear_links (t\<lparr>tNext := b\<rparr>) = clear_links t"
  by (simp_all add: clear_links_def)

lemma dom_core [simp]: "dom (core g) = dom (gTiles g)"
  by (auto simp: core_def dom_def)

lemma core_None: "core g c = None \<longleftrightarrow> gTiles g c = None"
  by (simp add: core_def)

lemma core_NoneI [simp]: "gTiles g c = None \<Longrightarrow> core g c = None"
  by (simp add: core_def)

lemma core_Some: "gTiles g c = Some t \<Longrightarrow> core g c = Some (clear_links t)"
  by (simp add: core_def)

lemma core_upd_links:
  "(\<And>t. clear_links (f t) = clear_links t) \<Longrightarrow> core (upd_tile c f g) = core g"
  by (intro ext) (simp add: core_def option.map_comp o_def)

lemma core_cong [simp]:
  "core (g\<lparr>gHead := h\<rparr>) = core g" "core (g\<lparr>gTail := h\<rparr>) = core g" "core (g\<lparr>gUsed := n\<rparr>) = core g"
  "core (g\<lparr>gPool := p\<rparr>) = core g" "core (g\<lparr>gPainting := n\<rparr>) = core g" "core (g\<lparr>gCounts := k\<rparr>) = core g"
  "core (g\<lparr>gEvictions := n\<rparr>) = core g" "core (g\<lparr>gRasterized := n\<rparr>) = core g" "core (g\<lparr>gReused := n\<rparr>) = core g"
  "core (g\<lparr>gDroppedLate := n\<rparr>) = core g" "core (g\<lparr>gClock := k'\<rparr>) = core g" "core (g\<lparr>gBudget := n\<rparr>) = core g"
  "core (g\<lparr>gFree := k''\<rparr>) = core g"
  by (simp_all add: core_def fun_eq_iff)

lemma core_unlink [simp]: "core (unlink c g) = core g"
  by (simp add: unlink_def Let_def core_upd_links split: option.split)

lemma core_link_front [simp]: "core (link_front c g) = core g"
  by (simp add: link_front_def Let_def core_upd_links split: option.split)

lemma core_upd_tile:
  "gTiles g c = Some t \<Longrightarrow> core (upd_tile c f g) = (core g)(c \<mapsto> clear_links (f t))"
  by (auto simp: core_def fun_eq_iff)

lemma core_set_state:
  "gTiles g c = Some t \<Longrightarrow> core (set_state c s g) = (core g)(c \<mapsto> clear_links (t\<lparr>tState := s\<rparr>))"
  by (auto simp: core_def fun_eq_iff)

text \<open>Grids with the same core agree on every field of a tile that is not a pointer.\<close>

lemma core_eq_tile:
  assumes "core g = core h"
  shows "tState (tile_at g c) = tState (tile_at h c)" "tPixels (tile_at g c) = tPixels (tile_at h c)"
    "tBytes (tile_at g c) = tBytes (tile_at h c)" "tPainting (tile_at g c) = tPainting (tile_at h c)"
    "tVersion (tile_at g c) = tVersion (tile_at h c)" "tAttempts (tile_at g c) = tAttempts (tile_at h c)"
    "tCoord (tile_at g c) = tCoord (tile_at h c)"
  using fun_cong[OF assms, of c]
  by (auto simp: core_def tile_at_def split: option.splits) (metis clear_links_fields)+

lemma core_pixels: "grid_pixels g c = Option.bind (core g c) tPixels"
  by (simp add: core_def grid_pixels_def split: option.split)

subsection \<open>The pointers\<close>

definition links_of :: "grid \<Rightarrow> tile_coord links" where
  "links_of g = \<lparr>lkHead = gHead g, lkTail = gTail g,
     lkPrev = (\<lambda>c. tPrev (tile_at g c)), lkNext = (\<lambda>c. tNext (tile_at g c))\<rparr>"

lemma links_of_upd_tile:
  "(\<And>t. tPrev (f t) = tPrev t \<and> tNext (f t) = tNext t) \<Longrightarrow> links_of (upd_tile c f g) = links_of g"
  by (auto simp: links_of_def tile_at_def split: option.split)

lemma links_of_set_state [simp]: "links_of (set_state c s g) = links_of g"
  by (auto simp: links_of_def tile_at_def split: option.split)

lemma links_of_cong [simp]:
  "links_of (g\<lparr>gUsed := n\<rparr>) = links_of g" "links_of (g\<lparr>gPool := p\<rparr>) = links_of g"
  "links_of (g\<lparr>gPainting := n\<rparr>) = links_of g" "links_of (g\<lparr>gCounts := k\<rparr>) = links_of g"
  "links_of (g\<lparr>gEvictions := n\<rparr>) = links_of g" "links_of (g\<lparr>gRasterized := n\<rparr>) = links_of g"
  "links_of (g\<lparr>gReused := n\<rparr>) = links_of g" "links_of (g\<lparr>gDroppedLate := n\<rparr>) = links_of g"
  "links_of (g\<lparr>gClock := k'\<rparr>) = links_of g" "links_of (g\<lparr>gBudget := n\<rparr>) = links_of g"
  "links_of (g\<lparr>gFree := k''\<rparr>) = links_of g"
  by (simp_all add: links_of_def tile_at_def)

text \<open>No pointer dangles and none points at its own tile, as holds for list pointers.\<close>

definition links_closed :: "grid \<Rightarrow> tile_coord \<Rightarrow> bool" where
  "links_closed g c \<longleftrightarrow>
     (\<forall>p. tPrev (tile_at g c) = Some p \<longrightarrow> p \<in> dom (gTiles g) \<and> p \<noteq> c)
   \<and> (\<forall>n. tNext (tile_at g c) = Some n \<longrightarrow> n \<in> dom (gTiles g) \<and> n \<noteq> c)"

lemma tile_at_upd:
  "gTiles g c \<noteq> None \<Longrightarrow> tile_at (upd_tile c f g) d = (if d = c then f (tile_at g c) else tile_at g d)"
  by (auto simp: tile_at_def split: option.split)

lemma tile_at_cong [simp]:
  "tile_at (g\<lparr>gHead := h\<rparr>) = tile_at g" "tile_at (g\<lparr>gTail := h\<rparr>) = tile_at g"
  by (simp_all add: tile_at_def fun_eq_iff)

lemma links_of_unlink:
  assumes "links_closed g c" "c \<in> dom (gTiles g)"
  shows "links_of (unlink c g) = dll_unlink c (links_of g)"
proof -
  have dom: "gTiles g c \<noteq> None" using assms(2) by blast
  show ?thesis
  proof (cases "tPrev (tile_at g c)")
    case None
    then show ?thesis
      using assms(1) dom by (cases "tNext (tile_at g c)")
        (simp_all add: unlink_def Let_def links_of_def dll_unlink_def set_opt_def tile_at_upd fun_eq_iff
          links_closed_def domIff)
  next
    case (Some p)
    then show ?thesis
      using assms(1) dom by (cases "tNext (tile_at g c)")
        (auto simp: unlink_def Let_def links_of_def dll_unlink_def set_opt_def tile_at_upd fun_eq_iff
          links_closed_def domIff)
  qed
qed

lemma dll_closed:
  assumes "dll (links_of g) xs" "set xs \<subseteq> dom (gTiles g)"
  shows "links_closed g c"
proof -
  have ptr: "tPrev (tile_at g c) = pred_of xs c" "tNext (tile_at g c) = succ_of xs c"
    using dll_D(4,5)[OF assms(1), of c] by (simp_all add: links_of_def)
  have mem: "pred_of xs c = Some p \<Longrightarrow> p \<in> set xs \<and> p \<noteq> c"
    "succ_of xs c = Some p \<Longrightarrow> p \<in> set xs \<and> p \<noteq> c" for p
    using pred_of_mem[OF dll_D(1)[OF assms(1)], of c p] succ_of_mem[OF dll_D(1)[OF assms(1)], of c p]
    by simp_all
  show ?thesis
    unfolding links_closed_def ptr using assms(2) by (intro conjI allI impI) (drule mem, blast)+
qed

lemma unlink_removes:
  assumes "dll (links_of g) xs" "set xs \<subseteq> dom (gTiles g)" "c \<in> dom (gTiles g)"
  shows "dll (links_of (unlink c g)) (remove1 c xs)"
  using dll_unlink[OF assms(1), of c] links_of_unlink[OF dll_closed[OF assms(1,2)] assms(3)] by simp

text \<open>The part of \<open>linkFront\<close> after the conditional unlink.\<close>

definition push_front :: "tile_coord \<Rightarrow> grid \<Rightarrow> grid" where
  "push_front c g =
     (let g = upd_tile c (\<lambda>t. t\<lparr>tPrev := None, tNext := gHead g\<rparr>) g;
          g = (case gHead g of Some h \<Rightarrow> upd_tile h (\<lambda>q. q\<lparr>tPrev := Some c\<rparr>) g | None \<Rightarrow> g);
          g = g\<lparr>gHead := Some c\<rparr>
      in if gTail g = None then g\<lparr>gTail := Some c\<rparr> else g)"

lemma link_front_push:
  "link_front c g = push_front c
     (if tPrev (tile_at g c) \<noteq> None \<or> tNext (tile_at g c) \<noteq> None \<or> gHead g = Some c then unlink c g else g)"
  unfolding link_front_def push_front_def Let_def by (rule refl)

lemma links_of_push_front:
  assumes "c \<in> dom (gTiles g)" "gHead g \<noteq> Some c" "\<And>h. gHead g = Some h \<Longrightarrow> h \<in> dom (gTiles g)"
  shows "links_of (push_front c g) = dll_push c (links_of g)"
proof -
  have "gTiles g c \<noteq> None" using assms(1) by blast
  then show ?thesis
    using assms(2,3)
    by (cases "gHead g")
      (simp_all add: links_of_def push_front_def dll_push_def tile_at_upd set_opt_def fun_eq_iff Let_def domIff)
qed

lemma push_front_pushes:
  assumes "dll (links_of g) xs" "set xs \<subseteq> dom (gTiles g)" "c \<in> dom (gTiles g)" "c \<notin> set xs"
  shows "dll (links_of (push_front c g)) (c # xs)"
proof -
  have "gHead g = hd_opt xs" using dll_D(2)[OF assms(1)] by (simp add: links_of_def)
  then have "links_of (push_front c g) = dll_push c (links_of g)"
    using assms by (intro links_of_push_front) (auto dest: hd_opt_Some[OF sym])
  with dll_push[OF assms(1,4)] show ?thesis by simp
qed

lemma single_links:
  assumes "distinct xs" "c \<in> set xs" "pred_of xs c = None" "succ_of xs c = None"
  shows "hd_opt xs = Some c"
proof -
  obtain ys zs where xs: "xs = ys @ c # zs" using assms(2) by (meson split_list)
  then have "last_opt ys = None"
    using assms(1,3) by (simp add: pred_of_append)
  then show ?thesis by (simp add: xs)
qed

lemma link_front_moves:
  assumes "dll (links_of g) xs" "set xs \<subseteq> dom (gTiles g)" "c \<in> dom (gTiles g)"
  shows "dll (links_of (link_front c g)) (c # remove1 c xs)"
proof -
  have ptr: "tPrev (tile_at g c) = pred_of xs c" "tNext (tile_at g c) = succ_of xs c" "gHead g = hd_opt xs"
    using dll_D[OF assms(1)] by (simp_all add: links_of_def fun_eq_iff)
  note d = dll_D(1)[OF assms(1)]
  show ?thesis
  proof (cases "c \<in> set xs")
    case True
    then have "tPrev (tile_at g c) \<noteq> None \<or> tNext (tile_at g c) \<noteq> None \<or> gHead g = Some c"
      using single_links[OF d True] ptr by auto
    moreover have "c \<in> dom (gTiles (unlink c g))" "set (remove1 c xs) \<subseteq> dom (gTiles (unlink c g))"
      using assms(2,3) set_remove1_subset[of c xs] unfolding dom_core[symmetric] core_unlink by auto
    ultimately show ?thesis
      using push_front_pushes[OF unlink_removes[OF assms], of c] d by (simp add: link_front_push)
  next
    case False
    then have "pred_of xs c = None" "succ_of xs c = None" "hd_opt xs \<noteq> Some c" by auto
    with False show ?thesis
      using push_front_pushes[OF assms False] by (simp add: link_front_push ptr remove1_idem)
  qed
qed

subsection \<open>Reading the list off the pointers\<close>

fun chain :: "nat \<Rightarrow> ('k \<Rightarrow> 'k option) \<Rightarrow> 'k option \<Rightarrow> 'k list" where
  "chain (Suc n) nx (Some k) = k # chain n nx (nx k)"
| "chain _ nx _ = []"

lemma chain_dll:
  assumes "distinct xs" "length xs \<le> n" "\<And>k. k \<in> set xs \<Longrightarrow> nx k = succ_of xs k"
  shows "chain n nx (hd_opt xs) = xs"
  using assms
proof (induction xs arbitrary: n)
  case Nil
  then show ?case by (cases n) auto
next
  case (Cons x xs)
  then obtain m where n: "n = Suc m" by (cases n) auto
  have "nx x = hd_opt xs" using Cons.prems(1) Cons.prems(3)[of x] by (simp add: succ_of_Cons)
  moreover have "chain m nx (hd_opt xs) = xs"
  proof (rule Cons.IH)
    show "nx k = succ_of xs k" if "k \<in> set xs" for k
      using Cons.prems(1) Cons.prems(3)[of k] that by (auto simp: succ_of_Cons)
  qed (use Cons.prems n in auto)
  ultimately show ?case by (simp add: n)
qed

text \<open>The grid's recency order, most recently used first.\<close>

definition lru :: "grid \<Rightarrow> tile_coord list" where
  "lru g = chain (length (gKeys g)) (\<lambda>c. tNext (tile_at g c)) (gHead g)"

lemma lru_dll:
  assumes "dll (links_of g) xs" "set xs \<subseteq> set (gKeys g)" "distinct (gKeys g)"
  shows "lru g = xs"
proof -
  have "length xs \<le> length (gKeys g)"
    using assms dll_D(1)[OF assms(1)] by (metis distinct_card card_mono List.finite_set)
  then show ?thesis
    using dll_D[OF assms(1)] chain_dll[of xs "length (gKeys g)" "\<lambda>c. tNext (tile_at g c)"]
    by (simp add: lru_def links_of_def fun_eq_iff)
qed

end
