(* ===== verification/Grid_Invariant.thy ===== *)
theory Grid_Invariant
  imports Grid_Lru
begin

text \<open>
  What stays true of a tile grid under every operation of \<open>grid.go\<close>: the byte and
  state counters agree with the tiles they count, the recency list holds exactly the
  tiles with pixels, no two owners share a buffer, and a tile's state says whether it has
  pixels. Each operation is shown to touch one tile and the counters that account for it
  (\<open>grid_ok_change\<close> is the one lemma that turns such a change into preservation).
\<close>

subsection \<open>Sums over the tiles\<close>

definition total :: "(tile \<Rightarrow> 'a::comm_monoid_add) \<Rightarrow> (tile_coord \<Rightarrow> tile option) \<Rightarrow> 'a" where
  "total f m = (\<Sum>c\<in>dom m. f (the (m c)))"

lemma total_upd:
  assumes "finite (dom m)" "m c = Some t"
  shows "total f (m(c \<mapsto> t')) + f t = total f m + f t'"
proof -
  have c: "c \<in> dom m" "dom (m(c \<mapsto> t')) = dom m" using assms(2) by auto
  have "total f (m(c \<mapsto> t')) = f t' + (\<Sum>d\<in>dom m - {c}. f (the (m d)))"
    unfolding total_def c(2) by (subst sum.remove[OF assms(1) c(1)]) (auto intro!: sum.cong)
  moreover have "total f m = f t + (\<Sum>d\<in>dom m - {c}. f (the (m d)))"
    unfolding total_def by (subst sum.remove[OF assms(1) c(1)]) (simp add: assms(2))
  ultimately show ?thesis by (simp add: ac_simps)
qed

lemma total_insert:
  assumes "finite (dom m)" "m c = None"
  shows "total f (m(c \<mapsto> t)) = total f m + f t"
proof -
  have "total f (m(c \<mapsto> t)) = f t + (\<Sum>d\<in>dom m. f (the ((m(c \<mapsto> t)) d)))"
    using assms unfolding total_def by (simp add: domIff)
  also have "(\<Sum>d\<in>dom m. f (the ((m(c \<mapsto> t)) d))) = total f m"
    unfolding total_def using assms(2) by (intro sum.cong) auto
  finally show ?thesis by (simp only: ac_simps)
qed

lemma total_le_upd:
  fixes f :: "tile \<Rightarrow> int"
  assumes "finite (dom m)" "m c = Some t"
  shows "total f (m(c \<mapsto> t')) = total f m - f t + f t'"
  using total_upd[OF assms, of f t'] by simp

subsection \<open>The invariant\<close>

definition held_bytes :: "int \<Rightarrow> tile \<Rightarrow> int" where
  "held_bytes need t = tBytes t + (if tPainting t = None then 0 else need)"

definition painting_bytes :: "int \<Rightarrow> tile \<Rightarrow> int" where
  "painting_bytes need t = (if tPainting t = None then 0 else need)"

definition opt_mset :: "buf option \<Rightarrow> nat multiset" where
  "opt_mset b = (case b of None \<Rightarrow> {#} | Some b \<Rightarrow> {#bufId b#})"

definition tile_bufs :: "tile \<Rightarrow> nat multiset" where
  "tile_bufs t = opt_mset (tPixels t) + opt_mset (tPainting t)"

definition in_state :: "tile_state \<Rightarrow> tile \<Rightarrow> int" where
  "in_state s t = (if tState t = s then 1 else 0)"

text \<open>A buffer of the grid's own tile size.\<close>

definition tile_buf :: "int \<Rightarrow> buf \<Rightarrow> bool" where
  "tile_buf ts b \<longleftrightarrow> bufW b = ts \<and> bufH b = ts \<and> bufStride b = ts * 4 \<and> bufLen b = ts * 4 * ts"

definition tile_ok :: "int \<Rightarrow> tile_coord \<Rightarrow> tile \<Rightarrow> bool" where
  "tile_ok ts c t \<longleftrightarrow> tCoord t = c \<and> tBounds t = coord_rect c ts
     \<and> (tState t = TileValid \<longrightarrow> tPixels t \<noteq> None)
     \<and> (tState t = TileEmpty \<or> tState t = TileFailed \<longrightarrow> tPixels t = None)
     \<and> tBytes t = (if tPixels t = None then 0 else ts * 4 * ts)
     \<and> (\<forall>b. tPixels t = Some b \<or> tPainting t = Some b \<longrightarrow> tile_buf ts b)"

definition static_ok :: "grid \<Rightarrow> bool" where
  "static_ok g \<longleftrightarrow> 0 < gTileSize g \<and> gTileSize g \<le> 1073741824
     \<and> plSize (gPool g) = Sz (gTileSize g) (gTileSize g) \<and> tile_bytes (gTileSize g) \<le> gBudget g
     \<and> (\<forall>b\<in>set (plIdle (gPool g)). tile_buf (gTileSize g) b)"

definition keys_ok :: "grid \<Rightarrow> bool" where
  "keys_ok g \<longleftrightarrow> distinct (gKeys g) \<and> set (gKeys g) = dom (core g)"

definition lru_ok :: "grid \<Rightarrow> bool" where
  "lru_ok g \<longleftrightarrow> dll (links_of g) (lru g) \<and> set (lru g) = {c. grid_pixels g c \<noteq> None}"

definition counts_ok :: "grid \<Rightarrow> bool" where
  "counts_ok g \<longleftrightarrow> gUsed g = total (held_bytes (tile_bytes (gTileSize g))) (core g)
     \<and> gPainting g = total (painting_bytes (tile_bytes (gTileSize g))) (core g)
     \<and> (\<forall>s. gCounts g s = total (in_state s) (core g))"

definition owners_ok :: "grid \<Rightarrow> bool" where
  "owners_ok g \<longleftrightarrow> bp.exclusive (gPool g) (total tile_bufs (core g))"

definition grid_ok :: "grid \<Rightarrow> bool" where
  "grid_ok g \<longleftrightarrow> static_ok g \<and> keys_ok g \<and> lru_ok g \<and> counts_ok g \<and> owners_ok g
     \<and> (\<forall>c t. core g c = Some t \<longrightarrow> tile_ok (gTileSize g) c t)"

lemma tile_bytes_eq: "0 < ts \<Longrightarrow> ts \<le> 1073741824 \<Longrightarrow> tile_bytes ts = ts * 4 * ts"
proof -
  assume ts: "0 < ts" "ts \<le> 1073741824"
  then have "ts * ts \<le> 1073741824 * 1073741824" by (intro mult_mono) auto
  moreover have "0 \<le> ts * ts" by simp
  ultimately have "in64 (ts * ts)" "in64 (ts * ts * 4)" unfolding in64_def by linarith+
  then show ?thesis by (simp add: tile_bytes_def)
qed

lemma grid_ok_D:
  assumes "grid_ok g"
  shows "finite (dom (core g))" "0 < gTileSize g" "gTileSize g \<le> 1073741824"
    "tile_bytes (gTileSize g) = gTileSize g * 4 * gTileSize g"
    "dll (links_of g) (lru g)" "set (lru g) = {c. grid_pixels g c \<noteq> None}"
    "set (lru g) \<subseteq> dom (gTiles g)" "distinct (gKeys g)" "set (gKeys g) = dom (gTiles g)" "distinct (lru g)"
proof -
  show k: "distinct (gKeys g)" "set (gKeys g) = dom (gTiles g)"
    using assms by (auto simp: grid_ok_def keys_ok_def)
  then show "finite (dom (core g))" by (metis List.finite_set dom_core)
  show "0 < gTileSize g" "gTileSize g \<le> 1073741824"
    using assms by (auto simp: grid_ok_def static_ok_def)
  then show "tile_bytes (gTileSize g) = gTileSize g * 4 * gTileSize g" by (rule tile_bytes_eq)
  show l: "dll (links_of g) (lru g)" "set (lru g) = {c. grid_pixels g c \<noteq> None}"
    using assms by (auto simp: grid_ok_def lru_ok_def)
  show "set (lru g) \<subseteq> dom (gTiles g)"
    unfolding l(2) by (auto simp: grid_pixels_def split: option.splits)
  show "distinct (lru g)" using l(1) by (rule dll_D)
qed

lemma grid_ok_tile:
  assumes "grid_ok g" "gTiles g c = Some t"
  shows "tile_ok (gTileSize g) c t"
proof -
  have "tile_ok (gTileSize g) c (clear_links t)"
    using assms by (auto simp: grid_ok_def core_Some)
  then show ?thesis by (simp add: tile_ok_def)
qed

text \<open>
  A change of one tile: the new record, the accounting and the recency list account for
  it; then the grid is again in order and its recency list is the one given.
\<close>

lemma grid_ok_change:
  assumes ok: "grid_ok g" and t: "gTiles g c = Some t"
    and core: "core g' = (core g)(c \<mapsto> t')" and keys: "gKeys g' = gKeys g"
    and ts: "gTileSize g' = gTileSize g"
    and static: "static_ok g'"
    and tile: "tile_ok (gTileSize g) c t'"
    and links: "dll (links_of g') xs"
      "set xs = (if tPixels t' = None then set (lru g) - {c} else insert c (set (lru g)))"
    and used: "gUsed g' = gUsed g - held_bytes (tile_bytes (gTileSize g)) t + held_bytes (tile_bytes (gTileSize g)) t'"
    and painting: "gPainting g' = gPainting g - painting_bytes (tile_bytes (gTileSize g)) t
        + painting_bytes (tile_bytes (gTileSize g)) t'"
    and counts: "gCounts g' = count_move (tState t) (tState t') (gCounts g)"
    and owners: "bp.exclusive (gPool g') (total tile_bufs ((core g)(c \<mapsto> t')))"
  shows "grid_ok g' \<and> lru g' = xs"
proof -
  note D = grid_ok_D[OF ok]
  have ct: "core g c = Some (clear_links t)" using t by (rule core_Some)
  have pix: "grid_pixels g' d = (if d = c then tPixels t' else grid_pixels g d)" for d
    by (simp add: core_pixels core)
  have dom: "dom (core g') = dom (core g)" using t unfolding core by auto
  have xs: "set xs = {d. grid_pixels g' d \<noteq> None}"
    using links(2) unfolding D(6) by (auto simp: pix)
  then have "set xs \<subseteq> dom (core g')"
    by (auto simp: core_pixels bind_eq_Some_conv simp del: dom_core)
  then have "set xs \<subseteq> set (gKeys g')" using dom D(9) keys by simp
  then have lru: "lru g' = xs"
    using lru_dll[OF links(1)] keys D(8) by simp
  have "held_bytes n (clear_links t) = held_bytes n t" "painting_bytes n (clear_links t) = painting_bytes n t"
    "in_state s (clear_links t) = in_state s t" for n s
    by (simp_all add: held_bytes_def painting_bytes_def in_state_def)
  then have "counts_ok g'"
    using ok used painting counts unfolding counts_ok_def grid_ok_def core ts
    by (auto simp: total_le_upd[OF D(1) ct] count_move_def in_state_def)
  moreover have "keys_ok g'" using ok dom by (simp add: keys_ok_def keys grid_ok_def)
  moreover have "lru_ok g'" using links(1) xs by (simp add: lru_ok_def lru)
  moreover have "owners_ok g'" using owners by (simp add: owners_ok_def core)
  moreover have "tile_ok (gTileSize g') d u" if "core g' d = Some u" for d u
    using that tile ok unfolding core ts by (auto simp: grid_ok_def split: if_splits)
  ultimately show ?thesis using static lru by (simp add: grid_ok_def)
qed

text \<open>How the buffers owned by the grid move when one tile changes.\<close>

lemma owners_same:
  assumes "grid_ok g" "gTiles g c = Some t" "tile_bufs t' = tile_bufs t"
  shows "bp.exclusive (gPool g) (total tile_bufs ((core g)(c \<mapsto> t')))"
proof -
  have "total tile_bufs ((core g)(c \<mapsto> t')) = total tile_bufs (core g)"
    using total_upd[OF grid_ok_D(1)[OF assms(1)] core_Some[OF assms(2)], of tile_bufs t'] assms(3)
    by (simp add: tile_bufs_def)
  then show ?thesis using assms(1) by (simp add: grid_ok_def owners_ok_def)
qed

lemma owners_give:
  assumes "grid_ok g" "gTiles g c = Some t" "tile_bufs t = add_mset (bufId b) (tile_bufs t')"
  shows "bp.exclusive (pool_release (Some b) (gPool g)) (total tile_bufs ((core g)(c \<mapsto> t')))"
proof -
  have "add_mset (bufId b) (total tile_bufs ((core g)(c \<mapsto> t'))) = total tile_bufs (core g)"
    using total_upd[OF grid_ok_D(1)[OF assms(1)] core_Some[OF assms(2)], of tile_bufs t'] assms(3)
    by (simp add: tile_bufs_def)
  then show ?thesis
    using assms(1) by (intro bp.exclusive_give) (simp add: grid_ok_def owners_ok_def)
qed

lemma owners_take:
  assumes "grid_ok g" "gTiles g c = Some t" "pool_acquire (gPool g) = (b, pl)"
    "tile_bufs t' = add_mset (bufId b) (tile_bufs t)"
  shows "bp.exclusive pl (total tile_bufs ((core g)(c \<mapsto> t')))"
proof -
  have "total tile_bufs ((core g)(c \<mapsto> t')) = add_mset (bufId b) (total tile_bufs (core g))"
    using total_upd[OF grid_ok_D(1)[OF assms(1)] core_Some[OF assms(2)], of tile_bufs t'] assms(4)
    by (simp add: tile_bufs_def)
  then show ?thesis
    using bp.exclusive_take(1)[of "gPool g" "total tile_bufs (core g)"] assms(1,3)
    by (simp add: grid_ok_def owners_ok_def)
qed

lemma static_release:
  assumes "static_ok g" "tile_buf (gTileSize g) b"
  shows "static_ok (g\<lparr>gPool := pool_release (Some b) (gPool g)\<rparr>)"
  using assms pool_release_cases[of b "gPool g"] by (auto simp: static_ok_def)

text \<open>The common case: only the labels of a tile change.\<close>

lemma grid_ok_relabel:
  assumes ok: "grid_ok g" and t: "gTiles g c = Some t"
    and core: "core g' = (core g)(c \<mapsto> t')"
    and same: "links_of g' = links_of g" "gKeys g' = gKeys g" "gTileSize g' = gTileSize g" "gPool g' = gPool g"
      "gBudget g' = gBudget g" "gUsed g' = gUsed g" "gPainting g' = gPainting g"
    and counts: "gCounts g' = count_move (tState t) (tState t') (gCounts g)"
    and tile: "tile_ok (gTileSize g) c t'"
    and bufs: "tPixels t' = tPixels t" "tPainting t' = tPainting t" "tBytes t' = tBytes t"
  shows "grid_ok g' \<and> lru g' = lru g"
proof (rule grid_ok_change[OF ok t core])
  show "static_ok g'" using ok by (simp add: grid_ok_def static_ok_def same)
  show "dll (links_of g') (lru g)" using grid_ok_D(5)[OF ok] by (simp add: same)
  have "c \<in> set (lru g) \<longleftrightarrow> tPixels t \<noteq> None"
    unfolding grid_ok_D(6)[OF ok] using t by (simp add: grid_pixels_def)
  then show "set (lru g) = (if tPixels t' = None then set (lru g) - {c} else insert c (set (lru g)))"
    by (auto simp: bufs)
  show "bp.exclusive (gPool g') (total tile_bufs ((core g)(c \<mapsto> t')))"
    unfolding same by (rule owners_same[OF ok t]) (simp add: tile_bufs_def bufs)
qed (simp_all add: same counts tile held_bytes_def painting_bytes_def bufs)

lemma count_move_id [simp]: "count_move a a n = n"
  by (auto simp: count_move_def)

lemma upd_tile_ok:
  assumes ok: "grid_ok g" and f: "\<And>t. tPrev (f t) = tPrev t \<and> tNext (f t) = tNext t \<and> tPixels (f t) = tPixels t
     \<and> tPainting (f t) = tPainting t \<and> tBytes (f t) = tBytes t \<and> tState (f t) = tState t
     \<and> tCoord (f t) = tCoord t \<and> tBounds (f t) = tBounds t"
  shows "grid_ok (upd_tile c f g) \<and> lru (upd_tile c f g) = lru g"
proof (cases "gTiles g c")
  case None
  then show ?thesis using ok by (simp add: upd_tile_def)
next
  case (Some t)
  show ?thesis
  proof (rule grid_ok_relabel[OF ok Some core_upd_tile[OF Some]])
    show "links_of (upd_tile c f g) = links_of g" using f by (intro links_of_upd_tile) simp
    show "tile_ok (gTileSize g) c (clear_links (f t))"
      using grid_ok_tile[OF ok Some] f[of t] by (simp add: tile_ok_def)
  qed (simp_all add: f)
qed

lemma set_state_ok:
  assumes ok: "grid_ok g" and t: "gTiles g c = Some t"
    and s: "s = TileValid \<Longrightarrow> tPixels t \<noteq> None" "s = TileEmpty \<or> s = TileFailed \<Longrightarrow> tPixels t = None"
  shows "grid_ok (set_state c s g) \<and> lru (set_state c s g) = lru g"
proof (rule grid_ok_relabel[OF ok t core_set_state[OF t]])
  show "tile_ok (gTileSize g) c (clear_links (t\<lparr>tState := s\<rparr>))"
    using grid_ok_tile[OF ok t] s by (auto simp: tile_ok_def)
  show "gCounts (set_state c s g) = count_move (tState t) (tState (clear_links (t\<lparr>tState := s\<rparr>))) (gCounts g)"
    by (simp add: tile_at_Some[OF t])
qed simp_all

text \<open>Counters no part of the invariant speaks of.\<close>

lemma grid_ok_counters [simp]:
  "grid_ok (g\<lparr>gEvictions := n\<rparr>) = grid_ok g" "grid_ok (g\<lparr>gRasterized := n\<rparr>) = grid_ok g"
  "grid_ok (g\<lparr>gReused := n\<rparr>) = grid_ok g" "grid_ok (g\<lparr>gDroppedLate := n\<rparr>) = grid_ok g"
  "grid_ok (g\<lparr>gClock := k\<rparr>) = grid_ok g" "grid_ok (g\<lparr>gFree := k\<rparr>) = grid_ok g"
  by (simp_all add: grid_ok_def static_ok_def keys_ok_def lru_ok_def counts_ok_def owners_ok_def lru_def
      grid_pixels_def tile_at_def)

lemma lru_counters [simp]:
  "lru (g\<lparr>gEvictions := n\<rparr>) = lru g" "lru (g\<lparr>gRasterized := n\<rparr>) = lru g"
  "lru (g\<lparr>gReused := n\<rparr>) = lru g" "lru (g\<lparr>gDroppedLate := n\<rparr>) = lru g"
  "lru (g\<lparr>gClock := k\<rparr>) = lru g" "lru (g\<lparr>gFree := k\<rparr>) = lru g"
  by (simp_all add: lru_def tile_at_def)

subsection \<open>Touch, invalidation and version changes\<close>

lemma link_front_ok:
  assumes ok: "grid_ok g" and c: "c \<in> set (lru g)"
  shows "grid_ok (link_front c g) \<and> lru (link_front c g) = c # remove1 c (lru g)"
proof -
  note D = grid_ok_D[OF ok]
  obtain t where t: "gTiles g c = Some t" using c D(7) by blast
  show ?thesis
  proof (rule grid_ok_change[OF ok t])
    show "core (link_front c g) = (core g)(c \<mapsto> clear_links t)"
      by (simp add: fun_eq_iff core_Some[OF t])
    show "static_ok (link_front c g)" using ok by (simp add: grid_ok_def static_ok_def)
    show "tile_ok (gTileSize g) c (clear_links t)" using grid_ok_tile[OF ok t] by (simp add: tile_ok_def)
    show "dll (links_of (link_front c g)) (c # remove1 c (lru g))"
      using c D(7) by (intro link_front_moves D(5)) auto
    have "tPixels t \<noteq> None" using c t unfolding D(6) by (simp add: grid_pixels_def)
    then show "set (c # remove1 c (lru g)) = (if tPixels (clear_links t) = None then set (lru g) - {c} else insert c (set (lru g)))"
      using D(10) by auto
    show "bp.exclusive (gPool (link_front c g)) (total tile_bufs ((core g)(c \<mapsto> clear_links t)))"
      using owners_same[OF ok t, of "clear_links t"] by (simp add: tile_bufs_def)
  qed (simp_all add: held_bytes_def painting_bytes_def)
qed

lemma touch_ok:
  assumes "grid_ok g"
  shows "grid_ok (touch c g) \<and> lru (touch c g) = (if c \<in> set (lru g) then c # remove1 c (lru g) else lru g)"
proof (cases "c \<in> set (lru g)")
  case True
  define h where "h = (upd_tile c (\<lambda>t. t\<lparr>tLastUsed := gClock g\<rparr>) g)\<lparr>gReused := gReused g + 1\<rparr>"
  have h: "grid_ok h" "lru h = lru g"
    using upd_tile_ok[OF assms, of "\<lambda>t. t\<lparr>tLastUsed := gClock g\<rparr>" c] by (simp_all add: h_def)
  have "touch c g = link_front c h"
    using True unfolding grid_ok_D(6)[OF assms]
    by (auto simp: touch_def grid_pixels_def h_def split: option.splits)
  with link_front_ok[of h c] h True show ?thesis by simp
next
  case False
  then have "touch c g = g"
    unfolding grid_ok_D(6)[OF assms] by (auto simp: touch_def grid_pixels_def split: option.splits)
  with False assms show ?thesis by simp
qed

interpretation gl: recency grid_ok lru touch
proof unfold_locales
  show "grid_ok g \<Longrightarrow> distinct (lru g)" for g by (rule grid_ok_D)
qed (simp_all add: touch_ok)

lemma invalidate_tile_ok:
  "grid_ok g \<Longrightarrow> grid_ok (snd (invalidate_tile c (n, g))) \<and> lru (snd (invalidate_tile c (n, g))) = lru g"
proof (cases "gTiles g c")
  case (Some t)
  assume ok: "grid_ok g"
  have s: "grid_ok (set_state c TileStale g) \<and> lru (set_state c TileStale g) = lru g"
    by (rule set_state_ok[OF ok Some]) auto
  with Some ok upd_tile_ok[of "set_state c TileStale g" "\<lambda>t. t\<lparr>tAttempts := 0\<rparr>" c] show ?thesis
    by (simp add: invalidate_tile_def)
qed (simp add: invalidate_tile_def)

lemma fold_grid_ok:
  assumes "\<And>c n h. grid_ok h \<Longrightarrow> grid_ok (snd (f c (n, h))) \<and> lru (snd (f c (n, h))) = lru h"
    and "grid_ok g"
  shows "grid_ok (snd (fold f cs (n, g))) \<and> lru (snd (fold f cs (n, g))) = lru g"
  using assms(2)
proof (induction cs arbitrary: n g)
  case (Cons c cs)
  obtain m h where "f c (n, g) = (m, h)" by (cases "f c (n, g)")
  with assms(1)[OF Cons.prems, of c n] Cons.IH[of h m] show ?case by simp
qed simp

lemma invalidate_ok:
  "grid_ok g \<Longrightarrow> grid_ok (snd (invalidate rc g)) \<and> lru (snd (invalidate rc g)) = lru g"
  unfolding invalidate_def by (rule fold_grid_ok[OF invalidate_tile_ok])

lemma advance_tile_ok:
  "grid_ok g \<Longrightarrow> c \<in> dom (gTiles g) \<Longrightarrow>
   grid_ok (snd (advance_tile v d c (n, g))) \<and> lru (snd (advance_tile v d c (n, g))) = lru g"
proof -
  assume ok: "grid_ok g" and "c \<in> dom (gTiles g)"
  then obtain t where t: "gTiles g c = Some t" by blast
  define h where "h = upd_tile c (\<lambda>t. t\<lparr>tVersion := v, tAttempts := 0\<rparr>) g"
  have h: "grid_ok h \<and> lru h = lru g" unfolding h_def by (rule upd_tile_ok[OF ok]) simp
  have ht: "gTiles h c = Some (t\<lparr>tVersion := v, tAttempts := 0\<rparr>)" by (simp add: h_def t)
  have stale: "grid_ok (set_state c TileStale g) \<and> lru (set_state c TileStale g) = lru g"
    by (rule set_state_ok[OF ok t]) auto
  have empty: "grid_ok (set_state c TileEmpty g) \<and> lru (set_state c TileEmpty g) = lru g" if "tPixels t = None"
    using that by (intro set_state_ok[OF ok t]) auto
  have failed: "tState t = TileFailed \<Longrightarrow> tPixels t = None"
    using grid_ok_tile[OF ok t] by (simp add: tile_ok_def)
  have hv: "grid_ok (set_state c TileValid h) \<and> lru (set_state c TileValid h) = lru g" if "tPixels t \<noteq> None"
    using set_state_ok[of h c, OF _ ht, of TileValid] h that by auto
  have he: "grid_ok (set_state c TileEmpty h) \<and> lru (set_state c TileEmpty h) = lru g" if "tPixels t = None"
    using set_state_ok[of h c, OF _ ht, of TileEmpty] h that by auto
  have reset: "grid_ok (upd_tile c (\<lambda>t. t\<lparr>tAttempts := 0\<rparr>) k) \<and> lru (upd_tile c (\<lambda>t. t\<lparr>tAttempts := 0\<rparr>) k) = lru k"
    if "grid_ok k" for k
    by (rule upd_tile_ok[OF that]) simp
  show ?thesis
    using ok reset stale empty failed hv he h
    by (simp add: advance_tile_def tile_at_Some[OF t] h_def[symmetric] Let_def)
qed

lemma gTiles_dom_advance_tile: "dom (gTiles (snd (advance_tile v d c (n, g)))) = dom (gTiles g)"
  by (auto simp: advance_tile_def Let_def dom_def)

lemma advance_ok:
  assumes "grid_ok g"
  shows "grid_ok (snd (advance v d g)) \<and> lru (snd (advance v d g)) = lru g"
proof -
  have "grid_ok (snd (fold (advance_tile v d) cs (n, h))) \<and> lru (snd (fold (advance_tile v d) cs (n, h))) = lru h"
    if "grid_ok h" "set cs \<subseteq> dom (gTiles h)" for cs n h
    using that
  proof (induction cs arbitrary: n h)
    case (Cons c cs)
    obtain m k where k: "advance_tile v d c (n, h) = (m, k)" by (cases "advance_tile v d c (n, h)")
    with advance_tile_ok[of h c v d n] gTiles_dom_advance_tile[of v d c n h] Cons.prems Cons.IH[of k m]
    show ?case by simp
  qed simp
  from this[OF assms, of "gKeys g" 0] grid_ok_D(9)[OF assms] show ?thesis
    by (simp add: advance_def)
qed

end
