(* ===== verification/Grid_Budget.thy ===== *)
theory Grid_Budget
  imports Grid_Invariant
begin

text \<open>
  Buffers and the byte budget of a grid: dropping pixels, eviction, \<open>Acquire\<close>,
  \<open>MarkValid\<close>, \<open>MarkFailed\<close>, \<open>Release\<close> and \<open>SetBudget\<close> keep the
  invariant, their loops end, and eviction takes the least recently used tiles first.
\<close>

subsection \<open>Dropping a tile's pixels\<close>

definition dropped :: "tile \<Rightarrow> tile" where
  "dropped t = t\<lparr>tBytes := 0, tPixels := None, tVersion := 0, tState := TileEmpty\<rparr>"

lemma core_set_state_map:
  "core (set_state c s g) = (core g)(c := map_option (\<lambda>t. t\<lparr>tState := s\<rparr>) (core g c))"
  by (intro ext, cases "gTiles g c") (auto simp: core_def clear_links_def)

lemma core_upd_map:
  assumes "\<And>t. clear_links (f t) = f (clear_links t)"
  shows "core (upd_tile c f g) = (core g)(c := map_option f (core g c))"
  by (auto simp: core_def fun_eq_iff option.map_comp o_def assms)

lemma clear_links_commute [simp]:
  "clear_links (t\<lparr>tBytes := n\<rparr>) = (clear_links t)\<lparr>tBytes := n\<rparr>"
  "clear_links (t\<lparr>tPixels := p\<rparr>) = (clear_links t)\<lparr>tPixels := p\<rparr>"
  "clear_links (t\<lparr>tVersion := v\<rparr>) = (clear_links t)\<lparr>tVersion := v\<rparr>"
  "clear_links (t\<lparr>tState := s\<rparr>) = (clear_links t)\<lparr>tState := s\<rparr>"
  "clear_links (t\<lparr>tPainting := q\<rparr>) = (clear_links t)\<lparr>tPainting := q\<rparr>"
  "clear_links (t\<lparr>tAttempts := n\<rparr>) = (clear_links t)\<lparr>tAttempts := n\<rparr>"
  "clear_links (t\<lparr>tLastUsed := v\<rparr>) = (clear_links t)\<lparr>tLastUsed := v\<rparr>"
  by (simp_all add: clear_links_def)

lemma in_lru_pixels: "grid_ok g \<Longrightarrow> c \<in> set (lru g) \<longleftrightarrow> grid_pixels g c \<noteq> None"
  using grid_ok_D(6) by blast

lemma in_lru_tile:
  assumes "grid_ok g" "c \<in> set (lru g)"
  obtains t p where "gTiles g c = Some t" "tPixels t = Some p" "tBytes t = tile_bytes (gTileSize g)"
    "tile_buf (gTileSize g) p"
proof -
  from assms(2) obtain t p where t: "gTiles g c = Some t" "tPixels t = Some p"
    unfolding in_lru_pixels[OF assms(1)] by (auto simp: grid_pixels_def split: option.splits)
  with grid_ok_tile[OF assms(1) t(1)] grid_ok_D(4)[OF assms(1)] show thesis
    by (intro that[OF t]) (auto simp: tile_ok_def)
qed

lemma drop_pixels_fields [simp]:
  "gTileSize (drop_pixels c g) = gTileSize g" "gExtent (drop_pixels c g) = gExtent g"
  "gKeys (drop_pixels c g) = gKeys g" "gBudget (drop_pixels c g) = gBudget g" "gClock (drop_pixels c g) = gClock g"
  "gPainting (drop_pixels c g) = gPainting g" "gEvictions (drop_pixels c g) = gEvictions g"
  "gRasterized (drop_pixels c g) = gRasterized g" "gReused (drop_pixels c g) = gReused g"
  "gDroppedLate (drop_pixels c g) = gDroppedLate g"
  by (simp_all add: drop_pixels_def Let_def split: option.split)

lemma drop_pixels_ok:
  assumes ok: "grid_ok g" and c: "c \<in> set (lru g)"
  shows "grid_ok (drop_pixels c g)" "lru (drop_pixels c g) = remove1 c (lru g)"
    "core (drop_pixels c g) = (core g)(c := map_option dropped (core g c))"
    "gUsed (drop_pixels c g) = gUsed g - tile_bytes (gTileSize g)"
proof -
  note D = grid_ok_D[OF ok]
  obtain t p where t: "gTiles g c = Some t" "tPixels t = Some p" "tBytes t = tile_bytes (gTileSize g)"
    "tile_buf (gTileSize g) p"
    by (rule in_lru_tile[OF ok c])
  define g1 where "g1 = upd_tile c (\<lambda>t. t\<lparr>tBytes := 0, tPixels := None, tVersion := 0\<rparr>)
     (g\<lparr>gUsed := gUsed g - tBytes t\<rparr>)"
  define g2 where "g2 = set_state c TileEmpty (unlink c g1)"
  have drop: "drop_pixels c g = g2\<lparr>gPool := pool_release (Some p) (gPool g2)\<rparr>"
    by (simp add: drop_pixels_def Let_def tile_at_Some[OF t(1)] t(2) g1_def g2_def)
  have core1: "core g1 = (core g)(c := map_option (\<lambda>t. t\<lparr>tBytes := 0, tPixels := None, tVersion := 0\<rparr>) (core g c))"
    unfolding g1_def by (subst core_upd_map) simp_all
  have core: "core (drop_pixels c g) = (core g)(c := map_option dropped (core g c))"
    unfolding drop g2_def
    by (auto simp: core_set_state_map core1 dropped_def fun_eq_iff core_Some[OF t(1)])
  have core': "core (drop_pixels c g) = (core g)(c \<mapsto> dropped (clear_links t))"
    unfolding core core_Some[OF t(1)] by simp
  have used: "gUsed (drop_pixels c g) = gUsed g - tile_bytes (gTileSize g)"
    by (simp add: drop g1_def g2_def t(3))
  have state: "tState (tile_at (unlink c g1) c) = tState t"
    using core_eq_tile(1)[OF core_unlink, of c g1 c] t(1) by (simp add: g1_def tile_at_def)
  have "grid_ok (drop_pixels c g) \<and> lru (drop_pixels c g) = remove1 c (lru g)"
  proof (rule grid_ok_change[OF ok t(1) core'])
    have "static_ok g2"
      using ok by (simp add: grid_ok_def static_ok_def g1_def g2_def)
    moreover have "tile_buf (gTileSize g2) p" using t(4) by (simp add: g1_def g2_def)
    ultimately show "static_ok (drop_pixels c g)"
      unfolding drop by (rule static_release)
    show "tile_ok (gTileSize g) c (dropped (clear_links t))"
      using grid_ok_tile[OF ok t(1)] by (simp add: tile_ok_def dropped_def)
    have "links_of g1 = links_of g" by (simp add: g1_def links_of_upd_tile)
    moreover have "dom (gTiles g1) = dom (gTiles g)" by (auto simp: g1_def split: if_splits)
    ultimately have "dll (links_of (unlink c g1)) (remove1 c (lru g))"
      using D(5,7) t(1) by (intro unlink_removes) auto
    then show "dll (links_of (drop_pixels c g)) (remove1 c (lru g))" by (simp add: drop g2_def)
    show "set (remove1 c (lru g)) = (if tPixels (dropped (clear_links t)) = None
        then set (lru g) - {c} else insert c (set (lru g)))"
      using D(10) by (simp add: dropped_def)
    show "gCounts (drop_pixels c g) = count_move (tState t) (tState (dropped (clear_links t))) (gCounts g)"
      by (simp add: drop g2_def state dropped_def) (simp add: g1_def)
    have "gPool (drop_pixels c g) = pool_release (Some p) (gPool g)"
      by (simp add: drop g2_def g1_def)
    then show "bp.exclusive (gPool (drop_pixels c g)) (total tile_bufs ((core g)(c \<mapsto> dropped (clear_links t))))"
      using t(2) owners_give[OF ok t(1), of p "dropped (clear_links t)"]
      by (simp add: tile_bufs_def dropped_def opt_mset_def)
  qed (simp_all add: used t(2,3) dropped_def held_bytes_def painting_bytes_def)
  with core used show "grid_ok (drop_pixels c g)" "lru (drop_pixels c g) = remove1 c (lru g)"
    "core (drop_pixels c g) = (core g)(c := map_option dropped (core g c))"
    "gUsed (drop_pixels c g) = gUsed g - tile_bytes (gTileSize g)" by auto
qed

subsection \<open>Eviction\<close>

text \<open>
  \<open>g'\<close> is \<open>g\<close> with the pixels of the tiles \<open>zs\<close> dropped, where
  \<open>zs\<close> is an end piece of the recency list from which only \<open>keep\<close> is spared.
\<close>

definition evicted :: "tile_coord \<Rightarrow> tile_coord list \<Rightarrow> grid \<Rightarrow> grid \<Rightarrow> bool" where
  "evicted keep zs g g' \<longleftrightarrow>
     (\<exists>ys. lru g = ys @ zs \<and> lru g' = ys @ filter (\<lambda>c. c = keep) zs)
   \<and> core g' = (\<lambda>c. if c \<in> set zs \<and> c \<noteq> keep then map_option dropped (core g c) else core g c)
   \<and> gUsed g' = gUsed g - tile_bytes (gTileSize g) * int (length (filter (\<lambda>c. c \<noteq> keep) zs))
   \<and> gEvictions g' = gEvictions g + int (length (filter (\<lambda>c. c \<noteq> keep) zs))
   \<and> gTileSize g' = gTileSize g \<and> gExtent g' = gExtent g \<and> gKeys g' = gKeys g
   \<and> gBudget g' = gBudget g \<and> gClock g' = gClock g \<and> gPainting g' = gPainting g"

lemma evicted_refl [simp]: "evicted keep [] g g"
  by (simp add: evicted_def)

lemma evict_one_ok:
  assumes ok: "grid_ok g" and v: "v \<in> set (lru g)"
  shows "v = keep \<Longrightarrow> evict_one keep v g = g"
    and "v \<noteq> keep \<Longrightarrow> evict_one keep v g = (drop_pixels v g)\<lparr>gEvictions := gEvictions g + 1\<rparr>"
proof -
  obtain t p where t: "gTiles g v = Some t" "tPixels t = Some p" by (rule in_lru_tile[OF ok v])
  have "tCoord t = v" using grid_ok_tile[OF ok t(1)] by (simp add: tile_ok_def)
  then show "v = keep \<Longrightarrow> evict_one keep v g = g"
    and "v \<noteq> keep \<Longrightarrow> evict_one keep v g = (drop_pixels v g)\<lparr>gEvictions := gEvictions g + 1\<rparr>"
    using t by (auto simp: evict_one_def tile_at_def Let_def)
qed

lemma evicted_step:
  assumes ok: "grid_ok g0" "grid_ok g" and e: "evicted keep zs g0 g"
    and l: "lru g0 = ys @ v # zs" and v: "v \<in> set (lru g)"
  shows "grid_ok (evict_one keep v g) \<and> evicted keep (v # zs) g0 (evict_one keep v g)"
proof -
  have d: "distinct (ys @ v # zs)" using grid_ok_D(10)[OF ok(1)] l by simp
  from e have lg: "lru g = (ys @ [v]) @ filter (\<lambda>c. c = keep) zs"
    by (auto simp: evicted_def l)
  show ?thesis
  proof (cases "v = keep")
    case True
    moreover have "filter (\<lambda>c. c = keep) zs = []" using d True by (auto simp: filter_empty_conv)
    moreover have "filter (\<lambda>c. c \<noteq> keep) (v # zs) = filter (\<lambda>c. c \<noteq> keep) zs" using True by simp
    ultimately show ?thesis
      using e ok(2) d lg l unfolding evict_one_ok(1)[OF ok(2) v True]
      by (auto simp: evicted_def fun_eq_iff)
  next
    case False
    note dp = drop_pixels_ok[OF ok(2) v]
    have "remove1 v (lru g) = ys @ filter (\<lambda>c. c = keep) zs"
      using d lg by (simp add: remove1_append)
    moreover have "core g v = core g0 v" using e d by (simp add: evicted_def)
    ultimately show ?thesis
      using e False d l dp unfolding evict_one_ok(2)[OF ok(2) v False]
      by (auto simp: evicted_def fun_eq_iff algebra_simps)
  qed
qed

text \<open>
  The loop ends, and stops as soon as the bytes fit: before its last victim they did not.
\<close>

lemma evict_loop_ok:
  assumes "grid_ok g0" "grid_ok g" "evicted keep zs g0 g" "lru g0 = ys @ zs"
    and "budget < gUsed g + need"
  shows "\<exists>g' zs'. evict_loop budget need keep (last_opt ys) g = Some g' \<and> grid_ok g' \<and> evicted keep zs' g0 g'
     \<and> (gUsed g' + need \<le> budget \<or> set (lru g') \<subseteq> {keep})
     \<and> budget < gUsed g' + tile_bytes (gTileSize g0) + need"
  using assms
proof (induction ys arbitrary: zs g rule: rev_induct)
  case Nil
  have "set (lru g) \<subseteq> {keep}" using Nil.prems(3,4) by (auto simp: evicted_def)
  moreover have "0 \<le> tile_bytes (gTileSize g0)"
    using grid_ok_D(2,4)[OF Nil.prems(1)] by simp
  moreover have "evict_loop budget need keep (last_opt []) g = Some g"
    by (subst evict_loop.simps) simp
  ultimately show ?case
    using Nil.prems by (intro exI[of _ g] exI[of _ zs]) simp
next
  case (snoc v ys)
  have lg: "lru g = (ys @ [v]) @ filter (\<lambda>c. c = keep) zs"
    using snoc.prems(3,4) by (auto simp: evicted_def)
  have v: "v \<in> set (lru g)" by (simp add: lg)
  obtain t p where t: "gTiles g v = Some t" "tPixels t = Some p" by (rule in_lru_tile[OF snoc.prems(2) v])
  have "lkPrev (links_of g) v = pred_of (lru g) v" by (rule dll_D(5)[OF grid_ok_D(5)[OF snoc.prems(2)]])
  moreover have "distinct (lru g)" by (rule grid_ok_D(10)[OF snoc.prems(2)])
  ultimately have prev: "tPrev t = last_opt ys"
    by (simp add: links_of_def tile_at_Some[OF t(1)] lg pred_of_append)
  let ?h = "evict_one keep v g"
  have h: "grid_ok ?h" "evicted keep (v # zs) g0 ?h"
    using evicted_step[OF snoc.prems(1,2,3), of ys v] snoc.prems(4) v by simp_all
  have ts: "gTileSize g = gTileSize g0" "0 \<le> tile_bytes (gTileSize g0)"
    using snoc.prems(3) grid_ok_D(2,4)[OF snoc.prems(1)] by (simp_all add: evicted_def)
  have used: "gUsed ?h = gUsed g \<or> gUsed ?h = gUsed g - tile_bytes (gTileSize g0)"
    using evict_one_ok[OF snoc.prems(2) v] drop_pixels_ok(4)[OF snoc.prems(2) v] ts by (cases "v = keep") auto
  have step: "evict_loop budget need keep (last_opt (ys @ [v])) g =
      (if gUsed ?h + need \<le> budget then Some ?h else evict_loop budget need keep (last_opt ys) ?h)"
    by (subst evict_loop.simps) (simp add: t(1) prev)
  show ?case
  proof (cases "gUsed ?h + need \<le> budget")
    case True
    with h used snoc.prems(5) ts show ?thesis
      unfolding step by (intro exI[of _ ?h] exI[of _ "v # zs"]) auto
  next
    case False
    with snoc.IH[OF snoc.prems(1) h] snoc.prems(4) show ?thesis
      unfolding step by simp
  qed
qed

lemma evict_for_ok:
  assumes "grid_ok g"
  shows "\<exists>g' zs. evict_for need keep g = Some g' \<and> grid_ok g' \<and> evicted keep zs g g'
     \<and> (gUsed g' + need \<le> gBudget g \<or> set (lru g') \<subseteq> {keep})
     \<and> (zs \<noteq> [] \<longrightarrow> gBudget g < gUsed g' + tile_bytes (gTileSize g) + need)
     \<and> (gUsed g + need \<le> gBudget g \<longrightarrow> g' = g)"
proof (cases "gUsed g + need \<le> gBudget g")
  case True
  then show ?thesis
    using assms by (intro exI[of _ g] exI[of _ "[]"]) (simp add: evict_for_def)
next
  case False
  have "gTail g = last_opt (lru g)"
    using dll_D(3)[OF grid_ok_D(5)[OF assms]] by (simp add: links_of_def)
  with False show ?thesis
    using evict_loop_ok[OF assms assms evicted_refl, where keep = keep and ys = "lru g"
        and budget = "gBudget g" and need = need]
    by (auto simp: evict_for_def)
qed

subsection \<open>Acquire\<close>

definition fresh_tile :: "int \<Rightarrow> tile_coord \<Rightarrow> tile" where
  "fresh_tile ts c = zero_tile\<lparr>tCoord := c, tBounds := coord_rect c ts, tState := TileEmpty\<rparr>"

lemma fresh_tile_fields [simp]:
  "tCoord (fresh_tile ts c) = c" "tBounds (fresh_tile ts c) = coord_rect c ts" "tState (fresh_tile ts c) = TileEmpty"
  "tPixels (fresh_tile ts c) = None" "tPainting (fresh_tile ts c) = None" "tBytes (fresh_tile ts c) = 0"
  "tVersion (fresh_tile ts c) = 0" "tAttempts (fresh_tile ts c) = 0"
  by (simp_all add: fresh_tile_def zero_tile_def)

lemma core_tile_at:
  assumes "core g c = Some t"
  shows "tPainting (tile_at g c) = tPainting t" "tPixels (tile_at g c) = tPixels t" "tState (tile_at g c) = tState t"
    "tBytes (tile_at g c) = tBytes t" "tVersion (tile_at g c) = tVersion t" "tAttempts (tile_at g c) = tAttempts t"
    "\<exists>u. gTiles g c = Some u \<and> t = clear_links u"
  using assms by (auto simp: core_def tile_at_def)

lemma in_flight_core: "in_flight g c \<longleftrightarrow> (\<exists>t. core g c = Some t \<and> tPainting t \<noteq> None)"
  by (auto simp: in_flight_def core_def split: option.splits)

lemma ensure_cases:
  "ensure c g = (True, g) \<and> gTiles g c \<noteq> None
   \<or> ensure c g = (False, g) \<and> gTiles g c = None \<and> \<not> inside g c
   \<or> gTiles g c = None \<and> inside g c \<and> ensure c g =
      (True, g\<lparr>gFree := gFree g - 1, gTiles := (gTiles g)(c \<mapsto> fresh_tile (gTileSize g) c), gKeys := gKeys g @ [c],
                gCounts := (gCounts g)(TileEmpty := gCounts g TileEmpty + 1)\<rparr>)"
  by (cases "gTiles g c"; cases "inside g c"; cases "gFree g")
    (auto simp: ensure_def new_record_def Let_def fresh_tile_def)

lemma ensure_new_ok:
  assumes ok: "grid_ok g" and c: "gTiles g c = None"
    and h: "h = g\<lparr>gFree := n, gTiles := (gTiles g)(c \<mapsto> fresh_tile (gTileSize g) c), gKeys := gKeys g @ [c],
                gCounts := (gCounts g)(TileEmpty := gCounts g TileEmpty + 1)\<rparr>"
  shows "grid_ok h" "lru h = lru g" "core h = (core g)(c \<mapsto> fresh_tile (gTileSize g) c)"
proof -
  note D = grid_ok_D[OF ok]
  let ?t = "fresh_tile (gTileSize g) c"
  have "clear_links ?t = ?t" by (simp add: fresh_tile_def zero_tile_def clear_links_def)
  then show core: "core h = (core g)(c \<mapsto> ?t)"
    by (auto simp: h core_def fun_eq_iff)
  have cg: "core g c = None" using c by simp
  have ptr: "tPrev (tile_at h d) = tPrev (tile_at g d)" "tNext (tile_at h d) = tNext (tile_at g d)" for d
    using c by (auto simp: h tile_at_def fresh_tile_def zero_tile_def)
  then have links: "links_of h = links_of g"
    by (simp add: links_of_def) (simp add: h)
  have c_new: "c \<notin> set (gKeys g)" using D(9) c by auto
  have "set (lru g) \<subseteq> set (gKeys h)" using D(7,9) by (auto simp: h)
  then show lru: "lru h = lru g"
    using lru_dll[of h "lru g"] D(5,8) c_new by (simp add: links) (simp add: h)
  have pix: "grid_pixels h d = grid_pixels g d" for d
    by (simp add: core_pixels core cg fresh_tile_def zero_tile_def)
  have tot: "total f (core h) = total f (core g) + f ?t" for f :: "tile \<Rightarrow> 'b::comm_monoid_add"
    unfolding core by (rule total_insert[OF D(1) cg])
  have "counts_ok h"
    using ok unfolding counts_ok_def grid_ok_def tot
    by (auto simp: h held_bytes_def painting_bytes_def in_state_def fresh_tile_def zero_tile_def)
  moreover have "owners_ok h"
    using ok unfolding owners_ok_def grid_ok_def tot
    by (simp add: tile_bufs_def opt_mset_def fresh_tile_def zero_tile_def) (simp add: h)
  moreover have "keys_ok h" using ok c_new unfolding keys_ok_def grid_ok_def core by (simp add: h)
  moreover have "lru_ok h" using ok unfolding lru_ok_def grid_ok_def by (simp add: links lru pix)
  moreover have "static_ok h" using ok by (simp add: h static_ok_def grid_ok_def)
  moreover have "tile_ok (gTileSize h) d u" if "core h d = Some u" for d u
  proof (cases "d = c")
    case True
    then have "u = fresh_tile (gTileSize g) c" using that unfolding core by simp
    then show ?thesis using True by (simp add: tile_ok_def) (simp add: h)
  next
    case False
    then have "core g d = Some u" using that unfolding core by simp
    moreover have "gTileSize h = gTileSize g" by (simp add: h)
    ultimately show ?thesis using ok by (simp add: grid_ok_def)
  qed
  ultimately show "grid_ok h" by (simp add: grid_ok_def)
qed

text \<open>\<open>g'\<close> differs from \<open>g\<close> in no accounting field.\<close>

definition same_books :: "grid \<Rightarrow> grid \<Rightarrow> bool" where
  "same_books g g' \<longleftrightarrow> gUsed g' = gUsed g \<and> gPainting g' = gPainting g \<and> gBudget g' = gBudget g
     \<and> gTileSize g' = gTileSize g \<and> gExtent g' = gExtent g \<and> gPool g' = gPool g
     \<and> gEvictions g' = gEvictions g \<and> gClock g' = gClock g"

lemma ensure_ok:
  assumes ok: "grid_ok g" and e: "ensure c g = (found, h)"
  shows "found \<longleftrightarrow> gTiles g c \<noteq> None \<or> inside g c" "grid_ok h" "lru h = lru g" "same_books g h"
    "found \<Longrightarrow> \<exists>t. gTiles h c = Some t"
    "core h = (if found \<and> gTiles g c = None then (core g)(c \<mapsto> fresh_tile (gTileSize g) c) else core g)"
  using ensure_cases[of c g] ensure_new_ok[OF ok, of c] ok e
  by (auto simp: same_books_def)

lemma acquire_buffer:
  assumes ok: "static_ok g" and b: "pool_acquire (gPool g) = (b, pl)"
  shows "tile_buf (gTileSize g) b" "static_ok (g\<lparr>gPool := pl\<rparr>)"
proof -
  have g: "0 < gTileSize g" "plSize (gPool g) = Sz (gTileSize g) (gTileSize g)"
    "\<forall>b\<in>set (plIdle (gPool g)). tile_buf (gTileSize g) b"
    using ok by (auto simp: static_ok_def)
  show "tile_buf (gTileSize g) b"
  proof (cases "plIdle (gPool g) = []")
    case True
    then show ?thesis
      using b g(1,2) by (auto simp: pool_acquire_from pool_alloc_def new_buf_def tile_buf_def)
  next
    case False
    then have "b \<in> set (plIdle (gPool g))" using b by (auto simp: pool_acquire_from)
    with g(3) show ?thesis by blast
  qed
  show "static_ok (g\<lparr>gPool := pl\<rparr>)"
    using ok b by (cases "plIdle (gPool g) = []")
      (auto simp: static_ok_def pool_acquire_from dest!: in_set_butlastD)
qed

definition order_tile :: "buf \<Rightarrow> tile \<Rightarrow> tile" where
  "order_tile b t = t\<lparr>tPainting := Some b, tState := TileStale, tAttempts := tAttempts t + 1\<rparr>"

lemma order_tile_fields [simp]:
  "tPainting (order_tile b t) = Some b" "tState (order_tile b t) = TileStale" "tPixels (order_tile b t) = tPixels t"
  "tBytes (order_tile b t) = tBytes t" "tCoord (order_tile b t) = tCoord t" "tBounds (order_tile b t) = tBounds t"
  "tVersion (order_tile b t) = tVersion t" "tAttempts (order_tile b t) = tAttempts t + 1"
  by (simp_all add: order_tile_def)

lemma order_ok:
  assumes ok: "grid_ok g" and t: "gTiles g c = Some t" "tPainting t = None"
    and b: "pool_acquire (gPool g) = (b, pl)"
    and need: "need = tile_bytes (gTileSize g)"
  shows "grid_ok (order need c g)" "lru (order need c g) = lru g"
    "core (order need c g) = (core g)(c \<mapsto> order_tile b (clear_links t))"
    "gUsed (order need c g) = gUsed g + tile_bytes (gTileSize g)"
    "gPainting (order need c g) = gPainting g + tile_bytes (gTileSize g)"
    "gTileSize (order need c g) = gTileSize g" "gExtent (order need c g) = gExtent g" "gBudget (order need c g) = gBudget g"
    "gClock (order need c g) = gClock g" "gEvictions (order need c g) = gEvictions g"
    "bufId b \<notin># total tile_bufs (core g)"
proof -
  define g1 where "g1 = upd_tile c (\<lambda>t. t\<lparr>tPainting := Some b\<rparr>) (g\<lparr>gPool := pl\<rparr>)"
  define g2 where "g2 = g1\<lparr>gUsed := gUsed g1 + need, gPainting := gPainting g1 + need\<rparr>"
  define g3 where "g3 = (if tState (tile_at g2 c) \<noteq> TileStale then set_state c TileStale g2 else g2)"
  have eq: "order need c g = upd_tile c (\<lambda>t. t\<lparr>tAttempts := tAttempts t + 1\<rparr>) g3"
    unfolding order_def b g3_def g2_def g1_def Let_def by simp
  have t2: "gTiles g2 c = Some (t\<lparr>tPainting := Some b\<rparr>)" by (simp add: g2_def g1_def t)
  have t3: "gTiles g3 c = Some (t\<lparr>tPainting := Some b, tState := TileStale\<rparr>)"
    using t2 by (auto simp: g3_def tile_at_Some[OF t2])
  have counts: "gCounts (order need c g) = count_move (tState t) TileStale (gCounts g)"
    unfolding eq by (simp add: g3_def tile_at_Some[OF t2]) (simp add: g2_def g1_def)
  have rest: "gTiles (order need c g) d = gTiles g d" if "d \<noteq> c" for d
    using that unfolding eq by (auto simp: g3_def g2_def g1_def)
  show core: "core (order need c g) = (core g)(c \<mapsto> order_tile b (clear_links t))"
  proof
    fix d show "core (order need c g) d = ((core g)(c \<mapsto> order_tile b (clear_links t))) d"
      using rest[of d] t3 by (cases "d = c") (simp_all add: core_def eq order_tile_def)
  qed
  have links: "links_of (order need c g) = links_of g"
    unfolding eq g3_def g2_def g1_def by (simp add: links_of_upd_tile)
  have pool: "gPool (order need c g) = pl" unfolding eq by (simp add: g3_def g2_def g1_def)
  have fields: "gTileSize (order need c g) = gTileSize g" "gExtent (order need c g) = gExtent g" "gBudget (order need c g) = gBudget g"
    "gClock (order need c g) = gClock g" "gEvictions (order need c g) = gEvictions g" "gKeys (order need c g) = gKeys g"
    unfolding eq by (simp_all add: g3_def g2_def g1_def)
  then show "gTileSize (order need c g) = gTileSize g" "gExtent (order need c g) = gExtent g" "gBudget (order need c g) = gBudget g"
    "gClock (order need c g) = gClock g" "gEvictions (order need c g) = gEvictions g" by simp_all
  show used: "gUsed (order need c g) = gUsed g + tile_bytes (gTileSize g)"
    and painting: "gPainting (order need c g) = gPainting g + tile_bytes (gTileSize g)"
    unfolding eq by (simp_all add: g3_def g2_def g1_def need)
  have st: "static_ok g" using ok by (simp add: grid_ok_def)
  note buf = acquire_buffer[OF st b]
  have "grid_ok (order need c g) \<and> lru (order need c g) = lru g"
  proof (rule grid_ok_change[OF ok t(1) core])
    show "static_ok (order need c g)" using buf(2) by (simp add: static_ok_def fields pool)
    show "tile_ok (gTileSize g) c (order_tile b (clear_links t))"
      using grid_ok_tile[OF ok t(1)] buf(1) by (auto simp: tile_ok_def order_tile_def)
    show "dll (links_of (order need c g)) (lru g)" using grid_ok_D(5)[OF ok] by (simp add: links)
    have "c \<in> set (lru g) \<longleftrightarrow> tPixels t \<noteq> None"
      using t by (simp add: in_lru_pixels[OF ok] grid_pixels_def)
    then show "set (lru g) = (if tPixels (order_tile b (clear_links t)) = None
        then set (lru g) - {c} else insert c (set (lru g)))"
      by (auto simp: order_tile_def)
    show "bp.exclusive (gPool (order need c g)) (total tile_bufs ((core g)(c \<mapsto> order_tile b (clear_links t))))"
      unfolding pool by (rule owners_take[OF ok t(1) b])
        (simp add: tile_bufs_def order_tile_def opt_mset_def t(2))
  qed (simp_all add: fields used painting counts order_tile_def held_bytes_def painting_bytes_def t(2))
  then show "grid_ok (order need c g)" "lru (order need c g) = lru g" by auto
  show "bufId b \<notin># total tile_bufs (core g)"
    using bp.exclusive_take(2)[of "gPool g" "total tile_bufs (core g)"] ok b
    by (simp add: grid_ok_def owners_ok_def)
qed

text \<open>
  \<open>Acquire\<close> always returns: nothing outside the layer, the buffer already on order, or
  after evicting just enough a buffer nobody holds, with the tile's own pixels left in place.
\<close>

lemma acquire_ok:
  assumes ok: "grid_ok g"
  obtains (outside) "gTiles g c = None" "\<not> inside g c" "acquire c g = Some (None, g)"
  | (on_order) b where "grid_ok g" "acquire c g = Some (Some b, g)" "tPainting (tile_at g c) = Some b" "in_flight g c"
  | (ordered) b g1 g2 g3 zs t where
    "acquire c g = Some (Some b, g3)" "\<not> in_flight g c"
    "grid_ok g1" "lru g1 = lru g" "same_books g g1" "core g1 = (core g)(c \<mapsto> t)" "tPainting t = None"
    "core g c = Some t \<or> core g c = None \<and> t = fresh_tile (gTileSize g) c"
    "grid_ok g2" "evicted c zs g1 g2"
    "gUsed g2 + tile_bytes (gTileSize g) \<le> gBudget g \<or> set (lru g2) \<subseteq> {c}"
    "zs \<noteq> [] \<longrightarrow> gBudget g < gUsed g2 + 2 * tile_bytes (gTileSize g)"
    "gUsed g + tile_bytes (gTileSize g) \<le> gBudget g \<longrightarrow> g2 = g1"
    "grid_ok g3" "lru g3 = lru g2" "core g3 = (core g2)(c \<mapsto> order_tile b t)"
    "gUsed g3 = gUsed g2 + tile_bytes (gTileSize g)" "gPainting g3 = gPainting g + tile_bytes (gTileSize g)"
    "gTileSize g3 = gTileSize g" "gExtent g3 = gExtent g" "gBudget g3 = gBudget g" "gClock g3 = gClock g"
    "bufId b \<notin># total tile_bufs (core g2)"
proof -
  obtain found g1 where e: "ensure c g = (found, g1)" by (cases "ensure c g")
  note E = ensure_ok[OF ok e]
  show thesis
  proof (cases "found")
    case False
    with E(1) ensure_cases[of c g] e show thesis
      by (intro outside) (auto simp: acquire_def)
  next
    case True
    then obtain t1 where t1: "gTiles g1 c = Some t1" using E(5) by blast
    have books: "gUsed g1 = gUsed g" "gTileSize g1 = gTileSize g" "gBudget g1 = gBudget g" "gPainting g1 = gPainting g"
      "gExtent g1 = gExtent g" "gClock g1 = gClock g"
      using E(4) by (simp_all add: same_books_def)
    have c1: "core g1 c = Some (clear_links t1)" using t1 by (rule core_Some)
    show thesis
    proof (cases "tPainting t1")
      case (Some b)
      have "gTiles g c \<noteq> None"
      proof
        assume "gTiles g c = None"
        then have "core g1 c = Some (fresh_tile (gTileSize g) c)" using E(6) True by simp
        then have "tPainting (tile_at g1 c) = None" by (rule core_tile_at(1)[THEN trans]) simp
        with t1 Some show False by (simp add: tile_at_Some)
      qed
      then have "g1 = g" using ensure_cases[of c g] e by auto
      with Some t1 e True ok show thesis
        by (intro on_order[of b]) (auto simp: acquire_def tile_at_Some in_flight_def)
    next
      case None
      obtain g2 zs where g2: "evict_for (tile_bytes (gTileSize g)) c g1 = Some g2" "grid_ok g2" "evicted c zs g1 g2"
        "gUsed g2 + tile_bytes (gTileSize g) \<le> gBudget g1 \<or> set (lru g2) \<subseteq> {c}"
        "zs \<noteq> [] \<longrightarrow> gBudget g1 < gUsed g2 + tile_bytes (gTileSize g1) + tile_bytes (gTileSize g)"
        "gUsed g1 + tile_bytes (gTileSize g) \<le> gBudget g1 \<longrightarrow> g2 = g1"
        using evict_for_ok[OF E(2), of "tile_bytes (gTileSize g)" c] by blast
      have core2: "core g2 c = Some (clear_links t1)" using g2(3) c1 by (simp add: evicted_def)
      then obtain t2 where t2: "gTiles g2 c = Some t2" "clear_links t2 = clear_links t1"
        by (auto simp: core_def)
      have p2: "tPainting t2 = None" using None t2(2) by (metis clear_links_fields(9))
      have ts2: "gTileSize g2 = gTileSize g" "gBudget g2 = gBudget g" "gPainting g2 = gPainting g"
        "gExtent g2 = gExtent g" "gClock g2 = gClock g"
        using g2(3) books by (simp_all add: evicted_def)
      obtain b pl where b: "pool_acquire (gPool g2) = (b, pl)" by (cases "pool_acquire (gPool g2)")
      note O = order_ok[OF g2(2) t2(1) p2 b, of "tile_bytes (gTileSize g)"]
      let ?g3 = "order (tile_bytes (gTileSize g)) c g2"
      have core3: "core ?g3 = (core g2)(c \<mapsto> order_tile b (clear_links t1))" using O(3) ts2(1) t2(2) by simp
      then have "core ?g3 c = Some (order_tile b (clear_links t1))" by simp
      from core_tile_at(1)[OF this] have "tPainting (tile_at ?g3 c) = Some b" by simp
      then have acq: "acquire c g = Some (Some b, ?g3)"
        using e True None t1 g2(1) by (simp add: acquire_def tile_at_Some books)
      have "core g c = Some (clear_links t1) \<and> gTiles g c \<noteq> None
          \<or> core g c = None \<and> clear_links t1 = fresh_tile (gTileSize g) c"
        using E(6) c1 True by (cases "gTiles g c") (auto split: if_splits)
      moreover then have "core g1 = (core g)(c \<mapsto> clear_links t1)"
        using E(6) True by (auto simp: fun_eq_iff core_None split: if_splits)
      moreover have "\<not> in_flight g c"
      proof -
        have "core g c = Some (clear_links t1) \<or> core g c = None" using calculation(1) by auto
        then show ?thesis using None unfolding in_flight_core by auto
      qed
      ultimately show thesis
        using acq E(2,3,4) None g2 O ts2 books core3
        by (intro ordered[of b ?g3 g1 "clear_links t1" g2 zs]) (auto simp: algebra_simps)
    qed
  qed
qed

subsection \<open>Results coming back\<close>

definition installed :: "nat \<Rightarrow> buf \<Rightarrow> nat \<Rightarrow> tile \<Rightarrow> tile" where
  "installed v b clock t = t\<lparr>tPainting := None, tPixels := Some b, tBytes := bufLen b, tVersion := v,
     tState := TileValid, tAttempts := 0, tLastUsed := clock\<rparr>"

lemma installed_fields [simp]:
  "tPainting (installed v b k t) = None" "tState (installed v b k t) = TileValid" "tPixels (installed v b k t) = Some b"
  "tBytes (installed v b k t) = bufLen b" "tCoord (installed v b k t) = tCoord t" "tBounds (installed v b k t) = tBounds t"
  "tVersion (installed v b k t) = v" "tAttempts (installed v b k t) = 0"
  by (simp_all add: installed_def)

text \<open>
  A finished raster replaces the pixels the tile had; those, and only those, go back to the pool.
\<close>

lemma install_ok:
  assumes ok: "grid_ok g" and t: "gTiles g c = Some t" "tPainting t = Some b"
  shows "grid_ok (install c v b g)" "lru (install c v b g) = c # remove1 c (lru g)"
    "core (install c v b g) = (core g)(c \<mapsto> installed v b (gClock g) (clear_links t))"
    "gUsed (install c v b g) = gUsed g - tBytes t"
    "gPainting (install c v b g) = gPainting g - tile_bytes (gTileSize g)"
    "gTileSize (install c v b g) = gTileSize g" "gExtent (install c v b g) = gExtent g"
    "gBudget (install c v b g) = gBudget g" "gClock (install c v b g) = gClock g"
    "gKeys (install c v b g) = gKeys g"
proof -
  note D = grid_ok_D[OF ok]
  have tok: "tile_ok (gTileSize g) c t" by (rule grid_ok_tile[OF ok t(1)])
  then have buf: "tile_buf (gTileSize g) b" using t(2) by (simp add: tile_ok_def)
  then have len: "bufLen b = tile_bytes (gTileSize g)" using D(4) by (simp add: tile_buf_def)
  have bytes: "tBytes t = (if tPixels t = None then 0 else tile_bytes (gTileSize g))"
    using tok D(4) by (simp add: tile_ok_def)
  define g1 where "g1 = (upd_tile c (\<lambda>t. t\<lparr>tPainting := None\<rparr>) g)\<lparr>gPainting := gPainting g - bufLen b\<rparr>"
  define g2 where "g2 = (case tPixels t of
                 None \<Rightarrow> g1
               | Some old \<Rightarrow>
                  (let g = g1\<lparr>gUsed := gUsed g1 - tBytes t\<rparr>;
                       g = upd_tile c (\<lambda>t. t\<lparr>tPixels := None, tBytes := 0\<rparr>) g
                   in g\<lparr>gPool := pool_release (Some old) (gPool g)\<rparr>))"
  define g3 where "g3 = (upd_tile c (\<lambda>t. t\<lparr>tPixels := Some b, tBytes := bufLen b, tVersion := v\<rparr>) g2)
      \<lparr>gRasterized := gRasterized g2 + 1\<rparr>"
  define g4 where "g4 = upd_tile c (\<lambda>t. t\<lparr>tAttempts := 0, tLastUsed := gClock g3\<rparr>) (set_state c TileValid g3)"
  have t1: "tile_at g1 c = t\<lparr>tPainting := None\<rparr>" by (simp add: g1_def tile_at_def t)
  have eq: "install c v b g = link_front c g4"
    unfolding install_def g4_def g3_def g2_def Let_def
    by (simp add: g1_def tile_at_def t split: option.split)
  have fields: "gTileSize g4 = gTileSize g" "gExtent g4 = gExtent g" "gBudget g4 = gBudget g" "gClock g4 = gClock g"
    "gKeys g4 = gKeys g"
    by (simp_all add: g4_def g3_def g2_def g1_def Let_def split: option.split)
  then show F: "gTileSize (install c v b g) = gTileSize g" "gExtent (install c v b g) = gExtent g"
    "gBudget (install c v b g) = gBudget g" "gClock (install c v b g) = gClock g" "gKeys (install c v b g) = gKeys g"
    by (simp_all add: eq)
  show used: "gUsed (install c v b g) = gUsed g - tBytes t"
    using bytes by (simp add: eq g4_def g3_def g2_def g1_def Let_def split: option.split)
  show painting: "gPainting (install c v b g) = gPainting g - tile_bytes (gTileSize g)"
    by (simp add: eq g4_def g3_def g2_def g1_def Let_def len split: option.split)
  have clk: "gClock g3 = gClock g" by (simp add: g3_def g2_def g1_def Let_def split: option.split)
  have t3: "gTiles g3 c = Some (t\<lparr>tPainting := None, tPixels := Some b, tBytes := bufLen b, tVersion := v\<rparr>)"
    by (cases "tPixels t") (simp_all add: g3_def g2_def g1_def Let_def t)
  have t4: "gTiles g4 c = Some (t\<lparr>tPainting := None, tPixels := Some b, tBytes := bufLen b, tVersion := v,
      tState := TileValid, tAttempts := 0, tLastUsed := gClock g\<rparr>)"
    by (simp add: g4_def t3 clk)
  have rest: "gTiles g4 d = gTiles g d" if "d \<noteq> c" for d
    using that by (cases "tPixels t") (simp_all add: g4_def g3_def g2_def g1_def Let_def)
  have "core g4 = (core g)(c \<mapsto> installed v b (gClock g) (clear_links t))"
  proof
    fix d show "core g4 d = ((core g)(c \<mapsto> installed v b (gClock g) (clear_links t))) d"
      using rest[of d] t4 by (cases "d = c") (simp_all add: core_def installed_def)
  qed
  then show core: "core (install c v b g) = (core g)(c \<mapsto> installed v b (gClock g) (clear_links t))"
    by (simp add: eq)
  have counts: "gCounts (install c v b g) = count_move (tState t) TileValid (gCounts g)"
    by (cases "tPixels t") (simp_all add: eq g4_def tile_at_Some[OF t3], simp_all add: g3_def g2_def g1_def Let_def)
  have links: "links_of g4 = links_of g"
    by (cases "tPixels t") (simp_all add: g4_def g3_def g2_def g1_def links_of_upd_tile Let_def)
  have pool: "gPool (install c v b g) = (case tPixels t of None \<Rightarrow> gPool g | Some old \<Rightarrow> pool_release (Some old) (gPool g))"
    by (simp add: eq g4_def g3_def g2_def g1_def Let_def split: option.split)
  have st: "static_ok g" using ok by (simp add: grid_ok_def)
  have "grid_ok (install c v b g) \<and> lru (install c v b g) = c # remove1 c (lru g)"
  proof (rule grid_ok_change[OF ok t(1) core])
    show "static_ok (install c v b g)"
    proof (cases "tPixels t")
      case None
      with st show ?thesis by (simp add: static_ok_def pool F)
    next
      case (Some old)
      then have "tile_buf (gTileSize g) old" using tok by (simp add: tile_ok_def)
      from static_release[OF st this] Some show ?thesis by (simp add: static_ok_def pool F)
    qed
    show "tile_ok (gTileSize g) c (installed v b (gClock g) (clear_links t))"
      using tok buf len D(4) by (auto simp: tile_ok_def)
    have "dom (gTiles g4) = dom (gTiles g)" using rest t t4 by (auto simp: dom_def) (metis option.simps(3))+
    then show "dll (links_of (install c v b g)) (c # remove1 c (lru g))"
      unfolding eq using D(5,7) t(1) by (intro link_front_moves) (auto simp: links)
    show "set (c # remove1 c (lru g)) = (if tPixels (installed v b (gClock g) (clear_links t)) = None
        then set (lru g) - {c} else insert c (set (lru g)))"
      using D(10) by auto
    show "bp.exclusive (gPool (install c v b g))
        (total tile_bufs ((core g)(c \<mapsto> installed v b (gClock g) (clear_links t))))"
    proof (cases "tPixels t")
      case None
      then show ?thesis
        using owners_same[OF ok t(1), of "installed v b (gClock g) (clear_links t)"] t(2)
        by (simp add: pool tile_bufs_def opt_mset_def)
    next
      case (Some old)
      then show ?thesis
        using owners_give[OF ok t(1), of old "installed v b (gClock g) (clear_links t)"] t(2)
        by (simp add: pool tile_bufs_def opt_mset_def)
    qed
  qed (simp_all add: used painting counts len held_bytes_def painting_bytes_def t(2), simp_all add: eq fields)
  then show "grid_ok (install c v b g)" "lru (install c v b g) = c # remove1 c (lru g)" by auto
qed

lemma mark_valid_cases:
  "(\<exists>t b. gTiles g c = Some t \<and> pixels = Some b \<and> tPainting t = Some b \<and> mark_valid c v pixels g = (True, install c v b g))
   \<or> \<not> (pixels \<noteq> None \<and> gTiles g c \<noteq> None \<and> tPainting (tile_at g c) = pixels)
     \<and> mark_valid c v pixels g = (False, g\<lparr>gDroppedLate := gDroppedLate g + 1\<rparr>)"
  by (cases "gTiles g c"; cases pixels) (auto simp: mark_valid_def tile_at_def)

lemma mark_valid_ok: "grid_ok g \<Longrightarrow> grid_ok (snd (mark_valid c v pixels g))"
  using mark_valid_cases[of g c pixels v] install_ok(1) by auto

lemma mark_failed_ok:
  assumes ok: "grid_ok g"
  shows "grid_ok (mark_failed c g)" "lru (mark_failed c g) = remove1 c (lru g)"
proof -
  have "grid_ok (mark_failed c g) \<and> lru (mark_failed c g) = remove1 c (lru g)"
  proof (cases "gTiles g c")
    case None
    then have "c \<notin> set (lru g)" using grid_ok_D(7)[OF ok] by auto
    with None ok show ?thesis by (simp add: mark_failed_def remove1_idem)
  next
    case (Some t)
    show ?thesis
    proof (cases "tPixels t")
      case None
      then have "c \<notin> set (lru g)" using Some by (simp add: in_lru_pixels[OF ok] grid_pixels_def)
      moreover have "grid_ok (set_state c TileFailed g) \<and> lru (set_state c TileFailed g) = lru g"
        using None by (intro set_state_ok[OF ok Some]) auto
      ultimately show ?thesis using Some None by (simp add: mark_failed_def remove1_idem)
    next
      case pix: (Some p)
      then have c: "c \<in> set (lru g)" using Some by (simp add: in_lru_pixels[OF ok] grid_pixels_def)
      note dp = drop_pixels_ok[OF ok c]
      have "core (drop_pixels c g) c = Some (dropped (clear_links t))"
        unfolding dp(3) using core_Some[OF Some] by simp
      then obtain u where u: "gTiles (drop_pixels c g) c = Some u" "tPixels u = None"
        by (metis core_tile_at(2,7) dropped_def tile.select_convs(5) tile.surjective tile.update_convs(5,6,3,7) tile_at_Some)
      have "grid_ok (set_state c TileFailed (drop_pixels c g)) \<and> lru (set_state c TileFailed (drop_pixels c g)) = lru (drop_pixels c g)"
        using u(2) by (intro set_state_ok[OF dp(1) u(1)]) auto
      then show ?thesis using Some pix dp(2) by (simp add: mark_failed_def)
    qed
  qed
  then show "grid_ok (mark_failed c g)" "lru (mark_failed c g) = remove1 c (lru g)" by auto
qed

text \<open>The buffer a caller may hand back for a tile: none, the one on order for it, or its own pixels.\<close>

definition returnable :: "grid \<Rightarrow> tile_coord \<Rightarrow> buf option \<Rightarrow> bool" where
  "returnable g c bo \<longleftrightarrow> bo = None \<or> (\<exists>t. gTiles g c = Some t \<and> (tPainting t = bo \<or> tPixels t = bo))"

lemma release_on_order:
  assumes ok: "grid_ok g" and t: "gTiles g c = Some t" "tPainting t = Some b"
  defines "h \<equiv> snd (grid_release c (Some b) g)"
  shows "grid_ok h" "lru h = lru g" "core h = (core g)(c \<mapsto> (clear_links t)\<lparr>tPainting := None\<rparr>)"
    "gUsed h = gUsed g - tile_bytes (gTileSize g)" "gPainting h = gPainting g - tile_bytes (gTileSize g)"
    "gTileSize h = gTileSize g" "gExtent h = gExtent g" "gBudget h = gBudget g" "gClock h = gClock g"
    "gKeys h = gKeys g" "fst (grid_release c (Some b) g)"
proof -
  have tok: "tile_ok (gTileSize g) c t" by (rule grid_ok_tile[OF ok t(1)])
  then have buf: "tile_buf (gTileSize g) b" using t(2) by (simp add: tile_ok_def)
  then have len: "bufLen b = tile_bytes (gTileSize g)"
    using grid_ok_D(4)[OF ok] by (simp add: tile_buf_def)
  define k where "k = (upd_tile c (\<lambda>t. t\<lparr>tPainting := None\<rparr>) g)
     \<lparr>gPainting := gPainting g - bufLen b, gUsed := gUsed g - bufLen b\<rparr>"
  have h: "h = k\<lparr>gPool := pool_release (Some b) (gPool g)\<rparr>"
    by (simp add: h_def grid_release_def t k_def Let_def)
  show "fst (grid_release c (Some b) g)" by (simp add: grid_release_def t Let_def)
  show fields: "gUsed h = gUsed g - tile_bytes (gTileSize g)" "gPainting h = gPainting g - tile_bytes (gTileSize g)"
    "gTileSize h = gTileSize g" "gExtent h = gExtent g" "gBudget h = gBudget g" "gClock h = gClock g"
    "gKeys h = gKeys g"
    by (simp_all add: h k_def len)
  show core: "core h = (core g)(c \<mapsto> (clear_links t)\<lparr>tPainting := None\<rparr>)"
    by (simp add: h k_def core_upd_tile[OF t(1)])
  have pool: "gPool h = pool_release (Some b) (gPool g)" by (simp add: h)
  have links: "links_of h = links_of g" by (simp add: h k_def links_of_upd_tile)
  have "grid_ok h \<and> lru h = lru g"
  proof (rule grid_ok_change[OF ok t(1) core])
    show "static_ok h"
      using static_release[OF _ buf] ok by (simp add: grid_ok_def static_ok_def fields pool)
    show "dll (links_of h) (lru g)" using grid_ok_D(5)[OF ok] by (simp add: links)
    show "tile_ok (gTileSize g) c ((clear_links t)\<lparr>tPainting := None\<rparr>)" using tok by (simp add: tile_ok_def)
    have "c \<in> set (lru g) \<longleftrightarrow> tPixels t \<noteq> None"
      using t by (simp add: in_lru_pixels[OF ok] grid_pixels_def)
    then show "set (lru g) = (if tPixels ((clear_links t)\<lparr>tPainting := None\<rparr>) = None
        then set (lru g) - {c} else insert c (set (lru g)))" by auto
    show "bp.exclusive (gPool h) (total tile_bufs ((core g)(c \<mapsto> (clear_links t)\<lparr>tPainting := None\<rparr>)))"
      unfolding pool by (rule owners_give[OF ok t(1)]) (simp add: tile_bufs_def opt_mset_def t(2))
  qed (simp_all add: fields held_bytes_def painting_bytes_def t(2), simp add: h k_def)
  then show "grid_ok h" "lru h = lru g" by auto
qed

lemma release_cases:
  assumes "returnable g c bo"
  obtains t b where "gTiles g c = Some t" "tPainting t = Some b" "bo = Some b"
  | "snd (grid_release c bo g) = g" "fst (grid_release c bo g) = False"
  using assms
proof (cases bo)
  case None
  then show thesis by (intro that(2)) (simp_all add: grid_release_def)
next
  case (Some b)
  with assms obtain t where t: "gTiles g c = Some t" "tPainting t = bo \<or> tPixels t = bo"
    by (auto simp: returnable_def)
  show thesis
  proof (cases "tPainting t = Some b")
    case True
    with t Some show thesis by (intro that(1)) auto
  next
    case False
    with t Some show thesis by (intro that(2)) (simp_all add: grid_release_def)
  qed
qed

lemma grid_release_ok:
  "grid_ok g \<Longrightarrow> returnable g c bo \<Longrightarrow> grid_ok (snd (grid_release c bo g)) \<and> lru (snd (grid_release c bo g)) = lru g"
  by (erule release_cases) (use release_on_order in auto)

subsection \<open>Changing the budget\<close>

lemma gTail_lru: "grid_ok g \<Longrightarrow> gTail g = last_opt (lru g)"
  using dll_D(3)[OF grid_ok_D(5), of g] by (simp add: links_of_def)

text \<open>The loop of \<open>SetBudget\<close> ends: every turn takes one tile off the recency list.\<close>

lemma shrink_loop_ok:
  assumes "grid_ok g" "lru g = ys"
  shows "\<exists>g' zs. shrink_loop budget g = Some g' \<and> grid_ok g' \<and> ys = lru g' @ zs
     \<and> (gUsed g' \<le> budget \<or> lru g' = [])
     \<and> gUsed g' = gUsed g - tile_bytes (gTileSize g) * int (length zs)
     \<and> gEvictions g' = gEvictions g + int (length zs)
     \<and> gBudget g' = gBudget g \<and> gPainting g' = gPainting g \<and> gTileSize g' = gTileSize g"
  using assms
proof (induction ys arbitrary: g rule: rev_induct)
  case Nil
  then show ?case
    using gTail_lru[OF Nil(1)] by (subst shrink_loop.simps) (auto intro!: exI[of _ g])
next
  case (snoc v ys)
  show ?case
  proof (cases "gUsed g > budget")
    case False
    then show ?thesis
      using snoc.prems by (subst shrink_loop.simps) (auto intro!: exI[of _ g])
  next
    case True
    let ?h = "(drop_pixels v g)\<lparr>gEvictions := gEvictions g + 1\<rparr>"
    have v: "v \<in> set (lru g)" using snoc.prems(2) by simp
    note dp = drop_pixels_ok[OF snoc.prems(1) v]
    have d: "distinct (ys @ [v])" using grid_ok_D(10)[OF snoc.prems(1)] snoc.prems(2) by simp
    then have "lru ?h = ys" using dp(2) snoc.prems(2) by (simp add: remove1_append)
    moreover have "grid_ok ?h" using dp(1) by simp
    ultimately obtain g' zs where g': "shrink_loop budget ?h = Some g'" "grid_ok g'" "ys = lru g' @ zs"
      "gUsed g' \<le> budget \<or> lru g' = []"
      "gUsed g' = gUsed ?h - tile_bytes (gTileSize ?h) * int (length zs)"
      "gEvictions g' = gEvictions ?h + int (length zs)" "gBudget g' = gBudget ?h" "gPainting g' = gPainting ?h"
      "gTileSize g' = gTileSize ?h"
      using snoc.IH[of ?h] by blast
    have "gTail g = Some v" using gTail_lru[OF snoc.prems(1)] snoc.prems(2) by simp
    then have "shrink_loop budget g = Some g'"
      using True g'(1) by (subst shrink_loop.simps) simp
    with g' dp(4) show ?thesis
      by (intro exI[of _ g'] exI[of _ "zs @ [v]"]) (auto simp: algebra_simps)
  qed
qed

lemma set_budget_ok:
  assumes "grid_ok g"
  shows "\<exists>g' zs. set_budget budget g = Some g' \<and> grid_ok g' \<and> lru g = lru g' @ zs
     \<and> (gUsed g' \<le> gBudget g' \<or> lru g' = []) \<and> gBudget g' = max budget (tile_bytes (gTileSize g))
     \<and> gUsed g' = gUsed g - tile_bytes (gTileSize g) * int (length zs)
     \<and> gEvictions g' = gEvictions g + int (length zs) \<and> gPainting g' = gPainting g \<and> gTileSize g' = gTileSize g"
proof -
  let ?b = "max budget (tile_bytes (gTileSize g))"
  let ?h = "g\<lparr>gBudget := ?b\<rparr>"
  have "lru ?h = lru g" by (simp add: lru_def tile_at_def)
  moreover have "grid_pixels ?h = grid_pixels g" by (simp add: grid_pixels_def fun_eq_iff)
  ultimately have h: "grid_ok ?h" "lru ?h = lru g"
    using assms by (simp_all add: grid_ok_def static_ok_def keys_ok_def lru_ok_def counts_ok_def owners_ok_def)
  have "set_budget budget g = shrink_loop ?b ?h" by (simp add: set_budget_def max_def Let_def)
  with shrink_loop_ok[OF h, of ?b] show ?thesis by auto
qed

subsection \<open>New grids\<close>

lemma new_grid_ok:
  assumes "0 < ts" "ts \<le> 1073741824" "bp.exclusive pl {#}" "plSize pl = Sz ts ts"
    "\<forall>b\<in>set (plIdle pl). tile_buf ts b"
  shows "grid_ok (new_grid ext ts budget pl)" "lru (new_grid ext ts budget pl) = []"
proof -
  define g where "g = new_grid ext ts budget pl"
  have g: "gTileSize g = ts" "gTiles g = (\<lambda>_. None)" "gKeys g = []" "gHead g = None" "gTail g = None"
    "gUsed g = 0" "gPool g = pl" "gPainting g = 0" "gCounts g = (\<lambda>_. 0)" "tile_bytes ts \<le> gBudget g"
    using assms(1) by (simp_all add: g_def new_grid_def prebuild_def Let_def)
  have core: "core g = Map.empty" by (auto simp: core_def g)
  show lru: "lru (new_grid ext ts budget pl) = []" by (simp add: lru_def g flip: g_def)
  have "dll (links_of g) []"
    by (auto simp: dll_def links_of_def g tile_at_def zero_tile_def fun_eq_iff)
  then show "grid_ok (new_grid ext ts budget pl)"
    unfolding g_def[symmetric] using assms lru[folded g_def]
    by (simp add: grid_ok_def static_ok_def keys_ok_def lru_ok_def counts_ok_def owners_ok_def g core total_def
        grid_pixels_def)
qed

end
