(* ===== verification/Grid_Claims.thy ===== *)
theory Grid_Claims
  imports Grid_Budget
begin

text \<open>
  What the tile grid promises its callers, for every grid reachable from
  \<open>NewGrid\<close> by the exported operations, and the two places where the code does not
  do what it says: the version promotion of \<open>Advance\<close> and the attempt count of a
  refused submission.
\<close>

subsection \<open>Operations and reachable grids\<close>

datatype grid_op =
    OTouch tile_coord
  | OTick
  | OInvalidate rect
  | OAdvance nat rect
  | OAcquire tile_coord
  | OMarkValid tile_coord nat "buf option"
  | OMarkFailed tile_coord
  | ORelease tile_coord "buf option"
  | OSetBudget int

fun grid_exec :: "grid_op \<Rightarrow> grid \<Rightarrow> grid option" where
  "grid_exec (OTouch c) g = Some (touch c g)"
| "grid_exec OTick g = Some (tick g)"
| "grid_exec (OInvalidate r) g = Some (snd (invalidate r g))"
| "grid_exec (OAdvance v d) g = Some (snd (advance v d g))"
| "grid_exec (OAcquire c) g = map_option snd (acquire c g)"
| "grid_exec (OMarkValid c v p) g = Some (snd (mark_valid c v p g))"
| "grid_exec (OMarkFailed c) g = Some (mark_failed c g)"
| "grid_exec (ORelease c p) g = Some (snd (grid_release c p g))"
| "grid_exec (OSetBudget n) g = set_budget n g"

text \<open>A caller hands back only buffers the grid gave it.\<close>

definition op_allowed :: "grid_op \<Rightarrow> grid \<Rightarrow> bool" where
  "op_allowed oper g = (case oper of ORelease c p \<Rightarrow> returnable g c p | _ \<Rightarrow> True)"

inductive grid_reach :: "grid \<Rightarrow> grid \<Rightarrow> bool" for g0 where
  start: "grid_reach g0 g0"
| step: "grid_reach g0 g \<Longrightarrow> op_allowed oper g \<Longrightarrow> grid_exec oper g = Some g' \<Longrightarrow> grid_reach g0 g'"

lemma acquire_grid_ok:
  assumes "grid_ok g"
  shows "\<exists>bo g'. acquire c g = Some (bo, g') \<and> grid_ok g'"
  by (rule acquire_ok[OF assms, of c]) (use assms in auto)

lemma grid_exec_ok:
  assumes "grid_ok g" "op_allowed oper g"
  shows "\<exists>g'. grid_exec oper g = Some g' \<and> grid_ok g'"
proof (cases oper)
  case (OAcquire c)
  with acquire_grid_ok[OF assms(1), of c] show ?thesis by auto
next
  case (OSetBudget n)
  with set_budget_ok[OF assms(1), of n] show ?thesis by auto
next
  case (ORelease c p)
  with assms grid_release_ok[OF assms(1), of c p] show ?thesis by (simp add: op_allowed_def)
qed (use assms(1) in \<open>auto simp: touch_ok tick_def invalidate_ok advance_ok mark_valid_ok mark_failed_ok\<close>)

lemma grid_reach_ok: "grid_reach g0 g \<Longrightarrow> grid_ok g0 \<Longrightarrow> grid_ok g"
proof (induction rule: grid_reach.induct)
  case (step g oper g')
  with grid_exec_ok[of g oper] show ?case by auto
qed

lemma new_pool_exclusive: "bp.exclusive (new_bitmap_pool sz n) {#}"
  by (simp add: bp.exclusive_def new_bitmap_pool_def pool_ok_def pool_cap_def)

lemma fresh_grid_ok:
  "0 < ts \<Longrightarrow> ts \<le> 1073741824 \<Longrightarrow> grid_ok (new_grid ext ts budget (new_bitmap_pool (Sz ts ts) n))"
  by (rule new_grid_ok(1)[OF _ _ new_pool_exclusive]) (auto simp: new_bitmap_pool_def)

text \<open>
  Claim C26. From a new grid, every operation returns (no nil dereference, no endless
  eviction) and after any sequence of them the books balance: \<open>used\<close> is the bytes of
  the pixels held plus the buffers on order, the four state counters count the tiles, the
  recency list holds exactly the tiles with pixels, each once, and no buffer has two owners
  among presented pixels, buffers on order and the pool's idle buffers.
\<close>

theorem grid_books_balance:
  assumes "0 < ts" "ts \<le> 1073741824"
    and "grid_reach (new_grid ext ts budget (new_bitmap_pool (Sz ts ts) n)) g"
  shows "gUsed g = total (held_bytes (tile_bytes (gTileSize g))) (core g)
    \<and> gPainting g = total (painting_bytes (tile_bytes (gTileSize g))) (core g)
    \<and> (\<forall>s. gCounts g s = total (in_state s) (core g))
    \<and> distinct (lru g) \<and> set (lru g) = {c. grid_pixels g c \<noteq> None}
    \<and> (\<forall>a. count (total tile_bufs (core g) + image_mset bufId (mset (plIdle (gPool g)))) a \<le> 1)
    \<and> (\<forall>oper. op_allowed oper g \<longrightarrow> (\<exists>g'. grid_exec oper g = Some g'))"
proof -
  have ok: "grid_ok g" by (rule grid_reach_ok[OF assms(3) fresh_grid_ok[OF assms(1,2)]])
  then have "counts_ok g" "owners_ok g" by (auto simp: grid_ok_def)
  moreover have "\<exists>g'. grid_exec oper g = Some g'" if "op_allowed oper g" for oper
    using grid_exec_ok[OF ok that] by blast
  ultimately show ?thesis
    using grid_ok_D(6,10)[OF ok] by (simp add: counts_ok_def owners_ok_def bp.exclusive_def)
qed

definition demo_grid :: grid where
  "demo_grid = new_grid (rect4 0 0 512 512) 256 300000 (new_bitmap_pool (Sz 256 256) 0)"

lemma demo_grid_ok [simp]: "grid_ok demo_grid"
  unfolding demo_grid_def by (rule fresh_grid_ok) auto

definition demo_buf :: "nat \<Rightarrow> buf" where
  "demo_buf a = \<lparr>bufId = a, bufW = 256, bufH = 256, bufStride = 1024, bufLen = 262144\<rparr>"

lemma new_grid_fields [simp]:
  "gTileSize (new_grid ext ts n pl) = (if ts \<le> 0 then TileSize else ts)"
  "gExtent (new_grid ext ts n pl) = rect_canon ext" "gTiles (new_grid ext ts n pl) = (\<lambda>_. None)"
  "gKeys (new_grid ext ts n pl) = []" "gHead (new_grid ext ts n pl) = None" "gTail (new_grid ext ts n pl) = None"
  "gUsed (new_grid ext ts n pl) = 0" "gPool (new_grid ext ts n pl) = pl" "gPainting (new_grid ext ts n pl) = 0"
  "gCounts (new_grid ext ts n pl) = (\<lambda>_. 0)" "gEvictions (new_grid ext ts n pl) = 0"
  "gBudget (new_grid ext ts n pl) = (let one = tile_bytes (if ts \<le> 0 then TileSize else ts) in if n < one then one else n)"
  by (simp_all add: new_grid_def prebuild_def Let_def)

lemma new_record_eq: "new_record c g = (fresh_tile (gTileSize g) c, g\<lparr>gFree := gFree g - 1\<rparr>)"
  by (cases "gFree g") (simp_all add: new_record_def fresh_tile_def)

lemmas grid_eval = demo_grid_def rect_canon_def new_bitmap_pool_def tile_bytes_def in64_def in32_def Let_def
  acquire_def ensure_def new_record_eq inside_def rect_intersects_def rect_empty_def coord_rect_def evict_for_def
  order_def pool_acquire_def pool_alloc_def new_buf_def tile_at_def set_state_def grid_pixels_def demo_buf_def

lemma demo_acquire: "\<exists>g. acquire (TC 0 0) demo_grid = Some (Some (demo_buf 0), g) \<and> gUsed g = 262144 \<and> gPainting g = 262144
    \<and> tPainting (tile_at g (TC 0 0)) = Some (demo_buf 0) \<and> gTileSize g = 256"
  by (simp add: grid_eval)

theorem grid_books_balance_witness:
  "\<exists>g. grid_reach demo_grid g \<and> gUsed g = 262144 \<and> total (held_bytes 262144) (core g) = 262144"
proof -
  obtain g where g: "acquire (TC 0 0) demo_grid = Some (Some (demo_buf 0), g)" "gUsed g = 262144" "gTileSize g = 256"
    using demo_acquire by blast
  have "grid_reach demo_grid g"
    by (rule grid_reach.step[OF grid_reach.start, of "OAcquire (TC 0 0)"]) (simp_all add: op_allowed_def g)
  moreover from this have "gUsed g = total (held_bytes (tile_bytes (gTileSize g))) (core g)"
    unfolding demo_grid_def using grid_books_balance[of 256] by simp
  ultimately show ?thesis
    using g by (auto simp: tile_bytes_def in64_def)
qed

subsection \<open>Eviction order\<close>

text \<open>
  Tiles touched this frame are never the next eviction victim while any other
  tile holds pixels: after touching any sequence of tiles, the tail of the recency list is
  an untouched tile, and the least recently used one among them.
\<close>

theorem eviction_spares_touched:
  assumes "grid_ok g" "set ks \<subseteq> set (lru g)" "\<not> set (lru g) \<subseteq> set ks"
  shows "\<exists>v. gTail (fold touch ks g) = Some v \<and> v \<notin> set ks
     \<and> last_opt (filter (\<lambda>c. c \<notin> set ks) (lru g)) = Some v"
proof -
  have ok: "grid_ok (fold touch ks g)" "set (lru (fold touch ks g)) = set (lru g)"
    using gl.uses_ok[OF assms(1,2)] by auto
  then have "lru (fold touch ks g) \<noteq> []" using assms(3) by auto
  then obtain v where v: "last_opt (lru (fold touch ks g)) = Some v" by fastforce
  then have "gTail (fold touch ks g) = Some v" using gTail_lru[OF ok(1)] by simp
  with gl.victim_unused[OF assms v] show ?thesis by blast
qed

text \<open>One tile drawn: acquired, rastered, installed.\<close>

lemma draw_tile:
  assumes "grid_ok g" "inside g c" "\<not> in_flight g c"
  shows "\<exists>b g' g''. acquire c g = Some (Some b, g') \<and> mark_valid c v (Some b) g' = (True, g'')
     \<and> grid_ok g'' \<and> grid_pixels g'' c = Some b \<and> \<not> needs g'' c v \<and> hd_opt (lru g'') = Some c
     \<and> \<not> in_flight g'' c \<and> gPainting g'' = gPainting g
     \<and> gTileSize g'' = gTileSize g \<and> gExtent g'' = gExtent g \<and> gBudget g'' = gBudget g
     \<and> (gUsed g + tile_bytes (gTileSize g) \<le> gBudget g \<longrightarrow> lru g'' = c # remove1 c (lru g)
          \<and> gUsed g'' \<le> gUsed g + tile_bytes (gTileSize g) \<and> (\<forall>d. d \<noteq> c \<longrightarrow> core g'' d = core g d))"
proof (cases rule: acquire_ok[OF assms(1), of c, case_names outside on_order ordered])
  case (ordered b g1 g2 g3 zs t)
  have c3: "core g3 c = Some (order_tile b t)" by (simp add: ordered)
  then obtain u where u: "gTiles g3 c = Some u" "order_tile b t = clear_links u"
    using core_tile_at(7) by blast
  then have pu: "tPainting u = Some b" by (metis clear_links_fields(9) order_tile_fields(1))
  note I = install_ok[OF ordered(14) u(1) pu, of v]
  let ?h = "install c v b g3"
  have mv: "mark_valid c v (Some b) g3 = (True, ?h)"
    by (simp add: mark_valid_def u(1) pu)
  have ch: "core ?h c = Some (installed v b (gClock g3) (clear_links u))" by (simp add: I(3))
  have pix: "grid_pixels ?h c = Some b" by (simp add: core_pixels ch)
  obtain w where w: "gTiles ?h c = Some w" "clear_links w = installed v b (gClock g3) (clear_links u)"
    using core_tile_at(7)[OF ch] by auto
  have "tState w = TileValid" "tVersion w = v" "tPixels w = Some b"
    by (metis clear_links_fields(7,3,5) w(2) installed_fields(2,7,3))+
  then have "\<not> needs ?h c v" by (simp add: needs_def w(1) valid_at_def)
  moreover have "\<not> in_flight ?h c" by (simp add: in_flight_core ch)
  moreover have "gPainting ?h = gPainting g" by (simp add: I(5) ordered(18,19))
  moreover have "0 \<le> tBytes u"
    using grid_ok_tile[OF ordered(14) u(1)] grid_ok_D(2)[OF assms(1)] ordered(19) by (simp add: tile_ok_def)
  then have "gUsed g + tile_bytes (gTileSize g) \<le> gBudget g \<longrightarrow> lru ?h = c # remove1 c (lru g)
      \<and> gUsed ?h \<le> gUsed g + tile_bytes (gTileSize g) \<and> (\<forall>d. d \<noteq> c \<longrightarrow> core ?h d = core g d)"
    using I(2,3,4) ordered by (simp add: same_books_def)
  ultimately show ?thesis
    using ordered(1) mv I(1,2,6,7,8) ordered(19,20,21) pix by (intro exI[of _ b] exI[of _ g3] exI[of _ ?h]) simp
qed (use assms in auto)

text \<open>
  Drawing a tile is a round trip: for a tile of the layer with nothing on order,
  \<open>Acquire\<close> hands out a buffer and \<open>MarkValid\<close> with that buffer installs it:
  the tile shows it, needs nothing more at that version, is the most recently used, is no
  longer in flight, and no bytes stay booked as on order.
\<close>

theorem acquire_then_install:
  assumes "grid_ok g" "inside g c" "\<not> in_flight g c"
  shows "\<exists>b g' g''. acquire c g = Some (Some b, g') \<and> mark_valid c v (Some b) g' = (True, g'')
     \<and> grid_ok g'' \<and> grid_pixels g'' c = Some b \<and> \<not> needs g'' c v \<and> hd_opt (lru g'') = Some c
     \<and> \<not> in_flight g'' c \<and> gPainting g'' = gPainting g
     \<and> (gUsed g + tile_bytes (gTileSize g) \<le> gBudget g \<longrightarrow> lru g'' = c # remove1 c (lru g))"
proof -
  note draw_tile[OF assms, of v]
  then show ?thesis by fast
qed

theorem acquire_then_install_witness:
  "\<exists>b g' g''. acquire (TC 1 1) demo_grid = Some (Some b, g') \<and> mark_valid (TC 1 1) 7 (Some b) g' = (True, g'')
     \<and> \<not> needs g'' (TC 1 1) 7 \<and> lru g'' = [TC 1 1]"
proof -
  have h: "inside demo_grid (TC 1 1)" "\<not> in_flight demo_grid (TC 1 1)"
    "gUsed demo_grid + tile_bytes (gTileSize demo_grid) \<le> gBudget demo_grid" "lru demo_grid = []"
    by (simp_all add: grid_eval in_flight_def lru_def)
  show ?thesis using acquire_then_install[OF demo_grid_ok h(1,2), of 7] h(3,4) by auto
qed

text \<open>Two tiles drawn one after the other.\<close>

lemma two_drawn: "\<exists>g. grid_ok g \<and> lru g = [TC 1 0, TC 0 0]"
proof -
  define g0 where "g0 = new_grid (rect4 0 0 512 512) 256 600000 (new_bitmap_pool (Sz 256 256) 0)"
  have g0: "grid_ok g0" unfolding g0_def by (rule fresh_grid_ok) auto
  have in0: "inside g0 (TC 0 0)" "inside g0 (TC 1 0)" "\<And>c. \<not> in_flight g0 c" "lru g0 = []"
    "gUsed g0 + tile_bytes (gTileSize g0) \<le> gBudget g0" "gUsed g0 + 2 * tile_bytes (gTileSize g0) \<le> gBudget g0"
    by (simp_all add: g0_def grid_eval in_flight_def lru_def)
  obtain g1 where g1: "grid_ok g1" "lru g1 = [TC 0 0]" "gTileSize g1 = gTileSize g0" "gExtent g1 = gExtent g0"
    "gBudget g1 = gBudget g0" "gUsed g1 \<le> gUsed g0 + tile_bytes (gTileSize g0)"
    "\<forall>d. d \<noteq> TC 0 0 \<longrightarrow> core g1 d = core g0 d"
    using draw_tile[OF g0 in0(1,3), of 1] in0(4,5) by auto
  have "inside g1 (TC 1 0)" using in0(2) g1(3,4) by (simp add: inside_def)
  moreover have "core g1 (TC 1 0) = core g0 (TC 1 0)" using g1(7) by simp
  then have "\<not> in_flight g1 (TC 1 0)" using in0(3)[of "TC 1 0"] by (simp add: in_flight_core)
  ultimately obtain g2 where "grid_ok g2" "lru g2 = TC 1 0 # remove1 (TC 1 0) (lru g1)"
    using draw_tile[OF g1(1), of "TC 1 0" 1] g1(3,5,6) in0(6) by auto
  then show ?thesis using g1(2) by auto
qed

theorem eviction_spares_touched_witness:
  "\<exists>g. lru g = [TC 1 0, TC 0 0] \<and> gTail g = Some (TC 0 0) \<and> gTail (fold touch [TC 0 0] g) = Some (TC 1 0)"
proof -
  obtain g where g: "grid_ok g" "lru g = [TC 1 0, TC 0 0]" using two_drawn by blast
  show ?thesis
    using eviction_spares_touched[OF g(1), of "[TC 0 0]"] g gTail_lru[OF g(1)] by auto
qed

text \<open>
  Claim C29. \<open>Acquire\<close> separates reader and writer: the buffer it hands to a worker is no
  tile's presented pixels and nobody else's order, the tile being redrawn keeps showing its
  old pixels, and the only other tiles to lose theirs are an end piece of the recency list,
  taken only as far as the budget forces.
\<close>

theorem acquire_never_disturbs:
  assumes "grid_ok g" "acquire c g = Some (Some b, g')" "\<not> in_flight g c"
  shows "(\<forall>d p. grid_pixels g' d = Some p \<longrightarrow> bufId p \<noteq> bufId b)
     \<and> (\<forall>d q. d \<noteq> c \<and> tPainting (tile_at g' d) = Some q \<longrightarrow> bufId q \<noteq> bufId b)
     \<and> grid_pixels g' c = grid_pixels g c \<and> tPainting (tile_at g' c) = Some b
     \<and> (\<exists>ys zs. lru g = ys @ zs \<and> lru g' = ys @ filter (\<lambda>d. d = c) zs
          \<and> (\<forall>d. grid_pixels g' d = (if d \<in> set zs \<and> d \<noteq> c then None else grid_pixels g d))
          \<and> (zs \<noteq> [] \<longrightarrow> gBudget g < gUsed g' + tile_bytes (gTileSize g)))"
proof (cases rule: acquire_ok[OF assms(1), of c, case_names outside on_order ordered])
  case (ordered b0 g1 g2 g3 zs t)
  have eq: "b0 = b" "g3 = g'" using ordered(1) assms(2) by auto
  have fin: "finite (dom (core g2))" by (rule grid_ok_D(1)[OF ordered(9)])
  have notin: "bufId b \<notin># tile_bufs u" if "core g2 d = Some u" for d u
  proof -
    have "tile_bufs u \<subseteq># total tile_bufs (core g2)"
      unfolding total_def using that fin by (subst sum.remove[of _ d]) (auto simp del: dom_core)
    with ordered(23) eq(1) show ?thesis by (auto dest: mset_subset_eqD)
  qed
  have c2: "core g2 c = Some t" using ordered(6,10) by (simp add: evicted_def)
  have pix1: "grid_pixels g1 d = grid_pixels g d" for d
    using ordered(6,8) by (auto simp: core_pixels)
  have pix2: "grid_pixels g2 d = (if d \<in> set zs \<and> d \<noteq> c then None else grid_pixels g1 d)" for d
    using ordered(10) by (cases "core g1 d") (auto simp: core_pixels evicted_def dropped_def)
  have pix3: "grid_pixels g' d = grid_pixels g2 d" for d
    using ordered(16) eq c2 by (auto simp: core_pixels)
  have "bufId p \<noteq> bufId b" if p: "grid_pixels g' d = Some p" for d p
  proof -
    from p obtain u where "core g2 d = Some u" "tPixels u = Some p"
      unfolding pix3 by (auto simp: core_pixels bind_eq_Some_conv)
    with notin[of d u] show ?thesis by (auto simp: tile_bufs_def opt_mset_def)
  qed
  moreover have "bufId q \<noteq> bufId b" if q: "d \<noteq> c" "tPainting (tile_at g' d) = Some q" for d q
  proof (cases "core g' d")
    case None
    then show ?thesis using q(2) by (simp add: core_None tile_at_def zero_tile_def)
  next
    case (Some u)
    then have "core g2 d = Some u" "tPainting u = Some q"
      using q core_tile_at(1)[OF Some] ordered(16) eq by auto
    with notin[of d u] show ?thesis by (auto simp: tile_bufs_def opt_mset_def)
  qed
  moreover have "tPainting (tile_at g' c) = Some b"
    using core_tile_at(1)[of g' c "order_tile b t"] ordered(16) eq by simp
  moreover have "grid_pixels g' c = grid_pixels g c" by (simp add: pix1 pix2 pix3)
  moreover obtain ys where "lru g1 = ys @ zs" "lru g2 = ys @ filter (\<lambda>d. d = c) zs"
    using ordered(10) by (auto simp: evicted_def)
  ultimately show ?thesis
    using ordered(4,12,15,17) eq by (intro conjI exI[of _ ys] exI[of _ zs]) (auto simp: pix1 pix2 pix3)
qed (use assms in auto)

theorem acquire_never_disturbs_witness:
  "\<exists>b g'. acquire (TC 0 0) demo_grid = Some (Some b, g') \<and> grid_pixels g' (TC 0 0) = None
     \<and> tPainting (tile_at g' (TC 0 0)) = Some b"
proof -
  obtain b g' where a: "acquire (TC 0 0) demo_grid = Some (Some b, g')" using demo_acquire by blast
  have "\<not> in_flight demo_grid (TC 0 0)" "grid_pixels demo_grid (TC 0 0) = None"
    by (simp_all add: in_flight_def grid_eval)
  with acquire_never_disturbs[OF demo_grid_ok a] a show ?thesis by simp
qed

text \<open>
  \<open>SetBudget\<close> returns, raises a budget below one tile to one tile, and on
  return either the grid fits the new budget or no tile has pixels left to drop; the victims
  are exactly an end piece of the recency list, one eviction each.
\<close>

theorem set_budget_enforced:
  assumes "grid_ok g"
  shows "\<exists>g' zs. set_budget n g = Some g' \<and> gBudget g' = max n (tile_bytes (gTileSize g))
     \<and> (gUsed g' \<le> gBudget g' \<or> lru g' = []) \<and> lru g = lru g' @ zs
     \<and> gEvictions g' = gEvictions g + int (length zs)
     \<and> gUsed g' = gUsed g - tile_bytes (gTileSize g) * int (length zs)"
  using set_budget_ok[OF assms, of n] by blast

theorem set_budget_enforced_witness:
  "\<exists>g'. set_budget 5 demo_grid = Some g' \<and> gBudget g' = 262144"
  using set_budget_enforced[OF demo_grid_ok, of 5] by (auto simp: grid_eval)

text \<open>
  \<open>MarkValid\<close> accepts exactly the buffer on order for the tile; then the tile
  shows that buffer, current at the reported version, and every other tile keeps its pixels.
  Any other result is refused and changes no tile at all.
\<close>

theorem mark_valid_swaps_or_refuses:
  assumes "grid_ok g" "mark_valid c v (Some b) g = (taken, g')"
  shows "(taken \<longleftrightarrow> tPainting (tile_at g c) = Some b)
     \<and> (taken \<longrightarrow> valid_at (gTiles g' c) v \<and> grid_pixels g' c = Some b \<and> \<not> in_flight g' c
          \<and> (\<forall>d. d \<noteq> c \<longrightarrow> core g' d = core g d) \<and> gUsed g' \<le> gUsed g)
     \<and> (\<not> taken \<longrightarrow> gTiles g' = gTiles g \<and> gUsed g' = gUsed g \<and> gPool g' = gPool g)"
proof (cases "tPainting (tile_at g c) = Some b")
  case True
  then obtain t where t: "gTiles g c = Some t" "tPainting t = Some b"
    by (auto simp: tile_at_def zero_tile_def split: option.splits)
  then have g': "taken" "g' = install c v b g" using assms(2) by (auto simp: mark_valid_def)
  note I = install_ok[OF assms(1) t, of v]
  have c: "core g' c = Some (installed v b (gClock g) (clear_links t))" by (simp add: g'(2) I(3))
  then obtain w where w: "gTiles g' c = Some w" "installed v b (gClock g) (clear_links t) = clear_links w"
    using core_tile_at(7) by blast
  have "tState w = TileValid" "tVersion w = v" "tPixels w = Some b"
    by (metis clear_links_fields(7,3,5) w(2) installed_fields(2,7,3))+
  then have "valid_at (gTiles g' c) v" by (simp add: w(1) valid_at_def)
  moreover have "grid_pixels g' c = Some b" "\<not> in_flight g' c" by (simp_all add: core_pixels in_flight_core c)
  moreover have "0 \<le> tBytes t"
    using grid_ok_tile[OF assms(1) t(1)] grid_ok_D(2)[OF assms(1)] by (simp add: tile_ok_def)
  ultimately show ?thesis using True g' I(3,4) by simp
next
  case False
  then have "\<not> taken" "g' = g\<lparr>gDroppedLate := gDroppedLate g + 1\<rparr>"
    using assms(2) mark_valid_cases[of g c "Some b" v] by (auto simp: tile_at_Some)
  with False show ?thesis by simp
qed

theorem mark_valid_swaps_or_refuses_witness:
  "\<exists>b g' g''. acquire (TC 0 0) demo_grid = Some (Some b, g') \<and> mark_valid (TC 0 0) 3 (Some b) g' = (True, g'')
     \<and> grid_pixels g'' (TC 0 0) = Some b"
proof -
  obtain g' where a: "acquire (TC 0 0) demo_grid = Some (Some (demo_buf 0), g')"
    "tPainting (tile_at g' (TC 0 0)) = Some (demo_buf 0)"
    using demo_acquire by blast
  have ok: "grid_ok g'" using acquire_grid_ok[OF demo_grid_ok, of "TC 0 0"] a(1) by auto
  obtain taken g'' where m: "mark_valid (TC 0 0) 3 (Some (demo_buf 0)) g' = (taken, g'')"
    by (cases "mark_valid (TC 0 0) 3 (Some (demo_buf 0)) g'")
  show ?thesis
    using mark_valid_swaps_or_refuses[OF ok m] a m by auto
qed

subsection \<open>Visible tiles\<close>

lemma set_coords_in:
  "c \<in> set (coords_in lo hi) \<longleftrightarrow> tcCol lo \<le> tcCol c \<and> tcCol c \<le> tcCol hi \<and> tcRow lo \<le> tcRow c \<and> tcRow c \<le> tcRow hi"
  by (cases c) (auto simp: coords_in_def image_iff)

lemma distinct_coords_in: "distinct (coords_in lo hi)"
proof -
  have "distinct (concat (map (\<lambda>row. map (\<lambda>col. TC col row) cs) rs))" if "distinct rs" "distinct cs" for rs cs
    using that by (induction rs) (auto simp: distinct_map inj_on_def)
  then show ?thesis by (simp add: coords_in_def)
qed

lemma strip_meets:
  fixes a b q t :: int
  assumes "0 < t" "a \<le> b"
  shows "a div t \<le> q \<and> q \<le> b div t \<longleftrightarrow> (\<exists>x. a \<le> x \<and> x \<le> b \<and> x div t = q)"
proof
  assume q: "a div t \<le> q \<and> q \<le> b div t"
  show "\<exists>x. a \<le> x \<and> x \<le> b \<and> x div t = q"
  proof (cases "a div t = q")
    case True
    with assms(2) show ?thesis by blast
  next
    case False
    with q have "a div t + 1 \<le> q" by simp
    then have "(a div t + 1) * t \<le> q * t" using assms(1) by (intro mult_right_mono) auto
    moreover have "a < (a div t + 1) * t" using div_eq_iff_strip[OF assms(1), of a "a div t"] by (simp add: algebra_simps)
    moreover have "q * t \<le> b div t * t" using q assms(1) by (intro mult_right_mono) auto
    moreover have "b div t * t \<le> b" using div_eq_iff_strip[OF assms(1), of b "b div t"] by simp
    ultimately have "a \<le> q * t \<and> q * t \<le> b" by linarith
    then show ?thesis using assms(1) by (intro exI[of _ "q * t"]) simp
  qed
qed (use assms in \<open>auto intro: zdiv_mono1\<close>)

lemma coords_covering_exact:
  assumes "0 < gTileSize g" "rect32 r"
  shows "c \<in> set (coords_covering g r) \<longleftrightarrow> (\<exists>p. rect_contains r p \<and> coord_for p (gTileSize g) = c)"
proof (cases "rect_empty r")
  case True
  then show ?thesis by (simp add: coords_covering_def coord_range_def)
next
  case False
  let ?t = "gTileSize g"
  have e: "rX0 r < rX1 r" "rY0 r < rY1 r" using False by (auto simp: rect_empty_def)
  have i: "in32 (rX0 r)" "in32 (rY0 r)" "in32 (rX1 r - 1)" "in32 (rY1 r - 1)"
    using assms(2) e by (auto simp: rect32_def in32_def)
  have cf: "coord_for (Pt x y) ?t = TC (x div ?t) (y div ?t)" if "in32 x" "in32 y" for x y
    using that assms(1) by (simp add: coord_for_def floorDiv_eq_div)
  have "c \<in> set (coords_covering g r) \<longleftrightarrow>
      (rX0 r div ?t \<le> tcCol c \<and> tcCol c \<le> (rX1 r - 1) div ?t)
    \<and> (rY0 r div ?t \<le> tcRow c \<and> tcRow c \<le> (rY1 r - 1) div ?t)"
    using False i by (simp add: coords_covering_def coord_range_def set_coords_in cf conj_assoc)
  also have "\<dots> \<longleftrightarrow> (\<exists>x. rX0 r \<le> x \<and> x \<le> rX1 r - 1 \<and> x div ?t = tcCol c)
      \<and> (\<exists>y. rY0 r \<le> y \<and> y \<le> rY1 r - 1 \<and> y div ?t = tcRow c)"
    using e by (simp add: strip_meets[OF assms(1)])
  also have "\<dots> \<longleftrightarrow> (\<exists>p. rect_contains r p \<and> coord_for p ?t = c)"
  proof
    assume "(\<exists>x. rX0 r \<le> x \<and> x \<le> rX1 r - 1 \<and> x div ?t = tcCol c)
      \<and> (\<exists>y. rY0 r \<le> y \<and> y \<le> rY1 r - 1 \<and> y div ?t = tcRow c)"
    then obtain x y where xy: "rX0 r \<le> x" "x \<le> rX1 r - 1" "x div ?t = tcCol c"
      "rY0 r \<le> y" "y \<le> rY1 r - 1" "y div ?t = tcRow c" by blast
    then have "coord_for (Pt x y) ?t = c" using i by (cases c) (simp add: cf in32_def)
    with xy show "\<exists>p. rect_contains r p \<and> coord_for p ?t = c"
      by (intro exI[of _ "Pt x y"]) (simp add: rect_contains_def)
  next
    assume "\<exists>p. rect_contains r p \<and> coord_for p ?t = c"
    then obtain x y where p: "rect_contains r (Pt x y)" "coord_for (Pt x y) ?t = c"
      by (metis point.surjective old.unit.exhaust)
    then have "in32 x" "in32 y" using i by (auto simp: rect_contains_def in32_def)
    with p show "(\<exists>x. rX0 r \<le> x \<and> x \<le> rX1 r - 1 \<and> x div ?t = tcCol c)
      \<and> (\<exists>y. rY0 r \<le> y \<and> y \<le> rY1 r - 1 \<and> y div ?t = tcRow c)"
      by (auto simp: cf rect_contains_def)
  qed
  finally show ?thesis .
qed

lemma coords_covering_distinct: "distinct (coords_covering g r)"
  by (auto simp: coords_covering_def coord_range_def distinct_coords_in split: option.split)

text \<open>
  \<open>VisibleCoords\<close> lists, each once, exactly the tiles that cover a pixel of the
  viewport inside the layer, and \<open>PrefetchCoords\<close> exactly those that cover a pixel of the
  prefetch band inside the layer.
\<close>

theorem visible_coords_exact:
  assumes "0 < gTileSize g" "rect32 (gExtent g)" "rect32 (viewport_rect vp)" "rect32 (prefetch_band g vp d n)"
    and "0 < n" "pX d \<noteq> 0 \<or> pY d \<noteq> 0"
  shows "distinct (visible_coords g vp) \<and> distinct (prefetch_coords g vp d n)
    \<and> (\<forall>c. c \<in> set (visible_coords g vp) \<longleftrightarrow>
          (\<exists>p. viewport_contains vp p \<and> rect_contains (gExtent g) p \<and> coord_for p (gTileSize g) = c))
    \<and> (\<forall>c. c \<in> set (prefetch_coords g vp d n) \<longleftrightarrow>
          (\<exists>p. rect_contains (prefetch_band g vp d n) p \<and> rect_contains (gExtent g) p \<and> coord_for p (gTileSize g) = c))"
  using assms coords_covering_exact[OF assms(1) rect32_intersection[OF assms(3,2)]]
    coords_covering_exact[OF assms(1) rect32_intersection[OF assms(4,2)]]
  by (auto simp: visible_coords_def prefetch_coords_def coords_covering_distinct viewport_contains_def)

theorem visible_coords_exact_witness:
  "TC 1 0 \<in> set (visible_coords demo_grid \<lparr>vOffset = Pt 100 (- 50), vSize = Sz 200 200\<rparr>)
   \<and> TC 1 1 \<in> set (prefetch_coords demo_grid \<lparr>vOffset = Pt 100 100, vSize = Sz 200 200\<rparr> (Pt 0 1) 1)"
proof -
  have h: "0 < gTileSize demo_grid" "rect32 (gExtent demo_grid)" "gTileSize demo_grid = 256"
    by (simp_all add: grid_eval rect32_def)
  have "rect_contains (rect4 100 (- 50) 300 150) (Pt 260 10)" "rect_contains (gExtent demo_grid) (Pt 260 10)"
    "coord_for (Pt 260 10) 256 = TC 1 0" "coord_for (Pt 260 310) 256 = TC 1 1"
    "rect_contains (rect4 100 300 300 556) (Pt 260 310)" "rect_contains (gExtent demo_grid) (Pt 260 310)"
    by (simp_all add: rect_contains_def grid_eval coord_for_def floorDiv_def signed_divide_int_def
        signed_modulo_int_def)
  moreover have "viewport_rect \<lparr>vOffset = Pt 100 (- 50), vSize = Sz 200 200\<rparr> = rect4 100 (- 50) 300 150"
    "prefetch_band demo_grid \<lparr>vOffset = Pt 100 100, vSize = Sz 200 200\<rparr> (Pt 0 1) 1 = rect4 100 300 300 556"
    "prefetch_band demo_grid \<lparr>vOffset = Pt 100 (- 50), vSize = Sz 200 200\<rparr> (Pt 0 1) 1 = rect4 100 150 300 406"
    "viewport_rect \<lparr>vOffset = Pt 100 100, vSize = Sz 200 200\<rparr> = rect4 100 100 300 300"
    by (simp_all add: viewport_rect_def rect_at_def rect4_def prefetch_band_def h in32_def Let_def)
  ultimately show ?thesis
    using visible_coords_exact[of demo_grid "\<lparr>vOffset = Pt 100 (- 50), vSize = Sz 200 200\<rparr>" "Pt 0 1" 1]
      visible_coords_exact[of demo_grid "\<lparr>vOffset = Pt 100 100, vSize = Sz 200 200\<rparr>" "Pt 0 1" 1] h
    by (auto simp: viewport_contains_def rect32_def in32_def)
qed

subsection \<open>Content versions\<close>

text \<open>What \<open>Advance\<close> makes of one tile.\<close>

definition advanced :: "nat \<Rightarrow> bool \<Rightarrow> tile \<Rightarrow> tile" where
  "advanced v hit t =
     (if v \<le> tVersion t then t
      else if hit
      then (if tPixels t \<noteq> None \<and> tState t \<noteq> TileStale then t\<lparr>tState := TileStale, tAttempts := 0\<rparr>
            else if tState t = TileFailed then t\<lparr>tState := TileEmpty, tAttempts := 0\<rparr> else t)
      else t\<lparr>tVersion := v, tAttempts := 0, tState :=
             (if tPixels t \<noteq> None then TileValid else if tState t = TileFailed then TileEmpty else tState t)\<rparr>)"

lemma gTiles_advance_tile:
  assumes "gTiles g c = Some t"
  shows "gTiles (snd (advance_tile v d c (n, g)))
    = (gTiles g)(c \<mapsto> advanced v (rect_intersects (coord_rect c (gTileSize g)) d) t)"
  using assms by (auto simp: advance_tile_def tile_at_Some advanced_def Let_def fun_eq_iff)

lemma gTileSize_advance_tile [simp]:
  "gTileSize (snd (advance_tile v d c (n, g))) = gTileSize g" "gExtent (snd (advance_tile v d c (n, g))) = gExtent g"
  by (auto simp: advance_tile_def Let_def)

lemma gTiles_advance_fold:
  assumes "distinct cs" "set cs \<subseteq> dom (gTiles g)"
  shows "gTiles (snd (fold (advance_tile v d) cs (n, g))) c = (if c \<in> set cs
      then map_option (advanced v (rect_intersects (coord_rect c (gTileSize g)) d)) (gTiles g c) else gTiles g c)
    \<and> gTileSize (snd (fold (advance_tile v d) cs (n, g))) = gTileSize g
    \<and> gExtent (snd (fold (advance_tile v d) cs (n, g))) = gExtent g"
  using assms
proof (induction cs arbitrary: n g)
  case (Cons b cs)
  obtain t where t: "gTiles g b = Some t" using Cons.prems(2) by auto
  obtain m h where h: "advance_tile v d b (n, g) = (m, h)" by (cases "advance_tile v d b (n, g)")
  have hT: "gTiles h = (gTiles g)(b \<mapsto> advanced v (rect_intersects (coord_rect b (gTileSize g)) d) t)"
    using gTiles_advance_tile[OF t, of v d n] h by simp
  have hS: "gTileSize h = gTileSize g" "gExtent h = gExtent g"
    using gTileSize_advance_tile[of v d b n g] h by simp_all
  have "distinct cs" "set cs \<subseteq> dom (gTiles h)" using Cons.prems unfolding hT by auto
  from Cons.IH[OF this, of m] Cons.prems(1) h hS t show ?case
    by (auto simp: hT)
qed simp

lemma advance_tiles:
  assumes "grid_ok g"
  shows "gTiles (snd (advance v d g)) c =
      map_option (advanced v (rect_intersects (coord_rect c (gTileSize g)) d)) (gTiles g c)"
    "gTileSize (snd (advance v d g)) = gTileSize g" "gExtent (snd (advance v d g)) = gExtent g"
proof -
  have "c \<notin> set (gKeys g) \<Longrightarrow> gTiles g c = None" using grid_ok_D(9)[OF assms] by auto
  with gTiles_advance_fold[of "gKeys g" g v d 0 c] grid_ok_D(8,9)[OF assms]
  show "gTiles (snd (advance v d g)) c =
      map_option (advanced v (rect_intersects (coord_rect c (gTileSize g)) d)) (gTiles g c)"
    "gTileSize (snd (advance v d g)) = gTileSize g" "gExtent (snd (advance v d g)) = gExtent g"
    by (auto simp: advance_def)
qed

text \<open>
  \<open>Advance\<close> drops no pixels, and when content moves to a newer version a tile of
  the layer has to be redrawn afterwards exactly when the dirty rectangle meets it or it has
  no pixels: what lies outside the dirty rectangle is never rastered again, in whatever order
  the map is ranged over.
\<close>

theorem advance_redraws_only_dirty:
  assumes "grid_ok g" "gTiles g c = Some t" "tVersion t < v" "inside g c"
  shows "grid_pixels (snd (advance v dirty g)) = grid_pixels g
    \<and> (needs (snd (advance v dirty g)) c v \<longleftrightarrow>
         rect_intersects (coord_rect c (gTileSize g)) dirty \<or> grid_pixels g c = None)"
proof -
  note A = advance_tiles[OF assms(1), of v dirty]
  have "tPixels (advanced v hit u) = tPixels u" for hit u by (simp add: advanced_def)
  then have "grid_pixels (snd (advance v dirty g)) = grid_pixels g"
    by (auto simp: grid_pixels_def A fun_eq_iff split: option.split)
  moreover have "tState t = TileValid \<longrightarrow> tPixels t \<noteq> None"
    using grid_ok_tile[OF assms(1,2)] by (simp add: tile_ok_def)
  ultimately show ?thesis
    using assms(2,3,4) by (auto simp: needs_def A inside_def valid_at_def advanced_def grid_pixels_def)
qed

theorem advance_redraws_only_dirty_witness:
  "\<exists>g t. gTiles g (TC 0 0) = Some t \<and> \<not> needs (snd (advance 2 (rect4 300 300 310 310) g)) (TC 0 0) 2
     \<and> needs (snd (advance 2 (rect4 10 10 20 20) g)) (TC 0 0) 2"
proof -
  have h: "inside demo_grid (TC 0 0)" "\<not> in_flight demo_grid (TC 0 0)" "gTileSize demo_grid = 256"
    by (simp_all add: grid_eval in_flight_def)
  obtain b g1 g where g: "acquire (TC 0 0) demo_grid = Some (Some b, g1)" "mark_valid (TC 0 0) 1 (Some b) g1 = (True, g)"
    "grid_ok g" "grid_pixels g (TC 0 0) = Some b" "gTileSize g = gTileSize demo_grid" "gExtent g = gExtent demo_grid"
    using draw_tile[OF demo_grid_ok h(1,2), of 1] by auto
  have "grid_ok g1" using acquire_grid_ok[OF demo_grid_ok, of "TC 0 0"] g(1) by auto
  from mark_valid_cases[of g1 "TC 0 0" "Some b" 1] g(2) obtain t1 where
    t1: "gTiles g1 (TC 0 0) = Some t1" "tPainting t1 = Some b" "g = install (TC 0 0) 1 b g1" by auto
  then have "core g (TC 0 0) = Some (installed 1 b (gClock g1) (clear_links t1))"
    using install_ok(3)[OF \<open>grid_ok g1\<close> t1(1,2)] by simp
  from core_tile_at(5,7)[OF this] obtain t where t: "gTiles g (TC 0 0) = Some t" "tVersion t = 1"
    by (auto simp: tile_at_Some)
  have i: "inside g (TC 0 0)" using h(1) g(5,6) by (simp add: inside_def)
  have r: "coord_rect (TC 0 0) (gTileSize g) = rect4 0 0 256 256"
    using h(3) g(5) by (simp add: coord_rect_def in32_def)
  show ?thesis
    using advance_redraws_only_dirty[OF g(3) t(1) _ i, of 2 "rect4 300 300 310 310"]
      advance_redraws_only_dirty[OF g(3) t(1) _ i, of 2 "rect4 10 10 20 20"] t g(4)
    by (auto simp: r rect_intersects_def rect_empty_def)
qed

text \<open>
  The price of promoting everything outside the rectangle: a tile already stale, showing the
  pixels of an older version, is promoted with them as soon as a later change misses it, and
  is then never redrawn.
\<close>

lemma advance_promotes_stale_pixels:
  assumes "grid_ok g" "gTiles g c = Some t" "tState t = TileStale" "tPixels t = Some p" "tVersion t < v"
    and "\<not> rect_intersects (coord_rect c (gTileSize g)) dirty"
  shows "\<not> needs (snd (advance v dirty g)) c v \<and> grid_pixels (snd (advance v dirty g)) c = Some p"
  using assms by (simp add: needs_def inside_def advance_tiles valid_at_def advanced_def grid_pixels_def)

text \<open>
  A submission the queue refuses spends an attempt all the same: \<open>Acquire\<close> counts it and
  \<open>Release\<close> does not give it back.
\<close>

lemma refused_submission_spends_attempt:
  assumes "grid_ok g" "acquire c g = Some (Some b, g')" "\<not> in_flight g c"
  shows "attempts (snd (grid_release c (Some b) g')) c = attempts g c + 1"
proof (cases rule: acquire_ok[OF assms(1), of c, case_names outside on_order ordered])
  case (ordered b0 g1 g2 g3 zs t)
  have eq: "b0 = b" "g3 = g'" using ordered(1) assms(2) by auto
  have "core g2 c = Some t" using ordered(6,10) by (simp add: evicted_def)
  then have c3: "core g' c = Some (order_tile b t)" using ordered(16) eq by simp
  then obtain u where u: "gTiles g' c = Some u" "order_tile b t = clear_links u" using core_tile_at(7) by blast
  then have "tPainting u = Some b" by (metis clear_links_fields(9) order_tile_fields(1))
  with release_on_order(3)[of g' c u b] u ordered(14) eq
  have "core (snd (grid_release c (Some b) g')) c = Some ((order_tile b t)\<lparr>tPainting := None\<rparr>)" by simp
  from core_tile_at(6,7)[OF this] have "attempts (snd (grid_release c (Some b) g')) c = tAttempts t + 1"
    by (auto simp: attempts_def tile_at_Some)
  moreover have "attempts g c = tAttempts t"
    using ordered(8) by (auto simp: attempts_def core_def split: option.splits)
  ultimately show ?thesis by simp
qed (use assms in auto)

end
