(* ===== verification/Display_List.thy ===== *)
theory Display_List
  imports Bitmaps
begin

text \<open>
  \<open>internal/paint/cmd.go\<close> and \<open>internal/paint/list.go\<close>: display commands, the
  list builder, the frozen list of a layer, the damage between two lists, and the span of
  a list that a tile needs.

  Commands carry floating-point parameters (opacity, gradient stops) and images that this
  code only compares: a float is a \<open>rat\<close>, an image the identity of its pixels
  together with whether its Go type is comparable.
\<close>

subsection \<open>Commands\<close>

datatype cmd_kind = CmdFill | CmdBorder | CmdText | CmdImage | CmdGradient | CmdRadialGradient

record side_spec =
  ssWidth :: int
  ssColor :: color

record border_spec =
  bsTop :: side_spec
  bsRight :: side_spec
  bsBottom :: side_spec
  bsLeft :: side_spec

definition border_empty :: "border_spec \<Rightarrow> bool" where
  "border_empty b \<longleftrightarrow> ssWidth (bsTop b) \<le> 0 \<and> ssWidth (bsRight b) \<le> 0
     \<and> ssWidth (bsBottom b) \<le> 0 \<and> ssWidth (bsLeft b) \<le> 0"

record glyph_run =
  grRune :: int
  grX :: int
  grY :: int
  grSize :: int
  grSlot :: nat

record text_run =
  trGlyphs :: "glyph_run list"
  trColor :: color

datatype image = Image nat bool

record image_spec =
  imSrc :: "image option"
  imSrcBox :: rect

record gradient =
  gdAngle :: rat
  gdStops :: "(rat \<times> color) list"

record radial_gradient =
  rgShape :: string
  rgCx :: rat
  rgCy :: rat
  rgStops :: "(rat \<times> color) list"

record display_cmd =
  dKind :: cmd_kind
  dRect :: rect
  dColor :: color
  dBorder :: border_spec
  dRadius :: "(rat \<times> rat) list"
  dOpacity :: rat
  dMask :: "image option"
  dText :: text_run
  dImage :: image_spec
  dGradient :: gradient
  dRadial :: radial_gradient
  dFilter :: string
  dBackdrop :: string
  dClip :: rect
  dZ :: nat

definition glyph_box :: "int \<Rightarrow> glyph_run \<Rightarrow> rect" where
  "glyph_box scale g = rect4 (grX g) (i32 (grY g - grSize g)) (i32 (grX g + i32 (grSize g * scale))) (grY g)"

definition grow_box :: "int \<Rightarrow> glyph_run \<Rightarrow> rect \<Rightarrow> rect" where
  "grow_box scale g r =
     (let b = glyph_box scale g in
      \<lparr>rX0 = (if rX0 b < rX0 r then rX0 b else rX0 r), rY0 = (if rY0 b < rY0 r then rY0 b else rY0 r),
       rX1 = (if rX1 b > rX1 r then rX1 b else rX1 r), rY1 = (if rY1 b > rY1 r then rY1 b else rY1 r)\<rparr>)"

definition text_bounds :: "text_run \<Rightarrow> int \<Rightarrow> rect" where
  "text_bounds t scale =
     (case trGlyphs t of
        [] \<Rightarrow> zero_rect
      | g # gs \<Rightarrow> fold (grow_box scale) gs (glyph_box scale g))"

definition cmd_bounds :: "display_cmd \<Rightarrow> rect \<times> bool" where
  "cmd_bounds d =
     (case dKind d of
        CmdText \<Rightarrow> (let r = text_bounds (dText d) 1 in (r, \<not> rect_empty r))
      | CmdBorder \<Rightarrow> (if border_empty (dBorder d) then (zero_rect, False) else (dRect d, \<not> rect_empty (dRect d)))
      | CmdFill \<Rightarrow> (dRect d, \<not> rect_empty (dRect d) \<and> color_A (dColor d) > 0)
      | CmdImage \<Rightarrow> (dRect d, \<not> rect_empty (dRect d))
      | CmdGradient \<Rightarrow> (dRect d, \<not> rect_empty (dRect d) \<and> \<not> length (gdStops (dGradient d)) < 2)
      | CmdRadialGradient \<Rightarrow> (dRect d, \<not> rect_empty (dRect d) \<and> \<not> length (rgStops (dRadial d)) < 2))"

definition cmd_intersects :: "display_cmd \<Rightarrow> rect \<Rightarrow> bool" where
  "cmd_intersects d r = (case cmd_bounds d of (b, ok) \<Rightarrow> ok \<and> rect_intersects b r)"

definition same_image :: "image option \<Rightarrow> image option \<Rightarrow> bool" where
  "same_image a b =
     (case (a, b) of
        (Some (Image i ci), Some (Image j cj)) \<Rightarrow> ci \<and> cj \<and> i = j
      | _ \<Rightarrow> a = None \<and> b = None)"

definition same_command :: "display_cmd \<Rightarrow> display_cmd \<Rightarrow> bool" where
  "same_command a b \<longleftrightarrow>
     dKind a = dKind b \<and> dRect a = dRect b \<and> dColor a = dColor b
   \<and> dBorder a = dBorder b \<and> dRadius a = dRadius b \<and> dOpacity a = dOpacity b
   \<and> dClip a = dClip b \<and> dZ a = dZ b \<and> dFilter a = dFilter b \<and> dBackdrop a = dBackdrop b
   \<and> trColor (dText a) = trColor (dText b) \<and> trGlyphs (dText a) = trGlyphs (dText b)
   \<and> imSrcBox (dImage a) = imSrcBox (dImage b) \<and> same_image (imSrc (dImage a)) (imSrc (dImage b))
   \<and> same_image (dMask a) (dMask b)
   \<and> gdAngle (dGradient a) = gdAngle (dGradient b) \<and> gdStops (dGradient a) = gdStops (dGradient b)
   \<and> rgShape (dRadial a) = rgShape (dRadial b) \<and> rgCx (dRadial a) = rgCx (dRadial b)
   \<and> rgCy (dRadial a) = rgCy (dRadial b) \<and> rgStops (dRadial a) = rgStops (dRadial b)"

subsection \<open>The builder\<close>

record dlist =
  dlCmds :: "display_cmd list"
  dlBounds :: rect

definition new_list :: "int \<Rightarrow> dlist" where
  "new_list n = \<lparr>dlCmds = [], dlBounds = zero_rect\<rparr>"

definition dlist_reset :: "dlist \<Rightarrow> dlist" where
  "dlist_reset l = l\<lparr>dlCmds := [], dlBounds := zero_rect\<rparr>"

definition dlist_append :: "display_cmd \<Rightarrow> dlist \<Rightarrow> dlist" where
  "dlist_append c l =
     (let l = l\<lparr>dlCmds := dlCmds l @ [c]\<rparr> in
      case cmd_bounds c of (b, ok) \<Rightarrow>
        if ok
        then (if length (dlCmds l) = 1 \<or> rect_empty (dlBounds l) then l\<lparr>dlBounds := b\<rparr>
              else l\<lparr>dlBounds := rect_union (dlBounds l) b\<rparr>)
        else l)"

definition dlist_sort_stable :: "dlist \<Rightarrow> dlist" where
  "dlist_sort_stable l = l\<lparr>dlCmds := sort_key dZ (dlCmds l)\<rparr>"

record layer_dl =
  ldCmds :: "display_cmd list"
  ldVersion :: nat
  ldBounds :: rect
  ldPublished :: bool
  ldCb :: "(rect \<times> bool) list"

definition dlist_build :: "nat \<Rightarrow> dlist \<Rightarrow> layer_dl \<times> dlist" where
  "dlist_build version l =
     (\<lparr>ldCmds = dlCmds l, ldVersion = version, ldBounds = dlBounds l, ldPublished = False,
       ldCb = map cmd_bounds (dlCmds l)\<rparr>,
      l\<lparr>dlCmds := [], dlBounds := zero_rect\<rparr>)"

definition publish :: "layer_dl \<Rightarrow> layer_dl option" where
  "publish d = (if ldPublished d then None else Some (d\<lparr>ldPublished := True\<rparr>))"

subsection \<open>Damage between two contents\<close>

text \<open>The loops that skip the common front and the common back of the two lists.\<close>

function trim_start :: "display_cmd list \<Rightarrow> display_cmd list \<Rightarrow> nat \<Rightarrow> nat" where
  "trim_start old new start =
     (if start < length old \<and> start < length new \<and> same_command (old ! start) (new ! start)
      then trim_start old new (Suc start) else start)"
  by pat_completeness auto
termination
  by (relation "measure (\<lambda>(old, new, start). length old - start)") auto

declare trim_start.simps [simp del]

fun trim_end :: "display_cmd list \<Rightarrow> display_cmd list \<Rightarrow> nat \<Rightarrow> nat \<Rightarrow> nat \<Rightarrow> nat \<times> nat" where
  "trim_end old new start (Suc oe) (Suc ne) =
     (if start < Suc oe \<and> start < Suc ne \<and> same_command (old ! oe) (new ! ne)
      then trim_end old new start oe ne else (Suc oe, Suc ne))"
| "trim_end old new start oe ne = (oe, ne)"

definition add_damage :: "display_cmd \<Rightarrow> rect \<Rightarrow> rect" where
  "add_damage c dirty = (case cmd_bounds c of (b, ok) \<Rightarrow> if ok then rect_union dirty b else dirty)"

definition pair_damage :: "display_cmd \<times> display_cmd \<Rightarrow> rect \<Rightarrow> rect" where
  "pair_damage ab dirty =
     (if same_command (fst ab) (snd ab) then dirty else add_damage (snd ab) (add_damage (fst ab) dirty))"

definition content_damage :: "layer_dl option \<Rightarrow> layer_dl option \<Rightarrow> rect" where
  "content_damage before after =
     (if before = None \<or> after = None \<or> ldVersion (the before) \<noteq> ldVersion (the after)
      then (let dirty = (case before of None \<Rightarrow> zero_rect | Some d \<Rightarrow> ldBounds d)
            in case after of None \<Rightarrow> dirty | Some d \<Rightarrow> rect_union dirty (ldBounds d))
      else (let old = ldCmds (the before); new = ldCmds (the after)
            in if length old = length new then fold pair_damage (zip old new) zero_rect
               else (let start = trim_start old new 0;
                         (oe, ne) = trim_end old new start (length old) (length new);
                         dirty = fold add_damage (drop start (take oe old)) zero_rect
                     in fold add_damage (drop start (take ne new)) dirty)))"

subsection \<open>The span a tile needs\<close>

definition cached_intersects :: "layer_dl \<Rightarrow> nat \<Rightarrow> rect \<Rightarrow> bool" where
  "cached_intersects d i r =
     (if length (ldCb d) = length (ldCmds d) \<and> i < length (ldCmds d)
      then snd (ldCb d ! i) \<and> rect_intersects (fst (ldCb d ! i)) r
      else cmd_intersects (ldCmds d ! i) r)"

definition widen_span :: "(nat \<Rightarrow> bool) \<Rightarrow> nat \<Rightarrow> int \<times> int \<Rightarrow> int \<times> int" where
  "widen_span hit i lh =
     (case lh of (lo, hi) \<Rightarrow> if hit i then (if lo < 0 then int i else lo, int i) else (lo, hi))"

definition intersecting :: "layer_dl \<Rightarrow> rect \<Rightarrow> display_cmd list" where
  "intersecting d r =
     (let hit = (if length (ldCb d) = length (ldCmds d)
                 then (\<lambda>i. snd (ldCb d ! i) \<and> rect_intersects (fst (ldCb d ! i)) r)
                 else (\<lambda>i. cmd_intersects (ldCmds d ! i) r));
          (lo, hi) = fold (widen_span hit) [0..<length (ldCmds d)] (-1, -1)
      in if lo < 0 then [] else take (nat (hi + 1) - nat lo) (drop (nat lo) (ldCmds d)))"

subsection \<open>Bounds cover the ink\<close>

text \<open>The command may put ink on the point.\<close>

definition covers :: "point \<Rightarrow> display_cmd \<Rightarrow> bool" where
  "covers p c \<longleftrightarrow> snd (cmd_bounds c) \<and> rect_contains (fst (cmd_bounds c)) p"

definition bounded :: "display_cmd list \<Rightarrow> rect \<Rightarrow> bool" where
  "bounded cs r \<longleftrightarrow> (\<forall>p c. c \<in> set cs \<and> covers p c \<longrightarrow> rect_contains r p)"

lemma bounds_not_empty: "snd (cmd_bounds c) \<Longrightarrow> \<not> rect_empty (fst (cmd_bounds c))"
  by (auto simp: cmd_bounds_def Let_def split: cmd_kind.splits if_splits)

lemma dlist_append_fields:
  "dlCmds (dlist_append c l) = dlCmds l @ [c]"
  "dlBounds (dlist_append c l) =
     (if snd (cmd_bounds c)
      then (if dlCmds l = [] \<or> rect_empty (dlBounds l) then fst (cmd_bounds c)
            else rect_union (dlBounds l) (fst (cmd_bounds c)))
      else dlBounds l)"
  by (simp_all add: dlist_append_def Let_def split: prod.split)

lemma bounded_append:
  assumes "bounded (dlCmds l) (dlBounds l)"
  shows "bounded (dlCmds (dlist_append c l)) (dlBounds (dlist_append c l))"
proof -
  have "\<not> covers p x" if "x \<in> set (dlCmds l)" "rect_empty (dlBounds l)" for p x
    using assms that not_contains_empty by (auto simp: bounded_def)
  then show ?thesis
    using assms by (auto simp: dlist_append_fields bounded_def covers_def intro: union_least)
qed

text \<open>A list as a producer makes it: commands appended to an empty builder, then sorted, then built.\<close>

definition produced :: "nat \<Rightarrow> display_cmd list \<Rightarrow> layer_dl" where
  "produced v cs = fst (dlist_build v (dlist_sort_stable (fold dlist_append cs (new_list 0))))"

lemma fold_append_bounded:
  "bounded (dlCmds l) (dlBounds l) \<Longrightarrow>
   bounded (dlCmds (fold dlist_append cs l)) (dlBounds (fold dlist_append cs l))
   \<and> dlCmds (fold dlist_append cs l) = dlCmds l @ cs"
proof (induction cs arbitrary: l)
  case (Cons c cs)
  from Cons.IH[OF bounded_append[OF Cons.prems], of c] show ?case
    by (auto simp: dlist_append_fields)
qed simp

lemma produced_bounded:
  "bounded (ldCmds (produced v cs)) (ldBounds (produced v cs))" "ldCmds (produced v cs) = sort_key dZ cs"
  "ldVersion (produced v cs) = v"
proof -
  have "bounded (dlCmds (new_list 0)) (dlBounds (new_list 0))" by (simp add: new_list_def bounded_def)
  from fold_append_bounded[OF this, of cs]
  show "bounded (ldCmds (produced v cs)) (ldBounds (produced v cs))" "ldCmds (produced v cs) = sort_key dZ cs"
    "ldVersion (produced v cs) = v"
    by (simp_all add: produced_def dlist_build_def dlist_sort_stable_def bounded_def new_list_def)
qed

subsection \<open>Damage is sound\<close>

lemma same_command_bounds: "same_command a b \<Longrightarrow> cmd_bounds a = cmd_bounds b"
  by (cases "dKind b") (simp_all add: same_command_def cmd_bounds_def text_bounds_def)

lemma same_command_covers: "same_command a b \<Longrightarrow> covers p a = covers p b"
  by (simp add: covers_def same_command_bounds)

lemma add_damage_contains: "covers p c \<or> rect_contains dirty p \<Longrightarrow> rect_contains (add_damage c dirty) p"
  by (auto simp: add_damage_def covers_def intro: union_least split: prod.split)

lemma fold_add_damage:
  "(\<exists>c\<in>set cs. covers p c) \<or> rect_contains dirty p \<Longrightarrow> rect_contains (fold add_damage cs dirty) p"
proof (induction cs arbitrary: dirty)
  case (Cons c cs)
  then show ?case using add_damage_contains[of p c dirty] by auto
qed simp

lemma fold_pair_damage:
  "(\<exists>(a, b)\<in>set prs. \<not> same_command a b \<and> (covers p a \<or> covers p b)) \<or> rect_contains dirty p
   \<Longrightarrow> rect_contains (fold pair_damage prs dirty) p"
proof (induction prs arbitrary: dirty)
  case (Cons ab prs)
  have "\<not> same_command (fst ab) (snd ab) \<and> (covers p (fst ab) \<or> covers p (snd ab)) \<or> rect_contains dirty p
      \<Longrightarrow> rect_contains (pair_damage ab dirty) p"
    using add_damage_contains by (auto simp: pair_damage_def)
  with Cons.prems Cons.IH[of "pair_damage ab dirty"] show ?case by (cases ab) auto
qed simp

lemma trim_start_same:
  "start \<le> trim_start old new start
   \<and> (start \<le> length old \<longrightarrow> trim_start old new start \<le> length old)
   \<and> (start \<le> length new \<longrightarrow> trim_start old new start \<le> length new)
   \<and> (\<forall>i. start \<le> i \<and> i < trim_start old new start \<longrightarrow> same_command (old ! i) (new ! i))"
proof (induction old new start rule: trim_start.induct)
  case (1 old new start)
  show ?case
  proof (cases "start < length old \<and> start < length new \<and> same_command (old ! start) (new ! start)")
    case True
    then have eq: "trim_start old new start = trim_start old new (Suc start)"
      by (subst trim_start.simps) simp
    have "same_command (old ! i) (new ! i)" if "start \<le> i" "i < trim_start old new (Suc start)" for i
      using 1[OF True] True that by (cases "i = start") auto
    with 1[OF True] True show ?thesis unfolding eq by auto
  next
    case False
    then show ?thesis by (subst (1 2 3 4) trim_start.simps) auto
  qed
qed

lemma trim_end_same:
  assumes "trim_end old new start oe ne = (oe', ne')" "start \<le> oe" "start \<le> ne"
  shows "start \<le> oe' \<and> start \<le> ne' \<and> oe' \<le> oe \<and> ne' \<le> ne \<and> oe - oe' = ne - ne'
    \<and> (\<forall>i < oe - oe'. same_command (old ! (oe' + i)) (new ! (ne' + i)))"
  using assms
proof (induction old new start oe ne rule: trim_end.induct)
  case (1 old new start oe ne)
  show ?case
  proof (cases "start < Suc oe \<and> start < Suc ne \<and> same_command (old ! oe) (new ! ne)")
    case True
    with 1 have IH: "start \<le> oe' \<and> start \<le> ne' \<and> oe' \<le> oe \<and> ne' \<le> ne \<and> oe - oe' = ne - ne'
      \<and> (\<forall>i < oe - oe'. same_command (old ! (oe' + i)) (new ! (ne' + i)))" by simp
    have "same_command (old ! (oe' + i)) (new ! (ne' + i))" if "i < Suc oe - oe'" for i
    proof (cases "i = oe - oe'")
      case True': True
      then have "oe' + i = oe" "ne' + i = ne" using IH by auto
      with True show ?thesis by simp
    qed (use IH that in auto)
    with IH show ?thesis by auto
  qed (use 1 in auto)
qed auto

lemma list_all2_filter_same:
  "list_all2 same_command xs ys \<Longrightarrow> list_all2 same_command (filter (covers p) xs) (filter (covers p) ys)"
  by (induction rule: list_all2_induct) (auto simp: same_command_covers)

lemma filter_covers_none: "(\<forall>c\<in>set cs. \<not> covers p c) \<Longrightarrow> filter (covers p) cs = []"
  by (simp add: filter_empty_conv)

text \<open>
  \<open>ContentDamage\<close> misses nothing: at every point outside the rectangle it
  returns, the old and the new content have the same commands, in the same order, that can
  put ink there. This holds for the full comparison, for the positional comparison of lists
  of equal length, and for the comparison that skips the common front and back.
\<close>

theorem content_damage_sound:
  assumes "before = map_option (\<lambda>(v, cs). produced v cs) b" "after = map_option (\<lambda>(v, cs). produced v cs) a"
    and "\<not> rect_contains (content_damage before after) p"
  shows "list_all2 same_command
     (filter (covers p) (case before of None \<Rightarrow> [] | Some d \<Rightarrow> ldCmds d))
     (filter (covers p) (case after of None \<Rightarrow> [] | Some d \<Rightarrow> ldCmds d))"
proof (cases "before = None \<or> after = None \<or> ldVersion (the before) \<noteq> ldVersion (the after)")
  case True
  have none: "filter (covers p) (case x of None \<Rightarrow> [] | Some d \<Rightarrow> ldCmds d) = []"
    if "x = map_option (\<lambda>(v, cs). produced v cs) z"
      "\<not> rect_contains (case x of None \<Rightarrow> zero_rect | Some d \<Rightarrow> ldBounds d) p" for x z
    using that produced_bounded(1)
    by (auto simp: filter_empty_conv bounded_def split: option.splits prod.splits)
  have "\<not> rect_contains (case before of None \<Rightarrow> zero_rect | Some d \<Rightarrow> ldBounds d) p"
    "\<not> rect_contains (case after of None \<Rightarrow> zero_rect | Some d \<Rightarrow> ldBounds d) p"
    using True assms(3) unfolding content_damage_def Let_def
    by (cases after; auto intro: union_least)+
  with none[OF assms(1)] none[OF assms(2)] show ?thesis by simp
next
  case False
  then obtain d e where de: "before = Some d" "after = Some e" by auto
  define old new where "old = ldCmds d" and "new = ldCmds e"
  have "list_all2 same_command (filter (covers p) old) (filter (covers p) new)"
  proof (cases "length old = length new")
    case True
    then have "\<not> rect_contains (fold pair_damage (zip old new) zero_rect) p"
      using False assms(3) by (simp add: content_damage_def de old_def new_def)
    then have "\<forall>(x, y)\<in>set (zip old new). same_command x y \<or> \<not> covers p x \<and> \<not> covers p y"
      using fold_pair_damage[of "zip old new" p zero_rect] by blast
    with True show ?thesis
    proof (induction old new rule: list_induct2)
      case (Cons x xs y ys)
      then show ?case by (auto simp: same_command_covers)
    qed simp
  next
    case ne: False
    define s where "s = trim_start old new 0"
    obtain oe ne where e: "trim_end old new s (length old) (length new) = (oe, ne)"
      by (cases "trim_end old new s (length old) (length new)")
    have S: "s \<le> length old" "s \<le> length new" "\<forall>i < s. same_command (old ! i) (new ! i)"
      using trim_start_same[of 0 old new] by (auto simp: s_def)
    note T = trim_end_same[OF e S(1,2)]
    have "\<not> rect_contains (fold add_damage (drop s (take ne new)) (fold add_damage (drop s (take oe old)) zero_rect)) p"
      using False ne assms(3) e by (simp add: content_damage_def de old_def new_def s_def Let_def)
    then have mid: "\<forall>c\<in>set (drop s (take oe old)). \<not> covers p c" "\<forall>c\<in>set (drop s (take ne new)). \<not> covers p c"
      using fold_add_damage by blast+
    have split: "xs = take s xs @ drop s (take n xs) @ drop n xs" if "s \<le> n" for xs :: "display_cmd list" and n
      using that by (metis append.assoc append_take_drop_id min.absorb1 take_take)
    have "list_all2 same_command (take s old) (take s new)"
      using S by (intro list_all2_all_nthI) auto
    moreover have "list_all2 same_command (drop oe old) (drop ne new)"
      using T by (intro list_all2_all_nthI) auto
    ultimately have ends: "list_all2 same_command (filter (covers p) (take s old)) (filter (covers p) (take s new))"
      "list_all2 same_command (filter (covers p) (drop oe old)) (filter (covers p) (drop ne new))"
      by (auto intro: list_all2_filter_same)
    have "filter (covers p) old = filter (covers p) (take s old) @ filter (covers p) (drop oe old)"
      using arg_cong[OF split[of oe old], of "filter (covers p)"] T filter_covers_none[OF mid(1)] by simp
    moreover have "filter (covers p) new = filter (covers p) (take s new) @ filter (covers p) (drop ne new)"
      using arg_cong[OF split[of ne new], of "filter (covers p)"] T filter_covers_none[OF mid(2)] by simp
    ultimately show ?thesis using ends by (simp add: list_all2_appendI)
  qed
  then show ?thesis by (simp add: de old_def new_def)
qed

definition demo_fill :: "int \<Rightarrow> display_cmd" where
  "demo_fill x = \<lparr>dKind = CmdFill, dRect = rect4 x 0 (x + 10) 10, dColor = 255,
     dBorder = \<lparr>bsTop = \<lparr>ssWidth = 0, ssColor = 0\<rparr>, bsRight = \<lparr>ssWidth = 0, ssColor = 0\<rparr>,
       bsBottom = \<lparr>ssWidth = 0, ssColor = 0\<rparr>, bsLeft = \<lparr>ssWidth = 0, ssColor = 0\<rparr>\<rparr>,
     dRadius = [], dOpacity = 0, dMask = None, dText = \<lparr>trGlyphs = [], trColor = 0\<rparr>,
     dImage = \<lparr>imSrc = None, imSrcBox = zero_rect\<rparr>, dGradient = \<lparr>gdAngle = 0, gdStops = []\<rparr>,
     dRadial = \<lparr>rgShape = [], rgCx = 0, rgCy = 0, rgStops = []\<rparr>, dFilter = [], dBackdrop = [],
     dClip = zero_rect, dZ = 0\<rparr>"

theorem content_damage_sound_witness:
  "\<not> rect_contains (content_damage (Some (produced 0 [demo_fill 0, demo_fill 50]))
       (Some (produced 0 [demo_fill 0, demo_fill 20, demo_fill 50]))) (Pt 5 5)
   \<and> length (filter (covers (Pt 5 5)) [demo_fill 0, demo_fill 20, demo_fill 50]) = 1"
proof -
  define old where "old = produced 0 [demo_fill 0, demo_fill 50]"
  define new where "new = produced 0 [demo_fill 0, demo_fill 20, demo_fill 50]"
  have b: "cmd_bounds (demo_fill x) = (rect4 x 0 (x + 10) 10, True)" for x
    by (simp add: cmd_bounds_def demo_fill_def rect_empty_def color_A_def)
  have z: "dZ (demo_fill x) = 0" for x by (simp add: demo_fill_def)
  have same: "same_command (demo_fill x) (demo_fill y) \<longleftrightarrow> x = y" for x y
    by (auto simp: same_command_def demo_fill_def same_image_def rect4_def)
  have c: "ldCmds old = [demo_fill 0, demo_fill 50]" "ldCmds new = [demo_fill 0, demo_fill 20, demo_fill 50]"
    "ldVersion old = 0" "ldVersion new = 0"
    by (simp_all add: old_def new_def produced_bounded z)
  have "trim_start [demo_fill 0, demo_fill 50] [demo_fill 0, demo_fill 20, demo_fill 50] 0 = 1"
    by (subst trim_start.simps, simp add: same, subst trim_start.simps, simp add: same)
  moreover have "trim_end [demo_fill 0, demo_fill 50] [demo_fill 0, demo_fill 20, demo_fill 50] 1 2 3 = (1, 2)"
    by (simp add: eval_nat_numeral same)
  ultimately have "content_damage (Some old) (Some new) = rect4 20 0 30 10"
    by (simp add: content_damage_def c Let_def eval_nat_numeral add_damage_def b
        rect_union_def rect_empty_def zero_rect_def)
  then have out: "\<not> rect_contains (content_damage (Some old) (Some new)) (Pt 5 5)"
    by (simp add: rect_contains_def)
  have "list_all2 same_command (filter (covers (Pt 5 5)) (ldCmds old)) (filter (covers (Pt 5 5)) (ldCmds new))"
    using content_damage_sound[OF _ _ out, where b = "Some (0, [demo_fill 0, demo_fill 50])"
        and a = "Some (0, [demo_fill 0, demo_fill 20, demo_fill 50])"] by (simp add: old_def new_def)
  with out show ?thesis
    using c by (simp add: covers_def b rect_contains_def flip: old_def new_def)
qed

subsection \<open>The span is tight\<close>

lemma widen_spans:
  "fold (widen_span hit) [0..<n] (-1, -1) =
     (if \<exists>i<n. hit i then (int (LEAST i. hit i), int (GREATEST i. i < n \<and> hit i)) else (-1, -1))"
proof (induction n)
  case (Suc n)
  show ?case
  proof (cases "hit n")
    case True
    have "(GREATEST i. i < Suc n \<and> hit i) = n" using True by (intro Greatest_equality) auto
    moreover have "(LEAST i. hit i) = n" if "\<not> (\<exists>i<n. hit i)"
      using True that by (intro Least_equality) (auto simp: not_less)
    ultimately show ?thesis using Suc True by (auto simp: widen_span_def)
  next
    case False
    then have "(i < Suc n \<and> hit i) = (i < n \<and> hit i)" for i by (auto simp: less_Suc_eq)
    with Suc False show ?thesis by (auto simp: widen_span_def)
  qed
qed simp

text \<open>
  \<open>Intersecting\<close> is the tightest contiguous span: it is a contiguous piece of
  the paint order, no command outside it touches the tile, and unless it is empty its first
  and last commands do; the frozen bounds give the answer the live bounds would.
\<close>

theorem intersecting_tightest_span:
  assumes "d = produced v cs"
  shows "\<exists>xs ys. ldCmds d = xs @ intersecting d r @ ys
     \<and> (\<forall>c\<in>set xs \<union> set ys. \<not> cmd_intersects c r)
     \<and> (intersecting d r \<noteq> [] \<longrightarrow> cmd_intersects (hd (intersecting d r)) r \<and> cmd_intersects (last (intersecting d r)) r)
     \<and> (\<forall>i < length (ldCmds d). cached_intersects d i r = cmd_intersects (ldCmds d ! i) r)"
proof -
  have cb: "ldCb d = map cmd_bounds (ldCmds d)"
    by (simp add: assms produced_def dlist_build_def)
  define hit where "hit i = (snd (ldCb d ! i) \<and> rect_intersects (fst (ldCb d ! i)) r)" for i
  let ?n = "length (ldCmds d)"
  have hit: "hit i = cmd_intersects (ldCmds d ! i) r" if "i < ?n" for i
    using that by (simp add: hit_def cb cmd_intersects_def split: prod.split)
  have cached: "\<forall>i < ?n. cached_intersects d i r = cmd_intersects (ldCmds d ! i) r"
    using hit by (simp add: cached_intersects_def hit_def cb)
  have eq: "intersecting d r = (case fold (widen_span hit) [0..<?n] (-1, -1) of
      (lo, hi) \<Rightarrow> if lo < 0 then [] else take (nat (hi + 1) - nat lo) (drop (nat lo) (ldCmds d)))"
    by (simp add: intersecting_def cb hit_def[abs_def] Let_def)
  show ?thesis
  proof (cases "\<exists>i<?n. hit i")
    case False
    then have "\<forall>c\<in>set (ldCmds d). \<not> cmd_intersects c r"
      using hit by (metis in_set_conv_nth)
    moreover have "fold (widen_span hit) [0..<?n] (-1, -1) = (-1, -1)" using False by (subst widen_spans) simp
    then have "intersecting d r = []" by (simp add: eq)
    ultimately show ?thesis
      using cached by (intro exI[of _ "ldCmds d"] exI[of _ "[]"]) simp
  next
    case True
    define lo hi where "lo = (LEAST i. hit i)" and "hi = (GREATEST i. i < ?n \<and> hit i)"
    obtain k where k: "k < ?n" "hit k" using True by blast
    have lo: "hit lo" "lo \<le> k"
      unfolding lo_def by (rule LeastI[of hit k], rule k(2), rule Least_le[of hit k], rule k(2))
    have lo_min: "\<not> hit i" if "i < lo" for i
      using that unfolding lo_def by (rule not_less_Least)
    have hi: "hi < ?n \<and> hit hi"
      unfolding hi_def by (rule GreatestI_nat[of "\<lambda>i. i < ?n \<and> hit i" k ?n]) (use k in auto)
    have hi_max: "i \<le> hi" if "i < ?n" "hit i" for i
      unfolding hi_def by (rule Greatest_le_nat[of "\<lambda>i. i < ?n \<and> hit i" i ?n]) (use that in auto)
    have lohi: "lo \<le> hi" using hi_max[OF k] lo(2) by simp
    have res: "intersecting d r = take (Suc hi - lo) (drop lo (ldCmds d))"
      using True by (simp add: eq widen_spans lo_def hi_def nat_add_distrib)
    have parts: "ldCmds d = take lo (ldCmds d) @ intersecting d r @ drop (Suc hi) (ldCmds d)"
    proof -
      have "drop (Suc hi) (ldCmds d) = drop (Suc hi - lo) (drop lo (ldCmds d))" using lohi by simp
      then show ?thesis by (simp only: res append_take_drop_id)
    qed
    have before: "\<not> cmd_intersects c r" if "c \<in> set (take lo (ldCmds d))" for c
    proof -
      from that obtain i where "i < lo" "i < ?n" "c = ldCmds d ! i" by (auto simp: in_set_conv_nth)
      with lo_min[of i] hit[of i] show ?thesis by simp
    qed
    have after: "\<not> cmd_intersects c r" if "c \<in> set (drop (Suc hi) (ldCmds d))" for c
    proof -
      from that obtain i where "i < ?n - Suc hi" "c = ldCmds d ! (Suc hi + i)" by (auto simp: in_set_conv_nth)
      moreover from this have "Suc hi + i < ?n" by simp
      ultimately show ?thesis using hi_max[of "Suc hi + i"] hit[of "Suc hi + i"] by auto
    qed
    have len: "length (intersecting d r) = Suc hi - lo" using hi lohi by (auto simp: res min_def)
    then have "intersecting d r \<noteq> []" using lohi by auto
    then have he: "hd (intersecting d r) = ldCmds d ! lo" "last (intersecting d r) = ldCmds d ! hi"
      using lohi hi len by (simp_all add: hd_conv_nth last_conv_nth res)
    have "lo < ?n" using lohi hi by simp
    then have ends: "cmd_intersects (hd (intersecting d r)) r" "cmd_intersects (last (intersecting d r)) r"
      using he lo(1) hi hit[of lo] hit[of hi] by simp_all
    show ?thesis
      using parts before after ends cached
      by (intro exI[of _ "take lo (ldCmds d)"] exI[of _ "drop (Suc hi) (ldCmds d)"]) blast
  qed
qed

theorem intersecting_tightest_span_witness:
  "\<exists>xs ys. ldCmds (produced 1 [demo_fill 0, demo_fill 50, demo_fill 99])
     = xs @ intersecting (produced 1 [demo_fill 0, demo_fill 50, demo_fill 99]) (rect4 55 0 57 3) @ ys"
  using intersecting_tightest_span[OF refl, of 1 "[demo_fill 0, demo_fill 50, demo_fill 99]" "rect4 55 0 57 3"] by blast

end
