(* ===== verification/Layers.thy ===== *)
theory Layers
  imports Grid_Claims Display_List
begin

text \<open>
  What crosses from the producer of content to the thread that presents it:
  \<open>internal/frame/layer.go\<close> (layers), \<open>internal/frame/plan.go\<close> (frame plans and
  the depth-1 slot that hands the newest one over) and \<open>internal/frame/recorder.go\<close>
  (the ring of frame marks). A \<open>Content\<close> is its one implementation, the
  \<open>LayerDL\<close> of \<open>Display_List\<close>, or nil. A \<open>*Layer\<close> inside a plan is an
  address; \<open>None\<close> is nil. Times are integers with 0 for the zero time.
\<close>

subsection \<open>Layers\<close>

record layer =
  lyID :: nat
  lyVersion :: nat
  lyBounds :: rect
  lyGrid :: grid
  lyContent :: "layer_dl option"

definition new_layer :: "nat \<Rightarrow> rect \<Rightarrow> int \<Rightarrow> pool \<Rightarrow> layer" where
  "new_layer lid bnds budget pl =
     (let bnds = rect_canon bnds;
          bnds = (if rX0 bnds < 0 then bnds\<lparr>rX0 := 0\<rparr> else bnds);
          bnds = (if rY0 bnds < 0 then bnds\<lparr>rY0 := 0\<rparr> else bnds)
      in \<lparr>lyID = lid, lyVersion = 0, lyBounds = bnds, lyGrid = new_grid bnds TileSize budget pl, lyContent = None\<rparr>)"

definition set_content :: "layer_dl option \<Rightarrow> layer \<Rightarrow> layer" where
  "set_content c l =
     (let l = l\<lparr>lyContent := c\<rparr>
      in case c of None \<Rightarrow> l | Some d \<Rightarrow> l\<lparr>lyVersion := ldVersion d\<rparr>)"

definition bump :: "nat \<Rightarrow> rect \<Rightarrow> layer \<Rightarrow> int \<times> layer" where
  "bump v dirty l =
     (if v \<le> lyVersion l then (0, l)
      else let l = l\<lparr>lyVersion := v\<rparr>; (n, g) = advance v (rect_canon dirty) (lyGrid l)
           in (n, l\<lparr>lyGrid := g\<rparr>))"

definition invalidate_rect :: "rect \<Rightarrow> layer \<Rightarrow> int \<times> layer" where
  "invalidate_rect r l = (let (n, g) = invalidate r (lyGrid l) in (n, l\<lparr>lyGrid := g\<rparr>))"

definition layer_needs :: "layer \<Rightarrow> tile_coord \<Rightarrow> bool" where
  "layer_needs l c = needs (lyGrid l) c (lyVersion l)"

definition layer_visible_coords :: "layer \<Rightarrow> viewport \<Rightarrow> tile_coord list" where
  "layer_visible_coords l vp = visible_coords (lyGrid l) vp"

definition layer_stats :: "layer \<Rightarrow> grid_stats" where
  "layer_stats l = grid_stats_of (lyGrid l)"

definition layer_bytes_in_use :: "layer \<Rightarrow> int" where
  "layer_bytes_in_use l = gsBytes (grid_stats_of (lyGrid l))"

subsection \<open>Plans and the slot\<close>

record frame_plan =
  fpSerial :: nat
  fpViewport :: viewport
  fpScale :: rat
  fpLayers :: "nat option list"
  fpBackground :: color

definition plan_layer :: "(nat \<Rightarrow> layer) \<Rightarrow> frame_plan \<Rightarrow> nat \<Rightarrow> nat option" where
  "plan_layer heap p lid =
     (case find (\<lambda>l. l \<noteq> None \<and> lyID (heap (the l)) = lid) (fpLayers p) of None \<Rightarrow> None | Some l \<Rightarrow> l)"

definition zero_plan :: frame_plan where
  "zero_plan = \<lparr>fpSerial = 0, fpViewport = \<lparr>vOffset = Pt 0 0, vSize = Sz 0 0\<rparr>, fpScale = 0, fpLayers = [],
     fpBackground = 0\<rparr>"

record plan_slot =
  slLatest :: frame_plan
  slOk :: bool
  slConsumed :: bool
  slPublished :: int
  slDropped :: int

definition zero_slot :: plan_slot where
  "zero_slot = \<lparr>slLatest = zero_plan, slOk = False, slConsumed = False, slPublished = 0, slDropped = 0\<rparr>"

definition slot_publish :: "frame_plan \<Rightarrow> plan_slot \<Rightarrow> plan_slot" where
  "slot_publish next s =
     (let s = (if slOk s \<and> \<not> slConsumed s then s\<lparr>slDropped := slDropped s + 1\<rparr> else s)
      in s\<lparr>slLatest := next, slOk := True, slConsumed := False, slPublished := slPublished s + 1\<rparr>)"

definition slot_latest :: "plan_slot \<Rightarrow> frame_plan \<times> bool" where
  "slot_latest s = (slLatest s, slOk s)"

definition slot_take :: "plan_slot \<Rightarrow> (frame_plan \<times> bool) \<times> plan_slot" where
  "slot_take s = (let s = s\<lparr>slConsumed := True\<rparr> in ((slLatest s, slOk s), s))"

definition slot_stats :: "plan_slot \<Rightarrow> int \<times> int" where
  "slot_stats s = (slPublished s, slDropped s)"

text \<open>The operations of the two threads, in the order the lock serves them.\<close>

datatype slot_op = SPublish frame_plan | STake

fun slot_exec :: "slot_op \<Rightarrow> plan_slot \<Rightarrow> plan_slot" where
  "slot_exec (SPublish p) s = slot_publish p s"
| "slot_exec STake s = snd (slot_take s)"

text \<open>Reference: the plans published and overtaken by the very next publish.\<close>

fun superseded :: "slot_op list \<Rightarrow> int" where
  "superseded (SPublish p # SPublish q # ops) = 1 + superseded (SPublish q # ops)"
| "superseded (x # ops) = superseded ops"
| "superseded [] = 0"

definition published :: "slot_op list \<Rightarrow> frame_plan list" where
  "published ops = concat (map (\<lambda>x. case x of SPublish p \<Rightarrow> [p] | STake \<Rightarrow> []) ops)"

lemma published_simps [simp]:
  "published [] = []" "published (SPublish p # ops) = p # published ops" "published (STake # ops) = published ops"
  by (simp_all add: published_def)

lemma slot_run:
  "(let t = fold slot_exec ops s in
      slLatest t = (if published ops = [] then slLatest s else last (published ops))
    \<and> (slOk t \<longleftrightarrow> slOk s \<or> published ops \<noteq> [])
    \<and> slPublished t = slPublished s + int (length (published ops))
    \<and> slDropped t = slDropped s + superseded ops
        + (if slOk s \<and> \<not> slConsumed s \<and> (\<exists>p ops'. ops = SPublish p # ops') then 1 else 0))"
proof (induction ops arbitrary: s)
  case (Cons x ops)
  show ?case
  proof (cases x)
    case (SPublish p)
    have "superseded (SPublish p # ops) = superseded ops + (if \<exists>q ops'. ops = SPublish q # ops' then 1 else 0)"
      by (cases "(SPublish p # ops)" rule: superseded.cases) auto
    with Cons.IH[of "slot_publish p s"] SPublish show ?thesis
      by (auto simp: Let_def slot_publish_def)
  next
    case STake
    with Cons.IH[of "snd (slot_take s)"] show ?thesis
      by (auto simp: Let_def slot_take_def)
  qed
qed (simp add: Let_def)

text \<open>
  The depth-1 slot hands over the newest plan and loses count of none: after any
  interleaving of publishes and takes, a take returns the last plan published (and none
  before the first), \<open>published\<close> counts the publishes, and \<open>dropped\<close> counts exactly
  the plans overtaken by the next one before anybody took them.
\<close>

theorem plan_slot_newest:
  "(let s = fold slot_exec ops zero_slot in
      fst (slot_take s) = (if published ops = [] then zero_plan else last (published ops), published ops \<noteq> [])
    \<and> slot_stats s = (int (length (published ops)), superseded ops))"
  using slot_run[of ops zero_slot]
  by (simp add: Let_def slot_take_def slot_stats_def zero_slot_def)

subsection \<open>The ring of frame marks\<close>

record frame_mark =
  fmSerial :: nat
  fmVsyncAt :: int
  fmPlanAt :: int
  fmSubmitAt :: int
  fmComposedAt :: int
  fmPresentedAt :: int
  fmTilesRasterized :: int
  fmTilesReused :: int
  fmStylePasses :: int
  fmLayoutPasses :: int

definition zero_mark :: frame_mark where
  "zero_mark = \<lparr>fmSerial = 0, fmVsyncAt = 0, fmPlanAt = 0, fmSubmitAt = 0, fmComposedAt = 0, fmPresentedAt = 0,
     fmTilesRasterized = 0, fmTilesReused = 0, fmStylePasses = 0, fmLayoutPasses = 0\<rparr>"

definition mark_work :: "frame_mark \<Rightarrow> int" where
  "mark_work m = (if fmVsyncAt m = 0 \<or> fmPresentedAt m = 0 then 0 else fmPresentedAt m - fmVsyncAt m)"

definition mark_present :: "frame_mark \<Rightarrow> int" where
  "mark_present m = (if fmComposedAt m = 0 \<or> fmPresentedAt m = 0 then 0 else fmPresentedAt m - fmComposedAt m)"

record recorder =
  frRing :: "frame_mark list"
  frNext :: nat
  frFilled :: nat
  frCount :: int
  frStartupRef :: int
  frFirstPresented :: int
  frTiles :: "grid_stats option"
  frContent :: string
  frDocHeight :: int

definition new_recorder :: "int \<Rightarrow> recorder" where
  "new_recorder capacity =
     (let capacity = (if capacity \<le> 0 then 1024 else capacity)
      in \<lparr>frRing = replicate (nat capacity) zero_mark, frNext = 0, frFilled = 0, frCount = 0, frStartupRef = 0,
          frFirstPresented = 0, frTiles = None, frContent = [], frDocHeight = 0\<rparr>)"

definition set_startup_reference :: "int \<Rightarrow> recorder \<Rightarrow> recorder" where
  "set_startup_reference t r = r\<lparr>frStartupRef := t\<rparr>"

definition set_tile_ledger :: "grid_stats \<Rightarrow> recorder \<Rightarrow> recorder" where
  "set_tile_ledger g r = r\<lparr>frTiles := Some g\<rparr>"

definition set_recorded_content :: "string \<Rightarrow> int \<Rightarrow> recorder \<Rightarrow> recorder" where
  "set_recorded_content doc h r = r\<lparr>frContent := doc, frDocHeight := h\<rparr>"

definition record_mark :: "frame_mark \<Rightarrow> recorder \<Rightarrow> recorder option" where
  "record_mark m r =
     (if \<not> frNext r < length (frRing r) then None
      else let r = r\<lparr>frRing := (frRing r)[frNext r := m], frNext := frNext r + 1\<rparr>;
               r = (if frNext r = length (frRing r) then r\<lparr>frNext := 0\<rparr> else r);
               r = (if frFilled r < length (frRing r) then r\<lparr>frFilled := frFilled r + 1\<rparr> else r);
               r = r\<lparr>frCount := frCount r + 1\<rparr>
           in Some (if frFirstPresented r = 0 \<and> fmPresentedAt m \<noteq> 0
                    then r\<lparr>frFirstPresented := fmPresentedAt m\<rparr> else r))"

definition recorder_reset :: "recorder \<Rightarrow> recorder" where
  "recorder_reset r = r\<lparr>frRing := replicate (length (frRing r)) zero_mark, frNext := 0, frFilled := 0, frCount := 0,
     frFirstPresented := 0\<rparr>"

definition recorder_marks :: "recorder \<Rightarrow> frame_mark list" where
  "recorder_marks r =
     (let start = (if frFilled r = length (frRing r) then frNext r else 0)
      in map (\<lambda>i. frRing r ! ((start + i) mod length (frRing r))) [0..<frFilled r])"

text \<open>The ring after \<open>ms\<close> was recorded: position \<open>i\<close> holds the latest mark whose index is \<open>i\<close> modulo the capacity.\<close>

definition ring_of :: "frame_mark list \<Rightarrow> recorder \<Rightarrow> bool" where
  "ring_of ms r \<longleftrightarrow> 0 < length (frRing r) \<and> frNext r = length ms mod length (frRing r)
     \<and> frFilled r = min (length ms) (length (frRing r)) \<and> frCount r = int (length ms)
     \<and> (\<forall>i < length ms. length ms \<le> i + length (frRing r) \<longrightarrow> frRing r ! (i mod length (frRing r)) = ms ! i)"

lemma recent_index_apart:
  fixes i j c :: nat
  assumes "i < j" "j < i + c" shows "i mod c \<noteq> j mod c"
proof
  assume "i mod c = j mod c"
  then have "c dvd j - i" using assms(1) mod_eq_dvd_iff_nat[of i j c] by simp
  moreover have "0 < j - i" "j - i < c" using assms by auto
  ultimately show False using nat_dvd_not_less by blast
qed

lemma record_mark_ring:
  assumes "ring_of ms r"
  shows "\<exists>r'. record_mark m r = Some r' \<and> ring_of (ms @ [m]) r' \<and> length (frRing r') = length (frRing r)"
proof -
  let ?c = "length (frRing r)"
  have r: "0 < ?c" "frNext r = length ms mod ?c" "frFilled r = min (length ms) ?c" "frCount r = int (length ms)"
    "\<And>i. i < length ms \<Longrightarrow> length ms \<le> i + ?c \<Longrightarrow> frRing r ! (i mod ?c) = ms ! i"
    using assms by (auto simp: ring_of_def)
  have lt: "length ms mod ?c < ?c" using r(1) by simp
  define ring where "ring = (frRing r)[length ms mod ?c := m]"
  have ring: "ring ! (i mod ?c) = (ms @ [m]) ! i" if "i < Suc (length ms)" "Suc (length ms) \<le> i + ?c" for i
  proof (cases "i = length ms")
    case True
    then show ?thesis using lt by (simp add: ring_def)
  next
    case False
    then have i: "i < length ms" "length ms < i + ?c" using that by auto
    then have "i mod ?c \<noteq> length ms mod ?c" by (rule recent_index_apart)
    then show ?thesis using r(5)[of i] i by (simp add: ring_def nth_append)
  qed
  define n where "n = length ms mod ?c"
  have nxt: "Suc (length ms) mod ?c = (if Suc n = ?c then 0 else Suc n)"
    by (simp add: mod_Suc n_def)
  have fill: "min (Suc (length ms)) ?c = (if frFilled r < ?c then frFilled r + 1 else frFilled r)"
    using r(3) by (simp add: min_def)
  have "frNext r = n" "n < ?c" using r(2) lt by (simp_all add: n_def)
  then have "\<exists>f. record_mark m r = Some (r\<lparr>frRing := ring, frNext := Suc (length ms) mod ?c,
       frFilled := min (Suc (length ms)) ?c, frCount := int (length ms) + 1, frFirstPresented := f\<rparr>)"
    unfolding nxt fill ring_def n_def[symmetric] r(4)[symmetric]
    by (auto simp: record_mark_def Let_def intro: exI[of _ "frFirstPresented r"])
  then obtain f where "record_mark m r = Some (r\<lparr>frRing := ring, frNext := Suc (length ms) mod ?c,
       frFilled := min (Suc (length ms)) ?c, frCount := int (length ms) + 1, frFirstPresented := f\<rparr>)" ..
  then show ?thesis
    using r(1) ring by (auto simp: ring_of_def ring_def)
qed

lemma marks_ring: "ring_of ms r \<Longrightarrow> recorder_marks r = last_n (length (frRing r)) ms"
proof (rule nth_equalityI)
  assume R: "ring_of ms r"
  let ?c = "length (frRing r)"
  have r: "0 < ?c" "frNext r = length ms mod ?c" "frFilled r = min (length ms) ?c"
    "\<And>i. i < length ms \<Longrightarrow> length ms \<le> i + ?c \<Longrightarrow> frRing r ! (i mod ?c) = ms ! i"
    using R by (auto simp: ring_of_def)
  show "length (recorder_marks r) = length (last_n ?c ms)"
    by (simp add: recorder_marks_def Let_def r(3) min.commute)
  fix i assume "i < length (recorder_marks r)"
  then have i: "i < min (length ms) ?c" by (simp add: recorder_marks_def Let_def r(3))
  show "recorder_marks r ! i = last_n ?c ms ! i"
  proof (cases "?c \<le> length ms")
    case True
    then have "(length ms mod ?c + i) mod ?c = (length ms - ?c + i) mod ?c"
      by (simp add: mod_add_left_eq le_mod_geq)
    moreover have "frRing r ! ((length ms - ?c + i) mod ?c) = ms ! (length ms - ?c + i)"
      using i True by (intro r(4)) auto
    ultimately show ?thesis
      using i True by (simp add: recorder_marks_def Let_def r(2,3) last_n_def)
  next
    case False
    then show ?thesis
      using i r(4)[of i] by (simp add: recorder_marks_def Let_def r(2,3) last_n_def)
  qed
qed

text \<open>
  The ring is a window over the log: after recording any marks in a recorder of
  positive capacity no index is out of range, \<open>Marks\<close> is the newest
  capacity-many of them in the order they were recorded, and \<open>Total\<close> counts them all.
\<close>

theorem recorder_keeps_newest:
  assumes "0 < n"
  shows "\<exists>r. fold_opt record_mark ms (new_recorder n) = Some r
     \<and> recorder_marks r = last_n (nat n) ms \<and> frFilled r = min (length ms) (nat n) \<and> frCount r = int (length ms)"
proof -
  have "\<exists>r. fold_opt record_mark ms (new_recorder n) = Some r \<and> ring_of ms r \<and> length (frRing r) = nat n"
  proof (rule fold_opt_invariant[where P = "\<lambda>ys t. ring_of ys t \<and> length (frRing t) = nat n"])
    show "ring_of [] (new_recorder n) \<and> length (frRing (new_recorder n)) = nat n"
      using assms by (simp add: ring_of_def new_recorder_def Let_def)
    show "\<exists>u. record_mark m t = Some u \<and> ring_of (ys @ [m]) u \<and> length (frRing u) = nat n"
      if "ring_of ys t \<and> length (frRing t) = nat n" for m ys t
      using record_mark_ring[of ys t m] that by auto
  qed
  then obtain r where r: "fold_opt record_mark ms (new_recorder n) = Some r" "ring_of ms r" "length (frRing r) = nat n"
    by blast
  with marks_ring[OF r(2)] show ?thesis by (auto simp: ring_of_def)
qed

theorem recorder_keeps_newest_witness:
  "\<exists>r. fold_opt record_mark [zero_mark\<lparr>fmSerial := 1\<rparr>, zero_mark\<lparr>fmSerial := 2\<rparr>, zero_mark\<lparr>fmSerial := 3\<rparr>]
       (new_recorder 2) = Some r \<and> map fmSerial (recorder_marks r) = [2, 3]"
  using recorder_keeps_newest[of 2 "[zero_mark\<lparr>fmSerial := 1\<rparr>, zero_mark\<lparr>fmSerial := 2\<rparr>, zero_mark\<lparr>fmSerial := 3\<rparr>]"]
  by (auto simp: last_n_def)

subsection \<open>A changed layer is redrawn where it changed\<close>

text \<open>
  \<open>Bump\<close> to a newer version makes every tile of the layer that meets the dirty
  rectangle (in any orientation) need redrawing, whatever its state, and costs no other tile
  its pixels; an older or equal version changes nothing at all.
\<close>

theorem bump_redraws_dirty:
  assumes "grid_ok (lyGrid l)" "lyVersion l < v"
    and "rect_intersects (coord_rect c (gTileSize (lyGrid l))) (rect_canon dirty)" "inside (lyGrid l) c"
    and "\<And>t. gTiles (lyGrid l) c = Some t \<Longrightarrow> tVersion t \<le> lyVersion l"
  shows "layer_needs (snd (bump v dirty l)) c \<and> grid_pixels (lyGrid (snd (bump v dirty l))) = grid_pixels (lyGrid l)
    \<and> (\<forall>w \<le> lyVersion l. bump w dirty l = (0, l))"
proof -
  let ?g = "snd (advance v (rect_canon dirty) (lyGrid l))"
  note A = advance_tiles[OF assms(1), of v "rect_canon dirty"]
  have b: "lyGrid (snd (bump v dirty l)) = ?g" "lyVersion (snd (bump v dirty l)) = v"
    using assms(2) by (auto simp: bump_def split: prod.split)
  have "tPixels (advanced v hit u) = tPixels u" for hit u by (simp add: advanced_def)
  then have "grid_pixels ?g = grid_pixels (lyGrid l)"
    by (auto simp: grid_pixels_def A fun_eq_iff split: option.split)
  moreover have "layer_needs (snd (bump v dirty l)) c"
  proof (cases "gTiles (lyGrid l) c")
    case None
    then show ?thesis using assms(4) by (simp add: layer_needs_def b needs_def inside_def A)
  next
    case (Some t)
    have "tVersion t < v" using assms(2,5) Some by fastforce
    moreover have "tState t = TileValid \<longrightarrow> tPixels t \<noteq> None"
      using grid_ok_tile[OF assms(1) Some] by (simp add: tile_ok_def)
    ultimately show ?thesis
      using assms(3,4) Some by (auto simp: layer_needs_def b needs_def inside_def A valid_at_def advanced_def)
  qed
  ultimately show ?thesis by (simp add: b) (simp add: bump_def)
qed

theorem bump_redraws_dirty_witness:
  "layer_needs (snd (bump 1 (rect4 300 300 10 10) \<lparr>lyID = 1, lyVersion = 0, lyBounds = gExtent demo_grid, lyGrid = demo_grid,
     lyContent = None\<rparr>)) (TC 1 1)"
proof -
  have "inside demo_grid (TC 1 1)" "gTiles demo_grid (TC 1 1) = None"
    "rect_intersects (coord_rect (TC 1 1) (gTileSize demo_grid)) (rect_canon (rect4 300 300 10 10))"
    by (simp_all add: grid_eval)
  then show ?thesis
    using bump_redraws_dirty[of "\<lparr>lyID = 1, lyVersion = 0, lyBounds = gExtent demo_grid, lyGrid = demo_grid,
      lyContent = None\<rparr>" 1 "TC 1 1" "rect4 300 300 10 10"] by simp
qed

end
