(* ===== verification/Compositor.thy ===== *)
theory Compositor
  imports Layers
begin

text \<open>
  \<open>internal/surface/composer.go\<close>: the owner of the backing store. A tile handed
  to \<open>Compose\<close> carries the pixels its pointer leads to; the backing store is a buffer
  of the composer's own memory \<open>cpMem\<close>, which maps the address of a buffer to its
  bytes. An operation that would dereference a nil backing store, or index outside a
  buffer, is \<open>None\<close>.
\<close>

subsection \<open>Scratch slices\<close>

text \<open>
  A slice that is kept and refilled: its elements and its capacity. Appending past the
  capacity reallocates; the model takes the least new capacity the language allows.
\<close>

record 'a scratch =
  slItems :: "'a list"
  slCap :: nat

definition sl_empty :: "nat \<Rightarrow> 'a scratch" where
  "sl_empty n = \<lparr>slItems = [], slCap = n\<rparr>"

definition sl_truncate :: "'a scratch \<Rightarrow> 'a scratch" where
  "sl_truncate s = s\<lparr>slItems := []\<rparr>"

definition sl_append :: "'a \<Rightarrow> 'a scratch \<Rightarrow> 'a scratch" where
  "sl_append x s = \<lparr>slItems = slItems s @ [x], slCap = max (slCap s) (Suc (length (slItems s)))\<rparr>"

definition sl_append_all :: "'a list \<Rightarrow> 'a scratch \<Rightarrow> 'a scratch" where
  "sl_append_all xs s = fold sl_append xs s"

lemma sl_simps [simp]:
  "slItems (sl_empty n) = []" "slCap (sl_empty n) = n"
  "slItems (sl_truncate s) = []" "slCap (sl_truncate s) = slCap s"
  "slItems (sl_append x s) = slItems s @ [x]"
  by (simp_all add: sl_empty_def sl_truncate_def sl_append_def)

lemma sl_append_cap: "length (slItems s) < slCap s \<Longrightarrow> slCap (sl_append x s) = slCap s"
  by (simp add: sl_append_def)

lemma sl_append_all_items [simp]: "slItems (sl_append_all xs s) = slItems s @ xs"
  unfolding sl_append_all_def by (induction xs arbitrary: s) simp_all

lemma sl_append_all_cap:
  "length (slItems s) + length xs \<le> slCap s \<Longrightarrow> slCap (sl_append_all xs s) = slCap s"
  unfolding sl_append_all_def by (induction xs arbitrary: s) (simp_all add: sl_append_cap)

lemma sl_append_all_simps [simp]:
  "sl_append_all [] s = s" "sl_append_all (x # xs) s = sl_append_all xs (sl_append x s)"
  by (simp_all add: sl_append_all_def)

subsection \<open>The composer\<close>

type_synonym memory = "nat \<Rightarrow> byte list"

definition bitmap_of :: "memory \<Rightarrow> buf \<Rightarrow> bitmap" where
  "bitmap_of m b = \<lparr>bRGBA = m (bufId b), bW = bufW b, bH = bufH b, bStride = bufStride b\<rparr>"

record tile_blit =
  tbPixels :: "bitmap option"
  tbDst :: rect

record composer =
  cpBacking :: "buf option"
  cpMem :: memory
  cpPool :: pool
  cpDamage :: "rect scratch"

definition reserve_damage :: "nat \<Rightarrow> composer \<Rightarrow> composer" where
  "reserve_damage n c =
     (if slCap (cpDamage c) \<ge> n then c
      else c\<lparr>cpDamage := \<lparr>slItems = slItems (cpDamage c), slCap = n\<rparr>\<rparr>)"

text \<open>
  A buffer of the wanted size: from the pool when the pool is of that size (its bytes are
  whatever they were), otherwise a new zeroed one, whose address is the next one free.
\<close>

definition store_for :: "gsize \<Rightarrow> memory \<times> pool \<Rightarrow> buf \<times> memory \<times> pool" where
  "store_for vp mp =
     (case mp of (m, pl) \<Rightarrow>
       if plSize pl = vp then (let (b, pl) = pool_acquire pl in (b, m, pl))
       else (let b = new_buf (plNext pl) (sW vp) (sH vp)
             in (b, m(bufId b := bRGBA (new_bitmap (sW vp) (sH vp))), pl\<lparr>plNext := Suc (plNext pl)\<rparr>)))"

definition new_composer :: "gsize \<Rightarrow> memory \<Rightarrow> pool \<Rightarrow> composer" where
  "new_composer vp m pl =
     (let (b, m, pl) = store_for vp (m, pl)
      in \<lparr>cpBacking = Some b, cpMem = m, cpPool = pl, cpDamage = sl_empty 0\<rparr>)"

definition composer_from_backing :: "buf option \<Rightarrow> memory \<Rightarrow> pool \<Rightarrow> composer" where
  "composer_from_backing b m pl = \<lparr>cpBacking = b, cpMem = m, cpPool = pl, cpDamage = sl_empty 0\<rparr>"

definition buf_size :: "buf \<Rightarrow> gsize" where
  "buf_size b = \<lparr>sW = i32 (bufW b), sH = i32 (bufH b)\<rparr>"

definition composer_resize :: "gsize \<Rightarrow> composer \<Rightarrow> bool \<times> composer" where
  "composer_resize vp c =
     (if cpBacking c \<noteq> None \<and> buf_size (the (cpBacking c)) = vp then (False, c)
      else let pl = (if cpBacking c \<noteq> None then pool_release (cpBacking c) (cpPool c) else cpPool c);
               (b, m, pl) = store_for vp (cpMem c, pl)
           in (True, c\<lparr>cpBacking := Some b, cpMem := m, cpPool := pl\<rparr>))"

text \<open>The body of the loop over the tiles, for one damaged rectangle clipped to the surface.\<close>

definition compose_tile :: "rect \<Rightarrow> tile_blit \<Rightarrow> bitmap \<times> int option \<Rightarrow> (bitmap \<times> int option) option" where
  "compose_tile r t bw =
     (case tbPixels t of
        None \<Rightarrow> Some bw
      | Some s \<Rightarrow>
         (if bitmap_empty (Some s) then Some bw
          else let blit = rect_intersection (tbDst t) r in
          if rect_empty blit then Some bw
          else let src = rect_intersection (rect_translate blit (i32 (- rX0 (tbDst t))) (i32 (- rY0 (tbDst t))))
                           (bitmap_bounds s) in
          if rect_empty src then Some bw
          else blit_over (Some s) (rect_origin blit) src r bw))"

definition compose_rect :: "color \<Rightarrow> tile_blit list \<Rightarrow> rect \<Rightarrow> rect \<Rightarrow>
    rect scratch \<times> bitmap \<times> int option \<Rightarrow> (rect scratch \<times> bitmap \<times> int option) option" where
  "compose_rect bg tiles vp d st =
     (case st of (out, bw) \<Rightarrow>
       let r = rect_intersection d vp in
       if rect_empty r then Some st
       else (case fill_rect r bg bw of
               None \<Rightarrow> None
             | Some bw \<Rightarrow> (case fold_opt (compose_tile r) tiles bw of
                 None \<Rightarrow> None
               | Some bw \<Rightarrow> Some (sl_append r out, bw))))"

definition compose :: "color \<Rightarrow> tile_blit list \<Rightarrow> rect list \<Rightarrow> int option \<Rightarrow> composer
    \<Rightarrow> (rect list \<times> int option \<times> composer) option" where
  "compose bg tiles damage writes c =
     (case cpBacking c of
        None \<Rightarrow> None
      | Some b \<Rightarrow>
         (let bm = bitmap_of (cpMem c) b in
          case fold_opt (compose_rect bg tiles (bitmap_bounds bm)) damage (sl_truncate (cpDamage c), bm, writes) of
            None \<Rightarrow> None
          | Some (out, bm', writes) \<Rightarrow>
              Some (slItems out, writes, c\<lparr>cpMem := (cpMem c)(bufId b := bRGBA bm'), cpDamage := out\<rparr>)))"

text \<open>\<open>ShiftY\<close>: one row copied over another, \<open>copy(b.RGBA[d..], b.RGBA[s..])\<close>.\<close>

definition copy_row :: "int \<Rightarrow> int \<Rightarrow> bitmap \<Rightarrow> bitmap option" where
  "copy_row d s b =
     (case slice (bRGBA b) (d * bStride b) ((d + 1) * bStride b) of
        None \<Rightarrow> None
      | Some drow \<Rightarrow>
         (case slice (bRGBA b) (s * bStride b) ((s + 1) * bStride b) of
            None \<Rightarrow> None
          | Some srow \<Rightarrow> Some (b\<lparr>bRGBA := splice (bRGBA b) (nat (d * bStride b)) srow\<rparr>)))"

definition shift_bitmap :: "int \<Rightarrow> bitmap \<times> int option \<Rightarrow> (bitmap \<times> int option) option" where
  "shift_bitmap dy bw =
     (case bw of (b, writes) \<Rightarrow>
       let h = i32 (bH b) in
       if dy = 0 \<or> dy \<ge> h \<or> i32 (- dy) \<ge> h then Some bw
       else if dy > 0
       then (let writes = map_option (\<lambda>n. i64 (n + i64 (i32 (h - dy) * bW b))) writes
             in map_option (\<lambda>b. (b, writes)) (fold_opt (\<lambda>y. copy_row y (dy + y)) (range_int 0 (i32 (h - dy))) b))
       else (let writes = map_option (\<lambda>n. i64 (n + i64 (i32 (h + dy) * bW b))) writes
             in map_option (\<lambda>b. (b, writes))
                  (fold_opt (\<lambda>s. copy_row (s - dy) s) (rev (range_int 0 (i32 (h + dy)))) b)))"

definition shift_y :: "int \<Rightarrow> int option \<Rightarrow> composer \<Rightarrow> (int option \<times> composer) option" where
  "shift_y dy writes c =
     (case cpBacking c of
        None \<Rightarrow> None
      | Some b \<Rightarrow>
         (case shift_bitmap dy (bitmap_of (cpMem c) b, writes) of
            None \<Rightarrow> None
          | Some (bm, writes) \<Rightarrow> Some (writes, c\<lparr>cpMem := (cpMem c)(bufId b := bRGBA bm)\<rparr>)))"

definition composer_clear :: "composer \<Rightarrow> composer" where
  "composer_clear c =
     (case cpBacking c of
        None \<Rightarrow> c
      | Some b \<Rightarrow> c\<lparr>cpMem := (cpMem c)(bufId b := bRGBA (bitmap_reset (bitmap_of (cpMem c) b)))\<rparr>)"

definition damage_scratch :: "composer \<Rightarrow> rect list" where
  "damage_scratch c = slItems (sl_truncate (cpDamage c))"

subsection \<open>What composing paints\<close>

text \<open>Coordinates far from the ends of \<open>int32\<close>.\<close>

definition near :: "int \<Rightarrow> bool" where
  "near z \<longleftrightarrow> - 536870912 \<le> z \<and> z \<le> 536870912"

definition near_rect :: "rect \<Rightarrow> bool" where
  "near_rect r \<longleftrightarrow> near (rX0 r) \<and> near (rY0 r) \<and> near (rX1 r) \<and> near (rY1 r)"

definition good_surface :: "bitmap \<Rightarrow> bool" where
  "good_surface b \<longleftrightarrow> wf_bitmap b \<and> near (bW b) \<and> near (bH b)"

definition good_tile :: "tile_blit \<Rightarrow> bool" where
  "good_tile t \<longleftrightarrow> near_rect (tbDst t) \<and> (\<forall>s. tbPixels t = Some s \<longrightarrow> good_surface s)"

text \<open>The reference: tiles composited one over the other at one point of the surface.\<close>

definition tile_over :: "int \<Rightarrow> int \<Rightarrow> tile_blit \<Rightarrow> color \<Rightarrow> color" where
  "tile_over u v t d =
     (case tbPixels t of
        None \<Rightarrow> d
      | Some s \<Rightarrow>
         (let x = u - rX0 (tbDst t); y = v - rY0 (tbDst t)
          in if rect_contains (tbDst t) (Pt u v) \<and> in_bitmap s x y then blend_over d (px s x y) else d))"

definition scene :: "color \<Rightarrow> tile_blit list \<Rightarrow> int \<Rightarrow> int \<Rightarrow> color \<Rightarrow> color" where
  "scene bg tiles u v d = fold (tile_over u v) tiles (blend_over d bg)"

lemma blend_over_opaque_color [simp]: "color_opaque c \<Longrightarrow> blend_over d c = c"
  by (simp add: blend_over_def color_opaque_def Let_def)

lemma good_surface_same_frame: "good_surface b \<Longrightarrow> same_frame b c \<Longrightarrow> good_surface c"
  by (simp add: good_surface_def same_frame_def wf_bitmap_def)

lemma repaints_refl: "repaints (\<lambda>u v. False) f b b"
  by (simp add: repaints_def)

lemma empty_bitmap_pixel: "wf_bitmap s \<Longrightarrow> bitmap_empty (Some s) \<Longrightarrow> \<not> in_bitmap s x y"
proof
  assume wf: "wf_bitmap s" and e: "bitmap_empty (Some s)" and i: "in_bitmap s x y"
  then have "length (bRGBA s) = 0" by (auto simp: bitmap_empty_def in_bitmap_def)
  then have "bStride s * bH s \<le> 0" using wf by (simp add: wf_bitmap_def)
  moreover have "0 < bStride s" "0 < bH s" using wf i by (auto simp: wf_bitmap_def in_bitmap_def)
  ultimately show False using mult_pos_pos[of "bStride s" "bH s"] by linarith
qed

text \<open>The source rectangle of a blit, without wrap-around.\<close>

lemma blit_source:
  assumes "near_rect dst" "\<not> rect_empty (rect_intersection dst r)" "bl = rect_intersection dst r"
    and "near (rX1 r)" "near (rY1 r)" "near (rX0 r)" "near (rY0 r)"
  shows "rect_translate bl (i32 (- rX0 dst)) (i32 (- rY0 dst))
     = rect4 (rX0 bl - rX0 dst) (rY0 bl - rY0 dst) (rX1 bl - rX0 dst) (rY1 bl - rY0 dst)"
    and "rX0 dst \<le> rX0 bl" "rY0 dst \<le> rY0 bl" "near_rect bl" "rX0 bl < rX1 bl" "rY0 bl < rY1 bl"
    "rX1 bl \<le> rX1 dst" "rY1 bl \<le> rY1 dst"
proof -
  note i = intersection_inside[OF assms(2), folded assms(3)]
  have ne: "rX0 bl < rX1 bl" "rY0 bl < rY1 bl"
    using assms(2) by (simp_all add: assms(3) not_empty_edges)
  with i show nb: "rX0 dst \<le> rX0 bl" "rY0 dst \<le> rY0 bl" "near_rect bl" "rX0 bl < rX1 bl" "rY0 bl < rY1 bl"
    "rX1 bl \<le> rX1 dst" "rY1 bl \<le> rY1 dst"
    using assms(1,4-) by (auto simp: near_rect_def near_def)
  show "rect_translate bl (i32 (- rX0 dst)) (i32 (- rY0 dst))
     = rect4 (rX0 bl - rX0 dst) (rY0 bl - rY0 dst) (rX1 bl - rX0 dst) (rY1 bl - rY0 dst)"
    using assms(1) nb(3) by (simp add: rect_translate_def rect4_def near_rect_def near_def in32_def)
qed

lemma compose_tile_pixels:
  assumes b: "good_surface b" and t: "good_tile t" and r: "near_rect r"
  shows "\<exists>b' w'. compose_tile r t (b, w) = Some (b', w')
     \<and> repaints (\<lambda>u v. rect_contains r (Pt u v)) (\<lambda>u v d. tile_over u v t d) b b'"
proof (cases "tbPixels t")
  case None
  then show ?thesis by (simp add: compose_tile_def tile_over_def repaints_def)
next
  case (Some s)
  have gs: "good_surface s" and dst: "near_rect (tbDst t)" using t Some by (auto simp: good_tile_def)
  then have ws: "wf_bitmap s" and wb: "wf_bitmap b" using b by (auto simp: good_surface_def)
  define bl where "bl = rect_intersection (tbDst t) r"
  define src where "src = rect_intersection (rect_translate bl (i32 (- rX0 (tbDst t))) (i32 (- rY0 (tbDst t))))
    (bitmap_bounds s)"
  have skip: "repaints (\<lambda>u v. rect_contains r (Pt u v)) (\<lambda>u v d. tile_over u v t d) b b"
    if "\<And>u v. rect_contains r (Pt u v) \<Longrightarrow> rect_contains (tbDst t) (Pt u v)
          \<Longrightarrow> \<not> in_bitmap s (u - rX0 (tbDst t)) (v - rY0 (tbDst t))"
    using that Some by (auto simp: repaints_def tile_over_def Let_def)
  show ?thesis
  proof (cases "bitmap_empty (Some s) \<or> rect_empty bl")
    case True
    then have "\<not> in_bitmap s x y" if "rect_contains r (Pt u v)" "rect_contains (tbDst t) (Pt u v)"
        "bitmap_empty (Some s)" for u v x y
      using empty_bitmap_pixel[OF ws] that by blast
    moreover have False if "rect_contains r (Pt u v)" "rect_contains (tbDst t) (Pt u v)" "rect_empty bl" for u v
      using that contains_intersection[of "tbDst t" r "Pt u v"] by (simp add: bl_def[symmetric])
    ultimately have "repaints (\<lambda>u v. rect_contains r (Pt u v)) (\<lambda>u v d. tile_over u v t d) b b"
      using True by (intro skip) blast
    with True Some show ?thesis by (auto simp: compose_tile_def bl_def[symmetric] Let_def)
  next
    case False
    have nr: "near (rX1 r)" "near (rY1 r)" "near (rX0 r)" "near (rY0 r)"
      using r by (auto simp: near_rect_def)
    note bs = blit_source[OF dst False[THEN conjunct2[OF iffD1[OF de_Morgan_disj]], unfolded bl_def] refl nr, folded bl_def]
    have in_src: "rect_contains src (Pt (u - rX0 (tbDst t)) (v - rY0 (tbDst t)))
        \<longleftrightarrow> rect_contains bl (Pt u v) \<and> in_bitmap s (u - rX0 (tbDst t)) (v - rY0 (tbDst t))" for u v
      unfolding src_def bs(1) contains_intersection contains_bitmap_bounds[OF ws] by (auto simp: rect_contains_def)
    have in_bl: "rect_contains bl (Pt u v) \<longleftrightarrow> rect_contains (tbDst t) (Pt u v) \<and> rect_contains r (Pt u v)" for u v
      by (simp add: bl_def)
    show ?thesis
    proof (cases "rect_empty src")
      case True
      then have "repaints (\<lambda>u v. rect_contains r (Pt u v)) (\<lambda>u v d. tile_over u v t d) b b"
        using in_src in_bl by (intro skip) (meson not_contains_empty)
      with True False Some show ?thesis
        by (auto simp: compose_tile_def bl_def[symmetric] src_def[symmetric] Let_def)
    next
      case ne: False
      note i = intersection_inside[OF ne[unfolded src_def], folded src_def]
      have x0: "rX0 src = rX0 bl - rX0 (tbDst t)" "rY0 src = rY0 bl - rY0 (tbDst t)"
        using ne bs(2,3) unfolding src_def bs(1)
        by (auto simp: rect_intersection_def Let_def bitmap_bounds_def split: if_splits)
      have "rX1 src \<le> bW s" "rY1 src \<le> bH s" "rX0 src < rX1 src" "rY0 src < rY1 src"
        using i ne ws by (auto simp: bitmap_bounds_def wf_bitmap_def not_empty_edges)
      then have rng: "blit_in_range s (rect_origin bl) src"
        using bs(2-6) dst gs x0 by (auto simp: blit_in_range_def rect_origin_def near_rect_def near_def
            good_surface_def wf_bitmap_def in32_def)
      have dom: "blit_domain s (rect_origin bl) src r u v \<longleftrightarrow>
          rect_contains (tbDst t) (Pt u v) \<and> rect_contains r (Pt u v) \<and> in_bitmap s (u - rX0 (tbDst t)) (v - rY0 (tbDst t))"
        for u v
        using in_src[of u v] in_bl[of u v] by (auto simp: blit_domain_def rect_origin_def x0)
      have at: "u - pX (rect_origin bl) + rX0 src = u - rX0 (tbDst t)" "v - pY (rect_origin bl) + rY0 src = v - rY0 (tbDst t)"
        for u v by (simp_all add: rect_origin_def x0)
      obtain b' where "blit_over (Some s) (rect_origin bl) src r (b, w) =
          Some (b', if rect_empty (blit_dest b s (rect_origin bl) src r) then w
             else count_writes (blit_dest b s (rect_origin bl) src r) w)"
        "same_frame b b'" "\<And>u v. in_bitmap b u v \<Longrightarrow> px b' u v =
           (if blit_domain s (rect_origin bl) src r u v
            then blend_over (px b u v) (px s (u - pX (rect_origin bl) + rX0 src) (v - pY (rect_origin bl) + rY0 src)) else px b u v)"
        using blit_over_pixels[OF wb ws _ rng, of r w] False by blast
      then show ?thesis
        using False ne Some unfolding dom at
        by (auto simp: compose_tile_def bl_def[symmetric] src_def[symmetric] Let_def repaints_def tile_over_def)
    qed
  qed
qed

lemma repaints_then:
  assumes "repaints D f b c" "repaints D g c d"
  shows "repaints D (\<lambda>u v x. g u v (f u v x)) b d"
  using assms by (auto simp: repaints_def in_bitmap_same_frame intro: same_frame_trans)

lemma compose_tiles_pixels:
  assumes r: "near_rect r"
  shows "good_surface b \<Longrightarrow> \<forall>t\<in>set tiles. good_tile t \<Longrightarrow>
    \<exists>b' w'. fold_opt (compose_tile r) tiles (b, w) = Some (b', w')
     \<and> repaints (\<lambda>u v. rect_contains r (Pt u v)) (\<lambda>u v d. fold (tile_over u v) tiles d) b b'"
proof (induction tiles arbitrary: b w)
  case Nil
  then show ?case by (simp add: repaints_def)
next
  case (Cons t tiles)
  obtain b1 w1 where s1: "compose_tile r t (b, w) = Some (b1, w1)"
    "repaints (\<lambda>u v. rect_contains r (Pt u v)) (\<lambda>u v d. tile_over u v t d) b b1"
    using compose_tile_pixels[OF Cons.prems(1) _ r, of t w] Cons.prems(2) by auto
  then have "good_surface b1"
    using Cons.prems(1) by (auto simp: repaints_def intro: good_surface_same_frame)
  then obtain b2 w2 where s2: "fold_opt (compose_tile r) tiles (b1, w1) = Some (b2, w2)"
    "repaints (\<lambda>u v. rect_contains r (Pt u v)) (\<lambda>u v d. fold (tile_over u v) tiles d) b1 b2"
    using Cons.IH[of b1 w1] Cons.prems(2) by auto
  show ?case using s1(1) s2(1) repaints_then[OF s1(2) s2(2)] by auto
qed

lemma compose_rect_pixels:
  assumes b: "good_surface b" and t: "\<forall>t\<in>set tiles. good_tile t" and vp: "vp = bitmap_bounds b"
  shows "\<exists>b' w'. compose_rect bg tiles vp d (out, b, w) =
       Some (if rect_empty (rect_intersection d vp) then out else sl_append (rect_intersection d vp) out, b', w')
     \<and> repaints (\<lambda>u v. rect_contains d (Pt u v)) (\<lambda>u v x. scene bg tiles u v x) b b'
     \<and> (rect_empty (rect_intersection d vp) \<longrightarrow> b' = b \<and> w' = w)"
proof -
  define r where "r = rect_intersection d vp"
  have wb: "wf_bitmap b" using b by (simp add: good_surface_def)
  have in_r: "rect_contains r (Pt u v) \<longleftrightarrow> rect_contains d (Pt u v)" if "in_bitmap b u v" for u v
    using that contains_bitmap_bounds[OF wb] by (simp add: r_def vp)
  have swap: "repaints (\<lambda>u v. rect_contains d (Pt u v)) f b c" if "repaints (\<lambda>u v. rect_contains r (Pt u v)) f b c" for f c
    using that in_r by (simp add: repaints_def)
  show ?thesis
  proof (cases "rect_empty r")
    case True
    then have "repaints (\<lambda>u v. rect_contains r (Pt u v)) (\<lambda>u v x. scene bg tiles u v x) b b"
      by (simp add: repaints_def)
    from swap[OF this] True show ?thesis by (simp add: compose_rect_def r_def[symmetric])
  next
    case False
    have nr: "near_rect r"
      using clip_in_bitmap[OF wb False[unfolded r_def vp] r_def[unfolded vp]] b
      by (auto simp: near_rect_def near_def good_surface_def)
    obtain b1 w1 where s1: "fill_rect r bg (b, w) = Some (b1, w1)"
      "repaints (\<lambda>u v. rect_contains r (Pt u v)) (\<lambda>u v x. blend_over x bg) b b1"
      using fill_rect_pixels[OF wb, of r bg w] by (auto simp: repaints_def)
    then have "good_surface b1" using b by (auto simp: repaints_def intro: good_surface_same_frame)
    then obtain b2 w2 where s2: "fold_opt (compose_tile r) tiles (b1, w1) = Some (b2, w2)"
      "repaints (\<lambda>u v. rect_contains r (Pt u v)) (\<lambda>u v d. fold (tile_over u v) tiles d) b1 b2"
      using compose_tiles_pixels[OF nr, of b1 tiles w1] t by blast
    have "repaints (\<lambda>u v. rect_contains r (Pt u v)) (\<lambda>u v x. scene bg tiles u v x) b b2"
      using repaints_then[OF s1(2) s2(2)] by (simp add: scene_def)
    from swap[OF this] s1(1) s2(1) False show ?thesis
      by (simp add: compose_rect_def r_def[symmetric])
  qed
qed

definition presented :: "rect \<Rightarrow> rect list \<Rightarrow> rect list" where
  "presented vp damage = filter (\<lambda>r. \<not> rect_empty r) (map (\<lambda>d. rect_intersection d vp) damage)"

lemma compose_rects_pixels:
  assumes "color_opaque bg" "\<forall>t\<in>set tiles. good_tile t"
  shows "good_surface b \<Longrightarrow> vp = bitmap_bounds b \<Longrightarrow>
    \<exists>out' b' w'. fold_opt (compose_rect bg tiles vp) damage (out, b, w) = Some (out', b', w')
     \<and> slItems out' = slItems out @ presented vp damage
     \<and> out' = sl_append_all (presented vp damage) out
     \<and> repaints (\<lambda>u v. \<exists>d\<in>set damage. rect_contains d (Pt u v)) (\<lambda>u v x. scene bg tiles u v x) b b'
     \<and> (presented vp damage = [] \<longrightarrow> b' = b \<and> w' = w)"
proof (induction damage arbitrary: b w out)
  case Nil
  then show ?case by (simp add: repaints_def presented_def)
next
  case (Cons d damage)
  let ?r = "rect_intersection d vp"
  obtain b1 w1 where s1: "compose_rect bg tiles vp d (out, b, w) =
       Some (if rect_empty ?r then out else sl_append ?r out, b1, w1)"
     "repaints (\<lambda>u v. rect_contains d (Pt u v)) (\<lambda>u v x. scene bg tiles u v x) b b1"
     "rect_empty ?r \<longrightarrow> b1 = b \<and> w1 = w"
    using compose_rect_pixels[OF Cons.prems(1) assms(2) Cons.prems(2), of bg d out w] by blast
  have sf: "same_frame b b1" using s1(2) by (simp add: repaints_def)
  then have "good_surface b1" "vp = bitmap_bounds b1"
    using Cons.prems by (auto simp: bounds_same_frame intro: good_surface_same_frame)
  from Cons.IH[OF this, of "if rect_empty ?r then out else sl_append ?r out" w1] obtain out' b2 w2 where
    s2: "fold_opt (compose_rect bg tiles vp) damage (if rect_empty ?r then out else sl_append ?r out, b1, w1) = Some (out', b2, w2)"
      "slItems out' = slItems (if rect_empty ?r then out else sl_append ?r out) @ presented vp damage"
      "out' = sl_append_all (presented vp damage) (if rect_empty ?r then out else sl_append ?r out)"
      "repaints (\<lambda>u v. \<exists>d\<in>set damage. rect_contains d (Pt u v)) (\<lambda>u v x. scene bg tiles u v x) b1 b2"
      "presented vp damage = [] \<longrightarrow> b2 = b1 \<and> w2 = w1" by blast
  have "repaints (\<lambda>u v. \<exists>d\<in>set (d # damage). rect_contains d (Pt u v)) (\<lambda>u v x. scene bg tiles u v x) b b2"
    using s1(2) s2(4) sf assms(1)
    by (auto simp: repaints_def scene_def in_bitmap_same_frame intro: same_frame_trans)
  with s1 s2 show ?case by (auto simp: presented_def)
qed

lemma bitmap_of_store: "same_frame (bitmap_of m b) bm \<Longrightarrow> bitmap_of (m(bufId b := bRGBA bm)) b = bm"
  by (cases bm) (simp add: bitmap_of_def same_frame_def)

lemma compose_pixels:
  assumes "cpBacking c = Some b" "good_surface (bitmap_of (cpMem c) b)" "color_opaque bg" "\<forall>t\<in>set tiles. good_tile t"
  shows "\<exists>w' c'. compose bg tiles damage w c = Some (presented (bitmap_bounds (bitmap_of (cpMem c) b)) damage, w', c')
     \<and> cpBacking c' = Some b \<and> cpPool c' = cpPool c \<and> (\<forall>a. a \<noteq> bufId b \<longrightarrow> cpMem c' a = cpMem c a)
     \<and> repaints (\<lambda>u v. \<exists>d\<in>set damage. rect_contains d (Pt u v)) (scene bg tiles) (bitmap_of (cpMem c) b) (bitmap_of (cpMem c') b)
     \<and> (presented (bitmap_bounds (bitmap_of (cpMem c) b)) damage = [] \<longrightarrow> w' = w \<and> cpMem c' = cpMem c)"
proof -
  let ?bm = "bitmap_of (cpMem c) b"
  obtain out b' w' where s: "fold_opt (compose_rect bg tiles (bitmap_bounds ?bm)) damage (sl_truncate (cpDamage c), ?bm, w) = Some (out, b', w')"
     "slItems out = presented (bitmap_bounds ?bm) damage"
     "repaints (\<lambda>u v. \<exists>d\<in>set damage. rect_contains d (Pt u v)) (scene bg tiles) ?bm b'"
     "presented (bitmap_bounds ?bm) damage = [] \<longrightarrow> b' = ?bm \<and> w' = w"
    using compose_rects_pixels[OF assms(3,4,2) refl, of damage "sl_truncate (cpDamage c)" w] by auto
  then have "bitmap_of ((cpMem c)(bufId b := bRGBA b')) b = b'"
    by (intro bitmap_of_store) (simp add: repaints_def)
  moreover have "(cpMem c)(bufId b := bRGBA ?bm) = cpMem c" by (simp add: bitmap_of_def)
  ultimately show ?thesis using assms(1) s by (simp add: compose_def)
qed

text \<open>
  Claim C11. \<open>Compose\<close> over an opaque background never indexes outside a buffer; it
  leaves every pixel inside a damaged rectangle showing the tiles composited in order over
  the background, however often the rectangles overlap and wherever the tiles hang off the
  surface, and every other pixel as it was; it returns exactly the clipped rectangles that
  are not empty, and when there is none it writes nothing and counts nothing.
\<close>

theorem compose_paints:
  assumes "cpBacking c = Some b" "good_surface (bitmap_of (cpMem c) b)" "color_opaque bg" "\<forall>t\<in>set tiles. good_tile t"
  shows "\<exists>w' c'. compose bg tiles damage w c = Some (presented (bitmap_bounds (bitmap_of (cpMem c) b)) damage, w', c')
     \<and> (\<forall>u v. in_bitmap (bitmap_of (cpMem c) b) u v \<longrightarrow>
          px (bitmap_of (cpMem c') b) u v =
            (if \<exists>d\<in>set damage. rect_contains d (Pt u v) then fold (tile_over u v) tiles bg
             else px (bitmap_of (cpMem c) b) u v))
     \<and> (\<forall>a. a \<noteq> bufId b \<longrightarrow> cpMem c' a = cpMem c a)
     \<and> (presented (bitmap_bounds (bitmap_of (cpMem c) b)) damage = [] \<longrightarrow> w' = w \<and> cpMem c' = cpMem c)"
  using compose_pixels[OF assms, of damage w] assms(3) by (force simp: repaints_def scene_def)

text \<open>A surface of two by two pixels and a tile of one white pixel hanging off its corner.\<close>

definition demo_store :: composer where
  "demo_store = composer_from_backing (Some (new_buf 7 2 2)) ((\<lambda>_. [])(7 := replicate 16 0))
     (new_bitmap_pool \<lparr>sW = 2, sH = 2\<rparr> 0)"

definition demo_white :: tile_blit where
  "demo_white = \<lparr>tbPixels = Some \<lparr>bRGBA = replicate 4 255, bW = 1, bH = 1, bStride = 4\<rparr>, tbDst = rect4 1 1 300 300\<rparr>"

theorem compose_paints_witness:
  "\<exists>w' c'. compose 0xFF [demo_white] [rect4 (- 5) 1 9 9, rect4 50 50 60 60] (Some 0) demo_store = Some ([rect4 0 1 2 2], w', c')
     \<and> px (bitmap_of (cpMem c') (new_buf 7 2 2)) 1 1 = 0xFFFFFFFF \<and> px (bitmap_of (cpMem c') (new_buf 7 2 2)) 0 1 = 0xFF
     \<and> px (bitmap_of (cpMem c') (new_buf 7 2 2)) 0 0 = 0"
proof -
  have r16: "replicate 16 (0 :: byte) = replicate 4 0 @ replicate 4 0 @ replicate 4 0 @ replicate 4 0" by (simp only: replicate_add[symmetric]) simp
  have st: "cpBacking demo_store = Some (new_buf 7 2 2)" by (simp add: demo_store_def composer_from_backing_def)
  have bm: "bitmap_of (cpMem demo_store) (new_buf 7 2 2) = \<lparr>bRGBA = replicate 16 0, bW = 2, bH = 2, bStride = 8\<rparr>"
    by (simp add: demo_store_def composer_from_backing_def bitmap_of_def new_buf_def)
  have good: "good_surface (bitmap_of (cpMem demo_store) (new_buf 7 2 2))" "\<forall>t\<in>set [demo_white]. good_tile t"
    by (simp_all add: bm good_surface_def wf_bitmap_def near_def in32_def good_tile_def demo_white_def near_rect_def)
  have op: "color_opaque 0xFF" by (simp add: color_opaque_def color_A_def)
  have pr: "presented (bitmap_bounds \<lparr>bRGBA = replicate 16 0, bW = 2, bH = 2, bStride = 8\<rparr>)
      [rect4 (- 5) 1 9 9, rect4 50 50 60 60] = [rect4 0 1 2 2]"
    by (simp add: presented_def bitmap_bounds_def rect_intersection_def rect_empty_def in32_def zero_rect_def Let_def rect4_def)
  have inb: "in_bitmap \<lparr>bRGBA = replicate 16 0, bW = 2, bH = 2, bStride = 8\<rparr> 1 1"
    "in_bitmap \<lparr>bRGBA = replicate 16 0, bW = 2, bH = 2, bStride = 8\<rparr> 0 1"
    "in_bitmap \<lparr>bRGBA = replicate 16 0, bW = 2, bH = 2, bStride = 8\<rparr> 0 0"
    by (simp_all add: in_bitmap_def)
  have old: "px \<lparr>bRGBA = replicate 16 0, bW = 2, bH = 2, bStride = 8\<rparr> 0 0 = 0"
    by (simp add: px_def r16 pack_color_def)
  have over: "tile_over 1 1 demo_white 0xFF = 0xFFFFFFFF" "tile_over 0 1 demo_white 0xFF = 0xFF"
    by (simp_all add: tile_over_def demo_white_def rect_contains_def in_bitmap_def px_def pack_color_def color_eval)
  show ?thesis
    using compose_paints[OF st good(1) op good(2), of "[rect4 (- 5) 1 9 9, rect4 50 50 60 60]" "Some 0"] inb old over
    unfolding bm pr by (force simp: rect_contains_def)
qed

subsection \<open>What shifting moves\<close>

lemma copy_row_pixels:
  assumes wf: "wf_bitmap b" and d: "0 \<le> d" "d < bH b" and s: "0 \<le> s" "s < bH b"
  shows "\<exists>b'. copy_row d s b = Some b' \<and> same_frame b b'
    \<and> (\<forall>u v. in_bitmap b u v \<longrightarrow> px b' u v = px b u (if v = d then s else v))"
proof -
  let ?st = "bStride b" and ?n = "length (bRGBA b)"
  have rows: "0 \<le> y * ?st" "y * ?st + ?st \<le> int ?n" if "0 \<le> y" "y < bH b" for y
    using row_end(1,3)[OF wf that, of 0] that wf by (auto simp: wf_bitmap_def)
  have st: "0 \<le> ?st" using wf by (simp add: wf_bitmap_def)
  define srow where "srow = take (nat ?st) (drop (nat (s * ?st)) (bRGBA b))"
  have sl: "slice (bRGBA b) (y * ?st) ((y + 1) * ?st) = Some (take (nat ?st) (drop (nat (y * ?st)) (bRGBA b)))"
    if "0 \<le> y" "y < bH b" for y
    using rows[OF that] st by (subst slice_Some) (auto simp: algebra_simps)
  have len: "length srow = nat ?st"
    using rows[OF s] st by (simp add: srow_def nat_diff_distrib)
  have fits: "nat (d * ?st) + length srow \<le> ?n"
    using rows[OF d] st by (simp add: len)
  let ?b' = "b\<lparr>bRGBA := splice (bRGBA b) (nat (d * ?st)) srow\<rparr>"
  have "px ?b' u v = px b u (if v = d then s else v)" if uv: "in_bitmap b u v" for u v
  proof -
    have a: "0 \<le> v * ?st + u * 4" "v * ?st + u * 4 + 4 \<le> v * ?st + ?st" "0 \<le> u * 4"
      using uv row_end(1)[OF wf, of v u] row_end(2)[OF wf, of v "u + 1"] by (auto simp: in_bitmap_def)
    show ?thesis
    proof (cases "v = d")
      case True
      have nd: "nat (d * ?st + u * 4) - nat (d * ?st) = nat (u * 4)"
        "nat (d * ?st) \<le> nat (d * ?st + u * 4)" "nat (d * ?st + u * 4) + 4 \<le> nat (d * ?st) + length srow"
        using a rows(1)[OF d] by (auto simp: len True)
      have four: "4 \<le> nat ?st - nat (u * 4)" using a by simp
      have "take 4 (drop (nat (u * 4)) srow) = take 4 (drop (nat (s * ?st + u * 4)) (bRGBA b))"
        using a rows(1)[OF s] four by (simp add: srow_def drop_take min_def nat_add_distrib add.commute)
      then show ?thesis using True nd by (simp add: px_def take4_splice(1)[OF fits])
    next
      case False
      have "v * ?st + ?st \<le> d * ?st \<or> d * ?st + ?st \<le> v * ?st"
        using rows_apart[OF wf, of v d] rows_apart[OF wf, of d v] False by linarith
      then have "nat (v * ?st + u * 4) + 4 \<le> nat (d * ?st) \<or> nat (d * ?st) + length srow \<le> nat (v * ?st + u * 4)"
        using a rows(1)[OF d] st by (auto simp: len)
      then show ?thesis using False by (simp add: px_def take4_splice(2)[OF fits])
    qed
  qed
  moreover have "copy_row d s b = Some ?b'" "same_frame b ?b'"
    using sl[OF d] sl[OF s] fits by (simp_all add: copy_row_def srow_def same_frame_def)
  ultimately show ?thesis by blast
qed

text \<open>Rows copied one after the other, no source row being overwritten before it is read.\<close>

lemma copy_rows_pixels:
  assumes wf: "wf_bitmap b"
    and rng: "\<And>y. y \<in> set rs \<Longrightarrow> 0 \<le> to_row y \<and> to_row y < bH b \<and> 0 \<le> to_row y + dy \<and> to_row y + dy < bH b"
    and apart: "\<And>ys y zs x. rs = ys @ y # zs \<Longrightarrow> x \<in> set ys \<Longrightarrow> to_row x \<noteq> to_row y + dy"
  shows "\<exists>b'. fold_opt (\<lambda>y. copy_row (to_row y) (to_row y + dy)) rs b = Some b' \<and> same_frame b b'
    \<and> (\<forall>u v. in_bitmap b u v \<longrightarrow> px b' u v = px b u (if v \<in> to_row ` set rs then v + dy else v))"
proof (rule fold_opt_invariant[where P = "\<lambda>ys t. same_frame b t
    \<and> (\<forall>u v. in_bitmap b u v \<longrightarrow> px t u v = px b u (if v \<in> to_row ` set ys then v + dy else v))"])
  show "same_frame b b \<and> (\<forall>u v. in_bitmap b u v \<longrightarrow> px b u v = px b u (if v \<in> to_row ` set [] then v + dy else v))" by simp
next
  fix ys y zs t
  assume split: "rs = ys @ y # zs" and P: "same_frame b t
    \<and> (\<forall>u v. in_bitmap b u v \<longrightarrow> px t u v = px b u (if v \<in> to_row ` set ys then v + dy else v))"
  have sf: "same_frame b t" using P by blast
  have r0: "0 \<le> to_row y \<and> to_row y < bH b \<and> 0 \<le> to_row y + dy \<and> to_row y + dy < bH b"
    using split by (intro rng) simp
  then have r: "0 \<le> to_row y" "to_row y < bH t" "0 \<le> to_row y + dy" "to_row y + dy < bH t"
    using sf by (simp_all add: same_frame_def)
  obtain t' where t': "copy_row (to_row y) (to_row y + dy) t = Some t'" "same_frame t t'"
    "\<And>u v. in_bitmap t u v \<Longrightarrow> px t' u v = px t u (if v = to_row y then to_row y + dy else v)"
    using copy_row_pixels[OF wf_bitmap_same_frame[OF wf sf] r] by blast
  have fresh: "to_row y + dy \<notin> to_row ` set ys" using apart[OF split] by (auto simp: image_iff dest: not_sym)
  have "px t' u v = px b u (if v \<in> to_row ` set (ys @ [y]) then v + dy else v)" if uv: "in_bitmap b u v" for u v
  proof (cases "v = to_row y")
    case True
    have "in_bitmap b u (to_row y + dy)" using uv r0 by (simp add: in_bitmap_def)
    then have "px t u (to_row y + dy) = px b u (to_row y + dy)" using P fresh by simp
    then show ?thesis using t'(3)[of u v] uv True by (simp add: in_bitmap_same_frame[OF sf])
  next
    case False
    then have "px t' u v = px t u v" using t'(3)[of u v] uv by (simp add: in_bitmap_same_frame[OF sf])
    moreover have "px t u v = px b u (if v \<in> to_row ` set ys then v + dy else v)" using P uv by blast
    ultimately show ?thesis using False by simp
  qed
  moreover have "same_frame b t'" by (rule same_frame_trans[OF sf t'(2)])
  ultimately show "\<exists>u. copy_row (to_row y) (to_row y + dy) t = Some u \<and> same_frame b u
    \<and> (\<forall>ua v. in_bitmap b ua v \<longrightarrow> px u ua v = px b ua (if v \<in> to_row ` set (ys @ [y]) then v + dy else v))"
    using t'(1) by blast
qed

lemma range_int_prefix: "range_int a b = ys @ y # zs \<Longrightarrow> x \<in> set ys \<Longrightarrow> x < y"
  using sorted_wrt_append[of "(<)" ys "y # zs"] sorted_wrt_upto[of a "b - 1"]
  by (simp add: range_int_def)

lemma range_int_suffix: "rev (range_int a b) = ys @ y # zs \<Longrightarrow> x \<in> set ys \<Longrightarrow> y < x"
proof -
  assume r: "rev (range_int a b) = ys @ y # zs" and x: "x \<in> set ys"
  have "range_int a b = rev zs @ y # rev ys" using arg_cong[OF r, of rev] by simp
  then show "y < x"
    using sorted_wrt_append[of "(<)" "rev zs" "y # rev ys"] sorted_wrt_upto[of a "b - 1"] x
    by (simp add: range_int_def)
qed

lemma shift_pixels:
  assumes b: "good_surface b" and dy: "in32 dy"
  shows "\<exists>b' w'. shift_bitmap dy (b, w) = Some (b', w') \<and> same_frame b b'
    \<and> (\<bar>dy\<bar> < bH b \<longrightarrow> (\<forall>u v. in_bitmap b u v \<longrightarrow> px b' u v = (if in_bitmap b u (v + dy) then px b u (v + dy) else px b u v)))
    \<and> (bH b \<le> \<bar>dy\<bar> \<longrightarrow> dy \<noteq> - 2147483648 \<longrightarrow> b' = b) \<and> (w = None \<longrightarrow> w' = None)"
proof -
  have wf: "wf_bitmap b" and h: "0 \<le> bH b" "bH b \<le> 536870912"
    using b by (auto simp: good_surface_def wf_bitmap_def near_def)
  have h32: "i32 (bH b) = bH b" using h by (simp add: in32_def)
  have neg: "i32 (- dy) = (if dy = - 2147483648 then dy else - dy)"
    using dy by (auto simp: in32_def i32_def)
  consider "dy = 0" | "bH b \<le> \<bar>dy\<bar>" "dy \<noteq> - 2147483648" "dy \<noteq> 0" | "dy = - 2147483648" | "0 < dy" "dy < bH b"
    | "dy < 0" "- dy < bH b" "dy \<noteq> - 2147483648" by linarith
  then show ?thesis
  proof cases
    case 1
    then show ?thesis by (auto simp: shift_bitmap_def)
  next
    case 2
    then show ?thesis using h by (auto simp: shift_bitmap_def Let_def h32 neg)
  next
    case 3
    have "i32 (bH b + dy) < 0" using 3 h by (simp add: in32_def)
    then have none: "range_int 0 (i32 (bH b + dy)) = []" by (simp add: range_int_def)
    have c: "\<not> (dy = 0 \<or> bH b \<le> dy \<or> bH b \<le> i32 (- dy))" "\<not> 0 < dy" using 3 h neg by auto
    have "shift_bitmap dy (b, w) = Some (b, map_option (\<lambda>n. i64 (n + i64 (i32 (bH b + dy) * bW b))) w)"
      unfolding shift_bitmap_def Let_def prod.case h32 none using c by simp
    then show ?thesis using 3 h by auto
  next
    case 4
    have n: "i32 (bH b - dy) = bH b - dy" using 4 h by (simp add: in32_def)
    have "\<exists>b'. fold_opt (\<lambda>y. copy_row y (y + dy)) (range_int 0 (bH b - dy)) b = Some b' \<and> same_frame b b'
      \<and> (\<forall>u v. in_bitmap b u v \<longrightarrow> px b' u v = px b u (if v \<in> (\<lambda>y. y) ` set (range_int 0 (bH b - dy)) then v + dy else v))"
      using 4 by (intro copy_rows_pixels[OF wf]) (auto dest!: range_int_prefix)
    then obtain b' where b': "fold_opt (\<lambda>y. copy_row y (y + dy)) (range_int 0 (bH b - dy)) b = Some b'" "same_frame b b'"
      "\<forall>u v. in_bitmap b u v \<longrightarrow> px b' u v = px b u (if v \<in> {0..<bH b - dy} then v + dy else v)" by auto
    have "px b' u v = (if in_bitmap b u (v + dy) then px b u (v + dy) else px b u v)" if "in_bitmap b u v" for u v
      using b'(3) that 4 by (auto simp: in_bitmap_def)
    moreover have "shift_bitmap dy (b, w) = Some (b', map_option (\<lambda>n. i64 (n + i64 (i32 (bH b - dy) * bW b))) w)"
      using b'(1) 4 by (simp add: shift_bitmap_def Let_def h32 neg n add.commute)
    ultimately show ?thesis using b'(2) 4 by auto
  next
    case 5
    have n: "i32 (bH b + dy) = bH b + dy" using 5 h by (simp add: in32_def)
    have "\<exists>b'. fold_opt (\<lambda>s. copy_row (s - dy) (s - dy + dy)) (rev (range_int 0 (bH b + dy))) b = Some b' \<and> same_frame b b'
      \<and> (\<forall>u v. in_bitmap b u v \<longrightarrow> px b' u v = px b u (if v \<in> (\<lambda>s. s - dy) ` set (rev (range_int 0 (bH b + dy))) then v + dy else v))"
      using 5 by (intro copy_rows_pixels[OF wf]) (auto dest!: range_int_suffix)
    moreover have "v \<in> (\<lambda>s. s - dy) ` set (rev (range_int 0 (bH b + dy))) \<longleftrightarrow> - dy \<le> v \<and> v < bH b" for v
      by (auto simp: image_iff intro!: bexI[of _ "v + dy"])
    ultimately obtain b' where b': "fold_opt (\<lambda>s. copy_row (s - dy) s) (rev (range_int 0 (bH b + dy))) b = Some b'" "same_frame b b'"
      "\<forall>u v. in_bitmap b u v \<longrightarrow> px b' u v = px b u (if - dy \<le> v \<and> v < bH b then v + dy else v)" by auto
    have "px b' u v = (if in_bitmap b u (v + dy) then px b u (v + dy) else px b u v)" if "in_bitmap b u v" for u v
      using b'(3) that 5 by (auto simp: in_bitmap_def)
    moreover have "shift_bitmap dy (b, w) = Some (b', map_option (\<lambda>n. i64 (n + i64 (i32 (bH b + dy) * bW b))) w)"
      using b'(1) 5 by (simp add: shift_bitmap_def Let_def h32 neg n)
    ultimately show ?thesis using b'(2) 5 by auto
  qed
qed

end
