(* ===== verification/Raster_Pool.thy ===== *)
theory Raster_Pool
  imports Layers
begin

text \<open>
  \<open>internal/raster/pool.go\<close>: the workers that paint tiles. The pool is a state with
  two queues (the channels \<open>jobs\<close> and \<open>done\<close>), the jobs the workers are at, and
  the results a \<open>Wait\<close> has received and not yet accounted for; every atomic action of a
  goroutine (each of the four of \<open>Submit\<close>, a receive with its counter, one worker taking or
  finishing a job, a step of \<open>Close\<close>) is one step of the relation \<open>pool_step\<close>.

  What a rasterizer does with the n-th job is a parameter, as it is of the code. A
  \<open>*Layer\<close> is its address; \<open>ids\<close> gives the identifier of the layer at an address.
\<close>

subsection \<open>Jobs and results\<close>

datatype raster_error = ErrPoolClosed | ErrQueueFull | ErrTilePanic | ErrNoRasterizer | ErrCanceled | ErrRaster string

datatype raster_outcome = Painted | Refused raster_error | Panicked

record job =
  jbLayer :: "nat option"
  jbCoord :: tile_coord
  jbDL :: "layer_dl option"
  jbBounds :: rect
  jbOut :: "buf option"
  jbBackground :: color

record raster_done =
  dnCoord :: tile_coord
  dnLayerID :: nat
  dnLayer :: "nat option"
  dnOut :: "buf option"
  dnErr :: "raster_error option"
  dnVersion :: nat

definition job_result :: "(nat \<Rightarrow> nat) \<Rightarrow> job \<Rightarrow> raster_error option \<Rightarrow> raster_done" where
  "job_result ids j err =
     \<lparr>dnCoord = jbCoord j, dnLayerID = (case jbLayer j of None \<Rightarrow> 0 | Some l \<Rightarrow> ids l), dnLayer = jbLayer j,
      dnOut = jbOut j, dnErr = err, dnVersion = (case jbDL j of None \<Rightarrow> 0 | Some d \<Rightarrow> ldVersion d)\<rparr>"

subsection \<open>The pool\<close>

text \<open>
  Where the submitting goroutine stands in \<open>Submit\<close>: outside it, past the test of \<open>closed\<close>, past
  the test of \<open>outstanding\<close>, or with the job sent and \<open>outstanding\<close> not yet raised. The pool has
  one submitting goroutine, as its comment on \<open>outstanding\<close> says.
\<close>

datatype submit_phase = Idle | Unclosed job | Roomy job | Sent job

record rpool =
  rpRaster :: "nat \<Rightarrow> job \<Rightarrow> raster_outcome"
  rpWorkers :: nat
  rpDepth :: nat
  rpSlots :: nat
  rpJobs :: "job list"
  rpDone :: "raster_done list"
  rpRunning :: "job list"
  rpHeld :: "raster_done list"
  rpLive :: nat
  rpStarted :: bool
  rpParentDone :: bool
  rpCancelled :: bool
  rpClosed :: bool
  rpClosing :: nat
  rpOutstanding :: int
  rpAsk :: submit_phase
  rpRasterized :: int
  rpFailed :: int
  rpPanics :: int
  rpRefused :: int
  rpDropped :: int
  rpLost :: int

definition default_workers :: "int \<Rightarrow> int" where
  "default_workers maxprocs =
     (let n = maxprocs - 1; n = (if n < 1 then 1 else n) in if n > 4 then 4 else n)"

definition new_rpool :: "int \<Rightarrow> int \<Rightarrow> int \<Rightarrow> (nat \<Rightarrow> job \<Rightarrow> raster_outcome) option \<Rightarrow> rpool" where
  "new_rpool maxprocs workers depth raster =
     (let workers = (if workers \<le> 0 then default_workers maxprocs else workers);
          depth = (if depth \<le> 0 then workers * 32 else depth);
          raster = (case raster of None \<Rightarrow> (\<lambda>_ _. Refused ErrNoRasterizer) | Some f \<Rightarrow> f);
          slots = depth + workers
      in \<lparr>rpRaster = raster, rpWorkers = nat workers, rpDepth = nat depth, rpSlots = nat slots, rpJobs = [],
          rpDone = [], rpRunning = [], rpHeld = [], rpLive = 0, rpStarted = False, rpParentDone = False,
          rpCancelled = False, rpClosed = False, rpClosing = 0, rpOutstanding = 0, rpAsk = Idle, rpRasterized = 0, rpFailed = 0,
          rpPanics = 0, rpRefused = 0, rpDropped = 0, rpLost = 0\<rparr>)"

definition rp_start :: "rpool \<Rightarrow> rpool" where
  "rp_start p = (if rpStarted p then p else p\<lparr>rpStarted := True, rpLive := rpWorkers p\<rparr>)"

text \<open>
  The four atomic actions of \<open>Submit\<close>: load \<open>closed\<close>, load \<open>outstanding\<close>, the non-blocking send
  and the increment. Other goroutines may act between any two of them.
\<close>

definition rp_ask :: "job \<Rightarrow> rpool \<Rightarrow> raster_error option \<times> rpool" where
  "rp_ask j p =
     (if rpClosed p then (Some ErrPoolClosed, p\<lparr>rpRefused := rpRefused p + 1\<rparr>) else (None, p\<lparr>rpAsk := Unclosed j\<rparr>))"

definition rp_room :: "job \<Rightarrow> rpool \<Rightarrow> raster_error option \<times> rpool" where
  "rp_room j p =
     (if rpOutstanding p \<ge> int (rpSlots p) then (Some ErrQueueFull, p\<lparr>rpRefused := rpRefused p + 1, rpAsk := Idle\<rparr>)
      else (None, p\<lparr>rpAsk := Roomy j\<rparr>))"

definition rp_send :: "job \<Rightarrow> rpool \<Rightarrow> raster_error option \<times> rpool" where
  "rp_send j p =
     (if length (rpJobs p) < rpDepth p then (None, p\<lparr>rpJobs := rpJobs p @ [j], rpAsk := Sent j\<rparr>)
      else (Some ErrQueueFull, p\<lparr>rpRefused := rpRefused p + 1, rpAsk := Idle\<rparr>))"

definition rp_count :: "rpool \<Rightarrow> rpool" where
  "rp_count p = p\<lparr>rpOutstanding := rpOutstanding p + 1, rpAsk := Idle\<rparr>"

text \<open>\<open>Submit\<close> with nothing between its actions.\<close>

definition rp_submit :: "job \<Rightarrow> rpool \<Rightarrow> raster_error option \<times> rpool" where
  "rp_submit j p =
     (case rp_ask j p of
        (Some e, p) \<Rightarrow> (Some e, p)
      | (None, p) \<Rightarrow>
         (case rp_room j p of
            (Some e, p) \<Rightarrow> (Some e, p)
          | (None, p) \<Rightarrow>
             (case rp_send j p of
                (Some e, p) \<Rightarrow> (Some e, p)
              | (None, p) \<Rightarrow> (None, rp_count p))))"

lemma rp_submit_eq:
  assumes "rpAsk p = Idle"
  shows "rp_submit j p =
     (if rpClosed p then (Some ErrPoolClosed, p\<lparr>rpRefused := rpRefused p + 1\<rparr>)
      else if rpOutstanding p \<ge> int (rpSlots p) then (Some ErrQueueFull, p\<lparr>rpRefused := rpRefused p + 1\<rparr>)
      else if length (rpJobs p) < rpDepth p
      then (None, p\<lparr>rpJobs := rpJobs p @ [j], rpOutstanding := rpOutstanding p + 1\<rparr>)
      else (Some ErrQueueFull, p\<lparr>rpRefused := rpRefused p + 1\<rparr>))"
  using assms by (cases p) (simp add: rp_submit_def rp_ask_def rp_room_def rp_send_def rp_count_def)

text \<open>The non-blocking send of a result: into the completion queue, or dropped and counted.\<close>

definition rp_deliver :: "raster_done \<Rightarrow> rpool \<Rightarrow> rpool" where
  "rp_deliver d p =
     (if length (rpDone p) < rpSlots p then p\<lparr>rpDone := rpDone p @ [d]\<rparr>
      else p\<lparr>rpDropped := rpDropped p + 1\<rparr>)"

definition rp_run :: "(nat \<Rightarrow> nat) \<Rightarrow> job \<Rightarrow> rpool \<Rightarrow> rpool" where
  "rp_run ids j p =
     (let out = rpRaster p (nat (rpRasterized p + rpFailed p)) j;
          p = (if out = Panicked then p\<lparr>rpPanics := rpPanics p + 1\<rparr> else p);
          err = (case out of Painted \<Rightarrow> None | Refused e \<Rightarrow> Some e | Panicked \<Rightarrow> Some ErrTilePanic);
          p = (if err = None then p\<lparr>rpRasterized := rpRasterized p + 1\<rparr> else p\<lparr>rpFailed := rpFailed p + 1\<rparr>)
      in rp_deliver (job_result ids j err) p)"

definition rp_collected :: "int \<Rightarrow> rpool \<Rightarrow> rpool" where
  "rp_collected n p = (if n \<le> 0 then p else p\<lparr>rpOutstanding := rpOutstanding p - n\<rparr>)"

definition rp_poll :: "rpool \<Rightarrow> raster_done option \<times> rpool" where
  "rp_poll p =
     (case rpDone p of [] \<Rightarrow> (None, p) | d # ds \<Rightarrow> (Some d, rp_collected 1 (p\<lparr>rpDone := ds\<rparr>)))"

text \<open>
  One receive of a \<open>Wait\<close>, and its deferred accounting of everything it received.
  \<open>rpHeld\<close> are the results it holds in between.
\<close>

definition rp_receive :: "rpool \<Rightarrow> (raster_done \<times> rpool) option" where
  "rp_receive p =
     (case rpDone p of [] \<Rightarrow> None | d # ds \<Rightarrow> Some (d, p\<lparr>rpDone := ds, rpHeld := rpHeld p @ [d]\<rparr>))"

definition rp_account :: "rpool \<Rightarrow> rpool" where
  "rp_account p = rp_collected (int (length (rpHeld p))) (p\<lparr>rpHeld := []\<rparr>)"

record rpool_stats =
  rsWorkers :: nat
  rsQueued :: nat
  rsRasterized :: int
  rsFailed :: int
  rsPanics :: int
  rsRefused :: int
  rsDropped :: int
  rsOutstanding :: int

definition rp_stats :: "rpool \<Rightarrow> rpool_stats" where
  "rp_stats p = \<lparr>rsWorkers = rpWorkers p, rsQueued = length (rpJobs p), rsRasterized = rpRasterized p,
     rsFailed = rpFailed p, rsPanics = rpPanics p, rsRefused = rpRefused p, rsDropped = rpDropped p,
     rsOutstanding = rpOutstanding p\<rparr>"

text \<open>
  \<open>Close\<close> is three atomic parts: flag and cancel, drain one queued job (lost and counted
  in \<open>rpLost\<close> if the completion queue is full), and leave the drain when the queue is empty.
  \<open>rpClosing\<close> is 0 before, 1 while draining, 2 while waiting for the workers, 3 after.
\<close>

definition rp_close_begin :: "rpool \<Rightarrow> rpool" where
  "rp_close_begin p = (if rpClosing p = 0 then p\<lparr>rpClosed := True, rpCancelled := True, rpClosing := 1\<rparr> else p)"

definition rp_close_drain :: "(nat \<Rightarrow> nat) \<Rightarrow> rpool \<Rightarrow> rpool" where
  "rp_close_drain ids p =
     (case rpJobs p of
        [] \<Rightarrow> p\<lparr>rpClosing := 2\<rparr>
      | j # js \<Rightarrow>
         (let p = p\<lparr>rpJobs := js\<rparr>; d = job_result ids j (Some ErrCanceled)
          in if length (rpDone p) < rpSlots p then p\<lparr>rpDone := rpDone p @ [d]\<rparr>
             else p\<lparr>rpLost := rpLost p + 1\<rparr>))"

subsection \<open>Interleavings\<close>

datatype pool_event =
    EStart | EAsk job "raster_error option" | ERoom job "raster_error option" | ESend job "raster_error option"
  | ECount job | ETake job | EFinish job | ELeave | EPoll "raster_done option"
  | EReceive raster_done | EAccount | EParentDone | ECloseBegin | ECloseDrain | EClosed

inductive pool_step :: "(nat \<Rightarrow> nat) \<Rightarrow> rpool \<Rightarrow> pool_event \<Rightarrow> rpool \<Rightarrow> bool" for ids where
  start: "pool_step ids p EStart (rp_start p)"
| ask: "rpAsk p = Idle \<Longrightarrow> rp_ask j p = (err, q) \<Longrightarrow> pool_step ids p (EAsk j err) q"
| room: "rpAsk p = Unclosed j \<Longrightarrow> rp_room j p = (err, q) \<Longrightarrow> pool_step ids p (ERoom j err) q"
| send: "rpAsk p = Roomy j \<Longrightarrow> rp_send j p = (err, q) \<Longrightarrow> pool_step ids p (ESend j err) q"
| count_sent: "rpAsk p = Sent j \<Longrightarrow> pool_step ids p (ECount j) (rp_count p)"
| take_job: "length (rpRunning p) < rpLive p \<Longrightarrow> rpJobs p = j # js \<Longrightarrow>
    pool_step ids p (ETake j) (p\<lparr>rpJobs := js, rpRunning := j # rpRunning p\<rparr>)"
| finish: "i < length (rpRunning p) \<Longrightarrow> j = rpRunning p ! i \<Longrightarrow>
    pool_step ids p (EFinish j) (rp_run ids j (p\<lparr>rpRunning := remove_at i (rpRunning p)\<rparr>))"
| leave: "length (rpRunning p) < rpLive p \<Longrightarrow> rpCancelled p \<or> rpParentDone p \<Longrightarrow>
    pool_step ids p ELeave (p\<lparr>rpLive := rpLive p - 1\<rparr>)"
| poll: "rp_poll p = (d, q) \<Longrightarrow> pool_step ids p (EPoll d) q"
| receive: "rp_receive p = Some (d, q) \<Longrightarrow> pool_step ids p (EReceive d) q"
| account: "pool_step ids p EAccount (rp_account p)"
| parent: "pool_step ids p EParentDone (p\<lparr>rpParentDone := True\<rparr>)"
| close_begin: "rpClosing p = 0 \<Longrightarrow> pool_step ids p ECloseBegin (rp_close_begin p)"
| close_drain: "rpClosing p = 1 \<Longrightarrow> pool_step ids p ECloseDrain (rp_close_drain ids p)"
| closed: "rpClosing p = 2 \<Longrightarrow> rpLive p = 0 \<Longrightarrow> pool_step ids p EClosed (p\<lparr>rpClosing := 3\<rparr>)"

inductive pool_trace :: "(nat \<Rightarrow> nat) \<Rightarrow> rpool \<Rightarrow> pool_event list \<Rightarrow> rpool \<Rightarrow> bool" for ids where
  none: "pool_trace ids p [] p"
| snoc: "pool_trace ids p es q \<Longrightarrow> pool_step ids q e r \<Longrightarrow> pool_trace ids p (es @ [e]) r"

inductive_cases pool_stepE: "pool_step ids p e q"
inductive_simps pool_step_poll: "pool_step ids p (EPoll d) q"
inductive_simps pool_step_take: "pool_step ids p (ETake j) q"

subsection \<open>What the interleavings keep\<close>

text \<open>What identifies a job through the pool: the tile, its layer and the buffer the worker writes.\<close>

type_synonym job_tag = "nat option \<times> tile_coord \<times> buf option"

definition tag_of_job :: "job \<Rightarrow> job_tag" where
  "tag_of_job j = (jbLayer j, jbCoord j, jbOut j)"

definition tag_of_done :: "raster_done \<Rightarrow> job_tag" where
  "tag_of_done d = (dnLayer d, dnCoord d, dnOut d)"

lemma tag_job_result [simp]: "tag_of_done (job_result ids j e) = tag_of_job j"
  by (simp add: tag_of_done_def tag_of_job_def job_result_def)

text \<open>The jobs inside the pool whose result nobody has been given.\<close>

definition pending :: "rpool \<Rightarrow> job_tag multiset" where
  "pending p = image_mset tag_of_job (mset (rpJobs p)) + image_mset tag_of_job (mset (rpRunning p))
     + image_mset tag_of_done (mset (rpDone p))"

fun admitted_by :: "pool_event \<Rightarrow> job_tag multiset" where
  "admitted_by (ESend j None) = {#tag_of_job j#}"
| "admitted_by _ = {#}"

fun given_by :: "pool_event \<Rightarrow> job_tag multiset" where
  "given_by (EPoll (Some d)) = {#tag_of_done d#}"
| "given_by (EReceive d) = {#tag_of_done d#}"
| "given_by _ = {#}"

definition admitted :: "pool_event list \<Rightarrow> job_tag multiset" where
  "admitted es = sum_list (map admitted_by es)"

definition given :: "pool_event list \<Rightarrow> job_tag multiset" where
  "given es = sum_list (map given_by es)"

text \<open>
  A job sent is uncounted until the increment; a submission between its tests and its send may
  still add a job.
\<close>

definition uncounted :: "rpool \<Rightarrow> nat" where
  "uncounted p = (case rpAsk p of Sent j \<Rightarrow> 1 | _ \<Rightarrow> 0)"

definition on_the_way :: "rpool \<Rightarrow> nat" where
  "on_the_way p = (case rpAsk p of Unclosed j \<Rightarrow> 1 | Roomy j \<Rightarrow> 1 | _ \<Rightarrow> 0)"

lemma on_the_way_le: "on_the_way p \<le> 1"
  by (simp add: on_the_way_def split: submit_phase.split)

definition in_pool :: "rpool \<Rightarrow> nat" where
  "in_pool p = length (rpJobs p) + length (rpRunning p) + length (rpDone p) + length (rpHeld p)"

definition rpool_ok :: "rpool \<Rightarrow> bool" where
  "rpool_ok p \<longleftrightarrow>
     rpOutstanding p + int (uncounted p) = int (in_pool p)
   \<and> in_pool p \<le> rpSlots p \<and> length (rpJobs p) \<le> rpDepth p
   \<and> (\<forall>j. rpAsk p = Roomy j \<longrightarrow> in_pool p < rpSlots p)
   \<and> length (rpRunning p) \<le> rpLive p \<and> rpLive p \<le> rpWorkers p \<and> rpDropped p = 0 \<and> rpLost p = 0
   \<and> (rpClosed p \<longleftrightarrow> 0 < rpClosing p) \<and> (rpClosed p \<longrightarrow> rpCancelled p)
   \<and> (2 \<le> rpClosing p \<longrightarrow> length (rpJobs p) + on_the_way p \<le> 1)
   \<and> (3 \<le> rpClosing p \<longrightarrow> length (rpJobs p) + length (rpRunning p) + on_the_way p \<le> 1)
   \<and> 0 \<le> rpPanics p \<and> rpPanics p \<le> rpFailed p \<and> 0 \<le> rpRasterized p"

lemmas rpool_ok_unfold = rpool_ok_def in_pool_def uncounted_def on_the_way_def

lemma new_rpool_ok: "rpool_ok (new_rpool maxprocs workers depth raster)"
  by (simp add: rpool_ok_unfold new_rpool_def Let_def)

lemma ask_ok: "rpool_ok p \<Longrightarrow> rpAsk p = Idle \<Longrightarrow> rpool_ok (snd (rp_ask j p))"
  by (auto simp: rpool_ok_unfold rp_ask_def)

lemma room_ok: "rpool_ok p \<Longrightarrow> rpAsk p = Unclosed j \<Longrightarrow> rpool_ok (snd (rp_room j p))"
  by (auto simp: rpool_ok_unfold rp_room_def)

lemma send_ok: "rpool_ok p \<Longrightarrow> rpAsk p = Roomy j \<Longrightarrow> rpool_ok (snd (rp_send j p))"
  by (auto simp: rpool_ok_unfold rp_send_def)

lemma count_ok: "rpool_ok p \<Longrightarrow> rpAsk p = Sent j \<Longrightarrow> rpool_ok (rp_count p)"
  by (auto simp: rpool_ok_unfold rp_count_def)

lemma ask_pending: "pending (snd (rp_ask j p)) = pending p" "pending (snd (rp_room j p)) = pending p"
  "pending (rp_count p) = pending p"
  by (simp_all add: pending_def rp_ask_def rp_room_def rp_count_def)

lemma send_pending:
  "pending (snd (rp_send j p)) = (if fst (rp_send j p) = None then add_mset (tag_of_job j) (pending p) else pending p)"
  by (simp add: pending_def rp_send_def)

lemma submit_pending:
  "pending (snd (rp_submit j p)) = (if fst (rp_submit j p) = None then add_mset (tag_of_job j) (pending p) else pending p)"
  by (auto simp: rp_submit_def rp_ask_def rp_room_def rp_send_def rp_count_def pending_def)

lemma submit_phase_rest: "rpStarted (snd (rp_ask j p)) = rpStarted p" "rpLive (snd (rp_ask j p)) = rpLive p"
  "rpStarted (snd (rp_room j p)) = rpStarted p" "rpLive (snd (rp_room j p)) = rpLive p"
  "rpStarted (snd (rp_send j p)) = rpStarted p" "rpLive (snd (rp_send j p)) = rpLive p"
  "rpStarted (rp_count p) = rpStarted p" "rpLive (rp_count p) = rpLive p"
  by (simp_all add: rp_ask_def rp_room_def rp_send_def rp_count_def)

definition outcome_error :: "raster_outcome \<Rightarrow> raster_error option" where
  "outcome_error out = (case out of Painted \<Rightarrow> None | Refused e \<Rightarrow> Some e | Panicked \<Rightarrow> Some ErrTilePanic)"

lemma run_eq:
  assumes "length (rpDone p) < rpSlots p" "out = rpRaster p (nat (rpRasterized p + rpFailed p)) j"
  shows "rp_run ids j p = p\<lparr>rpDone := rpDone p @ [job_result ids j (outcome_error out)],
     rpRasterized := rpRasterized p + (if out = Painted then 1 else 0), rpFailed := rpFailed p + (if out = Painted then 0 else 1),
     rpPanics := rpPanics p + (if out = Panicked then 1 else 0)\<rparr>"
  unfolding rp_run_def rp_deliver_def Let_def outcome_error_def assms(2)[symmetric] using assms(1)
  by (cases out) (rule rpool.equality; simp)+

lemma finish_ok:
  assumes "rpool_ok p" "i < length (rpRunning p)" "q = rp_run ids (rpRunning p ! i) (p\<lparr>rpRunning := remove_at i (rpRunning p)\<rparr>)"
  shows "rpool_ok q" "pending q = pending p" "rpStarted q = rpStarted p" "rpLive q = rpLive p"
proof -
  let ?j = "rpRunning p ! i" and ?p = "p\<lparr>rpRunning := remove_at i (rpRunning p)\<rparr>"
  have room: "length (rpDone ?p) < rpSlots ?p" using assms(1,2) by (auto simp: rpool_ok_unfold)
  note q = assms(3) run_eq[OF room refl, of ids ?j]
  have len: "length (rpRunning p) = Suc (length (remove_at i (rpRunning p)))" using assms(2) by auto
  have "rpRunning p \<noteq> []" using assms(2) by auto
  then show "rpool_ok q"
    using assms(1) by (simp add: q rpool_ok_unfold len)
  have "image_mset tag_of_job (mset (rpRunning p)) = add_mset (tag_of_job ?j) (image_mset tag_of_job (mset (remove_at i (rpRunning p))))"
    using mset_remove_at[OF assms(2)] by (metis image_mset_add_mset)
  then show "pending q = pending p" by (simp add: pending_def q)
  show "rpStarted q = rpStarted p" "rpLive q = rpLive p" by (simp_all add: q)
qed

lemma poll_ok: "rpool_ok p \<Longrightarrow> rpool_ok (snd (rp_poll p))"
  by (auto simp: rpool_ok_unfold rp_poll_def rp_collected_def split: list.split)

lemma poll_pending:
  "pending p = pending (snd (rp_poll p)) + (case fst (rp_poll p) of None \<Rightarrow> {#} | Some d \<Rightarrow> {#tag_of_done d#})"
  by (auto simp: pending_def rp_poll_def rp_collected_def split: list.split)

definition rpool_inv :: "rpool \<Rightarrow> bool" where
  "rpool_inv p \<longleftrightarrow> rpool_ok p \<and> (rpStarted p \<or> rpLive p = 0)"

lemma pool_step_inv:
  assumes "pool_step ids p e q" "rpool_inv p"
  shows "rpool_inv q \<and> pending p + admitted_by e = pending q + given_by e"
  using assms
proof (induction rule: pool_step.induct)
  case (start p)
  then show ?case by (auto simp: rpool_inv_def rp_start_def rpool_ok_unfold pending_def)
next
  case (ask p j err q)
  then show ?case
    using ask_ok[of p j] ask_pending(1)[of j p] submit_phase_rest(1,2)[of j p] by (simp add: rpool_inv_def)
next
  case (room p j err q)
  then show ?case
    using room_ok[of p j] ask_pending(2)[of j p] submit_phase_rest(3,4)[of j p] by (simp add: rpool_inv_def)
next
  case (send p j err q)
  then show ?case
    using send_ok[of p j] send_pending[of j p] submit_phase_rest(5,6)[of j p] by (cases err) (simp_all add: rpool_inv_def)
next
  case (count_sent p j)
  then show ?case using count_ok[of p j] by (simp add: rpool_inv_def ask_pending submit_phase_rest)
next
  case (take_job p j js)
  then show ?case by (auto simp: rpool_inv_def rpool_ok_unfold pending_def)
next
  case (finish i p j)
  then show ?case
    using finish_ok[OF _ finish(1) refl, of ids] by (simp add: rpool_inv_def)
next
  case (leave p)
  then show ?case by (auto simp: rpool_inv_def rpool_ok_unfold pending_def)
next
  case (poll p d q)
  have "rpStarted q = rpStarted p" "rpLive q = rpLive p"
    using poll(1) by (auto simp: rp_poll_def rp_collected_def split: list.splits)
  with poll show ?case
    using poll_ok[of p] poll_pending[of p] by (cases d) (auto simp: rpool_inv_def)
next
  case (receive p d q)
  then obtain ds where "rpDone p = d # ds" "q = p\<lparr>rpDone := ds, rpHeld := rpHeld p @ [d]\<rparr>"
    by (auto simp: rp_receive_def split: list.splits)
  with receive(2) show ?case by (simp add: rpool_inv_def rpool_ok_unfold pending_def)
next
  case (account p)
  then show ?case
    by (auto simp: rp_account_def rp_collected_def rpool_inv_def rpool_ok_unfold pending_def)
next
  case (parent p)
  then show ?case by (auto simp: rpool_inv_def rpool_ok_unfold pending_def)
next
  case (close_begin p)
  then show ?case by (auto simp: rp_close_begin_def rpool_inv_def rpool_ok_unfold pending_def)
next
  case (close_drain p)
  then show ?case
    using on_the_way_le[of p]
    by (auto simp: rp_close_drain_def rpool_inv_def rpool_ok_def in_pool_def uncounted_def on_the_way_def pending_def Let_def
        split: list.split)
next
  case (closed p)
  then show ?case by (auto simp: rpool_inv_def rpool_ok_unfold pending_def)
qed

lemma new_rpool_inv: "rpool_inv (new_rpool maxprocs workers depth raster)"
  by (simp add: rpool_inv_def new_rpool_ok) (simp add: new_rpool_def Let_def)

lemma admitted_snoc [simp]: "admitted (es @ [e]) = admitted es + admitted_by e" "admitted [] = {#}"
  by (simp_all add: admitted_def)

lemma given_snoc [simp]: "given (es @ [e]) = given es + given_by e" "given [] = {#}"
  by (simp_all add: given_def)

lemma pool_trace_inv:
  "pool_trace ids p es q \<Longrightarrow> rpool_inv p \<Longrightarrow> rpool_inv q \<and> pending p + admitted es = pending q + given es"
proof (induction rule: pool_trace.induct)
  case (none p)
  then show ?case by simp
next
  case (snoc p es q e r)
  then have q: "rpool_inv q" "pending p + admitted es = pending q + given es" by auto
  have r: "rpool_inv r \<and> pending q + admitted_by e = pending r + given_by e"
    using pool_step_inv[OF snoc.hyps(2) q(1)] .
  have "pending p + admitted (es @ [e]) = (pending q + admitted_by e) + given es"
    using q(2) by (simp add: add.commute add.left_commute)
  also have "\<dots> = pending r + given (es @ [e])" using r by (simp add: add.commute add.left_commute)
  finally show ?case using r by blast
qed

lemma slots_kept: "pool_step ids p e q \<Longrightarrow> rpSlots q = rpSlots p"
  by (erule pool_stepE)
    (auto simp: rp_start_def rp_ask_def rp_room_def rp_send_def rp_count_def rp_run_def rp_deliver_def Let_def rp_poll_def rp_receive_def rp_collected_def
      rp_account_def rp_close_begin_def rp_close_drain_def split: if_splits list.splits)

lemma trace_slots: "pool_trace ids p es q \<Longrightarrow> rpSlots q = rpSlots p"
  by (induction rule: pool_trace.induct) (auto dest: slots_kept)

text \<open>
  A job that entered the queue after \<open>Close\<close> had begun: a \<open>Submit\<close> that had loaded \<open>closed\<close> before.
\<close>

fun is_send :: "pool_event \<Rightarrow> bool" where
  "is_send (ESend j None) = True"
| "is_send _ = False"

fun late_send :: "pool_event list \<Rightarrow> bool" where
  "late_send [] = False"
| "late_send (e # es) = (if e = ECloseBegin then list_ex is_send es else late_send es)"

lemma late_send_snoc: "late_send (es @ [e]) \<longleftrightarrow> late_send es \<or> ECloseBegin \<in> set es \<and> is_send e"
  by (induction es rule: late_send.induct) auto

text \<open>What a trace from a new pool says of the queue \<open>Close\<close> leaves behind.\<close>

definition close_history :: "pool_event list \<Rightarrow> rpool \<Rightarrow> bool" where
  "close_history es q \<longleftrightarrow> (0 < rpClosing q \<longrightarrow> ECloseBegin \<in> set es)
     \<and> (2 \<le> rpClosing q \<and> rpJobs q \<noteq> [] \<longrightarrow> late_send es) \<and> (3 \<le> rpClosing q \<and> rpRunning q \<noteq> [] \<longrightarrow> late_send es)"

lemmas pool_ops = rp_start_def rp_ask_def rp_room_def rp_send_def rp_count_def rp_run_def rp_deliver_def rp_poll_def rp_receive_def
  rp_collected_def rp_account_def rp_close_begin_def rp_close_drain_def Let_def

lemma step_closing: "pool_step ids p e q \<Longrightarrow> 0 < rpClosing q \<Longrightarrow> 0 < rpClosing p \<or> e = ECloseBegin"
  by (erule pool_stepE) (auto simp: pool_ops split: if_splits list.splits)

lemma step_jobs_left:
  "pool_step ids p e q \<Longrightarrow> 2 \<le> rpClosing q \<Longrightarrow> rpJobs q \<noteq> [] \<Longrightarrow> 2 \<le> rpClosing p \<and> (rpJobs p \<noteq> [] \<or> is_send e)"
  by (erule pool_stepE) (auto simp: pool_ops split: if_splits list.splits)

lemma step_running_left:
  "pool_step ids p e q \<Longrightarrow> 3 \<le> rpClosing q \<Longrightarrow> rpRunning q \<noteq> [] \<Longrightarrow> length (rpRunning p) \<le> rpLive p
   \<Longrightarrow> 3 \<le> rpClosing p \<and> (rpRunning p \<noteq> [] \<or> rpJobs p \<noteq> [])"
  by (erule pool_stepE) (auto simp: pool_ops split: if_splits list.splits)

lemma close_history_step:
  assumes "pool_step ids p e q" "close_history es p" "rpool_inv p"
  shows "close_history (es @ [e]) q"
proof -
  have "length (rpRunning p) \<le> rpLive p" using assms(3) by (simp add: rpool_inv_def rpool_ok_def)
  note run = step_running_left[OF assms(1) _ _ this]
  show ?thesis
    unfolding close_history_def late_send_snoc
  proof (intro conjI impI)
    assume "0 < rpClosing q"
    then show "ECloseBegin \<in> set (es @ [e])"
      using step_closing[OF assms(1)] assms(2) by (auto simp: close_history_def)
  next
    assume "2 \<le> rpClosing q \<and> rpJobs q \<noteq> []"
    then show "late_send es \<or> ECloseBegin \<in> set es \<and> is_send e"
      using step_jobs_left[OF assms(1)] assms(2) by (auto simp: close_history_def)
  next
    assume "3 \<le> rpClosing q \<and> rpRunning q \<noteq> []"
    then show "late_send es \<or> ECloseBegin \<in> set es \<and> is_send e"
      using run assms(2) by (auto simp: close_history_def)
  qed
qed

lemma close_history_trace:
  assumes "pool_trace ids p es q" "rpool_inv p" "rpClosing p = 0"
  shows "close_history es q"
  using assms
proof (induction rule: pool_trace.induct)
  case (none p)
  then show ?case by (simp add: close_history_def)
next
  case (snoc p es q e r)
  then show ?case using close_history_step[of ids q e r es] pool_trace_inv[of ids p es q] by blast
qed

text \<open>
  Claim C12. Whatever the order in which the submitting goroutine's loads, send and increment, the
  workers, a waiting tool and \<open>Close\<close> interleave, the jobs the pool admitted are, counted with
  multiplicity by tile and buffer, the results it handed out together with the jobs it still holds;
  nothing is ever dropped from the completion queue, by a worker or by \<open>Close\<close>; and the jobs
  outstanding never exceed the result slots. Once \<open>Close\<close> has returned, all that is left is in the
  completion queue, for \<open>Poll\<close> to reclaim, unless a \<open>Submit\<close> past its test of \<open>closed\<close> sent its job
  after \<open>Close\<close> had begun; then at most that one job is stranded in the queue.
\<close>

theorem pool_loses_nothing:
  assumes "pool_trace ids (new_rpool maxprocs workers depth raster) es q"
  shows "admitted es = pending q + given es \<and> rpDropped q = 0 \<and> rpLost q = 0
    \<and> rpOutstanding q \<le> int (rpSlots (new_rpool maxprocs workers depth raster))
    \<and> (rpClosing q = 3 \<longrightarrow> size (pending q) \<le> length (rpDone q) + 1
        \<and> (\<not> late_send es \<longrightarrow> pending q = image_mset tag_of_done (mset (rpDone q))))"
proof -
  let ?p = "new_rpool maxprocs workers depth raster"
  have q: "rpool_ok q" "pending ?p + admitted es = pending q + given es"
    using pool_trace_inv[OF assms new_rpool_inv] by (auto simp: rpool_inv_def)
  moreover have p: "pending ?p = {#}" "rpClosing ?p = 0" by (simp_all add: new_rpool_def pending_def Let_def)
  moreover have "rpOutstanding q \<le> int (rpSlots ?p)"
    using q(1) trace_slots[OF assms] by (simp add: rpool_ok_def)
  moreover have "rpClosing q = 3 \<Longrightarrow> size (pending q) \<le> length (rpDone q) + 1"
    using q(1) by (simp add: rpool_ok_def pending_def)
  moreover have "pending q = image_mset tag_of_done (mset (rpDone q))" if "rpClosing q = 3" "\<not> late_send es"
    using close_history_trace[OF assms new_rpool_inv p(2)] that by (auto simp: close_history_def pending_def)
  ultimately show ?thesis by (simp add: rpool_ok_def)
qed

definition demo_job :: job where
  "demo_job = \<lparr>jbLayer = Some 0, jbCoord = TC 0 0, jbDL = None, jbBounds = zero_rect, jbOut = Some (new_buf 3 2 2),
     jbBackground = 0\<rparr>"

text \<open>
  The exception happens: \<open>Submit\<close> loads \<open>closed\<close>, \<open>Close\<close> runs from start to end, and \<open>Submit\<close> goes
  on. The job is admitted, nobody will take it, and no result will come.
\<close>

definition strand_events :: "pool_event list" where
  "strand_events = [EAsk demo_job None, ECloseBegin, ECloseDrain, EClosed, ERoom demo_job None, ESend demo_job None,
     ECount demo_job]"

lemma strand_trace:
  "\<exists>q. pool_trace ids (new_rpool 1 1 1 None) strand_events q \<and> rpClosing q = 3 \<and> rpJobs q = [demo_job] \<and> rpLive q = 0
     \<and> rpDone q = [] \<and> rpRunning q = []"
proof -
  let ?p0 = "new_rpool 1 1 1 None"
  let ?p1 = "snd (rp_ask demo_job ?p0)"
  let ?p2 = "rp_close_begin ?p1" let ?p3 = "rp_close_drain ids ?p2" let ?p4 = "?p3\<lparr>rpClosing := 3\<rparr>"
  let ?p5 = "snd (rp_room demo_job ?p4)" let ?p6 = "snd (rp_send demo_job ?p5)" let ?p7 = "rp_count ?p6"
  note ev = new_rpool_def rp_ask_def rp_room_def rp_send_def rp_count_def rp_close_begin_def rp_close_drain_def Let_def
  have "pool_trace ids ?p0 ([] @ [EAsk demo_job None]) ?p1"
    by (rule pool_trace.snoc[OF pool_trace.none pool_step.ask]) (simp_all add: ev)
  then have "pool_trace ids ?p0 (([] @ [EAsk demo_job None]) @ [ECloseBegin]) ?p2"
    by (rule pool_trace.snoc) (rule pool_step.close_begin, simp add: ev)
  then have "pool_trace ids ?p0 ((([] @ [EAsk demo_job None]) @ [ECloseBegin]) @ [ECloseDrain]) ?p3"
    by (rule pool_trace.snoc) (rule pool_step.close_drain, simp add: ev)
  then have "pool_trace ids ?p0 (((([] @ [EAsk demo_job None]) @ [ECloseBegin]) @ [ECloseDrain]) @ [EClosed]) ?p4"
    by (rule pool_trace.snoc) (rule pool_step.closed, simp_all add: ev)
  then have "pool_trace ids ?p0 ((((([] @ [EAsk demo_job None]) @ [ECloseBegin]) @ [ECloseDrain]) @ [EClosed]) @ [ERoom demo_job None]) ?p5"
    by (rule pool_trace.snoc) (rule pool_step.room, simp_all add: ev)
  then have "pool_trace ids ?p0 (((((([] @ [EAsk demo_job None]) @ [ECloseBegin]) @ [ECloseDrain]) @ [EClosed]) @ [ERoom demo_job None])
      @ [ESend demo_job None]) ?p6"
    by (rule pool_trace.snoc) (rule pool_step.send, simp_all add: ev)
  then have "pool_trace ids ?p0 ((((((([] @ [EAsk demo_job None]) @ [ECloseBegin]) @ [ECloseDrain]) @ [EClosed]) @ [ERoom demo_job None])
      @ [ESend demo_job None]) @ [ECount demo_job]) ?p7"
    by (rule pool_trace.snoc) (rule pool_step.count_sent, simp add: ev)
  then have "pool_trace ids ?p0 strand_events ?p7" by (simp add: strand_events_def)
  moreover have "rpClosing ?p7 = 3 \<and> rpJobs ?p7 = [demo_job] \<and> rpLive ?p7 = 0 \<and> rpDone ?p7 = [] \<and> rpRunning ?p7 = []"
    by (simp add: ev)
  ultimately show ?thesis by blast
qed

theorem pool_loses_nothing_witness:
  "\<exists>q. pool_trace (\<lambda>_. 9) (new_rpool 1 1 1 None) strand_events q
     \<and> rpClosing q = 3 \<and> late_send strand_events \<and> pending q = {#tag_of_job demo_job#} \<and> rpDropped q = 0 \<and> size (pending q) \<le> 1"
proof -
  obtain q where q: "pool_trace (\<lambda>_. 9) (new_rpool 1 1 1 None) strand_events q" "rpClosing q = 3" "rpDone q = []"
    using strand_trace by blast
  have "late_send strand_events" "admitted strand_events = {#tag_of_job demo_job#}" "given strand_events = {#}"
    by (simp_all add: strand_events_def admitted_def given_def)
  with pool_loses_nothing[OF q(1)] q show ?thesis by auto
qed

subsection \<open>Closing ends\<close>

text \<open>The steps of the workers and of \<open>Close\<close> itself.\<close>

fun closing_event :: "pool_event \<Rightarrow> bool" where
  "closing_event (ETake j) = True"
| "closing_event (EFinish j) = True"
| "closing_event ELeave = True"
| "closing_event ECloseDrain = True"
| "closing_event EClosed = True"
| "closing_event _ = False"

definition close_work :: "rpool \<Rightarrow> nat" where
  "close_work p = 3 * length (rpJobs p) + 2 * length (rpRunning p) + rpLive p + (3 - rpClosing p)"

lemma run_keeps:
  "rpJobs (rp_run ids j p) = rpJobs p" "rpRunning (rp_run ids j p) = rpRunning p" "rpLive (rp_run ids j p) = rpLive p"
  "rpClosing (rp_run ids j p) = rpClosing p"
  by (simp_all add: rp_run_def rp_deliver_def Let_def)

lemma closing_step_works:
  "pool_step ids p e q \<Longrightarrow> closing_event e \<Longrightarrow> 1 \<le> rpClosing p \<Longrightarrow> rpClosing p \<le> 3
   \<Longrightarrow> close_work q < close_work p \<and> 1 \<le> rpClosing q \<and> rpClosing q \<le> 3"
  by (erule pool_stepE)
    (auto simp: close_work_def run_keeps rp_close_drain_def Let_def split: list.split)

lemma closing_progress:
  assumes "rpool_inv p" "rpClosing p = 1 \<or> rpClosing p = 2"
  shows "\<exists>e q. closing_event e \<and> pool_step ids p e q"
proof (cases "rpClosing p = 1 \<or> rpLive p = 0")
  case True
  then show ?thesis
    using assms(2) pool_step.close_drain[of p ids] pool_step.closed[of p ids] closing_event.simps by blast
next
  case False
  show ?thesis
  proof (cases "rpRunning p = []")
    case True
    moreover have "rpCancelled p" using assms by (auto simp: rpool_inv_def rpool_ok_unfold)
    ultimately have "pool_step ids p ELeave (p\<lparr>rpLive := rpLive p - 1\<rparr>)"
      using False by (intro pool_step.leave) auto
    then show ?thesis using closing_event.simps(3) by blast
  next
    case ne: False
    then show ?thesis using pool_step.finish[of 0 p "rpRunning p ! 0" ids] closing_event.simps(2) by blast
  qed
qed

lemma closing_trace:
  "pool_trace ids p es q \<Longrightarrow> (\<forall>e\<in>set es. closing_event e) \<Longrightarrow> 1 \<le> rpClosing p \<Longrightarrow> rpClosing p \<le> 3
   \<Longrightarrow> length es + close_work q \<le> close_work p \<and> 1 \<le> rpClosing q \<and> rpClosing q \<le> 3"
proof (induction rule: pool_trace.induct)
  case (snoc p es q e r)
  then show ?case using closing_step_works[of ids q e r] by auto
qed simp

text \<open>
  Claim C13. \<open>Close\<close> returns: once it has begun, the workers and the drain together take at most
  \<open>close_work\<close> steps, three for each queued job, two for each job being painted and one for
  each worker, and until it has returned one of them can always take a step.
\<close>

theorem close_returns:
  assumes "rpool_inv p" "rpClosing p = 1 \<or> rpClosing p = 2"
    and "pool_trace ids p es q" "\<forall>e\<in>set es. closing_event e"
  shows "length es \<le> close_work p \<and> (rpClosing q = 3 \<or> (\<exists>e r. closing_event e \<and> pool_step ids q e r))"
proof -
  have t: "length es + close_work q \<le> close_work p" "1 \<le> rpClosing q" "rpClosing q \<le> 3"
    using closing_trace[OF assms(3,4)] assms(2) by auto
  have "rpool_inv q" using pool_trace_inv[OF assms(3,1)] by blast
  with t closing_progress[of q ids] show ?thesis by force
qed

theorem close_returns_witness:
  "let p = rp_close_begin (rp_start (new_rpool 3 2 5 None))
   in rpool_inv p \<and> close_work p = 4 \<and> pool_trace (\<lambda>_. 0) p [] p \<and> (\<exists>e r. closing_event e \<and> pool_step (\<lambda>_. 0) p e r)"
proof -
  let ?p = "rp_close_begin (rp_start (new_rpool 3 2 5 None))"
  have i: "rpool_inv ?p" "rpClosing ?p = 1"
    by (auto simp: rpool_inv_def rpool_ok_unfold rp_close_begin_def rp_start_def new_rpool_def Let_def)
  then show ?thesis
    using close_returns[of ?p "\<lambda>_. 0" "[]" ?p] pool_trace.none[of "\<lambda>_. 0" ?p]
    by (simp add: Let_def) (simp add: close_work_def rp_close_begin_def rp_start_def new_rpool_def Let_def)
qed

subsection \<open>The contract the scheduler rests on\<close>

text \<open>
  A service that takes jobs and gives results back: a job it took is pending until its
  result is given out, a job it refused is not pending, and collecting results ends.
\<close>

locale job_service =
  fixes svc_ok :: "'p \<Rightarrow> bool"
    and submit :: "job \<Rightarrow> 'p \<Rightarrow> raster_error option \<times> 'p"
    and poll :: "'p \<Rightarrow> raster_done option \<times> 'p"
    and pend :: "'p \<Rightarrow> job_tag multiset"
    and ready :: "'p \<Rightarrow> nat"
  assumes submit_law: "svc_ok p \<Longrightarrow> svc_ok (snd (submit j p))
      \<and> pend (snd (submit j p)) = (if fst (submit j p) = None then add_mset (tag_of_job j) (pend p) else pend p)"
    and poll_law: "svc_ok p \<Longrightarrow> svc_ok (snd (poll p))
      \<and> pend p = pend (snd (poll p)) + (case fst (poll p) of None \<Rightarrow> {#} | Some d \<Rightarrow> {#tag_of_done d#})"
    and poll_ready: "fst (poll p) = Some d \<Longrightarrow> ready (snd (poll p)) < ready p"
    and poll_none: "fst (poll p) = None \<Longrightarrow> snd (poll p) = p"
begin

text \<open>The orders a client holds are exactly the pending jobs, and each is pending once.\<close>

definition matched :: "(job_tag \<Rightarrow> bool) \<Rightarrow> 'p \<Rightarrow> bool" where
  "matched orders p \<longleftrightarrow> svc_ok p \<and> (\<forall>t. count (pend p) t = (if orders t then 1 else 0))"

lemma matchedI: "svc_ok p \<Longrightarrow> (\<And>t. count (pend p) t = (if orders t then 1 else 0)) \<Longrightarrow> matched orders p"
  unfolding matched_def by blast

lemma matched_count: "matched orders p \<Longrightarrow> count (pend p) t = (if orders t then 1 else 0)"
  unfolding matched_def by blast

lemma matched_ok: "matched orders p \<Longrightarrow> svc_ok p"
  unfolding matched_def by blast

lemma matched_submit:
  assumes "matched orders p" "\<not> orders (tag_of_job j)"
  shows "matched (if fst (submit j p) = None then orders(tag_of_job j := True) else orders) (snd (submit j p))"
  using assms(2) submit_law[OF matched_ok[OF assms(1)], of j] matched_count[OF assms(1)]
  by (intro matchedI) auto

lemma matched_poll:
  assumes "matched orders p" "poll p = (Some d, q)"
  shows "orders (tag_of_done d)" "matched (orders(tag_of_done d := False)) q"
proof -
  have q: "svc_ok q" "pend p = add_mset (tag_of_done d) (pend q)"
    using matched_ok[OF assms(1)] assms(2) poll_law[of p] by auto
  note n = matched_count[OF assms(1)]
  show o: "orders (tag_of_done d)" using n[of "tag_of_done d"] q(2) by (simp split: if_splits)
  show "matched (orders(tag_of_done d := False)) q"
  proof (rule matchedI[OF q(1)])
    fix t show "count (pend q) t = (if (orders(tag_of_done d := False)) t then 1 else 0)"
      using n[of t] q(2) o by (cases "t = tag_of_done d") auto
  qed
qed

lemma matched_idle: "poll p = (None, q) \<Longrightarrow> q = p"
  using poll_none[of p] by simp

text \<open>Handling every result in turn: the loop ends and what each result names was on order.\<close>

lemma drain_induct:
  assumes "\<And>p. (\<And>d q. poll p = (Some d, q) \<Longrightarrow> P q) \<Longrightarrow> P p"
  shows "P p"
proof (induction "ready p" arbitrary: p rule: less_induct)
  case less
  show ?case
    by (rule assms) (use less poll_ready in \<open>metis fst_conv snd_conv\<close>)
qed

end

text \<open>
  Seen from the submitting goroutine, between its calls: \<open>Submit\<close> as the four steps in a row.
\<close>

definition rpool_calm :: "rpool \<Rightarrow> bool" where
  "rpool_calm p \<longleftrightarrow> rpool_inv p \<and> rpAsk p = Idle"

lemma submit_inv:
  assumes "rpool_calm p"
  shows "rpool_calm (snd (rp_submit j p))"
proof -
  have idle: "rpAsk p = Idle" and p: "rpool_inv p" using assms by (simp_all add: rpool_calm_def)
  have s: "rpool_inv q'" if "pool_step (\<lambda>_. 0) q e q'" "rpool_inv q" for q e q'
    using pool_step_inv[OF that] by blast
  show ?thesis
  proof (cases "rp_ask j p")
    case (Pair e1 p1)
    have i1: "rpool_inv p1" using s[OF pool_step.ask[OF idle Pair] p] .
    show ?thesis
    proof (cases e1)
      case None
      then have a1: "rpAsk p1 = Unclosed j" using Pair by (auto simp: rp_ask_def split: if_splits)
      obtain e2 p2 where r: "rp_room j p1 = (e2, p2)" by (cases "rp_room j p1")
      have i2: "rpool_inv p2" using s[OF pool_step.room[OF a1 r] i1] .
      show ?thesis
      proof (cases e2)
        case None2: None
        then have a2: "rpAsk p2 = Roomy j" using r by (auto simp: rp_room_def split: if_splits)
        obtain e3 p3 where t: "rp_send j p2 = (e3, p3)" by (cases "rp_send j p2")
        have i3: "rpool_inv p3" using s[OF pool_step.send[OF a2 t] i2] .
        show ?thesis
        proof (cases e3)
          case None3: None
          then have "rpAsk p3 = Sent j" using t by (auto simp: rp_send_def split: if_splits)
          then have "rpool_inv (rp_count p3)" using s[OF pool_step.count_sent i3] by blast
          then show ?thesis using Pair None r None2 t None3 by (simp add: rp_submit_def rpool_calm_def rp_count_def)
        next
          case (Some e)
          then show ?thesis using Pair None r None2 t i3 by (auto simp: rp_submit_def rpool_calm_def rp_send_def split: if_splits)
        qed
      next
        case (Some e)
        then show ?thesis using Pair None r i2 by (auto simp: rp_submit_def rpool_calm_def rp_room_def split: if_splits)
      qed
    next
      case (Some e)
      then show ?thesis using Pair i1 idle by (auto simp: rp_submit_def rpool_calm_def rp_ask_def split: if_splits)
    qed
  qed
qed

text \<open>The steps of the other goroutines leave the submitter where it stands.\<close>

fun submitting :: "pool_event \<Rightarrow> bool" where
  "submitting (EAsk j e) = True"
| "submitting (ERoom j e) = True"
| "submitting (ESend j e) = True"
| "submitting (ECount j) = True"
| "submitting _ = False"

lemma not_submitting_admits: "\<not> submitting e \<Longrightarrow> admitted_by e = {#}"
  by (cases e rule: admitted_by.cases) auto

lemma not_submitting: "pool_step ids p e q \<Longrightarrow> \<not> submitting e \<Longrightarrow> rpAsk q = rpAsk p"
  by (erule pool_stepE)
    (auto simp: rp_start_def rp_run_def rp_deliver_def Let_def rp_poll_def rp_receive_def rp_collected_def
      rp_account_def rp_close_begin_def rp_close_drain_def split: if_splits list.splits)

lemma poll_inv: "rpool_calm p \<Longrightarrow> rpool_calm (snd (rp_poll p))"
  using pool_step_inv[OF pool_step.poll[OF surjective_pairing]] not_submitting[OF pool_step.poll[OF surjective_pairing]]
  by (auto simp: rpool_calm_def)

interpretation rps: job_service rpool_calm rp_submit rp_poll pending "\<lambda>p. length (rpDone p)"
proof unfold_locales
  fix p j d
  show "rpool_calm p \<Longrightarrow> rpool_calm (snd (rp_submit j p))
      \<and> pending (snd (rp_submit j p)) = (if fst (rp_submit j p) = None then add_mset (tag_of_job j) (pending p) else pending p)"
    using submit_inv submit_pending by blast
  show "rpool_calm p \<Longrightarrow> rpool_calm (snd (rp_poll p))
      \<and> pending p = pending (snd (rp_poll p)) + (case fst (rp_poll p) of None \<Rightarrow> {#} | Some d \<Rightarrow> {#tag_of_done d#})"
    using poll_inv poll_pending by blast
  show "fst (rp_poll p) = Some d \<Longrightarrow> length (rpDone (snd (rp_poll p))) < length (rpDone p)"
    by (auto simp: rp_poll_def rp_collected_def split: list.splits)
  show "fst (rp_poll p) = None \<Longrightarrow> snd (rp_poll p) = p"
    by (auto simp: rp_poll_def split: list.splits)
qed

end
