(* ===== verification/Input_Events.thy ===== *)
theory Input_Events
  imports Geometry
begin

text \<open>
  \<open>internal/surface/window.go\<close> (platform input events) and the fold \<open>mergeEvent\<close> of
  \<open>internal/surface/loop.go\<close> that coalesces what arrives between two vsyncs into one
  event. A rune is an integer, a device ratio a rational (it is compared and copied,
  never computed with), a time an integer with 0 for the zero time.
\<close>

subsection \<open>Events\<close>

datatype event_kind = EvVsync | EvScroll | EvPointer | EvKey | EvResize | EvIME | EvAXSetValue

fun event_kind_string :: "event_kind \<Rightarrow> string" where
  "event_kind_string EvVsync = ''vsync''"
| "event_kind_string EvScroll = ''scroll''"
| "event_kind_string EvPointer = ''pointer''"
| "event_kind_string EvKey = ''key''"
| "event_kind_string EvResize = ''resize''"
| "event_kind_string EvIME = ''ime''"
| "event_kind_string EvAXSetValue = ''accessibility-value''"

datatype ime_action = IMEMarked | IMECommit

datatype ax_target = AXTargetContent | AXTargetAddressBar

datatype button = ButtonNone | ButtonLeft | ButtonMiddle | ButtonRight

datatype pointer_action = PointerPress | PointerRelease | PointerMotion

datatype cursor = CursorDefault | CursorPointer | CursorText | CursorGrab

type_synonym key_mod = "32 word"

definition ModShift :: key_mod where "ModShift = push_bit 17 1"
definition ModControl :: key_mod where "ModControl = push_bit 18 1"
definition ModOption :: key_mod where "ModOption = push_bit 19 1"
definition ModCommand :: key_mod where "ModCommand = push_bit 20 1"

record event =
  evKind :: event_kind
  evDelta :: point
  evPos :: point
  evButton :: button
  evAction :: pointer_action
  evKey :: int
  evMods :: key_mod
  evText :: string
  evIME :: ime_action
  evAXTarget :: ax_target
  evSize :: gsize
  evScale :: rat
  evAt :: int

definition zero_event :: event where
  "zero_event = \<lparr>evKind = EvVsync, evDelta = Pt 0 0, evPos = Pt 0 0, evButton = ButtonNone, evAction = PointerPress,
     evKey = 0, evMods = 0, evText = [], evIME = IMEMarked, evAXTarget = AXTargetContent, evSize = Sz 0 0,
     evScale = 0, evAt = 0\<rparr>"

subsection \<open>Coalescing\<close>

definition merge_event :: "event \<Rightarrow> event \<Rightarrow> event" where
  "merge_event dst src =
     (let out = dst\<lparr>evKind := evKind src\<rparr>;
          out = (if evKind src = EvScroll \<or> evDelta src \<noteq> Pt 0 0
                 then out\<lparr>evDelta := Pt (i32 (pX (evDelta out) + pX (evDelta src))) (i32 (pY (evDelta out) + pY (evDelta src)))\<rparr>
                 else out);
          out = (if evPos src \<noteq> Pt 0 0 \<or> evKind src = EvPointer \<or> evKind src = EvAXSetValue
                 then out\<lparr>evPos := evPos src, evButton := evButton src\<rparr> else out);
          out = (if evKey src \<noteq> 0 then out\<lparr>evKey := evKey src, evMods := evMods src\<rparr> else out);
          out = (if evKind src = EvIME \<or> evKind src = EvAXSetValue
                 then let out = out\<lparr>evText := evText src\<rparr>
                      in if evKind src = EvIME then out\<lparr>evIME := evIME src\<rparr> else out\<lparr>evAXTarget := evAXTarget src\<rparr>
                 else out);
          out = (if sW (evSize src) \<noteq> 0 \<and> sH (evSize src) \<noteq> 0 then out\<lparr>evSize := evSize src\<rparr> else out);
          out = (if evScale src \<noteq> 0 then out\<lparr>evScale := evScale src\<rparr> else out)
      in if evAt src \<noteq> 0 then out\<lparr>evAt := evAt src\<rparr> else out)"

lemma i32_add_i32: "i32 (i32 a + b) = i32 (a + b)"
  by (simp add: i32_def mod_simps algebra_simps)

lemma i32_zero [simp]: "i32 0 = 0"
  by (simp add: in32_def)

definition carries_pos :: "event \<Rightarrow> bool" where
  "carries_pos e \<longleftrightarrow> evPos e \<noteq> Pt 0 0 \<or> evKind e = EvPointer \<or> evKind e = EvAXSetValue"

definition carries_text :: "event \<Rightarrow> bool" where
  "carries_text e \<longleftrightarrow> evKind e = EvIME \<or> evKind e = EvAXSetValue"

lemma merge_fields [simp]:
  "evKind (merge_event dst src) = evKind src"
  "evPos (merge_event dst src) = (if carries_pos src then evPos src else evPos dst)"
  "evKey (merge_event dst src) = (if evKey src \<noteq> 0 then evKey src else evKey dst)"
  "evMods (merge_event dst src) = (if evKey src \<noteq> 0 then evMods src else evMods dst)"
  "evAction (merge_event dst src) = evAction dst"
  "evSize (merge_event dst src) = (if sW (evSize src) \<noteq> 0 \<and> sH (evSize src) \<noteq> 0 then evSize src else evSize dst)"
  "evScale (merge_event dst src) = (if evScale src \<noteq> 0 then evScale src else evScale dst)"
  "evAt (merge_event dst src) = (if evAt src \<noteq> 0 then evAt src else evAt dst)"
  "evText (merge_event dst src) = (if carries_text src then evText src else evText dst)"
  "evButton (merge_event dst src) = (if carries_pos src then evButton src else evButton dst)"
  "evIME (merge_event dst src) = (if evKind src = EvIME then evIME src else evIME dst)"
  "evAXTarget (merge_event dst src) = (if evKind src = EvAXSetValue then evAXTarget src else evAXTarget dst)"
  by (simp_all add: merge_event_def Let_def carries_pos_def carries_text_def)

lemma merge_delta:
  assumes "in32 (pX (evDelta dst))" "in32 (pY (evDelta dst))"
  shows "pX (evDelta (merge_event dst src)) = i32 (pX (evDelta dst) + pX (evDelta src))"
    "pY (evDelta (merge_event dst src)) = i32 (pY (evDelta dst) + pY (evDelta src))"
  using assms by (simp_all add: merge_event_def Let_def)

text \<open>Reference: the value of the newest event that carries one.\<close>

definition newest :: "(event \<Rightarrow> bool) \<Rightarrow> (event \<Rightarrow> 'a) \<Rightarrow> 'a \<Rightarrow> event list \<Rightarrow> 'a" where
  "newest has f dflt es = (if filter has es = [] then dflt else f (last (filter has es)))"

lemma newest_snoc [simp]:
  "newest has f dflt (es @ [e]) = (if has e then f e else newest has f dflt es)" "newest has f dflt [] = dflt"
  by (auto simp: newest_def)

text \<open>
  What a batch of events means, said without the fold: the delta is the sum of their deltas (in
  \<open>int32\<close>), the kind is the last one's, and size, scale, time, key with its modifiers, position with
  its button, text, composition phase and accessibility target are those of the newest event that
  carries one. The pointer phase is the exception: the batch always says press.
\<close>

definition coalesced :: "event list \<Rightarrow> event" where
  "coalesced es = \<lparr>
     evKind = newest (\<lambda>_. True) evKind EvVsync es,
     evDelta = Pt (i32 (sum_list (map (\<lambda>e. pX (evDelta e)) es))) (i32 (sum_list (map (\<lambda>e. pY (evDelta e)) es))),
     evPos = newest carries_pos evPos (Pt 0 0) es,
     evButton = newest carries_pos evButton ButtonNone es,
     evAction = PointerPress,
     evKey = newest (\<lambda>e. evKey e \<noteq> 0) evKey 0 es,
     evMods = newest (\<lambda>e. evKey e \<noteq> 0) evMods 0 es,
     evText = newest carries_text evText [] es,
     evIME = newest (\<lambda>e. evKind e = EvIME) evIME IMEMarked es,
     evAXTarget = newest (\<lambda>e. evKind e = EvAXSetValue) evAXTarget AXTargetContent es,
     evSize = newest (\<lambda>e. sW (evSize e) \<noteq> 0 \<and> sH (evSize e) \<noteq> 0) evSize (Sz 0 0) es,
     evScale = newest (\<lambda>e. evScale e \<noteq> 0) evScale 0 es,
     evAt = newest (\<lambda>e. evAt e \<noteq> 0) evAt 0 es\<rparr>"

lemma coalesced_nil [simp]: "coalesced [] = zero_event"
  by (simp add: coalesced_def zero_event_def)

text \<open>Merging one more event into what a batch means is what the longer batch means.\<close>

lemma coalesced_snoc: "coalesced (es @ [e]) = merge_event (coalesced es) e"
proof (rule event.equality)
  have d: "in32 (pX (evDelta (coalesced es)))" "in32 (pY (evDelta (coalesced es)))" by (simp_all add: coalesced_def)
  show "evDelta (coalesced (es @ [e])) = evDelta (merge_event (coalesced es) e)"
    by (rule point.equality) (simp_all add: merge_delta[OF d], simp_all add: coalesced_def i32_add_i32)
qed (simp_all add: coalesced_def)

lemma merges_coalesce: "fold (\<lambda>src dst. merge_event dst src) es zero_event = coalesced es"
  by (induction es rule: rev_induct) (simp_all add: coalesced_snoc)

end
