(* ===== verification/Scheduler.thy ===== *)
theory Scheduler
  imports Compositor Raster_Pool Input_Events
begin

text \<open>
  \<open>internal/raster/scheduler.go\<close>: the frame path in one object. The scheduler's own
  fields are the record \<open>sched\<close>; what its pointers lead to is the \<open>world\<close>: the layers by
  address (a layer owns its grid, so \<open>s.grid\<close> is the grid of \<open>s.layer\<close> and is nil exactly
  when the layer is), the worker pool, and the bytes of every layer's tile buffers. A
  method that would dereference nil is \<open>None\<close>.

  \<open>vpMu\<close> and \<open>updMu\<close> make each method that takes them one atomic step. Results that
  workers finish while \<open>Submit\<close> drains the pool are taken as finished before it.
\<close>

subsection \<open>State\<close>

record pref =
  prPrefetchRows :: int
  prBudget :: int

definition PrefetchOff :: int where "PrefetchOff = - 1"

record layer_update =
  luLayer :: nat
  luContent :: "layer_dl option"
  luDirty :: rect
  luAutoDamage :: bool

record sched =
  scLayer :: "nat option"
  scSlot :: plan_slot
  scPrefs :: pref
  scPending :: "layer_update option"
  scSize :: gsize
  scScale :: rat
  scScroll :: point
  scDir :: point
  scCur :: frame_plan
  scVis :: "tile_coord scratch"
  scNeed :: "tile_coord scratch"
  scPref :: "tile_coord scratch"
  scBlits :: "(buf option \<times> rect) scratch"
  scDamage :: "rect scratch"
  scPrevVis :: "tile_coord scratch"
  scPrevPix :: "buf option scratch"
  scDoneLay :: "nat option scratch"
  scHaveDone :: bool
  scDoneSize :: gsize
  scDoneOffset :: point
  scDoneScale :: rat
  scDoneBg :: color
  scReused :: int
  scReusedTotal :: int
  scScratch :: int
  scFrames :: int
  scSubmitted :: int
  scRefused :: int
  scDeferred :: int
  scPrefetched :: int
  scRasterized :: int
  scFailed :: int
  scStaleNews :: int
  scWrites :: int

record world =
  wHeap :: "nat \<Rightarrow> layer"
  wPool :: "rpool option"
  wMem :: "nat \<Rightarrow> memory"

definition set_grid :: "nat \<Rightarrow> grid \<Rightarrow> world \<Rightarrow> world" where
  "set_grid l g w = w\<lparr>wHeap := (wHeap w)(l := (wHeap w l)\<lparr>lyGrid := g\<rparr>)\<rparr>"

definition layer_grid :: "world \<Rightarrow> nat \<Rightarrow> grid" where
  "layer_grid w l = lyGrid (wHeap w l)"

datatype sched_error = ErrNoViewport | ErrForeignResult | ErrOf raster_error

record frame_work =
  fwNeeded :: nat
  fwSubmitted :: int
  fwRefused :: int
  fwAccepted :: int
  fwReused :: int
  fwPaintingBytes :: int

record sched_stats =
  ssRasterized :: int
  ssReused :: int
  ssFailed :: int
  ssBytes :: int
  ssBudget :: int
  ssFrames :: int
  ssSubmitted :: int
  ssRefused :: int
  ssPrefetched :: int
  ssStaleNews :: int
  ssWrites :: int
  ssDeferred :: int

subsection \<open>Arithmetic of positions\<close>

definition int_sign :: "int \<Rightarrow> int" where
  "int_sign v = (if v > 0 then 1 else if v < 0 then - 1 else 0)"

definition add_saturate :: "int \<Rightarrow> int \<Rightarrow> int" where
  "add_saturate a b =
     (let s = a + b in if s > 2147483647 then 2147483647 else if s < - 2147483648 then - 2147483648 else s)"

definition clamp_offset :: "int \<Rightarrow> int \<Rightarrow> int \<Rightarrow> int" where
  "clamp_offset cur lo reach =
     (let reach = (if reach < 0 then 0 else reach); hi = i32 (lo + reach)
      in if cur < lo then lo else if cur > hi then hi else cur)"

definition clamp_scroll :: "point \<Rightarrow> rect \<Rightarrow> gsize \<Rightarrow> point" where
  "clamp_scroll p b sz =
     (let loX = min 0 (rX0 b); loY = min 0 (rY0 b)
      in Pt (clamp_offset (pX p) loX (i32 (i32 (rX1 b - sW sz) - loX)))
            (clamp_offset (pY p) loY (i32 (i32 (rY1 b - sH sz) - loY))))"

definition coord_less :: "tile_coord \<Rightarrow> tile_coord \<Rightarrow> bool" where
  "coord_less a b = (if tcRow a \<noteq> tcRow b then tcRow a < tcRow b else tcCol a < tcCol b)"

definition fold_scroll :: "point \<Rightarrow> sched \<Rightarrow> sched" where
  "fold_scroll delta s =
     (if pX delta = 0 \<and> pY delta = 0 then s
      else let s = s\<lparr>scScroll := Pt (add_saturate (pX (scScroll s)) (pX delta)) (add_saturate (pY (scScroll s)) (pY delta))\<rparr>;
               s = (if pX delta \<noteq> 0 then s\<lparr>scDir := Pt (int_sign (pX delta)) (pY (scDir s))\<rparr> else s)
           in if pY delta \<noteq> 0 then s\<lparr>scDir := Pt (pX (scDir s)) (int_sign (pY delta))\<rparr> else s)"

definition resolve :: "sched \<Rightarrow> world \<Rightarrow> viewport" where
  "resolve s w =
     (case scLayer s of
        None \<Rightarrow> \<lparr>vOffset = scScroll s, vSize = scSize s\<rparr>
      | Some l \<Rightarrow> \<lparr>vOffset = clamp_scroll (scScroll s) (lyBounds (wHeap w l)) (scSize s), vSize = scSize s\<rparr>)"

subsection \<open>Scratch buffers\<close>

definition tile_size :: "sched \<Rightarrow> world \<Rightarrow> int" where
  "tile_size s w = (case scLayer s of None \<Rightarrow> TileSize | Some l \<Rightarrow> gTileSize (layer_grid w l))"

definition sched_tile_bytes :: "sched \<Rightarrow> world \<Rightarrow> int" where
  "sched_tile_bytes s w = (let t = tile_size s w in i64 (i64 (t * t) * 4))"

definition ring_rows_for :: "sched \<Rightarrow> world \<Rightarrow> point \<Rightarrow> int" where
  "ring_rows_for s w d =
     (if prPrefetchRows (scPrefs s) < 0 \<or> scLayer s = None then 0
      else if prPrefetchRows (scPrefs s) > 0 then prPrefetchRows (scPrefs s)
      else let ts = tile_size s w in
        if ts \<le> 0 then 0
        else let reach = (if pY d = 0 \<and> pX d \<noteq> 0 then sW (scSize s) else sH (scSize s))
             in reach sdiv ts + 1)"

definition max_coords :: "sched \<Rightarrow> world \<Rightarrow> int" where
  "max_coords s w =
     (let ts = tile_size s w; ts = (if ts \<le> 0 then TileSize else ts);
          cols = max (sW (scSize s) sdiv ts + 3) 4; rows = max (sH (scSize s) sdiv ts + 3) 4;
          n = cols * rows; vr = ring_rows_for s w (Pt 0 1); hr = ring_rows_for s w (Pt 1 0)
      in n + max (2 * vr * cols) (2 * hr * rows))"

definition reserve :: "int \<Rightarrow> 'a scratch \<Rightarrow> 'a scratch \<times> int" where
  "reserve n b = (if n \<le> int (slCap b) then (b, 0) else (sl_empty (nat n), 1))"

definition reserve_scratch :: "bool \<Rightarrow> world \<Rightarrow> sched \<Rightarrow> sched" where
  "reserve_scratch counted w s =
     (let n = max_coords s w;
          (vis, g1) = reserve n (scVis s); (need, g2) = reserve n (scNeed s); (pre, g3) = reserve n (scPref s);
          (blits, g4) = reserve n (scBlits s); (damage, g5) = reserve (n + 1) (scDamage s);
          (pvis, g6) = reserve n (scPrevVis s); (ppix, g7) = reserve n (scPrevPix s);
          (dlay, g8) = reserve (max (int (length (slItems (scDoneLay s)))) 4) (scDoneLay s)
      in s\<lparr>scVis := vis, scNeed := need, scPref := pre, scBlits := blits, scDamage := damage, scPrevVis := pvis,
            scPrevPix := ppix, scDoneLay := dlay,
            scScratch := (if counted then scScratch s + (g1 + g2 + g3 + g4 + g5 + g6 + g7 + g8) else scScratch s)\<rparr>)"

subsection \<open>Construction and the shared inputs\<close>

text \<open>The zero value of the struct.\<close>

definition zero_sched :: sched where
  "zero_sched = \<lparr>scLayer = None, scSlot = zero_slot, scPrefs = \<lparr>prPrefetchRows = 0, prBudget = 0\<rparr>, scPending = None,
     scSize = Sz 0 0, scScale = 0, scScroll = Pt 0 0, scDir = Pt 0 0, scCur = zero_plan, scVis = sl_empty 0,
     scNeed = sl_empty 0, scPref = sl_empty 0, scBlits = sl_empty 0, scDamage = sl_empty 0, scPrevVis = sl_empty 0,
     scPrevPix = sl_empty 0, scDoneLay = sl_empty 0, scHaveDone = False, scDoneSize = Sz 0 0, scDoneOffset = Pt 0 0,
     scDoneScale = 0, scDoneBg = 0, scReused = 0, scReusedTotal = 0, scScratch = 0, scFrames = 0, scSubmitted = 0,
     scRefused = 0, scDeferred = 0, scPrefetched = 0, scRasterized = 0, scFailed = 0, scStaleNews = 0, scWrites = 0\<rparr>"

definition new_scheduler :: "nat option \<Rightarrow> viewport \<Rightarrow> rat \<Rightarrow> pref \<Rightarrow> world \<Rightarrow> (sched \<times> world) option" where
  "new_scheduler l vp scale prefs w =
     (let s = zero_sched\<lparr>scLayer := l, scPrefs := prefs, scSize := vSize vp, scScale := (if scale \<le> 0 then 1 else scale),
                scScroll := vOffset vp, scDir := Pt 0 1\<rparr>
      in case l of
           None \<Rightarrow> Some (reserve_scratch False w s, w)
         | Some a \<Rightarrow>
            (let s = s\<lparr>scScroll := clamp_scroll (vOffset vp) (lyBounds (wHeap w a)) (vSize vp)\<rparr>
             in case (if prBudget prefs > 0 then set_budget (prBudget prefs) (layer_grid w a) else Some (layer_grid w a)) of
                  None \<Rightarrow> None
                | Some g \<Rightarrow> (let w = set_grid a g w in Some (reserve_scratch False w s, w))))"

definition set_plan :: "frame_plan \<Rightarrow> sched \<Rightarrow> sched" where
  "set_plan p s = s\<lparr>scSlot := slot_publish p (scSlot s)\<rparr>"

definition update_layer :: "nat option \<Rightarrow> layer_dl option \<Rightarrow> rect \<Rightarrow> sched \<Rightarrow> bool \<times> sched" where
  "update_layer l content dirty s =
     (case l of
        None \<Rightarrow> (False, s)
      | Some a \<Rightarrow>
         (if content = None then (False, s)
          else let u = \<lparr>luLayer = a, luContent = content, luDirty = dirty, luAutoDamage = rect_empty dirty\<rparr>;
                   u = (case scPending s of
                          Some p \<Rightarrow> (if luLayer p = a
                            then u\<lparr>luDirty := rect_union (luDirty u) (luDirty p), luAutoDamage := luAutoDamage u \<or> luAutoDamage p\<rparr>
                            else u)
                        | None \<Rightarrow> u)
               in (True, s\<lparr>scPending := Some u\<rparr>)))"

definition apply_pending_update :: "sched \<times> world \<Rightarrow> sched \<times> world" where
  "apply_pending_update sw =
     (case sw of (s, w) \<Rightarrow>
       (case scPending s of
          None \<Rightarrow> (s, w)
        | Some u \<Rightarrow>
           (if scLayer s \<noteq> Some (luLayer u) then (s\<lparr>scPending := None\<rparr>, w)
            else let l = wHeap w (luLayer u);
                     dirty = (if luAutoDamage u then rect_union (luDirty u) (content_damage (lyContent l) (luContent u)) else luDirty u)
                 in if in_flight_in (lyGrid l) dirty \<noteq> 0 then (s, w)
                    else let l = set_content (luContent u) l; (n, l) = invalidate_rect dirty l
                         in (s\<lparr>scPending := None\<rparr>, w\<lparr>wHeap := (wHeap w)(luLayer u := l)\<rparr>))))"

definition set_viewport :: "viewport \<Rightarrow> sched \<Rightarrow> sched" where
  "set_viewport vp s =
     (let s = (if \<not> size_empty (vSize vp) then s\<lparr>scSize := vSize vp\<rparr> else s) in s\<lparr>scScroll := vOffset vp\<rparr>)"

definition submit_scroll :: "point \<Rightarrow> sched \<Rightarrow> sched_error option \<times> sched" where
  "submit_scroll delta s = (if size_empty (scSize s) then (Some ErrNoViewport, s) else (None, fold_scroll delta s))"

definition sched_stats_of :: "sched \<Rightarrow> world \<Rightarrow> sched_stats" where
  "sched_stats_of s w =
     (let g = (case scLayer s of None \<Rightarrow> None | Some l \<Rightarrow> Some (grid_stats_of (layer_grid w l)))
      in \<lparr>ssRasterized = scRasterized s, ssReused = scReusedTotal s, ssFailed = scFailed s,
          ssBytes = (case g of None \<Rightarrow> 0 | Some g \<Rightarrow> gsBytes g), ssBudget = (case g of None \<Rightarrow> 0 | Some g \<Rightarrow> gsBudget g),
          ssFrames = scFrames s, ssSubmitted = scSubmitted s, ssRefused = scRefused s, ssPrefetched = scPrefetched s,
          ssStaleNews = scStaleNews s, ssWrites = scWrites s, ssDeferred = scDeferred s\<rparr>)"

definition scratch_allocs :: "sched \<Rightarrow> int" where
  "scratch_allocs s = scScratch s"

subsection \<open>BeginFrame\<close>

text \<open>One turn of the walk over the visible set; the coordinate is taken from the leading edge.\<close>

definition visit_visible :: "nat \<Rightarrow> tile_coord \<Rightarrow> sched \<times> world \<Rightarrow> sched \<times> world" where
  "visit_visible l c sw =
     (case sw of (s, w) \<Rightarrow>
       let w = set_grid l (touch c (layer_grid w l)) w
       in if \<not> layer_needs (wHeap w l) c
          then (s\<lparr>scReused := scReused s + 1, scReusedTotal := scReusedTotal s + 1\<rparr>, w)
          else if in_flight (layer_grid w l) c \<or> grid_failed (layer_grid w l) c then (s, w)
          else (s\<lparr>scNeed := sl_append c (scNeed s)\<rparr>, w))"

definition leading_order :: "point \<Rightarrow> tile_coord list \<Rightarrow> tile_coord list" where
  "leading_order d vis = (if pY d > 0 \<or> (pY d = 0 \<and> pX d > 0) then rev vis else vis)"

definition ring_tile :: "nat \<Rightarrow> world \<Rightarrow> rect \<Rightarrow> tile_coord \<Rightarrow> sched \<times> int \<Rightarrow> sched \<times> int" where
  "ring_tile l w r c sn =
     (case sn of (s, added) \<Rightarrow>
       let g = layer_grid w l in
       if rect_intersects (coord_rect c (gTileSize g)) r then (s, added)
       else if in_flight g c \<or> grid_failed g c \<or> \<not> layer_needs (wHeap w l) c then (s, added)
       else (s\<lparr>scNeed := sl_append c (scNeed s)\<rparr>, added + 1))"

definition ring_dir :: "nat \<Rightarrow> world \<Rightarrow> viewport \<Rightarrow> int \<Rightarrow> point \<Rightarrow> sched \<times> int \<Rightarrow> sched \<times> int" where
  "ring_dir l w vp rows d sn =
     (if pX d = 0 \<and> pY d = 0 then sn
      else let cs = prefetch_coords (layer_grid w l) vp d rows; (s, added) = sn
           in fold (ring_tile l w (viewport_rect vp)) cs (s\<lparr>scPref := sl_append_all cs (scPref s)\<rparr>, added))"

definition ring :: "nat \<Rightarrow> world \<Rightarrow> viewport \<Rightarrow> sched \<Rightarrow> sched \<times> int" where
  "ring l w vp s =
     (let rows = ring_rows_for s w (scDir s) in
      if rows \<le> 0 then (s, 0)
      else fold (ring_dir l w vp rows) [scDir s, Pt (i32 (- pX (scDir s))) (i32 (- pY (scDir s)))] (s, 0))"

text \<open>The planning pass over a bound layer.\<close>

definition plan_tiles :: "nat \<Rightarrow> viewport \<Rightarrow> sched \<times> world \<Rightarrow> sched \<times> world" where
  "plan_tiles l vp sw =
     (let (s, w) = apply_pending_update sw;
          s = reserve_scratch True w s;
          w = set_grid l (tick (layer_grid w l)) w;
          vis = visible_coords (layer_grid w l) vp;
          s = s\<lparr>scVis := sl_append_all vis (scVis s)\<rparr>;
          (s, w) = fold (visit_visible l) (leading_order (scDir s) vis) (s, w);
          (s, added) = ring l w vp s
      in (s\<lparr>scPrefetched := scPrefetched s + added\<rparr>, w))"

text \<open>What the event says about the viewport, and the lists of the frame before emptied.\<close>

definition frame_inputs :: "event \<Rightarrow> sched \<Rightarrow> sched" where
  "frame_inputs ev s =
     (let s = fold_scroll (evDelta ev) (s\<lparr>scFrames := scFrames s + 1\<rparr>);
          s = (if \<not> size_empty (evSize ev) then s\<lparr>scSize := evSize ev\<rparr> else s);
          s = (if evScale ev > 0 then s\<lparr>scScale := evScale ev\<rparr> else s)
      in s\<lparr>scVis := sl_truncate (scVis s), scNeed := sl_truncate (scNeed s), scPref := sl_truncate (scPref s), scReused := 0\<rparr>)"

text \<open>A plan whose first layer is another one rebinds the scheduler.\<close>

definition bind_layer :: "frame_plan \<Rightarrow> sched \<Rightarrow> sched" where
  "bind_layer p s =
     (if fpLayers p \<noteq> [] \<and> hd (fpLayers p) \<noteq> scLayer s
      then s\<lparr>scLayer := hd (fpLayers p), scHaveDone := False\<rparr> else s)"

definition frame_planned :: "frame_plan \<Rightarrow> sched \<times> world
    \<Rightarrow> ((frame_plan \<times> tile_coord list) option \<times> sched \<times> world) option" where
  "frame_planned p sw =
     (case sw of (s, w) \<Rightarrow>
       if fpLayers p \<noteq> [] \<and> hd (fpLayers p) = None \<and> scLayer s \<noteq> None then None
       else let s = bind_layer p s; vp = resolve s w;
                s = s\<lparr>scCur := \<lparr>fpSerial = fpSerial p, fpViewport = vp, fpScale = scScale s, fpLayers = fpLayers p,
                                fpBackground = fpBackground p\<rparr>\<rparr>
            in case scLayer s of
                 None \<Rightarrow> Some (Some (scCur s, slItems (scNeed s)), s, w)
               | Some l \<Rightarrow> (let (s, w) = plan_tiles l vp (s, w) in Some (Some (scCur s, slItems (scNeed s)), s, w)))"

definition begin_frame :: "event \<Rightarrow> sched \<times> world
    \<Rightarrow> ((frame_plan \<times> tile_coord list) option \<times> sched \<times> world) option" where
  "begin_frame ev sw =
     (case sw of (s, w) \<Rightarrow>
       let s = frame_inputs ev s; ((p, ok), slot) = slot_take (scSlot s); s = s\<lparr>scSlot := slot\<rparr>
       in if \<not> ok then Some (None, s\<lparr>scCur := zero_plan\<rparr>, w) else frame_planned p (s, w))"

subsection \<open>Results\<close>

definition handle_done :: "raster_done \<Rightarrow> sched \<times> world \<Rightarrow> sched_error option \<times> sched \<times> world" where
  "handle_done d sw =
     (case sw of (s, w) \<Rightarrow>
       case scLayer s of
         None \<Rightarrow> (None, s, w)
       | Some l \<Rightarrow>
          (if dnLayer d \<noteq> None \<and> dnLayer d \<noteq> Some l
           then (let a = the (dnLayer d); (r, g) = grid_release (dnCoord d) (dnOut d) (layer_grid w a)
                 in (Some ErrForeignResult, s\<lparr>scStaleNews := scStaleNews s + 1\<rparr>, set_grid a g w))
           else if dnLayerID d \<noteq> lyID (wHeap w l)
           then (let w = (case dnLayer d of
                            None \<Rightarrow> w
                          | Some a \<Rightarrow> set_grid a (snd (grid_release (dnCoord d) (dnOut d) (layer_grid w a))) w)
                 in (Some ErrForeignResult, s\<lparr>scStaleNews := scStaleNews s + 1\<rparr>, w))
           else case dnErr d of
             Some e \<Rightarrow>
              (let g = snd (grid_release (dnCoord d) (dnOut d) (layer_grid w l))
               in if attempts g (dnCoord d) \<ge> MaxTileAttempts
                  then (Some (ErrOf e), s\<lparr>scFailed := scFailed s + 1\<rparr>, set_grid l (mark_failed (dnCoord d) g) w)
                  else (Some (ErrOf e), s, set_grid l g w))
           | None \<Rightarrow>
              (if dnVersion d < lyVersion (wHeap w l)
               then (None, s\<lparr>scStaleNews := scStaleNews s + 1\<rparr>,
                     set_grid l (snd (grid_release (dnCoord d) (dnOut d) (layer_grid w l))) w)
               else let (ok, g) = mark_valid (dnCoord d) (dnVersion d) (dnOut d) (layer_grid w l)
                    in if ok then (None, s\<lparr>scRasterized := scRasterized s + 1\<rparr>, set_grid l g w)
                       else (None, s\<lparr>scStaleNews := scStaleNews s + 1\<rparr>,
                             set_grid l (snd (grid_release (dnCoord d) (dnOut d) g)) w))))"

subsection \<open>Submit\<close>

text \<open>
  The loop over the needed tiles: \<open>painting\<close> is the running total, the rest of the list is
  what is still to be walked. \<open>None\<close> would be an eviction that does not end.
\<close>

fun submit_tiles :: "nat \<Rightarrow> int \<Rightarrow> int \<Rightarrow> tile_coord list \<Rightarrow> int \<Rightarrow> rpool \<Rightarrow> frame_work \<times> sched \<times> world
    \<Rightarrow> (int \<times> rpool \<times> frame_work \<times> sched \<times> world) option" where
  "submit_tiles l budget tb [] painting p (fw, s, w) = Some (painting, p, fw, s, w)"
| "submit_tiles l budget tb (c # cs) painting p (fw, s, w) =
     (if painting + tb > budget
      then Some (painting, p, fw, s\<lparr>scDeferred := scDeferred s + int (length (c # cs))\<rparr>, w)
      else if in_flight (layer_grid w l) c then submit_tiles l budget tb cs painting p (fw, s, w)
      else case acquire c (layer_grid w l) of
             None \<Rightarrow> None
           | Some (None, g) \<Rightarrow> submit_tiles l budget tb cs painting p (fw, s, set_grid l g w)
           | Some (Some out, g) \<Rightarrow>
              (let painting = painting + tb;
                   fw = fw\<lparr>fwSubmitted := fwSubmitted fw + 1\<rparr>;
                   s = s\<lparr>scSubmitted := scSubmitted s + 1\<rparr>;
                   j = \<lparr>jbLayer = Some l, jbCoord = c, jbDL = lyContent (wHeap w l), jbBounds = coord_rect c (gTileSize g),
                        jbOut = Some out, jbBackground = fpBackground (scCur s)\<rparr>;
                   (err, p) = rp_submit j p
               in if err = None then submit_tiles l budget tb cs painting p (fw, s, set_grid l g w)
                  else submit_tiles l budget tb cs (painting - tb) p
                         (fw\<lparr>fwRefused := fwRefused fw + 1\<rparr>, s\<lparr>scRefused := scRefused s + 1\<rparr>,
                          set_grid l (snd (grid_release c (Some out) g)) w)))"

text \<open>The drain: every result already there, never waiting for another.\<close>

function drain :: "rpool \<Rightarrow> int \<Rightarrow> sched \<times> world \<Rightarrow> rpool \<times> int \<times> sched \<times> world" where
  "drain p accepted sw =
     (case rp_poll p of
        (None, q) \<Rightarrow> (q, accepted, sw)
      | (Some d, q) \<Rightarrow>
         (let before = scRasterized (fst sw); (e, sw) = handle_done d sw
          in drain q (if scRasterized (fst sw) > before then accepted + 1 else accepted) sw))"
  by pat_completeness auto
termination
  by (relation "measure (\<lambda>(p, _). length (rpDone p))")
    (auto simp: rp_poll_def rp_collected_def split: list.splits)

definition sched_submit :: "tile_coord list \<Rightarrow> sched \<times> world \<Rightarrow> (frame_work \<times> sched \<times> world) option" where
  "sched_submit needed sw =
     (let (s, w) = sw;
          fw = \<lparr>fwNeeded = length needed, fwSubmitted = 0, fwRefused = 0, fwAccepted = 0, fwReused = scReused s, fwPaintingBytes = 0\<rparr>
      in case (scLayer s, wPool w) of
           (Some l, Some p) \<Rightarrow>
             (let st = grid_stats_of (layer_grid w l); fw = fw\<lparr>fwPaintingBytes := gsPaintingBytes st\<rparr>
              in case submit_tiles l (gsBudget st) (sched_tile_bytes s w) needed (gsPaintingBytes st) p (fw, s, w) of
                   None \<Rightarrow> None
                 | Some (painting, p, fw, s, w) \<Rightarrow>
                     (let (p, accepted, s, w) = drain p 0 (s, w)
                      in Some (fw\<lparr>fwAccepted := accepted\<rparr>, s, w\<lparr>wPool := Some p\<rparr>)))
         | _ \<Rightarrow> Some (fw, s, w))"

subsection \<open>ComposeInto\<close>

definition same_layers :: "nat option list \<Rightarrow> sched \<Rightarrow> bool" where
  "same_layers next s \<longleftrightarrow> next = slItems (scDoneLay s)"

function skip_before :: "tile_coord list \<Rightarrow> tile_coord \<Rightarrow> nat \<Rightarrow> nat" where
  "skip_before pv c i = (if i < length pv \<and> coord_less (pv ! i) c then skip_before pv c (Suc i) else i)"
  by pat_completeness auto
termination by (relation "measure (\<lambda>(pv, c, i). length pv - i)") auto

definition damage_tile :: "sched \<Rightarrow> grid \<Rightarrow> point \<Rightarrow> tile_coord \<Rightarrow> nat \<times> rect scratch \<Rightarrow> nat \<times> rect scratch" where
  "damage_tile s g off c st =
     (case st of (i, dmg) \<Rightarrow>
       let pv = slItems (scPrevVis s); pp = slItems (scPrevPix s); i = skip_before pv c i
       in if i \<ge> length pv \<or> pv ! i \<noteq> c then (i, dmg)
          else if i < length pp \<and> pp ! i \<noteq> grid_pixels g c
          then (Suc i, sl_append (rect_translate (coord_rect c (gTileSize g)) (i32 (- pX off)) (i32 (- pY off))) dmg)
          else (Suc i, dmg))"

definition damage_tiles :: "sched \<Rightarrow> grid \<Rightarrow> point \<Rightarrow> rect scratch \<Rightarrow> rect scratch" where
  "damage_tiles s g off dmg = snd (fold (damage_tile s g off) (slItems (scVis s)) (0, dmg))"

definition blits_of :: "grid \<Rightarrow> point \<Rightarrow> tile_coord list \<Rightarrow> (buf option \<times> rect) list" where
  "blits_of g off vis =
     map (\<lambda>c. (grid_pixels g c, rect_translate (coord_rect c (gTileSize g)) (i32 (- pX off)) (i32 (- pY off))))
       (filter (grid_blittable g) vis)"

definition deref_blit :: "memory \<Rightarrow> buf option \<times> rect \<Rightarrow> tile_blit" where
  "deref_blit m bd = \<lparr>tbPixels = map_option (bitmap_of m) (fst bd), tbDst = snd bd\<rparr>"

definition finish :: "buf \<Rightarrow> composer \<Rightarrow> frame_plan \<Rightarrow> point \<Rightarrow> sched \<times> world
    \<Rightarrow> (rect list \<times> composer \<times> sched \<times> world) option" where
  "finish backing c plan off sw =
     (let (s, w) = sw;
          mem = (case scLayer s of None \<Rightarrow> (\<lambda>_. []) | Some l \<Rightarrow> wMem w l)
      in case compose (fpBackground plan) (map (deref_blit mem) (slItems (scBlits s))) (slItems (scDamage s)) (Some (scWrites s)) c of
           None \<Rightarrow> None
         | Some (out, writes, c) \<Rightarrow>
            (let s = s\<lparr>scWrites := (case writes of None \<Rightarrow> scWrites s | Some n \<Rightarrow> n), scHaveDone := True, scDoneSize := buf_size backing,
                       scDoneOffset := off, scDoneScale := fpScale plan, scDoneBg := fpBackground plan,
                       scDoneLay := sl_append_all (fpLayers plan) (sl_truncate (scDoneLay s)),
                       scPrevVis := sl_append_all (slItems (scVis s)) (sl_truncate (scPrevVis s)),
                       scPrevPix := sl_truncate (scPrevPix s)\<rparr>;
                 s = (case scLayer s of
                        None \<Rightarrow> s
                      | Some l \<Rightarrow> s\<lparr>scPrevPix := sl_append_all (map (grid_pixels (layer_grid w l)) (slItems (scVis s))) (scPrevPix s)\<rparr>)
             in Some (out, c, s, w)))"

text \<open>Shift or full repaint: the vertical distance to shift by, and whether everything is damaged.\<close>

definition must_repaint :: "gsize \<Rightarrow> frame_plan \<Rightarrow> sched \<Rightarrow> bool" where
  "must_repaint sz plan s \<longleftrightarrow> \<not> scHaveDone s \<or> scDoneSize s \<noteq> sz \<or> scDoneScale s \<noteq> fpScale plan
     \<or> scDoneBg s \<noteq> fpBackground plan \<or> \<not> same_layers (fpLayers plan) s
     \<or> pX (vOffset (fpViewport plan)) \<noteq> pX (scDoneOffset s)"

definition scroll_distance :: "gsize \<Rightarrow> frame_plan \<Rightarrow> sched \<Rightarrow> bool \<times> int" where
  "scroll_distance sz plan s =
     (if must_repaint sz plan s then (True, 0)
      else let dy = i32 (pY (vOffset (fpViewport plan)) - pY (scDoneOffset s))
           in if dy \<ge> sH sz \<or> i32 (- dy) \<ge> sH sz then (True, 0) else (False, dy))"

definition buf_bounds :: "buf \<Rightarrow> rect" where
  "buf_bounds b = rect4 0 0 (i32 (bufW b)) (i32 (bufH b))"

definition scroll_damage :: "buf \<Rightarrow> gsize \<Rightarrow> bool \<Rightarrow> int \<Rightarrow> composer \<Rightarrow> rect scratch \<Rightarrow> (composer \<times> rect scratch) option" where
  "scroll_damage backing sz full dy c dmg =
     (if full then Some (c, sl_append (buf_bounds backing) dmg)
      else if dy > 0 then map_option (\<lambda>(w, c). (c, sl_append (rect4 0 (i32 (sH sz - dy)) (sW sz) (sH sz)) dmg)) (shift_y dy None c)
      else if dy < 0 then map_option (\<lambda>(w, c). (c, sl_append (rect4 0 0 (sW sz) (i32 (- dy))) dmg)) (shift_y dy None c)
      else Some (c, dmg))"

definition compose_into :: "buf option \<Rightarrow> composer option \<Rightarrow> frame_plan option \<Rightarrow> sched \<times> world
    \<Rightarrow> (rect list \<times> composer option \<times> sched \<times> world) option" where
  "compose_into backing cmpr plan sw =
     (let (s, w) = sw; s = s\<lparr>scDamage := sl_truncate (scDamage s), scBlits := sl_truncate (scBlits s)\<rparr>
      in case (backing, cmpr, plan) of
           (Some b, Some c, Some pl) \<Rightarrow>
             (let c = reserve_damage (slCap (scDamage s)) c
              in case scLayer s of
                   None \<Rightarrow> map_option (\<lambda>(out, c, sw). (out, Some c, sw))
                     (finish b c pl (Pt 0 0) (s\<lparr>scDamage := sl_append (buf_bounds b) (scDamage s)\<rparr>, w))
                 | Some l \<Rightarrow>
                    (let g = layer_grid w l; off = vOffset (fpViewport pl); sz = buf_size b;
                         (full, dy) = scroll_distance sz pl s
                     in case scroll_damage b sz full dy c (scDamage s) of
                          None \<Rightarrow> None
                        | Some (c, dmg) \<Rightarrow>
                           (let dmg = (if full then dmg else damage_tiles s g off dmg);
                                s = s\<lparr>scDamage := dmg, scBlits := sl_append_all (blits_of g off (slItems (scVis s))) (scBlits s)\<rparr>
                            in map_option (\<lambda>(out, c, sw). (out, Some c, sw)) (finish b c pl off (s, w)))))
         | _ \<Rightarrow> Some ([], cmpr, s, w))"

definition sched_damage :: "sched \<Rightarrow> rect list" where
  "sched_damage s = slItems (scDamage s)"

end
