(* ===== verification/Incremental_Compose.thy ===== *)
theory Incremental_Compose
  imports Scheduler
begin

text \<open>
  The argument behind \<open>ComposeInto\<close>: after a vertical scroll only the exposed band and the
  tiles whose buffer changed are repainted, and the backing store nevertheless shows what
  a full repaint would show. The tile coordinates are given their row-major order as a
  \<open>linorder\<close>, in which both lists of the merge are sorted.
\<close>

subsection \<open>Row-major order\<close>

instantiation tile_coord_ext :: (linorder) linorder
begin

definition less_eq_tile_coord_ext :: "'a tile_coord_ext \<Rightarrow> 'a tile_coord_ext \<Rightarrow> bool" where
  "less_eq_tile_coord_ext a b \<longleftrightarrow> tcRow a < tcRow b \<or> tcRow a = tcRow b
     \<and> (tcCol a < tcCol b \<or> tcCol a = tcCol b \<and> tile_coord.more a \<le> tile_coord.more b)"

definition less_tile_coord_ext :: "'a tile_coord_ext \<Rightarrow> 'a tile_coord_ext \<Rightarrow> bool" where
  "less_tile_coord_ext a b \<longleftrightarrow> tcRow a < tcRow b \<or> tcRow a = tcRow b
     \<and> (tcCol a < tcCol b \<or> tcCol a = tcCol b \<and> tile_coord.more a < tile_coord.more b)"

instance
  by standard (auto simp: less_eq_tile_coord_ext_def less_tile_coord_ext_def)

end

lemma coord_less_iff: "coord_less a b \<longleftrightarrow> a < b"
  by (cases a; cases b) (auto simp: coord_less_def less_tile_coord_ext_def)

lemma sorted_rows:
  "sorted_wrt (<) rs \<Longrightarrow> sorted_wrt (<) cs \<Longrightarrow>
   sorted_wrt (<) (concat (map (\<lambda>row. map (\<lambda>col. TC col row) cs) rs) :: tile_coord list)"
  by (induction rs)
    (auto simp: sorted_wrt_append sorted_wrt_map less_tile_coord_ext_def elim: sorted_wrt_mono_rel[rotated])

lemma coords_covering_sorted: "sorted_wrt (<) (coords_covering g r)"
  by (auto simp: coords_covering_def coord_range_def coords_in_def range_int_def intro!: sorted_rows split: option.split)

lemma visible_coords_sorted: "sorted_wrt (<) (visible_coords g vp)"
  by (simp add: visible_coords_def coords_covering_sorted)

subsection \<open>The merge of two sorted lists\<close>

declare skip_before.simps [simp del]

lemma skip_before_spec:
  "i \<le> skip_before pv c i \<and> (\<forall>k. i \<le> k \<and> k < skip_before pv c i \<longrightarrow> pv ! k < c)
   \<and> (skip_before pv c i < length pv \<longrightarrow> \<not> pv ! skip_before pv c i < c)
   \<and> (i \<le> length pv \<longrightarrow> skip_before pv c i \<le> length pv)"
proof (induction pv c i rule: skip_before.induct)
  case (1 pv c i)
  show ?case
  proof (cases "i < length pv \<and> coord_less (pv ! i) c")
    case True
    then have e: "skip_before pv c i = skip_before pv c (Suc i)" by (subst skip_before.simps) simp
    have "pv ! k < c" if "i \<le> k" "k < skip_before pv c (Suc i)" for k
      using 1[OF True] True that by (cases "k = i") (auto simp: coord_less_iff)
    with 1[OF True] True show ?thesis unfolding e by auto
  next
    case False
    then have "skip_before pv c i = i" by (simp only: skip_before.simps[of pv c i] if_False)
    with False show ?thesis by (auto simp: coord_less_iff)
  qed
qed

definition stale_at :: "tile_coord list \<Rightarrow> buf option list \<Rightarrow> grid \<Rightarrow> tile_coord \<Rightarrow> bool" where
  "stale_at pv pp g c \<longleftrightarrow> (\<exists>j < length pv. pv ! j = c \<and> j < length pp \<and> pp ! j \<noteq> grid_pixels g c)"

definition screen_rect :: "grid \<Rightarrow> point \<Rightarrow> tile_coord \<Rightarrow> rect" where
  "screen_rect g off c = rect_translate (coord_rect c (gTileSize g)) (i32 (- pX off)) (i32 (- pY off))"

lemma damage_fold:
  assumes pv: "sorted_wrt (<) pv" "pv = slItems (scPrevVis s)" "pp = slItems (scPrevPix s)"
  shows "sorted_wrt (<) vis \<Longrightarrow> i \<le> length pv \<Longrightarrow> (\<forall>c\<in>set vis. \<forall>j<i. pv ! j < c) \<Longrightarrow>
    snd (fold (damage_tile s g off) vis (i, dmg)) = sl_append_all (map (screen_rect g off) (filter (stale_at pv pp g) vis)) dmg"
proof (induction vis arbitrary: i dmg)
  case (Cons c vis)
  define j where "j = skip_before pv c i"
  note sk = skip_before_spec[of i pv c, folded j_def]
  have below: "pv ! k < c" if "k < j" for k using sk Cons.prems(3) that by (cases "k < i") auto
  have above: "c < pv ! k" if "j < k" "k < length pv" for k
    using sorted_wrt_nth_less[OF pv(1) that] sk that by (meson le_less_trans not_le_imp_less order.strict_trans1 less_imp_le_nat dual_order.strict_trans2 linorder_not_less)
  have only: "pv ! k = c \<longleftrightarrow> k = j \<and> pv ! j = c" if "k < length pv" for k
    using below[of k] above[of k] that by (metis less_irrefl linorder_neqE_nat)
  have at: "stale_at pv pp g c \<longleftrightarrow> j < length pv \<and> pv ! j = c \<and> j < length pp \<and> pp ! j \<noteq> grid_pixels g c"
    unfolding stale_at_def using only by auto
  have later: "\<forall>d\<in>set vis. c < d" using Cons.prems(1) by simp
  have fin: "snd (fold (damage_tile s g off) vis (i', dmg')) = sl_append_all (map (screen_rect g off) (filter (stale_at pv pp g) vis)) dmg'"
    if "i' = j \<and> (j \<ge> length pv \<or> pv ! j \<noteq> c) \<or> i' = Suc j \<and> j < length pv \<and> pv ! j = c" for i' dmg'
  proof (rule Cons.IH)
    show "sorted_wrt (<) vis" using Cons.prems(1) by simp
    show "i' \<le> length pv" using that sk Cons.prems(2) by auto
    show "\<forall>d\<in>set vis. \<forall>k<i'. pv ! k < d"
    proof (intro ballI allI impI)
      fix d k assume d: "d \<in> set vis" and k: "k < i'"
      then have "pv ! k \<le> c" using below[of k] that by (cases "k = j") auto
      then show "pv ! k < d" using later d by (meson order.strict_trans1)
    qed
  qed
  have "damage_tile s g off c (i, dmg) = (if stale_at pv pp g c then (Suc j, sl_append (screen_rect g off c) dmg)
      else if j < length pv \<and> pv ! j = c then (Suc j, dmg) else (j, dmg))"
    unfolding at by (auto simp: damage_tile_def Let_def pv(2,3)[symmetric] j_def[symmetric] screen_rect_def[symmetric])
  then show ?case
    using fin[of j dmg] fin[of "Suc j" dmg] fin[of "Suc j" "sl_append (screen_rect g off c) dmg"] at by auto
qed simp

lemma damage_tiles_eq:
  assumes "sorted_wrt (<) (slItems (scPrevVis s))" "sorted_wrt (<) (slItems (scVis s))"
  shows "damage_tiles s g off dmg = sl_append_all (map (screen_rect g off)
    (filter (stale_at (slItems (scPrevVis s)) (slItems (scPrevPix s)) g) (slItems (scVis s)))) dmg"
  using damage_fold[OF assms(1) refl refl assms(2), of 0 g off dmg] by (simp add: damage_tiles_def)

subsection \<open>What the tiles show at a content point\<close>

definition small :: "int \<Rightarrow> bool" where
  "small z \<longleftrightarrow> - 268435456 \<le> z \<and> z \<le> 268435456"

definition tile_shown :: "grid \<Rightarrow> (tile_coord \<Rightarrow> buf option) \<Rightarrow> memory \<Rightarrow> color \<Rightarrow> int \<Rightarrow> int \<Rightarrow> color" where
  "tile_shown g pix m bg x y =
     (if rect_contains (gExtent g) (Pt x y)
      then (let c = coord_for (Pt x y) (gTileSize g)
            in case pix c of None \<Rightarrow> bg
               | Some b \<Rightarrow> blend_over bg (px (bitmap_of m b) (x - tcCol c * gTileSize g) (y - tcRow c * gTileSize g)))
      else bg)"

definition mem_ok :: "grid \<Rightarrow> memory \<Rightarrow> bool" where
  "mem_ok g m \<longleftrightarrow> (\<forall>c b. grid_pixels g c = Some b \<longrightarrow> int (length (m (bufId b))) = bufLen b)"

text \<open>Outside the layer's extent a rasterized tile holds the background, or nothing.\<close>

definition outside_blank :: "grid \<Rightarrow> memory \<Rightarrow> color \<Rightarrow> bool" where
  "outside_blank g m bg \<longleftrightarrow> (\<forall>x y b. let c = coord_for (Pt x y) (gTileSize g) in
     in32 x \<and> in32 y \<and> grid_pixels g c = Some b \<and> \<not> rect_contains (gExtent g) (Pt x y) \<longrightarrow>
     blend_over bg (px (bitmap_of m b) (x - tcCol c * gTileSize g) (y - tcRow c * gTileSize g)) = bg)"

lemma blittable_iff: "grid_ok g \<Longrightarrow> grid_blittable g c \<longleftrightarrow> grid_pixels g c \<noteq> None"
proof (cases "gTiles g c")
  case (Some t)
  assume "grid_ok g"
  from grid_ok_tile[OF this Some] have "tState t = TileFailed \<longrightarrow> tPixels t = None" by (auto simp: tile_ok_def)
  with Some show ?thesis by (auto simp: grid_blittable_def tile_blittable_def grid_pixels_def)
qed (simp add: grid_blittable_def tile_blittable_def grid_pixels_def)

lemma pixels_tile_buf: "grid_ok g \<Longrightarrow> grid_pixels g c = Some b \<Longrightarrow> tile_buf (gTileSize g) b"
  using grid_ok_tile[of g c] by (auto simp: grid_pixels_def tile_ok_def split: option.splits)

lemma coord_of_point:
  assumes "0 < ts" "ts \<le> 268435456" "- 536870912 \<le> x" "x \<le> 536870912" "- 536870912 \<le> y" "y \<le> 536870912"
  shows "coord_for (Pt x y) ts = TC (x div ts) (y div ts)" "coord_fits (coord_for (Pt x y) ts) ts"
    "in32 x" "in32 y"
  using assms coord_for_fits[of ts "Pt x y"] by (auto simp: coord_for_def floorDiv_eq_div in32_def)

text \<open>The viewport of a frame, far from the ends of \<open>int32\<close>.\<close>

definition sane_view :: "grid \<Rightarrow> viewport \<Rightarrow> bool" where
  "sane_view g vp \<longleftrightarrow> small (pX (vOffset vp)) \<and> small (pY (vOffset vp)) \<and> 0 \<le> sW (vSize vp) \<and> 0 \<le> sH (vSize vp)
     \<and> small (sW (vSize vp)) \<and> small (sH (vSize vp)) \<and> gTileSize g \<le> 268435456 \<and> rect32 (gExtent g)"

lemma contains_viewport:
  "sane_view g vp \<Longrightarrow> rect_contains (viewport_rect vp) (Pt x y) \<longleftrightarrow>
     pX (vOffset vp) \<le> x \<and> x < pX (vOffset vp) + sW (vSize vp) \<and> pY (vOffset vp) \<le> y \<and> y < pY (vOffset vp) + sH (vSize vp)"
  by (auto simp: viewport_rect_def rect_at_def rect_contains_def sane_view_def small_def in32_def)

lemma viewport_rect32: "sane_view g vp \<Longrightarrow> rect32 (viewport_rect vp)"
  by (auto simp: viewport_rect_def rect_at_def rect32_def sane_view_def small_def in32_def)

lemma in_visible_coords:
  assumes "grid_ok g" "sane_view g vp"
  shows "c \<in> set (visible_coords g vp) \<longleftrightarrow>
     (\<exists>x y. rect_contains (viewport_rect vp) (Pt x y) \<and> rect_contains (gExtent g) (Pt x y) \<and> coord_for (Pt x y) (gTileSize g) = c)"
proof -
  have r: "rect32 (rect_intersection (viewport_rect vp) (gExtent g))"
    using viewport_rect32[OF assms(2)] assms(2) by (intro rect32_intersection) (auto simp: sane_view_def)
  have "\<exists>p. P p \<longleftrightarrow> (\<exists>x y. P (Pt x y))" for P :: "point \<Rightarrow> bool" by (metis point.surjective old.unit.exhaust)
  then have pt: "(\<exists>p. P p) \<longleftrightarrow> (\<exists>x y. P (Pt x y))" for P :: "point \<Rightarrow> bool" by (metis point.surjective old.unit.exhaust)
  show ?thesis
    unfolding visible_coords_def coords_covering_exact[OF grid_ok_D(2)[OF assms(1)] r] pt by auto
qed

lemma fold_single:
  "distinct xs \<Longrightarrow> fold (\<lambda>c d. if c = k then f d else d) xs d = (if k \<in> set xs then f d else d)"
  by (induction xs arbitrary: d) auto

lemma screen_rect_eq:
  assumes "coord_fits c (gTileSize g)" "small (pX off)" "small (pY off)"
    and "small (tcCol c * gTileSize g - pX off)" "small (tcRow c * gTileSize g - pY off)" "0 < gTileSize g" "gTileSize g \<le> 268435456"
  shows "screen_rect g off c = rect4 (tcCol c * gTileSize g - pX off) (tcRow c * gTileSize g - pY off)
     (tcCol c * gTileSize g + gTileSize g - pX off) (tcRow c * gTileSize g + gTileSize g - pY off)"
  using assms by (simp add: screen_rect_def coord_rect_fits rect_translate_def rect4_def small_def in32_def)

lemma visible_tile_place:
  assumes ok: "grid_ok g" and vp: "sane_view g vp" and c: "c \<in> set (visible_coords g vp)"
  shows "coord_fits c (gTileSize g)" "small (tcCol c * gTileSize g - pX (vOffset vp))"
    "small (tcRow c * gTileSize g - pY (vOffset vp))"
    "\<And>x y. in32 x \<Longrightarrow> in32 y \<Longrightarrow> rect_contains (coord_rect c (gTileSize g)) (Pt x y) \<longleftrightarrow> c = coord_for (Pt x y) (gTileSize g)"
proof -
  let ?ts = "gTileSize g"
  have ts: "0 < ?ts" "?ts \<le> 268435456" using grid_ok_D(2)[OF ok] vp by (auto simp: sane_view_def)
  obtain x y where p: "rect_contains (viewport_rect vp) (Pt x y)" "coord_for (Pt x y) ?ts = c"
    using c unfolding in_visible_coords[OF ok vp] by blast
  have xy: "pX (vOffset vp) \<le> x" "x < pX (vOffset vp) + sW (vSize vp)" "pY (vOffset vp) \<le> y" "y < pY (vOffset vp) + sH (vSize vp)"
    using p(1) by (auto simp: contains_viewport[OF vp])
  have b: "- 536870912 \<le> x" "x \<le> 536870912" "- 536870912 \<le> y" "y \<le> 536870912"
    using xy vp by (auto simp: sane_view_def small_def)
  note cp = coord_of_point[OF ts b]
  show fits: "coord_fits c ?ts" using cp(2) p(2) by simp
  have "tcCol c = x div ?ts" "tcRow c = y div ?ts" using cp(1) p(2) by auto
  then have "tcCol c * ?ts \<le> x \<and> x < tcCol c * ?ts + ?ts" "tcRow c * ?ts \<le> y \<and> y < tcRow c * ?ts + ?ts"
    using div_eq_iff_strip[OF ts(1)] by auto
  then show "small (tcCol c * ?ts - pX (vOffset vp))" "small (tcRow c * ?ts - pY (vOffset vp))"
    using xy vp ts by (auto simp: sane_view_def small_def)
  show "rect_contains (coord_rect c ?ts) (Pt x y) \<longleftrightarrow> c = coord_for (Pt x y) ?ts" if "in32 x" "in32 y" for x y
    using contains_coord_rect_iff[OF ts(1) _ _ fits, of "Pt x y"] that by simp
qed

lemma contains_screen_rect:
  assumes ok: "grid_ok g" and vp: "sane_view g vp" and c: "c \<in> set (visible_coords g vp)" and "small u" "small v"
  shows "rect_contains (screen_rect g (vOffset vp) c) (Pt u v)
     \<longleftrightarrow> c = coord_for (Pt (u + pX (vOffset vp)) (v + pY (vOffset vp))) (gTileSize g)"
proof -
  note pl = visible_tile_place[OF ok vp c]
  have ts: "0 < gTileSize g" "gTileSize g \<le> 268435456" "small (pX (vOffset vp))" "small (pY (vOffset vp))"
    using grid_ok_D(2)[OF ok] vp by (auto simp: sane_view_def)
  have "in32 (u + pX (vOffset vp))" "in32 (v + pY (vOffset vp))" using assms(4,5) ts by (auto simp: small_def in32_def)
  from pl(4)[OF this] show ?thesis
    unfolding screen_rect_eq[OF pl(1) ts(3,4) pl(2,3) ts(1,2)] coord_rect_fits[OF pl(1)]
    by (auto simp: rect_contains_def)
qed

text \<open>The tiles handed to the composer show, point by point, what the grid shows.\<close>

lemma blits_show:
  assumes ok: "grid_ok g" and vp: "sane_view g vp" and m: "mem_ok g m" and blank: "outside_blank g m bg"
    and u: "0 \<le> u" "u < sW (vSize vp)" and v: "0 \<le> v" "v < sH (vSize vp)"
  shows "fold (tile_over u v) (map (deref_blit m) (blits_of g (vOffset vp) (visible_coords g vp))) bg
     = tile_shown g (grid_pixels g) m bg (u + pX (vOffset vp)) (v + pY (vOffset vp))"
proof -
  let ?ts = "gTileSize g" and ?x = "u + pX (vOffset vp)" and ?y = "v + pY (vOffset vp)"
  define k where "k = coord_for (Pt ?x ?y) ?ts"
  define f where "f = (\<lambda>d. blend_over d (px (bitmap_of m (the (grid_pixels g k))) (?x - tcCol k * ?ts) (?y - tcRow k * ?ts)))"
  have suv: "small u" "small v" using u v vp by (auto simp: sane_view_def small_def)
  have ts: "0 < ?ts" "?ts \<le> 268435456" "small (pX (vOffset vp))" "small (pY (vOffset vp))"
    using grid_ok_D(2)[OF ok] vp by (auto simp: sane_view_def)
  have one: "tile_over u v (deref_blit m (grid_pixels g c, screen_rect g (vOffset vp) c)) d = (if c = k then f d else d)"
    if c: "c \<in> set (visible_coords g vp)" "grid_blittable g c" for c d
  proof -
    obtain b where b: "grid_pixels g c = Some b" using c(2) blittable_iff[OF ok] by auto
    note pl = visible_tile_place[OF ok vp c(1)]
    note sr = screen_rect_eq[OF pl(1) ts(3,4) pl(2,3) ts(1,2)]
    have in_s: "rect_contains (screen_rect g (vOffset vp) c) (Pt u v) \<longleftrightarrow> c = k"
      using contains_screen_rect[OF ok vp c(1) suv] by (simp add: k_def)
    have tb: "bufW b = ?ts" "bufH b = ?ts" using pixels_tile_buf[OF ok b] by (auto simp: tile_buf_def)
    have at: "u - rX0 (screen_rect g (vOffset vp) c) = ?x - tcCol c * ?ts" "v - rY0 (screen_rect g (vOffset vp) c) = ?y - tcRow c * ?ts"
      by (simp_all add: sr)
    have "in_bitmap (bitmap_of m b) (?x - tcCol c * ?ts) (?y - tcRow c * ?ts)" if "c = k"
      using that in_s unfolding sr by (auto simp: rect_contains_def in_bitmap_def bitmap_of_def tb)
    then show ?thesis
      unfolding tile_over_def deref_blit_def fst_conv snd_conv tile_blit.simps b option.map option.case Let_def at
      using in_s b by (auto simp: f_def)
  qed
  have d: "distinct (filter (grid_blittable g) (visible_coords g vp))"
    by (simp add: visible_coords_def coords_covering_distinct)
  have "fold (tile_over u v) (map (deref_blit m) (blits_of g (vOffset vp) (visible_coords g vp))) bg
      = fold (\<lambda>c. tile_over u v (deref_blit m (grid_pixels g c, screen_rect g (vOffset vp) c))) (filter (grid_blittable g) (visible_coords g vp)) bg"
    unfolding blits_of_def screen_rect_def[symmetric] by (simp add: fold_map o_def)
  also have "\<dots> = fold (\<lambda>c d. if c = k then f d else d) (filter (grid_blittable g) (visible_coords g vp)) bg"
    by (rule fold_cong) (use one in \<open>auto simp: fun_eq_iff\<close>)
  also have "\<dots> = (if k \<in> set (filter (grid_blittable g) (visible_coords g vp)) then f bg else bg)"
    by (rule fold_single[OF d])
  also have "\<dots> = tile_shown g (grid_pixels g) m bg ?x ?y"
  proof (cases "rect_contains (gExtent g) (Pt ?x ?y)")
    case True
    have "rect_contains (viewport_rect vp) (Pt ?x ?y)" using u v by (simp add: contains_viewport[OF vp])
    with True have "k \<in> set (visible_coords g vp)"
      unfolding in_visible_coords[OF ok vp] k_def by blast
    then show ?thesis
      using True by (auto simp: tile_shown_def k_def[symmetric] f_def blittable_iff[OF ok] Let_def split: option.split)
  next
    case False
    have "f bg = bg" if some: "grid_pixels g k \<noteq> None"
    proof -
      obtain b where "grid_pixels g k = Some b" using some by auto
      moreover have "in32 ?x" "in32 ?y" using suv ts by (auto simp: small_def in32_def)
      moreover have "let c = k in in32 ?x \<and> in32 ?y \<and> grid_pixels g c = Some b \<and> \<not> rect_contains (gExtent g) (Pt ?x ?y) \<longrightarrow>
         blend_over bg (px (bitmap_of m b) (?x - tcCol c * gTileSize g) (?y - tcRow c * gTileSize g)) = bg"
        using blank unfolding outside_blank_def k_def by blast
      ultimately show ?thesis using False by (simp add: f_def)
    qed
    with False show ?thesis by (auto simp: tile_shown_def blittable_iff[OF ok])
  qed
  finally show ?thesis .
qed

subsection \<open>Incremental composition is a full repaint\<close>

definition depicts :: "bitmap \<Rightarrow> point \<Rightarrow> (int \<Rightarrow> int \<Rightarrow> color) \<Rightarrow> bool" where
  "depicts bm off f \<longleftrightarrow> (\<forall>u v. in_bitmap bm u v \<longrightarrow> px bm u v = f (u + pX off) (v + pY off))"

text \<open>The buffer the last composition read for a coordinate.\<close>

definition prev_pixels :: "sched \<Rightarrow> tile_coord \<Rightarrow> buf option" where
  "prev_pixels s c = (case map_of (zip (slItems (scPrevVis s)) (slItems (scPrevPix s))) c of None \<Rightarrow> None | Some b \<Rightarrow> b)"

text \<open>
  What the last composition left behind: the recorded lists describe a viewport, and the
  backing store shows what the recorded buffers held when it ran (\<open>m0\<close>).
\<close>

definition composed :: "grid \<Rightarrow> memory \<Rightarrow> buf \<Rightarrow> composer \<Rightarrow> sched \<Rightarrow> bool" where
  "composed g m0 b c s \<longleftrightarrow> (scHaveDone s \<longrightarrow>
     (let vp = \<lparr>vOffset = scDoneOffset s, vSize = scDoneSize s\<rparr> in
        sane_view g vp \<and> slItems (scPrevVis s) = visible_coords g vp
      \<and> length (slItems (scPrevPix s)) = length (slItems (scPrevVis s))
      \<and> (scDoneSize s = buf_size b \<longrightarrow>
           depicts (bitmap_of (cpMem c) b) (scDoneOffset s) (tile_shown g (prev_pixels s) m0 (scDoneBg s)))))"

text \<open>A buffer still presented for the coordinate it was composed for holds the bytes it held then.\<close>

definition stable_pixels :: "grid \<Rightarrow> memory \<Rightarrow> memory \<Rightarrow> sched \<Rightarrow> bool" where
  "stable_pixels g m0 m s \<longleftrightarrow> (\<forall>c b. prev_pixels s c = Some b \<and> grid_pixels g c = Some b \<longrightarrow> m (bufId b) = m0 (bufId b))"

lemma prev_pixels_nth:
  assumes "sorted_wrt (<) (slItems (scPrevVis s))" "length (slItems (scPrevPix s)) = length (slItems (scPrevVis s))"
    and "c \<in> set (slItems (scPrevVis s))" "\<not> stale_at (slItems (scPrevVis s)) (slItems (scPrevPix s)) g c"
  shows "prev_pixels s c = grid_pixels g c"
proof -
  obtain j where j: "j < length (slItems (scPrevVis s))" "slItems (scPrevVis s) ! j = c"
    using assms(3) by (auto simp: in_set_conv_nth)
  have "distinct (slItems (scPrevVis s))" using assms(1) strict_sorted_iff by blast
  then have "map_of (zip (slItems (scPrevVis s)) (slItems (scPrevPix s))) c = Some (slItems (scPrevPix s) ! j)"
    using j assms(2) map_of_zip_nth[of "slItems (scPrevVis s)" "slItems (scPrevPix s)" j] by auto
  with j assms(2,4) show ?thesis by (auto simp: prev_pixels_def stale_at_def)
qed

lemma finish_shows:
  assumes l: "scLayer s = Some l" and ok: "grid_ok (layer_grid w l)" and vp: "sane_view (layer_grid w l) (fpViewport plan)"
    and m: "mem_ok (layer_grid w l) (wMem w l)" and blank: "outside_blank (layer_grid w l) (wMem w l) (fpBackground plan)"
    and vis: "slItems (scVis s) = visible_coords (layer_grid w l) (fpViewport plan)"
    and blits: "slItems (scBlits s) = blits_of (layer_grid w l) (vOffset (fpViewport plan)) (slItems (scVis s))"
    and c: "cpBacking c = Some b" "good_surface (bitmap_of (cpMem c) b)" and sz: "vSize (fpViewport plan) = buf_size b"
    and bg: "color_opaque (fpBackground plan)"
    and old: "\<And>u v. in_bitmap (bitmap_of (cpMem c) b) u v \<Longrightarrow> \<forall>d\<in>set (slItems (scDamage s)). \<not> rect_contains d (Pt u v) \<Longrightarrow>
        px (bitmap_of (cpMem c) b) u v = tile_shown (layer_grid w l) (grid_pixels (layer_grid w l)) (wMem w l) (fpBackground plan)
          (u + pX (vOffset (fpViewport plan))) (v + pY (vOffset (fpViewport plan)))"
  shows "\<exists>out c' s'. finish b c plan (vOffset (fpViewport plan)) (s, w) = Some (out, c', s', w)
    \<and> cpBacking c' = Some b \<and> same_frame (bitmap_of (cpMem c) b) (bitmap_of (cpMem c') b)
    \<and> depicts (bitmap_of (cpMem c') b) (vOffset (fpViewport plan))
        (tile_shown (layer_grid w l) (grid_pixels (layer_grid w l)) (wMem w l) (fpBackground plan))
    \<and> composed (layer_grid w l) (wMem w l) b c' s' \<and> scHaveDone s' \<and> scLayer s' = scLayer s
    \<and> out = presented (bitmap_bounds (bitmap_of (cpMem c) b)) (slItems (scDamage s))"
proof -
  let ?g = "layer_grid w l" and ?m = "wMem w l" and ?vp = "fpViewport plan" and ?bg = "fpBackground plan"
  let ?bm = "bitmap_of (cpMem c) b" and ?tiles = "map (deref_blit (wMem w l)) (slItems (scBlits s))"
  have ts: "0 < gTileSize ?g" "gTileSize ?g \<le> 268435456" "small (pX (vOffset ?vp))" "small (pY (vOffset ?vp))"
    using grid_ok_D(2)[OF ok] vp by (auto simp: sane_view_def)
  have good: "\<forall>t\<in>set ?tiles. good_tile t"
  proof
    fix t assume "t \<in> set ?tiles"
    then obtain k where k: "k \<in> set (visible_coords ?g ?vp)" "grid_blittable ?g k"
      and t: "t = deref_blit ?m (grid_pixels ?g k, screen_rect ?g (vOffset ?vp) k)"
      unfolding blits vis blits_of_def screen_rect_def[symmetric] by auto
    obtain kb where kb: "grid_pixels ?g k = Some kb" using k(2) blittable_iff[OF ok] by auto
    note pl = visible_tile_place[OF ok vp k(1)]
    note sr = screen_rect_eq[OF pl(1) ts(3,4) pl(2,3) ts(1,2)]
    have tb: "tile_buf (gTileSize ?g) kb" by (rule pixels_tile_buf[OF ok kb])
    moreover have "int (length (?m (bufId kb))) = bufLen kb" using m kb by (auto simp: mem_ok_def)
    ultimately have "good_surface (bitmap_of ?m kb)"
      using ts by (auto simp: good_surface_def wf_bitmap_def bitmap_of_def tile_buf_def near_def in32_def algebra_simps)
    then show "good_tile t"
      using pl(2,3) ts by (auto simp: t good_tile_def deref_blit_def kb sr near_rect_def near_def small_def)
  qed
  obtain w' c' where c': "compose ?bg ?tiles (slItems (scDamage s)) (Some (scWrites s)) c
      = Some (presented (bitmap_bounds ?bm) (slItems (scDamage s)), w', c')" "cpBacking c' = Some b"
    "repaints (\<lambda>u v. \<exists>d\<in>set (slItems (scDamage s)). rect_contains d (Pt u v)) (scene ?bg ?tiles) ?bm (bitmap_of (cpMem c') b)"
    using compose_pixels[OF c bg good, of "slItems (scDamage s)" "Some (scWrites s)"] by blast
  have same: "same_frame ?bm (bitmap_of (cpMem c') b)" using c'(3) by (simp add: repaints_def)
  have size: "bW ?bm = sW (vSize ?vp)" "bH ?bm = sH (vSize ?vp)"
  proof -
    have "in32 (bufW b)" "in32 (bufH b)" using c(2) by (auto simp: good_surface_def wf_bitmap_def bitmap_of_def)
    then show "bW ?bm = sW (vSize ?vp)" "bH ?bm = sH (vSize ?vp)" by (simp_all add: bitmap_of_def sz buf_size_def)
  qed
  have dep: "depicts (bitmap_of (cpMem c') b) (vOffset ?vp) (tile_shown ?g (grid_pixels ?g) ?m ?bg)"
    unfolding depicts_def
  proof (intro allI impI)
    fix u v assume uv: "in_bitmap (bitmap_of (cpMem c') b) u v"
    then have uv0: "in_bitmap ?bm u v" by (simp add: in_bitmap_same_frame[OF same])
    then have r: "0 \<le> u" "u < sW (vSize ?vp)" "0 \<le> v" "v < sH (vSize ?vp)" using size by (auto simp: in_bitmap_def)
    show "px (bitmap_of (cpMem c') b) u v = tile_shown ?g (grid_pixels ?g) ?m ?bg (u + pX (vOffset ?vp)) (v + pY (vOffset ?vp))"
    proof (cases "\<exists>d\<in>set (slItems (scDamage s)). rect_contains d (Pt u v)")
      case True
      then have "px (bitmap_of (cpMem c') b) u v = fold (tile_over u v) ?tiles ?bg"
        using c'(3) uv0 bg by (simp add: repaints_def scene_def)
      also have "\<dots> = tile_shown ?g (grid_pixels ?g) ?m ?bg (u + pX (vOffset ?vp)) (v + pY (vOffset ?vp))"
        unfolding blits vis by (rule blits_show[OF ok vp m blank r])
      finally show ?thesis .
    next
      case False
      then have "px (bitmap_of (cpMem c') b) u v = px ?bm u v" using c'(3) uv0 by (simp add: repaints_def)
      with old[OF uv0] False show ?thesis by simp
    qed
  qed
  define s' where "s' = s\<lparr>scWrites := (case w' of None \<Rightarrow> scWrites s | Some n \<Rightarrow> n), scHaveDone := True, scDoneSize := buf_size b,
      scDoneOffset := vOffset ?vp, scDoneScale := fpScale plan, scDoneBg := ?bg,
      scDoneLay := sl_append_all (fpLayers plan) (sl_truncate (scDoneLay s)),
      scPrevVis := sl_append_all (slItems (scVis s)) (sl_truncate (scPrevVis s)),
      scPrevPix := sl_append_all (map (grid_pixels ?g) (slItems (scVis s))) (sl_truncate (scPrevPix s))\<rparr>"
  have fin: "finish b c plan (vOffset ?vp) (s, w) = Some (presented (bitmap_bounds ?bm) (slItems (scDamage s)), c', s', w)"
    using c'(1) l by (simp add: finish_def s'_def Let_def)
  have items: "slItems (scPrevVis s') = visible_coords ?g ?vp" "slItems (scPrevPix s') = map (grid_pixels ?g) (visible_coords ?g ?vp)"
    by (simp_all add: s'_def vis)
  have prev: "prev_pixels s' k = (if k \<in> set (visible_coords ?g ?vp) then grid_pixels ?g k else None)" for k
    by (simp add: prev_pixels_def items map_of_zip_map split: option.split)
  have vp': "\<lparr>vOffset = vOffset ?vp, vSize = buf_size b\<rparr> = ?vp" using sz by (cases ?vp) simp
  have "tile_shown ?g (prev_pixels s') ?m ?bg (u + pX (vOffset ?vp)) (v + pY (vOffset ?vp))
      = tile_shown ?g (grid_pixels ?g) ?m ?bg (u + pX (vOffset ?vp)) (v + pY (vOffset ?vp))"
    if "in_bitmap (bitmap_of (cpMem c') b) u v" for u v
  proof -
    have "0 \<le> u" "u < sW (vSize ?vp)" "0 \<le> v" "v < sH (vSize ?vp)"
      using that size by (auto simp: in_bitmap_same_frame[OF same] in_bitmap_def)
    then have "rect_contains (viewport_rect ?vp) (Pt (u + pX (vOffset ?vp)) (v + pY (vOffset ?vp)))"
      by (simp add: contains_viewport[OF vp])
    then show ?thesis
      unfolding tile_shown_def Let_def prev using in_visible_coords[OF ok vp] by auto
  qed
  then have "composed ?g ?m b c' s'"
    using dep vp vp' items by (simp add: composed_def Let_def depicts_def) (simp add: s'_def)
  with fin c'(2) same dep show ?thesis
    by (intro exI[of _ "presented (bitmap_bounds ?bm) (slItems (scDamage s))"] exI[of _ c'] exI[of _ s']) (simp add: s'_def)
qed

text \<open>What the shift leaves in place: every row still wanted already shows the new position.\<close>

lemma shifted_shows:
  assumes ok: "grid_ok g" and old: "sane_view g \<lparr>vOffset = o0, vSize = sz\<rparr>" and new: "sane_view g \<lparr>vOffset = o1, vSize = sz\<rparr>"
    and b: "good_surface bm" "bW bm = sW sz" "bH bm = sH sz" and x: "pX o1 = pX o0" and dy: "dy = pY o1 - pY o0" "\<bar>dy\<bar> < sH sz"
    and dep: "depicts bm o0 (tile_shown g pix0 m0 bg)" and sh: "shift_bitmap dy (bm, None) = Some (bm', w')"
    and uv: "in_bitmap bm u v" "in_bitmap bm u (v + dy)"
    and same: "\<And>c. c \<in> set (visible_coords g \<lparr>vOffset = o0, vSize = sz\<rparr>) \<Longrightarrow> c \<in> set (visible_coords g \<lparr>vOffset = o1, vSize = sz\<rparr>)
       \<Longrightarrow> rect_contains (screen_rect g o1 c) (Pt u v) \<Longrightarrow> pix0 c = pix1 c \<and> (\<forall>k. pix1 c = Some k \<longrightarrow> m0 (bufId k) = m1 (bufId k))"
  shows "px bm' u v = tile_shown g pix1 m1 bg (u + pX o1) (v + pY o1)"
proof -
  let ?v0 = "\<lparr>vOffset = o0, vSize = sz\<rparr>" and ?v1 = "\<lparr>vOffset = o1, vSize = sz\<rparr>"
  have "in32 dy" using old new dy(1) by (auto simp: sane_view_def small_def in32_def)
  then have "px bm' u v = px bm u (v + dy)"
    using shift_pixels[OF b(1), of dy None] sh uv dy b(3) by auto
  also have "\<dots> = tile_shown g pix0 m0 bg (u + pX o1) (v + pY o1)"
  proof -
    have "v + dy + pY o0 = v + pY o1" using dy(1) by simp
    moreover have "px bm u (v + dy) = tile_shown g pix0 m0 bg (u + pX o0) (v + dy + pY o0)"
      using dep uv(2) unfolding depicts_def by blast
    ultimately show ?thesis by (simp only: x)
  qed
  also have "\<dots> = tile_shown g pix1 m1 bg (u + pX o1) (v + pY o1)"
  proof (cases "rect_contains (gExtent g) (Pt (u + pX o1) (v + pY o1))")
    case True
    let ?c = "coord_for (Pt (u + pX o1) (v + pY o1)) (gTileSize g)"
    have "rect_contains (viewport_rect ?v0) (Pt (u + pX o1) (v + pY o1))" "rect_contains (viewport_rect ?v1) (Pt (u + pX o1) (v + pY o1))"
      using uv b x dy by (auto simp: contains_viewport[OF old] contains_viewport[OF new] in_bitmap_def)
    then have c: "?c \<in> set (visible_coords g ?v0)" "?c \<in> set (visible_coords g ?v1)"
      using True unfolding in_visible_coords[OF ok old] in_visible_coords[OF ok new] by blast+
    have "small u" "small v" using uv(1) b new by (auto simp: in_bitmap_def sane_view_def small_def)
    then have "rect_contains (screen_rect g o1 ?c) (Pt u v)"
      using contains_screen_rect[OF ok new c(2)] by simp
    from same[OF c this] show ?thesis
      by (auto simp: tile_shown_def Let_def bitmap_of_def split: option.split)
  next
    case False
    then show ?thesis by (simp add: tile_shown_def)
  qed
  finally show ?thesis .
qed

lemma scroll_distance_cases:
  assumes "scroll_distance sz plan s = (full, dy)"
    and "sane_view g \<lparr>vOffset = scDoneOffset s, vSize = scDoneSize s\<rparr> \<or> \<not> scHaveDone s" "sane_view g (fpViewport plan)"
  obtains "full" | "\<not> full" "\<not> must_repaint sz plan s" "dy = pY (vOffset (fpViewport plan)) - pY (scDoneOffset s)" "\<bar>dy\<bar> < sH sz" "in32 dy"
proof (cases "must_repaint sz plan s")
  case True
  then show thesis using assms(1) that(1) by (simp add: scroll_distance_def)
next
  case False
  then have "sane_view g \<lparr>vOffset = scDoneOffset s, vSize = scDoneSize s\<rparr>" using assms(2) by (auto simp: must_repaint_def)
  then have i: "in32 (pY (vOffset (fpViewport plan)) - pY (scDoneOffset s))" "in32 (- (pY (vOffset (fpViewport plan)) - pY (scDoneOffset s)))"
    using assms(3) by (auto simp: sane_view_def small_def in32_def)
  show thesis
  proof (cases full)
    case True
    then show thesis by (rule that(1))
  next
    case nf: False
    then show thesis
      using assms(1) False i by (intro that(2)) (auto simp: scroll_distance_def Let_def split: if_splits)
  qed
qed

lemma compose_into_shows:
  assumes l: "scLayer s = Some l" and ok: "grid_ok (layer_grid w l)" and vp: "sane_view (layer_grid w l) (fpViewport plan)"
    and m: "mem_ok (layer_grid w l) (wMem w l)" and blank: "outside_blank (layer_grid w l) (wMem w l) (fpBackground plan)"
    and vis: "slItems (scVis s) = visible_coords (layer_grid w l) (fpViewport plan)"
    and c: "cpBacking c = Some b" "good_surface (bitmap_of (cpMem c) b)" and sz: "vSize (fpViewport plan) = buf_size b"
    and bg: "color_opaque (fpBackground plan)"
    and prev: "composed (layer_grid w l) m0 b c s" "stable_pixels (layer_grid w l) m0 (wMem w l) s"
  shows "\<exists>out c' s'. compose_into (Some b) (Some c) (Some plan) (s, w) = Some (out, Some c', s', w)
    \<and> cpBacking c' = Some b \<and> same_frame (bitmap_of (cpMem c) b) (bitmap_of (cpMem c') b)
    \<and> depicts (bitmap_of (cpMem c') b) (vOffset (fpViewport plan))
        (tile_shown (layer_grid w l) (grid_pixels (layer_grid w l)) (wMem w l) (fpBackground plan))
    \<and> composed (layer_grid w l) (wMem w l) b c' s' \<and> scHaveDone s'"
proof -
  let ?g = "layer_grid w l" and ?m = "wMem w l" and ?vp = "fpViewport plan" and ?off = "vOffset (fpViewport plan)"
  define s1 where "s1 = s\<lparr>scDamage := sl_truncate (scDamage s), scBlits := sl_truncate (scBlits s)\<rparr>"
  define c1 where "c1 = reserve_damage (slCap (scDamage s1)) c"
  have c1: "cpBacking c1 = Some b" "cpMem c1 = cpMem c"
    using c(1) by (simp_all add: c1_def reserve_damage_def)
  obtain full dy where fd: "scroll_distance (buf_size b) plan s1 = (full, dy)" by fastforce
  have s1: "scHaveDone s1 = scHaveDone s" "scDoneOffset s1 = scDoneOffset s" "scDoneSize s1 = scDoneSize s" "scDoneBg s1 = scDoneBg s"
    "scPrevVis s1 = scPrevVis s" "scPrevPix s1 = scPrevPix s" "scVis s1 = scVis s" "scLayer s1 = scLayer s" "slItems (scDamage s1) = []" "slItems (scBlits s1) = []"
    "prev_pixels s1 = prev_pixels s"
    by (simp_all add: s1_def prev_pixels_def fun_eq_iff)
  have in_b: "0 \<le> bufW b" "0 \<le> bufH b" "i32 (bufW b) = bufW b" "i32 (bufH b) = bufH b" "sW (buf_size b) = bufW b" "sH (buf_size b) = bufH b"
    using c(2) by (auto simp: good_surface_def wf_bitmap_def bitmap_of_def buf_size_def)
  have wall: "rect_contains (buf_bounds b) (Pt u v)" if "in_bitmap (bitmap_of mm b) u v" for u v mm
    using that in_b by (auto simp: in_bitmap_def bitmap_of_def buf_bounds_def rect_contains_def)
  have view: "sane_view ?g \<lparr>vOffset = scDoneOffset s1, vSize = scDoneSize s1\<rparr> \<or> \<not> scHaveDone s1"
    using prev(1) by (auto simp: composed_def s1 Let_def)
  have ready: "\<exists>c2 dmg. scroll_damage b (buf_size b) full dy c1 (scDamage s1) = Some (c2, dmg)
      \<and> cpBacking c2 = Some b \<and> same_frame (bitmap_of (cpMem c) b) (bitmap_of (cpMem c2) b)
      \<and> (\<forall>u v. in_bitmap (bitmap_of (cpMem c) b) u v
          \<longrightarrow> (\<forall>d\<in>set (slItems (if full then dmg else damage_tiles s1 ?g ?off dmg)). \<not> rect_contains d (Pt u v))
          \<longrightarrow> px (bitmap_of (cpMem c2) b) u v = tile_shown ?g (grid_pixels ?g) ?m (fpBackground plan) (u + pX ?off) (v + pY ?off))"
  proof (rule scroll_distance_cases[OF fd view vp])
    assume full
    then show ?thesis
      using c1 wall[of "cpMem c"] by (auto simp: scroll_damage_def s1)
  next
    assume nf: "\<not> full" "\<not> must_repaint (buf_size b) plan s1" "dy = pY ?off - pY (scDoneOffset s1)" "\<bar>dy\<bar> < sH (buf_size b)" "in32 dy"
    have dn: "scHaveDone s" "scDoneSize s = buf_size b" "scDoneBg s = fpBackground plan" "pX ?off = pX (scDoneOffset s)"
      using nf(2) by (auto simp: must_repaint_def s1)
    have P: "sane_view ?g \<lparr>vOffset = scDoneOffset s, vSize = buf_size b\<rparr>"
      "slItems (scPrevVis s) = visible_coords ?g \<lparr>vOffset = scDoneOffset s, vSize = buf_size b\<rparr>"
      "length (slItems (scPrevPix s)) = length (slItems (scPrevVis s))"
      "depicts (bitmap_of (cpMem c) b) (scDoneOffset s) (tile_shown ?g (prev_pixels s) m0 (fpBackground plan))"
      using prev(1) dn by (auto simp: composed_def Let_def)
    have vp': "?vp = \<lparr>vOffset = ?off, vSize = buf_size b\<rparr>" using sz by (cases ?vp) simp
    obtain bm' where sh: "shift_bitmap dy (bitmap_of (cpMem c) b, None) = Some (bm', None)" "same_frame (bitmap_of (cpMem c) b) bm'"
      "dy = 0 \<longrightarrow> bm' = bitmap_of (cpMem c) b"
    proof -
      from shift_pixels[OF c(2) nf(5), of None] obtain bm' w' where r: "shift_bitmap dy (bitmap_of (cpMem c) b, None) = Some (bm', w')"
        "same_frame (bitmap_of (cpMem c) b) bm'" "w' = None" by blast
      moreover have "dy = 0 \<longrightarrow> bm' = bitmap_of (cpMem c) b" using r(1) by (auto simp: shift_bitmap_def)
      ultimately show thesis using that by blast
    qed
    define c2 where "c2 = c1\<lparr>cpMem := (cpMem c1)(bufId b := bRGBA bm')\<rparr>"
    define band where "band = (if dy > 0 then [rect4 0 (i32 (sH (buf_size b) - dy)) (sW (buf_size b)) (sH (buf_size b))]
      else if dy < 0 then [rect4 0 0 (sW (buf_size b)) (i32 (- dy))] else [])"
    have bm2: "bitmap_of (cpMem c2) b = bm'" using bitmap_of_store[OF sh(2)] by (simp add: c2_def c1)
    have same_c: "dy = 0 \<longrightarrow> c2 = c1"
      using sh(3) by (auto simp: c2_def c1 bitmap_of_def)
    have shy: "shift_y dy None c1 = Some (None, c2)"
      using sh(1) by (simp add: shift_y_def c1 c2_def)
    have sd: "scroll_damage b (buf_size b) full dy c1 (scDamage s1) = Some (c2, sl_append_all band (scDamage s1))"
      using nf(1) same_c by (simp add: scroll_damage_def shy band_def)
    have dmg: "set (slItems (damage_tiles s1 ?g ?off (sl_append_all band (scDamage s1))))
        = set band \<union> screen_rect ?g ?off ` {k \<in> set (slItems (scVis s)). stale_at (slItems (scPrevVis s)) (slItems (scPrevPix s)) ?g k}"
      using visible_coords_sorted by (subst damage_tiles_eq) (auto simp: s1 vis P(2))
    have "px (bitmap_of (cpMem c2) b) u v = tile_shown ?g (grid_pixels ?g) ?m (fpBackground plan) (u + pX ?off) (v + pY ?off)"
      if uv: "in_bitmap (bitmap_of (cpMem c) b) u v"
        and out: "\<forall>d\<in>set (slItems (damage_tiles s1 ?g ?off (sl_append_all band (scDamage s1)))). \<not> rect_contains d (Pt u v)" for u v
      unfolding bm2
    proof (rule shifted_shows[OF ok P(1) vp[unfolded vp'[symmetric], THEN subst[OF vp', where P = "sane_view ?g"]] c(2) _ _ dn(4) _ _ P(4) sh(1) uv])
      show "bW (bitmap_of (cpMem c) b) = sW (buf_size b)" "bH (bitmap_of (cpMem c) b) = sH (buf_size b)"
        using in_b by (simp_all add: bitmap_of_def)
      show "dy = pY ?off - pY (scDoneOffset s)" "\<bar>dy\<bar> < sH (buf_size b)" using nf(3,4) s1 by simp_all
      have "\<forall>d\<in>set band. \<not> rect_contains d (Pt u v)" using out dmg by blast
      then show "in_bitmap (bitmap_of (cpMem c) b) u (v + dy)"
        using uv in_b nf(4,5) c(2)
        by (auto simp: band_def in_bitmap_def bitmap_of_def rect_contains_def in32_def good_surface_def near_def split: if_splits)
      fix k assume k: "k \<in> set (visible_coords ?g \<lparr>vOffset = scDoneOffset s, vSize = buf_size b\<rparr>)"
        "k \<in> set (visible_coords ?g \<lparr>vOffset = ?off, vSize = buf_size b\<rparr>)" "rect_contains (screen_rect ?g ?off k) (Pt u v)"
      have "k \<in> set (slItems (scVis s))" using k(2) vis vp' by simp
      then have "\<not> stale_at (slItems (scPrevVis s)) (slItems (scPrevPix s)) ?g k"
        using out dmg k(3) by auto
      then have e: "prev_pixels s k = grid_pixels ?g k"
        using visible_coords_sorted k(1) P(2,3) by (intro prev_pixels_nth) auto
      then show "prev_pixels s k = grid_pixels ?g k \<and> (\<forall>ka. grid_pixels ?g k = Some ka \<longrightarrow> m0 (bufId ka) = ?m (bufId ka))"
        using prev(2) by (auto simp: stable_pixels_def)
    qed
    then show ?thesis
      using sd nf(1) sh(2) bm2 c1 by (intro exI[of _ c2] exI[of _ "sl_append_all band (scDamage s1)"]) (simp add: c2_def)
  qed
  then obtain c2 dmg where r: "scroll_damage b (buf_size b) full dy c1 (scDamage s1) = Some (c2, dmg)"
    "cpBacking c2 = Some b" "same_frame (bitmap_of (cpMem c) b) (bitmap_of (cpMem c2) b)"
    "\<And>u v. in_bitmap (bitmap_of (cpMem c) b) u v
          \<Longrightarrow> (\<forall>d\<in>set (slItems (if full then dmg else damage_tiles s1 ?g ?off dmg)). \<not> rect_contains d (Pt u v))
          \<Longrightarrow> px (bitmap_of (cpMem c2) b) u v = tile_shown ?g (grid_pixels ?g) ?m (fpBackground plan) (u + pX ?off) (v + pY ?off)"
    by blast
  define s2 where "s2 = s1\<lparr>scDamage := (if full then dmg else damage_tiles s1 ?g ?off dmg),
    scBlits := sl_append_all (blits_of ?g ?off (slItems (scVis s1))) (scBlits s1)\<rparr>"
  have s2: "scLayer s2 = Some l" "slItems (scVis s2) = visible_coords ?g ?vp"
    "slItems (scBlits s2) = blits_of ?g ?off (slItems (scVis s2))" "scDamage s2 = (if full then dmg else damage_tiles s1 ?g ?off dmg)"
    using l vis by (simp_all add: s2_def s1)
  have eq: "compose_into (Some b) (Some c) (Some plan) (s, w) = map_option (\<lambda>(out, c, sw). (out, Some c, sw)) (finish b c2 plan ?off (s2, w))"
    using fd r(1) l by (cases full) (simp_all add: compose_into_def Let_def s1_def[symmetric] c1_def[symmetric] s1 s2_def)
  have "\<exists>out c' s'. finish b c2 plan ?off (s2, w) = Some (out, c', s', w)
    \<and> cpBacking c' = Some b \<and> same_frame (bitmap_of (cpMem c2) b) (bitmap_of (cpMem c') b)
    \<and> depicts (bitmap_of (cpMem c') b) ?off (tile_shown ?g (grid_pixels ?g) ?m (fpBackground plan))
    \<and> composed ?g ?m b c' s' \<and> scHaveDone s' \<and> scLayer s' = scLayer s2
    \<and> out = presented (bitmap_bounds (bitmap_of (cpMem c2) b)) (slItems (scDamage s2))"
    by (rule finish_shows[OF s2(1) ok vp m blank s2(2,3) r(2) good_surface_same_frame[OF c(2) r(3)] sz bg])
      (use r(4) in \<open>simp add: in_bitmap_same_frame[OF r(3)] s2(4)\<close>)
  then show ?thesis unfolding eq using same_frame_trans[OF r(3)] by fastforce
qed

text \<open>
  Claim C1. Painting only the damage is a full repaint. Suppose the last composition left
  the backing store showing what the tiles held (\<open>composed\<close>), and a buffer that is still
  presented for its coordinate still holds the same bytes. Then \<open>ComposeInto\<close> returns, and
  however the page was scrolled, resized or replaced in between, every pixel of the
  surface shows the tile of its content point composited over the background, exactly as
  when the same frame is composed with no memory of the last one; and the
  scheduler is ready for the next frame under the same invariant.
\<close>

theorem incremental_is_full_repaint:
  assumes "scLayer s = Some l" "grid_ok (layer_grid w l)" "sane_view (layer_grid w l) (fpViewport plan)"
    and "mem_ok (layer_grid w l) (wMem w l)" "outside_blank (layer_grid w l) (wMem w l) (fpBackground plan)"
    and "slItems (scVis s) = visible_coords (layer_grid w l) (fpViewport plan)"
    and "cpBacking c = Some b" "good_surface (bitmap_of (cpMem c) b)" "vSize (fpViewport plan) = buf_size b"
    and "color_opaque (fpBackground plan)"
    and "composed (layer_grid w l) m0 b c s" "stable_pixels (layer_grid w l) m0 (wMem w l) s"
  shows "\<exists>out c' s'. compose_into (Some b) (Some c) (Some plan) (s, w) = Some (out, Some c', s', w)
    \<and> (\<forall>u v. in_bitmap (bitmap_of (cpMem c) b) u v \<longrightarrow> px (bitmap_of (cpMem c') b) u v
        = tile_shown (layer_grid w l) (grid_pixels (layer_grid w l)) (wMem w l) (fpBackground plan)
            (u + pX (vOffset (fpViewport plan))) (v + pY (vOffset (fpViewport plan))))
    \<and> (\<exists>out2 c2 s2. compose_into (Some b) (Some c) (Some plan) (s\<lparr>scHaveDone := False\<rparr>, w) = Some (out2, Some c2, s2, w)
        \<and> (\<forall>u v. in_bitmap (bitmap_of (cpMem c) b) u v \<longrightarrow>
             px (bitmap_of (cpMem c') b) u v = px (bitmap_of (cpMem c2) b) u v))
    \<and> composed (layer_grid w l) (wMem w l) b c' s'"
proof -
  obtain out c' s' where 1: "compose_into (Some b) (Some c) (Some plan) (s, w) = Some (out, Some c', s', w)"
    "same_frame (bitmap_of (cpMem c) b) (bitmap_of (cpMem c') b)"
    "depicts (bitmap_of (cpMem c') b) (vOffset (fpViewport plan))
        (tile_shown (layer_grid w l) (grid_pixels (layer_grid w l)) (wMem w l) (fpBackground plan))"
    "composed (layer_grid w l) (wMem w l) b c' s'"
    using compose_into_shows[OF assms] by blast
  let ?t = "s\<lparr>scHaveDone := False\<rparr>"
  have "scLayer ?t = Some l" "slItems (scVis ?t) = visible_coords (layer_grid w l) (fpViewport plan)" "composed (layer_grid w l) m0 b c ?t"
    "stable_pixels (layer_grid w l) m0 (wMem w l) ?t"
    using assms by (simp_all add: composed_def stable_pixels_def prev_pixels_def)
  then obtain out2 c2 s2 where 2: "compose_into (Some b) (Some c) (Some plan) (?t, w) = Some (out2, Some c2, s2, w)"
    "same_frame (bitmap_of (cpMem c) b) (bitmap_of (cpMem c2) b)"
    "depicts (bitmap_of (cpMem c2) b) (vOffset (fpViewport plan))
        (tile_shown (layer_grid w l) (grid_pixels (layer_grid w l)) (wMem w l) (fpBackground plan))"
    using compose_into_shows[OF _ assms(2-5) _ assms(7-10), of ?t] by blast
  show ?thesis
    using 1 2 in_bitmap_same_frame[OF 1(2)] in_bitmap_same_frame[OF 2(2)] unfolding depicts_def by fastforce
qed

text \<open>A column of three tiles of two by two pixels, the middle one white, scrolled by one pixel.\<close>

theorem incremental_is_full_repaint_witness:
  "\<exists>s c w plan out c' s'. scHaveDone s \<and> pY (vOffset (fpViewport plan)) = 1 \<and> pY (scDoneOffset s) = 0
     \<and> compose_into (Some (new_buf 7 2 2)) (Some c) (Some plan) (s, w) = Some (out, Some c', s', w)
     \<and> px (bitmap_of (cpMem c') (new_buf 7 2 2)) 0 0 = 0xFF \<and> px (bitmap_of (cpMem c') (new_buf 7 2 2)) 0 1 = 0xFFFFFFFF"
proof -
  define g0 where "g0 = new_grid (rect4 0 0 2 6) 2 100 (new_bitmap_pool (Sz 2 2) 0)"
  have g0: "grid_ok g0" unfolding g0_def by (rule fresh_grid_ok) auto
  have h: "inside g0 (TC 0 1)" "\<not> in_flight g0 (TC 0 1)" "gUsed g0 + tile_bytes (gTileSize g0) \<le> gBudget g0"
    "\<And>d. core g0 d = None" "gTileSize g0 = 2" "gExtent g0 = rect4 0 0 2 6"
    by (simp_all add: g0_def grid_eval in_flight_def core_def)
  obtain tb g where g: "grid_ok g" "grid_pixels g (TC 0 1) = Some tb" "gTileSize g = 2" "gExtent g = rect4 0 0 2 6"
    "\<forall>d. d \<noteq> TC 0 1 \<longrightarrow> core g d = core g0 d"
    using draw_tile[OF g0 h(1,2), of 1] h(3,5,6) by auto
  have none: "grid_pixels g d = None" if "d \<noteq> TC 0 1" for d
    using g(5) h(4) that by (simp add: core_pixels)
  have tb: "bufW tb = 2" "bufH tb = 2" "bufStride tb = 8" "bufLen tb = 16"
    using pixels_tile_buf[OF g(1,2)] g(3) by (auto simp: tile_buf_def)
  define w where "w = \<lparr>wHeap = (\<lambda>_. \<lparr>lyID = 1, lyVersion = 1, lyBounds = rect4 0 0 2 6, lyGrid = g, lyContent = None\<rparr>),
    wPool = None, wMem = (\<lambda>_ _. replicate 16 255)\<rparr>"
  have w: "layer_grid w 0 = g" "wMem w 0 = (\<lambda>_. replicate 16 255)" by (simp_all add: w_def layer_grid_def)
  let ?v0 = "\<lparr>vOffset = Pt 0 0, vSize = Sz 2 2\<rparr>" and ?v1 = "\<lparr>vOffset = Pt 0 1, vSize = Sz 2 2\<rparr>"
  define plan where "plan = zero_plan\<lparr>fpViewport := ?v1, fpBackground := 0xFF\<rparr>"
  have plan: "fpViewport plan = ?v1" "fpBackground plan = 0xFF" by (simp_all add: plan_def)
  define s where "s = zero_sched\<lparr>scLayer := Some 0, scVis := \<lparr>slItems = visible_coords g ?v1, slCap = 9\<rparr>, scHaveDone := True,
    scDoneSize := Sz 2 2, scDoneBg := 0xFF, scPrevVis := \<lparr>slItems = visible_coords g ?v0, slCap = 9\<rparr>,
    scPrevPix := \<lparr>slItems = map (\<lambda>_. None) (visible_coords g ?v0), slCap = 9\<rparr>\<rparr>"
  have s: "scLayer s = Some 0" "slItems (scVis s) = visible_coords g ?v1" "scHaveDone s" "scDoneSize s = Sz 2 2" "scDoneOffset s = Pt 0 0"
    "scDoneBg s = 0xFF" "slItems (scPrevVis s) = visible_coords g ?v0" "slItems (scPrevPix s) = map (\<lambda>_. None) (visible_coords g ?v0)"
    by (simp_all add: s_def zero_sched_def)
  define px4 :: "byte list" where "px4 = [0, 0, 0, 255, 0, 0, 0, 255]"
  define c where "c = composer_from_backing (Some (new_buf 7 2 2)) ((\<lambda>_. [])(7 := px4 @ px4)) (new_bitmap_pool (Sz 2 2) 0)"
  let ?b = "new_buf 7 2 2"
  have c: "cpBacking c = Some ?b" "bitmap_of (cpMem c) ?b = \<lparr>bRGBA = px4 @ px4, bW = 2, bH = 2, bStride = 8\<rparr>"
    by (simp_all add: c_def composer_from_backing_def bitmap_of_def new_buf_def)
  have good: "good_surface (bitmap_of (cpMem c) ?b)" by (simp add: c(2) good_surface_def wf_bitmap_def px4_def near_def in32_def)
  have view: "sane_view g ?v1" "sane_view g ?v0" by (simp_all add: sane_view_def small_def g(3,4) rect32_def in32_def)
  have mem: "mem_ok g (wMem w 0)"
    using none tb(4) g(2) by (auto simp: mem_ok_def w) (metis option.sel option.distinct(1) tb(4))
  have blank: "outside_blank g (wMem w 0) 0xFF"
    unfolding outside_blank_def Let_def
  proof (intro allI impI)
    fix x y b assume a: "in32 x \<and> in32 y \<and> grid_pixels g (coord_for (Pt x y) (gTileSize g)) = Some b
      \<and> \<not> rect_contains (gExtent g) (Pt x y)"
    then have "coord_for (Pt x y) 2 = TC 0 1" using none g(3) by force
    then have "x div 2 = 0" "y div 2 = 1" using a by (auto simp: coord_for_def floorDiv_eq_div)
    then have "rect_contains (gExtent g) (Pt x y)" by (auto simp: g(4) rect_contains_def)
    with a show "blend_over 0xFF (px (bitmap_of (wMem w 0) b) (x - tcCol (coord_for (Pt x y) (gTileSize g)) * gTileSize g)
       (y - tcRow (coord_for (Pt x y) (gTileSize g)) * gTileSize g)) = 0xFF" by blast
  qed
  have prev: "prev_pixels s k = None" for k
    by (simp add: prev_pixels_def s map_of_zip_map split: option.split)
  have black: "px (bitmap_of (cpMem c) ?b) u v = 0xFF" if "in_bitmap (bitmap_of (cpMem c) ?b) u v" for u v
  proof -
    have "u = 0 \<or> u = 1" "v = 0 \<or> v = 1" using that by (auto simp: c(2) in_bitmap_def)
    then have "take 4 (drop (nat (v * 8 + u * 4)) (px4 @ px4)) = [0, 0, 0, 255]"
      unfolding px4_def by (elim disjE) (simp_all add: numeral_eq_Suc)
    moreover have "color_of_bytes [0, 0, 0, 255] = 0xFF" by (simp add: pack_color_def)
    ultimately show ?thesis unfolding c(2) px_def by (simp del: color_of_bytes.simps)
  qed
  have shown: "tile_shown g (prev_pixels s) m 0xFF x y = 0xFF" for m x y
    by (simp add: tile_shown_def prev Let_def)
  have comp0: "composed g (wMem w 0) ?b c s"
    using view(2) black shown by (simp add: composed_def Let_def s depicts_def)
  have stable: "stable_pixels g (wMem w 0) (wMem w 0) s" by (simp add: stable_pixels_def)
  have op: "color_opaque (0xFF :: color)" by (simp add: color_opaque_def color_A_def)
  have size: "Sz 2 2 = buf_size ?b" by (simp add: buf_size_def new_buf_def in32_def)
  obtain out c' s' where r: "compose_into (Some ?b) (Some c) (Some plan) (s, w) = Some (out, Some c', s', w)"
    "\<forall>u v. in_bitmap (bitmap_of (cpMem c) ?b) u v \<longrightarrow> px (bitmap_of (cpMem c') ?b) u v
        = tile_shown g (grid_pixels g) (wMem w 0) 0xFF (u + 0) (v + 1)"
    using incremental_is_full_repaint[of s 0 w plan c ?b "wMem w 0"] s(1,2) g(1) view(1) mem blank c(1) good size op comp0 stable
    by (auto simp: w plan)
  have inb: "in_bitmap (bitmap_of (cpMem c) ?b) 0 0" "in_bitmap (bitmap_of (cpMem c) ?b) 0 1"
    by (simp_all add: c(2) in_bitmap_def)
  have cf: "coord_for (Pt 0 1) 2 = TC 0 0" "coord_for (Pt 0 2) 2 = TC 0 1"
    by (simp_all add: coord_for_def floorDiv_eq_div in32_def)
  have white: "px (bitmap_of (\<lambda>_. replicate 16 255) tb) 0 0 = 0xFFFFFFFF"
  proof -
    have "take 4 (replicate 16 (255 :: byte)) = [255, 255, 255, 255]" by (simp add: numeral_eq_Suc)
    then show ?thesis by (simp add: px_def bitmap_of_def pack_color_def)
  qed
  have t0: "tile_shown g (grid_pixels g) (wMem w 0) 0xFF 0 1 = 0xFF"
    using none[of "TC 0 0"] by (simp add: tile_shown_def g(3,4) cf Let_def)
  have "tile_shown g (grid_pixels g) (wMem w 0) 0xFF 0 2 = blend_over 0xFF 0xFFFFFFFF"
    using white by (simp add: tile_shown_def g cf Let_def rect_contains_def w)
  then have t1: "tile_shown g (grid_pixels g) (wMem w 0) 0xFF 0 2 = 0xFFFFFFFF" by (simp add: color_eval)
  show ?thesis
    using r(1) r(2)[rule_format, OF inb(1)] r(2)[rule_format, OF inb(2)] t0 t1 s(3,5) plan
    by (intro exI[of _ s] exI[of _ c] exI[of _ w] exI[of _ plan] exI[of _ out] exI[of _ c'] exI[of _ s']) simp
qed

end
