(* ===== verification/Grid_Orders.thy ===== *)
theory Grid_Orders
  imports Incremental_Compose
begin

text \<open>
  The grid as its client, the scheduler, sees it: which buffer is on order for which tile,
  and how many bytes are held. Every grid operation the frame path uses is summarised by
  \<open>repainted\<close>: what it does to the orders, to the bytes on order and to the budget's
  slack of one tile.
\<close>

subsection \<open>The bytes a grid holds\<close>

text \<open>Every byte is in a buffer on order or in one of the tiles the recency list names.\<close>

lemma used_bytes:
  assumes ok: "grid_ok g"
  shows "gUsed g = gPainting g + tile_bytes (gTileSize g) * int (length (lru g))"
proof -
  note D = grid_ok_D[OF ok]
  have cnt: "gUsed g = total (held_bytes (tile_bytes (gTileSize g))) (core g)"
    "gPainting g = total (painting_bytes (tile_bytes (gTileSize g))) (core g)"
    using ok by (auto simp: grid_ok_def counts_ok_def)
  have t: "tBytes (the (core g c)) = (if c \<in> set (lru g) then tile_bytes (gTileSize g) else 0)" if c: "c \<in> dom (core g)" for c
  proof -
    obtain t where t: "core g c = Some t" using domD[OF c] by blast
    then have "tile_ok (gTileSize g) c t" using ok by (auto simp: grid_ok_def)
    then show ?thesis using t D(4,6) by (auto simp: tile_ok_def core_pixels)
  qed
  have sub: "set (lru g) \<subseteq> dom (core g)" using D(7) by (auto simp: core_def)
  have "gUsed g = gPainting g + (\<Sum>c\<in>dom (core g). tBytes (the (core g c)))"
    by (simp add: cnt total_def held_bytes_def painting_bytes_def sum.distrib)
  also have "(\<Sum>c\<in>dom (core g). tBytes (the (core g c)))
      = (\<Sum>c\<in>dom (core g). if c \<in> set (lru g) then tile_bytes (gTileSize g) else 0)"
    using t by (rule sum.cong[OF refl])
  also have "\<dots> = (\<Sum>c\<in>dom (core g) \<inter> set (lru g). tile_bytes (gTileSize g))"
    using D(1) by (simp add: sum.If_cases Int_def)
  also have "dom (core g) \<inter> set (lru g) = set (lru g)" using sub by blast
  finally show ?thesis using distinct_card[OF D(10)] by simp
qed

lemma grid_bytes_pos: "grid_ok g \<Longrightarrow> 0 < tile_bytes (gTileSize g)"
  using grid_ok_D(2,4)[of g] by simp

subsection \<open>Orders\<close>

definition painting_of :: "grid \<Rightarrow> tile_coord \<Rightarrow> buf option" where
  "painting_of g c = tPainting (tile_at g c)"

lemma painting_core: "painting_of g c = Option.bind (core g c) tPainting"
  by (simp add: painting_of_def core_def tile_at_def zero_tile_def split: option.split)

lemma painting_core_cong: "core g = core h \<Longrightarrow> painting_of g = painting_of h"
  by (simp add: fun_eq_iff painting_core)

lemma in_flight_painting: "in_flight g c \<longleftrightarrow> painting_of g c \<noteq> None"
  by (auto simp: in_flight_core painting_core bind_eq_Some_conv split: option.splits)

lemma bind_painting:
  "(\<And>t. tPainting (f t) = tPainting t) \<Longrightarrow> Option.bind (map_option f x) tPainting = Option.bind x tPainting"
  by (cases x) auto

lemma painting_set_state [simp]: "painting_of (set_state c s g) = painting_of g"
  by (auto simp: painting_core core_set_state_map fun_eq_iff bind_painting)

lemma painting_upd [simp]:
  assumes "\<And>t. tPainting (f t) = tPainting t"
  shows "painting_of (upd_tile c f g) = painting_of g"
  by (auto simp: fun_eq_iff painting_of_def upd_tile_def tile_at_def assms split: option.split)

text \<open>What a grid operation did, as far as orders and bytes go; \<open>n\<close> more buffers are on order.\<close>

definition grid_good :: "grid \<Rightarrow> bool" where
  "grid_good g \<longleftrightarrow> grid_ok g \<and> gPainting g \<le> gBudget g \<and> gUsed g \<le> gBudget g + tile_bytes (gTileSize g)"

definition repainted :: "grid \<Rightarrow> (tile_coord \<Rightarrow> buf option) \<Rightarrow> int \<Rightarrow> grid \<Rightarrow> bool" where
  "repainted g f n h \<longleftrightarrow> grid_good h \<and> painting_of h = f \<and> gTileSize h = gTileSize g \<and> gBudget h = gBudget g
     \<and> gPainting h = gPainting g + n * tile_bytes (gTileSize g)"

lemma repainted_refl: "grid_good g \<Longrightarrow> repainted g (painting_of g) 0 g"
  by (simp add: repainted_def)

lemma repainted_trans: "repainted g f n h \<Longrightarrow> repainted h f' m k \<Longrightarrow> repainted g f' (n + m) k"
  by (simp add: repainted_def distrib_right)

lemma touch_repainted: "grid_good g \<Longrightarrow> repainted g (painting_of g) 0 (touch c g)"
proof -
  assume good: "grid_good g"
  have "core (touch c g) = core g
    \<or> (\<exists>k. core (touch c g) = core (upd_tile c (\<lambda>t. t\<lparr>tLastUsed := k\<rparr>) g))"
    by (auto simp: touch_def split: option.split)
  then have "painting_of (touch c g) = painting_of g"
    by (auto intro: painting_core_cong dest!: painting_core_cong)
  moreover have "gTileSize (touch c g) = gTileSize g" "gBudget (touch c g) = gBudget g" "gPainting (touch c g) = gPainting g"
    "gUsed (touch c g) = gUsed g"
    by (auto simp: touch_def split: option.split)
  ultimately show ?thesis using good touch_ok[of g c] by (simp add: repainted_def grid_good_def)
qed

lemma tick_repainted: "grid_good g \<Longrightarrow> repainted g (painting_of g) 0 (tick g)"
  by (auto simp: repainted_def grid_good_def tick_def grid_ok_counters painting_core fun_eq_iff)

lemma invalidate_repainted: "grid_good g \<Longrightarrow> repainted g (painting_of g) 0 (snd (invalidate r g))"
proof -
  assume good: "grid_good g"
  have "painting_of (snd (fold invalidate_tile cs (n, g))) = painting_of g
    \<and> gTileSize (snd (fold invalidate_tile cs (n, g))) = gTileSize g \<and> gBudget (snd (fold invalidate_tile cs (n, g))) = gBudget g
    \<and> gPainting (snd (fold invalidate_tile cs (n, g))) = gPainting g \<and> gUsed (snd (fold invalidate_tile cs (n, g))) = gUsed g" for cs n
    by (induction cs arbitrary: n g) (auto simp: invalidate_tile_def split: option.split)
  then show ?thesis
    using good invalidate_ok[of g r] by (simp add: repainted_def grid_good_def invalidate_def)
qed

lemma late_repainted: "grid_good g \<Longrightarrow> repainted g (painting_of g) 0 (g\<lparr>gDroppedLate := k\<rparr>)"
  by (auto simp: repainted_def grid_good_def grid_ok_counters painting_core fun_eq_iff)

lemma release_repainted:
  assumes good: "grid_good g" and b: "painting_of g c = Some b"
  shows "repainted g ((painting_of g)(c := None)) (- 1) (snd (grid_release c (Some b) g))"
proof -
  obtain t where t: "gTiles g c = Some t" "tPainting t = Some b"
    using b by (auto simp: painting_of_def tile_at_def zero_tile_def split: option.splits)
  have ok: "grid_ok g" using good by (simp add: grid_good_def)
  note R = release_on_order[OF ok t]
  have "painting_of (snd (grid_release c (Some b) g)) = (painting_of g)(c := None)"
    using R(3) by (auto simp: fun_eq_iff painting_core)
  with good R grid_bytes_pos[OF ok] show ?thesis by (auto simp: repainted_def grid_good_def)
qed

lemma install_repainted:
  assumes good: "grid_good g" and b: "painting_of g c = Some b"
  shows "fst (mark_valid c v (Some b) g)" "repainted g ((painting_of g)(c := None)) (- 1) (snd (mark_valid c v (Some b) g))"
proof -
  obtain t where t: "gTiles g c = Some t" "tPainting t = Some b"
    using b by (auto simp: painting_of_def tile_at_def zero_tile_def split: option.splits)
  have ok: "grid_ok g" using good by (simp add: grid_good_def)
  have m: "mark_valid c v (Some b) g = (True, install c v b g)" using t by (simp add: mark_valid_def)
  then show "fst (mark_valid c v (Some b) g)" by simp
  note I = install_ok[OF ok t, of v]
  have "0 \<le> tBytes t" using grid_ok_tile[OF ok t(1)] grid_ok_D(2)[OF ok] by (auto simp: tile_ok_def)
  moreover have "painting_of (install c v b g) = (painting_of g)(c := None)"
    using I(3) by (auto simp: fun_eq_iff painting_core)
  ultimately show "repainted g ((painting_of g)(c := None)) (- 1) (snd (mark_valid c v (Some b) g))"
    using good I grid_bytes_pos[OF ok] by (auto simp: m repainted_def grid_good_def)
qed

lemma failed_repainted:
  assumes good: "grid_good g"
  shows "repainted g (painting_of g) 0 (mark_failed c g)"
proof -
  have ok: "grid_ok g" using good by (simp add: grid_good_def)
  note M = mark_failed_ok[OF ok, of c]
  have f: "gTileSize (mark_failed c g) = gTileSize g" "gBudget (mark_failed c g) = gBudget g" "gPainting (mark_failed c g) = gPainting g"
    by (auto simp: mark_failed_def drop_pixels_def Let_def split: option.split)
  have p: "painting_of (mark_failed c g) = painting_of g"
  proof (cases "c \<in> set (lru g)")
    case True
    then have "grid_pixels g c \<noteq> None" using grid_ok_D(6)[OF ok] by simp
    then have "mark_failed c g = set_state c TileFailed (drop_pixels c g)"
      by (auto simp: mark_failed_def grid_pixels_def split: option.split)
    moreover have "painting_of (drop_pixels c g) = painting_of g"
      using drop_pixels_ok(3)[OF ok True] by (auto simp: fun_eq_iff painting_core dropped_def intro!: bind_painting)
    ultimately show ?thesis by simp
  next
    case False
    then have "grid_pixels g c = None" using grid_ok_D(6)[OF ok] by simp
    then show ?thesis by (auto simp: mark_failed_def grid_pixels_def split: option.split)
  qed
  have "length (lru (mark_failed c g)) \<le> length (lru g)" using M(2) by (simp add: length_remove1)
  then have "gUsed (mark_failed c g) \<le> gUsed g"
    using used_bytes[OF ok] used_bytes[OF M(1)] f grid_bytes_pos[OF ok] by (simp add: mult_left_mono)
  with good M(1) f p show ?thesis by (auto simp: repainted_def grid_good_def)
qed

text \<open>
  Acquiring for a tile with nothing on order, with room for one more buffer beside those on
  order: nothing happens, or one fresh buffer is put on order.
\<close>

lemma acquire_repainted:
  assumes good: "grid_good g" and idle: "painting_of g c = None"
    and room: "gPainting g + tile_bytes (gTileSize g) \<le> gBudget g"
  shows "acquire c g = Some (None, g)
    \<or> (\<exists>b h. acquire c g = Some (Some b, h) \<and> repainted g ((painting_of g)(c := Some b)) 1 h)"
proof -
  have ok: "grid_ok g" using good by (simp add: grid_good_def)
  have nf: "\<not> in_flight g c" using idle by (simp add: in_flight_painting)
  show ?thesis
  proof (rule acquire_ok[OF ok, of c])
    fix b g1 g2 g3 zs t
    assume a: "acquire c g = Some (Some b, g3)" "grid_ok g1" "lru g1 = lru g" "same_books g g1" "core g1 = (core g)(c \<mapsto> t)"
      "tPainting t = None" "core g c = Some t \<or> core g c = None \<and> t = fresh_tile (gTileSize g) c"
      "grid_ok g2" "evicted c zs g1 g2" "gUsed g2 + tile_bytes (gTileSize g) \<le> gBudget g \<or> set (lru g2) \<subseteq> {c}"
      "grid_ok g3" "core g3 = (core g2)(c \<mapsto> order_tile b t)" "gUsed g3 = gUsed g2 + tile_bytes (gTileSize g)"
      "gPainting g3 = gPainting g + tile_bytes (gTileSize g)" "gTileSize g3 = gTileSize g" "gBudget g3 = gBudget g"
    have p2: "gPainting g2 = gPainting g" "gTileSize g2 = gTileSize g"
      using a(4,9) by (auto simp: evicted_def same_books_def)
    have "gUsed g2 \<le> gBudget g"
    proof (cases "set (lru g2) \<subseteq> {c}")
      case True
      then have "length (lru g2) \<le> 1"
        using distinct_card[OF grid_ok_D(10)[OF a(8)]] card_mono[OF _ True] by simp
      then have "tile_bytes (gTileSize g) * int (length (lru g2)) \<le> tile_bytes (gTileSize g) * 1"
        using grid_bytes_pos[OF ok] by (intro mult_left_mono) auto
      then show ?thesis using used_bytes[OF a(8)] p2 room by simp
    next
      case False
      then show ?thesis using a(10) grid_bytes_pos[OF ok] by auto
    qed
    then have "grid_good g3" using a(11,13,14,15,16) room by (simp add: grid_good_def)
    moreover have "painting_of g3 = (painting_of g)(c := Some b)"
    proof
      fix d show "painting_of g3 d = ((painting_of g)(c := Some b)) d"
        using a(5,9,12) by (cases "core g d") (auto simp: painting_core evicted_def dropped_def)
    qed
    ultimately show ?thesis using a(1,14,15,16) by (auto simp: repainted_def)
  qed (use nf in auto)
qed

text \<open>
  The slack is used: repainting the only tile of a grid whose budget is one tile holds two
  buffers, the stale one on screen and the one on order.
\<close>

lemma budget_overshoot:
  "\<exists>g c b h. grid_good g \<and> gPainting g + tile_bytes (gTileSize g) \<le> gBudget g
     \<and> acquire c g = Some (Some b, h) \<and> gBudget h < gUsed h"
proof -
  define g0 where "g0 = new_grid (rect4 0 0 256 256) 256 262144 (new_bitmap_pool (Sz 256 256) 0)"
  have g0: "grid_ok g0" unfolding g0_def by (rule fresh_grid_ok) auto
  have h0: "inside g0 (TC 0 0)" "\<not> in_flight g0 (TC 0 0)" "gUsed g0 + tile_bytes (gTileSize g0) \<le> gBudget g0"
    "lru g0 = []" "gPainting g0 = 0" "gBudget g0 = tile_bytes (gTileSize g0)"
    by (simp_all add: g0_def grid_eval in_flight_def lru_def)
  obtain g where g: "grid_ok g" "lru g = [TC 0 0]" "\<not> in_flight g (TC 0 0)" "gPainting g = 0"
    "gTileSize g = gTileSize g0" "gExtent g = gExtent g0" "gBudget g = tile_bytes (gTileSize g0)"
    using draw_tile[OF g0 h0(1,2), of 1] h0(3-6) by auto
  have tb: "0 < tile_bytes (gTileSize g0)" by (rule grid_bytes_pos[OF g0])
  have ins: "inside g (TC 0 0)" using h0(1) g(5,6) by (simp add: inside_def)
  show ?thesis
  proof (rule acquire_ok[OF g(1), of "TC 0 0"])
    fix b g1 g2 g3 zs t
    assume a: "acquire (TC 0 0) g = Some (Some b, g3)" "lru g1 = lru g" "evicted (TC 0 0) zs g1 g2" "grid_ok g3"
      "lru g3 = lru g2" "gPainting g3 = gPainting g + tile_bytes (gTileSize g)" "gTileSize g3 = gTileSize g" "gBudget g3 = gBudget g"
    obtain ys where "[TC 0 0] = ys @ zs" "lru g2 = ys @ filter (\<lambda>c. c = TC 0 0) zs"
      using a(2,3) g(2) by (auto simp: evicted_def)
    then have "lru g3 = [TC 0 0]" using a(5) by (cases ys) auto
    then have "gUsed g3 = 2 * tile_bytes (gTileSize g0)" using used_bytes[OF a(4)] a(6,7) g(4,5) by simp
    then have "gBudget g3 < gUsed g3" using a(8) g(7) tb by simp
    moreover have "grid_good g" using g(1,2,4,5,7) used_bytes[OF g(1)] tb by (simp add: grid_good_def)
    moreover have "gPainting g + tile_bytes (gTileSize g) \<le> gBudget g" using g(4,5,7) by simp
    ultimately show ?thesis using a(1) by blast
  qed (use ins g(3) in auto)
qed

end
