(* ===== verification/Frame_System.thy ===== *)
theory Frame_System
  imports Grid_Orders
begin

text \<open>
  The scheduler, its layers and the worker pool as one transition system: the UI thread
  calls the scheduler's methods, the workers take and finish jobs in between, and \<open>Close\<close>
  may run at any time. The invariant is that the buffers on order in the grids are exactly
  the jobs in the pool, each once.
\<close>

subsection \<open>The orders of all layers\<close>

definition orders_of :: "world \<Rightarrow> job_tag \<Rightarrow> bool" where
  "orders_of w t = (case t of (Some a, c, Some b) \<Rightarrow> painting_of (layer_grid w a) c = Some b | _ \<Rightarrow> False)"

definition world_good :: "world \<Rightarrow> bool" where
  "world_good w \<longleftrightarrow> (\<forall>a. grid_good (layer_grid w a))"

lemma layer_grid_set [simp]: "layer_grid (set_grid a g w) b = (if b = a then g else layer_grid w b)"
  by (simp add: layer_grid_def set_grid_def)

lemma set_grid_same [simp]: "set_grid a (layer_grid w a) w = w"
  by (simp add: set_grid_def layer_grid_def)

lemma set_grid_keeps [simp]:
  "wPool (set_grid a g w) = wPool w" "wMem (set_grid a g w) = wMem w"
  "lyBounds (wHeap (set_grid a g w) b) = lyBounds (wHeap w b)" "lyVersion (wHeap (set_grid a g w) b) = lyVersion (wHeap w b)"
  "lyID (wHeap (set_grid a g w) b) = lyID (wHeap w b)" "lyContent (wHeap (set_grid a g w) b) = lyContent (wHeap w b)"
  by (simp_all add: set_grid_def)

lemma world_field_grid [simp]: "layer_grid (w\<lparr>wPool := p\<rparr>) a = layer_grid w a" "layer_grid (w\<lparr>wMem := m\<rparr>) a = layer_grid w a"
  by (simp_all add: layer_grid_def)

lemma orders_fields [simp]: "orders_of (w\<lparr>wPool := p\<rparr>) = orders_of w" "orders_of (w\<lparr>wMem := m\<rparr>) = orders_of w"
  by (simp_all add: orders_of_def fun_eq_iff split: option.split)

lemma world_good_fields [simp]: "world_good (w\<lparr>wPool := p\<rparr>) = world_good w" "world_good (w\<lparr>wMem := m\<rparr>) = world_good w"
  by (simp_all add: world_good_def)

lemma world_good_set: "world_good w \<Longrightarrow> grid_good g \<Longrightarrow> world_good (set_grid a g w)"
  by (simp add: world_good_def)

lemma orders_cong: "(\<And>a. painting_of (layer_grid w a) = painting_of (layer_grid v a)) \<Longrightarrow> orders_of w = orders_of v"
  by (simp add: orders_of_def fun_eq_iff split: option.split)

lemma orders_set:
  assumes "painting_of g = (painting_of (layer_grid w a))(c := b)"
  shows "orders_of (set_grid a g w) (Some a, c, b') \<longleftrightarrow> b' \<noteq> None \<and> b = b'"
    "(x, d) \<noteq> (Some a, c) \<Longrightarrow> orders_of (set_grid a g w) (x, d, b') = orders_of w (x, d, b')"
  using assms by (auto simp: orders_of_def split: option.split)

lemma orders_none: "painting_of (layer_grid w a) c = None \<Longrightarrow> \<not> orders_of w (Some a, c, b)"
  by (auto simp: orders_of_def split: option.split)

lemma orders_set_new:
  assumes "painting_of (layer_grid w a) c = None" "painting_of g = (painting_of (layer_grid w a))(c := Some b)"
  shows "orders_of (set_grid a g w) = (orders_of w)((Some a, c, Some b) := True)"
proof
  fix t :: job_tag obtain x d b' where t: "t = (x, d, b')" by (cases t)
  show "orders_of (set_grid a g w) t = ((orders_of w)((Some a, c, Some b) := True)) t"
    using orders_set[OF assms(2)] orders_none[OF assms(1)] by (cases "(x, d) = (Some a, c)") (auto simp: t)
qed

lemma orders_set_gone:
  assumes "painting_of (layer_grid w a) c = Some b" "painting_of g = (painting_of (layer_grid w a))(c := None)"
  shows "orders_of (set_grid a g w) = (orders_of w)((Some a, c, Some b) := False)"
proof
  fix t :: job_tag obtain x d b' where t: "t = (x, d, b')" by (cases t)
  have "orders_of w (Some a, c, b') \<longleftrightarrow> b' = Some b" using assms(1) by (auto simp: orders_of_def split: option.split)
  then show "orders_of (set_grid a g w) t = ((orders_of w)((Some a, c, Some b) := False)) t"
    using orders_set[OF assms(2)] by (cases "(x, d) = (Some a, c)") (auto simp: t)
qed

lemma orders_Some: "orders_of w t \<Longrightarrow> \<exists>a c b. t = (Some a, c, Some b) \<and> painting_of (layer_grid w a) c = Some b"
  by (cases t) (auto simp: orders_of_def split: option.splits)

subsection \<open>Planning changes no order\<close>

definition quiet :: "world \<Rightarrow> world \<Rightarrow> bool" where
  "quiet w v \<longleftrightarrow> (\<forall>a. repainted (layer_grid w a) (painting_of (layer_grid w a)) 0 (layer_grid v a)) \<and> wPool v = wPool w"

lemma quiet_refl: "world_good w \<Longrightarrow> quiet w w"
  by (simp add: quiet_def world_good_def repainted_refl)

lemma quiet_good: "quiet w v \<Longrightarrow> world_good v"
  by (simp add: quiet_def world_good_def repainted_def)

lemma quiet_orders: "quiet w v \<Longrightarrow> orders_of v = orders_of w"
  by (rule orders_cong) (simp add: quiet_def repainted_def)

lemma quiet_trans: "quiet w v \<Longrightarrow> quiet v u \<Longrightarrow> quiet w u"
  by (simp add: quiet_def repainted_def)

lemma quiet_set_grid:
  "world_good w \<Longrightarrow> repainted (layer_grid w a) (painting_of (layer_grid w a)) 0 g \<Longrightarrow> quiet w (set_grid a g w)"
  by (auto simp: quiet_def world_good_def repainted_refl)

lemma apply_update_quiet:
  assumes "world_good w" "apply_pending_update (s, w) = (s', v)"
  shows "quiet w v"
proof (cases "v = w")
  case False
  then obtain l c r where "v = w\<lparr>wHeap := (wHeap w)(l := snd (invalidate_rect r (set_content c (wHeap w l))))\<rparr>"
    using assms(2) by (auto simp: apply_pending_update_def Let_def case_prod_beta split: option.splits if_splits)
  then have "layer_grid v a = (if a = l then snd (invalidate r (layer_grid w a)) else layer_grid w a)" "wPool v = wPool w" for a
    by (simp_all add: layer_grid_def invalidate_rect_def set_content_def Let_def case_prod_beta split: option.split)
  then show ?thesis using assms(1) by (auto simp: quiet_def world_good_def repainted_refl invalidate_repainted)
qed (simp add: quiet_refl assms)

lemma visit_quiet:
  assumes "quiet w v"
  shows "quiet w (snd (visit_visible l c (s, v)))"
proof -
  have "quiet v (set_grid l (touch c (layer_grid v l)) v)"
    using quiet_good[OF assms] by (intro quiet_set_grid touch_repainted) (auto simp: world_good_def)
  then have "quiet w (set_grid l (touch c (layer_grid v l)) v)" using assms quiet_trans by blast
  then show ?thesis by (simp add: visit_visible_def Let_def)
qed

lemma visits_quiet: "quiet w v \<Longrightarrow> quiet w (snd (fold (visit_visible l) cs (s, v)))"
proof (induction cs arbitrary: s v)
  case (Cons c cs)
  obtain s' v' where e: "visit_visible l c (s, v) = (s', v')" by (cases "visit_visible l c (s, v)")
  show ?case using Cons.IH[of v' s'] visit_quiet[OF Cons.prems, of l c s] by (simp add: e)
qed simp

lemma plan_tiles_quiet:
  assumes "world_good w"
  shows "quiet w (snd (plan_tiles l vp (s, w)))"
proof -
  obtain s1 v1 where 1: "apply_pending_update (s, w) = (s1, v1)" by fastforce
  have q1: "quiet w v1" by (rule apply_update_quiet[OF assms 1])
  let ?v2 = "set_grid l (tick (layer_grid v1 l)) v1"
  have "quiet v1 ?v2" using quiet_good[OF q1] by (intro quiet_set_grid tick_repainted) (auto simp: world_good_def)
  then have q2: "quiet w ?v2" using q1 quiet_trans by blast
  show ?thesis
    using visits_quiet[OF q2] by (simp add: plan_tiles_def 1 Let_def case_prod_beta)
qed

text \<open>The world after a frame began is the old one, or the one a planning pass left.\<close>

lemma begin_frame_world:
  assumes "begin_frame ev (s, w) = Some (r, s', v)"
  shows "v = w \<or> (\<exists>l vp t. v = snd (plan_tiles l vp (t, w)))"
proof -
  have p: "v = w \<or> (\<exists>l vp t. v = snd (plan_tiles l vp (t, w)))" if f: "frame_planned p (t, w) = Some (r, s', v)" for p t
    using f by (simp add: frame_planned_def Let_def case_prod_beta split: if_split_asm option.split_asm) (metis snd_conv)+
  obtain p ok slot where t: "slot_take (scSlot (frame_inputs ev s)) = ((p, ok), slot)"
    by (metis prod.exhaust)
  show ?thesis using assms p by (cases ok) (auto simp: begin_frame_def t Let_def)
qed

lemma begin_frame_quiet: "world_good w \<Longrightarrow> begin_frame ev (s, w) = Some (r, s', v) \<Longrightarrow> quiet w v"
  using begin_frame_world[of ev s w r s' v] plan_tiles_quiet[of w] quiet_refl[of w] by blast

subsection \<open>Results\<close>

text \<open>Handling a result takes exactly its own order off the books.\<close>

lemma handle_done_orders:
  assumes good: "world_good w" and l: "scLayer s = Some l" and t: "orders_of w (tag_of_done d)"
    and h: "handle_done d (s, w) = (e, s', v)"
  shows "world_good v" "orders_of v = (orders_of w)(tag_of_done d := False)" "wPool v = wPool w" "scLayer s' = Some l"
proof -
  obtain a b where d: "dnLayer d = Some a" "dnOut d = Some b" "painting_of (layer_grid w a) (dnCoord d) = Some b"
    using orders_Some[OF t] by (auto simp: tag_of_done_def)
  have g: "grid_good (layer_grid w x)" for x using good by (simp add: world_good_def)
  let ?gone = "(painting_of (layer_grid w a))(dnCoord d := None)"
  let ?rel = "snd (grid_release (dnCoord d) (Some b) (layer_grid w a))"
  let ?val = "snd (mark_valid (dnCoord d) (dnVersion d) (Some b) (layer_grid w a))"
  have rel: "repainted (layer_grid w a) ?gone (- 1) ?rel" by (rule release_repainted[OF g d(3)])
  have fail: "repainted (layer_grid w a) ?gone (- 1) (mark_failed (dnCoord d) ?rel)"
    using repainted_trans[OF rel failed_repainted[of ?rel]] rel by (simp add: repainted_def)
  note val = install_repainted[OF g d(3), of "dnVersion d"]
  have "\<exists>g'. v = set_grid a g' w \<and> repainted (layer_grid w a) ?gone (- 1) g' \<and> scLayer s' = Some l"
    using h l d(1,2) rel fail val
    by (auto simp: handle_done_def Let_def case_prod_beta split: if_splits option.splits)
  then obtain g' where v: "v = set_grid a g' w" "grid_good g'" "painting_of g' = ?gone" "scLayer s' = Some l"
    by (auto simp: repainted_def)
  show "world_good v" "wPool v = wPool w" "scLayer s' = Some l" using v world_good_set[OF good] by auto
  show "orders_of v = (orders_of w)(tag_of_done d := False)"
    using orders_set_gone[OF d(3) v(3)] d(1,2) by (simp add: v(1) tag_of_done_def)
qed

definition frame_inv :: "rpool \<Rightarrow> world \<Rightarrow> bool" where
  "frame_inv p w \<longleftrightarrow> world_good w \<and> rps.matched (orders_of w) p"

lemma handle_polled:
  assumes "frame_inv p w" "scLayer s = Some l" "rp_poll p = (Some d, q)" "handle_done d (s, w) = (e, s', v)"
  shows "frame_inv q v" "wPool v = wPool w" "scLayer s' = Some l"
proof -
  have i: "world_good w" "rps.matched (orders_of w) p" using assms(1) by (simp_all add: frame_inv_def)
  note m = rps.matched_poll[OF i(2) assms(3)]
  note h = handle_done_orders[OF i(1) assms(2) m(1) assms(4)]
  show "frame_inv q v" "wPool v = wPool w" "scLayer s' = Some l" using h m(2) by (simp_all add: frame_inv_def)
qed

declare drain.simps [simp del]

lemma drain_inv:
  "frame_inv p w \<Longrightarrow> scLayer s = Some l \<Longrightarrow> drain p n (s, w) = (q, m, s', v)
   \<Longrightarrow> frame_inv q v \<and> wPool v = wPool w \<and> scLayer s' = Some l \<and> rpDone q = []"
proof (induction p arbitrary: n s w rule: rps.drain_induct)
  case (1 p)
  show ?case
  proof (cases "rp_poll p")
    case (Pair r p')
    show ?thesis
    proof (cases r)
      case None
      then have "p' = p" "rpDone p = []" using Pair by (auto simp: rp_poll_def split: list.splits)
      with 1(2-4) Pair None show ?thesis by (simp add: drain.simps[of p])
    next
      case (Some d)
      obtain e s1 w1 where h: "handle_done d (s, w) = (e, s1, w1)" by (cases "handle_done d (s, w)") auto
      note P = handle_polled[OF 1(2,3) Pair[unfolded Some] h]
      have "drain p' (if scRasterized s1 > scRasterized s then n + 1 else n) (s1, w1) = (q, m, s', v)"
        using 1(4) Pair Some h by (simp add: drain.simps[of p] Let_def)
      from 1(1)[OF Pair[unfolded Some] P(1,3) this] P(2) show ?thesis by simp
    qed
  qed
qed

subsection \<open>Submit\<close>

text \<open>What a frame may count while it walks \<open>n\<close> tiles.\<close>

definition counted :: "nat \<Rightarrow> frame_work \<Rightarrow> frame_work \<Rightarrow> bool" where
  "counted n fw fw' \<longleftrightarrow> fwSubmitted fw \<le> fwSubmitted fw' \<and> fwSubmitted fw' \<le> fwSubmitted fw + int n
     \<and> fwRefused fw \<le> fwRefused fw' \<and> fwRefused fw' - fwRefused fw \<le> fwSubmitted fw' - fwSubmitted fw
     \<and> fwNeeded fw' = fwNeeded fw \<and> fwReused fw' = fwReused fw \<and> fwPaintingBytes fw' = fwPaintingBytes fw"

lemma counted_trans: "counted m fw fw1 \<Longrightarrow> counted n fw1 fw2 \<Longrightarrow> counted (m + n) fw fw2"
  by (simp add: counted_def)

definition tiles_walked :: "nat \<Rightarrow> nat \<Rightarrow> frame_work \<Rightarrow> world
    \<Rightarrow> (int \<times> rpool \<times> frame_work \<times> sched \<times> world) option \<Rightarrow> bool" where
  "tiles_walked n l fw w r \<longleftrightarrow> (\<exists>q fw' s' v. r = Some (gPainting (layer_grid v l), q, fw', s', v)
     \<and> frame_inv q v \<and> wPool v = wPool w \<and> scLayer s' = Some l \<and> counted n fw fw')"

lemma tiles_walked_step:
  "tiles_walked n l fw1 w1 r \<Longrightarrow> wPool w1 = wPool w \<Longrightarrow> counted 1 fw fw1 \<Longrightarrow> tiles_walked (Suc n) l fw w r"
  using counted_trans[of 1 fw fw1] by (auto simp: tiles_walked_def)

lemma submit_tiles_inv:
  assumes "frame_inv p w" "budget = gBudget (layer_grid w l)" "tb = tile_bytes (gTileSize (layer_grid w l))"
    "painting = gPainting (layer_grid w l)" "scLayer s = Some l"
  shows "tiles_walked (length cs) l fw w (submit_tiles l budget tb cs painting p (fw, s, w))"
  using assms
proof (induction cs arbitrary: painting p fw s w)
  case Nil
  then show ?case by (simp add: tiles_walked_def counted_def)
next
  case (Cons c cs)
  let ?g = "layer_grid w l" and ?tb = "tile_bytes (gTileSize (layer_grid w l))"
  have inv: "world_good w" "rps.matched (orders_of w) p" using Cons.prems(1) by (simp_all add: frame_inv_def)
  then have good: "grid_good ?g" by (simp add: world_good_def)
  have skip: "tiles_walked (length (c # cs)) l fw w (submit_tiles l budget tb cs painting p (fw, s, w))"
    using tiles_walked_step[OF Cons.IH[OF Cons.prems, of fw] refl, of fw] by (simp add: counted_def)
  consider "painting + tb > budget" | "\<not> painting + tb > budget" "in_flight ?g c"
    | "\<not> painting + tb > budget" "\<not> in_flight ?g c" by blast
  then show ?case
  proof cases
    case 1
    then show ?thesis using Cons.prems by (simp add: tiles_walked_def counted_def)
  next
    case 2
    then show ?thesis using skip by simp
  next
    case 3
    have idle: "painting_of ?g c = None" using 3(2) by (simp add: in_flight_painting)
    have fits: "gPainting ?g + ?tb \<le> gBudget ?g" using 3(1) Cons.prems(2-4) by simp
    consider "acquire c ?g = Some (None, ?g)"
      | b h where "acquire c ?g = Some (Some b, h)" "repainted ?g ((painting_of ?g)(c := Some b)) 1 h"
      using acquire_repainted[OF good idle fits] by blast
    then show ?thesis
    proof cases
      case 1
      with 3 skip show ?thesis by simp
    next
      case (2 b h)
      define j where "j = \<lparr>jbLayer = Some l, jbCoord = c, jbDL = lyContent (wHeap w l), jbBounds = coord_rect c (gTileSize h),
        jbOut = Some b, jbBackground = fpBackground (scCur s)\<rparr>"
      define w1 where "w1 = set_grid l h w"
      define w2 where "w2 = set_grid l (snd (grid_release c (Some b) h)) w"
      obtain err p' where sub: "rp_submit j p = (err, p')" by (cases "rp_submit j p")
      have tag: "tag_of_job j = (Some l, c, Some b)" by (simp add: j_def tag_of_job_def)
      have h: "grid_good h" "painting_of h = (painting_of ?g)(c := Some b)" "gTileSize h = gTileSize ?g" "gBudget h = gBudget ?g"
        "gPainting h = gPainting ?g + ?tb" using 2(2) by (simp_all add: repainted_def)
      have m: "rps.matched (if err = None then (orders_of w)(tag_of_job j := True) else orders_of w) p'"
        using rps.matched_submit[OF inv(2), of j] orders_none[OF idle] by (simp add: sub tag)
      let ?fw1 = "fw\<lparr>fwSubmitted := fwSubmitted fw + 1\<rparr>" and ?s1 = "s\<lparr>scSubmitted := scSubmitted s + 1\<rparr>"
      let ?fw2 = "?fw1\<lparr>fwRefused := fwRefused ?fw1 + 1\<rparr>" and ?s2 = "?s1\<lparr>scRefused := scRefused ?s1 + 1\<rparr>"
      have eq: "submit_tiles l budget tb (c # cs) painting p (fw, s, w) =
         (if err = None then submit_tiles l budget tb cs (painting + tb) p' (?fw1, ?s1, w1)
          else submit_tiles l budget tb cs painting p' (?fw2, ?s2, w2))"
        using 3 2(1) sub by (simp add: Let_def j_def[symmetric] w1_def w2_def)
      show ?thesis
      proof (cases "err = None")
        case True
        have "orders_of w1 = (orders_of w)(tag_of_job j := True)"
          unfolding w1_def tag by (rule orders_set_new[OF idle h(2)])
        moreover have "world_good w1" unfolding w1_def by (rule world_good_set[OF inv(1) h(1)])
        ultimately have "frame_inv p' w1" using m True by (simp add: frame_inv_def)
        then have "tiles_walked (length cs) l ?fw1 w1 (submit_tiles l budget tb cs (painting + tb) p' (?fw1, ?s1, w1))"
          using Cons.prems(2-5) h(3-5) by (intro Cons.IH) (simp_all add: w1_def)
        then have "tiles_walked (Suc (length cs)) l fw w (submit_tiles l budget tb cs (painting + tb) p' (?fw1, ?s1, w1))"
          by (rule tiles_walked_step) (simp_all add: w1_def counted_def)
        then show ?thesis using eq True by simp
      next
        case no: False
        have rel: "repainted h ((painting_of h)(c := None)) (- 1) (layer_grid w2 l)"
          using release_repainted[OF h(1), of c b] h(2) by (simp add: w2_def)
        have r: "grid_good (layer_grid w2 l)" "painting_of (layer_grid w2 l) = painting_of ?g" "gTileSize (layer_grid w2 l) = gTileSize ?g"
          "gBudget (layer_grid w2 l) = gBudget ?g" "gPainting (layer_grid w2 l) = gPainting ?g"
          using rel h idle by (auto simp: repainted_def fun_eq_iff)
        have "orders_of w2 = orders_of w" by (rule orders_cong) (use r(2) in \<open>simp add: w2_def\<close>)
        moreover have "world_good w2" using world_good_set[OF inv(1), of "layer_grid w2 l" l] r(1) by (simp add: w2_def)
        ultimately have "frame_inv p' w2" using m no by (simp add: frame_inv_def)
        then have "tiles_walked (length cs) l ?fw2 w2 (submit_tiles l budget tb cs painting p' (?fw2, ?s2, w2))"
          using Cons.prems(2-5) r(3-5) by (intro Cons.IH) simp_all
        then have "tiles_walked (Suc (length cs)) l fw w (submit_tiles l budget tb cs painting p' (?fw2, ?s2, w2))"
          by (rule tiles_walked_step) (simp_all add: w2_def counted_def)
        then show ?thesis using eq no by simp
      qed
    qed
  qed
qed

lemma sched_submit_inv:
  assumes "wPool w = Some p" "frame_inv p w"
  shows "\<exists>fw s' v q. sched_submit cs (s, w) = Some (fw, s', v) \<and> wPool v = Some q \<and> frame_inv q v
     \<and> 0 \<le> fwRefused fw \<and> fwRefused fw \<le> fwSubmitted fw \<and> fwSubmitted fw \<le> int (length cs)
     \<and> fwNeeded fw = length cs \<and> fwReused fw = scReused s \<and> (scLayer s \<noteq> None \<longrightarrow> rpDone q = [])"
proof (cases "scLayer s")
  case None
  then show ?thesis using assms by (simp add: sched_submit_def Let_def)
next
  case (Some l)
  let ?g = "layer_grid w l"
  let ?fw = "\<lparr>fwNeeded = length cs, fwSubmitted = 0, fwRefused = 0, fwAccepted = 0, fwReused = scReused s,
    fwPaintingBytes = gPainting ?g\<rparr>"
  have tb: "sched_tile_bytes s w = tile_bytes (gTileSize ?g)"
    by (simp add: sched_tile_bytes_def tile_size_def tile_bytes_def Some Let_def)
  have "tiles_walked (length cs) l ?fw w
     (submit_tiles l (gBudget ?g) (tile_bytes (gTileSize ?g)) cs (gPainting ?g) p (?fw, s, w))"
    by (rule submit_tiles_inv[OF assms(2) refl refl refl Some])
  then obtain q fw' s1 v where w: "submit_tiles l (gBudget ?g) (tile_bytes (gTileSize ?g)) cs (gPainting ?g) p (?fw, s, w)
      = Some (gPainting (layer_grid v l), q, fw', s1, v)"
    "frame_inv q v" "wPool v = wPool w" "scLayer s1 = Some l" "counted (length cs) ?fw fw'"
    by (auto simp: tiles_walked_def)
  obtain q2 n s2 v2 where d: "drain q 0 (s1, v) = (q2, n, s2, v2)" by (metis prod.exhaust)
  have "sched_submit cs (s, w) = Some (fw'\<lparr>fwAccepted := n\<rparr>, s2, v2\<lparr>wPool := Some q2\<rparr>)"
    using assms(1) Some w(1) d by (simp add: sched_submit_def grid_stats_of_def tb Let_def)
  with drain_inv[OF w(2,4) d] w(5) show ?thesis by (auto simp: frame_inv_def counted_def)
qed

subsection \<open>The system\<close>

text \<open>Every layer freshly made, the pool started: what \<open>NewScheduler\<close> is given.\<close>

definition fresh_world :: "world \<Rightarrow> bool" where
  "fresh_world w \<longleftrightarrow>
     (\<forall>a. \<exists>lid bnds budget n. wHeap w a = new_layer lid bnds budget (new_bitmap_pool (Sz TileSize TileSize) n))
   \<and> (\<exists>m k d r. wPool w = Some (rp_start (new_rpool m k d r)))"

inductive frame_step :: "sched \<times> world \<Rightarrow> sched \<times> world \<Rightarrow> bool" where
  begin_frame: "begin_frame ev (s, w) = Some (r, s', v) \<Longrightarrow> frame_step (s, w) (s', v)"
| submit: "sched_submit cs (s, w) = Some (fw, s', v) \<Longrightarrow> frame_step (s, w) (s', v)"
| compose: "compose_into b c pl (s, w) = Some (out, c', s', v) \<Longrightarrow> frame_step (s, w) (s', v)"
| set_plan: "frame_step (s, w) (set_plan pl s, w)"
| update_layer: "update_layer l content dirty s = (ok, s') \<Longrightarrow> frame_step (s, w) (s', w)"
| set_viewport: "frame_step (s, w) (set_viewport vp s, w)"
| submit_scroll: "submit_scroll delta s = (e, s') \<Longrightarrow> frame_step (s, w) (s', w)"
| collect: "wPool w = Some p \<Longrightarrow> scLayer s = Some l \<Longrightarrow> rp_poll p = (Some d, q) \<Longrightarrow>
    handle_done d (s, w) = (e, s', v) \<Longrightarrow> frame_step (s, w) (s', v\<lparr>wPool := Some q\<rparr>)"
| work: "wPool w = Some p \<Longrightarrow> pool_step (\<lambda>a. lyID (wHeap w a)) p ev q \<Longrightarrow> \<not> submitting ev \<Longrightarrow> given_by ev = {#} \<Longrightarrow>
    frame_step (s, w) (s, w\<lparr>wPool := Some q\<rparr>)"
| paint: "frame_step (s, w) (s, w\<lparr>wMem := m\<rparr>)"

inductive frame_reach :: "sched \<times> world \<Rightarrow> bool" where
  start: "fresh_world w0 \<Longrightarrow> new_scheduler l vp scale prefs w0 = Some sw \<Longrightarrow> frame_reach sw"
| step: "frame_reach sw \<Longrightarrow> frame_step sw sw' \<Longrightarrow> frame_reach sw'"

definition system_ok :: "sched \<times> world \<Rightarrow> bool" where
  "system_ok sw \<longleftrightarrow> (\<exists>p. wPool (snd sw) = Some p \<and> frame_inv p (snd sw))"

lemma compose_world: "compose_into b c pl (s, w) = Some (out, c', s', v) \<Longrightarrow> v = w"
  by (auto simp: compose_into_def finish_def Let_def split: option.splits prod.splits if_splits)

lemma frame_inv_quiet: "frame_inv p w \<Longrightarrow> quiet w v \<Longrightarrow> frame_inv p v"
  using quiet_good[of w v] quiet_orders[of w v] by (simp add: frame_inv_def)

lemma frame_inv_work:
  assumes "frame_inv p w" "pool_step ids p e q" "\<not> submitting e" "given_by e = {#}"
  shows "frame_inv q (w\<lparr>wPool := r\<rparr>)"
proof -
  have i: "world_good w" "rps.matched (orders_of w) p" using assms(1) by (simp_all add: frame_inv_def)
  have p: "rpool_inv p" "rpAsk p = Idle" using rps.matched_ok[OF i(2)] by (simp_all add: rpool_calm_def)
  have "rpool_calm q" "pending q = pending p"
    using pool_step_inv[OF assms(2) p(1)] not_submitting[OF assms(2,3)] p(2) not_submitting_admits[OF assms(3)] assms(4)
    by (simp_all add: rpool_calm_def)
  then have "rps.matched (orders_of w) q" using rps.matched_count[OF i(2)] by (intro rps.matchedI) auto
  then show ?thesis using i(1) by (simp add: frame_inv_def)
qed

lemma frame_step_ok:
  assumes "frame_step sw sw'" "system_ok sw"
  shows "system_ok sw'"
  using assms
proof (induction rule: frame_step.induct)
  case (begin_frame ev s w r s' v)
  then have "world_good w" by (auto simp: system_ok_def frame_inv_def)
  then have "quiet w v" using begin_frame_quiet begin_frame(1) by blast
  with begin_frame(2) show ?case using frame_inv_quiet[of _ w v] by (auto simp: system_ok_def quiet_def)
next
  case (submit cs s w fw s' v)
  then show ?case using sched_submit_inv[of w _ cs s] by (fastforce simp: system_ok_def)
next
  case (compose b c pl s w out c' s' v)
  then show ?case using compose_world by (fastforce simp: system_ok_def)
next
  case (collect w p s l d q e s' v)
  then have "frame_inv p w" by (simp add: system_ok_def)
  from handle_polled(1)[OF this collect(2-4)] show ?case by (simp add: system_ok_def frame_inv_def)
next
  case (work w p ev q s)
  then show ?case using frame_inv_work[of p w _ ev q] by (simp add: system_ok_def)
qed (simp_all add: system_ok_def frame_inv_def)

lemma fresh_grid_good:
  assumes "g = lyGrid (new_layer lid bnds budget (new_bitmap_pool (Sz TileSize TileSize) n))"
  shows "grid_good g" "painting_of g = (\<lambda>_. None)" "gUsed g = 0" "gPainting g = 0"
proof -
  obtain ext where g: "g = new_grid ext TileSize budget (new_bitmap_pool (Sz TileSize TileSize) n)"
    by (simp add: assms new_layer_def Let_def)
  have ok: "grid_ok g" unfolding g by (rule fresh_grid_ok) (simp_all add: TileSize_def)
  have f: "gUsed g = 0" "gPainting g = 0" "gTiles g = (\<lambda>_. None)"
    by (simp_all add: g new_grid_def Let_def prebuild_def)
  then show "gUsed g = 0" "gPainting g = 0" by simp_all
  show "painting_of g = (\<lambda>_. None)" by (simp add: painting_of_def tile_at_def f zero_tile_def fun_eq_iff)
  have "tile_bytes (gTileSize g) \<le> gBudget g" using ok by (simp add: grid_ok_def static_ok_def)
  then show "grid_good g" using ok f grid_bytes_pos[OF ok] by (simp add: grid_good_def)
qed

lemma set_budget_fresh:
  assumes "grid_good g" "gUsed g = 0" "gPainting g = 0" "set_budget n g = Some h"
  shows "grid_good h" "painting_of h = painting_of g"
proof -
  have ok: "grid_ok g" using assms(1) by (simp add: grid_good_def)
  define m where "m = max n (tile_bytes (gTileSize g))"
  have m: "set_budget n g = shrink_loop m (g\<lparr>gBudget := m\<rparr>)" "0 < m"
    using grid_bytes_pos[OF ok] by (auto simp: set_budget_def m_def Let_def max_def)
  have h: "h = g\<lparr>gBudget := m\<rparr>" using assms(2,4) m by (simp add: shrink_loop.simps)
  obtain h' where "set_budget n g = Some h'" "grid_ok h'" using set_budget_ok[OF ok] by blast
  then show "grid_good h" using assms h m(2) grid_bytes_pos[OF ok] by (auto simp: grid_good_def)
  show "painting_of h = painting_of g" by (simp add: h painting_core fun_eq_iff)
qed

lemma frame_start_ok:
  assumes "fresh_world w0" "new_scheduler l vp scale prefs w0 = Some (s, w)"
  shows "system_ok (s, w)"
proof -
  obtain m k d r where p: "wPool w0 = Some (rp_start (new_rpool m k d r))"
    using assms(1) by (auto simp: fresh_world_def)
  have pi: "rpool_calm (rp_start (new_rpool m k d r))" "pending (rp_start (new_rpool m k d r)) = {#}"
    using pool_step_inv[OF pool_step.start[of "\<lambda>_. 0"] new_rpool_inv[of m k d r]]
    by (simp_all add: rpool_calm_def rp_start_def new_rpool_def pending_def Let_def)
  have g: "grid_good (layer_grid w0 a)" "painting_of (layer_grid w0 a) = (\<lambda>_. None)"
    "gUsed (layer_grid w0 a) = 0" "gPainting (layer_grid w0 a) = 0" for a
    using assms(1) fresh_grid_good[of "layer_grid w0 a"] by (auto simp: fresh_world_def layer_grid_def) (metis fresh_grid_good)+
  have "wPool w = wPool w0 \<and> (\<forall>a. grid_good (layer_grid w a) \<and> painting_of (layer_grid w a) = (\<lambda>_. None))"
    using assms(2) g set_budget_fresh[OF g(1,3,4)]
    by (auto simp: new_scheduler_def Let_def split: option.splits if_splits)
  then have w: "wPool w = wPool w0" "world_good w" "orders_of w t = False" for t
    by (auto simp: world_good_def orders_of_def split: option.split prod.split)
  then have "rps.matched (orders_of w) (rp_start (new_rpool m k d r))" using pi by (intro rps.matchedI) auto
  with w p show ?thesis by (simp add: system_ok_def frame_inv_def)
qed

lemma frame_reach_ok: "frame_reach sw \<Longrightarrow> system_ok sw"
proof (induction rule: frame_reach.induct)
  case (start w0 l vp scale prefs sw)
  then show ?case using frame_start_ok by (cases sw) blast
qed (rule frame_step_ok)

subsection \<open>What holds in every state\<close>

lemma orders_of_some: "orders_of w (Some a, c, Some b) \<longleftrightarrow> painting_of (layer_grid w a) c = Some b"
  by (simp add: orders_of_def)

lemma order_is_pending:
  assumes "frame_inv p w"
  shows "count (pending p) t = (if orders_of w t then 1 else 0)"
    "in_flight (layer_grid w a) c \<longleftrightarrow> (\<exists>b. (Some a, c, Some b) \<in># pending p)"
proof -
  have n: "count (pending p) t = (if orders_of w t then 1 else 0)" for t
    using assms rps.matched_count[of "orders_of w" p t] by (simp add: frame_inv_def)
  then show "count (pending p) t = (if orders_of w t then 1 else 0)" .
  have "(Some a, c, Some b) \<in># pending p \<longleftrightarrow> painting_of (layer_grid w a) c = Some b" for b
    using n[of "(Some a, c, Some b)"] by (simp add: orders_of_some flip: count_greater_zero_iff)
  then show "in_flight (layer_grid w a) c \<longleftrightarrow> (\<exists>b. (Some a, c, Some b) \<in># pending p)"
    by (auto simp: in_flight_painting)
qed

text \<open>One layer of one tile, and a frame that asked for it.\<close>

definition demo_world :: world where
  "demo_world = \<lparr>wHeap = (\<lambda>_. new_layer 1 (rect4 0 0 256 256) 300000 (new_bitmap_pool (Sz TileSize TileSize) 0)),
     wPool = Some (rp_start (new_rpool 1 1 1 None)), wMem = (\<lambda>_ _. [])\<rparr>"

lemma reserve_layer [simp]: "scLayer (reserve_scratch grow w s) = scLayer s" "scSlot (reserve_scratch grow w s) = scSlot s"
  by (simp_all add: reserve_scratch_def case_prod_beta Let_def)

lemma demo_start:
  obtains s where "frame_reach (s, demo_world)" "scLayer s = Some 0" "scSlot s = zero_slot"
proof -
  have "fresh_world demo_world" by (auto simp: fresh_world_def demo_world_def)
  moreover obtain s where "new_scheduler (Some 0) \<lparr>vOffset = Pt 0 0, vSize = Sz 256 256\<rparr> 1 \<lparr>prPrefetchRows = 0, prBudget = 0\<rparr> demo_world
      = Some (s, demo_world)" "scLayer s = Some 0" "scSlot s = zero_slot"
    by (simp add: new_scheduler_def Let_def zero_sched_def)
  ultimately show ?thesis using that frame_reach.start by blast
qed

lemma demo_inside: "inside (layer_grid demo_world 0) (TC 0 0)"
  by (simp add: demo_world_def layer_grid_def new_layer_def new_grid_def Let_def prebuild_def inside_def TileSize_def rect_canon_def
    coord_rect_def rect_intersects_def rect_empty_def in32_def rect4_def)

text \<open>After that frame has submitted, its tile is on order and its job pending.\<close>

lemma demo_submitted:
  obtains s w where "frame_reach (s, w)" "in_flight (layer_grid w 0) (TC 0 0)"
proof -
  obtain s where s: "frame_reach (s, demo_world)" "scLayer s = Some 0" by (rule demo_start)
  let ?g = "layer_grid demo_world 0"
  obtain p where p: "wPool demo_world = Some p" "frame_inv p demo_world"
    using frame_reach_ok[OF s(1)] by (auto simp: system_ok_def)
  then have good: "grid_good ?g" by (simp add: frame_inv_def world_good_def)
  have fresh: "painting_of ?g (TC 0 0) = None" "gPainting ?g = 0" "tile_bytes (gTileSize ?g) \<le> gBudget ?g"
    using fresh_grid_good(2,4)[of ?g 1 "rect4 0 0 256 256" 300000 0] good
    by (auto simp: demo_world_def layer_grid_def grid_good_def grid_ok_def static_ok_def)
  have "acquire (TC 0 0) ?g \<noteq> Some (None, ?g)"
    by (rule acquire_ok[of ?g "TC 0 0"]) (use good demo_inside in \<open>simp_all add: grid_good_def\<close>)
  then obtain b h where h: "acquire (TC 0 0) ?g = Some (Some b, h)" "repainted ?g ((painting_of ?g)(TC 0 0 := Some b)) 1 h"
    using acquire_repainted[OF good fresh(1)] fresh(2,3) by auto
  let ?j = "\<lparr>jbLayer = Some 0, jbCoord = TC 0 0, jbDL = lyContent (wHeap demo_world 0), jbBounds = coord_rect (TC 0 0) (gTileSize h),
        jbOut = Some b, jbBackground = fpBackground (scCur s)\<rparr>"
  obtain q where q: "rp_submit ?j p = (None, q)" "rp_poll q = (None, q)"
    using p(1) by (auto simp: demo_world_def rp_submit_eq rp_poll_def rp_start_def new_rpool_def Let_def)
  have tb: "sched_tile_bytes s demo_world = tile_bytes (gTileSize ?g)"
    by (simp add: sched_tile_bytes_def tile_size_def tile_bytes_def s(2) Let_def)
  have nf: "\<not> in_flight ?g (TC 0 0)" using fresh(1) by (simp add: in_flight_painting)
  have "\<exists>fw s'. sched_submit [TC 0 0] (s, demo_world) = Some (fw, s', (set_grid 0 h demo_world)\<lparr>wPool := Some q\<rparr>)"
    using p(1) s(2) tb nf fresh(2,3) h(1) q by (simp add: sched_submit_def grid_stats_of_def Let_def drain.simps)
  then obtain s' where "frame_reach (s', (set_grid 0 h demo_world)\<lparr>wPool := Some q\<rparr>)"
    using frame_reach.step[OF s(1)] frame_step.submit by blast
  moreover have "in_flight (layer_grid ((set_grid 0 h demo_world)\<lparr>wPool := Some q\<rparr>) 0) (TC 0 0)"
    using h(2) by (simp add: in_flight_painting repainted_def)
  ultimately show ?thesis using that by blast
qed

text \<open>
  Claim C2. However input, frames, workers, content updates, navigation and \<open>Close\<close>
  interleave, a buffer is on order in some layer's grid exactly when one job for that layer, tile
  and buffer is in the pool: no order is ever orphaned (its tile would never be asked for
  again) and no two workers are given the same buffer.
\<close>

theorem orders_are_jobs:
  assumes "frame_reach (s, w)" "wPool w = Some p"
  shows "(\<forall>t. count (pending p) t = (if orders_of w t then 1 else 0))
    \<and> (\<forall>a c. in_flight (layer_grid w a) c \<longleftrightarrow> (\<exists>b. (Some a, c, Some b) \<in># pending p))"
  using frame_reach_ok[OF assms(1)] assms(2) order_is_pending by (auto simp: system_ok_def)

theorem orders_are_jobs_witness:
  "\<exists>s w p b. frame_reach (s, w) \<and> wPool w = Some p \<and> (Some 0, TC 0 0, Some b) \<in># pending p"
proof -
  obtain s w where r: "frame_reach (s, w)" "in_flight (layer_grid w 0) (TC 0 0)" by (rule demo_submitted)
  moreover obtain p where "wPool w = Some p" using frame_reach_ok[OF r(1)] by (auto simp: system_ok_def)
  ultimately show ?thesis using orders_are_jobs[OF r(1)] by blast
qed

text \<open>
  Claim C14. The memory plateau: in every reachable state each grid's bytes are those of the
  buffers on order plus one tile for each coordinate of the recency list, the buffers on
  order fit the budget, and everything together exceeds it by at most one tile (a stale
  tile's own pixels, kept on screen while its replacement is painted).
\<close>

theorem memory_plateau:
  assumes "frame_reach (s, w)"
  shows "gUsed (layer_grid w a) = gPainting (layer_grid w a) + tile_bytes (gTileSize (layer_grid w a)) * int (length (lru (layer_grid w a)))
    \<and> gPainting (layer_grid w a) \<le> gBudget (layer_grid w a)
    \<and> gUsed (layer_grid w a) \<le> gBudget (layer_grid w a) + tile_bytes (gTileSize (layer_grid w a))"
proof -
  have "grid_good (layer_grid w a)"
    using frame_reach_ok[OF assms] by (auto simp: system_ok_def frame_inv_def world_good_def)
  then show ?thesis unfolding grid_good_def using used_bytes by blast
qed

theorem memory_plateau_witness:
  "\<exists>s w. frame_reach (s, w) \<and> in_flight (layer_grid w 0) (TC 0 0) \<and> gPainting (layer_grid w 0) \<le> gBudget (layer_grid w 0)"
proof -
  obtain s w where r: "frame_reach (s, w)" "in_flight (layer_grid w 0) (TC 0 0)" by (rule demo_submitted)
  with memory_plateau[OF r(1), of 0] show ?thesis by blast
qed

text \<open>
  Claim C16. \<open>Submit\<close> returns in every reachable state, whatever tiles it is asked for: its
  eviction loops end, it never waits, it refuses no more than it submits and submits no
  more than it was asked for, and with a layer bound it leaves the completion queue empty.
\<close>

theorem submit_returns:
  assumes "frame_reach (s, w)"
  shows "\<exists>fw s' v q. sched_submit cs (s, w) = Some (fw, s', v) \<and> wPool v = Some q
     \<and> 0 \<le> fwRefused fw \<and> fwRefused fw \<le> fwSubmitted fw \<and> fwSubmitted fw \<le> int (length cs)
     \<and> fwNeeded fw = length cs \<and> fwReused fw = scReused s \<and> (scLayer s \<noteq> None \<longrightarrow> rpDone q = [])"
proof -
  obtain p where "wPool w = Some p" "frame_inv p w" using frame_reach_ok[OF assms] by (auto simp: system_ok_def)
  then show ?thesis using sched_submit_inv[of w p cs s] by blast
qed

theorem submit_returns_witness:
  "\<exists>s w fw s' v. frame_reach (s, w) \<and> in_flight (layer_grid w 0) (TC 0 0)
     \<and> sched_submit [TC 0 0, TC 5 5] (s, w) = Some (fw, s', v) \<and> fwSubmitted fw \<le> 2"
proof -
  obtain s w where r: "frame_reach (s, w)" "in_flight (layer_grid w 0) (TC 0 0)" by (rule demo_submitted)
  moreover obtain fw s' v where "sched_submit [TC 0 0, TC 5 5] (s, w) = Some (fw, s', v)" "fwSubmitted fw \<le> 2"
    using submit_returns[OF r(1), of "[TC 0 0, TC 5 5]"] by auto
  ultimately show ?thesis by blast
qed

end
