(* ===== verification/Frame_Planning.thy ===== *)
theory Frame_Planning
  imports Frame_System
begin

text \<open>
  What one frame asks for: the scroll position the viewport is resolved at, and the list
  of tiles \<open>BeginFrame\<close> plans, against a reference that reads the grid without touching it.
\<close>

subsection \<open>Scroll positions\<close>

lemma add_saturate_clamp: "add_saturate a b = max (- 2147483648) (min 2147483647 (a + b))"
  by (auto simp: add_saturate_def Let_def)

lemma fold_scroll_pos:
  assumes "in32 (pX (scScroll s))" "in32 (pY (scScroll s))"
  shows "scScroll (fold_scroll d s)
    = Pt (add_saturate (pX (scScroll s)) (pX d)) (add_saturate (pY (scScroll s)) (pY d))"
  using assms by (cases "scScroll s") (auto simp: fold_scroll_def Let_def add_saturate_clamp in32_def)

text \<open>A document as \<open>NewLayer\<close> makes them, and a surface.\<close>

definition document_at :: "rect \<Rightarrow> gsize \<Rightarrow> bool" where
  "document_at b sz \<longleftrightarrow> 0 \<le> rX0 b \<and> 0 \<le> rY0 b \<and> rect32 b \<and> 0 \<le> rX1 b \<and> 0 \<le> rY1 b
     \<and> 0 \<le> sW sz \<and> in32 (sW sz) \<and> 0 \<le> sH sz \<and> in32 (sH sz)"

lemma clamp_document:
  assumes "document_at b sz"
  shows "clamp_scroll p b sz
    = Pt (max 0 (min (pX p) (max 0 (rX1 b - sW sz)))) (max 0 (min (pY p) (max 0 (rY1 b - sH sz))))"
  using assms by (auto simp: document_at_def clamp_scroll_def clamp_offset_def Let_def rect32_def in32_def)

lemma resolve_document:
  assumes "scLayer s = Some l" "document_at (lyBounds (wHeap w l)) (scSize s)"
  shows "resolve s w = \<lparr>vOffset = Pt (max 0 (min (pX (scScroll s)) (max 0 (rX1 (lyBounds (wHeap w l)) - sW (scSize s)))))
      (max 0 (min (pY (scScroll s)) (max 0 (rY1 (lyBounds (wHeap w l)) - sH (scSize s))))), vSize = scSize s\<rparr>"
  using assms by (simp add: resolve_def clamp_document)

text \<open>
  Scrolling can neither leave the document nor wrap: whatever delta is folded in,
  however wild, the viewport drawn starts inside the document, lies in it when the document
  is larger than the surface and starts at its origin when it is smaller; within reach the page
  moves by exactly the delta; and the overshoot past an end is kept, so the opposite delta
  restores the position unless the sum left \<open>int32\<close>.
\<close>

theorem scroll_stays_in_document:
  assumes "scLayer s = Some l" "document_at (lyBounds (wHeap w l)) (scSize s)"
    and "in32 (pX (scScroll s))" "in32 (pY (scScroll s))"
  shows "(let t = fold_scroll d s; b = lyBounds (wHeap w l); v = vOffset (resolve t w) in
      vSize (resolve t w) = scSize s
    \<and> 0 \<le> pY v \<and> pY v \<le> max 0 (rY1 b - sH (scSize s)) \<and> 0 \<le> pX v \<and> pX v \<le> max 0 (rX1 b - sW (scSize s))
    \<and> (0 \<le> pY (scScroll s) + pY d \<and> pY (scScroll s) + pY d \<le> rY1 b - sH (scSize s) \<longrightarrow> pY v = pY (scScroll s) + pY d)
    \<and> (in32 (pX (scScroll s) + pX d) \<and> in32 (pY (scScroll s) + pY d)
         \<longrightarrow> resolve (fold_scroll (Pt (- pX d) (- pY d)) t) w = resolve s w))"
proof -
  define t where "t = fold_scroll d s"
  define b where "b = lyBounds (wHeap w l)"
  have keep: "scLayer (fold_scroll e u) = scLayer u" "scSize (fold_scroll e u) = scSize u" for e u
    by (simp_all add: fold_scroll_def Let_def)
  have t: "scScroll t = Pt (add_saturate (pX (scScroll s)) (pX d)) (add_saturate (pY (scScroll s)) (pY d))"
    unfolding t_def by (rule fold_scroll_pos[OF assms(3,4)])
  have in_t: "in32 (pX (scScroll t))" "in32 (pY (scScroll t))" by (auto simp: t add_saturate_clamp in32_def)
  have restored: "resolve (fold_scroll (Pt (- pX d) (- pY d)) t) w = resolve s w"
    if "in32 (pX (scScroll s) + pX d)" "in32 (pY (scScroll s) + pY d)"
  proof -
    have "scScroll (fold_scroll (Pt (- pX d) (- pY d)) t) = scScroll s"
      using that assms(3,4) by (cases "scScroll s") (auto simp: fold_scroll_pos[OF in_t] t add_saturate_clamp in32_def)
    then show ?thesis using assms(1) keep by (simp add: resolve_def t_def)
  qed
  have r: "resolve t w = \<lparr>vOffset = Pt (max 0 (min (pX (scScroll t)) (max 0 (rX1 b - sW (scSize s)))))
      (max 0 (min (pY (scScroll t)) (max 0 (rY1 b - sH (scSize s))))), vSize = scSize s\<rparr>"
    unfolding b_def using resolve_document[of t l w] assms(1,2) keep by (simp add: t_def)
  have "in32 (rY1 b)" "0 \<le> sH (scSize s)" using assms(2) by (auto simp: b_def document_at_def rect32_def)
  then have "0 \<le> pY (scScroll s) + pY d \<and> pY (scScroll s) + pY d \<le> rY1 b - sH (scSize s)
         \<longrightarrow> pY (vOffset (resolve t w)) = pY (scScroll s) + pY d"
    by (auto simp: r t add_saturate_clamp in32_def)
  then show ?thesis using restored unfolding Let_def t_def[symmetric] b_def[symmetric] by (auto simp: r)
qed

theorem scroll_stays_in_document_witness:
  "let s = zero_sched\<lparr>scLayer := Some 0, scSize := Sz 100 100, scScroll := Pt 0 50\<rparr> in
     pY (vOffset (resolve (fold_scroll (Pt 0 2147483647) s) demo_world)) \<le> 156
   \<and> vOffset (resolve (fold_scroll (Pt 0 (- 30)) (fold_scroll (Pt 0 30) s)) demo_world) = Pt 0 50"
proof -
  let ?s = "zero_sched\<lparr>scLayer := Some 0, scSize := Sz 100 100, scScroll := Pt 0 50\<rparr>"
  have b: "lyBounds (wHeap demo_world 0) = rect4 0 0 256 256"
    by (simp add: demo_world_def new_layer_def Let_def rect_canon_def)
  have h: "scLayer ?s = Some 0" "document_at (lyBounds (wHeap demo_world 0)) (scSize ?s)" "in32 (pX (scScroll ?s))"
    "in32 (pY (scScroll ?s))" by (simp_all add: b document_at_def rect32_def in32_def)
  show ?thesis
    using scroll_stays_in_document[OF h, of "Pt 0 2147483647"] scroll_stays_in_document[OF h, of "Pt 0 30"]
      resolve_document[OF h(1,2)] unfolding Let_def by (simp add: b in32_def)
qed

subsection \<open>Touching changes no decision\<close>

definition status :: "grid \<Rightarrow> tile_coord \<Rightarrow> (tile_state \<times> nat \<times> buf option \<times> buf option) option" where
  "status g c = map_option (\<lambda>t. (tState t, tVersion t, tPixels t, tPainting t)) (gTiles g c)"

text \<open>Two grids that answer every question of the planning pass alike.\<close>

definition same_answers :: "grid \<Rightarrow> grid \<Rightarrow> bool" where
  "same_answers g h \<longleftrightarrow> status h = status g \<and> gTileSize h = gTileSize g \<and> gExtent h = gExtent g"

lemma status_core: "status g c = map_option (\<lambda>t. (tState t, tVersion t, tPixels t, tPainting t)) (core g c)"
  by (simp add: status_def core_def option.map_comp o_def)

lemma touch_same_answers: "same_answers g (touch c g)"
proof (cases "gTiles g c = None \<or> tPixels (tile_at g c) = None")
  case True
  then show ?thesis by (auto simp: same_answers_def touch_def tile_at_def split: option.split)
next
  case False
  then have "touch c g = link_front c ((upd_tile c (\<lambda>t. t\<lparr>tLastUsed := gClock g\<rparr>) g)\<lparr>gReused := gReused g + 1\<rparr>)"
    by (auto simp: touch_def tile_at_def split: option.split)
  then have "core (touch c g) = core (upd_tile c (\<lambda>t. t\<lparr>tLastUsed := gClock g\<rparr>) g)" by simp
  then have "status (touch c g) = status (upd_tile c (\<lambda>t. t\<lparr>tLastUsed := gClock g\<rparr>) g)" by (simp add: fun_eq_iff status_core)
  also have "\<dots> = status g" by (auto simp: status_def fun_eq_iff upd_tile_def split: option.split)
  finally show ?thesis using \<open>touch c g = _\<close> by (simp add: same_answers_def)
qed

lemma tick_same_answers: "same_answers g (tick g)"
  by (simp add: same_answers_def tick_def status_def fun_eq_iff)

lemma same_answers_trans: "same_answers g h \<Longrightarrow> same_answers h k \<Longrightarrow> same_answers g k"
  by (simp add: same_answers_def)

lemma same_answers_questions:
  assumes "same_answers g h"
  shows "needs h c v = needs g c v" "in_flight h c = in_flight g c" "grid_failed h c = grid_failed g c"
    "visible_coords h vp = visible_coords g vp" "prefetch_coords h vp d n = prefetch_coords g vp d n" "inside h c = inside g c"
proof -
  have st: "status h c = status g c" "gTileSize h = gTileSize g" "gExtent h = gExtent g"
    using assms by (simp_all add: same_answers_def)
  have cov: "coords_covering h r = coords_covering g r" for r
    using st by (simp add: coords_covering_def coord_range_def)
  show "visible_coords h vp = visible_coords g vp" "prefetch_coords h vp d n = prefetch_coords g vp d n"
    using st cov by (simp_all add: visible_coords_def prefetch_coords_def prefetch_band_def)
  show i: "inside h c = inside g c" using st by (simp add: inside_def)
  show "in_flight h c = in_flight g c" "grid_failed h c = grid_failed g c"
    using st(1) by (cases "gTiles g c"; cases "gTiles h c"; simp add: in_flight_def grid_failed_def status_def)+
  show "needs h c v = needs g c v"
    using st(1) i by (auto simp: needs_def valid_at_def status_def split: option.splits)
qed

subsection \<open>The planned tiles\<close>

text \<open>A tile is wanted when it is stale or missing, not already on order, and not given up on.\<close>

definition wanted :: "layer \<Rightarrow> tile_coord \<Rightarrow> bool" where
  "wanted ly c \<longleftrightarrow> layer_needs ly c \<and> \<not> in_flight (lyGrid ly) c \<and> \<not> grid_failed (lyGrid ly) c"

definition ring_wanted :: "layer \<Rightarrow> viewport \<Rightarrow> int \<Rightarrow> point \<Rightarrow> tile_coord list" where
  "ring_wanted ly vp rows d =
     (if pX d = 0 \<and> pY d = 0 then []
      else filter (\<lambda>c. wanted ly c \<and> \<not> rect_intersects (coord_rect c (gTileSize (lyGrid ly))) (viewport_rect vp))
             (prefetch_coords (lyGrid ly) vp d rows))"

definition planned :: "layer \<Rightarrow> viewport \<Rightarrow> point \<Rightarrow> int \<Rightarrow> tile_coord list" where
  "planned ly vp dir rows =
     filter (wanted ly) (leading_order dir (visible_coords (lyGrid ly) vp))
     @ (if rows \<le> 0 then [] else ring_wanted ly vp rows dir @ ring_wanted ly vp rows (Pt (i32 (- pX dir)) (i32 (- pY dir))))"

definition same_layer :: "layer \<Rightarrow> layer \<Rightarrow> bool" where
  "same_layer a b \<longleftrightarrow> same_answers (lyGrid a) (lyGrid b) \<and> lyVersion b = lyVersion a \<and> lyBounds b = lyBounds a"

lemma same_layer_wanted: "same_layer a b \<Longrightarrow> wanted b c = wanted a c" "same_layer a b \<Longrightarrow> layer_needs b c = layer_needs a c"
  using same_answers_questions[of "lyGrid a" "lyGrid b"] by (auto simp: same_layer_def wanted_def layer_needs_def)

text \<open>The fields a planning pass does not write.\<close>

definition same_inputs :: "sched \<Rightarrow> sched \<Rightarrow> bool" where
  "same_inputs s t \<longleftrightarrow> scDir t = scDir s \<and> scPrefs t = scPrefs s \<and> scSize t = scSize s \<and> scLayer t = scLayer s
     \<and> scScroll t = scScroll s \<and> scCur t = scCur s"

lemma same_inputs_trans: "same_inputs s t \<Longrightarrow> same_inputs t u \<Longrightarrow> same_inputs s u"
  by (simp add: same_inputs_def)

text \<open>From \<open>s\<close> to \<open>t\<close> the tiles \<open>ys\<close> were added to the needed list, and \<open>n\<close> counted as reused.\<close>

definition adds :: "sched \<Rightarrow> tile_coord list \<Rightarrow> nat \<Rightarrow> sched \<Rightarrow> bool" where
  "adds s ys n t \<longleftrightarrow> same_inputs s t \<and> scVis t = scVis s \<and> scReused t = scReused s + int n
     \<and> slItems (scNeed t) = slItems (scNeed s) @ ys"

lemma adds_refl: "adds s [] 0 s"
  by (simp add: adds_def same_inputs_def)

lemma adds_trans: "adds s xs m t \<Longrightarrow> adds t ys n u \<Longrightarrow> adds s (xs @ ys) (m + n) u"
  by (simp add: adds_def same_inputs_def)

lemma visit_plan:
  assumes "same_layer ly (wHeap w l)" "visit_visible l c (s, w) = (t, v)"
  shows "same_layer ly (wHeap v l)" "adds s (filter (wanted ly) [c]) (length (filter (\<lambda>c. \<not> layer_needs ly c) [c])) t"
proof -
  have v: "v = set_grid l (touch c (layer_grid w l)) w"
    using assms(2) by (auto simp: visit_visible_def Let_def split: if_splits)
  show same: "same_layer ly (wHeap v l)"
    using assms(1) same_answers_trans[OF _ touch_same_answers, of _ "lyGrid (wHeap w l)" c]
    by (auto simp: v same_layer_def set_grid_def layer_grid_def)
  note ask = same_layer_wanted[OF same]
  show "adds s (filter (wanted ly) [c]) (length (filter (\<lambda>c. \<not> layer_needs ly c) [c])) t"
    using assms(2) ask[of c] unfolding visit_visible_def v[symmetric] Let_def
    by (auto simp: wanted_def layer_grid_def adds_def same_inputs_def split: if_splits)
qed

lemma visits_plan:
  "same_layer ly (wHeap w l) \<Longrightarrow> fold (visit_visible l) cs (s, w) = (t, v) \<Longrightarrow>
   same_layer ly (wHeap v l) \<and> adds s (filter (wanted ly) cs) (length (filter (\<lambda>c. \<not> layer_needs ly c) cs)) t"
proof (induction cs arbitrary: s w)
  case Nil
  then show ?case by (simp add: adds_refl)
next
  case (Cons c cs)
  obtain s1 w1 where v: "visit_visible l c (s, w) = (s1, w1)" by (cases "visit_visible l c (s, w)")
  note V = visit_plan[OF Cons.prems(1) v]
  have "same_layer ly (wHeap v l) \<and> adds s1 (filter (wanted ly) cs) (length (filter (\<lambda>c. \<not> layer_needs ly c) cs)) t"
    using Cons.IH[OF V(1)] Cons.prems(2) v by simp
  then show ?case using adds_trans[OF V(2)] by auto
qed

lemma ring_tiles_plan:
  "fold (ring_tile l w r) cs (s, n) = (t, m) \<Longrightarrow> adds s
     (filter (\<lambda>c. wanted (wHeap w l) c \<and> \<not> rect_intersects (coord_rect c (gTileSize (layer_grid w l))) r) cs) 0 t"
proof (induction cs arbitrary: s n)
  case Nil
  then show ?case by (simp add: adds_refl)
next
  case (Cons c cs)
  let ?P = "\<lambda>c. wanted (wHeap w l) c \<and> \<not> rect_intersects (coord_rect c (gTileSize (layer_grid w l))) r"
  obtain s1 n1 where r: "ring_tile l w r c (s, n) = (s1, n1)" by (cases "ring_tile l w r c (s, n)")
  then have "adds s (filter ?P [c]) 0 s1"
    by (auto simp: ring_tile_def wanted_def layer_grid_def adds_def same_inputs_def Let_def split: if_splits)
  from adds_trans[OF this Cons.IH[of s1 n1]] show ?case using Cons.prems r by (auto split: if_splits)
qed

lemma ring_dir_plan:
  assumes "ring_dir l w vp rows d (s, n) = (t, m)"
  shows "adds s (ring_wanted (wHeap w l) vp rows d) 0 t"
proof (cases "pX d = 0 \<and> pY d = 0")
  case True
  then show ?thesis using assms by (simp add: ring_dir_def ring_wanted_def adds_refl)
next
  case False
  let ?cs = "prefetch_coords (layer_grid w l) vp d rows"
  let ?s = "s\<lparr>scPref := sl_append_all ?cs (scPref s)\<rparr>"
  have "adds s [] 0 ?s" by (simp add: adds_def same_inputs_def)
  moreover have "fold (ring_tile l w (viewport_rect vp)) ?cs (?s, n) = (t, m)"
    using assms False unfolding ring_dir_def Let_def prod.case by (simp only: if_False)
  ultimately have "adds s ([] @ filter (\<lambda>c. wanted (wHeap w l) c \<and>
      \<not> rect_intersects (coord_rect c (gTileSize (layer_grid w l))) (viewport_rect vp)) ?cs) (0 + 0) t"
    by (intro adds_trans[OF _ ring_tiles_plan])
  then show ?thesis using False by (auto simp: ring_wanted_def layer_grid_def)
qed

lemma ring_plan:
  assumes "ring l w vp s = (t, n)"
  shows "adds s (if ring_rows_for s w (scDir s) \<le> 0 then []
        else ring_wanted (wHeap w l) vp (ring_rows_for s w (scDir s)) (scDir s)
          @ ring_wanted (wHeap w l) vp (ring_rows_for s w (scDir s)) (Pt (i32 (- pX (scDir s))) (i32 (- pY (scDir s))))) 0 t"
proof (cases "ring_rows_for s w (scDir s) \<le> 0")
  case True
  then show ?thesis using assms by (simp add: ring_def adds_refl)
next
  case False
  obtain s1 n1 where 1: "ring_dir l w vp (ring_rows_for s w (scDir s)) (scDir s) (s, 0) = (s1, n1)" by fastforce
  have "ring_dir l w vp (ring_rows_for s w (scDir s)) (Pt (i32 (- pX (scDir s))) (i32 (- pY (scDir s)))) (s1, n1) = (t, n)"
    using assms False 1 by (simp add: ring_def Let_def)
  from adds_trans[OF ring_dir_plan[OF 1] ring_dir_plan[OF this]] False show ?thesis by simp
qed

lemma reserve_items: "slItems b = [] \<Longrightarrow> slItems (fst (reserve n b)) = []"
  by (simp add: reserve_def)

lemma reserve_keeps:
  "same_inputs s (reserve_scratch grow w s)" "scReused (reserve_scratch grow w s) = scReused s"
  "slItems (scVis s) = [] \<Longrightarrow> slItems (scVis (reserve_scratch grow w s)) = []"
  "slItems (scNeed s) = [] \<Longrightarrow> slItems (scNeed (reserve_scratch grow w s)) = []"
  by (simp_all add: reserve_scratch_def same_inputs_def case_prod_beta Let_def reserve_items)

lemma apply_keeps:
  assumes "apply_pending_update (s, w) = (t, v)"
  shows "same_inputs s t" "scReused t = scReused s" "scVis t = scVis s" "scNeed t = scNeed s"
    "lyBounds (wHeap v a) = lyBounds (wHeap w a)"
proof -
  show "same_inputs s t" "scReused t = scReused s" "scVis t = scVis s" "scNeed t = scNeed s"
    using assms by (auto simp: apply_pending_update_def same_inputs_def Let_def case_prod_beta split: option.splits if_splits)
  show "lyBounds (wHeap v a) = lyBounds (wHeap w a)"
    using assms by (auto simp: apply_pending_update_def invalidate_rect_def set_content_def Let_def case_prod_beta split: option.splits if_splits)
qed

lemma ring_rows_same:
  "same_inputs s t \<Longrightarrow> scLayer s = Some l \<Longrightarrow> gTileSize (layer_grid v l) = gTileSize (layer_grid w l)
   \<Longrightarrow> ring_rows_for t v d = ring_rows_for s w d"
  by (simp add: ring_rows_for_def same_inputs_def tile_size_def Let_def)

lemma same_layer_planned:
  assumes "same_layer a b"
  shows "planned b vp d n = planned a vp d n" "visible_coords (lyGrid b) vp = visible_coords (lyGrid a) vp"
    "gTileSize (lyGrid b) = gTileSize (lyGrid a)"
proof -
  have g: "same_answers (lyGrid a) (lyGrid b)" using assms by (simp add: same_layer_def)
  show "visible_coords (lyGrid b) vp = visible_coords (lyGrid a) vp" "gTileSize (lyGrid b) = gTileSize (lyGrid a)"
    using same_answers_questions(4)[OF g] g by (simp_all add: same_answers_def)
  then show "planned b vp d n = planned a vp d n"
    using same_answers_questions(5)[OF g] same_layer_wanted(1)[OF assms]
    by (simp add: planned_def ring_wanted_def cong: filter_cong)
qed

text \<open>The planning pass, in terms of the world it leaves.\<close>

lemma plan_tiles_plans:
  assumes l: "scLayer s = Some l" and e: "slItems (scVis s) = []" "slItems (scNeed s) = []" "scReused s = 0"
    and r: "plan_tiles l vp (s, w) = (s', w')"
  shows "slItems (scVis s') = visible_coords (layer_grid w' l) vp"
    "slItems (scNeed s') = planned (wHeap w' l) vp (scDir s') (ring_rows_for s' w' (scDir s'))"
    "scReused s' = int (length (filter (\<lambda>c. \<not> layer_needs (wHeap w' l) c) (visible_coords (layer_grid w' l) vp)))"
    "same_inputs s s'" "lyBounds (wHeap w' l) = lyBounds (wHeap w l)"
proof -
  obtain s1 w1 where 1: "apply_pending_update (s, w) = (s1, w1)" by fastforce
  note A = apply_keeps[OF 1]
  define s2 where "s2 = reserve_scratch True w1 s1"
  have R: "same_inputs s s2" "scReused s2 = 0" "slItems (scVis s2) = []" "slItems (scNeed s2) = []"
    using reserve_keeps[where s = s1 and grow = True and w = w1, folded s2_def] A e same_inputs_trans[OF A(1)] by auto
  define w2 where "w2 = set_grid l (tick (layer_grid w1 l)) w1"
  define vis where "vis = visible_coords (layer_grid w2 l) vp"
  define s3 where "s3 = s2\<lparr>scVis := sl_append_all vis (scVis s2)\<rparr>"
  have s3: "slItems (scVis s3) = vis" "slItems (scNeed s3) = []" "scReused s3 = 0" "same_inputs s s3"
    using R by (auto simp: s3_def same_inputs_def)
  let ?ly = "wHeap w2 l" and ?lead = "leading_order (scDir s3) vis"
  obtain s4 w4 where f: "fold (visit_visible l) ?lead (s3, w2) = (s4, w4)" by fastforce
  have "same_layer ?ly (wHeap w2 l)" by (simp add: same_layer_def same_answers_def)
  from visits_plan[OF this f] have V: "same_layer ?ly (wHeap w4 l)"
    "adds s3 (filter (wanted ?ly) ?lead) (length (filter (\<lambda>c. \<not> layer_needs ?ly c) ?lead)) s4" by auto
  obtain s5 n where g: "ring l w4 vp s4 = (s5, n)" by fastforce
  note G = ring_plan[OF g]
  have fin: "s' = s5\<lparr>scPrefetched := scPrefetched s5 + n\<rparr>" "w' = w4"
    using r f g unfolding plan_tiles_def Let_def 1 s2_def[symmetric] w2_def[symmetric] vis_def[symmetric] s3_def[symmetric] prod.case
    by auto
  have same: "same_inputs s s'" "same_inputs s s4" "scDir s4 = scDir s'" "scDir s3 = scDir s'"
    using s3(4) V(2) G by (auto simp: fin adds_def same_inputs_def)
  note P = same_layer_planned[OF V(1)]
  have vis': "vis = visible_coords (layer_grid w' l) vp" using P(2) by (simp add: vis_def fin layer_grid_def)
  show "slItems (scVis s') = visible_coords (layer_grid w' l) vp"
    using s3(1) V(2) G vis' by (simp add: fin(1) adds_def)
  have rows: "ring_rows_for s4 w4 (scDir s4) = ring_rows_for s' w' (scDir s')"
    using ring_rows_same[of s' s4 l w4 w'] same l by (auto simp: fin(2) same_inputs_def)
  have "slItems (scNeed s') = slItems (scNeed s3) @ filter (wanted ?ly) ?lead @ (if ring_rows_for s4 w4 (scDir s4) \<le> 0 then []
        else ring_wanted (wHeap w4 l) vp (ring_rows_for s4 w4 (scDir s4)) (scDir s4)
          @ ring_wanted (wHeap w4 l) vp (ring_rows_for s4 w4 (scDir s4)) (Pt (i32 (- pX (scDir s4))) (i32 (- pY (scDir s4)))))"
    using V(2) G by (simp add: fin(1) adds_def)
  also have "filter (wanted ?ly) ?lead = filter (wanted (wHeap w4 l)) ?lead"
    using same_layer_wanted(1)[OF V(1)] by (simp cong: filter_cong)
  finally show "slItems (scNeed s') = planned (wHeap w' l) vp (scDir s') (ring_rows_for s' w' (scDir s'))"
    using s3(2) rows same(3,4) vis' by (simp add: planned_def fin(2) layer_grid_def)
  have "length (filter P (leading_order d xs)) = length (filter P xs)" for P d xs
    by (simp add: leading_order_def flip: rev_filter)
  then show "scReused s' = int (length (filter (\<lambda>c. \<not> layer_needs (wHeap w' l) c) (visible_coords (layer_grid w' l) vp)))"
    using V(2) G s3(3) same_layer_wanted(2)[OF V(1)] vis' by (simp add: fin adds_def)
  show "same_inputs s s'" by (rule same(1))
  show "lyBounds (wHeap w' l) = lyBounds (wHeap w l)"
    using V(1) A(5) by (simp add: fin(2) same_layer_def w2_def)
qed

text \<open>
  Claim C17. A frame plans exactly the work there is. When \<open>BeginFrame\<close> hands out a plan over
  a layer, its viewport is the resolved scroll position, the visible list is the tiles of that
  viewport, and the needed list is: the visible tiles that are out of date, not on order and
  not given up on, from the leading edge of the last scroll inward; then, when prefetch is
  on, the same for the band ahead and the band behind, tiles meeting the viewport left out.
  Every visible tile that is current is counted as reused.
\<close>

theorem begin_frame_plans:
  assumes "begin_frame ev (s, w) = Some (Some (plan, needed), s', w')" "scLayer s' = Some l"
  shows "fpViewport plan = resolve s' w'
    \<and> slItems (scVis s') = visible_coords (layer_grid w' l) (fpViewport plan)
    \<and> needed = planned (wHeap w' l) (fpViewport plan) (scDir s') (ring_rows_for s' w' (scDir s'))
    \<and> scReused s' = int (length (filter (\<lambda>c. \<not> layer_needs (wHeap w' l) c) (slItems (scVis s'))))"
proof -
  define s1 where "s1 = frame_inputs ev s"
  have s1: "slItems (scVis s1) = []" "slItems (scNeed s1) = []" "scReused s1 = 0"
    by (simp_all add: s1_def frame_inputs_def Let_def)
  obtain p ok slot where t: "slot_take (scSlot s1) = ((p, ok), slot)" by (metis prod.exhaust)
  define s2 where "s2 = bind_layer p (s1\<lparr>scSlot := slot\<rparr>)"
  define s3 where "s3 = s2\<lparr>scCur := \<lparr>fpSerial = fpSerial p, fpViewport = resolve s2 w, fpScale = scScale s2, fpLayers = fpLayers p,
    fpBackground = fpBackground p\<rparr>\<rparr>"
  have s3: "slItems (scVis s3) = []" "slItems (scNeed s3) = []" "scReused s3 = 0" "scLayer s3 = scLayer s2"
    "fpViewport (scCur s3) = resolve s2 w" "scScroll s3 = scScroll s2" "scSize s3 = scSize s2"
    using s1 by (simp_all add: s3_def s2_def bind_layer_def)
  have fp: "frame_planned p (s1\<lparr>scSlot := slot\<rparr>, w) = Some (Some (plan, needed), s', w')"
    using assms(1) t unfolding begin_frame_def Let_def prod.case unfolding s1_def[symmetric] by (simp split: if_splits)
  obtain r where eq: "frame_planned p (s1\<lparr>scSlot := slot\<rparr>, w) = (if r then None else case scLayer s3 of
      None \<Rightarrow> Some (Some (scCur s3, slItems (scNeed s3)), s3, w)
    | Some l \<Rightarrow> (let (s, w) = plan_tiles l (resolve s2 w) (s3, w) in Some (Some (scCur s, slItems (scNeed s)), s, w)))"
    unfolding frame_planned_def prod.case s2_def[symmetric] Let_def s3_def[symmetric] by blast
  show ?thesis
  proof (cases "scLayer s3")
    case None
    then have "s' = s3" using fp eq by (auto split: if_splits)
    then show ?thesis using assms(2) None by simp
  next
    case (Some k)
    obtain s4 w4 where pt: "plan_tiles k (resolve s2 w) (s3, w) = (s4, w4)" by fastforce
    then have fin: "s' = s4" "w' = w4" "plan = scCur s4" "needed = slItems (scNeed s4)"
      using fp eq Some by (auto split: if_splits)
    note P = plan_tiles_plans[OF Some s3(1-3) pt]
    have k: "k = l" and vp: "fpViewport plan = resolve s2 w"
      using P(4) assms(2) Some s3(5) fin by (auto simp: same_inputs_def)
    have "scLayer s2 = Some l" "scLayer s' = Some l" using s3(4) Some k assms(2) by simp_all
    moreover have "scScroll s' = scScroll s2" "scSize s' = scSize s2"
      using P(4) s3(6,7) fin(1) by (simp_all add: same_inputs_def)
    ultimately have "resolve s' w' = resolve s2 w" using P(5) k fin(2) by (simp add: resolve_def)
    then show ?thesis using P fin k vp by simp
  qed
qed

text \<open>A first frame over the demonstration layer.\<close>

theorem begin_frame_plans_witness:
  "\<exists>s plan needed s' w'. begin_frame zero_event (s, demo_world) = Some (Some (plan, needed), s', w') \<and> scLayer s' = Some 0
     \<and> needed = planned (wHeap w' 0) (fpViewport plan) (scDir s') (ring_rows_for s' w' (scDir s'))"
proof -
  define s where "s = set_plan (zero_plan\<lparr>fpLayers := [Some 0]\<rparr>) (zero_sched\<lparr>scLayer := Some 0\<rparr>)"
  define s1 where "s1 = frame_inputs zero_event s"
  have s1: "slItems (scVis s1) = []" "slItems (scNeed s1) = []" "scReused s1 = 0" "scLayer s1 = Some 0" "scSlot s1 = scSlot s"
    by (simp_all add: s1_def frame_inputs_def Let_def s_def set_plan_def zero_event_def fold_scroll_def size_empty_def)
  obtain slot where t: "slot_take (scSlot s1) = ((zero_plan\<lparr>fpLayers := [Some 0]\<rparr>, True), slot)"
    unfolding s1(5) by (simp add: s_def set_plan_def slot_publish_def slot_take_def Let_def)
  define s2 where "s2 = s1\<lparr>scSlot := slot\<rparr>"
  define s3 where "s3 = s2\<lparr>scCur := \<lparr>fpSerial = 0, fpViewport = resolve s2 demo_world, fpScale = scScale s2, fpLayers = [Some 0],
    fpBackground = 0\<rparr>\<rparr>"
  obtain s' w' where pt: "plan_tiles 0 (resolve s2 demo_world) (s3, demo_world) = (s', w')" by fastforce
  have s2: "bind_layer (zero_plan\<lparr>fpLayers := [Some 0]\<rparr>) s2 = s2" using s1 by (simp add: bind_layer_def s2_def)
  have s3: "scLayer s3 = Some 0" "slItems (scVis s3) = []" "slItems (scNeed s3) = []" "scReused s3 = 0"
    using s1 by (simp_all add: s3_def s2_def)
  have "frame_planned (zero_plan\<lparr>fpLayers := [Some 0]\<rparr>) (s2, demo_world) = Some (Some (scCur s', slItems (scNeed s')), s', w')"
    unfolding frame_planned_def prod.case s2 Let_def
    using pt s3(1) by (simp add: s3_def[symmetric] zero_plan_def[THEN arg_cong, of fpSerial] zero_plan_def[THEN arg_cong, of fpBackground])
  then have "begin_frame zero_event (s, demo_world) = Some (Some (scCur s', slItems (scNeed s')), s', w')"
    unfolding begin_frame_def prod.case Let_def unfolding s1_def[symmetric] t by (simp add: s2_def)
  moreover have "scLayer s' = Some 0" using plan_tiles_plans(4)[OF s3 pt] s3(1) by (simp add: same_inputs_def)
  ultimately show ?thesis using begin_frame_plans[of zero_event s demo_world] by blast
qed

end
