(* ===== verification/Frame_Loop.thy ===== *)
theory Frame_Loop
  imports Frame_System
begin

text \<open>
  \<open>internal/surface/loop.go\<close>: the body of the UI thread. The loop knows its scheduler and
  its window only as interfaces, so each is a record of functions here; the platform's
  window stays a parameter, the scheduler is provided below by the model of
  \<open>internal/raster/scheduler.go\<close>. The four clock readings of a frame are given with its
  event. \<open>None\<close> is a panic.
\<close>

subsection \<open>The interfaces\<close>

record 's frame_source =
  fsBegin :: "event \<Rightarrow> 's \<Rightarrow> (frame_plan option \<times> tile_coord list \<times> 's) option"
  fsSubmit :: "tile_coord list \<Rightarrow> 's \<Rightarrow> (frame_work \<times> 's) option"
  fsCompose :: "buf option \<Rightarrow> composer \<Rightarrow> frame_plan \<Rightarrow> tile_coord list \<Rightarrow> 's \<Rightarrow> (rect list \<times> composer \<times> 's) option"
  fsHandles :: "event \<Rightarrow> 's \<Rightarrow> bool \<times> 's"
  fsAnimating :: "'s \<Rightarrow> bool"

record 'w window_sys =
  wnPresent :: "buf option \<Rightarrow> memory \<Rightarrow> rect list \<Rightarrow> 'w \<Rightarrow> string option \<times> 'w"
  wnSchedule :: "'w \<Rightarrow> 'w"

record clock =
  ckPlan :: int
  ckSubmit :: int
  ckComposed :: int
  ckPresented :: int

subsection \<open>The loop\<close>

record loop =
  lpComposer :: composer
  lpRec :: "recorder option"
  lpPending :: event
  lpFrames :: int
  lpPresents :: int
  lpIdle :: int
  lpRasterize :: int
  lpReused :: int
  lpRefused :: int
  lpLast :: frame_work
  lpLastPlan :: nat

record tally =
  taFrame :: bool
  taPresent :: bool
  taIdle :: bool
  taWork :: frame_work
  taPlan :: nat

record loop_stats =
  lsFrames :: int
  lsPresents :: int
  lsIdle :: int
  lsRasterize :: int
  lsReused :: int
  lsRefused :: int
  lsLast :: frame_work
  lsLastPlan :: nat

definition zero_work :: frame_work where
  "zero_work = \<lparr>fwNeeded = 0, fwSubmitted = 0, fwRefused = 0, fwAccepted = 0, fwReused = 0, fwPaintingBytes = 0\<rparr>"

definition new_loop :: "composer \<Rightarrow> recorder option \<Rightarrow> loop" where
  "new_loop c r = \<lparr>lpComposer = c, lpRec = r, lpPending = zero_event, lpFrames = 0, lpPresents = 0, lpIdle = 0,
     lpRasterize = 0, lpReused = 0, lpRefused = 0, lpLast = zero_work, lpLastPlan = 0\<rparr>"

definition loop_stats_of :: "loop \<Rightarrow> loop_stats" where
  "loop_stats_of l = \<lparr>lsFrames = lpFrames l, lsPresents = lpPresents l, lsIdle = lpIdle l, lsRasterize = lpRasterize l,
     lsReused = lpReused l, lsRefused = lpRefused l, lsLast = lpLast l, lsLastPlan = lpLastPlan l\<rparr>"

definition commit :: "tally \<Rightarrow> loop \<Rightarrow> loop" where
  "commit t l =
     (if \<not> taFrame t then l
      else let l = l\<lparr>lpFrames := lpFrames l + 1\<rparr>;
               l = (if taPresent t then l\<lparr>lpPresents := lpPresents l + 1\<rparr> else l);
               l = (if taIdle t then l\<lparr>lpIdle := lpIdle l + 1\<rparr> else l);
               l = l\<lparr>lpRasterize := lpRasterize l + fwAccepted (taWork t), lpReused := lpReused l + fwReused (taWork t),
                     lpRefused := lpRefused l + fwRefused (taWork t), lpLast := taWork t\<rparr>
           in if taPlan t \<noteq> 0 then l\<lparr>lpLastPlan := taPlan t\<rparr> else l)"

definition record_frame :: "frame_mark \<Rightarrow> loop \<Rightarrow> loop option" where
  "record_frame m l =
     (case lpRec l of
        None \<Rightarrow> Some l
      | Some r \<Rightarrow> map_option (\<lambda>r. l\<lparr>lpRec := Some r\<rparr>) (record_mark m r))"

text \<open>The error of a frame: its number and what the platform said.\<close>

definition draw :: "'s frame_source \<Rightarrow> 'w window_sys \<Rightarrow> clock \<Rightarrow> event \<Rightarrow> loop \<times> 's \<times> 'w
    \<Rightarrow> ((int \<times> string) option \<times> loop \<times> 's \<times> 'w) option" where
  "draw src win k ev st =
     (case st of (l, s, w) \<Rightarrow>
       let m = zero_mark\<lparr>fmVsyncAt := evAt ev\<rparr>;
           t = \<lparr>taFrame = True, taPresent = False, taIdle = False, taWork = zero_work, taPlan = 0\<rparr>
       in case fsBegin src ev s of
            None \<Rightarrow> None
          | Some (plan, needed, s) \<Rightarrow>
             (let m = m\<lparr>fmPlanAt := ckPlan k\<rparr>;
                  m = (case plan of None \<Rightarrow> m | Some p \<Rightarrow> m\<lparr>fmSerial := fpSerial p\<rparr>);
                  t = (case plan of None \<Rightarrow> t | Some p \<Rightarrow> t\<lparr>taPlan := fpSerial p\<rparr>);
                  l = (case plan of None \<Rightarrow> l
                       | Some p \<Rightarrow> l\<lparr>lpComposer := snd (composer_resize (vSize (fpViewport p)) (lpComposer l))\<rparr>)
              in case fsSubmit src needed s of
                   None \<Rightarrow> None
                 | Some (fw, s) \<Rightarrow>
                    (let m = m\<lparr>fmSubmitAt := ckSubmit k\<rparr>; t = t\<lparr>taWork := fw\<rparr>
                     in case plan of
                          None \<Rightarrow> map_option (\<lambda>l. (None, commit (t\<lparr>taIdle := True\<rparr>) l, s, w)) (record_frame m l)
                        | Some p \<Rightarrow>
                           (case fsCompose src (cpBacking (lpComposer l)) (lpComposer l) p needed s of
                              None \<Rightarrow> None
                            | Some (damage, c, s) \<Rightarrow>
                               (let m = m\<lparr>fmComposedAt := ckComposed k\<rparr>; l = l\<lparr>lpComposer := c\<rparr>;
                                    (err, w) = wnPresent win (cpBacking c) (cpMem c) damage w
                                in case err of
                                     Some e \<Rightarrow> Some (Some (lpFrames l + 1, e), commit t l, s, w)
                                   | None \<Rightarrow>
                                      (let t = t\<lparr>taPresent := True\<rparr>;
                                           m = m\<lparr>fmPresentedAt := ckPresented k, fmTilesRasterized := i32 (fwAccepted fw),
                                                 fmTilesReused := i32 (fwReused fw)\<rparr>;
                                           w = (if fsAnimating src s then wnSchedule win w else w)
                                       in map_option (\<lambda>l. (None, commit t l, s, w)) (record_frame m l)))))))"

subsection \<open>Run\<close>

datatype loop_input = Cancelled | Closed_Events | Arrived event clock

datatype loop_end = Waiting | Returned "(int \<times> string) option"

fun run_loop :: "'s frame_source \<Rightarrow> 'w window_sys \<Rightarrow> loop_input list \<Rightarrow> loop \<times> 's \<times> 'w
    \<Rightarrow> (loop_end \<times> loop \<times> 's \<times> 'w) option" where
  "run_loop src win [] st = Some (Waiting, st)"
| "run_loop src win (Cancelled # ins) st = Some (Returned None, st)"
| "run_loop src win (Closed_Events # ins) st = Some (Returned None, st)"
| "run_loop src win (Arrived ev k # ins) (l, s, w) =
     (if evKind ev \<noteq> EvVsync
      then (case fsHandles src ev s of
              (True, s) \<Rightarrow> run_loop src win ins (l, s, w)
            | (False, s) \<Rightarrow> run_loop src win ins (l\<lparr>lpPending := merge_event (lpPending l) ev\<rparr>, s, w))
      else case draw src win k (merge_event (lpPending l) ev) (l, s, w) of
             None \<Rightarrow> None
           | Some (Some e, st) \<Rightarrow> Some (Returned (Some e), st)
           | Some (None, l, s, w) \<Rightarrow> run_loop src win ins (l\<lparr>lpPending := zero_event\<rparr>, s, w))"

subsection \<open>One frame for each vsync\<close>

lemma commit_fields [simp]:
  "lpComposer (commit t l) = lpComposer l" "lpRec (commit t l) = lpRec l" "lpPending (commit t l) = lpPending l"
  "lpFrames (commit t l) = lpFrames l + (if taFrame t then 1 else 0)"
  "lpPresents (commit t l) = lpPresents l + (if taFrame t \<and> taPresent t then 1 else 0)"
  "lpIdle (commit t l) = lpIdle l + (if taFrame t \<and> taIdle t then 1 else 0)"
  by (simp_all add: commit_def Let_def)

lemma record_frame_fields:
  assumes "record_frame m l = Some l'"
  shows "lpPending l' = lpPending l" "lpFrames l' = lpFrames l" "lpPresents l' = lpPresents l" "lpIdle l' = lpIdle l"
  using assms by (auto simp: record_frame_def split: option.splits)

definition vsyncs :: "loop_input list \<Rightarrow> nat" where
  "vsyncs ins = length (filter (\<lambda>i. case i of Arrived ev k \<Rightarrow> evKind ev = EvVsync | _ \<Rightarrow> False) ins)"






definition demo_clock :: clock where
  "demo_clock = \<lparr>ckPlan = 1, ckSubmit = 2, ckComposed = 3, ckPresented = 4\<rparr>"

definition demo_composer :: composer where
  "demo_composer = composer_from_backing None (\<lambda>_. []) (new_bitmap_pool (Sz 1 1) 0)"


subsection \<open>What the loop asks of its scheduler\<close>

text \<open>
  A frame source keeps an invariant of its own state through every call of the loop. The
  loop keeps it too, draws at most one frame for each vsync, and every frame it draws is
  either presented or idle, except a last one the platform refused.
\<close>

locale frame_source_contract =
  fixes src :: "'s frame_source" and ok :: "'s \<Rightarrow> bool"
  assumes begin_law: "ok s \<Longrightarrow> fsBegin src ev s = Some (p, n, t) \<Longrightarrow> ok t"
    and submit_law: "ok s \<Longrightarrow> \<exists>fw t. fsSubmit src n s = Some (fw, t) \<and> ok t"
    and compose_law: "ok s \<Longrightarrow> fsCompose src b c pl n s = Some (d, c', t) \<Longrightarrow> ok t"
    and handles_law: "ok s \<Longrightarrow> ok (snd (fsHandles src ev s))"
begin

lemma draw_ok:
  assumes "ok s" "draw src win k ev (l, s, w) = Some (e, l', s', w')"
  shows "ok s' \<and> lpFrames l' = lpFrames l + 1
    \<and> lpPresents l' + lpIdle l' = lpPresents l + lpIdle l + (if e = None then 1 else 0)"
proof -
  obtain p n s1 where b: "fsBegin src ev s = Some (p, n, s1)" using assms(2) by (auto simp: draw_def Let_def split: option.splits)
  note s1 = begin_law[OF assms(1) b]
  obtain fw s2 where s: "fsSubmit src n s1 = Some (fw, s2)" "ok s2" using submit_law[OF s1] by blast
  show ?thesis
  proof (cases p)
    case None
    then show ?thesis using assms(2) b s record_frame_fields by (fastforce simp: draw_def Let_def)
  next
    case (Some pl)
    let ?c = "snd (composer_resize (vSize (fpViewport pl)) (lpComposer l))"
    obtain d c s3 where c: "fsCompose src (cpBacking ?c) ?c pl n s2 = Some (d, c, s3)"
      using assms(2) b s Some by (auto simp: draw_def Let_def split: option.splits)
    note s3 = compose_law[OF s(2) c]
    obtain err w1 where pr: "wnPresent win (cpBacking c) (cpMem c) d w = (err, w1)" by fastforce
    show ?thesis
    proof (cases err)
      case None
      then show ?thesis using assms(2) b s Some c s3 pr record_frame_fields
        by (auto simp: draw_def Let_def split: if_splits)
    next
      case (Some e)
      then show ?thesis using assms(2) b s \<open>p = Some pl\<close> c s3 pr by (auto simp: draw_def Let_def)
    qed
  qed
qed

lemma run_ok:
  "ok s \<Longrightarrow> run_loop src win ins (l, s, w) = Some (r, l', s', w') \<Longrightarrow>
   ok s' \<and> lpFrames l \<le> lpFrames l' \<and> lpFrames l' \<le> lpFrames l + int (vsyncs ins)
   \<and> (r = Waiting \<longrightarrow> lpFrames l' = lpFrames l + int (vsyncs ins))
   \<and> lpPresents l' + lpIdle l' + (if r \<in> {Waiting, Returned None} then 0 else 1)
     = lpPresents l + lpIdle l + (lpFrames l' - lpFrames l)"
proof (induction ins arbitrary: l s w)
  case (Cons i ins)
  show ?case
  proof (cases i)
    case (Arrived ev k)
    show ?thesis
    proof (cases "evKind ev = EvVsync")
      case True
      obtain e l1 s1 w1 where d: "draw src win k (merge_event (lpPending l) ev) (l, s, w) = Some (e, l1, s1, w1)"
        using Cons.prems(2) Arrived True by (auto split: option.splits)
      note D = draw_ok[OF Cons.prems(1) d]
      show ?thesis
      proof (cases e)
        case None
        then have "run_loop src win ins (l1\<lparr>lpPending := zero_event\<rparr>, s1, w1) = Some (r, l', s', w')"
          using Cons.prems(2) Arrived True d by simp
        from Cons.IH[OF _ this] D None show ?thesis by (auto simp: Arrived True vsyncs_def)
      next
        case (Some x)
        then show ?thesis using Cons.prems(2) Arrived True d D by (auto simp: vsyncs_def)
      qed
    next
      case False
      obtain h s1 where h: "fsHandles src ev s = (h, s1)" by fastforce
      have s1: "ok s1" using handles_law[OF Cons.prems(1), of ev] h by simp
      have "run_loop src win ins ((if h then l else l\<lparr>lpPending := merge_event (lpPending l) ev\<rparr>), s1, w) = Some (r, l', s', w')"
        using Cons.prems(2) Arrived False h by (cases h) auto
      from Cons.IH[OF s1 this] show ?thesis by (cases h) (auto simp: Arrived False vsyncs_def)
    qed
  qed (use Cons.prems in \<open>auto simp: vsyncs_def\<close>)
qed (auto simp: vsyncs_def)

end

text \<open>The raster scheduler as the loop's source; it implements neither optional interface.\<close>

definition scheduler_source :: "(sched \<times> world) frame_source" where
  "scheduler_source = \<lparr>
     fsBegin = (\<lambda>ev sw. map_option (\<lambda>(r, sw). (map_option fst r, (case r of None \<Rightarrow> [] | Some pn \<Rightarrow> snd pn), sw)) (begin_frame ev sw)),
     fsSubmit = sched_submit,
     fsCompose = (\<lambda>b c p n sw. Option.bind (compose_into b (Some c) (Some p) sw)
       (\<lambda>(out, c', sw). map_option (\<lambda>c'. (out, c', sw)) c')),
     fsHandles = (\<lambda>ev sw. (False, sw)), fsAnimating = (\<lambda>sw. False)\<rparr>"

interpretation fsc: frame_source_contract scheduler_source frame_reach
proof unfold_locales
  fix sw ev p n t b c pl d c'
  assume r: "frame_reach sw"
  obtain s w where sw: "sw = (s, w)" by (cases sw)
  note next_state = frame_reach.step[OF r[unfolded sw]]
  show "fsBegin scheduler_source ev sw = Some (p, n, t) \<Longrightarrow> frame_reach t"
    using next_state[OF frame_step.begin_frame[of ev s w]] by (cases t) (auto simp: scheduler_source_def sw)
  obtain q where "wPool w = Some q" "frame_inv q w" using frame_reach_ok[OF r] by (auto simp: system_ok_def sw)
  from sched_submit_inv[OF this, of n s] obtain fw s' v where sub: "sched_submit n (s, w) = Some (fw, s', v)" by blast
  then have "frame_reach (s', v)" using next_state[OF frame_step.submit] by blast
  with sub show "\<exists>fw t. fsSubmit scheduler_source n sw = Some (fw, t) \<and> frame_reach t" by (auto simp: scheduler_source_def sw)
  show "fsCompose scheduler_source b c pl n sw = Some (d, c', t) \<Longrightarrow> frame_reach t"
    using next_state[OF frame_step.compose[of b "Some c" "Some pl" s w]]
    by (cases t) (auto simp: scheduler_source_def sw bind_eq_Some_conv)
  show "frame_reach (snd (fsHandles scheduler_source ev sw))" using r by (simp add: scheduler_source_def)
qed

text \<open>
  The UI thread as a whole: \<open>Run\<close> over the raster scheduler, whatever arrives and
  whatever the window does, keeps the scheduler, its layers and the worker pool in a
  reachable state (so orders match jobs and memory stays on its plateau), draws one frame
  for each vsync until it returns, and each frame drawn was presented or idle, save the
  last one when \<open>Run\<close> returns the error of a refused present.
\<close>

theorem run_keeps_system:
  assumes "frame_reach (s, w)" "run_loop scheduler_source win ins (l, (s, w), x) = Some (r, l', sw', x')"
  shows "frame_reach sw' \<and> lpFrames l \<le> lpFrames l' \<and> lpFrames l' \<le> lpFrames l + int (vsyncs ins)
   \<and> (r = Waiting \<longrightarrow> lpFrames l' = lpFrames l + int (vsyncs ins))
   \<and> lpPresents l' + lpIdle l' + (if r \<in> {Waiting, Returned None} then 0 else 1)
     = lpPresents l + lpIdle l + (lpFrames l' - lpFrames l)"
  by (rule fsc.run_ok[OF assms])

theorem run_keeps_system_witness:
  "\<exists>s l' s' v. frame_reach (s, demo_world)
     \<and> run_loop scheduler_source \<lparr>wnPresent = (\<lambda>b m d w. (None, w)), wnSchedule = (\<lambda>w. w)\<rparr> [Arrived zero_event demo_clock]
         (new_loop demo_composer None, (s, demo_world), ()) = Some (Waiting, l', (s', v), ())
     \<and> frame_reach (s', v) \<and> lpFrames l' = 1 \<and> lpIdle l' + lpPresents l' = 1"
proof -
  let ?win = "\<lparr>wnPresent = (\<lambda>b m d w. (None, w)), wnSchedule = (\<lambda>w. w)\<rparr>"
  obtain s where s: "frame_reach (s, demo_world)" "scLayer s = Some 0" "scSlot s = zero_slot" by (rule demo_start)
  obtain t where t: "begin_frame zero_event (s, demo_world) = Some (None, t, demo_world)"
    using s(3) by (simp add: begin_frame_def frame_inputs_def zero_event_def fold_scroll_def size_empty_def slot_take_def zero_slot_def Let_def)
  have "frame_reach (t, demo_world)" using frame_reach.step[OF s(1) frame_step.begin_frame[OF t]] .
  then obtain fw s' v where "sched_submit [] (t, demo_world) = Some (fw, s', v)"
    using fsc.submit_law[of "(t, demo_world)" "[]"] by (auto simp: scheduler_source_def)
  then have "\<exists>l'. run_loop scheduler_source ?win [Arrived zero_event demo_clock] (new_loop demo_composer None, (s, demo_world), ())
      = Some (Waiting, l', (s', v), ())"
    using t by (simp add: draw_def scheduler_source_def record_frame_def new_loop_def Let_def merge_event_def zero_event_def)
  then obtain l' where r: "run_loop scheduler_source ?win [Arrived zero_event demo_clock] (new_loop demo_composer None, (s, demo_world), ())
      = Some (Waiting, l', (s', v), ())" by blast
  have "vsyncs [Arrived zero_event demo_clock] = 1" by (simp add: vsyncs_def zero_event_def)
  with run_keeps_system[OF s(1) r] s(1) r show ?thesis by (auto simp: new_loop_def)
qed

end
