(* ===== verification/Glyph_Atlas.thy ===== *)
theory Glyph_Atlas
  imports Geometry
begin

text \<open>
  \<open>internal/raster/atlas.go\<close>: the cache of rendered glyphs that all workers share, with a budget in
  bytes and the least recently used dropped first. List elements are pointers, so they are
  addresses into a table of values, and the index maps a key to an element. \<open>Get\<close> holds the
  lock twice and renders in between; what it calls on \<open>Fonts\<close> is the parameter \<open>render\<close>. Workers
  and the other calls are a transition system whose steps are the locked sections.
\<close>

subsection \<open>Glyphs and the atlas\<close>

record font_slot =
  fsFamily :: nat
  fsBold :: bool
  fsItalic :: bool
  fsLight :: bool
  fsCustom :: nat

record glyph_key =
  gkRune :: int
  gkSize :: int
  gkSlot :: font_slot

record glyph =
  gyMask :: "int list option"
  gyBounds :: rect
  gyAdvance :: int
  gyOk :: bool
  gyMissing :: bool

definition glyph_bytes :: "glyph \<Rightarrow> int" where
  "glyph_bytes g = (case gyMask g of None \<Rightarrow> 0 | Some pix \<Rightarrow> int (length pix))"

record atlas_stats =
  asEntries :: int
  asBytes :: int
  asBudget :: int
  asEvictions :: int
  asHits :: int
  asMisses :: int

record atlas =
  atBudget :: int
  atUsed :: int
  atOrder :: "nat list"
  atVal :: "nat \<Rightarrow> glyph_key \<times> glyph"
  atIndex :: "(glyph_key \<times> nat) list"
  atFresh :: nat
  atStats :: atlas_stats

definition zero_glyph :: glyph where
  "zero_glyph = \<lparr>gyMask = None, gyBounds = zero_rect, gyAdvance = 0, gyOk = False, gyMissing = False\<rparr>"

definition new_glyph_atlas :: "int \<Rightarrow> atlas" where
  "new_glyph_atlas budget = \<lparr>atBudget = budget, atUsed = 0, atOrder = [],
     atVal = (\<lambda>_. (\<lparr>gkRune = 0, gkSize = 0, gkSlot = \<lparr>fsFamily = 0, fsBold = False, fsItalic = False, fsLight = False, fsCustom = 0\<rparr>\<rparr>, zero_glyph)),
     atIndex = [], atFresh = 0,
     atStats = \<lparr>asEntries = 0, asBytes = 0, asBudget = budget, asEvictions = 0, asHits = 0, asMisses = 0\<rparr>\<rparr>"

subsection \<open>Operations\<close>

definition atlas_refresh :: "atlas \<Rightarrow> atlas" where
  "atlas_refresh a = a\<lparr>atStats := (atStats a)\<lparr>asEntries := int (length (atIndex a)), asBytes := atUsed a\<rparr>\<rparr>"

definition move_to_front :: "nat \<Rightarrow> atlas \<Rightarrow> atlas" where
  "move_to_front el a = (if el \<in> set (atOrder a) then a\<lparr>atOrder := el # remove1 el (atOrder a)\<rparr> else a)"

definition atlas_hit :: "nat \<Rightarrow> atlas \<Rightarrow> glyph \<times> atlas" where
  "atlas_hit el a = (let a = move_to_front el a in (snd (atVal a el), a\<lparr>atStats := (atStats a)\<lparr>asHits := asHits (atStats a) + 1\<rparr>\<rparr>))"

text \<open>The first locked section of \<open>Get\<close>: the glyph, or nothing.\<close>

definition get_cached :: "glyph_key \<Rightarrow> atlas \<Rightarrow> glyph option \<times> atlas" where
  "get_cached k a = (case map_of (atIndex a) k of None \<Rightarrow> (None, a) | Some el \<Rightarrow> (let (g, a) = atlas_hit el a in (Some g, a)))"

text \<open>Dropping from the back, up to the element just inserted.\<close>

function drop_oldest :: "nat \<Rightarrow> atlas \<Rightarrow> atlas" where
  "drop_oldest el a =
     (if atUsed a \<le> atBudget a \<or> atOrder a = [] \<or> last (atOrder a) = el then a
      else let (k, g) = atVal a (last (atOrder a)) in
        drop_oldest el (a\<lparr>atUsed := i64 (atUsed a - glyph_bytes g), atIndex := filter (\<lambda>(k', _). k' \<noteq> k) (atIndex a),
          atOrder := butlast (atOrder a), atStats := (atStats a)\<lparr>asEvictions := asEvictions (atStats a) + 1\<rparr>\<rparr>))"
  by pat_completeness auto
termination
  by (relation "measure (\<lambda>(el, a). length (atOrder a))") auto

declare drop_oldest.simps [simp del]

definition atlas_insert :: "glyph_key \<Rightarrow> glyph \<Rightarrow> atlas \<Rightarrow> atlas" where
  "atlas_insert k g a =
     (let el = atFresh a;
          a = a\<lparr>atOrder := el # atOrder a, atVal := (atVal a)(el := (k, g)), atFresh := el + 1,
                atIndex := (k, el) # filter (\<lambda>(k', _). k' \<noteq> k) (atIndex a), atUsed := i64 (atUsed a + glyph_bytes g)\<rparr>
      in atlas_refresh (drop_oldest el a))"

text \<open>The second locked section, with the glyph that was rendered meanwhile.\<close>

definition get_rendered :: "glyph_key \<Rightarrow> glyph \<Rightarrow> atlas \<Rightarrow> glyph \<times> atlas" where
  "get_rendered k g a =
     (case map_of (atIndex a) k of
        Some el \<Rightarrow> atlas_hit el a
      | None \<Rightarrow>
          (let a = a\<lparr>atStats := (atStats a)\<lparr>asMisses := asMisses (atStats a) + 1\<rparr>\<rparr> in
           if \<not> gyOk g \<or> gyMask g = None then (g, a)
           else if atBudget a \<le> 0 then (g, a)
           else (g, atlas_insert k g a)))"

definition atlas_reset :: "atlas \<Rightarrow> atlas" where
  "atlas_reset a = a\<lparr>atOrder := [], atIndex := [], atUsed := 0, atStats := (atStats a)\<lparr>asEntries := 0, asBytes := 0\<rparr>\<rparr>"

definition atlas_report :: "atlas \<Rightarrow> atlas_stats \<times> atlas" where
  "atlas_report a = (atStats (atlas_refresh a), atlas_refresh a)"

text \<open>\<open>GlyphBound\<close> of what \<open>Get\<close> answered.\<close>

definition glyph_bound :: "glyph \<Rightarrow> rect \<times> bool" where
  "glyph_bound g = (if \<not> gyOk g \<or> gyMask g = None then (zero_rect, False) else (gyBounds g, True))"

subsection \<open>Callers\<close>

datatype getter = Asking glyph_key | Rendering glyph_key | Rendered glyph_key glyph | Answered glyph_key glyph

inductive atlas_step :: "(glyph_key \<Rightarrow> glyph) \<Rightarrow> atlas \<times> getter list \<Rightarrow> atlas \<times> getter list \<Rightarrow> bool" for render where
  ask: "atlas_step render (a, ws) (a, ws @ [Asking k])"
| found: "w < length ws \<Longrightarrow> ws ! w = Asking k \<Longrightarrow> get_cached k a = (Some g, a') \<Longrightarrow> atlas_step render (a, ws) (a', ws[w := Answered k g])"
| missed: "w < length ws \<Longrightarrow> ws ! w = Asking k \<Longrightarrow> get_cached k a = (None, a') \<Longrightarrow> atlas_step render (a, ws) (a', ws[w := Rendering k])"
| draw: "w < length ws \<Longrightarrow> ws ! w = Rendering k \<Longrightarrow> atlas_step render (a, ws) (a, ws[w := Rendered k (render k)])"
| store: "w < length ws \<Longrightarrow> ws ! w = Rendered k g \<Longrightarrow> get_rendered k g a = (g', a') \<Longrightarrow> atlas_step render (a, ws) (a', ws[w := Answered k g'])"
| reset: "atlas_step render (a, ws) (atlas_reset a, ws)"
| report: "atlas_step render (a, ws) (snd (atlas_report a), ws)"

inductive_cases atlas_step_elim: "atlas_step render (a, ws) s"

lemmas atlas_step_cases = atlas_step_elim [consumes 1, case_names ask found missed draw store reset report]

inductive atlas_reach :: "(glyph_key \<Rightarrow> glyph) \<Rightarrow> int \<Rightarrow> atlas \<times> getter list \<Rightarrow> bool" for render budget where
  start: "atlas_reach render budget (new_glyph_atlas budget, [])"
| step: "atlas_reach render budget s \<Longrightarrow> atlas_step render s s' \<Longrightarrow> atlas_reach render budget s'"

subsection \<open>The books\<close>

definition held_glyphs :: "atlas \<Rightarrow> (glyph_key \<times> glyph) list" where
  "held_glyphs a = map (atVal a) (atOrder a)"

definition glyphs_size :: "(glyph_key \<times> glyph) list \<Rightarrow> int" where
  "glyphs_size xs = (\<Sum>x\<leftarrow>xs. glyph_bytes (snd x))"

definition atlas_ok :: "(glyph_key \<Rightarrow> glyph) \<Rightarrow> atlas \<Rightarrow> bool" where
  "atlas_ok render a \<longleftrightarrow> distinct (map fst (held_glyphs a)) \<and> (\<forall>el\<in>set (atOrder a). el < atFresh a)
     \<and> set (atIndex a) = (\<lambda>el. (fst (atVal a el), el)) ` set (atOrder a) \<and> distinct (map fst (atIndex a))
     \<and> (\<forall>x\<in>set (held_glyphs a). snd x = render (fst x)) \<and> atUsed a = glyphs_size (held_glyphs a)"

definition within_budget :: "atlas \<Rightarrow> bool" where
  "within_budget a \<longleftrightarrow> atUsed a \<le> atBudget a \<or> length (atOrder a) \<le> 1"

text \<open>The longest front of a list that fits into \<open>room\<close>.\<close>

fun fitting :: "int \<Rightarrow> (glyph_key \<times> glyph) list \<Rightarrow> (glyph_key \<times> glyph) list" where
  "fitting room [] = []"
| "fitting room (x # xs) = (if glyph_bytes (snd x) \<le> room then x # fitting (room - glyph_bytes (snd x)) xs else [])"

lemma glyph_bytes_nonneg: "0 \<le> glyph_bytes g"
  by (simp add: glyph_bytes_def split: option.split)

lemma glyphs_size_simps [simp]: "glyphs_size [] = 0" "glyphs_size (x # xs) = glyph_bytes (snd x) + glyphs_size xs"
  "glyphs_size (xs @ ys) = glyphs_size xs + glyphs_size ys"
  by (simp_all add: glyphs_size_def)

lemma glyphs_size_nonneg: "0 \<le> glyphs_size xs"
  by (induction xs) (simp_all add: glyph_bytes_nonneg)

lemma fitting_all: "glyphs_size xs \<le> room \<Longrightarrow> fitting room xs = xs"
proof (induction xs arbitrary: room)
  case (Cons x xs)
  then show ?case using glyphs_size_nonneg[of xs] by simp
qed simp

lemma fitting_butlast: "room < glyphs_size (xs @ [x]) \<Longrightarrow> fitting room (xs @ [x]) = fitting room xs"
  by (induction xs arbitrary: room) auto

lemma fitting_size: "0 \<le> room \<Longrightarrow> glyphs_size (fitting room xs) \<le> room"
proof (induction xs arbitrary: room)
  case (Cons x xs)
  have "0 \<le> room - glyph_bytes (snd x) \<Longrightarrow> glyphs_size (fitting (room - glyph_bytes (snd x)) xs) \<le> room - glyph_bytes (snd x)"
    by (rule Cons.IH)
  then show ?case using Cons.prems by auto
qed simp

lemma map_remove1_inj: "inj_on f (insert x (set xs)) \<Longrightarrow> map f (remove1 x xs) = remove1 (f x) (map f xs)"
  by (induction xs) (auto simp: inj_on_def)

lemma atlas_okD:
  assumes "atlas_ok render a"
  shows "distinct (atOrder a)" "map_of (atIndex a) k = Some el \<Longrightarrow> el \<in> set (atOrder a) \<and> atVal a el = (k, render k)"
    "map_of (atIndex a) k = None \<Longrightarrow> k \<notin> fst ` set (held_glyphs a)" "length (atIndex a) = length (atOrder a)" "0 \<le> atUsed a"
proof -
  have i: "set (atIndex a) = (\<lambda>el. (fst (atVal a el), el)) ` set (atOrder a)" using assms by (simp add: atlas_ok_def)
  show d: "distinct (atOrder a)" using assms unfolding atlas_ok_def held_glyphs_def by (metis distinct_map)
  show "el \<in> set (atOrder a) \<and> atVal a el = (k, render k)" if "map_of (atIndex a) k = Some el"
  proof -
    have "(k, el) \<in> set (atIndex a)" using that by (rule map_of_SomeD)
    then have "el \<in> set (atOrder a)" "k = fst (atVal a el)" unfolding i image_iff by (blast, blast)
    moreover have "snd (atVal a el) = render (fst (atVal a el))"
      using assms \<open>el \<in> set (atOrder a)\<close> unfolding atlas_ok_def held_glyphs_def set_map by blast
    ultimately show ?thesis by (cases "atVal a el") simp
  qed
  have keys: "fst ` set (atIndex a) = fst ` set (held_glyphs a)" unfolding i held_glyphs_def set_map image_image by simp
  show "k \<notin> fst ` set (held_glyphs a)" if "map_of (atIndex a) k = None"
    using that unfolding keys[symmetric] map_of_eq_None_iff .
  have "distinct (atIndex a)" using assms by (simp add: atlas_ok_def distinct_map)
  then have "length (atIndex a) = card (set (atIndex a))" by (simp add: distinct_card)
  also have "\<dots> = card (set (atOrder a))" unfolding i by (rule card_image) (auto simp: inj_on_def)
  also have "\<dots> = length (atOrder a)" using d by (rule distinct_card)
  finally show "length (atIndex a) = length (atOrder a)" .
  show "0 \<le> atUsed a" using assms glyphs_size_nonneg by (simp add: atlas_ok_def)
qed

lemma drop_last_ok:
  assumes "atlas_ok render a" "atOrder a = os @ [b]" "atVal a b = (k, g)" "atUsed a < 2 ^ 63"
  defines "a' \<equiv> a\<lparr>atUsed := i64 (atUsed a - glyph_bytes g), atIndex := filter (\<lambda>(k', _). k' \<noteq> k) (atIndex a),
          atOrder := butlast (atOrder a), atStats := (atStats a)\<lparr>asEvictions := asEvictions (atStats a) + 1\<rparr>\<rparr>"
  shows "atlas_ok render a'" "held_glyphs a = held_glyphs a' @ [(k, g)]" "atUsed a' \<le> atUsed a"
proof -
  have held: "held_glyphs a = map (atVal a) os @ [(k, g)]" "held_glyphs a' = map (atVal a) os"
    by (simp_all add: held_glyphs_def assms(2,3) a'_def)
  then show "held_glyphs a = held_glyphs a' @ [(k, g)]" by simp
  have used: "atUsed a = glyphs_size (map (atVal a) os) + glyph_bytes g" using assms(1) held by (simp add: atlas_ok_def)
  have u: "atUsed a' = glyphs_size (map (atVal a) os)"
  proof -
    have "in64 (glyphs_size (map (atVal a) os))"
      using glyphs_size_nonneg[of "map (atVal a) os"] glyph_bytes_nonneg[of g] used assms(4) by (simp add: in64_def)
    then show ?thesis by (simp add: a'_def used)
  qed
  then show "atUsed a' \<le> atUsed a" using used glyph_bytes_nonneg[of g] by simp
  have keys: "k \<notin> fst ` atVal a ` set os" using assms(1) held by (auto simp: atlas_ok_def)
  have "set (atIndex a') = (\<lambda>el. (fst (atVal a el), el)) ` set os"
  proof -
    have "set (atIndex a) = (\<lambda>el. (fst (atVal a el), el)) ` set (os @ [b])" using assms(1,2) by (simp add: atlas_ok_def)
    then show ?thesis using keys assms(3) by (auto simp: a'_def)
  qed
  moreover have "distinct (map fst (filter P (atIndex a)))" for P using assms(1) by (simp add: atlas_ok_def distinct_map_filter)
  ultimately show "atlas_ok render a'" using assms(1,2) held u by (auto simp: atlas_ok_def) (simp_all add: a'_def)
qed

lemma drop_oldest_ok:
  assumes "atlas_ok render a" "atOrder a = el # os" "atUsed a < 2 ^ 63"
  shows "atlas_ok render (drop_oldest el a) \<and> within_budget (drop_oldest el a) \<and> atBudget (drop_oldest el a) = atBudget a
    \<and> held_glyphs (drop_oldest el a) = atVal a el # fitting (atBudget a - glyph_bytes (snd (atVal a el))) (map (atVal a) os)
    \<and> asHits (atStats (drop_oldest el a)) = asHits (atStats a) \<and> asMisses (atStats (drop_oldest el a)) = asMisses (atStats a)"
  using assms
proof (induction os arbitrary: a rule: rev_induct)
  case Nil
  then have "drop_oldest el a = a" by (subst drop_oldest.simps) simp
  then show ?case using Nil by (simp add: held_glyphs_def within_budget_def)
next
  case (snoc b os)
  have used: "atUsed a = glyph_bytes (snd (atVal a el)) + glyphs_size (map (atVal a) os @ [atVal a b])"
    using snoc.prems(1,2) by (simp add: atlas_ok_def held_glyphs_def)
  show ?case
  proof (cases "atUsed a \<le> atBudget a")
    case True
    then have "drop_oldest el a = a" by (subst drop_oldest.simps) simp
    moreover have "fitting (atBudget a - glyph_bytes (snd (atVal a el))) (map (atVal a) os @ [atVal a b]) = map (atVal a) os @ [atVal a b]"
      using used True by (intro fitting_all) simp
    ultimately show ?thesis using snoc.prems True by (simp add: held_glyphs_def within_budget_def)
  next
    case False
    obtain k g where v: "atVal a b = (k, g)" by (cases "atVal a b")
    define a1 where "a1 = a\<lparr>atUsed := i64 (atUsed a - glyph_bytes g), atIndex := filter (\<lambda>(k', _). k' \<noteq> k) (atIndex a),
          atOrder := butlast (atOrder a), atStats := (atStats a)\<lparr>asEvictions := asEvictions (atStats a) + 1\<rparr>\<rparr>"
    have o: "atOrder a = (el # os) @ [b]" using snoc.prems(2) by simp
    note d = drop_last_ok[OF snoc.prems(1) o v snoc.prems(3), folded a1_def]
    have "b \<noteq> el" using atlas_okD(1)[OF snoc.prems(1)] o by auto
    then have "drop_oldest el a = drop_oldest el a1" using False o v by (subst drop_oldest.simps) (simp add: a1_def Let_def)
    moreover have a1: "atOrder a1 = el # os" "atVal a1 = atVal a" "atBudget a1 = atBudget a" "asHits (atStats a1) = asHits (atStats a)"
      "asMisses (atStats a1) = asMisses (atStats a)" using o by (simp_all add: a1_def)
    moreover have "atUsed a1 < 2 ^ 63" using d(3) snoc.prems(3) by simp
    moreover have "fitting (atBudget a - glyph_bytes (snd (atVal a el))) (map (atVal a) os @ [atVal a b])
        = fitting (atBudget a - glyph_bytes (snd (atVal a el))) (map (atVal a) os)"
      using used False by (intro fitting_butlast) simp
    ultimately show ?thesis using snoc.IH[of a1] d(1) by simp
  qed
qed

lemma refresh_keeps: "atlas_ok render (atlas_refresh a) = atlas_ok render a" "held_glyphs (atlas_refresh a) = held_glyphs a"
  "within_budget (atlas_refresh a) = within_budget a" "atBudget (atlas_refresh a) = atBudget a" "atUsed (atlas_refresh a) = atUsed a"
  "asHits (atStats (atlas_refresh a)) = asHits (atStats a)" "asMisses (atStats (atlas_refresh a)) = asMisses (atStats a)"
  by (simp_all add: atlas_refresh_def atlas_ok_def held_glyphs_def within_budget_def)

lemma atlas_insert_ok:
  assumes "atlas_ok render a" "map_of (atIndex a) k = None" "atUsed a + glyph_bytes (render k) < 2 ^ 63"
  shows "atlas_ok render (atlas_insert k (render k) a) \<and> within_budget (atlas_insert k (render k) a) \<and> atBudget (atlas_insert k (render k) a) = atBudget a
    \<and> held_glyphs (atlas_insert k (render k) a) = (k, render k) # fitting (atBudget a - glyph_bytes (render k)) (held_glyphs a)
    \<and> asHits (atStats (atlas_insert k (render k) a)) = asHits (atStats a) \<and> asMisses (atStats (atlas_insert k (render k) a)) = asMisses (atStats a)"
proof -
  define el where "el = atFresh a"
  define a1 where "a1 = a\<lparr>atOrder := el # atOrder a, atVal := (atVal a)(el := (k, render k)), atFresh := el + 1,
    atIndex := (k, el) # filter (\<lambda>(k', _). k' \<noteq> k) (atIndex a), atUsed := i64 (atUsed a + glyph_bytes (render k))\<rparr>"
  note d = atlas_okD[OF assms(1)]
  have el: "el \<notin> set (atOrder a)" using assms(1) by (auto simp: atlas_ok_def el_def)
  then have vals: "map (atVal a1) (atOrder a) = held_glyphs a" by (auto simp: a1_def held_glyphs_def)
  then have held: "held_glyphs a1 = (k, render k) # held_glyphs a" by (simp add: held_glyphs_def a1_def)
  have "in64 (atUsed a + glyph_bytes (render k))" using d(5) glyph_bytes_nonneg[of "render k"] assms(3) by (simp add: in64_def)
  then have used: "atUsed a1 = atUsed a + glyph_bytes (render k)" by (simp add: a1_def)
  have ix: "atIndex a1 = (k, el) # atIndex a"
    using assms(2) by (auto simp: a1_def map_of_eq_None_iff filter_id_conv image_iff)
  have "atlas_ok render a1"
  proof -
    have "set (atIndex a1) = (\<lambda>e. (fst (atVal a1 e), e)) ` set (atOrder a1)"
      using assms(1) el unfolding ix by (auto simp: a1_def atlas_ok_def image_iff)
    moreover have "distinct (map fst (atIndex a1))" using assms(1,2) by (auto simp: ix atlas_ok_def map_of_eq_None_iff)
    moreover have "distinct (map fst (held_glyphs a1))" using assms(1) d(3)[OF assms(2)] by (simp add: held atlas_ok_def)
    moreover have "\<forall>e\<in>set (atOrder a1). e < atFresh a1" using assms(1) by (auto simp: a1_def atlas_ok_def el_def less_Suc_eq)
    ultimately show ?thesis using assms(1) by (simp add: atlas_ok_def held used)
  qed
  moreover have "atOrder a1 = el # atOrder a" "atVal a1 el = (k, render k)" "atBudget a1 = atBudget a" "atStats a1 = atStats a" by (simp_all add: a1_def)
  moreover have "atlas_insert k (render k) a = atlas_refresh (drop_oldest el a1)" by (simp add: atlas_insert_def a1_def el_def Let_def)
  ultimately show ?thesis using drop_oldest_ok[of render a1 el "atOrder a"] used assms(3) vals by (simp add: refresh_keeps)
qed

lemma atlas_hit_ok:
  assumes "atlas_ok render a" "map_of (atIndex a) k = Some el"
  shows "fst (atlas_hit el a) = render k" "atlas_ok render (snd (atlas_hit el a))"
    "held_glyphs (snd (atlas_hit el a)) = (k, render k) # remove1 (k, render k) (held_glyphs a)"
    "atBudget (snd (atlas_hit el a)) = atBudget a" "atUsed (snd (atlas_hit el a)) = atUsed a" "length (atOrder (snd (atlas_hit el a))) = length (atOrder a)"
    "asHits (atStats (snd (atlas_hit el a))) = asHits (atStats a) + 1" "asMisses (atStats (snd (atlas_hit el a))) = asMisses (atStats a)"
proof -
  note d = atlas_okD[OF assms(1)]
  have el: "el \<in> set (atOrder a)" "atVal a el = (k, render k)" using d(2)[OF assms(2)] by blast+
  have o: "atOrder (snd (atlas_hit el a)) = el # remove1 el (atOrder a)" using el by (simp add: atlas_hit_def move_to_front_def)
  have m: "mset (el # remove1 el (atOrder a)) = mset (atOrder a)" using el(1) by simp
  have f: "atVal (snd (atlas_hit el a)) = atVal a" "atIndex (snd (atlas_hit el a)) = atIndex a" "atFresh (snd (atlas_hit el a)) = atFresh a"
    by (simp_all add: atlas_hit_def move_to_front_def)
  show "fst (atlas_hit el a) = render k" using el by (simp add: atlas_hit_def move_to_front_def)
  show u: "atUsed (snd (atlas_hit el a)) = atUsed a" "atBudget (snd (atlas_hit el a)) = atBudget a"
    "asHits (atStats (snd (atlas_hit el a))) = asHits (atStats a) + 1" "asMisses (atStats (snd (atlas_hit el a))) = asMisses (atStats a)"
    by (simp_all add: atlas_hit_def move_to_front_def)
  show "length (atOrder (snd (atlas_hit el a))) = length (atOrder a)" using o m by (metis size_mset)
  have hm: "mset (held_glyphs (snd (atlas_hit el a))) = mset (held_glyphs a)" using m by (simp add: held_glyphs_def o f flip: image_mset_add_mset)
  have "glyphs_size xs = sum_mset (image_mset (glyph_bytes \<circ> snd) (mset xs))" for xs
    by (simp add: glyphs_size_def sum_mset_sum_list[symmetric] comp_def)
  then have "glyphs_size (held_glyphs (snd (atlas_hit el a))) = glyphs_size (held_glyphs a)" using hm by simp
  moreover have "distinct (map fst (held_glyphs (snd (atlas_hit el a)))) = distinct (map fst (held_glyphs a))"
    using hm by (intro mset_eq_imp_distinct_iff) simp
  moreover have "set (held_glyphs (snd (atlas_hit el a))) = set (held_glyphs a)" using hm by (rule mset_eq_setD)
  moreover have "set (atOrder (snd (atlas_hit el a))) = set (atOrder a)" using m unfolding o by (rule mset_eq_setD)
  ultimately show "atlas_ok render (snd (atlas_hit el a))" using assms(1) by (simp add: atlas_ok_def f u)
  have "inj_on (atVal a) (set (atOrder a))" using assms(1) unfolding atlas_ok_def held_glyphs_def by (metis distinct_map)
  then show "held_glyphs (snd (atlas_hit el a)) = (k, render k) # remove1 (k, render k) (held_glyphs a)"
    using el map_remove1_inj[of "atVal a" el "atOrder a"] by (simp add: held_glyphs_def o f insert_absorb)
qed

subsection \<open>What callers get\<close>

definition is_answered :: "getter \<Rightarrow> bool" where
  "is_answered w = (case w of Answered k g \<Rightarrow> True | _ \<Rightarrow> False)"

definition honest :: "(glyph_key \<Rightarrow> glyph) \<Rightarrow> getter \<Rightarrow> bool" where
  "honest render w = (case w of Rendered k g \<Rightarrow> g = render k | Answered k g \<Rightarrow> g = render k | _ \<Rightarrow> True)"

lemma honest_simps: "honest render (Asking k)" "honest render (Rendering k)" "honest render (Rendered k g) \<longleftrightarrow> g = render k"
  "honest render (Answered k g) \<longleftrightarrow> g = render k"
  by (simp_all add: honest_def)

definition atlas_inv :: "(glyph_key \<Rightarrow> glyph) \<Rightarrow> int \<Rightarrow> atlas \<Rightarrow> int \<Rightarrow> bool" where
  "atlas_inv render budget a answers \<longleftrightarrow> atlas_ok render a \<and> within_budget a \<and> atBudget a = budget \<and> (budget \<le> 0 \<longrightarrow> atOrder a = [])
     \<and> asHits (atStats a) + asMisses (atStats a) = answers"

lemma filter_update:
  assumes "w < length ws"
  shows "length (filter P (ws[w := x])) + of_bool (P (ws ! w)) = length (filter P ws) + of_bool (P x)"
  using assms
proof (induction ws arbitrary: w)
  case (Cons y ws)
  then show ?case by (cases w) auto
qed simp

lemma new_atlas_inv: "atlas_inv render budget (new_glyph_atlas budget) 0"
  by (simp add: atlas_inv_def new_glyph_atlas_def atlas_ok_def within_budget_def held_glyphs_def)

lemma used_bound:
  assumes "atlas_inv render budget a n" "budget < 2 ^ 62" "\<And>k. glyph_bytes (render k) < 2 ^ 62"
  shows "atUsed a < 2 ^ 62"
proof (cases "atUsed a \<le> budget")
  case False
  then have "length (atOrder a) \<le> 1" using assms(1) by (auto simp: atlas_inv_def within_budget_def)
  then consider "atOrder a = []" | el where "atOrder a = [el]" by (cases "atOrder a") auto
  then show ?thesis
  proof cases
    case 2
    then have "atUsed a = glyph_bytes (render (fst (atVal a el)))" using assms(1) by (simp add: atlas_inv_def atlas_ok_def held_glyphs_def)
    then show ?thesis using assms(3) by simp
  qed (use assms(1) in \<open>simp add: atlas_inv_def atlas_ok_def held_glyphs_def\<close>)
qed (use assms(2) in simp)

lemma hit_inv:
  assumes "atlas_inv render budget a n" "map_of (atIndex a) k = Some el"
  shows "fst (atlas_hit el a) = render k \<and> atlas_inv render budget (snd (atlas_hit el a)) (n + 1)"
proof -
  have ok: "atlas_ok render a" using assms(1) by (simp add: atlas_inv_def)
  note h = atlas_hit_ok[OF ok assms(2)]
  have "atOrder a \<noteq> []" using atlas_okD(2)[OF ok assms(2)] by auto
  then show ?thesis using assms(1) h unfolding atlas_inv_def within_budget_def by auto
qed

lemma rendered_inv:
  assumes "atlas_inv render budget a n" "budget < 2 ^ 62" "\<And>k. glyph_bytes (render k) < 2 ^ 62" "get_rendered k (render k) a = (g, a')"
  shows "g = render k \<and> atlas_inv render budget a' (n + 1)"
proof (cases "map_of (atIndex a) k")
  case (Some el)
  then have "g = fst (atlas_hit el a)" "a' = snd (atlas_hit el a)" using assms(4) by (simp_all add: get_rendered_def)
  then show ?thesis using hit_inv[OF assms(1) Some] by simp
next
  case None
  define a1 where "a1 = a\<lparr>atStats := (atStats a)\<lparr>asMisses := asMisses (atStats a) + 1\<rparr>\<rparr>"
  have a1: "atlas_inv render budget a1 (n + 1)" "atIndex a1 = atIndex a" "atUsed a1 = atUsed a" "atBudget a1 = budget"
    using assms(1) unfolding atlas_inv_def atlas_ok_def held_glyphs_def within_budget_def by (auto simp: a1_def)
  have "atUsed a1 + glyph_bytes (render k) < 2 ^ 63" using used_bound[OF assms(1-3)] assms(3)[of k] a1(3) by simp
  with None a1 have ins: "0 < budget \<Longrightarrow> atlas_inv render budget (atlas_insert k (render k) a1) (n + 1)"
    using atlas_insert_ok[of render a1 k] by (simp add: atlas_inv_def)
  show ?thesis
  proof (cases "\<not> gyOk (render k) \<or> gyMask (render k) = None \<or> budget \<le> 0")
    case True
    then have "g = render k" "a' = a1" using assms(4) None a1(4) by (auto simp: get_rendered_def Let_def a1_def[symmetric] split: if_splits)
    then show ?thesis using a1(1) by simp
  next
    case False
    then have "g = render k" "a' = atlas_insert k (render k) a1"
      using assms(4) None a1(4) by (auto simp: get_rendered_def Let_def a1_def[symmetric] split: if_splits)
    then show ?thesis using ins False by simp
  qed
qed

definition callers_inv :: "(glyph_key \<Rightarrow> glyph) \<Rightarrow> int \<Rightarrow> atlas \<times> getter list \<Rightarrow> bool" where
  "callers_inv render budget s \<longleftrightarrow> atlas_inv render budget (fst s) (int (length (filter is_answered (snd s)))) \<and> (\<forall>w\<in>set (snd s). honest render w)"

lemma answer_counts:
  assumes "w < length ws" "\<not> is_answered (ws ! w)"
  shows "int (length (filter is_answered (ws[w := Answered k g]))) = int (length (filter is_answered ws)) + 1"
    "\<not> is_answered x \<Longrightarrow> length (filter is_answered (ws[w := x])) = length (filter is_answered ws)"
  using filter_update[OF assms(1), of is_answered "Answered k g"] filter_update[OF assms(1), of is_answered x] assms(2)
  by (simp_all add: is_answered_def)

lemma honest_update: "\<forall>w\<in>set ws. honest render w \<Longrightarrow> honest render x \<Longrightarrow> \<forall>w\<in>set (ws[i := x]). honest render w"
  using set_update_subset_insert[of ws i x] by auto

lemma atlas_step_inv:
  assumes "callers_inv render budget (a, ws)" "atlas_step render (a, ws) s'" "budget < 2 ^ 62" "\<And>k. glyph_bytes (render k) < 2 ^ 62"
  shows "callers_inv render budget s'"
proof -
  have inv: "atlas_inv render budget a (int (length (filter is_answered ws)))" and h: "\<forall>w\<in>set ws. honest render w"
    using assms(1) by (simp_all add: callers_inv_def)
  from assms(2) show ?thesis
  proof (cases rule: atlas_step_cases)
    case (ask k)
    then show ?thesis using inv h by (simp add: callers_inv_def is_answered_def honest_simps)
  next
    case (found w k g a')
    then obtain el where el: "map_of (atIndex a) k = Some el" "g = fst (atlas_hit el a)" "a' = snd (atlas_hit el a)"
      by (auto simp: get_cached_def split: option.splits prod.splits)
    have "\<not> is_answered (ws ! w)" using found by (simp add: is_answered_def)
    then show ?thesis using hit_inv[OF inv el(1)] el found honest_update[OF h, of "Answered k g" w] answer_counts(1)[OF found(2)]
      by (simp add: callers_inv_def honest_simps)
  next
    case (missed w k a')
    then have "a' = a" by (auto simp: get_cached_def split: option.splits prod.splits)
    moreover have "\<not> is_answered (ws ! w)" "\<not> is_answered (Rendering k)" using missed by (simp_all add: is_answered_def)
    ultimately show ?thesis using inv missed honest_update[OF h, of "Rendering k" w] answer_counts(2)[OF missed(2)] by (simp add: callers_inv_def honest_simps)
  next
    case (draw w k)
    then have "\<not> is_answered (ws ! w)" "\<not> is_answered (Rendered k (render k))" by (simp_all add: is_answered_def)
    then show ?thesis using inv draw honest_update[OF h, of "Rendered k (render k)" w] answer_counts(2)[OF draw(2)] by (simp add: callers_inv_def honest_simps)
  next
    case (store w k g g' a')
    then have "honest render (Rendered k g)" using h by (metis nth_mem)
    then have g: "g = render k" by (simp add: honest_simps)
    have "\<not> is_answered (ws ! w)" using store by (simp add: is_answered_def)
    then show ?thesis using rendered_inv[OF inv assms(3,4)] store g honest_update[OF h, of "Answered k g'" w] answer_counts(1)[OF store(2)]
      by (simp add: callers_inv_def honest_simps)
  next
    case reset
    then show ?thesis using inv h by (simp add: callers_inv_def atlas_inv_def atlas_reset_def atlas_ok_def held_glyphs_def within_budget_def)
  next
    case report
    then show ?thesis using inv h
      by (simp add: callers_inv_def atlas_inv_def atlas_report_def refresh_keeps) (simp add: atlas_refresh_def)
  qed
qed

lemma atlas_reach_inv:
  assumes "atlas_reach render budget s" "budget < 2 ^ 62" "\<And>k. glyph_bytes (render k) < 2 ^ 62"
  shows "callers_inv render budget s"
  using assms(1)
proof induction
  case start
  show ?case using new_atlas_inv by (simp add: callers_inv_def)
next
  case (step s s')
  then show ?case using atlas_step_inv[of render budget "fst s" "snd s" s'] assms(2,3) by simp
qed

text \<open>
  Claim C27. The atlas is transparent. Whatever the interleaving of any number of callers with each
  other and with \<open>Reset\<close>, every \<open>Get\<close> that returned returned what the fonts render for its key,
  and each of them was counted once, as a hit or as a miss.
\<close>

theorem atlas_is_transparent:
  assumes "atlas_reach render budget (a, ws)" "budget < 2 ^ 62" "\<And>k. glyph_bytes (render k) < 2 ^ 62"
  shows "(\<forall>k g. Answered k g \<in> set ws \<longrightarrow> g = render k)
    \<and> asHits (atStats a) + asMisses (atStats a) = int (length (filter is_answered ws))"
proof -
  have inv: "callers_inv render budget (a, ws)" by (rule atlas_reach_inv[OF assms])
  then have "honest render (Answered k g)" if "Answered k g \<in> set ws" for k g using that by (simp add: callers_inv_def)
  then show ?thesis using inv by (auto simp: callers_inv_def atlas_inv_def honest_simps)
qed

text \<open>
  Claim C28. The atlas keeps its budget and forgets the oldest. In every reachable state the bytes on
  its books are those of the glyphs it holds, one per key and the right one, within the budget unless
  it holds a single glyph, and none without a budget; and storing a glyph keeps, in order of use, the
  longest run of the most recently used glyphs that fits beside it.
\<close>

theorem atlas_keeps_recent:
  assumes "atlas_reach render budget (a, ws)" "budget < 2 ^ 62" "\<And>k. glyph_bytes (render k) < 2 ^ 62"
  shows "atUsed a = glyphs_size (held_glyphs a) \<and> distinct (map fst (held_glyphs a)) \<and> (\<forall>(k, g)\<in>set (held_glyphs a). g = render k)
    \<and> (atUsed a \<le> max 0 budget \<or> length (held_glyphs a) = 1) \<and> (budget \<le> 0 \<longrightarrow> held_glyphs a = [])
    \<and> (k \<notin> fst ` set (held_glyphs a) \<and> gyOk (render k) \<and> gyMask (render k) \<noteq> None \<and> 0 < budget \<longrightarrow>
         held_glyphs (snd (get_rendered k (render k) a)) = (k, render k) # fitting (budget - glyph_bytes (render k)) (held_glyphs a))"
proof -
  have inv: "atlas_inv render budget a (int (length (filter is_answered ws)))"
    using atlas_reach_inv[OF assms] by (simp add: callers_inv_def)
  then have ok: "atlas_ok render a" "within_budget a" "atBudget a = budget" "budget \<le> 0 \<longrightarrow> atOrder a = []" by (simp_all add: atlas_inv_def)
  have books: "atUsed a = glyphs_size (held_glyphs a)" "distinct (map fst (held_glyphs a))" "\<forall>(k, g)\<in>set (held_glyphs a). g = render k"
    using ok(1) by (auto simp: atlas_ok_def)
  have one: "atUsed a \<le> max 0 budget \<or> length (held_glyphs a) = 1"
  proof (cases "atOrder a")
    case Nil
    then show ?thesis using books(1) by (simp add: held_glyphs_def)
  next
    case (Cons el os)
    then show ?thesis using ok(2,3) by (auto simp: within_budget_def held_glyphs_def)
  qed
  have stored: "held_glyphs (snd (get_rendered k (render k) a)) = (k, render k) # fitting (budget - glyph_bytes (render k)) (held_glyphs a)"
    if k: "k \<notin> fst ` set (held_glyphs a)" "gyOk (render k)" "gyMask (render k) \<noteq> None" "0 < budget"
  proof -
    define a1 where "a1 = a\<lparr>atStats := (atStats a)\<lparr>asMisses := asMisses (atStats a) + 1\<rparr>\<rparr>"
    have none: "map_of (atIndex a) k = None"
    proof (rule ccontr)
      assume "map_of (atIndex a) k \<noteq> None"
      then obtain el where "map_of (atIndex a) k = Some el" by blast
      then have "(k, render k) \<in> set (held_glyphs a)" using atlas_okD(2)[OF ok(1)] by (force simp: held_glyphs_def)
      then show False using k(1) by force
    qed
    have a1: "atlas_ok render a1" "atIndex a1 = atIndex a" "atUsed a1 = atUsed a" "atBudget a1 = budget" "held_glyphs a1 = held_glyphs a"
      using ok(1,3) by (simp_all add: a1_def atlas_ok_def held_glyphs_def)
    have "atUsed a1 + glyph_bytes (render k) < 2 ^ 63" using used_bound[OF inv assms(2,3)] assms(3)[of k] a1(3) by simp
    then have "held_glyphs (atlas_insert k (render k) a1) = (k, render k) # fitting (budget - glyph_bytes (render k)) (held_glyphs a)"
      using atlas_insert_ok[of render a1 k] none a1 by simp
    then show ?thesis using k none a1(4) by (auto simp: get_rendered_def Let_def a1_def[symmetric])
  qed
  have "held_glyphs a = []" if "budget \<le> 0" using ok(4) that by (simp add: held_glyphs_def)
  then show ?thesis using books one stored by blast
qed

subsection \<open>A caller\<close>

definition demo_font :: "glyph_key \<Rightarrow> glyph" where
  "demo_font k = zero_glyph\<lparr>gyMask := Some [255, 255], gyOk := True, gyAdvance := gkSize k\<rparr>"

definition demo_key :: "int \<Rightarrow> glyph_key" where
  "demo_key r = \<lparr>gkRune = r, gkSize = 16, gkSlot = \<lparr>fsFamily = 0, fsBold = False, fsItalic = False, fsLight = False, fsCustom = 0\<rparr>\<rparr>"

definition demo_atlas :: atlas where
  "demo_atlas = snd (get_rendered (demo_key 65) (demo_font (demo_key 65)) (new_glyph_atlas 3))"

lemma demo_bytes: "glyph_bytes (demo_font k) < 2 ^ 62"
  by (simp add: glyph_bytes_def demo_font_def)

lemma demo_atlas_reach: "atlas_reach demo_font 3 (demo_atlas, [Answered (demo_key 65) (demo_font (demo_key 65))])"
proof -
  let ?k = "demo_key 65" and ?a = "new_glyph_atlas 3"
  have none: "get_cached ?k ?a = (None, ?a)" unfolding get_cached_def by (simp add: new_glyph_atlas_def)
  have "atlas_step demo_font (?a, []) (?a, [Asking ?k])" using atlas_step.ask[of demo_font ?a "[]" ?k] by simp
  moreover have "atlas_step demo_font (?a, [Asking ?k]) (?a, [Rendering ?k])"
    using atlas_step.missed[of 0 "[Asking ?k]" ?k ?a ?a demo_font] none by simp
  moreover have "atlas_step demo_font (?a, [Rendering ?k]) (?a, [Rendered ?k (demo_font ?k)])"
    using atlas_step.draw[of 0 "[Rendering ?k]" ?k demo_font ?a] by simp
  moreover have "get_rendered ?k (demo_font ?k) ?a = (demo_font ?k, demo_atlas)"
    by (simp add: demo_atlas_def get_rendered_def new_glyph_atlas_def demo_font_def Let_def)
  then have "atlas_step demo_font (?a, [Rendered ?k (demo_font ?k)]) (demo_atlas, [Answered ?k (demo_font ?k)])"
    using atlas_step.store[of 0 "[Rendered ?k (demo_font ?k)]" ?k "demo_font ?k" ?a "demo_font ?k" demo_atlas demo_font] by simp
  ultimately show ?thesis by (meson atlas_reach.intros)
qed

theorem atlas_is_transparent_witness: "asHits (atStats demo_atlas) + asMisses (atStats demo_atlas) = 1"
  using atlas_is_transparent[OF demo_atlas_reach _ demo_bytes] by (simp add: is_answered_def)

theorem atlas_keeps_recent_witness:
  "held_glyphs (snd (get_rendered (demo_key 66) (demo_font (demo_key 66)) demo_atlas)) = [(demo_key 66, demo_font (demo_key 66))]"
proof -
  have "held_glyphs demo_atlas = [(demo_key 65, demo_font (demo_key 65))]" by code_simp
  then show ?thesis using atlas_keeps_recent[OF demo_atlas_reach _ demo_bytes, of "demo_key 66"]
    by (simp add: demo_key_def demo_font_def glyph_bytes_def)
qed

end
