(* ===== verification/Cookie_Jar.thy ===== *)
theory Cookie_Jar
  imports Go_Strings
begin

text \<open>
  \<open>internal/net/cookie.go\<close>: the cookie jar. The map of entries is an association list with
  distinct keys; where the code ranges over the map, the order the runtime picks is the
  parameter \<open>shuffle\<close>, any rearrangement of the entries. A time is nanoseconds since the
  zero time, one reading \<open>now\<close> serves a whole call, and \<open>dates\<close> is what the accepted HTTP
  date layouts parse to. The cookie file is the list of its entries: what JSON does to the strings and
  times in them is modelled, the syntax around them and the calls on the file are not.
\<close>

subsection \<open>Cookies\<close>

definition MaxCookiesPerHost :: nat where "MaxCookiesPerHost = 50"
definition MaxTotalCookies :: nat where "MaxTotalCookies = 3000"

record cookie =
  coName :: string
  coValue :: string
  coDomain :: string
  coPath :: string
  coSecure :: bool
  coHttpOnly :: bool
  coExpires :: int
  coHostOnly :: bool
  coSeq :: nat

record jar =
  jrEntries :: "(string \<times> cookie) list"
  jrNext :: nat

record url =
  urScheme :: string
  urHost :: string
  urPath :: string

definition new_jar :: jar where
  "new_jar = \<lparr>jrEntries = [], jrNext = 0\<rparr>"

definition cookie_key :: "string \<Rightarrow> string \<Rightarrow> string \<Rightarrow> string \<Rightarrow> string" where
  "cookie_key host name dmn path = host @ [nul] @ name @ [nul] @ dmn @ [nul] @ path"

text \<open>\<open>!Expires.IsZero() && Expires.Before(now)\<close>.\<close>

definition expired :: "int \<Rightarrow> cookie \<Rightarrow> bool" where
  "expired now c \<longleftrightarrow> coExpires c \<noteq> 0 \<and> coExpires c < now"

definition unix_second :: int where "unix_second = 1000000000"

definition unix_time :: "int \<Rightarrow> int" where
  "unix_time s = (62135596800 + s) * unix_second"

subsection \<open>Matching\<close>

definition host_matches_domain :: "string \<Rightarrow> string \<Rightarrow> bool" where
  "host_matches_domain host dmn =
     (let dmn = trim_prefix ''.'' dmn in dmn = host \<or> suffix (''.'' @ dmn) host)"

definition default_cookie_path :: "string \<Rightarrow> string" where
  "default_cookie_path p = (case last_index (CHR ''/'') p of Some i \<Rightarrow> take (i + 1) p | None \<Rightarrow> ''/'')"

definition cookie_path_match :: "string \<Rightarrow> string \<Rightarrow> bool" where
  "cookie_path_match req path =
     (if req = path then True
      else if \<not> prefix path req then False
      else if suffix ''/'' path then True
      else length req > length path \<and> req ! length path = CHR ''/'')"

subsection \<open>Parsing\<close>

definition parse_attr :: "(string \<Rightarrow> int option) \<Rightarrow> int \<Rightarrow> string \<Rightarrow> cookie \<Rightarrow> cookie" where
  "parse_attr dates now attr c =
     (let (key, val) = cut_at (CHR ''='') attr;
          key = to_lower (trim_space key); val = trim_space val
      in if key = ''domain'' then c\<lparr>coDomain := to_lower (trim_prefix ''.'' val)\<rparr>
         else if key = ''path'' then c\<lparr>coPath := val\<rparr>
         else if key = ''secure'' then c\<lparr>coSecure := True\<rparr>
         else if key = ''httponly'' then c\<lparr>coHttpOnly := True\<rparr>
         else if key = ''max-age'' then
           (case atoi val of
              None \<Rightarrow> c
            | Some secs \<Rightarrow>
               (if secs < 0 then c
                else if secs = 0 then c\<lparr>coExpires := unix_time 1\<rparr>
                else c\<lparr>coExpires := now + i64 (secs * unix_second)\<rparr>))
         else if key = ''expires'' then
           (case dates (trim_set [CHR 0x22, CHR 0x27] val) of None \<Rightarrow> c | Some t \<Rightarrow> c\<lparr>coExpires := t\<rparr>)
         else c)"

definition parse_set_cookie :: "(string \<Rightarrow> int option) \<Rightarrow> int \<Rightarrow> string \<Rightarrow> cookie option" where
  "parse_set_cookie dates now raw =
     (let (pair, attrs) = cut_at (CHR '';'') raw;
          (name, val) = cut_at (CHR ''='') pair;
          name = trim_space name
      in if name = [] \<or> list_ex (\<lambda>c. c = CHR '' '' \<or> c = CHR 0x09) name then None
         else Some (fold (parse_attr dates now) (split_by (CHR '';'') attrs)
                \<lparr>coName = name, coValue = trim_space val, coDomain = [], coPath = [], coSecure = False, coHttpOnly = False,
                 coExpires = 0, coHostOnly = False, coSeq = 0\<rparr>))"

subsection \<open>Eviction\<close>

definition host_prefix :: "string \<Rightarrow> string" where
  "host_prefix host = host @ [nul]"

definition per_host :: "string \<Rightarrow> (string \<times> cookie) list \<Rightarrow> nat" where
  "per_host host es = length (filter (\<lambda>(k, c). prefix (host_prefix host) k) es)"

definition evict_less :: "string \<times> cookie \<Rightarrow> string \<times> cookie \<Rightarrow> bool" where
  "evict_less x y =
     (let a = snd x; b = snd y; ae = (coExpires a \<noteq> 0); be = (coExpires b \<noteq> 0)
      in if ae \<noteq> be then ae
         else if ae \<and> coExpires a \<noteq> coExpires b then coExpires a < coExpires b
         else if coSeq a \<noteq> coSeq b then coSeq a < coSeq b
         else fst x < fst y)"

fun insert_by :: "('a \<Rightarrow> 'a \<Rightarrow> bool) \<Rightarrow> 'a \<Rightarrow> 'a list \<Rightarrow> 'a list" where
  "insert_by lt x [] = [x]"
| "insert_by lt x (y # ys) = (if lt y x then y # insert_by lt x ys else x # y # ys)"

definition sort_by :: "('a \<Rightarrow> 'a \<Rightarrow> bool) \<Rightarrow> 'a list \<Rightarrow> 'a list" where
  "sort_by lt xs = foldr (insert_by lt) xs []"

fun evict_victims :: "string \<Rightarrow> nat \<Rightarrow> nat \<Rightarrow> (string \<times> cookie) list \<Rightarrow> (string \<times> cookie) list \<Rightarrow> (string \<times> cookie) list" where
  "evict_victims host per tot [] es = es"
| "evict_victims host per tot (v # vs) es =
     (if per > MaxCookiesPerHost \<or> tot > MaxTotalCookies
      then (if map_of es (fst v) = None then evict_victims host per tot vs es
            else evict_victims host (if prefix (host_prefix host) (fst v) then per - 1 else per) (tot - 1) vs
                   (AList.delete (fst v) es))
      else es)"

definition evict :: "((string \<times> cookie) list \<Rightarrow> (string \<times> cookie) list) \<Rightarrow> int \<Rightarrow> string \<Rightarrow> jar \<Rightarrow> jar" where
  "evict shuffle now host j =
     (let live = filter (\<lambda>(k, c). \<not> expired now c) (jrEntries j)
      in j\<lparr>jrEntries := evict_victims host (per_host host live) (length live) (sort_by evict_less (shuffle live)) live\<rparr>)"

subsection \<open>Storing\<close>

text \<open>The scope checks \<open>Store\<close> and \<open>SetCookieFromDocument\<close> share; \<open>None\<close> refuses the cookie.\<close>

definition scope_cookie :: "url \<Rightarrow> cookie \<Rightarrow> cookie option" where
  "scope_cookie u c =
     (let host = to_lower (urHost u) in
      if coDomain c \<noteq> [] \<and> (\<not> host_matches_domain host (coDomain c) \<or> \<not> contains_str (coDomain c) ''.'') then None
      else let c = (if coDomain c \<noteq> [] then c\<lparr>coHostOnly := False\<rparr> else c\<lparr>coDomain := host, coHostOnly := True\<rparr>)
           in if coPath c = [] then Some (c\<lparr>coPath := default_cookie_path (urPath u)\<rparr>)
              else if \<not> prefix ''/'' (coPath c) then None
              else Some c)"

definition same_cookie :: "cookie \<Rightarrow> cookie \<Rightarrow> bool" where
  "same_cookie a b \<longleftrightarrow> coName a = coName b \<and> coDomain a = coDomain b \<and> coPath a = coPath b"

definition put_cookie :: "((string \<times> cookie) list \<Rightarrow> (string \<times> cookie) list) \<Rightarrow> int \<Rightarrow> string \<Rightarrow> cookie \<Rightarrow> jar \<Rightarrow> jar" where
  "put_cookie shuffle now host c j =
     (let key = cookie_key host (coName c) (coDomain c) (coPath c);
          es = filter (\<lambda>(k, old). \<not> same_cookie old c) (jrEntries j);
          c = c\<lparr>coSeq := jrNext j\<rparr>
      in evict shuffle now host (j\<lparr>jrNext := jrNext j + 1, jrEntries := AList.update key c es\<rparr>))"

definition store_one :: "((string \<times> cookie) list \<Rightarrow> (string \<times> cookie) list) \<Rightarrow> (string \<Rightarrow> int option) \<Rightarrow> int \<Rightarrow> url \<Rightarrow> string \<Rightarrow> jar \<Rightarrow> jar" where
  "store_one shuffle dates now u raw j =
     (case Option.bind (parse_set_cookie dates now raw) (scope_cookie u) of
        None \<Rightarrow> j
      | Some c \<Rightarrow>
         (let host = to_lower (urHost u) in
          if expired now c
          then j\<lparr>jrEntries := AList.delete (cookie_key host (coName c) (coDomain c) (coPath c)) (jrEntries j)\<rparr>
          else put_cookie shuffle now host c j))"

definition store :: "((string \<times> cookie) list \<Rightarrow> (string \<times> cookie) list) \<Rightarrow> (string \<Rightarrow> int option) \<Rightarrow> int \<Rightarrow> url \<Rightarrow> string list \<Rightarrow> jar \<Rightarrow> jar" where
  "store shuffle dates now u raws j = fold (store_one shuffle dates now u) raws j"

definition set_from_document :: "((string \<times> cookie) list \<Rightarrow> (string \<times> cookie) list) \<Rightarrow> (string \<Rightarrow> int option) \<Rightarrow> int \<Rightarrow> url option \<Rightarrow> string \<Rightarrow> jar \<Rightarrow> jar" where
  "set_from_document shuffle dates now ou assignment j =
     (case ou of
        None \<Rightarrow> j
      | Some u \<Rightarrow>
         (case parse_set_cookie dates now assignment of
            None \<Rightarrow> j
          | Some c \<Rightarrow>
             (case scope_cookie u (c\<lparr>coHttpOnly := False\<rparr>) of
                None \<Rightarrow> j
              | Some c \<Rightarrow>
                 (let host = to_lower (urHost u) in
                  if list_ex (\<lambda>(k, old). same_cookie old c \<and> coHttpOnly old) (jrEntries j) then j
                  else if expired now c
                  then j\<lparr>jrEntries := AList.delete (cookie_key host (coName c) (coDomain c) (coPath c)) (jrEntries j)\<rparr>
                  else put_cookie shuffle now host c j))))"

definition clear_jar :: "jar \<Rightarrow> jar" where
  "clear_jar j = j\<lparr>jrEntries := []\<rparr>"

subsection \<open>Sending\<close>

definition sendable :: "int \<Rightarrow> url \<Rightarrow> cookie \<Rightarrow> bool" where
  "sendable now u c =
     (let host = to_lower (urHost u); path = (if urPath u = [] then ''/'' else urPath u)
      in if coSecure c \<and> urScheme u \<noteq> ''https'' then False
         else if coHostOnly c \<and> coDomain c \<noteq> host then False
         else if \<not> coHostOnly c \<and> \<not> host_matches_domain host (coDomain c) then False
         else if \<not> cookie_path_match path (coPath c) then False
         else \<not> expired now c)"

definition header_order :: "cookie list \<Rightarrow> cookie list" where
  "header_order = sort_key (\<lambda>c. (- int (length (coPath c)), coExpires c))"

definition header_text :: "cookie list \<Rightarrow> string" where
  "header_text cs = join_with ''; '' (map (\<lambda>c. coName c @ ''='' @ coValue c) (header_order cs))"

definition header_for :: "((string \<times> cookie) list \<Rightarrow> (string \<times> cookie) list) \<Rightarrow> int \<Rightarrow> url \<Rightarrow> jar \<Rightarrow> string" where
  "header_for shuffle now u j = header_text (filter (sendable now u) (map snd (shuffle (jrEntries j))))"

definition cookies_for_document :: "((string \<times> cookie) list \<Rightarrow> (string \<times> cookie) list) \<Rightarrow> int \<Rightarrow> url option \<Rightarrow> jar \<Rightarrow> string" where
  "cookies_for_document shuffle now ou j =
     (case ou of
        None \<Rightarrow> []
      | Some u \<Rightarrow> header_text (filter (\<lambda>c. \<not> coHttpOnly c \<and> sendable now u c) (map snd (shuffle (jrEntries j)))))"

definition all_cookies :: "((string \<times> cookie) list \<Rightarrow> (string \<times> cookie) list) \<Rightarrow> int \<Rightarrow> jar \<Rightarrow> cookie list" where
  "all_cookies shuffle now j = filter (\<lambda>c. \<not> expired now c) (map snd (shuffle (jrEntries j)))"

definition cookies_for_host :: "((string \<times> cookie) list \<Rightarrow> (string \<times> cookie) list) \<Rightarrow> int \<Rightarrow> string \<Rightarrow> jar \<Rightarrow> cookie list" where
  "cookies_for_host shuffle now host j =
     filter (\<lambda>c. \<not> expired now c \<and> host_matches_domain (to_lower host) (coDomain c)) (map snd (shuffle (jrEntries j)))"

subsection \<open>The cookie file\<close>

record persisted =
  psName :: string
  psValue :: string
  psDomain :: string
  psPath :: string
  psSecure :: bool
  psHttpOnly :: bool
  psExpires :: int
  psHostOnly :: bool

definition saved :: "((string \<times> cookie) list \<Rightarrow> (string \<times> cookie) list) \<Rightarrow> int \<Rightarrow> jar \<Rightarrow> persisted list" where
  "saved shuffle now j =
     map (\<lambda>c. \<lparr>psName = coName c, psValue = coValue c, psDomain = coDomain c, psPath = coPath c, psSecure = coSecure c,
               psHttpOnly = coHttpOnly c, psExpires = coExpires c, psHostOnly = coHostOnly c\<rparr>)
       (filter (\<lambda>c. \<not> (coExpires c = 0 \<or> coExpires c < now)) (map snd (shuffle (jrEntries j))))"

definition load_one :: "int \<Rightarrow> persisted \<Rightarrow> jar \<times> string list \<Rightarrow> jar \<times> string list" where
  "load_one now p jh =
     (case jh of (j, hosts) \<Rightarrow>
       if psName p = [] \<or> psDomain p = [] then (j, hosts)
       else if psExpires p \<noteq> 0 \<and> psExpires p < now then (j, hosts)
       else let path = (if psPath p = [] then ''/'' else psPath p)
            in (j\<lparr>jrEntries := AList.update (cookie_key (psDomain p) (psName p) (psDomain p) path)
                     \<lparr>coName = psName p, coValue = psValue p, coDomain = psDomain p, coPath = path, coSecure = psSecure p,
                      coHttpOnly = psHttpOnly p, coExpires = psExpires p, coHostOnly = psHostOnly p, coSeq = jrNext j\<rparr>
                     (jrEntries j), jrNext := jrNext j + 1\<rparr>,
                List.insert (psDomain p) hosts))"

text \<open>
  \<open>encoding/json\<close> writes a string rune by rune and reads it the same way: \<open>rune_len\<close> is the number of
  bytes of the first rune as \<open>utf8.DecodeRune\<close> finds it, none when they are not UTF-8; such a byte
  becomes U+FFFD. Everything else comes back as it was, whatever was escaped on the way.
\<close>

definition rune_tail :: "nat \<Rightarrow> nat \<Rightarrow> char \<Rightarrow> bool" where
  "rune_tail lo hi c \<longleftrightarrow> lo \<le> char_code c \<and> char_code c \<le> hi"

fun rune_len :: "string \<Rightarrow> nat" where
  "rune_len [] = 0"
| "rune_len (a # s) =
     (let x = char_code a; lo = (if x = 224 then 160 else if x = 240 then 144 else 128);
          hi = (if x = 237 then 159 else if x = 244 then 143 else 191)
      in if x < 128 then 1
         else if 194 \<le> x \<and> x \<le> 223 then (case s of b # _ \<Rightarrow> if rune_tail 128 191 b then 2 else 0 | [] \<Rightarrow> 0)
         else if 224 \<le> x \<and> x \<le> 239
         then (case s of b # c # _ \<Rightarrow> if rune_tail lo hi b \<and> rune_tail 128 191 c then 3 else 0 | _ \<Rightarrow> 0)
         else if 240 \<le> x \<and> x \<le> 244
         then (case s of b # c # d # _ \<Rightarrow> if rune_tail lo hi b \<and> rune_tail 128 191 c \<and> rune_tail 128 191 d then 4 else 0 | _ \<Rightarrow> 0)
         else 0)"

function json_text :: "string \<Rightarrow> string" where
  "json_text [] = []"
| "json_text (a # s) =
     (if rune_len (a # s) = 0 then [char_of (239 :: nat), char_of (191 :: nat), char_of (189 :: nat)] @ json_text s
      else a # take (rune_len (a # s) - 1) s @ json_text (drop (rune_len (a # s) - 1) s))"
  by pat_completeness auto
termination by (relation "measure length") auto

definition json_entry :: "persisted \<Rightarrow> persisted" where
  "json_entry p = p\<lparr>psName := json_text (psName p), psValue := json_text (psValue p), psDomain := json_text (psDomain p),
     psPath := json_text (psPath p)\<rparr>"

text \<open>The first instant a time cannot be written at: the year 10000.\<close>

definition json_time_end :: int where
  "json_time_end = unix_time 253402300800"

text \<open>The entries of the file \<open>Save\<close> writes, if it can write one.\<close>

definition written :: "((string \<times> cookie) list \<Rightarrow> (string \<times> cookie) list) \<Rightarrow> int \<Rightarrow> jar \<Rightarrow> persisted list option" where
  "written shuffle now j =
     (let ps = saved shuffle now j
      in if \<exists>p\<in>set ps. json_time_end \<le> psExpires p then None else Some (map json_entry ps))"

text \<open>\<open>Load\<close> of a decoded file; the hosts are evicted in the order the runtime picks.\<close>

definition load :: "((string \<times> cookie) list \<Rightarrow> (string \<times> cookie) list) \<Rightarrow> (string list \<Rightarrow> string list) \<Rightarrow> int \<Rightarrow> persisted list \<Rightarrow> jar \<Rightarrow> jar" where
  "load shuffle pick now ps j =
     (let (j, hosts) = fold (load_one now) ps (j, []) in fold (evict shuffle now) (pick hosts) j)"

definition load_file :: "((string \<times> cookie) list \<Rightarrow> (string \<times> cookie) list) \<Rightarrow> (string list \<Rightarrow> string list) \<Rightarrow> int \<Rightarrow> persisted list \<Rightarrow> jar \<Rightarrow> jar" where
  "load_file shuffle pick now ps j = load shuffle pick now (map json_entry ps) j"

end
