(* ===== verification/Cookie_Policy.thy ===== *)
theory Cookie_Policy
  imports Cookie_Jar
begin

text \<open>
  What the cookie jar guarantees: its limits under any sequence of operations, who can be
  sent a cookie, and that eviction does not depend on map order.
\<close>

subsection \<open>Eviction order\<close>

definition evict_key :: "string \<times> cookie \<Rightarrow> (nat \<times> int) \<times> nat \<times> string" where
  "evict_key x = ((if coExpires (snd x) \<noteq> 0 then 0 else 1, coExpires (snd x)), coSeq (snd x), fst x)"

lemma evict_less_key: "evict_less x y \<longleftrightarrow> evict_key x < evict_key y"
  by (auto simp: evict_less_def evict_key_def Let_def less_prod_def')

lemma insert_by_key: "insert_by (\<lambda>x y. f x < (f y :: 'b :: linorder)) x ys = insort_key f x ys"
  by (induction ys) auto

lemma sort_by_evict: "sort_by evict_less xs = sort_key evict_key xs"
proof -
  have "insert_by evict_less = insort_key evict_key"
    using insert_by_key[of evict_key] by (simp add: fun_eq_iff evict_less_key[abs_def])
  then show ?thesis by (simp add: sort_by_def sort_key_def)
qed

lemma evict_key_inj: "distinct (map fst es) \<Longrightarrow> inj_on evict_key (set es)"
  by (rule inj_onI) (auto simp: evict_key_def dest: eq_key_imp_eq_value)

definition rearranges :: "('a list \<Rightarrow> 'a list) \<Rightarrow> bool" where
  "rearranges f \<longleftrightarrow> (\<forall>xs. mset (f xs) = mset xs)"

lemma rearrangesD: "rearranges f \<Longrightarrow> mset (f xs) = mset xs" "rearranges f \<Longrightarrow> set (f xs) = set xs"
  "rearranges f \<Longrightarrow> length (f xs) = length xs"
  unfolding rearranges_def by (auto dest: mset_eq_setD mset_eq_length)

lemma victims_order:
  assumes "rearranges shuffle" "distinct (map fst es)"
  shows "sort_by evict_less (shuffle es) = sort_key evict_key es"
proof -
  have m: "mset (shuffle es) = mset es" using assms(1) by (rule rearrangesD)
  then have "set (shuffle es) = set es" by (rule mset_eq_setD)
  then show ?thesis
    unfolding sort_by_evict using m evict_key_inj[OF assms(2)]
    by (intro sort_key_inj_key_eq) auto
qed

subsection \<open>What eviction removes\<close>

lemma per_host_delete:
  assumes "distinct (map fst es)" "map_of es k = Some c"
  shows "per_host h (AList.delete k es) = per_host h es - (if prefix (host_prefix h) k then 1 else 0)"
    "length (AList.delete k es) = length es - 1" "prefix (host_prefix h) k \<Longrightarrow> 0 < per_host h es"
proof -
  have "set es = insert (k, c) (set (AList.delete k es))" "(k, c) \<notin> set (AList.delete k es)"
    using assms map_of_SomeD[OF assms(2)] eq_key_imp_eq_value[OF assms(1)] by (auto simp: AList.delete_eq)
  moreover have "distinct es" "distinct (AList.delete k es)"
    using assms(1) by (auto simp: AList.delete_eq distinct_map)
  ultimately have m: "mset es = add_mset (k, c) (mset (AList.delete k es))"
    by (metis mset_set_set mset_set.insert finite_set)
  then show "length (AList.delete k es) = length es - 1" by (metis size_add_mset size_mset diff_Suc_1)
  have ph: "per_host h xs = size (filter_mset (\<lambda>(k, c). prefix (host_prefix h) k) (mset xs))" for xs
    by (simp add: per_host_def flip: mset_filter)
  show "per_host h (AList.delete k es) = per_host h es - (if prefix (host_prefix h) k then 1 else 0)"
    "prefix (host_prefix h) k \<Longrightarrow> 0 < per_host h es"
    by (auto simp: ph m)
qed

lemma distinct_keys_delete: "distinct (map fst es) \<Longrightarrow> distinct (map fst (AList.delete k es))"
  by (rule AList.distinct_delete)

text \<open>
  The loop: with every entry a candidate, it ends within both limits, and takes the
  candidates from the front.
\<close>

lemma evict_victims_ok:
  assumes "distinct (map fst es)" "set es \<subseteq> set vs" "per = per_host host es" "tot = length es"
  defines "r \<equiv> evict_victims host per tot vs es"
  shows "per_host host r \<le> MaxCookiesPerHost \<and> length r \<le> MaxTotalCookies \<and> mset r \<subseteq># mset es"
  using assms(1-4) unfolding r_def
proof (induction host per tot vs es rule: evict_victims.induct)
  case (1 host per tot es)
  then show ?case by (simp add: per_host_def)
next
  case (2 host per tot v vs es)
  show ?case
  proof (cases "per > MaxCookiesPerHost \<or> tot > MaxTotalCookies")
    case False
    then show ?thesis using 2(5,6) by auto
  next
    case True
    show ?thesis
    proof (cases "map_of es (fst v)")
      case None
      then have "v \<notin> set es" by (cases v) (auto simp: map_of_eq_None_iff image_iff)
      then have "set es \<subseteq> set vs" using 2(4) by auto
      with 2(1)[OF True None 2(3) this 2(5,6)] True None show ?thesis by simp
    next
      case (Some c)
      note D = per_host_delete[OF 2(3) Some]
      have "set (AList.delete (fst v) es) \<subseteq> set vs" using 2(4) by (auto simp: AList.delete_eq)
      moreover have "(if prefix (host_prefix host) (fst v) then per - 1 else per) = per_host host (AList.delete (fst v) es)"
        "tot - 1 = length (AList.delete (fst v) es)" using D 2(5,6) by auto
      ultimately have "per_host host (evict_victims host (if prefix (host_prefix host) (fst v) then per - 1 else per) (tot - 1) vs
            (AList.delete (fst v) es)) \<le> MaxCookiesPerHost
          \<and> length (evict_victims host (if prefix (host_prefix host) (fst v) then per - 1 else per) (tot - 1) vs
            (AList.delete (fst v) es)) \<le> MaxTotalCookies
          \<and> mset (evict_victims host (if prefix (host_prefix host) (fst v) then per - 1 else per) (tot - 1) vs
            (AList.delete (fst v) es)) \<subseteq># mset (AList.delete (fst v) es)"
        using Some by (intro 2(2)[OF True]) (auto intro: distinct_keys_delete[OF 2(3)])
      moreover have "mset (AList.delete (fst v) es) \<subseteq># mset es" by (simp add: AList.delete_eq multiset_filter_subset)
      ultimately show ?thesis using True Some by (auto intro: subset_mset.order_trans)
    qed
  qed
qed

subsection \<open>Limits\<close>

definition within_limits :: "jar \<Rightarrow> bool" where
  "within_limits j \<longleftrightarrow> distinct (map fst (jrEntries j)) \<and> length (jrEntries j) \<le> MaxTotalCookies
     \<and> (\<forall>h. nul \<notin> set h \<longrightarrow> per_host h (jrEntries j) \<le> MaxCookiesPerHost)"

lemma per_host_mono: "mset xs \<subseteq># mset ys \<Longrightarrow> per_host h xs \<le> per_host h ys"
proof -
  assume "mset xs \<subseteq># mset ys"
  then have "filter_mset (\<lambda>(k, c). prefix (host_prefix h) k) (mset xs) \<subseteq># filter_mset (\<lambda>(k, c). prefix (host_prefix h) k) (mset ys)"
    by (rule multiset_filter_mono)
  then show ?thesis by (simp add: per_host_def size_mset_mono flip: size_mset mset_filter)
qed

lemma distinct_mset_le: "mset xs \<subseteq># mset ys \<Longrightarrow> distinct ys \<Longrightarrow> distinct xs"
proof -
  assume le: "mset xs \<subseteq># mset ys" and d: "distinct ys"
  have "count (mset xs) a = (if a \<in> set xs then 1 else 0)" for a
  proof (cases "a \<in> set xs")
    case True
    then have "0 < count (mset xs) a" by (simp add: count_greater_zero_iff)
    moreover have "count (mset xs) a \<le> count (mset ys) a" using le by (rule mset_subset_eq_count)
    moreover have "count (mset ys) a \<le> 1" using d by (simp add: distinct_count_atmost_1)
    ultimately have "count (mset xs) a = 1" by linarith
    then show ?thesis using True by simp
  qed (simp add: count_mset_0_iff)
  then show ?thesis by (simp add: distinct_count_atmost_1)
qed

lemma distinct_keys_mono: "mset xs \<subseteq># mset ys \<Longrightarrow> distinct (map fst ys) \<Longrightarrow> distinct (map fst xs)"
  by (rule distinct_mset_le[of "map fst xs" "map fst ys"]) (simp_all add: image_mset_subseteq_mono)

lemma evict_ok:
  fixes host :: string and now :: int and j :: jar
  assumes "rearranges shuffle" "distinct (map fst (jrEntries j))"
  defines "es \<equiv> jrEntries (evict shuffle now host j)"
  shows "per_host host es \<le> MaxCookiesPerHost" "length es \<le> MaxTotalCookies" "mset es \<subseteq># mset (jrEntries j)"
    "distinct (map fst es)" "\<forall>(k, c)\<in>set es. \<not> expired now c" "jrNext (evict shuffle now host j) = jrNext j"
proof -
  define live where "live = filter (\<lambda>(k, c). \<not> expired now c) (jrEntries j)"
  have live: "distinct (map fst live)" "mset live \<subseteq># mset (jrEntries j)"
    using assms(2) by (auto simp: live_def distinct_map inj_on_def multiset_filter_subset)
  have "set live \<subseteq> set (sort_by evict_less (shuffle live))" using victims_order[OF assms(1) live(1)] by simp
  from evict_victims_ok[OF live(1) this refl refl, of host]
  have r: "per_host host es \<le> MaxCookiesPerHost" "length es \<le> MaxTotalCookies" "mset es \<subseteq># mset live"
    by (simp_all add: es_def evict_def Let_def flip: live_def)
  then show "per_host host es \<le> MaxCookiesPerHost" "length es \<le> MaxTotalCookies" by simp_all
  show "mset es \<subseteq># mset (jrEntries j)" using r(3) live(2) by (rule subset_mset.order_trans)
  show "distinct (map fst es)" using r(3) live(1) by (rule distinct_keys_mono)
  show "\<forall>(k, c)\<in>set es. \<not> expired now c" using set_mset_mono[OF r(3)] by (auto simp: live_def)
  show "jrNext (evict shuffle now host j) = jrNext j" by (simp add: evict_def Let_def)
qed

lemma update_length: "length (AList.update k v es) \<le> Suc (length es)"
  by (induction es) auto

lemma update_per_host:
  "per_host h (AList.update k v es) \<le> per_host h es + (if prefix (host_prefix h) k then 1 else 0)"
  by (induction es) (auto simp: per_host_def)

lemma host_prefix_key:
  assumes "nul \<notin> set h" "nul \<notin> set host" "prefix (host_prefix h) (cookie_key host n d p)"
  shows "h = host"
proof -
  obtain r where "h @ nul # r = host @ nul # n @ [nul] @ d @ [nul] @ p"
    using assms(3) by (auto simp: host_prefix_def cookie_key_def prefix_def)
  then have "takeWhile (\<lambda>c. c \<noteq> nul) (h @ nul # r) = takeWhile (\<lambda>c. c \<noteq> nul) (host @ nul # n @ [nul] @ d @ [nul] @ p)" by simp
  moreover have "takeWhile (\<lambda>c. c \<noteq> nul) (x @ nul # y) = x" if "nul \<notin> set x" for x y
    using that by (subst takeWhile_append2) auto
  ultimately show ?thesis using assms(1,2) by simp
qed

lemma nul_to_lower: "nul \<notin> set s \<Longrightarrow> nul \<notin> set (to_lower s)"
  by (auto simp: to_lower_def lower_char_def nul_def char_code_def split: if_splits)

lemma put_cookie_limits:
  assumes "within_limits j" "rearranges shuffle" "nul \<notin> set host"
  shows "within_limits (put_cookie shuffle now host c j)"
proof -
  define es where "es = filter (\<lambda>(k, old). \<not> same_cookie old c) (jrEntries j)"
  define key where "key = cookie_key host (coName c) (coDomain c) (coPath c)"
  define j1 where "j1 = j\<lparr>jrNext := jrNext j + 1, jrEntries := AList.update key (c\<lparr>coSeq := jrNext j\<rparr>) es\<rparr>"
  have j: "distinct (map fst (jrEntries j))" "\<And>h. nul \<notin> set h \<Longrightarrow> per_host h (jrEntries j) \<le> MaxCookiesPerHost"
    using assms(1) by (auto simp: within_limits_def)
  have es: "distinct (map fst es)" "mset es \<subseteq># mset (jrEntries j)"
    using j(1) by (auto simp: es_def distinct_map inj_on_def multiset_filter_subset)
  have d1: "distinct (map fst (jrEntries j1))" using es(1) by (simp add: j1_def AList.distinct_update)
  note E = evict_ok[OF assms(2) d1, where host = host and now = now]
  have "per_host h (jrEntries (evict shuffle now host j1)) \<le> MaxCookiesPerHost" if h: "nul \<notin> set h" for h
  proof (cases "h = host")
    case False
    then have "\<not> prefix (host_prefix h) key" using host_prefix_key[OF h assms(3)] by (auto simp: key_def)
    then have "per_host h (jrEntries j1) \<le> per_host h es" using update_per_host[of h key _ es] by (simp add: j1_def)
    also have "\<dots> \<le> MaxCookiesPerHost" using per_host_mono[OF es(2), of h] j(2)[OF h] by simp
    finally show ?thesis using per_host_mono[OF E(3), of h] by simp
  qed (use E(1) in simp)
  then show ?thesis using E(2,4) unfolding put_cookie_def Let_def
    by (simp add: within_limits_def j1_def es_def key_def)
qed

lemma delete_limits: "within_limits j \<Longrightarrow> within_limits (j\<lparr>jrEntries := AList.delete k (jrEntries j)\<rparr>)"
proof -
  assume j: "within_limits j"
  have m: "mset (AList.delete k (jrEntries j)) \<subseteq># mset (jrEntries j)" by (simp add: AList.delete_eq multiset_filter_subset)
  show ?thesis
    using j per_host_mono[OF m] size_mset_mono[OF m] distinct_keys_mono[OF m]
    by (auto simp: within_limits_def intro: order_trans)
qed

lemma store_one_limits:
  assumes "within_limits j" "rearranges shuffle" "nul \<notin> set (urHost u)"
  shows "within_limits (store_one shuffle dates now u raw j)"
  using assms put_cookie_limits[OF assms(1,2) nul_to_lower[OF assms(3)]] delete_limits[OF assms(1)]
  by (auto simp: store_one_def Let_def split: option.split)

lemma store_limits:
  assumes "within_limits j" "rearranges shuffle" "nul \<notin> set (urHost u)"
  shows "within_limits (store shuffle dates now u raws j)"
  unfolding store_def using assms by (induction raws arbitrary: j) (auto intro: store_one_limits)

lemma set_from_document_limits:
  assumes "within_limits j" "rearranges shuffle" "\<And>u. ou = Some u \<Longrightarrow> nul \<notin> set (urHost u)"
  shows "within_limits (set_from_document shuffle dates now ou raw j)"
  using assms(1) put_cookie_limits[OF assms(1,2) nul_to_lower[OF assms(3)]] delete_limits[OF assms(1)]
  by (auto simp: set_from_document_def Let_def split: option.split)

text \<open>Loading: the hosts whose cookies came in are the only ones that may be over the limit.\<close>

definition over_only :: "string list \<Rightarrow> jar \<Rightarrow> bool" where
  "over_only hs j \<longleftrightarrow> distinct (map fst (jrEntries j)) \<and> (hs = [] \<longrightarrow> length (jrEntries j) \<le> MaxTotalCookies)
     \<and> (\<forall>h. nul \<notin> set h \<longrightarrow> h \<notin> set hs \<longrightarrow> per_host h (jrEntries j) \<le> MaxCookiesPerHost)"

lemma over_only_none: "over_only [] j \<longleftrightarrow> within_limits j"
  by (auto simp: over_only_def within_limits_def)

lemma load_one_over:
  assumes "over_only hs j" "nul \<notin> set (psDomain p)" "load_one now p (j, hs) = (j', hs')"
  shows "over_only hs' j'"
proof (cases "psName p = [] \<or> psDomain p = [] \<or> psExpires p \<noteq> 0 \<and> psExpires p < now")
  case True
  then show ?thesis using assms(1,3) by (auto simp: load_one_def split: if_splits)
next
  case False
  then obtain c q where e: "hs' = List.insert (psDomain p) hs"
    "jrEntries j' = AList.update (cookie_key (psDomain p) (psName p) (psDomain p) q) c (jrEntries j)"
    using assms(3) by (auto simp: load_one_def Let_def)
  have "per_host h (jrEntries j') \<le> MaxCookiesPerHost" if h: "nul \<notin> set h" "h \<notin> set hs'" for h
  proof -
    have "h \<noteq> psDomain p" "h \<notin> set hs" using h(2) e(1) by auto
    then have "\<not> prefix (host_prefix h) (cookie_key (psDomain p) (psName p) (psDomain p) q)"
      using host_prefix_key[OF h(1) assms(2)] by blast
    then have "per_host h (jrEntries j') \<le> per_host h (jrEntries j)"
      using update_per_host[of h "cookie_key (psDomain p) (psName p) (psDomain p) q" c "jrEntries j"] e(2) by simp
    also have "\<dots> \<le> MaxCookiesPerHost" using assms(1) h(1) \<open>h \<notin> set hs\<close> by (auto simp: over_only_def)
    finally show ?thesis .
  qed
  moreover have "hs' \<noteq> []" using e(1) by (auto simp: List.insert_def)
  ultimately show ?thesis using assms(1) e(2) by (simp add: over_only_def AList.distinct_update)
qed

lemma load_fold_over:
  "over_only hs j \<Longrightarrow> (\<forall>p\<in>set ps. nul \<notin> set (psDomain p)) \<Longrightarrow> fold (load_one now) ps (j, hs) = (j', hs') \<Longrightarrow> over_only hs' j'"
proof (induction ps arbitrary: j hs)
  case (Cons p ps)
  obtain j1 h1 where 1: "load_one now p (j, hs) = (j1, h1)" by fastforce
  from load_one_over[OF Cons.prems(1) _ 1] Cons.prems Cons.IH[of h1 j1] 1 show ?case by simp
qed simp

lemma evict_fold_limits:
  assumes "rearranges shuffle"
  shows "over_only ks j \<Longrightarrow> within_limits (fold (evict shuffle now) ks j)"
proof (induction ks arbitrary: j)
  case (Cons k ks)
  have d: "distinct (map fst (jrEntries j))" using Cons.prems by (simp add: over_only_def)
  note E = evict_ok[OF assms d, where host = k and now = now]
  have "per_host h (jrEntries (evict shuffle now k j)) \<le> MaxCookiesPerHost" if h: "nul \<notin> set h" "h \<notin> set ks" for h
    using E(1) per_host_mono[OF E(3), of h] Cons.prems h by (cases "h = k") (auto simp: over_only_def intro: order_trans)
  then have "over_only ks (evict shuffle now k j)" using E(2,4) by (auto simp: over_only_def)
  from Cons.IH[OF this] show ?case by simp
qed (simp add: over_only_none)

lemma load_limits:
  assumes "within_limits j" "rearranges shuffle" "rearranges pick" "\<forall>p\<in>set ps. nul \<notin> set (psDomain p)"
  shows "within_limits (load shuffle pick now ps j)"
proof -
  obtain j1 hs where f: "fold (load_one now) ps (j, []) = (j1, hs)" by fastforce
  have "over_only hs j1" using load_fold_over[OF _ assms(4) f] assms(1) by (simp add: over_only_none)
  moreover have "set (pick hs) = set hs" "pick hs = [] \<longleftrightarrow> hs = []"
    using rearrangesD[OF assms(3)] by (auto simp flip: length_0_conv)
  ultimately have "over_only (pick hs) j1" by (simp add: over_only_def)
  from evict_fold_limits[OF assms(2) this] show ?thesis by (simp add: load_def f)
qed

subsection \<open>Histories\<close>

text \<open>
  The jars a browser can have, whatever map order the runtime picks each time, with the
  hosts whose responses or documents set cookies. Host names contain no NUL.
\<close>

inductive jar_reach :: "string set \<Rightarrow> jar \<Rightarrow> bool" where
  empty: "jar_reach {} new_jar"
| response: "jar_reach H j \<Longrightarrow> rearranges shuffle \<Longrightarrow> nul \<notin> set (urHost u) \<Longrightarrow>
    jar_reach (insert (to_lower (urHost u)) H) (store shuffle dates now u raws j)"
| script: "jar_reach H j \<Longrightarrow> rearranges shuffle \<Longrightarrow> nul \<notin> set (urHost u) \<Longrightarrow>
    jar_reach (insert (to_lower (urHost u)) H) (set_from_document shuffle dates now (Some u) raw j)"
| clear: "jar_reach H j \<Longrightarrow> jar_reach H (clear_jar j)"
| from_disk: "jar_reach H j \<Longrightarrow> rearranges shuffle \<Longrightarrow> rearranges pick \<Longrightarrow> \<forall>p\<in>set ps. nul \<notin> set (psDomain p) \<Longrightarrow> H' = H \<union> psDomain ` set ps \<Longrightarrow>
    \<forall>p\<in>set ps. psHostOnly p \<or> contains_str (psDomain p) ''.'' \<Longrightarrow> jar_reach H' (load shuffle pick now ps j)"

lemma jar_reach_limits: "jar_reach H j \<Longrightarrow> within_limits j"
proof (induction rule: jar_reach.induct)
  case empty
  show ?case by (simp add: within_limits_def new_jar_def per_host_def)
next
  case (clear H j)
  show ?case by (simp add: within_limits_def clear_jar_def per_host_def)
next
  case (script H j shuffle u dates now raw)
  then show ?case by (auto intro: set_from_document_limits)
qed (auto intro: store_limits load_limits)

text \<open>
  The jar never outgrows its limits: after any sequence of responses, script
  assignments, loads of a cookie file and clears, however hostile, and whatever order the
  runtime ranges over its map, there is one entry for each key, at most 3000 entries in all and at
  most 50 for any host.
\<close>

theorem jar_within_limits:
  assumes "jar_reach H j"
  shows "distinct (map fst (jrEntries j)) \<and> length (jrEntries j) \<le> 3000
    \<and> (nul \<notin> set h \<longrightarrow> per_host h (jrEntries j) \<le> 50)"
  using jar_reach_limits[OF assms] by (auto simp: within_limits_def MaxCookiesPerHost_def MaxTotalCookies_def)

text \<open>A page that sets two cookies, then one more.\<close>

definition shop :: url where
  "shop = \<lparr>urScheme = ''https'', urHost = ''Shop.example.com'', urPath = ''/cart/view''\<rparr>"

lemma rearranges_id: "rearranges (\<lambda>x. x)"
  by (simp add: rearranges_def)

lemma nul_shop: "nul \<notin> set (urHost shop)"
  by (simp add: shop_def nul_char)

definition shop_jar :: jar where
  "shop_jar = store (\<lambda>x. x) (\<lambda>_. None) 5 shop [''id=7; HttpOnly; Secure; Path=/'', ''lang=en; Domain=example.com''] new_jar"

lemma shop_reach: "jar_reach {''shop.example.com''} shop_jar"
proof -
  have "jar_reach (insert (to_lower (urHost shop)) {}) shop_jar"
    unfolding shop_jar_def by (rule jar_reach.response[OF jar_reach.empty rearranges_id nul_shop])
  moreover have "to_lower (urHost shop) = ''shop.example.com''"
    by code_simp
  ultimately show ?thesis by simp
qed

theorem jar_within_limits_witness:
  "jar_reach {''shop.example.com''} shop_jar \<and> length (jrEntries shop_jar) = 2 \<and> per_host ''shop.example.com'' (jrEntries shop_jar) \<le> 50"
proof -
  have "length (jrEntries shop_jar) = 2" by code_simp
  moreover have "nul \<notin> set ''shop.example.com''" by (simp add: nul_char)
  ultimately show ?thesis using jar_within_limits[OF shop_reach, of "''shop.example.com''"] shop_reach by blast
qed

subsection \<open>Who is sent a cookie\<close>

text \<open>A host that may set a cookie of this scope.\<close>

definition may_set :: "string \<Rightarrow> cookie \<Rightarrow> bool" where
  "may_set h c \<longleftrightarrow> (if coHostOnly c then coDomain c = h else host_matches_domain h (coDomain c) \<and> contains_str (coDomain c) ''.'')"

definition identity :: "cookie \<Rightarrow> string \<times> string \<times> string" where
  "identity c = (coName c, coDomain c, coPath c)"

definition policed :: "string set \<Rightarrow> jar \<Rightarrow> bool" where
  "policed H j \<longleftrightarrow> (\<forall>(k, c)\<in>set (jrEntries j). \<exists>h\<in>H. k = cookie_key h (coName c) (coDomain c) (coPath c) \<and> may_set h c)"

lemma update_subset: "set (AList.update k v es) \<subseteq> insert (k, v) (set es)"
  by (induction es) auto

lemma policed_mono: "policed H j \<Longrightarrow> H \<subseteq> H' \<Longrightarrow> set (jrEntries j') \<subseteq> set (jrEntries j) \<Longrightarrow> policed H' j'"
  by (fastforce simp: policed_def)

lemma policed_wider: "policed H j \<Longrightarrow> H \<subseteq> H' \<Longrightarrow> policed H' j"
  by (rule policed_mono) auto

lemma evict_subset:
  assumes "rearranges shuffle" "distinct (map fst (jrEntries j))"
  shows "set (jrEntries (evict shuffle now host j)) \<subseteq> set (jrEntries j)"
  using set_mset_mono[OF evict_ok(3)[OF assms, where host = host and now = now]] by simp

lemma put_cookie_subset:
  assumes "rearranges shuffle" "distinct (map fst (jrEntries j))"
  shows "set (jrEntries (put_cookie shuffle now host c j)) \<subseteq>
    insert (cookie_key host (coName c) (coDomain c) (coPath c), c\<lparr>coSeq := jrNext j\<rparr>) (set (jrEntries j))"
proof -
  let ?es = "filter (\<lambda>(k, old). \<not> same_cookie old c) (jrEntries j)" and ?key = "cookie_key host (coName c) (coDomain c) (coPath c)"
  let ?j = "j\<lparr>jrNext := jrNext j + 1, jrEntries := AList.update ?key (c\<lparr>coSeq := jrNext j\<rparr>) ?es\<rparr>"
  have "distinct (map fst ?es)" using assms(2) by (auto simp: distinct_map inj_on_def)
  then have "distinct (map fst (jrEntries ?j))" by (simp add: AList.distinct_update)
  from evict_subset[OF assms(1) this] have "set (jrEntries (put_cookie shuffle now host c j)) \<subseteq> set (jrEntries ?j)"
    by (simp add: put_cookie_def Let_def)
  also have "\<dots> \<subseteq> insert (?key, c\<lparr>coSeq := jrNext j\<rparr>) (set ?es)"
    using update_subset[of ?key "c\<lparr>coSeq := jrNext j\<rparr>" ?es] by simp
  finally show ?thesis by auto
qed

lemma scope_may_set: "scope_cookie u c = Some c' \<Longrightarrow> may_set (to_lower (urHost u)) c'"
  by (auto simp: scope_cookie_def may_set_def Let_def split: if_splits)

lemma policed_put:
  assumes "policed H j" "rearranges shuffle" "distinct (map fst (jrEntries j))" "may_set h c"
  shows "policed (insert h H) (put_cookie shuffle now h c j)"
proof -
  have "may_set h (c\<lparr>coSeq := n\<rparr>)" for n using assms(4) by (simp add: may_set_def)
  then show ?thesis using assms(1) put_cookie_subset[OF assms(2,3), of now h c] by (fastforce simp: policed_def)
qed

lemma policed_delete: "policed H j \<Longrightarrow> H \<subseteq> H' \<Longrightarrow> policed H' (j\<lparr>jrEntries := AList.delete k (jrEntries j)\<rparr>)"
  by (rule policed_mono) (auto simp: AList.delete_eq)

lemma store_one_policed:
  assumes "policed H j" "rearranges shuffle" "distinct (map fst (jrEntries j))"
  shows "policed (insert (to_lower (urHost u)) H) (store_one shuffle dates now u raw j)"
proof (cases "Option.bind (parse_set_cookie dates now raw) (scope_cookie u)")
  case None
  then show ?thesis using policed_wider[OF assms(1)] by (auto simp: store_one_def)
next
  case (Some c)
  then have "may_set (to_lower (urHost u)) c" using scope_may_set by (auto simp: bind_eq_Some_conv)
  from policed_put[OF assms this] policed_delete[OF assms(1) subset_insertI] Some show ?thesis
    by (auto simp: store_one_def Let_def)
qed

lemma store_policed:
  "policed H j \<Longrightarrow> within_limits j \<Longrightarrow> rearranges shuffle \<Longrightarrow> nul \<notin> set (urHost u) \<Longrightarrow>
   policed (insert (to_lower (urHost u)) H) (store shuffle dates now u raws j)"
proof (induction raws arbitrary: j H)
  case Nil
  then show ?case using policed_wider[of H j] by (auto simp: store_def)
next
  case (Cons r rs)
  have "policed (insert (to_lower (urHost u)) H) (store_one shuffle dates now u r j)"
    using Cons.prems by (intro store_one_policed) (auto simp: within_limits_def)
  from Cons.IH[OF this store_one_limits[OF Cons.prems(2-4)] Cons.prems(3,4)] show ?case by (simp add: store_def)
qed

lemma script_policed:
  assumes "policed H j" "rearranges shuffle" "distinct (map fst (jrEntries j))"
  shows "policed (insert (to_lower (urHost u)) H) (set_from_document shuffle dates now (Some u) raw j)"
proof -
  have keep: "policed (insert (to_lower (urHost u)) H) j" using policed_wider[OF assms(1)] by auto
  have "policed (insert (to_lower (urHost u)) H) (put_cookie shuffle now (to_lower (urHost u)) c' j)"
    if "scope_cookie u c = Some c'" for c c'
    using policed_put[OF assms] scope_may_set[OF that] by blast
  then show ?thesis using keep policed_delete[OF assms(1) subset_insertI] by (auto simp: set_from_document_def Let_def split: option.split)
qed

lemma host_matches_self: "host_matches_domain d d"
  using trim_prefix_cases[of "''.''" d] by (auto simp: host_matches_domain_def Let_def)

lemma load_fold_policed:
  "policed H j \<Longrightarrow> distinct (map fst (jrEntries j)) \<Longrightarrow> (\<forall>p\<in>set ps. psHostOnly p \<or> contains_str (psDomain p) ''.'') \<Longrightarrow>
   policed (H \<union> psDomain ` set ps) (fst (fold (load_one now) ps (j, hs))) \<and> distinct (map fst (jrEntries (fst (fold (load_one now) ps (j, hs)))))"
proof (induction ps arbitrary: H j hs)
  case (Cons p ps)
  obtain j1 h1 where 1: "load_one now p (j, hs) = (j1, h1)" by fastforce
  have "policed (insert (psDomain p) H) j1 \<and> distinct (map fst (jrEntries j1))"
  proof (cases "j1 = j")
    case True
    then show ?thesis using policed_wider[OF Cons.prems(1)] Cons.prems(2) by auto
  next
    case False
    define q where "q = (if psPath p = [] then ''/'' else psPath p)"
    define c where "c = \<lparr>coName = psName p, coValue = psValue p, coDomain = psDomain p, coPath = q, coSecure = psSecure p,
                      coHttpOnly = psHttpOnly p, coExpires = psExpires p, coHostOnly = psHostOnly p, coSeq = jrNext j\<rparr>"
    have e: "jrEntries j1 = AList.update (cookie_key (psDomain p) (coName c) (coDomain c) (coPath c)) c (jrEntries j)"
      using 1 False by (auto simp: load_one_def Let_def c_def q_def split: if_splits)
    have "may_set (psDomain p) c" using Cons.prems(3) host_matches_self by (auto simp: may_set_def c_def)
    then show ?thesis
      using Cons.prems(1,2) update_subset[of "cookie_key (psDomain p) (coName c) (coDomain c) (coPath c)" c "jrEntries j"]
      by (auto simp: policed_def e AList.distinct_update)
  qed
  then show ?case using Cons.IH[of "insert (psDomain p) H" j1 h1] Cons.prems(3) by (simp add: 1)
qed simp

lemma evict_fold_policed:
  assumes "rearranges shuffle"
  shows "policed H j \<Longrightarrow> distinct (map fst (jrEntries j)) \<Longrightarrow> policed H (fold (evict shuffle now) ks j)"
proof (induction ks arbitrary: j)
  case (Cons k ks)
  have "policed H (evict shuffle now k j)" using policed_mono[OF Cons.prems(1) _ evict_subset[OF assms Cons.prems(2)]] by simp
  from Cons.IH[OF this evict_ok(4)[OF assms Cons.prems(2), where host = k and now = now]] show ?case by simp
qed simp

lemma jar_reach_policed: "jar_reach H j \<Longrightarrow> policed H j"
proof (induction rule: jar_reach.induct)
  case (response H j shuffle u dates now raws)
  then show ?case using store_policed jar_reach_limits by blast
next
  case (script H j shuffle u dates now raw)
  then show ?case using script_policed jar_reach_limits by (auto simp: within_limits_def)
next
  case (from_disk H j shuffle pick ps H' now)
  have d: "distinct (map fst (jrEntries j))" using jar_reach_limits[OF from_disk(1)] by (simp add: within_limits_def)
  have "policed H' (fst (fold (load_one now) ps (j, []))) \<and> distinct (map fst (jrEntries (fst (fold (load_one now) ps (j, [])))))"
    using load_fold_policed[OF from_disk.IH d] from_disk by blast
  then show ?case using evict_fold_policed[OF from_disk(2)] by (simp add: load_def case_prod_beta)
qed (simp_all add: policed_def new_jar_def clear_jar_def)

text \<open>
  Claim C30. A cookie reaches only requests of its scope. Whatever was stored before, a stored
  cookie is sent with a request only over HTTPS when it is \<open>Secure\<close>, only before it expires,
  only under its path, and only to the very host that set it or, with a \<open>Domain\<close>, to hosts
  that are, like the one that set it, that domain or below it.
\<close>

theorem cookie_scope:
  assumes "jar_reach H j" "(k, c) \<in> set (jrEntries j)" "sendable now u c"
  shows "(coSecure c \<longrightarrow> urScheme u = ''https'') \<and> \<not> expired now c
    \<and> cookie_path_match (if urPath u = [] then ''/'' else urPath u) (coPath c)
    \<and> (\<exists>h\<in>H. if coHostOnly c then to_lower (urHost u) = h
         else let d = trim_prefix ''.'' (coDomain c) in
              (h = d \<or> suffix (''.'' @ d) h) \<and> (to_lower (urHost u) = d \<or> suffix (''.'' @ d) (to_lower (urHost u))))"
proof -
  obtain h where "h \<in> H" "may_set h c" using jar_reach_policed[OF assms(1)] assms(2) by (auto simp: policed_def)
  then show ?thesis using assms(3)
    by (auto simp: sendable_def may_set_def host_matches_domain_def Let_def split: if_splits)
qed

theorem cookie_scope_witness:
  "\<exists>k c. (k, c) \<in> set (jrEntries shop_jar) \<and> coSecure c \<and> sendable 5 shop c \<and> urScheme shop = ''https''"
proof -
  have "list_ex (\<lambda>(k, c). coSecure c \<and> sendable 5 shop c) (jrEntries shop_jar)" by code_simp
  then obtain k c where kc: "(k, c) \<in> set (jrEntries shop_jar)" "coSecure c" "sendable 5 shop c" by (auto simp: list_ex_iff)
  from cookie_scope[OF shop_reach this(1,3)] kc show ?thesis by blast
qed

end
