(* ===== verification/Cookie_Store.thy ===== *)
theory Cookie_Store
  imports Cookie_Policy
begin

text \<open>
  The rest of the jar's promises: eviction is a function of the jar alone, scripts cannot
  read, forge or remove \<open>HttpOnly\<close> cookies, and a saved jar loads back to the same persistent
  cookies. The lemmas at the end exhibit three behaviours of the code that its comments do
  not promise.
\<close>

subsection \<open>Eviction\<close>

text \<open>The victims are a front piece of the candidates.\<close>

lemma evict_victims_front:
  assumes "distinct (map fst vs)"
  shows "\<exists>n. set (evict_victims host per tot vs es) = set es - {(k, c). k \<in> fst ` set (take n vs)}"
proof (induction host per tot vs es rule: evict_victims.induct)
  case (1 host per tot es)
  show ?case by simp
next
  case (2 host per tot v vs es)
  show ?case
  proof (cases "per > MaxCookiesPerHost \<or> tot > MaxTotalCookies")
    case False
    then show ?thesis by (intro exI[of _ 0]) simp
  next
    case True
    show ?thesis
    proof (cases "map_of es (fst v)")
      case None
      obtain n where "set (evict_victims host per tot vs es) = set es - {(k, c). k \<in> fst ` set (take n vs)}"
        using 2(1)[OF True None] by blast
      moreover have "fst v \<notin> fst ` set es" using None by (simp add: map_of_eq_None_iff)
      ultimately show ?thesis using True None by (intro exI[of _ "Suc n"]) (force simp: image_iff)
    next
      case (Some c)
      then obtain n where "set (evict_victims host (if prefix (host_prefix host) (fst v) then per - 1 else per) (tot - 1) vs
          (AList.delete (fst v) es)) = set (AList.delete (fst v) es) - {(k, c). k \<in> fst ` set (take n vs)}"
        using 2(2)[OF True] by auto
      then show ?thesis using True Some by (intro exI[of _ "Suc n"]) (auto simp: AList.delete_eq)
    qed
  qed
qed

lemma sorted_front:
  assumes "sorted (map f vs)" "distinct (map f vs)" "x \<in> set (take n vs)" "y \<in> set vs" "y \<notin> set (take n vs)"
  shows "f x < (f y :: 'b :: linorder)"
proof -
  have y: "y \<in> set (drop n vs)" using assms(4,5) by (metis append_take_drop_id UnE set_append)
  have "sorted_wrt (<) (map f (take n vs @ drop n vs))" using assms(1,2) by (simp add: strict_sorted_iff)
  then have "\<forall>x\<in>set (take n vs). \<forall>y\<in>set (drop n vs). f x < f y" unfolding map_append sorted_wrt_append by simp
  with assms(3) y show ?thesis by blast
qed

text \<open>
  Eviction is deterministic and ordered: the jar it leaves does not depend on the
  order the runtime ranges over the map, every expired cookie is gone, and a live cookie it
  removes comes before every cookie it keeps, expiring before session cookies, sooner
  before later, longer stored before newer, then by key.
\<close>

theorem eviction_ordered:
  assumes "distinct (map fst (jrEntries j))" "rearranges shuffle"
  shows "evict shuffle now host j = evict (\<lambda>es. es) now host j
    \<and> (\<forall>x\<in>set (jrEntries j). \<forall>y\<in>set (jrEntries (evict shuffle now host j)).
         \<not> expired now (snd y) \<and> (x \<notin> set (jrEntries (evict shuffle now host j)) \<and> \<not> expired now (snd x) \<longrightarrow> evict_less x y))"
proof -
  define live where "live = filter (\<lambda>(k, c). \<not> expired now c) (jrEntries j)"
  define vs where "vs = sort_key evict_key live"
  have d: "distinct (map fst live)" using assms(1) by (auto simp: live_def distinct_map inj_on_def)
  have vs: "sort_by evict_less (shuffle live) = vs" "sort_by evict_less live = vs"
    using victims_order[OF assms(2) d] victims_order[OF rearranges_id d] by (simp_all add: vs_def)
  then have same: "evict shuffle now host j = evict (\<lambda>es. es) now host j" by (simp add: evict_def Let_def flip: live_def)
  define r where "r = jrEntries (evict shuffle now host j)"
  have "r = evict_victims host (per_host host live) (length live) vs live" by (simp add: r_def evict_def vs Let_def flip: live_def)
  moreover have dk: "distinct (map fst vs)"
  proof -
    have "mset (map fst vs) = mset (map fst live)" by (simp add: vs_def)
    then show ?thesis using d mset_eq_imp_distinct_iff by blast
  qed
  ultimately obtain n where n: "set r = set live - {(k, c). k \<in> fst ` set (take n vs)}"
    using evict_victims_front[of vs host "per_host host live" "length live" live] by metis
  have vs_live: "set vs = set live" by (simp add: vs_def)
  have keys: "distinct (map evict_key vs)"
    using evict_key_inj[OF dk] dk by (simp add: distinct_map)
  have "\<not> expired now (snd y) \<and> (x \<notin> set r \<and> \<not> expired now (snd x) \<longrightarrow> evict_less x y)"
    if x: "x \<in> set (jrEntries j)" and y: "y \<in> set r" for x y
  proof (intro conjI impI)
    have yl: "y \<in> set live" using y n by auto
    then show "\<not> expired now (snd y)" by (auto simp: live_def)
    assume a: "x \<notin> set r \<and> \<not> expired now (snd x)"
    then have xl: "x \<in> set live" using x by (auto simp: live_def)
    then have "fst x \<in> fst ` set (take n vs)" using a n by (cases x) (auto intro: rev_image_eqI)
    then obtain z where z: "z \<in> set (take n vs)" "fst z = fst x" by auto
    have "z \<in> set live" using in_set_takeD[OF z(1)] by (simp add: vs_live)
    then have "z = x" using z(2) xl d by (simp add: distinct_map inj_on_def)
    moreover have "y \<notin> set (take n vs)"
    proof
      assume "y \<in> set (take n vs)"
      then have "fst y \<in> fst ` set (take n vs)" by (rule imageI)
      then show False using y unfolding n by (simp add: case_prod_beta)
    qed
    ultimately show "evict_less x y"
      unfolding evict_less_key using z(1) yl by (intro sorted_front[OF _ keys, of x n y]) (auto simp: vs_live vs_def)
  qed
  with same show ?thesis by (simp add: r_def)
qed

text \<open>An expired cookie goes whoever is evicted for.\<close>

theorem eviction_ordered_witness:
  "let c = \<lparr>coName = ''a'', coValue = [], coDomain = ''h'', coPath = ''/'', coSecure = False, coHttpOnly = False,
       coExpires = 3, coHostOnly = True, coSeq = 0\<rparr>;
     j = \<lparr>jrEntries = [(''k'', c), (''l'', c\<lparr>coExpires := 0\<rparr>)], jrNext = 2\<rparr>
   in evict rev 9 ''h'' j = evict (\<lambda>es. es) 9 ''h'' j \<and> map fst (jrEntries (evict rev 9 ''h'' j)) = [''l'']"
proof -
  let ?c = "\<lparr>coName = ''a'', coValue = [], coDomain = ''h'', coPath = ''/'', coSecure = False, coHttpOnly = False,
       coExpires = 3, coHostOnly = True, coSeq = 0\<rparr>"
  let ?j = "\<lparr>jrEntries = [(''k'', ?c), (''l'', ?c\<lparr>coExpires := 0\<rparr>)], jrNext = 2\<rparr>"
  have "distinct (map fst (jrEntries ?j))" "rearranges rev" by (simp_all add: rearranges_def)
  note e = eviction_ordered[OF this, of 9 "''h''"]
  have "map fst (jrEntries (evict rev 9 ''h'' ?j)) = [''l'']" by code_simp
  with e show ?thesis by (simp add: Let_def)
qed

subsection \<open>Scripts and HttpOnly\<close>

lemma count_nul_key: "count_list (cookie_key h n d p) nul = count_list h nul + count_list n nul + count_list d nul + count_list p nul + 3"
  by (simp add: cookie_key_def)

lemma nul_parts:
  assumes "a @ nul # x = b @ nul # y" "nul \<notin> set a" "nul \<notin> set b"
  shows "a = b \<and> x = y"
proof -
  have t: "takeWhile (\<lambda>c. c \<noteq> nul) (z @ nul # w) = z" if "nul \<notin> set z" for z w
    using that by (subst takeWhile_append2) auto
  have "a = b" using t[OF assms(2), of x] t[OF assms(3), of y] assms(1) by simp
  with assms(1) show ?thesis by simp
qed

lemma cookie_key_inject:
  assumes "cookie_key h n d p = cookie_key h' n' d' p'" "nul \<notin> set (h @ n @ d @ p)"
  shows "h' = h \<and> n' = n \<and> d' = d \<and> p' = p"
proof -
  have "count_list (cookie_key h n d p) nul = 3" using assms(2) by (simp add: count_nul_key count_list_0_iff)
  then have z: "nul \<notin> set h'" "nul \<notin> set n'" "nul \<notin> set d'"
    unfolding assms(1) count_nul_key by (simp_all add: count_list_0_iff)
  have 1: "h = h' \<and> n @ nul # d @ nul # p = n' @ nul # d' @ nul # p'"
    by (rule nul_parts) (use assms z in \<open>simp_all add: cookie_key_def\<close>)
  then have 2: "n = n' \<and> d @ nul # p = d' @ nul # p'" using assms(2) z by (intro nul_parts) auto
  then have "d = d' \<and> p = p'" using assms(2) z by (intro nul_parts) auto
  with 1 2 show ?thesis by simp
qed

definition http_only :: "jar \<Rightarrow> (string \<times> cookie) set" where
  "http_only j = {e \<in> set (jrEntries j). coHttpOnly (snd e)}"

lemma evict_victims_room: "per \<le> MaxCookiesPerHost \<Longrightarrow> tot \<le> MaxTotalCookies \<Longrightarrow> evict_victims host per tot vs es = es"
  by (cases vs) auto

lemma evict_room:
  assumes "per_host host (jrEntries j) \<le> MaxCookiesPerHost" "length (jrEntries j) \<le> MaxTotalCookies"
  shows "jrEntries (evict shuffle now host j) = filter (\<lambda>(k, c). \<not> expired now c) (jrEntries j)"
proof -
  let ?live = "filter (\<lambda>(k, c). \<not> expired now c) (jrEntries j)"
  have "per_host host ?live \<le> per_host host (jrEntries j)" by (rule per_host_mono) (simp add: multiset_filter_subset)
  then show ?thesis using assms by (simp add: evict_def Let_def evict_victims_room le_trans[OF length_filter_le])
qed

lemma update_http_only:
  assumes "\<forall>c'. (k, c') \<in> set es \<longrightarrow> \<not> coHttpOnly c'" "\<not> coHttpOnly c"
  shows "{e \<in> set (AList.update k c es). coHttpOnly (snd e)} = {e \<in> set es. coHttpOnly (snd e)}"
proof -
  have "filter (\<lambda>e. coHttpOnly (snd e)) (AList.update k c es) = filter (\<lambda>e. coHttpOnly (snd e)) es"
    using assms(1)
  proof (induction es)
    case Nil
    show ?case using assms(2) by simp
  next
    case (Cons e es)
    obtain a c' where e: "e = (a, c')" by (cases e)
    show ?case
    proof (cases "a = k")
      case True
      then have "(k, c') \<in> set (e # es)" by (simp add: e)
      then have "\<not> coHttpOnly c'" using Cons.prems by blast
      then show ?thesis using assms(2) by (simp add: e True)
    next
      case False
      have "\<forall>c'. (k, c') \<in> set es \<longrightarrow> \<not> coHttpOnly c'" using Cons.prems by simp
      from Cons.IH[OF this] show ?thesis using False by (simp add: e)
    qed
  qed
  then have "set (filter (\<lambda>e. coHttpOnly (snd e)) (AList.update k c es)) = set (filter (\<lambda>e. coHttpOnly (snd e)) es)" by simp
  then show ?thesis unfolding set_filter .
qed

lemma jar_reach_hosts: "jar_reach H j \<Longrightarrow> h \<in> H \<Longrightarrow> nul \<notin> set h"
  by (induction arbitrary: h rule: jar_reach.induct) (auto dest: nul_to_lower)

text \<open>The parts of a cookie as a server can send them: without NUL.\<close>

definition plain_cookie :: "cookie \<Rightarrow> bool" where
  "plain_cookie c \<longleftrightarrow> nul \<notin> set (coName c) \<and> nul \<notin> set (coDomain c) \<and> nul \<notin> set (coPath c)"

lemma http_only_key:
  assumes "jar_reach H j" "(cookie_key h n d p, c) \<in> set (jrEntries j)" "plain_cookie c"
  shows "coName c = n \<and> coDomain c = d \<and> coPath c = p"
proof -
  obtain h' where h: "h' \<in> H" "cookie_key h n d p = cookie_key h' (coName c) (coDomain c) (coPath c)"
    using jar_reach_policed[OF assms(1)] assms(2) by (auto simp: policed_def)
  have "nul \<notin> set (h' @ coName c @ coDomain c @ coPath c)"
    using assms(3) jar_reach_hosts[OF assms(1) h(1)] by (simp add: plain_cookie_def)
  from cookie_key_inject[OF h(2)[symmetric] this] show ?thesis by simp
qed

lemma put_cookie_http_only:
  assumes "jar_reach H j" "rearranges shuffle" "\<not> coHttpOnly c"
    and safe: "\<forall>e\<in>http_only j. plain_cookie (snd e) \<and> \<not> expired now (snd e) \<and> \<not> same_cookie (snd e) c"
    and room: "length (jrEntries j) < MaxTotalCookies" "per_host host (jrEntries j) < MaxCookiesPerHost"
  shows "http_only (put_cookie shuffle now host c j) = http_only j"
proof -
  define es where "es = filter (\<lambda>(k, old). \<not> same_cookie old c) (jrEntries j)"
  define key where "key = cookie_key host (coName c) (coDomain c) (coPath c)"
  define j1 where "j1 = j\<lparr>jrNext := jrNext j + 1, jrEntries := AList.update key (c\<lparr>coSeq := jrNext j\<rparr>) es\<rparr>"
  have m: "mset es \<subseteq># mset (jrEntries j)" by (simp add: es_def multiset_filter_subset)
  have "length (jrEntries j1) \<le> MaxTotalCookies"
    using update_length[of key "c\<lparr>coSeq := jrNext j\<rparr>" es] size_mset_mono[OF m] room(1) by (simp add: j1_def)
  moreover have "per_host host (jrEntries j1) \<le> MaxCookiesPerHost"
    using update_per_host[of host key "c\<lparr>coSeq := jrNext j\<rparr>" es] per_host_mono[OF m, of host] room(2)
    by (simp add: j1_def split: if_splits)
  ultimately have r: "jrEntries (evict shuffle now host j1) = filter (\<lambda>(k, c). \<not> expired now c) (jrEntries j1)"
    by (intro evict_room)
  have keep: "{e \<in> set es. coHttpOnly (snd e)} = http_only j" using safe by (auto simp: es_def http_only_def)
  have "\<not> coHttpOnly c'" if e: "(key, c') \<in> set es" for c'
  proof
    assume "coHttpOnly c'"
    then have "(key, c') \<in> {e \<in> set es. coHttpOnly (snd e)}" using e by simp
    then have ho: "(key, c') \<in> http_only j" unfolding keep .
    then have "coName c' = coName c \<and> coDomain c' = coDomain c \<and> coPath c' = coPath c"
      using safe by (intro http_only_key[OF assms(1)]) (auto simp: key_def http_only_def)
    then show False using safe ho by (auto simp: same_cookie_def)
  qed
  then have "{e \<in> set (jrEntries j1). coHttpOnly (snd e)} = http_only j"
    unfolding keep[symmetric] by (simp add: j1_def update_http_only assms(3))
  then have "http_only (evict shuffle now host j1) = {e \<in> http_only j. \<not> expired now (snd e)}"
    by (auto simp: http_only_def r)
  also have "\<dots> = http_only j" using safe by auto
  finally show ?thesis by (simp add: put_cookie_def Let_def j1_def es_def key_def)
qed

lemma scope_http_only: "scope_cookie u c = Some c' \<Longrightarrow> coHttpOnly c' = coHttpOnly c"
  by (auto simp: scope_cookie_def Let_def split: if_splits)

text \<open>
  Claim C31. \<open>HttpOnly\<close> cookies are out of reach of scripts: a \<open>document.cookie\<close> assignment, whatever
  its text, neither adds, changes nor removes one as long as the jar has room (eviction for
  room spares none), and what a script reads does not depend on them.
\<close>

theorem http_only_protected:
  assumes "jar_reach H j" "rearranges shuffle"
    and "\<forall>e\<in>http_only j. plain_cookie (snd e) \<and> \<not> expired now (snd e)"
    and "length (jrEntries j) < 3000" "per_host (to_lower (urHost u)) (jrEntries j) < 50"
  shows "http_only (set_from_document shuffle dates now (Some u) text j) = http_only j
    \<and> cookies_for_document (\<lambda>es. es) now (Some u) j
      = cookies_for_document (\<lambda>es. es) now (Some u) (j\<lparr>jrEntries := filter (\<lambda>(k, c). \<not> coHttpOnly c) (jrEntries j)\<rparr>)"
proof
  show "cookies_for_document (\<lambda>es. es) now (Some u) j
      = cookies_for_document (\<lambda>es. es) now (Some u) (j\<lparr>jrEntries := filter (\<lambda>(k, c). \<not> coHttpOnly c) (jrEntries j)\<rparr>)"
    by (simp add: cookies_for_document_def filter_map o_def case_prod_beta conj_commute cong: conj_cong)
  let ?h = "to_lower (urHost u)"
  have step: "http_only (if expired now c then j\<lparr>jrEntries := AList.delete (cookie_key ?h (coName c) (coDomain c) (coPath c)) (jrEntries j)\<rparr>
      else put_cookie shuffle now ?h c j) = http_only j"
    if c: "\<not> coHttpOnly c" "\<not> list_ex (\<lambda>(k, old). same_cookie old c \<and> coHttpOnly old) (jrEntries j)" for c
  proof -
    have safe: "\<forall>e\<in>http_only j. plain_cookie (snd e) \<and> \<not> expired now (snd e) \<and> \<not> same_cookie (snd e) c"
      using assms(3) c(2) by (fastforce simp: http_only_def list_ex_iff)
    have "(cookie_key ?h (coName c) (coDomain c) (coPath c), c') \<notin> http_only j" for c'
    proof
      assume ho: "(cookie_key ?h (coName c) (coDomain c) (coPath c), c') \<in> http_only j"
      then have "coName c' = coName c \<and> coDomain c' = coDomain c \<and> coPath c' = coPath c"
        using safe by (intro http_only_key[OF assms(1)]) (auto simp: http_only_def)
      then show False using safe ho by (auto simp: same_cookie_def)
    qed
    then have "http_only (j\<lparr>jrEntries := AList.delete (cookie_key ?h (coName c) (coDomain c) (coPath c)) (jrEntries j)\<rparr>) = http_only j"
      by (auto simp: http_only_def AList.delete_eq)
    moreover have "http_only (put_cookie shuffle now ?h c j) = http_only j"
      by (rule put_cookie_http_only[OF assms(1,2) c(1) safe])
        (use assms(4,5) in \<open>simp_all add: MaxTotalCookies_def MaxCookiesPerHost_def\<close>)
    ultimately show ?thesis by simp
  qed
  show "http_only (set_from_document shuffle dates now (Some u) text j) = http_only j"
  proof (cases "parse_set_cookie dates now text")
    case (Some c)
    show ?thesis
    proof (cases "scope_cookie u (c\<lparr>coHttpOnly := False\<rparr>)")
      case scoped: (Some c')
      have "\<not> coHttpOnly c'" using scope_http_only[OF scoped] by simp
      from step[OF this] show ?thesis by (cases "expired now c'") (auto simp: set_from_document_def Some scoped Let_def)
    qed (simp add: set_from_document_def Some)
  qed (simp add: set_from_document_def)
qed

lemma shop_entries:
  "shop_jar = \<lparr>jrEntries =
     [(''shop.example.com'' @ nul # ''id'' @ nul # ''shop.example.com'' @ nul # ''/'',
       \<lparr>coName = ''id'', coValue = ''7'', coDomain = ''shop.example.com'', coPath = ''/'', coSecure = True, coHttpOnly = True,
        coExpires = 0, coHostOnly = True, coSeq = 0\<rparr>),
      (''shop.example.com'' @ nul # ''lang'' @ nul # ''example.com'' @ nul # ''/cart/'',
       \<lparr>coName = ''lang'', coValue = ''en'', coDomain = ''example.com'', coPath = ''/cart/'', coSecure = False, coHttpOnly = False,
        coExpires = 0, coHostOnly = False, coSeq = 1\<rparr>)], jrNext = 2\<rparr>"
  by code_simp

theorem http_only_protected_witness:
  "http_only (set_from_document (\<lambda>es. es) (\<lambda>_. None) 6 (Some shop) ''id=stolen; Path=/; Max-Age=0'' shop_jar) = http_only shop_jar
   \<and> http_only shop_jar \<noteq> {}"
proof -
  have ho: "http_only shop_jar = set (filter (\<lambda>e. coHttpOnly (snd e)) (jrEntries shop_jar))" by (simp add: http_only_def)
  have e: "\<forall>e\<in>http_only shop_jar. plain_cookie (snd e) \<and> \<not> expired 6 (snd e)" "http_only shop_jar \<noteq> {}"
    "length (jrEntries shop_jar) < 3000"
    unfolding ho by (simp_all add: shop_entries plain_cookie_def expired_def nul_char)
  have "per_host (to_lower (urHost shop)) (jrEntries shop_jar) < 50"
    using length_filter_le[of _ "jrEntries shop_jar"] by (simp add: per_host_def shop_entries)
  from http_only_protected[OF shop_reach rearranges_id e(1,3) this] e(2) show ?thesis by blast
qed

subsection \<open>Saving and loading\<close>

text \<open>No two entries are the same cookie; storing keeps that.\<close>

definition unique_cookies :: "jar \<Rightarrow> bool" where
  "unique_cookies j \<longleftrightarrow> distinct (map (identity \<circ> snd) (jrEntries j))"

lemma update_new: "k \<notin> fst ` set es \<Longrightarrow> AList.update k v es = es @ [(k, v)]"
  by (induction es) auto

lemma update_range: "(k', w) \<in> set (AList.update k c es) \<Longrightarrow> w = c \<or> (k', w) \<in> set es"
  by (induction es) (auto split: if_splits)

lemma update_identities:
  "distinct (map (identity \<circ> snd) es) \<Longrightarrow> identity c \<notin> (identity \<circ> snd) ` set es \<Longrightarrow>
   distinct (map (identity \<circ> snd) (AList.update k c es))"
proof (induction es)
  case (Cons e es)
  obtain k' v where e: "e = (k', v)" by (cases e)
  have d: "distinct (map (identity \<circ> snd) es)" and v: "identity v \<noteq> identity c"
    and nc: "identity c \<notin> (identity \<circ> snd) ` set es" and nv: "identity v \<notin> (identity \<circ> snd) ` set es"
    using Cons.prems by (auto simp: e o_def)
  have "identity v \<notin> (identity \<circ> snd) ` set (AList.update k c es)"
    using nv v update_range[of _ _ k c es] by force
  then show ?case using Cons.IH[OF d nc] d nc by (simp add: e o_def)
qed simp

lemma put_cookie_unique:
  assumes "unique_cookies j" "distinct (map fst (jrEntries j))" "rearranges shuffle"
  shows "unique_cookies (put_cookie shuffle now host c j)"
proof -
  let ?es = "filter (\<lambda>(k, old). \<not> same_cookie old c) (jrEntries j)" and ?key = "cookie_key host (coName c) (coDomain c) (coPath c)"
  let ?c = "c\<lparr>coSeq := jrNext j\<rparr>"
  let ?j = "j\<lparr>jrNext := jrNext j + 1, jrEntries := AList.update ?key ?c ?es\<rparr>"
  have "distinct (map (identity \<circ> snd) ?es)" "identity ?c \<notin> (identity \<circ> snd) ` set ?es"
    using assms(1) by (auto simp: unique_cookies_def distinct_map inj_on_def identity_def same_cookie_def)
  from update_identities[OF this] have d: "distinct (map (identity \<circ> snd) (jrEntries ?j))" by simp
  have "distinct (map fst ?es)" using assms(2) by (auto simp: distinct_map inj_on_def)
  then have "distinct (map fst (jrEntries ?j))" by (simp add: AList.distinct_update)
  from evict_ok(3)[OF assms(3) this, where host = host and now = now]
  have "mset (map (identity \<circ> snd) (jrEntries (evict shuffle now host ?j))) \<subseteq># mset (map (identity \<circ> snd) (jrEntries ?j))"
    by (simp add: image_mset_subseteq_mono)
  from distinct_mset_le[OF this d] show ?thesis by (simp add: unique_cookies_def put_cookie_def Let_def)
qed

definition persist :: "cookie \<Rightarrow> persisted" where
  "persist c = \<lparr>psName = coName c, psValue = coValue c, psDomain = coDomain c, psPath = coPath c, psSecure = coSecure c,
     psHttpOnly = coHttpOnly c, psExpires = coExpires c, psHostOnly = coHostOnly c\<rparr>"

definition lasting :: "int \<Rightarrow> cookie \<Rightarrow> bool" where
  "lasting now c \<longleftrightarrow> \<not> (coExpires c = 0 \<or> coExpires c < now)"

text \<open>A cookie up to its place in the eviction order.\<close>

definition content :: "cookie \<Rightarrow> cookie" where
  "content c = c\<lparr>coSeq := 0\<rparr>"

definition full_cookie :: "cookie \<Rightarrow> bool" where
  "full_cookie c \<longleftrightarrow> plain_cookie c \<and> coName c \<noteq> [] \<and> coDomain c \<noteq> [] \<and> coPath c \<noteq> []"

abbreviation disk_key :: "cookie \<Rightarrow> string" where
  "disk_key c \<equiv> cookie_key (coDomain c) (coName c) (coDomain c) (coPath c)"

lemma saved_eq: "saved shuffle now j = map persist (filter (lasting now) (map snd (shuffle (jrEntries j))))"
  by (simp add: saved_def persist_def[abs_def] lasting_def[abs_def])

lemma disk_key_inject: "full_cookie c \<Longrightarrow> disk_key c = disk_key d \<Longrightarrow> identity c = identity d"
  using cookie_key_inject[of "coDomain c" "coName c" "coDomain c" "coPath c"] by (simp add: full_cookie_def plain_cookie_def identity_def)

lemma content_seq [simp]: "content (c\<lparr>coSeq := n\<rparr>) = content c"
  by (simp add: content_def)

lemma load_fold:
  "\<forall>c\<in>set cs. full_cookie c \<and> lasting now c \<Longrightarrow> distinct (map disk_key cs) \<Longrightarrow> disk_key ` set cs \<inter> fst ` set (jrEntries j) = {}
   \<Longrightarrow> fold (load_one now) (map persist cs) (j, hs) = (j', hs')
   \<Longrightarrow> map fst (jrEntries j') = map fst (jrEntries j) @ map disk_key cs
     \<and> map (content \<circ> snd) (jrEntries j') = map (content \<circ> snd) (jrEntries j) @ map content cs
     \<and> set hs' = set hs \<union> coDomain ` set cs"
proof (induction cs arbitrary: j hs)
  case (Cons c cs)
  define j1 where "j1 = j\<lparr>jrEntries := jrEntries j @ [(disk_key c, c\<lparr>coSeq := jrNext j\<rparr>)], jrNext := jrNext j + 1\<rparr>"
  have fresh: "disk_key c \<notin> fst ` set (jrEntries j)" using Cons.prems(3) by auto
  have "load_one now (persist c) (j, hs) = (j1, List.insert (coDomain c) hs)"
    using Cons.prems(1) fresh by (cases c) (auto simp: load_one_def persist_def full_cookie_def lasting_def update_new j1_def)
  then have "fold (load_one now) (map persist cs) (j1, List.insert (coDomain c) hs) = (j', hs')" using Cons.prems(4) by simp
  moreover have "disk_key ` set cs \<inter> fst ` set (jrEntries j1) = {}" using Cons.prems(2,3) by (auto simp: j1_def)
  ultimately have "map fst (jrEntries j') = map fst (jrEntries j1) @ map disk_key cs
     \<and> map (content \<circ> snd) (jrEntries j') = map (content \<circ> snd) (jrEntries j1) @ map content cs
     \<and> set hs' = set (List.insert (coDomain c) hs) \<union> coDomain ` set cs"
    using Cons.prems(1,2) by (intro Cons.IH) auto
  then show ?case by (auto simp: j1_def o_def)
qed simp

lemma per_host_keys: "per_host h es = length (filter (prefix (host_prefix h)) (map fst es))"
  by (simp add: per_host_def filter_map o_def case_prod_beta')

lemma evict_idle:
  assumes "per_host h (jrEntries j) \<le> MaxCookiesPerHost" "length (jrEntries j) \<le> MaxTotalCookies" "\<forall>e\<in>set (jrEntries j). \<not> expired now (snd e)"
  shows "evict shuffle now h j = j"
proof -
  have "jrEntries (evict shuffle now h j) = jrEntries j"
    unfolding evict_room[OF assms(1,2)] using assms(3) by (simp add: case_prod_beta filter_id_conv)
  then show ?thesis by (cases j) (simp add: evict_def Let_def)
qed

lemma evict_fold_idle:
  "\<forall>h\<in>set hs. per_host h (jrEntries j) \<le> MaxCookiesPerHost \<Longrightarrow> length (jrEntries j) \<le> MaxTotalCookies \<Longrightarrow>
   \<forall>e\<in>set (jrEntries j). \<not> expired now (snd e) \<Longrightarrow> fold (evict shuffle now) hs j = j"
  by (induction hs) (auto simp: evict_idle)

text \<open>Well-formed UTF-8, which JSON brings back as it was.\<close>

function utf8 :: "string \<Rightarrow> bool" where
  "utf8 [] = True"
| "utf8 (a # s) = (rune_len (a # s) \<noteq> 0 \<and> utf8 (drop (rune_len (a # s) - 1) s))"
  by pat_completeness auto
termination by (relation "measure length") auto

lemma json_text_utf8: "utf8 s \<Longrightarrow> json_text s = s"
  by (induction s rule: utf8.induct) auto

definition text_cookie :: "cookie \<Rightarrow> bool" where
  "text_cookie c \<longleftrightarrow> utf8 (coName c) \<and> utf8 (coValue c) \<and> utf8 (coDomain c) \<and> utf8 (coPath c)"

lemma json_entry_persist: "text_cookie c \<Longrightarrow> json_entry (persist c) = persist c"
  by (simp add: json_entry_def persist_def text_cookie_def json_text_utf8)

lemma json_entries: "\<forall>c\<in>set cs. text_cookie c \<Longrightarrow> map json_entry (map persist cs) = map persist cs"
  by (simp add: json_entry_persist)

text \<open>
  Claim C32. A saved jar loads back: when \<open>Save\<close> writes the file (it cannot if a cookie expires after
  the year 9999), reading it into a new jar at the same moment restores, in any map order, exactly
  the unexpired persistent cookies with all their attributes, provided that their names, values,
  domains and paths are well-formed UTF-8, and all but the values neither empty nor with a NUL, that no two of the jar's
  cookies have the same name, domain and path, and that no domain has more than fifty of them; session
  cookies are left behind.
\<close>

theorem save_load_restores:
  assumes "jar_reach H j" "unique_cookies j" "rearranges sh1" "rearranges pick" "written sh1 now j = Some ps"
    and full_text: "\<forall>(k, c)\<in>set (jrEntries j). lasting now c \<longrightarrow> full_cookie c \<and> text_cookie c"
    and room: "\<forall>d. length (filter (\<lambda>(k, c). lasting now c \<and> coDomain c = d) (jrEntries j)) \<le> 50"
  shows "image_mset content (mset (map snd (jrEntries (load_file sh2 pick now ps new_jar))))
    = image_mset content (filter_mset (lasting now) (mset (map snd (jrEntries j))))"
proof -
  define cs where "cs = filter (lasting now) (map snd (sh1 (jrEntries j)))"
  note R = rearrangesD[OF assms(3)]
  have m: "mset cs = filter_mset (lasting now) (mset (map snd (jrEntries j)))" using R(1) by (simp add: cs_def)
  have full: "\<forall>(k, c)\<in>set (jrEntries j). lasting now c \<longrightarrow> full_cookie c" using full_text by auto
  have cs: "\<forall>c\<in>set cs. full_cookie c \<and> lasting now c" using full R(2) by (auto simp: cs_def)
  have tc: "\<forall>c\<in>set cs. text_cookie c" using full_text R(2) by (auto simp: cs_def)
  have "ps = map json_entry (map persist cs)"
    using assms(5) by (simp add: written_def saved_eq Let_def flip: cs_def split: if_splits)
  then have ps: "map json_entry ps = map persist cs" by (simp only: json_entries[OF tc])
  have "mset (map identity cs) \<subseteq># mset (map (identity \<circ> snd) (jrEntries j))"
    by (simp add: m image_mset_subseteq_mono multiset_filter_subset flip: image_mset.compositionality)
  from distinct_mset_le[OF this] have "distinct (map identity cs)" using assms(2) by (simp add: unique_cookies_def)
  then have "inj_on identity (set cs)" "distinct cs" by (simp_all add: distinct_map)
  moreover have "inj_on disk_key (set cs)"
  proof (rule inj_onI)
    fix c d assume "c \<in> set cs" "d \<in> set cs" "disk_key c = disk_key d"
    moreover from this have "identity c = identity d" using cs by (intro disk_key_inject) auto
    ultimately show "c = d" using inj_onD[OF \<open>inj_on identity (set cs)\<close>] by blast
  qed
  ultimately have dk: "distinct (map disk_key cs)" by (simp add: distinct_map)
  obtain j1 hs where f: "fold (load_one now) (map persist cs) (new_jar, []) = (j1, hs)" by fastforce
  have L: "map fst (jrEntries j1) = map disk_key cs" "map (content \<circ> snd) (jrEntries j1) = map content cs" "set hs = coDomain ` set cs"
    using load_fold[OF cs dk _ f] by (simp_all add: new_jar_def)
  have len: "length (jrEntries j1) = length cs" using L(1) by (metis length_map)
  have "size (mset cs) \<le> size (mset (map snd (jrEntries j)))" unfolding m by (rule size_filter_mset_lesseq)
  then have tot: "length (jrEntries j1) \<le> MaxTotalCookies"
    using jar_reach_limits[OF assms(1)] len by (simp add: within_limits_def)
  have live: "\<forall>e\<in>set (jrEntries j1). \<not> expired now (snd e)"
  proof
    fix e assume "e \<in> set (jrEntries j1)"
    then have "content (snd e) \<in> set (map content cs)" unfolding L(2)[symmetric] by (auto simp: image_iff)
    then obtain c where "c \<in> set cs" "content (snd e) = content c" by auto
    moreover from this(2) have "coExpires (snd e) = coExpires c" unfolding content_def by (metis cookie.select_convs(7) cookie.surjective cookie.update_convs(9))
    ultimately show "\<not> expired now (snd e)" using cs by (auto simp: lasting_def expired_def)
  qed
  have per: "per_host h (jrEntries j1) \<le> MaxCookiesPerHost" if h: "h \<in> set hs" for h
  proof -
    obtain c where c: "c \<in> set cs" "h = coDomain c" using h L(3) by auto
    have nh: "nul \<notin> set h" using c cs by (auto simp: full_cookie_def plain_cookie_def)
    have "per_host h (jrEntries j1) = length (filter (\<lambda>c. prefix (host_prefix h) (disk_key c)) cs)"
      by (simp add: per_host_keys L(1) filter_map o_def)
    also have "filter (\<lambda>c. prefix (host_prefix h) (disk_key c)) cs = filter (\<lambda>c. coDomain c = h) cs"
    proof (rule filter_cong[OF refl])
      fix d assume "d \<in> set cs"
      then have "nul \<notin> set (coDomain d)" using cs by (auto simp: full_cookie_def plain_cookie_def)
      then show "prefix (host_prefix h) (disk_key d) = (coDomain d = h)"
        using host_prefix_key[OF nh] by (auto simp: host_prefix_def cookie_key_def)
    qed
    also have "length \<dots> = size (filter_mset (\<lambda>c. coDomain c = h) (mset cs))" by (simp flip: size_mset mset_filter)
    also have "\<dots> = length (filter (\<lambda>(k, c). lasting now c \<and> coDomain c = h) (jrEntries j))"
      by (simp add: m filter_filter_mset filter_mset_image_mset case_prod_beta' conj_commute flip: size_mset mset_filter)
    finally show ?thesis using room by (simp add: MaxCookiesPerHost_def)
  qed
  have "set (pick hs) = set hs" by (rule rearrangesD(2)[OF assms(4)])
  then have "load_file sh2 pick now ps new_jar = j1"
    using evict_fold_idle[of "pick hs" j1 now sh2] per tot live by (simp add: load_file_def load_def ps f)
  moreover have "image_mset content (mset (map snd (jrEntries j1))) = mset (map content cs)"
    unfolding L(2)[symmetric] by (simp add: image_mset.compositionality)
  ultimately show ?thesis by (simp add: m)
qed

text \<open>A jar with a cookie for a minute and one for the session.\<close>

definition kept_jar :: jar where
  "kept_jar = store (\<lambda>x. x) (\<lambda>_. None) 5 shop [''id=7; Max-Age=60; Path=/'', ''lang=en''] new_jar"

lemma kept_reach: "jar_reach {''shop.example.com''} kept_jar"
proof -
  have "jar_reach (insert (to_lower (urHost shop)) {}) kept_jar"
    unfolding kept_jar_def by (rule jar_reach.response[OF jar_reach.empty rearranges_id nul_shop])
  moreover have "to_lower (urHost shop) = ''shop.example.com''" by code_simp
  ultimately show ?thesis by simp
qed

lemma kept_entries:
  "jrEntries kept_jar =
     [(''shop.example.com'' @ nul # ''id'' @ nul # ''shop.example.com'' @ nul # ''/'',
       \<lparr>coName = ''id'', coValue = ''7'', coDomain = ''shop.example.com'', coPath = ''/'', coSecure = False, coHttpOnly = False,
        coExpires = 60000000005, coHostOnly = True, coSeq = 0\<rparr>),
      (''shop.example.com'' @ nul # ''lang'' @ nul # ''shop.example.com'' @ nul # ''/cart/'',
       \<lparr>coName = ''lang'', coValue = ''en'', coDomain = ''shop.example.com'', coPath = ''/cart/'', coSecure = False, coHttpOnly = False,
        coExpires = 0, coHostOnly = True, coSeq = 1\<rparr>)]"
  by code_simp

lemma kept_written: "\<exists>ps. written (\<lambda>x. x) 9 kept_jar = Some ps"
  by (simp add: written_def saved_def kept_entries json_time_end_def unix_time_def unix_second_def)

theorem save_load_restores_witness:
  "\<exists>ps. written (\<lambda>x. x) 9 kept_jar = Some ps \<and> image_mset content (mset (map snd (jrEntries (load_file (\<lambda>x. x) (\<lambda>x. x) 9 ps new_jar)))) =
   {#\<lparr>coName = ''id'', coValue = ''7'', coDomain = ''shop.example.com'', coPath = ''/'', coSecure = False, coHttpOnly = False,
     coExpires = 60000000005, coHostOnly = True, coSeq = 0\<rparr>#}"
proof -
  have u: "unique_cookies kept_jar" by (simp add: unique_cookies_def kept_entries identity_def)
  have "utf8 ''id'' \<and> utf8 ''7'' \<and> utf8 ''shop.example.com'' \<and> utf8 ''/''" by code_simp
  then have full: "\<forall>(k, c)\<in>set (jrEntries kept_jar). lasting 9 c \<longrightarrow> full_cookie c \<and> text_cookie c"
    by (simp add: kept_entries lasting_def full_cookie_def text_cookie_def plain_cookie_def nul_char del: utf8.simps)
  have "length (filter P (jrEntries kept_jar)) \<le> 50" for P
    using length_filter_le[of P "jrEntries kept_jar"] by (simp add: kept_entries)
  then have r: "\<forall>d. length (filter (\<lambda>(k, c). lasting 9 c \<and> coDomain c = d) (jrEntries kept_jar)) \<le> 50" by blast
  obtain ps where w: "written (\<lambda>x. x) 9 kept_jar = Some ps" using kept_written by blast
  from save_load_restores[OF kept_reach u rearranges_id rearranges_id w full r, of "\<lambda>x. x"] w
  show ?thesis by (simp add: kept_entries lasting_def content_def)
qed

subsection \<open>Where the jar departs from its rules\<close>

text \<open>A value in Latin-1, as servers send them, comes back from the file as another one.\<close>

lemma latin1_value_changed:
  "json_text (''caf'' @ [char_of (233 :: nat)]) = ''caf'' @ map char_of [239, 191, 189 :: nat]"
  by code_simp

text \<open>A leading dot is dropped twice, once when the attribute is read and once when it is
  matched, so a second one passes the check for a bare top-level name: a page of one
  site sets a cookie that a page of another sends.\<close>

lemma double_dot_reaches_other_sites:
  "header_for (\<lambda>x. x) 6 \<lparr>urScheme = ''https'', urHost = ''bank.com'', urPath = ''/''\<rparr>
     (store (\<lambda>x. x) (\<lambda>_. None) 5 \<lparr>urScheme = ''https'', urHost = ''evil.com'', urPath = ''/''\<rparr>
       [''sid=forged; Domain=..com; Path=/''] new_jar) = ''sid=forged''"
  by code_simp

text \<open>The seconds of \<open>Max-Age\<close> are multiplied at 64 bits: from 9223372037 on the product is
  negative and the cookie, meant to stay for three centuries, is not stored.\<close>

lemma huge_max_age_expires:
  "coExpires (parse_attr (\<lambda>_. None) now ''Max-Age=9223372037'' c) < now"
proof -
  have "(let (key, val) = cut_at (CHR ''='') ''Max-Age=9223372037'' in (to_lower (trim_space key), atoi (trim_space val)))
      = (''max-age'', Some 9223372037)" by code_simp
  then show ?thesis by (auto simp: parse_attr_def Let_def unix_second_def i64_def split: prod.splits)
qed

text \<open>A negative \<open>Max-Age\<close> leaves the expiry as it was.\<close>

lemma negative_max_age_ignored: "parse_attr (\<lambda>_. None) 5 ''Max-Age=-1'' c = c"
proof -
  have "(let (key, val) = cut_at (CHR ''='') ''Max-Age=-1'' in (to_lower (trim_space key), atoi (trim_space val)))
      = (''max-age'', Some (-1))" by code_simp
  then show ?thesis by (auto simp: parse_attr_def Let_def split: prod.splits)
qed

text \<open>Over the limit of one host, the first victim is the least entry of the whole jar, whichever
  host it belongs to.\<close>

lemma eviction_crosses_hosts:
  assumes "MaxCookiesPerHost < per_host host es" "map_of es k = Some c" "\<not> prefix (host_prefix host) k"
  shows "evict_victims host (per_host host es) n ((k, c) # vs) es
    = evict_victims host (per_host host es) (n - 1) vs (AList.delete k es)"
  using assms by simp

end
