(* ===== verification/Nav_History.thy ===== *)
theory Nav_History
  imports Prelude
begin

text \<open>
  \<open>internal/toolbar/history.go\<close>: one tab's back and forward trail, a slice of addresses and a
  cursor into it, and its refinement to the trail a user sees: the pages behind, the page
  shown, the pages ahead. Every method holds the history's mutex for its whole body, so an
  operation is one step. An index out of the slice's range is a panic, \<open>None\<close>.
\<close>

subsection \<open>The code\<close>

record history =
  hsEntries :: "string list"
  hsIndex :: int

definition new_history :: history where
  "new_history = \<lparr>hsEntries = [], hsIndex = -1\<rparr>"

definition entry_at :: "history \<Rightarrow> int \<Rightarrow> string option" where
  "entry_at h i = (if 0 \<le> i \<and> i < int (length (hsEntries h)) then Some (hsEntries h ! nat i) else None)"

definition push_url :: "string \<Rightarrow> history \<Rightarrow> history" where
  "push_url u h =
     (let es = (if hsIndex h \<ge> 0 \<and> hsIndex h < int (length (hsEntries h)) - 1
                then take (nat (hsIndex h + 1)) (hsEntries h) else hsEntries h)
      in h\<lparr>hsEntries := es @ [u], hsIndex := int (length (es @ [u])) - 1\<rparr>)"

definition can_back :: "history \<Rightarrow> bool" where
  "can_back h \<longleftrightarrow> hsIndex h > 0"

definition can_forward :: "history \<Rightarrow> bool" where
  "can_forward h \<longleftrightarrow> hsIndex h \<ge> 0 \<and> hsIndex h < int (length (hsEntries h)) - 1"

definition back_locked :: "history \<Rightarrow> ((string \<times> bool) \<times> history) option" where
  "back_locked h =
     (if hsIndex h \<le> 0 then Some (([], False), h)
      else let h = h\<lparr>hsIndex := hsIndex h - 1\<rparr>
           in map_option (\<lambda>u. ((u, True), h)) (entry_at h (hsIndex h)))"

definition forward_locked :: "history \<Rightarrow> ((string \<times> bool) \<times> history) option" where
  "forward_locked h =
     (if hsIndex h < 0 \<or> hsIndex h \<ge> int (length (hsEntries h)) - 1 then Some (([], False), h)
      else let h = h\<lparr>hsIndex := hsIndex h + 1\<rparr>
           in map_option (\<lambda>u. ((u, True), h)) (entry_at h (hsIndex h)))"

text \<open>The address, the cursor the peek saw, and whether there is one.\<close>

definition peek_back :: "history \<Rightarrow> (string \<times> int \<times> bool) option" where
  "peek_back h =
     (if hsIndex h \<le> 0 then Some ([], hsIndex h, False)
      else map_option (\<lambda>u. (u, hsIndex h, True)) (entry_at h (hsIndex h - 1)))"

definition peek_forward :: "history \<Rightarrow> (string \<times> int \<times> bool) option" where
  "peek_forward h =
     (if hsIndex h < 0 \<or> hsIndex h \<ge> int (length (hsEntries h)) - 1 then Some ([], hsIndex h, False)
      else map_option (\<lambda>u. (u, hsIndex h, True)) (entry_at h (hsIndex h + 1)))"

definition step :: "int \<Rightarrow> int \<Rightarrow> history \<Rightarrow> (bool \<times> history) option" where
  "step delta base h =
     (if hsIndex h \<noteq> base then Some (False, h)
      else if delta < 0 then map_option (\<lambda>((u, ok), h). (ok, h)) (back_locked h)
      else if delta > 0 then map_option (\<lambda>((u, ok), h). (ok, h)) (forward_locked h)
      else Some (False, h))"

definition replace_current :: "string \<Rightarrow> history \<Rightarrow> history" where
  "replace_current u h =
     (if hsIndex h < 0 \<or> hsIndex h \<ge> int (length (hsEntries h)) \<or> u = [] then h
      else h\<lparr>hsEntries := (hsEntries h)[nat (hsIndex h) := u]\<rparr>)"

definition current :: "history \<Rightarrow> string" where
  "current h = (if hsIndex h < 0 \<or> hsIndex h \<ge> int (length (hsEntries h)) then [] else hsEntries h ! nat (hsIndex h))"

definition entries_of :: "history \<Rightarrow> string list \<times> int" where
  "entries_of h = (hsEntries h, hsIndex h)"

definition restore_history :: "string list \<Rightarrow> int \<Rightarrow> history" where
  "restore_history es i =
     (let i = (if i < -1 then -1 else i);
          i = (if i > int (length es) - 1 then int (length es) - 1 else i)
      in \<lparr>hsEntries = es, hsIndex = i\<rparr>)"

subsection \<open>The trail a user sees\<close>

text \<open>A trail with no page shown yet, or the pages behind (nearest first), the page shown and
  the pages ahead.\<close>

datatype trail = Unset "string list" | At "string list" string "string list"

fun visit :: "string \<Rightarrow> trail \<Rightarrow> trail" where
  "visit u (Unset es) = At (rev es) u []"
| "visit u (At b c f) = At (c # b) u []"

fun go_back :: "trail \<Rightarrow> string option \<times> trail" where
  "go_back (At (p # b) c f) = (Some p, At b p (c # f))"
| "go_back t = (None, t)"

fun go_forward :: "trail \<Rightarrow> string option \<times> trail" where
  "go_forward (At b c (n # f)) = (Some n, At (c # b) n f)"
| "go_forward t = (None, t)"

fun rename_page :: "string \<Rightarrow> trail \<Rightarrow> trail" where
  "rename_page u (At b c f) = At b (if u = [] then c else u) f"
| "rename_page u t = t"

fun shown_page :: "trail \<Rightarrow> string" where
  "shown_page (At b c f) = c"
| "shown_page (Unset es) = []"

text \<open>Where on the trail the page shown stands, -1 before the first.\<close>

fun place :: "trail \<Rightarrow> int" where
  "place (Unset es) = -1"
| "place (At b c f) = int (length b)"

definition trail_of :: "history \<Rightarrow> trail" where
  "trail_of h = (let es = hsEntries h; n = nat (hsIndex h) in
     if hsIndex h < 0 then Unset es else At (rev (take n es)) (es ! n) (drop (Suc n) es))"

definition hist_ok :: "history \<Rightarrow> bool" where
  "hist_ok h \<longleftrightarrow> - 1 \<le> hsIndex h \<and> hsIndex h < int (length (hsEntries h))"

lemma hist_ok_new [simp]: "hist_ok new_history"
  by (simp add: hist_ok_def new_history_def)

lemma hist_ok_restore [simp]: "hist_ok (restore_history es i)"
  by (simp add: hist_ok_def restore_history_def Let_def)

lemma hist_cases:
  assumes "hist_ok h"
  obtains (unset) "hsIndex h = -1" "trail_of h = Unset (hsEntries h)"
  | (at) b c f where "h = \<lparr>hsEntries = rev b @ c # f, hsIndex = int (length b)\<rparr>" "trail_of h = At b c f"
proof (cases "hsIndex h < 0")
  case True
  then show ?thesis using assms by (intro unset) (auto simp: hist_ok_def trail_of_def)
next
  case False
  let ?n = "nat (hsIndex h)" and ?es = "hsEntries h"
  have n: "?n < length ?es" using assms False by (auto simp: hist_ok_def)
  have "h = \<lparr>hsEntries = rev (rev (take ?n ?es)) @ ?es ! ?n # drop (Suc ?n) ?es, hsIndex = int (length (rev (take ?n ?es)))\<rparr>"
    using n False by (cases h) (simp add: id_take_nth_drop[symmetric])
  then show ?thesis using False by (intro at) (auto simp: trail_of_def Let_def)
qed

text \<open>On a trail with a page shown every method is the trail's.\<close>

lemma here [simp]: "(rev b @ c # f) ! length b = c"
  by (simp add: nth_append)

lemma trail_at [simp]: "trail_of \<lparr>hsEntries = rev b @ c # f, hsIndex = int (length b)\<rparr> = At b c f"
  by (simp add: trail_of_def)

lemma hist_ok_at [simp]: "hist_ok \<lparr>hsEntries = rev b @ c # f, hsIndex = int (length b)\<rparr>"
  by (simp add: hist_ok_def)

lemma back_at: "back_locked \<lparr>hsEntries = rev (p # b) @ c # f, hsIndex = int (length (p # b))\<rparr>
    = Some ((p, True), \<lparr>hsEntries = rev b @ p # c # f, hsIndex = int (length b)\<rparr>)"
  by (simp add: back_locked_def entry_at_def)

lemma forward_at: "forward_locked \<lparr>hsEntries = rev b @ c # n # f, hsIndex = int (length b)\<rparr>
    = Some ((n, True), \<lparr>hsEntries = rev (c # b) @ n # f, hsIndex = int (length (c # b))\<rparr>)"
proof -
  have "nat (int (length b) + 1) = length (c # b)" by simp
  moreover have "(rev (c # b) @ n # f) ! length (c # b) = n" by (rule here)
  ultimately show ?thesis by (simp add: forward_locked_def entry_at_def)
qed

lemma push_at: "push_url u \<lparr>hsEntries = rev b @ c # f, hsIndex = int (length b)\<rparr>
    = \<lparr>hsEntries = rev (c # b) @ [u], hsIndex = int (length (c # b))\<rparr>"
proof -
  have "nat (int (length b) + 1) = length (rev b @ [c])" by simp
  then have "take (nat (int (length b) + 1)) (rev b @ c # f) = rev b @ [c]" by (simp add: nat_add_distrib)
  then show ?thesis by (cases f) (auto simp: push_url_def)
qed

text \<open>What a traversal answers, as the trail's answer.\<close>

definition answer :: "string option \<Rightarrow> string \<times> bool" where
  "answer r = (case r of None \<Rightarrow> ([], False) | Some u \<Rightarrow> (u, True))"

lemma back_refines:
  assumes "hist_ok h"
  shows "\<exists>h'. back_locked h = Some (answer (fst (go_back (trail_of h))), h') \<and> hist_ok h' \<and> trail_of h' = snd (go_back (trail_of h))"
  using assms
proof (cases rule: hist_cases)
  case (at b c f)
  show ?thesis
  proof (cases b)
    case (Cons p b')
    then show ?thesis using at back_at[of p b' c f] trail_at[of b' p "c # f"] hist_ok_at[of b' p "c # f"]
      by (auto simp: answer_def)
  qed (use at assms in \<open>auto simp: back_locked_def answer_def\<close>)
qed (use assms in \<open>auto simp: back_locked_def answer_def\<close>)

lemma forward_refines:
  assumes "hist_ok h"
  shows "\<exists>h'. forward_locked h = Some (answer (fst (go_forward (trail_of h))), h') \<and> hist_ok h' \<and> trail_of h' = snd (go_forward (trail_of h))"
  using assms
proof (cases rule: hist_cases)
  case (at b c f)
  show ?thesis
  proof (cases f)
    case (Cons n f')
    then show ?thesis using at forward_at[of b c n f'] trail_at[of "c # b" n f'] hist_ok_at[of "c # b" n f']
      by (auto simp: answer_def)
  qed (use at assms in \<open>auto simp: forward_locked_def answer_def\<close>)
qed (use assms in \<open>auto simp: forward_locked_def answer_def\<close>)

lemma push_refines:
  assumes "hist_ok h"
  shows "hist_ok (push_url u h) \<and> trail_of (push_url u h) = visit u (trail_of h)"
  using assms
proof (cases rule: hist_cases)
  case unset
  then show ?thesis by (auto simp: push_url_def hist_ok_def trail_of_def Let_def)
next
  case (at b c f)
  then show ?thesis using push_at[of u b c f] trail_at[of "c # b" u "[]"] hist_ok_at[of "c # b" u "[]"] by auto
qed

lemma replace_refines:
  assumes "hist_ok h"
  shows "hist_ok (replace_current u h) \<and> trail_of (replace_current u h) = rename_page u (trail_of h)"
  using assms
proof (cases rule: hist_cases)
  case unset
  then show ?thesis using assms by (auto simp: replace_current_def)
next
  case (at b c f)
  have "(rev b @ c # f)[length b := u] = rev b @ u # f" by (simp add: list_update_append)
  then show ?thesis using at trail_at[of b u f] hist_ok_at[of b u f] assms by (auto simp: replace_current_def)
qed

lemma current_refines: "hist_ok h \<Longrightarrow> current h = shown_page (trail_of h)"
  by (auto simp: current_def hist_ok_def trail_of_def Let_def)

lemma index_refines: "hist_ok h \<Longrightarrow> hsIndex h = place (trail_of h)"
  by (auto simp: hist_ok_def trail_of_def Let_def)

text \<open>A peek tells what the traversal will answer and leaves the cursor.\<close>

lemma peek_back_tells: "hist_ok h \<Longrightarrow> peek_back h = map_option (\<lambda>(a, h'). (fst a, hsIndex h, snd a)) (back_locked h)"
  by (auto simp: peek_back_def back_locked_def entry_at_def hist_ok_def)

lemma peek_forward_tells: "hist_ok h \<Longrightarrow> peek_forward h = map_option (\<lambda>(a, h'). (fst a, hsIndex h, snd a)) (forward_locked h)"
  by (auto simp: peek_forward_def forward_locked_def entry_at_def hist_ok_def)

subsection \<open>Refinement\<close>

text \<open>The calls of the browser on one tab's history, and what they answer.\<close>

datatype nav_op = Visit string | Back | Forward | PeekBack | PeekForward | Commit int int | Rename string | Show
  | Restore "string list" int | SaveRestore

datatype nav_answer = Nothing | Moved "string \<times> bool" | Peeked string int bool | Committed bool | Page string

fun nav_exec :: "nav_op \<Rightarrow> history \<Rightarrow> (nav_answer \<times> history) option" where
  "nav_exec (Visit u) h = Some (Nothing, push_url u h)"
| "nav_exec Back h = map_option (\<lambda>r. (Moved (fst r), snd r)) (back_locked h)"
| "nav_exec Forward h = map_option (\<lambda>r. (Moved (fst r), snd r)) (forward_locked h)"
| "nav_exec PeekBack h = map_option (\<lambda>(u, i, ok). (Peeked u i ok, h)) (peek_back h)"
| "nav_exec PeekForward h = map_option (\<lambda>(u, i, ok). (Peeked u i ok, h)) (peek_forward h)"
| "nav_exec (Commit d base) h = map_option (\<lambda>(ok, h). (Committed ok, h)) (step d base h)"
| "nav_exec (Rename u) h = Some (Nothing, replace_current u h)"
| "nav_exec Show h = Some (Page (current h), h)"
| "nav_exec (Restore es i) h = Some (Nothing, restore_history es i)"
| "nav_exec SaveRestore h = Some (Nothing, case entries_of h of (es, i) \<Rightarrow> restore_history es i)"

fun nav_run :: "nav_op list \<Rightarrow> history \<Rightarrow> (nav_answer list \<times> history) option" where
  "nav_run [] h = Some ([], h)"
| "nav_run (op # ops) h = (case nav_exec op h of None \<Rightarrow> None
     | Some (a, h) \<Rightarrow> map_option (\<lambda>(as, h). (a # as, h)) (nav_run ops h))"

fun trail_exec :: "nav_op \<Rightarrow> trail \<Rightarrow> nav_answer \<times> trail" where
  "trail_exec (Visit u) t = (Nothing, visit u t)"
| "trail_exec Back t = (Moved (answer (fst (go_back t))), snd (go_back t))"
| "trail_exec Forward t = (Moved (answer (fst (go_forward t))), snd (go_forward t))"
| "trail_exec PeekBack t = (case answer (fst (go_back t)) of (u, ok) \<Rightarrow> (Peeked u (place t) ok, t))"
| "trail_exec PeekForward t = (case answer (fst (go_forward t)) of (u, ok) \<Rightarrow> (Peeked u (place t) ok, t))"
| "trail_exec (Commit d base) t =
     (if place t \<noteq> base \<or> d = 0 then (Committed False, t)
      else let (r, t') = (if d < 0 then go_back t else go_forward t) in (Committed (r \<noteq> None), t'))"
| "trail_exec (Rename u) t = (Nothing, rename_page u t)"
| "trail_exec Show t = (Page (shown_page t), t)"
| "trail_exec (Restore es i) t = (Nothing, if i < 0 \<or> es = [] then Unset es
     else let n = min (nat i) (length es - 1) in At (rev (take n es)) (es ! n) (drop (Suc n) es))"
| "trail_exec SaveRestore t = (Nothing, t)"

fun trail_run :: "nav_op list \<Rightarrow> trail \<Rightarrow> nav_answer list \<times> trail" where
  "trail_run [] t = ([], t)"
| "trail_run (op # ops) t = (let (a, t) = trail_exec op t; (as, t) = trail_run ops t in (a # as, t))"

lemma answer_ok [simp]: "snd (answer r) = (r \<noteq> None)"
  by (simp add: answer_def split: option.splits)

lemma answer_eq: "answer r = (fst (answer r), r \<noteq> None)"
  by (simp add: answer_def split: option.splits)

lemma restore_refines:
  "trail_of (restore_history es i) = (if i < 0 \<or> es = [] then Unset es
     else let n = min (nat i) (length es - 1) in At (rev (take n es)) (es ! n) (drop (Suc n) es))"
proof (cases "i < 0 \<or> es = []")
  case True
  then show ?thesis by (auto simp: restore_history_def trail_of_def Let_def)
next
  case False
  then have l: "0 < length es" "0 \<le> i" by auto
  have "nat (hsIndex (restore_history es i)) = min (nat i) (length es - 1)" "0 \<le> hsIndex (restore_history es i)"
    "hsEntries (restore_history es i) = es"
    using l by (auto simp: restore_history_def Let_def min_def)
  then show ?thesis using False by (simp add: trail_of_def Let_def)
qed

lemma save_restore_id: "hist_ok h \<Longrightarrow> restore_history (hsEntries h) (hsIndex h) = h"
  by (auto simp: restore_history_def hist_ok_def Let_def)

lemma exec_refines:
  assumes ok: "hist_ok h"
  shows "\<exists>h'. nav_exec op h = Some (fst (trail_exec op (trail_of h)), h') \<and> hist_ok h' \<and> trail_of h' = snd (trail_exec op (trail_of h))"
proof (cases op)
  case (Commit d base)
  then show ?thesis using back_refines[OF ok] forward_refines[OF ok] ok index_refines[OF ok]
      answer_eq[of "fst (go_back (trail_of h))"] answer_eq[of "fst (go_forward (trail_of h))"]
    by (auto simp: step_def case_prod_beta Let_def)
next
  case PeekBack
  then show ?thesis using back_refines[OF ok] ok index_refines[OF ok]
    by (auto simp: peek_back_tells case_prod_beta prod_eq_iff)
next
  case PeekForward
  then show ?thesis using forward_refines[OF ok] ok index_refines[OF ok]
    by (auto simp: peek_forward_tells case_prod_beta prod_eq_iff)
next
  case Back
  obtain h' where "back_locked h = Some (answer (fst (go_back (trail_of h))), h')" "hist_ok h'" "trail_of h' = snd (go_back (trail_of h))"
    using back_refines[OF ok] by blast
  then show ?thesis unfolding Back by (intro exI[of _ h']) simp
next
  case Forward
  obtain h' where "forward_locked h = Some (answer (fst (go_forward (trail_of h))), h')" "hist_ok h'" "trail_of h' = snd (go_forward (trail_of h))"
    using forward_refines[OF ok] by blast
  then show ?thesis unfolding Forward by (intro exI[of _ h']) simp
next
  case (Restore es i)
  then show ?thesis using restore_refines[of es i] by simp
qed (use ok push_refines[OF ok] replace_refines[OF ok] in \<open>auto simp: current_refines entries_of_def save_restore_id\<close>)

lemma run_refines: "hist_ok h \<Longrightarrow>
  \<exists>h'. nav_run ops h = Some (fst (trail_run ops (trail_of h)), h') \<and> hist_ok h' \<and> trail_of h' = snd (trail_run ops (trail_of h))"
proof (induction ops arbitrary: h)
  case (Cons op ops)
  from exec_refines[OF Cons.prems, of op] obtain h1 where 1: "nav_exec op h = Some (fst (trail_exec op (trail_of h)), h1)"
    "hist_ok h1" "trail_of h1 = snd (trail_exec op (trail_of h))" by blast
  from Cons.IH[OF 1(2)] show ?case using 1 by (auto simp: case_prod_beta Let_def)
qed simp

text \<open>
  Claim C36. A tab's history is the trail a user sees. Whatever a tab does to its history - visits,
  back and forward, peeks and their later commits, renaming the page shown, saving and
  restoring, from a state file with any index - no call panics, every answer is the trail's
  and the slice and cursor stay the trail's.
\<close>

theorem history_is_trail:
  "\<exists>h. nav_run ops new_history = Some (fst (trail_run ops (Unset [])), h)
    \<and> hist_ok h \<and> trail_of h = snd (trail_run ops (Unset []))"
  using run_refines[OF hist_ok_new, of ops] by (simp add: trail_of_def new_history_def)

text \<open>The cursor is compared, not the trail: when other navigations bring it back to the place the
  peek saw, a stale commit moves it to a page that was never loaded.\<close>

lemma stale_commit_lands:
  "nav_run [Visit ''a'', Visit ''b'', Visit ''c'', PeekBack, Back, Back, Visit ''x'', Visit ''y'', Commit (-1) 2, Show] new_history
   = Some ([Nothing, Nothing, Nothing, Peeked ''b'' 2 True, Moved (''b'', True), Moved (''a'', True), Nothing, Nothing, Committed True, Page ''x''],
       \<lparr>hsEntries = [''a'', ''x'', ''y''], hsIndex = 1\<rparr>)"
  by code_simp

end
