(* ===== verification/Tab_Strip.thy ===== *)
theory Tab_Strip
  imports Geometry
begin

text \<open>
  \<open>internal/tabs/layout.go\<close>: where the tabs of the strip stand. Drawing, hit testing, dragging
  and tab switching all read these functions; the theorems say they agree with each other:
  a press on a tab's pixels maps to that tab, and switching to a tab shows all of it. Every
  quantity is an \<open>int32\<close>; the theorems bound the number of tabs and the window's width so
  that nothing wraps.
\<close>

subsection \<open>The code\<close>

definition TabBarHeight :: int where "TabBarHeight = 36"
definition TabWidth :: int where "TabWidth = 200"
definition TabGap :: int where "TabGap = 1"
definition LeftMargin :: int where "LeftMargin = 8"
definition NewTabBtnSize :: int where "NewTabBtnSize = 32"
definition CloseBtnSize :: int where "CloseBtnSize = 16"
definition CloseBtnMargin :: int where "CloseBtnMargin = 8"
definition MinTabWidth :: int where "MinTabWidth = 72"
definition ChevronReserve :: int where "ChevronReserve = 56"
definition ChevronSize :: int where "ChevronSize = 24"

lemmas strip_consts = TabBarHeight_def TabWidth_def TabGap_def LeftMargin_def NewTabBtnSize_def CloseBtnSize_def
  CloseBtnMargin_def MinTabWidth_def ChevronReserve_def ChevronSize_def

definition tab_width_for :: "int \<Rightarrow> int \<Rightarrow> int" where
  "tab_width_for n cw =
     (if n \<le> 0 then TabWidth
      else let avail = i32 (i32 (i32 (cw - LeftMargin) - NewTabBtnSize) - TabGap);
               w = i32 (i32 (avail sdiv n) - TabGap)
           in if w > TabWidth then TabWidth else if w < MinTabWidth then MinTabWidth else w)"

definition tab_rect :: "int \<Rightarrow> int \<Rightarrow> int \<Rightarrow> int \<Rightarrow> rect" where
  "tab_rect idx off n cw =
     (let w = tab_width_for n cw;
          x = i32 (i32 (LeftMargin + i32 (i32 idx * i32 (w + TabGap))) - off)
      in rect4 x 0 (i32 (x + w)) TabBarHeight)"

definition new_tab_button_rect :: "int \<Rightarrow> int \<Rightarrow> int \<Rightarrow> rect" where
  "new_tab_button_rect n off cw =
     (let w = tab_width_for n cw;
          last_x = i32 (i32 (i32 (LeftMargin + i32 (n * i32 (w + TabGap))) - TabGap) - off);
          x = i32 (last_x + TabGap);
          y = (TabBarHeight - NewTabBtnSize) sdiv 2
      in rect4 x y (i32 (x + NewTabBtnSize)) (i32 (y + NewTabBtnSize)))"

definition strip_total :: "int \<Rightarrow> int \<Rightarrow> int" where
  "strip_total n cw =
     (if n \<le> 0 then 0
      else i32 (i32 (LeftMargin + i32 (n * i32 (tab_width_for n cw + TabGap))) + NewTabBtnSize))"

definition chevrons_shown :: "int \<Rightarrow> int \<Rightarrow> bool" where
  "chevrons_shown n cw \<longleftrightarrow> strip_total n cw > cw"

definition chevron_rects :: "int \<Rightarrow> int \<Rightarrow> rect \<times> rect \<times> bool" where
  "chevron_rects n cw =
     (if \<not> chevrons_shown n cw then (zero_rect, zero_rect, False)
      else let y0 = (TabBarHeight - ChevronSize) sdiv 2;
               rx0 = i32 (i32 (cw - 4) - ChevronSize);
               lx0 = i32 (i32 (rx0 - 4) - ChevronSize)
           in (rect4 lx0 y0 (i32 (lx0 + ChevronSize)) (i32 (y0 + ChevronSize)),
               rect4 rx0 y0 (i32 (rx0 + ChevronSize)) (i32 (y0 + ChevronSize)), True))"

definition tab_scroll_page :: "int \<Rightarrow> int \<Rightarrow> int" where
  "tab_scroll_page n cw =
     (let w = tab_width_for n cw;
          vis = i32 (cw - LeftMargin);
          vis = (if chevrons_shown n cw then i32 (vis - ChevronReserve) else vis);
          s = i32 (vis - w);
          s = (if s < w then w else s)
      in if s < 1 then 1 else s)"

definition strip_max_offset :: "int \<Rightarrow> int \<Rightarrow> int" where
  "strip_max_offset n cw =
     (if \<not> chevrons_shown n cw then 0 else i32 (strip_total n cw - i32 (cw - ChevronReserve)))"

definition ensure_tab_visible :: "int \<Rightarrow> int \<Rightarrow> int \<Rightarrow> int \<Rightarrow> int" where
  "ensure_tab_visible idx n cw cur =
     (let mx = strip_max_offset n cw in
      if mx \<le> 0 then 0
      else let reserve = (if chevrons_shown n cw then ChevronReserve else 0);
               r = tab_rect idx 0 n cw;
               edge = i32 (i32 (i32 (cw - reserve) - NewTabBtnSize) - TabGap);
               off = (if i32 (rX0 r - cur) < LeftMargin then i32 (rX0 r - LeftMargin) else cur);
               off = (if i32 (rX1 r - off) > edge then i32 (rX1 r - edge) else off)
           in if off < 0 then 0 else if off > mx then mx else off)"

definition close_button_rect :: "rect \<Rightarrow> rect" where
  "close_button_rect r =
     (let x = i32 (i32 (rX1 r - CloseBtnSize) - CloseBtnMargin); y = (TabBarHeight - CloseBtnSize) sdiv 2
      in rect4 x y (i32 (x + CloseBtnSize)) (i32 (y + CloseBtnSize)))"

definition drop_index_at :: "int \<Rightarrow> int \<Rightarrow> int \<Rightarrow> int \<Rightarrow> int" where
  "drop_index_at x n cw off =
     (if n \<le> 0 then 0
      else let pitch = i32 (tab_width_for n cw + TabGap);
               slot = i32 (i32 (i32 (x - LeftMargin) + off) sdiv pitch)
           in if slot < 0 then 0 else if slot > i32 (n - 1) then i32 (n - 1) else slot)"

subsection \<open>Bounds\<close>

text \<open>At most a million tabs in a window of at most a million logical pixels.\<close>

definition sane_strip :: "int \<Rightarrow> int \<Rightarrow> bool" where
  "sane_strip n cw \<longleftrightarrow> 0 < n \<and> n \<le> 1000000 \<and> 0 \<le> cw \<and> cw \<le> 1000000"

lemma tab_width_bounds: "72 \<le> tab_width_for n cw \<and> tab_width_for n cw \<le> 200"
  by (auto simp: tab_width_for_def strip_consts Let_def)

lemma small_i32: "- 2000000000 \<le> x \<Longrightarrow> x \<le> 2000000000 \<Longrightarrow> i32 x = x"
  by (rule i32_id) (simp add: in32_def)

lemma pitch: "i32 (tab_width_for n cw + TabGap) = tab_width_for n cw + 1"
  using tab_width_bounds[of n cw] by (subst small_i32) (auto simp: TabGap_def)

lemma pitch_bounds:
  assumes "0 \<le> i" "i \<le> 1000000"
  shows "0 \<le> i * (tab_width_for n cw + 1)" "i * (tab_width_for n cw + 1) \<le> 201000000"
proof -
  have "i * (tab_width_for n cw + 1) \<le> 1000000 * 201"
    using assms tab_width_bounds[of n cw] by (intro mult_mono) auto
  then show "i * (tab_width_for n cw + 1) \<le> 201000000" by simp
  show "0 \<le> i * (tab_width_for n cw + 1)" using assms tab_width_bounds[of n cw] by auto
qed

lemma tab_rect_eq:
  assumes "0 \<le> i" "i \<le> 1000000" "\<bar>off\<bar> \<le> 1000000000"
  shows "rX0 (tab_rect i off n cw) = 8 + i * (tab_width_for n cw + 1) - off"
    and "rX1 (tab_rect i off n cw) = 8 + i * (tab_width_for n cw + 1) - off + tab_width_for n cw"
proof -
  define p where "p = i * (tab_width_for n cw + 1)"
  have p: "0 \<le> p" "p \<le> 201000000" using pitch_bounds[OF assms(1,2), of n cw] by (simp_all only: p_def)
  have "i32 (8 + i32 p) = 8 + p" "i32 (8 + p - off) = 8 + p - off" using p assms(3) by (simp_all add: small_i32)
  moreover have "i32 (8 + p - off + tab_width_for n cw) = 8 + p - off + tab_width_for n cw"
    using p assms(3) tab_width_bounds[of n cw] by (intro small_i32) linarith+
  moreover have "i32 i = i" using assms by (simp add: small_i32)
  ultimately show "rX0 (tab_rect i off n cw) = 8 + i * (tab_width_for n cw + 1) - off"
    and "rX1 (tab_rect i off n cw) = 8 + i * (tab_width_for n cw + 1) - off + tab_width_for n cw"
    by (simp_all add: tab_rect_def Let_def pitch LeftMargin_def rect4_def flip: p_def)
qed

lemma strip_total_eq:
  assumes "sane_strip n cw"
  shows "strip_total n cw = 40 + n * (tab_width_for n cw + 1)"
proof -
  define p where "p = n * (tab_width_for n cw + 1)"
  have n: "0 < n" "n \<le> 1000000" using assms by (auto simp: sane_strip_def)
  then have p: "0 \<le> p" "p \<le> 201000000" using pitch_bounds[of n n cw] by (auto simp only: p_def less_imp_le)
  then have "i32 (i32 (8 + i32 p) + 32) = 40 + p" by (simp add: small_i32)
  then show ?thesis using n by (simp add: strip_total_def pitch LeftMargin_def NewTabBtnSize_def flip: p_def)
qed

text \<open>The controls show exactly when the tabs, shrunk all the way, still do not fit.\<close>

lemma chevrons_shrunk:
  assumes "sane_strip n cw" "chevrons_shown n cw"
  shows "tab_width_for n cw = 72"
proof (rule ccontr)
  assume ne: "tab_width_for n cw \<noteq> 72"
  have n: "0 < n" "n \<le> 1000000" "0 \<le> cw" "cw \<le> 1000000" using assms by (auto simp: sane_strip_def)
  have av: "i32 (i32 (i32 (cw - 8) - 32) - 1) = cw - 41" using n by (simp add: small_i32)
  define q where "q = (cw - 41) sdiv n"
  have qa: "\<bar>q\<bar> \<le> \<bar>cw - 41\<bar>" unfolding q_def signed_divide_int_def
    using n zdiv_mono2[of "\<bar>cw - 41\<bar>" 1 n] by (auto simp: abs_mult sgn_if pos_imp_zdiv_nonneg_iff)
  then have q: "i32 (i32 q - 1) = q - 1" using n by (simp add: small_i32)
  have "tab_width_for n cw = (if q - 1 > 200 then 200 else if q - 1 < 72 then 72 else q - 1)"
    using n(1) av q by (simp add: tab_width_for_def Let_def strip_consts flip: q_def)
  then have "tab_width_for n cw \<le> q - 1" "73 \<le> q" using ne by (auto split: if_splits)
  moreover have "0 < cw - 41"
  proof (rule ccontr)
    assume "\<not> 0 < cw - 41"
    then have "q = - ((41 - cw) div n)" "0 \<le> (41 - cw) div n" using n(1)
      by (auto simp: q_def signed_divide_int_def sgn_if pos_imp_zdiv_nonneg_iff)
    then show False using \<open>73 \<le> q\<close> by simp
  qed
  then have "q = (cw - 41) div n" using n(1) by (simp add: q_def signed_divide_int_def sgn_if)
  then have "n * q + (cw - 41) mod n = cw - 41" using mult_div_mod_eq[of n "cw - 41"] by simp
  then have "n * q \<le> cw - 41" using pos_mod_sign[OF n(1), of "cw - 41"] by linarith
  moreover have "n * (tab_width_for n cw + 1) \<le> n * q" using calculation(1) n(1) by (intro mult_left_mono) auto
  ultimately have "strip_total n cw \<le> cw - 1" using strip_total_eq[OF assms(1)] by simp
  then show False using assms(2) by (simp add: chevrons_shown_def)
qed

lemma max_offset_eq:
  assumes "sane_strip n cw"
  shows "strip_max_offset n cw = (if strip_total n cw > cw then strip_total n cw - (cw - 56) else 0)"
proof -
  have n: "0 < n" "n \<le> 1000000" "0 \<le> cw" "cw \<le> 1000000" using assms by (auto simp: sane_strip_def)
  have "40 \<le> strip_total n cw" "strip_total n cw \<le> 201000040"
    using pitch_bounds[OF less_imp_le[OF n(1)] n(2), of n cw] unfolding strip_total_eq[OF assms] by linarith+
  then show ?thesis using n by (simp add: strip_max_offset_def chevrons_shown_def ChevronReserve_def small_i32)
qed

lemma max_offset_bounds:
  assumes "sane_strip n cw"
  shows "0 \<le> strip_max_offset n cw \<and> strip_max_offset n cw \<le> 300000000"
  using pitch_bounds(2)[of n n cw] assms by (simp add: max_offset_eq[OF assms] strip_total_eq[OF assms] sane_strip_def)

subsection \<open>Agreement\<close>

text \<open>
  A press lands on the tab the pixels show: whatever the strip's offset, every \<open>x\<close> in the
  rectangle drawn for a tab, or in the gap after it, maps to that tab's slot, and to no other.
\<close>

theorem press_lands_on_tab:
  assumes "sane_strip n cw" "0 \<le> i" "i < n" "0 \<le> off" "off \<le> strip_max_offset n cw"
    and "rX0 (tab_rect i off n cw) \<le> x" "x < rX1 (tab_rect i off n cw) + TabGap"
  shows "drop_index_at x n cw off = i"
proof -
  let ?p = "tab_width_for n cw + 1"
  have n: "0 < n" "n \<le> 1000000" "i \<le> 1000000" using assms by (auto simp: sane_strip_def)
  have off: "\<bar>off\<bar> \<le> 1000000000" using assms(4,5) max_offset_bounds[OF assms(1)] by auto
  note r = tab_rect_eq[OF assms(2) n(3) off, of n cw]
  have x: "i * ?p \<le> x - 8 + off" "x - 8 + off < i * ?p + ?p" using assms(6,7) by (auto simp: r TabGap_def)
  have b: "0 \<le> i * ?p" "i * ?p \<le> 201000000" using pitch_bounds[OF assms(2) n(3)] by auto
  have w: "72 \<le> tab_width_for n cw" "tab_width_for n cw \<le> 200" using tab_width_bounds[of n cw] by auto
  have "i32 (i32 (x - 8) + off) = x - 8 + off" using x b w off by (simp add: small_i32)
  moreover have "(x - 8 + off) sdiv ?p = (x - 8 + off) div ?p"
    using x b w by (simp add: signed_divide_int_def sgn_if)
  moreover have "(x - 8 + off) div ?p = i" using x w by (intro div_pos_pos_trivial int_div_pos_eq[of _ _ _ "x - 8 + off - i * ?p"]) auto
  ultimately show ?thesis using assms(2,3) n by (simp add: drop_index_at_def pitch LeftMargin_def Let_def small_i32)
qed

text \<open>
  Switching to a tab shows it: from any offset the strip moves to one within its range at
  which the whole tab lies between the left margin and the new-tab button left of the scroll
  controls, and an offset that already shows it stays.
\<close>

theorem switched_tab_is_visible:
  assumes "sane_strip n cw" "169 \<le> cw" "0 \<le> i" "i < n" "\<bar>cur\<bar> \<le> 1000000000" "chevrons_shown n cw"
  shows "let off = ensure_tab_visible i n cw cur in
    0 \<le> off \<and> off \<le> strip_max_offset n cw \<and> 8 \<le> rX0 (tab_rect i off n cw) \<and> rX1 (tab_rect i off n cw) \<le> cw - 89
    \<and> (0 \<le> cur \<and> cur \<le> strip_max_offset n cw \<and> 8 \<le> rX0 (tab_rect i cur n cw) \<and> rX1 (tab_rect i cur n cw) \<le> cw - 89
       \<longrightarrow> off = cur)"
proof -
  let ?p = "tab_width_for n cw + 1" and ?off = "ensure_tab_visible i n cw cur"
  have n: "0 < n" "n \<le> 1000000" "i \<le> 1000000" "cw \<le> 1000000" using assms by (auto simp: sane_strip_def)
  have b: "0 \<le> i * ?p" "i * ?p \<le> 201000000" using pitch_bounds[OF assms(3) n(3)] by auto
  have nb: "n * ?p \<le> 201000000" using pitch_bounds[of n n cw] n by auto
  have w: "tab_width_for n cw = 72" by (rule chevrons_shrunk[OF assms(1,6)])
  have "(i + 1) * ?p \<le> n * ?p" using assms(4) w by (intro mult_right_mono) auto
  then have fits: "i * ?p + ?p \<le> n * ?p" by (simp add: algebra_simps)
  have mx: "strip_max_offset n cw = 96 + n * ?p - cw" "cw < 40 + n * ?p"
    using assms(1,6) by (auto simp: max_offset_eq strip_total_eq chevrons_shown_def)
  note r0 = tab_rect_eq[OF assms(3) n(3), of 0 n cw, simplified]
  have off: "?off = (let a = (if 8 + i * ?p - cur < 8 then i * ?p else cur);
      a = (if 8 + i * ?p + tab_width_for n cw - a > cw - 89 then 97 + i * ?p + tab_width_for n cw - cw else a)
     in if a < 0 then 0 else if a > 96 + n * ?p - cw then 96 + n * ?p - cw else a)"
    using mx b nb w n assms(2,5,6)
    by (simp add: ensure_tab_visible_def Let_def r0 strip_consts small_i32)
  have range: "0 \<le> ?off" "?off \<le> 96 + n * ?p - cw" using mx(2) unfolding off by (auto simp: Let_def)
  then have "\<bar>?off\<bar> \<le> 1000000000" using nb assms(2) by auto
  note r = tab_rect_eq[OF assms(3) n(3) this, of n cw] tab_rect_eq[OF assms(3) n(3) assms(5), of n cw]
  have "?off \<le> i * ?p" "8 + i * ?p + tab_width_for n cw - ?off \<le> cw - 89"
    using fits mx(2) w assms(2) b unfolding off by (auto simp: Let_def)
  moreover have "?off = cur" if "0 \<le> cur" "cur \<le> strip_max_offset n cw" "cur \<le> i * ?p" "8 + i * ?p + tab_width_for n cw - cur \<le> cw - 89"
    using that mx unfolding off by (auto simp: Let_def)
  ultimately show ?thesis using range unfolding Let_def r mx(1) by auto
qed

text \<open>Three tabs in a wide window, and twenty in a narrow one.\<close>

theorem press_lands_on_tab_witness: "drop_index_at 300 3 1000 0 = 1 \<and> rX0 (tab_rect 1 0 3 1000) = 209"
proof -
  have r: "rX0 (tab_rect 1 0 3 1000) = 209" "rX1 (tab_rect 1 0 3 1000) = 409" "strip_max_offset 3 1000 = 0" by code_simp+
  have "drop_index_at 300 3 1000 0 = 1"
    by (rule press_lands_on_tab) (simp_all add: sane_strip_def r TabGap_def)
  then show ?thesis using r by simp
qed

theorem switched_tab_is_visible_witness:
  "ensure_tab_visible 15 20 400 0 = 864 \<and> 8 \<le> rX0 (tab_rect 15 864 20 400) \<and> rX1 (tab_rect 15 864 20 400) \<le> 311"
proof -
  have "chevrons_shown 20 400" "ensure_tab_visible 15 20 400 0 = 864" by code_simp+
  with switched_tab_is_visible[of 20 400 15 0] show ?thesis by (simp add: sane_strip_def Let_def)
qed

end
