(* ===== verification/Tab_Manager.thy ===== *)
theory Tab_Manager
  imports Nav_History Tab_Strip
begin

text \<open>
  \<open>internal/tabs/manager.go\<close> and the part of \<open>internal/tabs/tab.go\<close> it reads: the open tabs in
  strip order, the active one, the stack of closed tabs and the drag in progress. Each
  method holds the manager's mutex for its whole change, so an operation is one step; the
  callbacks it fires after unlocking are its second result. The histories are cloned by
  every operation that copies one, so no two tabs share one and values model them. A tab's
  layer, session, manifest, colour and navigation control are the browser's and left out.
\<close>

subsection \<open>Tabs\<close>

record tab =
  tbId :: nat
  tbUrl :: string
  tbTitle :: string
  tbHistory :: "history option"
  tbScrollY :: int
  tbLoading :: bool
  tbErr :: string
  tbIncognito :: bool
  tbPinned :: bool
  tbShieldsDisabled :: bool
  tbBlocked :: int

definition new_tab_of :: "nat \<Rightarrow> tab" where
  "new_tab_of i = \<lparr>tbId = i, tbUrl = [], tbTitle = ''New Tab'', tbHistory = Some new_history, tbScrollY = 0, tbLoading = False,
     tbErr = [], tbIncognito = False, tbPinned = False, tbShieldsDisabled = False, tbBlocked = 0\<rparr>"

definition shields_enabled :: "tab \<Rightarrow> bool" where
  "shields_enabled t = (\<not> tbShieldsDisabled t)"

definition set_shields_enabled :: "bool \<Rightarrow> tab \<Rightarrow> tab" where
  "set_shields_enabled b t = t\<lparr>tbShieldsDisabled := \<not> b\<rparr>"

definition increment_blocked :: "tab \<Rightarrow> tab" where
  "increment_blocked t = t\<lparr>tbBlocked := i64 (tbBlocked t + 1)\<rparr>"

definition reset_blocked :: "tab \<Rightarrow> tab" where
  "reset_blocked t = t\<lparr>tbBlocked := 0\<rparr>"

subsection \<open>The manager\<close>

definition maxClosedTabs :: nat where "maxClosedTabs = 25"

record closed_tab =
  ctUrl :: string
  ctTitle :: string
  ctHistory :: "history option"
  ctScrollY :: int

record manager =
  mgTabs :: "tab list"
  mgActive :: int
  mgNext :: nat
  mgClosed :: "closed_tab list"
  mgScroll :: int
  mgDragId :: nat
  mgDragX :: int
  mgDragOn :: bool

text \<open>What a method calls once it has unlocked: \<open>OnChange\<close>, and \<open>onCloseLast\<close> in its own goroutine.\<close>

datatype notice = Changed | Closed_last

definition new_manager :: manager where
  "new_manager = \<lparr>mgTabs = [], mgActive = 0, mgNext = 0, mgClosed = [], mgScroll = 0, mgDragId = 0, mgDragX = 0, mgDragOn = False\<rparr>"

definition has_id :: "nat \<Rightarrow> tab \<Rightarrow> bool" where
  "has_id i t \<longleftrightarrow> tbId t = i"

abbreviation index_of :: "nat \<Rightarrow> tab list \<Rightarrow> nat option" where
  "index_of i ts \<equiv> find_index (has_id i) ts"

definition add_tab :: "(tab \<Rightarrow> tab) \<Rightarrow> manager \<Rightarrow> tab \<times> manager \<times> notice list" where
  "add_tab f m =
     (let n = mgNext m + 1; t = f (new_tab_of n); ts = mgTabs m @ [t]
      in (t, m\<lparr>mgNext := n, mgTabs := ts, mgActive := (if length ts = 1 then 0 else mgActive m)\<rparr>, [Changed]))"

definition new_tab :: "manager \<Rightarrow> tab \<times> manager \<times> notice list" where
  "new_tab = add_tab (\<lambda>t. t)"

definition new_incognito_tab :: "manager \<Rightarrow> tab \<times> manager \<times> notice list" where
  "new_incognito_tab = add_tab (\<lambda>t. t\<lparr>tbIncognito := True, tbTitle := ''New Incognito Tab''\<rparr>)"

text \<open>\<open>None\<close> is a panic: the active index out of range.\<close>

definition active_tab :: "manager \<Rightarrow> tab option option" where
  "active_tab m =
     (if mgTabs m = [] then Some None
      else if 0 \<le> mgActive m \<and> mgActive m < int (length (mgTabs m)) then Some (Some (mgTabs m ! nat (mgActive m)))
      else None)"

definition history_clone :: "history option \<Rightarrow> history option" where
  "history_clone oh = (case oh of None \<Rightarrow> None
     | Some h \<Rightarrow> (case entries_of h of (es, i) \<Rightarrow> if es = [] then None else Some (restore_history es i)))"

definition archive :: "tab \<Rightarrow> closed_tab list \<Rightarrow> closed_tab list" where
  "archive t cs =
     (if tbIncognito t then cs
      else let h = history_clone (tbHistory t)
           in if tbUrl t \<noteq> [] \<or> h \<noteq> None
              then last_n maxClosedTabs (cs @ [\<lparr>ctUrl = tbUrl t, ctTitle = tbTitle t, ctHistory = h, ctScrollY = tbScrollY t\<rparr>])
              else cs)"

definition close_tab :: "nat \<Rightarrow> manager \<Rightarrow> manager \<times> notice list" where
  "close_tab i m =
     (case index_of i (mgTabs m) of
        None \<Rightarrow> (m, [])
      | Some k \<Rightarrow>
         (let m = m\<lparr>mgClosed := archive (mgTabs m ! k) (mgClosed m), mgTabs := remove_at k (mgTabs m)\<rparr>;
              n = int (length (mgTabs m))
          in if mgTabs m = [] then (m\<lparr>mgActive := 0\<rparr>, [Changed, Closed_last])
             else if mgActive m \<ge> n then (m\<lparr>mgActive := n - 1\<rparr>, [Changed])
             else if mgActive m > int k then (m\<lparr>mgActive := mgActive m - 1\<rparr>, [Changed])
             else (m, [Changed])))"

definition duplicate_tab :: "nat \<Rightarrow> manager \<Rightarrow> tab option \<times> manager \<times> notice list" where
  "duplicate_tab i m =
     (case index_of i (mgTabs m) of
        None \<Rightarrow> (None, m, [])
      | Some k \<Rightarrow>
         (let src = mgTabs m ! k; n = mgNext m + 1; dup = new_tab_of n;
              dup = dup\<lparr>tbUrl := tbUrl src, tbTitle := tbTitle src, tbIncognito := tbIncognito src, tbScrollY := tbScrollY src\<rparr>;
              dup = (case tbHistory src of None \<Rightarrow> dup
                 | Some h \<Rightarrow> (case entries_of h of (es, j) \<Rightarrow> dup\<lparr>tbHistory := Some (restore_history es j)\<rparr>))
          in (Some dup, m\<lparr>mgNext := n, mgTabs := insert_at (k + 1) dup (mgTabs m), mgActive := int (k + 1)\<rparr>, [Changed])))"

fun keep_or_archive :: "(tab \<Rightarrow> bool) \<Rightarrow> tab list \<Rightarrow> closed_tab list \<Rightarrow> tab list \<times> closed_tab list" where
  "keep_or_archive keep [] cs = ([], cs)"
| "keep_or_archive keep (t # ts) cs =
     (if keep t then (case keep_or_archive keep ts cs of (ks, cs) \<Rightarrow> (t # ks, cs))
      else keep_or_archive keep ts (archive t cs))"

definition close_other_tabs :: "nat \<Rightarrow> manager \<Rightarrow> manager \<times> notice list" where
  "close_other_tabs i m =
     (case keep_or_archive (\<lambda>t. has_id i t \<or> tbPinned t) (mgTabs m) (mgClosed m) of (ks, cs) \<Rightarrow>
        let m = m\<lparr>mgTabs := ks, mgClosed := cs\<rparr>
        in if ks = [] then (m\<lparr>mgActive := 0\<rparr>, [Changed, Closed_last])
           else (m\<lparr>mgActive := (case index_of i ks of None \<Rightarrow> 0 | Some k \<Rightarrow> int k)\<rparr>, [Changed]))"

definition close_tabs_to_right :: "nat \<Rightarrow> manager \<Rightarrow> manager \<times> notice list" where
  "close_tabs_to_right i m =
     (case index_of i (mgTabs m) of
        None \<Rightarrow> (m, [])
      | Some k \<Rightarrow>
         (let active = (if 0 \<le> mgActive m \<and> mgActive m < int (length (mgTabs m)) then tbId (mgTabs m ! nat (mgActive m)) else 0);
              (ks, cs) = keep_or_archive tbPinned (drop (k + 1) (mgTabs m)) (mgClosed m);
              ts = take (k + 1) (mgTabs m) @ ks;
              m = m\<lparr>mgTabs := ts, mgClosed := cs\<rparr>
          in if ts = [] then (m\<lparr>mgActive := 0\<rparr>, [Changed, Closed_last])
             else (m\<lparr>mgActive := (case index_of active ts of Some j \<Rightarrow> int j
                      | None \<Rightarrow> if int k \<ge> int (length ts) then int (length ts) - 1 else int k)\<rparr>, [Changed])))"

text \<open>The last pinned tab other than \<open>i\<close>, -1 when there is none.\<close>

definition last_pinned :: "nat \<Rightarrow> tab list \<Rightarrow> int" where
  "last_pinned i ts = fold (\<lambda>k acc. if tbPinned (ts ! k) \<and> \<not> has_id i (ts ! k) then int k else acc) [0..<length ts] (-1)"

definition pin_tab :: "nat \<Rightarrow> manager \<Rightarrow> bool \<times> manager \<times> notice list" where
  "pin_tab i m =
     (case index_of i (mgTabs m) of
        None \<Rightarrow> (False, m, [])
      | Some k \<Rightarrow>
         (let t = (mgTabs m ! k)\<lparr>tbPinned := True\<rparr>; ts = (mgTabs m)[k := t];
              target = last_pinned i ts + 1
          in if target < int k
             then let ts = insert_at (nat target) t (remove_at k ts)
                  in (True, m\<lparr>mgTabs := ts, mgActive := (case index_of i ts of Some j \<Rightarrow> int j | None \<Rightarrow> mgActive m)\<rparr>, [Changed])
             else (True, m\<lparr>mgTabs := ts\<rparr>, [Changed])))"

definition unpin_tab :: "nat \<Rightarrow> manager \<Rightarrow> bool \<times> manager \<times> notice list" where
  "unpin_tab i m =
     (case index_of i (mgTabs m) of
        None \<Rightarrow> (False, m, [])
      | Some k \<Rightarrow> (True, m\<lparr>mgTabs := (mgTabs m)[k := (mgTabs m ! k)\<lparr>tbPinned := False\<rparr>]\<rparr>, [Changed]))"

definition toggle_pin :: "nat \<Rightarrow> manager \<Rightarrow> bool \<times> manager \<times> notice list" where
  "toggle_pin i m =
     (case index_of i (mgTabs m) of
        None \<Rightarrow> (False, m, [])
      | Some k \<Rightarrow> if \<not> tbPinned (mgTabs m ! k) then pin_tab i m else unpin_tab i m)"

definition pop_closed_tab :: "manager \<Rightarrow> closed_tab option \<times> manager" where
  "pop_closed_tab m =
     (if mgClosed m = [] then (None, m) else (Some (last (mgClosed m)), m\<lparr>mgClosed := butlast (mgClosed m)\<rparr>))"

definition reopen_tab :: "manager \<Rightarrow> tab option \<times> manager \<times> notice list" where
  "reopen_tab m =
     (case pop_closed_tab m of
        (None, m) \<Rightarrow> (None, m, [])
      | (Some rec, m) \<Rightarrow>
         (let n = mgNext m + 1; t = (new_tab_of n)\<lparr>tbUrl := ctUrl rec\<rparr>;
              t = (if ctTitle rec \<noteq> [] then t\<lparr>tbTitle := ctTitle rec\<rparr> else t);
              t = (case ctHistory rec of None \<Rightarrow> t
                 | Some h \<Rightarrow> (case entries_of h of (es, j) \<Rightarrow> t\<lparr>tbHistory := Some (restore_history es j)\<rparr>));
              t = t\<lparr>tbScrollY := ctScrollY rec\<rparr>; ts = mgTabs m @ [t]
          in (Some t, m\<lparr>mgNext := n, mgTabs := ts, mgActive := int (length ts) - 1\<rparr>, [Changed])))"

definition can_reopen_tab :: "manager \<Rightarrow> bool" where
  "can_reopen_tab m \<longleftrightarrow> length (mgClosed m) > 0"

definition closed_tab_count :: "manager \<Rightarrow> nat" where
  "closed_tab_count m = length (mgClosed m)"

definition switch_to :: "nat \<Rightarrow> manager \<Rightarrow> manager \<times> notice list" where
  "switch_to i m =
     (case index_of i (mgTabs m) of
        None \<Rightarrow> (m, [])
      | Some k \<Rightarrow> if int k = mgActive m then (m, []) else (m\<lparr>mgActive := int k\<rparr>, [Changed]))"

definition tab_by_id :: "nat \<Rightarrow> manager \<Rightarrow> tab option" where
  "tab_by_id i m = (case index_of i (mgTabs m) of None \<Rightarrow> None | Some k \<Rightarrow> Some (mgTabs m ! k))"

definition set_tab_scroll :: "int \<Rightarrow> int \<Rightarrow> int \<Rightarrow> manager \<Rightarrow> manager" where
  "set_tab_scroll off n cw m =
     (let mx = strip_max_offset n cw; off = (if off < 0 then 0 else off); off = (if off > mx then mx else off)
      in m\<lparr>mgScroll := off\<rparr>)"

text \<open>\<open>None\<close> is a panic: the active index out of range.\<close>

definition move_tab :: "nat \<Rightarrow> int \<Rightarrow> manager \<Rightarrow> (bool \<times> manager \<times> notice list) option" where
  "move_tab i to_index m =
     (case index_of i (mgTabs m) of
        None \<Rightarrow> Some (False, m, [])
      | Some from_k \<Rightarrow>
         (let n = int (length (mgTabs m));
              to_k = (if to_index < 0 then 0 else to_index);
              to_k = (if to_k \<ge> n then n - 1 else to_k)
          in if int from_k = to_k then Some (False, m, [])
             else if \<not> (0 \<le> mgActive m \<and> mgActive m < n) then None
             else let active = tbId (mgTabs m ! nat (mgActive m)); t = mgTabs m ! from_k;
                      ts = remove_at from_k (mgTabs m);
                      to_k = (if to_k > int (length ts) then int (length ts) else to_k);
                      ts = insert_at (nat to_k) t ts
                  in Some (True, m\<lparr>mgTabs := ts, mgActive := (case index_of active ts of Some j \<Rightarrow> int j | None \<Rightarrow> mgActive m)\<rparr>,
                       [Changed])))"

definition start_drag :: "nat \<Rightarrow> int \<Rightarrow> manager \<Rightarrow> manager" where
  "start_drag i x m = m\<lparr>mgDragId := i, mgDragX := x, mgDragOn := True\<rparr>"

definition move_drag :: "int \<Rightarrow> manager \<Rightarrow> manager" where
  "move_drag x m = (if mgDragOn m then m\<lparr>mgDragX := x\<rparr> else m)"

definition end_drag :: "manager \<Rightarrow> manager" where
  "end_drag m = m\<lparr>mgDragOn := False\<rparr>"

end
