(* ===== verification/Tab_Books.thy ===== *)
theory Tab_Books
  imports Tab_Manager
begin

text \<open>
  What the tab manager promises: identities are unique and the active index is always that
  of an open tab; the active tab is kept by identity when others close or move; a closed
  tab reopens as it was, and a private one leaves nothing to reopen.
\<close>

subsection \<open>Lists of tabs\<close>

lemma index_of_Some: "index_of i ts = Some k \<Longrightarrow> k < length ts \<and> tbId (ts ! k) = i"
  by (drule find_index_Some) (auto simp: has_id_def)

lemma index_of_None: "index_of i ts = None \<longleftrightarrow> i \<notin> tbId ` set ts"
  by (auto simp: find_index_None has_id_def)

lemma index_of_member:
  assumes "distinct (map tbId ts)" "t \<in> set ts"
  obtains k where "index_of (tbId t) ts = Some k" "k < length ts" "ts ! k = t"
proof -
  have "index_of (tbId t) ts \<noteq> None" using assms(2) by (auto simp: index_of_None)
  then obtain k where k: "index_of (tbId t) ts = Some k" by blast
  note s = index_of_Some[OF k]
  obtain j where j: "j < length ts" "ts ! j = t" using assms(2) by (auto simp: in_set_conv_nth)
  have "j = k" using assms(1) j s by (auto simp: distinct_conv_nth)
  with that k s j show ?thesis by blast
qed

lemma nth_remove_at: "j < length xs - 1 \<Longrightarrow> remove_at k xs ! j = (if j < k then xs ! j else xs ! Suc j)"
  by (auto simp: remove_at_def nth_append min_def)

lemma remove_at_map_id: "distinct (map tbId ts) \<Longrightarrow> distinct (map tbId (remove_at k ts))"
  by (simp add: map_remove_at distinct_remove_at)

lemma set_move: "k < length ts \<Longrightarrow> set (insert_at j (ts ! k) (remove_at k ts)) = set ts"
  using mset_remove_at[of k ts] by (metis mset_insert_at set_mset_mset)

lemma distinct_move:
  assumes "k < length ts" "distinct (map tbId ts)"
  shows "distinct (map tbId (insert_at j (ts ! k) (remove_at k ts)))"
proof -
  have "mset (insert_at j (ts ! k) (remove_at k ts)) = mset ts" using mset_remove_at[OF assms(1)] by simp
  then show ?thesis using assms(2) by (metis mset_eq_imp_distinct_iff mset_map)
qed

lemma keep_or_archive_eq: "keep_or_archive keep ts cs = (filter keep ts, fold archive (filter (\<lambda>t. \<not> keep t) ts) cs)"
  by (induction ts arbitrary: cs) auto

lemma distinct_filter_id: "distinct (map tbId ts) \<Longrightarrow> distinct (map tbId (filter P ts))"
  by (auto simp: distinct_map inj_on_def)

subsection \<open>The invariant\<close>

definition trail_ok :: "history option \<Rightarrow> bool" where
  "trail_ok oh = (case oh of None \<Rightarrow> True | Some h \<Rightarrow> hist_ok h)"

definition tabs_ok :: "nat \<Rightarrow> tab list \<Rightarrow> bool" where
  "tabs_ok n ts \<longleftrightarrow> distinct (map tbId ts) \<and> (\<forall>t\<in>set ts. 0 < tbId t \<and> tbId t \<le> n \<and> trail_ok (tbHistory t))"

definition active_ok :: "int \<Rightarrow> tab list \<Rightarrow> bool" where
  "active_ok a ts \<longleftrightarrow> 0 \<le> a \<and> (a < int (length ts) \<or> ts = [] \<and> a = 0)"

definition closed_ok :: "closed_tab list \<Rightarrow> bool" where
  "closed_ok cs \<longleftrightarrow> length cs \<le> maxClosedTabs \<and> (\<forall>c\<in>set cs. trail_ok (ctHistory c))"

definition mgr_ok :: "manager \<Rightarrow> bool" where
  "mgr_ok m \<longleftrightarrow> tabs_ok (mgNext m) (mgTabs m) \<and> active_ok (mgActive m) (mgTabs m) \<and> closed_ok (mgClosed m)"

lemma tabs_ok_subset:
  "tabs_ok n ts \<Longrightarrow> set ks \<subseteq> set ts \<Longrightarrow> distinct (map tbId ks) \<Longrightarrow> n \<le> n' \<Longrightarrow> tabs_ok n' ks"
  by (fastforce simp: tabs_ok_def)

lemma tabs_ok_distinct: "tabs_ok n ts \<Longrightarrow> distinct (map tbId ts)"
  by (simp add: tabs_ok_def)

lemma tabs_ok_insert:
  assumes "tabs_ok n ts" "tbId t = n + 1" "trail_ok (tbHistory t)"
  shows "tabs_ok (n + 1) (insert_at k t ts)" "tabs_ok (n + 1) (ts @ [t])"
proof -
  have s: "set (insert_at k t ts) = insert t (set ts)" by (metis mset_insert_at set_mset_add_mset_insert set_mset_mset)
  have new: "n + 1 \<notin> tbId ` set ts" using assms(1) by (fastforce simp: tabs_ok_def)
  have "distinct (map tbId (ts @ [t]))" using assms(1,2) new by (auto simp: tabs_ok_def)
  moreover have "mset (insert_at k t ts) = mset (ts @ [t])" by simp
  ultimately have d: "distinct (map tbId (insert_at k t ts))" "distinct (map tbId (ts @ [t]))"
    by (metis mset_eq_imp_distinct_iff mset_map)+
  show "tabs_ok (n + 1) (insert_at k t ts)" "tabs_ok (n + 1) (ts @ [t])"
    using assms d unfolding tabs_ok_def s by (auto simp: le_Suc_eq)
qed

lemma trail_ok_clone [simp]: "trail_ok (history_clone oh)"
  by (auto simp: history_clone_def trail_ok_def entries_of_def split: option.splits)

lemma trail_ok_new [simp]: "trail_ok (Some new_history)" "trail_ok None" "trail_ok (Some (restore_history es i))"
  by (simp_all add: trail_ok_def)

lemma archive_ok: "closed_ok cs \<Longrightarrow> closed_ok (archive t cs)"
proof -
  assume ok: "closed_ok cs"
  have "closed_ok (last_n maxClosedTabs (cs @ [c]))" if "trail_ok (ctHistory c)" for c
    using ok that set_last_n[of maxClosedTabs "cs @ [c]"] by (auto simp: closed_ok_def)
  then show ?thesis using ok by (simp add: archive_def Let_def)
qed

lemma archive_fold_ok: "closed_ok cs \<Longrightarrow> closed_ok (fold archive ts cs)"
  by (induction ts arbitrary: cs) (auto simp: archive_ok)

lemma new_tab_of_simps [simp]: "tbId (new_tab_of n) = n" "tbHistory (new_tab_of n) = Some new_history"
  by (simp_all add: new_tab_of_def)

lemma add_tab_ok:
  assumes "mgr_ok m" "\<And>t. tbId (f t) = tbId t" "\<And>t. tbHistory (f t) = tbHistory t"
  shows "mgr_ok (fst (snd (add_tab f m)))"
  using assms tabs_ok_insert(2)[of "mgNext m" "mgTabs m" "f (new_tab_of (mgNext m + 1))"]
  by (auto simp: mgr_ok_def add_tab_def Let_def active_ok_def)

lemma close_tab_ok: "mgr_ok m \<Longrightarrow> mgr_ok (fst (close_tab i m))"
proof (cases "index_of i (mgTabs m)")
  case (Some k)
  assume ok: "mgr_ok m"
  have k: "k < length (mgTabs m)" using index_of_Some[OF Some] by simp
  have "tabs_ok (mgNext m) (remove_at k (mgTabs m))"
    using ok by (auto simp: mgr_ok_def intro!: tabs_ok_subset[OF _ set_remove_at_subset remove_at_map_id[OF tabs_ok_distinct]])
  moreover have "closed_ok (archive (mgTabs m ! k) (mgClosed m))" using ok by (simp add: mgr_ok_def archive_ok)
  moreover have "int (length (remove_at k (mgTabs m))) = int (length (mgTabs m)) - 1" using k by simp
  moreover have "1 < length (mgTabs m)" if "remove_at k (mgTabs m) \<noteq> []"
    using that k length_remove_at[OF k] by (cases "remove_at k (mgTabs m)") auto
  ultimately show ?thesis using ok k
    by (cases "remove_at k (mgTabs m) = []") (auto simp: close_tab_def Some Let_def mgr_ok_def active_ok_def)
qed (simp add: close_tab_def)

lemma duplicate_tab_ok: "mgr_ok m \<Longrightarrow> mgr_ok (fst (snd (duplicate_tab i m)))"
proof (cases "index_of i (mgTabs m)")
  case (Some k)
  assume ok: "mgr_ok m"
  have k: "k < length (mgTabs m)" using index_of_Some[OF Some] by simp
  obtain dup where d: "duplicate_tab i m = (Some dup, m\<lparr>mgNext := mgNext m + 1, mgTabs := insert_at (k + 1) dup (mgTabs m),
      mgActive := int (k + 1)\<rparr>, [Changed])" "tbId dup = mgNext m + 1" "trail_ok (tbHistory dup)"
    by (auto simp: duplicate_tab_def Some Let_def entries_of_def split: option.splits)
  have "length (insert_at (k + 1) dup (mgTabs m)) = Suc (length (mgTabs m))" using k by simp
  then show ?thesis using ok k tabs_ok_insert(1)[OF _ d(2,3), of "mgTabs m" "k + 1"]
    by (auto simp: d(1) mgr_ok_def active_ok_def)
qed (simp add: duplicate_tab_def)

lemma close_other_tabs_ok: "mgr_ok m \<Longrightarrow> mgr_ok (fst (close_other_tabs i m))"
proof -
  assume ok: "mgr_ok m"
  define ks where "ks = filter (\<lambda>t. has_id i t \<or> tbPinned t) (mgTabs m)"
  have "tabs_ok (mgNext m) ks"
    using ok unfolding ks_def mgr_ok_def by (intro tabs_ok_subset[OF _ filter_is_subset distinct_filter_id]) (auto simp: tabs_ok_def)
  then show ?thesis using ok index_of_Some[of i ks]
    by (auto simp: close_other_tabs_def keep_or_archive_eq Let_def mgr_ok_def active_ok_def archive_fold_ok ks_def[symmetric] split: option.splits)
qed

lemma close_tabs_to_right_ok: "mgr_ok m \<Longrightarrow> mgr_ok (fst (close_tabs_to_right i m))"
proof (cases "index_of i (mgTabs m)")
  case (Some k)
  assume ok: "mgr_ok m"
  have k: "k < length (mgTabs m)" using index_of_Some[OF Some] by simp
  define ts where "ts = take (k + 1) (mgTabs m) @ filter tbPinned (drop (k + 1) (mgTabs m))"
  have "set ts \<subseteq> set (mgTabs m)" by (auto simp: ts_def dest: in_set_takeD in_set_dropD)
  moreover have "distinct (map tbId (take (k + 1) (mgTabs m) @ drop (k + 1) (mgTabs m)))"
    using ok unfolding append_take_drop_id by (simp add: mgr_ok_def tabs_ok_def)
  then have "distinct (map tbId ts)"
    unfolding ts_def map_append distinct_append by (auto simp: distinct_filter_id)
  ultimately have "tabs_ok (mgNext m) ts" using ok by (auto simp: mgr_ok_def intro: tabs_ok_subset)
  moreover
  define active where "active = (if 0 \<le> mgActive m \<and> mgActive m < int (length (mgTabs m)) then tbId (mgTabs m ! nat (mgActive m)) else 0)"
  define a where "a = (case index_of active ts of Some j \<Rightarrow> int j | None \<Rightarrow> if int k \<ge> int (length ts) then int (length ts) - 1 else int k)"
  have ne: "mgTabs m \<noteq> []" "ts \<noteq> []" using k by (auto simp: ts_def)
  have "close_tabs_to_right i m = (m\<lparr>mgTabs := ts, mgClosed := fold archive (filter (\<lambda>t. \<not> tbPinned t) (drop (k + 1) (mgTabs m))) (mgClosed m),
      mgActive := a\<rparr>, [Changed])"
    unfolding close_tabs_to_right_def Some keep_or_archive_eq option.case Let_def prod.case ts_def[symmetric] active_def[symmetric] a_def
    using ne(2) by simp
  moreover have "active_ok a ts"
    using index_of_Some[of active ts] ne(2) by (auto simp: a_def active_ok_def split: option.splits)
  ultimately show ?thesis using ok by (simp add: mgr_ok_def archive_fold_ok)
qed (simp add: close_tabs_to_right_def)

lemma tabs_ok_update:
  assumes "tabs_ok n ts" "k < length ts" "tbId t = tbId (ts ! k)" "trail_ok (tbHistory t)"
  shows "tabs_ok n (ts[k := t])"
proof -
  have ids: "map tbId (ts[k := t]) = map tbId ts" using assms(2,3) by (simp add: map_update) (metis list_update_id nth_map)
  have "0 < tbId (ts ! k) \<and> tbId (ts ! k) \<le> n" using assms(1,2) by (simp add: tabs_ok_def)
  then show ?thesis using assms(1,3,4) unfolding tabs_ok_def ids
    by (auto dest!: subsetD[OF set_update_subset_insert])
qed

lemma tabs_ok_move: "tabs_ok n ts \<Longrightarrow> k < length ts \<Longrightarrow> tabs_ok n (insert_at j (ts ! k) (remove_at k ts))"
  by (rule tabs_ok_subset[of n ts]) (auto simp: set_move distinct_move tabs_ok_distinct)

lemma length_move: "k < length ts \<Longrightarrow> j \<le> length ts - 1 \<Longrightarrow> length (insert_at j x (remove_at k ts)) = length ts"
  by simp

lemma active_index_ok: "active_ok a ts \<Longrightarrow> length ts' = length ts \<Longrightarrow>
  active_ok (case index_of i ts' of Some j \<Rightarrow> int j | None \<Rightarrow> a) ts'"
  using index_of_Some[of i ts'] by (auto simp: active_ok_def split: option.splits)

lemma last_pinned_bounds: "- 1 \<le> last_pinned i ts \<and> last_pinned i ts < int (length ts)"
proof -
  have "- 1 \<le> fold (\<lambda>k acc. if P k then int k else acc) ks (a :: int) \<and> fold (\<lambda>k acc. if P k then int k else acc) ks a < int n"
    if "\<forall>k\<in>set ks. k < n" "- 1 \<le> a" "a < int n" for P ks a n
    using that by (induction ks arbitrary: a) auto
  from this[of "[0..<length ts]" "length ts" "- 1"] show ?thesis unfolding last_pinned_def by auto
qed

lemma pin_tab_ok: "mgr_ok m \<Longrightarrow> mgr_ok (fst (snd (pin_tab i m)))"
proof (cases "index_of i (mgTabs m)")
  case (Some k)
  assume ok: "mgr_ok m"
  have k: "k < length (mgTabs m)" using index_of_Some[OF Some] by simp
  define t ts where "t = (mgTabs m ! k)\<lparr>tbPinned := True\<rparr>" and "ts = (mgTabs m)[k := t]"
  define target where "target = last_pinned i ts + 1"
  have "tabs_ok (mgNext m) ts"
    unfolding ts_def by (rule tabs_ok_update) (use ok k in \<open>auto simp: mgr_ok_def tabs_ok_def t_def\<close>)
  then have ts: "tabs_ok (mgNext m) ts" "length ts = length (mgTabs m)" "ts ! k = t"
    using k by (simp_all add: ts_def)
  show ?thesis
  proof (cases "target < int k")
    case True
    let ?ts = "insert_at (nat target) t (remove_at k ts)"
    have p: "pin_tab i m = (True, m\<lparr>mgTabs := ?ts, mgActive := (case index_of i ?ts of Some j \<Rightarrow> int j | None \<Rightarrow> mgActive m)\<rparr>, [Changed])"
      using True unfolding pin_tab_def Some option.case Let_def t_def[symmetric] ts_def[symmetric] target_def[symmetric] by simp
    have "length ?ts = length (mgTabs m)" using ts(2) k True by (subst length_move) auto
    moreover have "tabs_ok (mgNext m) ?ts" using tabs_ok_move[OF ts(1), of k "nat target"] ts(2,3) k by simp
    ultimately show ?thesis using ok active_index_ok[of "mgActive m" "mgTabs m" ?ts i] by (simp add: p mgr_ok_def)
  next
    case False
    then have "pin_tab i m = (True, m\<lparr>mgTabs := ts\<rparr>, [Changed])"
      unfolding pin_tab_def Some option.case Let_def t_def[symmetric] ts_def[symmetric] target_def[symmetric] by simp
    then show ?thesis using ok ts by (auto simp: mgr_ok_def active_ok_def ts_def)
  qed
qed (simp add: pin_tab_def)

lemma unpin_tab_ok: "mgr_ok m \<Longrightarrow> mgr_ok (fst (snd (unpin_tab i m)))"
proof (cases "index_of i (mgTabs m)")
  case (Some k)
  assume ok: "mgr_ok m"
  have k: "k < length (mgTabs m)" using index_of_Some[OF Some] by simp
  have "tabs_ok (mgNext m) ((mgTabs m)[k := (mgTabs m ! k)\<lparr>tbPinned := False\<rparr>])"
    using ok k by (intro tabs_ok_update) (auto simp: mgr_ok_def tabs_ok_def)
  then show ?thesis using ok by (auto simp: unpin_tab_def Some mgr_ok_def active_ok_def)
qed (simp add: unpin_tab_def)

lemma toggle_pin_ok: "mgr_ok m \<Longrightarrow> mgr_ok (fst (snd (toggle_pin i m)))"
  by (auto simp: toggle_pin_def pin_tab_ok unpin_tab_ok split: option.splits)

lemma pop_closed_ok: "mgr_ok m \<Longrightarrow> mgr_ok (snd (pop_closed_tab m))"
  by (auto simp: pop_closed_tab_def mgr_ok_def closed_ok_def dest: in_set_butlastD)

text \<open>The tab a record reopens as.\<close>

definition reopened :: "nat \<Rightarrow> closed_tab \<Rightarrow> tab" where
  "reopened n c = (new_tab_of n)\<lparr>tbUrl := ctUrl c, tbTitle := (if ctTitle c \<noteq> [] then ctTitle c else ''New Tab''),
     tbHistory := Some (case ctHistory c of None \<Rightarrow> new_history | Some h \<Rightarrow> restore_history (hsEntries h) (hsIndex h)),
     tbScrollY := ctScrollY c\<rparr>"

lemma reopen_tab_eq:
  "reopen_tab m = (if mgClosed m = [] then (None, m, [])
    else let t = reopened (mgNext m + 1) (last (mgClosed m)) in
      (Some t, m\<lparr>mgClosed := butlast (mgClosed m), mgNext := mgNext m + 1, mgTabs := mgTabs m @ [t], mgActive := int (length (mgTabs m))\<rparr>,
       [Changed]))"
  by (auto simp: reopen_tab_def pop_closed_tab_def reopened_def Let_def entries_of_def new_tab_of_def split: option.splits)

lemma reopen_tab_ok: "mgr_ok m \<Longrightarrow> mgr_ok (fst (snd (reopen_tab m)))"
proof (cases "mgClosed m = []")
  case False
  assume ok: "mgr_ok m"
  let ?t = "reopened (mgNext m + 1) (last (mgClosed m))"
  have "tbId ?t = mgNext m + 1" "trail_ok (tbHistory ?t)"
    using ok False by (auto simp: reopened_def mgr_ok_def closed_ok_def trail_ok_def split: option.splits)
  from tabs_ok_insert(2)[OF _ this, of "mgTabs m"] show ?thesis using ok False
    by (auto simp: reopen_tab_eq Let_def mgr_ok_def active_ok_def closed_ok_def dest: in_set_butlastD)
qed (simp add: reopen_tab_eq)

lemma switch_to_ok: "mgr_ok m \<Longrightarrow> mgr_ok (fst (switch_to i m))"
  using index_of_Some[of i "mgTabs m"] by (auto simp: switch_to_def mgr_ok_def active_ok_def split: option.splits)

text \<open>Where a move puts the tab.\<close>

definition move_target :: "int \<Rightarrow> nat \<Rightarrow> nat" where
  "move_target to_index n = nat (min (max to_index 0) (int n - 1))"

lemma move_tab_eq:
  assumes "mgr_ok m" "index_of i (mgTabs m) = Some k"
  shows "move_tab i to_index m =
    (let j = move_target to_index (length (mgTabs m)); ts = insert_at j (mgTabs m ! k) (remove_at k (mgTabs m))
     in if k = j then Some (False, m, [])
        else Some (True, m\<lparr>mgTabs := ts, mgActive := (case index_of (tbId (mgTabs m ! nat (mgActive m))) ts of
            Some j \<Rightarrow> int j | None \<Rightarrow> mgActive m)\<rparr>, [Changed]))"
proof -
  have k: "k < length (mgTabs m)" using index_of_Some[OF assms(2)] by simp
  have a: "0 \<le> mgActive m" "mgActive m < int (length (mgTabs m))" using assms(1) k by (auto simp: mgr_ok_def active_ok_def)
  define j where "j = (let t = (if to_index < 0 then 0 else to_index) in if t \<ge> int (length (mgTabs m)) then int (length (mgTabs m)) - 1 else t)"
  have j: "j = int (move_target to_index (length (mgTabs m)))" using k by (auto simp: j_def move_target_def Let_def)
  have "\<not> j > int (length (remove_at k (mgTabs m)))" using k by (simp add: j_def Let_def)
  then show ?thesis
    unfolding move_tab_def assms(2) option.case Let_def j_def[unfolded Let_def, symmetric] using a by (simp add: j)
qed

lemma move_target_bound: "0 < n \<Longrightarrow> move_target t n \<le> n - 1"
  by (auto simp: move_target_def)

lemma move_tab_ok:
  assumes "mgr_ok m"
  shows "\<exists>r. move_tab i to_index m = Some r \<and> mgr_ok (fst (snd r))"
proof (cases "index_of i (mgTabs m)")
  case (Some k)
  have k: "k < length (mgTabs m)" using index_of_Some[OF Some] by simp
  let ?ts = "insert_at (move_target to_index (length (mgTabs m))) (mgTabs m ! k) (remove_at k (mgTabs m))"
  have "move_target to_index (length (mgTabs m)) \<le> length (mgTabs m) - 1" by (rule move_target_bound) (use k in auto)
  then have "length ?ts = length (mgTabs m)" by (rule length_move[OF k])
  moreover have "tabs_ok (mgNext m) ?ts" using assms k by (auto simp: mgr_ok_def tabs_ok_move)
  ultimately show ?thesis using assms unfolding move_tab_eq[OF assms Some] Let_def
    by (auto simp: mgr_ok_def active_index_ok)
qed (use assms in \<open>simp add: move_tab_def\<close>)

subsection \<open>Reachable managers\<close>

text \<open>What a tab's owner may do to it: anything that keeps its identity and leaves it a history
  its own methods could leave.\<close>

definition edits_tab :: "(tab \<Rightarrow> tab) \<Rightarrow> bool" where
  "edits_tab f \<longleftrightarrow> (\<forall>t. tbId (f t) = tbId t \<and> (trail_ok (tbHistory t) \<longrightarrow> trail_ok (tbHistory (f t))))"

inductive tabs_reach :: "manager \<Rightarrow> bool" where
  start: "tabs_reach new_manager"
| open_tab: "tabs_reach m \<Longrightarrow> tabs_reach (fst (snd (new_tab m)))"
| open_private: "tabs_reach m \<Longrightarrow> tabs_reach (fst (snd (new_incognito_tab m)))"
| close: "tabs_reach m \<Longrightarrow> tabs_reach (fst (close_tab i m))"
| duplicate: "tabs_reach m \<Longrightarrow> tabs_reach (fst (snd (duplicate_tab i m)))"
| close_others: "tabs_reach m \<Longrightarrow> tabs_reach (fst (close_other_tabs i m))"
| close_right: "tabs_reach m \<Longrightarrow> tabs_reach (fst (close_tabs_to_right i m))"
| pin: "tabs_reach m \<Longrightarrow> tabs_reach (fst (snd (pin_tab i m)))"
| unpin: "tabs_reach m \<Longrightarrow> tabs_reach (fst (snd (unpin_tab i m)))"
| toggle: "tabs_reach m \<Longrightarrow> tabs_reach (fst (snd (toggle_pin i m)))"
| reopen: "tabs_reach m \<Longrightarrow> tabs_reach (fst (snd (reopen_tab m)))"
| pop: "tabs_reach m \<Longrightarrow> tabs_reach (snd (pop_closed_tab m))"
| switch: "tabs_reach m \<Longrightarrow> tabs_reach (fst (switch_to i m))"
| move: "tabs_reach m \<Longrightarrow> move_tab i k m = Some r \<Longrightarrow> tabs_reach (fst (snd r))"
| scroll: "tabs_reach m \<Longrightarrow> tabs_reach (set_tab_scroll off n cw m)"
| drag: "tabs_reach m \<Longrightarrow> tabs_reach (start_drag i x m)"
| drag_on: "tabs_reach m \<Longrightarrow> tabs_reach (move_drag x m)"
| drop_it: "tabs_reach m \<Longrightarrow> tabs_reach (end_drag m)"
| edit: "tabs_reach m \<Longrightarrow> edits_tab f \<Longrightarrow>
    tabs_reach (m\<lparr>mgTabs := map (\<lambda>t. if tbId t = i then f t else t) (mgTabs m)\<rparr>)"

lemma edit_ok:
  assumes "mgr_ok m" "edits_tab f"
  shows "mgr_ok (m\<lparr>mgTabs := map (\<lambda>t. if tbId t = i then f t else t) (mgTabs m)\<rparr>)"
proof -
  have "map tbId (map (\<lambda>t. if tbId t = i then f t else t) (mgTabs m)) = map tbId (mgTabs m)"
    using assms(2) by (simp add: edits_tab_def)
  then have "distinct (map tbId (map (\<lambda>t. if tbId t = i then f t else t) (mgTabs m)))"
    using assms(1) by (simp only: mgr_ok_def tabs_ok_def)
  moreover have "\<forall>t\<in>set (map (\<lambda>t. if tbId t = i then f t else t) (mgTabs m)). 0 < tbId t \<and> tbId t \<le> mgNext m \<and> trail_ok (tbHistory t)"
    using assms by (auto simp: mgr_ok_def tabs_ok_def edits_tab_def)
  ultimately have "tabs_ok (mgNext m) (map (\<lambda>t. if tbId t = i then f t else t) (mgTabs m))"
    unfolding tabs_ok_def by blast
  then show ?thesis using assms(1) by (simp add: mgr_ok_def active_ok_def)
qed

lemma strip_only_ok [simp]:
  "mgr_ok (set_tab_scroll off n cw m) = mgr_ok m" "mgr_ok (start_drag i x m) = mgr_ok m"
  "mgr_ok (move_drag x m) = mgr_ok m" "mgr_ok (end_drag m) = mgr_ok m"
  by (simp_all add: mgr_ok_def set_tab_scroll_def start_drag_def move_drag_def end_drag_def Let_def)

lemma tabs_reach_ok: "tabs_reach m \<Longrightarrow> mgr_ok m"
proof (induction rule: tabs_reach.induct)
  case start
  show ?case by (simp add: mgr_ok_def new_manager_def tabs_ok_def active_ok_def closed_ok_def)
next
  case (move m i k r)
  then show ?case using move_tab_ok[OF move.IH, of i k] by auto
qed (simp_all add: new_tab_def new_incognito_tab_def add_tab_ok close_tab_ok duplicate_tab_ok close_other_tabs_ok close_tabs_to_right_ok
   pin_tab_ok unpin_tab_ok toggle_pin_ok reopen_tab_ok pop_closed_ok switch_to_ok edit_ok)

text \<open>
  Claim C37. The tab list stays consistent: in every state the manager's methods, the tabs' own
  setters and the drag can reach, no two tabs share an identity, the active index is that of an open tab, or 0 when there is
  none, so reading the active tab and moving one never panic, at most 25 closed tabs are kept and
  every history is well formed.
\<close>

theorem tabs_stay_consistent:
  assumes "tabs_reach m"
  shows "distinct (map tbId (mgTabs m)) \<and> (\<forall>t\<in>set (mgTabs m). 0 < tbId t \<and> tbId t \<le> mgNext m)
    \<and> (if mgTabs m = [] then mgActive m = 0 \<and> active_tab m = Some None
       else active_tab m = Some (Some (mgTabs m ! nat (mgActive m))))
    \<and> move_tab i k m \<noteq> None \<and> length (mgClosed m) \<le> 25
    \<and> (\<forall>t\<in>set (mgTabs m). trail_ok (tbHistory t)) \<and> (\<forall>c\<in>set (mgClosed m). trail_ok (ctHistory c))"
  using tabs_reach_ok[OF assms] move_tab_ok[OF tabs_reach_ok[OF assms], of i k]
  by (auto simp: mgr_ok_def tabs_ok_def active_ok_def closed_ok_def active_tab_def maxClosedTabs_def)

subsection \<open>The active tab\<close>

lemma active_by_index:
  assumes "distinct (map tbId ts)" "a \<in> set ts"
  shows "(case index_of (tbId a) ts of Some j \<Rightarrow> int j | None \<Rightarrow> d) < int (length ts)
    \<and> 0 \<le> (case index_of (tbId a) ts of Some j \<Rightarrow> int j | None \<Rightarrow> d)
    \<and> ts ! nat (case index_of (tbId a) ts of Some j \<Rightarrow> int j | None \<Rightarrow> d) = a"
  by (rule index_of_member[OF assms]) simp

lemma active_tab_Some:
  "mgr_ok m \<Longrightarrow> active_tab m = Some (Some a) \<longleftrightarrow>
    0 \<le> mgActive m \<and> nat (mgActive m) < length (mgTabs m) \<and> mgTabs m ! nat (mgActive m) = a"
  by (auto simp: active_tab_def mgr_ok_def active_ok_def)

lemma active_tab_I: "0 \<le> mgActive m \<Longrightarrow> mgActive m < int (length (mgTabs m)) \<Longrightarrow> mgTabs m ! nat (mgActive m) = a \<Longrightarrow>
  active_tab m = Some (Some a)"
  by (auto simp: active_tab_def)

lemma close_keeps_active:
  assumes ok: "mgr_ok m" and a: "active_tab m = Some (Some a)" "tbId a \<noteq> i"
  shows "active_tab (fst (close_tab i m)) = Some (Some a)"
proof (cases "index_of i (mgTabs m)")
  case (Some k)
  note k = index_of_Some[OF Some]
  define p where "p = nat (mgActive m)"
  have p: "mgActive m = int p" "p < length (mgTabs m)" "mgTabs m ! p = a" using a(1) by (auto simp: active_tab_Some[OF ok] p_def)
  then have pk: "p \<noteq> k" using k a(2) by auto
  let ?rest = "remove_at k (mgTabs m)" and ?p = "if k < p then p - 1 else p"
  have l: "length ?rest = length (mgTabs m) - 1" using k by simp
  have p': "?p < length ?rest" "?rest ! ?p = a" using k p pk nth_remove_at[of ?p "mgTabs m" k] by (auto simp: l)
  then have ne: "?rest \<noteq> []" by auto
  have "mgActive (fst (close_tab i m)) = int ?p" "mgTabs (fst (close_tab i m)) = ?rest"
    using p k pk ne l by (auto simp: close_tab_def Some Let_def)
  then show ?thesis using p' by (intro active_tab_I) auto
qed (use a in \<open>simp add: close_tab_def\<close>)

lemma close_right_keeps_active:
  assumes ok: "mgr_ok m" and a: "active_tab m = Some (Some a)" "a \<in> set (mgTabs (fst (close_tabs_to_right i m)))"
  shows "active_tab (fst (close_tabs_to_right i m)) = Some (Some a)"
proof (cases "index_of i (mgTabs m)")
  case (Some k)
  note k = index_of_Some[OF Some]
  have act: "(if 0 \<le> mgActive m \<and> mgActive m < int (length (mgTabs m)) then tbId (mgTabs m ! nat (mgActive m)) else 0) = tbId a"
    using a(1) by (auto simp: active_tab_Some[OF ok])
  define ts where "ts = take (k + 1) (mgTabs m) @ filter tbPinned (drop (k + 1) (mgTabs m))"
  have "mgTabs m \<noteq> []" using k by auto
  then have ne: "ts \<noteq> []" by (auto simp: ts_def)
  have tabs: "mgTabs (fst (close_tabs_to_right i m)) = ts"
    unfolding close_tabs_to_right_def Some keep_or_archive_eq option.case Let_def prod.case ts_def[symmetric] using ne by simp
  have "mgActive (fst (close_tabs_to_right i m))
      = (case index_of (tbId a) ts of Some j \<Rightarrow> int j | None \<Rightarrow> if int k \<ge> int (length ts) then int (length ts) - 1 else int k)"
    unfolding close_tabs_to_right_def Some keep_or_archive_eq option.case Let_def prod.case ts_def[symmetric] act using ne by simp
  moreover have "distinct (map tbId ts)"
    using close_tabs_to_right_ok[OF ok, of i] by (simp add: mgr_ok_def tabs_ok_def tabs)
  ultimately show ?thesis
    using active_by_index[of ts a] a(2) unfolding tabs by (intro active_tab_I) (simp_all add: tabs)
qed (use a in \<open>simp add: close_tabs_to_right_def\<close>)

lemma filter_move:
  assumes "k < length ts" "\<not> P (ts ! k)"
  shows "filter P (insert_at j (ts ! k) (remove_at k ts)) = filter P ts"
proof -
  have "filter P (insert_at j (ts ! k) (remove_at k ts)) = filter P (take j (remove_at k ts) @ drop j (remove_at k ts))"
    unfolding insert_at_def filter_append using assms(2) by simp
  also have "\<dots> = filter P (take k ts @ ts ! k # drop (Suc k) ts)"
    using assms(2) by (simp only: append_take_drop_id remove_at_def) simp
  finally show ?thesis using id_take_nth_drop[OF assms(1)] by simp
qed

lemma move_keeps_active:
  assumes ok: "mgr_ok m" and a: "active_tab m = Some (Some a)"
  shows "\<exists>moved m' ns. move_tab i to_index m = Some (moved, m', ns) \<and> active_tab m' = Some (Some a)
    \<and> filter (\<lambda>t. tbId t \<noteq> i) (mgTabs m') = filter (\<lambda>t. tbId t \<noteq> i) (mgTabs m)
    \<and> (i \<in> tbId ` set (mgTabs m) \<longrightarrow> tbId (mgTabs m' ! move_target to_index (length (mgTabs m))) = i)"
proof (cases "index_of i (mgTabs m)")
  case None
  then have "move_tab i to_index m = Some (False, m, [])" "i \<notin> tbId ` set (mgTabs m)"
    by (simp add: move_tab_def) (use None in \<open>simp add: index_of_None\<close>)
  then show ?thesis using a by blast
next
  case (Some k)
  note k = index_of_Some[OF Some]
  let ?j = "move_target to_index (length (mgTabs m))"
  let ?ts = "insert_at ?j (mgTabs m ! k) (remove_at k (mgTabs m))"
  show ?thesis
  proof (cases "k = ?j")
    case True
    then show ?thesis using a k unfolding move_tab_eq[OF ok Some] Let_def by auto
  next
    case False
    note act = a[unfolded active_tab_Some[OF ok]]
    have j: "?j \<le> length (mgTabs m) - 1" by (rule move_target_bound) (use k in auto)
    have d: "distinct (map tbId ?ts)" "a \<in> set ?ts"
      using ok k act by (auto simp: mgr_ok_def tabs_ok_def set_move intro!: distinct_move)
    define act' where "act' = (case index_of (tbId a) ?ts of Some j \<Rightarrow> int j | None \<Rightarrow> mgActive m)"
    let ?m = "m\<lparr>mgTabs := ?ts, mgActive := act'\<rparr>"
    have "move_tab i to_index m = Some (True, ?m, [Changed])"
      using False act unfolding move_tab_eq[OF ok Some] Let_def by (simp add: act'_def)
    moreover have "active_tab ?m = Some (Some a)"
      using active_by_index[OF d, of "mgActive m"] by (intro active_tab_I) (simp_all add: act'_def)
    moreover have "filter (\<lambda>t. tbId t \<noteq> i) ?ts = filter (\<lambda>t. tbId t \<noteq> i) (mgTabs m)"
      using k by (intro filter_move) auto
    moreover have "?ts ! ?j = mgTabs m ! k" using j k by (intro nth_insert_at) simp
    ultimately show ?thesis using k by auto
  qed
qed

text \<open>
  The active tab is kept by identity, not by position: closing another tab, closing
  the tabs to the right of one when the active tab is not among the closed, and dragging any tab to any place leave
  the same tab active; the dragged tab ends at the clamped index and the others keep their order.
\<close>

theorem active_tab_kept:
  assumes "tabs_reach m" "active_tab m = Some (Some a)"
  shows "(tbId a \<noteq> i \<longrightarrow> active_tab (fst (close_tab i m)) = Some (Some a))
    \<and> (a \<in> set (mgTabs (fst (close_tabs_to_right i m))) \<longrightarrow> active_tab (fst (close_tabs_to_right i m)) = Some (Some a))
    \<and> (\<exists>moved m' ns. move_tab i k m = Some (moved, m', ns) \<and> active_tab m' = Some (Some a)
        \<and> filter (\<lambda>t. tbId t \<noteq> i) (mgTabs m') = filter (\<lambda>t. tbId t \<noteq> i) (mgTabs m)
        \<and> (i \<in> tbId ` set (mgTabs m) \<longrightarrow> tbId (mgTabs m' ! move_target k (length (mgTabs m))) = i))"
  using tabs_reach_ok[OF assms(1)] assms(2)
  by (intro conjI impI close_keeps_active close_right_keeps_active move_keeps_active)

text \<open>A tab with one open tab to its left, closed and reopened.\<close>

definition two_tabs :: manager where
  "two_tabs = fst (snd (new_tab (fst (snd (new_tab new_manager)))))"

lemma two_tabs_reach: "tabs_reach two_tabs"
  unfolding two_tabs_def by (intro tabs_reach.intros)

lemma two_tabs_eq: "mgTabs two_tabs = [new_tab_of 1, new_tab_of 2]" "mgActive two_tabs = 0" "mgNext two_tabs = 2" "mgClosed two_tabs = []"
  by (simp_all add: two_tabs_def new_tab_def add_tab_def new_manager_def Let_def eval_nat_numeral)

theorem tabs_stay_consistent_witness: "active_tab two_tabs = Some (Some (new_tab_of 1)) \<and> distinct (map tbId (mgTabs two_tabs))"
  using tabs_stay_consistent[OF two_tabs_reach, of 0 0] by (simp add: two_tabs_eq)

theorem active_tab_kept_witness:
  "active_tab (fst (close_tab 2 two_tabs)) = Some (Some (new_tab_of 1))
   \<and> (\<exists>moved m' ns. move_tab 1 7 two_tabs = Some (moved, m', ns) \<and> active_tab m' = Some (Some (new_tab_of 1)))"
proof -
  have a: "active_tab two_tabs = Some (Some (new_tab_of 1))" by (simp add: active_tab_def two_tabs_eq)
  show ?thesis
    using active_tab_kept[OF two_tabs_reach a, of 2 7] active_tab_kept[OF two_tabs_reach a, of 1 7] by auto
qed

text \<open>Pinning a tab from further right makes it active, whichever tab was; pinning one in place does not.\<close>

lemma pin_activates:
  "mgActive (fst (snd (pin_tab 2 two_tabs))) = 0" "map tbId (mgTabs (fst (snd (pin_tab 2 two_tabs)))) = [2, 1]"
  "mgActive (fst (snd (pin_tab 2 (two_tabs\<lparr>mgActive := 1\<rparr>)))) = 0"
  "mgActive (fst (snd (pin_tab 1 (two_tabs\<lparr>mgActive := 1\<rparr>)))) = 1"
  by code_simp+

subsection \<open>Reopening\<close>

text \<open>
  Closing a tab and reopening the last closed gives the tab back: a new tab at the end
  of the strip, active, with the same address, title, scroll offset and history; the other
  tabs and, below the limit of 25, the older closed ones are untouched. A private tab leaves
  nothing to reopen.
\<close>

theorem closed_tab_reopens:
  assumes "tabs_reach m" "index_of i (mgTabs m) = Some k"
    and "t = mgTabs m ! k" "tbHistory t = Some h" "tbUrl t \<noteq> [] \<or> hsEntries h \<noteq> []" "tbTitle t \<noteq> []"
  shows "if tbIncognito t then mgClosed (fst (close_tab i m)) = mgClosed m
    else case reopen_tab (fst (close_tab i m)) of (r, m', ns) \<Rightarrow>
      active_tab m' = Some r \<and> mgTabs m' = remove_at k (mgTabs m) @ [(new_tab_of (mgNext m + 1))
        \<lparr>tbUrl := tbUrl t, tbTitle := tbTitle t, tbHistory := Some h, tbScrollY := tbScrollY t\<rparr>]
      \<and> r = Some (last (mgTabs m')) \<and> (length (mgClosed m) < 25 \<longrightarrow> mgClosed m' = mgClosed m)"
proof -
  note ok = tabs_reach_ok[OF assms(1)]
  have k: "k < length (mgTabs m)" using index_of_Some[OF assms(2)] by simp
  have closed: "mgClosed (fst (close_tab i m)) = archive t (mgClosed m)" "mgTabs (fst (close_tab i m)) = remove_at k (mgTabs m)"
    "mgNext (fst (close_tab i m)) = mgNext m"
    using assms(3) by (auto simp: close_tab_def assms(2) Let_def)
  have "t \<in> set (mgTabs m)" using k assms(3) by simp
  then have "trail_ok (tbHistory t)" using ok by (simp add: mgr_ok_def tabs_ok_def)
  then have h: "hist_ok h" by (simp add: assms(4) trail_ok_def)
  show ?thesis
  proof (cases "tbIncognito t")
    case True
    then show ?thesis by (simp add: closed archive_def)
  next
    case False
    define c where "c = \<lparr>ctUrl = tbUrl t, ctTitle = tbTitle t, ctHistory = history_clone (tbHistory t), ctScrollY = tbScrollY t\<rparr>"
    have clone: "history_clone (tbHistory t) = (if hsEntries h = [] then None else Some h)"
      by (simp add: history_clone_def assms(4) entries_of_def save_restore_id[OF h])
    then have cs: "mgClosed (fst (close_tab i m)) = last_n maxClosedTabs (mgClosed m @ [c])"
      using False assms(5) by (auto simp: closed archive_def Let_def c_def)
    have l: "last_n maxClosedTabs (mgClosed m @ [c]) = drop (Suc (length (mgClosed m)) - 25) (mgClosed m) @ [c]"
      by (simp add: last_n_def maxClosedTabs_def)
    have empty: "h = new_history" if "hsEntries h = []" using that h by (cases h) (auto simp: hist_ok_def new_history_def)
    have t': "reopened (mgNext m + 1) c = (new_tab_of (mgNext m + 1))\<lparr>tbUrl := tbUrl t, tbTitle := tbTitle t, tbHistory := Some h, tbScrollY := tbScrollY t\<rparr>"
      using assms(6) empty by (auto simp: reopened_def c_def clone save_restore_id[OF h])
    show ?thesis using False
      by (simp add: reopen_tab_eq cs l closed Let_def t'[simplified] active_tab_def nat_add_distrib nth_append)
  qed
qed

text \<open>A page visited in the second tab, closed.\<close>

definition visited_tabs :: manager where
  "visited_tabs = two_tabs\<lparr>mgTabs := map (\<lambda>t. if tbId t = 2 then t\<lparr>tbUrl := ''https://go.dev'', tbHistory := Some (push_url ''https://go.dev'' new_history)\<rparr> else t) (mgTabs two_tabs)\<rparr>"

theorem closed_tab_reopens_witness:
  "case reopen_tab (fst (close_tab 2 visited_tabs)) of (r, m', ns) \<Rightarrow>
     map tbUrl (mgTabs m') = [[], ''https://go.dev''] \<and> map tbId (mgTabs m') = [1, 3] \<and> mgClosed m' = []"
proof -
  define f :: "tab \<Rightarrow> tab" where "f = (\<lambda>t. t\<lparr>tbUrl := ''https://go.dev'', tbHistory := Some (push_url ''https://go.dev'' new_history)\<rparr>)"
  have "edits_tab f" by (simp add: edits_tab_def f_def trail_ok_def push_refines)
  from tabs_reach.edit[OF two_tabs_reach this, of 2] have r: "tabs_reach visited_tabs" unfolding visited_tabs_def f_def .
  have v: "mgTabs visited_tabs = [new_tab_of 1, f (new_tab_of 2)]" "mgNext visited_tabs = 2" "mgClosed visited_tabs = []"
    by (simp_all add: visited_tabs_def two_tabs_eq f_def)
  have i: "index_of 2 (mgTabs visited_tabs) = Some 1" by (simp add: v has_id_def f_def)
  have t: "mgTabs visited_tabs ! 1 = f (new_tab_of 2)" by (simp add: v)
  have h: "tbHistory (f (new_tab_of 2)) = Some (push_url ''https://go.dev'' new_history)" "\<not> tbIncognito (f (new_tab_of 2))"
    "tbUrl (f (new_tab_of 2)) \<noteq> []" "tbTitle (f (new_tab_of 2)) \<noteq> []" by (simp_all add: f_def new_tab_of_def)
  from closed_tab_reopens[OF r i t[symmetric] h(1) disjI1[OF h(3)] h(4)] h(2)
  show ?thesis by (auto simp: v remove_at_def f_def new_tab_of_def split: prod.splits)
qed

end
