(* ===== verification/Dom_Node.thy ===== *)
theory Dom_Node
  imports Go_Strings
begin

text \<open>
  \<open>internal/dom/node.go\<close>, the data: nodes and documents in a store of addresses, the tree
  pointers between them, attributes, and the walks that only read: siblings, ancestors, the
  visiting order of a subtree, text content, the select element an option belongs to. A walk
  over pointers may run for ever on a malformed store, so it is a partial function and \<open>None\<close>
  is not returning; \<open>Dom_Shape\<close> proves that on a well-formed tree every walk returns. Strings are
  bytes; case folding is modelled for ASCII.
\<close>

subsection \<open>Nodes and documents\<close>

type_synonym addr = nat

datatype node_type = NodeDocument | NodeElement | NodeText | NodeComment | NodeDoctype | NodeDocumentFragment
  | NodeCDATASection | NodeProcessingInstruction

record shadow =
  shFirst :: "addr option"
  shLast :: "addr option"

record node =
  ndID :: nat
  ndType :: node_type
  ndHtml :: bool
  ndData :: string
  ndAttr :: "(string \<times> string) list"
  ndContent :: string
  ndParent :: "addr option"
  ndFirst :: "addr option"
  ndLast :: "addr option"
  ndNext :: "addr option"
  ndPrev :: "addr option"
  ndShadow :: "shadow option"
  ndTemplate :: "addr option"
  ndInputValue :: string
  ndInputType :: string
  ndInputMultiple :: bool
  ndInputInit :: bool
  ndInputDirty :: bool
  ndOptSelected :: bool
  ndOptInit :: bool
  ndOptDirty :: bool
  ndSelectNone :: bool
  ndDoc :: "nat option"

record document =
  dcNode :: addr
  dcNextID :: nat
  dcTemplate :: "nat option"
  dcTemplateOwner :: bool
  dcQValid :: bool
  dcXml :: bool

text \<open>The store; \<open>dmRemovals\<close> is what the removal callbacks were called with.\<close>

record dom =
  dmNode :: "addr \<Rightarrow> node"
  dmDoc :: "nat \<Rightarrow> document"
  dmFresh :: addr
  dmFreshDoc :: nat
  dmRemovals :: "(addr \<times> addr) list"

abbreviation nd :: "dom \<Rightarrow> addr \<Rightarrow> node" where
  "nd d x \<equiv> dmNode d x"

definition upd_node :: "addr \<Rightarrow> (node \<Rightarrow> node) \<Rightarrow> dom \<Rightarrow> dom" where
  "upd_node x f d = d\<lparr>dmNode := (dmNode d)(x := f (dmNode d x))\<rparr>"

definition upd_doc :: "nat \<Rightarrow> (document \<Rightarrow> document) \<Rightarrow> dom \<Rightarrow> dom" where
  "upd_doc k f d = d\<lparr>dmDoc := (dmDoc d)(k := f (dmDoc d k))\<rparr>"

definition zero_node :: node where
  "zero_node = \<lparr>ndID = 0, ndType = NodeDocument, ndHtml = True, ndData = [], ndAttr = [], ndContent = [], ndParent = None, ndFirst = None,
     ndLast = None, ndNext = None, ndPrev = None, ndShadow = None, ndTemplate = None, ndInputValue = [], ndInputType = [],
     ndInputMultiple = False, ndInputInit = False, ndInputDirty = False, ndOptSelected = False, ndOptInit = False,
     ndOptDirty = False, ndSelectNone = False, ndDoc = None\<rparr>"

subsection \<open>Attributes\<close>

definition equal_fold :: "string \<Rightarrow> string \<Rightarrow> bool" where
  "equal_fold a b \<longleftrightarrow> to_lower a = to_lower b"

fun get_attribute_in :: "string \<Rightarrow> (string \<times> string) list \<Rightarrow> string" where
  "get_attribute_in name [] = []"
| "get_attribute_in name ((k, v) # as) = (if k = name \<or> equal_fold k name then v else get_attribute_in name as)"

definition get_attribute :: "node \<Rightarrow> string \<Rightarrow> string" where
  "get_attribute n name = get_attribute_in name (ndAttr n)"

definition has_attribute :: "node \<Rightarrow> string \<Rightarrow> bool" where
  "has_attribute n name = list_ex (\<lambda>(k, v). k = name \<or> equal_fold k name) (ndAttr n)"

definition is_html_template :: "node \<Rightarrow> bool" where
  "is_html_template n \<longleftrightarrow> ndType n = NodeElement \<and> ndHtml n \<and> ndData n = ''template''"

definition is_fragment :: "node \<Rightarrow> bool" where
  "is_fragment n \<longleftrightarrow> ndType n = NodeDocumentFragment"

subsection \<open>Documents\<close>

definition alloc_id :: "nat \<Rightarrow> dom \<Rightarrow> nat \<times> dom" where
  "alloc_id k d = (dcNextID (dmDoc d k), upd_doc k (\<lambda>r. r\<lparr>dcNextID := (dcNextID r + 1) mod 2 ^ 32\<rparr>) d)"

definition new_document :: "dom \<Rightarrow> nat \<times> dom" where
  "new_document d =
     (let k = dmFreshDoc d; x = dmFresh d;
          d = d\<lparr>dmFreshDoc := k + 1, dmFresh := x + 1,
                dmDoc := (dmDoc d)(k := \<lparr>dcNode = x, dcNextID = 0, dcTemplate = None, dcTemplateOwner = False, dcQValid = False, dcXml = False\<rparr>)\<rparr>;
          (i, d) = alloc_id k d
      in (k, upd_node x (\<lambda>_. zero_node\<lparr>ndID := i, ndDoc := Some k\<rparr>) d))"

definition template_owner_document :: "nat \<Rightarrow> dom \<Rightarrow> nat \<times> dom" where
  "template_owner_document k d =
     (case dcTemplate (dmDoc d k) of
        Some t \<Rightarrow> (t, d)
      | None \<Rightarrow> (let (t, d) = new_document d
                 in (t, upd_doc k (\<lambda>r. r\<lparr>dcTemplate := Some t\<rparr>) (upd_doc t (\<lambda>r. r\<lparr>dcTemplateOwner := True\<rparr>) d))))"

definition mark_query_dirty :: "nat option \<Rightarrow> dom \<Rightarrow> dom" where
  "mark_query_dirty ok d = (case ok of None \<Rightarrow> d | Some k \<Rightarrow> upd_doc k (\<lambda>r. r\<lparr>dcQValid := False\<rparr>) d)"

definition alloc_node :: "nat \<Rightarrow> node \<Rightarrow> dom \<Rightarrow> addr \<times> dom" where
  "alloc_node k n d =
     (let (i, d) = alloc_id k d; x = dmFresh d
      in (x, upd_node x (\<lambda>_. n\<lparr>ndID := i, ndDoc := Some k\<rparr>) (d\<lparr>dmFresh := x + 1\<rparr>)))"

definition new_element :: "nat \<Rightarrow> string \<Rightarrow> dom \<Rightarrow> addr \<times> dom" where
  "new_element k tag d =
     alloc_node k (zero_node\<lparr>ndType := NodeElement, ndData := (if dcXml (dmDoc d k) then tag else to_lower tag)\<rparr>) d"

definition new_text :: "nat \<Rightarrow> string \<Rightarrow> dom \<Rightarrow> addr \<times> dom" where
  "new_text k s = alloc_node k (zero_node\<lparr>ndType := NodeText, ndContent := s\<rparr>)"

definition new_fragment :: "nat \<Rightarrow> dom \<Rightarrow> addr \<times> dom" where
  "new_fragment k = alloc_node k (zero_node\<lparr>ndType := NodeDocumentFragment\<rparr>)"

definition new_comment :: "nat \<Rightarrow> string \<Rightarrow> dom \<Rightarrow> addr \<times> dom" where
  "new_comment k s = alloc_node k (zero_node\<lparr>ndType := NodeComment, ndContent := s\<rparr>)"

definition new_cdata_section :: "nat \<Rightarrow> string \<Rightarrow> dom \<Rightarrow> addr \<times> dom" where
  "new_cdata_section k s = alloc_node k (zero_node\<lparr>ndType := NodeCDATASection, ndContent := s\<rparr>)"

definition new_processing_instruction :: "nat \<Rightarrow> string \<Rightarrow> string \<Rightarrow> dom \<Rightarrow> addr \<times> dom" where
  "new_processing_instruction k target s =
     alloc_node k (zero_node\<lparr>ndType := NodeProcessingInstruction, ndData := target, ndContent := s\<rparr>)"

definition new_doctype :: "nat \<Rightarrow> string \<Rightarrow> dom \<Rightarrow> addr \<times> dom" where
  "new_doctype k s = alloc_node k (zero_node\<lparr>ndType := NodeDoctype, ndContent := s\<rparr>)"

subsection \<open>Siblings and ancestors\<close>

text \<open>The nodes a loop from \<open>c\<close> along \<open>NextSibling\<close> meets.\<close>

partial_function (option) siblings :: "dom \<Rightarrow> addr option \<Rightarrow> addr list option" where
  "siblings d c = (case c of None \<Rightarrow> Some []
     | Some x \<Rightarrow> Option.bind (siblings d (ndNext (nd d x))) (\<lambda>xs. Some (x # xs)))"

definition child_nodes :: "dom \<Rightarrow> addr \<Rightarrow> addr list option" where
  "child_nodes d n = siblings d (ndFirst (nd d n))"

partial_function (option) sib_find :: "dom \<Rightarrow> addr \<Rightarrow> addr option \<Rightarrow> bool option" where
  "sib_find d x c = (case c of None \<Rightarrow> Some False
     | Some y \<Rightarrow> if y = x then Some True else sib_find d x (ndNext (nd d y)))"

text \<open>\<open>Contains\<close> and \<open>IsConnected\<close> climb with the nodes already seen, so a cycle ends them.\<close>

partial_function (option) contains_up :: "dom \<Rightarrow> addr \<Rightarrow> addr option \<Rightarrow> addr list \<Rightarrow> bool option" where
  "contains_up d n p seen = (case p of None \<Rightarrow> Some False
     | Some x \<Rightarrow> if x = n then Some True else if x \<in> set seen then Some False
        else contains_up d n (ndParent (nd d x)) (x # seen))"

definition contains_node :: "dom \<Rightarrow> addr \<Rightarrow> addr \<Rightarrow> bool option" where
  "contains_node d n x = contains_up d n (Some x) []"

partial_function (option) connected_up :: "dom \<Rightarrow> addr list \<Rightarrow> addr option \<Rightarrow> bool option" where
  "connected_up d seen p = (case p of None \<Rightarrow> Some False
     | Some x \<Rightarrow> if ndType (nd d x) = NodeDocument then Some True else if x \<in> set seen then Some False
        else connected_up d (x # seen) (ndParent (nd d x)))"

definition is_connected :: "dom \<Rightarrow> addr \<Rightarrow> bool option" where
  "is_connected d x = connected_up d [] (Some x)"

partial_function (option) select_up :: "dom \<Rightarrow> addr option \<Rightarrow> addr option option" where
  "select_up d p = (case p of None \<Rightarrow> Some None
     | Some x \<Rightarrow> if ndData (nd d x) = ''select'' then Some (Some x) else select_up d (ndParent (nd d x)))"

definition nearest_select :: "dom \<Rightarrow> addr \<Rightarrow> addr option option" where
  "nearest_select d x = select_up d (ndParent (nd d x))"

partial_function (option) disabled_up :: "dom \<Rightarrow> addr option \<Rightarrow> bool option" where
  "disabled_up d p = (case p of None \<Rightarrow> Some False
     | Some x \<Rightarrow> if ndData (nd d x) = ''optgroup'' \<and> has_attribute (nd d x) ''disabled'' then Some True
        else if ndData (nd d x) = ''select'' then Some False else disabled_up d (ndParent (nd d x)))"

definition option_disabled :: "dom \<Rightarrow> addr \<Rightarrow> bool option" where
  "option_disabled d x =
     (if ndData (nd d x) \<noteq> ''option'' then Some False
      else Option.bind (disabled_up d (ndParent (nd d x))) (\<lambda>b. Some (b \<or> has_attribute (nd d x) ''disabled'')))"

subsection \<open>Subtrees\<close>

text \<open>
  The order in which a recursive loop over first child and next sibling, started at \<open>c\<close>,
  visits nodes: \<open>skip\<close> is what it passes over, \<open>leaf\<close> what it visits without descending. The
  loops that use it never touch the pointers they follow.
\<close>

partial_function (option) tree_order :: "dom \<Rightarrow> addr option \<Rightarrow> (node \<Rightarrow> bool) \<Rightarrow> (node \<Rightarrow> bool) \<Rightarrow> addr list option" where
  "tree_order d c skip leaf = (case c of None \<Rightarrow> Some []
     | Some x \<Rightarrow>
         Option.bind (if skip (nd d x) then Some []
             else if leaf (nd d x) then Some [x]
             else Option.bind (tree_order d (ndFirst (nd d x)) skip leaf) (\<lambda>xs. Some (x # xs))) (\<lambda>xs.
         Option.bind (tree_order d (ndNext (nd d x)) skip leaf) (\<lambda>ys. Some (xs @ ys))))"

definition holds_text :: "node \<Rightarrow> bool" where
  "holds_text n \<longleftrightarrow> ndType n = NodeText \<or> ndType n = NodeCDATASection"

definition text_content :: "dom \<Rightarrow> addr \<Rightarrow> string option" where
  "text_content d n =
     (if holds_text (nd d n) then Some (ndContent (nd d n))
      else map_option (\<lambda>xs. concat (map (\<lambda>x. ndContent (nd d x)) (filter (\<lambda>x. holds_text (nd d x)) xs)))
             (tree_order d (ndFirst (nd d n)) (\<lambda>_. False) holds_text))"

definition select_options :: "dom \<Rightarrow> addr \<Rightarrow> addr list option" where
  "select_options d s =
     (if ndData (nd d s) \<noteq> ''select'' then Some []
      else map_option (filter (\<lambda>x. ndData (nd d x) = ''option''))
             (tree_order d (ndFirst (nd d s)) (\<lambda>n. ndData n = ''select'') (\<lambda>_. False)))"

definition select_display_size :: "node \<Rightarrow> int" where
  "select_display_size n =
     (let dflt = (if has_attribute n ''multiple'' then 4 else 1); raw = trim_space (get_attribute n ''size'')
      in if raw = [] then dflt
         else case atoi raw of None \<Rightarrow> dflt | Some v \<Rightarrow> if v < 1 then dflt else v)"

end
