(* ===== verification/Dom_Ops.thy ===== *)
theory Dom_Ops
  imports Dom_Node
begin

text \<open>
  \<open>internal/dom/node.go\<close>, the operations that change the tree: appending, inserting, replacing
  and removing nodes in the light tree and in a shadow root, with everything they set off:
  adoption into the new document, the textarea's live value, the selectedness of options.
  \<open>None\<close> is a walk that does not return. The set of selects to normalise is a Go map; \<open>pick\<close> is
  the order the runtime ranges over it.
\<close>

subsection \<open>Control values\<close>

fun crlf_to_lf :: "string \<Rightarrow> string" where
  "crlf_to_lf (c # e # s) = (if c = CHR 0x0D \<and> e = CHR 0x0A then CHR 0x0A # crlf_to_lf s else c # crlf_to_lf (e # s))"
| "crlf_to_lf s = s"

definition normalize_textarea_value :: "string \<Rightarrow> string" where
  "normalize_textarea_value s = map (\<lambda>c. if c = CHR 0x0D then CHR 0x0A else c) (crlf_to_lf s)"

definition sync_input_value :: "addr \<Rightarrow> dom \<Rightarrow> dom option" where
  "sync_input_value x d =
     (let n = nd d x in
      if ndInputDirty n then Some d
      else if ndData n = ''textarea''
      then map_option (\<lambda>s. upd_node x (\<lambda>n. n\<lparr>ndInputValue := normalize_textarea_value s, ndInputInit := True\<rparr>) d) (text_content d x)
      else if ndData n \<noteq> ''input'' then Some d
      else let typ = to_lower (get_attribute n ''type'');
               v = (if \<not> has_attribute n ''value'' \<and> (typ = ''checkbox'' \<or> typ = ''radio'') then ''on'' else get_attribute n ''value'')
           in Some (upd_node x (\<lambda>n. n\<lparr>ndInputValue := v, ndInputType := typ, ndInputMultiple := has_attribute n ''multiple'',
                  ndInputInit := True\<rparr>) d))"

definition sync_textarea :: "addr \<Rightarrow> dom \<Rightarrow> dom option" where
  "sync_textarea x d = (if ndData (nd d x) = ''textarea'' \<and> \<not> ndInputDirty (nd d x) then sync_input_value x d else Some d)"

subsection \<open>Options and selects\<close>

definition init_selectedness :: "node \<Rightarrow> node" where
  "init_selectedness n = (if ndOptInit n then n else n\<lparr>ndOptSelected := has_attribute n ''selected'', ndOptInit := True\<rparr>)"

text \<open>The first read fixes the initial state.\<close>

definition option_selected :: "addr \<Rightarrow> dom \<Rightarrow> bool \<times> dom" where
  "option_selected x d =
     (if ndData (nd d x) \<noteq> ''option'' then (False, d)
      else let d = upd_node x init_selectedness d in (ndOptSelected (nd d x), d))"

definition set_option_selectedness :: "addr \<Rightarrow> bool \<Rightarrow> dom \<Rightarrow> dom" where
  "set_option_selectedness x b d =
     (if ndData (nd d x) = ''option'' then upd_node x (\<lambda>n. n\<lparr>ndOptSelected := b, ndOptInit := True\<rparr>) d else d)"

definition clear_others :: "addr \<Rightarrow> addr \<Rightarrow> dom \<Rightarrow> dom option" where
  "clear_others owner x d =
     (if has_attribute (nd d owner) ''multiple'' then Some d
      else Option.bind (select_options d owner) (\<lambda>os.
        Some (fold (\<lambda>y d. if y \<noteq> x then set_option_selectedness y False d else d) os d)))"

definition any_selected :: "addr list \<Rightarrow> dom \<Rightarrow> bool \<times> dom" where
  "any_selected os d = fold (\<lambda>y (b, d). if b then (b, d) else option_selected y d) os (False, d)"

definition set_option_selected :: "addr \<Rightarrow> bool \<Rightarrow> bool \<Rightarrow> dom \<Rightarrow> dom option" where
  "set_option_selected x sel dirty d =
     (if ndData (nd d x) \<noteq> ''option'' then Some d
      else let d = upd_node x (\<lambda>n. (init_selectedness n)\<lparr>ndOptSelected := sel\<rparr>) d;
               d = (if dirty then upd_node x (\<lambda>n. n\<lparr>ndOptDirty := True\<rparr>) d else d)
           in if sel
              then Option.bind (nearest_select d x) (\<lambda>ow. case ow of None \<Rightarrow> Some d
                 | Some s \<Rightarrow> clear_others s x (upd_node s (\<lambda>n. n\<lparr>ndSelectNone := False\<rparr>) d))
              else if dirty
              then Option.bind (nearest_select d x) (\<lambda>ow. case ow of None \<Rightarrow> Some d
                 | Some s \<Rightarrow> Option.bind (select_options d s) (\<lambda>os.
                     let (b, d) = any_selected os d in Some (upd_node s (\<lambda>n. n\<lparr>ndSelectNone := \<not> b\<rparr>) d)))
              else Some d)"

text \<open>One pass over the options: the last selected and the first that is not disabled, -1 for none.\<close>

definition scan_option :: "nat \<times> addr \<Rightarrow> int \<times> int \<times> dom \<Rightarrow> (int \<times> int \<times> dom) option" where
  "scan_option p s =
     (case (p, s) of ((i, x), (lst, fst_on, d)) \<Rightarrow>
       Option.bind (if fst_on < 0 then map_option (\<lambda>b. if b then fst_on else int i) (option_disabled d x) else Some fst_on) (\<lambda>fst_on.
       let (b, d) = option_selected x d in Some (if b then int i else lst, fst_on, d)))"

definition normalize_select :: "addr \<Rightarrow> dom \<Rightarrow> dom option" where
  "normalize_select s d =
     (if ndData (nd d s) \<noteq> ''select'' \<or> has_attribute (nd d s) ''multiple'' then Some d
      else Option.bind (select_options d s) (\<lambda>os.
        Option.bind (fold_opt scan_option (List.enumerate 0 os) (- 1, - 1, d)) (\<lambda>(lst, fst_on, d).
          let lst = (if lst < 0 \<and> \<not> ndSelectNone (nd d s) \<and> select_display_size (nd d s) = 1 then fst_on else lst)
          in Some (fold (\<lambda>(i, x) d. set_option_selectedness x (int i = lst \<and> lst \<ge> 0) d) (List.enumerate 0 os) d))))"

record select_walk =
  wkVisited :: "addr list"
  wkSeen :: "addr list"
  wkSelected :: "addr list"
  wkDom :: dom

definition visit_changed :: "addr \<Rightarrow> select_walk \<Rightarrow> select_walk option" where
  "visit_changed x w =
     (let w = w\<lparr>wkVisited := x # wkVisited w\<rparr>;
          w = (if ndData (nd (wkDom w) x) = ''select'' then w\<lparr>wkSeen := List.insert x (wkSeen w)\<rparr> else w)
      in if ndData (nd (wkDom w) x) \<noteq> ''option'' then Some w
         else let (b, d) = option_selected x (wkDom w);
                  w = w\<lparr>wkDom := d, wkSelected := (if b then wkSelected w @ [x] else wkSelected w)\<rparr>
              in map_option (\<lambda>ow. case ow of None \<Rightarrow> w | Some s \<Rightarrow> w\<lparr>wkSeen := List.insert s (wkSeen w)\<rparr>)
                   (nearest_select d x))"

partial_function (option) changed_walk :: "bool \<Rightarrow> addr option \<Rightarrow> select_walk \<Rightarrow> select_walk option" where
  "changed_walk sibs c w = (case c of None \<Rightarrow> Some w
     | Some x \<Rightarrow>
         Option.bind (if x \<in> set (wkVisited w) then Some w
             else Option.bind (visit_changed x w) (\<lambda>w. changed_walk True (ndFirst (nd (wkDom w) x)) w)) (\<lambda>w.
         if sibs then changed_walk True (ndNext (nd (wkDom w) x)) w else Some w))"

definition insert_selected :: "addr \<Rightarrow> addr list \<times> dom \<Rightarrow> (addr list \<times> dom) option" where
  "insert_selected x sd =
     (case sd of (seen, d) \<Rightarrow> Option.bind (nearest_select d x) (\<lambda>ow. case ow of None \<Rightarrow> Some (seen, d)
        | Some s \<Rightarrow> if has_attribute (nd d s) ''multiple'' then Some (seen, d)
            else map_option (\<lambda>d. (List.insert s seen, d)) (set_option_selected x True False d)))"

definition normalize_selects :: "(addr list \<Rightarrow> addr list) \<Rightarrow> addr option \<Rightarrow> addr option \<Rightarrow> dom \<Rightarrow> dom option" where
  "normalize_selects pick changed owner d =
     (let w = \<lparr>wkVisited = [], wkSeen = (case owner of None \<Rightarrow> [] | Some s \<Rightarrow> [s]), wkSelected = [], wkDom = d\<rparr>
      in Option.bind (changed_walk False changed w) (\<lambda>w.
         Option.bind (fold_opt insert_selected (wkSelected w) (wkSeen w, wkDom w)) (\<lambda>(seen, d).
         fold_opt normalize_select (pick seen) d)))"

subsection \<open>Adoption\<close>

definition adopt_one :: "addr \<Rightarrow> nat \<Rightarrow> dom \<Rightarrow> dom" where
  "adopt_one x k d =
     (if ndDoc (nd d x) \<noteq> Some k \<or> ndID (nd d x) = 0
      then let (i, d) = alloc_id k d in upd_node x (\<lambda>n. n\<lparr>ndDoc := Some k, ndID := i\<rparr>) d
      else d)"

text \<open>The node, its children, its shadow tree, its template content under the inert document.\<close>

partial_function (option) adopt_walk :: "bool \<Rightarrow> addr option \<Rightarrow> nat \<Rightarrow> dom \<Rightarrow> dom option" where
  "adopt_walk sibs c k d = (case c of None \<Rightarrow> Some d
     | Some x \<Rightarrow>
         Option.bind (adopt_walk True (ndFirst (nd (adopt_one x k d) x)) k (adopt_one x k d)) (\<lambda>d.
         Option.bind (case ndShadow (nd d x) of None \<Rightarrow> Some d | Some sr \<Rightarrow> adopt_walk True (shFirst sr) k d) (\<lambda>d.
         Option.bind (case ndTemplate (nd d x) of None \<Rightarrow> Some d
             | Some t \<Rightarrow> adopt_walk False (Some t) (fst (template_owner_document k d)) (snd (template_owner_document k d))) (\<lambda>d.
         if sibs then adopt_walk True (ndNext (nd d x)) k d else Some d))))"

definition adopt :: "addr \<Rightarrow> nat \<Rightarrow> dom \<Rightarrow> dom option" where
  "adopt x k d = adopt_walk False (Some x) k d"

text \<open>The branch \<open>AppendChild\<close> and \<open>InsertBefore\<close> share, for a child that already hangs under \<open>n\<close>.\<close>

definition enter_document :: "addr \<Rightarrow> addr \<Rightarrow> dom \<Rightarrow> dom option" where
  "enter_document n c d =
     (case ndDoc (nd d n) of
        None \<Rightarrow> Some (upd_node c (\<lambda>r. r\<lparr>ndDoc := None\<rparr>) d)
      | Some k \<Rightarrow> if ndDoc (nd d c) \<noteq> Some k \<or> ndID (nd d c) = 0 then adopt c k d
                  else Some (upd_node c (\<lambda>r. r\<lparr>ndDoc := Some k\<rparr>) d))"

subsection \<open>Links\<close>

text \<open>Taking \<open>c\<close> out of the list of children of \<open>n\<close>, and out of its shadow root's.\<close>

definition clear_place :: "addr \<Rightarrow> dom \<Rightarrow> dom" where
  "clear_place c = upd_node c (\<lambda>r. r\<lparr>ndParent := None, ndPrev := None, ndNext := None\<rparr>)"

definition unlink_child :: "addr \<Rightarrow> addr \<Rightarrow> dom \<Rightarrow> dom" where
  "unlink_child n c d =
     (let d = (case ndPrev (nd d c) of
             Some p \<Rightarrow> upd_node p (\<lambda>r. r\<lparr>ndNext := ndNext (nd d c)\<rparr>) d
           | None \<Rightarrow> upd_node n (\<lambda>r. r\<lparr>ndFirst := ndNext (nd d c)\<rparr>) d);
          d = (case ndNext (nd d c) of
             Some s \<Rightarrow> upd_node s (\<lambda>r. r\<lparr>ndPrev := ndPrev (nd d c)\<rparr>) d
           | None \<Rightarrow> upd_node n (\<lambda>r. r\<lparr>ndLast := ndPrev (nd d c)\<rparr>) d)
      in clear_place c d)"

definition set_shadow :: "addr \<Rightarrow> (shadow \<Rightarrow> shadow) \<Rightarrow> dom \<Rightarrow> dom" where
  "set_shadow n f = upd_node n (\<lambda>r. r\<lparr>ndShadow := map_option f (ndShadow r)\<rparr>)"

definition unlink_shadow :: "addr \<Rightarrow> addr \<Rightarrow> dom \<Rightarrow> dom" where
  "unlink_shadow n c d =
     (let d = (case ndPrev (nd d c) of
             Some p \<Rightarrow> upd_node p (\<lambda>r. r\<lparr>ndNext := ndNext (nd d c)\<rparr>) d
           | None \<Rightarrow> set_shadow n (\<lambda>s. s\<lparr>shFirst := ndNext (nd d c)\<rparr>) d);
          d = (case ndNext (nd d c) of
             Some s \<Rightarrow> upd_node s (\<lambda>r. r\<lparr>ndPrev := ndPrev (nd d c)\<rparr>) d
           | None \<Rightarrow> set_shadow n (\<lambda>s. s\<lparr>shLast := ndPrev (nd d c)\<rparr>) d)
      in clear_place c d)"

definition set_parent :: "addr \<Rightarrow> addr \<Rightarrow> dom \<Rightarrow> dom" where
  "set_parent c n = upd_node c (\<lambda>r. r\<lparr>ndParent := Some n\<rparr>)"

definition link_last :: "addr \<Rightarrow> addr \<Rightarrow> dom \<Rightarrow> dom" where
  "link_last n c d =
     (case ndLast (nd d n) of
        Some l \<Rightarrow> upd_node n (\<lambda>r. r\<lparr>ndLast := Some c\<rparr>)
            (upd_node c (\<lambda>r. r\<lparr>ndPrev := Some l\<rparr>) (upd_node l (\<lambda>r. r\<lparr>ndNext := Some c\<rparr>) d))
      | None \<Rightarrow> upd_node n (\<lambda>r. r\<lparr>ndFirst := Some c, ndLast := Some c\<rparr>) d)"

definition link_last_shadow :: "addr \<Rightarrow> addr \<Rightarrow> dom \<Rightarrow> dom" where
  "link_last_shadow n c d =
     (case Option.bind (ndShadow (nd d n)) shLast of
        Some l \<Rightarrow> set_shadow n (\<lambda>s. s\<lparr>shLast := Some c\<rparr>)
            (upd_node c (\<lambda>r. r\<lparr>ndPrev := Some l\<rparr>) (upd_node l (\<lambda>r. r\<lparr>ndNext := Some c\<rparr>) d))
      | None \<Rightarrow> set_shadow n (\<lambda>s. s\<lparr>shFirst := Some c, shLast := Some c\<rparr>) d)"

definition link_before :: "addr \<Rightarrow> addr \<Rightarrow> addr \<Rightarrow> dom \<Rightarrow> dom" where
  "link_before n c r d =
     (let p = ndPrev (nd d r);
          d = upd_node c (\<lambda>n. n\<lparr>ndNext := Some r, ndPrev := p\<rparr>) d;
          d = (case p of Some p \<Rightarrow> upd_node p (\<lambda>n. n\<lparr>ndNext := Some c\<rparr>) d | None \<Rightarrow> upd_node n (\<lambda>n. n\<lparr>ndFirst := Some c\<rparr>) d)
      in upd_node r (\<lambda>n. n\<lparr>ndPrev := Some c\<rparr>) d)"

subsection \<open>Mutations\<close>

definition before_removal :: "addr \<Rightarrow> addr \<Rightarrow> dom \<Rightarrow> dom" where
  "before_removal n c d = (if ndDoc (nd d n) = None then d else d\<lparr>dmRemovals := dmRemovals d @ [(n, c)]\<rparr>)"

definition owner_of :: "addr \<Rightarrow> dom \<Rightarrow> addr option option" where
  "owner_of x d = map_option (\<lambda>ow. if ndData (nd d x) = ''select'' then Some x else ow) (nearest_select d x)"

definition remove_child :: "(addr list \<Rightarrow> addr list) \<Rightarrow> addr \<Rightarrow> addr \<Rightarrow> dom \<Rightarrow> dom option" where
  "remove_child pick n c d =
     (if ndParent (nd d c) \<noteq> Some n then Some d
      else let d = before_removal n c d
           in Option.bind (owner_of c d) (\<lambda>owner.
              Option.bind (sync_textarea n (mark_query_dirty (ndDoc (nd d n)) (unlink_child n c d))) (normalize_selects pick None owner)))"

definition shadow_remove :: "addr \<Rightarrow> addr \<Rightarrow> dom \<Rightarrow> (bool \<times> dom) option" where
  "shadow_remove n c d =
     (case ndShadow (nd d n) of
        None \<Rightarrow> Some (False, d)
      | Some sr \<Rightarrow>
          if ndParent (nd d c) \<noteq> Some n then Some (False, d)
          else Option.bind (sib_find d c (shFirst sr)) (\<lambda>found.
            if \<not> found then Some (False, d)
            else let d = before_removal n c d in Some (True, mark_query_dirty (ndDoc (nd d n)) (unlink_shadow n c d))))"

text \<open>Out of wherever \<open>c\<close> hangs: the parent's shadow root when it is there, else its children.\<close>

definition detach :: "(addr list \<Rightarrow> addr list) \<Rightarrow> addr \<Rightarrow> dom \<Rightarrow> dom option" where
  "detach pick c d =
     (case ndParent (nd d c) of
        None \<Rightarrow> Some d
      | Some p \<Rightarrow> Option.bind (shadow_remove p c d) (\<lambda>(done_it, d). if done_it then Some d else remove_child pick p c d))"

text \<open>What follows the linking in \<open>AppendChild\<close> and \<open>InsertBefore\<close>; \<open>old\<close> is the child's document before.\<close>

definition settle :: "(addr list \<Rightarrow> addr list) \<Rightarrow> addr \<Rightarrow> addr \<Rightarrow> nat option \<Rightarrow> dom \<Rightarrow> dom option" where
  "settle pick n c old d =
     (let k = ndDoc (nd d n);
          d = mark_query_dirty k d;
          d = (if old \<noteq> None \<and> old \<noteq> k then mark_query_dirty old d else d)
      in Option.bind (sync_textarea n d) (\<lambda>d.
         Option.bind (owner_of n d) (\<lambda>owner. normalize_selects pick (Some c) owner d)))"

definition append_child :: "(addr list \<Rightarrow> addr list) \<Rightarrow> addr \<Rightarrow> addr \<Rightarrow> dom \<Rightarrow> dom option" where
  "append_child pick n c d =
     Option.bind (detach pick c d) (\<lambda>d.
     Option.bind (enter_document n c (set_parent c n d)) (\<lambda>d'. settle pick n c (ndDoc (nd d c)) (link_last n c d')))"

definition insert_before :: "(addr list \<Rightarrow> addr list) \<Rightarrow> addr \<Rightarrow> addr \<Rightarrow> addr option \<Rightarrow> dom \<Rightarrow> dom option" where
  "insert_before pick n c ref d =
     (case ref of
        None \<Rightarrow> append_child pick n c d
      | Some r \<Rightarrow>
          if c = r then Some d
          else Option.bind (detach pick c d) (\<lambda>d.
               Option.bind (enter_document n c (set_parent c n d)) (\<lambda>d'. settle pick n c (ndDoc (nd d c)) (link_before n c r d'))))"

definition insert_node :: "(addr list \<Rightarrow> addr list) \<Rightarrow> addr \<Rightarrow> addr \<Rightarrow> addr option \<Rightarrow> dom \<Rightarrow> dom option" where
  "insert_node pick n c ref d =
     (if is_fragment (nd d c)
      then Option.bind (child_nodes d c) (\<lambda>kids. fold_opt (\<lambda>x. insert_before pick n x ref) kids d)
      else insert_before pick n c ref d)"

definition replace_node :: "(addr list \<Rightarrow> addr list) \<Rightarrow> addr \<Rightarrow> addr \<Rightarrow> addr \<Rightarrow> dom \<Rightarrow> dom option" where
  "replace_node pick n c old d =
     (if c = old then Some d
      else if is_fragment (nd d c)
      then Option.bind (child_nodes d c) (\<lambda>kids.
        if kids = [] then remove_child pick n old d
        else Option.bind (fold_opt (\<lambda>x. insert_before pick n x (ndNext (nd d old))) kids d) (remove_child pick n old))
      else if ndParent (nd d old) \<noteq> Some n then Some d
      else Option.bind (insert_before pick n c (ndNext (nd d old)) d) (remove_child pick n old))"

definition shadow_append :: "(addr list \<Rightarrow> addr list) \<Rightarrow> addr \<Rightarrow> addr \<Rightarrow> dom \<Rightarrow> dom option" where
  "shadow_append pick n c d =
     Option.bind (case ndParent (nd d c) of None \<Rightarrow> Some d | Some p \<Rightarrow> remove_child pick p c d) (\<lambda>d.
     Option.bind (enter_document n c (set_parent c n d)) (\<lambda>d'.
       let old = ndDoc (nd d c); d' = link_last_shadow n c d'; k = ndDoc (nd d' n); d' = mark_query_dirty k d'
       in Some (if old \<noteq> None \<and> old \<noteq> k then mark_query_dirty old d' else d')))"

text \<open>\<open>attachShadow\<close> on a node without one, and the content fragment a template makes on first use.\<close>

definition attach_shadow :: "addr \<Rightarrow> dom \<Rightarrow> dom" where
  "attach_shadow n = upd_node n (\<lambda>r. r\<lparr>ndShadow := Some \<lparr>shFirst = None, shLast = None\<rparr>\<rparr>)"

definition template_content :: "addr \<Rightarrow> dom \<Rightarrow> addr option \<times> dom" where
  "template_content n d =
     (if \<not> is_html_template (nd d n) then (None, d)
      else case ndTemplate (nd d n) of
        Some t \<Rightarrow> (Some t, d)
      | None \<Rightarrow>
          (let (t, d) = (case ndDoc (nd d n) of
                 None \<Rightarrow> (dmFresh d, upd_node (dmFresh d) (\<lambda>_. zero_node\<lparr>ndType := NodeDocumentFragment\<rparr>) (d\<lparr>dmFresh := dmFresh d + 1\<rparr>))
               | Some k \<Rightarrow> (let (o', d) = template_owner_document k d in new_fragment o' d))
           in (Some t, upd_node n (\<lambda>r. r\<lparr>ndTemplate := Some t\<rparr>) d)))"

end
