(* ===== verification/Dom_Shape.thy ===== *)
theory Dom_Shape
  imports Dom_Ops Linked_List
begin

text \<open>
  The shape of a well-formed tree: what the pointers of a store denote, and that every walk
  over them returns. A store is read as two families of lists, the children \<open>K x\<close> and the
  shadow children \<open>S x\<close> of each node, threaded through the sibling pointers, with the parent
  pointers their inverse and nothing inside itself, template contents included. The
  operations that only touch values - adoption, option state, the textarea's text - are quiet:
  they return and leave the shape alone.
\<close>

subsection \<open>Lists of siblings\<close>

definition is_list :: "dom \<Rightarrow> addr option \<Rightarrow> addr option \<Rightarrow> addr list \<Rightarrow> bool" where
  "is_list d h l xs \<longleftrightarrow> distinct xs \<and> h = hd_opt xs \<and> l = last_opt xs
     \<and> (\<forall>k\<in>set xs. ndNext (nd d k) = succ_of xs k \<and> ndPrev (nd d k) = pred_of xs k)"

definition shadow_head :: "node \<Rightarrow> addr option" where
  "shadow_head n = Option.bind (ndShadow n) shFirst"

definition shadow_tail :: "node \<Rightarrow> addr option" where
  "shadow_tail n = Option.bind (ndShadow n) shLast"

lemma is_list_next: "is_list d h l (zs @ y # ys) \<Longrightarrow> ndNext (nd d y) = hd_opt ys"
  by (auto simp: is_list_def succ_of_append succ_of_Cons)

lemma is_list_prev: "is_list d h l (zs @ y # ys) \<Longrightarrow> ndPrev (nd d y) = last_opt zs"
  by (auto simp: is_list_def pred_of_append)

lemma is_list_frame:
  "is_list d h l xs \<Longrightarrow> \<forall>k\<in>set xs. ndNext (nd d' k) = ndNext (nd d k) \<and> ndPrev (nd d' k) = ndPrev (nd d k) \<Longrightarrow> is_list d' h l xs"
  by (simp add: is_list_def)

lemma siblings_list: "is_list d h l (zs @ ys) \<Longrightarrow> siblings d (hd_opt ys) = Some ys"
proof (induction ys arbitrary: zs)
  case (Cons y ys)
  from Cons.IH[of "zs @ [y]"] is_list_next[OF Cons.prems] Cons.prems show ?case
    by (subst siblings.simps) simp
qed (simp add: siblings.simps)

lemma sib_find_list: "is_list d h l (zs @ ys) \<Longrightarrow> sib_find d x (hd_opt ys) = Some (x \<in> set ys)"
proof (induction ys arbitrary: zs)
  case (Cons y ys)
  from Cons.IH[of "zs @ [y]"] is_list_next[OF Cons.prems] Cons.prems show ?case
    by (subst sib_find.simps) auto
qed (simp add: sib_find.simps)

subsection \<open>Trees\<close>

text \<open>What lies directly inside what.\<close>

definition down :: "dom \<Rightarrow> (addr \<Rightarrow> addr list) \<Rightarrow> (addr \<Rightarrow> addr list) \<Rightarrow> (addr \<times> addr) set" where
  "down d K S = {(c, x). c \<in> set (K x) \<or> c \<in> set (S x) \<or> ndTemplate (nd d x) = Some c}"

definition lists_ok :: "dom \<Rightarrow> (addr \<Rightarrow> addr list) \<Rightarrow> (addr \<Rightarrow> addr list) \<Rightarrow> bool" where
  "lists_ok d K S \<longleftrightarrow> (\<forall>x. is_list d (ndFirst (nd d x)) (ndLast (nd d x)) (K x)
     \<and> is_list d (shadow_head (nd d x)) (shadow_tail (nd d x)) (S x))
     \<and> finite (down d K S) \<and> acyclic (down d K S)"

definition blank_links :: "node \<Rightarrow> bool" where
  "blank_links n \<longleftrightarrow> ndParent n = None \<and> ndFirst n = None \<and> ndLast n = None \<and> ndNext n = None \<and> ndPrev n = None
     \<and> ndShadow n = None \<and> ndTemplate n = None"

definition fresh_ok :: "dom \<Rightarrow> bool" where
  "fresh_ok d \<longleftrightarrow> (\<forall>x\<ge>dmFresh d. blank_links (nd d x))"

definition parents_ok :: "dom \<Rightarrow> (addr \<Rightarrow> addr list) \<Rightarrow> (addr \<Rightarrow> addr list) \<Rightarrow> bool" where
  "parents_ok d K S \<longleftrightarrow> (\<forall>x c. ndParent (nd d c) = Some x \<longleftrightarrow> c \<in> set (K x) \<or> c \<in> set (S x))
     \<and> (\<forall>x. set (K x) \<inter> set (S x) = {})
     \<and> (\<forall>c. ndParent (nd d c) = None \<longrightarrow> ndNext (nd d c) = None \<and> ndPrev (nd d c) = None)"

definition tree_ok :: "dom \<Rightarrow> (addr \<Rightarrow> addr list) \<Rightarrow> (addr \<Rightarrow> addr list) \<Rightarrow> bool" where
  "tree_ok d K S \<longleftrightarrow> lists_ok d K S \<and> parents_ok d K S \<and> fresh_ok d"

lemma tree_okD: "tree_ok d K S \<Longrightarrow> lists_ok d K S" "tree_ok d K S \<Longrightarrow> parents_ok d K S" "tree_ok d K S \<Longrightarrow> fresh_ok d"
  by (simp_all add: tree_ok_def)

lemma lists_kids: "lists_ok d K S \<Longrightarrow> is_list d (ndFirst (nd d x)) (ndLast (nd d x)) (K x)"
  by (simp add: lists_ok_def)

lemma lists_shadow: "lists_ok d K S \<Longrightarrow> is_list d (shadow_head (nd d x)) (shadow_tail (nd d x)) (S x)"
  by (simp add: lists_ok_def)

lemma first_kid: "lists_ok d K S \<Longrightarrow> ndFirst (nd d x) = hd_opt (K x)"
  by (simp add: lists_ok_def is_list_def)

lemma first_shadow: "lists_ok d K S \<Longrightarrow> shadow_head (nd d x) = hd_opt (S x)"
  by (simp add: lists_ok_def is_list_def)

lemma wf_down: "lists_ok d K S \<Longrightarrow> wf (down d K S)"
  by (simp add: lists_ok_def finite_acyclic_wf)

lemma wf_up: "lists_ok d K S \<Longrightarrow> wf ((down d K S)\<inverse>)"
  by (simp add: lists_ok_def finite_acyclic_wf_converse)

lemma child_nodes_kids: "lists_ok d K S \<Longrightarrow> child_nodes d x = Some (K x)"
  using siblings_list[of d _ _ "[]" "K x"] lists_kids[of d K S x] by (simp add: child_nodes_def first_kid)

subsection \<open>Quiet changes\<close>

definition links_of_node :: "node \<Rightarrow> addr option list \<times> shadow option" where
  "links_of_node n = ([ndParent n, ndFirst n, ndLast n, ndNext n, ndPrev n, ndTemplate n], ndShadow n)"

definition same_links :: "dom \<Rightarrow> dom \<Rightarrow> bool" where
  "same_links d d' \<longleftrightarrow> (\<forall>x. links_of_node (nd d' x) = links_of_node (nd d x)) \<and> dmFresh d \<le> dmFresh d'"

lemma same_linksD:
  assumes "same_links d d'"
  shows "ndParent (nd d' x) = ndParent (nd d x)" "ndFirst (nd d' x) = ndFirst (nd d x)" "ndLast (nd d' x) = ndLast (nd d x)"
    "ndNext (nd d' x) = ndNext (nd d x)" "ndPrev (nd d' x) = ndPrev (nd d x)" "ndTemplate (nd d' x) = ndTemplate (nd d x)"
    "ndShadow (nd d' x) = ndShadow (nd d x)" "dmFresh d \<le> dmFresh d'"
  using assms by (auto simp: same_links_def links_of_node_def)

lemma same_links_refl [simp]: "same_links d d"
  by (simp add: same_links_def)

lemma same_links_trans [trans]: "same_links d e \<Longrightarrow> same_links e f \<Longrightarrow> same_links d f"
  by (auto simp: same_links_def)

lemma same_links_down: "same_links d d' \<Longrightarrow> down d' K S = down d K S"
  by (simp add: down_def same_linksD)

lemma same_links_lists: "same_links d d' \<Longrightarrow> lists_ok d K S \<Longrightarrow> lists_ok d' K S"
  unfolding lists_ok_def shadow_head_def shadow_tail_def
  by (auto simp: same_linksD same_links_down intro: is_list_frame)

lemma same_links_fresh: "same_links d d' \<Longrightarrow> fresh_ok d \<Longrightarrow> fresh_ok d'"
proof -
  assume s: "same_links d d'" and f: "fresh_ok d"
  have "blank_links (nd d' x) = blank_links (nd d x)" for x by (simp add: blank_links_def same_linksD[OF s])
  then show ?thesis using f same_linksD(8)[OF s] by (auto simp: fresh_ok_def intro: order_trans)
qed

lemma same_links_tree: "same_links d d' \<Longrightarrow> tree_ok d K S \<Longrightarrow> tree_ok d' K S"
  using same_links_lists same_links_fresh by (auto simp: tree_ok_def parents_ok_def same_linksD)

text \<open>Values of a node other than its links.\<close>

lemma upd_node_same: "\<forall>n. links_of_node (f n) = links_of_node n \<Longrightarrow> same_links d (upd_node x f d)"
  by (simp add: same_links_def upd_node_def)

lemma upd_doc_same [simp]: "same_links d (upd_doc k f d)"
  by (simp add: same_links_def upd_doc_def)

lemma upd_doc_node [simp]: "dmNode (upd_doc k f d) = dmNode d" "dmFresh (upd_doc k f d) = dmFresh d"
  by (simp_all add: upd_doc_def)

lemma mark_dirty_same [simp]: "same_links d (mark_query_dirty k d)"
  by (simp add: mark_query_dirty_def split: option.splits)

lemma mark_dirty_node [simp]: "dmNode (mark_query_dirty k d) = dmNode d" "dmFresh (mark_query_dirty k d) = dmFresh d"
  by (simp_all add: mark_query_dirty_def split: option.splits)

lemma before_removal_same [simp]: "same_links d (before_removal n c d)"
  by (simp add: before_removal_def same_links_def)

lemma set_selectedness_same [simp]: "same_links d (set_option_selectedness x b d)"
  by (simp add: set_option_selectedness_def upd_node_same links_of_node_def)

lemma option_selected_same [simp]: "same_links d (snd (option_selected x d))"
  by (simp add: option_selected_def Let_def upd_node_same links_of_node_def init_selectedness_def)

lemma fold_same: "(\<And>x d. same_links d (f x d)) \<Longrightarrow> same_links d (fold f xs d)"
  by (induction xs arbitrary: d) (auto intro: same_links_trans)

lemma alloc_id_same: "alloc_id k d = (i, d') \<Longrightarrow> same_links d d' \<and> dmNode d' = dmNode d \<and> dmFresh d' = dmFresh d"
  by (auto simp: alloc_id_def)

lemma new_document_same: "fresh_ok d \<Longrightarrow> same_links d (snd (new_document d))"
  by (auto simp: new_document_def Let_def alloc_id_def upd_node_def upd_doc_def same_links_def links_of_node_def zero_node_def
      fresh_ok_def blank_links_def)

lemma template_owner_same: "fresh_ok d \<Longrightarrow> same_links d (snd (template_owner_document k d))"
  using new_document_same[of d] upd_doc_same same_links_trans
  by (simp add: template_owner_document_def case_prod_beta Let_def split: option.splits) (meson same_links_trans upd_doc_same)

lemma adopt_one_same: "same_links d (adopt_one x k d)"
proof -
  obtain i d' where a: "alloc_id k d = (i, d')" by fastforce
  have "same_links d' (upd_node x (\<lambda>n. n\<lparr>ndDoc := Some k, ndID := i\<rparr>) d')"
    by (rule upd_node_same) (simp add: links_of_node_def)
  then show ?thesis using alloc_id_same[OF a] by (auto simp: adopt_one_def a intro: same_links_trans)
qed

subsection \<open>Walks return\<close>

lemma tree_order_returns:
  assumes "lists_ok d K S"
  shows "\<exists>xs. tree_order d (ndFirst (nd d x)) skip leaf = Some xs"
proof (induction x rule: wf_induct[OF wf_down[OF assms]])
  case (1 x)
  have "\<exists>xs. tree_order d (hd_opt ys) skip leaf = Some xs" if "K x = zs @ ys" for zs ys
    using that
  proof (induction ys arbitrary: zs)
    case Nil
    then show ?case by (simp add: tree_order.simps)
  next
    case (Cons y ys)
    have "(y, x) \<in> down d K S" using Cons.prems by (simp add: down_def)
    then obtain us where "tree_order d (ndFirst (nd d y)) skip leaf = Some us" using 1 by blast
    moreover obtain vs where "tree_order d (hd_opt ys) skip leaf = Some vs" using Cons.IH[of "zs @ [y]"] Cons.prems by auto
    moreover have "ndNext (nd d y) = hd_opt ys"
      using is_list_next lists_kids[OF assms, of x] unfolding Cons.prems by blast
    ultimately show ?case by (subst tree_order.simps) simp
  qed
  from this[of "[]" "K x"] show ?case by (simp add: first_kid[OF assms])
qed

lemma parent_down: "parents_ok d K S \<Longrightarrow> ndParent (nd d x) = Some p \<Longrightarrow> (p, x) \<in> (down d K S)\<inverse>"
  by (auto simp: parents_ok_def down_def)

lemma select_up_returns:
  assumes "tree_ok d K S"
  shows "\<exists>r. select_up d (Some x) = Some r"
proof (induction x rule: wf_induct[OF wf_up[OF tree_okD(1)[OF assms]]])
  case (1 x)
  have "\<exists>r. select_up d (ndParent (nd d x)) = Some r"
    using 1 parent_down[OF tree_okD(2)[OF assms]] by (cases "ndParent (nd d x)") (auto simp: select_up.simps[of d None])
  then show ?case by (subst select_up.simps) simp
qed

lemma nearest_select_returns:
  assumes "tree_ok d K S"
  obtains r where "nearest_select d x = Some r"
  using select_up_returns[OF assms] by (cases "ndParent (nd d x)") (auto simp: nearest_select_def select_up.simps[of d None])

lemma disabled_up_returns:
  assumes "tree_ok d K S"
  shows "\<exists>r. disabled_up d (Some x) = Some r"
proof (induction x rule: wf_induct[OF wf_up[OF tree_okD(1)[OF assms]]])
  case (1 x)
  have "\<exists>r. disabled_up d (ndParent (nd d x)) = Some r"
    using 1 parent_down[OF tree_okD(2)[OF assms]] by (cases "ndParent (nd d x)") (auto simp: disabled_up.simps[of d None])
  then show ?case by (subst disabled_up.simps) auto
qed

lemma option_disabled_returns:
  assumes "tree_ok d K S"
  shows "\<exists>r. option_disabled d x = Some r"
proof -
  have "\<exists>r. disabled_up d (ndParent (nd d x)) = Some r"
    using disabled_up_returns[OF assms] by (cases "ndParent (nd d x)") (auto simp: disabled_up.simps[of d None])
  then show ?thesis by (auto simp: option_disabled_def)
qed

lemma text_content_returns: "lists_ok d K S \<Longrightarrow> \<exists>s. text_content d x = Some s"
  using tree_order_returns[of d K S x "\<lambda>_. False" holds_text] by (auto simp: text_content_def)

lemma select_options_returns: "lists_ok d K S \<Longrightarrow> \<exists>os. select_options d x = Some os"
  using tree_order_returns[of d K S x "\<lambda>n. ndData n = ''select''" "\<lambda>_. False"] by (auto simp: select_options_def)

lemma sync_textarea_returns:
  assumes "lists_ok d K S"
  shows "\<exists>d'. sync_textarea x d = Some d' \<and> same_links d d'"
proof -
  obtain s where "text_content d x = Some s" using text_content_returns[OF assms] by blast
  then show ?thesis
    by (auto simp: sync_textarea_def sync_input_value_def Let_def intro!: upd_node_same simp: links_of_node_def)
qed

subsection \<open>Option state\<close>

text \<open>\<open>Some\<close> quiet result.\<close>

definition quiet :: "dom \<Rightarrow> dom option \<Rightarrow> bool" where
  "quiet d r \<longleftrightarrow> (\<exists>d'. r = Some d' \<and> same_links d d')"

lemma quietI [intro]: "r = Some d' \<Longrightarrow> same_links d d' \<Longrightarrow> quiet d r"
  by (auto simp: quiet_def)

lemma quietE [elim]: "quiet d r \<Longrightarrow> (\<And>d'. r = Some d' \<Longrightarrow> same_links d d' \<Longrightarrow> P) \<Longrightarrow> P"
  by (auto simp: quiet_def)

lemma quiet_Some [simp]: "quiet d (Some d') = same_links d d'"
  by (simp add: quiet_def)

lemma quiet_after: "same_links d d' \<Longrightarrow> quiet d' r \<Longrightarrow> quiet d r"
  by (auto simp: quiet_def intro: same_links_trans)

lemma fold_opt_quiet:
  assumes "tree_ok d K S" "\<And>x d. tree_ok d K S \<Longrightarrow> quiet d (f x d)"
  shows "quiet d (fold_opt f xs d)"
  using assms(1)
proof (induction xs arbitrary: d)
  case (Cons x xs)
  from assms(2)[OF Cons.prems, of x] obtain d' where "f x d = Some d'" "same_links d d'" by blast
  with Cons.IH[OF same_links_tree[OF _ Cons.prems]] show ?case by (auto intro: quiet_after)
qed simp

lemma clear_others_quiet: "tree_ok d K S \<Longrightarrow> quiet d (clear_others s x d)"
proof -
  assume ok: "tree_ok d K S"
  obtain os where os: "select_options d s = Some os" using select_options_returns[OF tree_okD(1)[OF ok]] by blast
  show ?thesis by (auto simp: clear_others_def os intro!: fold_same)
qed

lemma any_selected_same: "same_links d (snd (any_selected os d))"
proof -
  have "same_links d (snd (fold (\<lambda>y (b, d). if b then (b, d) else option_selected y d) os (b, d)))" for b
  proof (induction os arbitrary: b d)
    case (Cons y os)
    show ?case using Cons.IH[of "snd (option_selected y d)" "fst (option_selected y d)"] Cons.IH[of d True]
      by (auto intro: same_links_trans[OF option_selected_same])
  qed simp
  then show ?thesis by (simp add: any_selected_def)
qed

lemma set_selected_node_same: "same_links d (upd_node x (\<lambda>n. (init_selectedness n)\<lparr>ndOptSelected := b\<rparr>) d)"
  by (rule upd_node_same) (simp add: links_of_node_def init_selectedness_def)

lemma set_option_selected_quiet:
  assumes "tree_ok d K S"
  shows "quiet d (set_option_selected x sel dirty d)"
proof (cases "ndData (nd d x) = ''option''")
  case True
  define d1 where "d1 = upd_node x (\<lambda>n. (init_selectedness n)\<lparr>ndOptSelected := sel\<rparr>) d"
  define d2 where "d2 = (if dirty then upd_node x (\<lambda>n. n\<lparr>ndOptDirty := True\<rparr>) d1 else d1)"
  have "same_links d1 (upd_node x (\<lambda>n. n\<lparr>ndOptDirty := True\<rparr>) d1)" by (rule upd_node_same) (simp add: links_of_node_def)
  then have s: "same_links d d2" using set_selected_node_same[of d x sel]
    by (auto simp: d2_def d1_def intro: same_links_trans)
  have ok: "tree_ok d2 K S" by (rule same_links_tree[OF s assms])
  obtain ow where ow: "nearest_select d2 x = Some ow" by (rule nearest_select_returns[OF ok])
  have none: "same_links d2 (upd_node y (\<lambda>n. n\<lparr>ndSelectNone := b\<rparr>) d2)" for y b
    by (rule upd_node_same) (simp add: links_of_node_def)
  obtain os where os: "\<And>y. select_options d2 y = Some (os y)" using select_options_returns[OF tree_okD(1)[OF ok]] by metis
  have after: "same_links d2 (upd_node y (\<lambda>n. n\<lparr>ndSelectNone := b\<rparr>) (snd (any_selected us d2)))" for y b us
    by (rule same_links_trans[OF any_selected_same]) (rule upd_node_same, simp add: links_of_node_def)
  have "set_option_selected x sel dirty d = (if sel then (case ow of None \<Rightarrow> Some d2
        | Some s \<Rightarrow> clear_others s x (upd_node s (\<lambda>n. n\<lparr>ndSelectNone := False\<rparr>) d2))
      else if dirty then (case ow of None \<Rightarrow> Some d2
        | Some s \<Rightarrow> Some (upd_node s (\<lambda>n. n\<lparr>ndSelectNone := \<not> fst (any_selected (os s) d2)\<rparr>) (snd (any_selected (os s) d2))))
      else Some d2)"
    unfolding set_option_selected_def Let_def d1_def[symmetric] d2_def[symmetric]
    using True ow os by (simp add: case_prod_beta split: option.split)
  then have "quiet d2 (set_option_selected x sel dirty d)"
    by (auto simp: after split: option.split intro: quiet_after[OF none clear_others_quiet[OF same_links_tree[OF none ok]]])
  then show ?thesis by (rule quiet_after[OF s])
qed (simp add: set_option_selected_def)

lemma scan_option_same:
  assumes "tree_ok d K S"
  shows "\<exists>l f d'. scan_option (i, x) (lst, fst_on, d) = Some (l, f, d') \<and> same_links d d'"
proof -
  obtain b where "option_disabled d x = Some b" using option_disabled_returns[OF assms] by blast
  then show ?thesis by (auto simp: scan_option_def case_prod_beta Let_def)
qed

lemma scan_options_same:
  "tree_ok d K S \<Longrightarrow> \<exists>l f d'. fold_opt scan_option ps (lst, fst_on, d) = Some (l, f, d') \<and> same_links d d'"
proof (induction ps arbitrary: lst fst_on d)
  case (Cons p ps)
  obtain i x where p: "p = (i, x)" by (cases p)
  obtain l f d1 where 1: "scan_option (i, x) (lst, fst_on, d) = Some (l, f, d1)" "same_links d d1"
    using scan_option_same[OF Cons.prems] by blast
  obtain l' f' d2 where "fold_opt scan_option ps (l, f, d1) = Some (l', f', d2)" "same_links d1 d2"
    using Cons.IH[OF same_links_tree[OF 1(2) Cons.prems]] by blast
  then show ?case using 1 by (auto simp: p intro: same_links_trans)
qed auto

lemma normalize_select_quiet:
  assumes "tree_ok d K S"
  shows "quiet d (normalize_select s d)"
proof -
  obtain os where os: "select_options d s = Some os" using select_options_returns[OF tree_okD(1)[OF assms]] by blast
  obtain l f d1 where 1: "fold_opt scan_option (List.enumerate 0 os) (- 1, - 1, d) = Some (l, f, d1)" "same_links d d1"
    using scan_options_same[OF assms] by blast
  have "same_links d1 (fold (\<lambda>(i, x) d. set_option_selectedness x (int i = lst \<and> lst \<ge> 0) d) ps d1)" for lst ps
    by (rule fold_same) (simp add: case_prod_beta)
  then show ?thesis using 1(2) by (auto simp: normalize_select_def os 1(1) Let_def intro: same_links_trans)
qed

lemma visit_changed_same:
  assumes "tree_ok (wkDom w) K S"
  shows "\<exists>w'. visit_changed x w = Some w' \<and> same_links (wkDom w) (wkDom w')"
proof -
  have "tree_ok (snd (option_selected x (wkDom w))) K S" by (rule same_links_tree[OF option_selected_same assms])
  then obtain ow where "nearest_select (snd (option_selected x (wkDom w))) x = Some ow" by (rule nearest_select_returns)
  then show ?thesis by (auto simp: visit_changed_def Let_def case_prod_beta split: option.splits)
qed

lemma walk_step: "changed_walk True (Some x) w = Option.bind (changed_walk False (Some x) w) (\<lambda>w. changed_walk True (ndNext (nd (wkDom w) x)) w)"
  by (subst (1 2) changed_walk.simps) (simp split: option.splits bind_splits)

lemma changed_walk_same:
  assumes "tree_ok d K S" "same_links d (wkDom w)"
  shows "\<exists>w'. changed_walk False (Some x) w = Some w' \<and> same_links (wkDom w) (wkDom w')"
  using assms(2)
proof (induction x arbitrary: w rule: wf_induct_rule[OF wf_down[OF tree_okD(1)[OF assms(1)]]])
  case (1 x)
  have list: "\<exists>w'. changed_walk True (hd_opt ys) w = Some w' \<and> same_links (wkDom w) (wkDom w')"
    if "K x = zs @ ys" "same_links d (wkDom w)" for zs ys w
    using that
  proof (induction ys arbitrary: zs w)
    case Nil
    then show ?case by (simp add: changed_walk.simps)
  next
    case (Cons y ys)
    have "(y, x) \<in> down d K S" using Cons.prems by (simp add: down_def)
    from 1(1)[OF this Cons.prems(2)] obtain w1 where w1: "changed_walk False (Some y) w = Some w1" "same_links (wkDom w) (wkDom w1)"
      by blast
    have n: "ndNext (nd d y) = hd_opt ys"
      using is_list_next lists_kids[OF tree_okD(1)[OF assms(1)], of x] unfolding Cons.prems(1) by blast
    have s: "same_links d (wkDom w1)" by (rule same_links_trans[OF Cons.prems(2) w1(2)])
    from Cons.IH[of "zs @ [y]" w1] Cons.prems(1) s
    obtain w2 where "changed_walk True (hd_opt ys) w1 = Some w2" "same_links (wkDom w1) (wkDom w2)" by auto
    then show ?case using w1 by (auto simp: walk_step same_linksD[OF s] n intro: same_links_trans)
  qed
  show ?case
  proof (cases "x \<in> set (wkVisited w)")
    case True
    then show ?thesis by (subst changed_walk.simps) simp
  next
    case False
    obtain w1 where w1: "visit_changed x w = Some w1" "same_links (wkDom w) (wkDom w1)"
      using visit_changed_same[OF same_links_tree[OF 1(2) assms(1)]] by blast
    have s: "same_links d (wkDom w1)" by (rule same_links_trans[OF 1(2) w1(2)])
    from list[of "[]" "K x" w1] s obtain w2 where "changed_walk True (hd_opt (K x)) w1 = Some w2" "same_links (wkDom w1) (wkDom w2)"
      by auto
    then show ?thesis using w1 False
      by (subst changed_walk.simps) (auto simp: same_linksD[OF s] first_kid[OF tree_okD(1)[OF assms(1)]] intro: same_links_trans)
  qed
qed

lemma insert_selected_same:
  assumes "tree_ok d K S"
  shows "\<exists>seen' d'. insert_selected x (seen, d) = Some (seen', d') \<and> same_links d d'"
proof -
  obtain ow where "nearest_select d x = Some ow" by (rule nearest_select_returns[OF assms])
  moreover obtain d' where "set_option_selected x True False d = Some d'" "same_links d d'"
    using set_option_selected_quiet[OF assms] by blast
  ultimately show ?thesis by (auto simp: insert_selected_def split: option.splits)
qed

lemma insert_selecteds_same:
  "tree_ok d K S \<Longrightarrow> \<exists>seen' d'. fold_opt insert_selected xs (seen, d) = Some (seen', d') \<and> same_links d d'"
proof (induction xs arbitrary: seen d)
  case (Cons x xs)
  obtain s1 d1 where 1: "insert_selected x (seen, d) = Some (s1, d1)" "same_links d d1" using insert_selected_same[OF Cons.prems] by blast
  obtain s2 d2 where "fold_opt insert_selected xs (s1, d1) = Some (s2, d2)" "same_links d1 d2"
    using Cons.IH[OF same_links_tree[OF 1(2) Cons.prems]] by blast
  then show ?case using 1 by (auto intro: same_links_trans)
qed auto

lemma normalize_selects_quiet:
  assumes "tree_ok d K S"
  shows "quiet d (normalize_selects pick changed owner d)"
proof -
  define w where "w = \<lparr>wkVisited = [], wkSeen = (case owner of None \<Rightarrow> [] | Some s \<Rightarrow> [s]), wkSelected = [], wkDom = d\<rparr>"
  obtain w1 where 1: "changed_walk False changed w = Some w1" "same_links d (wkDom w1)"
  proof (cases changed)
    case None
    then show ?thesis using that by (simp add: changed_walk.simps w_def)
  next
    case (Some x)
    then show ?thesis using that changed_walk_same[OF assms, of w x] by (auto simp: w_def)
  qed
  have ok1: "tree_ok (wkDom w1) K S" by (rule same_links_tree[OF 1(2) assms])
  obtain seen d2 where 2: "fold_opt insert_selected (wkSelected w1) (wkSeen w1, wkDom w1) = Some (seen, d2)" "same_links (wkDom w1) d2"
    using insert_selecteds_same[OF ok1] by blast
  have ok2: "tree_ok d2 K S" by (rule same_links_tree[OF 2(2) ok1])
  obtain d3 where 3: "fold_opt normalize_select (pick seen) d2 = Some d3" "same_links d2 d3"
    using fold_opt_quiet[where f = normalize_select, OF ok2] normalize_select_quiet by blast
  show ?thesis using 1 2 3 by (auto simp: normalize_selects_def w_def[symmetric] Let_def intro: same_links_trans)
qed

subsection \<open>Adoption\<close>

lemma adopt_step: "adopt_walk True (Some x) k d = Option.bind (adopt_walk False (Some x) k d) (\<lambda>d. adopt_walk True (ndNext (nd d x)) k d)"
  by (subst (1 2) adopt_walk.simps) (simp split: option.splits bind_splits)

lemma adopt_returns:
  assumes "lists_ok d K S" "fresh_ok d" "same_links d e"
  shows "quiet e (adopt_walk False (Some x) k e)"
  using assms(3)
proof (induction x arbitrary: k e rule: wf_induct_rule[OF wf_down[OF assms(1)]])
  case (1 x)
  have list: "quiet e (adopt_walk True (hd_opt ys) k e)"
    if "us = K x \<or> us = S x" "us = zs @ ys" "same_links d e" for zs ys us e
    using that
  proof (induction ys arbitrary: zs e)
    case Nil
    then show ?case by (simp add: adopt_walk.simps)
  next
    case (Cons y ys)
    have "y \<in> set us" using Cons.prems(2) by simp
    then have "(y, x) \<in> down d K S" using Cons.prems(1) by (auto simp: down_def)
    from 1(1)[OF this Cons.prems(3)] obtain e1 where e1: "adopt_walk False (Some y) k e = Some e1" "same_links e e1" by blast
    have n: "ndNext (nd d y) = hd_opt ys"
      using is_list_next lists_kids[OF assms(1), of x] lists_shadow[OF assms(1), of x] Cons.prems(1,2) by metis
    have s: "same_links d e1" by (rule same_links_trans[OF Cons.prems(3) e1(2)])
    from Cons.IH[of "zs @ [y]" e1] Cons.prems(1,2) s have "quiet e1 (adopt_walk True (hd_opt ys) k e1)" by auto
    then show ?case using e1 by (auto simp: adopt_step same_linksD[OF s] n intro: quiet_after)
  qed
  let ?e = "adopt_one x k e"
  have s0: "same_links d ?e" by (rule same_links_trans[OF 1(2) adopt_one_same])
  from list[of "K x" "[]" "K x" ?e] s0 first_kid[OF assms(1), of x]
  obtain e1 where e1: "adopt_walk True (ndFirst (nd ?e x)) k ?e = Some e1" "same_links ?e e1" by (auto simp: same_linksD[OF s0])
  have s1: "same_links d e1" by (rule same_links_trans[OF s0 e1(2)])
  have "quiet e1 (case ndShadow (nd e1 x) of None \<Rightarrow> Some e1 | Some sr \<Rightarrow> adopt_walk True (shFirst sr) k e1)"
  proof (cases "ndShadow (nd d x)")
    case (Some sr)
    have "shFirst sr = hd_opt (S x)" using first_shadow[OF assms(1), of x] by (simp add: shadow_head_def Some)
    then show ?thesis using list[of "S x" "[]" "S x" e1] s1 by (simp add: same_linksD[OF s1] Some)
  qed (simp add: same_linksD[OF s1])
  then obtain e2 where e2: "(case ndShadow (nd e1 x) of None \<Rightarrow> Some e1 | Some sr \<Rightarrow> adopt_walk True (shFirst sr) k e1) = Some e2"
    "same_links e1 e2" by blast
  have s2: "same_links d e2" by (rule same_links_trans[OF s1 e2(2)])
  have "quiet e2 (case ndTemplate (nd e2 x) of None \<Rightarrow> Some e2
      | Some t \<Rightarrow> adopt_walk False (Some t) (fst (template_owner_document k e2)) (snd (template_owner_document k e2)))"
  proof (cases "ndTemplate (nd d x)")
    case (Some t)
    have "(t, x) \<in> down d K S" by (simp add: down_def Some)
    note IH = 1(1)[OF this]
    have t: "same_links e2 (snd (template_owner_document k e2))" by (rule template_owner_same[OF same_links_fresh[OF s2 assms(2)]])
    from IH[OF same_links_trans[OF s2 t]] show ?thesis using t by (simp add: same_linksD[OF s2] Some quiet_after)
  qed (simp add: same_linksD[OF s2])
  then obtain e3 where e3: "(case ndTemplate (nd e2 x) of None \<Rightarrow> Some e2
      | Some t \<Rightarrow> adopt_walk False (Some t) (fst (template_owner_document k e2)) (snd (template_owner_document k e2))) = Some e3"
    "same_links e2 e3" by blast
  have "adopt_walk False (Some x) k e = Some e3" by (subst adopt_walk.simps) (simp add: e1 e2 e3)
  moreover have "same_links e e3"
    by (rule same_links_trans[OF adopt_one_same same_links_trans[OF e1(2) same_links_trans[OF e2(2) e3(2)]]])
  ultimately show ?case by (rule quietI)
qed

lemma enter_document_quiet:
  assumes "lists_ok d K S" "fresh_ok d"
  shows "quiet d (enter_document n c d)"
proof -
  have "same_links d (upd_node c (\<lambda>r. r\<lparr>ndDoc := k\<rparr>) d)" for k by (rule upd_node_same) (simp add: links_of_node_def)
  then show ?thesis using adopt_returns[OF assms same_links_refl]
    by (auto simp: enter_document_def adopt_def split: option.split)
qed

lemma settle_quiet:
  assumes "tree_ok d K S"
  shows "quiet d (settle pick n c old d)"
proof -
  define d1 where "d1 = (let k = ndDoc (nd d n); d = mark_query_dirty k d in if old \<noteq> None \<and> old \<noteq> k then mark_query_dirty old d else d)"
  have s1: "same_links d d1" by (auto simp: d1_def Let_def intro: same_links_trans[OF mark_dirty_same mark_dirty_same])
  obtain d2 where 2: "sync_textarea n d1 = Some d2" "same_links d1 d2"
    using sync_textarea_returns[OF same_links_lists[OF s1 tree_okD(1)[OF assms]]] by blast
  have ok: "tree_ok d2 K S" by (rule same_links_tree[OF same_links_trans[OF s1 2(2)] assms])
  obtain ow where "nearest_select d2 n = Some ow" by (rule nearest_select_returns[OF ok])
  then have "\<exists>ow. owner_of n d2 = Some ow" by (simp add: owner_of_def)
  then obtain ow where ow: "owner_of n d2 = Some ow" by blast
  obtain d3 where 3: "normalize_selects pick (Some c) ow d2 = Some d3" "same_links d2 d3"
    using normalize_selects_quiet[OF ok] by blast
  have "settle pick n c old d = Some d3"
    using 2(1) 3(1) ow by (simp add: settle_def Let_def d1_def)
  then show ?thesis using s1 2(2) 3(2) by (auto intro: same_links_trans)
qed

end
