(* ===== verification/Dom_Tree.thy ===== *)
theory Dom_Tree
  imports Dom_Shape
begin

text \<open>
  What the tree operations do to the shape: removing takes the node out of the one list it is
  in, appending and inserting put it where they say, everything else of the tree stays, and
  every call returns.
\<close>

subsection \<open>One list\<close>

lemma is_list_unlink:
  assumes "is_list d h l (ys @ c # zs)"
    and "\<forall>k\<in>set (ys @ zs). ndNext (nd d' k) = (if last_opt ys = Some k then hd_opt zs else ndNext (nd d k))
      \<and> ndPrev (nd d' k) = (if hd_opt zs = Some k then last_opt ys else ndPrev (nd d k))"
    and "h' = (if ys = [] then hd_opt zs else h)" "l' = (if zs = [] then last_opt ys else l)"
  shows "is_list d' h' l' (ys @ zs)"
proof -
  have l: "distinct (ys @ c # zs)" "h = hd_opt (ys @ c # zs)" "l = last_opt (ys @ c # zs)"
    "\<And>k. k \<in> set (ys @ c # zs) \<Longrightarrow> ndNext (nd d k) = succ_of (ys @ c # zs) k \<and> ndPrev (nd d k) = pred_of (ys @ c # zs) k"
    using assms(1) by (auto simp: is_list_def)
  have d: "distinct (ys @ zs)" using l(1) by simp
  have "ndNext (nd d' k) = succ_of (ys @ zs) k \<and> ndPrev (nd d' k) = pred_of (ys @ zs) k" if k: "k \<in> set (ys @ zs)" for k
  proof -
    have "k \<noteq> c" using k l(1) by auto
    have n: "succ_of (ys @ c # zs) k = (if k \<in> set ys then if last_opt ys = Some k then Some c else succ_of ys k else succ_of zs k)"
      using l(1) \<open>k \<noteq> c\<close> by (simp add: succ_of_append succ_of_Cons)
    have p: "pred_of (ys @ c # zs) k = (if k \<in> set zs then if hd_opt zs = Some k then Some c else pred_of zs k else pred_of ys k)"
      using l(1) \<open>k \<noteq> c\<close> by (simp add: pred_of_append pred_of_Cons)
    have "k \<in> set ys \<longleftrightarrow> k \<notin> set zs" using k l(1) by auto
    then show ?thesis using k l(4)[of k] assms(2) d n p by (auto simp: succ_of_append pred_of_append)
  qed
  then show ?thesis using d l(2,3) assms(3,4) by (auto simp: is_list_def)
qed

lemma is_list_append:
  assumes "is_list d h l xs" "c \<notin> set xs"
    and "\<forall>k\<in>set xs. ndNext (nd d' k) = (if last_opt xs = Some k then Some c else ndNext (nd d k)) \<and> ndPrev (nd d' k) = ndPrev (nd d k)"
    and "ndNext (nd d' c) = None" "ndPrev (nd d' c) = last_opt xs" "h' = (if xs = [] then Some c else h)" "l' = Some c"
  shows "is_list d' h' l' (xs @ [c])"
proof -
  have l: "distinct xs" "h = hd_opt xs" "\<And>k. k \<in> set xs \<Longrightarrow> ndNext (nd d k) = succ_of xs k \<and> ndPrev (nd d k) = pred_of xs k"
    using assms(1) by (auto simp: is_list_def)
  have d: "distinct (xs @ [c])" using l(1) assms(2) by simp
  have "ndNext (nd d' k) = succ_of (xs @ [c]) k \<and> ndPrev (nd d' k) = pred_of (xs @ [c]) k" if "k \<in> set (xs @ [c])" for k
    using that l assms(2,3,4,5) d by (auto simp: succ_of_append pred_of_append)
  then show ?thesis using d l(2) assms(6,7) by (auto simp: is_list_def)
qed

lemma is_list_insert:
  assumes "is_list d h l (ys @ r # zs)" "c \<notin> set (ys @ r # zs)"
    and "\<forall>k\<in>set (ys @ r # zs). ndNext (nd d' k) = (if last_opt ys = Some k then Some c else ndNext (nd d k))
      \<and> ndPrev (nd d' k) = (if k = r then Some c else ndPrev (nd d k))"
    and "ndNext (nd d' c) = Some r" "ndPrev (nd d' c) = last_opt ys" "h' = (if ys = [] then Some c else h)"
  shows "is_list d' h' l (ys @ c # r # zs)"
proof -
  let ?new = "ys @ c # r # zs"
  have l: "distinct (ys @ r # zs)" "h = hd_opt (ys @ r # zs)" "l = last_opt (ys @ r # zs)"
    "\<And>k. k \<in> set (ys @ r # zs) \<Longrightarrow> ndNext (nd d k) = succ_of (ys @ r # zs) k \<and> ndPrev (nd d k) = pred_of (ys @ r # zs) k"
    using assms(1) by (auto simp: is_list_def)
  have d: "distinct ?new" using l(1) assms(2) by auto
  have "ndNext (nd d' k) = succ_of ?new k \<and> ndPrev (nd d' k) = pred_of ?new k" if k: "k \<in> set ?new" for k
  proof (cases "k = c")
    case True
    then show ?thesis using assms(2,4,5) d by (auto simp: succ_of_append succ_of_Cons pred_of_append)
  next
    case False
    have n: "succ_of (ys @ r # zs) j = (if j \<in> set ys then if last_opt ys = Some j then Some r else succ_of ys j else succ_of (r # zs) j)" for j
      using l(1) by (simp add: succ_of_append)
    have p: "pred_of (ys @ r # zs) j = (if j \<in> set (r # zs) then if j = r then last_opt ys else pred_of (r # zs) j else pred_of ys j)" for j
      using l(1) by (auto simp: pred_of_append)
    have n': "succ_of ?new k = (if k \<in> set ys then if last_opt ys = Some k then Some c else succ_of ys k else succ_of (r # zs) k)"
      using d False by (simp add: succ_of_append succ_of_Cons)
    have p': "pred_of ?new k = (if k \<in> set (r # zs) then if k = r then Some c else pred_of (r # zs) k else pred_of ys k)"
      using d False by (auto simp: pred_of_append pred_of_Cons)
    have "last_opt ys = Some k \<Longrightarrow> k \<in> set ys" by auto
    then show ?thesis using k False l(1) l(4)[of k] assms(3) unfolding n' p' n p by auto
  qed
  then show ?thesis using d l(2,3) assms(6) by (auto simp: is_list_def)
qed

subsection \<open>One tree\<close>

lemma parent_kid: "parents_ok d K S \<Longrightarrow> c \<in> set (K x) \<Longrightarrow> ndParent (nd d c) = Some x"
  by (simp add: parents_ok_def)

lemma parent_shadow_kid: "parents_ok d K S \<Longrightarrow> c \<in> set (S x) \<Longrightarrow> ndParent (nd d c) = Some x"
  by (simp add: parents_ok_def)

lemma one_place:
  assumes "parents_ok d K S" "c \<in> set (K n)"
  shows "c \<in> set (K x) \<longleftrightarrow> x = n" "c \<notin> set (S x)"
proof -
  have p: "ndParent (nd d c) = Some n" by (rule parent_kid[OF assms])
  show "c \<in> set (K x) \<longleftrightarrow> x = n" using p assms(2) parent_kid[OF assms(1), of c x] by auto
  show "c \<notin> set (S x)"
  proof
    assume s: "c \<in> set (S x)"
    then have "x = n" using p parent_shadow_kid[OF assms(1) s] by simp
    then show False using s assms by (auto simp: parents_ok_def)
  qed
qed

lemma one_shadow_place:
  assumes "parents_ok d K S" "c \<in> set (S n)"
  shows "c \<in> set (S x) \<longleftrightarrow> x = n" "c \<notin> set (K x)"
proof -
  have p: "ndParent (nd d c) = Some n" by (rule parent_shadow_kid[OF assms])
  show "c \<in> set (S x) \<longleftrightarrow> x = n" using p assms(2) parent_shadow_kid[OF assms(1), of c x] by auto
  show "c \<notin> set (K x)" using one_place(2)[OF assms(1), of c x n] assms(2) by blast
qed

lemma kid_not_self:
  assumes "lists_ok d K S" "c \<in> set (K n) \<or> c \<in> set (S n)"
  shows "c \<noteq> n"
proof
  assume "c = n"
  then have "(n, n) \<in> down d K S" using assms(2) by (auto simp: down_def)
  then have "(n, n) \<in> (down d K S)\<^sup>+" by blast
  then show False using assms(1) by (auto simp: lists_ok_def acyclic_def)
qed

text \<open>The fields after unlinking.\<close>

lemma unlink_child_fields:
  assumes "ndPrev (nd d c) \<noteq> Some c" "ndNext (nd d c) \<noteq> Some c"
  shows "ndParent (nd (unlink_child n c d) x) = (if x = c then None else ndParent (nd d x))"
    "ndNext (nd (unlink_child n c d) x) = (if x = c then None else if ndPrev (nd d c) = Some x then ndNext (nd d c) else ndNext (nd d x))"
    "ndPrev (nd (unlink_child n c d) x) = (if x = c then None else if ndNext (nd d c) = Some x then ndPrev (nd d c) else ndPrev (nd d x))"
    "ndFirst (nd (unlink_child n c d) x) = (if x = n \<and> ndPrev (nd d c) = None then ndNext (nd d c) else ndFirst (nd d x))"
    "ndLast (nd (unlink_child n c d) x) = (if x = n \<and> ndNext (nd d c) = None then ndPrev (nd d c) else ndLast (nd d x))"
    "ndShadow (nd (unlink_child n c d) x) = ndShadow (nd d x)" "ndTemplate (nd (unlink_child n c d) x) = ndTemplate (nd d x)"
    "dmFresh (unlink_child n c d) = dmFresh d"
  using assms by (auto simp: unlink_child_def clear_place_def upd_node_def Let_def split: option.splits)

lemma unlink_shadow_fields:
  assumes "ndPrev (nd d c) \<noteq> Some c" "ndNext (nd d c) \<noteq> Some c"
  shows "ndParent (nd (unlink_shadow n c d) x) = (if x = c then None else ndParent (nd d x))"
    "ndNext (nd (unlink_shadow n c d) x) = (if x = c then None else if ndPrev (nd d c) = Some x then ndNext (nd d c) else ndNext (nd d x))"
    "ndPrev (nd (unlink_shadow n c d) x) = (if x = c then None else if ndNext (nd d c) = Some x then ndPrev (nd d c) else ndPrev (nd d x))"
    "ndFirst (nd (unlink_shadow n c d) x) = ndFirst (nd d x)" "ndLast (nd (unlink_shadow n c d) x) = ndLast (nd d x)"
    "shadow_head (nd (unlink_shadow n c d) x) = (if x = n \<and> ndShadow (nd d n) \<noteq> None \<and> ndPrev (nd d c) = None then ndNext (nd d c) else shadow_head (nd d x))"
    "shadow_tail (nd (unlink_shadow n c d) x) = (if x = n \<and> ndShadow (nd d n) \<noteq> None \<and> ndNext (nd d c) = None then ndPrev (nd d c) else shadow_tail (nd d x))"
    "ndTemplate (nd (unlink_shadow n c d) x) = ndTemplate (nd d x)" "(ndShadow (nd (unlink_shadow n c d) x) = None) = (ndShadow (nd d x) = None)"
    "dmFresh (unlink_shadow n c d) = dmFresh d"
  using assms
  by (cases "ndShadow (nd d n)"; cases "ndPrev (nd d c)"; cases "ndNext (nd d c)"; auto simp: unlink_shadow_def set_shadow_def clear_place_def upd_node_def Let_def shadow_head_def shadow_tail_def
      split: option.splits)+

lemma fresh_unlinked:
  assumes "fresh_ok d" "dmFresh d' = dmFresh d" "\<And>x. dmFresh d \<le> x \<Longrightarrow> blank_links (nd d x) \<Longrightarrow> blank_links (nd d' x)"
  shows "fresh_ok d'"
  using assms by (auto simp: fresh_ok_def)

lemma blank_not_kid: "tree_ok d K S \<Longrightarrow> dmFresh d \<le> x \<Longrightarrow> K x = [] \<and> S x = [] \<and> ndParent (nd d x) = None"
  using first_kid[OF tree_okD(1), of d K S x] first_shadow[OF tree_okD(1), of d K S x]
  by (auto simp: tree_ok_def fresh_ok_def blank_links_def shadow_head_def eq_commute[of None])

lemma unlink_tree:
  assumes ok: "tree_ok d K S" and c: "c \<in> set (K n)"
  shows "tree_ok (unlink_child n c d) (K(n := remove1 c (K n))) S"
proof -
  note L = tree_okD(1)[OF ok] and P = tree_okD(2)[OF ok] and F = tree_okD(3)[OF ok]
  obtain ys zs where k: "K n = ys @ c # zs" and r: "remove1 c (K n) = ys @ zs"
    using c lists_kids[OF L, of n] by (metis remove1_split split_list_first)
  let ?d = "unlink_child n c d" and ?K = "K(n := remove1 c (K n))"
  have links: "is_list d (ndFirst (nd d n)) (ndLast (nd d n)) (ys @ c # zs)" using lists_kids[OF L, of n] by (simp add: k)
  have dist: "distinct (ys @ c # zs)" using links by (simp add: is_list_def)
  have pn: "ndPrev (nd d c) = last_opt ys" "ndNext (nd d c) = hd_opt zs"
    using is_list_prev[OF links] is_list_next[OF links] by auto
  have "ndPrev (nd d c) \<noteq> Some c" "ndNext (nd d c) \<noteq> Some c" using dist unfolding pn by (auto dest!: hd_opt_Some last_opt_Some)
  note f = unlink_child_fields[OF this, unfolded pn, of n]
  have near: "j \<in> set (K n)" if "last_opt ys = Some j \<or> hd_opt zs = Some j" for j
    using that by (auto simp: k)
  have same: "ndNext (nd ?d j) = ndNext (nd d j) \<and> ndPrev (nd ?d j) = ndPrev (nd d j)" if "j \<notin> set (K n)" for j
    using that near[of j] c by (auto simp: f)
  have other: "j \<notin> set (K n)" if "x \<noteq> n \<and> j \<in> set (K x) \<or> j \<in> set (S x)" for x j
    using that one_place[OF P, of j n x] by auto
  have "is_list ?d (ndFirst (nd ?d x)) (ndLast (nd ?d x)) (?K x)" for x
  proof (cases "x = n")
    case True
    have "is_list ?d (ndFirst (nd ?d n)) (ndLast (nd ?d n)) (ys @ zs)"
      using dist by (intro is_list_unlink[OF links]) (auto simp: f)
    then show ?thesis using True r by simp
  next
    case False
    have "is_list d (ndFirst (nd ?d x)) (ndLast (nd ?d x)) (K x)" using lists_kids[OF L, of x] False by (simp add: f)
    moreover have "\<forall>j\<in>set (K x). ndNext (nd ?d j) = ndNext (nd d j) \<and> ndPrev (nd ?d j) = ndPrev (nd d j)"
      using same other[of x] False by blast
    ultimately have "is_list ?d (ndFirst (nd ?d x)) (ndLast (nd ?d x)) (K x)" by (rule is_list_frame)
    then show ?thesis using False by simp
  qed
  moreover have "is_list ?d (shadow_head (nd ?d x)) (shadow_tail (nd ?d x)) (S x)" for x
  proof -
    have "is_list d (shadow_head (nd ?d x)) (shadow_tail (nd ?d x)) (S x)"
      using lists_shadow[OF L, of x] by (simp add: shadow_head_def shadow_tail_def f)
    moreover have "\<forall>j\<in>set (S x). ndNext (nd ?d j) = ndNext (nd d j) \<and> ndPrev (nd ?d j) = ndPrev (nd d j)"
      using same other[of x] by blast
    ultimately show ?thesis by (rule is_list_frame)
  qed
  moreover have sub: "down ?d ?K S \<subseteq> down d K S" using set_remove1_subset[of c "K n"] by (auto simp: down_def f split: if_splits)
  moreover have "finite (down ?d ?K S)" "acyclic (down ?d ?K S)"
    using sub L finite_subset acyclic_subset by (auto simp: lists_ok_def)
  ultimately have "lists_ok ?d ?K S" by (simp add: lists_ok_def)
  moreover have "parents_ok ?d ?K S"
  proof -
    have c': "c \<in> set (K x) \<longleftrightarrow> x = n" "c \<notin> set (S x)" for x using one_place[OF P c] by auto
    have "ndParent (nd ?d j) = Some x \<longleftrightarrow> j \<in> set (?K x) \<or> j \<in> set (S x)" for x j
      using P c' dist k by (auto simp: f r parents_ok_def)
    moreover have "set (?K x) \<inter> set (S x) = {}" for x
    proof -
      have "set (?K x) \<subseteq> set (K x)" using set_remove1_subset[of c "K n"] by auto
      moreover have "set (K x) \<inter> set (S x) = {}" using P by (simp add: parents_ok_def)
      ultimately show ?thesis by blast
    qed
    moreover have "ndNext (nd ?d j) = None \<and> ndPrev (nd ?d j) = None" if j: "ndParent (nd ?d j) = None" for j
    proof (cases "j = c")
      case False
      then have "ndParent (nd d j) = None" using j by (simp add: f(1))
      moreover from this have "j \<notin> set (K n)" using parent_kid[OF P, of j n] by auto
      ultimately show ?thesis using same[of j] P by (simp add: parents_ok_def)
    qed (simp add: f(2,3))
    ultimately show ?thesis by (simp add: parents_ok_def)
  qed
  moreover have "fresh_ok ?d"
  proof (rule fresh_unlinked[OF F f(8)])
    fix x assume x: "dmFresh d \<le> x" "blank_links (nd d x)"
    then have "x \<noteq> n" "x \<notin> set (K n)" using blank_not_kid[OF ok x(1)] c parent_kid[OF P] by auto
    then show "blank_links (nd ?d x)" using x(2) same[of x] by (auto simp: blank_links_def f)
  qed
  ultimately show ?thesis by (simp add: tree_ok_def)
qed

lemma unlink_shadow_tree:
  assumes ok: "tree_ok d K S" and c: "c \<in> set (S n)"
  shows "tree_ok (unlink_shadow n c d) K (S(n := remove1 c (S n)))"
proof -
  note L = tree_okD(1)[OF ok] and P = tree_okD(2)[OF ok] and F = tree_okD(3)[OF ok]
  obtain ys zs where k: "S n = ys @ c # zs" and r: "remove1 c (S n) = ys @ zs"
    using c lists_shadow[OF L, of n] by (metis remove1_split split_list_first)
  let ?d = "unlink_shadow n c d" and ?S = "S(n := remove1 c (S n))"
  have links: "is_list d (shadow_head (nd d n)) (shadow_tail (nd d n)) (ys @ c # zs)" using lists_shadow[OF L, of n] by (simp add: k)
  have sn: "ndShadow (nd d n) \<noteq> None"
  proof
    assume "ndShadow (nd d n) = None"
    then have "hd_opt (ys @ c # zs) = None" using links by (simp add: is_list_def shadow_head_def del: hd_opt_append hd_opt_None)
    then show False by (cases ys) auto
  qed
  have dist: "distinct (ys @ c # zs)" using links by (simp add: is_list_def)
  have pn: "ndPrev (nd d c) = last_opt ys" "ndNext (nd d c) = hd_opt zs"
    using is_list_prev[OF links] is_list_next[OF links] by auto
  have "ndPrev (nd d c) \<noteq> Some c" "ndNext (nd d c) \<noteq> Some c" using dist unfolding pn by (auto dest!: hd_opt_Some last_opt_Some)
  note f = unlink_shadow_fields[OF this, unfolded pn, of n]
  have near: "j \<in> set (S n)" if "last_opt ys = Some j \<or> hd_opt zs = Some j" for j
    using that by (auto simp: k)
  have same: "ndNext (nd ?d j) = ndNext (nd d j) \<and> ndPrev (nd ?d j) = ndPrev (nd d j)" if "j \<notin> set (S n)" for j
    using that near[of j] c by (auto simp: f)
  have other: "j \<notin> set (S n)" if "x \<noteq> n \<and> j \<in> set (S x) \<or> j \<in> set (K x)" for x j
    using that one_shadow_place[OF P, of j n x] by auto
  have "is_list ?d (ndFirst (nd ?d x)) (ndLast (nd ?d x)) (K x)" for x
  proof -
    have "is_list d (ndFirst (nd ?d x)) (ndLast (nd ?d x)) (K x)" using lists_kids[OF L, of x] by (simp add: f)
    moreover have "\<forall>j\<in>set (K x). ndNext (nd ?d j) = ndNext (nd d j) \<and> ndPrev (nd ?d j) = ndPrev (nd d j)"
      using same other[of x] by blast
    ultimately show ?thesis by (rule is_list_frame)
  qed
  moreover have "is_list ?d (shadow_head (nd ?d x)) (shadow_tail (nd ?d x)) (?S x)" for x
  proof (cases "x = n")
    case True
    have "is_list ?d (shadow_head (nd ?d n)) (shadow_tail (nd ?d n)) (ys @ zs)"
      using dist sn by (intro is_list_unlink[OF links]) (auto simp: f)
    then show ?thesis using True r by simp
  next
    case False
    have "is_list d (shadow_head (nd ?d x)) (shadow_tail (nd ?d x)) (S x)" using lists_shadow[OF L, of x] False by (simp add: f)
    moreover have "\<forall>j\<in>set (S x). ndNext (nd ?d j) = ndNext (nd d j) \<and> ndPrev (nd ?d j) = ndPrev (nd d j)"
      using same other[of x] False by blast
    ultimately have "is_list ?d (shadow_head (nd ?d x)) (shadow_tail (nd ?d x)) (S x)" by (rule is_list_frame)
    then show ?thesis using False by simp
  qed
  moreover have sub: "down ?d K ?S \<subseteq> down d K S" using set_remove1_subset[of c "S n"] by (auto simp: down_def f split: if_splits)
  moreover have "finite (down ?d K ?S)" "acyclic (down ?d K ?S)"
    using sub L finite_subset acyclic_subset by (auto simp: lists_ok_def)
  ultimately have "lists_ok ?d K ?S" by (simp add: lists_ok_def)
  moreover have "parents_ok ?d K ?S"
  proof -
    have c': "c \<in> set (S x) \<longleftrightarrow> x = n" "c \<notin> set (K x)" for x using one_shadow_place[OF P c] by auto
    have "ndParent (nd ?d j) = Some x \<longleftrightarrow> j \<in> set (K x) \<or> j \<in> set (?S x)" for x j
      using P c' dist k by (auto simp: f r parents_ok_def)
    moreover have "set (K x) \<inter> set (?S x) = {}" for x
    proof -
      have "set (?S x) \<subseteq> set (S x)" using set_remove1_subset[of c "S n"] by auto
      moreover have "set (K x) \<inter> set (S x) = {}" using P by (simp add: parents_ok_def)
      ultimately show ?thesis by blast
    qed
    moreover have "ndNext (nd ?d j) = None \<and> ndPrev (nd ?d j) = None" if j: "ndParent (nd ?d j) = None" for j
    proof (cases "j = c")
      case False
      then have "ndParent (nd d j) = None" using j by (simp add: f(1))
      moreover from this have "j \<notin> set (S n)" using parent_shadow_kid[OF P, of j n] by auto
      ultimately show ?thesis using same[of j] P by (simp add: parents_ok_def)
    qed (simp add: f(2,3))
    ultimately show ?thesis by (simp add: parents_ok_def)
  qed
  moreover have "fresh_ok ?d"
  proof (rule fresh_unlinked[OF F f(10)])
    fix x assume x: "dmFresh d \<le> x" "blank_links (nd d x)"
    then have "x \<noteq> n" "x \<notin> set (S n)" using blank_not_kid[OF ok x(1)] c parent_shadow_kid[OF P] by auto
    then show "blank_links (nd ?d x)" using x(2) same[of x] by (auto simp: blank_links_def f)
  qed
  ultimately show ?thesis by (simp add: tree_ok_def)
qed

subsection \<open>Linking\<close>

lemma set_parent_fields [simp]:
  "ndParent (nd (set_parent c n d) x) = (if x = c then Some n else ndParent (nd d x))"
  "ndFirst (nd (set_parent c n d) x) = ndFirst (nd d x)" "ndLast (nd (set_parent c n d) x) = ndLast (nd d x)"
  "ndNext (nd (set_parent c n d) x) = ndNext (nd d x)" "ndPrev (nd (set_parent c n d) x) = ndPrev (nd d x)"
  "ndShadow (nd (set_parent c n d) x) = ndShadow (nd d x)" "ndTemplate (nd (set_parent c n d) x) = ndTemplate (nd d x)"
  "dmFresh (set_parent c n d) = dmFresh d"
  by (simp_all add: set_parent_def upd_node_def)

lemma set_parent_lists:
  assumes "lists_ok d K S"
  shows "lists_ok (set_parent c n d) K S"
proof -
  have "down (set_parent c n d) K S = down d K S" by (simp add: down_def)
  then show ?thesis using assms by (auto simp: lists_ok_def is_list_def shadow_head_def shadow_tail_def)
qed

lemma set_parent_fresh: "fresh_ok d \<Longrightarrow> c < dmFresh d \<Longrightarrow> fresh_ok (set_parent c n d)"
  by (auto simp: fresh_ok_def blank_links_def)

lemma link_last_fields:
  assumes "l = ndLast (nd e n)"
  shows "ndNext (nd (link_last n c e) x) = (if l = Some x then Some c else ndNext (nd e x))"
    "ndPrev (nd (link_last n c e) x) = (if l \<noteq> None \<and> x = c then l else ndPrev (nd e x))"
    "ndFirst (nd (link_last n c e) x) = (if x = n \<and> l = None then Some c else ndFirst (nd e x))"
    "ndLast (nd (link_last n c e) x) = (if x = n then Some c else ndLast (nd e x))"
    "ndParent (nd (link_last n c e) x) = ndParent (nd e x)" "ndShadow (nd (link_last n c e) x) = ndShadow (nd e x)"
    "ndTemplate (nd (link_last n c e) x) = ndTemplate (nd e x)" "dmFresh (link_last n c e) = dmFresh e"
  using assms by (auto simp: link_last_def upd_node_def split: option.splits)

lemma link_before_fields:
  assumes "p = ndPrev (nd e r)" "c \<noteq> r" "p \<noteq> Some c"
  shows "ndNext (nd (link_before n c r e) x) = (if p = Some x then Some c else if x = c then Some r else ndNext (nd e x))"
    "ndPrev (nd (link_before n c r e) x) = (if x = r then Some c else if x = c then p else ndPrev (nd e x))"
    "ndFirst (nd (link_before n c r e) x) = (if x = n \<and> p = None then Some c else ndFirst (nd e x))"
    "ndLast (nd (link_before n c r e) x) = ndLast (nd e x)"
    "ndParent (nd (link_before n c r e) x) = ndParent (nd e x)" "ndShadow (nd (link_before n c r e) x) = ndShadow (nd e x)"
    "ndTemplate (nd (link_before n c r e) x) = ndTemplate (nd e x)" "dmFresh (link_before n c r e) = dmFresh e"
  using assms by (auto simp: link_before_def upd_node_def Let_def split: option.splits)

lemma orphan_apart:
  assumes "tree_ok d K S" "ndParent (nd d c) = None"
  shows "c \<notin> set (K x)" "c \<notin> set (S x)" "ndNext (nd d c) = None" "ndPrev (nd d c) = None"
  using assms(2) parent_kid[OF tree_okD(2)[OF assms(1)], of c x] parent_shadow_kid[OF tree_okD(2)[OF assms(1)], of c x]
    tree_okD(2)[OF assms(1)] by (auto simp: parents_ok_def)

text \<open>Putting an orphan under a node that is not inside it leaves nothing inside itself.\<close>

lemma down_insert:
  assumes "lists_ok d K S" "set kids = insert c (set (K n))" "(n, c) \<notin> (down d K S)\<^sup>*" "\<And>x. ndTemplate (nd e x) = ndTemplate (nd d x)"
  shows "finite (down e (K(n := kids)) S)" "acyclic (down e (K(n := kids)) S)"
proof -
  have "down e (K(n := kids)) S = insert (c, n) (down d K S)"
    using assms(2,4) by (auto simp: down_def split: if_splits)
  then show "finite (down e (K(n := kids)) S)" "acyclic (down e (K(n := kids)) S)"
    using assms(1,3) by (auto simp: lists_ok_def acyclic_insert)
qed

lemma attach_tree:
  assumes ok: "tree_ok d K S" and orphan: "ndParent (nd d c) = None" and out: "(n, c) \<notin> (down d K S)\<^sup>*"
    and alive: "c < dmFresh d" "n < dmFresh d"
    and kids: "set kids = insert c (set (K n))" "is_list e (ndFirst (nd e n)) (ndLast (nd e n)) kids"
    and same: "\<And>x. x \<noteq> n \<Longrightarrow> ndFirst (nd e x) = ndFirst (nd d x) \<and> ndLast (nd e x) = ndLast (nd d x)"
      "\<And>j. j \<noteq> c \<Longrightarrow> j \<notin> set (K n) \<Longrightarrow> ndNext (nd e j) = ndNext (nd d j) \<and> ndPrev (nd e j) = ndPrev (nd d j)"
      "\<And>x. ndParent (nd e x) = (if x = c then Some n else ndParent (nd d x))"
      "\<And>x. ndShadow (nd e x) = ndShadow (nd d x)" "\<And>x. ndTemplate (nd e x) = ndTemplate (nd d x)" "dmFresh d \<le> dmFresh e"
  shows "tree_ok e (K(n := kids)) S"
proof -
  note L = tree_okD(1)[OF ok] and P = tree_okD(2)[OF ok] and F = tree_okD(3)[OF ok] and O = orphan_apart[OF ok orphan]
  have keep: "ndNext (nd e j) = ndNext (nd d j) \<and> ndPrev (nd e j) = ndPrev (nd d j)" if "x \<noteq> n \<and> j \<in> set (K x) \<or> j \<in> set (S x)" for x j
    using same(2)[of j] that O one_place[OF P, of j n x] by metis
  have "is_list e (ndFirst (nd e x)) (ndLast (nd e x)) ((K(n := kids)) x)" for x
  proof (cases "x = n")
    case False
    have "is_list d (ndFirst (nd e x)) (ndLast (nd e x)) (K x)" using lists_kids[OF L, of x] same(1)[OF False] by simp
    moreover have "\<forall>j\<in>set (K x). ndNext (nd e j) = ndNext (nd d j) \<and> ndPrev (nd e j) = ndPrev (nd d j)" using keep[of x] False by blast
    ultimately have "is_list e (ndFirst (nd e x)) (ndLast (nd e x)) (K x)" by (rule is_list_frame)
    then show ?thesis using False by simp
  qed (use kids(2) in simp)
  moreover have "is_list e (shadow_head (nd e x)) (shadow_tail (nd e x)) (S x)" for x
  proof -
    have "is_list d (shadow_head (nd e x)) (shadow_tail (nd e x)) (S x)"
      using lists_shadow[OF L, of x] by (simp add: shadow_head_def shadow_tail_def same(4))
    moreover have "\<forall>j\<in>set (S x). ndNext (nd e j) = ndNext (nd d j) \<and> ndPrev (nd e j) = ndPrev (nd d j)" using keep[of x] by blast
    ultimately show ?thesis by (rule is_list_frame)
  qed
  ultimately have "lists_ok e (K(n := kids)) S" using down_insert[OF L kids(1) out same(5)] by (simp add: lists_ok_def)
  moreover have "ndParent (nd e j) = Some x \<longleftrightarrow> j \<in> set ((K(n := kids)) x) \<or> j \<in> set (S x)" for x j
    using P O kids(1) by (auto simp: same(3) parents_ok_def)
  moreover have "set ((K(n := kids)) x) \<inter> set (S x) = {}" for x using P O kids(1) by (auto simp: parents_ok_def)
  moreover have "ndNext (nd e j) = None \<and> ndPrev (nd e j) = None" if j: "ndParent (nd e j) = None" for j
  proof -
    have "j \<noteq> c" "ndParent (nd d j) = None" using j by (auto simp: same(3) split: if_splits)
    then show ?thesis using same(2)[of j] orphan_apart[OF ok, of j] by simp
  qed
  moreover have "fresh_ok e"
    unfolding fresh_ok_def
  proof (intro allI impI)
    fix x assume x: "dmFresh e \<le> x"
    then have x': "dmFresh d \<le> x" using same(6) by simp
    then have "x \<noteq> n" "x \<noteq> c" using alive by auto
    moreover have "x \<notin> set (K n)" using blank_not_kid[OF ok x'] parent_kid[OF P] by auto
    ultimately show "blank_links (nd e x)" using F x' same(1,2)[of x] by (auto simp: fresh_ok_def blank_links_def same(3,4,5))
  qed
  ultimately show ?thesis by (simp add: tree_ok_def parents_ok_def)
qed

lemma append_tree:
  assumes ok: "tree_ok d K S" and orphan: "ndParent (nd d c) = None" and out: "(n, c) \<notin> (down d K S)\<^sup>*"
    and alive: "c < dmFresh d" "n < dmFresh d" and e: "same_links (set_parent c n d) e"
  shows "tree_ok (link_last n c e) (K(n := K n @ [c])) S"
proof -
  note s = same_linksD[OF e, unfolded set_parent_fields] and O = orphan_apart[OF ok orphan]
  have list: "is_list d (ndFirst (nd d n)) (ndLast (nd d n)) (K n)" by (rule lists_kids[OF tree_okD(1)[OF ok]])
  then have l: "ndLast (nd e n) = last_opt (K n)" by (simp add: s is_list_def)
  note f = link_last_fields[OF l[symmetric], of c, unfolded s]
  show ?thesis
  proof (rule attach_tree[OF ok orphan out alive])
    show "is_list (link_last n c e) (ndFirst (nd (link_last n c e) n)) (ndLast (nd (link_last n c e) n)) (K n @ [c])"
      using O by (intro is_list_append[OF list]) (auto simp: f dest: last_opt_Some)
  qed (use s(8) O in \<open>auto simp: f dest: last_opt_Some\<close>)
qed

lemma insert_tree:
  assumes ok: "tree_ok d K S" and orphan: "ndParent (nd d c) = None" and out: "(n, c) \<notin> (down d K S)\<^sup>*"
    and alive: "c < dmFresh d" "n < dmFresh d" and e: "same_links (set_parent c n d) e" and r: "K n = ys @ r # zs"
  shows "tree_ok (link_before n c r e) (K(n := ys @ c # r # zs)) S"
proof -
  note s = same_linksD[OF e, unfolded set_parent_fields] and O = orphan_apart[OF ok orphan]
  have list: "is_list d (ndFirst (nd d n)) (ndLast (nd d n)) (ys @ r # zs)" using lists_kids[OF tree_okD(1)[OF ok], of n] by (simp add: r)
  have c: "c \<notin> set (ys @ r # zs)" using O(1)[of n] by (simp add: r)
  have p: "ndPrev (nd e r) = last_opt ys" using is_list_prev[OF list] by (simp add: s)
  have "c \<noteq> r" "last_opt ys \<noteq> Some c" using c by (auto dest: last_opt_Some)
  note f = link_before_fields[OF p[symmetric] this, of n, unfolded s]
  show ?thesis
  proof (rule attach_tree[OF ok orphan out alive])
    have "is_list (link_before n c r e) (ndFirst (nd (link_before n c r e) n)) (ndLast (nd d n)) (ys @ c # r # zs)"
    proof (rule is_list_insert[OF list c])
      show "ndNext (nd (link_before n c r e) c) = Some r" "ndPrev (nd (link_before n c r e) c) = last_opt ys"
        using \<open>c \<noteq> r\<close> \<open>last_opt ys \<noteq> Some c\<close> by (simp_all add: f)
      show "ndFirst (nd (link_before n c r e) n) = (if ys = [] then Some c else ndFirst (nd d n))" by (simp add: f)
      show "\<forall>k\<in>set (ys @ r # zs). ndNext (nd (link_before n c r e) k) = (if last_opt ys = Some k then Some c else ndNext (nd d k))
        \<and> ndPrev (nd (link_before n c r e) k) = (if k = r then Some c else ndPrev (nd d k))"
        using c by (auto simp: f)
    qed
    then show "is_list (link_before n c r e) (ndFirst (nd (link_before n c r e) n)) (ndLast (nd (link_before n c r e) n)) (ys @ c # r # zs)"
      by (simp add: f)
  qed (use s(8) O in \<open>auto simp: f r dest: last_opt_Some\<close>)
qed

end
