(* ===== verification/Dom_Moves.thy ===== *)
theory Dom_Moves
  imports Dom_Tree
begin

text \<open>
  The operations of the tree, whole. \<open>reshapes d K S d' K' S'\<close>: \<open>d\<close> is a tree with these children
  and shadow children, the call turned it into a tree with those, and nothing but the edges
  named came to lie inside another node. Detaching empties the node's place, linking fills one.
\<close>

definition reshapes :: "dom \<Rightarrow> (addr \<Rightarrow> addr list) \<Rightarrow> (addr \<Rightarrow> addr list) \<Rightarrow> (addr \<times> addr) set \<Rightarrow> dom \<Rightarrow>
    (addr \<Rightarrow> addr list) \<Rightarrow> (addr \<Rightarrow> addr list) \<Rightarrow> bool" where
  "reshapes d K S new d' K' S' \<longleftrightarrow> tree_ok d' K' S' \<and> down d' K' S' \<subseteq> new \<union> down d K S \<and> dmFresh d \<le> dmFresh d'
     \<and> (\<forall>x. (ndShadow (nd d' x) = None) = (ndShadow (nd d x) = None))"

lemma reshapesD:
  assumes "reshapes d K S new d' K' S'"
  shows "tree_ok d' K' S'" "down d' K' S' \<subseteq> new \<union> down d K S" "dmFresh d \<le> dmFresh d'"
    "(ndShadow (nd d' x) = None) = (ndShadow (nd d x) = None)"
  using assms by (auto simp: reshapes_def)

lemma reshapes_same: "tree_ok d K S \<Longrightarrow> same_links d d' \<Longrightarrow> reshapes d K S {} d' K S"
  by (auto simp: reshapes_def same_links_down same_linksD(7,8) intro: same_links_tree)

lemma reshapes_trans:
  "reshapes d K S new d1 K1 S1 \<Longrightarrow> reshapes d1 K1 S1 new1 d2 K2 S2 \<Longrightarrow> reshapes d K S (new \<union> new1) d2 K2 S2"
  unfolding reshapes_def by (auto 0 3)

lemma reshapes_quiet:
  assumes "reshapes d K S new d1 K1 S1" "same_links d1 d2"
  shows "reshapes d K S new d2 K1 S1"
  using reshapes_trans[OF assms(1) reshapes_same[OF _ assms(2)]] reshapesD(1)[OF assms(1)] by auto

text \<open>A node is where the lists say, so taking it out of every list is taking it out of its one.\<close>

abbreviation drop_from :: "addr \<Rightarrow> (addr \<Rightarrow> addr list) \<Rightarrow> addr \<Rightarrow> addr list" where
  "drop_from c K \<equiv> (\<lambda>x. remove1 c (K x))"

lemma drop_absent: "(\<And>x. c \<notin> set (K x)) \<Longrightarrow> drop_from c K = K"
  by (simp add: remove1_idem)

lemma drop_kid:
  assumes "parents_ok d K S" "c \<in> set (K n)"
  shows "drop_from c K = K(n := remove1 c (K n))" "drop_from c S = S"
  using one_place[OF assms] by (auto simp: fun_eq_iff remove1_idem)

lemma drop_shadow_kid:
  assumes "parents_ok d K S" "c \<in> set (S n)"
  shows "drop_from c S = S(n := remove1 c (S n))" "drop_from c K = K"
  using one_shadow_place[OF assms] by (auto simp: fun_eq_iff remove1_idem)

lemma apart:
  assumes "tree_ok d K S" "c \<in> set (K n) \<or> c \<in> set (S n)"
  shows "ndPrev (nd d c) \<noteq> Some c" "ndNext (nd d c) \<noteq> Some c"
proof -
  have "ndPrev (nd d c) \<noteq> Some c \<and> ndNext (nd d c) \<noteq> Some c" if l: "is_list d h l xs" and c: "c \<in> set xs" for h l xs
  proof -
    obtain ys zs where x: "xs = ys @ c # zs" using c by (meson split_list)
    have "c \<notin> set ys" "c \<notin> set zs" using l unfolding x by (auto simp: is_list_def)
    then show ?thesis using is_list_prev[of d h l ys c zs] is_list_next[of d h l ys c zs] l unfolding x
      by (auto dest: hd_opt_Some last_opt_Some)
  qed
  then show "ndPrev (nd d c) \<noteq> Some c" "ndNext (nd d c) \<noteq> Some c"
    using assms(2) lists_kids[OF tree_okD(1)[OF assms(1)], of n] lists_shadow[OF tree_okD(1)[OF assms(1)], of n] by blast+
qed

lemma unlink_reshapes:
  assumes ok: "tree_ok d K S" and c: "c \<in> set (K n)"
  shows "reshapes d K S {} (unlink_child n c d) (drop_from c K) (drop_from c S)"
    "ndParent (nd (unlink_child n c d) c) = None"
proof -
  note f = unlink_child_fields[OF apart(1,2)[OF ok], OF disjI1[OF c] disjI1[OF c], of n]
  show "ndParent (nd (unlink_child n c d) c) = None" by (simp add: f)
  have "down (unlink_child n c d) (K(n := remove1 c (K n))) S \<subseteq> down d K S"
    using set_remove1_subset[of c "K n"] by (auto simp: down_def f split: if_splits)
  then show "reshapes d K S {} (unlink_child n c d) (drop_from c K) (drop_from c S)"
    using unlink_tree[OF ok c] by (simp add: reshapes_def drop_kid[OF tree_okD(2)[OF ok] c] f)
qed

lemma unlink_shadow_reshapes:
  assumes ok: "tree_ok d K S" and c: "c \<in> set (S n)"
  shows "reshapes d K S {} (unlink_shadow n c d) (drop_from c K) (drop_from c S)"
    "ndParent (nd (unlink_shadow n c d) c) = None"
proof -
  note f = unlink_shadow_fields[OF apart(1,2)[OF ok], OF disjI2[OF c] disjI2[OF c], of n]
  show "ndParent (nd (unlink_shadow n c d) c) = None" by (simp add: f)
  have "down (unlink_shadow n c d) K (S(n := remove1 c (S n))) \<subseteq> down d K S"
    using set_remove1_subset[of c "S n"] by (auto simp: down_def f split: if_splits)
  then show "reshapes d K S {} (unlink_shadow n c d) (drop_from c K) (drop_from c S)"
    using unlink_shadow_tree[OF ok c] by (simp add: reshapes_def drop_shadow_kid[OF tree_okD(2)[OF ok] c] f)
qed

subsection \<open>Taking out\<close>

lemma remove_child_reshapes:
  assumes ok: "tree_ok d K S" and c: "c \<in> set (K n)"
  obtains d' where "remove_child pick n c d = Some d'" "reshapes d K S {} d' (drop_from c K) (drop_from c S)"
    "ndParent (nd d' c) = None"
proof -
  let ?b = "before_removal n c d"
  have okb: "tree_ok ?b K S" by (rule same_links_tree[OF before_removal_same ok])
  obtain ow where "nearest_select ?b c = Some ow" by (rule nearest_select_returns[OF okb])
  then obtain owner where ow: "owner_of c ?b = Some owner" by (simp add: owner_of_def)
  have r1: "reshapes d K S {} ?b K S" by (rule reshapes_same[OF ok before_removal_same])
  note r2 = unlink_reshapes[OF okb c]
  define d1 where "d1 = mark_query_dirty (ndDoc (nd ?b n)) (unlink_child n c ?b)"
  have r3: "reshapes d K S {} d1 (drop_from c K) (drop_from c S)"
    using reshapes_quiet[OF reshapes_trans[OF r1 r2(1)] mark_dirty_same] by (simp add: d1_def)
  note ok3 = reshapesD(1)[OF r3]
  obtain d2 where 2: "sync_textarea n d1 = Some d2" "same_links d1 d2" using sync_textarea_returns[OF tree_okD(1)[OF ok3]] by blast
  obtain d3 where 3: "normalize_selects pick None owner d2 = Some d3" "same_links d2 d3"
    using normalize_selects_quiet[OF same_links_tree[OF 2(2) ok3]] by blast
  note s = same_links_trans[OF 2(2) 3(2)]
  have p: "ndParent (nd d c) = Some n" by (rule parent_kid[OF tree_okD(2)[OF ok] c])
  show thesis
  proof (rule that)
    show "remove_child pick n c d = Some d3"
      using p ow 2(1) 3(1) by (simp add: remove_child_def Let_def d1_def)
    show "reshapes d K S {} d3 (drop_from c K) (drop_from c S)" by (rule reshapes_quiet[OF r3 s])
    show "ndParent (nd d3 c) = None" using r2(2) by (simp add: same_linksD(1)[OF s] d1_def)
  qed
qed

lemma shadow_remove_reshapes:
  assumes ok: "tree_ok d K S" and p: "ndParent (nd d c) = Some n"
  obtains (shadow) d' where "c \<in> set (S n)" "shadow_remove n c d = Some (True, d')"
      "reshapes d K S {} d' (drop_from c K) (drop_from c S)" "ndParent (nd d' c) = None"
  | (light) "c \<in> set (K n)" "shadow_remove n c d = Some (False, d)"
proof (cases "c \<in> set (S n)")
  case True
  let ?b = "before_removal n c d"
  let ?d = "mark_query_dirty (ndDoc (nd ?b n)) (unlink_shadow n c ?b)"
  have head: "shadow_head (nd d n) = hd_opt (S n)" by (rule first_shadow[OF tree_okD(1)[OF ok]])
  have "hd_opt (S n) \<noteq> None" using True by (cases "S n") simp_all
  then obtain sr where sr: "ndShadow (nd d n) = Some sr" "shFirst sr = hd_opt (S n)"
    unfolding head[symmetric] by (cases "ndShadow (nd d n)") (auto simp: shadow_head_def)
  have "sib_find d c (hd_opt (S n)) = Some True"
    using sib_find_list[of d _ _ "[]" "S n" c] lists_shadow[OF tree_okD(1)[OF ok], of n] True by simp
  then have "shadow_remove n c d = Some (True, ?d)" using sr p by (simp add: shadow_remove_def Let_def)
  moreover have okb: "tree_ok ?b K S" by (rule same_links_tree[OF before_removal_same ok])
  have "reshapes d K S {} ?d (drop_from c K) (drop_from c S)"
    using reshapes_quiet[OF reshapes_trans[OF reshapes_same[OF ok before_removal_same] unlink_shadow_reshapes(1)[OF okb True]] mark_dirty_same]
    by simp
  moreover have "ndParent (nd ?d c) = None" using unlink_shadow_reshapes(2)[OF okb True] by simp
  ultimately show thesis using True shadow by blast
next
  case False
  have "sib_find d c (hd_opt (S n)) = Some False"
    using sib_find_list[of d _ _ "[]" "S n" c] lists_shadow[OF tree_okD(1)[OF ok], of n] False by simp
  moreover have "shadow_head (nd d n) = hd_opt (S n)" by (rule first_shadow[OF tree_okD(1)[OF ok]])
  ultimately have "shadow_remove n c d = Some (False, d)"
    using p by (auto simp: shadow_remove_def shadow_head_def split: option.splits)
  moreover have "c \<in> set (K n)" using False p tree_okD(2)[OF ok] by (simp add: parents_ok_def)
  ultimately show thesis using light by blast
qed

lemma detach_reshapes:
  assumes ok: "tree_ok d K S"
  obtains d' where "detach pick c d = Some d'" "reshapes d K S {} d' (drop_from c K) (drop_from c S)" "ndParent (nd d' c) = None"
proof (cases "ndParent (nd d c)")
  case None
  have "reshapes d K S {} d (drop_from c K) (drop_from c S)"
    using ok orphan_apart[OF ok None] by (simp add: drop_absent reshapes_same)
  then show thesis using None that by (simp add: detach_def)
next
  case (Some p)
  from ok Some show thesis
  proof (cases rule: shadow_remove_reshapes)
    case (shadow d')
    then show ?thesis using that Some by (simp add: detach_def)
  next
    case light
    obtain d' where "remove_child pick p c d = Some d'" "reshapes d K S {} d' (drop_from c K) (drop_from c S)" "ndParent (nd d' c) = None"
      by (rule remove_child_reshapes[OF ok light(1)])
    then show ?thesis using that light(2) Some by (simp add: detach_def)
  qed
qed

subsection \<open>Putting in\<close>

text \<open>Appending and inserting link the detached child in their own way; the rest they share.\<close>

lemma place_reshapes:
  assumes ok: "tree_ok d K S" and out: "(n, c) \<notin> (down d K S)\<^sup>*" and alive: "c < dmFresh d" "n < dmFresh d"
    and kids: "set kids = insert c (set (remove1 c (K n)))"
    and tie: "\<And>d1 e. tree_ok d1 (drop_from c K) (drop_from c S) \<Longrightarrow> ndParent (nd d1 c) = None \<Longrightarrow>
        (n, c) \<notin> (down d1 (drop_from c K) (drop_from c S))\<^sup>* \<Longrightarrow> c < dmFresh d1 \<Longrightarrow> n < dmFresh d1 \<Longrightarrow>
        same_links (set_parent c n d1) e \<Longrightarrow>
        tree_ok (link e) ((drop_from c K)(n := kids)) (drop_from c S)
          \<and> (\<forall>x. ndTemplate (nd (link e) x) = ndTemplate (nd e x) \<and> ndShadow (nd (link e) x) = ndShadow (nd e x))
          \<and> dmFresh (link e) = dmFresh e"
  obtains d' where "Option.bind (detach pick c d) (\<lambda>d. Option.bind (enter_document n c (set_parent c n d)) (\<lambda>d'.
        settle pick n c (ndDoc (nd d c)) (link d'))) = Some d'"
    "reshapes d K S {(c, n)} d' ((drop_from c K)(n := kids)) (drop_from c S)"
proof -
  let ?K = "drop_from c K" and ?S = "drop_from c S"
  obtain d1 where 1: "detach pick c d = Some d1" "reshapes d K S {} d1 ?K ?S" "ndParent (nd d1 c) = None" by (rule detach_reshapes[OF ok])
  note ok1 = reshapesD(1)[OF 1(2)]
  have sub: "down d1 ?K ?S \<subseteq> down d K S" using reshapesD(2)[OF 1(2)] by simp
  have out1: "(n, c) \<notin> (down d1 ?K ?S)\<^sup>*" using out rtrancl_mono[OF sub] by blast
  have alive1: "c < dmFresh d1" "n < dmFresh d1" using alive reshapesD(3)[OF 1(2)] by simp_all
  obtain e where e: "enter_document n c (set_parent c n d1) = Some e" "same_links (set_parent c n d1) e"
    using enter_document_quiet[OF set_parent_lists[OF tree_okD(1)[OF ok1]] set_parent_fresh[OF tree_okD(3)[OF ok1] alive1(1)]] by blast
  note t = tie[OF ok1 1(3) out1 alive1 e(2)]
  then have ok2: "tree_ok (link e) (?K(n := kids)) ?S" by blast
  obtain d' where d': "settle pick n c (ndDoc (nd d1 c)) (link e) = Some d'" "same_links (link e) d'" using settle_quiet[OF ok2] by blast
  have "down (link e) (?K(n := kids)) ?S \<subseteq> {(c, n)} \<union> down d1 ?K ?S"
    using t kids by (auto simp: down_def same_linksD[OF e(2)] split: if_splits)
  then have "reshapes d1 ?K ?S {(c, n)} (link e) (?K(n := kids)) ?S"
    using t same_linksD(7,8)[OF e(2)] by (simp add: reshapes_def)
  from reshapes_quiet[OF reshapes_trans[OF 1(2) this] d'(2)]
  have "reshapes d K S {(c, n)} d' (?K(n := kids)) ?S" by simp
  then show thesis using that 1(1) e(1) d'(1) by simp
qed

lemma append_child_reshapes:
  assumes ok: "tree_ok d K S" and out: "(n, c) \<notin> (down d K S)\<^sup>*" and alive: "c < dmFresh d" "n < dmFresh d"
  obtains d' where "append_child pick n c d = Some d'"
    "reshapes d K S {(c, n)} d' ((drop_from c K)(n := remove1 c (K n) @ [c])) (drop_from c S)"
proof -
  obtain d' where "Option.bind (detach pick c d) (\<lambda>d. Option.bind (enter_document n c (set_parent c n d)) (\<lambda>d'.
        settle pick n c (ndDoc (nd d c)) (link_last n c d'))) = Some d'"
    "reshapes d K S {(c, n)} d' ((drop_from c K)(n := remove1 c (K n) @ [c])) (drop_from c S)"
  proof (rule place_reshapes[OF ok out alive])
    fix d1 e
    assume a: "tree_ok d1 (drop_from c K) (drop_from c S)" "ndParent (nd d1 c) = None"
      "(n, c) \<notin> (down d1 (drop_from c K) (drop_from c S))\<^sup>*" "c < dmFresh d1" "n < dmFresh d1" "same_links (set_parent c n d1) e"
    show "tree_ok (link_last n c e) ((drop_from c K)(n := remove1 c (K n) @ [c])) (drop_from c S)
      \<and> (\<forall>x. ndTemplate (nd (link_last n c e) x) = ndTemplate (nd e x) \<and> ndShadow (nd (link_last n c e) x) = ndShadow (nd e x)) \<and> dmFresh (link_last n c e) = dmFresh e"
      using append_tree[OF a] by (simp add: link_last_fields[OF refl])
  qed auto
  then show thesis using that by (simp add: append_child_def)
qed

lemma insert_before_reshapes:
  assumes ok: "tree_ok d K S" and out: "(n, c) \<notin> (down d K S)\<^sup>*" and alive: "c < dmFresh d" "n < dmFresh d"
    and r: "K n = ys @ r # zs" "c \<noteq> r"
  obtains d' where "insert_before pick n c (Some r) d = Some d'"
    "reshapes d K S {(c, n)} d' ((drop_from c K)(n := remove1 c ys @ c # r # remove1 c zs)) (drop_from c S)"
proof -
  have dist: "distinct (ys @ r # zs)" using lists_kids[OF tree_okD(1)[OF ok], of n] r(1) by (simp add: is_list_def)
  have split: "remove1 c (K n) = remove1 c ys @ r # remove1 c zs"
    using r dist by (cases "c \<in> set ys"; cases "c \<in> set zs") (auto simp: remove1_append remove1_idem)
  obtain d' where "Option.bind (detach pick c d) (\<lambda>d. Option.bind (enter_document n c (set_parent c n d)) (\<lambda>d'.
        settle pick n c (ndDoc (nd d c)) (link_before n c r d'))) = Some d'"
    "reshapes d K S {(c, n)} d' ((drop_from c K)(n := remove1 c ys @ c # r # remove1 c zs)) (drop_from c S)"
  proof (rule place_reshapes[OF ok out alive])
    show "set (remove1 c ys @ c # r # remove1 c zs) = insert c (set (remove1 c (K n)))" by (auto simp: split)
    fix d1 e
    assume a: "tree_ok d1 (drop_from c K) (drop_from c S)" "ndParent (nd d1 c) = None"
      "(n, c) \<notin> (down d1 (drop_from c K) (drop_from c S))\<^sup>*" "c < dmFresh d1" "n < dmFresh d1" "same_links (set_parent c n d1) e"
    note L = tree_okD(1)[OF a(1)]
    have "ndPrev (nd e r) = last_opt (remove1 c ys)"
      using is_list_prev lists_kids[OF L, of n] same_linksD(5)[OF a(6)] by (fastforce simp: split)
    moreover have "c \<notin> set (remove1 c ys)" using dist by (simp add: distinct_remove1_removeAll)
    ultimately have "ndPrev (nd e r) \<noteq> Some c" by (auto dest: last_opt_Some)
    then show "tree_ok (link_before n c r e) ((drop_from c K)(n := remove1 c ys @ c # r # remove1 c zs)) (drop_from c S)
      \<and> (\<forall>x. ndTemplate (nd (link_before n c r e) x) = ndTemplate (nd e x) \<and> ndShadow (nd (link_before n c r e) x) = ndShadow (nd e x)) \<and> dmFresh (link_before n c r e) = dmFresh e"
      using insert_tree[OF a split] r(2) by (simp add: link_before_fields[OF refl])
  qed
  then show thesis using that r(2) by (simp add: insert_before_def)
qed

end
