(* ===== verification/Dom_Claims.thy ===== *)
theory Dom_Claims
  imports Dom_Moves
begin

text \<open>
  The contract of the tree operations, over what a caller can read: the children of every node
  as \<open>ChildNodes\<close> returns them. \<open>wf_dom\<close> says that what the pointers of the store read as is a
  tree; the abstract operations work on the lists of children alone.
\<close>

subsection \<open>What a caller reads\<close>

definition kids :: "dom \<Rightarrow> addr \<Rightarrow> addr list" where
  "kids d x = the (child_nodes d x)"

definition shadow_kids :: "dom \<Rightarrow> addr \<Rightarrow> addr list" where
  "shadow_kids d x = the (siblings d (shadow_head (nd d x)))"

definition wf_dom :: "dom \<Rightarrow> bool" where
  "wf_dom d \<longleftrightarrow> tree_ok d (kids d) (shadow_kids d)"

text \<open>\<open>x\<close> is \<open>y\<close>, or lies in its children, its shadow tree or its template content, at any depth.\<close>

definition nested :: "dom \<Rightarrow> addr \<Rightarrow> addr \<Rightarrow> bool" where
  "nested d x y \<longleftrightarrow> (x, y) \<in> (down d (kids d) (shadow_kids d))\<^sup>*"

lemma tree_reads:
  assumes "tree_ok d K S"
  shows "kids d = K" "shadow_kids d = S"
proof -
  show "kids d = K" using child_nodes_kids[OF tree_okD(1)[OF assms]] by (simp add: kids_def fun_eq_iff)
  have "siblings d (shadow_head (nd d x)) = Some (S x)" for x
    using siblings_list[of d _ _ "[]" "S x"] lists_shadow[OF tree_okD(1)[OF assms], of x] first_shadow[OF tree_okD(1)[OF assms], of x] by simp
  then show "shadow_kids d = S" by (simp add: shadow_kids_def fun_eq_iff)
qed

lemma tree_wf: "tree_ok d K S \<Longrightarrow> wf_dom d"
  using tree_reads[of d K S] by (simp add: wf_dom_def)

lemma wf_tree: "wf_dom d \<Longrightarrow> tree_ok d (kids d) (shadow_kids d)"
  by (simp add: wf_dom_def)

lemma reshapes_reads: "reshapes d K S new d' K' S' \<Longrightarrow> wf_dom d' \<and> kids d' = K' \<and> shadow_kids d' = S'"
  using tree_wf tree_reads reshapesD(1) by blast

text \<open>Where the ids of a store stop: nothing in the tree is beyond them.\<close>

lemma kid_alive:
  assumes "tree_ok d K S" "c \<in> set (K n) \<or> c \<in> set (S n)"
  shows "c < dmFresh d" "n < dmFresh d"
proof -
  have "ndParent (nd d c) = Some n" using assms parent_kid parent_shadow_kid tree_okD(2) by blast
  then show "c < dmFresh d" using blank_not_kid[OF assms(1), of c] by (cases "c < dmFresh d") auto
  show "n < dmFresh d" using blank_not_kid[OF assms(1), of n] assms(2) by (cases "n < dmFresh d") auto
qed

subsection \<open>The abstract operations\<close>

fun put_before :: "addr \<Rightarrow> addr option \<Rightarrow> addr list \<Rightarrow> addr list" where
  "put_before c None xs = xs @ [c]"
| "put_before c (Some r) [] = [c]"
| "put_before c (Some r) (x # xs) = (if x = r then c # x # xs else x # put_before c (Some r) xs)"

definition move_before :: "addr \<Rightarrow> addr \<Rightarrow> addr option \<Rightarrow> (addr \<Rightarrow> addr list) \<Rightarrow> addr \<Rightarrow> addr list" where
  "move_before n c ref K =
     (if ref = Some c then K else (drop_from c K)(n := put_before c ref (remove1 c (K n))))"

lemma put_before_split: "r \<notin> set ys \<Longrightarrow> put_before c (Some r) (ys @ r # zs) = ys @ c # r # zs"
  by (induction ys) auto

definition ref_ok :: "dom \<Rightarrow> addr \<Rightarrow> addr option \<Rightarrow> bool" where
  "ref_ok d n ref \<longleftrightarrow> (case ref of None \<Rightarrow> True | Some r \<Rightarrow> r \<in> set (kids d n))"

lemma insert_reshapes:
  assumes ok: "tree_ok d K S" and out: "(n, c) \<notin> (down d K S)\<^sup>*" and alive: "c < dmFresh d" "n < dmFresh d"
    and r: "case ref of None \<Rightarrow> True | Some r \<Rightarrow> r \<in> set (K n)"
  obtains d' where "insert_before pick n c ref d = Some d'" "reshapes d K S {(c, n)} d' (move_before n c ref K) (if ref = Some c then S else drop_from c S)"
proof (cases ref)
  case None
  obtain d' where "append_child pick n c d = Some d'"
    "reshapes d K S {(c, n)} d' ((drop_from c K)(n := remove1 c (K n) @ [c])) (drop_from c S)"
    by (rule append_child_reshapes[OF ok out alive])
  then show thesis using that None by (simp add: insert_before_def move_before_def)
next
  case (Some q)
  show thesis
  proof (cases "q = c")
    case True
    have "reshapes d K S {(c, n)} d K S" using ok by (auto simp: reshapes_def)
    then show thesis using that[of d] Some True by (simp add: insert_before_def move_before_def)
  next
    case False
    obtain ys zs where k: "K n = ys @ q # zs" using r Some by (auto dest: split_list)
    have dist: "distinct (ys @ q # zs)" using lists_kids[OF tree_okD(1)[OF ok], of n] k by (simp add: is_list_def)
    have rem: "remove1 c (K n) = remove1 c ys @ q # remove1 c zs"
      using k False dist by (cases "c \<in> set ys"; cases "c \<in> set zs") (auto simp: remove1_append remove1_idem)
    have "q \<notin> set (remove1 c ys)" using dist set_remove1_subset[of c ys] by auto
    then have "put_before c (Some q) (remove1 c (K n)) = remove1 c ys @ c # q # remove1 c zs" by (simp add: rem put_before_split)
    moreover obtain d' where "insert_before pick n c (Some q) d = Some d'"
      "reshapes d K S {(c, n)} d' ((drop_from c K)(n := remove1 c ys @ c # q # remove1 c zs)) (drop_from c S)"
      by (rule insert_before_reshapes[OF ok out alive k]) (use False in auto)
    ultimately show thesis using that Some False by (simp add: move_before_def)
  qed
qed

subsection \<open>Fragments\<close>

lemma enter_rtrancl:
  assumes "R' \<subseteq> {(x, n)} \<union> R" "(n, c) \<in> R'\<^sup>*"
  shows "(n, c) \<in> R\<^sup>*"
proof -
  have "(n, c) \<in> (insert (x, n) R)\<^sup>*" using assms rtrancl_mono[of R' "insert (x, n) R"] by auto
  then show ?thesis by (auto simp: rtrancl_insert)
qed

text \<open>Moving the children of the fragment one by one, each before the reference.\<close>

lemma insert_all_reshapes:
  assumes "tree_ok d K S" "(n, c) \<notin> (down d K S)\<^sup>*" "n < dmFresh d" "K c = xs" "c \<noteq> n"
    and "case ref of None \<Rightarrow> K n = ys \<and> zs = [] | Some r \<Rightarrow> zs \<noteq> [] \<and> hd zs = r \<and> K n = ys @ zs"
  shows "\<exists>d'. fold_opt (\<lambda>x. insert_before pick n x ref) xs d = Some d' \<and> tree_ok d' (K(c := [], n := ys @ xs @ zs)) S"
  using assms
proof (induction xs arbitrary: d K ys)
  case Nil
  then have "K(c := [], n := ys @ [] @ zs) = K" by (auto simp: fun_eq_iff split: option.splits)
  then show ?case using Nil.prems(1) by (auto simp only: fold_opt.simps)
next
  case (Cons x xs)
  note P = tree_okD(2)[OF Cons.prems(1)]
  have xc: "x \<in> set (K c)" using Cons.prems(4) by simp
  have kn: "K n = ys @ zs" using Cons.prems(6) by (auto split: option.splits)
  have dist: "distinct (ys @ zs)" "distinct (x # xs)" using lists_kids[OF tree_okD(1)[OF Cons.prems(1)]] kn Cons.prems(4)
    by (metis is_list_def)+
  have xn: "x \<notin> set (K n)" using one_place(1)[OF P xc] Cons.prems(5) by auto
  have xS: "x \<notin> set (S y)" for y using one_place(2)[OF P xc] by simp
  have "(x, c) \<in> down d K S" using xc by (simp add: down_def)
  then have out: "(n, x) \<notin> (down d K S)\<^sup>*" using Cons.prems(2) by (meson rtrancl.rtrancl_into_rtrancl)
  have ref: "case ref of None \<Rightarrow> True | Some r \<Rightarrow> r \<in> set (K n)" using Cons.prems(6) by (auto split: option.splits)
  have "ref \<noteq> Some x" using ref xn by (auto split: option.splits)
  moreover have "(if ref = Some x then S else drop_from x S) = S" using xS by (simp add: drop_absent)
  moreover have alive: "x < dmFresh d" using kid_alive[OF Cons.prems(1), of x c] xc by simp
  ultimately obtain d1 where 1: "insert_before pick n x ref d = Some d1" "reshapes d K S {(x, n)} d1 (move_before n x ref K) S"
    using insert_reshapes[OF Cons.prems(1) out alive Cons.prems(3) ref, of pick thesis] by auto
  have "put_before x ref (K n) = ys @ x # zs"
  proof (cases ref)
    case None
    then show ?thesis using Cons.prems(6) by simp
  next
    case (Some r)
    then obtain ws where "zs = r # ws" using Cons.prems(6) by (cases zs) auto
    then show ?thesis using put_before_split[of r ys x ws] dist(1) kn Some by simp
  qed
  then have K1: "move_before n x ref K = K(c := xs, n := ys @ x # zs)"
    using \<open>ref \<noteq> Some x\<close> one_place(1)[OF P xc] xn Cons.prems(4,5) by (auto simp: move_before_def fun_eq_iff remove1_idem)
  note r1 = 1(2)[unfolded K1]
  have "(n, c) \<notin> (down d1 (K(c := xs, n := ys @ x # zs)) S)\<^sup>*"
    using enter_rtrancl[OF reshapesD(2)[OF r1]] Cons.prems(2) by blast
  moreover have "case ref of None \<Rightarrow> (K(c := xs, n := ys @ x # zs)) n = ys @ [x] \<and> zs = []
      | Some r \<Rightarrow> zs \<noteq> [] \<and> hd zs = r \<and> (K(c := xs, n := ys @ x # zs)) n = (ys @ [x]) @ zs"
    using Cons.prems(6) by (auto split: option.splits)
  moreover have "(K(c := xs, n := ys @ x # zs)) c = xs" using Cons.prems(5) by simp
  moreover have "n < dmFresh d1" using reshapesD(3)[OF r1] Cons.prems(3) by simp
  ultimately have "\<exists>d'. fold_opt (\<lambda>x. insert_before pick n x ref) xs d1 = Some d' \<and>
    tree_ok d' ((K(c := xs, n := ys @ x # zs))(c := [], n := (ys @ [x]) @ xs @ zs)) S"
    by (intro Cons.IH[OF reshapesD(1)[OF r1]] Cons.prems(5))
  moreover have "(K(c := xs, n := ys @ x # zs))(c := [], n := (ys @ [x]) @ xs @ zs) = K(c := [], n := ys @ (x # xs) @ zs)"
    using Cons.prems(5) by (auto simp: fun_eq_iff)
  ultimately show ?case using 1(1) by (auto simp only: fold_opt.simps option.case)
qed

text \<open>Replacing: in before the next sibling of the old child, which may be the new one itself, then the old one out.\<close>

lemma replace_node_tree:
  assumes ok: "tree_ok d K S"
    and "\<not> is_fragment (nd d c)" "(n, c) \<notin> (down d K S)\<^sup>*" "c < dmFresh d" "K n = ys @ old # zs" "c \<noteq> old"
  shows "\<exists>d' S'. replace_node pick n c old d = Some d' \<and> tree_ok d' ((drop_from c K)(n := remove1 c ys @ c # remove1 c zs)) S'"
proof -
  note L = tree_okD(1)[OF ok] and P = tree_okD(2)[OF ok]
  have kid: "old \<in> set (K n)" using assms(5) by simp
  have dist: "distinct (ys @ old # zs)" using lists_kids[OF L, of n] assms(5) by (simp add: is_list_def)
  have next_old: "ndNext (nd d old) = hd_opt zs" using is_list_next lists_kids[OF L, of n] unfolding assms(5) by blast
  have p: "ndParent (nd d old) = Some n" by (rule parent_kid[OF P kid])
  let ?ref = "hd_opt zs" and ?S = "if hd_opt zs = Some c then S else drop_from c S"
  have "case ?ref of None \<Rightarrow> True | Some r \<Rightarrow> r \<in> set (K n)" using assms(5) by (cases zs) auto
  then obtain d1 where 1: "insert_before pick n c ?ref d = Some d1"
    and 2: "reshapes d K S {(c, n)} d1 (move_before n c ?ref K) ?S"
    by (rule insert_reshapes[OF ok _ assms(4), of n "hd_opt zs" pick, rotated 2])
      (use kid_alive(2)[OF ok] kid assms(3) in auto)
  have "move_before n c ?ref K n = remove1 c ys @ old # c # remove1 c zs
      \<and> (\<forall>x. x \<noteq> n \<longrightarrow> move_before n c ?ref K x = remove1 c (K x))"
  proof (cases "hd_opt zs = Some c")
    case True
    then obtain ws where z: "zs = c # ws" by (cases zs) auto
    have "c \<in> set (K n)" using z assms(5) by simp
    then have "remove1 c (K x) = K x" if "x \<noteq> n" for x using one_place(1)[OF P] that by (simp add: remove1_idem)
    then show ?thesis using True z dist by (simp add: move_before_def assms(5) remove1_idem)
  next
    case False
    have "put_before c ?ref (remove1 c (ys @ old # zs)) = remove1 c ys @ old # c # remove1 c zs"
    proof (cases zs)
      case Nil
      then show ?thesis using assms(6) by (auto simp: remove1_append remove1_idem)
    next
      case (Cons z ws)
      have "remove1 c (ys @ old # zs) = (remove1 c ys @ [old]) @ z # remove1 c ws"
        using dist Cons False assms(6) by (cases "c \<in> set ys"; cases "c \<in> set ws") (auto simp: remove1_append remove1_idem)
      moreover have "z \<notin> set (remove1 c ys @ [old])" using dist Cons set_remove1_subset[of c ys] by auto
      ultimately show ?thesis using put_before_split[of z "remove1 c ys @ [old]" c "remove1 c ws"] Cons False by simp
    qed
    then show ?thesis using False by (simp add: move_before_def assms(5))
  qed
  moreover note ok1 = reshapesD(1)[OF 2]
  ultimately have here: "move_before n c ?ref K n = remove1 c ys @ old # c # remove1 c zs"
    and rest: "\<And>x. x \<noteq> n \<Longrightarrow> move_before n c ?ref K x = remove1 c (K x)" by blast+
  have old1: "old \<in> set (move_before n c ?ref K n)" by (simp add: here)
  obtain d2 where 3: "remove_child pick n old d1 = Some d2"
    and 4: "reshapes d1 (move_before n c ?ref K) ?S {} d2 (drop_from old (move_before n c ?ref K)) (drop_from old ?S)"
    by (rule remove_child_reshapes[OF ok1 old1])
  have "old \<notin> set (remove1 c ys)" using dist set_remove1_subset[of c ys] by auto
  then have "drop_from old (move_before n c ?ref K) = (drop_from c K)(n := remove1 c ys @ c # remove1 c zs)"
    using drop_kid(1)[OF tree_okD(2)[OF ok1] old1] here rest by (auto simp: fun_eq_iff remove1_append)
  moreover have "replace_node pick n c old d = Some d2" using assms(2,6) p next_old 1 3 by (simp add: replace_node_def)
  ultimately show ?thesis using reshapesD(1)[OF 4] by auto
qed

subsection \<open>A small tree\<close>

text \<open>An element 0 with children 1 and 2, a detached element 3, a fragment 4 holding 5.\<close>

definition small_node :: "addr \<Rightarrow> node" where
  "small_node x = zero_node\<lparr>ndID := x, ndType := (if x = 4 then NodeDocumentFragment else NodeElement), ndData := ''p'', ndDoc := Some 0\<rparr>"

definition small_tree :: dom where
  "small_tree = \<lparr>dmNode = (\<lambda>x. zero_node)(
       0 := (small_node 0)\<lparr>ndFirst := Some 1, ndLast := Some 2\<rparr>,
       1 := (small_node 1)\<lparr>ndParent := Some 0, ndNext := Some 2\<rparr>,
       2 := (small_node 2)\<lparr>ndParent := Some 0, ndPrev := Some 1\<rparr>,
       3 := small_node 3,
       4 := (small_node 4)\<lparr>ndFirst := Some 5, ndLast := Some 5\<rparr>,
       5 := (small_node 5)\<lparr>ndParent := Some 4\<rparr>),
     dmDoc = (\<lambda>_. \<lparr>dcNode = 0, dcNextID = 6, dcTemplate = None, dcTemplateOwner = False, dcQValid = False, dcXml = False\<rparr>),
     dmFresh = 6, dmFreshDoc = 1, dmRemovals = []\<rparr>"

lemma down_below:
  assumes "\<And>c x. (c, x) \<in> down d K S \<Longrightarrow> x < c \<and> c < N"
  shows "finite (down d K S)" "acyclic (down d K S)"
proof -
  have "down d K S \<subseteq> {..<N} \<times> {..<N}" using assms by force
  then show "finite (down d K S)" by (rule finite_subset) simp
  have "(c, x) \<in> (down d K S)\<^sup>+ \<Longrightarrow> x < c" for c x by (induction rule: trancl_induct) (use assms in force)+
  then show "acyclic (down d K S)" by (auto simp: acyclic_def)
qed

lemma small_tree_ok: "tree_ok small_tree ((\<lambda>_. [])(0 := [1, 2], 4 := [5])) (\<lambda>_. [])"
proof -
  let ?K = "(\<lambda>_. [])(0 := [1, 2], 4 := [5]) :: addr \<Rightarrow> addr list" and ?S = "\<lambda>_::addr. [] :: addr list"
  note f = small_tree_def small_node_def zero_node_def
  have "x < c \<and> c < 6" if "(c, x) \<in> down small_tree ?K ?S" for c x
    using that by (auto simp: down_def f split: if_splits)
  note d = down_below[OF this]
  have "lists_ok small_tree ?K ?S" using d
    by (simp add: lists_ok_def is_list_def shadow_head_def shadow_tail_def) (simp add: f succ_of_Cons)
  moreover have "parents_ok small_tree ?K ?S" by (auto simp: parents_ok_def f)
  moreover have "fresh_ok small_tree" by (auto simp: fresh_ok_def blank_links_def f)
  ultimately show ?thesis by (simp add: tree_ok_def)
qed

lemmas small_reads = tree_reads[OF small_tree_ok] tree_wf[OF small_tree_ok]

lemma small_nested: "nested small_tree x y \<longleftrightarrow> x = y \<or> (x, y) \<in> {(1, 0), (2, 0), (5, 4)}"
proof -
  have "down small_tree ((\<lambda>_. [])(0 := [1, 2], 4 := [5])) (\<lambda>_. []) = {(1, 0), (2, 0), (5, 4)}"
    by (auto simp: down_def small_tree_def small_node_def zero_node_def split: if_splits)
  then show ?thesis by (auto simp: nested_def small_reads rtrancl_insert)
qed

subsection \<open>Properties\<close>

text \<open>
  Claim C4: inserting a child into a well-formed tree, anywhere it does not lie inside itself,
  before a child of the node or at its end, returns, and leaves a well-formed tree in which the
  child is exactly there, once, in the children or shadow tree of no other node, with everything
  else of the tree as it was.
\<close>

theorem insert_moves:
  assumes "wf_dom d" "\<not> nested d n c" "c < dmFresh d" "n < dmFresh d" "ref_ok d n ref"
  shows "\<exists>d'. insert_before pick n c ref d = Some d' \<and> wf_dom d' \<and> kids d' = move_before n c ref (kids d)
    \<and> shadow_kids d' = (if ref = Some c then shadow_kids d else drop_from c (shadow_kids d))"
proof -
  obtain d' where 1: "insert_before pick n c ref d = Some d'"
    and 2: "reshapes d (kids d) (shadow_kids d) {(c, n)} d' (move_before n c ref (kids d))
      (if ref = Some c then shadow_kids d else drop_from c (shadow_kids d))"
    by (rule insert_reshapes[OF wf_tree[OF assms(1)], of n c ref pick]) (use assms in \<open>auto simp: nested_def ref_ok_def\<close>)
  show ?thesis using 1 reshapes_reads[OF 2] by blast
qed

theorem insert_moves_witness:
  "\<exists>d'. insert_before rev 0 5 (Some 2) small_tree = Some d' \<and> kids d' 0 = [1, 5, 2] \<and> kids d' 4 = []"
proof -
  have "5 < dmFresh small_tree \<and> 0 < dmFresh small_tree" by (simp add: small_tree_def)
  then show ?thesis
    using insert_moves[of small_tree 0 5 "Some 2" rev] by (auto simp: small_reads small_nested ref_ok_def move_before_def)
qed

text \<open>
  Inserting a fragment moves all its children, in their order, to the one place
  asked for, and leaves the fragment empty.
\<close>

theorem insert_fragment_moves:
  assumes "wf_dom d" "is_fragment (nd d c)" "\<not> nested d n c" "n < dmFresh d" "kids d n = ys @ zs"
    and "ref = hd_opt zs"
  shows "\<exists>d'. insert_node pick n c ref d = Some d' \<and> wf_dom d'
    \<and> kids d' = (kids d)(c := [], n := ys @ kids d c @ zs) \<and> shadow_kids d' = shadow_kids d"
proof -
  note ok = wf_tree[OF assms(1)]
  have "c \<noteq> n" using assms(3) by (auto simp: nested_def)
  moreover have "case ref of None \<Rightarrow> kids d n = ys \<and> zs = [] | Some r \<Rightarrow> zs \<noteq> [] \<and> hd zs = r \<and> kids d n = ys @ zs"
    using assms(5,6) by (cases zs) auto
  ultimately obtain d' where 1: "fold_opt (\<lambda>x. insert_before pick n x ref) (kids d c) d = Some d'"
    and 2: "tree_ok d' ((kids d)(c := [], n := ys @ kids d c @ zs)) (shadow_kids d)"
    using insert_all_reshapes[OF ok _ assms(4) refl] assms(3) unfolding nested_def by blast
  show ?thesis using 1 tree_wf[OF 2] tree_reads[OF 2] assms(2) child_nodes_kids[OF tree_okD(1)[OF ok], of c]
    by (simp add: insert_node_def)
qed

theorem insert_fragment_moves_witness:
  "\<exists>d'. insert_node rev 0 4 (Some 2) small_tree = Some d' \<and> kids d' 0 = [1, 5, 2] \<and> kids d' 4 = []"
proof -
  have "0 < dmFresh small_tree \<and> is_fragment (nd small_tree 4)" by (simp add: small_tree_def is_fragment_def small_node_def)
  then show ?thesis
    using insert_fragment_moves[of small_tree 4 0 "[1]" "[2]" "Some 2" rev] by (auto simp: small_reads small_nested)
qed

text \<open>
  Removing a child takes it out of the children it is in and changes no other list
  of the tree; a node that is no child of \<open>n\<close> is left where it is.
\<close>

theorem remove_takes_out:
  assumes "wf_dom d" "c \<notin> set (shadow_kids d n)"
  shows "\<exists>d'. remove_child pick n c d = Some d' \<and> wf_dom d' \<and> kids d' = (kids d)(n := remove1 c (kids d n))
    \<and> shadow_kids d' = shadow_kids d"
proof (cases "c \<in> set (kids d n)")
  case True
  note ok = wf_tree[OF assms(1)]
  obtain d' where 1: "remove_child pick n c d = Some d'"
    and 2: "reshapes d (kids d) (shadow_kids d) {} d' (drop_from c (kids d)) (drop_from c (shadow_kids d))"
    by (rule remove_child_reshapes[OF ok True])
  show ?thesis using 1 reshapes_reads[OF 2] drop_kid[OF tree_okD(2)[OF ok] True] by simp
next
  case False
  then have "ndParent (nd d c) \<noteq> Some n" using assms tree_okD(2)[OF wf_tree[OF assms(1)]] by (simp add: parents_ok_def)
  then show ?thesis using assms(1) False by (simp add: remove_child_def remove1_idem)
qed

theorem remove_takes_out_witness: "\<exists>d'. remove_child rev 0 1 small_tree = Some d' \<and> kids d' 0 = [2]"
  using remove_takes_out[of small_tree 1 0 rev] by (auto simp: small_reads)

text \<open>
  Replacing a child by another node puts the node where the child was and takes the
  child out, wherever the node came from, the child's own neighbours included.
\<close>

theorem replace_swaps:
  assumes "wf_dom d" "\<not> is_fragment (nd d c)" "\<not> nested d n c" "c < dmFresh d" "kids d n = ys @ old # zs" "c \<noteq> old"
  shows "\<exists>d'. replace_node pick n c old d = Some d' \<and> wf_dom d'
    \<and> kids d' = (drop_from c (kids d))(n := remove1 c ys @ c # remove1 c zs)"
proof -
  obtain d' S' where "replace_node pick n c old d = Some d'"
    and ok: "tree_ok d' ((drop_from c (kids d))(n := remove1 c ys @ c # remove1 c zs)) S'"
    using replace_node_tree[OF wf_tree[OF assms(1)] assms(2) _ assms(4-6)] assms(3) unfolding nested_def by blast
  then show ?thesis using tree_wf[OF ok] tree_reads(1)[OF ok] by blast
qed

theorem replace_swaps_witness: "\<exists>d'. replace_node rev 0 2 1 small_tree = Some d' \<and> kids d' 0 = [2]"
proof -
  have "2 < dmFresh small_tree \<and> \<not> is_fragment (nd small_tree 2)" by (simp add: small_tree_def is_fragment_def small_node_def)
  then show ?thesis using replace_swaps[of small_tree 2 0 "[]" 1 "[2]" rev] by (auto simp: small_reads small_nested)
qed

end
