(* ===== verification/Dom_Queries.thy ===== *)
theory Dom_Queries
  imports Dom_Claims
begin

text \<open>
  What the reading operations of the tree answer: the climbs of \<open>Contains\<close> and \<open>IsConnected\<close>
  on any store, cyclic ones included, the order and freshness of a subtree walk, and the
  selectedness of the options of a select.
\<close>

subsection \<open>Climbing\<close>

definition up :: "dom \<Rightarrow> (addr \<times> addr) set" where
  "up d = {(x, p). ndParent (nd d x) = Some p}"

text \<open>Both climbs are one loop: stop at a node that answers, give up at one seen before.\<close>

lemma climb_answers:
  assumes "finite A" "\<And>x p. x \<in> A \<Longrightarrow> ndParent (nd d x) = Some p \<Longrightarrow> p \<in> A"
    and f: "\<And>p seen. f p seen = (case p of None \<Rightarrow> Some False | Some x \<Rightarrow> if stop x then Some True
        else if x \<in> set seen then Some False else f (ndParent (nd d x)) (x # seen))"
    and "case p of None \<Rightarrow> True | Some x \<Rightarrow> x \<in> A"
    and "\<And>x. x \<in> set seen \<Longrightarrow> \<not> stop x \<and> (\<forall>y. ndParent (nd d x) = Some y \<longrightarrow> y \<in> set seen \<or> p = Some y)"
  shows "f p seen = Some (\<exists>x y. p = Some x \<and> (x, y) \<in> (up d)\<^sup>* \<and> stop y)"
  using assms(4,5)
proof (induction "card (A - set seen)" arbitrary: p seen rule: less_induct)
  case less
  show ?case
  proof (cases p)
    case None
    then show ?thesis by (simp add: f)
  next
    case (Some x)
    consider "stop x" | "\<not> stop x" "x \<in> set seen" | "\<not> stop x" "x \<notin> set seen" by blast
    then show ?thesis
    proof cases
      case 1
      then show ?thesis by (subst f) (auto simp: Some)
    next
      case 2
      have "y \<in> set seen" if "(x, y) \<in> (up d)\<^sup>*" for y
        using that by (induction rule: rtrancl_induct) (use 2 Some less.prems(2) in \<open>auto simp: up_def\<close>)
      then have "\<not> stop y" if "(x, y) \<in> (up d)\<^sup>*" for y using that less.prems(2) by blast
      then show ?thesis using 2 by (subst f) (auto simp: Some)
    next
      case 3
      have "A - set (x # seen) \<subset> A - set seen" using 3 less.prems(1) Some by auto
      then have "card (A - set (x # seen)) < card (A - set seen)" using assms(1) by (simp add: psubset_card_mono)
      moreover have "case ndParent (nd d x) of None \<Rightarrow> True | Some p \<Rightarrow> p \<in> A"
        using assms(2)[of x] less.prems(1) Some by (auto split: option.split)
      moreover have "\<not> stop z \<and> (\<forall>y. ndParent (nd d z) = Some y \<longrightarrow> y \<in> set (x # seen) \<or> ndParent (nd d x) = Some y)"
        if "z \<in> set (x # seen)" for z using that less.prems(2)[of z] 3 Some by auto
      ultimately have "f (ndParent (nd d x)) (x # seen)
          = Some (\<exists>p y. ndParent (nd d x) = Some p \<and> (p, y) \<in> (up d)\<^sup>* \<and> stop y)"
        by (rule less.hyps)
      moreover have "(\<exists>y. (x, y) \<in> (up d)\<^sup>* \<and> stop y) \<longleftrightarrow> (\<exists>p y. ndParent (nd d x) = Some p \<and> (p, y) \<in> (up d)\<^sup>* \<and> stop y)"
        using 3(1) by (auto simp: up_def elim: converse_rtranclE intro: converse_rtrancl_into_rtrancl)
      ultimately show ?thesis using 3 by (subst f) (simp add: Some)
    qed
  qed
qed

lemma ancestors_finite:
  assumes "fresh_ok d"
  shows "finite ((up d)\<^sup>* `` {x})"
proof -
  have "x < dmFresh d" if "ndParent (nd d x) = Some p" for x p
    using assms that by (cases "x < dmFresh d") (auto simp: fresh_ok_def blank_links_def)
  then have "up d \<subseteq> (\<lambda>x. (x, the (ndParent (nd d x)))) ` {..<dmFresh d}" by (force simp: up_def)
  then have "finite (up d)" by (rule finite_subset) simp
  then have "finite ((up d)\<^sup>+ `` {x})" by (simp add: finite_Image)
  moreover have "(up d)\<^sup>* `` {x} = insert x ((up d)\<^sup>+ `` {x})" by (auto simp: rtrancl_eq_or_trancl)
  ultimately show ?thesis by simp
qed

lemma climb_from:
  assumes "fresh_ok d"
    and f: "\<And>p seen. f p seen = (case p of None \<Rightarrow> Some False | Some x \<Rightarrow> if stop x then Some True
        else if x \<in> set seen then Some False else f (ndParent (nd d x)) (x # seen))"
  shows "f (Some x) [] = Some (\<exists>y. (x, y) \<in> (up d)\<^sup>* \<and> stop y)"
proof -
  have "f (Some x) [] = Some (\<exists>z y. Some x = Some z \<and> (z, y) \<in> (up d)\<^sup>* \<and> stop y)"
    by (rule climb_answers[OF ancestors_finite[OF assms(1), of x] _ f]) (auto simp: up_def intro: rtrancl.rtrancl_into_rtrancl)
  then show ?thesis by simp
qed

text \<open>
  On every store, one whose parent pointers run in a circle included, \<open>Contains\<close> and
  \<open>IsConnected\<close> return, and answer whether the node is reached by climbing, and whether climbing
  reaches a document node.
\<close>

theorem climbs_answer:
  assumes "fresh_ok d"
  shows "contains_node d n x = Some ((x, n) \<in> (up d)\<^sup>*)
    \<and> is_connected d x = Some (\<exists>y. (x, y) \<in> (up d)\<^sup>* \<and> ndType (nd d y) = NodeDocument)"
proof
  have "contains_up d n (Some x) [] = Some (\<exists>y. (x, y) \<in> (up d)\<^sup>* \<and> y = n)"
    by (rule climb_from[OF assms, where f = "contains_up d n"]) (subst contains_up.simps, simp cong: option.case_cong)
  then show "contains_node d n x = Some ((x, n) \<in> (up d)\<^sup>*)" by (simp add: contains_node_def)
  show "is_connected d x = Some (\<exists>y. (x, y) \<in> (up d)\<^sup>* \<and> ndType (nd d y) = NodeDocument)"
    unfolding is_connected_def
    by (rule climb_from[OF assms, where f = "\<lambda>p seen. connected_up d seen p"]) (subst connected_up.simps, simp cong: option.case_cong)
qed

text \<open>Two nodes, each the parent of the other.\<close>

definition knot :: dom where
  "knot = small_tree\<lparr>dmNode := (dmNode small_tree)(0 := (small_node 0)\<lparr>ndParent := Some 1\<rparr>, 1 := (small_node 1)\<lparr>ndParent := Some 0\<rparr>)\<rparr>"

theorem climbs_answer_witness: "contains_node knot 2 0 = Some False \<and> contains_node knot 1 0 = Some True"
proof -
  have fresh: "fresh_ok knot" by (auto simp: fresh_ok_def blank_links_def knot_def small_tree_def zero_node_def)
  have "y = 0 \<or> y = 1" if "(0, y) \<in> (up knot)\<^sup>*" for y
    using that by (induction rule: rtrancl_induct) (auto simp: up_def knot_def small_node_def)
  from this[of 2] have "(0, 2) \<notin> (up knot)\<^sup>*" by auto
  moreover have "(0, 1) \<in> (up knot)\<^sup>*" by (rule r_into_rtrancl) (simp add: up_def knot_def)
  ultimately show ?thesis using climbs_answer[OF fresh, of 2 0] climbs_answer[OF fresh, of 1 0] by auto
qed

subsection \<open>Subtree walks\<close>

lemma up_down: "tree_ok d K S \<Longrightarrow> up d \<subseteq> down d K S"
  using tree_okD(2)[of d K S] by (auto simp: up_def down_def parents_ok_def)

lemma up_acyclic: "tree_ok d K S \<Longrightarrow> acyclic (up d)"
  using up_down[of d K S] acyclic_subset tree_okD(1)[of d K S] by (auto simp: lists_ok_def)

lemma up_single: "single_valued (up d)"
  by (simp add: single_valued_def up_def)

text \<open>Nothing is under two children of one node.\<close>

lemma siblings_apart:
  assumes "tree_ok d K S" "(z, y) \<in> (up d)\<^sup>*" "(z, y') \<in> (up d)\<^sup>*" "(y, x) \<in> up d" "(y', x) \<in> up d"
  shows "y = y'"
proof (rule ccontr)
  assume ne: "y \<noteq> y'"
  have no: False if "(a, b) \<in> (up d)\<^sup>*" "a \<noteq> b" "(a, x) \<in> up d" "(b, x) \<in> up d" for a b
  proof -
    have "(x, b) \<in> (up d)\<^sup>*" using that(1)
    proof (cases rule: converse_rtranclE)
      case (step c)
      then show ?thesis using that(3) by (auto simp: up_def)
    qed (use that(2) in simp)
    then have "(x, x) \<in> (up d)\<^sup>+" using that(4) by (rule rtrancl_into_trancl1)
    then show False using up_acyclic[OF assms(1)] by (auto simp: acyclic_def)
  qed
  show False using single_valued_confluent[OF up_single assms(2,3)] no ne assms(4,5) by metis
qed

lemma tree_order_distinct:
  assumes "tree_ok d K S" "tree_order d (ndFirst (nd d x)) skip leaf = Some xs"
  shows "distinct xs \<and> (\<forall>z\<in>set xs. (z, x) \<in> (up d)\<^sup>+)"
  using assms(2)
proof (induction x arbitrary: xs rule: wf_induct_rule[OF wf_down[OF tree_okD(1)[OF assms(1)]]])
  case (1 x)
  have kid: "(y, x) \<in> up d" if "y \<in> set (K x)" for y using parent_kid[OF tree_okD(2)[OF assms(1)] that] by (simp add: up_def)
  have "distinct xs \<and> (\<forall>z\<in>set xs. \<exists>y\<in>set ys. (z, y) \<in> (up d)\<^sup>*)"
    if "K x = zs @ ys" "tree_order d (hd_opt ys) skip leaf = Some xs" for zs ys xs
    using that
  proof (induction ys arbitrary: zs xs)
    case Nil
    then show ?case by (simp add: tree_order.simps)
  next
    case (Cons y ys)
    have n: "ndNext (nd d y) = hd_opt ys"
      using is_list_next lists_kids[OF tree_okD(1)[OF assms(1)], of x] unfolding Cons.prems(1) by blast
    have yx: "(y, x) \<in> down d K S" using Cons.prems(1) by (simp add: down_def)
    obtain us vs where xs: "xs = us @ vs" and vs: "tree_order d (hd_opt ys) skip leaf = Some vs"
      and us: "us = [] \<or> us = [y] \<or> (\<exists>ws. us = y # ws \<and> tree_order d (ndFirst (nd d y)) skip leaf = Some ws)"
      using Cons.prems(2) by (subst (asm) tree_order.simps) (auto simp: n split: if_splits bind_splits)
    have V: "distinct vs" "\<forall>z\<in>set vs. \<exists>y\<in>set ys. (z, y) \<in> (up d)\<^sup>*" using Cons.IH[of "zs @ [y]" vs] Cons.prems(1) vs by auto
    have "(y, y) \<notin> (up d)\<^sup>+" using up_acyclic[OF assms(1)] by (auto simp: acyclic_def)
    moreover have "distinct ws \<and> (\<forall>z\<in>set ws. (z, y) \<in> (up d)\<^sup>+ \<and> (z, y) \<in> (up d)\<^sup>*)"
      if "tree_order d (ndFirst (nd d y)) skip leaf = Some ws" for ws using 1(1)[OF yx that] by (simp add: trancl_into_rtrancl)
    ultimately have U: "distinct us" "\<forall>z\<in>set us. (z, y) \<in> (up d)\<^sup>*" using us by (elim disjE exE, auto)+
    have "distinct (K x)" using lists_kids[OF tree_okD(1)[OF assms(1)], of x] by (simp add: is_list_def)
    then have y: "y \<notin> set ys" using Cons.prems(1) by simp
    have "set us \<inter> set vs = {}"
    proof (rule ccontr)
      assume "set us \<inter> set vs \<noteq> {}"
      then obtain z y' where z: "(z, y) \<in> (up d)\<^sup>*" "y' \<in> set ys" "(z, y') \<in> (up d)\<^sup>*" using U(2) V(2) by blast
      have "y = y'" by (rule siblings_apart[OF assms(1) z(1,3) kid kid]) (use z(2) Cons.prems(1) in auto)
      then show False using y z(2) by simp
    qed
    then show ?case using xs U V by auto
  qed
  from this[of "[]" "K x" xs] 1(2) first_kid[OF tree_okD(1)[OF assms(1)], of x]
  have "distinct xs" "\<forall>z\<in>set xs. \<exists>y\<in>set (K x). (z, y) \<in> (up d)\<^sup>*" by auto
  then show ?case using kid by (meson rtrancl_into_trancl1)
qed

lemma select_options_distinct:
  assumes "tree_ok d K S" "select_options d s = Some os"
  shows "distinct os" "\<forall>x\<in>set os. ndData (nd d x) = ''option''"
  using assms(2) tree_order_distinct[OF assms(1)] by (auto simp: select_options_def split: if_splits)

end
