(* ===== verification/Dom_Select.thy ===== *)
theory Dom_Select
  imports Dom_Queries
begin

text \<open>
  The selectedness of the options of a select element. \<open>chosen\<close> is the state a read of an option
  finds, the initial one taken from the attribute included; \<open>picked\<close> is the specification of the
  reset algorithm: the last selected option, else the first one that is not disabled.
\<close>

definition chosen :: "dom \<Rightarrow> addr \<Rightarrow> bool" where
  "chosen d x = (if ndOptInit (nd d x) then ndOptSelected (nd d x) else has_attribute (nd d x) ''selected'')"

definition picked :: "dom \<Rightarrow> addr \<Rightarrow> addr list \<Rightarrow> addr option" where
  "picked d s os =
     (let sel = filter (chosen d) os
      in if sel \<noteq> [] then Some (last sel)
         else if \<not> ndSelectNone (nd d s) \<and> select_display_size (nd d s) = 1
         then List.find (\<lambda>x. option_disabled d x = Some False) os else None)"

subsection \<open>Reading changes no state\<close>

definition same_states :: "dom \<Rightarrow> dom \<Rightarrow> bool" where
  "same_states d d' \<longleftrightarrow> same_links d d' \<and> (\<forall>x. ndData (nd d' x) = ndData (nd d x) \<and> ndAttr (nd d' x) = ndAttr (nd d x)
     \<and> ndSelectNone (nd d' x) = ndSelectNone (nd d x) \<and> chosen d' x = chosen d x)"

lemma same_statesD:
  assumes "same_states d d'"
  shows "same_links d d'" "ndData (nd d' x) = ndData (nd d x)" "ndAttr (nd d' x) = ndAttr (nd d x)"
    "ndSelectNone (nd d' x) = ndSelectNone (nd d x)" "chosen d' x = chosen d x"
    "has_attribute (nd d' x) a = has_attribute (nd d x) a" "ndParent (nd d' x) = ndParent (nd d x)"
  using assms by (auto simp: same_states_def has_attribute_def same_linksD)

lemma same_states_refl [simp]: "same_states d d"
  by (simp add: same_states_def)

lemma same_states_trans [trans]: "same_states d e \<Longrightarrow> same_states e f \<Longrightarrow> same_states d f"
  by (auto simp: same_states_def intro: same_links_trans)

lemma read_option: "ndData (nd d x) = ''option'' \<Longrightarrow> fst (option_selected x d) = chosen d x"
  by (simp add: option_selected_def upd_node_def init_selectedness_def chosen_def)

lemma read_same: "same_states d (snd (option_selected x d))"
proof -
  have "same_links d (snd (option_selected x d))" by (rule option_selected_same)
  then show ?thesis
    by (auto simp: same_states_def option_selected_def upd_node_def init_selectedness_def chosen_def has_attribute_def)
qed

lemma disabled_up_same:
  assumes "tree_ok d K S" "same_states d d'"
  shows "disabled_up d' (Some x) = disabled_up d (Some x)"
proof (induction x rule: wf_induct[OF wf_up[OF tree_okD(1)[OF assms(1)]]])
  case (1 x)
  have "disabled_up d' (ndParent (nd d x)) = disabled_up d (ndParent (nd d x))"
  proof (cases "ndParent (nd d x)")
    case None
    then show ?thesis by (simp add: disabled_up.simps)
  next
    case (Some p)
    then show ?thesis using 1 parent_down[OF tree_okD(2)[OF assms(1)] Some] by simp
  qed
  then show ?case by (subst (1 2) disabled_up.simps) (simp add: same_statesD[OF assms(2)])
qed

lemma option_disabled_same:
  assumes "tree_ok d K S" "same_states d d'"
  shows "option_disabled d' x = option_disabled d x"
proof -
  have "disabled_up d' (ndParent (nd d x)) = disabled_up d (ndParent (nd d x))"
    using disabled_up_same[OF assms] by (cases "ndParent (nd d x)") (auto simp: disabled_up.simps[of _ None])
  then show ?thesis by (simp add: option_disabled_def same_statesD[OF assms(2)])
qed

subsection \<open>The pass over the options\<close>

definition last_index :: "('a \<Rightarrow> bool) \<Rightarrow> 'a list \<Rightarrow> nat \<Rightarrow> int \<Rightarrow> int" where
  "last_index P os i l = fold (\<lambda>(j, x) l. if P x then int j else l) (List.enumerate i os) l"

definition first_index :: "('a \<Rightarrow> bool) \<Rightarrow> 'a list \<Rightarrow> nat \<Rightarrow> int \<Rightarrow> int" where
  "first_index P os i l = fold (\<lambda>(j, x) l. if l < 0 \<and> P x then int j else l) (List.enumerate i os) l"

lemma scan_finds:
  assumes "tree_ok d K S" "same_states d e" "\<forall>x\<in>set os. ndData (nd d x) = ''option''"
  shows "\<exists>e'. fold_opt scan_option (List.enumerate i os) (l, f, e)
    = Some (last_index (chosen d) os i l, first_index (\<lambda>x. option_disabled d x = Some False) os i f, e') \<and> same_states d e'"
  using assms(2,3)
proof (induction os arbitrary: i l f e)
  case (Cons x os)
  obtain b where b: "option_disabled d x = Some b" using option_disabled_returns[OF assms(1)] by blast
  have e: "option_disabled e x = Some b" using option_disabled_same[OF assms(1) Cons.prems(1)] b by simp
  have r: "fst (option_selected x e) = chosen d x" using read_option[of e x] Cons.prems by (simp add: same_statesD)
  let ?e = "snd (option_selected x e)"
  have s: "same_states d ?e" by (rule same_states_trans[OF Cons.prems(1) read_same])
  have "scan_option (i, x) (l, f, e) = Some (if chosen d x then int i else l, if f < 0 \<and> \<not> b then int i else f, ?e)"
    by (simp add: scan_option_def e case_prod_beta r)
  then show ?case using Cons.IH[OF s, of "Suc i"] Cons.prems(2) b by (simp add: last_index_def first_index_def)
qed (simp add: last_index_def first_index_def)

lemma last_index_value:
  "(filter P os = [] \<longrightarrow> last_index P os i l = l)
    \<and> (filter P os \<noteq> [] \<longrightarrow> (\<exists>j<length os. last_index P os i l = int (i + j) \<and> os ! j = last (filter P os)))"
proof (induction os arbitrary: i l)
  case (Cons x os)
  have step: "last_index P (x # os) i l = last_index P os (Suc i) (if P x then int i else l)" by (simp add: last_index_def)
  show ?case
  proof (cases "filter P os = []")
    case True
    then show ?thesis using Cons.IH[of "Suc i"] unfolding step by auto
  next
    case False
    then obtain j where "j < length os" "last_index P os (Suc i) (if P x then int i else l) = int (Suc i + j)" "os ! j = last (filter P os)"
      using Cons.IH[of "Suc i"] by blast
    then show ?thesis using False unfolding step by (auto intro!: exI[of _ "Suc j"])
  qed
qed (simp add: last_index_def)

lemma first_index_old: "0 \<le> f \<Longrightarrow> first_index P os i f = f"
  by (induction os arbitrary: i) (auto simp: first_index_def)

lemma first_index_value:
  assumes "f < 0"
  shows "case List.find P os of None \<Rightarrow> first_index P os i f = f | Some x \<Rightarrow> \<exists>j<length os. first_index P os i f = int (i + j) \<and> os ! j = x"
proof (induction os arbitrary: i)
  case (Cons x os)
  have step: "first_index P (x # os) i f = first_index P os (Suc i) (if P x then int i else f)" using assms by (simp add: first_index_def)
  show ?case
  proof (cases "P x")
    case True
    then show ?thesis unfolding step by (auto simp: first_index_old intro!: exI[of _ 0])
  next
    case False
    show ?thesis
    proof (cases "List.find P os")
      case None
      then show ?thesis using False Cons.IH[of "Suc i"] unfolding step by simp
    next
      case (Some y)
      then obtain j where "j < length os" "first_index P os (Suc i) f = int (Suc i + j)" "os ! j = y" using Cons.IH[of "Suc i"] by auto
      then show ?thesis using False Some unfolding step by (auto intro!: exI[of _ "Suc j"])
    qed
  qed
qed (simp add: first_index_def)

text \<open>Writing the result back selects the option at the index and no other.\<close>

lemma set_state:
  assumes "ndData (nd d x) = ''option''"
  shows "nd (set_option_selectedness x b d) y = (if y = x then (nd d x)\<lparr>ndOptSelected := b, ndOptInit := True\<rparr> else nd d y)"
  using assms by (simp add: set_option_selectedness_def upd_node_def)

lemma write_back:
  fixes Q :: "nat \<Rightarrow> bool" and i :: nat
  assumes "distinct os" "\<forall>x\<in>set os. ndData (nd d x) = ''option''"
  defines "d' \<equiv> fold (\<lambda>(j, x) d. set_option_selectedness x (Q j) d) (List.enumerate i os) d"
  shows "(\<forall>j<length os. ndOptInit (nd d' (os ! j)) \<and> ndOptSelected (nd d' (os ! j)) = Q (i + j))
    \<and> (\<forall>y. y \<notin> set os \<longrightarrow> nd d' y = nd d y)"
  using assms(1,2) unfolding d'_def
proof (induction os arbitrary: i d)
  case (Cons x os)
  let ?d = "set_option_selectedness x (Q i) d"
  have x: "ndData (nd d x) = ''option''" using Cons.prems by simp
  have "\<forall>y\<in>set os. ndData (nd ?d y) = ''option''" using Cons.prems by (simp add: set_state[OF x])
  note IH = Cons.IH[OF _ this, of "Suc i"]
  have "x \<notin> set os" using Cons.prems by simp
  then show ?case using IH Cons.prems(1) by (auto simp: set_state[OF x] nth_Cons split: nat.split)
qed simp

subsection \<open>Properties\<close>

text \<open>
  Normalising a single select returns, changes no link of the tree, and leaves every
  option of the select with its state fixed and exactly the picked one selected: the last that
  was selected, or, when none was and the select is a drop-down box that has not been emptied by
  script, the first option that is not disabled.
\<close>

theorem normalize_picks_one:
  assumes "wf_dom d" "ndData (nd d s) = ''select''" "\<not> has_attribute (nd d s) ''multiple''" "select_options d s = Some os"
  shows "\<exists>d'. normalize_select s d = Some d' \<and> wf_dom d' \<and> kids d' = kids d
    \<and> (\<forall>y\<in>set os. ndOptInit (nd d' y) \<and> (ndOptSelected (nd d' y) \<longleftrightarrow> picked d s os = Some y))"
proof -
  note ok = wf_tree[OF assms(1)]
  note dist = select_options_distinct(1)[OF ok assms(4)] and opts = select_options_distinct(2)[OF ok assms(4)]
  let ?P = "chosen d" and ?D = "\<lambda>x. option_disabled d x = Some False"
  define l where "l = last_index ?P os 0 (- 1)"
  define f where "f = first_index ?D os 0 (- 1)"
  obtain e where e: "fold_opt scan_option (List.enumerate 0 os) (- 1, - 1, d) = Some (l, f, e)" "same_states d e"
    using scan_finds[OF ok same_states_refl opts, of 0 "- 1" "- 1"] by (auto simp: l_def f_def)
  define m where "m = (if l < 0 \<and> \<not> ndSelectNone (nd e s) \<and> select_display_size (nd e s) = 1 then f else l)"
  define d' where "d' = fold (\<lambda>(i, x) d. set_option_selectedness x (int i = m \<and> m \<ge> 0) d) (List.enumerate 0 os) e"
  have norm: "normalize_select s d = Some d'" using assms(2-4) e(1) by (simp add: normalize_select_def d'_def m_def Let_def)
  have size: "select_display_size (nd e s) = select_display_size (nd d s)" "ndSelectNone (nd e s) = ndSelectNone (nd d s)"
    using same_statesD[OF e(2)] by (simp_all add: select_display_size_def get_attribute_def)
  have m: "(m < 0 \<and> picked d s os = None) \<or> (\<exists>j<length os. m = int j \<and> picked d s os = Some (os ! j))"
  proof (cases "filter ?P os = []")
    case False
    then have "m = l" "\<exists>j<length os. l = int j \<and> os ! j = last (filter ?P os)"
      using last_index_value[of ?P os 0 "- 1"] by (auto simp: l_def m_def)
    then show ?thesis using False by (auto simp: picked_def)
  next
    case True
    then have "l = - 1" using last_index_value[of ?P os 0 "- 1"] by (simp add: l_def)
    moreover have "case List.find ?D os of None \<Rightarrow> f = - 1 | Some x \<Rightarrow> \<exists>j<length os. f = int j \<and> os ! j = x"
      using first_index_value[of "- 1" ?D os 0] by (simp add: f_def cong: option.case_cong)
    ultimately show ?thesis using True by (auto simp: m_def size picked_def split: option.splits)
  qed
  have opts_e: "\<forall>x\<in>set os. ndData (nd e x) = ''option''" using opts same_statesD(2)[OF e(2)] by simp
  note w = write_back[OF dist opts_e, of "\<lambda>j. int j = m \<and> m \<ge> 0" 0, folded d'_def]
  have "ndOptInit (nd d' y) \<and> (ndOptSelected (nd d' y) \<longleftrightarrow> picked d s os = Some y)" if y: "y \<in> set os" for y
  proof -
    obtain k where k: "k < length os" "y = os ! k" using y by (auto simp: in_set_conv_nth)
    have wk: "ndOptInit (nd d' y) \<and> ndOptSelected (nd d' y) = (int k = m \<and> m \<ge> 0)" using w k by simp
    from m show ?thesis
    proof (elim disjE exE conjE)
      fix j assume j: "j < length os" "m = int j" "picked d s os = Some (os ! j)"
      then show ?thesis using wk nth_eq_iff_index_eq[OF dist j(1) k(1)] unfolding k(2) by auto
    qed (use wk in auto)
  qed
  moreover obtain d'' where "normalize_select s d = Some d''" "same_links d d''" using normalize_select_quiet[OF ok] by blast
  then have "tree_ok d' (kids d) (shadow_kids d)" using same_links_tree ok norm by simp
  ultimately show ?thesis using norm tree_wf tree_reads(1) by blast
qed

text \<open>A select 0 with options 1 and 2, both marked selected in the markup.\<close>

definition select_tree :: dom where
  "select_tree = small_tree\<lparr>dmNode := (\<lambda>x. if x = 0 then (nd small_tree x)\<lparr>ndData := ''select''\<rparr>
     else if x = 1 \<or> x = 2 then (nd small_tree x)\<lparr>ndData := ''option'', ndAttr := [(''selected'', [])]\<rparr> else nd small_tree x)\<rparr>"

lemma select_tree_ok: "tree_ok select_tree ((\<lambda>_. [])(0 := [1, 2], 4 := [5])) (\<lambda>_. [])"
  by (rule same_links_tree[OF _ small_tree_ok]) (simp add: same_links_def select_tree_def links_of_node_def)

theorem normalize_picks_one_witness:
  "\<exists>d'. normalize_select 0 select_tree = Some d' \<and> \<not> ndOptSelected (nd d' 1) \<and> ndOptSelected (nd d' 2)"
proof -
  note f = select_tree_def small_tree_def small_node_def zero_node_def
  note t = tree_order.simps[of select_tree]
  have n: "nd select_tree 0 = (small_node 0)\<lparr>ndFirst := Some 1, ndLast := Some 2, ndData := ''select''\<rparr>"
    "nd select_tree 1 = (small_node 1)\<lparr>ndParent := Some 0, ndNext := Some 2, ndData := ''option'', ndAttr := [(''selected'', [])]\<rparr>"
    "nd select_tree 2 = (small_node 2)\<lparr>ndParent := Some 0, ndPrev := Some 1, ndData := ''option'', ndAttr := [(''selected'', [])]\<rparr>"
    by (simp_all add: select_tree_def small_tree_def)
  let ?skip = "\<lambda>n. ndData n = ''select''" and ?leaf = "\<lambda>_::node. False"
  have 0: "tree_order select_tree None ?skip ?leaf = Some []" by (simp add: t)
  have 2: "tree_order select_tree (Some 2) ?skip ?leaf = Some [2]" by (subst t) (simp add: n 0 small_node_def zero_node_def)
  have 1: "tree_order select_tree (Some 1) ?skip ?leaf = Some [1, 2]" by (subst t) (simp add: n(2)[unfolded One_nat_def] 0 2 small_node_def zero_node_def)
  have os: "select_options select_tree 0 = Some [1, 2]" by (simp add: select_options_def n n(2)[unfolded One_nat_def] 1[unfolded One_nat_def] small_node_def zero_node_def)
  have "picked select_tree 0 [1, 2] = Some 2"
    by (simp add: picked_def chosen_def n n(2)[unfolded One_nat_def] has_attribute_def small_node_def zero_node_def)
  moreover have "ndData (nd select_tree 0) = ''select''" "\<not> has_attribute (nd select_tree 0) ''multiple''"
    by (simp_all add: n has_attribute_def small_node_def zero_node_def)
  ultimately show ?thesis using normalize_picks_one[OF tree_wf[OF select_tree_ok], of 0 "[1, 2]"] os by auto
qed

end
