(* ===== verification/Dom_Shadow.thy ===== *)
theory Dom_Shadow
  imports Dom_Select
begin

text \<open>
  Appending to a shadow root. The children of a shadow root keep the host as their parent, so
  the host has two lists under one parent pointer; \<open>ShadowRoot.AppendChild\<close> takes its child out
  of the light one only.
\<close>

lemma link_last_shadow_fields:
  assumes "l = shadow_tail (nd e n)" "ndShadow (nd e n) \<noteq> None"
  shows "ndNext (nd (link_last_shadow n c e) x) = (if l = Some x then Some c else ndNext (nd e x))"
    "ndPrev (nd (link_last_shadow n c e) x) = (if l \<noteq> None \<and> x = c then l else ndPrev (nd e x))"
    "shadow_head (nd (link_last_shadow n c e) x) = (if x = n \<and> l = None then Some c else shadow_head (nd e x))"
    "shadow_tail (nd (link_last_shadow n c e) x) = (if x = n then Some c else shadow_tail (nd e x))"
    "ndFirst (nd (link_last_shadow n c e) x) = ndFirst (nd e x)" "ndLast (nd (link_last_shadow n c e) x) = ndLast (nd e x)"
    "ndParent (nd (link_last_shadow n c e) x) = ndParent (nd e x)"
    "ndTemplate (nd (link_last_shadow n c e) x) = ndTemplate (nd e x)" "dmFresh (link_last_shadow n c e) = dmFresh e"
    "(ndShadow (nd (link_last_shadow n c e) x) = None) = (ndShadow (nd e x) = None)"
  using assms by (cases l; auto simp: link_last_shadow_def set_shadow_def upd_node_def shadow_head_def shadow_tail_def split: option.splits)+

lemma down_insert_shadow:
  assumes "lists_ok d K S" "set ks = insert c (set (S n))" "(n, c) \<notin> (down d K S)\<^sup>*" "\<And>x. ndTemplate (nd e x) = ndTemplate (nd d x)"
  shows "down e K (S(n := ks)) = insert (c, n) (down d K S)" "finite (down e K (S(n := ks)))" "acyclic (down e K (S(n := ks)))"
proof -
  show d: "down e K (S(n := ks)) = insert (c, n) (down d K S)"
    using assms(2,4) by (auto simp: down_def split: if_splits)
  show "finite (down e K (S(n := ks)))" "acyclic (down e K (S(n := ks)))"
    using assms(1,3) unfolding d by (auto simp: lists_ok_def acyclic_insert)
qed

lemma append_shadow_tree:
  assumes ok: "tree_ok d K S" and orphan: "ndParent (nd d c) = None" and out: "(n, c) \<notin> (down d K S)\<^sup>*"
    and alive: "c < dmFresh d" and sh: "ndShadow (nd d n) \<noteq> None" and e: "same_links (set_parent c n d) e"
  shows "reshapes d K S {(c, n)} (link_last_shadow n c e) K (S(n := S n @ [c]))"
proof -
  note L = tree_okD(1)[OF ok] and P = tree_okD(2)[OF ok] and F = tree_okD(3)[OF ok]
  note s = same_linksD[OF e, unfolded set_parent_fields] and O = orphan_apart[OF ok orphan]
  let ?d = "link_last_shadow n c e" and ?S = "S(n := S n @ [c])"
  have list: "is_list d (shadow_head (nd d n)) (shadow_tail (nd d n)) (S n)" by (rule lists_shadow[OF L])
  have heads: "shadow_head (nd e x) = shadow_head (nd d x)" "shadow_tail (nd e x) = shadow_tail (nd d x)" for x
    by (simp_all add: shadow_head_def shadow_tail_def s)
  have l: "last_opt (S n) = shadow_tail (nd e n)" using list by (simp add: is_list_def heads)
  have "ndShadow (nd e n) \<noteq> None" using sh by (simp add: s)
  note f = link_last_shadow_fields[OF l this, of c, unfolded s heads]
  have keep: "ndNext (nd ?d j) = ndNext (nd d j) \<and> ndPrev (nd ?d j) = ndPrev (nd d j)" if "j \<noteq> c" "j \<notin> set (S n)" for j
    using that by (auto simp: f dest: last_opt_Some)
  have other: "j \<noteq> c \<and> j \<notin> set (S n)" if "x \<noteq> n \<and> j \<in> set (S x) \<or> j \<in> set (K x)" for x j
    using that O one_shadow_place[OF P, of j n x] by auto
  have "is_list ?d (ndFirst (nd ?d x)) (ndLast (nd ?d x)) (K x)" for x
  proof -
    have "is_list d (ndFirst (nd ?d x)) (ndLast (nd ?d x)) (K x)" using lists_kids[OF L, of x] by (simp add: f)
    moreover have "\<forall>j\<in>set (K x). ndNext (nd ?d j) = ndNext (nd d j) \<and> ndPrev (nd ?d j) = ndPrev (nd d j)" using keep other[of x] by blast
    ultimately show ?thesis by (rule is_list_frame)
  qed
  moreover have "is_list ?d (shadow_head (nd ?d x)) (shadow_tail (nd ?d x)) (?S x)" for x
  proof (cases "x = n")
    case True
    have "is_list ?d (shadow_head (nd ?d n)) (shadow_tail (nd ?d n)) (S n @ [c])"
      using O by (intro is_list_append[OF list]) (auto simp: f dest: last_opt_Some)
    then show ?thesis using True by simp
  next
    case False
    have "is_list d (shadow_head (nd ?d x)) (shadow_tail (nd ?d x)) (S x)" using lists_shadow[OF L, of x] False by (simp add: f)
    moreover have "\<forall>j\<in>set (S x). ndNext (nd ?d j) = ndNext (nd d j) \<and> ndPrev (nd ?d j) = ndPrev (nd d j)" using keep other[of x] False by blast
    ultimately have "is_list ?d (shadow_head (nd ?d x)) (shadow_tail (nd ?d x)) (S x)" by (rule is_list_frame)
    then show ?thesis using False by simp
  qed
  moreover have "set (S n @ [c]) = insert c (set (S n))" by simp
  note D = down_insert_shadow[OF L this out f(8)]
  ultimately have "lists_ok ?d K ?S" by (simp add: lists_ok_def D)
  moreover have "ndParent (nd ?d j) = Some x \<longleftrightarrow> j \<in> set (K x) \<or> j \<in> set (?S x)" for x j
    using P O by (auto simp: f parents_ok_def)
  moreover have "set (K x) \<inter> set (?S x) = {}" for x using P O by (auto simp: parents_ok_def)
  moreover have "ndNext (nd ?d j) = None \<and> ndPrev (nd ?d j) = None" if j: "ndParent (nd ?d j) = None" for j
  proof -
    have "j \<noteq> c" "ndParent (nd d j) = None" using j by (auto simp: f split: if_splits)
    then show ?thesis using keep[of j] orphan_apart[OF ok, of j] by simp
  qed
  moreover have "fresh_ok ?d"
    unfolding fresh_ok_def
  proof (intro allI impI)
    fix x assume "dmFresh ?d \<le> x"
    then have x: "dmFresh d \<le> x" using s(8) by (simp add: f)
    have b: "blank_links (nd d x)" using F x by (simp add: fresh_ok_def)
    have "x \<noteq> n" using sh b by (auto simp: blank_links_def)
    moreover have "x \<noteq> c" using x alive by auto
    moreover have "x \<notin> set (S n)" using blank_not_kid[OF ok x] parent_shadow_kid[OF P] by auto
    moreover have "ndShadow (nd ?d x) = None" using b f(10)[of x] by (simp add: blank_links_def)
    ultimately show "blank_links (nd ?d x)" using b keep[of x] by (simp add: blank_links_def f)
  qed
  ultimately show ?thesis using D s(8) by (simp add: reshapes_def tree_ok_def parents_ok_def f)
qed

lemma shadow_append_tree:
  assumes ok: "tree_ok d K S" and "(n, c) \<notin> (down d K S)\<^sup>*" "c < dmFresh d" "ndShadow (nd d n) \<noteq> None" "\<forall>x. c \<notin> set (S x)"
  shows "\<exists>d'. shadow_append pick n c d = Some d' \<and> tree_ok d' (drop_from c K) (S(n := S n @ [c]))"
proof -
  let ?K = "drop_from c K" and ?S = S
  have S: "drop_from c ?S = ?S" using assms(5) by (simp add: drop_absent)
  have "\<exists>d1. (case ndParent (nd d c) of None \<Rightarrow> Some d | Some p \<Rightarrow> remove_child pick p c d) = Some d1
    \<and> reshapes d K ?S {} d1 ?K ?S \<and> ndParent (nd d1 c) = None \<and> ndShadow (nd d1 n) \<noteq> None"
  proof (cases "ndParent (nd d c)")
    case None
    have "?K = K" using orphan_apart(1)[OF ok None] by (simp add: drop_absent)
    then show ?thesis using None ok assms(4) by (simp add: reshapes_same)
  next
    case (Some p)
    then have "c \<in> set (K p)" using tree_okD(2)[OF ok] assms(5) by (auto simp: parents_ok_def)
    from remove_child_reshapes[OF ok this]
    obtain d1 where "remove_child pick p c d = Some d1" "ndParent (nd d1 c) = None" and r: "reshapes d K ?S {} d1 ?K ?S"
      unfolding S by blast
    then show ?thesis using reshapesD(4)[OF r, of n] Some assms(4) by auto
  qed
  then obtain d1 where 1: "(case ndParent (nd d c) of None \<Rightarrow> Some d | Some p \<Rightarrow> remove_child pick p c d) = Some d1"
    "reshapes d K ?S {} d1 ?K ?S" "ndParent (nd d1 c) = None" "ndShadow (nd d1 n) \<noteq> None" by blast
  note ok1 = reshapesD(1)[OF 1(2)]
  have out1: "(n, c) \<notin> (down d1 ?K ?S)\<^sup>*"
    using assms(2) rtrancl_mono[of "down d1 ?K ?S" "down d K ?S"] reshapesD(2)[OF 1(2)] by auto
  have alive1: "c < dmFresh d1" using assms(3) reshapesD(3)[OF 1(2)] by simp
  obtain e where e: "enter_document n c (set_parent c n d1) = Some e" "same_links (set_parent c n d1) e"
    using enter_document_quiet[OF set_parent_lists[OF tree_okD(1)[OF ok1]] set_parent_fresh[OF tree_okD(3)[OF ok1] alive1]] by blast
  have 2: "reshapes d1 ?K ?S {(c, n)} (link_last_shadow n c e) ?K (?S(n := ?S n @ [c]))"
    by (rule append_shadow_tree[OF ok1 1(3) out1 alive1 1(4) e(2)])
  let ?l = "link_last_shadow n c e"
  define d' where "d' = (let k = ndDoc (nd ?l n); f = mark_query_dirty k ?l; old = ndDoc (nd d1 c)
    in if old \<noteq> None \<and> old \<noteq> k then mark_query_dirty old f else f)"
  have "same_links ?l d'" by (auto simp: d'_def Let_def intro: same_links_trans[OF mark_dirty_same mark_dirty_same])
  then have "reshapes d1 ?K ?S {(c, n)} d' ?K (?S(n := ?S n @ [c]))" by (rule reshapes_quiet[OF 2])
  moreover have "shadow_append pick n c d = Some d'" using 1(1) e(1) by (simp add: shadow_append_def d'_def Let_def)
  ultimately show ?thesis using reshapesD(1) by blast
qed

text \<open>
  Appending to a shadow root a node from outside every shadow tree, not one the host
  lies inside of, returns and leaves a well-formed tree with the node last in that shadow root
  and in no list of children.
\<close>

theorem shadow_append_places:
  assumes "wf_dom d" "\<not> nested d n c" "c < dmFresh d" "ndShadow (nd d n) \<noteq> None" "\<forall>x. c \<notin> set (shadow_kids d x)"
  shows "\<exists>d'. shadow_append pick n c d = Some d' \<and> wf_dom d' \<and> kids d' = drop_from c (kids d)
    \<and> shadow_kids d' = (shadow_kids d)(n := shadow_kids d n @ [c])"
proof -
  obtain d' where "shadow_append pick n c d = Some d'" and ok: "tree_ok d' (drop_from c (kids d)) ((shadow_kids d)(n := shadow_kids d n @ [c]))"
    using shadow_append_tree[OF wf_tree[OF assms(1)] _ assms(3-5)] assms(2) unfolding nested_def by blast
  then show ?thesis using tree_wf[OF ok] tree_reads[OF ok] by blast
qed

text \<open>A host with an empty shadow root.\<close>

lemma attach_shadow_tree:
  assumes ok: "tree_ok d K S" and "ndShadow (nd d n) = None" "n < dmFresh d"
  shows "tree_ok (attach_shadow n d) K S"
proof -
  let ?d = "attach_shadow n d"
  have f: "ndParent (nd ?d x) = ndParent (nd d x)" "ndFirst (nd ?d x) = ndFirst (nd d x)" "ndLast (nd ?d x) = ndLast (nd d x)"
    "ndNext (nd ?d x) = ndNext (nd d x)" "ndPrev (nd ?d x) = ndPrev (nd d x)" "ndTemplate (nd ?d x) = ndTemplate (nd d x)"
    "shadow_head (nd ?d x) = shadow_head (nd d x)" "shadow_tail (nd ?d x) = shadow_tail (nd d x)" "dmFresh ?d = dmFresh d"
    "x \<noteq> n \<Longrightarrow> ndShadow (nd ?d x) = ndShadow (nd d x)" for x
    using assms(2) by (simp_all add: attach_shadow_def upd_node_def shadow_head_def shadow_tail_def)
  have "lists_ok ?d K S" using tree_okD(1)[OF ok] by (auto simp: lists_ok_def f down_def intro: is_list_frame)
  moreover have "parents_ok ?d K S" using tree_okD(2)[OF ok] by (simp add: parents_ok_def f)
  moreover have "blank_links (nd ?d x)" if x: "dmFresh ?d \<le> x" for x
  proof -
    have "x \<noteq> n" "blank_links (nd d x)" using x assms(3) tree_okD(3)[OF ok] by (auto simp: f fresh_ok_def)
    then show ?thesis by (simp add: blank_links_def f)
  qed
  ultimately show ?thesis by (simp add: tree_ok_def fresh_ok_def)
qed

theorem shadow_append_places_witness:
  "\<exists>d'. shadow_append rev 0 1 (attach_shadow 0 small_tree) = Some d' \<and> kids d' 0 = [2] \<and> shadow_kids d' 0 = [1]"
proof -
  let ?d = "attach_shadow 0 small_tree"
  have "tree_ok ?d ((\<lambda>_. [])(0 := [1, 2], 4 := [5])) (\<lambda>_. [])"
    by (rule attach_shadow_tree[OF small_tree_ok]) (simp_all add: small_tree_def small_node_def zero_node_def)
  note r = tree_reads[OF this] tree_wf[OF this]
  have "ndTemplate (nd ?d x) = None" for x
    by (simp add: attach_shadow_def upd_node_def small_tree_def small_node_def zero_node_def)
  then have "down ?d (kids ?d) (shadow_kids ?d) = {(1, 0), (2, 0), (5, 4)}" by (auto simp: r down_def split: if_splits)
  then have "\<not> nested ?d 0 1" by (auto simp: nested_def rtrancl_insert)
  moreover have "1 < dmFresh ?d" "ndShadow (nd ?d 0) \<noteq> None" by (simp_all add: attach_shadow_def upd_node_def small_tree_def)
  moreover have "\<forall>x. 1 \<notin> set (shadow_kids ?d x)" by (simp add: r)
  ultimately obtain d' where "shadow_append rev 0 1 ?d = Some d'" "kids d' = drop_from 1 (kids ?d)"
    "shadow_kids d' = (shadow_kids ?d)(0 := shadow_kids ?d 0 @ [1])"
    using shadow_append_places[OF r(3), of 0 1 rev] by blast
  then show ?thesis by (simp add: r)
qed

end
