(* ===== verification/Dom_Session.thy ===== *)
theory Dom_Session
  imports Dom_Shadow
begin

text \<open>
  Any sequence of tree operations. A call is allowed when its nodes exist, what it inserts does
  not hold its new parent, the reference is a child of it and the child of a shadow root is in
  none yet: what the script binding checks before it calls, and what it does not check where
  the last sections here show what happens. Allowed calls return and keep the
  store a tree, so every walk over a store the calls can reach returns.
\<close>

subsection \<open>Calls\<close>

datatype dom_call = CreateDocument | CreateElement nat string | CreateText nat string | CreateComment nat string
  | CreateCDATASection nat string | CreateProcessingInstruction nat string string | CreateDoctype nat string | CreateFragment nat
  | TemplateContent addr | AttachShadow addr | InsertNode addr addr "addr option" | RemoveChild addr addr | ReplaceNode addr addr addr
  | ShadowAppend addr addr

fun call_dom :: "(addr list \<Rightarrow> addr list) \<Rightarrow> dom_call \<Rightarrow> dom \<Rightarrow> dom option" where
  "call_dom pick CreateDocument d = Some (snd (new_document d))"
| "call_dom pick (CreateElement k tag) d = Some (snd (new_element k tag d))"
| "call_dom pick (CreateText k s) d = Some (snd (new_text k s d))"
| "call_dom pick (CreateComment k s) d = Some (snd (new_comment k s d))"
| "call_dom pick (CreateCDATASection k s) d = Some (snd (new_cdata_section k s d))"
| "call_dom pick (CreateProcessingInstruction k t s) d = Some (snd (new_processing_instruction k t s d))"
| "call_dom pick (CreateDoctype k s) d = Some (snd (new_doctype k s d))"
| "call_dom pick (CreateFragment k) d = Some (snd (new_fragment k d))"
| "call_dom pick (TemplateContent n) d = Some (snd (template_content n d))"
| "call_dom pick (AttachShadow n) d = Some (attach_shadow n d)"
| "call_dom pick (InsertNode n c ref) d = insert_node pick n c ref d"
| "call_dom pick (RemoveChild n c) d = remove_child pick n c d"
| "call_dom pick (ReplaceNode n c old) d = replace_node pick n c old d"
| "call_dom pick (ShadowAppend n c) d = shadow_append pick n c d"

fun allowed :: "dom \<Rightarrow> dom_call \<Rightarrow> bool" where
  "allowed d (TemplateContent n) \<longleftrightarrow> n < dmFresh d"
| "allowed d (AttachShadow n) \<longleftrightarrow> n < dmFresh d \<and> ndShadow (nd d n) = None"
| "allowed d (InsertNode n c ref) \<longleftrightarrow> c < dmFresh d \<and> n < dmFresh d \<and> \<not> nested d n c \<and> ref_ok d n ref"
| "allowed d (RemoveChild n c) \<longleftrightarrow> c \<in> set (kids d n)"
| "allowed d (ReplaceNode n c old) \<longleftrightarrow> c < dmFresh d \<and> old \<in> set (kids d n) \<and> \<not> nested d n c"
| "allowed d (ShadowAppend n c) \<longleftrightarrow> c < dmFresh d \<and> ndShadow (nd d n) \<noteq> None \<and> \<not> nested d n c \<and> (\<forall>x. c \<notin> set (shadow_kids d x))"
| "allowed d _ \<longleftrightarrow> True"

definition empty_dom :: dom where
  "empty_dom = \<lparr>dmNode = (\<lambda>_. zero_node), dmDoc = (\<lambda>_. \<lparr>dcNode = 0, dcNextID = 0, dcTemplate = None, dcTemplateOwner = False,
     dcQValid = False, dcXml = False\<rparr>), dmFresh = 0, dmFreshDoc = 0, dmRemovals = []\<rparr>"

inductive session :: "(addr list \<Rightarrow> addr list) \<Rightarrow> dom \<Rightarrow> bool" for pick where
  session_start: "session pick empty_dom"
| session_call: "session pick d \<Longrightarrow> allowed d c \<Longrightarrow> call_dom pick c d = Some d' \<Longrightarrow> session pick d'"

subsection \<open>Creating\<close>

lemma empty_dom_ok: "tree_ok empty_dom (\<lambda>_. []) (\<lambda>_. [])"
  by (simp add: tree_ok_def lists_ok_def parents_ok_def fresh_ok_def is_list_def down_def shadow_head_def shadow_tail_def
      empty_dom_def zero_node_def blank_links_def acyclic_def)

lemma blank_node_links: "blank_links n \<Longrightarrow> links_of_node n = links_of_node zero_node"
  by (simp add: blank_links_def links_of_node_def zero_node_def)

lemma fresh_node_same:
  assumes "fresh_ok d" "blank_links n"
  shows "same_links d (upd_node (dmFresh d) (\<lambda>_. n) (d\<lparr>dmFresh := dmFresh d + 1\<rparr>))"
  using assms blank_node_links[of n] blank_node_links[of "nd d (dmFresh d)"] by (auto simp: same_links_def upd_node_def fresh_ok_def)

lemma alloc_node_same:
  assumes "fresh_ok d" "blank_links n"
  shows "same_links d (snd (alloc_node k n d))" "fst (alloc_node k n d) = dmFresh d" "dmFresh (snd (alloc_node k n d)) = dmFresh d + 1"
proof -
  obtain i e where a: "alloc_id k d = (i, e)" by fastforce
  then have e: "same_links d e" "dmFresh e = dmFresh d" using alloc_id_same by auto
  have "same_links e (upd_node (dmFresh e) (\<lambda>_. n\<lparr>ndID := i, ndDoc := Some k\<rparr>) (e\<lparr>dmFresh := dmFresh e + 1\<rparr>))"
    by (rule fresh_node_same[OF same_links_fresh[OF e(1) assms(1)]]) (use assms(2) in \<open>simp add: blank_links_def\<close>)
  then show "same_links d (snd (alloc_node k n d))" using e by (simp add: alloc_node_def a Let_def same_links_trans)
  show "fst (alloc_node k n d) = dmFresh d" "dmFresh (snd (alloc_node k n d)) = dmFresh d + 1"
    by (simp_all add: alloc_node_def a Let_def upd_node_def e(2))
qed

lemma zero_blank [simp]: "blank_links zero_node"
  by (simp add: blank_links_def zero_node_def)

lemma create_same:
  assumes "fresh_ok d"
  shows "same_links d (snd (new_element k tag d))" "same_links d (snd (new_text k s d))" "same_links d (snd (new_comment k s d))"
    "same_links d (snd (new_cdata_section k s d))" "same_links d (snd (new_processing_instruction k tag s d))"
    "same_links d (snd (new_doctype k s d))" "same_links d (snd (new_fragment k d))"
  unfolding new_element_def new_text_def new_comment_def new_cdata_section_def new_processing_instruction_def new_doctype_def new_fragment_def
  by (rule alloc_node_same(1)[OF assms], simp add: blank_links_def zero_node_def)+

text \<open>Hanging an unused node into a template.\<close>

lemma give_template_tree:
  assumes ok: "tree_ok d K S" and t: "blank_links (nd d t)" "t \<noteq> n" and n: "n < dmFresh d" "ndTemplate (nd d n) = None"
  shows "tree_ok (upd_node n (\<lambda>r. r\<lparr>ndTemplate := Some t\<rparr>) d) K S"
proof -
  let ?d = "upd_node n (\<lambda>r. r\<lparr>ndTemplate := Some t\<rparr>) d"
  note L = tree_okD(1)[OF ok]
  have f: "ndParent (nd ?d x) = ndParent (nd d x)" "ndFirst (nd ?d x) = ndFirst (nd d x)" "ndLast (nd ?d x) = ndLast (nd d x)"
    "ndNext (nd ?d x) = ndNext (nd d x)" "ndPrev (nd ?d x) = ndPrev (nd d x)" "ndShadow (nd ?d x) = ndShadow (nd d x)"
    "ndTemplate (nd ?d x) = (if x = n then Some t else ndTemplate (nd d x))" "dmFresh ?d = dmFresh d" for x
    by (simp_all add: upd_node_def)
  have "K t = [] \<and> S t = []" using first_kid[OF L, of t] first_shadow[OF L, of t] t(1)
    by (auto simp: blank_links_def shadow_head_def eq_commute[of None])
  then have "(c, t) \<notin> down d K S" for c using t(1) by (simp add: down_def blank_links_def)
  then have "(n, t) \<notin> (down d K S)\<^sup>*" using t(2) by (auto elim: rtranclE)
  moreover have "down ?d K S = insert (t, n) (down d K S)" using n(2) by (auto simp: down_def f split: if_splits)
  ultimately have "finite (down ?d K S)" "acyclic (down ?d K S)" using L by (simp_all add: lists_ok_def acyclic_insert)
  then have "lists_ok ?d K S" using L by (auto simp: lists_ok_def shadow_head_def shadow_tail_def f intro: is_list_frame)
  moreover have "parents_ok ?d K S" using tree_okD(2)[OF ok] by (simp add: parents_ok_def f)
  moreover have "fresh_ok ?d" using tree_okD(3)[OF ok] n(1) by (auto simp: fresh_ok_def blank_links_def f)
  ultimately show ?thesis by (simp add: tree_ok_def)
qed

lemma template_content_tree:
  assumes ok: "tree_ok d K S" and n: "n < dmFresh d"
  shows "tree_ok (snd (template_content n d)) K S"
proof (cases "is_html_template (nd d n) \<and> ndTemplate (nd d n) = None")
  case False
  then have "snd (template_content n d) = d" by (auto simp: template_content_def split: option.split)
  then show ?thesis using ok by simp
next
  case True
  define r where "r = (case ndDoc (nd d n) of
      None \<Rightarrow> (dmFresh d, upd_node (dmFresh d) (\<lambda>_. zero_node\<lparr>ndType := NodeDocumentFragment\<rparr>) (d\<lparr>dmFresh := dmFresh d + 1\<rparr>))
    | Some k \<Rightarrow> (let (o', d) = template_owner_document k d in new_fragment o' d))"
  note F = tree_okD(3)[OF ok]
  have "same_links d (snd r) \<and> dmFresh d \<le> fst r \<and> fst r < dmFresh (snd r) \<and> blank_links (nd (snd r) (fst r))"
  proof (cases "ndDoc (nd d n)")
    case None
    have "blank_links (zero_node\<lparr>ndType := NodeDocumentFragment\<rparr>)" by (simp add: blank_links_def zero_node_def)
    then show ?thesis using fresh_node_same[OF F] None by (simp add: r_def) (simp add: upd_node_def)
  next
    case (Some k)
    obtain o' e where o: "template_owner_document k d = (o', e)" by fastforce
    then have s: "same_links d e" using template_owner_same[OF F, of k] by simp
    have b: "blank_links (zero_node\<lparr>ndType := NodeDocumentFragment\<rparr>)" by (simp add: blank_links_def zero_node_def)
    note a = alloc_node_same[OF same_links_fresh[OF s F] b, of o']
    have "blank_links (nd e (dmFresh e))" using same_links_fresh[OF s F] by (simp add: fresh_ok_def)
    then have "blank_links (nd (snd (alloc_node o' (zero_node\<lparr>ndType := NodeDocumentFragment\<rparr>) e)) (dmFresh e))"
      by (simp add: blank_links_def same_linksD[OF a(1)])
    then show ?thesis using Some o a s same_linksD(8)[OF s] by (simp add: r_def new_fragment_def same_links_trans)
  qed
  then have r: "same_links d (snd r)" "dmFresh d \<le> fst r" "blank_links (nd (snd r) (fst r))" by simp_all
  have "snd (template_content n d) = upd_node n (\<lambda>q. q\<lparr>ndTemplate := Some (fst r)\<rparr>) (snd r)"
    using True by (simp add: template_content_def r_def[symmetric] case_prod_beta Let_def)
  moreover have "tree_ok (upd_node n (\<lambda>q. q\<lparr>ndTemplate := Some (fst r)\<rparr>) (snd r)) K S"
    by (rule give_template_tree[OF same_links_tree[OF r(1) ok] r(3)])
      (use r(2) n True same_linksD(6,8)[OF r(1)] in \<open>auto intro: order.strict_trans2\<close>)
  ultimately show ?thesis by simp
qed

subsection \<open>Replacing by a fragment\<close>

lemma replace_fragment_tree:
  assumes ok: "tree_ok d K S" and c: "is_fragment (nd d c)" "(n, c) \<notin> (down d K S)\<^sup>*" and k: "K n = ys @ old # zs" "c \<noteq> old"
  shows "\<exists>d'. replace_node pick n c old d = Some d' \<and> tree_ok d' (K(c := [], n := ys @ K c @ zs)) S"
proof -
  note L = tree_okD(1)[OF ok]
  have kid: "old \<in> set (K n)" using k by simp
  have dist: "distinct (ys @ old # zs)" using lists_kids[OF L, of n] k(1) by (simp add: is_list_def)
  have nx: "ndNext (nd d old) = hd_opt zs" using is_list_next lists_kids[OF L, of n] unfolding k(1) by blast
  have cn: "c \<noteq> n" using c(2) by auto
  have alive: "n < dmFresh d" using kid_alive(2)[OF ok] kid by blast
  have "case hd_opt zs of None \<Rightarrow> K n = (ys @ [old]) @ zs \<and> zs = [] | Some r \<Rightarrow> zs \<noteq> [] \<and> hd zs = r \<and> K n = (ys @ [old]) @ zs"
    using k(1) by (cases zs) auto
  then have "case hd_opt zs of None \<Rightarrow> K n = ys @ [old] \<and> zs = [] | Some r \<Rightarrow> zs \<noteq> [] \<and> hd zs = r \<and> K n = (ys @ [old]) @ zs"
    by (auto split: option.splits)
  from insert_all_reshapes[OF ok c(2) alive refl cn this, of pick]
  obtain d1 where 1: "fold_opt (\<lambda>x. insert_before pick n x (hd_opt zs)) (K c) d = Some d1"
    and ok1: "tree_ok d1 (K(c := [], n := (ys @ [old]) @ K c @ zs)) S" by blast
  let ?K = "K(c := [], n := (ys @ [old]) @ K c @ zs)"
  have "old \<in> set (?K n)" by simp
  from remove_child_reshapes[OF ok1 this] obtain d2 where 2: "remove_child pick n old d1 = Some d2"
    and r: "reshapes d1 ?K S {} d2 (drop_from old ?K) (drop_from old S)" by blast
  have o: "old \<in> set (K x) \<longleftrightarrow> x = n" "old \<notin> set (S x)" for x using one_place[OF tree_okD(2)[OF ok] kid] by auto
  have "drop_from old ?K = K(c := [], n := ys @ K c @ zs)" "drop_from old S = S"
    using o dist cn by (auto simp: fun_eq_iff remove1_idem remove1_append)
  then have ok2: "tree_ok d2 (K(c := [], n := ys @ K c @ zs)) S" using reshapesD(1)[OF r] by (simp only:)
  have "replace_node pick n c old d = Some d2"
  proof (cases "K c = []")
    case True
    then have "d1 = d" using 1 by simp
    then show ?thesis using True 2 c(1) k(2) child_nodes_kids[OF L, of c] by (simp add: replace_node_def)
  next
    case False
    then show ?thesis using 1 2 c(1) k(2) child_nodes_kids[OF L, of c] nx by (simp add: replace_node_def)
  qed
  then show ?thesis using ok2 by blast
qed

subsection \<open>Properties\<close>

lemma call_keeps:
  assumes "wf_dom d" "allowed d c"
  shows "\<exists>d'. call_dom pick c d = Some d' \<and> wf_dom d'"
proof -
  note ok = wf_tree[OF assms(1)]
  note made = tree_wf[OF same_links_tree[OF _ ok]] and new = create_same[OF tree_okD(3)[OF ok]]
  show ?thesis
  proof (cases c)
    case CreateDocument
    then show ?thesis using made[OF new_document_same[OF tree_okD(3)[OF ok]]] by simp
  next
    case (TemplateContent n)
    then show ?thesis using tree_wf[OF template_content_tree[OF ok]] assms(2) by simp
  next
    case (AttachShadow n)
    then show ?thesis using tree_wf[OF attach_shadow_tree[OF ok]] assms(2) by simp
  next
    case (InsertNode n c ref)
    then have a: "c < dmFresh d" "n < dmFresh d" "(n, c) \<notin> (down d (kids d) (shadow_kids d))\<^sup>*"
      "case ref of None \<Rightarrow> True | Some r \<Rightarrow> r \<in> set (kids d n)" using assms(2) by (auto simp: nested_def ref_ok_def)
    show ?thesis
    proof (cases "is_fragment (nd d c)")
      case False
      obtain d' where "insert_before pick n c ref d = Some d'" and r: "reshapes d (kids d) (shadow_kids d) {(c, n)} d'
          (move_before n c ref (kids d)) (if ref = Some c then shadow_kids d else drop_from c (shadow_kids d))"
        by (rule insert_reshapes[OF ok a(3,1,2,4)])
      then show ?thesis using InsertNode False reshapes_reads[OF r] by (simp add: insert_node_def)
    next
      case True
      obtain ys zs where k: "kids d n = ys @ zs" and z: "ref = hd_opt zs"
      proof (cases ref)
        case None
        then show ?thesis using that[of "kids d n" "[]"] by simp
      next
        case (Some q)
        then obtain ys zs where "kids d n = ys @ q # zs" using a(4) by (auto dest: split_list)
        then show ?thesis using that[of ys "q # zs"] Some by simp
      qed
      have "c \<noteq> n" using a(3) by auto
      moreover have "case ref of None \<Rightarrow> kids d n = ys \<and> zs = [] | Some r \<Rightarrow> zs \<noteq> [] \<and> hd zs = r \<and> kids d n = ys @ zs"
        using k z by (cases zs) auto
      ultimately obtain d' where 1: "fold_opt (\<lambda>x. insert_before pick n x ref) (kids d c) d = Some d'"
        and 2: "tree_ok d' ((kids d)(c := [], n := ys @ kids d c @ zs)) (shadow_kids d)"
        using insert_all_reshapes[OF ok a(3,2) refl] by blast
      then show ?thesis using InsertNode True tree_wf[OF 2] child_nodes_kids[OF tree_okD(1)[OF ok], of c]
        by (simp add: insert_node_def)
    qed
  next
    case (RemoveChild n c)
    then have "c \<in> set (kids d n)" using assms(2) by simp
    from remove_child_reshapes[OF ok this] obtain d' where "remove_child pick n c d = Some d'"
      and r: "reshapes d (kids d) (shadow_kids d) {} d' (drop_from c (kids d)) (drop_from c (shadow_kids d))" by blast
    then show ?thesis using RemoveChild reshapes_reads[OF r] by simp
  next
    case (ReplaceNode n c old)
    then have a: "c < dmFresh d" "old \<in> set (kids d n)" "(n, c) \<notin> (down d (kids d) (shadow_kids d))\<^sup>*" using assms(2) by (auto simp: nested_def)
    obtain ys zs where k: "kids d n = ys @ old # zs" using a(2) by (auto dest: split_list)
    consider "c = old" | "c \<noteq> old" "is_fragment (nd d c)" | "c \<noteq> old" "\<not> is_fragment (nd d c)" by blast
    then have "\<exists>d' K' S'. replace_node pick n c old d = Some d' \<and> tree_ok d' K' S'"
    proof cases
      case 1
      then show ?thesis using ok by (auto simp: replace_node_def)
    next
      case 2
      then show ?thesis using replace_fragment_tree[OF ok 2(2) a(3) k 2(1)] by blast
    next
      case 3
      then show ?thesis using replace_node_tree[OF ok 3(2) a(3,1) k 3(1)] by blast
    qed
    then show ?thesis using ReplaceNode tree_wf by auto
  next
    case (ShadowAppend n c)
    then show ?thesis using shadow_append_tree[OF ok, of n c pick] tree_wf assms(2) by (auto simp: nested_def)
  qed (use made new in auto)
qed

text \<open>
  Claim C3: every store that allowed calls can build from nothing, in any order and number, is a
  tree: each node in at most one list of children or shadow tree, the sibling and parent
  pointers agreeing, nothing inside itself; and on it every allowed call returns.
\<close>

theorem sessions_keep_trees:
  assumes "session pick d"
  shows "wf_dom d \<and> (\<forall>c. allowed d c \<longrightarrow> (\<exists>d'. call_dom pick c d = Some d' \<and> session pick d'))"
proof -
  have wf: "wf_dom d" using assms
  proof (induction rule: session.induct)
    case session_start
    show ?case by (rule tree_wf[OF empty_dom_ok])
  next
    case (session_call d c d')
    then show ?case using call_keeps[of d c pick] by auto
  qed
  moreover have "\<exists>d'. call_dom pick c d = Some d' \<and> session pick d'" if a: "allowed d c" for c
    using call_keeps[OF wf a, of pick] session_call[OF assms a] by blast
  ultimately show ?thesis by blast
qed

text \<open>A document with one element, which goes into it.\<close>

definition one_element :: dom where
  "one_element = snd (new_element 0 ''P'' (snd (new_document empty_dom)))"

lemma one_element_tree: "tree_ok one_element (\<lambda>_. []) (\<lambda>_. [])"
proof -
  have d: "same_links empty_dom (snd (new_document empty_dom))" by (rule new_document_same[OF tree_okD(3)[OF empty_dom_ok]])
  have "same_links (snd (new_document empty_dom)) one_element"
    unfolding one_element_def by (rule create_same(1)[OF same_links_fresh[OF d tree_okD(3)[OF empty_dom_ok]]])
  then show ?thesis by (rule same_links_tree[OF same_links_trans[OF d] empty_dom_ok])
qed

theorem sessions_keep_trees_witness: "\<exists>d'. call_dom rev (InsertNode 0 1 None) one_element = Some d' \<and> session rev d'"
proof -
  have "session rev (snd (new_document empty_dom))"
    using session_call[OF session_start, of CreateDocument] by simp
  then have "session rev one_element"
    using session_call[of rev "snd (new_document empty_dom)" "CreateElement 0 ''P''"] by (simp add: one_element_def)
  moreover have "dmFresh one_element = 2" "ndTemplate (nd one_element x) = None" for x
    by (simp_all add: one_element_def new_element_def alloc_node_def new_document_def alloc_id_def upd_doc_def upd_node_def Let_def
        zero_node_def empty_dom_def)
  then have "down one_element (kids one_element) (shadow_kids one_element) = {}" "dmFresh one_element = 2"
    using tree_reads[OF one_element_tree] by (auto simp: down_def)
  then have "allowed one_element (InsertNode 0 1 None)" by (simp add: nested_def ref_ok_def)
  ultimately show ?thesis using sessions_keep_trees[of rev one_element] by blast
qed

subsection \<open>A template inside its own content\<close>

text \<open>
  The binding's guard climbs parents only, and the content of a template has none: it lets a
  template be appended to its own content. Nothing then bounds a walk that enters template
  contents, and adopting the template, which does, never returns.
\<close>

definition knotted :: "dom \<Rightarrow> addr \<Rightarrow> bool" where
  "knotted d x \<longleftrightarrow> (\<exists>t. ndTemplate (nd d x) = Some t \<and> ndFirst (nd d t) = Some x) \<or> (\<exists>y. ndTemplate (nd d y) = Some x \<and> ndFirst (nd d x) = Some y)"

lemma knotted_same: "same_links d d' \<Longrightarrow> knotted d' = knotted d"
  by (simp add: knotted_def fun_eq_iff same_linksD)

lemma adopt_partial:
  assumes "adopt_walk sibs c k d = Some d'"
  shows "fresh_ok d \<longrightarrow> same_links d d' \<and> (\<forall>x. c = Some x \<longrightarrow> \<not> knotted d x)"
proof (rule adopt_walk.raw_induct[where P = "\<lambda>sibs c k d d'. fresh_ok d \<longrightarrow> same_links d d' \<and> (\<forall>x. c = Some x \<longrightarrow> \<not> knotted d x)",
      OF _ assms])
  fix f :: "bool \<Rightarrow> addr option \<Rightarrow> nat \<Rightarrow> dom \<Rightarrow> dom option" and sibs :: bool and c k d d'
  assume hyp: "\<And>sibs c k d d'. f sibs c k d = Some d' \<Longrightarrow> fresh_ok d \<longrightarrow> same_links d d' \<and> (\<forall>x. c = Some x \<longrightarrow> \<not> knotted d x)"
    and body: "(case c of None \<Rightarrow> Some d
     | Some x \<Rightarrow>
         Option.bind (f True (ndFirst (nd (adopt_one x k d) x)) k (adopt_one x k d)) (\<lambda>d.
         Option.bind (case ndShadow (nd d x) of None \<Rightarrow> Some d | Some sr \<Rightarrow> f True (shFirst sr) k d) (\<lambda>d.
         Option.bind (case ndTemplate (nd d x) of None \<Rightarrow> Some d
             | Some t \<Rightarrow> f False (Some t) (fst (template_owner_document k d)) (snd (template_owner_document k d))) (\<lambda>d.
         if sibs then f True (ndNext (nd d x)) k d else Some d)))) = Some d'"
  note IH = mp[OF hyp]
  show "fresh_ok d \<longrightarrow> same_links d d' \<and> (\<forall>x. c = Some x \<longrightarrow> \<not> knotted d x)"
  proof
    assume F: "fresh_ok d"
    show "same_links d d' \<and> (\<forall>x. c = Some x \<longrightarrow> \<not> knotted d x)"
    proof (cases c)
      case None
      then show ?thesis using body by simp
    next
      case (Some x)
      let ?e = "adopt_one x k d"
      from body Some obtain e1 e2 e3 where e1: "f True (ndFirst (nd ?e x)) k ?e = Some e1"
        and e2: "(case ndShadow (nd e1 x) of None \<Rightarrow> Some e1 | Some sr \<Rightarrow> f True (shFirst sr) k e1) = Some e2"
        and e3: "(case ndTemplate (nd e2 x) of None \<Rightarrow> Some e2
            | Some t \<Rightarrow> f False (Some t) (fst (template_owner_document k e2)) (snd (template_owner_document k e2))) = Some e3"
        and d': "(if sibs then f True (ndNext (nd e3 x)) k e3 else Some e3) = Some d'"
        by (auto split: bind_splits)
      have s0: "same_links d ?e" by (rule adopt_one_same)
      note F0 = same_links_fresh[OF s0 F]
      note i1 = IH[OF e1 F0]
      then have s1: "same_links d e1" using s0 same_links_trans by blast
      note F1 = same_links_fresh[OF s1 F]
      have "same_links e1 e2" using e2 IH[OF _ F1] by (auto split: option.splits)
      then have s2: "same_links d e2" using s1 same_links_trans by blast
      note F2 = same_links_fresh[OF s2 F]
      let ?t = "snd (template_owner_document k e2)"
      have st: "same_links d ?t" using s2 template_owner_same[OF F2] same_links_trans by blast
      note Ft = same_links_fresh[OF st F]
      have "same_links e2 e3" using e3 IH[OF _ Ft] template_owner_same[OF F2, of k] by (auto split: option.splits intro: same_links_trans)
      then have s3: "same_links d e3" using s2 same_links_trans by blast
      have "same_links e3 d'" using d' IH[OF _ same_links_fresh[OF s3 F]] by (auto split: if_splits)
      then have "same_links d d'" using s3 same_links_trans by blast
      moreover have "\<not> knotted d x"
      proof
        assume "knotted d x"
        then consider t where "ndTemplate (nd d x) = Some t" "ndFirst (nd d t) = Some x"
          | y where "ndTemplate (nd d y) = Some x" "ndFirst (nd d x) = Some y" by (auto simp: knotted_def)
        then show False
        proof cases
          case 1
          then have "f False (Some t) (fst (template_owner_document k e2)) ?t = Some e3" using e3 same_linksD(6)[OF s2, of x] by simp
          then have "\<not> knotted ?t t" using IH[OF _ Ft] by blast
          then show False using 1 by (auto simp: knotted_same[OF st]) (auto simp: knotted_def)
        next
          case 2
          then have "\<not> knotted ?e y" using i1 same_linksD(2)[OF s0, of x] by simp
          then show False using 2 by (auto simp: knotted_same[OF s0]) (auto simp: knotted_def)
        qed
      qed
      ultimately show ?thesis using Some by simp
    qed
  qed
qed

lemma knotted_adopt: "fresh_ok d \<Longrightarrow> knotted d x \<Longrightarrow> adopt x k d = None"
  using adopt_partial[of False "Some x" k d] by (cases "adopt x k d") (auto simp: adopt_def)

text \<open>A template 0 and its content fragment 4, in the inert document 1.\<close>

definition template_tree :: dom where
  "template_tree = small_tree\<lparr>dmNode := (\<lambda>_. zero_node)(
     0 := (small_node 0)\<lparr>ndData := ''template'', ndTemplate := Some 4\<rparr>, 4 := (small_node 4)\<lparr>ndDoc := Some 1\<rparr>), dmFreshDoc := 2\<rparr>"

lemma adopt_leaf:
  assumes "ndFirst (nd d x) = None" "ndShadow (nd d x) = None" "ndTemplate (nd d x) = None"
  shows "adopt_walk False (Some x) k d = Some (adopt_one x k d)"
  by (subst adopt_walk.simps) (simp add: same_linksD[OF adopt_one_same] assms adopt_walk.simps[of _ None])

lemma adopt_template_leaf:
  fixes k :: nat
  assumes "ndFirst (nd d x) = None" "ndShadow (nd d x) = None" "ndTemplate (nd d x) = Some t"
    and "ndFirst (nd d t) = None" "ndShadow (nd d t) = None" "ndTemplate (nd d t) = None" "fresh_ok d"
  defines "e \<equiv> template_owner_document k (adopt_one x k d)"
  shows "adopt_walk False (Some x) k d = Some (adopt_one t (fst e) (snd e))"
proof -
  have e: "same_links d (snd e)" unfolding e_def
    by (rule same_links_trans[OF adopt_one_same template_owner_same[OF same_links_fresh[OF adopt_one_same assms(7)]]])
  have "adopt_walk False (Some t) (fst e) (snd e) = Some (adopt_one t (fst e) (snd e))"
    by (rule adopt_leaf) (simp_all add: same_linksD[OF e] assms(4-6))
  then show ?thesis
    by (subst adopt_walk.simps) (simp add: same_linksD[OF adopt_one_same] assms(1-6) adopt_walk.simps[of _ None] e_def[symmetric])
qed

lemma adopt_one_data [simp]: "ndData (nd (adopt_one x k d) y) = ndData (nd d y)"
  by (simp add: adopt_one_def alloc_id_def upd_node_def upd_doc_def)

lemma template_owner_data: "y < dmFresh d \<Longrightarrow> nd (snd (template_owner_document k d)) y = nd d y"
  by (auto simp: template_owner_document_def new_document_def alloc_id_def upd_node_def upd_doc_def Let_def split: option.splits)

lemma fresh_adopt_one: "dmFresh (adopt_one x k d) = dmFresh d"
  by (simp add: adopt_one_def alloc_id_def upd_node_def upd_doc_def)

text \<open>Nothing to normalise: a childless child that is no option, no select above.\<close>

lemma settle_idle:
  assumes "ndData (nd d n) = ''p''" "ndParent (nd d n) = None" "ndFirst (nd d c) = None" "ndData (nd d c) = ''template''"
  shows "\<exists>d'. settle id n c old d = Some d' \<and> dmNode d' = dmNode d \<and> dmFresh d' = dmFresh d"
proof -
  define d1 where "d1 = (let k = ndDoc (nd d n); d = mark_query_dirty k d in if old \<noteq> None \<and> old \<noteq> k then mark_query_dirty old d else d)"
  have n: "dmNode d1 = dmNode d" "dmFresh d1 = dmFresh d" by (simp_all add: d1_def Let_def)
  have "sync_textarea n d1 = Some d1" using assms by (simp add: sync_textarea_def n)
  moreover have "owner_of n d1 = Some None" using assms by (simp add: owner_of_def nearest_select_def select_up.simps[of _ None] n)
  moreover have "changed_walk False (Some c) \<lparr>wkVisited = [], wkSeen = [], wkSelected = [], wkDom = d1\<rparr>
      = Some \<lparr>wkVisited = [c], wkSeen = [], wkSelected = [], wkDom = d1\<rparr>"
    using assms by (subst changed_walk.simps) (simp add: visit_changed_def Let_def n changed_walk.simps[of _ None])
  then have "normalize_selects id (Some c) None d1 = Some d1" by (simp add: normalize_selects_def)
  ultimately have "settle id n c old d = Some d1" by (simp add: settle_def Let_def d1_def)
  then show ?thesis using n by blast
qed

text \<open>
  A template holds its content through no parent pointer, so the climb of the binding's
  guard does not see it: appending a template to its own content passes, leaves a store that is
  no tree, and adopting the template there, into any document, never returns.
\<close>

theorem template_knot_never_adopts:
  "contains_node template_tree 0 4 = Some False
    \<and> (\<exists>d'. append_child id 4 0 template_tree = Some d' \<and> \<not> wf_dom d' \<and> adopt 0 k d' = None)"
proof -
  note f = template_tree_def small_tree_def small_node_def zero_node_def
  let ?P = "set_parent 0 4 template_tree"
  have fresh: "fresh_ok ?P" by (auto simp: fresh_ok_def blank_links_def f set_parent_def upd_node_def)
  have links: "ndFirst (nd ?P x) = None" "ndLast (nd ?P x) = None" "ndShadow (nd ?P x) = None" "ndTemplate (nd ?P 0) = Some 4"
    "ndTemplate (nd ?P 4) = None" "ndParent (nd ?P 4) = None" for x by (simp_all add: f set_parent_def upd_node_def)
  define e where "e = adopt_one 4 (fst (template_owner_document 1 (adopt_one 0 1 ?P))) (snd (template_owner_document 1 (adopt_one 0 1 ?P)))"
  have "adopt 0 1 ?P = Some e" unfolding adopt_def e_def by (rule adopt_template_leaf) (simp_all add: links fresh del: set_parent_fields)
  moreover have docs: "ndDoc (nd ?P 4) = Some 1" "ndDoc (nd ?P 0) = Some 0" by (simp_all add: f set_parent_def upd_node_def)
  ultimately have enter: "enter_document 4 0 ?P = Some e" by (simp add: enter_document_def)
  have s: "same_links ?P e" unfolding e_def
    by (rule same_links_trans[OF same_links_trans[OF adopt_one_same template_owner_same[OF same_links_fresh[OF adopt_one_same fresh]]] adopt_one_same])
  have "dmFresh ?P = 6" "ndData (nd ?P 0) = ''template''" "ndData (nd ?P 4) = ''p''" by (simp_all add: f set_parent_def upd_node_def)
  then have data: "ndData (nd e 0) = ''template''" "ndData (nd e 4) = ''p''"
    by (simp_all add: e_def template_owner_data fresh_adopt_one del: set_parent_fields)
  let ?l = "link_last 4 0 e"
  have l: "?l = upd_node 4 (\<lambda>n. n\<lparr>ndFirst := Some 0, ndLast := Some 0\<rparr>) e" by (simp add: link_last_def same_linksD[OF s] links del: set_parent_fields)
  have lf: "ndData (nd ?l 0) = ''template''" "ndData (nd ?l 4) = ''p''" "ndParent (nd ?l 4) = None" "ndFirst (nd ?l 0) = None"
    "ndFirst (nd ?l 4) = Some 0" "ndTemplate (nd ?l 0) = Some 4" "ndParent (nd ?l 0) = Some 4"
    unfolding l by (simp_all add: upd_node_def data same_linksD[OF s] links del: set_parent_fields) (simp add: set_parent_def upd_node_def)
  obtain d' where d': "settle id 4 0 (ndDoc (nd template_tree 0)) ?l = Some d'" "dmNode d' = dmNode ?l" "dmFresh d' = dmFresh ?l"
    using settle_idle[OF lf(2,3,4,1)] by blast
  have "ndParent (nd template_tree 0) = None" by (simp add: f)
  then have "append_child id 4 0 template_tree = Some d'" by (simp add: append_child_def detach_def enter d')
  moreover have "knotted d' 0" using lf by (auto simp: knotted_def d'(2))
  moreover have "fresh_ok d'" using same_links_fresh[OF s fresh] same_linksD(8)[OF s] \<open>dmFresh ?P = 6\<close>
    by (auto simp: fresh_ok_def d' l upd_node_def)
  ultimately have "append_child id 4 0 template_tree = Some d'" "adopt 0 k d' = None" using knotted_adopt by blast+
  moreover have "\<not> wf_dom d'"
  proof
    assume "wf_dom d'"
    note ok = wf_tree[OF this]
    have "(0, 4) \<in> down d' (kids d') (shadow_kids d')" using up_down[OF ok] lf(7) by (auto simp: up_def d'(2))
    moreover have "(4, 0) \<in> down d' (kids d') (shadow_kids d')" using lf(6) by (simp add: down_def d'(2))
    ultimately have "(0, 0) \<in> (down d' (kids d') (shadow_kids d'))\<^sup>+" by (meson trancl.simps)
    then show False using tree_okD(1)[OF ok] by (auto simp: lists_ok_def acyclic_def)
  qed
  moreover have "contains_node template_tree 0 4 = Some False" by (simp add: contains_node_def contains_up.simps f)
  ultimately show ?thesis by blast
qed

subsection \<open>A child the shadow root already holds\<close>

text \<open>A sibling pointer to the node itself: the walk does not return.\<close>

lemma self_loop:
  assumes "ndNext (nd d x) = Some x"
  shows "siblings d (Some x) = None"
proof (rule ccontr)
  assume "siblings d (Some x) \<noteq> None"
  then obtain xs where xs: "siblings d (Some x) = Some xs" by blast
  have "siblings d (Some x) = Option.bind (siblings d (Some x)) (\<lambda>xs. Some (x # xs))"
    by (subst siblings.simps) (simp add: assms)
  then show False unfolding xs by simp
qed

text \<open>What an operation on values keeps when it returns, whatever the store it works on.\<close>

lemma sync_textarea_partial: "sync_textarea x d = Some d' \<Longrightarrow> same_links d d'"
  by (auto simp: sync_textarea_def sync_input_value_def Let_def links_of_node_def intro!: upd_node_same split: if_splits)

lemma scan_options_partial: "fold_opt scan_option ps (lst, fst_on, d) = Some (l, f, d') \<Longrightarrow> same_links d d'"
proof (induction ps arbitrary: lst fst_on d)
  case (Cons p ps)
  obtain i x where p: "p = (i, x)" by (cases p)
  obtain l1 f1 d1 where 1: "scan_option (i, x) (lst, fst_on, d) = Some (l1, f1, d1)" "fold_opt scan_option ps (l1, f1, d1) = Some (l, f, d')"
    using Cons.prems by (auto simp: p split: option.splits)
  then have "d1 = snd (option_selected x d)" by (auto simp: scan_option_def case_prod_beta Let_def split: bind_splits)
  then show ?case using Cons.IH[OF 1(2)] option_selected_same[of d x] same_links_trans by blast
qed simp

lemma normalize_select_partial:
  assumes "normalize_select x d = Some d'"
  shows "same_links d d'"
proof (cases "ndData (nd d x) \<noteq> ''select'' \<or> has_attribute (nd d x) ''multiple''")
  case True
  then show ?thesis using assms by (simp add: normalize_select_def)
next
  case False
  obtain os where os: "select_options d x = Some os" using assms False by (cases "select_options d x") (simp_all add: normalize_select_def)
  obtain l f d1 where 1: "fold_opt scan_option (List.enumerate 0 os) (- 1, - 1, d) = Some (l, f, d1)"
    using assms False os by (cases "fold_opt scan_option (List.enumerate 0 os) (- 1, - 1, d)") (auto simp: normalize_select_def)
  then have "d' = (let lst = (if l < 0 \<and> \<not> ndSelectNone (nd d1 x) \<and> select_display_size (nd d1 x) = 1 then f else l)
          in fold (\<lambda>(i, y) d. set_option_selectedness y (int i = lst \<and> lst \<ge> 0) d) (List.enumerate 0 os) d1)"
    using assms False os by (simp add: normalize_select_def Let_def)
  then obtain k where "d' = fold (\<lambda>(i, y) d. set_option_selectedness y (int i = k \<and> k \<ge> 0) d) (List.enumerate 0 os) d1"
    by (simp only: Let_def)
  moreover have "same_links d1 (fold (\<lambda>(i, y) d. set_option_selectedness y (int i = k \<and> k \<ge> 0) d) (List.enumerate 0 os) d1)"
    by (rule fold_same) (simp add: case_prod_beta)
  ultimately show ?thesis using scan_options_partial[OF 1] same_links_trans by simp
qed

lemma normalize_selects_partial:
  assumes "normalize_selects pick None owner d = Some d'"
  shows "same_links d d'"
proof -
  have "fold_opt normalize_select xs e = Some d' \<Longrightarrow> same_links e d'" for xs e
  proof (induction xs arbitrary: e)
    case (Cons x xs)
    then obtain f where "normalize_select x e = Some f" "fold_opt normalize_select xs f = Some d'" by (auto split: option.splits)
    then show ?case using Cons.IH normalize_select_partial same_links_trans by blast
  qed simp
  moreover have "\<exists>xs. fold_opt normalize_select xs d = Some d'"
    using assms by (auto simp: normalize_selects_def changed_walk.simps Let_def)
  ultimately show ?thesis by blast
qed

lemma enter_document_partial: "enter_document n c d = Some e \<Longrightarrow> fresh_ok d \<Longrightarrow> same_links d e"
  using adopt_partial[of False "Some c" _ d e]
  by (auto simp: enter_document_def adopt_def upd_node_same links_of_node_def split: option.splits if_splits)

lemma remove_child_partial:
  assumes "remove_child pick n c d = Some d'" "ndParent (nd d c) = Some n"
  shows "same_links (unlink_child n c (before_removal n c d)) d'"
proof -
  let ?u = "mark_query_dirty (ndDoc (nd (before_removal n c d) n)) (unlink_child n c (before_removal n c d))"
  obtain owner d1 where "sync_textarea n ?u = Some d1" "normalize_selects pick None owner d1 = Some d'"
    using assms by (auto simp: remove_child_def Let_def bind_eq_Some_conv)
  then have "same_links ?u d'" using sync_textarea_partial normalize_selects_partial same_links_trans by blast
  then show ?thesis using mark_dirty_same same_links_trans by blast
qed

text \<open>A host 0 with no children and the node 1 in its shadow root.\<close>

definition host_tree :: dom where
  "host_tree = small_tree\<lparr>dmNode := (\<lambda>_. zero_node)(
       0 := (small_node 0)\<lparr>ndShadow := Some \<lparr>shFirst = Some 1, shLast = Some 1\<rparr>\<rparr>,
       1 := (small_node 1)\<lparr>ndParent := Some 0\<rparr>)\<rparr>"

lemma host_tree_ok: "tree_ok host_tree (\<lambda>_. []) ((\<lambda>_. [])(0 := [1]))"
proof -
  let ?K = "\<lambda>_::addr. [] :: addr list" and ?S = "(\<lambda>_. [])(0 := [1]) :: addr \<Rightarrow> addr list"
  note f = host_tree_def small_tree_def small_node_def zero_node_def
  have "x < c \<and> c < 6" if "(c, x) \<in> down host_tree ?K ?S" for c x
    using that by (auto simp: down_def f split: if_splits)
  note d = down_below[OF this]
  have "lists_ok host_tree ?K ?S" using d
    by (simp add: lists_ok_def is_list_def shadow_head_def shadow_tail_def) (simp add: f succ_of_Cons)
  moreover have "parents_ok host_tree ?K ?S" by (auto simp: parents_ok_def f)
  moreover have "fresh_ok host_tree" by (auto simp: fresh_ok_def blank_links_def f)
  ultimately show ?thesis by (simp add: tree_ok_def)
qed

lemma host_remove:
  "remove_child id 0 1 host_tree = Some (mark_query_dirty (Some 0) (unlink_child 0 1 (host_tree\<lparr>dmRemovals := [(0, 1)]\<rparr>)))"
proof -
  note f = host_tree_def small_tree_def small_node_def zero_node_def
  let ?b = "host_tree\<lparr>dmRemovals := [(0, 1)]\<rparr>"
  have b: "before_removal 0 1 host_tree = ?b" by (simp add: before_removal_def f)
  have "select_up ?b (Some 0) = Some None" by (simp add: select_up.simps f)
  then have ow: "owner_of 1 ?b = Some None" by (simp add: owner_of_def nearest_select_def f)
  let ?u = "mark_query_dirty (Some 0) (unlink_child 0 1 ?b)"
  have "ndData (nd ?u 0) = ''p''" by (simp add: unlink_child_def clear_place_def upd_node_def f)
  then have "sync_textarea 0 ?u = Some ?u" by (simp add: sync_textarea_def)
  moreover have "normalize_selects id None None ?u = Some ?u" by (simp add: normalize_selects_def changed_walk.simps)
  moreover have "ndParent (nd host_tree 1) = Some 0" "ndDoc (nd ?b 0) = Some 0" by (simp_all add: f)
  ultimately show ?thesis by (simp add: remove_child_def b ow del: One_nat_def)
qed

lemma host_reappend: "\<exists>d'. shadow_append id 0 1 host_tree = Some d'"
proof -
  note f = host_tree_def small_tree_def small_node_def zero_node_def
  let ?u = "mark_query_dirty (Some 0) (unlink_child 0 1 (host_tree\<lparr>dmRemovals := [(0, 1)]\<rparr>))"
  have h: "ndDoc (nd host_tree 0) = Some 0" "ndDoc (nd host_tree 1) = Some 0" "ndID (nd host_tree 1) = 1" "ndParent (nd host_tree 1) = Some 0"
    "ndPrev (nd host_tree 1) = None" "ndNext (nd host_tree 1) = None"
    by (simp_all add: f)
  have "enter_document 0 1 (set_parent 1 0 ?u) = Some (upd_node 1 (\<lambda>r. r\<lparr>ndDoc := Some 0\<rparr>) (set_parent 1 0 ?u))"
    using h by (simp add: enter_document_def unlink_child_def clear_place_def set_parent_def upd_node_def)
  then show ?thesis using h(4) host_remove by (simp add: shadow_append_def Let_def)
qed

lemma last_succ: "distinct xs \<Longrightarrow> last_opt xs = Some k \<Longrightarrow> succ_of xs k = None"
  by (auto simp: last_opt_snoc succ_of_append)

lemma bindE: "Option.bind x f = Some y \<Longrightarrow> (\<And>z. x = Some z \<Longrightarrow> f z = Some y \<Longrightarrow> P) \<Longrightarrow> P"
  by (cases x) auto

text \<open>The links after appending again the last node of a shadow root.\<close>

lemma reappend_fields:
  assumes "wf_dom d" "shadow_kids d n = xs @ [c]" "shadow_append pick n c d = Some d'"
  shows "ndNext (nd d' x) = (if x = c then Some c else if last_opt xs = Some x then None else ndNext (nd d x))"
    "x \<noteq> c \<Longrightarrow> ndPrev (nd d' x) = ndPrev (nd d x)"
    "shadow_head (nd d' n) = hd_opt (xs @ [c])" "ndLast (nd d' n) = last_opt xs" "xs = [] \<Longrightarrow> ndFirst (nd d' n) = None"
    "is_list d (shadow_head (nd d n)) (shadow_tail (nd d n)) (xs @ [c])"
proof -
  note ok = wf_tree[OF assms(1)]
  have l: "is_list d (shadow_head (nd d n)) (shadow_tail (nd d n)) (xs @ [c])"
    using lists_shadow[OF tree_okD(1)[OF ok], of n] assms(2) by simp
  then show "is_list d (shadow_head (nd d n)) (shadow_tail (nd d n)) (xs @ [c])" .
  have in_sh: "c \<in> set (shadow_kids d n)" by (simp add: assms(2))
  have par: "ndParent (nd d c) = Some n" using tree_okD(2)[OF ok] in_sh by (simp add: parents_ok_def)
  have ends: "ndNext (nd d c) = None" "ndPrev (nd d c) = last_opt xs" "shadow_head (nd d n) = hd_opt (xs @ [c])" "shadow_tail (nd d n) = Some c"
    using is_list_next[OF l] is_list_prev[OF l] l by (simp_all add: is_list_def del: hd_opt_append)
  let ?b = "before_removal n c d"
  note b = same_linksD[OF before_removal_same[of d n c]]
  note ap = apart[OF ok disjI2[OF in_sh]]
  have ap': "ndPrev (nd ?b c) \<noteq> Some c" "ndNext (nd ?b c) \<noteq> Some c" using ap by (simp_all add: b)
  note u = unlink_child_fields[OF ap', of n, unfolded b ends]
  obtain d1 where d1: "remove_child pick n c d = Some d1"
    and r: "Option.bind (enter_document n c (set_parent c n d1)) (\<lambda>d'.
       let old = ndDoc (nd d1 c); d' = link_last_shadow n c d'; k = ndDoc (nd d' n); d' = mark_query_dirty k d'
       in Some (if old \<noteq> None \<and> old \<noteq> k then mark_query_dirty old d' else d')) = Some d'"
    using assms(3) unfolding shadow_append_def par option.case by (rule bindE)
  then obtain e where e: "enter_document n c (set_parent c n d1) = Some e"
    and m: "d' = mark_query_dirty (ndDoc (nd d1 c)) (mark_query_dirty (ndDoc (nd (link_last_shadow n c e) n)) (link_last_shadow n c e))
      \<or> d' = mark_query_dirty (ndDoc (nd (link_last_shadow n c e) n)) (link_last_shadow n c e)"
    by (cases "enter_document n c (set_parent c n d1)") (auto simp: Let_def split: if_splits)
  have d': "same_links (link_last_shadow n c e) d'"
    using m same_links_trans[OF mark_dirty_same mark_dirty_same] mark_dirty_same by blast
  have s1: "same_links (unlink_child n c ?b) d1" by (rule remove_child_partial[OF d1 par])
  note f1 = same_linksD[OF s1]
  have alive: "x < dmFresh d" if "x = n \<or> x = c" for x
  proof (rule ccontr)
    assume "\<not> x < dmFresh d"
    then have "blank_links (nd d x)" using tree_okD(3)[OF ok] by (simp add: fresh_ok_def)
    then show False using that par ends(4) by (auto simp: blank_links_def shadow_tail_def)
  qed
  have "fresh_ok (set_parent c n d1)"
    unfolding fresh_ok_def
  proof (intro allI impI)
    fix x assume "dmFresh (set_parent c n d1) \<le> x"
    then have x: "dmFresh d \<le> x" using f1(8) b(8) by (simp add: set_parent_def upd_node_def u(8))
    then have "x \<noteq> n" "x \<noteq> c" using alive by fastforce+
    moreover have "blank_links (nd d x)" using x tree_okD(3)[OF ok] by (simp add: fresh_ok_def)
    ultimately show "blank_links (nd (set_parent c n d1) x)" by (simp add: blank_links_def set_parent_def upd_node_def f1 u)
  qed
  then have s2: "same_links (set_parent c n d1) e" by (rule enter_document_partial[OF e])
  note f2 = same_linksD[OF s2]
  have nc: "n \<noteq> c"
  proof
    assume "n = c"
    then have "(c, c) \<in> down d (kids d) (shadow_kids d)" using in_sh by (simp add: down_def)
    then show False using tree_okD(1)[OF ok] by (auto simp: lists_ok_def acyclic_def)
  qed
  have st: "shadow_tail (nd e n) = Some c" "shadow_head (nd e n) = hd_opt (xs @ [c])"
    using ends nc by (simp_all add: shadow_tail_def shadow_head_def f2 set_parent_def upd_node_def f1 u)
  then have "ndShadow (nd e n) \<noteq> None" by (cases "ndShadow (nd e n)") (simp_all add: shadow_tail_def)
  note f3 = link_last_shadow_fields[OF st(1)[symmetric] this, of c]
  note f = same_linksD[OF d']
  note all = f f3 f2 set_parent_def upd_node_def f1 u
  show "ndNext (nd d' x) = (if x = c then Some c else if last_opt xs = Some x then None else ndNext (nd d x))"
    by (simp add: all)
  show "x \<noteq> c \<Longrightarrow> ndPrev (nd d' x) = ndPrev (nd d x)" by (simp add: all)
  show "shadow_head (nd d' n) = hd_opt (xs @ [c])"
  proof -
    have "shadow_head (nd d' n) = shadow_head (nd (link_last_shadow n c e) n)" by (simp add: shadow_head_def f)
    then show ?thesis by (simp only: f3 st) simp
  qed
  show "ndLast (nd d' n) = last_opt xs" "xs = [] \<Longrightarrow> ndFirst (nd d' n) = None" using nc by (simp_all add: all)
qed

text \<open>
  Claim C40: \<open>ShadowRoot.AppendChild\<close> takes its child out of the host's light children only, and the
  last child of a shadow root has its host as parent like them. In any well-formed store, appending to
  a shadow root the last node it already holds, if the call returns, makes that node its own next
  sibling: a walk from it never returns, nor does a walk over the shadow root if it was the only node, and
  otherwise the walk no longer finds it. The host's list of light children is damaged too: its last
  child is now the node before it in the shadow root, and its first is lost when there is none.
\<close>

theorem shadow_reappend_loops:
  assumes "wf_dom d" "shadow_kids d n = xs @ [c]" "shadow_append pick n c d = Some d'"
  shows "ndNext (nd d' c) = Some c \<and> siblings d' (Some c) = None
    \<and> siblings d (shadow_head (nd d n)) = Some (xs @ [c])
    \<and> siblings d' (shadow_head (nd d' n)) = (if xs = [] then None else Some xs)
    \<and> ndLast (nd d' n) = last_opt xs \<and> (xs = [] \<longrightarrow> ndFirst (nd d' n) = None)"
proof -
  note F = reappend_fields[OF assms]
  have c: "ndNext (nd d' c) = Some c" by (simp add: F(1))
  have before: "siblings d (shadow_head (nd d n)) = Some (xs @ [c])"
    using siblings_list[of d _ _ "[]" "xs @ [c]"] F(6) by (simp add: is_list_def)
  have "siblings d' (hd_opt xs) = Some xs"
  proof -
    have "distinct (xs @ [c])" using F(6) by (simp add: is_list_def)
    then have "ndNext (nd d' k) = succ_of xs k \<and> ndPrev (nd d' k) = pred_of xs k" if "k \<in> set xs" for k
      using that F(6) last_succ[of xs k] by (auto simp: F(1,2) is_list_def succ_of_append pred_of_append)
    then have "is_list d' (hd_opt xs) (last_opt xs) ([] @ xs)" using \<open>distinct (xs @ [c])\<close> by (simp add: is_list_def)
    then show ?thesis by (rule siblings_list)
  qed
  then have "siblings d' (shadow_head (nd d' n)) = (if xs = [] then None else Some xs)"
    using self_loop[OF c] by (simp add: F(3))
  with c before self_loop[OF c] F(4,5) show ?thesis by blast
qed

text \<open>A host without light children and one node in its shadow root: the call returns, and no walk does.\<close>

theorem shadow_reappend_loops_witness:
  "\<exists>d'. shadow_append id 0 1 host_tree = Some d' \<and> siblings d' (shadow_head (nd d' 0)) = None"
proof -
  obtain d' where d': "shadow_append id 0 1 host_tree = Some d'" using host_reappend by blast
  have "shadow_kids host_tree 0 = [] @ [1]" using tree_reads(2)[OF host_tree_ok] by simp
  from shadow_reappend_loops[OF tree_wf[OF host_tree_ok] this d'] d' show ?thesis by auto
qed

end
