(* ===== verification/Dom_Events.thy ===== *)
theory Dom_Events
  imports Dom_Node
begin

text \<open>
  \<open>internal/dom/events.go\<close>, dispatch: the event's flags, the registry of listeners and the
  three phases. Listeners are shared objects, so they live at addresses: a snapshot taken for an
  iteration keeps naming a listener that is removed meanwhile, and the \<open>removed\<close> mark is what
  the iteration looks at. A callback is a function value, its code pointer and what it captured;
  \<open>funcEqual\<close> compares the first only. What a callback does is a parameter of the dispatch: from
  everything so far it answers the list of calls into this file it makes, on this event or on the
  registry (a nested dispatch of another event is the registry calls its listeners make).
\<close>

subsection \<open>Events\<close>

datatype event_phase = NonePhase | CapturingPhase | AtTarget | BubblingPhase

record dom_event =
  evType :: string
  evTarget :: "addr option"
  evCurrent :: "addr option"
  evPhase :: event_phase
  evBubbles :: bool
  evCancelable :: bool
  evTrusted :: bool
  evPrevented :: bool
  evPassive :: bool
  evScroll :: bool
  evStopped :: bool
  evImmediate :: bool

definition new_event :: "string \<Rightarrow> bool \<Rightarrow> bool \<Rightarrow> dom_event" where
  "new_event typ b c = \<lparr>evType = typ, evTarget = None, evCurrent = None, evPhase = NonePhase, evBubbles = b, evCancelable = c,
     evTrusted = False, evPrevented = False, evPassive = False, evScroll = False, evStopped = False, evImmediate = False\<rparr>"

definition new_trusted_event :: "string \<Rightarrow> bool \<Rightarrow> bool \<Rightarrow> dom_event" where
  "new_trusted_event typ b c = (new_event typ b c)\<lparr>evTrusted := True\<rparr>"

definition stop_propagation :: "dom_event \<Rightarrow> dom_event" where
  "stop_propagation e = e\<lparr>evStopped := True\<rparr>"

definition stop_immediate_propagation :: "dom_event \<Rightarrow> dom_event" where
  "stop_immediate_propagation e = e\<lparr>evStopped := True, evImmediate := True\<rparr>"

definition prevent_default :: "dom_event \<Rightarrow> dom_event" where
  "prevent_default e = (if evCancelable e \<and> \<not> evPassive e then e\<lparr>evPrevented := True\<rparr> else e)"

definition scroll_blocking_type :: "string \<Rightarrow> bool" where
  "scroll_blocking_type typ \<longleftrightarrow> typ \<in> {''wheel'', ''mousewheel'', ''touchstart'', ''touchmove''}"

definition event_cancelable :: "dom_event \<Rightarrow> bool" where
  "event_cancelable e \<longleftrightarrow>
     (if \<not> evCancelable e then False
      else if evTrusted e \<and> scroll_blocking_type (evType e) then evScroll e else True)"

definition clear_propagation_flags :: "dom_event \<Rightarrow> dom_event" where
  "clear_propagation_flags e = e\<lparr>evStopped := False, evImmediate := False\<rparr>"

subsection \<open>The registry\<close>

record callback =
  cbCode :: nat
  cbEnv :: nat

definition nil_func :: callback where
  "nil_func = \<lparr>cbCode = 0, cbEnv = 0\<rparr>"

definition func_equal :: "callback \<Rightarrow> callback \<Rightarrow> bool" where
  "func_equal f g \<longleftrightarrow> cbCode f = cbCode g"

record listener =
  lsType :: string
  lsCallback :: callback
  lsCapture :: bool
  lsPassive :: bool
  lsRemoved :: bool
  lsKey :: "nat option"

record registry =
  rgOf :: "addr \<Rightarrow> nat list"
  rgAt :: "nat \<Rightarrow> listener"
  rgNext :: nat

definition listener_matches :: "listener \<Rightarrow> callback \<Rightarrow> nat option \<Rightarrow> bool \<Rightarrow> bool" where
  "listener_matches l cb key capture \<longleftrightarrow>
     (if lsCapture l \<noteq> capture then False
      else if key \<noteq> None then lsKey l = key
      else if lsKey l \<noteq> None then False
      else func_equal (lsCallback l) cb)"

definition add_event_listener_with_options_and_key ::
  "addr \<Rightarrow> string \<Rightarrow> callback \<Rightarrow> bool \<Rightarrow> bool \<Rightarrow> nat option \<Rightarrow> registry \<Rightarrow> bool \<times> registry" where
  "add_event_listener_with_options_and_key n typ cb capture passive key r =
     (if list_ex (\<lambda>i. lsType (rgAt r i) = typ \<and> listener_matches (rgAt r i) cb key capture) (rgOf r n) then (False, r)
      else (True, r\<lparr>rgOf := (rgOf r)(n := rgOf r n @ [rgNext r]),
                    rgAt := (rgAt r)(rgNext r := \<lparr>lsType = typ, lsCallback = cb, lsCapture = capture, lsPassive = passive,
                                                  lsRemoved = False, lsKey = key\<rparr>),
                    rgNext := rgNext r + 1\<rparr>))"

definition add_event_listener :: "addr \<Rightarrow> string \<Rightarrow> callback \<Rightarrow> bool \<Rightarrow> registry \<Rightarrow> registry" where
  "add_event_listener n typ cb capture r =
     (if list_ex (\<lambda>i. lsType (rgAt r i) = typ \<and> listener_matches (rgAt r i) cb None capture) (rgOf r n) then r
      else r\<lparr>rgOf := (rgOf r)(n := rgOf r n @ [rgNext r]),
             rgAt := (rgAt r)(rgNext r := \<lparr>lsType = typ, lsCallback = cb, lsCapture = capture, lsPassive = False,
                                           lsRemoved = False, lsKey = None\<rparr>),
             rgNext := rgNext r + 1\<rparr>)"

text \<open>The two removals share their loop: the first listener that fits is marked and cut out.\<close>

definition remove_first_listener :: "(listener \<Rightarrow> bool) \<Rightarrow> addr \<Rightarrow> registry \<Rightarrow> registry" where
  "remove_first_listener fits n r =
     (case List.find (\<lambda>i. fits (rgAt r i)) (rgOf r n) of
        None \<Rightarrow> r
      | Some i \<Rightarrow> r\<lparr>rgOf := (rgOf r)(n := remove1 i (rgOf r n)), rgAt := (rgAt r)(i := (rgAt r i)\<lparr>lsRemoved := True\<rparr>)\<rparr>)"

definition remove_event_listener :: "addr \<Rightarrow> string \<Rightarrow> callback \<Rightarrow> bool \<Rightarrow> registry \<Rightarrow> registry" where
  "remove_event_listener n typ cb capture =
     remove_first_listener (\<lambda>l. lsType l = typ \<and> func_equal (lsCallback l) cb \<and> lsCapture l = capture) n"

definition remove_event_listener_by_key :: "addr \<Rightarrow> string \<Rightarrow> nat option \<Rightarrow> bool \<Rightarrow> registry \<Rightarrow> registry" where
  "remove_event_listener_by_key n typ key capture =
     remove_first_listener (\<lambda>l. lsType l = typ \<and> listener_matches l nil_func key capture) n"

definition get_node_listeners :: "registry \<Rightarrow> addr \<Rightarrow> nat list" where
  "get_node_listeners r n = rgOf r n"

subsection \<open>Callbacks\<close>

datatype action =
    Stop
  | StopImmediate
  | PreventDefault
  | AddListener addr string callback bool bool "nat option"
  | RemoveListener addr string callback bool
  | RemoveByKey addr string "nat option" bool

record call =
  clNode :: addr
  clPhase :: event_phase
  clListener :: nat
  clActs :: "action list"

record dispatch =
  dpEvent :: dom_event
  dpReg :: registry
  dpCalls :: "call list"

fun act :: "action \<Rightarrow> dispatch \<Rightarrow> dispatch" where
  "act Stop d = d\<lparr>dpEvent := stop_propagation (dpEvent d)\<rparr>"
| "act StopImmediate d = d\<lparr>dpEvent := stop_immediate_propagation (dpEvent d)\<rparr>"
| "act PreventDefault d = d\<lparr>dpEvent := prevent_default (dpEvent d)\<rparr>"
| "act (AddListener n typ cb capture passive key) d =
     d\<lparr>dpReg := snd (add_event_listener_with_options_and_key n typ cb capture passive key (dpReg d))\<rparr>"
| "act (RemoveListener n typ cb capture) d = d\<lparr>dpReg := remove_event_listener n typ cb capture (dpReg d)\<rparr>"
| "act (RemoveByKey n typ key capture) d = d\<lparr>dpReg := remove_event_listener_by_key n typ key capture (dpReg d)\<rparr>"

type_synonym script = "callback \<Rightarrow> dispatch \<Rightarrow> action list"

subsection \<open>Dispatch\<close>

definition invoke_event_listener :: "script \<Rightarrow> addr \<Rightarrow> nat \<Rightarrow> dispatch \<Rightarrow> dispatch" where
  "invoke_event_listener run n i d =
     (let l = rgAt (dpReg d) i;
          d = d\<lparr>dpEvent := (dpEvent d)\<lparr>evPassive := lsPassive l\<rparr>\<rparr>;
          acts = run (lsCallback l) d;
          d = fold act acts (d\<lparr>dpCalls := dpCalls d @ [\<lparr>clNode = n, clPhase = evPhase (dpEvent d), clListener = i, clActs = acts\<rparr>]\<rparr>)
      in d\<lparr>dpEvent := (dpEvent d)\<lparr>evPassive := False\<rparr>\<rparr>)"

text \<open>\<open>shouldContinue\<close> looks at what callbacks have done, so it is a predicate of the calls made.\<close>

fun fire_list :: "script \<Rightarrow> (call list \<Rightarrow> bool) \<Rightarrow> addr \<Rightarrow> bool \<Rightarrow> nat list \<Rightarrow> dispatch \<Rightarrow> dispatch" where
  "fire_list run go n capture [] d = d"
| "fire_list run go n capture (i # ls) d =
     (if evImmediate (dpEvent d) \<or> \<not> go (dpCalls d) then d
      else let l = rgAt (dpReg d) i
           in fire_list run go n capture ls
                (if \<not> lsRemoved l \<and> lsType l = evType (dpEvent d) \<and> lsCapture l = capture
                 then invoke_event_listener run n i d else d))"

definition fire_listeners_while :: "script \<Rightarrow> (call list \<Rightarrow> bool) \<Rightarrow> addr \<Rightarrow> bool \<Rightarrow> dispatch \<Rightarrow> dispatch" where
  "fire_listeners_while run go n capture d = fire_list run go n capture (get_node_listeners (dpReg d) n) d"

definition set_phase :: "event_phase \<Rightarrow> dispatch \<Rightarrow> dispatch" where
  "set_phase ph d = d\<lparr>dpEvent := (dpEvent d)\<lparr>evPhase := ph\<rparr>\<rparr>"

definition set_current :: "addr option \<Rightarrow> dispatch \<Rightarrow> dispatch" where
  "set_current c d = d\<lparr>dpEvent := (dpEvent d)\<lparr>evCurrent := c\<rparr>\<rparr>"

fun walk :: "script \<Rightarrow> (call list \<Rightarrow> bool) \<Rightarrow> bool \<Rightarrow> addr list \<Rightarrow> dispatch \<Rightarrow> dispatch" where
  "walk run go capture [] d = d"
| "walk run go capture (n # ns) d =
     (if evStopped (dpEvent d) \<or> \<not> go (dpCalls d) then d
      else walk run go capture ns (fire_listeners_while run go n capture (set_current (Some n) d)))"

definition at_target :: "script \<Rightarrow> (call list \<Rightarrow> bool) \<Rightarrow> addr \<Rightarrow> dispatch \<Rightarrow> dispatch" where
  "at_target run go target d =
     (if \<not> evStopped (dpEvent d) \<and> go (dpCalls d) then
        let d = set_current (Some target) (set_phase AtTarget d);
            d = fire_listeners_while run go target True d
        in if \<not> evStopped (dpEvent d) then fire_listeners_while run go target False d else d
      else d)"

partial_function (option) build_path :: "dom \<Rightarrow> addr option \<Rightarrow> addr list option" where
  "build_path dm n = (case n of None \<Rightarrow> Some []
     | Some x \<Rightarrow> Option.bind (build_path dm (ndParent (nd dm x))) (\<lambda>p. Some (x # p)))"

definition dispatch_along :: "script \<Rightarrow> (call list \<Rightarrow> bool) \<Rightarrow> addr \<Rightarrow> addr list \<Rightarrow> dispatch \<Rightarrow> bool \<times> dispatch" where
  "dispatch_along run go target path d =
     (let d = walk run go True (rev (tl path)) (set_phase CapturingPhase d);
          d = at_target run go target d;
          d = (if evBubbles (dpEvent d) \<and> \<not> evStopped (dpEvent d) \<and> go (dpCalls d)
               then walk run go False (tl path) (set_phase BubblingPhase d) else d);
          d = set_current None (set_phase NonePhase d)
      in (\<not> evPrevented (dpEvent d), d))"

definition dispatch_event_with_path_while ::
  "script \<Rightarrow> (call list \<Rightarrow> bool) \<Rightarrow> dom \<Rightarrow> addr \<Rightarrow> addr list \<Rightarrow> dom_event \<Rightarrow> registry \<Rightarrow> (bool \<times> dispatch) option" where
  "dispatch_event_with_path_while run go dm target path e r =
     Option.bind (if path = [] then build_path dm (Some target) else Some path) (\<lambda>path.
       Some (dispatch_along run go target path \<lparr>dpEvent = e\<lparr>evTarget := Some target\<rparr>, dpReg = r, dpCalls = []\<rparr>))"

definition dispatch_event_with_path :: "script \<Rightarrow> dom \<Rightarrow> addr \<Rightarrow> addr list \<Rightarrow> dom_event \<Rightarrow> registry \<Rightarrow> (bool \<times> dispatch) option" where
  "dispatch_event_with_path run = dispatch_event_with_path_while run (\<lambda>_. True)"

definition dispatch_event :: "script \<Rightarrow> dom \<Rightarrow> addr \<Rightarrow> dom_event \<Rightarrow> registry \<Rightarrow> (bool \<times> dispatch) option" where
  "dispatch_event run dm target e r =
     Option.bind (build_path dm (Some target)) (\<lambda>path. dispatch_event_with_path run dm target path e r)"

end
