(* ===== verification/Dom_Dispatch.thy ===== *)
theory Dom_Dispatch
  imports Dom_Events Dom_Claims
begin

text \<open>
  What a dispatch of \<open>internal/dom/events.go\<close> comes to. The reference is the DOM standard's: one
  list of stages, each a node and one of its two groups of listeners, run in turn until the event
  is stopped. The three loops of the code are shown equal to it, and the rest is proved on the
  list of stages: which listeners are called and in which order, that none is called twice
  whatever callbacks do to the registry, what stopping ends, and what decides the answer.
\<close>

subsection \<open>The reference\<close>

type_synonym stage = "event_phase \<times> addr \<times> bool"

definition stages :: "addr \<Rightarrow> addr list \<Rightarrow> bool \<Rightarrow> stage list" where
  "stages target path bubbles =
     map (\<lambda>n. (CapturingPhase, n, True)) (rev (tl path)) @ [(AtTarget, target, True), (AtTarget, target, False)]
     @ (if bubbles then map (\<lambda>n. (BubblingPhase, n, False)) (tl path) else [])"

fun run_stages :: "script \<Rightarrow> (call list \<Rightarrow> bool) \<Rightarrow> stage list \<Rightarrow> dispatch \<Rightarrow> dispatch" where
  "run_stages run go [] d = d"
| "run_stages run go ((ph, n, c) # ss) d =
     (if evStopped (dpEvent d) \<or> \<not> go (dpCalls d) then d
      else run_stages run go ss (fire_listeners_while run go n c (set_current (Some n) (set_phase ph d))))"

definition at_rest :: "dispatch \<Rightarrow> dispatch" where
  "at_rest d = set_current None (set_phase NonePhase d)"

subsection \<open>What a callback keeps\<close>

lemma set_phase_simps [simp]:
  "dpReg (set_phase ph d) = dpReg d" "dpCalls (set_phase ph d) = dpCalls d"
  "dpEvent (set_phase ph d) = (dpEvent d)\<lparr>evPhase := ph\<rparr>"
  "dpReg (set_current c d) = dpReg d" "dpCalls (set_current c d) = dpCalls d"
  "dpEvent (set_current c d) = (dpEvent d)\<lparr>evCurrent := c\<rparr>"
  by (simp_all add: set_phase_def set_current_def)

lemma act_keeps [simp]:
  "dpCalls (act a d) = dpCalls d"
  "evType (dpEvent (act a d)) = evType (dpEvent d)"
  "evBubbles (dpEvent (act a d)) = evBubbles (dpEvent d)"
  "evCancelable (dpEvent (act a d)) = evCancelable (dpEvent d)"
  "evPassive (dpEvent (act a d)) = evPassive (dpEvent d)"
  "evPhase (dpEvent (act a d)) = evPhase (dpEvent d)"
  "evCurrent (dpEvent (act a d)) = evCurrent (dpEvent d)"
  by (induction a d rule: act.induct) (simp_all add: stop_propagation_def stop_immediate_propagation_def prevent_default_def)

lemma acts_keep [simp]:
  "dpCalls (fold act as d) = dpCalls d"
  "evType (dpEvent (fold act as d)) = evType (dpEvent d)"
  "evBubbles (dpEvent (fold act as d)) = evBubbles (dpEvent d)"
  "evCancelable (dpEvent (fold act as d)) = evCancelable (dpEvent d)"
  "evPassive (dpEvent (fold act as d)) = evPassive (dpEvent d)"
  "evPhase (dpEvent (fold act as d)) = evPhase (dpEvent d)"
  "evCurrent (dpEvent (fold act as d)) = evCurrent (dpEvent d)"
  by (induction as arbitrary: d) simp_all

lemma act_flags [simp]:
  "evStopped (dpEvent (act a d)) \<longleftrightarrow> evStopped (dpEvent d) \<or> a = Stop \<or> a = StopImmediate"
  "evImmediate (dpEvent (act a d)) \<longleftrightarrow> evImmediate (dpEvent d) \<or> a = StopImmediate"
  "evPrevented (dpEvent (act a d)) \<longleftrightarrow> evPrevented (dpEvent d)
     \<or> a = PreventDefault \<and> evCancelable (dpEvent d) \<and> \<not> evPassive (dpEvent d)"
  by (induction a d rule: act.induct) (auto simp: stop_propagation_def stop_immediate_propagation_def prevent_default_def)

lemma acts_stop [simp]:
  "evStopped (dpEvent (fold act as d)) \<longleftrightarrow> evStopped (dpEvent d) \<or> Stop \<in> set as \<or> StopImmediate \<in> set as"
proof (induction as arbitrary: d)
  case (Cons a as)
  then show ?case by (cases a) (simp_all del: act.simps)
qed simp

lemma acts_stop_immediate [simp]:
  "evImmediate (dpEvent (fold act as d)) \<longleftrightarrow> evImmediate (dpEvent d) \<or> StopImmediate \<in> set as"
proof (induction as arbitrary: d)
  case (Cons a as)
  then show ?case by (cases a) (simp_all del: act.simps)
qed simp

lemma acts_prevent [simp]:
  "evPrevented (dpEvent (fold act as d)) \<longleftrightarrow> evPrevented (dpEvent d)
     \<or> PreventDefault \<in> set as \<and> evCancelable (dpEvent d) \<and> \<not> evPassive (dpEvent d)"
proof (induction as arbitrary: d)
  case (Cons a as)
  then show ?case by (cases a) (auto simp del: act.simps)
qed simp

text \<open>The calls a callback is seen to make.\<close>

definition acts_of :: "script \<Rightarrow> nat \<Rightarrow> dispatch \<Rightarrow> action list" where
  "acts_of run i d = (let l = rgAt (dpReg d) i in run (lsCallback l) (d\<lparr>dpEvent := (dpEvent d)\<lparr>evPassive := lsPassive l\<rparr>\<rparr>))"

lemma invoke_simps [simp]:
  "dpCalls (invoke_event_listener run n i d)
     = dpCalls d @ [\<lparr>clNode = n, clPhase = evPhase (dpEvent d), clListener = i, clActs = acts_of run i d\<rparr>]"
  "evType (dpEvent (invoke_event_listener run n i d)) = evType (dpEvent d)"
  "evBubbles (dpEvent (invoke_event_listener run n i d)) = evBubbles (dpEvent d)"
  "evCancelable (dpEvent (invoke_event_listener run n i d)) = evCancelable (dpEvent d)"
  "evPhase (dpEvent (invoke_event_listener run n i d)) = evPhase (dpEvent d)"
  "evCurrent (dpEvent (invoke_event_listener run n i d)) = evCurrent (dpEvent d)"
  "evStopped (dpEvent (invoke_event_listener run n i d)) \<longleftrightarrow>
     evStopped (dpEvent d) \<or> Stop \<in> set (acts_of run i d) \<or> StopImmediate \<in> set (acts_of run i d)"
  "evImmediate (dpEvent (invoke_event_listener run n i d)) \<longleftrightarrow> evImmediate (dpEvent d) \<or> StopImmediate \<in> set (acts_of run i d)"
  "evPrevented (dpEvent (invoke_event_listener run n i d)) \<longleftrightarrow> evPrevented (dpEvent d)
     \<or> PreventDefault \<in> set (acts_of run i d) \<and> evCancelable (dpEvent d) \<and> \<not> lsPassive (rgAt (dpReg d) i)"
  by (simp_all add: invoke_event_listener_def acts_of_def Let_def)

subsection \<open>The loops are the stages\<close>

lemma at_rest_eqD:
  assumes "at_rest d = at_rest d'"
  shows "evStopped (dpEvent d) = evStopped (dpEvent d')" "dpCalls d = dpCalls d'" "evBubbles (dpEvent d) = evBubbles (dpEvent d')"
    "set_current c (set_phase ph d) = set_current c (set_phase ph d')"
proof -
  obtain e r cs e' r' cs' where d: "d = \<lparr>dpEvent = e, dpReg = r, dpCalls = cs\<rparr>" "d' = \<lparr>dpEvent = e', dpReg = r', dpCalls = cs'\<rparr>"
    by (metis dispatch.surjective old.unit.exhaust)
  have e: "e\<lparr>evPhase := NonePhase, evCurrent := None\<rparr> = e'\<lparr>evPhase := NonePhase, evCurrent := None\<rparr>" and "r = r'" "cs = cs'"
    using assms by (simp_all add: d at_rest_def set_phase_def set_current_def)
  have "e\<lparr>evPhase := ph, evCurrent := c\<rparr> = e'\<lparr>evPhase := ph, evCurrent := c\<rparr>" "evStopped e = evStopped e'" "evBubbles e = evBubbles e'"
    using e by (cases e; cases e'; simp)+
  then show "evStopped (dpEvent d) = evStopped (dpEvent d')" "dpCalls d = dpCalls d'" "evBubbles (dpEvent d) = evBubbles (dpEvent d')"
    "set_current c (set_phase ph d) = set_current c (set_phase ph d')"
    using \<open>r = r'\<close> \<open>cs = cs'\<close> by (simp_all add: d set_phase_def set_current_def)
qed

lemma at_rest_set [simp]: "at_rest (set_phase ph d) = at_rest d" "at_rest (set_current c d) = at_rest d"
  by (simp_all add: at_rest_def set_phase_def set_current_def)

lemma run_stages_at_rest: "at_rest d = at_rest d' \<Longrightarrow> at_rest (run_stages run go ss d) = at_rest (run_stages run go ss d')"
proof (cases ss)
  case (Cons s ss')
  obtain ph n c where s: "s = (ph, n, c)" by (cases s)
  assume eq: "at_rest d = at_rest d'"
  show ?thesis
    unfolding Cons s run_stages.simps at_rest_eqD(1)[OF eq] at_rest_eqD(2)[OF eq] at_rest_eqD(4)[OF eq]
    by (simp add: eq)
qed simp

lemma run_stages_halted: "evStopped (dpEvent d) \<or> \<not> go (dpCalls d) \<Longrightarrow> run_stages run go ss d = d"
  by (cases ss; auto)

lemma run_stages_append: "run_stages run go (ss @ ts) d = run_stages run go ts (run_stages run go ss d)"
  by (induction run go ss d rule: run_stages.induct) (auto simp: run_stages_halted)

lemma fire_list_halted: "\<not> go (dpCalls d) \<Longrightarrow> fire_list run go n c ls d = d"
  by (cases ls) auto

lemma fire_list_keeps [simp]: "evPhase (dpEvent (fire_list run go n c ls d)) = evPhase (dpEvent d)"
  "evCurrent (dpEvent (fire_list run go n c ls d)) = evCurrent (dpEvent d)"
  "evType (dpEvent (fire_list run go n c ls d)) = evType (dpEvent d)"
  "evBubbles (dpEvent (fire_list run go n c ls d)) = evBubbles (dpEvent d)"
  "evCancelable (dpEvent (fire_list run go n c ls d)) = evCancelable (dpEvent d)"
  by (induction run go n c ls d rule: fire_list.induct) (simp_all add: Let_def)

lemma walk_is_stages:
  "at_rest (walk run go c ns (set_phase ph d)) = at_rest (run_stages run go (map (\<lambda>n. (ph, n, c)) ns) d)"
proof (induction ns arbitrary: d)
  case (Cons n ns)
  show ?case
  proof (cases "evStopped (dpEvent d) \<or> \<not> go (dpCalls d)")
    case False
    let ?d = "fire_listeners_while run go n c (set_current (Some n) (set_phase ph d))"
    have "evPhase (dpEvent ?d) = ph" by (simp add: fire_listeners_while_def)
    then have "set_phase ph ?d = ?d" by (cases "dpEvent ?d"; cases ?d; simp add: set_phase_def)
    then show ?thesis using False Cons.IH[of ?d] by simp
  qed auto
qed simp

lemma target_is_stages:
  "at_rest (at_target run go t d) = at_rest (run_stages run go [(AtTarget, t, True), (AtTarget, t, False)] d)"
proof (cases "evStopped (dpEvent d) \<or> \<not> go (dpCalls d)")
  case False
  let ?d = "fire_listeners_while run go t True (set_current (Some t) (set_phase AtTarget d))"
  let ?e = "fire_listeners_while run go t False ?d"
  have "evPhase (dpEvent ?d) = AtTarget" "evCurrent (dpEvent ?d) = Some t"
    by (simp_all add: fire_listeners_while_def)
  then have "set_current (Some t) (set_phase AtTarget ?d) = ?d"
    by (cases "dpEvent ?d"; cases ?d; simp add: set_phase_def set_current_def)
  moreover have "?e = ?d" if "\<not> go (dpCalls ?d)"
    using that by (simp add: fire_listeners_while_def[of _ _ _ False] fire_list_halted)
  ultimately show ?thesis using False by (simp add: at_target_def Let_def)
qed (auto simp: at_target_def)

lemma run_stages_bubbles: "evBubbles (dpEvent (run_stages run go ss d)) = evBubbles (dpEvent d)"
  "evType (dpEvent (run_stages run go ss d)) = evType (dpEvent d)"
  "evCancelable (dpEvent (run_stages run go ss d)) = evCancelable (dpEvent d)"
  by (induction run go ss d rule: run_stages.induct) (simp_all add: fire_listeners_while_def)

lemma dispatch_along_stages:
  "dispatch_along run go target path d =
     (let d' = at_rest (run_stages run go (stages target path (evBubbles (dpEvent d))) d) in (\<not> evPrevented (dpEvent d'), d'))"
proof -
  define cs bs where "cs = map (\<lambda>n. (CapturingPhase, n, True)) (rev (tl path))" and "bs = map (\<lambda>n. (BubblingPhase, n, False)) (tl path)"
  let ?run = "run_stages run go" and ?t = "[(AtTarget, target, True), (AtTarget, target, False)]"
  have st: "stages target path b = (cs @ ?t) @ (if b then bs else [])" for b by (simp add: stages_def cs_def bs_def)
  let ?a = "walk run go True (rev (tl path)) (set_phase CapturingPhase d)"
  have a: "at_rest ?a = at_rest (?run cs d)" unfolding cs_def by (rule walk_is_stages)
  let ?b = "at_target run go target ?a"
  have b: "at_rest ?b = at_rest (?run (cs @ ?t) d)"
    using target_is_stages[of run go target ?a] run_stages_at_rest[OF a, of run go ?t] by (simp only: run_stages_append)
  let ?c = "if evBubbles (dpEvent ?b) \<and> \<not> evStopped (dpEvent ?b) \<and> go (dpCalls ?b)
      then walk run go False (tl path) (set_phase BubblingPhase ?b) else ?b"
  have "evBubbles (dpEvent ?b) = evBubbles (dpEvent d)"
    using at_rest_eqD(3)[OF b] by (simp only: run_stages_bubbles)
  then have "at_rest ?c = at_rest (?run (if evBubbles (dpEvent d) then bs else []) ?b)"
    using walk_is_stages[of run go False "tl path" BubblingPhase ?b, folded bs_def] run_stages_halted[of ?b go run bs]
    by (cases "evStopped (dpEvent ?b) \<or> \<not> go (dpCalls ?b)"; cases "evBubbles (dpEvent d)"; simp only: if_True if_False simp_thms run_stages.simps; simp)
  also have "\<dots> = at_rest (?run (stages target path (evBubbles (dpEvent d))) d)"
    using run_stages_at_rest[OF b, of run go "if evBubbles (dpEvent d) then bs else []"] by (simp only: st run_stages_append)
  finally show ?thesis unfolding dispatch_along_def Let_def at_rest_def by (simp only:)
qed

subsection \<open>The registry\<close>

definition reg_ok :: "registry \<Rightarrow> bool" where
  "reg_ok r \<longleftrightarrow> (\<forall>n. distinct (rgOf r n)) \<and> (\<forall>n. \<forall>i\<in>set (rgOf r n). i < rgNext r \<and> \<not> lsRemoved (rgAt r i))
     \<and> (\<forall>m n. m \<noteq> n \<longrightarrow> set (rgOf r m) \<inter> set (rgOf r n) = {})
     \<and> (\<forall>n. \<forall>i\<in>set (rgOf r n). \<forall>j\<in>set (rgOf r n). lsType (rgAt r i) = lsType (rgAt r j)
          \<and> listener_matches (rgAt r i) (lsCallback (rgAt r j)) (lsKey (rgAt r j)) (lsCapture (rgAt r j)) \<longrightarrow> i = j)"

text \<open>What no call into the registry changes: a listener keeps its node and everything but its mark.\<close>

definition keeps_listener :: "registry \<Rightarrow> registry \<Rightarrow> nat \<Rightarrow> bool" where
  "keeps_listener r r' i \<longleftrightarrow> (\<forall>n. i \<in> set (rgOf r' n) \<longrightarrow> i \<in> set (rgOf r n))
     \<and> lsType (rgAt r' i) = lsType (rgAt r i) \<and> lsCallback (rgAt r' i) = lsCallback (rgAt r i) \<and> lsKey (rgAt r' i) = lsKey (rgAt r i)
     \<and> lsCapture (rgAt r' i) = lsCapture (rgAt r i) \<and> lsPassive (rgAt r' i) = lsPassive (rgAt r i)
     \<and> (lsRemoved (rgAt r i) \<longrightarrow> lsRemoved (rgAt r' i))"

definition grows :: "registry \<Rightarrow> registry \<Rightarrow> bool" where
  "grows r r' \<longleftrightarrow> rgNext r \<le> rgNext r' \<and> (\<forall>i<rgNext r. keeps_listener r r' i)"

lemma grows_refl [simp]: "grows r r"
  by (simp add: grows_def keeps_listener_def)

lemma growsD:
  "grows r r' \<Longrightarrow> rgNext r \<le> rgNext r'"
  "grows r r' \<Longrightarrow> i < rgNext r \<Longrightarrow> i \<in> set (rgOf r' n) \<Longrightarrow> i \<in> set (rgOf r n)"
  "grows r r' \<Longrightarrow> i < rgNext r \<Longrightarrow> lsType (rgAt r' i) = lsType (rgAt r i)"
  "grows r r' \<Longrightarrow> i < rgNext r \<Longrightarrow> lsCapture (rgAt r' i) = lsCapture (rgAt r i)"
  "grows r r' \<Longrightarrow> i < rgNext r \<Longrightarrow> lsPassive (rgAt r' i) = lsPassive (rgAt r i)"
  by (simp_all add: grows_def keeps_listener_def)

lemma grows_trans:
  assumes "grows r r'" "grows r' r''"
  shows "grows r r''"
proof -
  have "keeps_listener r r'' i" if "keeps_listener r r' i" "keeps_listener r' r'' i" for i
    using that by (simp add: keeps_listener_def)
  then show ?thesis using assms less_le_trans[of _ "rgNext r" "rgNext r'"] by (simp add: grows_def)
qed

lemma reg_okD:
  assumes "reg_ok r"
  shows "distinct (rgOf r n)" "i \<in> set (rgOf r n) \<Longrightarrow> i < rgNext r" "i \<in> set (rgOf r n) \<Longrightarrow> \<not> lsRemoved (rgAt r i)"
    "i \<in> set (rgOf r m) \<Longrightarrow> i \<in> set (rgOf r n) \<Longrightarrow> m = n"
    "i \<in> set (rgOf r n) \<Longrightarrow> j \<in> set (rgOf r n) \<Longrightarrow> lsType (rgAt r i) = lsType (rgAt r j) \<Longrightarrow>
       listener_matches (rgAt r i) (lsCallback (rgAt r j)) (lsKey (rgAt r j)) (lsCapture (rgAt r j)) \<Longrightarrow> i = j"
proof -
  note r = assms[unfolded reg_ok_def]
  show "distinct (rgOf r n)" using r by blast
  show "i \<in> set (rgOf r n) \<Longrightarrow> i < rgNext r" using r by blast
  show "i \<in> set (rgOf r n) \<Longrightarrow> \<not> lsRemoved (rgAt r i)" using r by blast
  show "i \<in> set (rgOf r m) \<Longrightarrow> i \<in> set (rgOf r n) \<Longrightarrow> m = n" using r by blast
  show "i \<in> set (rgOf r n) \<Longrightarrow> j \<in> set (rgOf r n) \<Longrightarrow> lsType (rgAt r i) = lsType (rgAt r j) \<Longrightarrow>
      listener_matches (rgAt r i) (lsCallback (rgAt r j)) (lsKey (rgAt r j)) (lsCapture (rgAt r j)) \<Longrightarrow> i = j"
    using r by blast
qed

lemma matches_sym:
  "listener_matches l (lsCallback m) (lsKey m) (lsCapture m) \<longleftrightarrow> listener_matches m (lsCallback l) (lsKey l) (lsCapture l)"
  by (auto simp: listener_matches_def func_equal_def)

lemma add_listener_ok:
  assumes "reg_ok r"
  shows "reg_ok (snd (add_event_listener_with_options_and_key n typ cb capture passive key r))"
    (is "reg_ok (snd ?a)")
proof (cases "list_ex (\<lambda>i. lsType (rgAt r i) = typ \<and> listener_matches (rgAt r i) cb key capture) (rgOf r n)")
  case False
  define k where "k = rgNext r"
  define l where "l = \<lparr>lsType = typ, lsCallback = cb, lsCapture = capture, lsPassive = passive, lsRemoved = False, lsKey = key\<rparr>"
  let ?r = "r\<lparr>rgOf := (rgOf r)(n := rgOf r n @ [k]), rgAt := (rgAt r)(k := l), rgNext := k + 1\<rparr>"
  have a: "snd ?a = ?r" using False by (simp add: add_event_listener_with_options_and_key_def k_def l_def)
  have k: "k \<notin> set (rgOf r m)" for m using reg_okD(2)[OF assms] by (auto simp: k_def)
  have no: "\<not> (lsType (rgAt r i) = typ \<and> listener_matches (rgAt r i) cb key capture)" if "i \<in> set (rgOf r n)" for i
    using False that by (auto simp: list_ex_iff)
  have "distinct (rgOf ?r m)" for m using reg_okD(1)[OF assms, of m] k[of m] by auto
  moreover have "i < rgNext ?r \<and> \<not> lsRemoved (rgAt ?r i)" if "i \<in> set (rgOf ?r m)" for i m
    using that reg_okD(2,3)[OF assms, of i m] k[of m] by (cases "i = k") (auto simp: l_def k_def split: if_splits)
  moreover have "set (rgOf ?r m) \<inter> set (rgOf ?r m') = {}" if "m \<noteq> m'" for m m'
    using that reg_okD(4)[OF assms, of _ m m'] k[of m] k[of m'] by auto
  moreover have "i = j" if "i \<in> set (rgOf ?r m)" "j \<in> set (rgOf ?r m)" "lsType (rgAt ?r i) = lsType (rgAt ?r j)"
      "listener_matches (rgAt ?r i) (lsCallback (rgAt ?r j)) (lsKey (rgAt ?r j)) (lsCapture (rgAt ?r j))" for i j m
  proof -
    have old: "x \<in> set (rgOf r m)" if "x \<in> set (rgOf ?r m)" "x \<noteq> k" for x using that by (auto split: if_splits)
    have m: "m = n" if "k \<in> set (rgOf ?r m)" using that k[of m] by (auto split: if_splits)
    consider "i = k" "j = k" | "i \<noteq> k" "j \<noteq> k" | "i = k" "j \<noteq> k" | "i \<noteq> k" "j = k" by blast
    then show ?thesis
    proof cases
      case 2
      then show ?thesis using reg_okD(5)[OF assms old[OF that(1) 2(1)] old[OF that(2) 2(2)]] that(3,4) by simp
    next
      case 3
      then have "m = n" using m that(1) by blast
      then show ?thesis using no[of j] old[OF that(2) 3(2)] that(3,4) 3 matches_sym[of l "rgAt r j"] by (simp add: l_def)
    next
      case 4
      then have "m = n" using m that(2) by blast
      then show ?thesis using no[of i] old[OF that(1) 4(1)] that(3,4) 4 by (simp add: l_def)
    qed simp
  qed
  ultimately show ?thesis unfolding a reg_ok_def by blast
qed (simp add: add_event_listener_with_options_and_key_def assms)

lemma remove_listener_ok:
  assumes "reg_ok r"
  shows "reg_ok (remove_first_listener fits n r)"
proof (cases "List.find (\<lambda>i. fits (rgAt r i)) (rgOf r n)")
  case (Some k)
  let ?r = "r\<lparr>rgOf := (rgOf r)(n := remove1 k (rgOf r n)), rgAt := (rgAt r)(k := (rgAt r k)\<lparr>lsRemoved := True\<rparr>)\<rparr>"
  have kn: "k \<in> set (rgOf r n)" using Some by (auto simp: find_Some_iff)
  have mem: "i \<in> set (rgOf ?r m) \<longleftrightarrow> i \<in> set (rgOf r m) \<and> i \<noteq> k" for i m
    using reg_okD(1)[OF assms] reg_okD(4)[OF assms _ kn, of m] by (cases "m = n") (auto simp: set_remove1_eq)
  have "distinct (rgOf ?r m)" for m using reg_okD(1)[OF assms, of m] by auto
  moreover have "i < rgNext ?r \<and> \<not> lsRemoved (rgAt ?r i)" if "i \<in> set (rgOf ?r m)" for i m
    using that[unfolded mem] reg_okD(2,3)[OF assms, of i m] by simp
  moreover have "set (rgOf ?r m) \<inter> set (rgOf ?r m') = {}" if "m \<noteq> m'" for m m'
    using that reg_okD(4)[OF assms, of _ m m'] mem by blast
  moreover have "i = j" if "i \<in> set (rgOf ?r m)" "j \<in> set (rgOf ?r m)" "lsType (rgAt ?r i) = lsType (rgAt ?r j)"
      "listener_matches (rgAt ?r i) (lsCallback (rgAt ?r j)) (lsKey (rgAt ?r j)) (lsCapture (rgAt ?r j))" for i j m
    using that(1,2)[unfolded mem] that(3,4) reg_okD(5)[OF assms, of i m j] by simp
  ultimately have "reg_ok ?r" unfolding reg_ok_def by blast
  then show ?thesis by (simp add: remove_first_listener_def Some)
qed (simp add: remove_first_listener_def assms)

lemma add_listener_grows: "grows r (snd (add_event_listener_with_options_and_key n typ cb capture passive key r))"
  by (auto simp: add_event_listener_with_options_and_key_def grows_def keeps_listener_def)

lemma remove_listener_grows: "grows r (remove_first_listener fits n r)"
proof (cases "List.find (\<lambda>i. fits (rgAt r i)) (rgOf r n)")
  case (Some k)
  have "i \<in> set (rgOf r n)" if "i \<in> set (remove1 k (rgOf r n))" for i using that set_remove1_subset by fastforce
  then show ?thesis by (auto simp: remove_first_listener_def grows_def keeps_listener_def Some)
qed (simp add: remove_first_listener_def)

lemma acts_grow: "grows (dpReg d) (dpReg (fold act as d))"
proof (induction as arbitrary: d)
  case (Cons a as)
  have "grows (dpReg d) (dpReg (act a d))"
    by (cases a) (simp_all add: add_listener_grows remove_listener_grows remove_event_listener_def remove_event_listener_by_key_def)
  then show ?case using Cons.IH[of "act a d"] by (auto intro: grows_trans)
qed simp

lemma acts_registry: "reg_ok (dpReg d) \<Longrightarrow> reg_ok (dpReg (fold act as d))"
proof (induction as arbitrary: d)
  case (Cons a as)
  have "reg_ok (dpReg (act a d))"
    using Cons.prems by (cases a) (simp_all add: add_listener_ok remove_listener_ok remove_event_listener_def remove_event_listener_by_key_def)
  then show ?case using Cons.IH[of "act a d"] by simp
qed simp

lemma invoke_registry:
  "grows (dpReg d) (dpReg (invoke_event_listener run n i d))" "reg_ok (dpReg d) \<Longrightarrow> reg_ok (dpReg (invoke_event_listener run n i d))"
proof -
  define d0 where "d0 = d\<lparr>dpEvent := (dpEvent d)\<lparr>evPassive := lsPassive (rgAt (dpReg d) i)\<rparr>,
      dpCalls := dpCalls d @ [\<lparr>clNode = n, clPhase = evPhase (dpEvent d), clListener = i, clActs = acts_of run i d\<rparr>]\<rparr>"
  have r: "dpReg (invoke_event_listener run n i d) = dpReg (fold act (acts_of run i d) d0)" "dpReg d0 = dpReg d"
    by (simp_all add: invoke_event_listener_def acts_of_def Let_def d0_def)
  show "grows (dpReg d) (dpReg (invoke_event_listener run n i d))" using acts_grow[of d0] r by simp
  show "reg_ok (dpReg d) \<Longrightarrow> reg_ok (dpReg (invoke_event_listener run n i d))" using acts_registry[of d0] r by simp
qed

end
