(* ===== verification/Event_Trace.thy ===== *)
theory Event_Trace
  imports Dom_Dispatch "HOL-Library.Sublist"
begin

text \<open>
  The calls a dispatch makes (\<open>internal/dom/events.go\<close>), whatever the callbacks do to the event
  and to the registry: grouped by stage, in registration order within a stage, no listener twice,
  none after the stage in which propagation was stopped, and the answer read off the calls.
\<close>

subsection \<open>One group of listeners\<close>

definition stops :: "call \<Rightarrow> bool" where
  "stops x \<longleftrightarrow> Stop \<in> set (clActs x) \<or> StopImmediate \<in> set (clActs x)"

definition cancels :: "registry \<Rightarrow> call \<Rightarrow> bool" where
  "cancels r x \<longleftrightarrow> PreventDefault \<in> set (clActs x) \<and> \<not> lsPassive (rgAt r (clListener x))"

text \<open>\<open>cl\<close> are calls of the listeners \<open>ls\<close>, in that order, all for one stage and one type.\<close>

definition calls_of :: "registry \<Rightarrow> string \<Rightarrow> stage \<Rightarrow> nat list \<Rightarrow> call list \<Rightarrow> bool" where
  "calls_of r typ s ls cl \<longleftrightarrow> subseq (map clListener cl) ls
     \<and> (\<forall>x\<in>set cl. (clPhase x, clNode x, lsCapture (rgAt r (clListener x))) = s \<and> lsType (rgAt r (clListener x)) = typ)
     \<and> (\<forall>x\<in>set (butlast cl). StopImmediate \<notin> set (clActs x))"

lemma fire_list_trace:
  fixes run :: script and go :: "call list \<Rightarrow> bool" and n :: addr and c :: bool
  assumes "reg_ok (dpReg d)" "\<forall>i\<in>set ls. i < rgNext (dpReg d)"
  defines "d' \<equiv> fire_list run go n c ls d"
  shows "\<exists>cl. dpCalls d' = dpCalls d @ cl \<and> calls_of (dpReg d) (evType (dpEvent d)) (evPhase (dpEvent d), n, c) ls cl
    \<and> grows (dpReg d) (dpReg d') \<and> reg_ok (dpReg d')
    \<and> (evStopped (dpEvent d') \<longleftrightarrow> evStopped (dpEvent d) \<or> (\<exists>x\<in>set cl. stops x))
    \<and> (evPrevented (dpEvent d') \<longleftrightarrow> evPrevented (dpEvent d) \<or> evCancelable (dpEvent d) \<and> (\<exists>x\<in>set cl. cancels (dpReg d) x))
    \<and> (evImmediate (dpEvent d) \<longrightarrow> cl = [])"
  using assms(1,2) unfolding d'_def
proof (induction ls arbitrary: d)
  case Nil
  then show ?case by (simp add: calls_of_def)
next
  case (Cons i ls)
  let ?l = "rgAt (dpReg d) i"
  consider "evImmediate (dpEvent d) \<or> \<not> go (dpCalls d)"
    | "\<not> (evImmediate (dpEvent d) \<or> \<not> go (dpCalls d))" "\<not> (\<not> lsRemoved ?l \<and> lsType ?l = evType (dpEvent d) \<and> lsCapture ?l = c)"
    | "\<not> evImmediate (dpEvent d)" "go (dpCalls d)" "\<not> lsRemoved ?l \<and> lsType ?l = evType (dpEvent d) \<and> lsCapture ?l = c"
    by blast
  then show ?case
  proof cases
    case 1
    then have "fire_list run go n c (i # ls) d = d" by simp
    then show ?thesis using Cons.prems by (intro exI[of _ "[]"]) (simp add: calls_of_def)
  next
    case 2
    then have f: "fire_list run go n c (i # ls) d = fire_list run go n c ls d" by (simp only: fire_list.simps Let_def if_False)
    have "\<forall>i\<in>set ls. i < rgNext (dpReg d)" using Cons.prems(2) by simp
    from Cons.IH[OF Cons.prems(1) this] show ?thesis unfolding f calls_of_def by (auto intro: list_emb_Cons)
  next
    case 3
    define d1 where "d1 = invoke_event_listener run n i d"
    define x where "x = \<lparr>clNode = n, clPhase = evPhase (dpEvent d), clListener = i, clActs = acts_of run i d\<rparr>"
    have f: "fire_list run go n c (i # ls) d = fire_list run go n c ls d1"
      using 3 by (simp add: Let_def d1_def)
    have g: "grows (dpReg d) (dpReg d1)" and r: "reg_ok (dpReg d1)"
      using invoke_registry[of d run n i] Cons.prems(1) by (simp_all add: d1_def)
    have lt: "\<forall>i\<in>set ls. i < rgNext (dpReg d1)" using Cons.prems(2) growsD(1)[OF g] by auto
    obtain cl where cl: "dpCalls (fire_list run go n c ls d1) = dpCalls d1 @ cl"
        "calls_of (dpReg d1) (evType (dpEvent d1)) (evPhase (dpEvent d1), n, c) ls cl"
        "grows (dpReg d1) (dpReg (fire_list run go n c ls d1))" "reg_ok (dpReg (fire_list run go n c ls d1))"
        "evStopped (dpEvent (fire_list run go n c ls d1)) \<longleftrightarrow> evStopped (dpEvent d1) \<or> (\<exists>x\<in>set cl. stops x)"
        "evPrevented (dpEvent (fire_list run go n c ls d1)) \<longleftrightarrow>
           evPrevented (dpEvent d1) \<or> evCancelable (dpEvent d1) \<and> (\<exists>x\<in>set cl. cancels (dpReg d1) x)"
        "evImmediate (dpEvent d1) \<longrightarrow> cl = []"
      using Cons.IH[OF r lt] by blast
    have old: "clListener y < rgNext (dpReg d)" if "y \<in> set cl" for y
      using cl(2) that Cons.prems(2) list_emb_set[of "(=)" "map clListener cl" ls "clListener y"] by (auto simp: calls_of_def)
    have same: "lsType (rgAt (dpReg d1) (clListener y)) = lsType (rgAt (dpReg d) (clListener y))"
        "lsCapture (rgAt (dpReg d1) (clListener y)) = lsCapture (rgAt (dpReg d) (clListener y))"
        "cancels (dpReg d1) y = cancels (dpReg d) y" if "y \<in> set cl" for y
      using growsD(3,4,5)[OF g old[OF that]] by (simp_all add: cancels_def)
    have ev: "evType (dpEvent d1) = evType (dpEvent d)" "evPhase (dpEvent d1) = evPhase (dpEvent d)"
        "evCancelable (dpEvent d1) = evCancelable (dpEvent d)" "dpCalls d1 = dpCalls d @ [x]"
        "evStopped (dpEvent d1) \<longleftrightarrow> evStopped (dpEvent d) \<or> stops x"
        "evPrevented (dpEvent d1) \<longleftrightarrow> evPrevented (dpEvent d) \<or> evCancelable (dpEvent d) \<and> cancels (dpReg d) x"
        "evImmediate (dpEvent d1) \<longleftrightarrow> evImmediate (dpEvent d) \<or> StopImmediate \<in> set (clActs x)"
      by (auto simp: d1_def x_def stops_def cancels_def)
    have last: "StopImmediate \<notin> set (clActs y)" if "y \<in> set (butlast (x # cl))" for y
      using that cl(2,7) ev(7) by (auto simp: calls_of_def split: if_splits)
    have "calls_of (dpReg d) (evType (dpEvent d)) (evPhase (dpEvent d), n, c) (i # ls) (x # cl)"
      using cl(2) 3 same last unfolding calls_of_def ev by (auto simp: x_def)
    moreover have "grows (dpReg d) (dpReg (fire_list run go n c ls d1))" using g cl(3) by (rule grows_trans)
    moreover have "(\<exists>y\<in>set (x # cl). cancels (dpReg d) y) \<longleftrightarrow> cancels (dpReg d) x \<or> (\<exists>y\<in>set cl. cancels (dpReg d1) y)"
      using same(3) by auto
    ultimately show ?thesis unfolding f using cl(1,4,5,6) ev 3(1) by (intro exI[of _ "x # cl"]) auto
  qed
qed

subsection \<open>The stages\<close>

text \<open>\<open>cs\<close> are the groups of calls of the stages \<open>ss\<close>, run between the registries \<open>r\<close> and \<open>r'\<close>.\<close>

definition group_ok :: "registry \<Rightarrow> registry \<Rightarrow> string \<Rightarrow> stage \<Rightarrow> call list \<Rightarrow> bool" where
  "group_ok r r' typ s cl \<longleftrightarrow> (\<forall>x\<in>set cl. (clPhase x, clNode x, lsCapture (rgAt r' (clListener x))) = s
     \<and> lsType (rgAt r' (clListener x)) = typ \<and> clListener x < rgNext r'
     \<and> (clListener x < rgNext r \<longrightarrow> clListener x \<in> set (rgOf r (clNode x))))
     \<and> (\<forall>x\<in>set (butlast cl). StopImmediate \<notin> set (clActs x))"

fun stops_last :: "call list list \<Rightarrow> bool" where
  "stops_last [] \<longleftrightarrow> True"
| "stops_last (cl # cs) \<longleftrightarrow> (list_ex stops cl \<longrightarrow> concat cs = []) \<and> stops_last cs"

lemma distinct_subseq: "subseq xs ys \<Longrightarrow> distinct ys \<Longrightarrow> distinct xs"
  by (induction rule: list_emb.induct) (auto dest: list_emb_set)

lemma group_of_call:
  "list_all2 P ss cs \<Longrightarrow> y \<in> set (concat cs) \<Longrightarrow> \<exists>s cl. s \<in> set ss \<and> y \<in> set cl \<and> P s cl"
  by (induction ss cs rule: list_all2_induct) auto

lemma stops_last_empty [simp]: "stops_last (replicate k [])" "concat (replicate k []) = []"
  by (induction k) simp_all

lemma run_stages_trace:
  fixes run :: script and go :: "call list \<Rightarrow> bool"
  assumes "reg_ok (dpReg d)" "distinct (map snd ss)"
  defines "d' \<equiv> run_stages run go ss d"
  shows "\<exists>cs. dpCalls d' = dpCalls d @ concat cs
    \<and> list_all2 (group_ok (dpReg d) (dpReg d') (evType (dpEvent d))) ss cs
    \<and> distinct (map clListener (concat cs)) \<and> stops_last cs \<and> (evStopped (dpEvent d) \<longrightarrow> concat cs = [])
    \<and> grows (dpReg d) (dpReg d') \<and> reg_ok (dpReg d')
    \<and> (evPrevented (dpEvent d') \<longleftrightarrow> evPrevented (dpEvent d)
         \<or> evCancelable (dpEvent d) \<and> (\<exists>x\<in>set (concat cs). cancels (dpReg d') x))"
  using assms(1,2) unfolding d'_def
proof (induction ss arbitrary: d)
  case Nil
  then show ?case by simp
next
  case (Cons s ss)
  obtain ph n c where s: "s = (ph, n, c)" by (cases s)
  show ?case
  proof (cases "evStopped (dpEvent d) \<or> \<not> go (dpCalls d)")
    case True
    then have "run_stages run go (s # ss) d = d" by (rule run_stages_halted)
    then show ?thesis using Cons.prems(1)
      by (intro exI[of _ "replicate (length (s # ss)) []"])
        (simp add: group_ok_def list_all2_conv_all_nth nth_Cons' stops_last_empty)
  next
    case False
    define d0 where "d0 = set_current (Some n) (set_phase ph d)"
    define ls where "ls = rgOf (dpReg d) n"
    define d1 where "d1 = fire_list run go n c ls d0"
    define d2 where "d2 = run_stages run go ss d1"
    have run: "run_stages run go (s # ss) d = d2"
      using False by (simp add: s d2_def d1_def d0_def ls_def fire_listeners_while_def get_node_listeners_def)
    have d0: "dpReg d0 = dpReg d" "dpCalls d0 = dpCalls d" "evType (dpEvent d0) = evType (dpEvent d)" "evPhase (dpEvent d0) = ph"
        "evStopped (dpEvent d0) = evStopped (dpEvent d)" "evPrevented (dpEvent d0) = evPrevented (dpEvent d)"
        "evCancelable (dpEvent d0) = evCancelable (dpEvent d)"
      by (simp_all add: d0_def)
    have lt: "\<forall>i\<in>set ls. i < rgNext (dpReg d)" using reg_okD(2)[OF Cons.prems(1)] by (auto simp: ls_def)
    obtain cl where cl: "dpCalls d1 = dpCalls d @ cl" "calls_of (dpReg d) (evType (dpEvent d)) s ls cl"
        "grows (dpReg d) (dpReg d1)" "reg_ok (dpReg d1)"
        "evStopped (dpEvent d1) \<longleftrightarrow> evStopped (dpEvent d) \<or> (\<exists>x\<in>set cl. stops x)"
        "evPrevented (dpEvent d1) \<longleftrightarrow> evPrevented (dpEvent d) \<or> evCancelable (dpEvent d) \<and> (\<exists>x\<in>set cl. cancels (dpReg d) x)"
      using fire_list_trace[of d0 ls run go n c] Cons.prems(1) lt unfolding d0 d1_def s by blast
    have t: "evType (dpEvent d1) = evType (dpEvent d)" "evCancelable (dpEvent d1) = evCancelable (dpEvent d)"
      by (simp_all add: d1_def d0)
    obtain cs where cs: "dpCalls d2 = dpCalls d1 @ concat cs"
        "list_all2 (group_ok (dpReg d1) (dpReg d2) (evType (dpEvent d))) ss cs" "distinct (map clListener (concat cs))"
        "stops_last cs" "evStopped (dpEvent d1) \<longrightarrow> concat cs = []" "grows (dpReg d1) (dpReg d2)" "reg_ok (dpReg d2)"
        "evPrevented (dpEvent d2) \<longleftrightarrow> evPrevented (dpEvent d1)
           \<or> evCancelable (dpEvent d) \<and> (\<exists>x\<in>set (concat cs). cancels (dpReg d2) x)"
      using Cons.IH[OF cl(4)] Cons.prems(2) unfolding t d2_def by auto
    have g: "grows (dpReg d) (dpReg d2)" using cl(3) cs(6) by (rule grows_trans)
    have mem: "clListener x \<in> set ls" if "x \<in> set cl" for x
      using cl(2) that list_emb_set[of "(=)" "map clListener cl" ls "clListener x"] by (auto simp: calls_of_def)
    then have old: "clListener x < rgNext (dpReg d)" if "x \<in> set cl" for x using lt that by blast
    have new: "clListener x < rgNext (dpReg d2)" if "x \<in> set cl" for x using old[OF that] growsD(1)[OF g] by (rule less_le_trans)
    note same = growsD(3,4,5)[OF g old]
    have "group_ok (dpReg d) (dpReg d2) (evType (dpEvent d)) s cl"
      using cl(2) same mem new by (auto simp: group_ok_def calls_of_def s ls_def)
    moreover have later: "group_ok (dpReg d) (dpReg d2) ty t ds" if "group_ok (dpReg d1) (dpReg d2) ty t ds" for ty t ds
      using that growsD(2)[OF cl(3)] growsD(1)[OF cl(3)] by (fastforce simp: group_ok_def)
    ultimately have groups: "list_all2 (group_ok (dpReg d) (dpReg d2) (evType (dpEvent d))) (s # ss) (cl # cs)"
      using cs(2) by (auto intro: list_all2_mono)
    have "clListener x \<noteq> clListener y" if x: "x \<in> set cl" and y: "y \<in> set (concat cs)" for x y
    proof
      assume eq: "clListener x = clListener y"
      obtain ds t where t: "y \<in> set ds" "t \<in> set ss" "group_ok (dpReg d1) (dpReg d2) (evType (dpEvent d)) t ds"
        using group_of_call[OF cs(2) y] by blast
      have "clListener y \<in> set (rgOf (dpReg d) (clNode y))"
        using t old[OF x] growsD(1,2)[OF cl(3)] eq less_le_trans by (fastforce simp: group_ok_def)
      then have "clNode y = n" using mem[OF x] eq reg_okD(4)[OF Cons.prems(1)] by (auto simp: ls_def)
      moreover have "lsCapture (rgAt (dpReg d2) (clListener y)) = c"
        using cl(2) x same(2)[OF x] eq by (auto simp: calls_of_def s)
      ultimately have "snd t = snd s" using t by (auto simp: group_ok_def s)
      then show False using Cons.prems(2) t(2) by (auto simp: rev_image_eqI)
    qed
    moreover have "distinct (map clListener cl)"
      using cl(2) reg_okD(1)[OF Cons.prems(1), of n] distinct_subseq by (auto simp: calls_of_def ls_def)
    ultimately have dist: "distinct (map clListener (concat (cl # cs)))" using cs(3) by auto
    have "cancels (dpReg d) x = cancels (dpReg d2) x" if "x \<in> set cl" for x using same(3)[OF that] by (simp add: cancels_def)
    then have prev: "evPrevented (dpEvent d2) \<longleftrightarrow> evPrevented (dpEvent d)
        \<or> evCancelable (dpEvent d) \<and> (\<exists>x\<in>set (concat (cl # cs)). cancels (dpReg d2) x)"
      using cs(8) cl(6) by auto
    have "stops_last (cl # cs)" using cs(4,5) cl(5) by (auto simp: list_ex_iff)
    then show ?thesis unfolding run using groups dist prev g cs(1,7) cl(1) False by (intro exI[of _ "cl # cs"]) simp
  qed
qed

subsection \<open>Callbacks that only prevent the default\<close>

text \<open>When no callback stops the event or touches the registry, every listener that fits is called.\<close>

definition mild :: "script \<Rightarrow> bool" where
  "mild run \<longleftrightarrow> (\<forall>f d. set (run f d) \<subseteq> {PreventDefault})"

definition listeners_at :: "registry \<Rightarrow> string \<Rightarrow> stage \<Rightarrow> (event_phase \<times> addr \<times> nat) list" where
  "listeners_at r typ s = (case s of (ph, n, c) \<Rightarrow> map (\<lambda>i. (ph, n, i))
     (filter (\<lambda>i. lsType (rgAt r i) = typ \<and> lsCapture (rgAt r i) = c) (rgOf r n)))"

definition callee :: "call \<Rightarrow> event_phase \<times> addr \<times> nat" where
  "callee x = (clPhase x, clNode x, clListener x)"

lemma mild_acts:
  assumes "mild run"
  shows "dpReg (invoke_event_listener run n i d) = dpReg d"
    "evStopped (dpEvent (invoke_event_listener run n i d)) = evStopped (dpEvent d)"
    "evImmediate (dpEvent (invoke_event_listener run n i d)) = evImmediate (dpEvent d)"
proof -
  have m: "set (acts_of run i d) \<subseteq> {PreventDefault}" using assms by (simp add: mild_def acts_of_def Let_def)
  have "dpReg (fold act as e) = dpReg e" if "set as \<subseteq> {PreventDefault}" for as e
    using that by (induction as arbitrary: e) auto
  from this[OF m] show "dpReg (invoke_event_listener run n i d) = dpReg d"
    by (simp add: invoke_event_listener_def acts_of_def Let_def)
  show "evStopped (dpEvent (invoke_event_listener run n i d)) = evStopped (dpEvent d)"
    "evImmediate (dpEvent (invoke_event_listener run n i d)) = evImmediate (dpEvent d)"
    using m by auto
qed

lemma mild_fire_list:
  fixes n :: addr and c :: bool
  assumes "mild run" "\<not> evImmediate (dpEvent d)" "\<forall>i\<in>set ls. \<not> lsRemoved (rgAt (dpReg d) i)"
  defines "d' \<equiv> fire_list run (\<lambda>_. True) n c ls d"
  shows "dpReg d' = dpReg d \<and> evStopped (dpEvent d') = evStopped (dpEvent d) \<and> \<not> evImmediate (dpEvent d')
    \<and> map callee (dpCalls d') = map callee (dpCalls d) @ map (\<lambda>i. (evPhase (dpEvent d), n, i))
        (filter (\<lambda>i. lsType (rgAt (dpReg d) i) = evType (dpEvent d) \<and> lsCapture (rgAt (dpReg d) i) = c) ls)"
  using assms(2,3) unfolding d'_def
proof (induction ls arbitrary: d)
  case (Cons i ls)
  let ?d = "invoke_event_listener run n i d"
  have "dpReg ?d = dpReg d" "evStopped (dpEvent ?d) = evStopped (dpEvent d)" "\<not> evImmediate (dpEvent ?d)"
    using mild_acts[OF assms(1), of n i d] Cons.prems(1) by simp_all
  then show ?case using Cons.IH[of d] Cons.IH[of ?d] Cons.prems by (simp add: Let_def callee_def)
qed simp

lemma mild_stages:
  fixes ss :: "stage list"
  assumes "mild run" "reg_ok (dpReg d)" "\<not> evImmediate (dpEvent d)" "\<not> evStopped (dpEvent d)"
  defines "d' \<equiv> run_stages run (\<lambda>_. True) ss d"
  shows "dpReg d' = dpReg d
    \<and> map callee (dpCalls d') = map callee (dpCalls d) @ concat (map (listeners_at (dpReg d) (evType (dpEvent d))) ss)"
  using assms(2-4) unfolding d'_def
proof (induction ss arbitrary: d)
  case (Cons s ss)
  obtain ph n c where s: "s = (ph, n, c)" by (cases s)
  define d0 where "d0 = set_current (Some n) (set_phase ph d)"
  let ?d = "fire_list run (\<lambda>_. True) n c (rgOf (dpReg d) n) d0"
  have run: "run_stages run (\<lambda>_. True) (s # ss) d = run_stages run (\<lambda>_. True) ss ?d"
    using Cons.prems(3) by (simp add: s d0_def fire_listeners_while_def get_node_listeners_def)
  have d0: "dpReg d0 = dpReg d" "dpCalls d0 = dpCalls d" "evType (dpEvent d0) = evType (dpEvent d)" "evPhase (dpEvent d0) = ph"
      "evStopped (dpEvent d0) = evStopped (dpEvent d)" "evImmediate (dpEvent d0) = evImmediate (dpEvent d)"
    by (simp_all add: d0_def)
  have f: "dpReg ?d = dpReg d" "evStopped (dpEvent ?d) = evStopped (dpEvent d)" "\<not> evImmediate (dpEvent ?d)"
      "map callee (dpCalls ?d) = map callee (dpCalls d) @ listeners_at (dpReg d) (evType (dpEvent d)) s"
    using mild_fire_list[OF assms(1), of d0 "rgOf (dpReg d) n" n c] Cons.prems reg_okD(3)[OF Cons.prems(1)]
    by (simp_all add: d0 listeners_at_def s)
  show ?case unfolding run using Cons.IH[of ?d] Cons.prems f by (simp add: d0)
qed simp

end
