(* ===== verification/Event_Claims.thy ===== *)
theory Event_Claims
  imports Event_Trace Dom_Queries
begin

text \<open>
  Dispatch over the document tree: the propagation path on a well-formed tree, and the properties
  of \<open>DispatchEventWithPathWhile\<close> and of the listener registry (\<open>internal/dom/events.go\<close>).
\<close>

subsection \<open>The path\<close>

lemma build_path_facts:
  assumes "wf_dom d"
  shows "\<exists>p. build_path d (Some x) = Some (x # p) \<and> distinct (x # p) \<and> set (x # p) = (up d)\<^sup>* `` {x}"
proof -
  note t = wf_tree[OF assms]
  have "finite (up d)" using up_down[OF t] tree_okD(1)[OF t] finite_subset by (auto simp: lists_ok_def)
  then have "wf ((up d)\<inverse>)" using up_acyclic[OF t] by (intro finite_acyclic_wf_converse)
  then show ?thesis
  proof (induction x rule: wf_induct_rule)
    case (less x)
    show ?case
    proof (cases "ndParent (nd d x)")
      case None
      then have "(up d)\<^sup>* `` {x} = {x}" by (auto simp: up_def elim: converse_rtranclE)
      then show ?thesis using None by (subst build_path.simps, subst build_path.simps) simp
    next
      case (Some y)
      then have e: "(x, y) \<in> up d" by (simp add: up_def)
      obtain p where p: "build_path d (Some y) = Some (y # p)" "distinct (y # p)" "set (y # p) = (up d)\<^sup>* `` {y}"
        using less[of y] e by auto
      have step: "z = x \<or> (y, z) \<in> (up d)\<^sup>*" if "(x, z) \<in> (up d)\<^sup>*" for z
        using that by (cases rule: converse_rtranclE) (auto simp: up_def Some)
      have s: "(up d)\<^sup>* `` {x} = insert x ((up d)\<^sup>* `` {y})"
        using step converse_rtrancl_into_rtrancl[OF e] by blast
      have "x \<notin> (up d)\<^sup>* `` {y}" using up_acyclic[OF t] e by (auto simp: acyclic_def dest: rtrancl_into_trancl2)
      moreover have "build_path d (Some x) = Some (x # y # p)" using Some p(1) by (subst build_path.simps) simp
      ultimately show ?thesis using p(2,3) s by (intro exI[of _ "y # p"]) simp
    qed
  qed
qed

lemma find_append_last: "\<forall>i\<in>set xs. \<not> P i \<Longrightarrow> P x \<Longrightarrow> List.find P (xs @ [x]) = Some x"
  by (induction xs) auto

lemma stages_distinct: "distinct (x # p) \<Longrightarrow> distinct (map snd (stages x (x # p) b))"
  by (auto simp: stages_def distinct_map comp_def inj_on_def)

text \<open>What a dispatch from a target comes to, in one place.\<close>

lemma dispatch_runs:
  assumes "wf_dom dm" "reg_ok r"
  shows "\<exists>path d cs. build_path dm (Some t) = Some path
    \<and> dispatch_event_with_path_while run go dm t [] e r = Some (\<not> evPrevented (dpEvent d), d)
    \<and> dpCalls d = concat cs \<and> list_all2 (group_ok r (dpReg d) (evType e)) (stages t path (evBubbles e)) cs \<and> stops_last cs
    \<and> distinct (map clListener (dpCalls d)) \<and> grows r (dpReg d) \<and> reg_ok (dpReg d)
    \<and> (evStopped e \<longrightarrow> dpCalls d = [])
    \<and> (evPrevented (dpEvent d) \<longleftrightarrow> evPrevented e \<or> evCancelable e \<and> (\<exists>x\<in>set (dpCalls d). cancels (dpReg d) x))"
proof -
  obtain p where p: "build_path dm (Some t) = Some (t # p)" "distinct (t # p)" using build_path_facts[OF assms(1)] by blast
  define d0 where "d0 = \<lparr>dpEvent = e\<lparr>evTarget := Some t\<rparr>, dpReg = r, dpCalls = []\<rparr>"
  define d where "d = run_stages run go (stages t (t # p) (evBubbles e)) d0"
  obtain cs where cs: "dpCalls d = concat cs" "list_all2 (group_ok r (dpReg d) (evType e)) (stages t (t # p) (evBubbles e)) cs"
      "distinct (map clListener (concat cs))" "stops_last cs" "evStopped e \<longrightarrow> concat cs = []" "grows r (dpReg d)" "reg_ok (dpReg d)"
      "evPrevented (dpEvent d) \<longleftrightarrow> evPrevented e \<or> evCancelable e \<and> (\<exists>x\<in>set (concat cs). cancels (dpReg d) x)"
    using run_stages_trace[of d0 "stages t (t # p) (evBubbles e)" run go] assms(2) stages_distinct[OF p(2)]
    by (auto simp: d0_def d_def)
  have "dispatch_event_with_path_while run go dm t [] e r = Some (\<not> evPrevented (dpEvent (at_rest d)), at_rest d)"
    by (simp add: dispatch_event_with_path_while_def p(1) dispatch_along_stages d_def d0_def Let_def)
  then show ?thesis using p(1) cs by (intro exI[of _ "t # p"] exI[of _ "at_rest d"] exI[of _ cs]) (simp add: at_rest_def)
qed

subsection \<open>Properties\<close>

text \<open>
  Claim C9. The dispatch is the DOM standard's: its three loops, with their early exits, run one
  list of stages, the capture groups from the root down, the two groups of the target, and if the
  event bubbles the bubble groups back up, checking before each stage whether the event was
  stopped or the caller withdrew; for every path, script and registry. It returns exactly when
  the path does.
\<close>

theorem dispatch_is_stages:
  "dispatch_event_with_path_while run go dm target path e r =
     map_option (\<lambda>p. let d = at_rest (run_stages run go (stages target p (evBubbles e))
                          \<lparr>dpEvent = e\<lparr>evTarget := Some target\<rparr>, dpReg = r, dpCalls = []\<rparr>)
                     in (\<not> evPrevented (dpEvent d), d))
       (if path = [] then build_path dm (Some target) else Some path)"
  by (cases "if path = [] then build_path dm (Some target) else Some path")
    (simp_all add: dispatch_event_with_path_while_def dispatch_along_stages)

text \<open>
  Claim C10. On a well-formed tree a dispatch returns, and whatever its callbacks do, adding and
  removing listeners on any node included: the calls fall into the stages of the path, in order;
  each is of a listener of the event's type and of the stage's group, registered on the stage's
  node if it existed before; no listener is called twice; after the stage in which propagation was
  stopped nothing is called, after an immediate stop not even the rest of the group; and the
  registry is still in order, no two listeners of a node matching.
\<close>

theorem listeners_called_once:
  assumes "wf_dom dm" "reg_ok r"
  shows "\<exists>path d cs. build_path dm (Some t) = Some path
    \<and> dispatch_event_with_path_while run go dm t [] e r = Some (\<not> evPrevented (dpEvent d), d)
    \<and> dpCalls d = concat cs \<and> list_all2 (group_ok r (dpReg d) (evType e)) (stages t path (evBubbles e)) cs \<and> stops_last cs
    \<and> distinct (map clListener (dpCalls d)) \<and> reg_ok (dpReg d)"
  using dispatch_runs[OF assms, of t run go e] by blast

text \<open>
  What decides the default action: a dispatch answers false exactly when the event came
  in prevented, or is cancelable and a listener that is not passive called \<open>preventDefault\<close>; a
  passive listener's call never counts.
\<close>

theorem default_prevented_by_active_listener:
  assumes "wf_dom dm" "reg_ok r"
  shows "\<exists>ok d. dispatch_event_with_path_while run go dm t [] e r = Some (ok, d)
    \<and> (ok \<longleftrightarrow> \<not> evPrevented e \<and> \<not> (evCancelable e
          \<and> (\<exists>x\<in>set (dpCalls d). PreventDefault \<in> set (clActs x) \<and> \<not> lsPassive (rgAt (dpReg d) (clListener x)))))"
  using dispatch_runs[OF assms, of t run go e] unfolding cancels_def by blast

text \<open>
  Claim C20. Nobody is left out: when no callback stops the event or touches the registry, a
  dispatch of an event not stopped before calls exactly the registered listeners of its type,
  stage by stage and within a stage in the order of registration.
\<close>

theorem dispatch_reaches_all:
  assumes "wf_dom dm" "reg_ok r" "mild run" "\<not> evStopped e" "\<not> evImmediate e"
  shows "\<exists>path d. build_path dm (Some t) = Some path \<and> dispatch_event run dm t e r = Some (\<not> evPrevented (dpEvent d), d)
    \<and> dpReg d = r \<and> map callee (dpCalls d) = concat (map (listeners_at r (evType e)) (stages t path (evBubbles e)))"
proof -
  obtain p where p: "build_path dm (Some t) = Some (t # p)" using build_path_facts[OF assms(1)] by blast
  define d0 where "d0 = \<lparr>dpEvent = e\<lparr>evTarget := Some t\<rparr>, dpReg = r, dpCalls = []\<rparr>"
  define d where "d = run_stages run (\<lambda>_. True) (stages t (t # p) (evBubbles e)) d0"
  have "dispatch_event run dm t e r = Some (\<not> evPrevented (dpEvent (at_rest d)), at_rest d)"
    by (simp add: dispatch_event_def dispatch_event_with_path_def dispatch_event_with_path_while_def p dispatch_along_stages d_def d0_def Let_def)
  moreover have "dpReg d = r" "map callee (dpCalls d) = concat (map (listeners_at r (evType e)) (stages t (t # p) (evBubbles e)))"
    using mild_stages[OF assms(3), of d0 "stages t (t # p) (evBubbles e)"] assms(2,4,5) by (simp_all add: d_def d0_def)
  ultimately show ?thesis using p by (intro exI[of _ "t # p"] exI[of _ "at_rest d"]) (simp add: at_rest_def)
qed

text \<open>
  Registration under a key round-trips: when a listener was added under a key, removing
  by that key, type and group takes out that listener and nothing else, on every node.
\<close>

theorem keyed_listener_round_trip:
  assumes "reg_ok r" "add_event_listener_with_options_and_key n typ cb capture passive (Some k) r = (True, r')"
  shows "rgOf (remove_event_listener_by_key n typ (Some k) capture r') = rgOf r"
proof -
  let ?old = "\<lambda>i. lsType (rgAt r i) = typ \<and> listener_matches (rgAt r i) cb (Some k) capture"
  let ?fits = "\<lambda>i. lsType (rgAt r' i) = typ \<and> listener_matches (rgAt r' i) nil_func (Some k) capture"
  have no: "\<not> ?old i" if "i \<in> set (rgOf r n)" for i
    using assms(2) that by (auto simp: add_event_listener_with_options_and_key_def list_ex_iff split: if_splits)
  have r': "rgOf r' = (rgOf r)(n := rgOf r n @ [rgNext r])" "\<And>i. i \<noteq> rgNext r \<Longrightarrow> rgAt r' i = rgAt r i" "?fits (rgNext r)"
    using assms(2) by (auto simp: add_event_listener_with_options_and_key_def listener_matches_def split: if_splits)
  have new: "rgNext r \<notin> set (rgOf r n)" using reg_okD(2)[OF assms(1)] by blast
  then have "\<not> ?fits i" if "i \<in> set (rgOf r n)" for i
  proof -
    have "rgAt r' i = rgAt r i" using r'(2)[of i] that new by metis
    then show ?thesis using no[OF that] by (auto simp: listener_matches_def split: if_splits)
  qed
  then have "List.find ?fits (rgOf r n @ [rgNext r]) = Some (rgNext r)"
    using r'(3) by (auto simp: find_append_last)
  then show ?thesis using new r'(1) by (auto simp: remove_event_listener_by_key_def remove_first_listener_def remove1_append)
qed

text \<open>
  Removal by callback does not look at keys, so it takes a keyed listener whose callback shares
  the code pointer, one that adding the same callback does not count as a duplicate.
\<close>

lemma plain_removal_takes_keyed:
  assumes "rgOf r n = i # ls" "lsType (rgAt r i) = typ" "lsCapture (rgAt r i) = capture" "lsKey (rgAt r i) = Some k"
    "cbCode (lsCallback (rgAt r i)) = cbCode f"
  shows "\<not> listener_matches (rgAt r i) f None capture \<and> rgOf (remove_event_listener n typ f capture r) n = ls"
  using assms by (simp add: listener_matches_def remove_event_listener_def remove_first_listener_def func_equal_def)

subsection \<open>A small page\<close>

definition demo_callback :: "nat \<Rightarrow> callback" where
  "demo_callback c = \<lparr>cbCode = c, cbEnv = 0\<rparr>"

definition empty_registry :: registry where
  "empty_registry = \<lparr>rgOf = (\<lambda>_. []), rgAt = (\<lambda>_. \<lparr>lsType = [], lsCallback = nil_func, lsCapture = False, lsPassive = False,
     lsRemoved = False, lsKey = None\<rparr>), rgNext = 0\<rparr>"

definition demo_registry :: registry where
  "demo_registry = snd (add_event_listener_with_options_and_key 0 ''click'' (demo_callback 1) False True None
     (snd (add_event_listener_with_options_and_key 1 ''click'' (demo_callback 2) False False None
       (snd (add_event_listener_with_options_and_key 0 ''click'' (demo_callback 1) True False None empty_registry)))))"

definition demo_script :: script where
  "demo_script f d = (if cbCode f = 1 then [PreventDefault] else [])"

lemma demo_registry_ok: "reg_ok empty_registry" "reg_ok demo_registry"
proof -
  show e: "reg_ok empty_registry" by (simp add: reg_ok_def empty_registry_def)
  show "reg_ok demo_registry" unfolding demo_registry_def by (intro add_listener_ok e)
qed

lemma demo_mild: "mild demo_script"
  by (auto simp: mild_def demo_script_def)

lemma demo_path: "build_path small_tree (Some (Suc 0)) = Some [Suc 0, 0]"
proof -
  have p: "ndParent (nd small_tree (Suc 0)) = Some 0" "ndParent (nd small_tree 0) = None"
    by (simp_all add: small_tree_def small_node_def zero_node_def)
  have "build_path small_tree None = Some []" by (subst build_path.simps) simp
  then have "build_path small_tree (Some 0) = Some [0]" by (subst build_path.simps) (simp add: p)
  then show ?thesis by (subst build_path.simps) (simp add: p)
qed

lemma demo_listeners:
  "listeners_at demo_registry ''click'' (ph, 0, True) = [(ph, 0, 0)]" "listeners_at demo_registry ''click'' (ph, 0, False) = [(ph, 0, 2)]"
  "listeners_at demo_registry ''click'' (ph, Suc 0, True) = []" "listeners_at demo_registry ''click'' (ph, Suc 0, False) = [(ph, 1, 1)]"
  by (simp_all add: listeners_at_def demo_registry_def add_event_listener_with_options_and_key_def empty_registry_def
      listener_matches_def demo_callback_def)

text \<open>Two clicks on the small tree: one that goes up to the root, one whose first listener stops everything.\<close>

theorem dispatch_reaches_all_witness:
  "\<exists>d. dispatch_event demo_script small_tree 1 (new_event ''click'' True True) demo_registry = Some (\<not> evPrevented (dpEvent d), d)
    \<and> map callee (dpCalls d) = [(CapturingPhase, 0, 0), (AtTarget, 1, 1), (BubblingPhase, 0, 2)]"
  using dispatch_reaches_all[of small_tree demo_registry demo_script "new_event ''click'' True True" 1]
  by (auto simp: small_reads demo_registry_ok demo_mild new_event_def demo_path stages_def demo_listeners)

theorem default_prevented_by_active_listener_witness:
  "\<exists>ok d. dispatch_event_with_path_while demo_script (\<lambda>_. True) small_tree 1 [] (new_event ''click'' True True) demo_registry = Some (ok, d)
    \<and> (ok \<longleftrightarrow> \<not> (\<exists>x\<in>set (dpCalls d). PreventDefault \<in> set (clActs x) \<and> \<not> lsPassive (rgAt (dpReg d) (clListener x))))"
  using default_prevented_by_active_listener[of small_tree demo_registry demo_script "\<lambda>_. True" 1 "new_event ''click'' True True"]
  by (simp add: small_reads demo_registry_ok new_event_def)

theorem listeners_called_once_witness:
  "\<exists>ok d. dispatch_event_with_path_while (\<lambda>f d. [StopImmediate, AddListener 0 ''click'' (demo_callback 9) False False None])
      (\<lambda>_. True) small_tree 1 [] (new_event ''click'' True True) demo_registry = Some (ok, d)
    \<and> distinct (map clListener (dpCalls d)) \<and> reg_ok (dpReg d)"
  using listeners_called_once[of small_tree demo_registry 1 "\<lambda>f d. [StopImmediate, AddListener 0 ''click'' (demo_callback 9) False False None]"
      "\<lambda>_. True" "new_event ''click'' True True"]
  by (auto simp: small_reads demo_registry_ok)

theorem keyed_listener_round_trip_witness:
  "\<exists>r'. add_event_listener_with_options_and_key 1 ''click'' (demo_callback 5) False False (Some 7) demo_registry = (True, r')
     \<and> rgOf (remove_event_listener_by_key 1 ''click'' (Some 7) False r') = rgOf demo_registry"
proof -
  have "fst (add_event_listener_with_options_and_key 1 ''click'' (demo_callback 5) False False (Some 7) demo_registry)"
    by (simp add: demo_registry_def add_event_listener_with_options_and_key_def empty_registry_def listener_matches_def demo_callback_def)
  then show ?thesis
    using keyed_listener_round_trip[OF demo_registry_ok(2), of 1 "''click''" "demo_callback 5" False False 7]
    by (cases "add_event_listener_with_options_and_key 1 ''click'' (demo_callback 5) False False (Some 7) demo_registry") auto
qed

end
