(* ===== verification/Css_Selector.thy ===== *)
theory Css_Selector
  imports Dom_Node
begin

text \<open>
  \<open>internal/css/selector.go\<close>, the data: a selector as the parser builds it, with the arguments of
  its functional pseudo-classes compiled, the splitting of argument strings, the An+B
  microsyntax, specificity, and the text that names a selector in the cache of \<open>:has()\<close>. A
  compiled argument is a shared object, so it carries the address it was allocated at, which is
  what the filter cache is keyed by.
\<close>

subsection \<open>Selectors\<close>

datatype condition =
    CondUniversal
  | CondType string
  | CondClass string
  | CondID string
  | CondAttr (cdAttr: string) (cdOp: string) (cdWant: string) (cdFold: bool)
  | CondPseudoClass (cdName: string) (cdArg: string) (cdCompiled: "compiled option") (cdScope: "addr option")
  | CondPseudoElement string string
and compiled = Compiled (cmAt: nat) (cmSels: "selector list") (cmHas: "(char \<times> selector) list") (cmOf: "selector list")
    (cmNth: string) (cmHasNth: bool)
and selector = Selector (slParts: "(char \<times> condition list) list")

subsection \<open>Argument strings\<close>

definition str_fields :: "string \<Rightarrow> string list" where
  "str_fields s = filter (\<lambda>w. w \<noteq> []) (split_by CHR '' '' (map (\<lambda>c. if space_char c then CHR '' '' else c) s))"

fun split_selectors_from :: "string \<Rightarrow> int \<Rightarrow> string \<Rightarrow> string list \<times> bool" where
  "split_selectors_from current depth [] = ([trim_space current], True)"
| "split_selectors_from current depth (ch # s) =
     (if ch = CHR 0x5C \<and> s \<noteq> [] then split_selectors_from (current @ [ch, hd s]) depth (tl s)
      else if ch = CHR ''('' then split_selectors_from (current @ [ch]) (depth + 1) s
      else if ch = CHR '')'' then
        (let (ws, good) = split_selectors_from (current @ [ch]) (depth - 1) s in (ws, good \<and> 0 \<le> depth - 1))
      else if ch = CHR '','' \<and> depth = 0 then
        (let (ws, good) = split_selectors_from [] depth s in (trim_space current # ws, good))
      else split_selectors_from (current @ [ch]) depth s)"

definition split_selector_list_exact :: "string \<Rightarrow> string list \<times> bool" where
  "split_selector_list_exact s = split_selectors_from [] 0 s"

definition split_selector_list :: "string \<Rightarrow> string list" where
  "split_selector_list s = filter (\<lambda>w. w \<noteq> []) (fst (split_selector_list_exact s))"

definition nth_space :: "char \<Rightarrow> bool" where
  "nth_space c \<longleftrightarrow> c = CHR '' '' \<or> c = CHR 0x09 \<or> c = CHR 0x0A"

text \<open>The loop over the argument, \<open>pre\<close> being what it has passed.\<close>

fun nth_of_from :: "string \<Rightarrow> string \<Rightarrow> (string \<times> string list) option" where
  "nth_of_from pre [] = None"
| "nth_of_from pre (c # s) =
     (if length (c # s) < 4 then None
      else if \<not> nth_space c then nth_of_from (pre @ [c]) s
      else (let r = dropWhile nth_space s in
        if 2 < length r \<and> lower_char (r ! 0) = CHR ''o'' \<and> lower_char (r ! 1) = CHR ''f'' \<and> nth_space (r ! 2)
        then Some (trim_space pre, split_selector_list (trim_space (drop 2 r)))
        else nth_of_from (pre @ [c]) s))"

definition split_nth_of :: "string \<Rightarrow> string \<times> string list" where
  "split_nth_of arg = (case nth_of_from [] arg of Some r \<Rightarrow> r | None \<Rightarrow> (arg, []))"

definition parse_nth :: "string \<Rightarrow> (int \<times> int) option" where
  "parse_nth arg =
     (let s = to_lower (concat (str_fields arg)) in
      if s = [] then None
      else if s = ''odd'' then Some (2, 1)
      else if s = ''even'' then Some (2, 0)
      else if CHR ''n'' \<notin> set s then map_option (\<lambda>v. (0, v)) (atoi s)
      else (let (coef, rest) = cut_at CHR ''n'' s in
        Option.bind (if coef = [] \<or> coef = ''+'' then Some 1 else if coef = ''-'' then Some (-1) else atoi coef) (\<lambda>a.
          case rest of
            [] \<Rightarrow> Some (a, 0)
          | x # xs \<Rightarrow>
              if x = CHR ''+'' then map_option (\<lambda>v. (a, v)) (atoi xs)
              else if x = CHR ''-'' then map_option (\<lambda>v. (a, i64 (- v))) (atoi xs)
              else None)))"

text \<open>Whether the index \<open>i\<close> is one of \<open>a * n + b\<close>, with Go's division, which rounds to zero.\<close>

definition nth_hits :: "int \<Rightarrow> int \<Rightarrow> int \<Rightarrow> bool" where
  "nth_hits a b i \<longleftrightarrow> (if a = 0 then i = b else (let d = i64 (i - b) in d smod a = 0 \<and> 0 \<le> i64 (d sdiv a)))"

subsection \<open>The name of a selector in the cache\<close>

fun format_sel :: "selector \<Rightarrow> string" and format_parts :: "bool \<Rightarrow> (char \<times> condition list) list \<Rightarrow> string"
  and format_cond :: "condition \<Rightarrow> string" and format_has :: "bool \<Rightarrow> (char \<times> selector) list \<Rightarrow> string" where
  "format_sel (Selector ps) = format_parts True ps"
| "format_parts first [] = []"
| "format_parts first ((comb, cs) # ps) =
     (if \<not> first \<and> comb \<noteq> nul then [comb, CHR '' ''] else []) @ concat (map format_cond cs) @ format_parts False ps"
| "format_cond (CondType v) = v"
| "format_cond (CondID v) = CHR ''#'' # v"
| "format_cond (CondClass v) = CHR ''.'' # v"
| "format_cond (CondPseudoClass name arg cm sc) = CHR '':'' # arg
     @ (case cm of None \<Rightarrow> [] | Some (Compiled k sels has ofs e h) \<Rightarrow>
          if arg = ''has'' \<and> has \<noteq> [] then ''('' @ format_has True has @ '')'' else [])"
| "format_cond CondUniversal = []"
| "format_cond (CondAttr a op v ci) = []"
| "format_cond (CondPseudoElement v arg) = []"
| "format_has first [] = []"
| "format_has first ((c, s) # hs) = (if first then [] else '', '') @ format_sel s @ format_has False hs"

subsection \<open>Specificity\<close>

type_synonym weight = "nat \<times> nat \<times> nat"

fun compare_specificity :: "weight \<Rightarrow> weight \<Rightarrow> int" where
  "compare_specificity (a1, b1, c1) (a2, b2, c2) =
     (if a1 \<noteq> a2 then (if a1 > a2 then 1 else -1)
      else if b1 \<noteq> b2 then (if b1 > b2 then 1 else -1)
      else if c1 \<noteq> c2 then (if c1 > c2 then 1 else -1) else 0)"

fun add_weight :: "weight \<Rightarrow> weight \<Rightarrow> weight" where
  "add_weight (a1, b1, c1) (a2, b2, c2) = (a1 + a2, b1 + b2, c1 + c2)"

text \<open>The loop that keeps the largest.\<close>

definition max_weight :: "weight list \<Rightarrow> weight" where
  "max_weight ws = fold (\<lambda>w m. if compare_specificity w m > 0 then w else m) ws (0, 0, 0)"

fun specificity :: "selector \<Rightarrow> weight" and parts_weight :: "(char \<times> condition list) list \<Rightarrow> weight"
  and conds_weight :: "condition list \<Rightarrow> weight" and cond_weight :: "condition \<Rightarrow> weight" where
  "specificity (Selector ps) = parts_weight ps"
| "parts_weight [] = (0, 0, 0)"
| "parts_weight ((comb, cs) # ps) = add_weight (conds_weight cs) (parts_weight ps)"
| "conds_weight [] = (0, 0, 0)"
| "conds_weight (c # cs) = add_weight (cond_weight c) (conds_weight cs)"
| "cond_weight (CondID v) = (1, 0, 0)"
| "cond_weight (CondClass v) = (0, 1, 0)"
| "cond_weight (CondAttr a op v ci) = (0, 1, 0)"
| "cond_weight (CondType v) = (0, 0, 1)"
| "cond_weight (CondPseudoElement v arg) = (0, 0, 1)"
| "cond_weight CondUniversal = (0, 0, 0)"
| "cond_weight (CondPseudoClass name arg cm sc) =
     (if name = ''where'' then (0, 0, 0)
      else if name \<in> {''is'', ''not'', ''host''} then
        add_weight (if name = ''host'' then (0, 1, 0) else (0, 0, 0))
          (max_weight (case cm of None \<Rightarrow> [] | Some (Compiled k sels has ofs e h) \<Rightarrow> map specificity sels))
      else if name = ''has'' then
        max_weight (case cm of None \<Rightarrow> [] | Some (Compiled k sels has ofs e h) \<Rightarrow> map (\<lambda>(c, s). specificity s) has)
      else add_weight (0, 1, 0)
        (if name \<in> {''nth-child'', ''nth-last-child'', ''nth-of-type'', ''nth-last-of-type''}
         then max_weight (case cm of None \<Rightarrow> [] | Some (Compiled k sels has ofs e h) \<Rightarrow> map specificity ofs) else (0, 0, 0)))"

end
