(* ===== verification/Css_Match.thy ===== *)
theory Css_Match
  imports Css_Selector Dom_Events
begin

text \<open>
  \<open>internal/css/selector.go\<close>, matching: a selector against a node of the document tree, from its
  rightmost compound leftwards, with the cache of sibling positions that a style pass or a DOM
  query shares between its questions. The cache is a pointer that may be nil, so every function
  takes it as an option and gives it back; \<open>None\<close> as a whole is a walk that does not return.

  What a pseudo-class that reads other state of the page answers (\<open>:hover\<close>, \<open>:checked\<close>, \<open>:lang\<close>
  and the rest of the list in \<open>matchPseudoClass\<close>) is a predicate of its name, argument and node.
\<close>

subsection \<open>The cache\<close>

record sib_list =
  sbElems :: "addr list"
  sbPos :: "addr \<Rightarrow> nat"
  sbRank :: "addr \<Rightarrow> nat"
  sbTotal :: "string \<Rightarrow> nat"

record filtered_sibs =
  fsRank :: "nat list"
  fsTotal :: nat

record sib_index =
  ixLists :: "addr \<Rightarrow> sib_list option"
  ixFilt :: "addr \<times> nat \<Rightarrow> filtered_sibs option"
  ixDesc :: "addr \<times> string \<Rightarrow> bool option"

definition new_sibling_index :: sib_index where
  "new_sibling_index = \<lparr>ixLists = (\<lambda>_. None), ixFilt = (\<lambda>_. None), ixDesc = (\<lambda>_. None)\<rparr>"

type_synonym answer = "(bool \<times> sib_index option) option"

subsection \<open>Loops that end at the first hit\<close>

fun any_st :: "('a \<Rightarrow> 's \<Rightarrow> (bool \<times> 's) option) \<Rightarrow> 'a list \<Rightarrow> 's \<Rightarrow> (bool \<times> 's) option" where
  "any_st f [] s = Some (False, s)"
| "any_st f (x # xs) s = Option.bind (f x s) (\<lambda>(b, s). if b then Some (True, s) else any_st f xs s)"

lemma any_st_cong [fundef_cong]:
  "xs = ys \<Longrightarrow> (\<And>x s. x \<in> set ys \<Longrightarrow> f x s = g x s) \<Longrightarrow> s = t \<Longrightarrow> any_st f xs s = any_st g ys t"
proof (induction xs arbitrary: ys s t)
  case (Cons x xs)
  then obtain zs where ys: "ys = x # zs" "xs = zs" by auto
  have "any_st f zs = any_st g zs" using Cons.IH[OF ys(2) _ refl] Cons.prems(2) ys by (intro ext) auto
  then show ?case using Cons.prems(2,3) ys by (simp cong: if_cong)
qed simp

subsection \<open>Walks\<close>

definition is_element :: "dom \<Rightarrow> addr \<Rightarrow> bool" where
  "is_element d x \<longleftrightarrow> ndType (nd d x) = NodeElement"

partial_function (option) prev_siblings :: "dom \<Rightarrow> addr option \<Rightarrow> addr list option" where
  "prev_siblings d c = (case c of None \<Rightarrow> Some []
     | Some x \<Rightarrow> Option.bind (prev_siblings d (ndPrev (nd d x))) (\<lambda>xs. Some (x # xs)))"

definition prev_elements :: "dom \<Rightarrow> addr \<Rightarrow> addr list option" where
  "prev_elements d n = map_option (filter (is_element d)) (prev_siblings d (ndPrev (nd d n)))"

definition next_elements :: "dom \<Rightarrow> addr \<Rightarrow> addr list option" where
  "next_elements d n = map_option (filter (is_element d)) (siblings d (ndNext (nd d n)))"

definition child_elements :: "dom \<Rightarrow> addr \<Rightarrow> addr list option" where
  "child_elements d n = map_option (filter (is_element d)) (child_nodes d n)"

definition class_list :: "node \<Rightarrow> string list" where
  "class_list n = (let v = get_attribute n ''class'' in if v = [] then [] else str_fields v)"

definition first_element_child :: "dom \<Rightarrow> addr \<Rightarrow> bool option" where
  "first_element_child d n = (case ndParent (nd d n) of None \<Rightarrow> Some False
     | Some p \<Rightarrow> map_option (\<lambda>es. case es of [] \<Rightarrow> False | e # _ \<Rightarrow> e = n) (child_elements d p))"

definition last_element_child :: "dom \<Rightarrow> addr \<Rightarrow> bool option" where
  "last_element_child d n = (case ndParent (nd d n) of None \<Rightarrow> Some False
     | Some p \<Rightarrow> map_option (\<lambda>xs. case filter (is_element d) xs of [] \<Rightarrow> False | e # _ \<Rightarrow> e = n)
         (prev_siblings d (ndLast (nd d p))))"

subsection \<open>Positions among siblings\<close>

definition add_sibling :: "dom \<Rightarrow> addr \<Rightarrow> sib_list \<Rightarrow> sib_list" where
  "add_sibling d c l =
     (let t = ndData (nd d c); k = sbTotal l t + 1; es = sbElems l @ [c]
      in l\<lparr>sbElems := es, sbPos := (sbPos l)(c := length es), sbTotal := (sbTotal l)(t := k), sbRank := (sbRank l)(c := k)\<rparr>)"

definition build_list :: "dom \<Rightarrow> addr list \<Rightarrow> sib_list" where
  "build_list d es = fold (add_sibling d) es \<lparr>sbElems = [], sbPos = (\<lambda>_. 0), sbRank = (\<lambda>_. 0), sbTotal = (\<lambda>_. 0)\<rparr>"

definition list_of :: "dom \<Rightarrow> addr \<Rightarrow> sib_index \<Rightarrow> (sib_list \<times> sib_index) option" where
  "list_of d p ix = (case ixLists ix p of Some l \<Rightarrow> Some (l, ix)
     | None \<Rightarrow> map_option (\<lambda>es. let l = build_list d es in (l, ix\<lparr>ixLists := (ixLists ix)(p := Some l)\<rparr>)) (child_elements d p))"

text \<open>\<open>hit\<close> asks whether a node matches one of the filters.\<close>

type_synonym asker = "addr \<Rightarrow> sib_index option \<Rightarrow> answer"

fun build_filtered :: "asker \<Rightarrow> addr list \<Rightarrow> filtered_sibs \<Rightarrow> sib_index option \<Rightarrow> (filtered_sibs \<times> sib_index option) option" where
  "build_filtered hit [] f ix = Some (f, ix)"
| "build_filtered hit (c # cs) f ix =
     Option.bind (hit c ix) (\<lambda>(b, ix).
       build_filtered hit cs (if b then \<lparr>fsRank = fsRank f @ [fsTotal f + 1], fsTotal = fsTotal f + 1\<rparr>
                              else f\<lparr>fsRank := fsRank f @ [0]\<rparr>) ix)"

definition filtered_of :: "asker \<Rightarrow> addr \<Rightarrow> nat option \<Rightarrow> sib_list \<Rightarrow> sib_index option \<Rightarrow> (filtered_sibs \<times> sib_index option) option" where
  "filtered_of hit p key l ix =
     (let build = build_filtered hit (sbElems l) \<lparr>fsRank = [], fsTotal = 0\<rparr> ix in
      case key of None \<Rightarrow> build
      | Some k \<Rightarrow>
          (case Option.bind ix (\<lambda>i. ixFilt i (p, k)) of Some f \<Rightarrow> Some (f, ix)
           | None \<Rightarrow> map_option (\<lambda>(f, ix). (f, map_option (\<lambda>i. i\<lparr>ixFilt := (ixFilt i)((p, k) := Some f)\<rparr>) ix)) build))"

fun count_live :: "(addr \<Rightarrow> answer) \<Rightarrow> addr \<Rightarrow> addr list \<Rightarrow> nat \<times> nat \<Rightarrow> (nat \<times> nat) option" where
  "count_live hit n [] r = Some r"
| "count_live hit n (c # cs) (i, t) =
     Option.bind (hit c) (\<lambda>(b, _).
       count_live hit n cs (if b then (if c = n then t + 1 else i, t + 1) else (i, t)))"

definition nth_index_live :: "dom \<Rightarrow> addr \<Rightarrow> bool \<Rightarrow> bool \<Rightarrow> asker \<Rightarrow> addr \<Rightarrow> (nat \<times> nat) option" where
  "nth_index_live d n of_type filters hit p =
     Option.bind (child_elements d p) (\<lambda>es.
       count_live (\<lambda>c. if filters then hit c None else Some (True, None)) n
         (filter (\<lambda>c. \<not> (of_type \<and> ndData (nd d c) \<noteq> ndData (nd d n))) es) (0, 0))"

definition nth_index :: "dom \<Rightarrow> addr \<Rightarrow> bool \<Rightarrow> bool \<Rightarrow> asker \<Rightarrow> nat option \<Rightarrow> sib_index option \<Rightarrow> ((nat \<times> nat) \<times> sib_index option) option" where
  "nth_index d n of_type filters hit key ix =
     (case ndParent (nd d n) of None \<Rightarrow> Some ((0, 0), ix)
      | Some p \<Rightarrow>
          (case ix of None \<Rightarrow> map_option (\<lambda>r. (r, None)) (nth_index_live d n of_type filters hit p)
           | Some i \<Rightarrow>
               Option.bind (list_of d p i) (\<lambda>(l, i).
                 if \<not> filters then Some (if of_type then (sbRank l n, sbTotal l (ndData (nd d n))) else (sbPos l n, length (sbElems l)), Some i)
                 else map_option (\<lambda>(f, ix). let q = sbPos l n in
                        (if q < 1 \<or> q > length (fsRank f) then (0, fsTotal f) else (fsRank f ! (q - 1), fsTotal f), ix))
                      (filtered_of hit p key l (Some i)))))"

definition match_nth :: "dom \<Rightarrow> string \<Rightarrow> bool \<Rightarrow> asker \<Rightarrow> nat option \<Rightarrow> addr \<Rightarrow> bool \<Rightarrow> bool \<Rightarrow> sib_index option \<Rightarrow> answer" where
  "match_nth d expr filters hit key n of_type from_end ix =
     (case parse_nth expr of None \<Rightarrow> Some (False, ix)
      | Some (a, b) \<Rightarrow>
          Option.bind (if filters then hit n ix else Some (True, ix)) (\<lambda>(matched, ix).
            if \<not> matched then Some (False, ix)
            else map_option (\<lambda>((i, t), ix).
                   (if i = 0 then False else nth_hits a b (if from_end then int t - int i + 1 else int i), ix))
                 (nth_index d n of_type filters hit key ix)))"

subsection \<open>Descendants\<close>

definition cached_desc :: "addr \<Rightarrow> string \<Rightarrow> sib_index option \<Rightarrow> bool" where
  "cached_desc n key ix = (case ix of None \<Rightarrow> False | Some i \<Rightarrow> ixDesc i (n, key) = Some True)"

definition store_desc :: "addr \<Rightarrow> string \<Rightarrow> bool \<Rightarrow> sib_index option \<Rightarrow> sib_index option" where
  "store_desc n key b ix = map_option (\<lambda>i. i\<lparr>ixDesc := (ixDesc i)((n, key) := Some b)\<rparr>) ix"

text \<open>The loop of \<open>hasDescendantMatching\<close> over the children of \<open>n\<close>, at child \<open>c\<close>.\<close>

partial_function (option) desc_scan :: "dom \<Rightarrow> asker \<Rightarrow> string \<Rightarrow> addr \<Rightarrow> addr option \<Rightarrow> sib_index option \<Rightarrow> answer" where
  "desc_scan d m key n c ix = (case c of
       None \<Rightarrow> Some (False, store_desc n key False ix)
     | Some x \<Rightarrow>
         if \<not> is_element d x then desc_scan d m key n (ndNext (nd d x)) ix
         else Option.bind (m x ix) (\<lambda>(b, ix).
           if b then Some (True, store_desc n key True ix)
           else Option.bind (if cached_desc x key ix then Some (True, ix) else desc_scan d m key x (ndFirst (nd d x)) ix) (\<lambda>(b, ix).
             if b then Some (True, store_desc n key True ix) else desc_scan d m key n (ndNext (nd d x)) ix)))"

definition has_descendant_matching :: "dom \<Rightarrow> asker \<Rightarrow> string \<Rightarrow> addr \<Rightarrow> sib_index option \<Rightarrow> answer" where
  "has_descendant_matching d m key n ix =
     (if cached_desc n key ix then Some (True, ix) else desc_scan d m key n (ndFirst (nd d n)) ix)"

text \<open>One alternative of \<open>:has()\<close>.\<close>

definition match_has_arg :: "dom \<Rightarrow> asker \<Rightarrow> string \<Rightarrow> char \<Rightarrow> addr \<Rightarrow> sib_index option \<Rightarrow> answer" where
  "match_has_arg d m key comb n ix =
     (if comb = CHR ''>'' then Option.bind (child_elements d n) (\<lambda>es. any_st m es ix)
      else if comb = CHR ''+'' then Option.bind (next_elements d n) (\<lambda>es. any_st m (take 1 es) ix)
      else if comb = CHR ''~'' then Option.bind (next_elements d n) (\<lambda>es. any_st m es ix)
      else has_descendant_matching d m key n ix)"

subsection \<open>Conditions\<close>

definition match_attr :: "condition \<Rightarrow> node \<Rightarrow> bool" where
  "match_attr c n =
     (if cdOp c = [] then has_attribute n (cdAttr c)
      else (let v = get_attribute n (cdAttr c); t = cdWant c;
                v = (if cdFold c then to_lower v else v); t = (if cdFold c then to_lower t else t)
            in if cdOp c = ''='' then v = t
               else if cdOp c = ''~='' then t \<in> set (str_fields v)
               else if cdOp c = ''|='' then v = t \<or> prefix (t @ ''-'') v
               else if cdOp c = ''^='' then prefix t v
               else if cdOp c = ''$='' then suffix t v
               else if cdOp c = ''*='' then contains_str v t
               else False))"

text \<open>The pseudo-classes that ask the tree alone, and take no selector.\<close>

definition plain_pseudo :: "dom \<Rightarrow> (string \<Rightarrow> string \<Rightarrow> addr \<Rightarrow> bool) \<Rightarrow> string \<Rightarrow> string \<Rightarrow> addr option \<Rightarrow> addr \<Rightarrow> bool option" where
  "plain_pseudo d page name arg sc n =
     (if name = ''first-child'' then first_element_child d n
      else if name = ''last-child'' then last_element_child d n
      else if name = ''only-child'' then
        Option.bind (first_element_child d n) (\<lambda>a. if a then last_element_child d n else Some False)
      else if name = ''root'' then Some (case ndParent (nd d n) of None \<Rightarrow> False | Some p \<Rightarrow> ndType (nd d p) = NodeDocument)
      else if name = ''empty'' then Some (ndFirst (nd d n) = None)
      else if name = ''link'' \<or> name = ''any-link'' then
        Some (to_lower (ndData (nd d n)) \<in> {''a'', ''area'', ''link''} \<and> has_attribute (nd d n) ''href'')
      else if name = ''visited'' then Some False
      else if name = ''scope'' \<and> sc \<noteq> None then Some (sc = Some n)
      else Some (page name arg n))"

definition nth_kind :: "string \<Rightarrow> (bool \<times> bool) option" where
  "nth_kind name = (if name = ''nth-child'' then Some (False, False) else if name = ''nth-last-child'' then Some (False, True)
     else if name = ''nth-of-type'' then Some (True, False) else if name = ''nth-last-of-type'' then Some (True, True) else None)"

definition never :: asker where
  "never x ix = Some (False, ix)"

definition type_position :: "dom \<Rightarrow> string \<Rightarrow> addr \<Rightarrow> sib_index option \<Rightarrow> answer option" where
  "type_position d name n ix =
     (let pos = match_nth d ''1'' False never None n True in
      if name = ''first-of-type'' then Some (pos False ix)
      else if name = ''last-of-type'' then Some (pos True ix)
      else if name = ''only-of-type'' then
        Some (Option.bind (pos False ix) (\<lambda>(b, ix). if b then pos True ix else Some (False, ix)))
      else None)"

text \<open>
  \<open>matchPseudoClass\<close>, with what its compiled arguments answer: \<open>any\<close> for the selectors, \<open>has\<close> for
  the alternatives of \<open>:has()\<close>, \<open>hit\<close> for the filters after \<open>of\<close>.
\<close>

definition match_pseudo_class :: "dom \<Rightarrow> (string \<Rightarrow> string \<Rightarrow> addr \<Rightarrow> bool) \<Rightarrow> string \<Rightarrow> string \<Rightarrow> addr option \<Rightarrow> asker
    \<Rightarrow> (sib_index option \<Rightarrow> answer) \<Rightarrow> bool \<Rightarrow> asker \<Rightarrow> nat option \<Rightarrow> string \<Rightarrow> addr \<Rightarrow> sib_index option \<Rightarrow> answer" where
  "match_pseudo_class d page name arg sc any has filters hit key expr n ix =
     (if name = ''not'' then (if arg = [] then Some (True, ix) else map_option (\<lambda>(b, ix). (\<not> b, ix)) (any n ix))
      else if name = ''is'' \<or> name = ''where'' then (if arg = [] then Some (False, ix) else any n ix)
      else if name = ''host'' then
        (if ndShadow (nd d n) = None then Some (False, ix) else if arg = [] then Some (True, ix) else any n ix)
      else if name = ''has'' then (if arg = [] then Some (False, ix) else has ix)
      else (case nth_kind name of
          Some (of_type, from_end) \<Rightarrow> match_nth d expr filters hit key n of_type from_end ix
        | None \<Rightarrow> (case type_position d name n ix of Some r \<Rightarrow> r
            | None \<Rightarrow> map_option (\<lambda>b. (b, ix)) (plain_pseudo d page name arg sc n))))"

subsection \<open>Selectors\<close>

text \<open>The parts to the left, \<open>f\<close>, for the nodes a combinator relates \<open>n\<close> to.\<close>

definition match_left :: "dom \<Rightarrow> char \<Rightarrow> asker \<Rightarrow> addr \<Rightarrow> sib_index option \<Rightarrow> answer" where
  "match_left d comb f n ix =
     (if comb = CHR '' '' then Option.bind (build_path d (ndParent (nd d n))) (\<lambda>as. any_st f as ix)
      else if comb = CHR ''>'' then (case ndParent (nd d n) of None \<Rightarrow> Some (False, ix) | Some p \<Rightarrow> f p ix)
      else if comb = CHR ''+'' then Option.bind (prev_elements d n) (\<lambda>es. case es of [] \<Rightarrow> Some (False, ix) | e # _ \<Rightarrow> f e ix)
      else if comb = CHR ''~'' then Option.bind (prev_elements d n) (\<lambda>es. any_st f es ix)
      else Some (False, ix))"

lemma match_pseudo_class_cong [fundef_cong]:
  assumes "d = d'" "page = page'" "nm = nm'" "arg = arg'" "sc = sc'" "\<And>x ix. any x ix = any' x ix" "\<And>ix. has ix = has' ix"
    "f = f'" "\<And>x ix. hit x ix = hit' x ix" "k = k'" "e = e'" "n = n'" "ix = ix'"
  shows "match_pseudo_class d page nm arg sc any has f hit k e n ix = match_pseudo_class d' page' nm' arg' sc' any' has' f' hit' k' e' n' ix'"
proof -
  have "any = any'" "has = has'" "hit = hit'" by (intro ext assms(6,7,9))+
  then show ?thesis using assms(1-5,8,10-13) by simp
qed

lemma match_has_arg_cong [fundef_cong]:
  assumes "d = d'" "\<And>x ix. m x ix = m' x ix" "k = k'" "c = c'" "n = n'" "ix = ix'"
  shows "match_has_arg d m k c n ix = match_has_arg d' m' k' c' n' ix'"
proof -
  have "m = m'" by (intro ext assms(2))
  then show ?thesis using assms(1,3-6) by simp
qed

lemma match_left_cong [fundef_cong]:
  assumes "d = d'" "c = c'" "\<And>x ix. m x ix = m' x ix" "n = n'" "ix = ix'"
  shows "match_left d c m n ix = match_left d' c' m' n' ix'"
proof -
  have "m = m'" by (intro ext assms(3))
  then show ?thesis using assms(1,2,4,5) by simp
qed

lemmas bind_fundef_cong [fundef_cong] = Option.bind_cong

lemma size_rev : "size_list f (rev xs) = size_list f xs"
  by (simp add: size_list_conv_sum_list rev_map[symmetric])

lemma size_mem : "x \<in> set xs \<Longrightarrow> f x < size_list f xs"
  by (induction xs) auto

lemma size_pair: "size_prod (\<lambda>_. 0) f = (\<lambda>p. Suc (f (snd p)))"
proof
  show "size_prod (\<lambda>_. 0) f p = Suc (f (snd p))" for p :: "'a \<times> 'b" by (cases p) simp
qed

lemma size_mem_pair: "(c, s) \<in> set xs \<Longrightarrow> size s < size_list (\<lambda>p. Suc (size (snd p))) xs"
  using size_mem[of "(c, s)" xs "\<lambda>x. Suc (size (snd x))"] by simp

function (sequential) matches_indexed :: "dom \<Rightarrow> (string \<Rightarrow> string \<Rightarrow> addr \<Rightarrow> bool) \<Rightarrow> selector \<Rightarrow> addr \<Rightarrow> sib_index option \<Rightarrow> answer"
  and match_parts :: "dom \<Rightarrow> (string \<Rightarrow> string \<Rightarrow> addr \<Rightarrow> bool) \<Rightarrow> (char \<times> condition list) list \<Rightarrow> addr \<Rightarrow> sib_index option \<Rightarrow> answer"
  and match_conditions :: "dom \<Rightarrow> (string \<Rightarrow> string \<Rightarrow> addr \<Rightarrow> bool) \<Rightarrow> condition list \<Rightarrow> addr \<Rightarrow> sib_index option \<Rightarrow> answer"
  and match_condition :: "dom \<Rightarrow> (string \<Rightarrow> string \<Rightarrow> addr \<Rightarrow> bool) \<Rightarrow> condition \<Rightarrow> addr \<Rightarrow> sib_index option \<Rightarrow> answer"
  and match_any :: "dom \<Rightarrow> (string \<Rightarrow> string \<Rightarrow> addr \<Rightarrow> bool) \<Rightarrow> selector list \<Rightarrow> addr \<Rightarrow> sib_index option \<Rightarrow> answer" where
  "matches_indexed d page (Selector ps) n ix = (if ps = [] then Some (False, ix) else match_parts d page (rev ps) n ix)"
| "match_parts d page [] n ix = Some (False, ix)"
| "match_parts d page ((comb, cs) # ps) n ix =
     (if \<not> is_element d n then Some (False, ix)
      else Option.bind (match_conditions d page cs n ix) (\<lambda>(b, ix).
        if \<not> b then Some (False, ix)
        else if ps = [] then Some (True, ix)
        else match_left d comb (\<lambda>a ix. match_parts d page ps a ix) n ix))"
| "match_conditions d page [] n ix = Some (True, ix)"
| "match_conditions d page (c # cs) n ix =
     Option.bind (match_condition d page c n ix) (\<lambda>(b, ix). if b then match_conditions d page cs n ix else Some (False, ix))"
| "match_condition d page CondUniversal n ix = Some (True, ix)"
| "match_condition d page (CondType v) n ix = Some (ndData (nd d n) = v, ix)"
| "match_condition d page (CondClass v) n ix = Some (v \<in> set (class_list (nd d n)), ix)"
| "match_condition d page (CondID v) n ix = Some (get_attribute (nd d n) ''id'' = v, ix)"
| "match_condition d page (CondAttr a op v ci) n ix = Some (match_attr (CondAttr a op v ci) (nd d n), ix)"
| "match_condition d page (CondPseudoElement v arg) n ix = Some (False, ix)"
| "match_condition d page (CondPseudoClass name arg (Some (Compiled k sels has ofs e h)) sc) n ix =
     match_pseudo_class d page name arg sc (\<lambda>x ix. match_any d page sels x ix)
       (\<lambda>ix. any_st (\<lambda>a ix. match_has_arg d (\<lambda>x ix. matches_indexed d page (snd a) x ix) (format_sel (snd a)) (fst a) n ix) has ix)
       (h \<and> ofs \<noteq> []) (\<lambda>x ix. match_any d page ofs x ix) (if h then Some k else None) (if h then e else fst (split_nth_of arg)) n ix"
| "match_condition d page (CondPseudoClass name arg None sc) n ix =
     match_pseudo_class d page name arg sc never (\<lambda>ix. Some (False, ix)) False never None (fst (split_nth_of arg)) n ix"
| "match_any d page [] n ix = Some (False, ix)"
| "match_any d page (s # ss) n ix =
     Option.bind (matches_indexed d page s n ix) (\<lambda>(b, ix). if b then Some (True, ix) else match_any d page ss n ix)"
  by pat_completeness auto
termination
  by (relation "measure (case_sum
     (case_sum (\<lambda>(d, page, s, n, ix). size s) (\<lambda>(d, page, ps, n, ix). size_list (\<lambda>p. Suc (size_list size (snd p))) ps))
     (case_sum (\<lambda>(d, page, cs, n, ix). size_list size cs)
       (case_sum (\<lambda>(d, page, c, n, ix). size c) (\<lambda>(d, page, ss, n, ix). size_list size ss))))")
    (auto simp: size_rev size_pair dest: size_mem_pair)

text \<open>Entry points: without a cache, and for a pseudo-element of the node.\<close>

definition sel_matches :: "dom \<Rightarrow> (string \<Rightarrow> string \<Rightarrow> addr \<Rightarrow> bool) \<Rightarrow> selector \<Rightarrow> addr \<Rightarrow> bool option" where
  "sel_matches d page s n = map_option fst (matches_indexed d page s n None)"

definition is_pseudo_element :: "string \<Rightarrow> condition \<Rightarrow> bool" where
  "is_pseudo_element pseudo c = (case c of CondPseudoElement v arg \<Rightarrow> v = pseudo | _ \<Rightarrow> False)"

definition matches_pseudo_element :: "dom \<Rightarrow> (string \<Rightarrow> string \<Rightarrow> addr \<Rightarrow> bool) \<Rightarrow> selector \<Rightarrow> addr \<Rightarrow> string \<Rightarrow> sib_index option \<Rightarrow> answer" where
  "matches_pseudo_element d page s n pseudo ix =
     (case rev (slParts s) of
        [] \<Rightarrow> Some (False, ix)
      | (comb, cs) # ps \<Rightarrow>
          if list_ex (is_pseudo_element pseudo) cs
          then match_parts d page ((comb, filter (\<lambda>c. \<not> is_pseudo_element pseudo c) cs) # ps) n ix
          else Some (False, ix))"

text \<open>
  The scope of a DOM query, bound in a copy. The copy keeps the identity of what it copies, which in
  the code is a new one; the cache of a query only ever sees copies.
\<close>

fun with_scope :: "addr \<Rightarrow> selector \<Rightarrow> selector" and scope_condition :: "addr \<Rightarrow> condition \<Rightarrow> condition"
  and scope_compiled :: "addr \<Rightarrow> compiled \<Rightarrow> compiled" where
  "with_scope r (Selector ps) = Selector (map (\<lambda>p. (fst p, map (scope_condition r) (snd p))) ps)"
| "scope_condition r (CondPseudoClass name arg cm sc) =
     CondPseudoClass name arg (case cm of None \<Rightarrow> None | Some c \<Rightarrow> Some (scope_compiled r c)) (Some r)"
| "scope_condition r c = c"
| "scope_compiled r (Compiled k sels has ofs e h) =
     Compiled k (map (with_scope r) sels) (map (\<lambda>a. (fst a, with_scope r (snd a))) has) (map (with_scope r) ofs) e h"

end
