(* ===== verification/Css_Meaning.thy ===== *)
theory Css_Meaning
  imports Css_Match Event_Claims
begin

text \<open>
  What a selector means, declared on the tree: a compound holds of a node, and the compounds to
  its left hold of nodes that the combinators relate it to. No order of search, no cache and no
  pointers, only the children a caller reads. The matcher of \<open>internal/css/selector.go\<close> is
  proved to compute it, without the cache for every selector, and with the cache, which then stays
  in order, for every selector whose cached answers are keyed by what they depend on.
\<close>

subsection \<open>Related nodes\<close>

definition child_els :: "dom \<Rightarrow> addr \<Rightarrow> addr list" where
  "child_els d n = filter (is_element d) (kids d n)"

definition sibs :: "dom \<Rightarrow> addr \<Rightarrow> addr list" where
  "sibs d n = (case ndParent (nd d n) of None \<Rightarrow> [n]
     | Some p \<Rightarrow> if n \<in> set (kids d p) then kids d p else shadow_kids d p)"

text \<open>The element siblings before a node, nearest first, and after it.\<close>

definition elder :: "dom \<Rightarrow> addr \<Rightarrow> addr list" where
  "elder d n = filter (is_element d) (rev (takeWhile (\<lambda>x. x \<noteq> n) (sibs d n)))"

definition younger :: "dom \<Rightarrow> addr \<Rightarrow> addr list" where
  "younger d n = filter (is_element d) (tl (dropWhile (\<lambda>x. x \<noteq> n) (sibs d n)))"

definition left_of :: "dom \<Rightarrow> char \<Rightarrow> addr \<Rightarrow> addr \<Rightarrow> bool" where
  "left_of d comb n m \<longleftrightarrow> comb = CHR '' '' \<and> (n, m) \<in> (up d)\<^sup>+ \<or> comb = CHR ''>'' \<and> ndParent (nd d n) = Some m
     \<or> comb = CHR ''+'' \<and> hd_opt (elder d n) = Some m \<or> comb = CHR ''~'' \<and> m \<in> set (elder d n)"

definition right_of :: "dom \<Rightarrow> char \<Rightarrow> addr \<Rightarrow> addr \<Rightarrow> bool" where
  "right_of d comb n m \<longleftrightarrow>
     (if comb = CHR ''>'' then m \<in> set (child_els d n)
      else if comb = CHR ''+'' then hd_opt (younger d n) = Some m
      else if comb = CHR ''~'' then m \<in> set (younger d n)
      else (n, m) \<in> {(x, y). y \<in> set (child_els d x)}\<^sup>+)"

definition nth_holds :: "dom \<Rightarrow> string \<Rightarrow> (addr \<Rightarrow> bool) \<Rightarrow> bool \<Rightarrow> bool \<Rightarrow> addr \<Rightarrow> bool" where
  "nth_holds d expr P of_type from_end n \<longleftrightarrow>
     (case parse_nth expr of None \<Rightarrow> False | Some (a, b) \<Rightarrow> P n \<and>
        (case ndParent (nd d n) of None \<Rightarrow> False | Some p \<Rightarrow>
           (let es = filter (\<lambda>x. P x \<and> (of_type \<longrightarrow> ndData (nd d x) = ndData (nd d n))) (child_els d p) in
            n \<in> set es \<and> nth_hits a b (int (Suc (length (takeWhile (\<lambda>x. x \<noteq> n) (if from_end then rev es else es))))))))"

subsection \<open>Meaning\<close>

definition plain_holds :: "dom \<Rightarrow> (string \<Rightarrow> string \<Rightarrow> addr \<Rightarrow> bool) \<Rightarrow> string \<Rightarrow> string \<Rightarrow> addr option \<Rightarrow> addr \<Rightarrow> bool" where
  "plain_holds d page name arg sc n \<longleftrightarrow>
     (if name = ''first-child'' then \<exists>p. ndParent (nd d n) = Some p \<and> hd_opt (child_els d p) = Some n
      else if name = ''last-child'' then \<exists>p. ndParent (nd d n) = Some p \<and> last_opt (child_els d p) = Some n
      else if name = ''only-child'' then \<exists>p. ndParent (nd d n) = Some p \<and> child_els d p = [n]
      else if name = ''root'' then \<exists>p. ndParent (nd d n) = Some p \<and> ndType (nd d p) = NodeDocument
      else if name = ''empty'' then kids d n = []
      else if name \<in> {''link'', ''any-link''} then
        to_lower (ndData (nd d n)) \<in> {''a'', ''area'', ''link''} \<and> has_attribute (nd d n) ''href''
      else if name = ''visited'' then False
      else if name = ''scope'' \<and> sc \<noteq> None then sc = Some n
      else page name arg n)"

definition pseudo_holds :: "dom \<Rightarrow> (string \<Rightarrow> string \<Rightarrow> addr \<Rightarrow> bool) \<Rightarrow> string \<Rightarrow> string \<Rightarrow> addr option \<Rightarrow> (addr \<Rightarrow> bool) \<Rightarrow> bool
    \<Rightarrow> (addr \<Rightarrow> bool) \<Rightarrow> string \<Rightarrow> addr \<Rightarrow> bool" where
  "pseudo_holds d page name arg sc A H P expr n \<longleftrightarrow>
     (if name = ''not'' then arg = [] \<or> \<not> A n
      else if name \<in> {''is'', ''where''} then arg \<noteq> [] \<and> A n
      else if name = ''host'' then ndShadow (nd d n) \<noteq> None \<and> (arg = [] \<or> A n)
      else if name = ''has'' then arg \<noteq> [] \<and> H
      else (case nth_kind name of Some (of_type, from_end) \<Rightarrow> nth_holds d expr P of_type from_end n
        | None \<Rightarrow>
           if name = ''first-of-type'' then nth_holds d ''1'' (\<lambda>_. True) True False n
           else if name = ''last-of-type'' then nth_holds d ''1'' (\<lambda>_. True) True True n
           else if name = ''only-of-type'' then nth_holds d ''1'' (\<lambda>_. True) True False n \<and> nth_holds d ''1'' (\<lambda>_. True) True True n
           else plain_holds d page name arg sc n))"

lemma pseudo_holds_cong [fundef_cong]:
  assumes "d = d'" "page = page'" "nm = nm'" "arg = arg'" "sc = sc'" "\<And>x. A x = A' x" "H = H'" "\<And>x. P x = P' x" "e = e'" "n = n'"
  shows "pseudo_holds d page nm arg sc A H P e n = pseudo_holds d' page' nm' arg' sc' A' H' P' e' n'"
proof -
  have "A = A'" "P = P'" by (intro ext assms(6,8))+
  then show ?thesis using assms by simp
qed

function (sequential) sat :: "dom \<Rightarrow> (string \<Rightarrow> string \<Rightarrow> addr \<Rightarrow> bool) \<Rightarrow> selector \<Rightarrow> addr \<Rightarrow> bool"
  and sat_parts :: "dom \<Rightarrow> (string \<Rightarrow> string \<Rightarrow> addr \<Rightarrow> bool) \<Rightarrow> (char \<times> condition list) list \<Rightarrow> addr \<Rightarrow> bool"
  and sat_cond :: "dom \<Rightarrow> (string \<Rightarrow> string \<Rightarrow> addr \<Rightarrow> bool) \<Rightarrow> condition \<Rightarrow> addr \<Rightarrow> bool" where
  "sat d page (Selector ps) n \<longleftrightarrow> ps \<noteq> [] \<and> sat_parts d page (rev ps) n"
| "sat_parts d page [] n \<longleftrightarrow> False"
| "sat_parts d page ((comb, cs) # ps) n \<longleftrightarrow>
     is_element d n \<and> list_all (\<lambda>c. sat_cond d page c n) cs \<and> (ps = [] \<or> (\<exists>m. left_of d comb n m \<and> sat_parts d page ps m))"
| "sat_cond d page CondUniversal n \<longleftrightarrow> True"
| "sat_cond d page (CondType v) n \<longleftrightarrow> ndData (nd d n) = v"
| "sat_cond d page (CondClass v) n \<longleftrightarrow> v \<in> set (class_list (nd d n))"
| "sat_cond d page (CondID v) n \<longleftrightarrow> get_attribute (nd d n) ''id'' = v"
| "sat_cond d page (CondAttr a op v ci) n \<longleftrightarrow> match_attr (CondAttr a op v ci) (nd d n)"
| "sat_cond d page (CondPseudoElement v arg) n \<longleftrightarrow> False"
| "sat_cond d page (CondPseudoClass name arg (Some (Compiled k sels has ofs e h)) sc) n \<longleftrightarrow>
     pseudo_holds d page name arg sc (\<lambda>x. list_ex (\<lambda>s. sat d page s x) sels)
       (list_ex (\<lambda>a. \<exists>m. right_of d (fst a) n m \<and> sat d page (snd a) m) has)
       (\<lambda>x. \<not> h \<or> ofs = [] \<or> list_ex (\<lambda>s. sat d page s x) ofs) (if h then e else fst (split_nth_of arg)) n"
| "sat_cond d page (CondPseudoClass name arg None sc) n \<longleftrightarrow>
     pseudo_holds d page name arg sc (\<lambda>_. False) False (\<lambda>_. True) (fst (split_nth_of arg)) n"
  by pat_completeness auto
termination
  by (relation "measure (case_sum (\<lambda>(d, page, s, n). size s)
     (case_sum (\<lambda>(d, page, ps, n). size_list (\<lambda>p. Suc (size_list size (snd p))) ps) (\<lambda>(d, page, c, n). size c)))")
    (auto simp: size_rev size_pair dest: size_mem_pair size_mem[of _ _ size])

subsection \<open>Walks on a well-formed tree\<close>

lemma split_at:
  assumes "n \<notin> set zs"
  shows "takeWhile (\<lambda>x. x \<noteq> n) (zs @ n # ys) = zs" "dropWhile (\<lambda>x. x \<noteq> n) (zs @ n # ys) = n # ys"
  using assms by (induction zs) auto

lemma prev_siblings_list: "is_list d h l (zs @ ys) \<Longrightarrow> prev_siblings d (last_opt zs) = Some (rev zs)"
proof (induction zs arbitrary: ys rule: rev_induct)
  case (snoc z zs)
  have "is_list d h l (zs @ z # ys)" using snoc.prems by simp
  from snoc.IH[of "z # ys"] is_list_prev[OF this] this show ?case by (subst prev_siblings.simps) simp
qed (simp add: prev_siblings.simps)

lemma sibs_list:
  assumes "wf_dom d" "ndParent (nd d n) = Some p"
  shows "\<exists>h l. is_list d h l (sibs d n) \<and> n \<in> set (sibs d n)"
proof -
  note t = wf_tree[OF assms(1)]
  have "n \<in> set (kids d p) \<or> n \<in> set (shadow_kids d p)" using tree_okD(2)[OF t] assms(2) by (auto simp: parents_ok_def)
  then show ?thesis using lists_kids[OF tree_okD(1)[OF t], of p] lists_shadow[OF tree_okD(1)[OF t], of p] assms(2)
    by (auto simp: sibs_def)
qed

lemma around:
  assumes "wf_dom d"
  shows "prev_elements d n = Some (elder d n)" "next_elements d n = Some (younger d n)"
proof -
  have "prev_siblings d (ndPrev (nd d n)) = Some (rev (takeWhile (\<lambda>x. x \<noteq> n) (sibs d n)))
      \<and> siblings d (ndNext (nd d n)) = Some (tl (dropWhile (\<lambda>x. x \<noteq> n) (sibs d n)))"
  proof (cases "ndParent (nd d n)")
    case None
    then have "ndNext (nd d n) = None" "ndPrev (nd d n) = None"
      using tree_okD(2)[OF wf_tree[OF assms]] by (auto simp: parents_ok_def)
    then show ?thesis using None by (simp add: sibs_def siblings.simps prev_siblings.simps)
  next
    case (Some p)
    obtain h l where l: "is_list d h l (sibs d n)" "n \<in> set (sibs d n)" using sibs_list[OF assms Some] by blast
    then obtain zs ys where s: "sibs d n = zs @ n # ys" "n \<notin> set zs" using split_list_first by metis
    have "ndPrev (nd d n) = last_opt zs" "ndNext (nd d n) = hd_opt ys"
      using l(1) is_list_prev is_list_next unfolding s(1) by blast+
    moreover have "prev_siblings d (last_opt zs) = Some (rev zs)" using l(1) unfolding s(1) by (rule prev_siblings_list)
    moreover have "siblings d (hd_opt ys) = Some ys" using siblings_list[of d h l "zs @ [n]" ys] l(1) unfolding s(1) by simp
    moreover have "takeWhile (\<lambda>x. x \<noteq> n) (sibs d n) = zs" "dropWhile (\<lambda>x. x \<noteq> n) (sibs d n) = n # ys"
      using split_at[OF s(2), of ys] s(1) by simp_all
    ultimately show ?thesis by simp
  qed
  then show "prev_elements d n = Some (elder d n)" "next_elements d n = Some (younger d n)"
    by (simp_all add: prev_elements_def elder_def next_elements_def younger_def)
qed

lemma kids_walk:
  assumes "wf_dom d"
  shows "child_elements d n = Some (child_els d n)" "ndFirst (nd d n) = hd_opt (kids d n)"
    "prev_siblings d (ndLast (nd d n)) = Some (rev (kids d n))" "distinct (child_els d n)"
proof -
  note l = tree_okD(1)[OF wf_tree[OF assms]]
  show "child_elements d n = Some (child_els d n)" by (simp add: child_elements_def child_els_def child_nodes_kids[OF l])
  show "ndFirst (nd d n) = hd_opt (kids d n)" by (rule first_kid[OF l])
  have i: "is_list d (ndFirst (nd d n)) (ndLast (nd d n)) (kids d n @ [])" using lists_kids[OF l] by simp
  show "prev_siblings d (ndLast (nd d n)) = Some (rev (kids d n))"
    using prev_siblings_list[OF i] i by (simp add: is_list_def)
  show "distinct (child_els d n)" using i by (simp add: is_list_def child_els_def)
qed

lemma ancestors_walk:
  assumes "wf_dom d"
  shows "\<exists>as. build_path d (ndParent (nd d n)) = Some as \<and> set as = {a. (n, a) \<in> (up d)\<^sup>+}"
proof (cases "ndParent (nd d n)")
  case None
  then have "{a. (n, a) \<in> (up d)\<^sup>+} = {}" by (auto simp: up_def dest: tranclD)
  then show ?thesis using None by (simp add: build_path.simps)
next
  case (Some p)
  have "(n, a) \<in> (up d)\<^sup>+ \<longleftrightarrow> (p, a) \<in> (up d)\<^sup>*" for a
    using Some by (auto simp: up_def dest: tranclD intro: rtrancl_into_trancl2)
  then show ?thesis using build_path_facts[OF assms, of p] Some by auto
qed

subsection \<open>Answers\<close>

text \<open>Whatever cache in order \<open>f\<close> is given, it returns, answers \<open>P\<close>, and leaves it in order.\<close>

definition gives :: "(sib_index option \<Rightarrow> bool) \<Rightarrow> (sib_index option \<Rightarrow> answer) \<Rightarrow> bool \<Rightarrow> bool" where
  "gives ok f P \<longleftrightarrow> (\<forall>ix. ok ix \<longrightarrow> (\<exists>ix'. f ix = Some (P, ix') \<and> ok ix'))"

lemma gives_const [intro!]: "P = Q \<Longrightarrow> gives ok (\<lambda>ix. Some (P, ix)) Q"
  by (simp add: gives_def)

lemma gives_any: "(\<And>x. x \<in> set xs \<Longrightarrow> gives ok (f x) (P x)) \<Longrightarrow> gives ok (any_st f xs) (\<exists>x\<in>set xs. P x)"
proof (induction xs)
  case (Cons x xs)
  have x: "gives ok (f x) (P x)" and xs: "gives ok (any_st f xs) (\<exists>x\<in>set xs. P x)" using Cons by simp_all
  show ?case unfolding gives_def
  proof (intro allI impI)
    fix ix assume "ok ix"
    then obtain ix' where 1: "f x ix = Some (P x, ix')" "ok ix'" using x by (auto simp: gives_def)
    then obtain ix'' where "any_st f xs ix' = Some (\<exists>x\<in>set xs. P x, ix'')" "ok ix''" using xs by (auto simp: gives_def)
    then show "\<exists>ix'. any_st f (x # xs) ix = Some (\<exists>x\<in>set (x # xs). P x, ix') \<and> ok ix'" using 1 by (cases "P x") auto
  qed
qed (auto simp: gives_def)

lemma gives_and:
  "gives ok f P \<Longrightarrow> (P \<Longrightarrow> gives ok g Q) \<Longrightarrow> gives ok (\<lambda>ix. Option.bind (f ix) (\<lambda>(b, ix). if b then g ix else Some (False, ix))) (P \<and> Q)"
  by (cases P) (fastforce simp: gives_def)+

lemma gives_not: "gives ok f P \<Longrightarrow> gives ok (\<lambda>ix. map_option (\<lambda>(b, ix). (\<not> b, ix)) (f ix)) (\<not> P)"
  by (fastforce simp: gives_def)

lemma gives_if: "(c \<Longrightarrow> gives ok f P) \<Longrightarrow> (\<not> c \<Longrightarrow> gives ok g P) \<Longrightarrow> gives ok (\<lambda>ix. if c then f ix else g ix) P"
  by (cases c) simp_all

lemma match_left_gives:
  assumes "wf_dom d" "\<And>m. gives ok (f m) (P m)"
  shows "gives ok (match_left d comb f n) (\<exists>m. left_of d comb n m \<and> P m)"
proof -
  obtain as where as: "build_path d (ndParent (nd d n)) = Some as" "set as = {a. (n, a) \<in> (up d)\<^sup>+}"
    using ancestors_walk[OF assms(1)] by blast
  have any: "gives ok (any_st f xs) (\<exists>m. m \<in> set xs \<and> P m)" for xs
    using gives_any[of xs ok f P] assms(2) by (auto simp: Bex_def)
  consider "comb = CHR '' ''" | "comb = CHR ''>''" | "comb = CHR ''+''" | "comb = CHR ''~''"
    | "comb \<notin> {CHR '' '', CHR ''>'', CHR ''+'', CHR ''~''}" by auto
  then show ?thesis
  proof cases
    case 1
    then have "match_left d comb f n = any_st f as" by (intro ext) (simp add: match_left_def as(1))
    then show ?thesis using any[of as] 1 by (simp add: left_of_def as(2))
  next
    case 2
    then show ?thesis
    proof (cases "ndParent (nd d n)")
      case None
      then show ?thesis using 2 by (auto simp: match_left_def left_of_def gives_def)
    next
      case (Some p)
      then have "match_left d comb f n = f p" using 2 by (intro ext) (simp add: match_left_def)
      then show ?thesis using assms(2)[of p] 2 Some by (simp add: left_of_def)
    qed
  next
    case 3
    then show ?thesis
    proof (cases "elder d n")
      case Nil
      then show ?thesis using 3 by (auto simp: match_left_def left_of_def gives_def around[OF assms(1)])
    next
      case (Cons e es)
      then have "match_left d comb f n = f e" using 3 by (intro ext) (simp add: match_left_def around[OF assms(1)])
      then show ?thesis using assms(2)[of e] 3 Cons by (simp add: left_of_def)
    qed
  next
    case 4
    then have "match_left d comb f n = any_st f (elder d n)" by (intro ext) (simp add: match_left_def around[OF assms(1)])
    then show ?thesis using any[of "elder d n"] 4 by (simp add: left_of_def)
  next
    case 5
    then show ?thesis by (auto simp: match_left_def left_of_def gives_def)
  qed
qed

subsection \<open>Positions\<close>

abbreviation place :: "addr \<Rightarrow> addr list \<Rightarrow> nat" where
  "place n es \<equiv> Suc (length (takeWhile (\<lambda>x. x \<noteq> n) es))"

lemma place_snoc: "place n (es @ [c]) = (if n \<in> set es then place n es else if c = n then Suc (length es) else length es + 2)"
proof (cases "n \<in> set es")
  case True
  then obtain xs ys where "es = xs @ n # ys" "n \<notin> set xs" using split_list_first by metis
  then show ?thesis using split_at[of n xs "ys @ [c]"] split_at[of n xs ys] by simp
next
  case False
  then have "takeWhile (\<lambda>x. x \<noteq> n) es = es" by auto
  then show ?thesis using False by (simp add: takeWhile_append2)
qed

lemma place_bounds: "n \<in> set es \<Longrightarrow> place n es \<le> length es \<and> es ! (place n es - 1) = n"
proof -
  assume "n \<in> set es"
  then obtain xs ys where "es = xs @ n # ys" "n \<notin> set xs" using split_list_first by metis
  then show ?thesis using split_at[of n xs ys] by simp
qed

lemma place_rev:
  assumes "distinct es" "n \<in> set es"
  shows "place n (rev es) = length es - place n es + 1"
proof -
  obtain xs ys where e: "es = xs @ n # ys" "n \<notin> set xs" using assms(2) split_list_first by metis
  then have "n \<notin> set (rev ys)" using assms(1) by simp
  then show ?thesis using split_at[of n xs ys] split_at[of n "rev ys" "rev xs"] e by simp
qed

lemma build_list_facts:
  assumes "distinct es"
  shows "sbElems (build_list d es) = es" "sbPos (build_list d es) n = (if n \<in> set es then place n es else 0)"
    "sbTotal (build_list d es) t = length (filter (\<lambda>x. ndData (nd d x) = t) es)"
    "sbRank (build_list d es) n
       = (if n \<in> set es then place n (filter (\<lambda>x. ndData (nd d x) = ndData (nd d n)) es) else 0)"
proof -
  have "sbElems (build_list d es) = es \<and> (\<forall>n. sbPos (build_list d es) n = (if n \<in> set es then place n es else 0))
    \<and> (\<forall>t. sbTotal (build_list d es) t = length (filter (\<lambda>x. ndData (nd d x) = t) es))
    \<and> (\<forall>n. sbRank (build_list d es) n
         = (if n \<in> set es then place n (filter (\<lambda>x. ndData (nd d x) = ndData (nd d n)) es) else 0))"
    using assms
  proof (induction es rule: rev_induct)
    case Nil
    then show ?case by (simp add: build_list_def)
  next
    case (snoc c es)
    have b: "build_list d (es @ [c]) = add_sibling d c (build_list d es)" by (simp add: build_list_def)
    have c: "c \<notin> set es" "distinct es" using snoc.prems by auto
    note IH = snoc.IH[OF c(2)]
    have "c \<notin> set (filter (\<lambda>x. ndData (nd d x) = ndData (nd d n)) es)" for n using c(1) by simp
    then show ?case unfolding b add_sibling_def Let_def using IH c(1) by (auto simp: place_snoc)
  qed
  then show "sbElems (build_list d es) = es" "sbPos (build_list d es) n = (if n \<in> set es then place n es else 0)"
    "sbTotal (build_list d es) t = length (filter (\<lambda>x. ndData (nd d x) = t) es)"
    "sbRank (build_list d es) n
       = (if n \<in> set es then place n (filter (\<lambda>x. ndData (nd d x) = ndData (nd d n)) es) else 0)"
    by blast+
qed

lemma count_live_is:
  assumes "distinct cs" "\<And>c. c \<in> set cs \<Longrightarrow> \<exists>w. hit c = Some (P c, w)"
  shows "count_live hit n cs (i, t) = Some (if n \<in> set (filter P cs) then t + place n (filter P cs) else i, t + length (filter P cs))"
  using assms
proof (induction cs arbitrary: i t)
  case (Cons c cs)
  obtain w where w: "hit c = Some (P c, w)" using Cons.prems(2)[of c] by auto
  have IH: "count_live hit n cs (i, t) = Some (if n \<in> set (filter P cs) then t + place n (filter P cs) else i, t + length (filter P cs))" for i t
    using Cons.IH Cons.prems by simp
  show ?case using Cons.prems(1) by (auto simp: w IH)
qed simp

text \<open>The table of ranks among the nodes that pass.\<close>

fun table_from :: "(addr \<Rightarrow> bool) \<Rightarrow> addr list \<Rightarrow> filtered_sibs \<Rightarrow> filtered_sibs" where
  "table_from P [] f = f"
| "table_from P (c # cs) f = table_from P cs (if P c then \<lparr>fsRank = fsRank f @ [fsTotal f + 1], fsTotal = fsTotal f + 1\<rparr>
     else f\<lparr>fsRank := fsRank f @ [0]\<rparr>)"

definition table :: "(addr \<Rightarrow> bool) \<Rightarrow> addr list \<Rightarrow> filtered_sibs" where
  "table P cs = table_from P cs \<lparr>fsRank = [], fsTotal = 0\<rparr>"

lemma table_from_append: "table_from P (xs @ ys) f = table_from P ys (table_from P xs f)"
  by (induction xs arbitrary: f) simp_all

lemma table_facts:
  assumes "distinct cs"
  shows "length (fsRank (table P cs)) = length cs" "fsTotal (table P cs) = length (filter P cs)"
    "n \<in> set cs \<Longrightarrow> fsRank (table P cs) ! (place n cs - 1) = (if P n then place n (filter P cs) else 0)"
proof -
  have "length (fsRank (table P cs)) = length cs \<and> fsTotal (table P cs) = length (filter P cs)
    \<and> (\<forall>n\<in>set cs. fsRank (table P cs) ! (place n cs - 1) = (if P n then place n (filter P cs) else 0))"
    using assms
  proof (induction cs rule: rev_induct)
    case Nil
    then show ?case by (simp add: table_def)
  next
    case (snoc c cs)
    let ?t = "table P cs"
    have t: "table P (cs @ [c]) = (if P c then \<lparr>fsRank = fsRank ?t @ [fsTotal ?t + 1], fsTotal = fsTotal ?t + 1\<rparr>
        else ?t\<lparr>fsRank := fsRank ?t @ [0]\<rparr>)" by (simp add: table_def table_from_append)
    have c: "c \<notin> set cs" "distinct cs" using snoc.prems by auto
    note IH = snoc.IH[OF c(2)]
    have "place n cs - 1 < length (fsRank ?t)" if "n \<in> set cs" for n using place_bounds[OF that] IH by simp
    then show ?case unfolding t using IH c(1) by (auto simp: place_snoc nth_append)
  qed
  then show "length (fsRank (table P cs)) = length cs" "fsTotal (table P cs) = length (filter P cs)"
    "n \<in> set cs \<Longrightarrow> fsRank (table P cs) ! (place n cs - 1) = (if P n then place n (filter P cs) else 0)"
    by blast+
qed

lemma build_filtered_gives:
  assumes "\<And>x. gives ok (hit x) (P x)" "ok ix"
  shows "\<exists>ix'. build_filtered hit cs f ix = Some (table_from P cs f, ix') \<and> ok ix'"
  using assms(2)
proof (induction cs arbitrary: f ix)
  case (Cons c cs)
  obtain ix' where "hit c ix = Some (P c, ix')" "ok ix'" using assms(1)[of c] Cons.prems by (auto simp: gives_def)
  then show ?case using Cons.IH[OF \<open>ok ix'\<close>] by simp
qed simp

subsection \<open>The cache in order\<close>

text \<open>\<open>own\<close> names the filters an address was compiled for. Nothing is asked of the descendant answers.\<close>

definition filter_holds :: "dom \<Rightarrow> (string \<Rightarrow> string \<Rightarrow> addr \<Rightarrow> bool) \<Rightarrow> selector list \<Rightarrow> addr \<Rightarrow> bool" where
  "filter_holds d page fs x \<longleftrightarrow> list_ex (\<lambda>s. sat d page s x) fs"

definition index_ok :: "dom \<Rightarrow> (string \<Rightarrow> string \<Rightarrow> addr \<Rightarrow> bool) \<Rightarrow> (nat \<Rightarrow> selector list) \<Rightarrow> sib_index \<Rightarrow> bool" where
  "index_ok d page own i \<longleftrightarrow> (\<forall>p l. ixLists i p = Some l \<longrightarrow> l = build_list d (child_els d p))
     \<and> (\<forall>p k f. ixFilt i (p, k) = Some f \<longrightarrow> f = table (filter_holds d page (own k)) (child_els d p))"

text \<open>No cache, or one in order.\<close>

definition cache_ok :: "bool \<Rightarrow> dom \<Rightarrow> (string \<Rightarrow> string \<Rightarrow> addr \<Rightarrow> bool) \<Rightarrow> (nat \<Rightarrow> selector list) \<Rightarrow> sib_index option \<Rightarrow> bool" where
  "cache_ok live d page own ix \<longleftrightarrow> (if live then ix = None else \<exists>i. ix = Some i \<and> index_ok d page own i)"

lemma new_index_ok: "index_ok d page own new_sibling_index"
  by (simp add: index_ok_def new_sibling_index_def)

lemma list_of_ok:
  assumes "wf_dom d" "index_ok d page own i"
  shows "\<exists>i'. list_of d p i = Some (build_list d (child_els d p), i') \<and> index_ok d page own i'"
proof (cases "ixLists i p")
  case None
  then show ?thesis using assms(2) kids_walk(1)[OF assms(1), of p]
    by (auto simp: list_of_def Let_def index_ok_def)
next
  case (Some l)
  then have "l = build_list d (child_els d p)" using assms(2) by (simp add: index_ok_def)
  then show ?thesis using Some assms(2) by (simp add: list_of_def)
qed

lemma filtered_of_ok:
  assumes "index_ok d page own i" "\<And>x. gives (cache_ok False d page own) (hit x) (P x)" "sbElems l = child_els d p"
    "\<And>k. key = Some k \<Longrightarrow> P = filter_holds d page (own k)"
  shows "\<exists>i'. filtered_of hit p key l (Some i) = Some (table P (child_els d p), Some i') \<and> index_ok d page own i'"
proof -
  have c: "cache_ok False d page own (Some i)" using assms(1) by (simp add: cache_ok_def)
  obtain i' where b: "build_filtered hit (sbElems l) \<lparr>fsRank = [], fsTotal = 0\<rparr> (Some i) = Some (table P (child_els d p), Some i')"
    "index_ok d page own i'"
    using build_filtered_gives[of "cache_ok False d page own" hit P "Some i" "sbElems l"] c assms(2,3)
    by (fastforce simp: cache_ok_def table_def)
  show ?thesis
  proof (cases key)
    case None
    then show ?thesis using b by (simp add: filtered_of_def)
  next
    case (Some k)
    show ?thesis
    proof (cases "ixFilt i (p, k)")
      case None
      then show ?thesis using b Some assms(4)[OF Some] by (auto simp: filtered_of_def index_ok_def)
    next
      case (Some f)
      then have "f = table P (child_els d p)" using assms(1,4) \<open>key = Some k\<close> by (simp add: index_ok_def)
      then show ?thesis using Some \<open>key = Some k\<close> assms(1) by (simp add: filtered_of_def Let_def)
    qed
  qed
qed

text \<open>The index and the number of siblings that count, both ways of finding them.\<close>

lemma nth_index_gives:
  assumes "wf_dom d" "ndParent (nd d n) = Some p" "cache_ok live d page own ix" "\<And>x. gives (cache_ok live d page own) (hit x) (P x)"
    "\<not> live \<Longrightarrow> filters \<Longrightarrow> \<not> of_type" "\<And>k. \<not> live \<Longrightarrow> filters \<Longrightarrow> key = Some k \<Longrightarrow> P = filter_holds d page (own k)"
    "filters \<Longrightarrow> P n"
  defines "es \<equiv> filter (\<lambda>x. (filters \<longrightarrow> P x) \<and> (of_type \<longrightarrow> ndData (nd d x) = ndData (nd d n))) (child_els d p)"
  shows "\<exists>ix'. nth_index d n of_type filters hit key ix = Some ((if n \<in> set es then place n es else 0, length es), ix')
    \<and> cache_ok live d page own ix'"
proof (cases live)
  case True
  then have ix: "ix = None" using assms(3) by (simp add: cache_ok_def)
  have hit: "\<exists>w. (if filters then hit c None else Some (True, None)) = Some (filters \<longrightarrow> P c, w)" for c
    using assms(4)[of c] True by (auto simp: gives_def cache_ok_def)
  have e: "filter (\<lambda>c. filters \<longrightarrow> P c) (filter (\<lambda>c. \<not> (of_type \<and> ndData (nd d c) \<noteq> ndData (nd d n))) (child_els d p)) = es"
    unfolding es_def filter_filter by (intro filter_cong) auto
  have "nth_index_live d n of_type filters hit p = Some (if n \<in> set es then place n es else 0, length es)"
    using count_live_is[of "filter (\<lambda>c. \<not> (of_type \<and> ndData (nd d c) \<noteq> ndData (nd d n))) (child_els d p)"
        "\<lambda>c. if filters then hit c None else Some (True, None)" "\<lambda>c. filters \<longrightarrow> P c" n 0 0] hit kids_walk(4)[OF assms(1), of p]
    unfolding nth_index_live_def kids_walk(1)[OF assms(1)] e by simp
  then show ?thesis using ix True assms(2) by (simp add: nth_index_def cache_ok_def)
next
  case False
  then obtain i where i: "ix = Some i" "index_ok d page own i" using assms(3) by (auto simp: cache_ok_def)
  obtain i' where l: "list_of d p i = Some (build_list d (child_els d p), i')" "index_ok d page own i'"
    using list_of_ok[OF assms(1) i(2)] by blast
  note b = build_list_facts[OF kids_walk(4)[OF assms(1), of p], of d]
  show ?thesis
  proof (cases filters)
    case F: False
    have "es = (if of_type then filter (\<lambda>x. ndData (nd d x) = ndData (nd d n)) (child_els d p) else child_els d p)"
      using F by (simp add: es_def)
    then show ?thesis using F False i(1) l assms(2) by (simp add: nth_index_def b cache_ok_def)
  next
    case F: True
    have ot: "\<not> of_type" using assms(5) False F by blast
    have es: "es = filter P (child_els d p)" using F ot by (simp add: es_def)
    obtain i'' where f: "filtered_of hit p key (build_list d (child_els d p)) (Some i') = Some (table P (child_els d p), Some i'')"
      "index_ok d page own i''"
      using filtered_of_ok[OF l(2), of hit P "build_list d (child_els d p)" p key] assms(4,6) False F b(1) by auto
    note t = table_facts[OF kids_walk(4)[OF assms(1), of p], where P = P]
    have in_es: "n \<in> set es \<longleftrightarrow> n \<in> set (child_els d p)" using assms(7)[OF F] by (simp add: es)
    have "(let q = sbPos (build_list d (child_els d p)) n; f = table P (child_els d p) in
        if q < 1 \<or> q > length (fsRank f) then (0, fsTotal f) else (fsRank f ! (q - 1), fsTotal f))
      = (if n \<in> set es then place n es else 0, length es)"
    proof (cases "n \<in> set (child_els d p)")
      case True
      then show ?thesis using t(1,2) t(3)[OF True] place_bounds[OF True] assms(7)[OF F] in_es es b(2)[of n] by (simp add: Let_def)
    qed (use in_es es t(2) b(2)[of n] in \<open>simp add: Let_def\<close>)
    then show ?thesis using F False i(1) l f ot assms(2) by (simp add: nth_index_def cache_ok_def Let_def)
  qed
qed

lemma match_nth_gives:
  assumes "wf_dom d" "\<And>x. gives (cache_ok live d page own) (hit x) (P x)"
    "\<not> live \<Longrightarrow> filters \<Longrightarrow> \<not> of_type" "\<And>k. \<not> live \<Longrightarrow> filters \<Longrightarrow> key = Some k \<Longrightarrow> P = filter_holds d page (own k)"
  shows "gives (cache_ok live d page own) (match_nth d expr filters hit key n of_type from_end)
    (nth_holds d expr (\<lambda>x. filters \<longrightarrow> P x) of_type from_end n)"
  unfolding gives_def
proof (intro allI impI)
  fix ix assume ok: "cache_ok live d page own ix"
  show "\<exists>ix'. match_nth d expr filters hit key n of_type from_end ix
      = Some (nth_holds d expr (\<lambda>x. filters \<longrightarrow> P x) of_type from_end n, ix') \<and> cache_ok live d page own ix'"
  proof (cases "parse_nth expr")
    case None
    then show ?thesis using ok by (simp add: match_nth_def nth_holds_def)
  next
    case (Some ab)
    obtain a b where ab: "parse_nth expr = Some (a, b)" using Some by (cases ab) simp
    obtain ix1 where 1: "(if filters then hit n ix else Some (True, ix)) = Some (filters \<longrightarrow> P n, ix1)" "cache_ok live d page own ix1"
      using assms(2)[of n] ok by (cases filters) (auto simp: gives_def)
    show ?thesis
    proof (cases "filters \<longrightarrow> P n")
      case False
      then show ?thesis using 1 ab by (simp add: match_nth_def nth_holds_def)
    next
      case T: True
      show ?thesis
      proof (cases "ndParent (nd d n)")
        case None
        then show ?thesis using 1 ab T by (simp add: match_nth_def nth_holds_def nth_index_def)
      next
        case (Some p)
        define es where "es = filter (\<lambda>x. (filters \<longrightarrow> P x) \<and> (of_type \<longrightarrow> ndData (nd d x) = ndData (nd d n))) (child_els d p)"
        obtain ix2 where 2: "nth_index d n of_type filters hit key ix1 = Some ((if n \<in> set es then place n es else 0, length es), ix2)"
          "cache_ok live d page own ix2"
          using nth_index_gives[OF assms(1) Some 1(2) assms(2-4)] T unfolding es_def by blast
        have "distinct es" using kids_walk(4)[OF assms(1)] by (simp add: es_def)
        then have "int (length es) - int (place n es) + 1 = int (place n (rev es))" if "n \<in> set es"
          using place_rev[OF _ that] place_bounds[OF that] by simp
        then have "nth_holds d expr (\<lambda>x. filters \<longrightarrow> P x) of_type from_end n
            \<longleftrightarrow> n \<in> set es \<and> nth_hits a b (if from_end then int (length es) - int (place n es) + 1 else int (place n es))"
          using T by (cases "n \<in> set es") (simp_all add: nth_holds_def ab Some es_def[symmetric] Let_def)
        then show ?thesis using 1 2 ab T by (auto simp: match_nth_def)
      qed
    qed
  qed
qed

subsection \<open>Descendants\<close>

definition inside_of :: "dom \<Rightarrow> (addr \<times> addr) set" where
  "inside_of d = {(x, y). y \<in> set (child_els d x)}"

lemma inside_of_step: "(n, y) \<in> (inside_of d)\<^sup>+ \<longleftrightarrow> (\<exists>x\<in>set (child_els d n). y = x \<or> (x, y) \<in> (inside_of d)\<^sup>+)"
proof -
  have "(n, y) \<in> (inside_of d)\<^sup>+ \<longleftrightarrow> (\<exists>x. (n, x) \<in> inside_of d \<and> (x, y) \<in> (inside_of d)\<^sup>*)"
    by (auto dest: tranclD intro: rtrancl_into_trancl2)
  then show ?thesis by (auto simp: inside_of_def rtrancl_eq_or_trancl)
qed

lemma desc_scan_live:
  assumes "wf_dom d" "\<And>x. m x None = Some (P x, None)"
  shows "desc_scan d m key n (ndFirst (nd d n)) None = Some (\<exists>y. (n, y) \<in> (inside_of d)\<^sup>+ \<and> P y, None)"
proof (induction n rule: wf_induct_rule[OF wf_down[OF tree_okD(1)[OF wf_tree[OF assms(1)]]]])
  case (1 n)
  define Q where "Q x = (\<exists>z. (x, z) \<in> (inside_of d)\<^sup>+ \<and> P z)" for x
  have "desc_scan d m key n (hd_opt ys) None = Some (\<exists>x\<in>set (filter (is_element d) ys). P x \<or> Q x, None)" if "kids d n = zs @ ys" for zs ys
    using that
  proof (induction ys arbitrary: zs)
    case Nil
    then show ?case by (simp add: desc_scan.simps store_desc_def)
  next
    case (Cons y ys)
    have nx: "ndNext (nd d y) = hd_opt ys"
      using is_list_next lists_kids[OF tree_okD(1)[OF wf_tree[OF assms(1)]], of n] unfolding Cons.prems by blast
    have "(y, n) \<in> down d (kids d) (shadow_kids d)" using Cons.prems by (simp add: down_def)
    note deep = 1[OF this, folded Q_def]
    have rest: "desc_scan d m key n (hd_opt ys) None = Some (\<exists>x\<in>set (filter (is_element d) ys). P x \<or> Q x, None)"
      using Cons.IH[of "zs @ [y]"] Cons.prems by simp
    have "desc_scan d m key n (Some y) None = (if \<not> is_element d y then desc_scan d m key n (hd_opt ys) None
        else if P y then Some (True, None) else if Q y then Some (True, None) else desc_scan d m key n (hd_opt ys) None)"
      by (subst desc_scan.simps) (simp add: nx assms(2) deep cached_desc_def store_desc_def)
    then show ?case by (simp add: rest)
  qed
  from this[of "[]" "kids d n"] have "desc_scan d m key n (ndFirst (nd d n)) None = Some (\<exists>x\<in>set (child_els d n). P x \<or> Q x, None)"
    unfolding kids_walk(2)[OF assms(1)] by (simp add: child_els_def)
  moreover have "(\<exists>x\<in>set (child_els d n). P x \<or> Q x) \<longleftrightarrow> (\<exists>y. (n, y) \<in> (inside_of d)\<^sup>+ \<and> P y)"
    unfolding inside_of_step[of n] Q_def by blast
  ultimately show ?case by simp
qed

lemma match_has_arg_live:
  assumes "wf_dom d" "\<And>x. gives (cache_ok True d page own) (m x) (P x)"
  shows "gives (cache_ok True d page own) (match_has_arg d m key comb n) (\<exists>y. right_of d comb n y \<and> P y)"
proof -
  have m: "m x None = Some (P x, None)" for x using assms(2)[of x] by (auto simp: gives_def cache_ok_def)
  have any: "any_st m xs None = Some (\<exists>y. y \<in> set xs \<and> P y, None)" for xs
    using gives_any[of xs "cache_ok True d page own" m P] assms(2) by (auto simp: gives_def cache_ok_def Bex_def)
  have "any_st m (take 1 xs) None = Some (\<exists>y. hd_opt xs = Some y \<and> P y, None)" for xs
    using m by (cases xs) auto
  then have "match_has_arg d m key comb n None = Some (\<exists>y. right_of d comb n y \<and> P y, None)"
    using desc_scan_live[where m = m and P = P and key = key and n = n, OF assms(1) m]
    by (simp add: match_has_arg_def right_of_def kids_walk(1)[OF assms(1)] around[OF assms(1)] any has_descendant_matching_def
        cached_desc_def inside_of_def)
  then show ?thesis by (simp add: gives_def cache_ok_def)
qed

subsection \<open>The matcher computes the meaning\<close>

text \<open>
  Selectors whose answers the cache may hold: no \<open>:has()\<close>, filters only of the untyped
  positions, and every address of compiled arguments naming its own filters.
\<close>

fun cacheable :: "(nat \<Rightarrow> selector list) \<Rightarrow> selector \<Rightarrow> bool" and cacheable_cond :: "(nat \<Rightarrow> selector list) \<Rightarrow> condition \<Rightarrow> bool"
  and cacheable_args :: "(nat \<Rightarrow> selector list) \<Rightarrow> compiled \<Rightarrow> bool" where
  "cacheable own (Selector ps) = list_all (\<lambda>p. list_all (cacheable_cond own) (snd p)) ps"
| "cacheable_cond own (CondPseudoClass name arg cm sc) = (case cm of None \<Rightarrow> True
     | Some c \<Rightarrow> cacheable_args own c \<and> (cmHasNth c \<and> cmOf c \<noteq> [] \<longrightarrow> name \<noteq> ''nth-of-type'' \<and> name \<noteq> ''nth-last-of-type''))"
| "cacheable_cond own c = True"
| "cacheable_args own (Compiled k sels has ofs e h) \<longleftrightarrow>
     has = [] \<and> list_all (cacheable own) sels \<and> list_all (cacheable own) ofs \<and> (h \<longrightarrow> own k = ofs)"

lemma nth_kind_type: "nth_kind name = Some (True, b) \<Longrightarrow> name = ''nth-of-type'' \<or> name = ''nth-last-of-type''"
  by (auto simp: nth_kind_def split: if_splits)

lemma never_gives: "gives ok (never x) False"
  by (simp add: never_def gives_def)

lemma plain_pseudo_is:
  assumes "wf_dom d"
  shows "plain_pseudo d page name arg sc n = Some (plain_holds d page name arg sc n)"
proof -
  have f: "first_element_child d n = Some (\<exists>p. ndParent (nd d n) = Some p \<and> hd_opt (child_els d p) = Some n)"
    by (auto simp: first_element_child_def kids_walk(1)[OF assms] split: option.split list.split)
  have l: "last_element_child d n = Some (\<exists>p. ndParent (nd d n) = Some p \<and> last_opt (child_els d p) = Some n)"
  proof -
    have "(case filter (is_element d) (rev (kids d p)) of [] \<Rightarrow> False | e # _ \<Rightarrow> e = n) \<longleftrightarrow> last_opt (child_els d p) = Some n" for p
      by (cases "child_els d p" rule: rev_cases) (auto simp: child_els_def rev_filter[symmetric])
    then show ?thesis by (auto simp: last_element_child_def kids_walk(3)[OF assms] split: option.split)
  qed
  have "hd_opt es = Some n \<and> last_opt es = Some n \<longleftrightarrow> es = [n]" if "distinct es" for es
    using that by (cases es; cases "tl es" rule: rev_cases) auto
  from this[OF kids_walk(4)[OF assms]]
  have o: "(\<exists>p. ndParent (nd d n) = Some p \<and> hd_opt (child_els d p) = Some n) \<and> (\<exists>p. ndParent (nd d n) = Some p \<and> last_opt (child_els d p) = Some n)
      \<longleftrightarrow> (\<exists>p. ndParent (nd d n) = Some p \<and> child_els d p = [n])" by (cases "ndParent (nd d n)") simp_all
  have e: "(ndFirst (nd d n) = None) = (kids d n = [])" by (simp add: kids_walk(2)[OF assms])
  have r: "(case ndParent (nd d n) of None \<Rightarrow> False | Some p \<Rightarrow> ndType (nd d p) = NodeDocument)
      = (\<exists>p. ndParent (nd d n) = Some p \<and> ndType (nd d p) = NodeDocument)" by (simp split: option.split)
  have b: "Option.bind (Some A) (\<lambda>a. if a then Some B else Some False) = Some (A \<and> B)" for A B by simp
  show ?thesis
    unfolding plain_pseudo_def plain_holds_def f l e r b o by (simp only: if_distrib[of Some] insert_iff empty_iff simp_thms)
qed

lemma type_position_gives:
  assumes "wf_dom d"
  shows "gives (cache_ok live d page own) (match_nth d ''1'' False never None n True from_end) (nth_holds d ''1'' (\<lambda>_. True) True from_end n)"
  using match_nth_gives[of d live page own never "\<lambda>_. False" False True None "''1''" n from_end] assms never_gives by simp

lemma match_pseudo_gives:
  assumes "wf_dom d" "gives (cache_ok live d page own) (any n) (A n)" "gives (cache_ok live d page own) has H"
    "\<And>x. gives (cache_ok live d page own) (hit x) (P x)"
    "\<And>b. \<not> live \<Longrightarrow> filters \<Longrightarrow> nth_kind name \<noteq> Some (True, b)"
    "\<And>k. \<not> live \<Longrightarrow> filters \<Longrightarrow> key = Some k \<Longrightarrow> P = filter_holds d page (own k)"
  shows "gives (cache_ok live d page own) (match_pseudo_class d page name arg sc any has filters hit key expr n)
    (pseudo_holds d page name arg sc A H (\<lambda>x. filters \<longrightarrow> P x) expr n)"
proof -
  let ?ok = "cache_ok live d page own"
  consider "name = ''not''" | "name \<in> {''is'', ''where''}" | "name = ''host''" | "name = ''has''"
    | "name \<notin> {''not'', ''is'', ''where'', ''host'', ''has''}" by blast
  then show ?thesis
  proof cases
    case 1
    then show ?thesis using gives_not[OF assms(2)] unfolding match_pseudo_class_def pseudo_holds_def
      by (cases "arg = []") (simp_all add: gives_def)
  next
    case 2
    then show ?thesis using assms(2) unfolding match_pseudo_class_def pseudo_holds_def
      by (cases "arg = []") (auto simp: gives_def)
  next
    case 3
    then show ?thesis using assms(2) unfolding match_pseudo_class_def pseudo_holds_def
      by (cases "arg = []"; cases "ndShadow (nd d n)") (simp_all add: gives_def)
  next
    case 4
    then show ?thesis using assms(3) unfolding match_pseudo_class_def pseudo_holds_def
      by (cases "arg = []") (simp_all add: gives_def)
  next
    case 5
    show ?thesis
    proof (cases "nth_kind name")
      case (Some tl)
      obtain t l where tl: "nth_kind name = Some (t, l)" using Some by (cases tl) simp
      have "\<not> live \<Longrightarrow> filters \<Longrightarrow> \<not> t" using assms(5)[of l] tl by (cases t) auto
      from match_nth_gives[where P = P, OF assms(1,4) this assms(6)] show ?thesis
        using 5 tl unfolding match_pseudo_class_def pseudo_holds_def by simp
    next
      case None
      note pos = type_position_gives[OF assms(1), of live page own n]
      have plain: "gives ?ok (\<lambda>ix. map_option (\<lambda>b. (b, ix)) (plain_pseudo d page name arg sc n)) (plain_holds d page name arg sc n)"
        by (simp add: plain_pseudo_is[OF assms(1)] gives_def)
      have both: "gives ?ok (\<lambda>ix. Option.bind (match_nth d ''1'' False never None n True False ix)
          (\<lambda>(b, ix). if b then match_nth d ''1'' False never None n True True ix else Some (False, ix)))
        (nth_holds d ''1'' (\<lambda>_. True) True False n \<and> nth_holds d ''1'' (\<lambda>_. True) True True n)"
        by (rule gives_and[OF pos pos])
      have m: "match_pseudo_class d page name arg sc any has filters hit key expr n = (\<lambda>ix. case type_position d name n ix of Some r \<Rightarrow> r
          | None \<Rightarrow> map_option (\<lambda>b. (b, ix)) (plain_pseudo d page name arg sc n))"
        using 5 None by (intro ext) (simp add: match_pseudo_class_def)
      consider "name = ''first-of-type''" | "name = ''last-of-type''" | "name = ''only-of-type''"
        | "name \<notin> {''first-of-type'', ''last-of-type'', ''only-of-type''}" by blast
      then show ?thesis unfolding m
      proof cases
        case 1
        then show "gives ?ok (\<lambda>ix. case type_position d name n ix of Some r \<Rightarrow> r
            | None \<Rightarrow> map_option (\<lambda>b. (b, ix)) (plain_pseudo d page name arg sc n)) (pseudo_holds d page name arg sc A H (\<lambda>x. filters \<longrightarrow> P x) expr n)"
          using pos[of False] None by (simp add: type_position_def pseudo_holds_def)
      next
        case 2
        then show "gives ?ok (\<lambda>ix. case type_position d name n ix of Some r \<Rightarrow> r
            | None \<Rightarrow> map_option (\<lambda>b. (b, ix)) (plain_pseudo d page name arg sc n)) (pseudo_holds d page name arg sc A H (\<lambda>x. filters \<longrightarrow> P x) expr n)"
          using pos[of True] None by (simp add: type_position_def pseudo_holds_def)
      next
        case 3
        then show "gives ?ok (\<lambda>ix. case type_position d name n ix of Some r \<Rightarrow> r
            | None \<Rightarrow> map_option (\<lambda>b. (b, ix)) (plain_pseudo d page name arg sc n)) (pseudo_holds d page name arg sc A H (\<lambda>x. filters \<longrightarrow> P x) expr n)"
          using both None by (simp add: type_position_def pseudo_holds_def Let_def)
      next
        case 4
        then show "gives ?ok (\<lambda>ix. case type_position d name n ix of Some r \<Rightarrow> r
            | None \<Rightarrow> map_option (\<lambda>b. (b, ix)) (plain_pseudo d page name arg sc n)) (pseudo_holds d page name arg sc A H (\<lambda>x. filters \<longrightarrow> P x) expr n)"
          using plain None \<open>name \<notin> {''not'', ''is'', ''where'', ''host'', ''has''}\<close> by (simp add: type_position_def pseudo_holds_def)
      qed
    qed
  qed
qed

lemma if_not_swap: "(if \<not> b then x else y) = (if b then y else x)"
  by simp

lemma match_any_gives:
  assumes "\<And>s. s \<in> set ss \<Longrightarrow> gives ok (matches_indexed d page s n) (Q s)"
  shows "gives ok (match_any d page ss n) (list_ex Q ss)"
proof -
  have "match_any d page ss n = any_st (\<lambda>s. matches_indexed d page s n) ss"
    by (induction ss) (auto simp: fun_eq_iff intro!: arg_cong[of _ _ "Option.bind _"] ext)
  then show ?thesis using gives_any[of ss ok "\<lambda>s. matches_indexed d page s n" Q] assms by (simp add: Bex_set)
qed

lemma match_condition_gives:
  assumes "wf_dom d" "live \<or> cacheable_cond own c"
    "\<And>s n. size s < size c \<Longrightarrow> live \<or> cacheable own s \<Longrightarrow> gives (cache_ok live d page own) (matches_indexed d page s n) (sat d page s n)"
  shows "gives (cache_ok live d page own) (match_condition d page c n) (sat_cond d page c n)"
proof (cases c)
  case c: (CondPseudoClass name arg cm sc)
  show ?thesis
  proof (cases cm)
    case None
    show ?thesis
      using match_pseudo_gives[where any = never and A = "\<lambda>_. False" and has = "\<lambda>ix. Some (False, ix)" and H = False and hit = never
          and P = "\<lambda>_. False" and filters = False and key = None, OF assms(1)] never_gives gives_const[of False False]
      unfolding c None match_condition.simps sat_cond.simps by simp
  next
    case (Some cp)
    obtain k sels has ofs e h where cp: "cp = Compiled k sels has ofs e h" by (cases cp)
    have small: "size s < size c" if "s \<in> set sels \<or> s \<in> set ofs \<or> (\<exists>comb. (comb, s) \<in> set has)" for s
    proof -
      have "size s < size_list size sels \<or> size s < size_list size ofs \<or> size s < size_list (\<lambda>p. Suc (size (snd p))) has"
        using that size_mem[of s sels size] size_mem[of s ofs size] size_mem_pair[of _ s has] by blast
      then show ?thesis by (auto simp: c Some cp size_pair)
    qed
    have good: "live \<or> cacheable own s" if "s \<in> set sels \<or> s \<in> set ofs" for s
      using assms(2) that by (auto simp: c Some cp list_all_iff)
    have sub: "gives (cache_ok live d page own) (matches_indexed d page s n) (sat d page s n)" if "s \<in> set sels \<or> s \<in> set ofs" for s n
      using assms(3)[OF small good[OF that]] that by blast
    have A: "gives (cache_ok live d page own) (match_any d page sels n) (list_ex (\<lambda>s. sat d page s n) sels)" for n
      by (rule match_any_gives) (use sub in blast)
    have P: "gives (cache_ok live d page own) (match_any d page ofs n) (filter_holds d page ofs n)" for n
      unfolding filter_holds_def by (rule match_any_gives) (use sub in blast)
    have H: "gives (cache_ok live d page own)
        (any_st (\<lambda>a ix. match_has_arg d (\<lambda>x ix. matches_indexed d page (snd a) x ix) (format_sel (snd a)) (fst a) n ix) has)
        (list_ex (\<lambda>a. \<exists>m. right_of d (fst a) n m \<and> sat d page (snd a) m) has)"
    proof (cases live)
      case True
      then have live: "cache_ok live = cache_ok True" by simp
      have "gives (cache_ok live d page own) (match_has_arg d (matches_indexed d page (snd a)) (format_sel (snd a)) (fst a) n)
          (\<exists>m. right_of d (fst a) n m \<and> sat d page (snd a) m)" if "a \<in> set has" for a
      proof -
        have "(fst a, snd a) \<in> set has" using that by simp
        then have "size (snd a) < size c" using small by blast
        then have "gives (cache_ok True d page own) (matches_indexed d page (snd a) x) (sat d page (snd a) x)" for x
          using assms(3) True unfolding live by blast
        then show ?thesis unfolding live by (rule match_has_arg_live[OF assms(1)])
      qed
      then show ?thesis using gives_any[of has] by (simp add: Bex_set[symmetric])
    next
      case False
      then have "has = []" using assms(2) by (simp add: c Some cp)
      then show ?thesis by (auto simp: gives_def)
    qed
    have own: "filter_holds d page ofs = filter_holds d page (own k)" if "\<not> live" "h" using assms(2) that by (simp add: c Some cp)
    have kind: "nth_kind name \<noteq> Some (True, b)" if "\<not> live" "h \<and> ofs \<noteq> []" for b
      using assms(2) that nth_kind_type[of name b] by (auto simp: c Some cp)
    have eq: "(\<lambda>x. h \<and> ofs \<noteq> [] \<longrightarrow> filter_holds d page ofs x) = (\<lambda>x. \<not> h \<or> ofs = [] \<or> list_ex (\<lambda>s. sat d page s x) ofs)"
      by (auto simp: filter_holds_def)
    show ?thesis
      unfolding c Some cp match_condition.simps sat_cond.simps eq[symmetric]
      by (rule match_pseudo_gives[where A = "\<lambda>x. list_ex (\<lambda>s. sat d page s x) sels", OF assms(1)]) (use A P H own kind in \<open>auto split: if_splits\<close>)
  qed
qed (auto simp: gives_def)

theorem matches_indexed_gives:
  assumes "wf_dom d" "live \<or> cacheable own s"
  shows "gives (cache_ok live d page own) (matches_indexed d page s n) (sat d page s n)"
  using assms(2)
proof (induction "size s" arbitrary: s n rule: less_induct)
  case less
  obtain ps where s: "s = Selector ps" by (cases s)
  have conds: "gives (cache_ok live d page own) (match_condition d page c n) (sat_cond d page c n)" if "p \<in> set ps" "c \<in> set (snd p)" for p c n
  proof -
    have "size c < size_list size (snd p)" "Suc (size_list size (snd p)) < size_list (\<lambda>p. Suc (size_list size (snd p))) ps"
      using size_mem[of c "snd p" size] size_mem[of p ps "\<lambda>p. Suc (size_list size (snd p))"] that by simp_all
    then have "size c < size s" by (simp add: s size_pair)
    moreover have "live \<or> cacheable_cond own c" using less.prems that by (auto simp: s list_all_iff)
    ultimately show ?thesis by (intro match_condition_gives[OF assms(1)] less.hyps) auto
  qed
  have all: "gives (cache_ok live d page own) (match_conditions d page cs n) (list_all (\<lambda>c. sat_cond d page c n) cs)"
    if "p \<in> set ps" "set cs \<subseteq> set (snd p)" for p cs n
    using that(2)
  proof (induction cs)
    case (Cons c cs)
    have m: "match_conditions d page (c # cs) n = (\<lambda>ix. Option.bind (match_condition d page c n ix)
        (\<lambda>(b, ix). if b then match_conditions d page cs n ix else Some (False, ix)))" by (intro ext) simp
    show ?case unfolding m list.pred_inject(2) using Cons conds[OF that(1), of c n] by (intro gives_and) auto
  qed (auto simp: gives_def)
  have parts: "gives (cache_ok live d page own) (match_parts d page qs n) (sat_parts d page qs n)" if "set qs \<subseteq> set ps" for qs n
    using that
  proof (induction qs arbitrary: n)
    case (Cons q qs)
    obtain comb cs where q: "q = (comb, cs)" by (cases q)
    have c: "gives (cache_ok live d page own) (match_conditions d page cs n) (list_all (\<lambda>c. sat_cond d page c n) cs)"
      using all[of q cs] Cons.prems by (auto simp: q)
    have l: "gives (cache_ok live d page own) (match_left d comb (match_parts d page qs) n) (\<exists>m. left_of d comb n m \<and> sat_parts d page qs m)"
      by (rule match_left_gives[OF assms(1)]) (use Cons in simp)
    have rest: "gives (cache_ok live d page own) (\<lambda>ix. if qs = [] then Some (True, ix) else match_left d comb (match_parts d page qs) n ix)
        (qs = [] \<or> (\<exists>m. left_of d comb n m \<and> sat_parts d page qs m))"
      using l by (cases "qs = []") (simp_all add: gives_def)
    have m: "match_parts d page (q # qs) n = (\<lambda>ix. if \<not> is_element d n then Some (False, ix) else Option.bind (match_conditions d page cs n ix)
        (\<lambda>(b, ix). if b then (if qs = [] then Some (True, ix) else match_left d comb (match_parts d page qs) n ix) else Some (False, ix)))"
      by (intro ext) (simp only: q match_parts.simps if_not_swap)
    show ?case
    proof (cases "is_element d n")
      case True
      then show ?thesis unfolding m using gives_and[OF c rest] by (simp add: q)
    next
      case False
      then show ?thesis unfolding m by (simp add: q gives_def)
    qed
  qed (auto simp: gives_def)
  show ?case
  proof (cases "ps = []")
    case False
    then have "matches_indexed d page s n = match_parts d page (rev ps) n" by (intro ext) (simp add: s)
    then show ?thesis using parts[of "rev ps" n] False by (simp add: s)
  qed (simp add: s gives_def)
qed

end
