(* ===== verification/Css_Claims.thy ===== *)
theory Css_Claims
  imports Css_Meaning
begin

text \<open>
  Properties of the selector matcher (\<open>internal/css/selector.go\<close>) and of the DOM queries that walk
  a subtree with one cache (\<open>internal/js/selector.go\<close>), and the cases in which the cache of
  \<open>:has()\<close> answers for another selector.
\<close>

subsection \<open>DOM queries\<close>



text \<open>\<open>closestSelector\<close>: the node, then its ancestors, as long as they are elements.\<close>

fun find_st :: "('a \<Rightarrow> 's \<Rightarrow> (bool \<times> 's) option) \<Rightarrow> 'a list \<Rightarrow> 's \<Rightarrow> 'a option option" where
  "find_st f [] s = Some None"
| "find_st f (x # xs) s = Option.bind (f x s) (\<lambda>(b, s). if b then Some (Some x) else find_st f xs s)"

definition closest_selector :: "dom \<Rightarrow> (string \<Rightarrow> string \<Rightarrow> addr \<Rightarrow> bool) \<Rightarrow> selector list \<Rightarrow> addr \<Rightarrow> addr option option" where
  "closest_selector d page sels n =
     Option.bind (build_path d (Some n)) (\<lambda>as. find_st (match_any d page sels) (takeWhile (is_element d) as) (Some new_sibling_index))"


lemma find_st_gives:
  assumes "\<And>x. x \<in> set xs \<Longrightarrow> gives ok (f x) (P x)" "ok s"
  shows "find_st f xs s = Some (List.find P xs)"
  using assms
proof (induction xs arbitrary: s)
  case (Cons x xs)
  obtain s1 where 1: "f x s = Some (P x, s1)" "ok s1" using Cons.prems by (auto simp: gives_def)
  then show ?case using Cons.IH[OF _ 1(2)] Cons.prems(1) by simp
qed simp

lemma new_cache_ok: "cache_ok False d page own (Some new_sibling_index)"
  by (simp add: cache_ok_def new_index_ok)

lemma match_any_cached:
  assumes "wf_dom d" "list_all (cacheable own) sels"
  shows "gives (cache_ok False d page own) (match_any d page sels n) (list_ex (\<lambda>s. sat d page s n) sels)"
  by (rule match_any_gives, rule matches_indexed_gives[OF assms(1)]) (use assms(2) in \<open>simp add: list_all_iff\<close>)

lemma closest_selector_is:
  assumes "wf_dom d" "list_all (cacheable own) sels"
  shows "\<exists>p. build_path d (Some n) = Some (n # p)
    \<and> closest_selector d page sels n = Some (List.find (\<lambda>x. list_ex (\<lambda>s. sat d page s x) sels) (takeWhile (is_element d) (n # p)))"
proof -
  obtain p where p: "build_path d (Some n) = Some (n # p)" using build_path_facts[OF assms(1)] by blast
  have "find_st (match_any d page sels) xs (Some new_sibling_index) = Some (List.find (\<lambda>x. list_ex (\<lambda>s. sat d page s x) sels) xs)" for xs
    by (rule find_st_gives[OF match_any_cached[OF assms] new_cache_ok])
  then show ?thesis using p by (simp add: closest_selector_def)
qed

subsection \<open>An+B\<close>

lemma trunc_div:
  fixes a d :: int
  assumes "a \<noteq> 0"
  shows "d smod a = 0 \<and> 0 \<le> d sdiv a \<longleftrightarrow> (\<exists>k\<ge>0. d = a * k)"
proof
  assume h: "d smod a = 0 \<and> 0 \<le> d sdiv a"
  have "d sdiv a * a + d smod a = d" by (rule sdiv_mult_smod_eq)
  then show "\<exists>k\<ge>0. d = a * k" using h by (intro exI[of _ "d sdiv a"]) (simp add: mult.commute)
next
  assume "\<exists>k\<ge>0. d = a * k"
  then obtain k where k: "0 \<le> k" "d = a * k" by blast
  have q: "d sdiv a = k" using k assms
    by (cases "a > 0"; cases "k = 0") (auto simp: signed_divide_int_def sgn_mult abs_mult)
  then have "d smod a = 0" using k(2) sdiv_mult_smod_eq[of d a] by (simp add: mult.commute)
  then show "d smod a = 0 \<and> 0 \<le> d sdiv a" using q k(1) by simp
qed

text \<open>
  The test \<open>d%a == 0 && d/a >= 0\<close> of the positional pseudo-classes, in Go's division and
  64-bit arithmetic, says that the position is one of those of the formula: \<open>a * k + b\<close> for some
  \<open>k\<close> from 0 on; for every position below 2 to the 62 and every \<open>b\<close> within it, \<open>a\<close> negative or
  zero included.
\<close>

theorem nth_hits_formula:
  assumes "0 \<le> i" "i < 2 ^ 62" "\<bar>b\<bar> \<le> 2 ^ 62"
  shows "nth_hits a b i \<longleftrightarrow> (\<exists>k\<ge>0. i = a * k + b)"
proof (cases "a = 0")
  case False
  have "in64 (i - b)" using assms by (simp add: in64_def abs_le_iff)
  then have i: "i64 (i - b) = i - b" by simp
  have "\<bar>i - b\<bar> < 9223372036854775808" using assms by (simp add: abs_le_iff abs_less_iff)
  then have "in64 ((i - b) sdiv a)" using sdiv_int_range[of "i - b" a] by (simp add: in64_def)
  then have "nth_hits a b i \<longleftrightarrow> (i - b) smod a = 0 \<and> 0 \<le> (i - b) sdiv a" using False i by (simp add: nth_hits_def Let_def)
  then show ?thesis unfolding trunc_div[OF False] by (auto simp: algebra_simps)
qed (auto simp: nth_hits_def)

subsection \<open>Matching\<close>

text \<open>
  Claim C5. Without a cache, matching a selector against a node of a well-formed tree returns and
  answers what the selector means: that its rightmost compound holds of the node and the others
  hold of some chain of nodes related to it by the combinators. The search backtracks through every
  ancestor and sibling, for every selector, with all functional pseudo-classes nested in it.
\<close>

theorem selector_matches_meaning:
  assumes "wf_dom d"
  shows "sel_matches d page s n = Some (sat d page s n)"
  using matches_indexed_gives[OF assms, of True "\<lambda>_. []" s page n] by (simp add: sel_matches_def gives_def cache_ok_def)

text \<open>
  Claim C18. The sibling cache is invisible: for a selector without \<open>:has()\<close> and without a filtered
  position among siblings of one type, matching with a cache in order answers what it answers
  without one, and leaves the cache in order for the next question.
\<close>

theorem sibling_cache_invisible:
  assumes "wf_dom d" "cacheable own s" "index_ok d page own i"
  shows "\<exists>i'. matches_indexed d page s n (Some i) = Some (the (sel_matches d page s n), Some i') \<and> index_ok d page own i'"
proof -
  have "sel_matches d page s n = Some (sat d page s n)"
    using matches_indexed_gives[OF assms(1), of True "\<lambda>_. []" s page n] by (simp add: sel_matches_def gives_def cache_ok_def)
  moreover have "gives (cache_ok False d page own) (matches_indexed d page s n) (sat d page s n)"
    using matches_indexed_gives[OF assms(1)] assms(2) by blast
  ultimately show ?thesis using assms(3) by (fastforce simp: gives_def cache_ok_def)
qed


subsection \<open>A small page\<close>

definition no_page :: "string \<Rightarrow> string \<Rightarrow> addr \<Rightarrow> bool" where
  "no_page name arg n = False"


text \<open>\<open>:nth-child(2n)\<close>, and \<open>:has(s)\<close> for one selector, with the text it was written with.\<close>

definition even_child :: selector where
  "even_child = Selector [(nul, [CondPseudoClass ''nth-child'' ''2n'' None None])]"

definition has_sel :: "string \<Rightarrow> selector \<Rightarrow> selector" where
  "has_sel arg s = Selector [(nul, [CondPseudoClass ''has'' arg (Some (Compiled 0 [] [(CHR '' '', s)] [] [] False)) None])]"

definition attr_sel :: "string \<Rightarrow> selector" where
  "attr_sel a = Selector [(nul, [CondAttr a [] [] False])]"

definition attr_tree :: dom where
  "attr_tree = upd_node 1 (\<lambda>n. n\<lparr>ndAttr := [(''a'', [])]\<rparr>) small_tree"

lemma attr_tree_wf: "wf_dom attr_tree"
proof -
  have "same_links small_tree attr_tree" unfolding attr_tree_def by (rule upd_node_same) (simp add: links_of_node_def)
  then show ?thesis using same_links_tree[OF _ small_tree_ok] tree_wf by blast
qed

lemma attr_tree_reads:
  "ndFirst (nd attr_tree 0) = Some 1" "is_element attr_tree 0" "is_element attr_tree (Suc 0)"
  "ndAttr (nd attr_tree x) = (if x = 1 then [(''a'', [])] else [])"
  by (simp_all add: attr_tree_def upd_node_def small_tree_def small_node_def zero_node_def is_element_def)

theorem selector_matches_meaning_witness: "sel_matches small_tree no_page even_child 2 = Some (sat small_tree no_page even_child 2)"
  using selector_matches_meaning[of small_tree no_page even_child 2] by (simp add: small_reads)

theorem sibling_cache_invisible_witness:
  "\<exists>i'. matches_indexed small_tree no_page even_child 2 (Some new_sibling_index)
     = Some (the (sel_matches small_tree no_page even_child 2), Some i') \<and> index_ok small_tree no_page (\<lambda>_. []) i'"
  using sibling_cache_invisible[of small_tree "\<lambda>_. []" even_child no_page new_sibling_index 2] new_index_ok[of small_tree no_page "\<lambda>_. []"]
  by (simp add: small_reads even_child_def)


theorem nth_hits_formula_witness: "nth_hits (-2) 7 5 \<and> (\<exists>k\<ge>0. (5::int) = -2 * k + 7)"
proof -
  have "\<exists>k\<ge>0. (5::int) = -2 * k + 7" by (intro exI[of _ 1]) simp
  then show ?thesis using nth_hits_formula[of 5 7 "-2"] by simp
qed

subsection \<open>What the cache of :has() mixes up\<close>

lemma desc_scan_stores:
  assumes "desc_scan d m key n c ix = Some r"
  shows "\<forall>i. r = (True, Some i) \<longrightarrow> ixDesc i (n, key) = Some True"
proof (rule desc_scan.raw_induct[where P = "\<lambda>d m key n c ix r. \<forall>i. r = (True, Some i) \<longrightarrow> ixDesc i (n, key) = Some True", OF _ assms])
  fix f :: "dom \<Rightarrow> asker \<Rightarrow> string \<Rightarrow> addr \<Rightarrow> addr option \<Rightarrow> sib_index option \<Rightarrow> answer" and d m key n c ix r
  assume hyp: "\<And>d m key n c ix r. f d m key n c ix = Some r \<Longrightarrow> \<forall>i. r = (True, Some i) \<longrightarrow> ixDesc i (n, key) = Some True"
    and body: "(case c of
       None \<Rightarrow> Some (False, store_desc n key False ix)
     | Some x \<Rightarrow>
         if \<not> is_element d x then f d m key n (ndNext (nd d x)) ix
         else Option.bind (m x ix) (\<lambda>(b, ix).
           if b then Some (True, store_desc n key True ix)
           else Option.bind (if cached_desc x key ix then Some (True, ix) else f d m key x (ndFirst (nd d x)) ix) (\<lambda>(b, ix).
             if b then Some (True, store_desc n key True ix) else f d m key n (ndNext (nd d x)) ix))) = Some r"
  show "\<forall>i. r = (True, Some i) \<longrightarrow> ixDesc i (n, key) = Some True"
    using body by (auto simp: store_desc_def bind_eq_Some_conv dest: hyp split: option.splits if_splits)
qed

lemma has_found_cached: "has_descendant_matching d m key n ix = Some (True, Some i) \<Longrightarrow> cached_desc n key (Some i)"
  using desc_scan_stores[of d m key n "ndFirst (nd d n)" ix "(True, Some i)"]
  by (auto simp: has_descendant_matching_def cached_desc_def split: if_splits)

text \<open>Matching \<open>:has(s)\<close> on an element.\<close>

lemma has_sel_matches:
  "matches_indexed d page (has_sel arg s) n ix
    = (if is_element d n \<and> arg \<noteq> [] then has_descendant_matching d (matches_indexed d page s) (format_sel s) n ix else Some (False, ix))"
  by (cases "has_descendant_matching d (matches_indexed d page s) (format_sel s) n ix")
    (auto simp: has_sel_def match_pseudo_class_def match_has_arg_def)

text \<open>
  Claim C38. The cache names a selector by its types, ids and classes only, so the answer of one
  \<open>:has()\<close> is given to another: once a cache has found that an element matches \<open>:has(s)\<close>, it answers at
  once that it matches \<open>:has(t)\<close> for every \<open>t\<close> of the same name, while without the cache the answer is
  whether something inside the element matches \<open>t\<close>.
\<close>

theorem has_cache_mixes_selectors:
  assumes "wf_dom d" "format_sel s = format_sel t" "b \<noteq> []" "matches_indexed d page (has_sel a s) n ix = Some (True, Some i)"
  shows "matches_indexed d page (has_sel b t) n (Some i) = Some (True, Some i)
    \<and> sel_matches d page (has_sel b t) n = Some (\<exists>y. (n, y) \<in> (inside_of d)\<^sup>+ \<and> sat d page t y)"
proof -
  have el: "is_element d n" and h: "has_descendant_matching d (matches_indexed d page s) (format_sel s) n ix = Some (True, Some i)"
    using assms(4) by (simp_all add: has_sel_matches split: if_splits)
  have "cached_desc n (format_sel t) (Some i)" using has_found_cached[OF h] assms(2) by simp
  then have "matches_indexed d page (has_sel b t) n (Some i) = Some (True, Some i)"
    using el assms(3) by (simp add: has_sel_matches has_descendant_matching_def)
  moreover have "matches_indexed d page t x None = Some (sat d page t x, None)" for x
    using matches_indexed_gives[OF assms(1), of True "\<lambda>_. []" t page x] by (simp add: gives_def cache_ok_def)
  then have "desc_scan d (matches_indexed d page t) (format_sel t) n (ndFirst (nd d n)) None
      = Some (\<exists>y. (n, y) \<in> (inside_of d)\<^sup>+ \<and> sat d page t y, None)"
    by (intro desc_scan_live[OF assms(1)])
  then have "sel_matches d page (has_sel b t) n = Some (\<exists>y. (n, y) \<in> (inside_of d)\<^sup>+ \<and> sat d page t y)"
    using el assms(3) by (simp add: sel_matches_def has_sel_matches has_descendant_matching_def cached_desc_def)
  ultimately show ?thesis ..
qed

text \<open>
  Two attributes have the same name, none: where a descendant has the attribute \<open>a\<close>, the cache takes the
  element to match \<open>:has([b])\<close>, which it does not.
\<close>

lemma attr_asked: "matches_indexed attr_tree no_page (attr_sel a) x ix = Some (is_element attr_tree x \<and> x = 1 \<and> equal_fold ''a'' a, ix)"
  by (auto simp: attr_sel_def match_attr_def has_attribute_def attr_tree_reads equal_fold_def)

lemma attr_found:
  "\<exists>i. matches_indexed attr_tree no_page (has_sel ''[a]'' (attr_sel ''a'')) 0 (Some new_sibling_index) = Some (True, Some i)"
proof -
  have fold: "equal_fold ''a'' ''a''" by (simp add: equal_fold_def)
  show ?thesis
    unfolding has_sel_matches has_descendant_matching_def attr_asked
    by (subst desc_scan.simps) (simp add: cached_desc_def new_sibling_index_def attr_tree_reads fold store_desc_def attr_asked)
qed

theorem has_cache_mixes_selectors_witness:
  "\<exists>i. matches_indexed attr_tree no_page (has_sel ''[a]'' (attr_sel ''a'')) 0 (Some new_sibling_index) = Some (True, Some i)
    \<and> matches_indexed attr_tree no_page (has_sel ''[b]'' (attr_sel ''b'')) 0 (Some i) = Some (True, Some i)
    \<and> sel_matches attr_tree no_page (has_sel ''[b]'' (attr_sel ''b'')) 0 = Some False"
proof -
  obtain i where i: "matches_indexed attr_tree no_page (has_sel ''[a]'' (attr_sel ''a'')) 0 (Some new_sibling_index) = Some (True, Some i)"
    using attr_found by blast
  have key: "format_sel (attr_sel ''a'') = format_sel (attr_sel ''b'')" by (simp add: attr_sel_def)
  have "\<not> equal_fold ''a'' ''b''" by (simp add: equal_fold_def to_lower_def lower_char_def char_code_def)
  then have "sel_matches attr_tree no_page (attr_sel ''b'') y = Some False" for y
    by (simp add: sel_matches_def attr_asked)
  moreover have "sel_matches attr_tree no_page (attr_sel ''b'') y = Some (sat attr_tree no_page (attr_sel ''b'') y)" for y
    using matches_indexed_gives[OF attr_tree_wf, of True "\<lambda>_. []" "attr_sel ''b''" no_page y]
    by (simp add: sel_matches_def gives_def cache_ok_def)
  ultimately have "\<not> sat attr_tree no_page (attr_sel ''b'') y" for y by simp
  with has_cache_mixes_selectors[OF attr_tree_wf key _ i, of "''[b]''"] i show ?thesis by auto
qed

text \<open>
  With the cache, a filtered position among siblings of one type counts the filtered siblings of
  every type; and nothing at the top of a shadow tree is ever its parent's first child, since the
  search looks among the children of the host.
\<close>

lemma shadow_top_never_first:
  assumes "wf_dom d" "ndParent (nd d n) = Some p" "n \<notin> set (kids d p)"
  shows "\<not> sat_cond d page (CondPseudoClass ''first-child'' arg None sc) n"
proof -
  have "hd_opt (child_els d p) \<noteq> Some n" using assms(3) by (auto simp: child_els_def)
  then show ?thesis using assms(2) by (simp add: pseudo_holds_def nth_kind_def plain_holds_def)
qed

lemma parse_nth_double_sign: "parse_nth ''n+-5'' = Some (1, -5)"
  by code_simp

end
