(* ===== verification/Style_Index.thy ===== *)
theory Style_Index
  imports Css_Meaning
begin

text \<open>
  \<open>internal/style/matcher.go\<close>: the index that files every selector of the style sheets under what
  its rightmost compound requires, and the candidates it offers for a node, in cascade order. An
  entry is a shared object in the buckets and carries the mark of the query that last collected
  it, so entries live in a list and buckets hold positions. Registered properties are not modelled.
  For more than sixteen candidates the code calls \<open>sort.Slice\<close>, whose order among equals is open:
  it is a parameter, a permutation that is sorted.
\<close>

subsection \<open>Sheets and entries\<close>

record decl =
  dcProperty :: string
  dcValue :: string
  dcImportant :: bool

record rule =
  ruSelectors :: "selector list"
  ruDecls :: "decl list"
  ruLayer :: string
  ruContainer :: string
  ruScopeRoot :: string
  ruScopeLimit :: string
  ruStarting :: bool

record sheet =
  shRules :: "rule list"
  shLayers :: "string list"
  shUser :: bool

text \<open>\<open>shUser\<close> is false for the browser's own sheet.\<close>

record entry =
  enRule :: rule
  enSel :: selector
  enOrigin :: nat
  enLayer :: nat
  enWeight :: weight
  enRank :: nat

record rule_index =
  riEntries :: "entry list"
  riByID :: "string \<Rightarrow> nat list"
  riByClass :: "string \<Rightarrow> nat list"
  riByTag :: "string \<Rightarrow> nat list"
  riUnkeyed :: "nat list"
  riPart :: "nat list"
  riCount :: nat
  riStamp :: nat
  riMark :: "nat \<Rightarrow> nat"

definition empty_rule_index :: rule_index where
  "empty_rule_index = \<lparr>riEntries = [], riByID = (\<lambda>_. []), riByClass = (\<lambda>_. []), riByTag = (\<lambda>_. []), riUnkeyed = [], riPart = [],
     riCount = 0, riStamp = 0, riMark = (\<lambda>_. 0)\<rparr>"

definition selector_has_part :: "selector \<Rightarrow> bool" where
  "selector_has_part s = list_ex (\<lambda>p. list_ex (is_pseudo_element ''part'') (snd p)) (slParts s)"

subsection \<open>Filing\<close>

fun scan_key :: "condition \<Rightarrow> string \<times> string list \<times> string \<Rightarrow> string \<times> string list \<times> string" where
  "scan_key (CondID v) (i, cs, t) = (v, cs, t)"
| "scan_key (CondClass v) (i, cs, t) = (i, cs @ [v], t)"
| "scan_key (CondType v) (i, cs, t) = (i, cs, v)"
| "scan_key c k = k"

definition compound_key :: "condition list \<Rightarrow> string \<times> string list \<times> string" where
  "compound_key conds = fold scan_key conds ([], [], [])"

definition file_under :: "nat \<Rightarrow> string \<Rightarrow> (string \<Rightarrow> nat list) \<Rightarrow> string \<Rightarrow> nat list" where
  "file_under e k m = m(k := m k @ [e])"

definition insert_entry :: "nat \<Rightarrow> selector \<Rightarrow> rule_index \<Rightarrow> rule_index" where
  "insert_entry e s ix =
     (case rev (slParts s) of
        [] \<Rightarrow> ix\<lparr>riUnkeyed := riUnkeyed ix @ [e]\<rparr>
      | (comb, conds) # ps \<Rightarrow>
          (case compound_key conds of (i, cs, t) \<Rightarrow>
             if i \<noteq> [] then ix\<lparr>riByID := file_under e i (riByID ix)\<rparr>
             else if cs \<noteq> [] then ix\<lparr>riByClass := fold (file_under e) cs (riByClass ix)\<rparr>
             else if t \<noteq> [] then ix\<lparr>riByTag := file_under e t (riByTag ix)\<rparr>
             else ix\<lparr>riUnkeyed := riUnkeyed ix @ [e]\<rparr>))"

subsection \<open>Building\<close>

type_synonym layers = "nat \<times> (string \<Rightarrow> nat option)"

definition record_layer :: "string \<Rightarrow> layers \<Rightarrow> layers" where
  "record_layer name l = (case l of (n, m) \<Rightarrow> if m name \<noteq> None then (n, m) else (n + 1, m(name \<mapsto> n + 1)))"

definition add_selector :: "nat \<Rightarrow> nat \<Rightarrow> rule \<Rightarrow> selector \<Rightarrow> rule_index \<Rightarrow> rule_index" where
  "add_selector origin layer ru s ix =
     (let e = length (riEntries ix);
          ix = ix\<lparr>riEntries := riEntries ix @ [\<lparr>enRule = ru, enSel = s, enOrigin = origin, enLayer = layer, enWeight = specificity s, enRank = riCount ix\<rparr>],
                  riCount := riCount ix + length (ruDecls ru)\<rparr>;
          ix = insert_entry e s ix
      in if selector_has_part s then ix\<lparr>riPart := riPart ix @ [e]\<rparr> else ix)"

definition index_rule :: "nat \<Rightarrow> rule \<Rightarrow> layers \<times> rule_index \<Rightarrow> layers \<times> rule_index" where
  "index_rule origin ru st =
     (let (l, ix) = st; l = (if ruLayer ru = [] then l else record_layer (ruLayer ru) l);
          layer = (if ruLayer ru = [] then 0 else the (snd l (ruLayer ru)))
      in (l, fold (add_selector origin layer ru) (ruSelectors ru) ix))"

definition build_rule_index :: "sheet list \<Rightarrow> rule_index" where
  "build_rule_index sheets =
     snd (fold (\<lambda>sh. fold (index_rule (if shUser sh then 1 else 0)) (shRules sh)) sheets
       (fold (\<lambda>sh. fold record_layer (shLayers sh)) sheets (0, \<lambda>_. None), empty_rule_index))"

subsection \<open>Candidates\<close>

definition collect_one :: "nat \<Rightarrow> nat \<Rightarrow> nat list \<times> (nat \<Rightarrow> nat) \<Rightarrow> nat list \<times> (nat \<Rightarrow> nat)" where
  "collect_one stamp e om = (case om of (out, mark) \<Rightarrow> if mark e = stamp then (out, mark) else (out @ [e], mark(e := stamp)))"

text \<open>The insertion sort, on the sorted front reversed: the new one moves down while it ranks lower.\<close>

fun sift :: "(nat \<Rightarrow> nat) \<Rightarrow> nat \<Rightarrow> nat list \<Rightarrow> nat list" where
  "sift rank x [] = [x]"
| "sift rank x (y # ys) = (if rank x < rank y then y # sift rank x ys else x # y # ys)"

definition insertion_sort :: "(nat \<Rightarrow> nat) \<Rightarrow> nat list \<Rightarrow> nat list" where
  "insertion_sort rank out = rev (fold (sift rank) out [])"

definition rule_candidates :: "((nat \<Rightarrow> nat) \<Rightarrow> nat list \<Rightarrow> nat list) \<Rightarrow> dom \<Rightarrow> addr \<Rightarrow> rule_index \<Rightarrow> nat list \<times> rule_index" where
  "rule_candidates slice_sort d n ix =
     (let stamp = riStamp ix + 1; i = get_attribute (nd d n) ''id'';
          (out, mark) = fold (collect_one stamp)
            ((if i \<noteq> [] then riByID ix i else []) @ concat (map (riByClass ix) (class_list (nd d n)))
             @ riByTag ix (ndData (nd d n)) @ riUnkeyed ix @ riPart ix) ([], riMark ix);
          rank = (\<lambda>e. enRank (riEntries ix ! e));
          out = (if length out \<le> 16 then insertion_sort rank out else slice_sort rank out)
      in (out, ix\<lparr>riStamp := stamp, riMark := mark\<rparr>))"

subsection \<open>Every selector is filed\<close>

definition filed :: "rule_index \<Rightarrow> nat \<Rightarrow> selector \<Rightarrow> bool" where
  "filed ix e s \<longleftrightarrow>
     (case rev (slParts s) of
        [] \<Rightarrow> e \<in> set (riUnkeyed ix)
      | (comb, conds) # ps \<Rightarrow>
          (case compound_key conds of (i, cs, t) \<Rightarrow>
             if i \<noteq> [] then e \<in> set (riByID ix i)
             else if cs \<noteq> [] then \<forall>c\<in>set cs. e \<in> set (riByClass ix c)
             else if t \<noteq> [] then e \<in> set (riByTag ix t)
             else e \<in> set (riUnkeyed ix)))
     \<and> (selector_has_part s \<longrightarrow> e \<in> set (riPart ix))"

definition bucket_set :: "rule_index \<Rightarrow> nat set" where
  "bucket_set ix = (\<Union>k. set (riByID ix k)) \<union> (\<Union>k. set (riByClass ix k)) \<union> (\<Union>k. set (riByTag ix k)) \<union> set (riUnkeyed ix) \<union> set (riPart ix)"

definition index_inv :: "rule_index \<Rightarrow> bool" where
  "index_inv ix \<longleftrightarrow> (\<forall>e<length (riEntries ix). filed ix e (enSel (riEntries ix ! e))) \<and> bucket_set ix \<subseteq> {..<length (riEntries ix)}
     \<and> (\<forall>e. riMark ix e \<le> riStamp ix) \<and> sorted_wrt (<) (map enRank (riEntries ix)) \<and> (\<forall>x\<in>set (riEntries ix). enRank x < riCount ix)"

lemma file_under_set: "set (fold (file_under e) cs m c) = set (m c) \<union> (if c \<in> set cs then {e} else {})"
  by (induction cs arbitrary: m) (auto simp: file_under_def)

text \<open>Inserting keeps what is filed and files the new one.\<close>

lemma insert_entry_facts:
  "filed ix e' s' \<Longrightarrow> filed (insert_entry e s ix) e' s'"
  "\<not> selector_has_part s \<Longrightarrow> filed (insert_entry e s ix) e s"
  "filed ((insert_entry e s ix)\<lparr>riPart := riPart (insert_entry e s ix) @ [e]\<rparr>) e s"
  "filed ix e' s' \<Longrightarrow> filed (ix\<lparr>riPart := riPart ix @ [e]\<rparr>) e' s'"
  "bucket_set (insert_entry e s ix) \<subseteq> insert e (bucket_set ix)"
  "riEntries (insert_entry e s ix) = riEntries ix \<and> riMark (insert_entry e s ix) = riMark ix \<and> riStamp (insert_entry e s ix) = riStamp ix
   \<and> riCount (insert_entry e s ix) = riCount ix"
proof -
  define ix' where "ix' = insert_entry e s ix"
  have grow: "set (riByID ix k) \<subseteq> set (riByID ix' k)" "set (riByClass ix k) \<subseteq> set (riByClass ix' k)"
    "set (riByTag ix k) \<subseteq> set (riByTag ix' k)" "set (riUnkeyed ix) \<subseteq> set (riUnkeyed ix')" "riPart ix' = riPart ix" for k
    by (auto simp: ix'_def insert_entry_def file_under_set file_under_def split: list.split prod.split)
  show "filed (insert_entry e s ix) e' s'" if "filed ix e' s'"
  proof (cases "rev (slParts s')")
    case Nil
    then show ?thesis using that grow(4,5) unfolding ix'_def[symmetric] by (auto simp: filed_def)
  next
    case (Cons p ps)
    obtain comb conds i cs t where "p = (comb, conds)" "compound_key conds = (i, cs, t)" by (cases p; cases "compound_key (snd p)") auto
    then show ?thesis using that grow(5) Cons unfolding ix'_def[symmetric] filed_def
      by (auto split: if_splits intro: subsetD[OF grow(1)] subsetD[OF grow(2)] subsetD[OF grow(3)] subsetD[OF grow(4)])
  qed
  show "\<not> selector_has_part s \<Longrightarrow> filed (insert_entry e s ix) e s"
    "filed ((insert_entry e s ix)\<lparr>riPart := riPart (insert_entry e s ix) @ [e]\<rparr>) e s"
    by (auto simp: filed_def insert_entry_def file_under_set file_under_def split: list.split prod.split)
  show "filed ix e' s' \<Longrightarrow> filed (ix\<lparr>riPart := riPart ix @ [e]\<rparr>) e' s'"
    by (auto simp: filed_def split: list.split prod.split)
  show "bucket_set (insert_entry e s ix) \<subseteq> insert e (bucket_set ix)"
    by (auto simp: bucket_set_def insert_entry_def file_under_set file_under_def split: list.splits prod.splits if_splits)
  show "riEntries (insert_entry e s ix) = riEntries ix \<and> riMark (insert_entry e s ix) = riMark ix \<and> riStamp (insert_entry e s ix) = riStamp ix
   \<and> riCount (insert_entry e s ix) = riCount ix"
    by (auto simp: insert_entry_def split: list.split prod.split)
qed

lemma filed_frame: "riByID ix' = riByID ix \<Longrightarrow> riByClass ix' = riByClass ix \<Longrightarrow> riByTag ix' = riByTag ix \<Longrightarrow> riUnkeyed ix' = riUnkeyed ix \<Longrightarrow>
    riPart ix' = riPart ix \<Longrightarrow> filed ix' e s = filed ix e s \<and> bucket_set ix' = bucket_set ix"
  by (simp add: filed_def bucket_set_def cong: list.case_cong prod.case_cong)

lemma add_selector_inv:
  assumes "index_inv ix" "ruDecls ru \<noteq> []"
  shows "index_inv (add_selector origin layer ru s ix) \<and> map enSel (riEntries (add_selector origin layer ru s ix)) = map enSel (riEntries ix) @ [s]"
proof -
  define e where "e = length (riEntries ix)"
  define en where "en = \<lparr>enRule = ru, enSel = s, enOrigin = origin, enLayer = layer, enWeight = specificity s, enRank = riCount ix\<rparr>"
  define ix1 where "ix1 = ix\<lparr>riEntries := riEntries ix @ [en], riCount := riCount ix + length (ruDecls ru)\<rparr>"
  define ix2 where "ix2 = insert_entry e s ix1"
  define ix3 where "ix3 = (if selector_has_part s then ix2\<lparr>riPart := riPart ix2 @ [e]\<rparr> else ix2)"
  have eq: "add_selector origin layer ru s ix = ix3"
    by (simp add: add_selector_def Let_def ix3_def ix2_def ix1_def en_def e_def)
  have 1: "filed ix1 e' s' = filed ix e' s'" "bucket_set ix1 = bucket_set ix" for e' s'
    using filed_frame[of ix1 ix] by (simp_all add: ix1_def)
  have fields: "riEntries ix3 = riEntries ix @ [en]" "riMark ix3 = riMark ix" "riStamp ix3 = riStamp ix" "riCount ix3 = riCount ix + length (ruDecls ru)"
    using insert_entry_facts(6)[of e s ix1] by (simp_all add: ix3_def ix2_def[symmetric], simp_all add: ix1_def)
  have old: "filed ix3 e' s'" if "filed ix e' s'" for e' s'
    using insert_entry_facts(4)[OF insert_entry_facts(1)[of ix1 e' s' e s], of e] insert_entry_facts(1)[of ix1 e' s' e s] that
    by (simp add: ix3_def ix2_def 1)
  have new: "filed ix3 e s" using insert_entry_facts(2)[of s e ix1] insert_entry_facts(3)[of e s ix1] by (simp add: ix3_def ix2_def)
  have b: "bucket_set ix3 \<subseteq> insert e (bucket_set ix)"
  proof -
    have "bucket_set ix3 \<subseteq> insert e (bucket_set ix2)" by (auto simp: ix3_def bucket_set_def)
    then show ?thesis using insert_entry_facts(5)[of e s ix1] 1 by (auto simp: ix2_def)
  qed
  have "filed ix3 e' (enSel ((riEntries ix @ [en]) ! e'))" if "e' < Suc (length (riEntries ix))" for e'
  proof (cases "e' = length (riEntries ix)")
    case True
    then show ?thesis using new by (simp add: e_def en_def)
  next
    case False
    then show ?thesis using that old assms(1) by (auto simp: index_inv_def nth_append)
  qed
  moreover have "sorted_wrt (<) (map enRank (riEntries ix @ [en]))"
    using assms(1) by (auto simp: index_inv_def sorted_wrt_append en_def)
  ultimately show ?thesis using assms b unfolding eq index_inv_def fields by (auto simp: en_def e_def less_Suc_eq)
qed

lemma index_rule_inv:
  assumes "index_inv (snd st)" "ruDecls ru \<noteq> []"
  shows "index_inv (snd (index_rule origin ru st)) \<and> map enSel (riEntries (snd (index_rule origin ru st))) = map enSel (riEntries (snd st)) @ ruSelectors ru"
proof -
  have "index_inv (fold (add_selector origin layer ru) ss ix)
      \<and> map enSel (riEntries (fold (add_selector origin layer ru) ss ix)) = map enSel (riEntries ix) @ ss"
    if "index_inv ix" for layer ss ix
    using that
  proof (induction ss arbitrary: ix)
    case (Cons s ss)
    from add_selector_inv[OF Cons.prems assms(2), of origin layer s] Cons.IH[of "add_selector origin layer ru s ix"]
    show ?case by simp
  qed simp
  then show ?thesis using assms(1) by (cases st) (simp add: index_rule_def Let_def)
qed

lemma empty_index_inv: "index_inv empty_rule_index"
  by (simp add: index_inv_def empty_rule_index_def bucket_set_def)

text \<open>All selectors, sheet by sheet and rule by rule.\<close>

definition all_selectors :: "sheet list \<Rightarrow> selector list" where
  "all_selectors sheets = concat (map (\<lambda>sh. concat (map ruSelectors (shRules sh))) sheets)"

lemma build_inv:
  assumes "\<forall>sh\<in>set sheets. \<forall>ru\<in>set (shRules sh). ruDecls ru \<noteq> []"
  shows "index_inv (build_rule_index sheets) \<and> map enSel (riEntries (build_rule_index sheets)) = all_selectors sheets"
proof -
  have rules: "index_inv (snd (fold (index_rule origin) rus st))
      \<and> map enSel (riEntries (snd (fold (index_rule origin) rus st))) = map enSel (riEntries (snd st)) @ concat (map ruSelectors rus)"
    if "index_inv (snd st)" "\<forall>ru\<in>set rus. ruDecls ru \<noteq> []" for origin rus st
    using that
  proof (induction rus arbitrary: st)
    case (Cons ru rus)
    have ru: "ruDecls ru \<noteq> []" using Cons.prems(2) by simp
    from index_rule_inv[OF Cons.prems(1) ru, of origin] Cons.IH[of "index_rule origin ru st"] Cons.prems(2) show ?case by simp
  qed simp
  have "index_inv (snd (fold (\<lambda>sh. fold (index_rule (if shUser sh then 1 else 0)) (shRules sh)) shs st))
      \<and> map enSel (riEntries (snd (fold (\<lambda>sh. fold (index_rule (if shUser sh then 1 else 0)) (shRules sh)) shs st)))
        = map enSel (riEntries (snd st)) @ all_selectors shs"
    if "index_inv (snd st)" "\<forall>sh\<in>set shs. \<forall>ru\<in>set (shRules sh). ruDecls ru \<noteq> []" for shs st
    using that
  proof (induction shs arbitrary: st)
    case (Cons sh shs)
    have sh: "\<forall>ru\<in>set (shRules sh). ruDecls ru \<noteq> []" using Cons.prems(2) by simp
    from rules[OF Cons.prems(1) sh, of "if shUser sh then 1 else 0"]
      Cons.IH[of "fold (index_rule (if shUser sh then 1 else 0)) (shRules sh) st"] Cons.prems(2)
    show ?case by (simp add: all_selectors_def)
  qed (simp add: all_selectors_def)
  then show ?thesis using assms empty_index_inv by (simp add: build_rule_index_def empty_rule_index_def)
qed

text \<open>The rules of the entries are those of the sheets.\<close>

lemma insert_entry_rules: "riEntries (insert_entry e s ix) = riEntries ix"
  using insert_entry_facts(6) by blast

lemma add_selector_rules: "enRule ` set (riEntries (add_selector origin layer ru s ix)) = insert ru (enRule ` set (riEntries ix))"
  by (simp add: add_selector_def Let_def insert_entry_rules)

lemma index_rule_rules: "enRule ` set (riEntries (snd (index_rule origin ru st))) \<subseteq> insert ru (enRule ` set (riEntries (snd st)))"
proof -
  have "enRule ` set (riEntries (fold (add_selector origin layer ru) ss ix)) \<subseteq> insert ru (enRule ` set (riEntries ix))" for layer ss ix
  proof (induction ss arbitrary: ix)
    case (Cons s ss)
    from Cons.IH[of "add_selector origin layer ru s ix"]
    show ?case unfolding fold.simps comp_apply add_selector_rules insert_absorb2 by blast
  qed auto
  then show ?thesis by (cases st) (simp add: index_rule_def Let_def)
qed

lemma chained_subset: "X \<subseteq> A \<union> B \<Longrightarrow> B \<subseteq> C \<union> D \<Longrightarrow> X \<subseteq> (C \<union> A) \<union> D"
  by blast

lemma build_rules: "enRule ` set (riEntries (build_rule_index sheets)) \<subseteq> (\<Union>sh\<in>set sheets. set (shRules sh))"
proof -
  have rules: "enRule ` set (riEntries (snd (fold (index_rule origin) rus st))) \<subseteq> set rus \<union> enRule ` set (riEntries (snd st))" for origin rus st
  proof (induction rus arbitrary: st)
    case (Cons ru rus)
    from Cons.IH[of "index_rule origin ru st"] index_rule_rules[of origin ru st]
    show ?case unfolding fold.simps comp_apply list.set by blast
  qed simp
  have "enRule ` set (riEntries (snd (fold (\<lambda>sh. fold (index_rule (if shUser sh then 1 else 0)) (shRules sh)) shs st)))
      \<subseteq> (\<Union>sh\<in>set shs. set (shRules sh)) \<union> enRule ` set (riEntries (snd st))" for shs st
  proof (induction shs arbitrary: st)
    case (Cons sh shs)
    show ?case unfolding fold.simps comp_apply list.set UN_insert by (rule chained_subset[OF Cons.IH rules])
  qed simp
  from this[of sheets "(fold (\<lambda>sh. fold record_layer (shLayers sh)) sheets (0, \<lambda>_. None), empty_rule_index)"]
  show ?thesis unfolding build_rule_index_def by (simp only: snd_conv empty_rule_index_def rule_index.simps list.set image_empty Un_empty_right)
qed

subsection \<open>Every selector that could match is offered\<close>

text \<open>What the rightmost compound demands of the node's id, classes and tag.\<close>

definition demanded :: "dom \<Rightarrow> addr \<Rightarrow> selector \<Rightarrow> bool" where
  "demanded d n s \<longleftrightarrow> (case rev (slParts s) of [] \<Rightarrow> True | p # ps \<Rightarrow>
     (\<forall>v. CondID v \<in> set (snd p) \<longrightarrow> get_attribute (nd d n) ''id'' = v) \<and> (\<forall>v. CondClass v \<in> set (snd p) \<longrightarrow> v \<in> set (class_list (nd d n)))
     \<and> (\<forall>v. CondType v \<in> set (snd p) \<longrightarrow> ndData (nd d n) = v))"

lemma sat_demanded: "sat d page s n \<Longrightarrow> demanded d n s"
proof -
  assume sat: "sat d page s n"
  obtain ps where s: "s = Selector ps" by (cases s)
  then obtain comb cs qs where r: "rev ps = (comb, cs) # qs" using sat by (cases "rev ps") auto
  then have "list_all (\<lambda>c. sat_cond d page c n) cs" using sat s by simp
  then have "sat_cond d page c n" if "c \<in> set cs" for c using that by (simp add: list_all_iff)
  from this[of "CondID _"] this[of "CondClass _"] this[of "CondType _"] show ?thesis by (simp add: demanded_def s r)
qed

lemma compound_key_facts:
  assumes "compound_key conds = (i, cs, t)"
  shows "i \<noteq> [] \<Longrightarrow> CondID i \<in> set conds" "c \<in> set cs \<Longrightarrow> CondClass c \<in> set conds" "t \<noteq> [] \<Longrightarrow> CondType t \<in> set conds"
proof -
  have "case fold scan_key xs k of (i, cs, t) \<Rightarrow> (i \<noteq> [] \<longrightarrow> CondID i \<in> set conds) \<and> (\<forall>c\<in>set cs. CondClass c \<in> set conds)
      \<and> (t \<noteq> [] \<longrightarrow> CondType t \<in> set conds)"
    if "set xs \<subseteq> set conds" "case k of (i, cs, t) \<Rightarrow> (i \<noteq> [] \<longrightarrow> CondID i \<in> set conds) \<and> (\<forall>c\<in>set cs. CondClass c \<in> set conds)
      \<and> (t \<noteq> [] \<longrightarrow> CondType t \<in> set conds)" for xs k
    using that
  proof (induction xs arbitrary: k)
    case (Cons x xs)
    obtain i cs t where k: "k = (i, cs, t)" by (cases k)
    have "case scan_key x k of (i, cs, t) \<Rightarrow> (i \<noteq> [] \<longrightarrow> CondID i \<in> set conds) \<and> (\<forall>c\<in>set cs. CondClass c \<in> set conds)
      \<and> (t \<noteq> [] \<longrightarrow> CondType t \<in> set conds)"
      using Cons.prems by (cases x) (auto simp: k)
    then show ?case using Cons.IH[of "scan_key x k"] Cons.prems(1) by simp
  qed simp
  from this[of conds "([], [], [])"] assms
  show "i \<noteq> [] \<Longrightarrow> CondID i \<in> set conds" "c \<in> set cs \<Longrightarrow> CondClass c \<in> set conds" "t \<noteq> [] \<Longrightarrow> CondType t \<in> set conds"
    by (simp_all add: compound_key_def)
qed

definition offered :: "dom \<Rightarrow> addr \<Rightarrow> rule_index \<Rightarrow> nat list" where
  "offered d n ix = (let i = get_attribute (nd d n) ''id'' in
     (if i \<noteq> [] then riByID ix i else []) @ concat (map (riByClass ix) (class_list (nd d n)))
     @ riByTag ix (ndData (nd d n)) @ riUnkeyed ix @ riPart ix)"

lemma demanded_offered:
  assumes "filed ix e s" "demanded d n s \<or> selector_has_part s"
  shows "e \<in> set (offered d n ix)"
proof (cases "selector_has_part s")
  case True
  then show ?thesis using assms(1) by (simp add: filed_def offered_def Let_def)
next
  case False
  then have dem: "demanded d n s" using assms(2) by blast
  show ?thesis
  proof (cases "rev (slParts s)")
    case Nil
    then show ?thesis using assms(1) by (simp add: filed_def offered_def Let_def)
  next
    case (Cons p ps)
    obtain comb conds where p: "p = (comb, conds)" by (cases p)
    obtain i cs t where k: "compound_key conds = (i, cs, t)" by (cases "compound_key conds")
    note f = compound_key_facts[OF k]
    note fl = assms(1)[unfolded filed_def Cons p list.case prod.case k]
    note want = dem[unfolded demanded_def Cons p list.case snd_conv]
    consider "i \<noteq> []" | "i = []" "cs \<noteq> []" | "i = []" "cs = []" "t \<noteq> []" | "i = []" "cs = []" "t = []" by blast
    then show ?thesis
    proof cases
      case 1
      then have "get_attribute (nd d n) ''id'' = i" using f(1) want by blast
      then show ?thesis using fl 1 by (simp add: offered_def Let_def)
    next
      case 2
      then obtain c where "c \<in> set cs" by (cases cs) auto
      then have "c \<in> set (class_list (nd d n))" "e \<in> set (riByClass ix c)" using f(2) want fl 2 by auto
      then show ?thesis by (auto simp: offered_def Let_def)
    next
      case 3
      then have "ndData (nd d n) = t" using f(3) want by blast
      then show ?thesis using fl 3 by (simp add: offered_def Let_def)
    next
      case 4
      then show ?thesis using fl 4 by (simp add: offered_def Let_def)
    qed
  qed
qed

lemma collect_facts:
  assumes "\<forall>e. mark e = stamp \<longleftrightarrow> e \<in> set out" "distinct out" "\<forall>e. mark e \<le> stamp" "fold (collect_one stamp) xs (out, mark) = (out', mark')"
  shows "distinct out' \<and> set out' = set out \<union> set xs \<and> (\<forall>e. mark' e \<le> stamp)"
  using assms
proof (induction xs arbitrary: out mark)
  case (Cons x xs)
  show ?case
  proof (cases "mark x = stamp")
    case True
    then have "collect_one stamp x (out, mark) = (out, mark)" by (simp add: collect_one_def)
    then have "fold (collect_one stamp) xs (out, mark) = (out', mark')" using Cons.prems(4) by simp
    from Cons.IH[OF Cons.prems(1-3) this] True Cons.prems(1) show ?thesis by auto
  next
    case False
    then have "collect_one stamp x (out, mark) = (out @ [x], mark(x := stamp))" by (simp add: collect_one_def)
    then have "fold (collect_one stamp) xs (out @ [x], mark(x := stamp)) = (out', mark')" using Cons.prems(4) by simp
    from Cons.IH[OF _ _ _ this] False Cons.prems(1-3) show ?thesis by simp
  qed
qed auto

lemma sift_sorted: "sorted_wrt (\<lambda>a b. rank b \<le> rank a) ys \<Longrightarrow> sorted_wrt (\<lambda>a b. rank b \<le> rank a) (sift rank x ys) \<and> mset (sift rank x ys) = add_mset x (mset ys)"
proof (induction ys)
  case (Cons y ys)
  have "set (sift rank x ys) = insert x (set ys)" using Cons by (metis mset_eq_setD set_mset_add_mset_insert set_mset_mset sorted_wrt.simps(2))
  then show ?case using Cons by fastforce
qed simp

lemma insertion_sort_sorts: "mset (insertion_sort rank out) = mset out \<and> sorted (map rank (insertion_sort rank out))"
proof -
  have "sorted_wrt (\<lambda>a b. rank b \<le> rank a) (fold (sift rank) out ys) \<and> mset (fold (sift rank) out ys) = mset out + mset ys"
    if "sorted_wrt (\<lambda>a b. rank b \<le> rank a) ys" for ys
    using that
  proof (induction out arbitrary: ys)
    case (Cons x xs)
    then show ?case using Cons.IH[of "sift rank x ys"] sift_sorted[OF Cons.prems, of x] by simp
  qed simp
  from this[of "[]"] show ?thesis by (simp add: insertion_sort_def sorted_map sorted_wrt_rev)
qed

text \<open>What \<open>sort.Slice\<close> promises.\<close>

definition sorts :: "((nat \<Rightarrow> nat) \<Rightarrow> nat list \<Rightarrow> nat list) \<Rightarrow> bool" where
  "sorts f \<longleftrightarrow> (\<forall>rank xs. mset (f rank xs) = mset xs \<and> sorted (map rank (f rank xs)))"

lemma candidates_facts:
  assumes "index_inv ix" "sorts slice_sort" "rule_candidates slice_sort d n ix = (out, ix')"
  shows "distinct out" "set out = set (offered d n ix)" "sorted (map (\<lambda>e. enRank (riEntries ix ! e)) out)"
    "index_inv ix'" "riEntries ix' = riEntries ix"
proof -
  define stamp where "stamp = riStamp ix + 1"
  obtain raw mark where raw: "fold (collect_one stamp) (offered d n ix) ([], riMark ix) = (raw, mark)" by fastforce
  have "riMark ix e < stamp" for e using assms(1) by (simp add: index_inv_def stamp_def le_imp_less_Suc)
  then have "distinct raw \<and> set raw = set (offered d n ix) \<and> (\<forall>e. mark e \<le> stamp)"
    using collect_facts[OF _ _ _ raw] by (simp add: less_imp_le less_imp_neq)
  moreover define rank where "rank = (\<lambda>e. enRank (riEntries ix ! e))"
  have c: "out = (if length raw \<le> 16 then insertion_sort rank raw else slice_sort rank raw)" "ix' = ix\<lparr>riStamp := stamp, riMark := mark\<rparr>"
    using assms(3) raw unfolding rule_candidates_def Let_def offered_def[unfolded Let_def] stamp_def[symmetric] rank_def[symmetric]
    by (simp_all only: prod.case prod.inject)
  have "mset out = mset raw \<and> sorted (map rank out)"
    using assms(2) insertion_sort_sorts[of rank raw] by (simp add: c(1) sorts_def)
  ultimately show "distinct out" "set out = set (offered d n ix)" "sorted (map (\<lambda>e. enRank (riEntries ix ! e)) out)"
    by (auto simp: rank_def dest: mset_eq_imp_distinct_iff mset_eq_setD)
  show "riEntries ix' = riEntries ix" by (simp add: c(2))
  have "filed ix' e s = filed ix e s" "bucket_set ix' = bucket_set ix" for e s using filed_frame[of ix' ix] by (simp_all add: c(2))
  then show "index_inv ix'" using assms(1) \<open>distinct raw \<and> set raw = set (offered d n ix) \<and> (\<forall>e. mark e \<le> stamp)\<close>
    by (simp add: index_inv_def c(2))
qed

text \<open>A run of queries on an index.\<close>

definition after_queries :: "((nat \<Rightarrow> nat) \<Rightarrow> nat list \<Rightarrow> nat list) \<Rightarrow> (dom \<times> addr) list \<Rightarrow> rule_index \<Rightarrow> rule_index" where
  "after_queries slice_sort qs ix = fold (\<lambda>(d, n) ix. snd (rule_candidates slice_sort d n ix)) qs ix"

lemma after_queries_inv:
  assumes "index_inv ix" "sorts slice_sort"
  shows "index_inv (after_queries slice_sort qs ix) \<and> riEntries (after_queries slice_sort qs ix) = riEntries ix"
  using assms(1) unfolding after_queries_def
proof (induction qs arbitrary: ix)
  case (Cons q qs)
  obtain d n where q: "q = (d, n)" by (cases q)
  have "index_inv (snd (rule_candidates slice_sort d n ix))" "riEntries (snd (rule_candidates slice_sort d n ix)) = riEntries ix"
    using candidates_facts(4,5)[OF Cons.prems assms(2), of d n] by (metis prod.collapse)+
  then show ?case using Cons.IH by (simp add: q)
qed simp

end
