(* ===== verification/Style_Cascade.thy ===== *)
theory Style_Cascade
  imports Css_Claims Style_Index
begin

text \<open>
  The cascade of \<open>internal/style/style.go\<close>: the loop of \<open>computeStyle\<close> that tests the candidates of
  the rule index, with \<open>@scope\<close>, \<open>::part()\<close>, \<open>@starting-style\<close> and container queries; the entries
  it builds of the matched rules, the style attribute and the presentational attributes; their order;
  and the declaration that wins. Parsed selectors, the declarations of the two kinds of attribute, unit
  conversion and the evaluation of a container query are parameters.
\<close>

subsection \<open>Scopes and parts\<close>

fun first_match :: "(addr \<Rightarrow> bool option) \<Rightarrow> addr list \<Rightarrow> addr option option" where
  "first_match f [] = Some None"
| "first_match f (x # xs) = Option.bind (f x) (\<lambda>b. if b then Some (Some x) else first_match f xs)"

type_synonym page = "string \<Rightarrow> string \<Rightarrow> addr \<Rightarrow> bool"

text \<open>While a scope root is marked, \<open>:scope\<close> holds of it.\<close>

definition scoped :: "page \<Rightarrow> addr \<Rightarrow> page" where
  "scoped page r = (\<lambda>name arg n. if name = ''scope'' \<and> n = r then True else page name arg n)"

definition scope_root :: "dom \<Rightarrow> page \<Rightarrow> (string \<Rightarrow> selector) \<Rightarrow> string \<Rightarrow> addr \<Rightarrow> addr option option" where
  "scope_root d page parse root_sel n =
     (if root_sel = [] then Some (map_option (\<lambda>k. dcNode (dmDoc d k)) (ndDoc (nd d n)))
      else Option.bind (build_path d (Some n))
        (first_match (\<lambda>x. if x = n \<or> is_element d x then sel_matches d page (parse root_sel) x else Some False)))"

definition scope_blocked :: "dom \<Rightarrow> page \<Rightarrow> (string \<Rightarrow> selector) \<Rightarrow> string \<Rightarrow> addr \<Rightarrow> addr \<Rightarrow> bool option" where
  "scope_blocked d page parse limit r n =
     (if limit = [] then Some False
      else Option.bind (build_path d (Some n)) (\<lambda>as. map_option (\<lambda>found. found \<noteq> None)
        (first_match (\<lambda>x. if is_element d x then sel_matches d page (parse limit) x else Some False) (takeWhile (\<lambda>x. x \<noteq> r) as))))"

definition scope_dist :: "dom \<Rightarrow> page \<Rightarrow> (string \<Rightarrow> selector) \<Rightarrow> string \<Rightarrow> addr \<Rightarrow> nat option" where
  "scope_dist d page parse root_sel n =
     (if root_sel = [] then Some 0
      else Option.bind (build_path d (Some n)) (\<lambda>as. map_option
        (\<lambda>found. case found of None \<Rightarrow> 0 | Some r \<Rightarrow> length (takeWhile (\<lambda>x. x \<noteq> r) as) + 1)
        (first_match (\<lambda>x. if x = n \<or> is_element d x then sel_matches d page (parse root_sel) x else Some False) as)))"

definition shadow_descendant :: "dom \<Rightarrow> addr \<Rightarrow> addr \<Rightarrow> bool option" where
  "shadow_descendant d host n =
     Option.bind (build_path d (Some n)) (\<lambda>as. case List.find (\<lambda>x. ndParent (nd d x) = Some host) as of
       None \<Rightarrow> Some False
     | Some c \<Rightarrow> map_option (\<lambda>xs. c \<in> set xs) (siblings d (shadow_head (nd d host))))"

text \<open>
  \<open>MatchesPart\<close>: the last compound with a \<open>::part()\<close>, split at the first one in it; what is before
  holds of the host, what is after of the node. The compounds to the right of it are not read.
\<close>

definition matches_part :: "dom \<Rightarrow> page \<Rightarrow> selector \<Rightarrow> addr \<Rightarrow> addr \<Rightarrow> bool option" where
  "matches_part d page s host n =
     (case dropWhile (\<lambda>p. \<not> list_ex (is_pseudo_element ''part'') (snd p)) (rev (slParts s)) of
        [] \<Rightarrow> Some False
      | (comb, cs) # ps \<Rightarrow>
          (let before_part = takeWhile (\<lambda>c. \<not> is_pseudo_element ''part'' c) cs;
               part_on = dropWhile (\<lambda>c. \<not> is_pseudo_element ''part'' c) cs;
               name = (case part_on of CondPseudoElement v arg # _ \<Rightarrow> arg | _ \<Rightarrow> [])
           in if name = [] \<or> name \<notin> set (str_fields (get_attribute (nd d n) ''part'')) then Some False
              else Option.bind (sel_matches d page (Selector (rev ((comb, if before_part = [] then [CondUniversal] else before_part) # ps))) host)
                (\<lambda>b. if b then map_option fst (match_conditions d page (tl part_on) n None) else Some False)))"

definition part_of_host :: "dom \<Rightarrow> page \<Rightarrow> selector \<Rightarrow> addr \<Rightarrow> bool option" where
  "part_of_host d page s n =
     Option.bind (build_path d (ndParent (nd d n))) (\<lambda>hosts. map_option (\<lambda>found. found \<noteq> None)
       (first_match (\<lambda>h. if ndShadow (nd d h) = None then Some False
          else Option.bind (shadow_descendant d h n) (\<lambda>b. if b then matches_part d page s h n else Some False)) hosts))"

subsection \<open>Testing the candidates\<close>

definition candidate_matches :: "dom \<Rightarrow> page \<Rightarrow> (string \<Rightarrow> selector) \<Rightarrow> (addr \<Rightarrow> string \<Rightarrow> bool) \<Rightarrow> addr \<Rightarrow> entry
    \<Rightarrow> sib_index option \<Rightarrow> answer" where
  "candidate_matches d page parse container n e ix =
     (let ru = enRule e in
      Option.bind
        (if ruScopeRoot ru \<noteq> [] \<or> ruScopeLimit ru \<noteq> [] then
           Option.bind (scope_root d page parse (ruScopeRoot ru) n) (\<lambda>found. case found of
             None \<Rightarrow> Some (False, ix)
           | Some r \<Rightarrow> Option.bind (scope_blocked d page parse (ruScopeLimit ru) r n) (\<lambda>b.
               if b then Some (False, ix) else matches_indexed d (scoped page r) (enSel e) n ix))
         else Option.bind (matches_indexed d page (enSel e) n ix) (\<lambda>(b, ix).
           if \<not> b \<and> selector_has_part (enSel e) then map_option (\<lambda>b. (b, ix)) (part_of_host d page (enSel e) n) else Some (b, ix)))
        (\<lambda>(b, ix). Some (b \<and> (ruContainer ru = [] \<or> container n (ruContainer ru)), ix)))"

text \<open>The loop: the rules of \<open>@starting-style\<close> are put aside untested.\<close>

fun match_loop :: "(entry \<Rightarrow> sib_index option \<Rightarrow> answer) \<Rightarrow> entry list \<Rightarrow> sib_index option \<Rightarrow> (entry list \<times> entry list \<times> sib_index option) option" where
  "match_loop f [] ix = Some ([], [], ix)"
| "match_loop f (e # es) ix =
     (if ruStarting (enRule e) then map_option (\<lambda>(ms, ss, ix). (ms, e # ss, ix)) (match_loop f es ix)
      else Option.bind (f e ix) (\<lambda>(b, ix). map_option (\<lambda>(ms, ss, ix). (if b then e # ms else ms, ss, ix)) (match_loop f es ix)))"

definition matched_rules :: "((nat \<Rightarrow> nat) \<Rightarrow> nat list \<Rightarrow> nat list) \<Rightarrow> dom \<Rightarrow> page \<Rightarrow> (string \<Rightarrow> selector) \<Rightarrow> (addr \<Rightarrow> string \<Rightarrow> bool) \<Rightarrow> addr
    \<Rightarrow> rule_index \<Rightarrow> sib_index option \<Rightarrow> (entry list \<times> entry list \<times> sib_index option) option" where
  "matched_rules slice_sort d page parse container n ix six =
     match_loop (candidate_matches d page parse container n) (map ((!) (riEntries ix)) (fst (rule_candidates slice_sort d n ix))) six"

subsection \<open>Entries\<close>

record cascade_entry =
  ceDecl :: decl
  ceOrigin :: nat
  ceLayer :: nat
  ceScopeDist :: nat
  ceA :: nat
  ceB :: nat
  ceC :: nat
  ceOrder :: int

definition rule_entry :: "nat \<Rightarrow> entry \<Rightarrow> decl \<Rightarrow> cascade_entry" where
  "rule_entry hops e x = (case enWeight e of (a, b, c) \<Rightarrow>
     \<lparr>ceDecl = x, ceOrigin = enOrigin e, ceLayer = enLayer e, ceScopeDist = hops, ceA = a, ceB = b, ceC = c, ceOrder = int (enRank e)\<rparr>)"

fun rule_entries :: "(entry \<Rightarrow> nat option) \<Rightarrow> (decl \<Rightarrow> decl) \<Rightarrow> entry list \<Rightarrow> cascade_entry list option" where
  "rule_entries hops units [] = Some []"
| "rule_entries hops units (e # es) = Option.bind (hops e) (\<lambda>k.
     map_option (\<lambda>xs. map (\<lambda>x. rule_entry k e (units x)) (ruDecls (enRule e)) @ xs) (rule_entries hops units es))"

definition inline_entry :: "int \<Rightarrow> decl \<Rightarrow> cascade_entry" where
  "inline_entry k x = \<lparr>ceDecl = x, ceOrigin = 2, ceLayer = 0, ceScopeDist = 0, ceA = 1, ceB = 1, ceC = 1, ceOrder = k\<rparr>"

definition hint_entry :: "decl \<Rightarrow> cascade_entry" where
  "hint_entry x = \<lparr>ceDecl = x, ceOrigin = 1, ceLayer = 0, ceScopeDist = 0, ceA = 0, ceB = 0, ceC = 0, ceOrder = -1\<rparr>"

text \<open>The two lists, before they are sorted; the hints are put with the normal declarations.\<close>

definition is_important :: "cascade_entry \<Rightarrow> bool" where
  "is_important e = dcImportant (ceDecl e)"

definition cascade_lists :: "dom \<Rightarrow> page \<Rightarrow> (string \<Rightarrow> selector) \<Rightarrow> (decl \<Rightarrow> decl) \<Rightarrow> addr \<Rightarrow> nat \<Rightarrow> entry list \<Rightarrow> decl list \<Rightarrow> decl list
    \<Rightarrow> (cascade_entry list \<times> cascade_entry list) option" where
  "cascade_lists d page parse units n count_before matched style_attr hints =
     map_option (\<lambda>rules.
       (let es = rules @ map (\<lambda>(k, x). inline_entry (int k) (units x)) (enumerate count_before style_attr)
        in (filter (\<lambda>e. \<not> is_important e) es @ map hint_entry hints, filter is_important es)))
       (rule_entries (\<lambda>e. scope_dist d page parse (ruScopeRoot (enRule e)) n) units matched)"

subsection \<open>Order\<close>

definition layer_precedence_rank :: "nat \<Rightarrow> bool \<Rightarrow> int" where
  "layer_precedence_rank layer important =
     (if \<not> important then (if layer = 0 then 1000000000 else int layer)
      else if layer = 0 then 0 else 1000000000 - int layer)"

definition cascade_before :: "cascade_entry \<Rightarrow> cascade_entry \<Rightarrow> bool" where
  "cascade_before e f =
     (let re = layer_precedence_rank (ceLayer e) (is_important e); rf = layer_precedence_rank (ceLayer f) (is_important f) in
      if ceOrigin e \<noteq> ceOrigin f then ceOrigin e < ceOrigin f
      else if ceOrigin e > 0 \<and> re \<noteq> rf then re < rf
      else if ceA e \<noteq> ceA f then ceA e < ceA f
      else if ceB e \<noteq> ceB f then ceB e < ceB f
      else if ceC e \<noteq> ceC f then ceC e < ceC f
      else if ceScopeDist e \<noteq> ceScopeDist f then
        (if ceScopeDist e = 0 \<and> ceScopeDist f > 0 then True
         else if ceScopeDist e > 0 \<and> ceScopeDist f = 0 then False
         else ceScopeDist e > ceScopeDist f)
      else ceOrder e < ceOrder f)"

text \<open>\<open>sort.SliceStable\<close>: an entry stays before those it does not follow.\<close>

fun place_before :: "cascade_entry \<Rightarrow> cascade_entry list \<Rightarrow> cascade_entry list" where
  "place_before e [] = [e]"
| "place_before e (f # fs) = (if cascade_before f e then f # place_before e fs else e # f # fs)"

definition sort_cascade :: "cascade_entry list \<Rightarrow> cascade_entry list" where
  "sort_cascade es = foldr place_before es []"

definition winning_decl_value :: "string \<Rightarrow> cascade_entry list \<Rightarrow> cascade_entry list \<Rightarrow> string option" where
  "winning_decl_value p normal important =
     (case List.find (\<lambda>e. dcProperty (ceDecl e) = p) (rev important) of
        Some e \<Rightarrow> Some (dcValue (ceDecl e))
      | None \<Rightarrow> map_option (\<lambda>e. dcValue (ceDecl e)) (List.find (\<lambda>e. dcProperty (ceDecl e) = p) (rev normal)))"

definition declares_text_align :: "cascade_entry list \<Rightarrow> cascade_entry list \<Rightarrow> bool" where
  "declares_text_align normal important = list_ex (\<lambda>e. dcProperty (ceDecl e) = ''text-align'') (normal @ important)"

text \<open>The values of \<open>resolveStartingStyle\<close>, without \<open>var()\<close>; the scope distance is left at zero.\<close>

definition starting_values :: "(decl \<Rightarrow> decl) \<Rightarrow> entry list \<Rightarrow> string \<Rightarrow> string option" where
  "starting_values units matched =
     (let es = concat (map (\<lambda>e. map (\<lambda>x. rule_entry 0 e (units x)) (ruDecls (enRule e))) matched) in
      fold (\<lambda>e vs. vs(dcProperty (ceDecl e) \<mapsto> dcValue (ceDecl e)))
        (sort_cascade (filter (\<lambda>e. \<not> is_important e) es) @ sort_cascade (filter is_important es)) Map.empty)"

end
