(* ===== verification/Style_Claims.thy ===== *)
theory Style_Claims
  imports Style_Cascade
begin

text \<open>
  Properties of the rule index and of the cascade: testing the candidates of the index, in its order
  and with the shared cache, finds the same rules as testing every rule of every sheet; the order of
  the cascade is that of a key, and the declaration that wins is the greatest of all of them.
\<close>

subsection \<open>The loop over the candidates\<close>













subsection \<open>Positions in rank order\<close>





subsection \<open>The order of the cascade\<close>

definition cascade_key :: "cascade_entry \<Rightarrow> int list" where
  "cascade_key e = [int (ceOrigin e), if ceOrigin e > 0 then layer_precedence_rank (ceLayer e) (is_important e) else 0,
     int (ceA e), int (ceB e), int (ceC e), if ceScopeDist e = 0 then 0 else 1, - int (ceScopeDist e), ceOrder e]"

lemma before_key: "cascade_before e f \<longleftrightarrow> cascade_key e < cascade_key f"
  by (auto simp: cascade_before_def cascade_key_def Let_def)

lemma sort_by_key: "sort_cascade es = sort_key cascade_key es"
proof -
  have "place_before e fs = insort_key cascade_key e fs" for e fs
    by (induction fs) (auto simp: before_key not_le)
  then have "place_before = insort_key cascade_key" by (intro ext)
  then show ?thesis by (simp add: sort_cascade_def sort_key_def)
qed

lemma last_insort: "last (insort_key k y zs) = (if zs = [] then y else if k y \<le> k (last zs) then last zs else y)" if "sorted (map k zs)"
proof (cases zs rule: rev_cases)
  case (snoc us z)
  show ?thesis
  proof (cases "k y \<le> k z")
    case True
    have "last (insort_key k y (us @ [z])) = z" using True by (induction us) (auto split: if_splits)
    then show ?thesis using True snoc by simp
  next
    case False
    have "insort_key k y zs = zs @ [y]" using that False unfolding snoc by (induction us) auto
    then show ?thesis using False snoc by simp
  qed
qed simp

lemma last_sorted_split:
  fixes k :: "'a \<Rightarrow> 'b::linorder"
  assumes "xs \<noteq> []"
  shows "\<exists>us vs. xs = us @ last (sort_key k xs) # vs \<and> (\<forall>x\<in>set us. k x \<le> k (last (sort_key k xs))) \<and> (\<forall>x\<in>set vs. k x < k (last (sort_key k xs)))"
  using assms
proof (induction xs)
  case (Cons y ys)
  have l: "last (sort_key k (y # ys)) = (if ys = [] then y else if k y \<le> k (last (sort_key k ys)) then last (sort_key k ys) else y)"
    using last_insort[of k "sort_key k ys" y] by (simp add: sort_key_def[symmetric] flip: set_empty)
  show ?case
  proof (cases "ys \<noteq> [] \<and> k y \<le> k (last (sort_key k ys))")
    case True
    then obtain us vs where "ys = us @ last (sort_key k ys) # vs" "\<forall>x\<in>set us. k x \<le> k (last (sort_key k ys))"
      "\<forall>x\<in>set vs. k x < k (last (sort_key k ys))" using Cons.IH by blast
    then show ?thesis using True l by (intro exI[of _ "y # us"] exI[of _ vs]) simp
  next
    case False
    have "\<forall>x\<in>set ys. k x < k y"
    proof (cases "ys = []")
      case ne: False
      then obtain us vs where "ys = us @ last (sort_key k ys) # vs" "\<forall>x\<in>set us. k x \<le> k (last (sort_key k ys))"
        "\<forall>x\<in>set vs. k x < k (last (sort_key k ys))" using Cons.IH by blast
      then have "\<forall>x\<in>set ys. k x \<le> k (last (sort_key k ys))" by (metis Un_iff less_imp_le list.set_intros(1) order_refl set_ConsD set_append)
      then show ?thesis using False ne by fastforce
    qed simp
    moreover have "last (sort_key k (y # ys)) = y" using False l by auto
    ultimately show ?thesis by (intro exI[of _ "[]"] exI[of _ ys]) simp
  qed
qed simp

lemma find_rev_last: "List.find P (rev xs) = (if filter P xs = [] then None else Some (last (filter P xs)))"
  by (induction xs rule: rev_induct) (auto split: if_splits)

text \<open>
  The order CSS prescribes, said without the code's: a list of criteria, of which the first that tells
  two declarations apart decides. A layer of 0 is none, and normal declarations outside layers beat
  those in one, a later layer an earlier; for important ones it is the other way round. A scope distance
  of 0 is no scope.
\<close>

definition layer_beats :: "cascade_entry \<Rightarrow> cascade_entry \<Rightarrow> bool" where
  "layer_beats x y \<longleftrightarrow> ceLayer x \<noteq> ceLayer y
     \<and> (if is_important x then ceLayer y = 0 \<or> 0 < ceLayer x \<and> ceLayer x < ceLayer y
        else ceLayer x = 0 \<or> 0 < ceLayer y \<and> ceLayer y < ceLayer x)"

definition scope_beats :: "cascade_entry \<Rightarrow> cascade_entry \<Rightarrow> bool" where
  "scope_beats x y \<longleftrightarrow> 0 < ceScopeDist x \<and> (ceScopeDist y = 0 \<or> ceScopeDist x < ceScopeDist y)"

definition criteria :: "(cascade_entry \<Rightarrow> cascade_entry \<Rightarrow> bool) list" where
  "criteria =
     [\<lambda>x y. is_important x \<and> \<not> is_important y,
      \<lambda>x y. ceOrigin x > ceOrigin y,
      \<lambda>x y. ceOrigin x > 0 \<and> ceOrigin y > 0 \<and> layer_beats x y,
      \<lambda>x y. ceA x > ceA y,
      \<lambda>x y. ceB x > ceB y,
      \<lambda>x y. ceC x > ceC y,
      scope_beats,
      \<lambda>x y. ceOrder x > ceOrder y]"

definition outranks :: "cascade_entry \<Rightarrow> cascade_entry \<Rightarrow> bool" where
  "outranks x y \<longleftrightarrow>
     (\<exists>i<length criteria. (criteria ! i) x y \<and> (\<forall>j<i. \<not> (criteria ! j) x y \<and> \<not> (criteria ! j) y x))"

fun decided :: "('a \<Rightarrow> 'a \<Rightarrow> bool) list \<Rightarrow> 'a \<Rightarrow> 'a \<Rightarrow> bool" where
  "decided [] x y = False"
| "decided (c # cs) x y = (c x y \<or> \<not> c y x \<and> decided cs x y)"

lemma first_decides:
  "(\<exists>i<length cs. (cs ! i) x y \<and> (\<forall>j<i. \<not> (cs ! j) x y \<and> \<not> (cs ! j) y x)) \<longleftrightarrow> decided cs x y"
  by (induction cs) (auto simp: Ex_less_Suc2 All_less_Suc2)

lemma rank_layer:
  assumes "ceLayer x < 1000000000" "ceLayer y < 1000000000" "is_important x = is_important y"
  shows "layer_precedence_rank (ceLayer y) (is_important y) < layer_precedence_rank (ceLayer x) (is_important x) \<longleftrightarrow> layer_beats x y"
  using assms by (auto simp: layer_beats_def layer_precedence_rank_def)

lemma rank_same:
  assumes "ceLayer x < 1000000000" "ceLayer y < 1000000000" "is_important x = is_important y" "\<not> layer_beats x y" "\<not> layer_beats y x"
  shows "layer_precedence_rank (ceLayer y) (is_important y) = layer_precedence_rank (ceLayer x) (is_important x)"
  using rank_layer[OF assms(1-3)] rank_layer[OF assms(2,1) assms(3)[symmetric]] assms(4,5) by simp

text \<open>The code's comparison is that order, for layers fewer than its rank for no layer.\<close>

lemma outranks_key:
  assumes "ceLayer x < 1000000000" "ceLayer y < 1000000000"
  shows "outranks x y \<longleftrightarrow> is_important x \<and> \<not> is_important y \<or> is_important x = is_important y \<and> cascade_key y < cascade_key x"
proof (cases "is_important x = is_important y")
  case True
  have e: "outranks x y \<longleftrightarrow> decided criteria x y" unfolding outranks_def by (rule first_decides)
  note rl = rank_layer[OF assms True]
  consider "layer_beats x y" | "layer_beats y x" | "\<not> layer_beats x y" "\<not> layer_beats y x" by blast
  then show ?thesis
  proof cases
    case 1
    then have "\<not> layer_beats y x" using True by (auto simp: layer_beats_def split: if_splits)
    with 1 rl show ?thesis using True by (auto simp: e criteria_def cascade_key_def scope_beats_def)
  next
    case 2
    then have "\<not> layer_beats x y" using True by (auto simp: layer_beats_def split: if_splits)
    moreover have "layer_precedence_rank (ceLayer x) (is_important x) < layer_precedence_rank (ceLayer y) (is_important y)"
      using 2 rank_layer[OF assms(2,1) True[symmetric]] by simp
    ultimately show ?thesis using 2 True by (auto simp: e criteria_def cascade_key_def scope_beats_def)
  next
    case 3
    then show ?thesis using True rank_same[OF assms True 3] by (auto simp: e criteria_def cascade_key_def scope_beats_def)
  qed
next
  case False
  then show ?thesis unfolding outranks_def first_decides by (auto simp: criteria_def)
qed

text \<open>The entry that wins a property.\<close>

definition wins :: "string \<Rightarrow> cascade_entry list \<Rightarrow> cascade_entry \<Rightarrow> bool" where
  "wins p es e \<longleftrightarrow> (\<exists>us vs. es = us @ e # vs \<and> dcProperty (ceDecl e) = p
     \<and> (\<forall>x\<in>set us. dcProperty (ceDecl x) = p \<longrightarrow> \<not> outranks x e) \<and> (\<forall>x\<in>set vs. dcProperty (ceDecl x) = p \<longrightarrow> outranks e x))"

lemma wins_in: "wins p es e \<Longrightarrow> e \<in> set es \<and> dcProperty (ceDecl e) = p"
  by (auto simp: wins_def)

lemma wins_unique:
  assumes "wins p es e" "wins p es f"
  shows "e = f"
proof -
  obtain us vs where e: "es = us @ e # vs" "dcProperty (ceDecl e) = p" "\<forall>x\<in>set us. dcProperty (ceDecl x) = p \<longrightarrow> \<not> outranks x e"
    "\<forall>x\<in>set vs. dcProperty (ceDecl x) = p \<longrightarrow> outranks e x" using assms(1) by (auto simp: wins_def)
  obtain us' vs' where f: "es = us' @ f # vs'" "dcProperty (ceDecl f) = p" "\<forall>x\<in>set us'. dcProperty (ceDecl x) = p \<longrightarrow> \<not> outranks x f"
    "\<forall>x\<in>set vs'. dcProperty (ceDecl x) = p \<longrightarrow> outranks f x" using assms(2) by (auto simp: wins_def)
  from e(1) f(1) have "us @ e # vs = us' @ f # vs'" by simp
  then consider "e = f" | "f \<in> set vs" "e \<in> set us'" | "e \<in> set vs'" "f \<in> set us"
    by (auto simp: append_eq_append_conv2 append_eq_Cons_conv Cons_eq_append_conv)
  then show ?thesis using e f by cases auto
qed

lemma winner_value: "wins p es e \<Longrightarrow> Some (dcValue (ceDecl e)) = Some v \<longleftrightarrow> (\<exists>e. wins p es e \<and> dcValue (ceDecl e) = v)"
  using wins_unique by blast

lemma filter_split: "filter Q es = us @ e # vs \<Longrightarrow> \<exists>us' vs'. es = us' @ e # vs' \<and> us = filter Q us' \<and> vs = filter Q vs' \<and> Q e"
proof (induction us arbitrary: es)
  case Nil
  then show ?case by (fastforce simp: filter_eq_Cons_iff)
next
  case (Cons u us)
  then obtain ws es' where "es = ws @ u # es'" "\<forall>x\<in>set ws. \<not> Q x" "Q u" "filter Q es' = us @ e # vs"
    by (auto simp: filter_eq_Cons_iff)
  moreover from Cons.IH[OF this(4)] obtain us' vs' where "es' = us' @ e # vs'" "us = filter Q us'" "vs = filter Q vs'" "Q e" by blast
  ultimately show ?case by (intro exI[of _ "ws @ u # us'"] exI[of _ vs']) simp
qed

lemma last_wins:
  assumes "filter Q es \<noteq> []" "\<And>x. Q x \<longleftrightarrow> dcProperty (ceDecl x) = p \<and> is_important x = b"
    "\<And>x. x \<in> set es \<Longrightarrow> dcProperty (ceDecl x) = p \<Longrightarrow> is_important x \<noteq> b \<Longrightarrow> b"
    and layers: "\<forall>x\<in>set es. ceLayer x < 1000000000"
  shows "wins p es (last (sort_cascade (filter Q es)))"
proof -
  define e where "e = last (sort_cascade (filter Q es))"
  obtain us vs where q: "filter Q es = us @ e # vs" and us: "\<forall>x\<in>set us. cascade_key x \<le> cascade_key e"
    and vs: "\<forall>x\<in>set vs. cascade_key x < cascade_key e"
    using last_sorted_split[OF assms(1), of cascade_key] by (auto simp: e_def sort_by_key)
  from filter_split[OF q] obtain us' vs' where es: "es = us' @ e # vs'" and f: "us = filter Q us'" "vs = filter Q vs'" and e: "Q e"
    by blast
  have key: "outranks x y \<longleftrightarrow> is_important x \<and> \<not> is_important y \<or> is_important x = is_important y \<and> cascade_key y < cascade_key x"
    if "x \<in> set es" "y \<in> set es" for x y by (rule outranks_key) (use layers that in blast)+
  have "\<not> outranks x e" if "x \<in> set us'" "dcProperty (ceDecl x) = p" for x
    using that us f(1) assms(2)[of x] assms(2)[of e] e assms(3)[of x] es key[of x e] by (auto simp: not_less)
  moreover have "outranks e x" if "x \<in> set vs'" "dcProperty (ceDecl x) = p" for x
    using that vs f(2) assms(2)[of x] assms(2)[of e] e assms(3)[of x] es key[of e x] by auto
  ultimately have "wins p es e" unfolding wins_def using es e assms(2)[of e] by blast
  then show ?thesis by (simp only: e_def)
qed

lemma find_in_cascade:
  "List.find (\<lambda>e. dcProperty (ceDecl e) = p) (rev (sort_cascade (filter (\<lambda>e. is_important e = b) es)))
   = (if filter (\<lambda>e. is_important e = b \<and> dcProperty (ceDecl e) = p) es = [] then None
      else Some (last (sort_cascade (filter (\<lambda>e. is_important e = b \<and> dcProperty (ceDecl e) = p) es))))"
proof -
  have nil: "sort_cascade xs = [] \<longleftrightarrow> xs = []" for xs unfolding sort_by_key by (metis length_0_conv length_sort)
  have "filter (\<lambda>e. dcProperty (ceDecl e) = p) (sort_cascade (filter (\<lambda>e. is_important e = b) es))
      = sort_cascade (filter (\<lambda>e. is_important e = b \<and> dcProperty (ceDecl e) = p) es)"
    unfolding sort_by_key filter_sort filter_filter ..
  then show ?thesis unfolding find_rev_last by (simp only: nil)
qed

text \<open>
  Claim C7. Of all declarations of a property, normal and important, in the order they were put, the
  cascade picks the value of the one that no earlier one outranks and that outranks every later one:
  an important one outranks a normal one, and otherwise origin, layer (for the author's), the three parts
  of the specificity, nearness to a scope and order decide, the first that tells the two apart, ties
  falling to the later. Without one there is no value.
\<close>

theorem cascade_winner:
  assumes "\<forall>e\<in>set es. ceLayer e < 1000000000"
  shows "winning_decl_value p (sort_cascade (filter (\<lambda>e. \<not> is_important e) es)) (sort_cascade (filter is_important es)) = Some v
     \<longleftrightarrow> (\<exists>e. wins p es e \<and> dcValue (ceDecl e) = v)"
proof -
  let ?Q = "\<lambda>b e. is_important e = b \<and> dcProperty (ceDecl e) = p"
  note found = find_in_cascade[of p]
  show ?thesis
  proof (cases "filter (?Q True) es = []")
    case False
    then have w: "wins p es (last (sort_cascade (filter (?Q True) es)))" by (rule last_wins[where b = True]) (blast, blast, rule assms)
    have v: "winning_decl_value p (sort_cascade (filter (\<lambda>e. \<not> is_important e) es)) (sort_cascade (filter is_important es))
      = Some (dcValue (ceDecl (last (sort_cascade (filter (?Q True) es)))))"
      using found[of True es] False by (simp add: winning_decl_value_def)
    show ?thesis unfolding v by (rule winner_value[OF w])
  next
    case True
    then have none: "\<not> is_important x" if "x \<in> set es" "dcProperty (ceDecl x) = p" for x using that by (auto simp: filter_empty_conv)
    have w: "winning_decl_value p (sort_cascade (filter (\<lambda>e. \<not> is_important e) es)) (sort_cascade (filter is_important es))
      = (if filter (?Q False) es = [] then None else Some (dcValue (ceDecl (last (sort_cascade (filter (?Q False) es))))))"
      using found[of True es] found[of False es] True by (simp add: winning_decl_value_def)
    show ?thesis
    proof (cases "filter (?Q False) es = []")
      case False
      then have win: "wins p es (last (sort_cascade (filter (?Q False) es)))"
        by (rule last_wins[where b = False]) (blast, use none in blast, rule assms)
      show ?thesis unfolding w if_not_P[OF False] by (rule winner_value[OF win])
    next
      case True
      then have "\<not> wins p es e" for e using wins_in[of p es e] none[of e] unfolding filter_empty_conv by blast
      then show ?thesis using w True by simp
    qed
  qed
qed

text \<open>
  A rule with an id inside a layer loses to a plain one outside, and both to an important one of the
  browser's own sheet.
\<close>

definition entry_of :: "string \<Rightarrow> bool \<Rightarrow> nat \<Rightarrow> nat \<Rightarrow> nat \<Rightarrow> cascade_entry" where
  "entry_of v imp origin layer a = \<lparr>ceDecl = \<lparr>dcProperty = ''color'', dcValue = v, dcImportant = imp\<rparr>, ceOrigin = origin, ceLayer = layer,
     ceScopeDist = 0, ceA = a, ceB = 0, ceC = 1, ceOrder = 0\<rparr>"

theorem cascade_winner_witness:
  "(\<exists>e. wins ''color'' [entry_of ''red'' False 1 0 0, entry_of ''blue'' False 1 2 1] e \<and> dcValue (ceDecl e) = ''red'')
   \<and> (\<exists>e. wins ''color'' [entry_of ''green'' True 0 0 0, entry_of ''red'' False 1 0 0] e \<and> dcValue (ceDecl e) = ''green'')"
proof -
  let ?xs = "[entry_of ''red'' False 1 0 0, entry_of ''blue'' False 1 2 1]" and ?ys = "[entry_of ''green'' True 0 0 0, entry_of ''red'' False 1 0 0]"
  have l: "\<forall>e\<in>set ?xs. ceLayer e < 1000000000" "\<forall>e\<in>set ?ys. ceLayer e < 1000000000" by (simp_all add: entry_of_def)
  have v: "winning_decl_value ''color'' (sort_cascade (filter (\<lambda>e. \<not> is_important e) ?xs)) (sort_cascade (filter is_important ?xs)) = Some ''red''"
    "winning_decl_value ''color'' (sort_cascade (filter (\<lambda>e. \<not> is_important e) ?ys)) (sort_cascade (filter is_important ?ys)) = Some ''green''"
    by code_simp+
  show ?thesis using iffD1[OF cascade_winner[OF l(1)] v(1)] iffD1[OF cascade_winner[OF l(2)] v(2)] by blast
qed

text \<open>
  Claim C39. A presentational attribute beats every normal rule of a layer for the same property,
  whatever its specificity, since the hint is an unlayered entry of the author's origin.
\<close>

theorem hint_beats_layered_rule:
  assumes "ceOrigin e = 1" "0 < ceLayer e" "ceLayer e < 1000000000" "0 \<le> ceOrder e" "\<not> is_important e"
    "dcProperty (ceDecl e) = dcProperty h" "\<not> dcImportant h"
  shows "winning_decl_value (dcProperty h) (sort_cascade [e, hint_entry h]) [] = Some (dcValue h)
    \<and> winning_decl_value (dcProperty h) (sort_cascade [e\<lparr>ceLayer := 0\<rparr>, hint_entry h]) [] = Some (dcValue (ceDecl e))"
proof -
  have "cascade_before e (hint_entry h)" "\<not> cascade_before (hint_entry h) e"
    using assms by (simp_all add: before_key cascade_key_def hint_entry_def layer_precedence_rank_def is_important_def)
  moreover have "cascade_before (hint_entry h) (e\<lparr>ceLayer := 0\<rparr>)" "\<not> cascade_before (e\<lparr>ceLayer := 0\<rparr>) (hint_entry h)"
    using assms by (auto simp: before_key cascade_key_def hint_entry_def layer_precedence_rank_def is_important_def)
  ultimately show ?thesis using assms(6) by (simp add: sort_cascade_def winning_decl_value_def hint_entry_def)
qed

subsection \<open>A small sheet\<close>

definition demo_decl :: decl where
  "demo_decl = \<lparr>dcProperty = ''color'', dcValue = ''red'', dcImportant = False\<rparr>"

definition demo_rule :: "bool \<Rightarrow> selector \<Rightarrow> rule" where
  "demo_rule starting s = \<lparr>ruSelectors = [s], ruDecls = [demo_decl], ruLayer = ''base'', ruContainer = [], ruScopeRoot = [],
     ruScopeLimit = [], ruStarting = starting\<rparr>"

definition demo_sheet :: "bool \<Rightarrow> selector \<Rightarrow> sheet" where
  "demo_sheet starting s = \<lparr>shRules = [demo_rule starting s], shLayers = [], shUser = True\<rparr>"



definition demo_entry :: cascade_entry where
  "demo_entry = \<lparr>ceDecl = demo_decl, ceOrigin = 1, ceLayer = 1, ceScopeDist = 0, ceA = 1, ceB = 0, ceC = 0, ceOrder = 0\<rparr>"

theorem hint_beats_layered_rule_witness:
  "winning_decl_value ''color'' (sort_cascade [demo_entry, hint_entry (demo_decl\<lparr>dcValue := ''blue''\<rparr>)]) [] = Some ''blue''"
  using hint_beats_layered_rule[of demo_entry "demo_decl\<lparr>dcValue := ''blue''\<rparr>"]
  by (simp add: demo_entry_def demo_decl_def is_important_def)

text \<open>The rules of \<open>@starting-style\<close> are offered by their rightmost compound and never tested.\<close>

definition inner_p :: selector where
  "inner_p = Selector [(nul, [CondClass ''a'']), (CHR '' '', [CondType ''p''])]"

definition inner_entry :: entry where
  "inner_entry = \<lparr>enRule = demo_rule True inner_p, enSel = inner_p, enOrigin = 1, enLayer = 1, enWeight = (0, 1, 1), enRank = 0\<rparr>"

lemma starting_rule_untested:
  "matched_rules insertion_sort small_tree no_page (\<lambda>_. tag_p) (\<lambda>_ _. True) 1 (build_rule_index [demo_sheet True inner_p]) None
     = Some ([], [inner_entry], None)
   \<and> starting_values id [inner_entry] ''color'' = Some ''red'' \<and> \<not> sat small_tree no_page inner_p 1"
proof (intro conjI)
  show "matched_rules insertion_sort small_tree no_page (\<lambda>_. tag_p) (\<lambda>_ _. True) 1 (build_rule_index [demo_sheet True inner_p]) None
     = Some ([], [inner_entry], None)"
  proof -
    have "map ((!) (riEntries (build_rule_index [demo_sheet True inner_p])))
      (fst (rule_candidates insertion_sort small_tree 1 (build_rule_index [demo_sheet True inner_p]))) = [inner_entry]" by code_simp
    then show ?thesis unfolding matched_rules_def by (simp add: inner_entry_def demo_rule_def)
  qed
  show "starting_values id [inner_entry] ''color'' = Some ''red''" by code_simp
  have "ndAttr (nd small_tree m) = []" for m by (simp add: small_tree_def small_node_def zero_node_def)
  then have "class_list (nd small_tree m) = []" for m by (simp add: class_list_def get_attribute_def)
  then show "\<not> sat small_tree no_page inner_p 1" by (simp add: inner_p_def)
qed

end
