(* ===== verification/Net_Address.thy ===== *)
theory Net_Address
  imports Go_Strings "HOL-Library.Word"
begin

text \<open>
  The private-network rule. \<open>internal/engine/limits.go\<close> classifies addresses and host names and
  resolves what a page asks for, \<open>cmd/goosie/page_load.go\<close> hands the classification down, and
  \<open>internal/net/address_guard.go\<close> judges every address a connection would go to. An address is
  Go's \<open>net.IP\<close>, a list of 4 or 16 bytes, the empty list being nil. Parsing of URLs, of
  addresses and of host and port, and the resolver, are parameters: \<open>Dial a\<close> is a call of the
  dialer on \<open>a\<close>.
\<close>

unbundle bit_operations_syntax

subsection \<open>Addresses\<close>

type_synonym ip = "8 word list"

definition to4 :: "ip \<Rightarrow> ip option" where
  "to4 a = (if length a = 4 then Some a
     else if length a = 16 \<and> take 12 a = replicate 10 0 @ [0xFF, 0xFF] then Some (drop 12 a) else None)"

definition ip_equal :: "ip \<Rightarrow> ip \<Rightarrow> bool" where
  "ip_equal a b \<longleftrightarrow> a = b \<or> (length a \<noteq> length b \<and> to4 a \<noteq> None \<and> to4 a = to4 b)"

definition is_loopback :: "ip \<Rightarrow> bool" where
  "is_loopback a = (case to4 a of Some b \<Rightarrow> b ! 0 = 127 | None \<Rightarrow> ip_equal a (replicate 15 0 @ [1]))"

definition is_private :: "ip \<Rightarrow> bool" where
  "is_private a = (case to4 a of
     Some b \<Rightarrow> b ! 0 = 10 \<or> (b ! 0 = 172 \<and> b ! 1 AND 0xF0 = 16) \<or> (b ! 0 = 192 \<and> b ! 1 = 168)
   | None \<Rightarrow> length a = 16 \<and> a ! 0 AND 0xFE = 0xFC)"

definition is_link_local_unicast :: "ip \<Rightarrow> bool" where
  "is_link_local_unicast a = (case to4 a of
     Some b \<Rightarrow> b ! 0 = 169 \<and> b ! 1 = 254
   | None \<Rightarrow> length a = 16 \<and> a ! 0 = 0xFE \<and> a ! 1 AND 0xC0 = 0x80)"

definition is_link_local_multicast :: "ip \<Rightarrow> bool" where
  "is_link_local_multicast a = (case to4 a of
     Some b \<Rightarrow> b ! 0 = 224 \<and> b ! 1 = 0 \<and> b ! 2 = 0
   | None \<Rightarrow> length a = 16 \<and> a ! 0 = 0xFF \<and> a ! 1 AND 0x0F = 2)"

definition is_interface_local_multicast :: "ip \<Rightarrow> bool" where
  "is_interface_local_multicast a \<longleftrightarrow> length a = 16 \<and> a ! 0 = 0xFF \<and> a ! 1 AND 0x0F = 1"

definition is_unspecified :: "ip \<Rightarrow> bool" where
  "is_unspecified a \<longleftrightarrow> ip_equal a [0, 0, 0, 0] \<or> ip_equal a (replicate 16 0)"

text \<open>\<open>IPNet.Contains\<close> for the network with this number and mask.\<close>

definition ip_net_contains :: "ip \<Rightarrow> ip \<Rightarrow> ip \<Rightarrow> bool" where
  "ip_net_contains number msk a =
     (let x = (case to4 a of Some b \<Rightarrow> b | None \<Rightarrow> a)
      in length x = length number \<and> list_all (\<lambda>i. number ! i AND msk ! i = x ! i AND msk ! i) [0..<length number])"

definition localOnlyPrefixes :: "(ip \<times> ip) list" where
  "localOnlyPrefixes = [([0, 0, 0, 0], [0xFF, 0, 0, 0]), ([100, 64, 0, 0], [0xFF, 0xC0, 0, 0])]"

definition address_blocked :: "ip \<Rightarrow> bool" where
  "address_blocked a =
     (if a = [] then False
      else if is_loopback a \<or> is_private a \<or> is_link_local_unicast a \<or> is_link_local_multicast a
        \<or> is_interface_local_multicast a \<or> is_unspecified a then True
      else list_ex (\<lambda>(n, m). ip_net_contains n m a) localOnlyPrefixes)"

subsection \<open>Names and references\<close>

record web_url =
  wuScheme :: string
  wuHostname :: string

definition is_local_authority :: "(string \<Rightarrow> ip option) \<Rightarrow> string \<Rightarrow> bool" where
  "is_local_authority parse_ip host =
     (if host = [] then False
      else case parse_ip host of
        Some a \<Rightarrow> address_blocked a
      | None \<Rightarrow>
          (let name = to_lower (trim_suffix ''.'' host)
           in name = ''localhost'' \<or> list_ex (\<lambda>s. suffix s name) [''.localhost'', ''.local'', ''.internal'', ''.home.arpa'']))"

definition initiator_is_local :: "(string \<Rightarrow> ip option) \<Rightarrow> web_url \<Rightarrow> bool" where
  "initiator_is_local parse_ip b \<longleftrightarrow> wuScheme b = ''file'' \<or> is_local_authority parse_ip (wuHostname b)"

text \<open>The exported form, on a string; one that does not parse is not local.\<close>

definition initiator_local_string :: "(string \<Rightarrow> web_url option) \<Rightarrow> (string \<Rightarrow> ip option) \<Rightarrow> string \<Rightarrow> bool" where
  "initiator_local_string parse parse_ip raw = (case parse raw of None \<Rightarrow> False | Some b \<Rightarrow> initiator_is_local parse_ip b)"

definition resolve_subresource_url :: "(string \<Rightarrow> web_url option) \<Rightarrow> (web_url \<Rightarrow> web_url \<Rightarrow> web_url) \<Rightarrow> (string \<Rightarrow> ip option) \<Rightarrow>
    string \<Rightarrow> string \<Rightarrow> web_url option" where
  "resolve_subresource_url parse resolve parse_ip base href =
     (case parse base of
        None \<Rightarrow> None
      | Some b \<Rightarrow>
          (case parse href of
             None \<Rightarrow> None
           | Some r \<Rightarrow>
               (let u = resolve b r
                in if wuScheme u \<noteq> ''http'' \<and> wuScheme u \<noteq> ''https'' then None
                   else if wuScheme b = ''https'' \<and> wuScheme u = ''http'' then None
                   else if is_local_authority parse_ip (wuHostname u) \<and> \<not> initiator_is_local parse_ip b then None
                   else Some u)))"

subsection \<open>The dial\<close>

record address_guard =
  agBlocked :: "(ip \<Rightarrow> bool) option"
  agLookup :: "(string \<Rightarrow> ip list option) option"

text \<open>A request context is the guard it carries, if any.\<close>

definition with_address_guard :: "address_guard option \<Rightarrow> address_guard \<Rightarrow> address_guard option" where
  "with_address_guard ctx g = (if agBlocked g = None then ctx else Some g)"

datatype dial_error = BadAddress | BlockedAddress | ResolveFailed | NoAddresses

datatype dial_outcome = Dial string | Refused dial_error

record dial_env =
  deSplit :: "string \<Rightarrow> (string \<times> string) option"
  deJoin :: "string \<Rightarrow> string \<Rightarrow> string"
  deParse :: "string \<Rightarrow> ip option"
  deShow :: "ip \<Rightarrow> string"
  deSystem :: "string \<Rightarrow> ip list option"

definition dial_address_guarded :: "dial_env \<Rightarrow> address_guard option \<Rightarrow> string \<Rightarrow> dial_outcome" where
  "dial_address_guarded env ctx addr =
     (case ctx of
        None \<Rightarrow> Dial addr
      | Some g \<Rightarrow>
          (let blocked = (case agBlocked g of None \<Rightarrow> (\<lambda>_. False) | Some p \<Rightarrow> p)
           in case deSplit env addr of
             None \<Rightarrow> Refused BadAddress
           | Some (host, port) \<Rightarrow>
               (case deParse env host of
                  Some a \<Rightarrow> if blocked a then Refused BlockedAddress else Dial addr
                | None \<Rightarrow>
                    (case (case agLookup g of Some l \<Rightarrow> l | None \<Rightarrow> deSystem env) host of
                       None \<Rightarrow> Refused ResolveFailed
                     | Some [] \<Rightarrow> Refused NoAddresses
                     | Some as \<Rightarrow>
                         (case List.find (\<lambda>a. \<not> blocked a) as of
                            Some a \<Rightarrow> Dial (deJoin env (deShow env a) port)
                          | None \<Rightarrow> Refused BlockedAddress)))))"

definition subresource_ctx :: "(string \<Rightarrow> web_url option) \<Rightarrow> (string \<Rightarrow> ip option) \<Rightarrow> address_guard option \<Rightarrow> string \<Rightarrow> address_guard option" where
  "subresource_ctx parse parse_ip ctx base =
     (if initiator_local_string parse parse_ip base then ctx
      else with_address_guard ctx \<lparr>agBlocked = Some address_blocked, agLookup = None\<rparr>)"

subsection \<open>Address ranges\<close>

text \<open>The rule written as ranges of the address read as one number.\<close>

fun bytes_value :: "ip \<Rightarrow> nat" where
  "bytes_value [] = 0"
| "bytes_value (b # bs) = unat b * 256 ^ length bs + bytes_value bs"

definition in_block :: "nat \<Rightarrow> nat \<times> nat \<times> nat \<times> nat \<times> nat \<Rightarrow> bool" where
  "in_block v r = (case r of (a, b, c, d, len) \<Rightarrow>
     v div 2 ^ (32 - len) = (((a * 256 + b) * 256 + c) * 256 + d) div 2 ^ (32 - len))"

definition local_blocks :: "(nat \<times> nat \<times> nat \<times> nat \<times> nat) list" where
  "local_blocks = [(127, 0, 0, 0, 8), (10, 0, 0, 0, 8), (172, 16, 0, 0, 12), (192, 168, 0, 0, 16), (169, 254, 0, 0, 16),
     (224, 0, 0, 0, 24), (0, 0, 0, 0, 8), (100, 64, 0, 0, 10)]"

definition local_v6 :: "nat \<Rightarrow> bool" where
  "local_v6 v \<longleftrightarrow> v \<le> 1 \<or> v div 2 ^ 121 = 0x7E \<or> v div 2 ^ 118 = 0x3FA
     \<or> (v div 2 ^ 120 = 0xFF \<and> v div 2 ^ 112 mod 16 \<in> {1, 2})"

lemma byte_bound: "unat (x :: 8 word) < 256"
  using unsigned_less[of x, where ?'a = nat] by simp

text \<open>A mask of the high bits keeps the quotient, one of the low bits the remainder.\<close>

lemma high_mask:
  assumes "(n :: nat) < 256" "k \<le> 8"
  shows "n AND push_bit k (mask (8 - k)) = n div 2 ^ k * 2 ^ k"
proof -
  have "n AND push_bit k (mask (8 - k)) = push_bit k (take_bit (8 - k) (drop_bit k n))"
    by (rule bit_eqI) (auto simp: bit_and_iff bit_push_bit_iff bit_mask_iff bit_take_bit_iff bit_drop_bit_eq)
  moreover have "drop_bit k n < 2 ^ (8 - k)"
  proof -
    have "n < 2 ^ (8 - k) * 2 ^ k" using assms by (simp flip: power_add)
    then show ?thesis by (simp add: drop_bit_eq_div less_mult_imp_div_less)
  qed
  ultimately show ?thesis by (simp add: take_bit_nat_eq_self drop_bit_eq_div push_bit_eq_mult)
qed

lemma masks:
  fixes x :: "8 word"
  shows "x AND 0xF0 = 16 \<longleftrightarrow> unat x div 16 = 1" "x AND 0xFE = 0xFC \<longleftrightarrow> unat x div 2 = 0x7E" "x AND 0xC0 = 0x80 \<longleftrightarrow> unat x div 64 = 2"
    "x AND 0x0F = 2 \<longleftrightarrow> unat x mod 16 = 2" "x AND 0x0F = 1 \<longleftrightarrow> unat x mod 16 = 1" "64 = x AND 0xC0 \<longleftrightarrow> unat x div 64 = 1"
    "x AND 0xFF = x"
proof -
  have h: "unat x AND 0xF0 = unat x div 16 * 16" "unat x AND 0xFE = unat x div 2 * 2" "unat x AND 0xC0 = unat x div 64 * 64" "unat x AND 0xFF = unat x"
    using high_mask[OF byte_bound, of 4 x] high_mask[OF byte_bound, of 1 x] high_mask[OF byte_bound, of 6 x] high_mask[OF byte_bound, of 0 x]
    by (simp_all add: mask_eq_exp_minus_1 push_bit_eq_mult)
  have l: "unat x AND 0x0F = unat x mod 16"
    using take_bit_eq_mask[of 4 "unat x"] by (simp add: mask_eq_exp_minus_1 take_bit_eq_mod)
  show "x AND 0xF0 = 16 \<longleftrightarrow> unat x div 16 = 1" "x AND 0xFE = 0xFC \<longleftrightarrow> unat x div 2 = 0x7E" "x AND 0xC0 = 0x80 \<longleftrightarrow> unat x div 64 = 2"
    "x AND 0x0F = 2 \<longleftrightarrow> unat x mod 16 = 2" "x AND 0x0F = 1 \<longleftrightarrow> unat x mod 16 = 1" "64 = x AND 0xC0 \<longleftrightarrow> unat x div 64 = 1"
    "x AND 0xFF = x"
    by (auto simp: word_unat_eq_iff unsigned_and_eq h l)
qed

lemma bytes_value_less: "bytes_value bs < 256 ^ length bs"
proof (induction bs)
  case (Cons b bs)
  have "unat b \<le> 255" using byte_bound[of b] by simp
  then have "unat b * 256 ^ length bs \<le> 255 * 256 ^ length bs" by (rule mult_le_mono1)
  then have "unat b * 256 ^ length bs + bytes_value bs < 255 * 256 ^ length bs + 256 ^ length bs" using Cons.IH by (rule add_le_less_mono)
  then show ?case by simp
qed simp

lemma bytes_value_div: "bytes_value (as @ bs) div 256 ^ length bs = bytes_value as"
proof (induction as)
  case Nil
  then show ?case using bytes_value_less[of bs] by simp
next
  case (Cons a as)
  have "bytes_value ((a # as) @ bs) = unat a * 256 ^ length as * 256 ^ length bs + bytes_value (as @ bs)"
    by (simp add: power_add)
  then show ?case using Cons.IH by (simp only: div_mult_self3) simp
qed

lemma bytes_value_inject: "length as = length bs \<Longrightarrow> bytes_value as = bytes_value bs \<longleftrightarrow> as = bs"
proof (induction as bs rule: list_induct2)
  case (Cons a as b bs)
  have "bytes_value (a # as) div 256 ^ length as = unat a" "bytes_value (b # bs) div 256 ^ length as = unat b"
    using bytes_value_div[of "[a]" as] bytes_value_div[of "[b]" bs] Cons.hyps by simp_all
  then have "bytes_value (a # as) = bytes_value (b # bs) \<Longrightarrow> a = b" by (metis word_unat_eq_iff)
  then show ?case using Cons by auto
qed simp

lemma quad_div:
  fixes n0 n1 n2 n3 :: nat
  assumes "n1 < 256" "n2 < 256" "n3 < 256"
  defines "v \<equiv> ((n0 * 256 + n1) * 256 + n2) * 256 + n3"
  shows "v div 2 ^ 24 = n0" "v div 2 ^ 20 = n0 * 16 + n1 div 16" "v div 2 ^ 22 = n0 * 4 + n1 div 64" "v div 2 ^ 16 = n0 * 256 + n1"
    "v div 2 ^ 8 = (n0 * 256 + n1) * 256 + n2"
proof -
  have 8: "v div 256 = (n0 * 256 + n1) * 256 + n2" using assms(3) by (simp add: v_def)
  have 16: "v div 256 div 256 = n0 * 256 + n1" using assms(2) by (simp add: 8)
  show "v div 2 ^ 8 = (n0 * 256 + n1) * 256 + n2" using 8 by simp
  have e: "v div 65536 = n0 * 256 + n1" using 16 by (simp add: div_mult2_eq[symmetric])
  then show "v div 2 ^ 16 = n0 * 256 + n1" by simp
  have "v div 2 ^ 24 = v div 65536 div 256" "v div 2 ^ 20 = v div 65536 div 16" "v div 2 ^ 22 = v div 65536 div 64"
    by (simp_all add: div_mult2_eq[symmetric])
  then show "v div 2 ^ 24 = n0" "v div 2 ^ 20 = n0 * 16 + n1 div 16" "v div 2 ^ 22 = n0 * 4 + n1 div 64"
    using assms(1) unfolding e by (simp_all add: div_plus_div_distrib_dvd_left)
qed

lemma digits: "(n1 :: nat) < b \<Longrightarrow> n0 * b + n1 = k \<longleftrightarrow> n0 = k div b \<and> n1 = k mod b"
  by auto

lemma blocked_v4:
  assumes "length a = 4 \<or> length a = 16" "to4 a = Some b"
  shows "address_blocked a \<longleftrightarrow> list_ex (in_block (bytes_value b)) local_blocks"
proof -
  have "length b = 4" using assms by (auto simp: to4_def split: if_splits)
  then obtain b0 b1 b2 b3 where b: "b = [b0, b1, b2, b3]" by (auto simp: length_Suc_conv eval_nat_numeral)
  let ?n0 = "unat b0" and ?n1 = "unat b1" and ?n2 = "unat b2" and ?n3 = "unat b3"
  have lt: "?n0 < 256" "?n1 < 256" "?n2 < 256" "?n3 < 256" by (rule byte_bound)+
  have v: "bytes_value b = ((?n0 * 256 + ?n1) * 256 + ?n2) * 256 + ?n3" by (simp add: b)
  note d = quad_div[OF lt(2-4), of ?n0, folded v]
  have hi: "?n0 * 16 + ?n1 div 16 = 2753 \<longleftrightarrow> ?n0 = 172 \<and> ?n1 div 16 = 1" "?n0 * 4 + ?n1 div 64 = 401 \<longleftrightarrow> ?n0 = 100 \<and> ?n1 div 64 = 1"
    "?n0 * 256 + ?n1 = 49320 \<longleftrightarrow> ?n0 = 192 \<and> ?n1 = 168" "?n0 * 256 + ?n1 = 43518 \<longleftrightarrow> ?n0 = 169 \<and> ?n1 = 254"
    "(?n0 * 256 + ?n1) * 256 + ?n2 = 14680064 \<longleftrightarrow> ?n0 = 224 \<and> ?n1 = 0 \<and> ?n2 = 0" 
    using digits[of "?n1 div 16" 16 ?n0 2753] digits[of "?n1 div 64" 4 ?n0 401] digits[of ?n1 256 ?n0 49320] digits[of ?n1 256 ?n0 43518]
      digits[of ?n2 256 "?n0 * 256 + ?n1" 14680064] digits[of ?n1 256 ?n0 57344] lt by (auto simp: less_mult_imp_div_less)
  have w: "b0 = 10 \<longleftrightarrow> ?n0 = 10" "b0 = 127 \<longleftrightarrow> ?n0 = 127" "b0 = 172 \<longleftrightarrow> ?n0 = 172" "b0 = 192 \<longleftrightarrow> ?n0 = 192" "b1 = 168 \<longleftrightarrow> ?n1 = 168"
    "b0 = 169 \<longleftrightarrow> ?n0 = 169" "b1 = 254 \<longleftrightarrow> ?n1 = 254" "b0 = 224 \<longleftrightarrow> ?n0 = 224" "b1 = 0 \<longleftrightarrow> ?n1 = 0" "b2 = 0 \<longleftrightarrow> ?n2 = 0" "b0 = 0 \<longleftrightarrow> ?n0 = 0"
    "b0 = 100 \<longleftrightarrow> ?n0 = 100" by (auto simp: word_unat_eq_iff)
  have ref: "list_ex (in_block (bytes_value b)) local_blocks \<longleftrightarrow> b0 = 127 \<or> b0 = 10 \<or> (b0 = 172 \<and> ?n1 div 16 = 1) \<or> (b0 = 192 \<and> b1 = 168)
      \<or> (b0 = 169 \<and> b1 = 254) \<or> (b0 = 224 \<and> b1 = 0 \<and> b2 = 0) \<or> b0 = 0 \<or> (b0 = 100 \<and> ?n1 div 64 = 1)"
    unfolding local_blocks_def in_block_def by (simp add: d[simplified] hi hi(5)[simplified] w)
  have first: "length a = 16 \<Longrightarrow> a ! 0 = 0"
    using assms(2) by (auto simp: to4_def split: if_splits) (metis nth_append nth_replicate nth_take length_replicate zero_less_numeral)
  have "\<not> is_interface_local_multicast a" using first by (auto simp: is_interface_local_multicast_def)
  moreover have "is_unspecified a \<Longrightarrow> b0 = 0"
  proof -
    have "(replicate 12 0 :: ip) ! 10 = 0" "(replicate 10 0 @ [0xFF, 0xFF] :: ip) ! 10 = 0xFF" by (simp_all add: nth_append)
    then have "(replicate 12 0 :: ip) \<noteq> replicate 10 0 @ [0xFF, 0xFF]" by fastforce
    then have "to4 (replicate 16 0) = None" "to4 [0, 0, 0, 0] = Some [0, 0, 0, 0]" by (simp_all add: to4_def)
    then show "is_unspecified a \<Longrightarrow> b0 = 0" using assms(2) unfolding is_unspecified_def ip_equal_def b by auto
  qed
  moreover have "a \<noteq> []" using assms(1) by auto
  moreover have "ip_net_contains [0, 0, 0, 0] [0xFF, 0, 0, 0] a \<longleftrightarrow> b0 = 0" "ip_net_contains [100, 64, 0, 0] [0xFF, 0xC0, 0, 0] a \<longleftrightarrow> b0 = 100 \<and> ?n1 div 64 = 1"
    using masks(6)[of b1] masks(7)[of b0] by (auto simp: ip_net_contains_def assms(2) b upt_rec)
  ultimately show ?thesis unfolding ref address_blocked_def
    by (auto simp: is_loopback_def is_private_def is_link_local_unicast_def is_link_local_multicast_def assms(2) b masks localOnlyPrefixes_def)
qed

lemma bytes_value_zeros: "bytes_value (replicate n 0 @ bs) = bytes_value bs"
  by (induction n) simp_all

lemma blocked_v6:
  assumes "length a = 16" "to4 a = None"
  shows "address_blocked a \<longleftrightarrow> local_v6 (bytes_value a)"
proof -
  let ?v = "bytes_value a"
  obtain a0 a1 r where a: "a = [a0, a1] @ r" "length r = 14" using assms(1) by (auto simp: length_Suc_conv eval_nat_numeral)
  have lt: "unat a0 < 256" "unat a1 < 256" by (rule byte_bound)+
  have "?v div 256 ^ 14 = unat a0 * 256 + unat a1" using bytes_value_div[of "[a0, a1]" r] a by simp
  then have d14: "?v div 2 ^ 112 = unat a0 * 256 + unat a1" by simp
  have "?v div 2 ^ 120 = ?v div 2 ^ 112 div 256" "?v div 2 ^ 121 = ?v div 2 ^ 112 div 512" "?v div 2 ^ 118 = ?v div 2 ^ 112 div 64"
    by (simp_all add: div_mult2_eq[symmetric])
  then have d: "?v div 2 ^ 120 = unat a0" "?v div 2 ^ 121 = unat a0 div 2" "?v div 2 ^ 118 = unat a0 * 4 + unat a1 div 64"
    unfolding d14 using lt by (auto simp: div_mult2_eq[of _ 256 2, simplified] div_plus_div_distrib_dvd_left)
  have m: "?v div 2 ^ 112 mod 16 = unat a1 mod 16" unfolding d14 using mod_mult_self3[of "unat a0 * 16" 16 "unat a1"] by (simp add: mult.assoc)
  have one: "a = replicate 15 0 @ [1] \<longleftrightarrow> ?v = 1" and zero: "a = replicate 16 0 \<longleftrightarrow> ?v = 0"
    using bytes_value_inject[of a "replicate 15 0 @ [1]"] bytes_value_inject[of a "replicate 16 0"] assms(1)
      bytes_value_zeros[of 15 "[1]"] bytes_value_zeros[of 16 "[]"] by simp_all
  have le: "?v \<le> 1 \<longleftrightarrow> is_loopback a \<or> is_unspecified a"
    using one zero assms by (auto simp: is_loopback_def is_unspecified_def ip_equal_def)
  have n: "a ! 0 = a0" "a ! 1 = a1" "a ! Suc 0 = a1" by (simp_all add: a)
  have w: "a0 = 0xFF \<longleftrightarrow> unat a0 = 255" "a0 = 0xFE \<longleftrightarrow> unat a0 = 254" by (auto simp: word_unat_eq_iff)
  have "unat a0 * 4 + unat a1 div 64 = 1018 \<longleftrightarrow> unat a0 = 254 \<and> unat a1 div 64 = 2"
    using digits[of "unat a1 div 64" 4 "unat a0" 1018] lt by (auto simp: less_mult_imp_div_less)
  then have "is_link_local_unicast a \<longleftrightarrow> ?v div 2 ^ 118 = 0x3FA"
    unfolding d by (simp add: is_link_local_unicast_def assms n masks w)
  moreover have "is_private a \<longleftrightarrow> ?v div 2 ^ 121 = 0x7E" unfolding d by (simp add: is_private_def assms n masks)
  moreover have "is_link_local_multicast a \<or> is_interface_local_multicast a \<longleftrightarrow> ?v div 2 ^ 120 = 0xFF \<and> ?v div 2 ^ 112 mod 16 \<in> {1, 2}"
    unfolding d m by (auto simp: is_link_local_multicast_def is_interface_local_multicast_def assms n masks w)
  moreover have "list_ex (\<lambda>(n, m). ip_net_contains n m a) localOnlyPrefixes \<longleftrightarrow> False" "a \<noteq> []"
    using assms by (auto simp: ip_net_contains_def localOnlyPrefixes_def)
  ultimately show ?thesis using le unfolding local_v6_def address_blocked_def by argo
qed

text \<open>
  An address is refused exactly when, read as a number, it lies in one of the ranges
  the rule is about: for IPv4, also when written as a mapped IPv6 address, loopback, the private
  networks of RFC 1918, link-local with the metadata addresses, local multicast, this-host and
  carrier-grade NAT; for IPv6 the unspecified and loopback addresses, fc00::/7, fe80::/10 and
  multicast of interface or link scope.
\<close>

theorem blocked_ranges:
  assumes "length a = 4 \<or> length a = 16"
  shows "address_blocked a \<longleftrightarrow> (case to4 a of Some b \<Rightarrow> list_ex (in_block (bytes_value b)) local_blocks | None \<Rightarrow> local_v6 (bytes_value a))"
  using blocked_v4[OF assms] blocked_v6 assms by (auto simp: to4_def split: option.split)

theorem blocked_ranges_witness: "address_blocked [169, 254, 169, 254] \<and> \<not> address_blocked [93, 184, 216, 34]"
  using blocked_ranges[of "[169, 254, 169, 254]"] blocked_ranges[of "[93, 184, 216, 34]"]
  by (simp add: to4_def local_blocks_def in_block_def)

text \<open>
  Claim C23: a page of the public internet cannot reach the viewer's machine or network, by name
  or by address: what it may refer to is an http(s) address whose host is not local, and, whatever
  any resolver answers, a connection made for it, redirects included, is refused or goes to an
  address literal that was judged and is not local, never to a name that would be resolved again.
\<close>

theorem public_page_stays_public:
  assumes "parse base = Some b" "\<not> initiator_is_local parse_ip b"
  defines "ctx \<equiv> subresource_ctx parse parse_ip None base"
  shows "(case resolve_subresource_url parse resolve parse_ip base href of None \<Rightarrow> True
      | Some u \<Rightarrow> wuScheme u \<in> {''http'', ''https''} \<and> (wuScheme b = ''https'' \<longrightarrow> wuScheme u = ''https'')
          \<and> \<not> is_local_authority parse_ip (wuHostname u))
    \<and> (case dial_address_guarded env ctx addr of Refused e \<Rightarrow> True
      | Dial t \<Rightarrow> \<exists>host port a. deSplit env addr = Some (host, port) \<and> \<not> address_blocked a
          \<and> (deParse env host = Some a \<and> t = addr \<or> deParse env host = None \<and> t = deJoin env (deShow env a) port))"
proof
  show "case resolve_subresource_url parse resolve parse_ip base href of None \<Rightarrow> True
      | Some u \<Rightarrow> wuScheme u \<in> {''http'', ''https''} \<and> (wuScheme b = ''https'' \<longrightarrow> wuScheme u = ''https'')
          \<and> \<not> is_local_authority parse_ip (wuHostname u)"
    using assms(1,2) by (auto simp: resolve_subresource_url_def Let_def split: option.splits if_splits)
  have "ctx = Some \<lparr>agBlocked = Some address_blocked, agLookup = None\<rparr>"
    using assms(1,2) by (simp add: ctx_def subresource_ctx_def initiator_local_string_def with_address_guard_def)
  then show "case dial_address_guarded env ctx addr of Refused e \<Rightarrow> True
      | Dial t \<Rightarrow> \<exists>host port a. deSplit env addr = Some (host, port) \<and> \<not> address_blocked a
          \<and> (deParse env host = Some a \<and> t = addr \<or> deParse env host = None \<and> t = deJoin env (deShow env a) port)"
    by (auto simp: dial_address_guarded_def find_Some_iff Let_def split: option.split list.split)
qed

text \<open>A page of example.com, its text-only environment, and a name that resolves to the metadata address.\<close>

definition demo_env :: dial_env where
  "demo_env = \<lparr>deSplit = (\<lambda>a. Some (a, ''80'')), deJoin = (\<lambda>h p. h @ '':'' @ p), deParse = (\<lambda>_. None), deShow = (\<lambda>_. ''ip''),
     deSystem = (\<lambda>_. Some [[169, 254, 169, 254]])\<rparr>"

theorem public_page_stays_public_witness:
  "resolve_subresource_url (\<lambda>s. Some \<lparr>wuScheme = ''https'', wuHostname = s\<rparr>) (\<lambda>_ r. r) (\<lambda>_. None) ''example.com'' ''x.local'' = None
    \<and> dial_address_guarded demo_env (subresource_ctx (\<lambda>s. Some \<lparr>wuScheme = ''https'', wuHostname = s\<rparr>) (\<lambda>_. None) None ''example.com'') ''m.example''
      = Refused BlockedAddress"
proof -
  let ?parse = "\<lambda>s. Some \<lparr>wuScheme = ''https'', wuHostname = s\<rparr>"
  have local: "is_local_authority (\<lambda>_. None) ''x.local''" "\<not> initiator_is_local (\<lambda>_. None) \<lparr>wuScheme = ''https'', wuHostname = ''example.com''\<rparr>"
    by code_simp+
  note p = public_page_stays_public[of ?parse "''example.com''" "\<lparr>wuScheme = ''https'', wuHostname = ''example.com''\<rparr>" "\<lambda>_. None"
      "\<lambda>_ r. r" "''x.local''" demo_env "''m.example''", OF refl local(2)]
  have "address_blocked [169, 254, 169, 254]" by (simp add: address_blocked_def is_link_local_unicast_def to4_def)
  then have "dial_address_guarded demo_env (subresource_ctx ?parse (\<lambda>_. None) None ''example.com'') ''m.example'' = Refused BlockedAddress"
    using local(2) by (simp add: dial_address_guarded_def subresource_ctx_def initiator_local_string_def with_address_guard_def demo_env_def)
  moreover have "resolve_subresource_url ?parse (\<lambda>_ r. r) (\<lambda>_. None) ''example.com'' ''x.local'' = None"
    using conjunct1[OF p] local(1) by (auto split: option.splits simp: resolve_subresource_url_def Let_def local)
  ultimately show ?thesis by blast
qed

text \<open>
  A guarded dial tells its refusal from every other failure. It is refused by policy
  exactly when everything the address names - the literal, or all the resolver answered, at least
  one - is blocked; a resolver that fails or answers nothing is reported as that, and is never
  taken for permission; otherwise the first address that is not blocked is dialed.
\<close>

theorem guard_refuses:
  assumes "agBlocked g = Some blocked" "deSplit env addr = Some (host, port)"
  defines "answer \<equiv> case deParse env host of Some a \<Rightarrow> Some [a]
      | None \<Rightarrow> (case agLookup g of Some l \<Rightarrow> l host | None \<Rightarrow> deSystem env host)"
  shows "dial_address_guarded env (Some g) addr = (case answer of
      None \<Rightarrow> Refused ResolveFailed
    | Some as \<Rightarrow> if as = [] then Refused NoAddresses
        else if list_all blocked as then Refused BlockedAddress
        else Dial (if deParse env host = None then deJoin env (deShow env (hd (filter (\<lambda>a. \<not> blocked a) as))) port else addr))"
proof -
  have find: "List.find (\<lambda>a. \<not> blocked a) xs = (if list_all blocked xs then None else Some (hd (filter (\<lambda>a. \<not> blocked a) xs)))" for xs
    by (induction xs) auto
  show ?thesis using assms
    by (auto simp: dial_address_guarded_def find answer_def split: option.splits list.splits)
qed

theorem guard_refuses_witness:
  "dial_address_guarded demo_env (Some \<lparr>agBlocked = Some address_blocked, agLookup = Some (\<lambda>_. Some [])\<rparr>) ''h'' = Refused NoAddresses"
  using guard_refuses[of "\<lparr>agBlocked = Some address_blocked, agLookup = Some (\<lambda>_. Some [])\<rparr>" address_blocked demo_env "''h''" "''h''" "''80''"]
  by (simp add: demo_env_def)

end
