(* ===== verification/Net_Url.thy ===== *)
theory Net_Url
  imports Cookie_Jar
begin

text \<open>
  \<open>internal/net/http.go\<close>: addresses, and the check a redirect passes. The record \<open>urls\<close> collects
  what the code takes from \<open>net/url\<close>, \<open>net\<close> and \<open>path/filepath\<close>: parsing and printing a URL,
  undoing percent escapes, recognising an IP address and cleaning a path. A host name and a port
  are split the way \<open>net/url\<close> documents it. Strings are bytes, so a C1 control character is its two
  bytes of UTF-8.
\<close>

subsection \<open>Addresses\<close>

record net_url =
  nuScheme :: string
  nuUser :: bool
  nuOpaque :: string
  nuHost :: string
  nuPath :: string
  nuQuery :: string
  nuForceQuery :: bool
  nuFragment :: string

record urls =
  uzParse :: "string \<Rightarrow> net_url option"
  uzText :: "net_url \<Rightarrow> string"
  uzUnescape :: "string \<Rightarrow> string option"
  uzIP :: "string \<Rightarrow> bool"
  uzClean :: "string \<Rightarrow> string"

text \<open>The errors of the client; \<open>IndexPanic\<close> is a run-time panic, which returns no error.\<close>

datatype net_error =
    EControl | EExpected | EEscape | EScheme | EParse | ECredentials
  | ENoHost | EIPv6 | EUnbracketed | ELength | ELabel | EChar | EIPv4 | EEmptyPort | EPort | EFileURL
  | IndexPanic
  | ERedirects | ERedirectScheme | EDowngrade
  | ECancelled | ETooLarge | ERead | EFetch | EBlocked string
  | EFileGet | EStat | ENotRegular | EOpen | EClosed | ELimit

fun has_control :: "string \<Rightarrow> bool" where
  "has_control [] \<longleftrightarrow> False"
| "has_control (c # cs) \<longleftrightarrow> char_code c < 32 \<or> char_code c = 127
     \<or> (char_code c = 194 \<and> (case cs of [] \<Rightarrow> False | d # _ \<Rightarrow> 128 \<le> char_code d \<and> char_code d \<le> 159)) \<or> has_control cs"

definition unbracket :: "string \<Rightarrow> string" where
  "unbracket h = (if prefix ''['' h \<and> suffix '']'' h then take (length h - 2) (drop 1 h) else h)"

definition split_host_port :: "string \<Rightarrow> string \<times> string" where
  "split_host_port hp =
     (case last_index (CHR '':'') hp of
        Some i \<Rightarrow> if list_all digit_char (drop (i + 1) hp) then (unbracket (take i hp), drop (i + 1) hp) else (unbracket hp, [])
      | None \<Rightarrow> (unbracket hp, []))"

definition host_name :: "net_url \<Rightarrow> string" where
  "host_name u = fst (split_host_port (nuHost u))"

subsection \<open>Hosts\<close>

definition letter_char :: "char \<Rightarrow> bool" where
  "letter_char c \<longleftrightarrow> (97 \<le> char_code c \<and> char_code c \<le> 122) \<or> (65 \<le> char_code c \<and> char_code c \<le> 90)"

fun scan_chars :: "string \<Rightarrow> bool \<Rightarrow> net_error + bool" where
  "scan_chars [] numeric = Inr numeric"
| "scan_chars (c # cs) numeric =
     (let numeric = (if \<not> digit_char c then False else numeric)
      in if \<not> (letter_char c \<or> digit_char c \<or> c = CHR ''-'') then Inl EChar else scan_chars cs numeric)"

fun scan_labels :: "string list \<Rightarrow> bool \<Rightarrow> net_error + bool" where
  "scan_labels [] numeric = Inr numeric"
| "scan_labels (l # ls) numeric =
     (if l = [] \<or> length l > 63 \<or> hd l = CHR ''-'' \<or> last l = CHR ''-'' then Inl ELabel
      else case scan_chars l numeric of Inl e \<Rightarrow> Inl e | Inr numeric \<Rightarrow> scan_labels ls numeric)"

definition check_port :: "net_url \<Rightarrow> net_error option" where
  "check_port u =
     (if suffix '':'' (nuHost u) then Some EEmptyPort
      else let port = snd (split_host_port (nuHost u))
           in if port = [] then None
              else case atoi port of None \<Rightarrow> Some EPort | Some n \<Rightarrow> if n < 1 \<or> n > 65535 then Some EPort else None)"

definition validate_http_host :: "urls \<Rightarrow> net_url \<Rightarrow> net_error option" where
  "validate_http_host E u =
     (let host = host_name u
      in if host = [] then Some ENoHost
         else if prefix ''['' (nuHost u) then (if \<not> contains_str host '':'' \<or> \<not> uzIP E host then Some EIPv6 else check_port u)
         else if contains_str host '':'' then Some EUnbracketed
         else if \<not> uzIP E host then
           (let name = trim_suffix ''.'' host
            in if length name = 0 \<or> length name > 253 then Some ELength
               else case scan_labels (split_by (CHR ''.'') name) True of
                      Inl e \<Rightarrow> Some e
                    | Inr numeric \<Rightarrow> if numeric \<and> contains_str name ''.'' then Some EIPv4 else check_port u)
         else check_port u)"

subsection \<open>Normalising\<close>

definition url_separator :: "char \<Rightarrow> bool" where
  "url_separator c \<longleftrightarrow> c = CHR ''/'' \<or> c = CHR ''?'' \<or> c = CHR ''#''"

text \<open>The first field between separators, which the code indexes without asking whether there is one.\<close>

definition first_field :: "string \<Rightarrow> string option" where
  "first_field s =
     (let s = dropWhile url_separator s in if s = [] then None else Some (takeWhile (\<lambda>c. \<not> url_separator c) s))"

definition known_scheme :: "string \<Rightarrow> bool" where
  "known_scheme s \<longleftrightarrow> prefix ''http:'' (to_lower s) \<or> prefix ''https:'' (to_lower s) \<or> prefix ''file:'' (to_lower s)"

definition complete_url :: "string \<Rightarrow> net_error + string" where
  "complete_url raw =
     (if known_scheme raw then Inr raw
      else if contains_str raw ''://'' then Inl EScheme
      else case first_field raw of
             None \<Rightarrow> Inl IndexPanic
           | Some authority \<Rightarrow>
               let host = fst (cut_at (CHR '':'') authority)
               in if CHR '':'' \<in> set authority \<and> to_lower host \<noteq> ''localhost'' \<and> \<not> contains_str host ''.'' \<and> \<not> prefix ''['' authority
                  then Inl EScheme else Inr (''https://'' @ raw))"

definition accept_url :: "urls \<Rightarrow> net_url \<Rightarrow> net_error + string" where
  "accept_url E u =
     (if nuUser u \<or> nuOpaque u \<noteq> [] then Inl ECredentials
      else if nuScheme u = ''http'' \<or> nuScheme u = ''https'' then
        (case validate_http_host E u of Some e \<Rightarrow> Inl e | None \<Rightarrow> Inr (uzText E u))
      else if nuScheme u = ''file'' then
        (if (nuHost u \<noteq> [] \<and> to_lower (nuHost u) \<noteq> ''localhost'') \<or> \<not> prefix ''/'' (nuPath u) \<or> nuQuery u \<noteq> [] \<or> nuForceQuery u
         then Inl EFileURL else Inr (uzText E (u\<lparr>nuPath := uzClean E (nuPath u)\<rparr>)))
      else Inl EScheme)"

definition normalize_url :: "urls \<Rightarrow> string \<Rightarrow> net_error + string" where
  "normalize_url E raw0 =
     (if has_control raw0 then Inl EControl
      else let raw = trim_space raw0
           in if raw = [] \<or> prefix ''/'' raw then Inl EExpected
              else case uzUnescape E raw of
                     None \<Rightarrow> Inl EEscape
                   | Some decoded \<Rightarrow>
                       if has_control decoded then Inl EEscape
                       else case complete_url raw of
                              Inl e \<Rightarrow> Inl e
                            | Inr raw \<Rightarrow> (case uzParse E raw of None \<Rightarrow> Inl EParse | Some u \<Rightarrow> accept_url E u))"

definition redact_url :: "urls \<Rightarrow> string \<Rightarrow> string" where
  "redact_url E raw =
     (case uzParse E raw of
        None \<Rightarrow> ''(unparseable URL)''
      | Some u \<Rightarrow> if nuScheme u = [] \<and> nuHost u = [] \<and> nuPath u = [] \<and> nuOpaque u = [] then ''(unparseable URL)''
                  else uzText E (u\<lparr>nuUser := False, nuQuery := [], nuFragment := []\<rparr>))"

definition style_sheet_refused :: "string \<Rightarrow> bool" where
  "style_sheet_refused ct =
     (let mt = to_lower (trim_space (hd (split_by (CHR '';'') ct)))
      in if mt = [] \<or> mt = ''text/css'' then False
         else if list_ex (\<lambda>p. prefix p mt) [''text/html'', ''application/xhtml'', ''text/xml'', ''application/xml'', ''image/'', ''font/'', ''audio/'', ''video/'']
         then True
         else list_ex (\<lambda>s. suffix (''/'' @ s) mt) [''javascript'', ''ecmascript'', ''json''])"

subsection \<open>Redirects\<close>

text \<open>A request on the wire, and what comes back: a redirect with the cookies it sets, the final
  answer, or a failure. A body is the bytes it delivers and whether it ends in an error.\<close>

record hop =
  hpURL :: net_url
  hpCookie :: string

record reply =
  rpStatus :: int
  rpHeaders :: "(string \<times> string list) list"
  rpLength :: int
  rpBody :: string
  rpFault :: bool
  rpCancelled :: bool

datatype server_answer = Redirect net_url "string list" | Final reply | Broken

definition check_redirect :: "urls \<Rightarrow> net_url \<Rightarrow> hop list \<Rightarrow> net_error option" where
  "check_redirect E u via =
     (if length via > 10 then Some ERedirects
      else if nuScheme u \<noteq> ''http'' \<and> nuScheme u \<noteq> ''https'' then Some ERedirectScheme
      else if length via > 0 \<and> nuScheme (hpURL (hd via)) = ''https'' \<and> nuScheme u = ''http'' then Some EDowngrade
      else case normalize_url E (uzText E u) of Inl e \<Rightarrow> Some e | Inr _ \<Rightarrow> None)"

text \<open>
  \<open>http.Client.Do\<close>: the client has no jar of its own, so it drops what a redirect sets and copies
  the \<open>Cookie\<close> header of the first request to every later one whose host is that of the first
  or a subdomain of it, until the first that is not.
\<close>

definition forwards_cookie :: "net_url \<Rightarrow> net_url \<Rightarrow> bool" where
  "forwards_cookie first next \<longleftrightarrow>
     (let h = to_lower (host_name first); g = to_lower (host_name next) in g = h \<or> suffix (''.'' @ h) g)"

function follow :: "urls \<Rightarrow> (hop list \<Rightarrow> server_answer) \<Rightarrow> hop list \<Rightarrow> hop \<Rightarrow> hop list \<times> (net_error + reply)" where
  "follow E serve via req =
     (let hops = via @ [req]
      in case serve hops of
           Broken \<Rightarrow> (hops, Inl EFetch)
         | Final r \<Rightarrow> (hops, Inr r)
         | Redirect u cs \<Rightarrow>
             (case check_redirect E u hops of
                Some e \<Rightarrow> (hops, Inl e)
              | None \<Rightarrow> follow E serve hops \<lparr>hpURL = u, hpCookie = (if forwards_cookie (hpURL (hd hops)) u then hpCookie req else [])\<rparr>))"
  by pat_completeness auto

termination
  by (relation "measure (\<lambda>(E, serve, via, req). 12 - length via)") (auto simp: check_redirect_def split: if_splits)

declare follow.simps [simp del]

subsection \<open>What is accepted\<close>

lemma contains_char: "contains_str s [c] \<longleftrightarrow> c \<in> set s"
  by (auto simp: contains_str_def sublist_def) (metis in_set_conv_decomp append_Cons append_Nil)

lemma scan_chars_Inr: "scan_chars cs num = Inr r \<longleftrightarrow> (\<forall>c\<in>set cs. letter_char c \<or> digit_char c \<or> c = CHR ''-'') \<and> r = (num \<and> list_all digit_char cs)"
  by (induction cs arbitrary: num) (auto simp: Let_def)

text \<open>A label of a host name, and the names made of them.\<close>

definition good_label :: "string \<Rightarrow> bool" where
  "good_label l \<longleftrightarrow> l \<noteq> [] \<and> length l \<le> 63 \<and> hd l \<noteq> CHR ''-'' \<and> last l \<noteq> CHR ''-''
     \<and> (\<forall>c\<in>set l. letter_char c \<or> digit_char c \<or> c = CHR ''-'')"

lemma scan_labels_Inr: "scan_labels ls num = Inr r \<longleftrightarrow> list_all good_label ls \<and> r = (num \<and> list_all (list_all digit_char) ls)"
proof (induction ls arbitrary: num)
  case (Cons l ls)
  show ?case
  proof (cases "scan_chars l num")
    case (Inl e)
    then have "\<not> (\<forall>c\<in>set l. letter_char c \<or> digit_char c \<or> c = CHR ''-'')" using scan_chars_Inr[of l num "num \<and> list_all digit_char l"] by auto
    then show ?thesis using Inl by (auto simp: good_label_def)
  next
    case (Inr b)
    then show ?thesis using Cons scan_chars_Inr[of l num b] by (auto simp: good_label_def)
  qed
qed auto

definition dns_name :: "string \<Rightarrow> bool" where
  "dns_name host \<longleftrightarrow>
     (let name = trim_suffix ''.'' host; ls = split_by (CHR ''.'') name
      in 0 < length name \<and> length name \<le> 253 \<and> list_all good_label ls
         \<and> \<not> (CHR ''.'' \<in> set name \<and> list_all (list_all digit_char) ls))"

definition port_in_range :: "net_url \<Rightarrow> bool" where
  "port_in_range u \<longleftrightarrow> \<not> suffix '':'' (nuHost u)
     \<and> (snd (split_host_port (nuHost u)) = [] \<or> (\<exists>n. atoi (snd (split_host_port (nuHost u))) = Some n \<and> n \<in> {1..65535}))"

definition acceptable_host :: "urls \<Rightarrow> net_url \<Rightarrow> bool" where
  "acceptable_host E u \<longleftrightarrow> port_in_range u \<and> host_name u \<noteq> [] \<and>
     (prefix ''['' (nuHost u) = (CHR '':'' \<in> set (host_name u))) \<and>
     (uzIP E (host_name u) \<or> \<not> prefix ''['' (nuHost u) \<and> dns_name (host_name u))"

lemma check_port_None: "check_port u = None \<longleftrightarrow> port_in_range u"
  by (auto simp: check_port_def port_in_range_def Let_def split: option.split)

lemma validate_name: "(let name = trim_suffix ''.'' host
    in if length name = 0 \<or> length name > 253 then Some ELength
       else case scan_labels (split_by (CHR ''.'') name) True of Inl e \<Rightarrow> Some e
            | Inr numeric \<Rightarrow> if numeric \<and> contains_str name ''.'' then Some EIPv4 else check_port u) = None
  \<longleftrightarrow> dns_name host \<and> port_in_range u"
proof -
  define name where "name = trim_suffix ''.'' host"
  define ls where "ls = split_by (CHR ''.'') name"
  show ?thesis
  proof (cases "scan_labels ls True")
    case (Inl e)
    then have "\<not> list_all good_label ls" using scan_labels_Inr[of ls True "True \<and> list_all (list_all digit_char) ls"] by simp
    then show ?thesis using Inl by (simp add: dns_name_def Let_def flip: name_def ls_def)
  next
    case (Inr b)
    then have "list_all good_label ls" "b = list_all (list_all digit_char) ls" using scan_labels_Inr[of ls True b] by simp_all
    then show ?thesis using Inr by (simp add: dns_name_def Let_def contains_char check_port_None flip: name_def ls_def) (auto simp: not_less)
  qed
qed

lemma validate_None: "validate_http_host E u = None \<longleftrightarrow> acceptable_host E u"
proof (cases "prefix ''['' (nuHost u)")
  case True
  then show ?thesis by (simp add: validate_http_host_def Let_def contains_char acceptable_host_def check_port_None)
next
  case False
  show ?thesis
  proof (cases "uzIP E (host_name u)")
    case True
    then show ?thesis using False by (simp add: validate_http_host_def Let_def contains_char acceptable_host_def check_port_None)
  next
    case ip: False
    show ?thesis unfolding validate_http_host_def Let_def[where s = "host_name u"] using False ip validate_name[of "host_name u" u]
      by (simp add: contains_char acceptable_host_def) blast
  qed
qed

lemma first_field_None: "first_field s = None \<longleftrightarrow> (\<forall>c\<in>set s. url_separator c)"
  by (auto simp: first_field_def Let_def)

lemma scan_chars_error: "scan_chars cs num = Inl e \<Longrightarrow> e = EChar"
  by (induction cs arbitrary: num) (auto simp: Let_def split: if_splits)

lemma scan_labels_error: "scan_labels ls num = Inl e \<Longrightarrow> e = ELabel \<or> e = EChar"
  by (induction ls arbitrary: num) (auto split: if_splits sum.splits dest: scan_chars_error)

lemma check_port_error: "check_port u = Some e \<Longrightarrow> e = EEmptyPort \<or> e = EPort"
  by (auto simp: check_port_def Let_def split: if_splits option.splits)

lemma validate_error: "validate_http_host E u \<noteq> Some IndexPanic"
  using check_port_error[of u IndexPanic] scan_labels_error[where e = IndexPanic]
  by (auto simp: validate_http_host_def Let_def split: sum.splits)

lemma accept_no_panic: "accept_url E u \<noteq> Inl IndexPanic"
  using validate_error[of E u] by (auto simp: accept_url_def split: option.split)

text \<open>A string of separators has no scheme.\<close>

lemma separators_no_colon: "\<forall>c\<in>set s. url_separator c \<Longrightarrow> CHR '':'' \<notin> set s"
  by (auto simp: url_separator_def)

lemma known_scheme_colon: "known_scheme s \<Longrightarrow> CHR '':'' \<in> set s"
proof -
  have l: "c = CHR '':''" if a: "lower_char c = CHR '':''" for c
  proof (cases "65 \<le> char_code c \<and> char_code c \<le> 90")
    case True
    then have "char_code (lower_char c) = (char_code c + 32) mod 256" by (simp add: lower_char_def char_code_def)
    moreover have "char_code (CHR '':'') = 58" by code_simp
    ultimately show ?thesis using True unfolding a by simp
  next
    case False
    then show ?thesis using a by (simp only: lower_char_def if_False)
  qed
  assume "known_scheme s"
  then have "CHR '':'' \<in> set (to_lower s)" by (auto simp: known_scheme_def prefix_def)
  then show ?thesis using l unfolding to_lower_def by (metis imageE list.set_map)
qed

lemma complete_panics: "complete_url s = Inl IndexPanic \<longleftrightarrow> (\<forall>c\<in>set s. url_separator c)"
proof (cases "\<forall>c\<in>set s. url_separator c")
  case True
  then have "CHR '':'' \<notin> set s" by (rule separators_no_colon)
  then have "\<not> known_scheme s" "\<not> contains_str s ''://''"
    using known_scheme_colon[of s] by (auto simp: contains_str_def sublist_def)
  then show ?thesis using True first_field_None[of s] by (simp add: complete_url_def)
next
  case False
  then show ?thesis using first_field_None[of s] by (auto simp: complete_url_def Let_def split: option.split)
qed

text \<open>
  Claim C34: \<open>NormalizeURL\<close> panics, indexing an empty list of fields, exactly on the inputs that
  consist of nothing but slashes, question marks and hash signs between white space, do not start
  with a slash and pass the unescaping, \<open>?\<close> and \<open>#\<close> among them; on every other input it returns.
\<close>

theorem normalize_panics:
  "normalize_url E raw = Inl IndexPanic \<longleftrightarrow>
     \<not> has_control raw \<and> trim_space raw \<noteq> [] \<and> \<not> prefix ''/'' (trim_space raw)
     \<and> (\<exists>d. uzUnescape E (trim_space raw) = Some d \<and> \<not> has_control d) \<and> (\<forall>c\<in>set (trim_space raw). url_separator c)"
  using complete_panics[of "trim_space raw"] accept_no_panic[of E]
  by (cases "uzUnescape E (trim_space raw)"; cases "complete_url (trim_space raw)")
    (auto simp: normalize_url_def Let_def simp del: set_simps split: option.split)

theorem normalize_panics_witness:
  "normalize_url \<lparr>uzParse = \<lambda>_. None, uzText = \<lambda>_. [], uzUnescape = Some, uzIP = \<lambda>_. False, uzClean = \<lambda>p. p\<rparr> '' ?# '' = Inl IndexPanic"
proof -
  have "\<not> has_control '' ?# ''" "trim_space '' ?# '' = ''?#''" "\<not> has_control ''?#''" "\<not> prefix ''/'' ''?#''" by code_simp+
  then show ?thesis by (subst normalize_panics) (simp add: url_separator_def)
qed

text \<open>What an accepted address is.\<close>

definition accepted :: "urls \<Rightarrow> net_url \<Rightarrow> string \<Rightarrow> bool" where
  "accepted E u s \<longleftrightarrow> \<not> nuUser u \<and> nuOpaque u = [] \<and>
     (nuScheme u \<in> {''http'', ''https''} \<and> acceptable_host E u \<and> s = uzText E u
      \<or> nuScheme u = ''file'' \<and> (nuHost u = [] \<or> to_lower (nuHost u) = ''localhost'') \<and> prefix ''/'' (nuPath u)
        \<and> nuQuery u = [] \<and> \<not> nuForceQuery u \<and> s = uzText E (u\<lparr>nuPath := uzClean E (nuPath u)\<rparr>))"

lemma accept_url_Inr: "accept_url E u = Inr s \<longleftrightarrow> accepted E u s"
  using validate_None[of E u] by (auto simp: accept_url_def accepted_def split: option.split)

text \<open>
  An address \<open>NormalizeURL\<close> accepts is the rendering of a URL without credentials that is
  either HTTP or HTTPS with a well-formed host (an IP address, bracketed exactly when it is IPv6, or a
  dotted name of at most 253 bytes whose labels have 1 to 63 letters, digits and inner hyphens and are
  not all numeric) and a port from 1 to 65535 if any, or a local file by its absolute cleaned path; it
  was parsed from the trimmed input, with \<open>https://\<close> in front exactly when that names no known scheme.
\<close>

theorem normalized_address:
  assumes "normalize_url E raw = Inr s"
  shows "\<exists>u. uzParse E (if known_scheme (trim_space raw) then trim_space raw else ''https://'' @ trim_space raw) = Some u
    \<and> accepted E u s \<and> \<not> has_control raw"
proof -
  have "\<not> has_control raw" using assms by (auto simp: normalize_url_def split: if_splits)
  moreover obtain r u where r: "complete_url (trim_space raw) = Inr r" "uzParse E r = Some u" "accept_url E u = Inr s"
    using assms by (auto simp: normalize_url_def Let_def split: if_splits option.splits sum.splits)
  moreover have "r = (if known_scheme (trim_space raw) then trim_space raw else ''https://'' @ trim_space raw)"
    using r(1) by (auto simp: complete_url_def Let_def split: if_splits option.splits)
  ultimately show ?thesis by (auto simp: accept_url_Inr)
qed

text \<open>A library that knows one host.\<close>

definition site :: net_url where
  "site = \<lparr>nuScheme = ''https'', nuUser = False, nuOpaque = [], nuHost = ''a.example:8443'', nuPath = ''/in'', nuQuery = [], nuForceQuery = False, nuFragment = []\<rparr>"

definition one_site :: urls where
  "one_site = \<lparr>uzParse = (\<lambda>s. if s = ''https://a.example:8443/in'' then Some site else None),
     uzText = (\<lambda>u. nuScheme u @ ''://'' @ nuHost u @ nuPath u), uzUnescape = Some, uzIP = (\<lambda>_. False), uzClean = (\<lambda>p. p)\<rparr>"

lemma one_site_normal: "normalize_url one_site ''a.example:8443/in'' = Inr ''https://a.example:8443/in''"
  by code_simp

theorem normalized_address_witness:
  "normalize_url one_site ''a.example:8443/in'' = Inr ''https://a.example:8443/in'' \<and> accepted one_site site ''https://a.example:8443/in''"
proof -
  have "uzParse one_site (if known_scheme (trim_space ''a.example:8443/in'') then trim_space ''a.example:8443/in'' else ''https://'' @ trim_space ''a.example:8443/in'') = Some site"
    by code_simp
  then show ?thesis using normalized_address[OF one_site_normal] one_site_normal by (metis option.inject)
qed

subsection \<open>Chains of redirects\<close>

definition redirect_ok :: "urls \<Rightarrow> hop \<Rightarrow> hop \<Rightarrow> bool" where
  "redirect_ok E first h \<longleftrightarrow> nuScheme (hpURL h) \<in> {''http'', ''https''}
     \<and> (\<exists>s. normalize_url E (uzText E (hpURL h)) = Inr s)
     \<and> (nuScheme (hpURL first) = ''https'' \<longrightarrow> nuScheme (hpURL h) = ''https'')
     \<and> (hpCookie h = [] \<or> hpCookie h = hpCookie first \<and> forwards_cookie (hpURL first) (hpURL h))"

lemma check_redirect_ok:
  assumes "check_redirect E u hops = None" "hops \<noteq> []" "hpCookie prev = [] \<or> hpCookie prev = hpCookie (hd hops)"
  shows "length hops \<le> 10 \<and> redirect_ok E (hd hops) \<lparr>hpURL = u, hpCookie = (if forwards_cookie (hpURL (hd hops)) u then hpCookie prev else [])\<rparr>"
  using assms by (auto simp: check_redirect_def redirect_ok_def split: if_splits sum.splits)

lemma follow_chain:
  assumes "follow E serve via req = (hops, out)" "hpCookie req = [] \<or> hpCookie req = hpCookie (hd (via @ [req]))" "length via \<le> 10"
  shows "\<exists>rest. hops = via @ req # rest \<and> length hops \<le> 11 \<and> list_all (redirect_ok E (hd (via @ [req]))) rest \<and> (\<forall>r. out = Inr r \<longrightarrow> serve hops = Final r)"
  using assms
proof (induction E serve via req rule: follow.induct)
  case (1 E serve via req)
  show ?case
  proof (cases "serve (via @ [req])")
    case (Redirect u cs)
    show ?thesis
    proof (cases "check_redirect E u (via @ [req])")
      case None
      let ?q = "\<lparr>hpURL = u, hpCookie = (if forwards_cookie (hpURL (hd (via @ [req]))) u then hpCookie req else [])\<rparr>"
      note ok = check_redirect_ok[OF None _ 1(3)]
      have f: "follow E serve (via @ [req]) ?q = (hops, out)" using 1(2) by (subst (asm) follow.simps) (simp add: Redirect None Let_def)
      have "hd ((via @ [req]) @ [?q]) = hd (via @ [req])" by (cases via) simp_all
      moreover have "hpCookie ?q = [] \<or> hpCookie ?q = hpCookie (hd ((via @ [req]) @ [?q]))" using 1(3) by (cases via) auto
      ultimately obtain rest where "hops = (via @ [req]) @ ?q # rest" "length hops \<le> 11"
        "list_all (redirect_ok E (hd (via @ [req]))) rest" "\<forall>r. out = Inr r \<longrightarrow> serve hops = Final r"
        using 1(1)[OF refl Redirect None f] ok by auto
      then show ?thesis using ok by auto
    qed (use 1(2,4) in \<open>auto simp: follow.simps[of E serve via req] Redirect\<close>)
  qed (use 1(2,4) in \<open>auto simp: follow.simps[of E serve via req]\<close>)
qed

text \<open>
  Claim C21: however a server answers, following its redirects ends after at most eleven requests, the
  last of which has the answer that is returned; every redirected request is HTTP or HTTPS with an
  address \<open>NormalizeURL\<close> accepts, none goes out in the clear when the first was HTTPS, and a
  \<open>Cookie\<close> header never reaches a host that is not the first one's or below it.
\<close>

theorem redirects_stay_secure:
  assumes "follow E serve [] req = (hops, out)"
  shows "length hops \<le> 11 \<and> hops \<noteq> [] \<and> hd hops = req \<and> list_all (redirect_ok E req) (tl hops) \<and> (\<forall>r. out = Inr r \<longrightarrow> serve hops = Final r)"
  using follow_chain[OF assms] by auto

theorem redirects_stay_secure_witness:
  "let req = \<lparr>hpURL = site, hpCookie = ''k=v''\<rparr>; serve = (\<lambda>hops. Redirect (site\<lparr>nuScheme := (if length hops = 1 then ''https'' else ''http'')\<rparr>) [])
   in follow one_site serve [] req = ([req, req], Inl EDowngrade) \<and> list_all (redirect_ok one_site req) [req]"
proof -
  let ?req = "\<lparr>hpURL = site, hpCookie = ''k=v''\<rparr>"
  let ?serve = "\<lambda>hops :: hop list. Redirect (site\<lparr>nuScheme := (if length hops = 1 then ''https'' else ''http'')\<rparr>) []"
  have n: "normalize_url one_site (uzText one_site site) = Inr ''https://a.example:8443/in''" by code_simp
  have s: "site\<lparr>nuScheme := ''https''\<rparr> = site" "nuScheme site = ''https''" "forwards_cookie site site" by (simp_all add: site_def forwards_cookie_def)
  have "follow one_site ?serve [] ?req = ([?req, ?req], Inl EDowngrade)"
    by (simp add: follow.simps[of _ _ "[]"] follow.simps[of _ _ "[?req]"] check_redirect_def s n)
  from redirects_stay_secure[OF this] this show ?thesis by (simp add: Let_def)
qed

text \<open>Only the first request is compared: what became secure on the way may go out in the clear again.\<close>

lemma later_downgrade_allowed:
  assumes "nuScheme u = ''http''" "normalize_url E (uzText E u) = Inr s" "nuScheme (hpURL a) = ''http''" "nuScheme (hpURL b) = ''https''"
  shows "check_redirect E u [a, b] = None"
  using assms by (simp add: check_redirect_def)

end
