(* ===== verification/Net_Filter.thy ===== *)
theory Net_Filter
  imports Go_Strings
begin

text \<open>
  \<open>internal/net/filter.go\<close>: the ad and tracker filter. A Go set of names is the list of its
  members, in no order that matters; \<open>host_of\<close> is what \<open>url.Parse\<close> finds for the host of an
  address. Each method holds the engine's lock around what it changes.
\<close>

subsection \<open>The engine\<close>

record filter_engine =
  feEnabled :: bool
  feDomains :: "string list"
  feExceptions :: "string list"
  fePatterns :: "string list"
  feBlocked :: nat

definition defaultBlockedDomains :: "string list" where
  "defaultBlockedDomains = [''google-analytics.com'', ''googletagmanager.com'', ''doubleclick.net'', ''adservice.google.com'',
     ''pagead2.googlesyndication.com'', ''adnxs.com'', ''ads-twitter.com'', ''analytics.twitter.com'', ''connect.facebook.net'',
     ''criteo.com'', ''criteo.net'', ''outbrain.com'', ''taboola.com'', ''scorecardresearch.com'', ''hotjar.com'', ''mixpanel.com'',
     ''segment.io'', ''quantserve.com'', ''chartbeat.com'', ''moatads.com'', ''amazon-adsystem.com'', ''adcolony.com'',
     ''unityads.unity3d.com'', ''applovin.com'']"

definition new_empty_filter_engine :: filter_engine where
  "new_empty_filter_engine = \<lparr>feEnabled = True, feDomains = [], feExceptions = [], fePatterns = [], feBlocked = 0\<rparr>"

definition set_enabled :: "bool \<Rightarrow> filter_engine \<Rightarrow> filter_engine" where
  "set_enabled b f = f\<lparr>feEnabled := b\<rparr>"

text \<open>Before the first occurrence of a character; all of it when there is none.\<close>

definition before_char :: "char \<Rightarrow> string \<Rightarrow> string" where
  "before_char c s = fst (cut_at c s)"

definition clean_domain :: "string \<Rightarrow> string" where
  "clean_domain d =
     (let d = trim_space (to_lower d);
          d = trim_prefix ''http://'' d;
          d = trim_prefix ''https://'' d;
          d = trim_prefix ''||'' d;
          d = trim_suffix ''^'' d;
          d = before_char (CHR ''/'') d
      in before_char (CHR '':'') d)"

definition add_domain :: "string \<Rightarrow> filter_engine \<Rightarrow> filter_engine" where
  "add_domain d f = (let d = clean_domain d in if d = [] then f else f\<lparr>feDomains := List.insert d (feDomains f)\<rparr>)"

definition add_whitelist_domain :: "string \<Rightarrow> filter_engine \<Rightarrow> filter_engine" where
  "add_whitelist_domain d f = (let d = clean_domain d in if d = [] then f else f\<lparr>feExceptions := List.insert d (feExceptions f)\<rparr>)"

definition new_filter_engine :: filter_engine where
  "new_filter_engine = fold add_domain defaultBlockedDomains new_empty_filter_engine"

definition add_rule :: "string \<Rightarrow> filter_engine \<Rightarrow> filter_engine" where
  "add_rule r f =
     (let r = trim_space r
      in if r = [] \<or> prefix ''!'' r \<or> prefix ''#'' r then f
         else if prefix ''@@'' r then
           (let content = drop 2 r
            in if prefix ''||'' content then add_whitelist_domain (trim_suffix ''^'' (trim_prefix ''||'' content)) f
               else add_whitelist_domain content f)
         else if prefix ''||'' r then add_domain (trim_suffix ''^'' (trim_prefix ''||'' r)) f
         else if \<not> contains_str r ''/'' \<and> \<not> contains_str r ''*'' then add_domain (trim_suffix ''^'' r) f
         else let p = trim_set ''*'' r
              in if p \<noteq> [] then f\<lparr>fePatterns := fePatterns f @ [to_lower p]\<rparr> else f)"

subsection \<open>Matching\<close>

lemma cut_at_found: "c \<in> set s \<Longrightarrow> \<exists>p. s = p @ c # snd (cut_at c s) \<and> c \<notin> set p"
proof (induction s)
  case (Cons x s)
  show ?case
  proof (cases "x = c")
    case True
    then show ?thesis by (auto simp: cut_at_def intro!: exI[of _ "[]"])
  next
    case False
    then obtain p where "s = p @ c # snd (cut_at c s)" "c \<notin> set p" using Cons by auto
    then show ?thesis using False by (auto simp: cut_at_def intro!: exI[of _ "x # p"])
  qed
qed simp

text \<open>The loop that drops one label at a time; the empty string is no match.\<close>

function find_matching_domain :: "string \<Rightarrow> string list \<Rightarrow> string" where
  "find_matching_domain cur ds =
     (if cur \<in> set ds then cur
      else if CHR ''.'' \<notin> set cur then []
      else find_matching_domain (snd (cut_at (CHR ''.'') cur)) ds)"
  by auto

termination
proof (relation "measure (\<lambda>(cur, ds). length cur)")
  fix cur :: string and ds :: "string list"
  assume "cur \<notin> set ds" "\<not> CHR ''.'' \<notin> set cur"
  then obtain p where "cur = p @ CHR ''.'' # snd (cut_at (CHR ''.'') cur)" using cut_at_found by blast
  then have "length cur = length (p @ CHR ''.'' # snd (cut_at (CHR ''.'') cur))" by (rule arg_cong)
  then show "((snd (cut_at (CHR ''.'') cur), ds), cur, ds) \<in> measure (\<lambda>(cur, ds). length cur)" by simp
qed simp

declare find_matching_domain.simps [simp del]

definition is_domain_matched :: "string \<Rightarrow> string list \<Rightarrow> bool" where
  "is_domain_matched host ds \<longleftrightarrow> find_matching_domain host ds \<noteq> []"

definition should_block :: "(string \<Rightarrow> string option) \<Rightarrow> string \<Rightarrow> filter_engine \<Rightarrow> (bool \<times> string) \<times> filter_engine" where
  "should_block host_of raw f =
     (if \<not> feEnabled f then ((False, []), f)
      else case host_of raw of
        None \<Rightarrow> ((False, []), f)
      | Some h \<Rightarrow>
          (let host = to_lower h; url = to_lower raw; hit = find_matching_domain host (feDomains f)
           in if is_domain_matched host (feExceptions f) then ((False, []), f)
              else if hit \<noteq> [] then ((True, hit), f\<lparr>feBlocked := feBlocked f + 1\<rparr>)
              else case List.find (contains_str url) (fePatterns f) of
                Some p \<Rightarrow> ((True, p), f\<lparr>feBlocked := feBlocked f + 1\<rparr>)
              | None \<Rightarrow> ((False, []), f)))"

subsection \<open>What matches\<close>

text \<open>A name covers itself and its subdomains.\<close>

definition covers_host :: "string \<Rightarrow> string \<Rightarrow> bool" where
  "covers_host d host \<longleftrightarrow> host = d \<or> suffix (CHR ''.'' # d) host"

lemma covers_cut:
  assumes "CHR ''.'' \<in> set host" "d \<noteq> host"
  shows "covers_host d host \<longleftrightarrow> covers_host d (snd (cut_at (CHR ''.'') host))"
proof -
  obtain p where p: "host = p @ CHR ''.'' # snd (cut_at (CHR ''.'') host)" "CHR ''.'' \<notin> set p" using cut_at_found[OF assms(1)] by blast
  let ?r = "snd (cut_at (CHR ''.'') host)"
  have "suffix (CHR ''.'' # d) (p @ CHR ''.'' # ?r) \<longleftrightarrow> d = ?r \<or> suffix (CHR ''.'' # d) ?r"
  proof
    assume "suffix (CHR ''.'' # d) (p @ CHR ''.'' # ?r)"
    then obtain zs where z: "p @ CHR ''.'' # ?r = zs @ CHR ''.'' # d" by (auto simp: suffix_def)
    show "d = ?r \<or> suffix (CHR ''.'' # d) ?r"
      using z p(2) by (auto simp: append_eq_append_conv2 Cons_eq_append_conv append_eq_Cons_conv suffix_def)
  next
    assume "d = ?r \<or> suffix (CHR ''.'' # d) ?r"
    then show "suffix (CHR ''.'' # d) (p @ CHR ''.'' # ?r)" by (auto intro: suffix_appendI suffix_ConsI)
  qed
  then show ?thesis using p(1) assms(2) by (auto simp: covers_host_def)
qed

lemma covers_length: "covers_host d host \<Longrightarrow> length d \<le> length host"
  by (auto simp: covers_host_def suffix_def)

lemma find_matching:
  "if \<exists>d\<in>set ds. covers_host d host
   then find_matching_domain host ds \<in> set ds \<and> covers_host (find_matching_domain host ds) host
     \<and> (\<forall>d\<in>set ds. covers_host d host \<longrightarrow> length d \<le> length (find_matching_domain host ds))
   else find_matching_domain host ds = []"
proof (induction host ds rule: find_matching_domain.induct)
  case (1 cur ds)
  consider "cur \<in> set ds" | "cur \<notin> set ds" "CHR ''.'' \<notin> set cur" | "cur \<notin> set ds" "CHR ''.'' \<in> set cur" by blast
  then show ?case
  proof cases
    case 1
    moreover have "covers_host cur cur" by (simp add: covers_host_def)
    ultimately show ?thesis
      by (subst (1 2 3 4) find_matching_domain.simps) (auto dest: covers_length)
  next
    case 2
    then have "\<not> covers_host d cur" if "d \<in> set ds" for d using that by (auto simp: covers_host_def suffix_def)
    then show ?thesis using 2 by (subst (1 2 3 4) find_matching_domain.simps) auto
  next
    case 3
    have step: "find_matching_domain cur ds = find_matching_domain (snd (cut_at (CHR ''.'') cur)) ds"
      using 3 by (subst find_matching_domain.simps) simp
    have "covers_host d cur \<longleftrightarrow> covers_host d (snd (cut_at (CHR ''.'') cur))" if "d \<in> set ds" for d
      using covers_cut[OF 3(2), of d] that 3(1) by (auto simp:)
    moreover have "if \<exists>d\<in>set ds. covers_host d (snd (cut_at (CHR ''.'') cur))
      then find_matching_domain cur ds \<in> set ds \<and> covers_host (find_matching_domain cur ds) (snd (cut_at (CHR ''.'') cur))
        \<and> (\<forall>d\<in>set ds. covers_host d (snd (cut_at (CHR ''.'') cur)) \<longrightarrow> length d \<le> length (find_matching_domain cur ds))
      else find_matching_domain cur ds = []"
      using "1.IH"[OF 3(1)] 3(2) unfolding step by blast
    ultimately show ?thesis by (auto split: if_splits)
  qed
qed

subsection \<open>Any set of rules\<close>

definition sane_rules :: "filter_engine \<Rightarrow> bool" where
  "sane_rules f \<longleftrightarrow> [] \<notin> set (feDomains f) \<and> [] \<notin> set (feExceptions f) \<and> [] \<notin> set (fePatterns f)"

lemma add_domain_sane: "sane_rules f \<Longrightarrow> sane_rules (add_domain d f)" "sane_rules f \<Longrightarrow> sane_rules (add_whitelist_domain d f)"
  by (auto simp: add_domain_def add_whitelist_domain_def Let_def sane_rules_def)

lemma add_rule_sane: "sane_rules f \<Longrightarrow> sane_rules (add_rule r f)"
  using add_domain_sane[of f] by (auto simp: add_rule_def Let_def) (auto simp: sane_rules_def to_lower_def)

lemma fold_sane: "(\<And>x f. sane_rules f \<Longrightarrow> sane_rules (g x f)) \<Longrightarrow> sane_rules f \<Longrightarrow> sane_rules (fold g xs f)"
  by (induction xs arbitrary: f) auto

lemma new_engine_sane: "sane_rules new_filter_engine" "sane_rules new_empty_filter_engine"
  unfolding new_filter_engine_def by (rule fold_sane[OF add_domain_sane(1)]) (simp_all add: sane_rules_def new_empty_filter_engine_def)+

text \<open>
  Claim C33: whatever rules are loaded, in any order, a request is blocked exactly when the filter
  is on, its address parses, no exception covers its host, and a listed domain covers the host or
  a pattern occurs in the address; the name reported for a domain is the longest listed one that
  covers it, and the count of blocked requests grows by one for each and never otherwise.
\<close>

theorem filter_blocks_exactly:
  fixes rules :: "string list"
  assumes "base = new_filter_engine \<or> base = new_empty_filter_engine"
  defines "f \<equiv> fold add_rule rules base"
  shows "let res = should_block host_of raw f; blocked = fst (fst res); url = to_lower raw in
    (blocked \<longleftrightarrow> feEnabled f \<and> (\<exists>h. host_of raw = Some h \<and> (\<forall>e\<in>set (feExceptions f). \<not> covers_host e (to_lower h))
        \<and> ((\<exists>d\<in>set (feDomains f). covers_host d (to_lower h)) \<or> (\<exists>p\<in>set (fePatterns f). contains_str url p))))
    \<and> (blocked \<and> (\<exists>d\<in>set (feDomains f). covers_host d (to_lower (the (host_of raw)))) \<longrightarrow> snd (fst res) \<in> set (feDomains f)
        \<and> covers_host (snd (fst res)) (to_lower (the (host_of raw)))
        \<and> (\<forall>d\<in>set (feDomains f). covers_host d (to_lower (the (host_of raw))) \<longrightarrow> length d \<le> length (snd (fst res))))
    \<and> snd res = (if blocked then f\<lparr>feBlocked := feBlocked f + 1\<rparr> else f)"
proof -
  have sane: "sane_rules f" unfolding f_def using assms(1) by (auto intro: fold_sane[OF add_rule_sane] new_engine_sane)
  show ?thesis
  proof (cases "host_of raw")
    case None
    then show ?thesis by (simp add: should_block_def)
  next
    case (Some h)
    have e: "is_domain_matched (to_lower h) (feExceptions f) \<longleftrightarrow> (\<exists>d\<in>set (feExceptions f). covers_host d (to_lower h))"
      using find_matching[where host = "to_lower h" and ds = "feExceptions f"] sane by (auto simp: is_domain_matched_def sane_rules_def split: if_splits)
    have d: "find_matching_domain (to_lower h) (feDomains f) \<noteq> [] \<longleftrightarrow> (\<exists>d\<in>set (feDomains f). covers_host d (to_lower h))"
      "\<exists>d\<in>set (feDomains f). covers_host d (to_lower h) \<Longrightarrow> find_matching_domain (to_lower h) (feDomains f) \<in> set (feDomains f)
        \<and> covers_host (find_matching_domain (to_lower h) (feDomains f)) (to_lower h)
        \<and> (\<forall>d\<in>set (feDomains f). covers_host d (to_lower h) \<longrightarrow> length d \<le> length (find_matching_domain (to_lower h) (feDomains f)))"
      using find_matching[where host = "to_lower h" and ds = "feDomains f"] sane by (auto simp: sane_rules_def split: if_splits)
    have p: "List.find (contains_str (to_lower raw)) (fePatterns f) = None \<longleftrightarrow> (\<forall>p\<in>set (fePatterns f). \<not> contains_str (to_lower raw) p)"
      by (auto simp: find_None_iff)
    have res: "should_block host_of raw f = (if \<not> feEnabled f \<or> is_domain_matched (to_lower h) (feExceptions f) then ((False, []), f)
        else if find_matching_domain (to_lower h) (feDomains f) \<noteq> []
        then ((True, find_matching_domain (to_lower h) (feDomains f)), f\<lparr>feBlocked := feBlocked f + 1\<rparr>)
        else case List.find (contains_str (to_lower raw)) (fePatterns f) of
          Some p \<Rightarrow> ((True, p), f\<lparr>feBlocked := feBlocked f + 1\<rparr>) | None \<Rightarrow> ((False, []), f))"
      using Some by (simp add: should_block_def Let_def)
    show ?thesis unfolding Let_def res e using d p Some by (auto split: option.split)
  qed
qed

theorem filter_blocks_exactly_witness:
  "should_block (\<lambda>_. Some ''ads.Example.com'') ''http://ads.Example.com/x'' (fold add_rule [''||example.com^''] new_empty_filter_engine)
    = ((True, ''example.com''), (fold add_rule [''||example.com^''] new_empty_filter_engine)\<lparr>feBlocked := 1\<rparr>)"
proof -
  let ?f = "fold add_rule [''||example.com^''] new_empty_filter_engine" and ?r = "''http://ads.Example.com/x''" and ?h = "\<lambda>_. Some ''ads.Example.com''"
  have f: "feEnabled ?f" "feExceptions ?f = []" "feBlocked ?f = 0" "''example.com'' \<in> set (feDomains ?f)"
    "filter (\<lambda>d. covers_host d ''ads.example.com'') (feDomains ?f) = [''example.com'']" "to_lower ''ads.Example.com'' = ''ads.example.com''"
    "covers_host ''example.com'' ''ads.example.com''" by code_simp+
  have only: "d = ''example.com''" if "d \<in> set (feDomains ?f)" "covers_host d ''ads.example.com''" for d
    using that arg_cong[OF f(5), of set] by auto
  note c = filter_blocks_exactly[of new_empty_filter_engine ?h ?r "[''||example.com^'']", unfolded Let_def, OF disjI2[OF refl]]
  have "fst (fst (should_block ?h ?r ?f))" using c f by auto
  then have "snd (fst (should_block ?h ?r ?f)) = ''example.com''" "snd (should_block ?h ?r ?f) = ?f\<lparr>feBlocked := 1\<rparr>"
    using c f only by auto
  then show ?thesis using \<open>fst (fst (should_block ?h ?r ?f))\<close> by (simp add: prod_eq_iff)
qed

text \<open>A host written with the final dot of a fully qualified name is the same host to a resolver, not to the filter.\<close>

lemma trailing_dot_escapes:
  "fst (fst (should_block (\<lambda>_. Some ''a.net.'') ''http://a.net./'' (add_rule ''||a.net^'' new_empty_filter_engine))) = False"
  by code_simp

end
