(* ===== verification/Net_Cache.thy ===== *)
theory Net_Cache
  imports Cookie_Jar "HOL-Library.AList"
begin

text \<open>
  \<open>internal/net/cache.go\<close>: the response cache. Its map is an association list with distinct keys;
  the headers of a response are one too, in the order the runtime would range over them. Times are
  nanoseconds, a duration is 64 bits wide; \<open>dates\<close> is what \<open>http.ParseTime\<close> makes of a date. Every
  method holds the cache's lock throughout.
\<close>

subsection \<open>Responses\<close>

definition maxCacheBytes :: int where "maxCacheBytes = 67108864"

record response =
  rsStatus :: int
  rsHeaders :: "(string \<times> string) list"
  rsBody :: string
  rsURL :: string

record cache_entry =
  ceResp :: response
  ceExpires :: int
  ceSize :: int

record response_cache =
  rcEntries :: "(string \<times> cache_entry) list"
  rcOrder :: "string list"
  rcBytes :: int

definition new_response_cache :: response_cache where
  "new_response_cache = \<lparr>rcEntries = [], rcOrder = [], rcBytes = 0\<rparr>"

definition fresh_entry :: "int \<Rightarrow> cache_entry \<Rightarrow> bool" where
  "fresh_entry now e \<longleftrightarrow> now < ceExpires e"

definition lookup_header :: "(string \<times> string) list \<Rightarrow> string \<Rightarrow> string option" where
  "lookup_header hs name =
     (case map_of hs name of
        Some v \<Rightarrow> Some v
      | None \<Rightarrow> map_option snd (List.find (\<lambda>(k, v). to_lower k = to_lower name) hs))"

subsection \<open>Freshness\<close>

text \<open>The loop over the directives: \<open>None\<close> forbids, otherwise the last valid age.\<close>

fun scan_cache_control :: "string list \<Rightarrow> int option \<Rightarrow> int option option" where
  "scan_cache_control [] age = Some age"
| "scan_cache_control (t # ts) age =
     (let tok = trim_space t
      in if tok = ''no-store'' \<or> tok = ''no-cache'' \<or> tok = ''private'' then None
         else if prefix ''max-age='' tok then
           (case atoi (trim_prefix ''max-age='' tok) of
              Some secs \<Rightarrow> scan_cache_control ts (if 0 \<le> secs then Some (i64 (secs * unix_second)) else age)
            | None \<Rightarrow> scan_cache_control ts age)
         else scan_cache_control ts age)"

definition sub_time :: "int \<Rightarrow> int \<Rightarrow> int" where
  "sub_time t u = max (- (2 ^ 63)) (min (2 ^ 63 - 1) (t - u))"

definition freshness_lifetime :: "(string \<Rightarrow> int option) \<Rightarrow> response \<Rightarrow> int \<Rightarrow> int option" where
  "freshness_lifetime dates resp now =
     (if rsStatus resp \<noteq> 200 then None
      else if lookup_header (rsHeaders resp) ''Set-Cookie'' \<noteq> None then None
      else let cc = (case lookup_header (rsHeaders resp) ''Cache-Control'' of Some v \<Rightarrow> v | None \<Rightarrow> [])
           in case scan_cache_control (split_by (CHR '','') (to_lower cc)) None of
                None \<Rightarrow> None
              | Some (Some age) \<Rightarrow> if age = 0 then None else Some age
              | Some None \<Rightarrow>
                  (case lookup_header (rsHeaders resp) ''Expires'' of
                     None \<Rightarrow> None
                   | Some x \<Rightarrow> (case dates x of
                        None \<Rightarrow> None
                      | Some t \<Rightarrow> (let d = sub_time t now in if d > 0 then Some d else None))))"

subsection \<open>The cache\<close>

definition drop_order :: "string \<Rightarrow> response_cache \<Rightarrow> response_cache" where
  "drop_order key c = c\<lparr>rcOrder := remove1 key (rcOrder c)\<rparr>"

definition remove_entry :: "string \<Rightarrow> response_cache \<Rightarrow> response_cache" where
  "remove_entry key c =
     (case map_of (rcEntries c) key of
        None \<Rightarrow> c
      | Some e \<Rightarrow> drop_order key (c\<lparr>rcBytes := rcBytes c - ceSize e, rcEntries := AList.delete key (rcEntries c)\<rparr>))"

definition cache_get :: "string \<Rightarrow> int \<Rightarrow> response_cache \<Rightarrow> response option \<times> response_cache" where
  "cache_get key now c =
     (case map_of (rcEntries c) key of
        None \<Rightarrow> (None, c)
      | Some e \<Rightarrow> if \<not> fresh_entry now e then (None, remove_entry key c) else (Some (ceResp e), c))"

fun evict_cache :: "string list \<Rightarrow> (string \<times> cache_entry) list \<Rightarrow> int \<Rightarrow> response_cache" where
  "evict_cache [] es b = \<lparr>rcEntries = es, rcOrder = [], rcBytes = b\<rparr>"
| "evict_cache (k # ks) es b =
     (if b > maxCacheBytes
      then (case map_of es k of
              Some v \<Rightarrow> evict_cache ks (AList.delete k es) (b - ceSize v)
            | None \<Rightarrow> evict_cache ks es b)
      else \<lparr>rcEntries = es, rcOrder = k # ks, rcBytes = b\<rparr>)"

definition cache_store :: "(string \<Rightarrow> int option) \<Rightarrow> string \<Rightarrow> response \<Rightarrow> int \<Rightarrow> response_cache \<Rightarrow> response_cache" where
  "cache_store dates key resp now c =
     (case freshness_lifetime dates resp now of
        None \<Rightarrow> c
      | Some life \<Rightarrow>
          (let e = \<lparr>ceResp = resp, ceExpires = now + life, ceSize = int (length (rsBody resp)) + int (length key) + 64\<rparr>;
               c = remove_entry key c
           in evict_cache (rcOrder c @ [key]) (AList.update key e (rcEntries c)) (rcBytes c + ceSize e)))"

subsection \<open>The books\<close>

definition sizes :: "(string \<times> cache_entry) list \<Rightarrow> int" where
  "sizes es = sum_list (map (ceSize \<circ> snd) es)"

definition storable :: "cache_entry \<Rightarrow> bool" where
  "storable e \<longleftrightarrow> rsStatus (ceResp e) = 200 \<and> lookup_header (rsHeaders (ceResp e)) ''Set-Cookie'' = None
     \<and> (case lookup_header (rsHeaders (ceResp e)) ''Cache-Control'' of None \<Rightarrow> True
        | Some cc \<Rightarrow> \<forall>t\<in>set (split_by (CHR '','') (to_lower cc)). trim_space t \<notin> {''no-store'', ''no-cache'', ''private''})"

definition books :: "string list \<Rightarrow> (string \<times> cache_entry) list \<Rightarrow> int \<Rightarrow> bool" where
  "books ks es b \<longleftrightarrow> distinct (map fst es) \<and> distinct ks \<and> set ks = fst ` set es \<and> b = sizes es
     \<and> (\<forall>(k, e)\<in>set es. 64 \<le> ceSize e \<and> storable e)"

definition cache_ok :: "response_cache \<Rightarrow> bool" where
  "cache_ok c \<longleftrightarrow> books (rcOrder c) (rcEntries c) (rcBytes c)"

lemma booksD:
  assumes "books ks es b"
  shows "distinct (map fst es)" "distinct ks" "set ks = fst ` set es" "b = sizes es" "\<And>k e. (k, e) \<in> set es \<Longrightarrow> 64 \<le> ceSize e \<and> storable e"
  using assms by (auto simp: books_def)

lemma delete_absent: "k \<notin> fst ` set es \<Longrightarrow> AList.delete k es = es"
  by (induction es) (auto simp: AList.delete_eq)

lemma sizes_delete: "distinct (map fst es) \<Longrightarrow> map_of es k = Some e \<Longrightarrow> sizes (AList.delete k es) = sizes es - ceSize e"
proof (induction es)
  case (Cons x es)
  obtain j v where x: "x = (j, v)" by (cases x)
  show ?case
  proof (cases "j = k")
    case True
    then have "AList.delete k es = es" using Cons.prems(1) delete_absent[of k es] by (simp add: x)
    then show ?thesis using True Cons.prems(2) by (simp add: x sizes_def AList.delete_eq)
  next
    case False
    then show ?thesis using Cons by (simp add: x sizes_def AList.delete_eq)
  qed
qed simp

lemma books_delete:
  assumes "books ks es b" "map_of es k = Some e"
  shows "books (remove1 k ks) (AList.delete k es) (b - ceSize e)"
proof -
  note B = booksD[OF assms(1)]
  have "set (remove1 k ks) = fst ` set (AList.delete k es)" using B(2,3) by (force simp: AList.delete_eq image_iff)
  moreover have "distinct (map fst (AList.delete k es))" using B(1) by (rule AList.distinct_delete)
  moreover have "set (AList.delete k es) \<subseteq> set es" by (auto simp: AList.delete_eq)
  ultimately show ?thesis using B(2,4,5) sizes_delete[OF B(1) assms(2)] by (auto simp: books_def)
qed

lemma evict_books: "books ks es b \<Longrightarrow> cache_ok (evict_cache ks es b)"
proof (induction ks es b rule: evict_cache.induct)
  case (2 k ks es b)
  then obtain e where e: "map_of es k = Some e" using booksD(3)[OF 2(3)] by (metis image_iff list.set_intros(1) map_of_eq_None_iff not_None_eq)
  show ?case using 2 e books_delete[OF 2(3) e] by (auto simp: cache_ok_def)
qed (simp add: cache_ok_def)

lemma sizes_nonneg: "(\<forall>(k, e)\<in>set es. 64 \<le> ceSize e) \<Longrightarrow> 0 \<le> sizes es"
  by (induction es) (auto simp: sizes_def)

lemma evict_bound: "books ks es b \<Longrightarrow> rcBytes (evict_cache ks es b) \<le> maxCacheBytes"
proof (induction ks es b rule: evict_cache.induct)
  case (1 es b)
  then have "es = []" using booksD(3)[OF 1] by simp
  then show ?case using booksD(4)[OF 1] by (simp add: sizes_def maxCacheBytes_def)
next
  case (2 k ks es b)
  then obtain e where e: "map_of es k = Some e" using booksD(3)[OF 2(3)] by (metis image_iff list.set_intros(1) map_of_eq_None_iff not_None_eq)
  show ?case using 2 e books_delete[OF 2(3) e] by auto
qed

lemma remove_ok: "cache_ok c \<Longrightarrow> cache_ok (remove_entry k c)"
  using books_delete by (auto simp: remove_entry_def drop_order_def cache_ok_def split: option.split)

lemma remove_absent: "cache_ok c \<Longrightarrow> k \<notin> fst ` set (rcEntries (remove_entry k c)) \<and> k \<notin> set (rcOrder (remove_entry k c))"
  using booksD(2,3)[of "rcOrder c" "rcEntries c" "rcBytes c"]
  by (auto simp: remove_entry_def drop_order_def cache_ok_def AList.delete_eq map_of_eq_None_iff split: option.split)

lemma update_absent: "k \<notin> fst ` set es \<Longrightarrow> AList.update k e es = es @ [(k, e)]"
  by (induction es) auto

lemma scan_allows: "scan_cache_control ts age = Some r \<Longrightarrow> \<forall>t\<in>set ts. trim_space t \<notin> {''no-store'', ''no-cache'', ''private''}"
proof (induction ts arbitrary: age)
  case (Cons t ts)
  have ok: "\<not> (trim_space t = ''no-store'' \<or> trim_space t = ''no-cache'' \<or> trim_space t = ''private'')"
  proof
    assume "trim_space t = ''no-store'' \<or> trim_space t = ''no-cache'' \<or> trim_space t = ''private''"
    then have "scan_cache_control (t # ts) age = None" by (simp only: scan_cache_control.simps Let_def if_True)
    then show False using Cons.prems by simp
  qed
  have "\<exists>a. scan_cache_control (t # ts) age = scan_cache_control ts a"
    unfolding scan_cache_control.simps(2) Let_def if_not_P[OF ok] by (cases "atoi (trim_prefix ''max-age='' (trim_space t))") auto
  then obtain a where "scan_cache_control ts a = Some r" using Cons.prems by auto
  then show ?case using Cons.IH ok by simp
qed simp

lemma lifetime_storable:
  assumes "freshness_lifetime dates resp now = Some life"
  shows "storable \<lparr>ceResp = resp, ceExpires = x, ceSize = y\<rparr>"
proof (cases "lookup_header (rsHeaders resp) ''Cache-Control''")
  case None
  then show ?thesis using assms by (simp add: freshness_lifetime_def storable_def split: if_splits)
next
  case (Some cc)
  then have "scan_cache_control (split_by (CHR '','') (to_lower cc)) None \<noteq> None"
    using assms by (cases "scan_cache_control (split_by (CHR '','') (to_lower cc)) None") (simp_all add: freshness_lifetime_def split: if_splits)
  then have "\<forall>t\<in>set (split_by (CHR '','') (to_lower cc)). trim_space t \<notin> {''no-store'', ''no-cache'', ''private''}"
    using scan_allows by blast
  then show ?thesis using assms Some by (simp add: freshness_lifetime_def storable_def split: if_splits)
qed

lemma store_books:
  fixes key :: string
  assumes "cache_ok c" "freshness_lifetime dates resp now = Some life"
  defines "e \<equiv> \<lparr>ceResp = resp, ceExpires = now + life, ceSize = int (length (rsBody resp)) + int (length key) + 64\<rparr>"
    and "d \<equiv> remove_entry key c"
  shows "books (rcOrder d @ [key]) (AList.update key e (rcEntries d)) (rcBytes d + ceSize e)"
proof -
  have ok: "books (rcOrder d) (rcEntries d) (rcBytes d)" using remove_ok[OF assms(1)] by (simp add: d_def cache_ok_def)
  have new: "key \<notin> fst ` set (rcEntries d)" "key \<notin> set (rcOrder d)" using remove_absent[OF assms(1)] by (simp_all add: d_def)
  have "storable e" "64 \<le> ceSize e" using lifetime_storable[OF assms(2)] by (simp_all add: e_def)
  then show ?thesis using ok new unfolding update_absent[OF new(1)] by (auto simp: books_def sizes_def)
qed

lemma store_ok: "cache_ok c \<Longrightarrow> cache_ok (cache_store dates key resp now c)"
  using evict_books[OF store_books] by (simp add: cache_store_def Let_def split: option.split)

lemma get_ok: "cache_ok c \<Longrightarrow> cache_ok (snd (cache_get key now c))"
  using remove_ok by (simp add: cache_get_def split: option.split)

lemma remove_bytes:
  assumes "cache_ok c"
  shows "rcBytes (remove_entry k c) \<le> rcBytes c"
proof (cases "map_of (rcEntries c) k")
  case (Some e)
  then have "64 \<le> ceSize e" using assms booksD(5) by (meson cache_ok_def map_of_SomeD)
  then show ?thesis using Some by (simp add: remove_entry_def drop_order_def)
qed (simp add: remove_entry_def)

inductive cache_reach :: "(string \<Rightarrow> int option) \<Rightarrow> response_cache \<Rightarrow> bool" for dates where
  cache_new: "cache_reach dates new_response_cache"
| cache_got: "cache_reach dates c \<Longrightarrow> cache_reach dates (snd (cache_get key now c))"
| cache_stored: "cache_reach dates c \<Longrightarrow> cache_reach dates (cache_store dates key resp now c)"

lemma cache_reach_ok: "cache_reach dates c \<Longrightarrow> cache_ok c \<and> rcBytes c \<le> maxCacheBytes"
proof (induction rule: cache_reach.induct)
  case cache_new
  show ?case by (simp add: cache_ok_def books_def new_response_cache_def sizes_def maxCacheBytes_def)
next
  case (cache_got c key now)
  then show ?case using get_ok remove_bytes[of c key] by (auto simp: cache_get_def split: option.split)
next
  case (cache_stored c key resp now)
  then show ?case using store_ok evict_bound[OF store_books] by (auto simp: cache_store_def Let_def split: option.split)
qed

subsection \<open>Properties\<close>

text \<open>
  After any sequence of lookups and stores the cache holds at most 64 MiB, its byte
  count is the sum of the sizes of its entries, its eviction order lists exactly its keys, each
  once, and every entry is one a shared cache may hold: a 200 without \<open>Set-Cookie\<close> whose
  \<open>Cache-Control\<close> does not say no-store, no-cache or private.
\<close>

theorem cache_within_limits:
  assumes "cache_reach dates c"
  shows "rcBytes c \<le> maxCacheBytes \<and> rcBytes c = sizes (rcEntries c) \<and> distinct (rcOrder c)
    \<and> set (rcOrder c) = fst ` set (rcEntries c) \<and> (\<forall>(k, e)\<in>set (rcEntries c). storable e)"
  using cache_reach_ok[OF assms] booksD[of "rcOrder c" "rcEntries c" "rcBytes c"] by (auto simp: cache_ok_def)

definition page :: response where
  "page = \<lparr>rsStatus = 200, rsHeaders = [(''Cache-Control'', ''max-age=60'')], rsBody = ''x'', rsURL = ''u''\<rparr>"

lemma page_life: "freshness_lifetime (\<lambda>_. None) page now = Some 60000000000"
proof -
  have "scan_cache_control (split_by (CHR '','') (to_lower ''max-age=60'')) None = Some (Some 60000000000)" by code_simp
  moreover have "to_lower ''Cache-Control'' \<noteq> to_lower ''Set-Cookie''" by code_simp
  ultimately show ?thesis by (simp add: freshness_lifetime_def page_def lookup_header_def)
qed

theorem cache_within_limits_witness:
  "rcBytes (cache_store (\<lambda>_. None) ''k'' page 0 new_response_cache) = 66 \<and> cache_reach (\<lambda>_. None) (cache_store (\<lambda>_. None) ''k'' page 0 new_response_cache)"
proof -
  let ?c = "cache_store (\<lambda>_. None) ''k'' page 0 new_response_cache"
  have reach: "cache_reach (\<lambda>_. None) ?c" by (rule cache_stored[OF cache_new])
  have "rcEntries ?c = [(''k'', \<lparr>ceResp = page, ceExpires = 60000000000, ceSize = 66\<rparr>)]"
    by (simp add: cache_store_def page_life Let_def remove_entry_def new_response_cache_def maxCacheBytes_def) (simp add: page_def)
  then show ?thesis using cache_within_limits[OF reach] reach by (simp add: sizes_def)
qed

subsection \<open>Eviction\<close>

lemma evict_drops:
  "books ks es b \<Longrightarrow> \<exists>j. rcOrder (evict_cache ks es b) = drop j ks \<and> (\<forall>k\<in>set (drop j ks). map_of (rcEntries (evict_cache ks es b)) k = map_of es k)"
proof (induction ks es b rule: evict_cache.induct)
  case (1 es b)
  then show ?case by simp
next
  case (2 k ks es b)
  then obtain e where e: "map_of es k = Some e" using booksD(3)[OF 2(3)] by (metis image_iff list.set_intros(1) map_of_eq_None_iff not_None_eq)
  show ?case
  proof (cases "b > maxCacheBytes")
    case True
    have "books ks (AList.delete k es) (b - ceSize e)" using books_delete[OF 2(3) e] by simp
    then obtain j where j: "rcOrder (evict_cache ks (AList.delete k es) (b - ceSize e)) = drop j ks"
      "\<forall>x\<in>set (drop j ks). map_of (rcEntries (evict_cache ks (AList.delete k es) (b - ceSize e))) x = map_of (AList.delete k es) x"
      using 2(2)[OF True e] by blast
    have "k \<notin> set ks" using booksD(2)[OF 2(3)] by simp
    then have "\<forall>x\<in>set (drop j ks). map_of (AList.delete k es) x = map_of es x" by (auto simp: AList.delete_conv' dest: in_set_dropD)
    then show ?thesis using True e j by (intro exI[of _ "Suc j"]) simp
  qed (auto intro!: exI[of _ 0])
qed

lemma evict_keeps_last:
  assumes "books (ks @ [k]) es b" "map_of es k = Some e" "ceSize e \<le> maxCacheBytes"
  shows "rcOrder (evict_cache (ks @ [k]) es b) \<noteq> []"
  using assms
proof (induction ks arbitrary: es b)
  case Nil
  have "length es = card (fst ` set es)" using booksD(1)[OF Nil(1)] distinct_card[of "map fst es"] by simp
  also have "fst ` set es = {k}" using booksD(3)[OF Nil(1)] by simp
  finally obtain x where "es = [x]" by (auto simp: length_Suc_conv)
  then have "es = [(k, e)]" using Nil(2) by (cases x) (auto split: if_splits)
  then have "b = ceSize e" using booksD(4)[OF Nil(1)] by (simp add: sizes_def)
  then show ?case using Nil(3) by simp
next
  case (Cons j ks)
  have "j \<in> fst ` set es" using booksD(3)[OF Cons(2)] by auto
  then obtain v where v: "map_of es j = Some v" by (metis image_iff map_of_eq_None_iff not_None_eq)
  have jk: "j \<noteq> k" using booksD(2)[OF Cons(2)] by auto
  then have "map_of (AList.delete j es) k = Some e" using Cons(3) by (simp add: AList.delete_conv')
  moreover have "books (ks @ [k]) (AList.delete j es) (b - ceSize v)" using books_delete[OF Cons(2) v] by simp
  ultimately show ?case using Cons.IH v Cons(4) by simp
qed

lemma cache_store_serves:
  fixes key :: string
  assumes "cache_ok c" "freshness_lifetime dates resp now = Some life"
    and "int (length (rsBody resp)) + int (length key) + 64 \<le> maxCacheBytes"
  defines "c' \<equiv> cache_store dates key resp now c"
  shows "fst (cache_get key t c') = (if t < now + life then Some resp else None)
    \<and> (\<exists>j. rcOrder c' = drop j (remove1 key (rcOrder c)) @ [key]
        \<and> (\<forall>k\<in>set (drop j (remove1 key (rcOrder c))). map_of (rcEntries c') k = map_of (rcEntries c) k))"
proof -
  note ok = assms(1)
  let ?d = "remove_entry key c"
  let ?e = "\<lparr>ceResp = resp, ceExpires = now + life, ceSize = int (length (rsBody resp)) + int (length key) + 64\<rparr>"
  let ?es = "AList.update key ?e (rcEntries ?d)"
  have c': "c' = evict_cache (rcOrder ?d @ [key]) ?es (rcBytes ?d + ceSize ?e)" by (simp add: c'_def cache_store_def assms(2) Let_def)
  note B = store_books[OF ok assms(2), of key]
  have e: "map_of ?es key = Some ?e" by (simp add: AList.update_conv')
  obtain j where j: "rcOrder c' = drop j (rcOrder ?d @ [key])"
    "\<forall>k\<in>set (drop j (rcOrder ?d @ [key])). map_of (rcEntries c') k = map_of ?es k" using evict_drops[OF B] unfolding c' by blast
  have "rcOrder c' \<noteq> []" unfolding c' using evict_keeps_last[OF B e] assms(3) by simp
  then have "j \<le> length (rcOrder ?d)" using j(1) by (cases "j \<le> length (rcOrder ?d)") auto
  then have o: "rcOrder c' = drop j (rcOrder ?d) @ [key]" using j(1) by simp
  have order: "rcOrder ?d = remove1 key (rcOrder c)"
  proof (cases "map_of (rcEntries c) key")
    case None
    then have "key \<notin> set (rcOrder c)" using booksD(3)[OF ok[unfolded cache_ok_def]] by (simp add: map_of_eq_None_iff)
    then show ?thesis using None by (simp add: remove_entry_def remove1_idem)
  qed (simp add: remove_entry_def drop_order_def)
  have "map_of (rcEntries c') key = Some ?e" using j(2) j(1) o e by auto
  then have "fst (cache_get key t c') = (if t < now + life then Some resp else None)" by (simp add: cache_get_def fresh_entry_def)
  moreover have "map_of (rcEntries c') k = map_of (rcEntries c) k" if k: "k \<in> set (drop j (rcOrder ?d))" for k
  proof -
    have "k \<noteq> key" using k remove_absent[OF ok] by (auto dest: in_set_dropD)
    then have "map_of ?es k = map_of (rcEntries c) k"
      by (simp add: AList.update_conv' remove_entry_def drop_order_def AList.delete_conv' split: option.split)
    then show ?thesis using j k o by auto
  qed
  ultimately show ?thesis using o unfolding order by blast
qed

text \<open>
  A response whose headers allow it and that fits is found again under its key until
  exactly its lifetime has passed and not after, replacing what the key held; to make room the
  oldest stored responses go first, and no other entry changes.
\<close>

theorem stored_is_served:
  fixes key :: string
  assumes "cache_reach dates c" "freshness_lifetime dates resp now = Some life"
    and "int (length (rsBody resp)) + int (length key) + 64 \<le> maxCacheBytes"
  defines "c' \<equiv> cache_store dates key resp now c"
  shows "fst (cache_get key t c') = (if t < now + life then Some resp else None)
    \<and> (\<exists>j. rcOrder c' = drop j (remove1 key (rcOrder c)) @ [key]
        \<and> (\<forall>k\<in>set (drop j (remove1 key (rcOrder c))). map_of (rcEntries c') k = map_of (rcEntries c) k))"
  unfolding c'_def using cache_store_serves[of c dates resp now life key] cache_reach_ok[OF assms(1)] assms(2,3) by blast

theorem stored_is_served_witness:
  "fst (cache_get ''k'' 59999999999 (cache_store (\<lambda>_. None) ''k'' page 0 new_response_cache)) = Some page
    \<and> fst (cache_get ''k'' 60000000000 (cache_store (\<lambda>_. None) ''k'' page 0 new_response_cache)) = None"
  using stored_is_served[OF cache_new page_life, where key = "''k''" and now = 0 and t = 59999999999] stored_is_served[OF cache_new page_life, where key = "''k''" and now = 0 and t = 60000000000]
  by (simp add: page_def maxCacheBytes_def)

subsection \<open>What the client relies on\<close>

definition cache_good :: "response_cache \<Rightarrow> bool" where
  "cache_good k \<longleftrightarrow> cache_ok k \<and> rcBytes k \<le> maxCacheBytes"

lemma get_good: "cache_good k \<Longrightarrow> cache_good (snd (cache_get key now k))"
  using get_ok[of k key now] remove_bytes[of k key] by (auto simp: cache_good_def cache_get_def split: option.splits if_splits)

lemma store_good: "cache_good k \<Longrightarrow> cache_good (cache_store dates key r now k)"
  using store_ok[of k dates key r now] evict_bound[OF store_books]
  by (auto simp: cache_good_def cache_store_def Let_def split: option.split)

definition cacheable_size :: "string \<Rightarrow> response \<Rightarrow> bool" where
  "cacheable_size key r \<longleftrightarrow> int (length (rsBody r)) + int (length key) + 64 \<le> maxCacheBytes"

text \<open>
  A store of responses: looking up and keeping preserve what makes it good, a hit changes nothing,
  and what was kept is found until its lifetime has passed.
\<close>

locale response_store =
  fixes lookup :: "string \<Rightarrow> int \<Rightarrow> 'c \<Rightarrow> response option \<times> 'c"
    and keep :: "string \<Rightarrow> response \<Rightarrow> int \<Rightarrow> 'c \<Rightarrow> 'c"
    and good :: "'c \<Rightarrow> bool"
    and lifetime :: "response \<Rightarrow> int \<Rightarrow> int option"
    and fits :: "string \<Rightarrow> response \<Rightarrow> bool"
  assumes lookup_good: "good c \<Longrightarrow> good (snd (lookup key t c))"
    and keep_good: "good c \<Longrightarrow> good (keep key r t c)"
    and hit_changes_nothing: "lookup key t c = (Some r, c') \<Longrightarrow> c' = c"
    and kept_found: "good c \<Longrightarrow> lifetime r now = Some l \<Longrightarrow> fits key r \<Longrightarrow> fst (lookup key t (keep key r now c)) = (if t < now + l then Some r else None)"
begin

lemma lookup_good': "good c \<Longrightarrow> lookup key t c = (v, c') \<Longrightarrow> good c'"
  using lookup_good[of c key t] by simp

lemma served:
  assumes "good c" "lifetime r now = Some l" "fits key r" "t < now + l"
  shows "lookup key t (keep key r now c) = (Some r, keep key r now c)"
proof -
  obtain c' where "lookup key t (keep key r now c) = (Some r, c')" using kept_found[OF assms(1-3), of t] assms(4) by (metis prod.collapse)
  then show ?thesis using hit_changes_nothing by blast
qed

lemma served_repeatedly:
  assumes "good c" "lifetime r now = Some l" "fits key r" "\<forall>t\<in>set ts. t < now + l"
  shows "fold (\<lambda>t c. snd (lookup key t c)) ts (keep key r now c) = keep key r now c"
  using assms(4) by (induction ts) (simp_all add: served[OF assms(1-3)])

end

interpretation rc: response_store cache_get "cache_store dates" cache_good "freshness_lifetime dates" cacheable_size for dates
proof
  fix c r key now l t
  assume a: "cache_good c" "freshness_lifetime dates r now = Some l" "cacheable_size key r"
  show "fst (cache_get key t (cache_store dates key r now c)) = (if t < now + l then Some r else None)"
    using cache_store_serves[of c dates r now l key t] a by (simp add: cache_good_def cacheable_size_def)
next
  fix c c' key t r
  assume "cache_get key t c = (Some r, c')"
  then show "c' = c" by (auto simp: cache_get_def split: option.splits if_splits)
qed (simp_all add: get_good store_good)

text \<open>An age of about three centuries, and any longer one up to six, wraps to a lifetime in the past.\<close>

lemma long_max_age_never_fresh: "scan_cache_control [''max-age=9223372037''] None = Some (Some (- 9223372036709551616))"
  by code_simp

end
