(* ===== verification/Net_Client.thy ===== *)
theory Net_Client
  imports Net_Url Net_Filter Net_Cache Cookie_Policy
begin

text \<open>
  \<open>internal/net/http.go\<close>: the client. A request goes past the filter and the cache to the network,
  and what comes back feeds the jar, the cache and the log. The record \<open>net_world\<close> is what surrounds
  one call: the URL library, the file system, the order the runtime ranges over maps, the dates
  its parsers accept and the server, which may answer with all it has been sent. One reading of
  the clock serves a call, and durations are not recorded. Only the URL and the \<open>Cookie\<close> header of a
  request are kept: the other headers are constants, and no state depends on what \<open>Post\<close> sends.
\<close>

subsection \<open>The network log\<close>

record request_trace =
  trURL :: string
  trMethod :: string
  trStatus :: int
  trType :: string
  trBytes :: int
  trTime :: int
  trBlocked :: bool
  trReason :: string

record network_log =
  nlTraces :: "request_trace list"
  nlMax :: int

definition new_network_log :: "int \<Rightarrow> network_log" where
  "new_network_log n = \<lparr>nlTraces = [], nlMax = (if n \<le> 0 then 200 else n)\<rparr>"

definition record_trace :: "request_trace \<Rightarrow> network_log \<Rightarrow> network_log" where
  "record_trace t nl =
     (let ts = (if int (length (nlTraces nl)) \<ge> nlMax nl then drop 1 (nlTraces nl) else nlTraces nl) in nl\<lparr>nlTraces := ts @ [t]\<rparr>)"

definition list_traces :: "network_log \<Rightarrow> request_trace list" where
  "list_traces nl = nlTraces nl"

definition clear_traces :: "network_log \<Rightarrow> network_log" where
  "clear_traces nl = nl\<lparr>nlTraces := []\<rparr>"

subsection \<open>Bodies and files\<close>

definition MaxResponseBytes :: nat where "MaxResponseBytes = 16777216"

text \<open>\<open>readBounded\<close>: the bytes a body delivers, whether an error follows them, and whether the request is cancelled by then.\<close>

definition read_bounded :: "bool \<Rightarrow> string \<Rightarrow> bool \<Rightarrow> net_error + string" where
  "read_bounded cancelled body fault =
     (let data = take (MaxResponseBytes + 1) body
      in if cancelled then Inl ECancelled
         else if length data > MaxResponseBytes then Inl ETooLarge
         else if fault then Inl ERead else Inr data)"

record disk_file =
  dfDone :: bool
  dfStat :: "(bool \<times> int) option"
  dfOpen :: bool
  dfOpened :: "(bool \<times> int) option"
  dfBody :: string
  dfFault :: bool
  dfCancelled :: bool

record net_world =
  woUrls :: urls
  woFile :: "string \<Rightarrow> disk_file"
  woType :: "string \<Rightarrow> string"
  woShuffle :: "(string \<times> cookie) list \<Rightarrow> (string \<times> cookie) list"
  woCookieDates :: "string \<Rightarrow> int option"
  woDates :: "string \<Rightarrow> int option"
  woServe :: "hop list \<Rightarrow> server_answer"

definition check_file :: "(bool \<times> int) option \<Rightarrow> net_error option" where
  "check_file info =
     (case info of
        None \<Rightarrow> Some EStat
      | Some (regular, bytes) \<Rightarrow> if \<not> regular then Some ENotRegular else if bytes > int MaxResponseBytes then Some ETooLarge else None)"

definition read_file_url :: "net_world \<Rightarrow> net_url \<Rightarrow> net_error + response" where
  "read_file_url W u =
     (let path = uzClean (woUrls W) (nuPath u); f = woFile W path; ct = woType W path
      in if dfDone f then Inl ECancelled
         else case check_file (dfStat f) of
           Some e \<Rightarrow> Inl e
         | None \<Rightarrow>
             if \<not> dfOpen f then Inl EOpen
             else case check_file (dfOpened f) of
                    Some e \<Rightarrow> Inl e
                  | None \<Rightarrow>
                      (case read_bounded (dfCancelled f) (dfBody f) (dfFault f) of
                         Inl e \<Rightarrow> Inl e
                       | Inr data \<Rightarrow> Inr \<lparr>rsStatus = 200, rsHeaders = [(''Content-Type'', if ct = [] then ''application/octet-stream'' else ct)],
                           rsBody = data, rsURL = uzText (woUrls W) u\<rparr>))"

subsection \<open>The client\<close>

record http_client =
  hcJar :: jar
  hcCache :: response_cache
  hcFilter :: "filter_engine option"
  hcLog :: network_log
  hcPrivate :: bool
  hcPersist :: string

text \<open>What a context carries: whether it is done, and whether shields are down for it.\<close>

record request_ctx =
  cxDone :: bool
  cxNoShields :: bool

definition default_client :: http_client where
  "default_client = \<lparr>hcJar = new_jar, hcCache = new_response_cache, hcFilter = Some new_filter_engine, hcLog = new_network_log 200,
     hcPrivate = False, hcPersist = []\<rparr>"

definition default_private_client :: http_client where
  "default_private_client = \<lparr>hcJar = new_jar, hcCache = new_response_cache, hcFilter = Some new_filter_engine, hcLog = new_network_log 200,
     hcPrivate = True, hcPersist = []\<rparr>"

text \<open>\<open>None\<close> for the stored cookies is a file that cannot be read or parsed.\<close>

definition default_client_with_cookies :: "net_world \<Rightarrow> (string list \<Rightarrow> string list) \<Rightarrow> int \<Rightarrow> string \<Rightarrow> persisted list option \<Rightarrow> http_client option" where
  "default_client_with_cookies W pick now path stored =
     map_option (\<lambda>ps. default_client\<lparr>hcJar := load (woShuffle W) pick now ps (hcJar default_client), hcPersist := path\<rparr>) stored"

definition set_filter :: "filter_engine option \<Rightarrow> http_client \<Rightarrow> http_client" where
  "set_filter f c = c\<lparr>hcFilter := f\<rparr>"

definition note_trace :: "string \<Rightarrow> string \<Rightarrow> int \<Rightarrow> string \<Rightarrow> int \<Rightarrow> int \<Rightarrow> http_client \<Rightarrow> http_client" where
  "note_trace url meth status ct bytes now c =
     c\<lparr>hcLog := record_trace \<lparr>trURL = url, trMethod = meth, trStatus = status, trType = ct, trBytes = bytes, trTime = now,
        trBlocked = False, trReason = []\<rparr> (hcLog c)\<rparr>"

definition note_blocked :: "string \<Rightarrow> string \<Rightarrow> string \<Rightarrow> int \<Rightarrow> http_client \<Rightarrow> http_client" where
  "note_blocked url meth reason now c =
     c\<lparr>hcLog := record_trace \<lparr>trURL = url, trMethod = meth, trStatus = 0, trType = [], trBytes = 0, trTime = now,
        trBlocked = True, trReason = reason\<rparr> (hcLog c)\<rparr>"

definition header_value :: "(string \<times> string) list \<Rightarrow> string \<Rightarrow> string" where
  "header_value hs k = (case map_of hs k of Some v \<Rightarrow> v | None \<Rightarrow> [])"

definition filter_host :: "net_world \<Rightarrow> string \<Rightarrow> string option" where
  "filter_host W s = map_option host_name (uzParse (woUrls W) s)"

text \<open>The filter's verdict, and the client with the refusal counted and logged.\<close>

definition pass_filter :: "net_world \<Rightarrow> request_ctx \<Rightarrow> string \<Rightarrow> string \<Rightarrow> int \<Rightarrow> http_client \<Rightarrow> string option \<times> http_client" where
  "pass_filter W cx meth url now c =
     (case hcFilter c of
        None \<Rightarrow> (None, c)
      | Some f \<Rightarrow>
          if feEnabled f \<and> \<not> cxNoShields cx then
            (case should_block (filter_host W) url f of
               ((blocked, reason), f) \<Rightarrow>
                 if blocked then (Some reason, note_blocked url meth reason now (c\<lparr>hcFilter := Some f\<rparr>)) else (None, c\<lparr>hcFilter := Some f\<rparr>))
          else (None, c))"

definition cookie_url :: "net_url \<Rightarrow> url" where
  "cookie_url u = \<lparr>urScheme = nuScheme u, urHost = host_name u, urPath = nuPath u\<rparr>"

definition first_request :: "net_world \<Rightarrow> int \<Rightarrow> net_url \<Rightarrow> http_client \<Rightarrow> hop" where
  "first_request W now u c = \<lparr>hpURL = u, hpCookie = header_for (woShuffle W) now (cookie_url u) (hcJar c)\<rparr>"

definition set_cookie_key :: "string \<Rightarrow> bool" where
  "set_cookie_key k \<longleftrightarrow> to_lower k = ''set-cookie''"

definition joined_headers :: "(string \<times> string list) list \<Rightarrow> (string \<times> string) list" where
  "joined_headers hs = map (\<lambda>(k, vs). (k, if set_cookie_key k then join_with [CHR 0x0A] vs else join_with '', '' vs)) hs"

definition keep_cookies :: "net_world \<Rightarrow> int \<Rightarrow> net_url \<Rightarrow> (string \<times> string list) list \<Rightarrow> jar \<Rightarrow> jar" where
  "keep_cookies W now u hs j =
     fold (\<lambda>(k, vs) j. if set_cookie_key k then store (woShuffle W) (woCookieDates W) now (cookie_url u) vs j else j) hs j"

definition first_value :: "(string \<times> string list) list \<Rightarrow> string \<Rightarrow> string" where
  "first_value hs k = (case map_of hs k of Some (v # _) \<Rightarrow> v | _ \<Rightarrow> [])"

text \<open>From the network: the requests that go out, then the jar, the cache and the log.\<close>

definition fetch :: "net_world \<Rightarrow> string \<Rightarrow> string \<Rightarrow> net_url \<Rightarrow> int \<Rightarrow> http_client \<Rightarrow> (net_error + response) \<times> hop list \<times> http_client" where
  "fetch W meth url u now c =
     (case follow (woUrls W) (woServe W) [] (first_request W now u c) of
        (hops, Inl e) \<Rightarrow> (Inl e, hops, c)
      | (hops, Inr r) \<Rightarrow>
          if rpLength r > int MaxResponseBytes then (Inl ETooLarge, hops, c)
          else case read_bounded (rpCancelled r) (rpBody r) (rpFault r) of
                 Inl e \<Rightarrow> (Inl e, hops, c)
               | Inr data \<Rightarrow>
                   let final = hpURL (last hops);
                       out = \<lparr>rsStatus = rpStatus r, rsHeaders = joined_headers (rpHeaders r), rsBody = data, rsURL = uzText (woUrls W) final\<rparr>;
                       c = c\<lparr>hcJar := keep_cookies W now final (rpHeaders r) (hcJar c)\<rparr>;
                       c = (if meth = ''GET'' then c\<lparr>hcCache := cache_store (woDates W) url out now (hcCache c)\<rparr> else c)
                   in (Inr out, hops, note_trace url meth (rpStatus r) (first_value (rpHeaders r) ''Content-Type'') (int (length data)) now c))"

definition request :: "net_world \<Rightarrow> request_ctx \<Rightarrow> string \<Rightarrow> string \<Rightarrow> int \<Rightarrow> http_client \<Rightarrow> (net_error + response) \<times> hop list \<times> http_client" where
  "request W cx meth raw now c =
     (if cxDone cx then (Inl ECancelled, [], c)
      else case normalize_url (woUrls W) raw of
        Inl e \<Rightarrow> (Inl e, [], c)
      | Inr url \<Rightarrow>
          (case uzParse (woUrls W) url of
             None \<Rightarrow> (Inl EParse, [], c)
           | Some u \<Rightarrow>
               if nuScheme u = ''file'' then
                 (if meth \<noteq> ''GET'' then (Inl EFileGet, [], c)
                  else case read_file_url W u of
                         Inl e \<Rightarrow> (Inl e, [], c)
                       | Inr r \<Rightarrow> (Inr r, [], note_trace url meth 200 (header_value (rsHeaders r) ''Content-Type'') (int (length (rsBody r))) now c))
               else case pass_filter W cx meth url now c of
                      (Some reason, c) \<Rightarrow> (Inl (EBlocked reason), [], c)
                    | (None, c) \<Rightarrow>
                        if meth = ''GET'' then
                          (case cache_get url now (hcCache c) of
                             (Some r, k) \<Rightarrow> (Inr r, [], note_trace url meth 304 (header_value (rsHeaders r) ''Content-Type'') (int (length (rsBody r))) now (c\<lparr>hcCache := k\<rparr>))
                           | (None, k) \<Rightarrow> fetch W meth url u now (c\<lparr>hcCache := k\<rparr>))
                        else fetch W meth url u now c))"

text \<open>\<open>Close\<close>: what is saved when the client keeps its cookies, and whether all went well.\<close>

definition close_client :: "net_world \<Rightarrow> int \<Rightarrow> bool \<Rightarrow> http_client \<Rightarrow> bool \<times> persisted list option \<times> http_client" where
  "close_client W now saves c =
     (let wiped = (if hcPrivate c then c\<lparr>hcJar := clear_jar (hcJar c)\<rparr> else c)
      in if hcPersist c \<noteq> [] then
           (if \<not> saves then (False, None, c) else (True, Some (saved (woShuffle W) now (hcJar c)), wiped))
         else (True, None, wiped))"

end
