(* ===== verification/Net_Stream.thy ===== *)
theory Net_Stream
  imports Net_Client
begin

text \<open>
  \<open>internal/net/http.go\<close>: responses whose body is still to be read. A stream is the body left, what
  it will write to the network log, and whether it has; a stream out of the cache writes nothing.
  Every read gives the bytes the transport has and tells whether it ends in an error or the end.
\<close>

subsection \<open>Streams\<close>

record stream =
  stStatus :: int
  stHeaders :: "(string \<times> string) list"
  stURL :: string
  stLength :: int
  stBody :: string
  stTrace :: "request_trace option"
  stCount :: int
  stRecorded :: bool
  stClosed :: bool

definition cached_stream :: "response \<Rightarrow> stream" where
  "cached_stream r = \<lparr>stStatus = rsStatus r, stHeaders = rsHeaders r, stURL = rsURL r, stLength = int (length (rsBody r)), stBody = rsBody r,
     stTrace = None, stCount = 0, stRecorded = False, stClosed = False\<rparr>"

definition live_stream :: "net_world \<Rightarrow> string \<Rightarrow> int \<Rightarrow> net_url \<Rightarrow> reply \<Rightarrow> stream" where
  "live_stream W url now final r = \<lparr>stStatus = rpStatus r, stHeaders = joined_headers (rpHeaders r), stURL = uzText (woUrls W) final,
     stLength = rpLength r, stBody = rpBody r,
     stTrace = Some \<lparr>trURL = url, trMethod = ''GET'', trStatus = rpStatus r, trType = first_value (rpHeaders r) ''Content-Type'', trBytes = 0,
       trTime = now, trBlocked = False, trReason = []\<rparr>,
     stCount = 0, stRecorded = False, stClosed = False\<rparr>"

definition get_stream :: "net_world \<Rightarrow> request_ctx \<Rightarrow> string \<Rightarrow> int \<Rightarrow> http_client \<Rightarrow> (net_error + stream) \<times> hop list \<times> http_client" where
  "get_stream W cx raw now c =
     (if cxDone cx then (Inl ECancelled, [], c)
      else case normalize_url (woUrls W) raw of
        Inl e \<Rightarrow> (Inl e, [], c)
      | Inr url \<Rightarrow>
          (case uzParse (woUrls W) url of
             None \<Rightarrow> (Inl EParse, [], c)
           | Some u \<Rightarrow>
               if nuScheme u \<noteq> ''http'' \<and> nuScheme u \<noteq> ''https'' then (Inl EScheme, [], c)
               else case pass_filter W cx ''GET'' url now c of
                      (Some reason, c) \<Rightarrow> (Inl (EBlocked reason), [], c)
                    | (None, c) \<Rightarrow>
                        (case cache_get url now (hcCache c) of
                           (Some r, k) \<Rightarrow> (Inr (cached_stream r), [],
                             note_trace url ''GET'' 304 (header_value (rsHeaders r) ''Content-Type'') (int (length (rsBody r))) now (c\<lparr>hcCache := k\<rparr>))
                         | (None, k) \<Rightarrow>
                             let c = c\<lparr>hcCache := k\<rparr>
                             in case follow (woUrls W) (woServe W) [] (first_request W now u c) of
                                  (hops, Inl e) \<Rightarrow> (Inl e, hops, c)
                                | (hops, Inr r) \<Rightarrow>
                                    let final = hpURL (last hops)
                                    in (Inr (live_stream W url now final r), hops, c\<lparr>hcJar := keep_cookies W now final (rpHeaders r) (hcJar c)\<rparr>))))"

definition record_stream :: "stream \<times> network_log \<Rightarrow> stream \<times> network_log" where
  "record_stream sl =
     (case sl of (s, nl) \<Rightarrow>
       case stTrace s of
         None \<Rightarrow> (s, nl)
       | Some t \<Rightarrow> if stRecorded s then (s, nl) else (s\<lparr>stRecorded := True\<rparr>, record_trace (t\<lparr>trBytes := stCount s\<rparr>) nl))"

text \<open>One \<open>Read\<close> of at most \<open>room\<close> bytes, of which the transport has \<open>avail\<close>.\<close>

definition read_stream :: "nat \<Rightarrow> nat \<Rightarrow> bool \<Rightarrow> stream \<times> network_log \<Rightarrow> string \<times> stream \<times> network_log" where
  "read_stream room avail ends sl =
     (case sl of (s, nl) \<Rightarrow>
       let got = take (min room avail) (stBody s);
           s = s\<lparr>stBody := drop (length got) (stBody s), stCount := i64 (stCount s + int (length got))\<rparr>
       in (got, if ends then record_stream (s, nl) else (s, nl)))"

text \<open>\<open>StreamResponse.Close\<close>, which acts once.\<close>

definition close_stream :: "stream \<times> network_log \<Rightarrow> stream \<times> network_log" where
  "close_stream sl =
     (case sl of (s, nl) \<Rightarrow> if stClosed s then (s, nl) else record_stream (s\<lparr>stClosed := True\<rparr>, nl))"

text \<open>\<open>ReadBounded\<close>; a stream read through the limit ends early, and its bound wraps at 64 bits.\<close>

definition bounded_body :: "stream \<Rightarrow> bool \<Rightarrow> int \<Rightarrow> net_error + string" where
  "bounded_body s fault maxBytes =
     (if maxBytes < 0 then Inl ELimit
      else if stLength s > maxBytes then Inl ETooLarge
      else let lim = nat (i64 (maxBytes + 1)); data = take lim (stBody s)
           in if int (length data) > maxBytes then Inl ETooLarge
              else if fault \<and> length (stBody s) < lim then Inl ERead
              else Inr data)"

subsection \<open>What the log says of a stream\<close>

datatype stream_op = Read nat nat bool | Close

fun stream_step :: "stream_op \<Rightarrow> stream \<times> network_log \<Rightarrow> stream \<times> network_log" where
  "stream_step (Read room avail ends) sl = snd (read_stream room avail ends sl)"
| "stream_step Close sl = close_stream sl"

text \<open>The bytes read up to the first operation that ends the stream, if one does.\<close>

fun ended_after :: "string \<Rightarrow> stream_op list \<Rightarrow> nat option" where
  "ended_after body [] = None"
| "ended_after body (Close # ops) = Some 0"
| "ended_after body (Read room avail ends # ops) =
     (let got = length (take (min room avail) body)
      in if ends then Some got else map_option (\<lambda>n. got + n) (ended_after (drop got body) ops))"

lemma stream_step_recorded:
  assumes "stRecorded s"
  shows "\<exists>s'. stream_step op (s, nl) = (s', nl) \<and> stRecorded s'"
  using assms by (cases op) (auto simp: read_stream_def close_stream_def record_stream_def Let_def split: option.split)

lemma stream_rest_silent: "stRecorded s \<Longrightarrow> snd (fold stream_step ops (s, nl)) = nl"
proof (induction ops arbitrary: s)
  case (Cons op ops)
  then obtain s' where "stream_step op (s, nl) = (s', nl)" "stRecorded s'" using stream_step_recorded by blast
  then show ?case using Cons.IH by simp
qed simp

lemma ended_after_le: "ended_after body ops = Some n \<Longrightarrow> n \<le> length body"
proof (induction body ops arbitrary: n rule: ended_after.induct)
  case (3 body room avail ends ops)
  then show ?case by (fastforce simp: Let_def split: if_splits)
qed simp_all

lemma stream_logged:
  assumes "stTrace s = Some t" "\<not> stRecorded s" "\<not> stClosed s" "0 \<le> stCount s" "in64 (stCount s + int (length (stBody s)))"
  shows "snd (fold stream_step ops (s, nl)) =
    (case ended_after (stBody s) ops of None \<Rightarrow> nl | Some n \<Rightarrow> record_trace (t\<lparr>trBytes := stCount s + int n\<rparr>) nl)"
  using assms
proof (induction ops arbitrary: s)
  case (Cons op ops)
  show ?case
  proof (cases op)
    case Close
    then show ?thesis using Cons.prems by (simp add: close_stream_def record_stream_def stream_rest_silent)
  next
    case (Read room avail ends)
    let ?got = "take (min room avail) (stBody s)"
    let ?s = "s\<lparr>stBody := drop (length ?got) (stBody s), stCount := stCount s + int (length ?got)\<rparr>"
    have fits: "in64 (stCount s + int (length ?got))" using Cons.prems(4,5) by (auto simp: in64_def)
    show ?thesis
    proof (cases ends)
      case True
      then show ?thesis using Read Cons.prems(1,2) fits by (simp add: read_stream_def record_stream_def Let_def stream_rest_silent)
    next
      case False
      have "snd (fold stream_step ops (?s, nl)) = (case ended_after (stBody ?s) ops of None \<Rightarrow> nl | Some n \<Rightarrow> record_trace (t\<lparr>trBytes := stCount ?s + int n\<rparr>) nl)"
        by (rule Cons.IH) (use Cons.prems in \<open>auto simp: min_def\<close>)
      then show ?thesis using Read False fits by (simp add: read_stream_def Let_def ac_simps split: option.split)
    qed
  qed
qed simp

text \<open>
  A live stream is written to the network log once, when a read first fails or ends or when it is
  closed, whichever comes first, with the bytes that had been read by then, and not at all before;
  reads and closes after that write nothing.
\<close>

theorem stream_logged_once:
  assumes "in64 (int (length (rpBody r)))"
  shows "snd (fold stream_step ops (live_stream W url now final r, nl)) =
    (case ended_after (rpBody r) ops of
       None \<Rightarrow> nl
     | Some n \<Rightarrow> record_trace \<lparr>trURL = url, trMethod = ''GET'', trStatus = rpStatus r, trType = first_value (rpHeaders r) ''Content-Type'',
         trBytes = int n, trTime = now, trBlocked = False, trReason = []\<rparr> nl)"
  by (subst stream_logged) (use assms in \<open>auto simp: live_stream_def split: option.split\<close>)

theorem stream_logged_once_witness:
  "let r = \<lparr>rpStatus = 200, rpHeaders = [], rpLength = -1, rpBody = ''abcde'', rpFault = False, rpCancelled = False\<rparr>
   in map trBytes (nlTraces (snd (fold stream_step [Read 2 9 False, Read 9 1 False, Close, Read 9 9 True, Close] (live_stream W ''u'' 0 final r, new_network_log 0)))) = [3]"
proof -
  let ?r = "\<lparr>rpStatus = 200, rpHeaders = [], rpLength = -1, rpBody = ''abcde'', rpFault = False, rpCancelled = False\<rparr>"
  have "in64 (int (length (rpBody ?r)))" by (simp add: in64_def)
  then show ?thesis unfolding Let_def by (subst stream_logged_once) (simp_all add: min_def record_trace_def new_network_log_def)
qed

text \<open>The largest limit wraps, and nothing is read.\<close>

lemma largest_limit_reads_nothing:
  assumes "stLength s \<le> 9223372036854775807"
  shows "bounded_body s fault 9223372036854775807 = Inr []"
proof -
  have "i64 (9223372036854775807 + 1) < 0" by (simp add: i64_def)
  then show ?thesis using assms by (simp add: bounded_body_def Let_def)
qed

end
