(* ===== verification/Net_Session.thy ===== *)
theory Net_Session
  imports Net_Stream
begin

text \<open>
  What holds of the client of \<open>internal/net/http.go\<close> as a whole: when it contacts a server, what a
  failed request leaves behind, when the cache answers in the server's place, and the bounds that
  every history of requests, streams, scripts and closes keeps.
\<close>

subsection \<open>The filter in the client\<close>

definition filtered :: "net_world \<Rightarrow> request_ctx \<Rightarrow> string \<Rightarrow> http_client \<Rightarrow> bool" where
  "filtered W cx url c \<longleftrightarrow>
     (case hcFilter c of None \<Rightarrow> False | Some f \<Rightarrow> feEnabled f \<and> \<not> cxNoShields cx \<and> fst (fst (should_block (filter_host W) url f)))"

lemma should_block_pass: "should_block h s f = ((False, r), f') \<Longrightarrow> f' = f"
  by (auto simp: should_block_def Let_def split: if_splits option.splits)

lemma pass_filter_None:
  assumes "pass_filter W cx meth url now c = (None, c')"
  shows "c' = c \<and> \<not> filtered W cx url c"
proof (cases "hcFilter c")
  case (Some f)
  obtain b r f' where s: "should_block (filter_host W) url f = ((b, r), f')" by (metis prod.exhaust)
  then show ?thesis using assms Some should_block_pass[of "filter_host W" url f r f']
    by (cases b) (auto simp: pass_filter_def filtered_def split: if_splits)
qed (use assms in \<open>simp add: pass_filter_def filtered_def\<close>)

lemma pass_filter_Some:
  assumes "pass_filter W cx meth url now c = (Some reason, c')"
  shows "filtered W cx url c \<and> hcJar c' = hcJar c \<and> hcCache c' = hcCache c
    \<and> hcLog c' = record_trace \<lparr>trURL = url, trMethod = meth, trStatus = 0, trType = [], trBytes = 0, trTime = now, trBlocked = True, trReason = reason\<rparr> (hcLog c)"
  using assms by (auto simp: pass_filter_def filtered_def note_blocked_def split: option.splits if_splits prod.splits)

lemma pass_filter_passes:
  assumes "\<not> filtered W cx url c"
  shows "pass_filter W cx meth url now c = (None, c)"
proof -
  obtain v c1 where p: "pass_filter W cx meth url now c = (v, c1)" by fastforce
  show ?thesis
  proof (cases v)
    case None
    then show ?thesis using p pass_filter_None by blast
  next
    case (Some r)
    then show ?thesis using p pass_filter_Some assms by blast
  qed
qed

lemma filtered_cong: "woUrls W' = woUrls W \<Longrightarrow> cxNoShields cx' = cxNoShields cx \<Longrightarrow> hcFilter c' = hcFilter c \<Longrightarrow> filtered W' cx' url c' = filtered W cx url c"
  by (simp add: filtered_def filter_host_def[abs_def] split: option.split)

subsection \<open>The branches of a request\<close>

text \<open>Every request ends in one of these ways.\<close>

lemma request_cases:
  assumes "request W cx meth raw now c = (res, hops, c')"
  obtains (refused) e where "res = Inl e" "hops = []" "c' = c"
  | (disk) url r where "res = Inr r" "hops = []" "c' = note_trace url meth 200 (header_value (rsHeaders r) ''Content-Type'') (int (length (rsBody r))) now c"
  | (blocked) url reason where "res = Inl (EBlocked reason)" "hops = []" "pass_filter W cx meth url now c = (Some reason, c')"
  | (cached) url r k where "meth = ''GET''" "cache_get url now (hcCache c) = (Some r, k)" "res = Inr r" "hops = []"
      "c' = note_trace url meth 304 (header_value (rsHeaders r) ''Content-Type'') (int (length (rsBody r))) now (c\<lparr>hcCache := k\<rparr>)"
  | (fetched) url u k where "\<not> cxDone cx" "normalize_url (woUrls W) raw = Inr url" "uzParse (woUrls W) url = Some u" "nuScheme u \<noteq> ''file''"
      "\<not> filtered W cx url c" "if meth = ''GET'' then cache_get url now (hcCache c) = (None, k) else k = hcCache c"
      "fetch W meth url u now (c\<lparr>hcCache := k\<rparr>) = (res, hops, c')"
proof -
  consider (over) "cxDone cx" | (bad) e where "\<not> cxDone cx" "normalize_url (woUrls W) raw = Inl e"
    | (lost) url where "\<not> cxDone cx" "normalize_url (woUrls W) raw = Inr url" "uzParse (woUrls W) url = None"
    | (good) url u where "\<not> cxDone cx" "normalize_url (woUrls W) raw = Inr url" "uzParse (woUrls W) url = Some u"
    by (cases "normalize_url (woUrls W) raw") (metis option.exhaust)+
  then show thesis
  proof cases
    case (good url u)
    show thesis
    proof (cases "nuScheme u = ''file''")
      case True
      show thesis
      proof (cases "read_file_url W u")
        case (Inl e)
        then show thesis using assms good True by (intro refused[of "if meth = ''GET'' then e else EFileGet"]) (auto simp: request_def split: if_splits)
      next
        case (Inr r)
        show thesis
        proof (cases "meth = ''GET''")
          case get: True
          then show thesis using assms good True Inr by (intro disk[of r url]) (simp_all add: request_def)
        next
          case nget: False
          then show thesis using assms good True by (intro refused[of EFileGet]) (simp_all add: request_def)
        qed
      qed
    next
      case False
      obtain v c1 where p: "pass_filter W cx meth url now c = (v, c1)" by fastforce
      show thesis
      proof (cases v)
        case (Some reason)
        then show thesis using assms good False p by (intro blocked[of reason url]) (simp_all add: request_def)
      next
        case None
        then have c1: "c1 = c" "\<not> filtered W cx url c" using pass_filter_None p by blast+
        show thesis
        proof (cases "meth = ''GET''")
          case True
          obtain hit k where k: "cache_get url now (hcCache c) = (hit, k)" by fastforce
          show thesis
          proof (cases hit)
            case (Some r)
            then show thesis using assms good False p None c1 True k by (intro cached[of url r k]) (simp_all add: request_def)
          next
            case n: None
            then show thesis using assms good False p None c1 True k by (intro fetched[of url u k]) (simp_all add: request_def)
          qed
        next
          case nget: False
          then show thesis using assms good False p None c1 by (intro fetched[of url u "hcCache c"]) (simp_all add: request_def)
        qed
      qed
    qed
  next
    case over
    then show thesis using assms by (intro refused[of ECancelled]) (simp_all add: request_def)
  next
    case (bad e)
    then show thesis using assms by (intro refused[of e]) (simp_all add: request_def)
  next
    case (lost url)
    then show thesis using assms by (intro refused[of EParse]) (simp_all add: request_def)
  qed
qed

text \<open>What goes out, and what a failure and a success leave.\<close>

lemma fetch_hops:
  assumes "fetch W meth url u now c = (res, hops, c')"
  shows "hops \<noteq> [] \<and> hd hops = first_request W now u c \<and> length hops \<le> 11 \<and> list_all (redirect_ok (woUrls W) (hd hops)) (tl hops)"
proof -
  obtain out where "follow (woUrls W) (woServe W) [] (first_request W now u c) = (hops, out)"
    using assms by (auto simp: fetch_def Let_def split: prod.splits sum.splits if_splits)
  from follow_chain[OF this] show ?thesis by auto
qed

lemma fetch_Inl: "fetch W meth url u now c = (Inl e, hops, c') \<Longrightarrow> c' = c"
  by (auto simp: fetch_def Let_def split: prod.splits sum.splits if_splits)

lemma fetch_Inr:
  assumes "fetch W meth url u now c = (Inr r, hops, c')"
  shows "\<exists>hs ct n. hcJar c' = keep_cookies W now (hpURL (last hops)) hs (hcJar c) \<and> hcFilter c' = hcFilter c
    \<and> hcCache c' = (if meth = ''GET'' then cache_store (woDates W) url r now (hcCache c) else hcCache c)
    \<and> hcLog c' = record_trace \<lparr>trURL = url, trMethod = meth, trStatus = rsStatus r, trType = ct, trBytes = n, trTime = now, trBlocked = False, trReason = []\<rparr> (hcLog c)"
  using assms by (force simp: fetch_def note_trace_def Let_def split: prod.splits sum.splits if_splits)

subsection \<open>When a server is contacted\<close>

text \<open>
  Claim C8: \<open>request\<close> sends something only for an uncancelled request whose address normalises to one
  that is not a file, that the filter lets through, and, for a GET, that the cache holds no fresh
  response for; what it sends first is that address with exactly the cookie header of the jar at that
  time, and what follows are at most ten redirects that stay within the rules for them.
\<close>

theorem request_contacts:
  assumes "request W cx meth raw now c = (res, hops, c')" "hops \<noteq> []"
  shows "\<exists>url u. \<not> cxDone cx \<and> normalize_url (woUrls W) raw = Inr url \<and> uzParse (woUrls W) url = Some u \<and> nuScheme u \<noteq> ''file''
    \<and> \<not> filtered W cx url c \<and> (meth = ''GET'' \<longrightarrow> fst (cache_get url now (hcCache c)) = None)
    \<and> hd hops = \<lparr>hpURL = u, hpCookie = header_for (woShuffle W) now (cookie_url u) (hcJar c)\<rparr>
    \<and> length hops \<le> 11 \<and> list_all (redirect_ok (woUrls W) (hd hops)) (tl hops)"
  using assms(1)
proof (cases rule: request_cases)
  case (fetched url u k)
  have "first_request W now u (c\<lparr>hcCache := k\<rparr>) = \<lparr>hpURL = u, hpCookie = header_for (woShuffle W) now (cookie_url u) (hcJar c)\<rparr>"
    by (simp add: first_request_def)
  moreover have "meth = ''GET'' \<longrightarrow> fst (cache_get url now (hcCache c)) = None" using fetched(6) by auto
  ultimately show ?thesis using fetched(1-5) fetch_hops[OF fetched(7)] by auto
qed (use assms(2) in simp_all)

text \<open>
  A request that fails, whether cancelled, malformed, filtered, refused on a redirect, broken
  off or over 16 MiB, leaves the jar as it was and puts nothing into the cache, and the log as it was
  unless the filter refused it, which is logged once without anything being sent.
\<close>

theorem failed_request_keeps_state:
  assumes "request W cx meth raw now c = (Inl e, hops, c')"
  shows "hcJar c' = hcJar c \<and> set (rcEntries (hcCache c')) \<subseteq> set (rcEntries (hcCache c))
    \<and> (hcLog c' = hcLog c \<or> hops = [] \<and> (\<exists>url reason. e = EBlocked reason
         \<and> hcLog c' = record_trace \<lparr>trURL = url, trMethod = meth, trStatus = 0, trType = [], trBytes = 0, trTime = now, trBlocked = True, trReason = reason\<rparr> (hcLog c)))"
  using assms
proof (cases rule: request_cases)
  case (blocked url reason)
  then show ?thesis using pass_filter_Some[OF blocked(3)] by auto
next
  case (fetched url u k)
  have "set (rcEntries k) \<subseteq> set (rcEntries (hcCache c))"
    using fetched(6) by (auto simp: cache_get_def remove_entry_def drop_order_def AList.delete_eq split: option.splits if_splits)
  then show ?thesis using fetch_Inl[OF fetched(7)] by simp
qed simp_all

text \<open>
  Once a GET has fetched a response that may be kept and fits, the same GET is answered with
  that response until its lifetime has passed and nothing is sent, whatever the server would answer
  by then; the client changes only in its log, by one entry with status 304.
\<close>

theorem cached_get_is_free:
  assumes "cache_good (hcCache c)" "normalize_url (woUrls W) raw = Inr url"
    and "request W cx ''GET'' raw now c = (Inr r, h # hops, c')"
    and "freshness_lifetime (woDates W) r now = Some life" "cacheable_size url r" "t < now + life"
    and "woUrls W' = woUrls W" "\<not> cxDone cx'" "cxNoShields cx' = cxNoShields cx"
  shows "request W' cx' ''GET'' raw t c'
    = (Inr r, [], note_trace url ''GET'' 304 (header_value (rsHeaders r) ''Content-Type'') (int (length (rsBody r))) t c')"
  using assms(3)
proof (cases rule: request_cases)
  case (fetched url2 u k)
  have url: "url2 = url" using fetched(2) assms(2) by simp
  obtain hs ct n where f: "hcFilter c' = hcFilter c" "hcCache c' = cache_store (woDates W) url r now k"
    using fetch_Inr[OF fetched(7)] by (auto simp: url)
  have "cache_good k" using rc.lookup_good'[OF assms(1)] fetched(6) by (simp add: url)
  then have hit: "cache_get url t (hcCache c') = (Some r, hcCache c')" unfolding f(2) by (rule rc.served[OF _ assms(4,5,6)])
  have "\<not> filtered W' cx' url c'" using fetched(5) filtered_cong[OF assms(7,9) f(1)] by (simp add: url)
  then have "pass_filter W' cx' ''GET'' url t c' = (None, c')" by (rule pass_filter_passes)
  then show ?thesis using assms(2,7,8) fetched(3,4) hit by (simp add: request_def url)
qed simp_all

subsection \<open>One site\<close>

definition one_page :: net_world where
  "one_page = \<lparr>woUrls = one_site, woFile = (\<lambda>_. \<lparr>dfDone = False, dfStat = None, dfOpen = False, dfOpened = None, dfBody = [], dfFault = False, dfCancelled = False\<rparr>),
     woType = (\<lambda>_. []), woShuffle = (\<lambda>es. es), woCookieDates = (\<lambda>_. None), woDates = (\<lambda>_. None),
     woServe = (\<lambda>_. Final \<lparr>rpStatus = 200, rpHeaders = [(''Cache-Control'', [''max-age=60''])], rpLength = 1, rpBody = ''x'', rpFault = False, rpCancelled = False\<rparr>)\<rparr>"

definition plain_ctx :: request_ctx where
  "plain_ctx = \<lparr>cxDone = False, cxNoShields = False\<rparr>"

definition got_page :: response where
  "got_page = \<lparr>rsStatus = 200, rsHeaders = [(''Cache-Control'', ''max-age=60'')], rsBody = ''x'', rsURL = ''https://a.example:8443/in''\<rparr>"

lemma got_life: "freshness_lifetime (\<lambda>_. None) got_page now = Some 60000000000"
proof -
  have "rsStatus got_page = rsStatus page" "rsHeaders got_page = rsHeaders page" by (simp_all add: page_def got_page_def)
  then have "freshness_lifetime (\<lambda>_. None) got_page now = freshness_lifetime (\<lambda>_. None) page now" by (simp only: freshness_lifetime_def)
  then show ?thesis by (simp only: page_life)
qed

definition open_client :: http_client where
  "open_client = set_filter (Some new_empty_filter_engine) default_client"

lemma first_get: "\<exists>c'. request one_page plain_ctx ''GET'' ''a.example:8443/in'' 0 open_client
    = (Inr got_page, [\<lparr>hpURL = site, hpCookie = []\<rparr>], c')"
proof -
  have n: "normalize_url (woUrls one_page) ''a.example:8443/in'' = Inr ''https://a.example:8443/in''" using one_site_normal by (simp add: one_page_def)
  have p: "uzParse (woUrls one_page) ''https://a.example:8443/in'' = Some site" by (simp add: one_page_def one_site_def)
  have h: "filter_host one_page ''https://a.example:8443/in'' = Some ''a.example''" unfolding filter_host_def p by code_simp
  have "find_matching_domain ''a.example'' [] = []" "to_lower ''a.example'' = ''a.example''" by code_simp+
  then have "\<not> filtered one_page plain_ctx ''https://a.example:8443/in'' open_client"
    by (simp add: filtered_def open_client_def set_filter_def default_client_def should_block_def new_empty_filter_engine_def h is_domain_matched_def Let_def)
  from pass_filter_passes[OF this] have pf: "pass_filter one_page plain_ctx ''GET'' ''https://a.example:8443/in'' 0 open_client = (None, open_client)" .
  have g: "cache_get ''https://a.example:8443/in'' 0 (hcCache open_client) = (None, hcCache open_client)"
    by (simp add: cache_get_def open_client_def set_filter_def default_client_def new_response_cache_def)
  have s: "nuScheme site \<noteq> ''file''" "uzText one_site site = ''https://a.example:8443/in''" by (simp_all add: site_def one_site_def)
  have f: "first_request one_page 0 site open_client = \<lparr>hpURL = site, hpCookie = []\<rparr>"
    by (simp add: first_request_def header_for_def open_client_def set_filter_def default_client_def new_jar_def one_page_def header_text_def header_order_def)
  have serve: "woServe one_page hs = Final \<lparr>rpStatus = 200, rpHeaders = [(''Cache-Control'', [''max-age=60''])], rpLength = 1, rpBody = ''x'', rpFault = False, rpCancelled = False\<rparr>"
    and urls: "woUrls one_page = one_site" for hs by (simp_all add: one_page_def)
  have sc: "\<not> set_cookie_key ''Cache-Control''" by code_simp
  have "\<exists>c'. fetch one_page ''GET'' ''https://a.example:8443/in'' site 0 open_client = (Inr got_page, [\<lparr>hpURL = site, hpCookie = []\<rparr>], c')"
    by (simp add: fetch_def f follow.simps[of _ _ "[]"] serve urls MaxResponseBytes_def read_bounded_def joined_headers_def sc got_page_def s Let_def)
  then show ?thesis using n p pf g s by (simp add: request_def plain_ctx_def)
qed

theorem request_contacts_witness:
  "\<exists>c' u. request one_page plain_ctx ''GET'' ''a.example:8443/in'' 0 open_client = (Inr got_page, [\<lparr>hpURL = site, hpCookie = []\<rparr>], c')
    \<and> uzParse one_site ''https://a.example:8443/in'' = Some u \<and> \<not> filtered one_page plain_ctx ''https://a.example:8443/in'' open_client \<and> nuScheme u \<noteq> ''file''"
proof -
  obtain c' where r: "request one_page plain_ctx ''GET'' ''a.example:8443/in'' 0 open_client = (Inr got_page, [\<lparr>hpURL = site, hpCookie = []\<rparr>], c')"
    using first_get by blast
  have u: "woUrls one_page = one_site" by (simp add: one_page_def)
  show ?thesis using request_contacts[OF r list.discI[OF refl]] r one_site_normal unfolding u by auto
qed

theorem cached_get_is_free_witness:
  "\<exists>c'. request one_page plain_ctx ''GET'' ''a.example:8443/in'' 0 open_client = (Inr got_page, [\<lparr>hpURL = site, hpCookie = []\<rparr>], c')
    \<and> fst (request (one_page\<lparr>woServe := \<lambda>_. Broken\<rparr>) plain_ctx ''GET'' ''a.example:8443/in'' 59999999999 c') = Inr got_page
    \<and> fst (snd (request (one_page\<lparr>woServe := \<lambda>_. Broken\<rparr>) plain_ctx ''GET'' ''a.example:8443/in'' 59999999999 c')) = []"
proof -
  obtain c' where r: "request one_page plain_ctx ''GET'' ''a.example:8443/in'' 0 open_client = (Inr got_page, [\<lparr>hpURL = site, hpCookie = []\<rparr>], c')"
    using first_get by blast
  have ok: "cache_good (hcCache open_client)" using cache_reach_ok[OF cache_new] by (simp add: cache_good_def open_client_def set_filter_def default_client_def)
  have n: "normalize_url (woUrls one_page) ''a.example:8443/in'' = Inr ''https://a.example:8443/in''" using one_site_normal by (simp add: one_page_def)
  have l: "freshness_lifetime (woDates one_page) got_page 0 = Some 60000000000" using got_life by (simp add: one_page_def)
  have "request (one_page\<lparr>woServe := \<lambda>_. Broken\<rparr>) plain_ctx ''GET'' ''a.example:8443/in'' 59999999999 c'
    = (Inr got_page, [], note_trace ''https://a.example:8443/in'' ''GET'' 304 (header_value (rsHeaders got_page) ''Content-Type'') (int (length (rsBody got_page))) 59999999999 c')"
    by (rule cached_get_is_free[OF ok n r l]) (simp_all add: cacheable_size_def got_page_def maxCacheBytes_def plain_ctx_def)
  with r show ?thesis by auto
qed

theorem failed_request_keeps_state_witness:
  "request one_page (plain_ctx\<lparr>cxDone := True\<rparr>) ''GET'' ''x'' 0 open_client = (Inl ECancelled, [], open_client)
    \<and> hcJar (snd (snd (request one_page (plain_ctx\<lparr>cxDone := True\<rparr>) ''GET'' ''x'' 0 open_client))) = new_jar"
proof -
  have r: "request one_page (plain_ctx\<lparr>cxDone := True\<rparr>) ''GET'' ''x'' 0 open_client = (Inl ECancelled, [], open_client)"
    by (simp add: request_def)
  show ?thesis using failed_request_keeps_state[OF r] r by (simp add: cache_good_def open_client_def set_filter_def default_client_def)
qed

subsection \<open>Histories of a client\<close>

inductive client_reach :: "http_client \<Rightarrow> bool" where
  ordinary: "client_reach default_client"
| ephemeral: "client_reach default_private_client"
| persistent: "rearranges (woShuffle W) \<Longrightarrow> rearranges pick \<Longrightarrow>
    \<forall>p\<in>set ps. nul \<notin> set (psDomain p) \<and> (psHostOnly p \<or> contains_str (psDomain p) ''.'') \<Longrightarrow>
    default_client_with_cookies W pick now path (Some ps) = Some c \<Longrightarrow> client_reach c"
| requested: "client_reach c \<Longrightarrow> rearranges (woShuffle W) \<Longrightarrow> request W cx meth raw now c = (res, hops, c') \<Longrightarrow>
    \<forall>h\<in>set hops. nul \<notin> set (host_name (hpURL h)) \<Longrightarrow> client_reach c'"
| streamed: "client_reach c \<Longrightarrow> rearranges (woShuffle W) \<Longrightarrow> get_stream W cx raw now c = (sr, hops, c') \<Longrightarrow>
    \<forall>h\<in>set hops. nul \<notin> set (host_name (hpURL h)) \<Longrightarrow> client_reach c'"
| stream_used: "client_reach c \<Longrightarrow> client_reach (c\<lparr>hcLog := snd (stream_step op (s, hcLog c))\<rparr>)"
| scripted: "client_reach c \<Longrightarrow> rearranges shuffle \<Longrightarrow> nul \<notin> set (urHost u) \<Longrightarrow>
    client_reach (c\<lparr>hcJar := set_from_document shuffle dates now (Some u) raw (hcJar c)\<rparr>)"
| filtered_by: "client_reach c \<Longrightarrow> client_reach (set_filter f c)"
| log_cleared: "client_reach c \<Longrightarrow> client_reach (c\<lparr>hcLog := clear_traces (hcLog c)\<rparr>)"
| closed: "client_reach c \<Longrightarrow> close_client W now saves c = (good, sv, c') \<Longrightarrow> client_reach c'"

text \<open>The parts of the bound, each kept by its part of the client.\<close>

definition log_ok :: "network_log \<Rightarrow> bool" where
  "log_ok nl \<longleftrightarrow> nlMax nl = 200 \<and> length (nlTraces nl) \<le> 200"

definition client_ok :: "http_client \<Rightarrow> bool" where
  "client_ok c \<longleftrightarrow> (\<exists>H. jar_reach H (hcJar c)) \<and> cache_good (hcCache c) \<and> log_ok (hcLog c)"

lemma record_log_ok: "log_ok nl \<Longrightarrow> log_ok (record_trace t nl)"
  by (auto simp: log_ok_def record_trace_def Let_def)

lemma note_trace_ok: "client_ok c \<Longrightarrow> client_ok (note_trace url meth status ct n now c)"
  by (simp add: client_ok_def note_trace_def record_log_ok)

lemma keep_cookies_reach:
  assumes "jar_reach H j" "rearranges (woShuffle W)" "nul \<notin> set (host_name u)"
  shows "\<exists>H'. jar_reach H' (keep_cookies W now u hs j)"
  using assms(1)
proof (induction hs arbitrary: H j)
  case (Cons kv hs)
  obtain k vs where kv: "kv = (k, vs)" by (cases kv)
  show ?case
  proof (cases "set_cookie_key k")
    case True
    have "nul \<notin> set (urHost (cookie_url u))" using assms(3) by (simp add: cookie_url_def)
    from Cons.IH[OF jar_reach.response[OF Cons.prems assms(2) this]] show ?thesis using True by (simp add: keep_cookies_def kv)
  next
    case False
    then show ?thesis using Cons.IH[OF Cons.prems] by (simp add: keep_cookies_def kv)
  qed
qed (auto simp: keep_cookies_def)

lemma last_clean: "fetch W meth url u now c = (res, hops, c') \<Longrightarrow> \<forall>h\<in>set hops. nul \<notin> set (host_name (hpURL h)) \<Longrightarrow> nul \<notin> set (host_name (hpURL (last hops)))"
  using fetch_hops last_in_set by blast

lemma fetch_ok:
  assumes "client_ok c" "rearranges (woShuffle W)" "fetch W meth url u now c = (res, hops, c')" "\<forall>h\<in>set hops. nul \<notin> set (host_name (hpURL h))"
  shows "client_ok c'"
proof (cases res)
  case (Inl e)
  then show ?thesis using fetch_Inl assms(1,3) by blast
next
  case (Inr r)
  obtain H where H: "jar_reach H (hcJar c)" using assms(1) by (auto simp: client_ok_def)
  from fetch_Inr assms(3) Inr obtain hs ct n where f: "hcJar c' = keep_cookies W now (hpURL (last hops)) hs (hcJar c)"
    "hcCache c' = (if meth = ''GET'' then cache_store (woDates W) url r now (hcCache c) else hcCache c)"
    "hcLog c' = record_trace \<lparr>trURL = url, trMethod = meth, trStatus = rsStatus r, trType = ct, trBytes = n, trTime = now, trBlocked = False, trReason = []\<rparr> (hcLog c)"
    by blast
  have "\<exists>H'. jar_reach H' (hcJar c')" unfolding f(1) by (rule keep_cookies_reach[OF H assms(2) last_clean[OF assms(3,4)]])
  then show ?thesis using assms(1) f(2,3) by (simp add: client_ok_def rc.keep_good record_log_ok)
qed

lemma pass_filter_ok: "client_ok c \<Longrightarrow> pass_filter W cx meth url now c = (v, c') \<Longrightarrow> client_ok c'"
  using pass_filter_None[of W cx meth url now c c'] pass_filter_Some[of W cx meth url now c _ c']
  by (cases v) (auto simp: client_ok_def record_log_ok)

lemma request_ok:
  assumes "client_ok c" "rearranges (woShuffle W)" "request W cx meth raw now c = (res, hops, c')" "\<forall>h\<in>set hops. nul \<notin> set (host_name (hpURL h))"
  shows "client_ok c'"
  using assms(3)
proof (cases rule: request_cases)
  case (blocked url reason)
  then show ?thesis using pass_filter_ok assms(1) by blast
next
  case (cached url r k)
  have "client_ok (c\<lparr>hcCache := k\<rparr>)" using assms(1) rc.lookup_good'[OF _ cached(2)] by (simp add: client_ok_def)
  then show ?thesis by (simp add: cached(5) note_trace_ok)
next
  case (fetched url u k)
  have "cache_good k" using assms(1) fetched(6) rc.lookup_good'[of "hcCache c" url now None k] by (auto simp: client_ok_def split: if_splits)
  then have "client_ok (c\<lparr>hcCache := k\<rparr>)" using assms(1) by (simp add: client_ok_def)
  then show ?thesis using fetch_ok assms(2,4) fetched(7) by blast
qed (use assms(1) in \<open>simp_all add: note_trace_ok\<close>)

lemma stream_op_log: "log_ok nl \<Longrightarrow> log_ok (snd (stream_step op (s, nl)))"
  by (cases op) (auto simp: read_stream_def close_stream_def record_stream_def record_log_ok Let_def split: option.split)

lemma get_stream_ok:
  assumes "client_ok c" "rearranges (woShuffle W)" "get_stream W cx raw now c = (sr, hops, c')" "\<forall>h\<in>set hops. nul \<notin> set (host_name (hpURL h))"
  shows "client_ok c'"
proof -
  consider (kept) "c' = c"
    | (passed) url u where "normalize_url (woUrls W) raw = Inr url" "uzParse (woUrls W) url = Some u" "\<not> cxDone cx" "nuScheme u = ''http'' \<or> nuScheme u = ''https''"
    using assms(3) unfolding get_stream_def by (cases "normalize_url (woUrls W) raw") (auto split: if_splits option.splits)
  then show ?thesis
  proof cases
    case kept
    then show ?thesis using assms(1) by simp
  next
    case (passed url u)
    obtain v c1 where p: "pass_filter W cx ''GET'' url now c = (v, c1)" by fastforce
    obtain hit k where k: "cache_get url now (hcCache c1) = (hit, k)" by fastforce
    obtain out sent where f: "follow (woUrls W) (woServe W) [] (first_request W now u (c1\<lparr>hcCache := k\<rparr>)) = (sent, out)" by fastforce
    have c1: "client_ok c1" using pass_filter_ok assms(1) p by blast
    then have ck: "client_ok (c1\<lparr>hcCache := k\<rparr>)" using rc.lookup_good'[OF _ k] by (simp add: client_ok_def)
    show ?thesis
    proof (cases v)
      case (Some reason)
      then show ?thesis using assms(3) passed p c1 by (auto simp: get_stream_def)
    next
      case v: None
      show ?thesis
      proof (cases hit)
        case (Some r)
        then show ?thesis using assms(3) passed p v k note_trace_ok[OF ck] by (auto simp: get_stream_def)
      next
        case hit: None
        show ?thesis
        proof (cases out)
          case (Inl e)
          then show ?thesis using assms(3) passed p v k hit f ck by (auto simp: get_stream_def Let_def)
        next
          case (Inr r)
          then have c': "c' = c1\<lparr>hcCache := k, hcJar := keep_cookies W now (hpURL (last sent)) (rpHeaders r) (hcJar c1)\<rparr>" "hops = sent"
            using assms(3) passed p v k hit f by (auto simp: get_stream_def Let_def)
          obtain H where H: "jar_reach H (hcJar c1)" using c1 by (auto simp: client_ok_def)
          have "sent \<noteq> []" using follow_chain[OF f] by auto
          then have "nul \<notin> set (host_name (hpURL (last sent)))" using assms(4) c'(2) by simp
          from keep_cookies_reach[OF H assms(2) this] show ?thesis using ck by (simp add: client_ok_def c'(1))
        qed
      qed
    qed
  qed
qed

lemma new_client_ok: "client_ok default_client" "client_ok default_private_client"
  using cache_reach_ok[OF cache_new] jar_reach.empty
  by (auto simp: client_ok_def cache_good_def log_ok_def new_network_log_def default_client_def default_private_client_def)

lemma client_reach_ok: "client_reach c \<Longrightarrow> client_ok c"
proof (induction rule: client_reach.induct)
  case (persistent W pick ps now path c)
  have "jar_reach ({} \<union> psDomain ` set ps) (load (woShuffle W) pick now ps new_jar)"
    by (rule from_disk[OF jar_reach.empty persistent(1,2)]) (use persistent(3) in auto)
  moreover have "c = default_client\<lparr>hcJar := load (woShuffle W) pick now ps new_jar, hcPersist := path\<rparr>"
    using persistent(4) by (simp add: default_client_with_cookies_def default_client_def)
  ultimately show ?case using new_client_ok(1) by (auto simp: client_ok_def)
next
  case (requested c W cx meth raw now res hops c')
  then show ?case by (blast intro: request_ok)
next
  case (streamed c W cx raw now sr hops c')
  then show ?case by (blast intro: get_stream_ok)
next
  case (stream_used c op s)
  then show ?case by (simp add: client_ok_def stream_op_log)
next
  case (scripted c shuffle u dates now raw)
  then obtain H where "jar_reach H (hcJar c)" by (auto simp: client_ok_def)
  from jar_reach.script[OF this scripted(2,3)] show ?case using scripted by (auto simp: client_ok_def)
next
  case (log_cleared c)
  then show ?case by (simp add: client_ok_def clear_traces_def log_ok_def)
next
  case (closed c W now saves good sv c')
  then obtain H where "jar_reach H (hcJar c)" by (auto simp: client_ok_def)
  then have "jar_reach H (clear_jar (hcJar c))" by (rule jar_reach.clear)
  then show ?case using closed by (auto simp: client_ok_def close_client_def Let_def split: if_splits)
qed (simp_all add: new_client_ok, simp add: client_ok_def set_filter_def)

text \<open>
  Claim C15: after any history of requests and streams against any servers, with any contexts and
  filters, of scripts setting cookies, reads, closes and saved jars loaded at the start, the client holds
  at most 3000 cookies and 50 for any host, at most 64 MiB of responses, each one that may be kept,
  and at most 200 log entries.
\<close>

theorem client_keeps_bounds:
  assumes "client_reach c"
  shows "within_limits (hcJar c) \<and> rcBytes (hcCache c) = sizes (rcEntries (hcCache c)) \<and> rcBytes (hcCache c) \<le> maxCacheBytes
    \<and> (\<forall>(k, e)\<in>set (rcEntries (hcCache c)). storable e) \<and> length (nlTraces (hcLog c)) \<le> 200"
  using client_reach_ok[OF assms] jar_reach_limits booksD[of "rcOrder (hcCache c)" "rcEntries (hcCache c)" "rcBytes (hcCache c)"]
  by (auto simp: client_ok_def cache_good_def cache_ok_def log_ok_def)

theorem client_keeps_bounds_witness:
  "\<exists>c'. client_reach c' \<and> nlTraces (hcLog c') \<noteq> [] \<and> rcBytes (hcCache c') \<le> maxCacheBytes"
proof -
  obtain c' where r: "request one_page plain_ctx ''GET'' ''a.example:8443/in'' 0 open_client = (Inr got_page, [\<lparr>hpURL = site, hpCookie = []\<rparr>], c')"
    using first_get by blast
  have h: "nul \<notin> set (host_name site)" by code_simp
  have w: "rearranges (woShuffle one_page)" by (simp add: one_page_def rearranges_def)
  have "client_reach c'" by (rule requested[OF _ w r]) (use h filtered_by[OF ordinary] in \<open>simp_all add: open_client_def\<close>)
  moreover have "nlTraces (hcLog c') \<noteq> []" using r by (cases rule: request_cases) (auto simp: note_trace_def record_trace_def Let_def dest: fetch_Inr)
  ultimately show ?thesis using client_keeps_bounds[of c'] by blast
qed

subsection \<open>Cookies and redirects\<close>

text \<open>
  A cookie for one host only goes along when that host redirects to a subdomain, although the jar
  would not send it there, and what a redirect sets never reaches the jar.
\<close>

lemma host_only_cookie_follows:
  assumes "host_name a = ''a.example''" "host_name b = ''b.a.example''" "coHostOnly k" "coDomain k = ''a.example''"
  shows "forwards_cookie a b \<and> \<not> sendable now (cookie_url b) k"
proof -
  have "to_lower ''b.a.example'' = ''b.a.example''" "to_lower ''a.example'' = ''a.example''" by code_simp+
  then show ?thesis using assms by (simp add: forwards_cookie_def sendable_def cookie_url_def suffix_def)
qed

lemma redirect_cookies_dropped:
  "follow E (\<lambda>hs. case serve hs of Redirect u cs \<Rightarrow> Redirect u [] | a \<Rightarrow> a) via req = follow E serve via req"
proof (induction E serve via req rule: follow.induct)
  case (1 E serve via req)
  show ?case
  proof (cases "serve (via @ [req])")
    case (Redirect u cs)
    show ?thesis
    proof (cases "check_redirect E u (via @ [req])")
      case None
      show ?thesis using 1[OF refl Redirect None] by (simp only: follow.simps[of E _ via req] Let_def Redirect server_answer.case None option.case)
    qed (simp add: follow.simps[of E _ via req] Let_def Redirect)
  qed (simp_all add: follow.simps[of E _ via req] Let_def)
qed

end
