(* ===== verification/Download_Names.thy ===== *)
theory Download_Names
  imports Go_Strings
begin

text \<open>
  \<open>internal/download/download.go\<close>: what is saved instead of rendered, and under which name.
  \<open>url_path\<close> is the path \<open>url.Parse\<close> finds in an address, and \<open>path_base\<close> is \<open>path.Base\<close>.
\<close>

subsection \<open>Deciding\<close>

definition should_download :: "string \<Rightarrow> string \<Rightarrow> bool" where
  "should_download content_type disposition =
     (if contains_str (to_lower disposition) ''attachment'' then True
      else let ct = to_lower (trim_space content_type);
               ct = (if CHR '';'' \<in> set ct then trim_space (fst (cut_at (CHR '';'') ct)) else ct)
           in if ct \<in> {''text/html'', ''application/xhtml+xml'', ''text/plain''} then False
              else if ct = [] then False else True)"

subsection \<open>Naming\<close>

definition path_separator :: "char \<Rightarrow> bool" where
  "path_separator c \<longleftrightarrow> c = CHR ''/'' \<or> char_code c = 92"

text \<open>The last of the fields between separators, empty when there is none.\<close>

definition last_field :: "string \<Rightarrow> string" where
  "last_field s = rev (takeWhile (\<lambda>c. \<not> path_separator c) (dropWhile path_separator (rev s)))"

definition sanitize :: "string \<Rightarrow> string" where
  "sanitize name = last_field (filter (\<lambda>c. \<not> char_code c < 32) name)"

fun disposition_param :: "string list \<Rightarrow> string" where
  "disposition_param [] = []"
| "disposition_param (part # parts) =
     (let part = trim_space part
      in if prefix ''filename='' part then trim_set [CHR 0x22] (drop (length ''filename='') part) else disposition_param parts)"

text \<open>\<open>path.Base\<close>: the last element, without trailing slashes.\<close>

definition path_base :: "string \<Rightarrow> string" where
  "path_base p =
     (if p = [] then ''.''
      else let p = rev (dropWhile (\<lambda>c. c = CHR ''/'') (rev p)); p = rev (takeWhile (\<lambda>c. c \<noteq> CHR ''/'') (rev p))
           in if p = [] then ''/'' else p)"

definition file_name :: "(string \<Rightarrow> string option) \<Rightarrow> string \<Rightarrow> string \<Rightarrow> string" where
  "file_name url_path disposition raw =
     (let name = sanitize (disposition_param (split_by (CHR '';'') disposition))
      in if name \<noteq> [] then name
         else case url_path raw of
                None \<Rightarrow> ''download''
              | Some p \<Rightarrow>
                  let base = path_base p; name = sanitize base
                  in if base \<noteq> [] \<and> base \<noteq> ''/'' \<and> base \<noteq> ''.'' \<and> name \<noteq> [] then name else ''download'')"

subsection \<open>Numbering\<close>

fun decimal :: "nat \<Rightarrow> string" where
  "decimal n = (if n < 10 then [char_of (48 + n)] else decimal (n div 10) @ [char_of (48 + n mod 10)])"

declare decimal.simps [simp del]

text \<open>\<open>filepath.Ext\<close>: from the last dot of the last element.\<close>

definition file_ext :: "string \<Rightarrow> string" where
  "file_ext s =
     (let seg = rev (takeWhile (\<lambda>c. c \<noteq> CHR ''/'') (rev s))
      in case last_index (CHR ''.'') seg of None \<Rightarrow> [] | Some i \<Rightarrow> drop i seg)"

text \<open>The names that are tried: the name itself, then with (1) to (999) before its extension.\<close>

definition numbered :: "string \<Rightarrow> nat \<Rightarrow> string" where
  "numbered name i =
     (let ext = file_ext name; base = (if ext = [] then name else trim_suffix ext name)
      in if i = 0 then name else base @ '' ('' @ decimal i @ '')'' @ ext)"

definition saved_name :: "string \<Rightarrow> string" where
  "saved_name name = (if name = [] then ''download'' else name)"

subsection \<open>What a name can be\<close>

definition one_component :: "string \<Rightarrow> bool" where
  "one_component s \<longleftrightarrow> s \<noteq> [] \<and> (\<forall>c\<in>set s. 32 \<le> char_code c \<and> \<not> path_separator c)"

lemma sanitize_component: "sanitize s \<noteq> [] \<Longrightarrow> one_component (sanitize s)"
proof -
  let ?t = "rev (filter (\<lambda>c. \<not> char_code c < 32) s)"
  have "32 \<le> char_code c \<and> \<not> path_separator c" if c: "c \<in> set (sanitize s)" for c
  proof -
    have t: "c \<in> set (takeWhile (\<lambda>c. \<not> path_separator c) (dropWhile path_separator ?t))" using c by (simp add: sanitize_def last_field_def)
    then have "c \<in> set ?t" using set_takeWhileD set_dropWhileD by fast
    then show ?thesis using set_takeWhileD[OF t] by (simp add: not_less)
  qed
  then show "sanitize s \<noteq> [] \<Longrightarrow> one_component (sanitize s)" by (simp add: one_component_def)
qed

lemma file_name_component: "one_component (file_name url_path disposition raw)"
proof -
  have "one_component ''download''" by code_simp
  then show ?thesis using sanitize_component by (auto simp: file_name_def Let_def split: option.split)
qed

lemma digits_value_append: "digits_value (ds @ [c]) = digits_value ds * 10 + (int (char_code c) - 48)"
  by (simp add: digits_value_def)

lemma digits_decimal: "digits_value (decimal n) = int n"
proof (induction n rule: decimal.induct)
  case (1 n)
  have d: "int (char_code (char_of (48 + k))) - 48 = int k" if "k < 10" for k :: nat
    using that by (simp add: char_code_def)
  show ?case
  proof (cases "n < 10")
    case True
    then show ?thesis using d[of n] by (simp add: decimal.simps[of n] digits_value_def)
  next
    case False
    have "int (n div 10) * 10 + int (n mod 10) = int n" by presburger
    then show ?thesis using 1[OF False] d[of "n mod 10"] False by (simp add: decimal.simps[of n] digits_value_append)
  qed
qed

lemma decimal_inject: "decimal m = decimal n \<longleftrightarrow> m = n"
  by (metis digits_decimal of_nat_eq_iff)

lemma decimal_digits: "c \<in> set (decimal n) \<Longrightarrow> digit_char c"
proof (induction n rule: decimal.induct)
  case (1 n)
  have d: "digit_char (char_of (48 + k))" if "k < 10" for k :: nat using that by (simp add: digit_char_def char_code_def)
  show ?case using 1 d[of n] d[of "n mod 10"] by (auto simp: decimal.simps[of n] split: if_splits)
qed

text \<open>The candidates differ from each other and stay one component.\<close>

lemma numbered_distinct:
  assumes "numbered name i = numbered name j" "i > 0" "j > 0"
  shows "i = j"
  using assms by (simp add: numbered_def Let_def decimal_inject)

lemma file_ext_suffix: "suffix (file_ext s) s"
proof -
  have "suffix (rev (takeWhile (\<lambda>c. c \<noteq> CHR ''/'') (rev s))) s"
    by (metis rev_rev_ident suffix_to_prefix takeWhile_is_prefix)
  moreover have "suffix (drop i t) t" for i :: nat and t :: string by (rule suffix_drop)
  ultimately show ?thesis by (auto simp: file_ext_def Let_def split: option.split intro: suffix_order.trans)
qed

lemma numbered_component: "one_component name \<Longrightarrow> one_component (numbered name i)"
proof -
  assume n: "one_component name"
  have sub: "set (trim_suffix e name) \<subseteq> set name" for e by (auto simp: trim_suffix_def dest: in_set_takeD)
  have ext: "set (file_ext name) \<subseteq> set name" using file_ext_suffix set_mono_suffix by blast
  have p: "\<forall>c\<in>set '' (''. 32 \<le> char_code c \<and> \<not> path_separator c" "\<forall>c\<in>set '')''. 32 \<le> char_code c \<and> \<not> path_separator c" by code_simp+
  have d: "32 \<le> char_code c \<and> \<not> path_separator c" if "digit_char c" for c
  proof -
    have "c \<noteq> CHR ''/''"
    proof
      assume "c = CHR ''/''"
      moreover have "\<not> digit_char (CHR ''/'')" by code_simp
      ultimately show False using that by simp
    qed
    then show ?thesis using that by (simp add: digit_char_def path_separator_def)
  qed
  show ?thesis using n sub ext p d decimal_digits by (fastforce simp: one_component_def numbered_def Let_def)
qed

text \<open>A name can still be the directory above.\<close>

lemma dot_dot_is_a_name: "file_name url_path ''attachment; filename=..'' raw = ''..''"
proof -
  have "disposition_param (split_by (CHR '';'') ''attachment; filename=..'') = ''..''" "sanitize ''..'' = ''..''" by code_simp+
  then show ?thesis by (simp add: file_name_def)
qed

end
