(* ===== verification/Download_Files.thy ===== *)
theory Download_Files
  imports Download_Names
begin

text \<open>
  \<open>internal/download/download.go\<close>: writing a response to disk. A disk maps paths to what is there; the
  record \<open>disk_env\<close> says how the operating system answers a call: the folders on the way to the one that
  is written in (outermost first, that one last), the name it gives a temporary file (one that is not
  there yet), and which calls fail; making a folder and removing a file may fail too. A body is the
  list of its reads, each with what the write of its bytes did, and how it ends; a context that is
  done at one check stays done. Nobody else writes to the disk meanwhile.
\<close>

subsection \<open>The disk\<close>

datatype disk_entry = File string | Folder

type_synonym disk = "string \<Rightarrow> disk_entry option"

datatype save_error = SMissing | SNoPath | SNoFile | SMkdir | STemp | SCancelled | SDeadline | SWrite | SShort | SRead | SSync | SChmod | SClose | SLink | SRename | SNoName

text \<open>What a context that is done reports, and how a read can fail: with such an error or with another one.\<close>

datatype ctx_err = Context_Canceled | Deadline_Exceeded

datatype read_fault = From_Context ctx_err | Broken

fun ctx_error :: "ctx_err \<Rightarrow> save_error" where
  "ctx_error Context_Canceled = SCancelled"
| "ctx_error Deadline_Exceeded = SDeadline"

fun fault_error :: "read_fault \<Rightarrow> save_error" where
  "fault_error (From_Context c) = ctx_error c"
| "fault_error Broken = SRead"

record disk_env =
  deDirs :: "string list"
  deMkdir :: "string \<Rightarrow> bool"
  deTemp :: "string option"
  deSync :: bool
  deChmod :: bool
  deClose :: bool
  deLink :: "string \<Rightarrow> bool"
  deRename :: bool
  deRemove :: "string \<Rightarrow> bool"

text \<open>\<open>os.MkdirAll\<close>: each missing folder in turn, until one cannot be made; what was made stays.\<close>

fun mkdir_all :: "(string \<Rightarrow> bool) \<Rightarrow> string list \<Rightarrow> disk \<Rightarrow> disk \<times> bool" where
  "mkdir_all may [] d = (d, True)"
| "mkdir_all may (p # ps) d =
     (case d p of
        Some Folder \<Rightarrow> mkdir_all may ps d
      | Some (File x) \<Rightarrow> (d, False)
      | None \<Rightarrow> if may p then mkdir_all may ps (d(p \<mapsto> Folder)) else (d, False))"

text \<open>\<open>os.Remove\<close>, whose error the code ignores.\<close>

definition remove_file :: "disk_env \<Rightarrow> string \<Rightarrow> disk \<Rightarrow> disk" where
  "remove_file E p d = (if deRemove E p then d(p := None) else d)"

text \<open>
  One turn of the copying loop: whether the context is done before the read, the bytes read, how many
  of them the write takes and whether it fails. A read with bytes that is the last one too is that
  read and an end of which the context is not done before.
\<close>

record body_read =
  brDone :: "ctx_err option"
  brData :: string
  brWrote :: nat
  brFails :: bool

text \<open>How the reads end: whether the context is done before the last one, its error if it is not the end, and whether the context is done after.\<close>

record body_end =
  beDone :: "ctx_err option"
  beFault :: "read_fault option"
  beLate :: "ctx_err option"

type_synonym body = "body_read list \<times> body_end"

subsection \<open>Copying\<close>

text \<open>The loop of \<open>writeStreamTemp\<close>: what the file holds, the byte count, the progress reported, and the error if any.\<close>

fun copy_body :: "body_read list \<Rightarrow> body_end \<Rightarrow> string \<Rightarrow> int \<Rightarrow> int list \<Rightarrow> string \<times> int \<times> int list \<times> save_error option" where
  "copy_body [] fin held tot told =
     (held, tot, told,
      (case beDone fin of
         Some c \<Rightarrow> Some (ctx_error c)
       | None \<Rightarrow> (case beFault fin of Some f \<Rightarrow> Some (fault_error f) | None \<Rightarrow> map_option ctx_error (beLate fin))))"
| "copy_body (r # rs) fin held tot told =
     (if brDone r \<noteq> None then (held, tot, told, map_option ctx_error (brDone r))
      else if brData r = [] then copy_body rs fin held tot told
      else let put = take (brWrote r) (brData r); tot = i64 (tot + int (length put))
           in if brFails r then (held @ put, tot, told, Some SWrite)
              else if length put \<noteq> length (brData r) then (held @ put, tot, told, Some SShort)
              else copy_body rs fin (held @ put) tot (told @ [tot]))"

definition write_stream_temp :: "disk_env \<Rightarrow> body \<Rightarrow> disk \<Rightarrow> disk \<times> int list \<times> int \<times> (save_error + string)" where
  "write_stream_temp E src d =
     (case mkdir_all (deMkdir E) (deDirs E) d of
        (d, False) \<Rightarrow> (d, [], 0, Inl SMkdir)
      | (d, True) \<Rightarrow>
          (case deTemp E of
             None \<Rightarrow> (d, [], 0, Inl STemp)
           | Some tmp \<Rightarrow>
               (case copy_body (fst src) (snd src) [] 0 [] of
                  (held, tot, told, Some e) \<Rightarrow> (remove_file E tmp (d(tmp \<mapsto> File held)), told, tot, Inl e)
                | (held, tot, told, None) \<Rightarrow>
                    (let d = d(tmp \<mapsto> File held)
                     in if \<not> deSync E then (remove_file E tmp d, told, tot, Inl SSync)
                        else if \<not> deChmod E then (remove_file E tmp d, told, tot, Inl SChmod)
                        else if \<not> deClose E then (remove_file E tmp d, told, tot, Inl SClose)
                        else (d, told, tot, Inr tmp)))))"

subsection \<open>Saving\<close>

definition candidates :: "nat list" where "candidates = [0..<1000]"

lemma candidates_nth [simp]: "length candidates = 1000" "i < 1000 \<Longrightarrow> candidates ! i = i"
  by (simp_all add: candidates_def del: upt_rec_numeral)

lemma candidates_three: "candidates = 0 # 1 # 2 # [3..<1000]"
proof -
  have "candidates = [0..<3] @ [3..<1000]" unfolding candidates_def using upt_add_eq_append[of 0 3 997] by (simp del: upt_rec_numeral)
  moreover have "[0..<3] = [0, 1, 2 :: nat]" by code_simp
  ultimately show ?thesis by simp
qed

text \<open>The loop of \<open>SaveStream\<close> over the candidates: linking fails where something is, or for another reason.\<close>

fun link_first :: "disk_env \<Rightarrow> (string \<Rightarrow> string) \<Rightarrow> string \<Rightarrow> nat list \<Rightarrow> string \<Rightarrow> disk \<Rightarrow> disk \<times> (save_error + string)" where
  "link_first E path name [] tmp d = (d, Inl SNoName)"
| "link_first E path name (i # is) tmp d =
     (let full = path (numbered name i)
      in if d full \<noteq> None then link_first E path name is tmp d
         else if \<not> deLink E full then (d, Inl SLink)
         else (d(full := d tmp), Inr full))"

definition save_stream :: "disk_env \<Rightarrow> (string \<Rightarrow> string) \<Rightarrow> string \<Rightarrow> body option \<Rightarrow> disk \<Rightarrow> disk \<times> int list \<times> int \<times> (save_error + string)" where
  "save_stream E path name src d =
     (case src of
        None \<Rightarrow> (d, [], 0, Inl SMissing)
      | Some body \<Rightarrow>
          (let name = saved_name (sanitize name)
           in case write_stream_temp E body d of
                (d, told, tot, Inl e) \<Rightarrow> (d, told, tot, Inl e)
              | (d, told, tot, Inr tmp) \<Rightarrow>
                  (case link_first E path name candidates tmp d of (d, res) \<Rightarrow> (remove_file E tmp d, told, tot, res))))"

text \<open>\<open>SaveStreamTo\<close>: \<open>target\<close> is the absolute path and its last element, when there is one.\<close>

definition save_stream_to :: "disk_env \<Rightarrow> (string \<Rightarrow> (string \<times> string) option) \<Rightarrow> ctx_err option \<Rightarrow> string \<Rightarrow> body option \<Rightarrow> disk \<Rightarrow> disk \<times> int list \<times> int \<times> save_error option" where
  "save_stream_to E absolute done_late target src d =
     (case src of
        None \<Rightarrow> (d, [], 0, Some SMissing)
      | Some body \<Rightarrow>
          if trim_space target = [] then (d, [], 0, Some SNoPath)
          else case absolute target of
                 None \<Rightarrow> (d, [], 0, Some SNoPath)
               | Some (dest, base) \<Rightarrow>
                   if base = ''.'' \<or> base = ''/'' \<or> base = [] then (d, [], 0, Some SNoFile)
                   else case write_stream_temp E body d of
                          (d, told, tot, Inl e) \<Rightarrow> (d, told, tot, Some e)
                        | (d, told, tot, Inr tmp) \<Rightarrow>
                            (case done_late of
                               Some c \<Rightarrow> (remove_file E tmp d, told, tot, Some (ctx_error c))
                             | None \<Rightarrow>
                                 if \<not> deRename E \<or> d dest = Some Folder then (remove_file E tmp d, told, tot, Some SRename)
                                 else ((d(dest := d tmp))(tmp := None), told, tot, None)))"

text \<open>
  \<open>Save\<close>: the first candidate with nothing there is written. The write may fail before the file is
  there, or with a part of the bytes in it.
\<close>

datatype write_outcome = Wrote_All | Wrote_Only nat | Wrote_Nothing

fun first_free :: "(string \<Rightarrow> string) \<Rightarrow> string \<Rightarrow> nat list \<Rightarrow> disk \<Rightarrow> string option" where
  "first_free path name [] d = None"
| "first_free path name (i # is) d = (if d (path (numbered name i)) = None then Some (path (numbered name i)) else first_free path name is d)"

definition save_file :: "disk_env \<Rightarrow> (string \<Rightarrow> string) \<Rightarrow> write_outcome \<Rightarrow> string \<Rightarrow> string \<Rightarrow> disk \<Rightarrow> disk \<times> (save_error + string) \<times> bool" where
  "save_file E path writes name body d =
     (case mkdir_all (deMkdir E) (deDirs E) d of
        (d, False) \<Rightarrow> (d, Inl SMkdir, False)
      | (d, True) \<Rightarrow>
          (case first_free path (saved_name name) candidates d of
             None \<Rightarrow> (d, Inl SNoName, False)
           | Some full \<Rightarrow>
               (case writes of
                  Wrote_All \<Rightarrow> (d(full \<mapsto> File body), Inr full, True)
                | Wrote_Only n \<Rightarrow> (d(full \<mapsto> File (take n body)), Inr full, False)
                | Wrote_Nothing \<Rightarrow> (d, Inr full, False))))"

subsection \<open>What copying does\<close>

definition body_bytes :: "body_read list \<Rightarrow> string" where
  "body_bytes rs = concat (map brData rs)"

lemma copy_body_success:
  assumes "copy_body rs fin held tot told = (h, n, p, None)" "0 \<le> tot" "in64 (tot + int (length (body_bytes rs)))"
  shows "h = held @ body_bytes rs \<and> n = tot + int (length (body_bytes rs)) \<and> beDone fin = None \<and> beFault fin = None \<and> beLate fin = None
    \<and> (\<forall>r\<in>set rs. brDone r = None)"
  using assms
proof (induction rs fin held tot told rule: copy_body.induct)
  case (2 r rs fin held tot told)
  have in1: "in64 (tot + int (length (brData r)))" using 2(4,5) by (auto simp: in64_def body_bytes_def)
  show ?case
  proof (cases "brData r = []")
    case True
    then show ?thesis using 2(1) 2(3-5) by (auto simp: body_bytes_def split: if_splits)
  next
    case False
    let ?put = "take (brWrote r) (brData r)"
    have w: "\<not> brDone r \<noteq> None" "\<not> brFails r" "\<not> length ?put \<noteq> length (brData r)"
      using 2(3) False by (auto simp: Let_def split: if_splits)
    then have put: "?put = brData r" by simp
    have "copy_body rs fin (held @ brData r) (tot + int (length (brData r))) (told @ [tot + int (length (brData r))]) = (h, n, p, None)"
      using 2(3) False w put in1 by (simp add: Let_def)
    then show ?thesis using 2(2)[OF w(1) False refl refl w(2,3)] 2(4,5) put in1 w by (auto simp: body_bytes_def algebra_simps)
  qed
qed (auto simp: body_bytes_def split: option.splits)

text \<open>
  What a save may leave behind besides its file: folders on the way to the one it writes in, and the
  temporary file when that cannot be removed.
\<close>

definition folders_made :: "disk_env \<Rightarrow> disk \<Rightarrow> disk \<Rightarrow> bool" where
  "folders_made E d d1 \<longleftrightarrow> (\<forall>p. d1 p \<noteq> d p \<longrightarrow> p \<in> set (deDirs E) \<and> d p = None \<and> d1 p = Some Folder)"

definition left_over :: "disk_env \<Rightarrow> string \<Rightarrow> disk \<Rightarrow> disk" where
  "left_over E x d = (case deTemp E of None \<Rightarrow> d | Some t \<Rightarrow> if deRemove E t then d else d(t \<mapsto> File x))"

text \<open>A name the system can give a temporary file: one at which nothing is, nor a folder about to be made.\<close>

definition temp_new :: "disk_env \<Rightarrow> disk \<Rightarrow> bool" where
  "temp_new E d \<longleftrightarrow> (case deTemp E of None \<Rightarrow> True | Some t \<Rightarrow> d t = None \<and> t \<notin> set (deDirs E))"

lemma folders_made_old: "folders_made E d d1 \<Longrightarrow> d1 p = None \<Longrightarrow> d p = None"
  by (metis folders_made_def)

lemma folders_made_same: "folders_made E d d1 \<Longrightarrow> (\<And>p. p \<in> set (deDirs E) \<Longrightarrow> d p \<noteq> None) \<Longrightarrow> d1 = d"
  unfolding folders_made_def by (rule ext) metis

lemma folders_made_temp: "folders_made E d d1 \<Longrightarrow> temp_new E d \<Longrightarrow> deTemp E = Some t \<Longrightarrow> d1 t = None"
  unfolding folders_made_def temp_new_def by (simp split: option.splits) metis

lemma mkdir_all_grows: "mkdir_all may ps d = (d1, ok) \<Longrightarrow> d1 p \<noteq> d p \<Longrightarrow> p \<in> set ps \<and> d p = None \<and> d1 p = Some Folder"
proof (induction may ps d rule: mkdir_all.induct)
  case (2 may q ps d)
  show ?case
  proof (cases "d q = None")
    case True
    then have r: "may q" "mkdir_all may ps (d(q \<mapsto> Folder)) = (d1, ok)" using 2 by (auto split: if_splits)
    show ?thesis
    proof (cases "d1 p = (d(q \<mapsto> Folder)) p")
      case same: True
      then show ?thesis using 2(4) True by (auto split: if_splits)
    next
      case False
      then show ?thesis using 2(1)[OF True r False] by (auto split: if_splits)
    qed
  next
    case False
    then have "d q = Some Folder" "mkdir_all may ps d = (d1, ok)" using 2(3,4) by (auto split: disk_entry.splits)
    then show ?thesis using 2(2,4) by auto
  qed
qed simp

lemma mkdir_all_there: "mkdir_all may ps d = (d1, True) \<Longrightarrow> p \<in> set ps \<Longrightarrow> d1 p = Some Folder"
proof (induction may ps d rule: mkdir_all.induct)
  case (2 may q ps d)
  have keep: "d1 q = Some Folder" if "mkdir_all may ps e = (d1, True)" "e q = Some Folder" for e
    using mkdir_all_grows[OF that(1), of q] that(2) by fastforce
  show ?case
  proof (cases "d q = None")
    case True
    then have r: "may q" "mkdir_all may ps (d(q \<mapsto> Folder)) = (d1, True)" using 2(3) by (auto split: if_splits)
    then show ?thesis using 2(1)[OF True r] 2(4) keep[OF r(2)] by auto
  next
    case False
    then have r: "d q = Some Folder" "mkdir_all may ps d = (d1, True)" using 2(3) by (auto split: disk_entry.splits)
    then show ?thesis using 2(2,4) keep[OF r(2,1)] by auto
  qed
qed simp

lemma mkdir_made: "mkdir_all (deMkdir E) (deDirs E) d = (d1, ok) \<Longrightarrow> folders_made E d d1"
  unfolding folders_made_def using mkdir_all_grows by blast

lemma remove_temp: "deTemp E = Some t \<Longrightarrow> d t = None \<Longrightarrow> remove_file E t (d(t \<mapsto> File x)) = left_over E x d"
  by (auto simp: remove_file_def left_over_def)

text \<open>A failure leaves no more than that, a success adds the temporary file.\<close>

lemma write_temp_cases:
  assumes "write_stream_temp E (rs, fin) d = (d', told, tot, res)" "temp_new E d" "in64 (int (length (body_bytes rs)))"
  shows "\<exists>d1. folders_made E d d1 \<and> (case res of Inl e \<Rightarrow> d' = d1 \<or> (\<exists>x. d' = left_over E x d1)
    | Inr tmp \<Rightarrow> deTemp E = Some tmp \<and> d1 tmp = None \<and> (\<forall>p\<in>set (deDirs E). d1 p = Some Folder)
        \<and> d' = d1(tmp \<mapsto> File (body_bytes rs)) \<and> tot = int (length (body_bytes rs))
        \<and> beDone fin = None \<and> beFault fin = None \<and> beLate fin = None \<and> (\<forall>r\<in>set rs. brDone r = None))"
proof -
  obtain d1 ok where m: "mkdir_all (deMkdir E) (deDirs E) d = (d1, ok)" by fastforce
  note f = mkdir_made[OF m]
  obtain h n p e where c: "copy_body rs fin [] 0 [] = (h, n, p, e)" by (metis prod.exhaust)
  note def = assms(1)[unfolded write_stream_temp_def m fst_conv snd_conv c]
  consider "\<not> ok \<or> deTemp E = None" | t where "ok" "deTemp E = Some t" by (cases "deTemp E"; cases ok) auto
  then show ?thesis
  proof cases
    case 1
    then have "d' = d1" "\<exists>e. res = Inl e" using def by (auto split: bool.splits option.splits)
    then show ?thesis using f by auto
  next
    case (2 t)
    have t: "d1 t = None" by (rule folders_made_temp[OF f assms(2) 2(2)])
    have rm: "remove_file E t (d1(t \<mapsto> File h)) = left_over E h d1" using remove_temp 2(2) t by blast
    show ?thesis
    proof (cases "e = None \<and> deSync E \<and> deChmod E \<and> deClose E")
      case True
      then have "d' = d1(t \<mapsto> File h)" "tot = n" "res = Inr t" using def 2 by auto
      then show ?thesis
        using copy_body_success[of rs fin "[]" 0 "[]" h n p] c True assms(3) f t 2(2) mkdir_all_there[of _ _ d d1] m 2(1)
        by (intro exI[of _ d1]) auto
    next
      case False
      then have "d' = left_over E h d1" "\<exists>e. res = Inl e" using def 2 rm by (auto simp: Let_def split: option.splits if_splits)
      then show ?thesis using f by (intro exI[of _ d1]) auto
    qed
  qed
qed

lemma link_first_cases:
  assumes "link_first E path name is tmp d = (d', res)"
  shows "(case res of Inl e \<Rightarrow> d' = d
    | Inr full \<Rightarrow> first_free path name is d = Some full \<and> d full = None \<and> d' = d(full := d tmp))"
  using assms by (induction E path name "is" tmp d rule: link_first.induct) (auto simp: Let_def split: if_splits sum.splits)

lemma first_free_Some:
  "first_free path name is d = Some full \<Longrightarrow> \<exists>k<length is. full = path (numbered name (is ! k)) \<and> d full = None \<and> (\<forall>j<k. d (path (numbered name (is ! j))) \<noteq> None)"
proof (induction "is")
  case (Cons i "is")
  show ?case
  proof (cases "d (path (numbered name i)) = None")
    case True
    then show ?thesis using Cons.prems by (intro exI[of _ 0]) simp
  next
    case False
    then obtain k where "k < length is" "full = path (numbered name (is ! k))" "d full = None" "\<forall>j<k. d (path (numbered name (is ! j))) \<noteq> None"
      using Cons by auto
    then show ?thesis using False by (intro exI[of _ "Suc k"]) (auto simp: nth_Cons split: nat.split)
  qed
qed simp

lemma save_stream_cases:
  assumes "save_stream E path name (Some (rs, fin)) d = (d', told, tot, res)"
    and "temp_new E d" "in64 (int (length (body_bytes rs)))"
  shows "\<exists>d1. folders_made E d d1 \<and> (case res of
      Inl e \<Rightarrow> d' = d1 \<or> (\<exists>x. d' = left_over E x d1)
    | Inr full \<Rightarrow> d1 full = None \<and> deTemp E \<noteq> Some full \<and> d' = left_over E (body_bytes rs) (d1(full \<mapsto> File (body_bytes rs)))
        \<and> (\<forall>p\<in>set (deDirs E). d1 p = Some Folder) \<and> tot = int (length (body_bytes rs))
        \<and> (\<forall>r\<in>set rs. brDone r = None) \<and> beDone fin = None \<and> beFault fin = None \<and> beLate fin = None
        \<and> (\<exists>i<1000. full = path (numbered (saved_name (sanitize name)) i)
             \<and> (\<forall>j<i. d1 (path (numbered (saved_name (sanitize name)) j)) \<noteq> None \<or> deTemp E = Some (path (numbered (saved_name (sanitize name)) j)))))"
proof -
  obtain d2 told1 tot1 r1 where w: "write_stream_temp E (rs, fin) d = (d2, told1, tot1, r1)" by (metis prod.exhaust)
  from write_temp_cases[OF w assms(2,3)] obtain d1 where f: "folders_made E d d1"
    and W: "case r1 of Inl e \<Rightarrow> d2 = d1 \<or> (\<exists>x. d2 = left_over E x d1)
      | Inr tmp \<Rightarrow> deTemp E = Some tmp \<and> d1 tmp = None \<and> (\<forall>p\<in>set (deDirs E). d1 p = Some Folder)
        \<and> d2 = d1(tmp \<mapsto> File (body_bytes rs)) \<and> tot1 = int (length (body_bytes rs))
        \<and> beDone fin = None \<and> beFault fin = None \<and> beLate fin = None \<and> (\<forall>r\<in>set rs. brDone r = None)" by blast
  show ?thesis
  proof (cases r1)
    case (Inl e)
    then have "d' = d2" "res = Inl e" using assms(1) w by (auto simp: save_stream_def)
    then show ?thesis using f W Inl by auto
  next
    case (Inr tmp)
    let ?name = "saved_name (sanitize name)"
    have d2: "deTemp E = Some tmp" "d1 tmp = None" "d2 = d1(tmp \<mapsto> File (body_bytes rs))" using W Inr by simp_all
    obtain d3 r2 where l: "link_first E path ?name candidates tmp d2 = (d3, r2)" by fastforce
    note L = link_first_cases[OF l]
    have res: "d' = remove_file E tmp d3" "res = r2" "tot = tot1" using assms(1) w Inr l by (auto simp: save_stream_def Let_def)
    show ?thesis
    proof (cases r2)
      case (Inl e)
      then have "d' = left_over E (body_bytes rs) d1" using L res d2 remove_temp by simp
      then show ?thesis using f res Inl by auto
    next
      case (Inr full)
      obtain i where i: "i < 1000" "full = path (numbered ?name i)" "\<forall>j<i. d2 (path (numbered ?name j)) \<noteq> None"
        using first_free_Some[of path ?name "candidates" d2 full] L Inr by auto
      have g: "d2 full = None" "d3 = d2(full := d2 tmp)" using L Inr by simp_all
      then have ne: "full \<noteq> tmp" using d2 by auto
      have "d3 = (d1(full \<mapsto> File (body_bytes rs)))(tmp \<mapsto> File (body_bytes rs))" using g(2) d2(3) ne by (simp add: fun_upd_twist)
      then have "d' = left_over E (body_bytes rs) (d1(full \<mapsto> File (body_bytes rs)))"
        using res(1) remove_temp[OF d2(1)] d2(2) ne by simp
      moreover have "d1 full = None" using g(1) d2(3) ne by simp
      moreover have "\<forall>j<i. d1 (path (numbered ?name j)) \<noteq> None \<or> deTemp E = Some (path (numbered ?name j))"
        using i(3) d2 by (auto split: if_splits)
      ultimately show ?thesis using f W \<open>r1 = Inr tmp\<close> res Inr i(1,2) d2(1) ne by auto
    qed
  qed
qed

text \<open>
  Claim C24: \<open>SaveStream\<close> saves all or nothing. When it fails, for whatever reason, the disk is what it
  was, save for folders it made on the way to the one it writes in and for its temporary file when
  that cannot be removed. When it succeeds, the whole body was read before its context was done,
  and besides those the disk has gained exactly one file, with the bytes of the body, at the
  first of the thousand candidate names at which nothing was. It never overwrites.
\<close>

theorem save_stream_all_or_nothing:
  assumes "save_stream E path name (Some (rs, fin)) d = (d', told, tot, res)"
    and "temp_new E d" "in64 (int (length (body_bytes rs)))"
  shows "\<exists>d1. folders_made E d d1 \<and> (case res of
      Inl e \<Rightarrow> d' = d1 \<or> (\<exists>x. d' = left_over E x d1)
    | Inr full \<Rightarrow> d1 full = None \<and> deTemp E \<noteq> Some full \<and> d' = left_over E (body_bytes rs) (d1(full \<mapsto> File (body_bytes rs)))
        \<and> (\<forall>p\<in>set (deDirs E). d1 p = Some Folder) \<and> tot = int (length (body_bytes rs))
        \<and> (\<forall>r\<in>set rs. brDone r = None) \<and> beDone fin = None \<and> beFault fin = None \<and> beLate fin = None
        \<and> (\<exists>i<1000. full = path (numbered (saved_name (sanitize name)) i)
             \<and> (\<forall>j<i. d1 (path (numbered (saved_name (sanitize name)) j)) \<noteq> None \<or> deTemp E = Some (path (numbered (saved_name (sanitize name)) j)))))"
  using save_stream_cases[OF assms(1) assms(2,3)] .

text \<open>Two files of the name are there already.\<close>

definition plain_env :: disk_env where
  "plain_env = \<lparr>deDirs = [''/d''], deMkdir = (\<lambda>_. True), deTemp = Some ''/d/.tmp'', deSync = True, deChmod = True, deClose = True,
     deLink = (\<lambda>_. True), deRename = True, deRemove = (\<lambda>_. True)\<rparr>"

definition two_reads :: "body_read list" where
  "two_reads = [\<lparr>brDone = None, brData = ''ab'', brWrote = 2, brFails = False\<rparr>, \<lparr>brDone = None, brData = ''c'', brWrote = 1, brFails = False\<rparr>]"

definition whole :: body_end where
  "whole = \<lparr>beDone = None, beFault = None, beLate = None\<rparr>"

definition busy_disk :: disk where
  "busy_disk = [''/d'' \<mapsto> Folder, ''/d/f.txt'' \<mapsto> File ''old'', ''/d/f (1).txt'' \<mapsto> Folder]"

lemma two_reads_copied: "copy_body two_reads fin [] 0 [] = copy_body [] fin ''abc'' 3 [2, 3]"
  by (simp add: two_reads_def i64_def)

lemma busy_save:
  "\<exists>d'. save_stream plain_env (\<lambda>n. ''/d/'' @ n) ''a/f.txt'' (Some (two_reads, whole)) busy_disk = (d', [2, 3], 3, Inr ''/d/f (2).txt'')"
proof -
  let ?path = "\<lambda>n. ''/d/'' @ n"
  have n: "saved_name (sanitize ''a/f.txt'') = ''f.txt''" "numbered ''f.txt'' 0 = ''f.txt''" "numbered ''f.txt'' 1 = ''f (1).txt''" "numbered ''f.txt'' 2 = ''f (2).txt''" by code_simp+
  let ?d = "busy_disk(''/d/.tmp'' \<mapsto> File ''abc'')"
  have w: "write_stream_temp plain_env (two_reads, whole) busy_disk = (?d, [2, 3], 3, Inr ''/d/.tmp'')"
    by (simp add: write_stream_temp_def two_reads_copied whole_def plain_env_def busy_disk_def)
  have "link_first plain_env ?path ''f.txt'' candidates ''/d/.tmp'' ?d = (?d(''/d/f (2).txt'' := ?d ''/d/.tmp''), Inr ''/d/f (2).txt'')"
    using n by (simp add: candidates_three Let_def busy_disk_def plain_env_def del: upt_rec_numeral)
  then show ?thesis using n(1) w by (simp add: save_stream_def)
qed

lemma busy_bytes: "body_bytes two_reads = ''abc''" "in64 (int (length (body_bytes two_reads)))" "temp_new plain_env busy_disk"
proof -
  show b: "body_bytes two_reads = ''abc''" by (simp add: body_bytes_def two_reads_def)
  show "in64 (int (length (body_bytes two_reads)))" by (simp add: b in64_def)
  show "temp_new plain_env busy_disk" by (simp add: temp_new_def plain_env_def busy_disk_def)
qed

lemma busy_made: "folders_made plain_env busy_disk d \<Longrightarrow> d = busy_disk" "left_over plain_env x d = d"
  by (erule folders_made_same) (simp_all add: plain_env_def busy_disk_def left_over_def)

theorem save_stream_all_or_nothing_witness:
  "\<exists>d'. save_stream plain_env (\<lambda>n. ''/d/'' @ n) ''a/f.txt'' (Some (two_reads, whole)) busy_disk
      = (d', [2, 3], 3, Inr ''/d/f (2).txt'') \<and> d' = busy_disk(''/d/f (2).txt'' \<mapsto> File ''abc'')"
proof -
  obtain d' where d': "save_stream plain_env (\<lambda>n. ''/d/'' @ n) ''a/f.txt'' (Some (two_reads, whole)) busy_disk
    = (d', [2, 3], 3, Inr ''/d/f (2).txt'')" using busy_save by blast
  from save_stream_all_or_nothing[OF d' busy_bytes(3,2)] d' show ?thesis
    by (auto simp: busy_bytes(1) busy_made(2) dest!: busy_made(1))
qed

text \<open>
  The exceptions happen: a connection that breaks leaves the downloads folder it made, and the
  temporary file too if that cannot be removed.
\<close>

lemma broken_read_leaves:
  "fst (save_stream (plain_env\<lparr>deRemove := (\<lambda>_. removes)\<rparr>) (\<lambda>n. ''/d/'' @ n) ''f'' (Some (two_reads, whole\<lparr>beFault := Some Broken\<rparr>)) Map.empty)
    = (if removes then [''/d'' \<mapsto> Folder] else [''/d'' \<mapsto> Folder, ''/d/.tmp'' \<mapsto> File ''abc''])"
  by (simp add: save_stream_def write_stream_temp_def two_reads_copied whole_def plain_env_def remove_file_def)

text \<open>\<open>SaveStreamTo\<close> replaces its target, and only when everything went well.\<close>

lemma save_stream_to_all_or_nothing:
  assumes "save_stream_to E absolute done_late target (Some (rs, fin)) d = (d', told, tot, res)"
    and "temp_new E d" "in64 (int (length (body_bytes rs)))"
    and "\<And>dest base. absolute target = Some (dest, base) \<Longrightarrow> deTemp E \<noteq> Some dest"
  shows "\<exists>d1. folders_made E d d1 \<and> (case res of Some e \<Rightarrow> d' = d1 \<or> (\<exists>x. d' = left_over E x d1)
    | None \<Rightarrow> \<exists>dest base. absolute target = Some (dest, base) \<and> d' = d1(dest \<mapsto> File (body_bytes rs)) \<and> d1 dest \<noteq> Some Folder \<and> done_late = None)"
proof (cases "trim_space target = [] \<or> absolute target = None \<or> (\<exists>x. absolute target = Some x \<and> (snd x = ''.'' \<or> snd x = ''/'' \<or> snd x = []))")
  case True
  then have "\<exists>e. save_stream_to E absolute done_late target (Some (rs, fin)) d = (d, [], 0, Some e)"
    by (cases "trim_space target = []"; cases "absolute target") (auto simp: save_stream_to_def split del: if_split)
  then have "d' = d" "\<exists>e. res = Some e" using assms(1) by auto
  then show ?thesis by (auto simp: folders_made_def)
next
  case False
  then obtain x where "absolute target = Some x" "snd x \<noteq> ''.''" "snd x \<noteq> ''/''" "snd x \<noteq> []" by (metis option.exhaust)
  then obtain dest base where a: "absolute target = Some (dest, base)" "base \<noteq> ''.''" "base \<noteq> ''/''" "base \<noteq> []"
    by (metis prod.collapse)
  obtain d2 told1 tot1 r1 where w: "write_stream_temp E (rs, fin) d = (d2, told1, tot1, r1)" by (metis prod.exhaust)
  from write_temp_cases[OF w assms(2,3)] obtain d1 where f: "folders_made E d d1"
    and W: "case r1 of Inl e \<Rightarrow> d2 = d1 \<or> (\<exists>x. d2 = left_over E x d1)
      | Inr tmp \<Rightarrow> deTemp E = Some tmp \<and> d1 tmp = None \<and> (\<forall>p\<in>set (deDirs E). d1 p = Some Folder)
        \<and> d2 = d1(tmp \<mapsto> File (body_bytes rs)) \<and> tot1 = int (length (body_bytes rs))
        \<and> beDone fin = None \<and> beFault fin = None \<and> beLate fin = None \<and> (\<forall>r\<in>set rs. brDone r = None)" by blast
  show ?thesis
  proof (cases r1)
    case (Inl e)
    then have "d' = d2" "res = Some e" using assms(1) w a False by (auto simp: save_stream_to_def)
    then show ?thesis using f W Inl by auto
  next
    case (Inr tmp)
    have t: "deTemp E = Some tmp" "d1 tmp = None" "d2 = d1(tmp \<mapsto> File (body_bytes rs))" using W Inr by simp_all
    have ne: "tmp \<noteq> dest" using assms(4)[OF a(1)] t(1) by simp
    show ?thesis
    proof (cases "done_late = None \<and> deRename E \<and> d2 dest \<noteq> Some Folder")
      case True
      then have "d' = (d2(dest := d2 tmp))(tmp := None)" "res = None" using assms(1) w a False Inr by (auto simp: save_stream_to_def)
      moreover have "d1 dest \<noteq> Some Folder" using True t(3) ne by simp
      ultimately show ?thesis using f True t ne a(1) by (intro exI[of _ d1]) (auto simp: fun_eq_iff)
    next
      case no: False
      then have "d' = remove_file E tmp d2" "\<exists>e. res = Some e"
        using assms(1) w a False Inr by (auto simp: save_stream_to_def split: option.splits if_splits)
      moreover have "remove_file E tmp d2 = left_over E (body_bytes rs) d1" unfolding t(3) using remove_temp t(1,2) by blast
      ultimately show ?thesis using f by (intro exI[of _ d1]) auto
    qed
  qed
qed

text \<open>\<open>Save\<close> picks the same name and never writes over what is there.\<close>

lemma save_file_fresh:
  assumes "save_file E path writes name data d = (d', Inr full, good)"
  shows "\<exists>d1. folders_made E d d1 \<and> d1 full = None \<and> (d' = d1 \<or> (\<exists>bytes. d' = d1(full \<mapsto> File bytes)))
    \<and> (good \<longrightarrow> d' = d1(full \<mapsto> File data)) \<and> (\<exists>i<1000. full = path (numbered (saved_name name) i))"
proof -
  obtain d1 ok where m: "mkdir_all (deMkdir E) (deDirs E) d = (d1, ok)" by fastforce
  then have ok: "ok" "first_free path (saved_name name) candidates d1 = Some full"
    using assms by (auto simp: save_file_def split: bool.splits option.splits write_outcome.splits)
  with first_free_Some[OF ok(2)] m mkdir_made[OF m] assms show ?thesis
    by (intro exI[of _ d1]) (auto simp: save_file_def split: write_outcome.splits)
qed

end
