(* ===== verification/Download_Manager.thy ===== *)
theory Download_Manager
  imports Download_Names
begin

text \<open>
  \<open>internal/download/manager.go\<close>: the list of downloads. Items are shared by the list, the map by
  key and whoever created them, so they live in a store of addresses; an address is the number of the
  item. A canceler and a listener are names, and what a call does besides changing the manager is
  its list of effects: copies of items given to listeners, each on a goroutine of its own, and calls of
  cancelers. Every method holds the lock while it changes anything. The sequence number, a 64-bit counter
  of user actions, is a natural number, and rates, which are floating point, are left out.
\<close>

subsection \<open>Items\<close>

datatype item_status = StatusQueued | StatusActive | StatusCompleted | StatusFailed | StatusCanceled

record item =
  itID :: string
  itURL :: string
  itFilename :: string
  itLocalPath :: string
  itTotal :: int
  itDownloaded :: int
  itStatus :: item_status
  itError :: string
  itStart :: int
  itEnd :: int

definition item_running :: "item \<Rightarrow> bool" where
  "item_running it \<longleftrightarrow> itStatus it = StatusActive \<or> itStatus it = StatusQueued"

text \<open>The unit of \<open>FormatBytes\<close>: its divisor and its place in KMGTPE.\<close>

function scale_bytes :: "int \<Rightarrow> int \<Rightarrow> nat \<Rightarrow> int \<times> nat" where
  "scale_bytes n dv ex = (if n \<ge> 1024 then scale_bytes (n div 1024) (i64 (dv * 1024)) (ex + 1) else (dv, ex))"
  by pat_completeness auto

termination
  by (relation "measure (\<lambda>(n, _, _). nat n)") auto

declare scale_bytes.simps [simp del]

definition bytes_unit :: "int \<Rightarrow> int \<times> nat" where
  "bytes_unit b = scale_bytes (b div 1024) 1024 0"

subsection \<open>The manager\<close>

record download_manager =
  dmDir :: string
  dmStore :: "nat \<Rightarrow> item"
  dmItems :: "nat list"
  dmByID :: "string \<Rightarrow> nat option"
  dmSeq :: nat
  dmListeners :: "nat option list"
  dmCancel :: "string \<Rightarrow> nat option"

datatype effect = Told nat item | Called nat

definition blank_item :: item where
  "blank_item = \<lparr>itID = [], itURL = [], itFilename = [], itLocalPath = [], itTotal = 0, itDownloaded = 0, itStatus = StatusQueued, itError = [],
     itStart = 0, itEnd = 0\<rparr>"

definition new_download_manager :: "string \<Rightarrow> download_manager" where
  "new_download_manager dir = \<lparr>dmDir = dir, dmStore = (\<lambda>_. blank_item), dmItems = [], dmByID = (\<lambda>_. None), dmSeq = 0, dmListeners = [], dmCancel = (\<lambda>_. None)\<rparr>"

definition set_dir :: "string \<Rightarrow> download_manager \<Rightarrow> download_manager" where
  "set_dir dir m = m\<lparr>dmDir := dir\<rparr>"

definition tell :: "download_manager \<Rightarrow> nat \<Rightarrow> effect list" where
  "tell m a = map (\<lambda>l. Told (the l) (dmStore m a)) (filter (\<lambda>l. l \<noteq> None) (dmListeners m))"

definition put_item :: "nat \<Rightarrow> item \<Rightarrow> download_manager \<Rightarrow> download_manager" where
  "put_item a it m = m\<lparr>dmStore := (dmStore m)(a := it)\<rparr>"

definition item_id :: "nat \<Rightarrow> string" where
  "item_id n = ''dl-'' @ decimal n"

definition create_item :: "string \<Rightarrow> string \<Rightarrow> int \<Rightarrow> int \<Rightarrow> download_manager \<Rightarrow> download_manager \<times> effect list" where
  "create_item url filename bytes now m =
     (let n = dmSeq m + 1;
          it = blank_item\<lparr>itID := item_id n, itURL := url, itFilename := filename, itTotal := bytes, itStatus := StatusActive, itStart := now\<rparr>;
          m = put_item n it (m\<lparr>dmSeq := n, dmItems := dmItems m @ [n], dmByID := (dmByID m)(item_id n \<mapsto> n)\<rparr>)
      in (m, tell m n))"

definition update_progress :: "string \<Rightarrow> int \<Rightarrow> download_manager \<Rightarrow> download_manager \<times> effect list" where
  "update_progress key downloaded m =
     (case dmByID m key of
        None \<Rightarrow> (m, [])
      | Some a \<Rightarrow>
          if itStatus (dmStore m a) \<noteq> StatusActive then (m, [])
          else let m = put_item a ((dmStore m a)\<lparr>itDownloaded := downloaded\<rparr>) m in (m, tell m a))"

definition complete_item :: "string \<Rightarrow> string \<Rightarrow> int \<Rightarrow> download_manager \<Rightarrow> download_manager \<times> effect list" where
  "complete_item key path now m =
     (case dmByID m key of
        None \<Rightarrow> (m, [])
      | Some a \<Rightarrow>
          let it = dmStore m a
          in if itStatus it = StatusCanceled \<or> itStatus it = StatusFailed then (m, [])
             else let it = it\<lparr>itLocalPath := path, itStatus := StatusCompleted, itEnd := now\<rparr>;
                      it = (if itTotal it > 0 then it\<lparr>itDownloaded := itTotal it\<rparr> else it);
                      m = put_item a it (m\<lparr>dmCancel := (dmCancel m)(key := None)\<rparr>)
                  in (m, tell m a))"

definition fail_item :: "string \<Rightarrow> string option \<Rightarrow> int \<Rightarrow> download_manager \<Rightarrow> download_manager \<times> effect list" where
  "fail_item key err now m =
     (case dmByID m key of
        None \<Rightarrow> (m, [])
      | Some a \<Rightarrow>
          let it = dmStore m a
          in if itStatus it = StatusCanceled \<or> itStatus it = StatusCompleted then (m, [])
             else let it = it\<lparr>itStatus := StatusFailed, itEnd := now\<rparr>;
                      it = (case err of None \<Rightarrow> it | Some e \<Rightarrow> it\<lparr>itError := e\<rparr>);
                      m = put_item a it (m\<lparr>dmCancel := (dmCancel m)(key := None)\<rparr>)
                  in (m, tell m a))"

definition cancel_item :: "string \<Rightarrow> int \<Rightarrow> download_manager \<Rightarrow> download_manager \<times> effect list" where
  "cancel_item key now m =
     (case dmByID m key of
        None \<Rightarrow> (m, [])
      | Some a \<Rightarrow>
          let it = dmStore m a
          in if item_running it
             then let canceler = dmCancel m key;
                      m = put_item a (it\<lparr>itStatus := StatusCanceled, itEnd := now\<rparr>) (m\<lparr>dmCancel := (dmCancel m)(key := None)\<rparr>)
                  in (m, tell m a @ (case canceler of None \<Rightarrow> [] | Some f \<Rightarrow> [Called f]))
             else (m, []))"

definition set_cancel :: "string \<Rightarrow> nat option \<Rightarrow> download_manager \<Rightarrow> download_manager \<times> effect list" where
  "set_cancel key canceler m =
     (case canceler of
        None \<Rightarrow> (m, [])
      | Some f \<Rightarrow>
          (case dmByID m key of
             None \<Rightarrow> (m, [Called f])
           | Some a \<Rightarrow>
               let s = itStatus (dmStore m a)
               in if s = StatusCanceled \<or> s = StatusCompleted \<or> s = StatusFailed then (m, [Called f])
                  else (m\<lparr>dmCancel := (dmCancel m)(key \<mapsto> f)\<rparr>, [])))"

definition get_item :: "string \<Rightarrow> download_manager \<Rightarrow> item option" where
  "get_item key m = map_option (dmStore m) (dmByID m key)"

definition all_items :: "download_manager \<Rightarrow> item list" where
  "all_items m = map (dmStore m) (dmItems m)"

definition active_items :: "download_manager \<Rightarrow> item list" where
  "active_items m = filter item_running (map (dmStore m) (dmItems m))"

definition active_count :: "download_manager \<Rightarrow> nat" where
  "active_count m = fold (\<lambda>a n. if item_running (dmStore m a) then n + 1 else n) (dmItems m) 0"

definition total_count :: "download_manager \<Rightarrow> nat" where
  "total_count m = length (dmItems m)"

definition clear_completed :: "download_manager \<Rightarrow> download_manager" where
  "clear_completed m =
     (let kept = filter (\<lambda>a. item_running (dmStore m a)) (dmItems m)
      in m\<lparr>dmItems := kept, dmByID := fold (\<lambda>a by. by(itID (dmStore m a) \<mapsto> a)) kept (\<lambda>_. None)\<rparr>)"

definition subscribe :: "nat option \<Rightarrow> download_manager \<Rightarrow> download_manager" where
  "subscribe l m = m\<lparr>dmListeners := dmListeners m @ [l]\<rparr>"

text \<open>What \<open>Subscribe\<close> returns walks the listeners and removes none.\<close>

definition unsubscribe :: "download_manager \<Rightarrow> download_manager" where
  "unsubscribe m = m"

subsection \<open>Calls\<close>

datatype dl_call =
    Create string string int int
  | Progress string int
  | Complete string string int
  | Fail string "string option" int
  | Cancel string int
  | SetCancel string "nat option"
  | Clear
  | Subscribe "nat option"
  | SetDir string

fun dl_step :: "dl_call \<Rightarrow> download_manager \<Rightarrow> download_manager \<times> effect list" where
  "dl_step (Create url name bytes now) m = create_item url name bytes now m"
| "dl_step (Progress key n) m = update_progress key n m"
| "dl_step (Complete key path now) m = complete_item key path now m"
| "dl_step (Fail key err now) m = fail_item key err now m"
| "dl_step (Cancel key now) m = cancel_item key now m"
| "dl_step (SetCancel key f) m = set_cancel key f m"
| "dl_step Clear m = (clear_completed m, [])"
| "dl_step (Subscribe l) m = (subscribe l m, [])"
| "dl_step (SetDir d) m = (set_dir d m, [])"

fun dl_run :: "dl_call list \<Rightarrow> download_manager \<Rightarrow> download_manager \<times> effect list" where
  "dl_run [] m = (m, [])"
| "dl_run (c # cs) m = (let (m, es) = dl_step c m; (m, es') = dl_run cs m in (m, es @ es'))"

subsection \<open>The books\<close>

definition dm_ok :: "download_manager \<Rightarrow> bool" where
  "dm_ok m \<longleftrightarrow> distinct (dmItems m) \<and> (\<forall>a\<in>set (dmItems m). 0 < a \<and> a \<le> dmSeq m \<and> itID (dmStore m a) = item_id a)
     \<and> (\<forall>key a. dmByID m key = Some a \<longleftrightarrow> a \<in> set (dmItems m) \<and> key = item_id a)
     \<and> (\<forall>key f. dmCancel m key = Some f \<longrightarrow> (\<exists>a. dmByID m key = Some a \<and> item_running (dmStore m a)))"

lemma item_id_inject: "item_id m = item_id n \<longleftrightarrow> m = n"
  by (simp add: item_id_def decimal_inject)

lemma dm_okD:
  assumes "dm_ok m" "dmByID m key = Some a"
  shows "a \<in> set (dmItems m)" "key = item_id a" "itID (dmStore m a) = item_id a" "a \<le> dmSeq m" "0 < a"
  using assms by (auto simp: dm_ok_def)

lemma dm_ok_cancel: "dm_ok m \<Longrightarrow> dmCancel m key = Some f \<Longrightarrow> \<exists>a. dmByID m key = Some a \<and> item_running (dmStore m a)"
  unfolding dm_ok_def by blast

lemma dm_ok_by: "dm_ok m \<Longrightarrow> dmByID m key = Some a \<longleftrightarrow> a \<in> set (dmItems m) \<and> key = item_id a"
  unfolding dm_ok_def by blast

lemma dm_ok_inj: "dm_ok m \<Longrightarrow> dmByID m key = Some a \<Longrightarrow> dmByID m key' = Some a \<Longrightarrow> key = key'"
  by (metis dm_okD(2))

lemma new_manager_ok: "dm_ok (new_download_manager dir)"
  by (simp add: dm_ok_def new_download_manager_def)

text \<open>Changing an item and its canceler keeps the books.\<close>

lemma put_ok:
  assumes "dm_ok m" "dmByID m key = Some a" "itID it = itID (dmStore m a)" "item_running it \<or> cn key = None" "\<And>x. x \<noteq> key \<Longrightarrow> cn x = dmCancel m x"
  shows "dm_ok (put_item a it (m\<lparr>dmCancel := cn\<rparr>))"
proof -
  have "\<exists>b. dmByID m x = Some b \<and> item_running (((dmStore m)(a := it)) b)" if x: "cn x = Some f" for x f
  proof (cases "x = key")
    case True
    then show ?thesis using assms(2,4) x by auto
  next
    case False
    then obtain b where b: "dmByID m x = Some b" "item_running (dmStore m b)" using dm_ok_cancel[OF assms(1), of x f] assms(5) x by auto
    moreover have "b \<noteq> a" using dm_ok_inj[OF assms(1) b(1), of key] assms(2) False by auto
    ultimately show ?thesis by auto
  qed
  then show ?thesis using assms(1,3) by (auto simp: dm_ok_def put_item_def)
qed

lemma fold_by_id:
  "distinct (map f as) \<Longrightarrow> fold (\<lambda>a by. by(f a \<mapsto> a)) as m0 = (\<lambda>x. if x \<in> f ` set as then Some (the_inv_into (set as) f x) else m0 x)"
  for f :: "'a \<Rightarrow> 'b"
proof (induction "as" arbitrary: m0)
  case (Cons a "as")
  have inj: "inj_on f (set (a # as))" using Cons.prems by (simp only: distinct_map)
  have "the_inv_into (set as) f x = the_inv_into (set (a # as)) f x" if "x \<in> f ` set as" for x
    using that inj by (auto simp: the_inv_into_f_f inj_on_def)
  moreover have "the_inv_into (set (a # as)) f (f a) = a" using inj by (simp add: the_inv_into_f_f)
  moreover have "f a \<notin> f ` set as" using Cons.prems by simp
  ultimately show ?case using Cons by (auto simp: fun_eq_iff)
qed simp

lemma clear_by_id:
  assumes "dm_ok m"
  shows "dmByID (clear_completed m) key = (case dmByID m key of None \<Rightarrow> None | Some a \<Rightarrow> if item_running (dmStore m a) then Some a else None)"
proof -
  let ?kept = "filter (\<lambda>a. item_running (dmStore m a)) (dmItems m)" and ?f = "\<lambda>a. itID (dmStore m a)"
  have f: "\<forall>a\<in>set ?kept. ?f a = item_id a" using assms by (auto simp: dm_ok_def)
  then have inj: "inj_on ?f (set ?kept)" by (auto simp: inj_on_def item_id_inject)
  then have d: "distinct (map ?f ?kept)" using assms by (simp add: distinct_map dm_ok_def)
  have b: "dmByID (clear_completed m) key = (if key \<in> ?f ` set ?kept then Some (the_inv_into (set ?kept) ?f key) else None)"
    by (simp add: clear_completed_def Let_def fold_by_id[OF d])
  show ?thesis
  proof (cases "key \<in> ?f ` set ?kept")
    case True
    then obtain a where a: "a \<in> set ?kept" "key = ?f a" by auto
    then have "dmByID m key = Some a" using f assms by (auto simp: dm_ok_def)
    then show ?thesis using a b True the_inv_into_f_f[OF inj a(1)] by simp
  next
    case False
    then have "\<not> (\<exists>a. dmByID m key = Some a \<and> item_running (dmStore m a))" using assms by (force simp: dm_ok_def)
    then show ?thesis using b False by (auto split: option.split)
  qed
qed

lemma clear_fields: "dmItems (clear_completed m) = filter (\<lambda>a. item_running (dmStore m a)) (dmItems m)" "dmStore (clear_completed m) = dmStore m"
  "dmCancel (clear_completed m) = dmCancel m" "dmSeq (clear_completed m) = dmSeq m"
  by (simp_all add: clear_completed_def Let_def)

lemma clear_ok:
  assumes ok: "dm_ok m"
  shows "dm_ok (clear_completed m)"
proof -
  have "dmByID (clear_completed m) key = Some a \<longleftrightarrow> a \<in> set (dmItems (clear_completed m)) \<and> key = item_id a" for key a
  proof (cases "dmByID m key")
    case None
    then show ?thesis using dm_ok_by[OF ok, of key a] by (simp add: clear_by_id[OF ok] clear_fields)
  next
    case (Some b)
    then show ?thesis using dm_ok_by[OF ok, of key a] dm_ok_by[OF ok, of key b] by (auto simp: clear_by_id[OF ok] clear_fields item_id_inject)
  qed
  moreover have "\<exists>a. dmByID (clear_completed m) key = Some a \<and> item_running (dmStore (clear_completed m) a)" if "dmCancel (clear_completed m) key = Some f" for key f
    using dm_ok_cancel[OF ok, of key f] that clear_by_id[OF ok, of key] by (auto simp: clear_fields)
  moreover have "distinct (dmItems (clear_completed m))" "\<forall>a\<in>set (dmItems (clear_completed m)). 0 < a \<and> a \<le> dmSeq (clear_completed m) \<and> itID (dmStore (clear_completed m) a) = item_id a"
    using ok by (auto simp: dm_ok_def clear_fields)
  ultimately show ?thesis unfolding dm_ok_def by blast
qed

lemma create_ok:
  assumes ok: "dm_ok m"
  shows "dm_ok (fst (create_item url name bytes now m))"
proof -
  let ?n = "dmSeq m + 1"
  have new: "?n \<notin> set (dmItems m)" using ok by (auto simp: dm_ok_def)
  have "dmByID m (item_id ?n) = None"
  proof (rule ccontr)
    assume "dmByID m (item_id ?n) \<noteq> None"
    then obtain a where "dmByID m (item_id ?n) = Some a" by auto
    then have "a = ?n" "a \<in> set (dmItems m)" using dm_ok_by[OF ok, of "item_id ?n" a] by (simp_all add: item_id_inject)
    then show False using new by simp
  qed
  note fresh = new this
  have "\<exists>a. ((dmByID m)(item_id ?n \<mapsto> ?n)) key = Some a \<and> item_running (((dmStore m)(?n := it)) a)" if c: "dmCancel m key = Some f" for key f it
  proof -
    obtain a where a: "dmByID m key = Some a" "item_running (dmStore m a)" using dm_ok_cancel[OF ok c] by blast
    then show ?thesis using fresh dm_ok_by[OF ok, of key a] by auto
  qed
  moreover have "((dmByID m)(item_id ?n \<mapsto> ?n)) key = Some a \<longleftrightarrow> a \<in> insert ?n (set (dmItems m)) \<and> key = item_id a" for key a
    using dm_ok_by[OF ok, of key a] fresh by (auto simp: item_id_inject)
  moreover have "\<forall>a\<in>set (dmItems m). 0 < a \<and> a \<le> ?n \<and> a \<noteq> ?n \<and> itID (dmStore m a) = item_id a" "distinct (dmItems m)" using ok by (auto simp: dm_ok_def)
  ultimately show ?thesis using fresh unfolding dm_ok_def create_item_def Let_def put_item_def by auto
qed

lemma quiet_fields_ok: "dm_ok (m\<lparr>dmListeners := ls\<rparr>) = dm_ok m" "dm_ok (m\<lparr>dmDir := d\<rparr>) = dm_ok m"
  by (simp_all add: dm_ok_def)

lemma dl_step_ok:
  assumes ok: "dm_ok m"
  shows "dm_ok (fst (dl_step c m))"
proof (cases c)
  case (Progress key n)
  have same: "m = m\<lparr>dmCancel := dmCancel m\<rparr>" by simp
  show ?thesis
  proof (cases "dmByID m key")
    case (Some a)
    have "dm_ok (put_item a ((dmStore m a)\<lparr>itDownloaded := n\<rparr>) (m\<lparr>dmCancel := dmCancel m\<rparr>))" if "itStatus (dmStore m a) = StatusActive"
      by (rule put_ok[OF ok Some]) (use that in \<open>simp_all add: item_running_def\<close>)
    then show ?thesis using Progress Some ok by (simp add: update_progress_def Let_def)
  qed (use Progress ok in \<open>simp add: update_progress_def\<close>)
next
  case (Complete key path now)
  then show ?thesis using ok put_ok[OF ok, of key _ _ "(dmCancel m)(key := None)"]
    by (simp add: complete_item_def Let_def split: option.split)
next
  case (Fail key err now)
  then show ?thesis using ok put_ok[OF ok, of key _ _ "(dmCancel m)(key := None)"]
    by (simp add: fail_item_def Let_def split: option.split)
next
  case (Cancel key now)
  then show ?thesis using ok put_ok[OF ok, of key _ _ "(dmCancel m)(key := None)"]
    by (simp add: cancel_item_def Let_def split: option.split)
next
  case (SetCancel key f)
  have "dm_ok (m\<lparr>dmCancel := (dmCancel m)(key \<mapsto> g)\<rparr>)" if "dmByID m key = Some a" "item_running (dmStore m a)" for a g
    using ok that by (auto simp: dm_ok_def)
  moreover have "item_running it \<longleftrightarrow> \<not> (itStatus it = StatusCanceled \<or> itStatus it = StatusCompleted \<or> itStatus it = StatusFailed)" for it
    by (cases "itStatus it") (auto simp: item_running_def)
  ultimately show ?thesis using ok SetCancel by (auto simp: set_cancel_def Let_def split: option.split)
next
  case Clear
  then show ?thesis using clear_ok[OF ok] by simp
next
  case (Create url name bytes now)
  then show ?thesis using create_ok[OF ok] by simp
qed (use ok quiet_fields_ok in \<open>simp_all add: subscribe_def set_dir_def\<close>)

lemma dl_run_ok: "dm_ok m \<Longrightarrow> dm_ok (fst (dl_run cs m))"
proof (induction cs arbitrary: m)
  case (Cons c cs)
  then show ?case using dl_step_ok[OF Cons.prems, of c] Cons.IH[of "fst (dl_step c m)"] by (simp add: case_prod_beta Let_def)
qed simp

subsection \<open>How downloads end\<close>

text \<open>The first call that settles a download: its completion, its failure or its cancelling.\<close>

fun settled_by :: "string \<Rightarrow> dl_call list \<Rightarrow> dl_call option" where
  "settled_by key [] = None"
| "settled_by key (c # cs) =
     (case c of
        Complete k p t \<Rightarrow> if k = key then Some c else settled_by key cs
      | Fail k e t \<Rightarrow> if k = key then Some c else settled_by key cs
      | Cancel k t \<Rightarrow> if k = key then Some c else settled_by key cs
      | _ \<Rightarrow> settled_by key cs)"

definition called :: "nat \<Rightarrow> effect list \<Rightarrow> nat" where
  "called f es = length (filter (\<lambda>e. case e of Called g \<Rightarrow> g = f | _ \<Rightarrow> False) es)"

definition attaches :: "nat \<Rightarrow> string \<Rightarrow> dl_call \<Rightarrow> bool" where
  "attaches f key c \<longleftrightarrow> (case c of SetCancel k g \<Rightarrow> g = Some f \<or> (k = key \<and> g \<noteq> None) | _ \<Rightarrow> False)"

lemma called_append [simp]: "called f (es @ es') = called f es + called f es'"
  by (simp add: called_def)

lemma called_tell [simp]: "called f (tell m a) = 0"
  by (simp add: called_def tell_def)

lemma called_simps [simp]: "called f [] = 0" "called f (Called g # es) = (if g = f then 1 else 0) + called f es"
  by (simp_all add: called_def)

text \<open>A canceler that nothing holds is not called by what does not attach it.\<close>

definition unheld :: "nat \<Rightarrow> download_manager \<Rightarrow> bool" where
  "unheld f m \<longleftrightarrow> (\<forall>key. dmCancel m key \<noteq> Some f)"

lemma unheld_step:
  assumes "unheld f m" "\<not> attaches f key c"
  shows "unheld f (fst (dl_step c m)) \<and> called f (snd (dl_step c m)) = 0"
  using assms by (cases c)
    (auto simp: unheld_def attaches_def create_item_def update_progress_def complete_item_def fail_item_def cancel_item_def set_cancel_def
      clear_fields subscribe_def set_dir_def put_item_def Let_def split: option.split)

lemma unheld_run: "unheld f m \<Longrightarrow> \<forall>c\<in>set cs. \<not> attaches f key c \<Longrightarrow> called f (snd (dl_run cs m)) = 0"
proof (induction cs arbitrary: m)
  case (Cons c cs)
  then show ?case using unheld_step[of f m key c] Cons.IH[of "fst (dl_step c m)"] by (simp add: case_prod_beta Let_def)
qed simp

text \<open>While a download is in flight, its canceler stays the only one of that name.\<close>

definition holds :: "nat \<Rightarrow> string \<Rightarrow> download_manager \<Rightarrow> bool" where
  "holds f key m \<longleftrightarrow> dm_ok m \<and> dmCancel m key = Some f \<and> (\<forall>k. k \<noteq> key \<longrightarrow> dmCancel m k \<noteq> Some f)"

lemma holds_flight: "holds f key m \<Longrightarrow> \<exists>a. dmByID m key = Some a \<and> item_running (dmStore m a)"
  using dm_ok_cancel by (auto simp: holds_def)

lemma holds_step:
  assumes "holds f key m" "\<not> attaches f key c"
  shows "if settled_by key [c] = None then holds f key (fst (dl_step c m)) \<and> called f (snd (dl_step c m)) = 0
    else unheld f (fst (dl_step c m)) \<and> called f (snd (dl_step c m)) = (case c of Cancel _ _ \<Rightarrow> 1 | _ \<Rightarrow> 0)"
proof -
  obtain a where a: "dmByID m key = Some a" "item_running (dmStore m a)" using holds_flight[OF assms(1)] by blast
  have ok: "dm_ok (fst (dl_step c m))" using dl_step_ok assms(1) by (simp add: holds_def)
  have st: "itStatus (dmStore m a) = StatusActive \<or> itStatus (dmStore m a) = StatusQueued" using a by (simp add: item_running_def)
  show ?thesis
    using assms a ok st
    by (cases c) (auto simp: holds_def unheld_def attaches_def create_item_def update_progress_def complete_item_def fail_item_def cancel_item_def
      set_cancel_def clear_fields subscribe_def set_dir_def put_item_def Let_def split: option.split)
qed

lemma holds_run:
  assumes "holds f key m" "\<forall>c\<in>set cs. \<not> attaches f key c"
  shows "called f (snd (dl_run cs m)) = (case settled_by key cs of Some (Cancel _ _) \<Rightarrow> 1 | _ \<Rightarrow> 0)"
  using assms
proof (induction cs arbitrary: m)
  case (Cons c cs)
  have n: "\<not> attaches f key c" "\<forall>c\<in>set cs. \<not> attaches f key c" using Cons.prems(2) by simp_all
  note s = holds_step[OF Cons.prems(1) n(1)]
  show ?case
  proof (cases "settled_by key [c]")
    case None
    then have "settled_by key (c # cs) = settled_by key cs" by (cases c) (auto split: if_splits)
    then show ?thesis using s None Cons.IH[of "fst (dl_step c m)"] n by (simp add: case_prod_beta Let_def)
  next
    case (Some x)
    then have x: "settled_by key (c # cs) = Some c" by (cases c) (auto split: if_splits)
    then show ?thesis using s Some unheld_run[of f "fst (dl_step c m)" cs key] n by (cases c) (auto simp: case_prod_beta Let_def)
  qed
qed simp

inductive dm_reach :: "download_manager \<Rightarrow> bool" where
  "dm_reach (new_download_manager dir)"
| "dm_reach m \<Longrightarrow> dm_reach (fst (dl_step c m))"

lemma dm_reach_ok: "dm_reach m \<Longrightarrow> dm_ok m"
  by (induction rule: dm_reach.induct) (simp_all add: new_manager_ok dl_step_ok)

text \<open>
  Claim C25: the canceler attached to a download is called exactly once if the download is no longer in
  flight when it is attached, or if it is cancelled before it completes or fails, and never otherwise,
  whatever other calls come between; so a download that was cancelled before its request was
  attached stops too, and one that finished is not cancelled after the fact.
\<close>

theorem canceler_called_once:
  assumes "dm_reach m" "unheld f m" "\<forall>c\<in>set cs. \<not> attaches f key c"
  shows "called f (snd (dl_run (SetCancel key (Some f) # cs) m)) =
    (case get_item key m of
       None \<Rightarrow> 1
     | Some it \<Rightarrow> if item_running it then (case settled_by key cs of Some (Cancel _ _) \<Rightarrow> 1 | _ \<Rightarrow> 0) else 1)"
proof -
  have flight: "item_running it \<longleftrightarrow> \<not> (itStatus it = StatusCanceled \<or> itStatus it = StatusCompleted \<or> itStatus it = StatusFailed)" for it
    by (cases "itStatus it") (auto simp: item_running_def)
  let ?s = "set_cancel key (Some f) m"
  have run: "snd (dl_run (SetCancel key (Some f) # cs) m) = snd ?s @ snd (dl_run cs (fst ?s))" by (simp add: case_prod_beta Let_def)
  show ?thesis
  proof (cases "\<exists>a. dmByID m key = Some a \<and> item_running (dmStore m a)")
    case True
    then obtain a where a: "dmByID m key = Some a" "item_running (dmStore m a)" by blast
    then have s: "?s = (m\<lparr>dmCancel := (dmCancel m)(key \<mapsto> f)\<rparr>, [])" using flight by (simp add: set_cancel_def)
    have "dm_ok (fst (dl_step (SetCancel key (Some f)) m))" using dl_step_ok dm_reach_ok[OF assms(1)] by blast
    then have "holds f key (fst ?s)" using assms(2) s by (simp add: holds_def unheld_def)
    then show ?thesis using holds_run[OF _ assms(3)] a s run by (simp add: get_item_def)
  next
    case False
    then have s: "?s = (m, [Called f])" using flight by (auto simp: set_cancel_def Let_def split: option.split)
    then show ?thesis using unheld_run[OF assms(2,3)] False run by (auto simp: get_item_def split: option.split)
  qed
qed

theorem canceler_called_once_witness:
  "let m = fst (create_item ''u'' ''f'' 9 0 (new_download_manager ''/d''))
   in called 7 (snd (dl_run (SetCancel ''dl-1'' (Some 7) # [Progress ''dl-1'' 5, Cancel ''dl-1'' 3, Cancel ''dl-1'' 4]) m)) = 1
    \<and> called 7 (snd (dl_run (SetCancel ''dl-1'' (Some 7) # [Complete ''dl-1'' ''/d/f'' 2, Cancel ''dl-1'' 4]) m)) = 0"
proof -
  let ?m = "fst (create_item ''u'' ''f'' 9 0 (new_download_manager ''/d''))"
  have "dm_reach ?m" using dm_reach.intros(2)[OF dm_reach.intros(1), of "Create ''u'' ''f'' 9 0" "''/d''"] by simp
  note c = canceler_called_once[OF this, of 7]
  have id1: "item_id (Suc 0) = ''dl-1''" by code_simp
  have u: "unheld 7 ?m" by (simp add: unheld_def create_item_def new_download_manager_def put_item_def Let_def)
  have g: "\<exists>it. get_item ''dl-1'' ?m = Some it \<and> item_running it"
    by (simp add: get_item_def create_item_def new_download_manager_def put_item_def Let_def id1 item_running_def)
  show ?thesis unfolding Let_def using g by (subst (1 2) c) (use u in \<open>auto simp: attaches_def\<close>)
qed

text \<open>A settled download keeps its outcome as long as it is listed.\<close>

lemma settled_stays:
  assumes "dm_ok m" "get_item key m = Some it" "\<not> item_running it" "get_item key (fst (dl_step c m)) = Some it'"
  shows "itStatus it' = itStatus it"
proof -
  have st: "itStatus it = StatusCompleted \<or> itStatus it = StatusFailed \<or> itStatus it = StatusCanceled"
    using assms(3) by (cases "itStatus it") (auto simp: item_running_def)
  obtain a where a: "dmByID m key = Some a" "dmStore m a = it" using assms(2) by (auto simp: get_item_def)
  have new: "a \<noteq> Suc (dmSeq m)" using dm_okD(4)[OF assms(1) a(1)] by simp
  have "key \<noteq> item_id (Suc (dmSeq m))" using dm_okD(2)[OF assms(1) a(1)] new item_id_inject by simp
  then have other: "k \<noteq> key" if "k = item_id (Suc (dmSeq m))" for k using that by blast
  have apart: "b \<noteq> a" if "dmByID m k = Some b" "k \<noteq> key" for k b using dm_ok_inj[OF assms(1) a(1), of k] that by auto
  have got: "get_item key (fst (dl_step c m)) = Some it'" by (rule assms(4))
  show ?thesis
  proof (cases c)
    case (Create url name bytes now)
    then show ?thesis using got a new other by (auto simp: get_item_def create_item_def put_item_def Let_def split: if_splits)
  next
    case (Progress k n)
    then show ?thesis using got a st apart by (cases "k = key") (auto simp: get_item_def update_progress_def put_item_def Let_def split: option.splits if_splits)
  next
    case (Complete k p t)
    then show ?thesis using got a st apart by (cases "k = key") (auto simp: get_item_def complete_item_def put_item_def Let_def split: option.splits if_splits)
  next
    case (Fail k e t)
    then show ?thesis using got a st apart by (cases "k = key") (auto simp: get_item_def fail_item_def put_item_def Let_def split: option.splits if_splits)
  next
    case (Cancel k t)
    then show ?thesis using got a assms(3) apart by (cases "k = key") (auto simp: get_item_def cancel_item_def put_item_def Let_def split: option.splits if_splits)
  next
    case (SetCancel k g)
    then show ?thesis using got a by (auto simp: get_item_def set_cancel_def Let_def split: option.splits if_splits)
  next
    case Clear
    then show ?thesis using got a assms(3) by (simp add: get_item_def clear_by_id[OF assms(1)])
  qed (use got a in \<open>simp_all add: get_item_def subscribe_def set_dir_def\<close>)
qed

text \<open>The unit of a byte count is one of the six there are, and the right one.\<close>

lemma div_bounds: "0 < (q :: int) \<Longrightarrow> q * (b div q) \<le> b \<and> b < q * (b div q + 1)"
proof -
  assume q: "0 < q"
  have "b = q * (b div q) + b mod q" "b mod q < q" "0 \<le> b mod q" using q by simp_all
  moreover have "q * (b div q + 1) = q * (b div q) + q" by (simp add: distrib_left)
  ultimately show ?thesis by linarith
qed

lemma scale_bytes_ok:
  assumes "b div 1024 ^ Suc ex = n" "1 \<le> n" "0 \<le> b" "b < 2 ^ 63" "ex \<le> 5"
  shows "\<exists>k. scale_bytes n (1024 ^ Suc ex) ex = (1024 ^ Suc k, k) \<and> k \<le> 5 \<and> 1024 ^ Suc k \<le> b \<and> b < 1024 ^ Suc (Suc k)"
  using assms
proof (induction n "(1024 :: int) ^ Suc ex" ex rule: scale_bytes.induct)
  case (1 n ex)
  have le: "1024 ^ Suc ex * n \<le> b" "b < 1024 ^ Suc ex * (n + 1)"
    using div_bounds[of "1024 ^ Suc ex" b] unfolding 1(2) by simp_all
  show ?case
  proof (cases "n \<ge> 1024")
    case True
    have "(1024 :: int) ^ Suc (Suc ex) \<le> 1024 ^ Suc ex * n" using True by simp
    then have "(1024 :: int) ^ Suc (Suc ex) < 2 ^ 63" using le(1) 1(5) by linarith
    moreover have "(1024 :: int) ^ 7 \<ge> 2 ^ 63" by simp
    ultimately have "\<not> Suc (Suc ex) \<ge> 7" using power_increasing[of 7 "Suc (Suc ex)" "1024 :: int"] by linarith
    then have ex: "Suc ex \<le> 5" by simp
    have i: "i64 (1024 ^ Suc ex * 1024) = 1024 ^ Suc (Suc ex)"
      using \<open>(1024 :: int) ^ Suc (Suc ex) < 2 ^ 63\<close> by (subst i64_id) (auto simp: in64_def mult.commute intro: order_trans[OF _ zero_le_power])
    have "b div 1024 ^ Suc (Suc ex) = n div 1024" 
    proof -
      have "(1024 :: int) ^ Suc (Suc ex) = 1024 ^ Suc ex * 1024" by simp
      then have "b div 1024 ^ Suc (Suc ex) = b div 1024 ^ Suc ex div 1024" by (simp only: zdiv_zmult2_eq[of 1024 b])
      then show ?thesis unfolding 1(2) .
    qed
    then show ?thesis using 1(1)[OF True] i True 1(4,5) ex by (simp add: scale_bytes.simps[of n])
  next
    case False
    have "(1024 :: int) ^ Suc ex * (n + 1) \<le> 1024 ^ Suc ex * 1024" using False by (intro mult_left_mono) auto
    moreover have "(1024 :: int) ^ Suc ex * 1 \<le> 1024 ^ Suc ex * n" using 1(3) by (intro mult_left_mono) auto
    moreover have "(1024 :: int) ^ Suc (Suc ex) = 1024 ^ Suc ex * 1024" by simp
    ultimately have "1024 ^ Suc ex \<le> b" "b < 1024 ^ Suc (Suc ex)" using le by linarith+
    then show ?thesis using False 1(6) by (intro exI[of _ ex]) (simp add: scale_bytes.simps[of n])
  qed
qed

lemma bytes_unit_in_range:
  assumes "1024 \<le> b" "b < 2 ^ 63"
  shows "\<exists>k. bytes_unit b = (1024 ^ Suc k, k) \<and> k \<le> 5 \<and> 1024 ^ Suc k \<le> b \<and> b < 1024 ^ Suc (Suc k)"
proof -
  have "1 \<le> b div 1024" using assms(1) by linarith
  then show ?thesis using scale_bytes_ok[of b 0 "b div 1024"] assms by (simp add: bytes_unit_def)
qed

end
