(* ===== verification/Download_Flow.thy ===== *)
theory Download_Flow
  imports Download_Files Download_Manager
begin

text \<open>
  \<open>cmd/goosie/document_loader.go\<close>: how a response that streams becomes a file and an entry of the list
  of downloads. While the loader works, the window's goroutine uses the same manager: the record
  \<open>flow\<close> says which calls come between the loader's own, and whether a quarter of a second has passed
  when progress is reported. With a target the user picked, the file goes there instead of under
  the first free name. Without a manager nothing of this is kept, and that branch is left out.
\<close>

subsection \<open>The loader\<close>

record flow =
  flURL :: string
  flName :: string
  flLength :: int
  flNow :: int
  flCanceler :: nat
  flTarget :: "string option"
  flAbsolute :: "string \<Rightarrow> (string \<times> string) option"
  flLate :: "ctx_err option"
  flText :: "save_error \<Rightarrow> string"
  flBefore :: "dl_call list"
  flDuring :: "nat \<Rightarrow> bool \<times> dl_call list"
  flAfter :: "dl_call list"
  flLast :: "dl_call list"

datatype flow_result = Done string | Stopped save_error

text \<open>Progress is passed on at once at first, then by half a megabyte or when it is due.\<close>

fun copy_phase :: "string \<Rightarrow> (nat \<Rightarrow> bool \<times> dl_call list) \<Rightarrow> nat \<Rightarrow> int \<Rightarrow> int list \<Rightarrow> download_manager \<Rightarrow> download_manager \<times> effect list" where
  "copy_phase key during i reached [] m = (m, [])"
| "copy_phase key during i reached (t # ts) m =
     (let (due, calls) = during i;
          news = (reached = 0 \<or> t - reached \<ge> 524288 \<or> due);
          (m, es) = (if news then update_progress key t m else (m, []));
          (m, es') = dl_run calls m;
          (m, es'') = copy_phase key during (i + 1) (if news then t else reached) ts m
      in (m, es @ es' @ es''))"

definition save_flow :: "disk_env \<Rightarrow> (string \<Rightarrow> string) \<Rightarrow> flow \<Rightarrow> body \<Rightarrow> disk \<Rightarrow> disk \<times> int list \<times> int \<times> (save_error + string)" where
  "save_flow E path F src d =
     (case flTarget F of
        None \<Rightarrow> save_stream E path (flName F) (Some src) d
      | Some target \<Rightarrow>
          (case save_stream_to E (flAbsolute F) (flLate F) target (Some src) d of
             (d, told, tot, Some e) \<Rightarrow> (d, told, tot, Inl e)
           | (d, told, tot, None) \<Rightarrow> (d, told, tot, Inr (case flAbsolute F target of Some (dest, _) \<Rightarrow> dest | None \<Rightarrow> target))))"

definition stop_item :: "string \<Rightarrow> save_error \<Rightarrow> flow \<Rightarrow> download_manager \<Rightarrow> download_manager \<times> effect list" where
  "stop_item key e F m =
     (if e = SCancelled then cancel_item key (flNow F) m
      else case get_item key m of
             Some it \<Rightarrow> if itStatus it \<noteq> StatusCanceled then fail_item key (Some (flText F e)) (flNow F) m else (m, [])
           | None \<Rightarrow> (m, []))"

definition stream_download :: "disk_env \<Rightarrow> (string \<Rightarrow> string) \<Rightarrow> flow \<Rightarrow> body \<Rightarrow> download_manager \<Rightarrow> disk \<Rightarrow> download_manager \<times> disk \<times> flow_result \<times> effect list" where
  "stream_download E path F src m d =
     (let (m, e1) = create_item (flURL F) (flName F) (flLength F) (flNow F) m;
          key = itID (dmStore m (dmSeq m));
          (m, e2) = dl_run (flBefore F) m;
          (m, e3) = set_cancel key (Some (flCanceler F)) m;
          (d, told, tot, res) = save_flow E path F src d;
          (m, e4) = copy_phase key (flDuring F) 0 0 told m;
          (m, e5) = dl_run (flAfter F) m;
          es = e1 @ e2 @ e3 @ e4 @ e5
      in case res of
           Inl e \<Rightarrow> (let (m, e6) = stop_item key e F m in (m, d, Stopped e, es @ e6))
         | Inr full \<Rightarrow>
             (let (m, e6) = update_progress key tot m;
                  (m, e7) = complete_item key full (flNow F) m;
                  (m, e8) = dl_run (flLast F) m;
                  es = es @ e6 @ e7 @ e8
              in case get_item key m of
                   Some it \<Rightarrow> if itStatus it = StatusCompleted then (m, d, Done full, es) else (m, remove_file E full d, Stopped SCancelled, es)
                 | None \<Rightarrow> (m, remove_file E full d, Stopped SCancelled, es)))"

text \<open>A response that was read into memory first; \<open>writes\<close> is how much of it the disk takes.\<close>

definition buffered_download :: "disk_env \<Rightarrow> (string \<Rightarrow> string) \<Rightarrow> flow \<Rightarrow> write_outcome \<Rightarrow> string \<Rightarrow> download_manager \<Rightarrow> disk \<Rightarrow> download_manager \<times> disk \<times> flow_result \<times> effect list" where
  "buffered_download E path F writes data m d =
     (let (m, e1) = create_item (flURL F) (flName F) (int (length data)) (flNow F) m;
          key = itID (dmStore m (dmSeq m));
          (m, e2) = dl_run (flAfter F) m;
          (d, res, good) = save_file E path writes (flName F) data d
      in case res of
           Inl e \<Rightarrow> (let (m, e3) = fail_item key (Some (flText F e)) (flNow F) m in (m, d, Stopped e, e1 @ e2 @ e3))
         | Inr full \<Rightarrow>
             if \<not> good then (let (m, e3) = fail_item key (Some (flText F SWrite)) (flNow F) m in (m, d, Stopped SWrite, e1 @ e2 @ e3))
             else (let (m, e3) = complete_item key full (flNow F) m in (m, d, Done full, e1 @ e2 @ e3)))"

subsection \<open>What the others can do\<close>










subsection \<open>The list and the disk agree\<close>



text \<open>The user cancels while the second half comes in; the transport had it all.\<close>

definition slow_flow :: flow where
  "slow_flow = \<lparr>flURL = ''u'', flName = ''a/f.txt'', flLength = 3, flNow = 0, flCanceler = 7, flTarget = None, flAbsolute = (\<lambda>_. None), flLate = None,
     flText = (\<lambda>_. []), flBefore = [], flDuring = (\<lambda>i. (False, if i = 0 then [Cancel ''dl-1'' 1] else [])), flAfter = [], flLast = []\<rparr>"

lemmas flow_simps = stream_download_def save_flow_def create_item_def update_progress_def complete_item_def cancel_item_def set_cancel_def get_item_def
  stop_item_def put_item_def clear_completed_def tell_def item_running_def blank_item_def new_download_manager_def subscribe_def

lemma first_id: "item_id (Suc 0) = ''dl-1''"
  by code_simp



text \<open>
  Cancelling a response that was read into memory does not stop it: the file is saved and stays,
  and the list shows it as cancelled.
\<close>

lemma cancelled_buffered_download_saved:
  "\<exists>m' d' es it. buffered_download plain_env (\<lambda>n. ''/d/'' @ n) (slow_flow\<lparr>flAfter := [Cancel ''dl-1'' 1]\<rparr>) Wrote_All ''abc'' (new_download_manager ''/d'') (\<lambda>_. None)
    = (m', d', Done ''/d/a/f.txt'', es) \<and> d' ''/d/a/f.txt'' = Some (File ''abc'') \<and> get_item ''dl-1'' m' = Some it \<and> itStatus it = StatusCanceled"
proof -
  have "saved_name ''a/f.txt'' = ''a/f.txt''" "numbered ''a/f.txt'' 0 = ''a/f.txt''" by (simp_all add: saved_name_def numbered_def)
  then show ?thesis
    by (simp add: buffered_download_def flow_simps slow_flow_def first_id save_file_def candidates_three plain_env_def Let_def del: upt_rec_numeral)
qed

text \<open>
  Clearing the list between the loader's last two calls takes a completed item away before the
  loader looks at it, and the file that was saved is removed.
\<close>

lemma cleared_before_look:
  assumes "dm_ok m"
  shows "get_item key (fst (dl_run [Clear] (fst (complete_item key full now m)))) = None
    \<or> itStatus (the (get_item key (fst (dl_run [Clear] (fst (complete_item key full now m)))))) \<noteq> StatusCompleted"
proof -
  have ok: "dm_ok (fst (complete_item key full now m))" using dl_step_ok[OF assms, of "Complete key full now"] by simp
  show ?thesis by (auto simp: get_item_def clear_by_id[OF ok] clear_fields item_running_def split: option.split)
qed

lemma copy_ok: "dm_ok m \<Longrightarrow> dm_ok (fst (copy_phase key during i reached ts m))"
proof (induction ts arbitrary: i reached m)
  case (Cons t ts)
  obtain due calls where d: "during i = (due, calls)" by fastforce
  let ?news = "reached = 0 \<or> t - reached \<ge> 524288 \<or> due"
  have "dm_ok (fst (if ?news then update_progress key t m else (m, [])))" using Cons.prems dl_step_ok[OF Cons.prems, of "Progress key t"] by simp
  from Cons.IH[OF dl_run_ok[OF this]] show ?case by (simp only: copy_phase.simps Let_def d case_prod_beta prod.sel)
qed simp

lemma cleared_download_vanishes:
  assumes "dm_reach m" "stream_download E path F src m d = (m', d', res, es)" "flLast F = [Clear]"
  shows "res \<noteq> Done full"
proof -
  define m1 where "m1 = fst (create_item (flURL F) (flName F) (flLength F) (flNow F) m)"
  define key where "key = itID (dmStore m1 (dmSeq m1))"
  define m3 where "m3 = fst (set_cancel key (Some (flCanceler F)) (fst (dl_run (flBefore F) m1)))"
  obtain d1 told tot r where save: "save_flow E path F src d = (d1, told, tot, r)" by (metis prod.exhaust)
  define m5 where "m5 = fst (dl_run (flAfter F) (fst (copy_phase key (flDuring F) 0 0 told m3)))"
  have "dm_ok m1" unfolding m1_def by (rule create_ok[OF dm_reach_ok[OF assms(1)]])
  then have "dm_ok m3" unfolding m3_def using dl_step_ok[OF dl_run_ok, of m1 "SetCancel key (Some (flCanceler F))"] by simp
  then have "dm_ok m5" unfolding m5_def by (intro dl_run_ok copy_ok)
  then have m6: "dm_ok (fst (update_progress key tot m5))" using dl_step_ok[of m5 "Progress key tot"] by simp
  note flow = assms(2)[unfolded stream_download_def Let_def case_prod_beta, folded m1_def, folded key_def, folded m3_def, unfolded save prod.sel, folded m5_def]
  show ?thesis
  proof (cases r)
    case (Inl e)
    then show ?thesis using flow by auto
  next
    case (Inr f)
    then show ?thesis using flow cleared_before_look[OF m6, of key f "flNow F"] unfolding assms(3)
      by (auto simp del: dl_run.simps split: option.splits if_splits)
  qed
qed

end
