(* ===== verification/Spec2Isabelle.thy ===== *)
theory Spec2Isabelle
  imports Grid_Claims Frame_Planning Frame_Loop Glyph_Atlas Cookie_Store Tab_Books Dom_Session Event_Claims Style_Claims Net_Address Net_Session Download_Flow
begin

text \<open>
  A verification development of goosie, a web browser written in Go. It follows the program's
  own division: the frame path, which turns a page's display list into pixels in the window
  under a byte budget (\<open>internal/frame\<close>, \<open>internal/paint\<close>, \<open>internal/raster\<close>,
  \<open>internal/surface\<close>); the document tree that scripts and the parser mutate, with the dispatch of its events (\<open>internal/dom\<close>);
  selectors, the index of style rules and the cascade (\<open>internal/css\<close>, \<open>internal/style\<close>);
  the network client with its cookies, cache, filter and address rules (\<open>internal/net\<close>); downloads
  (\<open>internal/download\<close>); and the books of the browser window, its tabs and
  their histories (\<open>internal/tabs\<close>, \<open>internal/toolbar\<close>). Each theory opens with what it models
  and under which conventions.

  How the parts interact. The engine appends commands to a list builder and publishes a frozen
  display list, with its damage, as the content of a layer. On every vsync the frame loop merges
  the input events that arrived, and lets its scheduler begin a frame: resolve the viewport,
  walk the visible tiles of the layer's grid, order a buffer for each tile that must be painted
  (evicting the least recently used ones when the budget is reached), submit the jobs to the
  worker pool, poll what the workers finished and install it. The composer copies the tiles
  that changed into the backing store, scrolling what it can, and the window presents it. The
  loop knows scheduler and window as interfaces only. The document tree feeds the engine; its
  mutations are what the script binding calls after its own checks. Input becomes events that are
  dispatched on the tree; queries of scripts and the style pass ask the tree through selectors, the
  latter through an index of all rules, and the cascade orders what matched. A navigation pushes to a
  tab's history and goes through the client, which asks filter, cache and jar before the server, and
  dials under the guard that the page's own address calls for; a response that is no page is streamed
  to disk while the list of downloads shows its progress.

  \<^bold>\<open>Conventions.\<close> Go integers of fixed width are integers with the wrap-around written out
  (\<open>i32\<close>, \<open>i64\<close>), pixels are words; a pointer is an address into an explicit store; a panic, an index
  out of range or a nil dereference is \<open>None\<close>. A loop that walks pointers is a partial function,
  where \<open>None\<close> is not returning, and the theorems prove that it returns. A mutex held for a
  whole method makes the method one step; the worker pool, whose goroutines interleave, is a
  transition system of atomic actions. The strings are bytes, and where the code lowers case, folds
  it or trims space the model does so for ASCII, which Go's functions do for all of Unicode. Where the code ranges over a Go map, the order is a
  parameter of the model and the theorems hold for every order.

  \<^bold>\<open>Prelude and libraries.\<close> \<open>Prelude\<close> holds the integers, slices with range checks and the loop
  combinator \<open>fold_opt\<close>; \<open>Linked_List\<close> the doubly linked pointers over keys, and the locale
  \<open>recency\<close>; \<open>Go_Strings\<close> the functions of the packages \<open>strings\<close> and \<open>strconv\<close>.

  \<^bold>\<open>Frame path.\<close>
  \<^item> \<open>Geometry\<close> (\<open>frame/geom.go\<close>, \<open>math.go\<close>, \<open>tile.go\<close>), \<open>Bitmaps\<close> (\<open>frame/bitmap.go\<close>): rectangles
    at 32 bits, tiles by coordinate, blending, fills and blits on bytes. The lemmas give the
    pixels written and that no slice is out of range.
  \<^item> \<open>Buffer_Pool\<close> (\<open>frame/pool.go\<close>): the buffer pool and the locale \<open>buffer_source\<close>, the exclusive
    ownership of buffers, interpreted on it.
  \<^item> \<open>Tile_Grid\<close> (\<open>frame/grid.go\<close>) is the grid with every exported operation. \<open>Grid_Lru\<close> reads its
    pointers as a list, \<open>Grid_Invariant\<close> states the books that every operation keeps and
    interprets \<open>recency\<close>, \<open>Grid_Budget\<close> proves them for eviction and the buffer operations,
    \<open>Grid_Claims\<close> states what clients get, \<open>Grid_Orders\<close> what the scheduler sees.
  \<^item> \<open>Display_List\<close> (\<open>paint/cmd.go\<close>, \<open>list.go\<close>): commands, damage between two contents, the span
    of a tile. \<open>Layers\<close> (\<open>frame/layer.go\<close>, \<open>plan.go\<close>, \<open>recorder.go\<close>): the depth-1 slot and the ring.
  \<^item> \<open>Compositor\<close> (\<open>surface/composer.go\<close>): the backing store, with the theorem that composing shows
    exactly the tiles; \<open>Incremental_Compose\<close> proves that composing only the damage after a scroll
    shows what a full repaint would.
  \<^item> \<open>Raster_Pool\<close> (\<open>raster/pool.go\<close>): jobs, queues and workers as atomic steps, the two loads, the send
    and the increment of \<open>Submit\<close> too; no job lost or reported twice in any interleaving but the one
    in which \<open>Submit\<close> overtakes \<open>Close\<close>, which strands one; \<open>Close\<close> returning; locale \<open>job_service\<close>.
  \<^item> \<open>Glyph_Atlas\<close> (\<open>raster/atlas.go\<close>): the cache of rendered glyphs the workers share. \<open>Get\<close> locks
    twice and renders in between; under every interleaving it answers what the fonts render, keeps
    its budget and forgets the least recently used.
  \<^item> \<open>Scheduler\<close> (\<open>raster/scheduler.go\<close>) over a world of layers, pool and pixels.
    \<open>Frame_System\<close> is the scheduler with its pool as one transition system (orders are the
    jobs in flight, the memory plateau, the submission loop ends), in which workers and \<open>Close\<close> step
    between the scheduler's calls; \<open>Frame_Planning\<close> what one
    frame asks for, against a reference planner.
  \<^item> \<open>Input_Events\<close> (\<open>surface/window.go\<close>) and \<open>Frame_Loop\<close> (\<open>surface/loop.go\<close>): the merge of
    events against what a batch of them means, the loop with every error path, and the locale \<open>frame_source_contract\<close> interpreted
    on the scheduler's model.

  \<^bold>\<open>Document tree\<close> (\<open>dom/node.go\<close>, \<open>attachShadow\<close> of \<open>js/shadow_dom.go\<close>).
  \<open>Dom_Node\<close> has the data and the reading walks, \<open>Dom_Ops\<close> the mutations with adoption and the
  form state they set off. \<open>Dom_Shape\<close> says what a well-formed store denotes and that all walks
  on it return; \<open>Dom_Tree\<close> and \<open>Dom_Moves\<close> what linking and unlinking do to it; \<open>Dom_Claims\<close> is
  the contract over the lists of children; \<open>Dom_Queries\<close> the climbs, on cyclic stores too;
  \<open>Dom_Select\<close> the selectedness of options; \<open>Dom_Shadow\<close> appending to a shadow root;
  \<open>Dom_Session\<close> any sequence of calls, the template that is put into its own content, and the
  repeated append to a shadow root that makes a list circular.

  \<^bold>\<open>Events\<close> (\<open>dom/events.go\<close>). \<open>Dom_Events\<close> has the event, the registry of listeners and dispatch, with
  what a callback does as a parameter; \<open>Dom_Dispatch\<close> the stages a dispatch goes through; \<open>Event_Trace\<close> and
  \<open>Event_Claims\<close> which listeners are called, in which order and how often, whatever callbacks do to the registry.

  \<^bold>\<open>Selectors and cascade.\<close> \<open>Css_Selector\<close> has parsed selectors, positions and specificity, and
  \<open>Css_Match\<close> the matcher with its caches (\<open>css/selector.go\<close>); \<open>Css_Meaning\<close> says what a selector means on
  the tree and proves that the matcher computes it, with the cache of siblings too; \<open>Css_Claims\<close> adds the
  queries of \<open>js/selector.go\<close>, the formula of positions, and the answers that the cache of \<open>:has()\<close> mixes up.
  \<open>Style_Index\<close> (\<open>style/matcher.go\<close>) is the rule index with its invariant: every selector is filed where a
  node it could match looks. \<open>Style_Cascade\<close> (\<open>style/style.go\<close>) tests the candidates, builds the entries and
  orders them; \<open>Style_Claims\<close> proves that index and cache are invisible and which declaration wins.

  \<^bold>\<open>Cookies\<close> (\<open>net/cookie.go\<close>). \<open>Cookie_Jar\<close> is the jar; \<open>Cookie_Policy\<close> its limits and who can be
  sent a cookie; \<open>Cookie_Store\<close> eviction, \<open>HttpOnly\<close>, saving and loading with what JSON does to the
  text, and behaviours that the comments do not promise.

  \<^bold>\<open>Network client.\<close> \<open>Net_Address\<close> (\<open>engine/limits.go\<close>, \<open>net/address_guard.go\<close>, \<open>cmd/goosie/page_load.go\<close>)
  is the rule that keeps a public page off the private network, by name and by address dialled.
  \<open>Net_Filter\<close> (\<open>net/filter.go\<close>) decides what is blocked, \<open>Net_Cache\<close> (\<open>net/cache.go\<close>) what may be kept and
  how long, with the locale \<open>response_store\<close> of what the client relies on. \<open>Net_Url\<close>, \<open>Net_Client\<close> and \<open>Net_Stream\<close> (\<open>net/http.go\<close>) are addresses and redirects,
  requests, and bodies still to be read; \<open>Net_Session\<close> composes them: when a server is contacted and
  with which cookies, what a failure leaves, and the bounds every history of a client keeps.

  \<^bold>\<open>Downloads.\<close> \<open>Download_Names\<close> and \<open>Download_Files\<close> (\<open>download/download.go\<close>) choose a name and write the
  file, all or nothing, where the system may refuse to make a folder or to remove a file; \<open>Download_Manager\<close> (\<open>download/manager.go\<close>) is the list with its cancelers;
  \<open>Download_Flow\<close> (\<open>cmd/goosie/document_loader.go\<close>) is the loader using both while the window uses the
  list too, with the theorem that list and disk agree.

  \<^bold>\<open>Window books.\<close> \<open>Nav_History\<close> (\<open>toolbar/history.go\<close>) refines the history to a trail of pages;
  \<open>Tab_Strip\<close> (\<open>tabs/layout.go\<close>) is the geometry of the strip; \<open>Tab_Manager\<close> and \<open>Tab_Books\<close>
  (\<open>tabs/manager.go\<close>, \<open>tab.go\<close>) the manager and its promises.

  \<^bold>\<open>Bounds.\<close> The model has no fuel: a loop whose end is a matter of the program is a partial
  function or a function with a termination proof, and the theorems say it returns. Bounds in
  hypotheses keep 32-bit arithmetic from wrapping, in the range of real windows and documents,
  and each property that has one has a witness within it.

  \<^bold>\<open>Not modelled.\<close> Parsing of HTML and CSS, computed values, layout and the painting of text and boxes
  (\<open>css\<close>, \<open>style\<close>, \<open>layout\<close>, \<open>text\<close>, the producers in \<open>paint\<close> and the rasterizer of \<open>raster/tile.go\<close>):
  what reaches the frame path is any display list, and what a worker paints is a parameter. The
  script runtime (\<open>js\<close>) and the engine that drives it: large bindings over a third-party
  interpreter. Pseudo-classes that read state outside the tree are a
  predicate, and registered properties and container queries are left to parameters. Of \<open>dom/node.go\<close> cloning, attribute writes and the query index; floating-point
  types and percentiles; file formats and the file system; platform windows. Of \<open>net\<close> the transport,
  DNS over HTTPS and text decoding, which call libraries, and the HSTS table, which nothing calls. The manifest lists every part with its reason.
\<close>

end
